(* ===== verification/Prelude.thy ===== *)
theory Prelude
  imports Main "HOL-Library.Word" "HOL-Library.Multiset"
begin

unbundle bit_operations_syntax

text \<open>
  Shared vocabulary of the development: bytes, the narrowing casts of the C code, little-endian
  integers, buffer copies (\<^verbatim>\<open>memcpy\<close> and \<^verbatim>\<open>memmove\<close>) and C strings, with the
  generic lemmas on lists and words that every component uses.  A value of a C integer type is a
  natural number below \<open>2 ^ w\<close>; wherever the source narrows, the cast is written out with
  \<open>to_u8\<close>, \<open>to_u16\<close> or \<open>to_u32\<close>.  Words (\<open>8 word\<close>, \<open>32 word\<close>) are used where the
  code works on bits.
\<close>

type_synonym byte = "8 word"
type_synonym u32 = "32 word"

named_theorems layout "values of the layout constants"
named_theorems codec "laws of the encoders and decoders of on-disk structures"

subsection \<open>Casts\<close>

abbreviation UINT16_MAX :: nat where "UINT16_MAX \<equiv> 65535"

definition to_u8 :: "nat \<Rightarrow> nat" where "to_u8 n = n mod 256"
definition to_u16 :: "nat \<Rightarrow> nat" where "to_u16 n = n mod 65536"
definition to_u32 :: "nat \<Rightarrow> nat" where "to_u32 n = n mod 4294967296"

lemma to_u8_id [simp]: "n < 256 \<Longrightarrow> to_u8 n = n"
  by (simp add: to_u8_def)

lemma to_u16_id [simp]: "n < 65536 \<Longrightarrow> to_u16 n = n"
  by (simp add: to_u16_def)

lemma to_u32_id [simp]: "n < 4294967296 \<Longrightarrow> to_u32 n = n"
  by (simp add: to_u32_def)

lemma to_u16_less [simp]: "to_u16 n < 65536"
  by (simp add: to_u16_def)

subsection \<open>Buffers\<close>

text \<open>\<open>slice off len b\<close> is the \<open>len\<close> bytes of \<open>b\<close> from \<open>off\<close>; \<open>splice off s b\<close> is
  \<open>b\<close> after \<^verbatim>\<open>memcpy(&b[off], s, length s)\<close>; \<open>memmove dst src n b\<close> copies \<open>n\<close> elements
  inside one buffer, overlaps included.\<close>

definition slice :: "nat \<Rightarrow> nat \<Rightarrow> 'a list \<Rightarrow> 'a list" where
  "slice off len b = take len (drop off b)"

definition splice :: "nat \<Rightarrow> 'a list \<Rightarrow> 'a list \<Rightarrow> 'a list" where
  "splice off s b = take off b @ s @ drop (off + length s) b"

definition memmove :: "nat \<Rightarrow> nat \<Rightarrow> nat \<Rightarrow> 'a list \<Rightarrow> 'a list" where
  "memmove dst src n b = splice dst (slice src n b) b"

lemma length_slice [simp]: "length (slice off len b) = min len (length b - off)"
  by (simp add: slice_def)

lemma length_splice [simp]:
  "off + length s \<le> length b \<Longrightarrow> length (splice off s b) = length b"
  by (simp add: splice_def)

lemma nth_slice [simp]: "off + len \<le> length b \<Longrightarrow> i < len \<Longrightarrow> slice off len b ! i = b ! (off + i)"
  by (simp add: slice_def)

lemma nth_splice:
  "off + length s \<le> length b \<Longrightarrow> i < length b \<Longrightarrow>
   splice off s b ! i = (if off \<le> i \<and> i < off + length s then s ! (i - off) else b ! i)"
  by (auto simp: splice_def nth_append min_def)

lemma slice_splice_same [simp]:
  "off + length s \<le> length b \<Longrightarrow> slice off (length s) (splice off s b) = s"
  by (simp add: slice_def splice_def)

lemma slice_splice_other:
  assumes "off + length s \<le> length b" and "p + len \<le> length b"
    and "p + len \<le> off \<or> off + length s \<le> p"
  shows "slice p len (splice off s b) = slice p len b"
  using assms by (intro nth_equalityI) (auto simp: nth_splice)

lemma slice_splice_after:
  "off + length s \<le> length b \<Longrightarrow> off + length s \<le> p \<Longrightarrow> slice p len (splice off s b) = slice p len b"
  by (simp add: splice_def slice_def)

lemma slice_append1 [simp]: "off + len \<le> length a \<Longrightarrow> slice off len (a @ b) = slice off len a"
  by (simp add: slice_def)

lemma slice_append2 [simp]: "length a \<le> off \<Longrightarrow> slice off len (a @ b) = slice (off - length a) len b"
  by (simp add: slice_def)

lemma slice_full [simp]: "length b = len \<Longrightarrow> slice 0 len b = b"
  by (simp add: slice_def)

lemma slice_prefix: "length a = len \<Longrightarrow> slice 0 len (a @ b) = a"
  by (simp add: slice_def)

lemma slice_Cons [simp]:
  "slice (Suc n) len (x # b) = slice n len b" "0 < k \<Longrightarrow> slice k len (x # b) = slice (k - 1) len b"
  by (simp_all add: slice_def drop_Cons')

lemma slice_0_len [simp]: "slice off 0 b = []"
  by (simp add: slice_def)

lemma splice_nil [simp]: "splice off [] b = b"
  by (simp add: splice_def)

text \<open>Shifting a tail right by one and writing the gap is insertion; shifting left is deletion.\<close>

lemma memmove_insert:
  assumes "r \<le> n" and "n < length b"
  shows "take (Suc n) ((memmove (Suc r) r (n - r) b)[r := x]) = take r b @ x # drop r (take n b)"
proof -
  have m: "memmove (Suc r) r (n - r) b = take (Suc r) b @ take (n - r) (drop r b) @ drop (Suc n) b"
    using assms by (simp add: memmove_def splice_def slice_def)
  have t: "take (Suc r) b = take r b @ [b ! r]"
    using assms by (simp add: take_Suc_conv_app_nth)
  have u: "(take (Suc r) b)[r := x] = take r b @ [x]"
    using assms by (simp add: t list_update_append)
  have "(memmove (Suc r) r (n - r) b)[r := x] = take r b @ x # take (n - r) (drop r b) @ drop (Suc n) b"
    using assms by (simp add: m list_update_append u)
  then show ?thesis
    using assms by (simp add: drop_take Suc_diff_le)
qed

lemma memmove_delete:
  assumes "r < n" and "n \<le> length b"
  shows "take (n - 1) (memmove r (Suc r) (n - r - 1) b) = take r b @ drop (Suc r) (take n b)"
  using assms by (simp add: memmove_def splice_def slice_def drop_take)

lemma length_memmove [simp]:
  "dst + n \<le> length b \<Longrightarrow> src + n \<le> length b \<Longrightarrow> length (memmove dst src n b) = length b"
  by (simp add: memmove_def)

text \<open>Adjacent slices join; the encoders of on-disk structures are inverted with these.\<close>

lemma slice_join:
  "q = p + m \<Longrightarrow> slice p m b @ slice q n b = slice p (m + n) b"
  "q = p + m \<Longrightarrow> slice p m b @ slice q n b @ r = slice p (m + n) b @ r"
  by (simp_all add: slice_def take_add add.commute)

lemma slice_cons:
  "i < length b \<Longrightarrow> q = Suc i \<Longrightarrow> b ! i # slice q n b = slice i (Suc n) b"
  "i < length b \<Longrightarrow> q = Suc i \<Longrightarrow> b ! i # slice q n b @ r = slice i (Suc n) b @ r"
  "i < length b \<Longrightarrow> q = Suc i \<Longrightarrow> q < length b \<Longrightarrow> b ! i # b ! q # r = slice i 2 b @ r"
  by (simp_all add: slice_def Cons_nth_drop_Suc [symmetric] numeral_2_eq_2)

lemma slice_as_nth: "i < length b \<Longrightarrow> slice i (Suc 0) b = [b ! i]"
  by (simp add: slice_def Cons_nth_drop_Suc [symmetric])

lemma length_concat_const:
  "(\<And>i. i < n \<Longrightarrow> length (f i) = m) \<Longrightarrow> length (concat (map f [0..<n])) = n * m"
  by (induction n) simp_all

lemma slice_concat:
  "(\<And>i. i < n \<Longrightarrow> length (f i) = m) \<Longrightarrow> s < n \<Longrightarrow> slice (s * m) m (concat (map f [0..<n])) = f s"
proof (induction n)
  case (Suc n)
  have l: "length (concat (map f [0..<n])) = n * m" using Suc.prems(1) by (intro length_concat_const) simp
  show ?case
  proof (cases "s = n")
    case False
    then have s: "Suc s * m \<le> n * m" using Suc.prems(2) by (intro mult_le_mono1) simp
    then show ?thesis using Suc False l by simp
  qed (use Suc.prems l in simp)
qed simp

text \<open>Arrays of fixed-size records inside a buffer, at offset \<open>off\<close> with element size \<open>m\<close>.\<close>

definition decode_array :: "nat \<Rightarrow> nat \<Rightarrow> nat \<Rightarrow> ('b list \<Rightarrow> 'a) \<Rightarrow> 'b list \<Rightarrow> 'a list" where
  "decode_array off m n dec b = map (\<lambda>i. dec (slice (off + i * m) m b)) [0..<n]"

lemma length_decode_array [simp]: "length (decode_array off m n dec b) = n"
  by (simp add: decode_array_def)

lemma nth_decode_array [simp]: "i < n \<Longrightarrow> decode_array off m n dec b ! i = dec (slice (off + i * m) m b)"
  by (simp add: decode_array_def)

lemma encode_decode_array:
  assumes "\<And>c. length c = m \<Longrightarrow> enc (dec c) = c" and "off + n * m \<le> length b"
  shows "concat (map enc (decode_array off m n dec b)) = slice off (n * m) b"
  using assms(2)
proof (induction n)
  case (Suc n)
  then have "enc (dec (slice (off + n * m) m b)) = slice (off + n * m) m b" by (intro assms(1)) simp
  then show ?case using Suc slice_join(1) [of "off + n * m" off "n * m" b m]
    by (simp add: decode_array_def add.commute)
qed (simp add: decode_array_def)

lemma decode_encode_array:
  assumes "\<And>x. x \<in> set xs \<Longrightarrow> length (enc x) = m \<and> dec (enc x) = x" and "length xs = n" and "length pre = off"
  shows "decode_array off m n dec (pre @ concat (map enc xs) @ r) = xs"
proof (rule nth_equalityI)
  fix i assume "i < length (decode_array off m n dec (pre @ concat (map enc xs) @ r))"
  then have i: "i < n" by simp
  have c: "concat (map enc xs) = concat (map (\<lambda>i. enc (xs ! i)) [0..<n])"
    using assms(2) by (metis (mono_tags, lifting) map_map map_nth comp_apply map_eq_conv)
  have len: "length (enc (xs ! j)) = m" if "j < n" for j using that assms(1,2) by simp
  have "length (concat (map enc xs)) = n * m" unfolding c by (rule length_concat_const) (rule len)
  moreover have "i * m + m \<le> n * m" using mult_le_mono1 [of "Suc i" n m] i by simp
  ultimately have "slice (off + i * m) m (pre @ concat (map enc xs) @ r) = slice (i * m) m (concat (map enc xs))"
    using assms(3) by simp
  also have "\<dots> = enc (xs ! i)" unfolding c by (rule slice_concat) (use len i in auto)
  finally show "decode_array off m n dec (pre @ concat (map enc xs) @ r) ! i = xs ! i"
    using i assms(1,2) by simp
qed (simp add: assms)

lemma length_encode_array:
  assumes "\<And>x. x \<in> set xs \<Longrightarrow> length (enc x) = m"
  shows "length (concat (map enc xs)) = length xs * m"
  using assms by (induction xs) simp_all

subsection \<open>Little-endian integers\<close>

definition le16 :: "nat \<Rightarrow> byte list" where
  "le16 n = [of_nat n, of_nat (n div 256)]"

definition rd16 :: "byte list \<Rightarrow> nat" where
  "rd16 b = unat (b ! 0) + 256 * unat (b ! 1)"

definition le32 :: "nat \<Rightarrow> byte list" where
  "le32 n = [of_nat n, of_nat (n div 256), of_nat (n div 65536), of_nat (n div 16777216)]"

definition rd32 :: "byte list \<Rightarrow> nat" where
  "rd32 b = unat (b ! 0) + 256 * unat (b ! 1) + 65536 * unat (b ! 2) + 16777216 * unat (b ! 3)"

lemma length_le16 [simp]: "length (le16 n) = 2" by (simp add: le16_def)
lemma length_le32 [simp]: "length (le32 n) = 4" by (simp add: le32_def)

lemma unat_byte_of_nat: "unat (of_nat n :: byte) = n mod 256"
  by (simp add: unat_of_nat)

lemma of_nat_unat_byte [simp]: "(of_nat (unat (b :: byte)) :: byte) = b"
  by simp

lemma byte_less [simp]: "unat (b :: byte) < 256"
  by (rule less_le_trans [OF unsigned_less]) simp

lemma byte_eq_iff: "(of_nat m :: byte) = v \<longleftrightarrow> m mod 256 = unat v"
  by (metis of_nat_unat_byte unat_byte_of_nat)

lemma rd16_le16 [codec]: "rd16 (le16 n) = to_u16 n"
proof -
  have "n mod 65536 = n mod 256 + 256 * (n div 256 mod 256)"
    using mod_mult2_eq [of n 256 256] by simp
  then show ?thesis by (simp add: rd16_def le16_def unat_byte_of_nat to_u16_def)
qed

lemma rd32_le32 [codec]: "rd32 (le32 n) = to_u32 n"
proof -
  have a: "n mod 4294967296 = n mod 65536 + 65536 * (n div 65536 mod 65536)"
    using mod_mult2_eq [of n 65536 65536] by simp
  have b: "n mod 65536 = n mod 256 + 256 * (n div 256 mod 256)"
    using mod_mult2_eq [of n 256 256] by simp
  have c: "n div 65536 mod 65536 = n div 65536 mod 256 + 256 * (n div 16777216 mod 256)"
    using mod_mult2_eq [of "n div 65536" 256 256] by (simp add: div_mult2_eq [symmetric])
  have d: "n mod 4294967296 = n mod 256 + 256 * (n div 256 mod 256) +
      65536 * (n div 65536 mod 256) + 16777216 * (n div 16777216 mod 256)"
    unfolding a b c by simp
  show ?thesis by (simp add: rd32_def le32_def unat_byte_of_nat to_u32_def d del: of_nat_add)
qed

lemma rd16_less: "rd16 b < 65536"
proof -
  have "unat (b ! 0) < 256" "unat (b ! 1) < 256" by (rule byte_less)+
  then show ?thesis unfolding rd16_def by linarith
qed

lemma rd32_less: "rd32 b < 4294967296"
proof -
  have "unat (b ! 0) < 256" "unat (b ! 1) < 256" "unat (b ! 2) < 256" "unat (b ! 3) < 256"
    by (rule byte_less)+
  then show ?thesis unfolding rd32_def by linarith
qed

lemma byte_of_nat_low: "(of_nat (unat (x :: byte) + 256 * k) :: byte) = x"
  by (simp add: byte_eq_iff del: of_nat_add)

lemma byte_div [simp]: "(unat (x :: byte) + 256 * k) div 256 = k"
  using byte_less [of x] by (simp add: div_mult_self2)

lemma le16_rd16 [codec]:
  assumes "length b = 2"
  shows "le16 (rd16 b) = b"
proof -
  from assms obtain x y where b: "b = [x, y]"
    by (auto simp: length_Suc_conv numeral_2_eq_2)
  then show ?thesis
    by (simp only: le16_def rd16_def nth_Cons_0 nth_Cons_Suc One_nat_def byte_of_nat_low byte_div
        of_nat_unat_byte)
qed

lemma le32_rd32 [codec]:
  assumes "length b = 4"
  shows "le32 (rd32 b) = b"
proof -
  from assms obtain x y z w where b: "b = [x, y, z, w]"
    by (auto simp: length_Suc_conv eval_nat_numeral)
  let ?n = "unat x + 256 * (unat y + 256 * (unat z + 256 * unat w))"
  have n: "rd32 b = ?n"
    by (simp add: b rd32_def)
  have d: "?n div 65536 = ?n div 256 div 256" "?n div 16777216 = ?n div 256 div 256 div 256"
    by (simp_all add: div_mult2_eq [symmetric] del: byte_div)
  show ?thesis
    unfolding le32_def n d by (simp only: byte_of_nat_low byte_div of_nat_unat_byte b)
qed

subsection \<open>C strings\<close>

text \<open>\<open>cstr b\<close> is the string a buffer holds for \<^verbatim>\<open>strlen\<close> and \<^verbatim>\<open>strcmp\<close>: its bytes up to
  the first NUL.  A C string argument is the list of its bytes without the terminator.\<close>

definition cstr :: "byte list \<Rightarrow> byte list" where
  "cstr b = takeWhile (\<lambda>c. c \<noteq> 0) b"

definition pad_to :: "nat \<Rightarrow> byte list \<Rightarrow> byte list" where
  "pad_to n s = s @ replicate (n - length s) 0"

lemma length_pad_to [simp]: "length s \<le> n \<Longrightarrow> length (pad_to n s) = n"
  by (simp add: pad_to_def)

lemma cstr_pad_to [simp]: "0 \<notin> set s \<Longrightarrow> cstr (pad_to n s) = s"
proof -
  assume z: "0 \<notin> set s"
  then have "takeWhile (\<lambda>c. c \<noteq> 0) (s @ t) = s @ takeWhile (\<lambda>c. c \<noteq> 0) t" for t
    by (intro takeWhile_append2) auto
  moreover have "takeWhile (\<lambda>c. c \<noteq> 0) (replicate k (0 :: byte)) = []" for k
    by (cases k) simp_all
  ultimately show ?thesis by (simp add: cstr_def pad_to_def)
qed

subsection \<open>Bit scans\<close>

text \<open>\<open>set_bits_of w\<close> lists the set bits of a word upwards; \<open>ctz\<close>, \<open>clz\<close> and \<open>popcount\<close>
  are the compiler builtins on it (the first two on a nonzero word), \<open>clear_lowest\<close> is
  \<^verbatim>\<open>w &= w - 1\<close>.\<close>

definition set_bits_of :: "'a::len word \<Rightarrow> nat list" where
  "set_bits_of w = filter (bit w) [0..<LENGTH('a)]"

definition ctz :: "'a::len word \<Rightarrow> nat" where "ctz w = hd (set_bits_of w)"
definition clz :: "'a::len word \<Rightarrow> nat" where "clz w = LENGTH('a) - 1 - last (set_bits_of w)"
definition popcount :: "'a::len word \<Rightarrow> nat" where "popcount w = length (set_bits_of w)"
definition clear_lowest :: "'a::len word \<Rightarrow> 'a word" where "clear_lowest w = w AND (w - 1)"

lemma set_set_bits_of: "set (set_bits_of (w :: 'a::len word)) = {i. bit w i}"
  by (auto simp: set_bits_of_def dest: bit_imp_le_length)

lemma sorted_set_bits_of: "sorted (set_bits_of w)" "distinct (set_bits_of w)"
  by (simp_all add: set_bits_of_def sorted_wrt_filter del: upt_0)

lemma set_bits_of_0 [simp]: "set_bits_of (0 :: 'a::len word) = []"
  by (simp add: set_bits_of_def)

lemma set_bits_of_empty_iff [simp]: "set_bits_of w = [] \<longleftrightarrow> w = 0"
proof
  assume "set_bits_of w = []"
  then have "\<not> bit w i" for i using set_set_bits_of [of w] by auto
  then show "w = 0" by (intro bit_eqI) simp
qed simp

lemma ctz_props:
  assumes "w \<noteq> 0"
  shows "bit w (ctz w)" and "\<And>i. bit w i \<Longrightarrow> ctz w \<le> i"
proof -
  have ne: "set_bits_of w \<noteq> []" using assms by simp
  then have "ctz w \<in> set (set_bits_of w)" by (simp add: ctz_def)
  then show "bit w (ctz w)" by (simp add: set_set_bits_of)
  fix i assume "bit w i"
  then have "i \<in> set (set_bits_of w)" by (simp add: set_set_bits_of)
  then show "ctz w \<le> i" using ne sorted_set_bits_of(1) [of w]
    by (cases "set_bits_of w") (auto simp: ctz_def)
qed

lemma last_bit_props:
  assumes "w \<noteq> 0"
  shows "bit w (last (set_bits_of w))" and "\<And>i. bit w i \<Longrightarrow> i \<le> last (set_bits_of w)"
proof -
  have ne: "set_bits_of w \<noteq> []" using assms by simp
  then have "last (set_bits_of w) \<in> set (set_bits_of w)" by simp
  then show "bit w (last (set_bits_of w))" by (simp add: set_set_bits_of)
  fix i assume "bit w i"
  then have "i \<in> set (set_bits_of w)" by (simp add: set_set_bits_of)
  moreover obtain xs x where "set_bits_of w = xs @ [x]" using ne by (meson rev_exhaust)
  ultimately show "i \<le> last (set_bits_of w)"
    using sorted_set_bits_of(1) [of w] by (auto simp: sorted_append)
qed

lemma ctz_less: "w \<noteq> 0 \<Longrightarrow> ctz (w :: 'a::len word) < LENGTH('a)"
  using ctz_props(1) bit_imp_le_length by blast

lemma bit_and_minus1_int: "bit (k AND (k - 1)) i \<longleftrightarrow> bit k i \<and> (\<exists>j<i. bit k j)" for k :: int
proof (induction i arbitrary: k)
  case 0
  then show ?case by (simp add: bit_and_iff bit_0 even_and_iff)
next
  case (Suc i)
  have s: "bit (k AND (k - 1)) (Suc i) \<longleftrightarrow> bit (k div 2) i \<and> bit ((k - 1) div 2) i"
    by (subst bit_and_iff) (simp only: bit_Suc)
  show ?case
  proof (cases "even k")
    case True
    then have h: "(k - 1) div 2 = k div 2 - 1" by presburger
    have "(\<exists>j<Suc i. bit k j) \<longleftrightarrow> (\<exists>j<i. bit (k div 2) j)"
      using True by (auto simp: less_Suc_eq_0_disj bit_0 bit_Suc)
    then show ?thesis using Suc [of "k div 2"] unfolding s h by (auto simp: bit_and_iff bit_Suc)
  next
    case False
    then have h: "(k - 1) div 2 = k div 2" by presburger
    have "\<exists>j<Suc i. bit k j" using False by (intro exI [of _ 0]) (simp add: bit_0)
    then show ?thesis unfolding s h by (auto simp: bit_Suc)
  qed
qed

lemma bit_clear_lowest: "bit (clear_lowest w) i \<longleftrightarrow> bit w i \<and> (\<exists>j<i. bit w j)"
proof (cases "w = 0")
  case False
  then have "uint (1 :: 'a word) \<le> uint w"
    by (metis linorder_not_less uint_1 unsigned_1 word_less_def word_less_1)
  then have u: "uint (w - 1) = uint w - 1" using uint_sub_lem [of "1 :: 'a word" w] by simp
  have "bit (clear_lowest w) i \<longleftrightarrow> bit (uint w AND (uint w - 1)) i"
    by (auto simp: clear_lowest_def bit_and_iff bit_uint_iff simp flip: u dest: bit_imp_le_length)
  then show ?thesis by (simp add: bit_and_minus1_int bit_uint_iff) (meson bit_imp_le_length)
qed (simp add: clear_lowest_def)

lemma set_bits_of_clear_lowest: "set_bits_of (clear_lowest w) = tl (set_bits_of w)"
proof (cases "w = 0")
  case False
  then obtain x xs where xs: "set_bits_of w = x # xs" by (metis list.exhaust set_bits_of_empty_iff)
  have x: "x = ctz w" by (simp add: ctz_def xs)
  have "{i. bit (clear_lowest w) i} = set xs"
  proof -
    have "set xs = {i. bit w i} - {x}"
      using set_set_bits_of [of w] sorted_set_bits_of(2) [of w] by (auto simp: xs)
    moreover have "(bit w i \<and> (\<exists>j<i. bit w j)) = (bit w i \<and> i \<noteq> x)" for i
      using ctz_props [OF False] by (metis le_neq_implies_less linorder_not_less x)
    ultimately show ?thesis by (auto simp: bit_clear_lowest)
  qed
  then have "set (set_bits_of (clear_lowest w)) = set xs" by (simp add: set_set_bits_of)
  then have "set_bits_of (clear_lowest w) = xs"
    using sorted_set_bits_of [of w] sorted_set_bits_of [of "clear_lowest w"]
    by (intro sorted_distinct_set_unique) (simp_all add: xs)
  then show ?thesis by (simp add: xs)
qed (simp add: clear_lowest_def)

subsection \<open>Copying the newest entries of a sector\<close>

text \<open>\<^verbatim>\<open>for (int slots = pos; slots >= 0 && *out_count < n; slots--)\<close> with a copy of entry
  \<open>slots\<close> to the end of the output; \<open>out\<close> holds what was copied so far.\<close>

function copy_down :: "nat \<Rightarrow> 'e list \<Rightarrow> int \<Rightarrow> 'e list \<Rightarrow> 'e list" where
  "copy_down n es slots out =
     (if slots \<ge> 0 \<and> length out < n then copy_down n es (slots - 1) (out @ [es ! nat slots]) else out)"
  by pat_completeness auto
termination by (relation "measure (\<lambda>(_, _, k, _). nat (k + 1))") auto

declare copy_down.simps [simp del]

lemma copy_down_eq:
  "k \<le> length es \<Longrightarrow> copy_down n es (int k - 1) out = out @ take (n - length out) (rev (take k es))"
proof (induction k arbitrary: out)
  case 0
  then show ?case by (subst copy_down.simps) simp
next
  case (Suc k)
  let ?m = "es ! k"
  show ?case
  proof (cases "length out < n")
    case True
    then have d: "n - length out = Suc (n - length (out @ [?m]))" by simp
    have "copy_down n es (int (Suc k) - 1) out = copy_down n es (int k - 1) (out @ [?m])"
      using True by (subst copy_down.simps) simp
    also have "\<dots> = (out @ [?m]) @ take (n - length (out @ [?m])) (rev (take k es))"
      using Suc.prems by (intro Suc.IH) simp
    also have "\<dots> = out @ take (n - length out) (rev (take (Suc k) es))"
      using Suc.prems unfolding d by (simp add: take_Suc_conv_app_nth)
    finally show ?thesis .
  next
    case False
    then show ?thesis by (subst copy_down.simps) simp
  qed
qed

end
