(* ===== verification/Mem_Layout.thy ===== *)
theory Mem_Layout
  imports Prelude
begin

text \<open>
  The constants and index conversions of \<^verbatim>\<open>source/app/include/mem_layout.h\<close>: sizes of the
  on-disk records, capacities of the sector formats, the order of the regions of the card and the
  addressing of the usage bitmap.  Each definition is the macro's own formula; the collection
  \<open>layout\<close> holds the values.
\<close>

subsection \<open>Sizes\<close>

definition SECTOR_SIZE :: nat where "SECTOR_SIZE = 512"
definition SECTOR_CRC_BYTES :: nat where "SECTOR_CRC_BYTES = 4"
definition SECTOR_PAYLOAD_BYTES :: nat where "SECTOR_PAYLOAD_BYTES = SECTOR_SIZE - SECTOR_CRC_BYTES"

definition HASH_TABLE_SIZE :: nat where "HASH_TABLE_SIZE = 14293"
definition HASH_TABLE_ENTRIES :: nat where "HASH_TABLE_ENTRIES = 10000"

definition CONTACT_RECORD_BYTES :: nat where "CONTACT_RECORD_BYTES = 81"
definition CONTACT_SECTOR_HEADER_BYTES :: nat where "CONTACT_SECTOR_HEADER_BYTES = 1"

definition CONTACT_SECTOR_CAPACITY :: nat where
  "CONTACT_SECTOR_CAPACITY =
     (SECTOR_PAYLOAD_BYTES - CONTACT_SECTOR_HEADER_BYTES - 1) div CONTACT_RECORD_BYTES"

definition CONTACT_SECTOR_PADDING :: nat where
  "CONTACT_SECTOR_PADDING =
     SECTOR_PAYLOAD_BYTES - CONTACT_SECTOR_HEADER_BYTES - 1 - CONTACT_SECTOR_CAPACITY * CONTACT_RECORD_BYTES"

definition TOTAL_CONTACT_SECTOR_SIZE :: nat where
  "TOTAL_CONTACT_SECTOR_SIZE = (HASH_TABLE_ENTRIES + CONTACT_SECTOR_CAPACITY - 1) div CONTACT_SECTOR_CAPACITY"

definition SMS_MAX_MESSAGE_LENGTH :: nat where "SMS_MAX_MESSAGE_LENGTH = 160"
definition MAX_PHONE_LEN :: nat where "MAX_PHONE_LEN = 15"
definition MAX_NAME_LEN :: nat where "MAX_NAME_LEN = 64"
definition MESSAGE_BYTES :: nat where "MESSAGE_BYTES = 166"
definition MESSAGE_SECTOR_HEADER_BYTES :: nat where "MESSAGE_SECTOR_HEADER_BYTES = 8"

definition MESSAGE_SECTOR_CAPACITY :: nat where
  "MESSAGE_SECTOR_CAPACITY = (SECTOR_PAYLOAD_BYTES - MESSAGE_SECTOR_HEADER_BYTES) div MESSAGE_BYTES"

definition MESSAGE_SECTOR_PADDING :: nat where
  "MESSAGE_SECTOR_PADDING =
     SECTOR_PAYLOAD_BYTES - MESSAGE_SECTOR_HEADER_BYTES - MESSAGE_SECTOR_CAPACITY * MESSAGE_BYTES"

definition TOTAL_MESSAGE_SECTOR_SIZE :: nat where "TOTAL_MESSAGE_SECTOR_SIZE = HASH_TABLE_SIZE * 2"

definition RING_BUFFER_HEADER_BYTES :: nat where "RING_BUFFER_HEADER_BYTES = 8"

definition RING_BUFFER_PAYLOAD_BYTES :: nat where
  "RING_BUFFER_PAYLOAD_BYTES = SECTOR_PAYLOAD_BYTES - RING_BUFFER_HEADER_BYTES"

definition MESSAGE_HISTORY_ENTRY_BYTES :: nat where "MESSAGE_HISTORY_ENTRY_BYTES = MESSAGE_BYTES + 2"

definition MESSAGE_HISTORY_SECTOR_CAPACITY :: nat where
  "MESSAGE_HISTORY_SECTOR_CAPACITY = RING_BUFFER_PAYLOAD_BYTES div MESSAGE_HISTORY_ENTRY_BYTES"

definition TOTAL_MESSAGE_HISTORY_SECTOR_SIZE :: nat where
  "TOTAL_MESSAGE_HISTORY_SECTOR_SIZE =
     (HASH_TABLE_ENTRIES + MESSAGE_HISTORY_SECTOR_CAPACITY - 1) div MESSAGE_HISTORY_SECTOR_CAPACITY"

definition CALL_HISTORY_ENTRY_BYTES :: nat where "CALL_HISTORY_ENTRY_BYTES = 84"

definition CALL_HISTORY_SECTOR_CAPACITY :: nat where
  "CALL_HISTORY_SECTOR_CAPACITY = RING_BUFFER_PAYLOAD_BYTES div CALL_HISTORY_ENTRY_BYTES"

definition TOTAL_CALL_HISTORY_SECTOR_SIZE :: nat where "TOTAL_CALL_HISTORY_SECTOR_SIZE = 5000"

definition TOTAL_DATA_SECTOR_SIZE :: nat where
  "TOTAL_DATA_SECTOR_SIZE = TOTAL_CONTACT_SECTOR_SIZE + TOTAL_MESSAGE_SECTOR_SIZE"

subsection \<open>Regions of the card\<close>

definition SUPERHEADER_SECTOR :: nat where "SUPERHEADER_SECTOR = 0"
definition SUPERHEADER_SECTOR_SIZE :: nat where "SUPERHEADER_SECTOR_SIZE = 1"
definition JRNL_HEADER_SECTOR :: nat where "JRNL_HEADER_SECTOR = SUPERHEADER_SECTOR + SUPERHEADER_SECTOR_SIZE"
definition JRNL_CONTENT_SECTOR :: nat where "JRNL_CONTENT_SECTOR = JRNL_HEADER_SECTOR + 1"
definition JRNL_USAGE_SECTOR :: nat where "JRNL_USAGE_SECTOR = JRNL_HEADER_SECTOR + 2"
definition JRNL_SECTOR_SIZE :: nat where "JRNL_SECTOR_SIZE = 3"
definition USAGE_BITMAP_START_SECTOR :: nat where "USAGE_BITMAP_START_SECTOR = JRNL_HEADER_SECTOR + JRNL_SECTOR_SIZE"

definition BITS_PER_ELEMENT :: nat where "BITS_PER_ELEMENT = 32"
definition BYTES_PER_ELEMENT :: nat where "BYTES_PER_ELEMENT = 4"
definition ELEMENTS_PER_SECTOR :: nat where "ELEMENTS_PER_SECTOR = SECTOR_SIZE div BYTES_PER_ELEMENT"

definition USAGE_WORDS_PER_SECTOR :: nat where
  "USAGE_WORDS_PER_SECTOR = ELEMENTS_PER_SECTOR - SECTOR_CRC_BYTES div BYTES_PER_ELEMENT"

definition USAGE_BITS_PER_SECTOR :: nat where "USAGE_BITS_PER_SECTOR = USAGE_WORDS_PER_SECTOR * BITS_PER_ELEMENT"

definition USAGE_BITMAP_SECTOR_SIZE :: nat where
  "USAGE_BITMAP_SECTOR_SIZE = (TOTAL_DATA_SECTOR_SIZE + USAGE_BITS_PER_SECTOR - 1) div USAGE_BITS_PER_SECTOR"

definition USAGE_BITMAP_STORAGE_SIZE :: nat where
  "USAGE_BITMAP_STORAGE_SIZE = USAGE_BITMAP_SECTOR_SIZE * ELEMENTS_PER_SECTOR"

definition USAGE_BITMAP_TOTAL_BITS :: nat where
  "USAGE_BITMAP_TOTAL_BITS = USAGE_BITMAP_SECTOR_SIZE * USAGE_BITS_PER_SECTOR"

definition DATA_REGION_START_SECTOR :: nat where
  "DATA_REGION_START_SECTOR = USAGE_BITMAP_START_SECTOR + USAGE_BITMAP_SECTOR_SIZE"

definition CONTACT_DATA_START_SECTOR :: nat where "CONTACT_DATA_START_SECTOR = 0"

definition MESSAGE_DATA_START_SECTOR :: nat where
  "MESSAGE_DATA_START_SECTOR = CONTACT_DATA_START_SECTOR + TOTAL_CONTACT_SECTOR_SIZE"

definition MESSAGE_HISTORY_DATA_START_SECTOR :: nat where
  "MESSAGE_HISTORY_DATA_START_SECTOR = MESSAGE_DATA_START_SECTOR + TOTAL_MESSAGE_SECTOR_SIZE"

definition CALL_HISTORY_DATA_START_SECTOR :: nat where
  "CALL_HISTORY_DATA_START_SECTOR = MESSAGE_HISTORY_DATA_START_SECTOR + TOTAL_MESSAGE_HISTORY_SECTOR_SIZE"

definition TOTAL_DATABASE_SECTOR_SIZE :: nat where
  "TOTAL_DATABASE_SECTOR_SIZE = CALL_HISTORY_DATA_START_SECTOR + TOTAL_CALL_HISTORY_SECTOR_SIZE"

lemmas size_defs =
  SECTOR_SIZE_def SECTOR_CRC_BYTES_def SECTOR_PAYLOAD_BYTES_def HASH_TABLE_SIZE_def HASH_TABLE_ENTRIES_def
  CONTACT_RECORD_BYTES_def CONTACT_SECTOR_HEADER_BYTES_def CONTACT_SECTOR_CAPACITY_def CONTACT_SECTOR_PADDING_def
  TOTAL_CONTACT_SECTOR_SIZE_def SMS_MAX_MESSAGE_LENGTH_def MAX_PHONE_LEN_def MAX_NAME_LEN_def
  MESSAGE_BYTES_def MESSAGE_SECTOR_HEADER_BYTES_def MESSAGE_SECTOR_CAPACITY_def MESSAGE_SECTOR_PADDING_def
  TOTAL_MESSAGE_SECTOR_SIZE_def RING_BUFFER_HEADER_BYTES_def RING_BUFFER_PAYLOAD_BYTES_def
  MESSAGE_HISTORY_ENTRY_BYTES_def MESSAGE_HISTORY_SECTOR_CAPACITY_def TOTAL_MESSAGE_HISTORY_SECTOR_SIZE_def
  CALL_HISTORY_ENTRY_BYTES_def CALL_HISTORY_SECTOR_CAPACITY_def TOTAL_CALL_HISTORY_SECTOR_SIZE_def
  TOTAL_DATA_SECTOR_SIZE_def

lemmas region_defs =
  SUPERHEADER_SECTOR_def SUPERHEADER_SECTOR_SIZE_def JRNL_HEADER_SECTOR_def JRNL_CONTENT_SECTOR_def
  JRNL_USAGE_SECTOR_def JRNL_SECTOR_SIZE_def USAGE_BITMAP_START_SECTOR_def BITS_PER_ELEMENT_def
  BYTES_PER_ELEMENT_def ELEMENTS_PER_SECTOR_def USAGE_WORDS_PER_SECTOR_def USAGE_BITS_PER_SECTOR_def
  USAGE_BITMAP_SECTOR_SIZE_def USAGE_BITMAP_STORAGE_SIZE_def USAGE_BITMAP_TOTAL_BITS_def
  DATA_REGION_START_SECTOR_def CONTACT_DATA_START_SECTOR_def MESSAGE_DATA_START_SECTOR_def
  MESSAGE_HISTORY_DATA_START_SECTOR_def CALL_HISTORY_DATA_START_SECTOR_def TOTAL_DATABASE_SECTOR_SIZE_def

lemma size_values [layout]:
  "SECTOR_SIZE = 512" "SECTOR_CRC_BYTES = 4" "SECTOR_PAYLOAD_BYTES = 508" "HASH_TABLE_SIZE = 14293"
  "HASH_TABLE_ENTRIES = 10000" "CONTACT_RECORD_BYTES = 81" "CONTACT_SECTOR_HEADER_BYTES = 1"
  "CONTACT_SECTOR_CAPACITY = 6" "CONTACT_SECTOR_PADDING = 20" "TOTAL_CONTACT_SECTOR_SIZE = 1667"
  "SMS_MAX_MESSAGE_LENGTH = 160" "MAX_PHONE_LEN = 15" "MAX_NAME_LEN = 64" "MESSAGE_BYTES = 166"
  "MESSAGE_SECTOR_HEADER_BYTES = 8" "MESSAGE_SECTOR_CAPACITY = 3" "MESSAGE_SECTOR_PADDING = 2"
  "TOTAL_MESSAGE_SECTOR_SIZE = 28586" "RING_BUFFER_HEADER_BYTES = 8" "RING_BUFFER_PAYLOAD_BYTES = 500"
  "MESSAGE_HISTORY_ENTRY_BYTES = 168" "MESSAGE_HISTORY_SECTOR_CAPACITY = 2"
  "TOTAL_MESSAGE_HISTORY_SECTOR_SIZE = 5000" "CALL_HISTORY_ENTRY_BYTES = 84"
  "CALL_HISTORY_SECTOR_CAPACITY = 5" "TOTAL_CALL_HISTORY_SECTOR_SIZE = 5000" "TOTAL_DATA_SECTOR_SIZE = 30253"
  by (simp_all add: size_defs)

lemma region_values [layout]:
  "SUPERHEADER_SECTOR = 0" "SUPERHEADER_SECTOR_SIZE = 1" "JRNL_HEADER_SECTOR = 1" "JRNL_CONTENT_SECTOR = 2"
  "JRNL_USAGE_SECTOR = 3" "JRNL_SECTOR_SIZE = 3" "USAGE_BITMAP_START_SECTOR = 4" "BITS_PER_ELEMENT = 32"
  "BYTES_PER_ELEMENT = 4" "ELEMENTS_PER_SECTOR = 128" "USAGE_WORDS_PER_SECTOR = 127"
  "USAGE_BITS_PER_SECTOR = 4064" "USAGE_BITMAP_SECTOR_SIZE = 8" "USAGE_BITMAP_STORAGE_SIZE = 1024"
  "USAGE_BITMAP_TOTAL_BITS = 32512" "DATA_REGION_START_SECTOR = 12" "CONTACT_DATA_START_SECTOR = 0"
  "MESSAGE_DATA_START_SECTOR = 1667" "MESSAGE_HISTORY_DATA_START_SECTOR = 30253"
  "CALL_HISTORY_DATA_START_SECTOR = 35253" "TOTAL_DATABASE_SECTOR_SIZE = 40253"
  by (simp_all add: region_defs size_values)

subsection \<open>Usage bitmap addressing\<close>

definition USAGE_BITMAP_FIND_SECTOR :: "nat \<Rightarrow> nat" where
  "USAGE_BITMAP_FIND_SECTOR dataSecInd = dataSecInd div USAGE_BITS_PER_SECTOR"

definition USAGE_BITMAP_FIND_ELEMENT :: "nat \<Rightarrow> nat" where
  "USAGE_BITMAP_FIND_ELEMENT dataSecInd = (dataSecInd mod USAGE_BITS_PER_SECTOR) div BITS_PER_ELEMENT"

definition USAGE_BITMAP_FIND_INDEX :: "nat \<Rightarrow> nat" where
  "USAGE_BITMAP_FIND_INDEX dataSecInd =
     USAGE_BITMAP_FIND_SECTOR dataSecInd * ELEMENTS_PER_SECTOR + USAGE_BITMAP_FIND_ELEMENT dataSecInd"

definition USAGE_BITMAP_FIND_BIT :: "nat \<Rightarrow> nat" where
  "USAGE_BITMAP_FIND_BIT dataSecInd = dataSecInd mod BITS_PER_ELEMENT"

definition USAGE_BITMAP_WORD_TO_INDEX :: "nat \<Rightarrow> nat" where
  "USAGE_BITMAP_WORD_TO_INDEX w =
     (w div ELEMENTS_PER_SECTOR) * USAGE_BITS_PER_SECTOR + (w mod ELEMENTS_PER_SECTOR) * BITS_PER_ELEMENT"

definition USAGE_BITMAP_IS_CRC_WORD :: "nat \<Rightarrow> bool" where
  "USAGE_BITMAP_IS_CRC_WORD w \<longleftrightarrow> w mod ELEMENTS_PER_SECTOR \<ge> USAGE_WORDS_PER_SECTOR"

lemmas bitmap_defs =
  USAGE_BITMAP_FIND_SECTOR_def USAGE_BITMAP_FIND_ELEMENT_def USAGE_BITMAP_FIND_INDEX_def
  USAGE_BITMAP_FIND_BIT_def USAGE_BITMAP_WORD_TO_INDEX_def USAGE_BITMAP_IS_CRC_WORD_def region_values

subsection \<open>Index conversions\<close>

definition CONTACT_DATA_SECTOR :: "nat \<Rightarrow> nat" where
  "CONTACT_DATA_SECTOR slot = CONTACT_DATA_START_SECTOR + slot div CONTACT_SECTOR_CAPACITY"

definition MESSAGE_DATA_SECTOR :: "nat \<Rightarrow> nat" where
  "MESSAGE_DATA_SECTOR msgInd = MESSAGE_DATA_START_SECTOR + msgInd"

definition MESSAGE_HIST_DATA_SECTOR :: "nat \<Rightarrow> nat" where
  "MESSAGE_HIST_DATA_SECTOR mhInd = MESSAGE_HISTORY_DATA_START_SECTOR + mhInd"

definition CALL_HIST_DATA_SECTOR :: "nat \<Rightarrow> nat" where
  "CALL_HIST_DATA_SECTOR chInd = CALL_HISTORY_DATA_START_SECTOR + chInd"

definition DATA_SECTOR_TO_RAW :: "nat \<Rightarrow> nat" where
  "DATA_SECTOR_TO_RAW dataSec = DATA_REGION_START_SECTOR + dataSec"

lemmas sector_defs = CONTACT_DATA_SECTOR_def MESSAGE_DATA_SECTOR_def MESSAGE_HIST_DATA_SECTOR_def
  CALL_HIST_DATA_SECTOR_def DATA_SECTOR_TO_RAW_def

subsection \<open>The addressing is a bijection between bits and data sectors\<close>

lemma find_index_word_to_index:
  assumes "w < USAGE_BITMAP_STORAGE_SIZE" and "\<not> USAGE_BITMAP_IS_CRC_WORD w" and "b < 32"
  shows "USAGE_BITMAP_FIND_INDEX (USAGE_BITMAP_WORD_TO_INDEX w + b) = w"
    and "USAGE_BITMAP_FIND_BIT (USAGE_BITMAP_WORD_TO_INDEX w + b) = b"
proof -
  define q r where "q = w div 128" and "r = w mod 128"
  have w: "w = q * 128 + r" and r: "r < 127"
    using assms(2) by (simp_all add: q_def r_def bitmap_defs)
  have i: "USAGE_BITMAP_WORD_TO_INDEX w + b = q * 4064 + (r * 32 + b)"
    by (simp add: bitmap_defs q_def r_def)
  have rb: "r * 32 + b < 4064"
    using r assms(3) by simp
  have "(q * 4064 + (r * 32 + b)) div 4064 = q" "(q * 4064 + (r * 32 + b)) mod 4064 = r * 32 + b"
    "(r * 32 + b) div 32 = r"
    using rb assms(3) by simp_all
  then show "USAGE_BITMAP_FIND_INDEX (USAGE_BITMAP_WORD_TO_INDEX w + b) = w"
    unfolding i by (simp add: bitmap_defs w)
  have "(q * 4064 + (r * 32 + b)) mod 32 = (b + 32 * (q * 127 + r)) mod 32"
    by (rule arg_cong [where f = "\<lambda>x. x mod 32"]) simp
  also have "\<dots> = b" using assms(3) by (simp only: mod_mult_self2) simp
  finally show "USAGE_BITMAP_FIND_BIT (USAGE_BITMAP_WORD_TO_INDEX w + b) = b"
    unfolding i by (simp add: bitmap_defs)
qed

lemma find_bit_less [simp]: "USAGE_BITMAP_FIND_BIT i < 32"
  by (simp add: bitmap_defs)

lemma word_to_index_find:
  "USAGE_BITMAP_WORD_TO_INDEX (USAGE_BITMAP_FIND_INDEX i) + USAGE_BITMAP_FIND_BIT i = i"
proof -
  define q r where "q = i div 4064" and "r = i mod 4064"
  have i: "i = q * 4064 + r" and r: "r < 4064" by (simp_all add: q_def r_def)
  have rd: "r div 32 < 128" using r by simp
  have "i mod 32 = r mod 32"
    unfolding i using mod_mult_self3 [of "q * 127" 32 r] by (simp add: mult.assoc)
  moreover have "(q * 128 + r div 32) div 128 = q" "(q * 128 + r div 32) mod 128 = r div 32"
    using rd by simp_all
  moreover have "i div 4064 = q" "i mod 4064 = r" by (simp_all add: q_def r_def)
  ultimately show ?thesis by (simp add: bitmap_defs i)
qed

lemma find_index_not_crc [simp]: "\<not> USAGE_BITMAP_IS_CRC_WORD (USAGE_BITMAP_FIND_INDEX i)"
proof -
  have "i mod 4064 div 32 < 127" by (simp add: less_mult_imp_div_less)
  then show ?thesis by (simp add: bitmap_defs)
qed

lemma find_index_bound:
  "i < USAGE_BITMAP_TOTAL_BITS \<Longrightarrow> USAGE_BITMAP_FIND_INDEX i < USAGE_BITMAP_STORAGE_SIZE"
proof -
  assume "i < USAGE_BITMAP_TOTAL_BITS"
  then have "i div 4064 < 8" by (simp add: bitmap_defs less_mult_imp_div_less)
  moreover have "i mod 4064 div 32 < 127" by (simp add: less_mult_imp_div_less)
  ultimately show ?thesis by (simp add: bitmap_defs)
qed

lemma find_index_inject:
  "USAGE_BITMAP_FIND_INDEX i = USAGE_BITMAP_FIND_INDEX j \<Longrightarrow>
   USAGE_BITMAP_FIND_BIT i = USAGE_BITMAP_FIND_BIT j \<Longrightarrow> i = j"
  by (metis word_to_index_find)

lemma word_to_index_mono:
  "v < w \<Longrightarrow> \<not> USAGE_BITMAP_IS_CRC_WORD v \<Longrightarrow>
   USAGE_BITMAP_WORD_TO_INDEX v + 32 \<le> USAGE_BITMAP_WORD_TO_INDEX w"
proof -
  assume vw: "v < w" and v: "\<not> USAGE_BITMAP_IS_CRC_WORD v"
  define p r q s where "p = v div 128" "r = v mod 128" "q = w div 128" "s = w mod 128"
  have r: "r < 127" using v by (simp add: bitmap_defs p_r_q_s_def)
  have "v = p * 128 + r" "w = q * 128 + s" "s < 128" "r < 128" by (simp_all add: p_r_q_s_def)
  then have "p < q \<or> p = q \<and> r < s" using vw by linarith
  then have "p * 4064 + r * 32 + 32 \<le> q * 4064 + s * 32"
  proof
    assume "p < q"
    then have "Suc p * 4064 \<le> q * 4064" by (intro mult_le_mono1) simp
    then show ?thesis using r by simp
  qed simp
  then show ?thesis by (simp add: bitmap_defs p_r_q_s_def)
qed

lemma find_index_mono:
  assumes "i \<le> j"
  shows "USAGE_BITMAP_FIND_INDEX i \<le> USAGE_BITMAP_FIND_INDEX j \<and>
    (USAGE_BITMAP_FIND_INDEX j = USAGE_BITMAP_FIND_INDEX i \<longrightarrow> USAGE_BITMAP_FIND_BIT i \<le> USAGE_BITMAP_FIND_BIT j)"
proof (rule conjI)
  show "USAGE_BITMAP_FIND_INDEX i \<le> USAGE_BITMAP_FIND_INDEX j"
  proof (rule ccontr)
    assume "\<not> ?thesis"
    then have "USAGE_BITMAP_WORD_TO_INDEX (USAGE_BITMAP_FIND_INDEX j) + 32 \<le> USAGE_BITMAP_WORD_TO_INDEX (USAGE_BITMAP_FIND_INDEX i)"
      by (intro word_to_index_mono) simp_all
    then show False using assms word_to_index_find [of i] word_to_index_find [of j] find_bit_less [of j] by linarith
  qed
  show "USAGE_BITMAP_FIND_INDEX j = USAGE_BITMAP_FIND_INDEX i \<longrightarrow> USAGE_BITMAP_FIND_BIT i \<le> USAGE_BITMAP_FIND_BIT j"
    using assms word_to_index_find [of i] word_to_index_find [of j] by auto
qed

end
