(* ===== verification/Crc.thy ===== *)
theory Crc
  imports Mem_Layout
begin

text \<open>
  The software CRC-32 of \<^verbatim>\<open>source/app/src/crc.c\<close> (the build with \<^verbatim>\<open>HOST_BUILD\<close> or
  \<^verbatim>\<open>USE_SW_CRC\<close>): the inner bit loop, the byte loop and the initial and final XOR.  The lemmas
  show that every round is injective in the running value and in the byte, so two payloads that
  differ in exactly one byte never have the same CRC.
\<close>

definition CRC32_POLYNOMIAL :: u32 where "CRC32_POLYNOMIAL = 0xEDB88320"
definition CRC32_INITIAL_VALUE :: u32 where "CRC32_INITIAL_VALUE = 0xFFFFFFFF"
definition CRC32_FINAL_XOR :: u32 where "CRC32_FINAL_XOR = 0xFFFFFFFF"

definition crc_round :: "u32 \<Rightarrow> u32" where
  "crc_round crc = (if crc AND 1 \<noteq> 0 then drop_bit 1 crc XOR CRC32_POLYNOMIAL else drop_bit 1 crc)"

fun crc_bits :: "nat \<Rightarrow> u32 \<Rightarrow> u32" where
  "crc_bits 0 crc = crc"
| "crc_bits (Suc n) crc = crc_bits n (crc_round crc)"

definition crc_byte :: "u32 \<Rightarrow> byte \<Rightarrow> u32" where
  "crc_byte crc b = crc_bits 8 (crc XOR ucast b)"

fun crc_loop :: "u32 \<Rightarrow> byte list \<Rightarrow> u32" where
  "crc_loop crc [] = crc"
| "crc_loop crc (b # bs) = crc_loop (crc_byte crc b) bs"

definition crc32_calculate :: "byte list \<Rightarrow> nat \<Rightarrow> u32" where
  "crc32_calculate data len = crc_loop CRC32_INITIAL_VALUE (take len data) XOR CRC32_FINAL_XOR"

subsection \<open>Injectivity\<close>

lemma xor_cancel_left: "(a :: u32) XOR b = a XOR c \<longleftrightarrow> b = c"
  by (metis bit.xor_left_self)

lemma xor_cancel_right: "(b :: u32) XOR a = c XOR a \<longleftrightarrow> b = c"
  by (metis bit.xor_left_self xor.commute)

lemma crc_round_bit31: "bit (crc_round c) 31 = bit c 0"
proof -
  have "(c AND 1 \<noteq> 0) = bit c 0"
    by (simp add: and_one_eq odd_iff_mod_2_eq_one [symmetric] bit_0)
  moreover have "bit CRC32_POLYNOMIAL 31" by (simp add: CRC32_POLYNOMIAL_def)
  moreover have "\<not> bit (drop_bit 1 c) 31"
    by (simp add: bit_drop_bit_eq) (use bit_imp_le_length [of c 32] in auto)
  ultimately show ?thesis by (simp add: crc_round_def bit_xor_iff)
qed

lemma crc_round_inj: "crc_round c = crc_round d \<Longrightarrow> c = d"
proof -
  assume eq: "crc_round c = crc_round d"
  have b0: "bit c 0 = bit d 0" using eq crc_round_bit31 by metis
  then have "(c AND 1 \<noteq> 0) = (d AND 1 \<noteq> 0)"
    by (simp add: and_one_eq odd_iff_mod_2_eq_one [symmetric] bit_0)
  with eq have dr: "drop_bit 1 c = drop_bit 1 d"
    by (auto simp: crc_round_def xor_cancel_right split: if_splits)
  show "c = d"
  proof (rule bit_eqI)
    fix n
    show "bit c n = bit d n"
    proof (cases n)
      case 0
      then show ?thesis using b0 by simp
    next
      case (Suc m)
      have "bit (drop_bit 1 c) m = bit (drop_bit 1 d) m" using dr by simp
      then show ?thesis using Suc by (simp add: bit_drop_bit_eq)
    qed
  qed
qed

lemma crc_bits_inj: "crc_bits n c = crc_bits n d \<Longrightarrow> c = d"
  by (induction n arbitrary: c d) (auto dest: crc_round_inj)

lemma crc_byte_inj_crc: "crc_byte c b = crc_byte d b \<Longrightarrow> c = d"
  by (auto simp: crc_byte_def xor_cancel_right dest!: crc_bits_inj)

lemma crc_byte_inj_byte: "crc_byte c a = crc_byte c b \<Longrightarrow> a = b"
proof -
  assume "crc_byte c a = crc_byte c b"
  then have "(ucast a :: u32) = ucast b"
    by (auto simp: crc_byte_def xor_cancel_left dest!: crc_bits_inj)
  then have "unat (ucast a :: u32) = unat (ucast b :: u32)" by simp
  moreover have "unat (ucast x :: u32) = unat x" for x :: byte
  proof -
    have "unat x < 2 ^ 32" by (rule less_trans [OF byte_less]) simp
    then show ?thesis by (simp add: unsigned_ucast_eq take_bit_nat_eq_self)
  qed
  ultimately show "a = b" by (metis of_nat_unat_byte)
qed

lemma crc_loop_append: "crc_loop c (xs @ ys) = crc_loop (crc_loop c xs) ys"
  by (induction xs arbitrary: c) auto

lemma crc_loop_inj: "crc_loop c xs = crc_loop d xs \<Longrightarrow> c = d"
  by (induction xs arbitrary: c d) (auto dest: crc_byte_inj_crc)

lemma crc_loop_one_byte: "a \<noteq> b \<Longrightarrow> crc_loop c (xs @ a # ys) \<noteq> crc_loop c (xs @ b # ys)"
  by (auto simp: crc_loop_append dest!: crc_loop_inj crc_byte_inj_byte)

lemma crc32_one_byte:
  assumes "i < len" and "len \<le> length data" and "b \<noteq> data ! i"
  shows "crc32_calculate (data[i := b]) len \<noteq> crc32_calculate data len"
proof -
  let ?d = "take len data"
  have i: "i < length ?d" and b: "b \<noteq> ?d ! i" using assms by simp_all
  have "?d = take i ?d @ ?d ! i # drop (Suc i) ?d" by (rule id_take_nth_drop [OF i])
  moreover have "?d[i := b] = take i ?d @ b # drop (Suc i) ?d" by (rule upd_conv_take_nth_drop [OF i])
  ultimately have "crc_loop c (?d[i := b]) \<noteq> crc_loop c ?d" for c
    using crc_loop_one_byte [OF b] by metis
  then show ?thesis
    by (simp add: crc32_calculate_def xor_cancel_right take_update_swap)
qed

end
