(* ===== verification/Storage.thy ===== *)
theory Storage
  imports Crc
begin

text \<open>
  The storage interface of \<^verbatim>\<open>source/app/include/storage.h\<close>, its heap-backed provider
  (\<^verbatim>\<open>heap_storage.c\<close>) and the CRC-protected sector access of \<^verbatim>\<open>storage.c\<close>.

  \<^item> The struct of function pointers is the record \<open>Storage\<close>; the object its \<^verbatim>\<open>context\<close>
    points to is the threaded state \<open>'c\<close>.  A read does not change the context.
  \<^item> The locale \<open>block_store\<close> is the contract a client relies on: a write that reports success
    has replaced exactly that block, a write that reports failure has changed nothing.
    \<open>reliable_store\<close> adds that accesses in range succeed.
  \<^item> \<open>heap_storage\<close> interprets both; \<open>power_cut\<close>, the fault model of the crash theorems
    (after a number of writes every further write fails), interprets the first.
\<close>

subsection \<open>Return codes\<close>

datatype STRG_RET = STRG_FAIL | STRG_OK | STRG_EMPTY | STRG_FULL | STRG_NEXT | STRG_CORRUPT | STRG_EXISTS

text \<open>The conversions C inserts: an enum used as a condition, and a boolean stored in the enum.\<close>

fun strg_code :: "STRG_RET \<Rightarrow> nat" where
  "strg_code STRG_FAIL = 0" | "strg_code STRG_OK = 1" | "strg_code STRG_EMPTY = 2"
| "strg_code STRG_FULL = 3" | "strg_code STRG_NEXT = 4" | "strg_code STRG_CORRUPT = 5"
| "strg_code STRG_EXISTS = 6"

definition strg_true :: "STRG_RET \<Rightarrow> bool" where
  "strg_true r \<longleftrightarrow> strg_code r \<noteq> 0"

definition bool_strg :: "bool \<Rightarrow> STRG_RET" where
  "bool_strg b = (if b then STRG_OK else STRG_FAIL)"

lemma strg_true_simps [simp]:
  "\<not> strg_true STRG_FAIL" "strg_true STRG_OK" "strg_true STRG_EMPTY" "strg_true STRG_FULL"
  "strg_true STRG_NEXT" "strg_true STRG_CORRUPT" "strg_true STRG_EXISTS"
  by (simp_all add: strg_true_def)

lemma bool_strg_simps [simp]:
  "bool_strg True = STRG_OK" "bool_strg False = STRG_FAIL"
  "(bool_strg b = STRG_OK) = b" "(bool_strg b = STRG_FAIL) = (\<not> b)" "strg_true (bool_strg b) = b"
  by (simp_all add: bool_strg_def)

type_synonym 'a res = "STRG_RET + 'a"

subsection \<open>The interface\<close>

record 'c Storage =
  read_block :: "'c \<Rightarrow> nat \<Rightarrow> byte list option"
  read_multiblock :: "'c \<Rightarrow> nat \<Rightarrow> nat \<Rightarrow> byte list option"
  write_block :: "'c \<Rightarrow> nat \<Rightarrow> byte list \<Rightarrow> bool \<times> 'c"
  write_multiblock :: "'c \<Rightarrow> nat \<Rightarrow> nat \<Rightarrow> byte list \<Rightarrow> bool \<times> 'c"
  capacity :: "'c \<Rightarrow> nat"

locale block_store =
  fixes S :: "'c Storage"
    and ok :: "'c \<Rightarrow> bool"
    and blk :: "'c \<Rightarrow> nat \<Rightarrow> byte list"
  assumes read_some: "ok d \<Longrightarrow> read_block S d i = Some b \<Longrightarrow> b = blk d i"
    and write_step: "ok d \<Longrightarrow> length b = SECTOR_SIZE \<Longrightarrow> write_block S d i b = (r, d') \<Longrightarrow>
      ok d' \<and> capacity S d' = capacity S d \<and> blk d' = (if r then (blk d)(i := b) else blk d)"
    and blk_length: "ok d \<Longrightarrow> i < capacity S d \<Longrightarrow> length (blk d i) = SECTOR_SIZE"

locale reliable_store = block_store +
  assumes read_in_range: "ok d \<Longrightarrow> i < capacity S d \<Longrightarrow> read_block S d i = Some (blk d i)"
    and write_in_range: "ok d \<Longrightarrow> i < capacity S d \<Longrightarrow> length b = SECTOR_SIZE \<Longrightarrow> fst (write_block S d i b)"

subsection \<open>Sector access with a CRC trailer\<close>

definition sector_crc_stamp :: "byte list \<Rightarrow> byte list" where
  "sector_crc_stamp sector =
     splice SECTOR_PAYLOAD_BYTES (le32 (unat (crc32_calculate sector SECTOR_PAYLOAD_BYTES))) sector"

definition sector_crc_valid :: "byte list \<Rightarrow> bool" where
  "sector_crc_valid sector \<longleftrightarrow>
     rd32 (slice SECTOR_PAYLOAD_BYTES SECTOR_CRC_BYTES sector) =
     unat (crc32_calculate sector SECTOR_PAYLOAD_BYTES)"

definition read_sector_raw :: "'c Storage \<Rightarrow> 'c \<Rightarrow> nat \<Rightarrow> byte list res" where
  "read_sector_raw S d index =
     (case read_block S d (to_u16 index) of None \<Rightarrow> Inl STRG_FAIL | Some out \<Rightarrow> Inr out)"

definition read_sector :: "'c Storage \<Rightarrow> 'c \<Rightarrow> nat \<Rightarrow> byte list res" where
  "read_sector S d index =
     (case read_sector_raw S d index of
        Inl ret \<Rightarrow> Inl ret
      | Inr out \<Rightarrow> if \<not> sector_crc_valid out then Inl STRG_CORRUPT else Inr out)"

text \<open>\<open>write_sector\<close> stamps the caller's buffer, so it returns the stamped buffer too.\<close>

definition write_sector :: "'c Storage \<Rightarrow> 'c \<Rightarrow> nat \<Rightarrow> byte list \<Rightarrow> STRG_RET \<times> byte list \<times> 'c" where
  "write_sector S d index inb =
     (let buf = sector_crc_stamp inb;
          (r, d') = write_block S d (to_u16 index) buf
      in (if \<not> r then STRG_FAIL else STRG_OK, buf, d'))"

lemma length_stamp [simp]: "length b = SECTOR_SIZE \<Longrightarrow> length (sector_crc_stamp b) = SECTOR_SIZE"
  by (simp add: sector_crc_stamp_def layout)

lemma stamp_payload: "length b = SECTOR_SIZE \<Longrightarrow> take 508 (sector_crc_stamp b) = take 508 b"
  by (simp add: sector_crc_stamp_def splice_def layout)

lemma slice_stamp [simp]:
  "length b = SECTOR_SIZE \<Longrightarrow> off + len \<le> 508 \<Longrightarrow> slice off len (sector_crc_stamp b) = slice off len b"
  unfolding sector_crc_stamp_def by (rule slice_splice_other) (simp_all add: layout)

lemma nth_stamp [simp]: "length b = SECTOR_SIZE \<Longrightarrow> i < 508 \<Longrightarrow> sector_crc_stamp b ! i = b ! i"
  by (simp add: sector_crc_stamp_def nth_splice layout)

lemma crc_of_payload: "take 508 a = take 508 b \<Longrightarrow> crc32_calculate a 508 = crc32_calculate b 508"
  by (simp add: crc32_calculate_def)

lemma valid_stamp [simp]: "length b = SECTOR_SIZE \<Longrightarrow> sector_crc_valid (sector_crc_stamp b)"
proof -
  assume l: "length b = SECTOR_SIZE"
  have "crc32_calculate (sector_crc_stamp b) 508 = crc32_calculate b 508"
    by (rule crc_of_payload) (rule stamp_payload [OF l])
  moreover have "slice 508 4 (sector_crc_stamp b) = le32 (unat (crc32_calculate b 508))"
    using slice_splice_same [of 508 "le32 (unat (crc32_calculate b 508))" b] l
    by (simp add: sector_crc_stamp_def layout)
  moreover have "unat (c :: u32) < 4294967296" for c
    by (rule less_le_trans [OF unsigned_less]) simp
  ultimately show ?thesis by (simp add: sector_crc_valid_def layout rd32_le32)
qed

lemma stamp_cong:
  assumes "length a = SECTOR_SIZE" "length b = SECTOR_SIZE" "take 508 a = take 508 b"
  shows "sector_crc_stamp a = sector_crc_stamp b"
  using assms crc_of_payload [OF assms(3)] by (simp add: sector_crc_stamp_def splice_def layout)

lemma stamp_idem [simp]: "length b = SECTOR_SIZE \<Longrightarrow> sector_crc_stamp (sector_crc_stamp b) = sector_crc_stamp b"
  by (rule stamp_cong) (simp_all add: stamp_payload)

lemma valid_imp_stamp: "length b = SECTOR_SIZE \<Longrightarrow> sector_crc_valid b \<Longrightarrow> sector_crc_stamp b = b"
proof -
  assume l: "length b = SECTOR_SIZE" and v: "sector_crc_valid b"
  have "le32 (unat (crc32_calculate b 508)) = slice 508 4 b"
    using v le32_rd32 [of "slice 508 4 b"] l by (simp add: sector_crc_valid_def layout)
  then show ?thesis using l by (simp add: sector_crc_stamp_def splice_def slice_def layout)
qed

lemma one_byte_invalid:
  assumes "length b = SECTOR_SIZE" and "sector_crc_valid b" and "i < SECTOR_PAYLOAD_BYTES" and "x \<noteq> b ! i"
  shows "\<not> sector_crc_valid (b[i := x])"
proof -
  have "crc32_calculate (b[i := x]) 508 \<noteq> crc32_calculate b 508"
    using assms by (intro crc32_one_byte) (simp_all add: layout)
  moreover have "slice 508 4 (b[i := x]) = slice 508 4 b"
    using assms(3) by (simp add: slice_def layout)
  ultimately show ?thesis
    using assms(2) by (auto simp: sector_crc_valid_def layout dest: unsigned_word_eqI)
qed

context block_store begin

lemma read_sector_SomeD:
  "ok d \<Longrightarrow> read_sector S d i = Inr b \<Longrightarrow> b = blk d (to_u16 i) \<and> sector_crc_valid b"
  by (auto simp: read_sector_def read_sector_raw_def dest!: read_some split: option.splits if_splits)

lemma write_sector_step:
  assumes "ok d" and "length b = SECTOR_SIZE" and "write_sector S d i b = (r, b', d')"
  shows "ok d' \<and> capacity S d' = capacity S d \<and> b' = sector_crc_stamp b \<and> r \<in> {STRG_OK, STRG_FAIL} \<and>
         blk d' = (if r = STRG_OK then (blk d)(to_u16 i := sector_crc_stamp b) else blk d)"
proof -
  obtain q d'' where w: "write_block S d (to_u16 i) (sector_crc_stamp b) = (q, d'')"
    by (meson surj_pair)
  from write_step [OF assms(1) length_stamp [OF assms(2)] w] show ?thesis
    using assms(3) w by (auto simp: write_sector_def split: if_splits)
qed

end

context reliable_store begin

lemma read_sector_valid:
  "ok d \<Longrightarrow> i < capacity S d \<Longrightarrow> i < 65536 \<Longrightarrow>
   read_sector S d i = (if sector_crc_valid (blk d i) then Inr (blk d i) else Inl STRG_CORRUPT)"
  by (simp add: read_sector_def read_sector_raw_def read_in_range)

lemma write_sector_in_range:
  assumes "ok d" and "i < capacity S d" and "i < 65536" and "length b = SECTOR_SIZE"
  obtains d' where "write_sector S d i b = (STRG_OK, sector_crc_stamp b, d')"
    and "ok d'" and "capacity S d' = capacity S d" and "blk d' = (blk d)(i := sector_crc_stamp b)"
proof -
  obtain r b' d' where w: "write_sector S d i b = (r, b', d')" by (metis prod_cases3)
  have "fst (write_block S d i (sector_crc_stamp b))"
    by (rule write_in_range) (simp_all add: assms)
  then have "r = STRG_OK" using w assms(3) by (auto simp: write_sector_def Let_def split: prod.splits)
  then show ?thesis using write_sector_step [OF assms(1,4) w] w assms(3) by (intro that [of d']) auto
qed

lemma read_written_sector:
  assumes "ok d" and "i < capacity S d" and "i < 65536" and "length b = SECTOR_SIZE"
    and "write_sector S d i b = (r, b', d')"
  shows "r = STRG_OK \<and> read_sector S d' i = Inr (sector_crc_stamp b) \<and>
         (\<forall>j. j < capacity S d \<and> j < 65536 \<and> j \<noteq> i \<longrightarrow> read_sector S d' j = read_sector S d j)"
proof -
  obtain d'' where w: "write_sector S d i b = (STRG_OK, sector_crc_stamp b, d'')"
    and d: "ok d''" "capacity S d'' = capacity S d" "blk d'' = (blk d)(i := sector_crc_stamp b)"
    by (rule write_sector_in_range [OF assms(1-4)]) blast
  then show ?thesis using assms by (auto simp: read_sector_valid)
qed

end

subsection \<open>Heap-backed storage\<close>

record HeapStorageContext =
  memory :: "byte list"
  block_size :: nat
  capacity_blocks :: nat

definition HeapStorage_Init :: "byte list option \<Rightarrow> nat \<Rightarrow> nat \<Rightarrow> HeapStorageContext option" where
  "HeapStorage_Init mem bs cap =
     (if mem = None \<or> bs = 0 \<or> cap = 0 then None
      else Some \<lparr>memory = the mem, block_size = bs, capacity_blocks = cap\<rparr>)"

definition HeapStorage_ReadBlock :: "HeapStorageContext \<Rightarrow> nat \<Rightarrow> byte list option" where
  "HeapStorage_ReadBlock ctx index =
     (if index \<ge> capacity_blocks ctx then None
      else Some (slice (to_u32 (index * block_size ctx)) (block_size ctx) (memory ctx)))"

definition HeapStorage_ReadMultiBlock :: "HeapStorageContext \<Rightarrow> nat \<Rightarrow> nat \<Rightarrow> byte list option" where
  "HeapStorage_ReadMultiBlock ctx index readNum =
     (if index + readNum > capacity_blocks ctx then None
      else Some (slice (to_u32 (index * block_size ctx)) (block_size ctx * readNum) (memory ctx)))"

definition HeapStorage_WriteMultiBlock ::
    "HeapStorageContext \<Rightarrow> nat \<Rightarrow> nat \<Rightarrow> byte list \<Rightarrow> bool \<times> HeapStorageContext" where
  "HeapStorage_WriteMultiBlock ctx index writeNum inb =
     (if index + writeNum > capacity_blocks ctx then (False, ctx)
      else (True, ctx\<lparr>memory := splice (to_u32 (index * block_size ctx))
                                  (take (block_size ctx * writeNum) inb) (memory ctx)\<rparr>))"

definition HeapStorage_WriteBlock :: "HeapStorageContext \<Rightarrow> nat \<Rightarrow> byte list \<Rightarrow> bool \<times> HeapStorageContext" where
  "HeapStorage_WriteBlock ctx index inb =
     (if index \<ge> capacity_blocks ctx then (False, ctx)
      else (True, ctx\<lparr>memory := splice (to_u32 (index * block_size ctx))
                                  (take (block_size ctx) inb) (memory ctx)\<rparr>))"

definition HeapStorage_Capacity :: "HeapStorageContext \<Rightarrow> nat" where
  "HeapStorage_Capacity ctx = capacity_blocks ctx"

definition heap_storage :: "HeapStorageContext Storage" where
  "heap_storage = \<lparr>read_block = HeapStorage_ReadBlock, read_multiblock = HeapStorage_ReadMultiBlock,
     write_block = HeapStorage_WriteBlock, write_multiblock = HeapStorage_WriteMultiBlock,
     capacity = HeapStorage_Capacity\<rparr>"

text \<open>A context is sound when its buffer holds every block and byte offsets fit 32 bits.\<close>

definition heap_ok :: "HeapStorageContext \<Rightarrow> bool" where
  "heap_ok ctx \<longleftrightarrow> block_size ctx = SECTOR_SIZE \<and>
     length (memory ctx) = capacity_blocks ctx * SECTOR_SIZE \<and> capacity_blocks ctx * SECTOR_SIZE < 2 ^ 32"

definition heap_blk :: "HeapStorageContext \<Rightarrow> nat \<Rightarrow> byte list" where
  "heap_blk ctx i = slice (i * SECTOR_SIZE) SECTOR_SIZE (memory ctx)"

lemma heap_offset: "heap_ok ctx \<Longrightarrow> i < capacity_blocks ctx \<Longrightarrow>
  i * SECTOR_SIZE < 4294967296 \<and> i * SECTOR_SIZE + SECTOR_SIZE \<le> length (memory ctx)"
proof -
  assume h: "heap_ok ctx" and i: "i < capacity_blocks ctx"
  have "Suc i * SECTOR_SIZE \<le> capacity_blocks ctx * SECTOR_SIZE"
    using i by (intro mult_le_mono1) simp
  then show ?thesis using h by (simp add: heap_ok_def layout)
qed

lemma slice_heap_splice:
  assumes "length s = n" and "i * n + n \<le> length m" and "n > 0"
  shows "slice (j * n) n (splice (i * n) s m) = (if j = i then s else slice (j * n) n m)"
proof (cases "j = i")
  case True
  then show ?thesis using assms slice_splice_same [of "i * n" s m] by simp
next
  case False
  show ?thesis
  proof (cases "j < i")
    case True
    then have "Suc j * n \<le> i * n" by (intro mult_le_mono1) simp
    then have "j * n + n \<le> i * n" by simp
    then show ?thesis using False assms
      by (intro slice_splice_other [THEN trans]) simp_all
  next
    case ji: False
    then have "Suc i * n \<le> j * n" using False by (intro mult_le_mono1) simp
    then have "i * n + n \<le> j * n" by simp
    then show ?thesis using False assms by (simp add: slice_splice_after)
  qed
qed

interpretation heap: reliable_store heap_storage heap_ok heap_blk
proof
  fix d i b assume "heap_ok d" "read_block heap_storage d i = Some b"
  then show "b = heap_blk d i"
    using heap_offset [of d i]
    by (auto simp: heap_storage_def HeapStorage_ReadBlock_def heap_blk_def heap_ok_def split: if_splits)
next
  fix d b i r d'
  assume h: "heap_ok d" and l: "length b = SECTOR_SIZE" and w: "write_block heap_storage d i b = (r, d')"
  show "heap_ok d' \<and> capacity heap_storage d' = capacity heap_storage d \<and>
        heap_blk d' = (if r then (heap_blk d)(i := b) else heap_blk d)"
  proof (cases "i < capacity_blocks d")
    case True
    note off = heap_offset [OF h True]
    have bs: "block_size d = SECTOR_SIZE" using h by (simp add: heap_ok_def)
    have d': "r" "d' = d\<lparr>memory := splice (i * SECTOR_SIZE) b (memory d)\<rparr>"
      using w True off l by (auto simp: heap_storage_def HeapStorage_WriteBlock_def bs)
    have "heap_blk d' j = ((heap_blk d)(i := b)) j" for j
      using slice_heap_splice [OF l, of i "memory d" j] off
      by (simp add: d' heap_blk_def layout)
    then show ?thesis using d' h off l
      by (auto simp: heap_ok_def heap_storage_def HeapStorage_Capacity_def)
  next
    case False
    then show ?thesis using h w by (auto simp: heap_storage_def HeapStorage_WriteBlock_def)
  qed
next
  fix d i assume "heap_ok d" "i < capacity heap_storage d"
  then show "length (heap_blk d i) = SECTOR_SIZE"
    using heap_offset [of d i] by (auto simp: heap_storage_def HeapStorage_Capacity_def heap_blk_def)
next
  fix d i assume "heap_ok d" "i < capacity heap_storage d"
  then show "read_block heap_storage d i = Some (heap_blk d i)"
    using heap_offset [of d i]
    by (simp add: heap_storage_def HeapStorage_Capacity_def HeapStorage_ReadBlock_def heap_blk_def heap_ok_def)
next
  fix d i and b :: "byte list" assume "i < capacity heap_storage d"
  then show "fst (write_block heap_storage d i b)"
    by (simp add: heap_storage_def HeapStorage_Capacity_def HeapStorage_WriteBlock_def)
qed

subsection \<open>Multi-block transfers\<close>

locale multiblock_store = block_store +
  assumes read_multi_some:
      "ok d \<Longrightarrow> n < 2 ^ 32 \<Longrightarrow> read_multiblock S d i n = Some b \<Longrightarrow> b = concat (map (blk d) [i..<i + n])"
    and write_multi_step: "ok d \<Longrightarrow> n < 2 ^ 32 \<Longrightarrow> length b = n * SECTOR_SIZE \<Longrightarrow> write_multiblock S d i n b = (r, d') \<Longrightarrow>
      ok d' \<and> capacity S d' = capacity S d \<and>
      blk d' = (if r then \<lambda>j. if i \<le> j \<and> j < i + n then slice ((j - i) * SECTOR_SIZE) SECTOR_SIZE b else blk d j
                else blk d)"
    and multi_in_range: "ok d \<Longrightarrow> 0 < n \<Longrightarrow> n < 2 ^ 32 \<Longrightarrow> i + n \<le> capacity S d \<Longrightarrow> length b = n * SECTOR_SIZE \<Longrightarrow>
      read_multiblock S d i n \<noteq> None \<and> fst (write_multiblock S d i n b)"

lemma slice_add: "slice off (m + n) b = slice off m b @ slice (off + m) n b"
  by (simp add: slice_def take_add add.commute)

lemma slice_slice: "p + k \<le> len \<Longrightarrow> slice p k (slice off len b) = slice (off + p) k b"
  by (simp add: slice_def drop_take min_def add.commute)

lemma concat_blocks: "concat (map (\<lambda>i. slice (i * m) m b) [k..<k + n]) = slice (k * m) (n * m) b"
proof (induction n)
  case (Suc n)
  then show ?case
    using slice_add [of "k * m" "n * m" m b] by (simp add: algebra_simps)
qed simp

lemma slice_block_splice:
  assumes "length s = n * m" and "i * m + n * m \<le> length b" and "m > 0"
  shows "slice (j * m) m (splice (i * m) s b) =
    (if i \<le> j \<and> j < i + n then slice ((j - i) * m) m s else slice (j * m) m b)"
proof (cases "i \<le> j \<and> j < i + n")
  case True
  then have jn: "(j - i) * m + m \<le> n * m"
  proof -
    have "Suc (j - i) \<le> n" using True by linarith
    from mult_le_mono1 [OF this, of m] show ?thesis by simp
  qed
  have "j * m = i * m + (j - i) * m" using True by (simp add: diff_mult_distrib)
  then have "slice (j * m) m (splice (i * m) s b) = slice ((j - i) * m) m (slice (i * m) (n * m) (splice (i * m) s b))"
    using jn by (simp add: slice_slice)
  also have "slice (i * m) (n * m) (splice (i * m) s b) = s"
    using slice_splice_same [of "i * m" s b] assms by simp
  finally show ?thesis using True by simp
next
  case False
  then consider "Suc j \<le> i" | "i + n \<le> j" by linarith
  then show ?thesis
  proof cases
    case 1
    then have "j * m + m \<le> i * m" using mult_le_mono1 [OF 1, of m] by simp
    then show ?thesis using False assms by (auto intro: slice_splice_other [THEN trans])
  next
    case 2
    then have "i * m + n * m \<le> j * m" using mult_le_mono1 [OF 2, of m] by (simp add: algebra_simps)
    then show ?thesis using False assms by (auto simp: slice_splice_after)
  qed
qed

lemma heap_run_offset: "heap_ok ctx \<Longrightarrow> i + n \<le> capacity_blocks ctx \<Longrightarrow>
  i * SECTOR_SIZE + n * SECTOR_SIZE \<le> length (memory ctx)"
  using mult_le_mono1 [of "i + n" "capacity_blocks ctx" SECTOR_SIZE]
  by (simp add: heap_ok_def algebra_simps)

lemma to_u32_heap_offset: "heap_ok ctx \<Longrightarrow> i + n \<le> capacity_blocks ctx \<Longrightarrow>
  to_u32 (i * SECTOR_SIZE) = i * SECTOR_SIZE"
  using heap_run_offset [of ctx i n] by (simp add: heap_ok_def layout)

interpretation heapm: multiblock_store heap_storage heap_ok heap_blk
proof
  fix d i n b assume h: "heap_ok d" and r: "read_multiblock heap_storage d i n = Some b"
  have bs: "block_size d = SECTOR_SIZE" using h by (simp add: heap_ok_def)
  have "concat (map (heap_blk d) [i..<i + n]) = slice (i * SECTOR_SIZE) (n * SECTOR_SIZE) (memory d)"
    using concat_blocks [of SECTOR_SIZE "memory d" i n] by (simp add: heap_blk_def [abs_def])
  then show "b = concat (map (heap_blk d) [i..<i + n])"
    using r to_u32_heap_offset [OF h, of i n]
    by (auto simp: heap_storage_def HeapStorage_ReadMultiBlock_def bs mult.commute [of SECTOR_SIZE] split: if_splits)
next
  fix d i n b r d'
  assume h: "heap_ok d" and l: "length b = n * SECTOR_SIZE" and w: "write_multiblock heap_storage d i n b = (r, d')"
  have bs: "block_size d = SECTOR_SIZE" using h by (simp add: heap_ok_def)
  show "heap_ok d' \<and> capacity heap_storage d' = capacity heap_storage d \<and>
    heap_blk d' = (if r then \<lambda>j. if i \<le> j \<and> j < i + n then slice ((j - i) * SECTOR_SIZE) SECTOR_SIZE b else heap_blk d j
                   else heap_blk d)"
  proof (cases "i + n \<le> capacity_blocks d")
    case True
    note off = heap_run_offset [OF h True] to_u32_heap_offset [OF h True]
    have d': "r" "d' = d\<lparr>memory := splice (i * SECTOR_SIZE) b (memory d)\<rparr>"
      using w True off l by (auto simp: heap_storage_def HeapStorage_WriteMultiBlock_def bs mult.commute)
    have "heap_blk d' j = (if i \<le> j \<and> j < i + n then slice ((j - i) * SECTOR_SIZE) SECTOR_SIZE b else heap_blk d j)" for j
      using slice_block_splice [OF l off(1), of j] by (simp add: d' heap_blk_def layout)
    then show ?thesis using d' h off l
      by (auto simp: heap_ok_def heap_storage_def HeapStorage_Capacity_def)
  next
    case False
    then show ?thesis using h w by (auto simp: heap_storage_def HeapStorage_WriteMultiBlock_def)
  qed
next
  fix d i n and b :: "byte list" assume "i + n \<le> capacity heap_storage d"
  then show "read_multiblock heap_storage d i n \<noteq> None \<and> fst (write_multiblock heap_storage d i n b)"
    by (simp add: heap_storage_def HeapStorage_Capacity_def HeapStorage_WriteMultiBlock_def HeapStorage_ReadMultiBlock_def)
qed

subsection \<open>The fault model: power is cut after a number of writes\<close>

record 'c PowerCut =
  card :: 'c
  writes_left :: nat

definition power_cut_write ::
    "'c Storage \<Rightarrow> 'c PowerCut \<Rightarrow> nat \<Rightarrow> byte list \<Rightarrow> bool \<times> 'c PowerCut" where
  "power_cut_write S p i b =
     (if writes_left p = 0 then (False, p)
      else let (r, c) = write_block S (card p) i b
           in (r, p\<lparr>card := c, writes_left := writes_left p - 1\<rparr>))"

definition power_cut_multi ::
    "'c Storage \<Rightarrow> 'c PowerCut \<Rightarrow> nat \<Rightarrow> nat \<Rightarrow> byte list \<Rightarrow> bool \<times> 'c PowerCut" where
  "power_cut_multi S p i n b =
     (if writes_left p = 0 then (False, p)
      else let (r, c) = write_multiblock S (card p) i n b
           in (r, p\<lparr>card := c, writes_left := writes_left p - 1\<rparr>))"

definition power_cut :: "'c Storage \<Rightarrow> 'c PowerCut Storage" where
  "power_cut S = \<lparr>read_block = \<lambda>p. read_block S (card p), read_multiblock = \<lambda>p. read_multiblock S (card p),
     write_block = power_cut_write S, write_multiblock = power_cut_multi S, capacity = \<lambda>p. capacity S (card p)\<rparr>"

context block_store begin

lemma power_cut_block_store: "block_store (power_cut S) (\<lambda>p. ok (card p)) (\<lambda>p. blk (card p))"
proof
  fix p i b assume "ok (card p)" "read_block (power_cut S) p i = Some b"
  then show "b = blk (card p) i" by (auto simp: power_cut_def dest: read_some)
next
  fix p b i r p'
  assume "ok (card p)" "length b = SECTOR_SIZE" "write_block (power_cut S) p i b = (r, p')"
  then show "ok (card p') \<and> capacity (power_cut S) p' = capacity (power_cut S) p \<and>
      blk (card p') = (if r then (blk (card p))(i := b) else blk (card p))"
    by (auto simp: power_cut_def power_cut_write_def dest: write_step split: if_splits prod.splits)
next
  fix p i assume "ok (card p)" "i < capacity (power_cut S) p"
  then show "length (blk (card p) i) = SECTOR_SIZE" by (auto simp: power_cut_def dest: blk_length)
qed

end

interpretation cut: block_store "power_cut heap_storage" "\<lambda>p. heap_ok (card p)" "\<lambda>p. heap_blk (card p)"
  by (rule heap.power_cut_block_store)

end
