(* ===== verification/Iterator.thy ===== *)
theory Iterator
  imports Prelude
begin

text \<open>
  The iterator interface of \<^verbatim>\<open>source/app/include/iterator.h\<close> and
  \<^verbatim>\<open>source/app/src/iterator.c\<close>: a struct of three function pointers over a context.  The
  context is the threaded state \<open>'s\<close>; \<open>'v\<close> is what \<^verbatim>\<open>get\<close> stores through its out
  pointer (\<open>None\<close> when it returns false).

  The locale \<open>cursor\<close> is the contract of an iterator that walks the elements of a sorted list:
  \<^verbatim>\<open>next\<close> moves to the least element above the current one (the first when there is no
  current one), \<^verbatim>\<open>prev\<close> to the greatest below, and both lose the position when there is
  none.  \<open>visits_all\<close> and \<open>visits_all_backwards\<close> are what a client gets from it.
\<close>

record ('s, 'v) Iterator =
  it_next :: "'s \<Rightarrow> bool \<times> 's"
  it_prev :: "'s \<Rightarrow> bool \<times> 's"
  it_get :: "'s \<Rightarrow> 'v option"

definition iterator_next_fn :: "('s, 'v) Iterator \<Rightarrow> 's \<Rightarrow> bool \<times> 's" where
  "iterator_next_fn it s = it_next it s"

definition iterator_prev_fn :: "('s, 'v) Iterator \<Rightarrow> 's \<Rightarrow> bool \<times> 's" where
  "iterator_prev_fn it s = it_prev it s"

definition iterator_get_fn :: "('s, 'v) Iterator \<Rightarrow> 's \<Rightarrow> 'v option" where
  "iterator_get_fn it s = it_get it s"

text \<open>The client's loop \<^verbatim>\<open>while (count < n && iterator_next_fn(&it)) iterator_get_fn(...)\<close>:
  the values met, for at most \<open>n\<close> rounds.\<close>

fun collect_next :: "('s, 'v) Iterator \<Rightarrow> nat \<Rightarrow> 's \<Rightarrow> 'v list" where
  "collect_next it 0 s = []"
| "collect_next it (Suc n) s =
     (let (r, s') = iterator_next_fn it s
      in if r then (case iterator_get_fn it s' of Some v \<Rightarrow> v # collect_next it n s' | None \<Rightarrow> []) else [])"

fun collect_prev :: "('s, 'v) Iterator \<Rightarrow> nat \<Rightarrow> 's \<Rightarrow> 'v list" where
  "collect_prev it 0 s = []"
| "collect_prev it (Suc n) s =
     (let (r, s') = iterator_prev_fn it s
      in if r then (case iterator_get_fn it s' of Some v \<Rightarrow> v # collect_prev it n s' | None \<Rightarrow> []) else [])"

definition above :: "'a::linorder option \<Rightarrow> 'a list \<Rightarrow> 'a list" where
  "above p xs = (case p of None \<Rightarrow> xs | Some a \<Rightarrow> filter (\<lambda>x. a < x) xs)"

definition below :: "'a::linorder option \<Rightarrow> 'a list \<Rightarrow> 'a list" where
  "below p xs = (case p of None \<Rightarrow> xs | Some a \<Rightarrow> filter (\<lambda>x. x < a) xs)"

locale cursor =
  fixes it :: "('s, nat) Iterator"
    and inv :: "'s \<Rightarrow> bool"
    and elems :: "nat list"
  assumes sorted_elems: "sorted_wrt (<) elems"
    and next_step: "inv s \<Longrightarrow> it_next it s = (r, s') \<Longrightarrow> inv s' \<and>
      (case above (it_get it s) elems of [] \<Rightarrow> \<not> r \<and> it_get it s' = None | x # _ \<Rightarrow> r \<and> it_get it s' = Some x)"
    and prev_step: "inv s \<Longrightarrow> it_prev it s = (r, s') \<Longrightarrow> inv s' \<and>
      (case rev (below (it_get it s) elems) of [] \<Rightarrow> \<not> r \<and> it_get it s' = None | x # _ \<Rightarrow> r \<and> it_get it s' = Some x)"

lemma above_Cons:
  assumes "sorted_wrt (<) xs" and "above p xs = x # ys"
  shows "above (Some x) xs = ys"
proof -
  obtain as where xs: "xs = as @ x # ys" "\<forall>a \<in> set as. a < x"
  proof (cases p)
    case None
    then show ?thesis using assms that [of "[]"] by (auto simp: above_def)
  next
    case (Some a)
    have f: "sorted_wrt (<) xs \<Longrightarrow> filter (\<lambda>x. a < x) xs = x # ys \<Longrightarrow>
      \<exists>as. xs = as @ x # ys \<and> (\<forall>b \<in> set as. b < x)" for xs
    proof (induction xs)
      case (Cons z zs)
      show ?case
      proof (cases "a < z")
        case True
        then have "filter (\<lambda>x. a < x) zs = zs"
          using Cons.prems(1) by (intro filter_True) (auto intro: less_trans)
        then show ?thesis using Cons.prems True by (intro exI [of _ "[]"]) simp
      next
        case False
        then obtain as where "zs = as @ x # ys" "\<forall>b \<in> set as. b < x" using Cons by auto
        then show ?thesis using Cons.prems(1) by (intro exI [of _ "z # as"]) auto
      qed
    qed simp
    show ?thesis using f [OF assms(1)] assms(2) Some that by (auto simp: above_def)
  qed
  then have "filter (\<lambda>z. x < z) as = []" "filter (\<lambda>z. x < z) ys = ys"
    using assms(1) by (auto simp: filter_empty_conv sorted_wrt_append intro: filter_True)
  then show ?thesis using xs by (simp add: above_def)
qed

lemma below_snoc:
  assumes "sorted_wrt (<) xs" and "below p xs = ys @ [x]"
  shows "below (Some x) xs = ys"
proof -
  obtain zs where xs: "xs = ys @ x # zs"
  proof (cases p)
    case None
    then show ?thesis using assms that [of "[]"] by (auto simp: below_def)
  next
    case (Some a)
    have "\<exists>zs. xs = filter (\<lambda>x. x < a) xs @ zs" using assms(1)
    proof (induction xs)
      case (Cons z zs)
      show ?case
      proof (cases "z < a")
        case False
        then have "filter (\<lambda>x. x < a) zs = []" using Cons.prems by (auto simp: filter_empty_conv)
        then show ?thesis using False by simp
      qed (use Cons in auto)
    qed simp
    then show ?thesis using assms(2) Some that by (auto simp: below_def)
  qed
  then have "filter (\<lambda>z. z < x) ys = ys" "filter (\<lambda>z. z < x) zs = []"
    using assms(1) by (auto simp: filter_empty_conv sorted_wrt_append intro: filter_True)
  then show ?thesis using xs by (simp add: below_def)
qed

context cursor begin

lemma collect_next_eq: "inv s \<Longrightarrow> collect_next it n s = take n (above (it_get it s) elems)"
proof (induction n arbitrary: s)
  case (Suc n)
  obtain r s' where st: "it_next it s = (r, s')" by (meson surj_pair)
  note step = next_step [OF Suc.prems st]
  show ?case
  proof (cases "above (it_get it s) elems")
    case (Cons x ys)
    then have s': "inv s'" "r" "it_get it s' = Some x" using step by auto
    then show ?thesis using Suc.IH [OF s'(1)] above_Cons [OF sorted_elems Cons] Cons st
      by (simp add: iterator_next_fn_def iterator_get_fn_def)
  qed (use step st in \<open>simp add: iterator_next_fn_def\<close>)
qed simp

lemma collect_prev_eq: "inv s \<Longrightarrow> collect_prev it n s = take n (rev (below (it_get it s) elems))"
proof (induction n arbitrary: s)
  case (Suc n)
  obtain r s' where st: "it_prev it s = (r, s')" by (meson surj_pair)
  note step = prev_step [OF Suc.prems st]
  show ?case
  proof (cases "rev (below (it_get it s) elems)")
    case (Cons x ys)
    then have s': "inv s'" "r" "it_get it s' = Some x" using step by auto
    have "below (it_get it s) elems = rev ys @ [x]" using Cons by (metis rev.simps(2) rev_rev_ident)
    then show ?thesis using Suc.IH [OF s'(1)] below_snoc [OF sorted_elems] Cons st s'
      by (simp add: iterator_prev_fn_def iterator_get_fn_def)
  qed (use step st in \<open>simp add: iterator_prev_fn_def\<close>)
qed simp

lemma visits_all: "inv s \<Longrightarrow> it_get it s = None \<Longrightarrow> length elems \<le> n \<Longrightarrow> collect_next it n s = elems"
  by (simp add: collect_next_eq above_def)

lemma visits_all_backwards:
  "inv s \<Longrightarrow> it_get it s = None \<Longrightarrow> length elems \<le> n \<Longrightarrow> collect_prev it n s = rev elems"
  by (simp add: collect_prev_eq below_def)

end

end
