(* ===== verification/Usage_Bitmap.thy ===== *)
theory Usage_Bitmap
  imports Storage Iterator
begin

text \<open>
  The usage bitmap of \<^verbatim>\<open>source/app/src/usage_bitmap.c\<close>: one bit per data sector, kept in RAM
  as an array of 32-bit words and on the card as eight CRC-protected sectors.  The C global
  \<^verbatim>\<open>usage_bitmap[]\<close> is the argument \<open>bm\<close>, a list of words that the operations return
  updated.  A sector of the array is handed to the storage as its little-endian bytes
  (\<open>words_bytes\<close>); the last word of every sector is its CRC trailer and holds no bits.

  \<open>bitmap_synced\<close> is the invariant: the array has its size and every sector of it is stamped and
  equal to the block on the card.  \<open>used bm i\<close> is the abstract state (is data sector \<open>i\<close> in use),
  and the lemmas say what each operation does to it.
\<close>

subsection \<open>Words and bytes\<close>

definition words_bytes :: "u32 list \<Rightarrow> byte list" where
  "words_bytes ws = concat (map (\<lambda>w. le32 (unat w)) ws)"

fun bytes_words :: "byte list \<Rightarrow> u32 list" where
  "bytes_words (a # b # c # d # r) = of_nat (rd32 [a, b, c, d]) # bytes_words r"
| "bytes_words _ = []"

lemma words_bytes_simps [simp]:
  "words_bytes [] = []" "words_bytes (w # ws) = le32 (unat w) @ words_bytes ws"
  "words_bytes (us @ vs) = words_bytes us @ words_bytes vs"
  by (simp_all add: words_bytes_def)

lemma length_words_bytes [simp]: "length (words_bytes ws) = 4 * length ws"
  by (induction ws) simp_all

lemma u32_less [simp]: "unat (w :: u32) < 4294967296"
  by (rule less_le_trans [OF unsigned_less]) simp

lemma bytes_words_words_bytes [codec]: "bytes_words (words_bytes ws) = ws"
proof (induction ws)
  case (Cons w ws)
  have "bytes_words (le32 n @ r) = of_nat (rd32 (le32 n)) # bytes_words r" for n r
    by (simp add: le32_def)
  then show ?case using Cons by (simp add: rd32_le32)
qed simp

lemma words_bytes_bytes_words [codec]: "length b mod 4 = 0 \<Longrightarrow> words_bytes (bytes_words b) = b"
proof (induction b rule: bytes_words.induct)
  case (1 a b c d r)
  have "unat (of_nat (rd32 [a, b, c, d]) :: u32) = rd32 [a, b, c, d]"
    using rd32_less [of "[a, b, c, d]"] by (simp add: unat_of_nat)
  moreover have "length r mod 4 = 0" using 1(2) by (simp only: list.size) presburger
  ultimately show ?case using 1(1) le32_rd32 [of "[a, b, c, d]"] by simp
qed (simp_all add: mod_Suc)

lemma slice_words_bytes: "slice (4 * k) (4 * n) (words_bytes ws) = words_bytes (slice k n ws)"
proof (induction ws arbitrary: k n)
  case (Cons w ws)
  show ?case
  proof (cases k)
    case 0
    then show ?thesis using Cons [of 0 "n - 1"] by (cases n) (simp_all add: slice_def)
  next
    case (Suc k')
    then show ?thesis using Cons [of k' n] by (simp add: slice_def)
  qed
qed (simp add: slice_def)

lemma words_bytes_inject [simp]: "words_bytes us = words_bytes vs \<longleftrightarrow> us = vs"
  by (metis bytes_words_words_bytes)

subsection \<open>Stamping one sector of the array\<close>

definition bitmap_sector :: "u32 list \<Rightarrow> nat \<Rightarrow> u32 list" where
  "bitmap_sector bm s = slice (s * ELEMENTS_PER_SECTOR) ELEMENTS_PER_SECTOR bm"

definition stamp_bitmap_sector :: "nat \<Rightarrow> u32 list \<Rightarrow> u32 list" where
  "stamp_bitmap_sector s bm =
     splice (s * ELEMENTS_PER_SECTOR)
       (bytes_words (sector_crc_stamp (words_bytes (bitmap_sector bm s)))) bm"

subsection \<open>Bring-up\<close>

definition init_usage_bitmap :: "'c Storage \<Rightarrow> 'c \<Rightarrow> bool \<times> 'c \<times> u32 list" where
  "init_usage_bitmap S d =
     (let bm = fold stamp_bitmap_sector [0..<USAGE_BITMAP_SECTOR_SIZE] (replicate USAGE_BITMAP_STORAGE_SIZE 0);
          (r, d') = write_multiblock S d USAGE_BITMAP_START_SECTOR USAGE_BITMAP_SECTOR_SIZE (words_bytes bm)
      in (r, d', bm))"

text \<open>The array is left unchanged when the transfer fails, and overwritten even when a trailer is bad.\<close>

definition read_usage_bitmap :: "'c Storage \<Rightarrow> 'c \<Rightarrow> u32 list \<Rightarrow> bool \<times> u32 list" where
  "read_usage_bitmap S d bm =
     (case read_multiblock S d USAGE_BITMAP_START_SECTOR USAGE_BITMAP_SECTOR_SIZE of
        None \<Rightarrow> (False, bm)
      | Some b \<Rightarrow>
          let bm' = bytes_words b
          in (list_all (\<lambda>s. sector_crc_valid (words_bytes (bitmap_sector bm' s)))
                [0..<USAGE_BITMAP_SECTOR_SIZE], bm'))"

subsection \<open>One bit\<close>

definition check_usage_bit :: "u32 list \<Rightarrow> nat \<Rightarrow> bool" where
  "check_usage_bit bm index =
     (drop_bit (USAGE_BITMAP_FIND_BIT index) (bm ! USAGE_BITMAP_FIND_INDEX index) AND 1 \<noteq> 0)"

definition put_usage_bit :: "nat \<Rightarrow> nat \<Rightarrow> bool \<Rightarrow> u32 list \<Rightarrow> u32 list" where
  "put_usage_bit word b used_state bm =
     bm[word := if used_state then bm ! word OR push_bit b 1 else bm ! word AND NOT (push_bit b 1)]"

definition update_usage_bit ::
    "'c Storage \<Rightarrow> 'c \<Rightarrow> u32 list \<Rightarrow> nat \<Rightarrow> bool \<Rightarrow> STRG_RET \<times> 'c \<times> u32 list" where
  "update_usage_bit S d bm index used_state =
     (let s = USAGE_BITMAP_FIND_SECTOR index;
          word = s * ELEMENTS_PER_SECTOR + USAGE_BITMAP_FIND_ELEMENT index;
          b = USAGE_BITMAP_FIND_BIT index;
          prev_bit_val = (bm ! word AND push_bit b 1 \<noteq> 0);
          bm1 = stamp_bitmap_sector s (put_usage_bit word b used_state bm);
          (r, d') = write_block S d (USAGE_BITMAP_START_SECTOR + s) (words_bytes (bitmap_sector bm1 s));
          ret = bool_strg r
      in if ret \<noteq> STRG_OK then
           (ret, d', if prev_bit_val \<noteq> used_state
                     then stamp_bitmap_sector s (put_usage_bit word b (\<not> used_state) bm1) else bm1)
         else (STRG_OK, d', bm1))"

subsection \<open>Scans\<close>

definition clear_bits_to_n_u32 :: "u32 \<Rightarrow> nat \<Rightarrow> u32" where
  "clear_bits_to_n_u32 bitmap n = (if n > 0 \<and> n < BITS_PER_ELEMENT then bitmap AND push_bit n (NOT 0) else bitmap)"

function next_bit_loop :: "u32 list \<Rightarrow> nat \<Rightarrow> nat \<Rightarrow> nat \<Rightarrow> nat \<Rightarrow> nat" where
  "next_bit_loop bm first_elem first_bit last_elem word =
     (if word > last_elem then UINT16_MAX
      else if USAGE_BITMAP_IS_CRC_WORD word then next_bit_loop bm first_elem first_bit last_elem (Suc word)
      else let bits = (if word = first_elem \<and> first_bit > 0 then clear_bits_to_n_u32 (bm ! word) first_bit
                       else bm ! word)
           in if bits \<noteq> 0 then to_u16 (USAGE_BITMAP_WORD_TO_INDEX word + ctz bits)
              else next_bit_loop bm first_elem first_bit last_elem (Suc word))"
  by pat_completeness auto
termination by (relation "measure (\<lambda>(_, _, _, l, w). Suc l - w)") auto

definition get_next_bit :: "u32 list \<Rightarrow> nat \<Rightarrow> nat \<Rightarrow> nat" where
  "get_next_bit bm curInd limInd =
     next_bit_loop bm (USAGE_BITMAP_FIND_INDEX curInd) (USAGE_BITMAP_FIND_BIT curInd)
       (USAGE_BITMAP_FIND_INDEX limInd) (USAGE_BITMAP_FIND_INDEX curInd)"

text \<open>The loop of \<^verbatim>\<open>get_prev_bit\<close> counts a signed \<^verbatim>\<open>word\<close> down; decrementing it at 0
  ends the loop.\<close>

definition prev_bits :: "u32 list \<Rightarrow> nat \<Rightarrow> nat \<Rightarrow> nat \<Rightarrow> nat \<Rightarrow> nat \<Rightarrow> u32" where
  "prev_bits bm first_elem first_bit last_elem last_bit word =
     (let bits = bm ! word;
          bits = (if word = first_elem \<and> first_bit < BITS_PER_ELEMENT - 1
                  then bits AND (push_bit (first_bit + 1) 1 - 1) else bits)
      in if word = last_elem \<and> last_bit > 0 then bits AND NOT (push_bit last_bit 1 - 1) else bits)"

function prev_bit_loop :: "u32 list \<Rightarrow> nat \<Rightarrow> nat \<Rightarrow> nat \<Rightarrow> nat \<Rightarrow> nat \<Rightarrow> nat" where
  "prev_bit_loop bm first_elem first_bit last_elem last_bit word =
     (let continue = (if word = 0 then UINT16_MAX
                      else prev_bit_loop bm first_elem first_bit last_elem last_bit (word - 1))
      in if word < last_elem then UINT16_MAX
         else if USAGE_BITMAP_IS_CRC_WORD word then continue
         else let bits = prev_bits bm first_elem first_bit last_elem last_bit word
              in if bits \<noteq> 0 then to_u16 (USAGE_BITMAP_WORD_TO_INDEX word + (31 - clz bits))
                 else continue)"
  by pat_completeness auto
termination by (relation "measure (\<lambda>(_, _, _, _, _, w). w)") auto

definition get_prev_bit :: "u32 list \<Rightarrow> nat \<Rightarrow> nat \<Rightarrow> nat" where
  "get_prev_bit bm curInd limInd =
     prev_bit_loop bm (USAGE_BITMAP_FIND_INDEX limInd) (USAGE_BITMAP_FIND_BIT limInd)
       (USAGE_BITMAP_FIND_INDEX curInd) (USAGE_BITMAP_FIND_BIT curInd) (USAGE_BITMAP_FIND_INDEX limInd)"

function get_nth_set_bit :: "u32 \<Rightarrow> int \<Rightarrow> nat" where
  "get_nth_set_bit bitmap n =
     (if bitmap \<noteq> 0 then if n = 0 then ctz bitmap else get_nth_set_bit (clear_lowest bitmap) (n - 1)
      else UINT16_MAX)"
  by pat_completeness auto
termination
  by (relation "measure (\<lambda>(w, _). length (set_bits_of w))")
    (auto simp: set_bits_of_clear_lowest)

declare next_bit_loop.simps [simp del] prev_bit_loop.simps [simp del] get_nth_set_bit.simps [simp del]

subsection \<open>The iterator\<close>

record UsageBitmapIteratorCtx =
  currBit :: nat
  total_bits :: nat
  total_elems :: nat

definition usage_bitmap_iterator_get :: "UsageBitmapIteratorCtx \<Rightarrow> nat option" where
  "usage_bitmap_iterator_get ctx = (if currBit ctx = UINT16_MAX then None else Some (currBit ctx))"

definition usage_bitmap_iterator_next ::
    "u32 list \<Rightarrow> UsageBitmapIteratorCtx \<Rightarrow> bool \<times> UsageBitmapIteratorCtx" where
  "usage_bitmap_iterator_next bm ctx =
     (if total_bits ctx = 0 then (False, ctx\<lparr>currBit := UINT16_MAX\<rparr>)
      else let start = (if currBit ctx = UINT16_MAX then 0 else to_u16 (currBit ctx + 1))
           in if start \<ge> total_bits ctx then (False, ctx\<lparr>currBit := UINT16_MAX\<rparr>)
              else let found = get_next_bit bm start (to_u16 (total_bits ctx - 1))
                   in (found \<noteq> UINT16_MAX, ctx\<lparr>currBit := found\<rparr>))"

definition usage_bitmap_iterator_prev ::
    "u32 list \<Rightarrow> UsageBitmapIteratorCtx \<Rightarrow> bool \<times> UsageBitmapIteratorCtx" where
  "usage_bitmap_iterator_prev bm ctx =
     (if total_bits ctx = 0 then (False, ctx\<lparr>currBit := UINT16_MAX\<rparr>)
      else if currBit ctx = 0 then (False, ctx\<lparr>currBit := UINT16_MAX\<rparr>)
      else let end' = (if currBit ctx = UINT16_MAX then to_u16 (total_bits ctx - 1) else to_u16 (currBit ctx - 1));
               found = get_prev_bit bm 0 end'
           in (found \<noteq> UINT16_MAX, ctx\<lparr>currBit := found\<rparr>))"

definition usage_bitmap_iterator ::
    "u32 list \<Rightarrow> (UsageBitmapIteratorCtx, nat) Iterator" where
  "usage_bitmap_iterator bm = \<lparr>it_next = usage_bitmap_iterator_next bm, it_prev = usage_bitmap_iterator_prev bm,
     it_get = usage_bitmap_iterator_get\<rparr>"

definition usage_bitmap_iterator_init :: "nat \<Rightarrow> nat \<Rightarrow> UsageBitmapIteratorCtx" where
  "usage_bitmap_iterator_init bits elems = \<lparr>currBit = UINT16_MAX, total_bits = bits, total_elems = elems\<rparr>"

subsection \<open>The array as a set of bits\<close>

definition used :: "u32 list \<Rightarrow> nat \<Rightarrow> bool" where
  "used bm i \<longleftrightarrow> i < USAGE_BITMAP_TOTAL_BITS \<and> bit (bm ! USAGE_BITMAP_FIND_INDEX i) (USAGE_BITMAP_FIND_BIT i)"

lemma test_bit: "drop_bit n (w :: u32) AND 1 \<noteq> 0 \<longleftrightarrow> bit w n"
  by (simp add: bit_iff_odd_drop_bit and_one_eq odd_iff_mod_2_eq_one)

lemma mask_bit: "w AND push_bit n 1 \<noteq> (0 :: u32) \<longleftrightarrow> n < 32 \<and> bit w n"
proof -
  have "bit (w AND push_bit n 1) k \<longleftrightarrow> k = n \<and> n < 32 \<and> bit w n" for k
    by (auto simp: bit_simps)
  then show ?thesis unfolding bit_eq_iff [of "w AND push_bit n 1"] by simp
qed

lemma check_usage_bit_used: "i < USAGE_BITMAP_TOTAL_BITS \<Longrightarrow> check_usage_bit bm i = used bm i"
  by (simp add: check_usage_bit_def used_def test_bit)

lemma bit_put:
  "b < 32 \<Longrightarrow> bit (if v then w OR push_bit b 1 else w AND NOT (push_bit b (1 :: u32))) k \<longleftrightarrow>
     (if k = b then v else bit w k)"
  by (auto simp: bit_simps dest: bit_imp_le_length)

lemma length_put [simp]: "length (put_usage_bit word b v bm) = length bm"
  by (simp add: put_usage_bit_def)

lemma put_same: "word < length bm \<Longrightarrow> b < 32 \<Longrightarrow> bit (bm ! word) b = v \<Longrightarrow> put_usage_bit word b v bm = bm"
  unfolding put_usage_bit_def
  by (rule trans [OF _ list_update_id]) (rule arg_cong [where f = "list_update bm word"],
      rule bit_eqI, subst bit_put, auto)

lemma put_cong:
  "a ! k = c ! k \<Longrightarrow> a ! word = c ! word \<Longrightarrow> k < length a \<Longrightarrow> k < length c \<Longrightarrow>
   put_usage_bit word b v a ! k = put_usage_bit word b v c ! k"
  by (cases "k = word") (simp_all add: put_usage_bit_def del: push_bit_of_1)

lemma put_put:
  "word < length bm \<Longrightarrow> b < 32 \<Longrightarrow> put_usage_bit word b u (put_usage_bit word b v bm) = put_usage_bit word b u bm"
  unfolding put_usage_bit_def
  by (simp only: nth_list_update_eq list_update_overwrite)
    (rule arg_cong [where f = "list_update bm word"], rule bit_eqI, simp only: bit_put, simp)

subsection \<open>The stamp touches the trailer word only\<close>

lemma length_bitmap_sector [simp]:
  "length bm = USAGE_BITMAP_STORAGE_SIZE \<Longrightarrow> s < USAGE_BITMAP_SECTOR_SIZE \<Longrightarrow> length (bitmap_sector bm s) = 128"
  by (simp add: bitmap_sector_def layout)

lemma sector_bytes_len [simp]:
  "length bm = USAGE_BITMAP_STORAGE_SIZE \<Longrightarrow> s < USAGE_BITMAP_SECTOR_SIZE \<Longrightarrow>
   length (words_bytes (bitmap_sector bm s)) = SECTOR_SIZE"
  by (simp add: layout)

lemma stamped_words:
  assumes "length ws = 128"
  shows "length (bytes_words (sector_crc_stamp (words_bytes ws))) = 128"
    and "words_bytes (bytes_words (sector_crc_stamp (words_bytes ws))) = sector_crc_stamp (words_bytes ws)"
    and "i < 127 \<Longrightarrow> bytes_words (sector_crc_stamp (words_bytes ws)) ! i = ws ! i"
proof -
  let ?st = "sector_crc_stamp (words_bytes ws)"
  have l: "length ?st = 512" using length_stamp [of "words_bytes ws"] assms by (simp add: layout)
  show wb: "words_bytes (bytes_words ?st) = ?st" by (rule words_bytes_bytes_words) (simp add: l)
  have "length (words_bytes (bytes_words ?st)) = 512" by (simp only: wb l)
  then show l': "length (bytes_words ?st) = 128" by simp
  assume i: "i < 127"
  have "words_bytes (slice i 1 (bytes_words ?st)) = slice (4 * i) 4 ?st"
    using slice_words_bytes [of i 1 "bytes_words ?st"] by (simp add: wb)
  also have "\<dots> = slice (4 * i) 4 (words_bytes ws)" using i assms by (intro slice_stamp) (simp_all add: layout)
  also have "\<dots> = words_bytes (slice i 1 ws)" using slice_words_bytes [of i 1 ws] by simp
  finally have "slice i 1 (bytes_words ?st) = slice i 1 ws" by simp
  then have "slice i 1 (bytes_words ?st) ! 0 = slice i 1 ws ! 0" by simp
  then show "bytes_words ?st ! i = ws ! i" using i assms l' by simp
qed

lemma stamp_sector:
  assumes "length bm = USAGE_BITMAP_STORAGE_SIZE" and "s < USAGE_BITMAP_SECTOR_SIZE"
  shows "length (stamp_bitmap_sector s bm) = USAGE_BITMAP_STORAGE_SIZE"
    and "words_bytes (bitmap_sector (stamp_bitmap_sector s bm) s) = sector_crc_stamp (words_bytes (bitmap_sector bm s))"
    and "t \<noteq> s \<Longrightarrow> bitmap_sector (stamp_bitmap_sector s bm) t = bitmap_sector bm t"
    and "w < USAGE_BITMAP_STORAGE_SIZE \<Longrightarrow> \<not> USAGE_BITMAP_IS_CRC_WORD w \<Longrightarrow> stamp_bitmap_sector s bm ! w = bm ! w"
proof -
  let ?st = "bytes_words (sector_crc_stamp (words_bytes (bitmap_sector bm s)))"
  have l: "length (bitmap_sector bm s) = 128" using assms by simp
  note st = stamped_words [OF l]
  have off: "s * 128 + 128 \<le> length bm" using assms by (simp add: layout)
  show "length (stamp_bitmap_sector s bm) = USAGE_BITMAP_STORAGE_SIZE"
    using assms st(1) off by (simp add: stamp_bitmap_sector_def layout)
  show "words_bytes (bitmap_sector (stamp_bitmap_sector s bm) s) = sector_crc_stamp (words_bytes (bitmap_sector bm s))"
    using slice_splice_same [of "s * 128" ?st bm, unfolded st(1)] off st(2)
    by (simp add: stamp_bitmap_sector_def bitmap_sector_def layout)
  show "t \<noteq> s \<Longrightarrow> bitmap_sector (stamp_bitmap_sector s bm) t = bitmap_sector bm t"
    using slice_block_splice [of ?st 1 128 s bm t] off st(1)
    by (auto simp: stamp_bitmap_sector_def bitmap_sector_def layout)
  assume w: "w < USAGE_BITMAP_STORAGE_SIZE" "\<not> USAGE_BITMAP_IS_CRC_WORD w"
  have "w - s * 128 < 127" if "s * 128 \<le> w" "w < s * 128 + 128"
  proof -
    have "w = s * 128 + (w - s * 128)" "w - s * 128 < 128" using that by simp_all
    then have "w mod 128 = w - s * 128" by (metis mod_less mod_mult_self3)
    then show ?thesis using w(2) by (simp add: bitmap_defs)
  qed
  then show "stamp_bitmap_sector s bm ! w = bm ! w"
    using w(1) off assms st(1,3)
    by (auto simp: stamp_bitmap_sector_def nth_splice layout bitmap_sector_def)
qed

subsection \<open>The invariant and the operations\<close>

definition bitmap_synced :: "(nat \<Rightarrow> byte list) \<Rightarrow> u32 list \<Rightarrow> bool" where
  "bitmap_synced blk bm \<longleftrightarrow> length bm = USAGE_BITMAP_STORAGE_SIZE \<and>
     (\<forall>s < USAGE_BITMAP_SECTOR_SIZE. sector_crc_valid (words_bytes (bitmap_sector bm s)) \<and>
        blk (USAGE_BITMAP_START_SECTOR + s) = words_bytes (bitmap_sector bm s))"

definition bit_word :: "nat \<Rightarrow> nat" where
  "bit_word i = USAGE_BITMAP_FIND_SECTOR i * ELEMENTS_PER_SECTOR + USAGE_BITMAP_FIND_ELEMENT i"

lemma bit_word_eq: "bit_word i = USAGE_BITMAP_FIND_INDEX i"
  by (simp add: bit_word_def USAGE_BITMAP_FIND_INDEX_def)

lemma find_sector_less: "i < USAGE_BITMAP_TOTAL_BITS \<Longrightarrow> USAGE_BITMAP_FIND_SECTOR i < USAGE_BITMAP_SECTOR_SIZE"
  by (simp add: bitmap_defs less_mult_imp_div_less)

lemma put_other_sector:
  assumes "t \<noteq> USAGE_BITMAP_FIND_SECTOR i"
  shows "bitmap_sector (put_usage_bit (bit_word i) b v bm) t = bitmap_sector bm t"
proof -
  have e: "USAGE_BITMAP_FIND_ELEMENT i < 128" by (simp add: bitmap_defs less_mult_imp_div_less)
  consider "t < USAGE_BITMAP_FIND_SECTOR i" | "USAGE_BITMAP_FIND_SECTOR i < t" using assms by linarith
  then show ?thesis
  proof cases
    case 1
    then have "t * 128 + 128 \<le> USAGE_BITMAP_FIND_SECTOR i * 128" using mult_le_mono1 [of "Suc t" _ 128] by simp
    then show ?thesis by (simp add: bitmap_sector_def put_usage_bit_def bit_word_def slice_def layout drop_update_swap)
  next
    case 2
    then have "USAGE_BITMAP_FIND_SECTOR i * 128 + 128 \<le> t * 128" using mult_le_mono1 [of "Suc _" t 128] by simp
    then show ?thesis using e
      by (simp add: bitmap_sector_def put_usage_bit_def bit_word_def slice_def layout)
  qed
qed

text \<open>Setting a bit and stamping its sector changes that bit and no other.\<close>

lemma used_put_stamp:
  assumes "length bm = USAGE_BITMAP_STORAGE_SIZE" and "i < USAGE_BITMAP_TOTAL_BITS"
  shows "used (stamp_bitmap_sector (USAGE_BITMAP_FIND_SECTOR i)
      (put_usage_bit (bit_word i) (USAGE_BITMAP_FIND_BIT i) v bm)) j =
    (if j = i then v else used bm j)"
proof (cases "j < USAGE_BITMAP_TOTAL_BITS")
  case True
  let ?bm' = "put_usage_bit (bit_word i) (USAGE_BITMAP_FIND_BIT i) v bm"
  note jb = find_index_bound [OF True]
  have "stamp_bitmap_sector (USAGE_BITMAP_FIND_SECTOR i) ?bm' ! USAGE_BITMAP_FIND_INDEX j = ?bm' ! USAGE_BITMAP_FIND_INDEX j"
    using assms find_sector_less jb by (intro stamp_sector(4)) simp_all
  moreover have "bit (?bm' ! USAGE_BITMAP_FIND_INDEX j) (USAGE_BITMAP_FIND_BIT j) =
      (if j = i then v else bit (bm ! USAGE_BITMAP_FIND_INDEX j) (USAGE_BITMAP_FIND_BIT j))"
  proof (cases "USAGE_BITMAP_FIND_INDEX j = USAGE_BITMAP_FIND_INDEX i")
    case same: True
    then have "(USAGE_BITMAP_FIND_BIT j = USAGE_BITMAP_FIND_BIT i) = (j = i)" by (auto dest: find_index_inject)
    then show ?thesis using same jb assms(1)
      by (simp only: put_usage_bit_def bit_word_eq nth_list_update_eq bit_put [OF find_bit_less])
  next
    case False
    then have "j \<noteq> i" by auto
    then show ?thesis using False by (simp add: put_usage_bit_def bit_word_eq)
  qed
  ultimately show ?thesis using True assms(2) by (auto simp: used_def)
next
  case False
  then show ?thesis using assms(2) by (auto simp: used_def)
qed

lemma stamp_noop:
  assumes "length bm = USAGE_BITMAP_STORAGE_SIZE" and "s < USAGE_BITMAP_SECTOR_SIZE"
    and "sector_crc_valid (words_bytes (bitmap_sector bm s))"
  shows "stamp_bitmap_sector s bm = bm"
proof -
  have "sector_crc_stamp (words_bytes (bitmap_sector bm s)) = words_bytes (bitmap_sector bm s)"
    using assms by (intro valid_imp_stamp) (simp_all add: layout)
  then have "bytes_words (sector_crc_stamp (words_bytes (bitmap_sector bm s))) = bitmap_sector bm s"
    by (simp add: bytes_words_words_bytes)
  moreover have "splice off (slice off n b) b = b" if "off + n \<le> length b" for off n and b :: "u32 list"
    using that by (simp add: splice_def slice_def min_absorb2 add.commute) (metis add.commute append_take_drop_id drop_drop)
  ultimately show ?thesis using assms(1,2) by (simp add: stamp_bitmap_sector_def bitmap_sector_def layout)
qed

lemma nth_via_sector:
  "length bm = USAGE_BITMAP_STORAGE_SIZE \<Longrightarrow> w < USAGE_BITMAP_STORAGE_SIZE \<Longrightarrow>
   bm ! w = bitmap_sector bm (w div 128) ! (w mod 128)"
proof -
  assume l: "length bm = USAGE_BITMAP_STORAGE_SIZE" and w: "w < USAGE_BITMAP_STORAGE_SIZE"
  have "w div 128 < 8" using w by (simp add: layout less_mult_imp_div_less)
  then have "w div 128 * 128 + 128 \<le> length bm" using l mult_le_mono1 [of "Suc (w div 128)" 8 128] by (simp add: layout)
  then show ?thesis by (simp add: bitmap_sector_def layout)
qed

lemma eq_by_sectors:
  assumes "length a = USAGE_BITMAP_STORAGE_SIZE" and "length b = USAGE_BITMAP_STORAGE_SIZE"
    and "\<And>s. s < USAGE_BITMAP_SECTOR_SIZE \<Longrightarrow> bitmap_sector a s = bitmap_sector b s"
  shows "a = b"
proof (rule nth_equalityI)
  fix w assume "w < length a"
  then have w: "w < USAGE_BITMAP_STORAGE_SIZE" using assms(1) by simp
  then have "w div 128 < USAGE_BITMAP_SECTOR_SIZE" by (simp add: layout less_mult_imp_div_less)
  then show "a ! w = b ! w" using assms nth_via_sector [OF _ w] by simp
qed (simp add: assms)

lemma sector_payload_eq:
  assumes "length a = USAGE_BITMAP_STORAGE_SIZE" and "length b = USAGE_BITMAP_STORAGE_SIZE" and "s < USAGE_BITMAP_SECTOR_SIZE"
    and "\<And>w. w < USAGE_BITMAP_STORAGE_SIZE \<Longrightarrow> \<not> USAGE_BITMAP_IS_CRC_WORD w \<Longrightarrow> a ! w = b ! w"
  shows "sector_crc_stamp (words_bytes (bitmap_sector a s)) = sector_crc_stamp (words_bytes (bitmap_sector b s))"
proof (rule stamp_cong)
  have off: "s * 128 + 128 \<le> 1024" using assms(3) by (simp add: layout)
  have "a ! (s * 128 + k) = b ! (s * 128 + k)" if "k < 127" for k
  proof (rule assms(4))
    show "s * 128 + k < USAGE_BITMAP_STORAGE_SIZE" using off that by (simp add: layout)
    have "(s * 128 + k) mod 128 = k" using that by simp
    then show "\<not> USAGE_BITMAP_IS_CRC_WORD (s * 128 + k)" using that by (simp add: bitmap_defs)
  qed
  then have "slice (s * 128) 127 a = slice (s * 128) 127 b"
    using off assms(1,2) by (intro nth_equalityI) (simp_all add: layout)
  then have "slice 0 127 (bitmap_sector a s) = slice 0 127 (bitmap_sector b s)"
    by (simp add: bitmap_sector_def slice_slice layout)
  then have "words_bytes (slice 0 127 (bitmap_sector a s)) = words_bytes (slice 0 127 (bitmap_sector b s))" by simp
  then show "take 508 (words_bytes (bitmap_sector a s)) = take 508 (words_bytes (bitmap_sector b s))"
    using slice_words_bytes [of 0 127] by (simp add: slice_def)
qed (use assms in \<open>simp_all add: layout\<close>)

lemma undo_put:
  assumes "length bm = USAGE_BITMAP_STORAGE_SIZE" and "i < USAGE_BITMAP_TOTAL_BITS"
    and "sector_crc_valid (words_bytes (bitmap_sector bm (USAGE_BITMAP_FIND_SECTOR i)))"
    and "bit (bm ! bit_word i) (USAGE_BITMAP_FIND_BIT i) = (\<not> v)"
  defines "put \<equiv> put_usage_bit (bit_word i) (USAGE_BITMAP_FIND_BIT i)"
    and "st \<equiv> stamp_bitmap_sector (USAGE_BITMAP_FIND_SECTOR i)"
  shows "st (put (\<not> v) (st (put v bm))) = bm"
proof -
  note s = find_sector_less [OF assms(2)]
  note w = find_index_bound [OF assms(2), folded bit_word_eq]
  have lp: "length (put v bm) = USAGE_BITMAP_STORAGE_SIZE" by (simp add: put_def assms(1))
  let ?bm1 = "st (put v bm)"
  note st1 = stamp_sector [OF lp s, folded st_def]
  let ?bm2 = "put (\<not> v) ?bm1"
  have l2: "length ?bm2 = USAGE_BITMAP_STORAGE_SIZE" using st1(1) by (simp add: put_def)
  note st2 = stamp_sector [OF l2 s, folded st_def]
  have crc: "\<not> USAGE_BITMAP_IS_CRC_WORD (bit_word i)" by (simp add: bit_word_eq)
  have pp: "put (\<not> v) (put v bm) = bm"
    unfolding put_def using assms(1,4) w by (simp add: put_put) (rule put_same, simp_all)
  have at: "?bm2 ! k = bm ! k" if "k < USAGE_BITMAP_STORAGE_SIZE" "\<not> USAGE_BITMAP_IS_CRC_WORD k" for k
  proof -
    have "?bm1 ! k = put v bm ! k" "?bm1 ! bit_word i = put v bm ! bit_word i"
      using st1(4) that w crc by blast+
    then have "?bm2 ! k = put (\<not> v) (put v bm) ! k"
      using that st1(1) lp unfolding put_def by (intro put_cong) simp_all
    then show ?thesis by (simp add: pp)
  qed
  show ?thesis
  proof (rule eq_by_sectors [OF st2(1) assms(1)])
    fix t assume t: "t < USAGE_BITMAP_SECTOR_SIZE"
    show "bitmap_sector (st ?bm2) t = bitmap_sector bm t"
    proof (cases "t = USAGE_BITMAP_FIND_SECTOR i")
      case True
      have "words_bytes (bitmap_sector (st ?bm2) t) = sector_crc_stamp (words_bytes (bitmap_sector bm t))"
        using st2(2) sector_payload_eq [OF l2 assms(1) s at] True by simp
      then show ?thesis using valid_imp_stamp [OF sector_bytes_len [OF assms(1) t]] assms(3) True by simp
    next
      case False
      then show ?thesis by (simp add: st2(3) st1(3)) (simp add: put_def put_other_sector st1(3) [unfolded put_def])
    qed
  qed
qed

subsection \<open>The scans find the nearest set bit\<close>

text \<open>A candidate of a scan over words \<open>[lo, hi]\<close>: a set bit \<open>b\<close> of a word \<open>v\<close> that is not a trailer.\<close>

definition candidate :: "u32 list \<Rightarrow> nat \<Rightarrow> nat \<Rightarrow> bool" where
  "candidate bm v b \<longleftrightarrow> v < USAGE_BITMAP_STORAGE_SIZE \<and> \<not> USAGE_BITMAP_IS_CRC_WORD v \<and> b < 32 \<and> bit (bm ! v) b"

lemma candidate_used:
  "candidate bm v b \<Longrightarrow> used bm (USAGE_BITMAP_WORD_TO_INDEX v + b) \<and> USAGE_BITMAP_WORD_TO_INDEX v + b < USAGE_BITMAP_TOTAL_BITS"
proof -
  assume c: "candidate bm v b"
  then have v: "v < 1024" "\<not> USAGE_BITMAP_IS_CRC_WORD v" "b < 32" by (simp_all add: candidate_def layout)
  then have "v < 1023" by (cases "v = 1023") (simp_all add: bitmap_defs)
  then have "USAGE_BITMAP_WORD_TO_INDEX v + 32 \<le> USAGE_BITMAP_WORD_TO_INDEX 1023"
    using v(2) by (intro word_to_index_mono)
  then have "USAGE_BITMAP_WORD_TO_INDEX v + b < USAGE_BITMAP_TOTAL_BITS"
    using v(3) by (simp add: bitmap_defs)
  then show ?thesis using c find_index_word_to_index [of v b] by (simp add: candidate_def used_def)
qed

lemma used_candidate: "used bm i \<Longrightarrow> candidate bm (USAGE_BITMAP_FIND_INDEX i) (USAGE_BITMAP_FIND_BIT i)"
  by (simp add: used_def candidate_def find_index_bound)

lemma bit_clear_bits_to_n: "n < 32 \<Longrightarrow> bit (clear_bits_to_n_u32 w n) k \<longleftrightarrow> n \<le> k \<and> bit w k"
  by (auto simp: clear_bits_to_n_u32_def bit_simps layout dest: bit_imp_le_length)

lemma next_bit_loop_spec:
  fixes bm first_elem first_bit last_elem word
  assumes "last_elem < USAGE_BITMAP_STORAGE_SIZE" and "first_elem \<le> word" and "first_bit < 32"
  defines "ok \<equiv> \<lambda>v b. candidate bm v b \<and> v \<le> last_elem \<and> (v = first_elem \<longrightarrow> first_bit \<le> b)"
  shows "(next_bit_loop bm first_elem first_bit last_elem word = UINT16_MAX \<and> (\<forall>v b. word \<le> v \<longrightarrow> \<not> ok v b)) \<or>
    (\<exists>v b. next_bit_loop bm first_elem first_bit last_elem word = USAGE_BITMAP_WORD_TO_INDEX v + b \<and>
       word \<le> v \<and> ok v b \<and> (\<forall>v' b'. word \<le> v' \<and> ok v' b' \<longrightarrow> v < v' \<or> v = v' \<and> b \<le> b'))"
  using assms(2)
proof (induction "Suc last_elem - word" arbitrary: word)
  case 0
  then show ?case by (subst (1) next_bit_loop.simps) (auto simp: ok_def)
next
  case (Suc n)
  have IH: "(next_bit_loop bm first_elem first_bit last_elem (Suc word) = UINT16_MAX \<and> (\<forall>v b. Suc word \<le> v \<longrightarrow> \<not> ok v b)) \<or>
    (\<exists>v b. next_bit_loop bm first_elem first_bit last_elem (Suc word) = USAGE_BITMAP_WORD_TO_INDEX v + b \<and>
       Suc word \<le> v \<and> ok v b \<and> (\<forall>v' b'. Suc word \<le> v' \<and> ok v' b' \<longrightarrow> v < v' \<or> v = v' \<and> b \<le> b'))"
    using Suc.hyps(2) Suc.prems by (intro Suc.hyps(1)) simp_all
  define bits where "bits = (if word = first_elem \<and> first_bit > 0 then clear_bits_to_n_u32 (bm ! word) first_bit else bm ! word)"
  have okw: "ok word b \<longleftrightarrow> \<not> USAGE_BITMAP_IS_CRC_WORD word \<and> bit bits b" for b
    using Suc.hyps(2) assms(1,3)
    by (auto simp: ok_def candidate_def bits_def bit_clear_bits_to_n dest: bit_imp_le_length)
  have le: "word \<le> last_elem" using Suc.hyps(2) by simp
  show ?case
  proof (cases "\<not> USAGE_BITMAP_IS_CRC_WORD word \<and> bits \<noteq> 0")
    case True
    note c = ctz_props [OF conjunct2 [OF True]]
    have ok: "ok word (ctz bits)" using True c(1) okw by simp
    then have "to_u16 (USAGE_BITMAP_WORD_TO_INDEX word + ctz bits) = USAGE_BITMAP_WORD_TO_INDEX word + ctz bits"
      using candidate_used [of bm word "ctz bits"] by (simp add: ok_def layout)
    then have "next_bit_loop bm first_elem first_bit last_elem word = USAGE_BITMAP_WORD_TO_INDEX word + ctz bits"
      using True le by (subst next_bit_loop.simps) (simp add: Let_def flip: bits_def)
    moreover have "\<forall>v' b'. word \<le> v' \<and> ok v' b' \<longrightarrow> word < v' \<or> word = v' \<and> ctz bits \<le> b'"
      using c(2) okw by (auto simp: le_less)
    ultimately show ?thesis using ok by blast
  next
    case False
    then have e: "next_bit_loop bm first_elem first_bit last_elem word = next_bit_loop bm first_elem first_bit last_elem (Suc word)"
      using le by (subst next_bit_loop.simps) (auto simp: Let_def simp flip: bits_def)
    have "\<not> ok word b" for b using False okw by (cases "bits = 0") auto
    then have s: "word \<le> v \<and> ok v b \<longleftrightarrow> Suc word \<le> v \<and> ok v b" for v b
      by (cases "v = word") auto
    show ?thesis using IH unfolding e using s by metis
  qed
qed

lemma get_next_bit_spec:
  assumes "limInd < USAGE_BITMAP_TOTAL_BITS"
  shows "(get_next_bit bm curInd limInd = UINT16_MAX \<and>
      (\<forall>j. used bm j \<and> curInd \<le> j \<longrightarrow> USAGE_BITMAP_FIND_INDEX limInd < USAGE_BITMAP_FIND_INDEX j)) \<or>
    (used bm (get_next_bit bm curInd limInd) \<and> curInd \<le> get_next_bit bm curInd limInd \<and>
      USAGE_BITMAP_FIND_INDEX (get_next_bit bm curInd limInd) \<le> USAGE_BITMAP_FIND_INDEX limInd \<and>
      (\<forall>j. used bm j \<and> curInd \<le> j \<longrightarrow> get_next_bit bm curInd limInd \<le> j))"
proof -
  let ?f = "USAGE_BITMAP_FIND_INDEX curInd" and ?g = "USAGE_BITMAP_FIND_BIT curInd"
    and ?l = "USAGE_BITMAP_FIND_INDEX limInd"
  define ok where "ok v b = (candidate bm v b \<and> v \<le> ?l \<and> (v = ?f \<longrightarrow> ?g \<le> b))" for v b
  let ?r = "get_next_bit bm curInd limInd"
  have ge: "?f \<le> USAGE_BITMAP_FIND_INDEX j \<and> (USAGE_BITMAP_FIND_INDEX j = ?f \<longrightarrow> ?g \<le> USAGE_BITMAP_FIND_BIT j)"
    if "curInd \<le> j" for j
    using find_index_mono [OF that] by blast
  have spec: "(?r = UINT16_MAX \<and> (\<forall>v b. ?f \<le> v \<longrightarrow> \<not> ok v b)) \<or>
    (\<exists>v b. ?r = USAGE_BITMAP_WORD_TO_INDEX v + b \<and>
       ?f \<le> v \<and> ok v b \<and> (\<forall>v' b'. ?f \<le> v' \<and> ok v' b' \<longrightarrow> v < v' \<or> v = v' \<and> b \<le> b'))"
    unfolding get_next_bit_def ok_def
    by (rule next_bit_loop_spec) (simp_all add: find_index_bound assms)
  then show ?thesis
  proof
    assume n: "?r = UINT16_MAX \<and> (\<forall>v b. ?f \<le> v \<longrightarrow> \<not> ok v b)"
    have "?l < USAGE_BITMAP_FIND_INDEX j" if "used bm j" "curInd \<le> j" for j
      using n used_candidate [OF that(1)] ge [OF that(2)] unfolding ok_def by (meson leD not_le)
    then show ?thesis using n by blast
  next
    assume "\<exists>v b. ?r = USAGE_BITMAP_WORD_TO_INDEX v + b \<and>
       ?f \<le> v \<and> ok v b \<and> (\<forall>v' b'. ?f \<le> v' \<and> ok v' b' \<longrightarrow> v < v' \<or> v = v' \<and> b \<le> b')"
    then obtain v b where r: "?r = USAGE_BITMAP_WORD_TO_INDEX v + b" "?f \<le> v" "ok v b"
      and least: "\<And>v' b'. ?f \<le> v' \<Longrightarrow> ok v' b' \<Longrightarrow> v < v' \<or> v = v' \<and> b \<le> b'" by blast
    have c: "candidate bm v b" "v \<le> ?l" "v = ?f \<longrightarrow> ?g \<le> b" using r(3) by (simp_all add: ok_def)
    have v: "\<not> USAGE_BITMAP_IS_CRC_WORD v" "b < 32" "v < USAGE_BITMAP_STORAGE_SIZE"
      using c(1) by (simp_all add: candidate_def)
    note inv = find_index_word_to_index [OF v(3,1,2)]
    have "curInd \<le> ?r"
    proof (cases "v = ?f")
      case True
      then show ?thesis using r(1) c(3) word_to_index_find [of curInd] by simp
    next
      case False
      then have "USAGE_BITMAP_WORD_TO_INDEX ?f + 32 \<le> USAGE_BITMAP_WORD_TO_INDEX v"
        using r(2) by (intro word_to_index_mono) simp_all
      then show ?thesis using r(1) word_to_index_find [of curInd] find_bit_less [of curInd] by linarith
    qed
    moreover have "?r \<le> j" if j: "used bm j" "curInd \<le> j" for j
    proof (cases "USAGE_BITMAP_FIND_INDEX j \<le> ?l")
      case True
      then have "ok (USAGE_BITMAP_FIND_INDEX j) (USAGE_BITMAP_FIND_BIT j)"
        using used_candidate [OF j(1)] ge [OF j(2)] by (simp add: ok_def)
      then have "v < USAGE_BITMAP_FIND_INDEX j \<or> v = USAGE_BITMAP_FIND_INDEX j \<and> b \<le> USAGE_BITMAP_FIND_BIT j"
        using least ge [OF j(2)] by blast
      then show ?thesis
      proof
        assume "v < USAGE_BITMAP_FIND_INDEX j"
        from word_to_index_mono [OF this v(1)] show ?thesis
          using r(1) v(2) word_to_index_find [of j] by linarith
      qed (use r(1) word_to_index_find [of j] in simp_all)
    next
      case False
      then have "v < USAGE_BITMAP_FIND_INDEX j" using c(2) by simp
      from word_to_index_mono [OF this v(1)] show ?thesis
        using r(1) v(2) word_to_index_find [of j] by linarith
    qed
    ultimately show ?thesis using candidate_used [OF c(1)] inv r(1) c(2) by simp
  qed
qed

lemma push_bit_mask: "push_bit n 1 - 1 = (mask n :: u32)"
  by (simp only: push_bit_of_1 mask_eq_exp_minus_1)

lemma bit_mask_below: "n < 31 \<Longrightarrow> bit (w AND (push_bit (n + 1) 1 - 1) :: u32) k \<longleftrightarrow> k \<le> n \<and> bit w k"
  unfolding push_bit_mask by (auto simp: bit_and_iff bit_mask_iff min_def dest: bit_imp_le_length)

lemma bit_mask_above: "n < 32 \<Longrightarrow> bit (w AND NOT (push_bit n 1 - 1) :: u32) k \<longleftrightarrow> n \<le> k \<and> bit w k"
  unfolding push_bit_mask by (auto simp: bit_and_iff bit_not_iff bit_mask_iff min_def dest: bit_imp_le_length)

lemma clz_index: "w \<noteq> 0 \<Longrightarrow> 31 - clz (w :: u32) = last (set_bits_of w)"
proof -
  assume "w \<noteq> 0"
  then have "last (set_bits_of w) < 32" using last_bit_props(1) [of w] bit_imp_le_length by fastforce
  then show ?thesis by (simp add: clz_def)
qed

lemma bit_prev_bits:
  "first_bit < 32 \<Longrightarrow> last_bit < 32 \<Longrightarrow> bit (prev_bits bm first_elem first_bit last_elem last_bit word) b \<longleftrightarrow>
   bit (bm ! word) b \<and> (word = first_elem \<longrightarrow> b \<le> first_bit) \<and> (word = last_elem \<longrightarrow> last_bit \<le> b)"
  unfolding prev_bits_def Let_def push_bit_mask region_values
  by (auto simp: bit_and_iff bit_not_iff bit_mask_iff dest: bit_imp_le_length)

lemma prev_bit_loop_unfold:
  "prev_bit_loop bm first_elem first_bit last_elem last_bit word =
     (let continue = (if word = 0 then UINT16_MAX
                      else prev_bit_loop bm first_elem first_bit last_elem last_bit (word - 1));
          bits = prev_bits bm first_elem first_bit last_elem last_bit word
      in if word < last_elem then UINT16_MAX
         else if USAGE_BITMAP_IS_CRC_WORD word \<or> bits = 0 then continue
         else to_u16 (USAGE_BITMAP_WORD_TO_INDEX word + last (set_bits_of bits)))"
proof (cases "prev_bits bm first_elem first_bit last_elem last_bit word = 0")
  case True
  then show ?thesis by (subst prev_bit_loop.simps) (simp only: Let_def simp_thms if_True if_False if_cancel split: if_split)
next
  case False
  from clz_index [OF False] show ?thesis
    by (subst prev_bit_loop.simps) (simp only: Let_def False simp_thms if_True if_False split: if_split)
qed

lemma prev_bit_loop_spec:
  fixes bm first_elem first_bit last_elem last_bit word
  assumes "first_elem < USAGE_BITMAP_STORAGE_SIZE" and "word \<le> first_elem" and "first_bit < 32" and "last_bit < 32"
  defines "ok \<equiv> \<lambda>v b. candidate bm v b \<and> last_elem \<le> v \<and> (v = first_elem \<longrightarrow> b \<le> first_bit) \<and> (v = last_elem \<longrightarrow> last_bit \<le> b)"
  shows "(prev_bit_loop bm first_elem first_bit last_elem last_bit word = UINT16_MAX \<and> (\<forall>v b. v \<le> word \<longrightarrow> \<not> ok v b)) \<or>
    (\<exists>v b. prev_bit_loop bm first_elem first_bit last_elem last_bit word = USAGE_BITMAP_WORD_TO_INDEX v + b \<and>
       v \<le> word \<and> ok v b \<and> (\<forall>v' b'. v' \<le> word \<and> ok v' b' \<longrightarrow> v' < v \<or> v' = v \<and> b' \<le> b))"
  (is "?P word")
  using assms(2)
proof (induction word rule: less_induct)
  case (less word)
  let ?loop = "prev_bit_loop bm first_elem first_bit last_elem last_bit"
  define bits where "bits = prev_bits bm first_elem first_bit last_elem last_bit word"
  have okw: "ok word b \<longleftrightarrow> last_elem \<le> word \<and> \<not> USAGE_BITMAP_IS_CRC_WORD word \<and> bit bits b" for b
    using less.prems assms(1,3,4)
    by (auto simp: ok_def candidate_def bits_def bit_prev_bits dest: bit_imp_le_length)
  consider (out) "word < last_elem"
    | (hit) "last_elem \<le> word" "\<not> USAGE_BITMAP_IS_CRC_WORD word" "bits \<noteq> 0"
    | (skip) "last_elem \<le> word" "USAGE_BITMAP_IS_CRC_WORD word \<or> bits = 0" by linarith
  then show ?case
  proof cases
    case out
    then show ?thesis by (subst (1) prev_bit_loop_unfold) (auto simp: ok_def)
  next
    case hit
    note c = last_bit_props [OF hit(3)]
    have ok: "ok word (last (set_bits_of bits))" using hit c(1) okw by simp
    then have "to_u16 (USAGE_BITMAP_WORD_TO_INDEX word + last (set_bits_of bits)) =
        USAGE_BITMAP_WORD_TO_INDEX word + last (set_bits_of bits)"
      using candidate_used [of bm word "last (set_bits_of bits)"] by (simp add: ok_def layout)
    then have "?loop word = USAGE_BITMAP_WORD_TO_INDEX word + last (set_bits_of bits)"
      using hit by (subst prev_bit_loop_unfold) (simp add: Let_def flip: bits_def)
    moreover have "\<forall>v' b'. v' \<le> word \<and> ok v' b' \<longrightarrow> v' < word \<or> v' = word \<and> b' \<le> last (set_bits_of bits)"
      using c(2) okw by (auto simp: le_less)
    ultimately show ?thesis using ok by blast
  next
    case skip
    have no: "\<not> ok word b" for b using skip okw by (cases "bits = 0") auto
    show ?thesis
    proof (cases word)
      case 0
      then have "?loop word = UINT16_MAX"
        using skip unfolding bits_def by (subst prev_bit_loop_unfold) (auto simp: Let_def)
      then show ?thesis using no 0 by simp
    next
      case (Suc w)
      then have e: "?loop word = ?loop w"
        using skip unfolding bits_def by (subst prev_bit_loop_unfold) (auto simp: Let_def)
      have s: "v \<le> word \<and> ok v b \<longleftrightarrow> v \<le> w \<and> ok v b" for v b
        using no Suc by (cases "v = word") auto
      have IH: "?P w" using less.IH [of w] less.prems Suc by simp
      show ?thesis using IH unfolding e using s by metis
    qed
  qed
qed

lemma get_prev_bit_spec:
  assumes "limInd < USAGE_BITMAP_TOTAL_BITS"
  shows "(get_prev_bit bm curInd limInd = UINT16_MAX \<and> (\<forall>j. used bm j \<longrightarrow> \<not> (curInd \<le> j \<and> j \<le> limInd))) \<or>
    (used bm (get_prev_bit bm curInd limInd) \<and> curInd \<le> get_prev_bit bm curInd limInd \<and>
      get_prev_bit bm curInd limInd \<le> limInd \<and>
      (\<forall>j. used bm j \<and> curInd \<le> j \<and> j \<le> limInd \<longrightarrow> j \<le> get_prev_bit bm curInd limInd))"
proof -
  let ?f = "USAGE_BITMAP_FIND_INDEX limInd" and ?g = "USAGE_BITMAP_FIND_BIT limInd"
    and ?l = "USAGE_BITMAP_FIND_INDEX curInd" and ?h = "USAGE_BITMAP_FIND_BIT curInd"
  define ok where "ok v b = (candidate bm v b \<and> ?l \<le> v \<and> (v = ?f \<longrightarrow> b \<le> ?g) \<and> (v = ?l \<longrightarrow> ?h \<le> b))" for v b
  let ?r = "get_prev_bit bm curInd limInd"
  have okI: "USAGE_BITMAP_FIND_INDEX j \<le> ?f \<and> ok (USAGE_BITMAP_FIND_INDEX j) (USAGE_BITMAP_FIND_BIT j)"
    if "used bm j" "curInd \<le> j" "j \<le> limInd" for j
    using used_candidate [OF that(1)] find_index_mono [OF that(2)] find_index_mono [OF that(3)] by (auto simp: ok_def)
  have spec: "(?r = UINT16_MAX \<and> (\<forall>v b. v \<le> ?f \<longrightarrow> \<not> ok v b)) \<or>
    (\<exists>v b. ?r = USAGE_BITMAP_WORD_TO_INDEX v + b \<and>
       v \<le> ?f \<and> ok v b \<and> (\<forall>v' b'. v' \<le> ?f \<and> ok v' b' \<longrightarrow> v' < v \<or> v' = v \<and> b' \<le> b))"
    unfolding get_prev_bit_def ok_def
    by (rule prev_bit_loop_spec) (simp_all add: find_index_bound assms)
  then show ?thesis
  proof
    assume "?r = UINT16_MAX \<and> (\<forall>v b. v \<le> ?f \<longrightarrow> \<not> ok v b)"
    then show ?thesis using okI by blast
  next
    assume "\<exists>v b. ?r = USAGE_BITMAP_WORD_TO_INDEX v + b \<and>
       v \<le> ?f \<and> ok v b \<and> (\<forall>v' b'. v' \<le> ?f \<and> ok v' b' \<longrightarrow> v' < v \<or> v' = v \<and> b' \<le> b)"
    then obtain v b where r: "?r = USAGE_BITMAP_WORD_TO_INDEX v + b" "v \<le> ?f" "ok v b"
      and greatest: "\<And>v' b'. v' \<le> ?f \<Longrightarrow> ok v' b' \<Longrightarrow> v' < v \<or> v' = v \<and> b' \<le> b" by blast
    have c: "candidate bm v b" "?l \<le> v" "v = ?f \<longrightarrow> b \<le> ?g" "v = ?l \<longrightarrow> ?h \<le> b" using r(3) by (simp_all add: ok_def)
    have v: "\<not> USAGE_BITMAP_IS_CRC_WORD v" "b < 32" using c(1) by (simp_all add: candidate_def)
    note wi = word_to_index_find [of curInd] word_to_index_find [of limInd]
    have "curInd \<le> ?r"
    proof (cases "v = ?l")
      case True
      then show ?thesis using r(1) c(4) wi by simp
    next
      case False
      then have "USAGE_BITMAP_WORD_TO_INDEX ?l + 32 \<le> USAGE_BITMAP_WORD_TO_INDEX v"
        using c(2) by (intro word_to_index_mono) simp_all
      then show ?thesis using r(1) wi find_bit_less [of curInd] by linarith
    qed
    moreover have "?r \<le> limInd"
    proof (cases "v = ?f")
      case True
      then show ?thesis using r(1) c(3) wi by simp
    next
      case False
      then have "USAGE_BITMAP_WORD_TO_INDEX v + 32 \<le> USAGE_BITMAP_WORD_TO_INDEX ?f"
        using r(2) v by (intro word_to_index_mono) simp_all
      then show ?thesis using r(1) wi v(2) by linarith
    qed
    moreover have "j \<le> ?r" if "used bm j" "curInd \<le> j" "j \<le> limInd" for j
    proof -
      from greatest okI [OF that] have "USAGE_BITMAP_FIND_INDEX j < v \<or> USAGE_BITMAP_FIND_INDEX j = v \<and> USAGE_BITMAP_FIND_BIT j \<le> b"
        by blast
      then show ?thesis
      proof
        assume "USAGE_BITMAP_FIND_INDEX j < v"
        then have "USAGE_BITMAP_WORD_TO_INDEX (USAGE_BITMAP_FIND_INDEX j) + 32 \<le> USAGE_BITMAP_WORD_TO_INDEX v"
          by (intro word_to_index_mono) simp_all
        then show ?thesis using r(1) word_to_index_find [of j] find_bit_less [of j] by linarith
      qed (use r(1) word_to_index_find [of j] in simp)
    qed
    ultimately show ?thesis using candidate_used [OF c(1)] r(1) by simp
  qed
qed

lemma get_nth_set_bit_nth:
  "n < length (set_bits_of w) \<Longrightarrow> get_nth_set_bit w (int n) = set_bits_of w ! n"
proof (induction n arbitrary: w)
  case 0
  then have "w \<noteq> 0" by auto
  then show ?case by (subst get_nth_set_bit.simps) (simp add: ctz_def hd_conv_nth)
next
  case (Suc n)
  then have w: "w \<noteq> 0" by auto
  then show ?case using Suc.IH [of "clear_lowest w"] Suc.prems
    by (subst get_nth_set_bit.simps) (simp add: set_bits_of_clear_lowest nth_tl)
qed

lemma get_nth_set_bit_none: "n < 0 \<or> int (length (set_bits_of w)) \<le> n \<Longrightarrow> get_nth_set_bit w n = UINT16_MAX"
proof (induction w n rule: get_nth_set_bit.induct)
  case (1 w n)
  show ?case
  proof (cases "w = 0 \<or> n = 0")
    case True
    then show ?thesis using 1(2) by (subst get_nth_set_bit.simps) auto
  next
    case False
    then have "get_nth_set_bit (clear_lowest w) (n - 1) = UINT16_MAX"
      using 1(2) by (intro 1(1)) (auto simp: set_bits_of_clear_lowest)
    then show ?thesis using False by (subst get_nth_set_bit.simps) simp
  qed
qed

context block_store begin

text \<open>\<open>update_usage_bit\<close> either sets exactly the requested bit in RAM and on the card, or reports
  failure and changes neither.\<close>

lemma update_usage_bit_step:
  assumes d: "ok d" and bm: "bitmap_synced (blk d) bm" and i: "i < USAGE_BITMAP_TOTAL_BITS"
    and u: "update_usage_bit S d bm i v = (r, d', bm')"
  shows "ok d' \<and> capacity S d' = capacity S d \<and> bitmap_synced (blk d') bm' \<and>
    (r = STRG_OK \<and> (\<forall>j. used bm' j = (if j = i then v else used bm j)) \<and>
       (\<forall>k. k \<noteq> USAGE_BITMAP_START_SECTOR + USAGE_BITMAP_FIND_SECTOR i \<longrightarrow> blk d' k = blk d k)
     \<or> r = STRG_FAIL \<and> bm' = bm \<and> blk d' = blk d)"
proof -
  note s = find_sector_less [OF i]
  note w = find_index_bound [OF i, folded bit_word_eq]
  let ?s = "USAGE_BITMAP_FIND_SECTOR i" and ?b = "USAGE_BITMAP_FIND_BIT i"
  let ?put = "put_usage_bit (bit_word i) ?b" and ?st = "stamp_bitmap_sector ?s"
  let ?bm1 = "?st (?put v bm)"
  have l: "length bm = USAGE_BITMAP_STORAGE_SIZE" and lp: "length (?put v bm) = USAGE_BITMAP_STORAGE_SIZE"
    using bm by (simp_all add: bitmap_synced_def)
  have valid: "sector_crc_valid (words_bytes (bitmap_sector bm ?s))" using bm s by (simp add: bitmap_synced_def)
  note st1 = stamp_sector [OF lp s]
  obtain q d2 where wr: "write_block S d (USAGE_BITMAP_START_SECTOR + ?s) (words_bytes (bitmap_sector ?bm1 ?s)) = (q, d2)"
    by (meson surj_pair)
  have ws: "ok d2 \<and> capacity S d2 = capacity S d \<and>
      blk d2 = (if q then (blk d)(USAGE_BITMAP_START_SECTOR + ?s := words_bytes (bitmap_sector ?bm1 ?s)) else blk d)"
    by (rule write_step [OF d sector_bytes_len [OF st1(1) s] wr])
  define pv where "pv = (bm ! bit_word i AND push_bit ?b 1 \<noteq> 0)"
  have prev: "pv = bit (bm ! bit_word i) ?b" by (simp add: pv_def mask_bit del: push_bit_of_1)
  have res: "(r, d', bm') = (if \<not> q then (STRG_FAIL, d2, if pv \<noteq> v then ?st (?put (\<not> v) ?bm1) else ?bm1)
      else (STRG_OK, d2, ?bm1))"
    using u wr by (simp add: update_usage_bit_def bit_word_def Let_def pv_def split: if_splits)
  show ?thesis
  proof (cases q)
    case True
    then have eq: "r = STRG_OK" "d' = d2" "bm' = ?bm1" using res by simp_all
    have "sector_crc_valid (words_bytes (bitmap_sector ?bm1 t)) \<and> blk d2 (USAGE_BITMAP_START_SECTOR + t) = words_bytes (bitmap_sector ?bm1 t)"
      if t: "t < USAGE_BITMAP_SECTOR_SIZE" for t
    proof (cases "t = ?s")
      case same: True
      then show ?thesis using ws True st1(2) valid_stamp [OF sector_bytes_len [OF lp s]] by simp
    next
      case False
      then show ?thesis using ws True st1(3) put_other_sector [OF False] bm t by (simp add: bitmap_synced_def)
    qed
    then have "bitmap_synced (blk d2) ?bm1" by (simp add: bitmap_synced_def st1(1))
    then show ?thesis using eq ws True used_put_stamp [OF l i, of v] by simp
  next
    case False
    have "bm' = bm"
    proof (cases "pv = v")
      case True
      then have "?put v bm = bm" using w l prev by (intro put_same) simp_all
      then show ?thesis using res False True stamp_noop [OF l s valid] by simp
    next
      case np: False
      then show ?thesis using res False undo_put [OF l i valid, of v] prev by simp
    qed
    then show ?thesis using res False ws bm by simp
  qed
qed

end

subsection \<open>The whole array\<close>

lemma words_bytes_concat: "words_bytes (concat wss) = concat (map words_bytes wss)"
  by (induction wss) simp_all

lemma words_bytes_sectors:
  "length bm = USAGE_BITMAP_STORAGE_SIZE \<Longrightarrow>
   words_bytes bm = concat (map (\<lambda>s. words_bytes (bitmap_sector bm s)) [0..<USAGE_BITMAP_SECTOR_SIZE])"
  using concat_blocks [of 128 bm 0 8] words_bytes_concat [of "map (bitmap_sector bm) [0..<8]"]
  by (simp add: bitmap_sector_def [abs_def] layout o_def del: upt_rec_numeral)

lemma synced_blocks:
  "bitmap_synced blk bm \<Longrightarrow>
   concat (map blk [USAGE_BITMAP_START_SECTOR..<USAGE_BITMAP_START_SECTOR + USAGE_BITMAP_SECTOR_SIZE]) = words_bytes bm"
proof -
  assume b: "bitmap_synced blk bm"
  have "map blk [USAGE_BITMAP_START_SECTOR..<USAGE_BITMAP_START_SECTOR + USAGE_BITMAP_SECTOR_SIZE] =
      map (\<lambda>s. words_bytes (bitmap_sector bm s)) [0..<USAGE_BITMAP_SECTOR_SIZE]"
    using b by (intro nth_equalityI) (simp_all add: bitmap_synced_def)
  then show ?thesis using b words_bytes_sectors [of bm] by (simp add: bitmap_synced_def)
qed

lemma fold_stamp:
  assumes "length bm = USAGE_BITMAP_STORAGE_SIZE" and "n \<le> USAGE_BITMAP_SECTOR_SIZE"
  shows "length (fold stamp_bitmap_sector [0..<n] bm) = USAGE_BITMAP_STORAGE_SIZE \<and>
    (\<forall>s < n. sector_crc_valid (words_bytes (bitmap_sector (fold stamp_bitmap_sector [0..<n] bm) s))) \<and>
    (\<forall>w < USAGE_BITMAP_STORAGE_SIZE. \<not> USAGE_BITMAP_IS_CRC_WORD w \<longrightarrow> fold stamp_bitmap_sector [0..<n] bm ! w = bm ! w)"
  using assms(2)
proof (induction n)
  case (Suc n)
  let ?f = "fold stamp_bitmap_sector [0..<n] bm"
  from Suc have IH: "length ?f = USAGE_BITMAP_STORAGE_SIZE"
    "\<And>s. s < n \<Longrightarrow> sector_crc_valid (words_bytes (bitmap_sector ?f s))"
    "\<And>w. w < USAGE_BITMAP_STORAGE_SIZE \<Longrightarrow> \<not> USAGE_BITMAP_IS_CRC_WORD w \<Longrightarrow> ?f ! w = bm ! w" by simp_all
  have n: "n < USAGE_BITMAP_SECTOR_SIZE" using Suc.prems by simp
  note st = stamp_sector [OF IH(1) n]
  have "sector_crc_valid (words_bytes (bitmap_sector (stamp_bitmap_sector n ?f) s))" if "s < Suc n" for s
    using that IH(2) st(2,3) valid_stamp [OF sector_bytes_len [OF IH(1) n]] by (cases "s = n") simp_all
  then show ?case using st(1,4) IH(3) by simp
qed (simp add: assms)

definition fresh_bitmap :: "u32 list" where
  "fresh_bitmap = fold stamp_bitmap_sector [0..<USAGE_BITMAP_SECTOR_SIZE] (replicate USAGE_BITMAP_STORAGE_SIZE 0)"

lemma fresh_bitmap_props:
  "length fresh_bitmap = USAGE_BITMAP_STORAGE_SIZE"
  "s < USAGE_BITMAP_SECTOR_SIZE \<Longrightarrow> sector_crc_valid (words_bytes (bitmap_sector fresh_bitmap s))"
  "\<not> used fresh_bitmap i"
proof -
  note f = fold_stamp [of "replicate USAGE_BITMAP_STORAGE_SIZE 0" USAGE_BITMAP_SECTOR_SIZE, folded fresh_bitmap_def]
  show "length fresh_bitmap = USAGE_BITMAP_STORAGE_SIZE"
    "s < USAGE_BITMAP_SECTOR_SIZE \<Longrightarrow> sector_crc_valid (words_bytes (bitmap_sector fresh_bitmap s))"
    using f by simp_all
  have "\<forall>w < USAGE_BITMAP_STORAGE_SIZE. \<not> USAGE_BITMAP_IS_CRC_WORD w \<longrightarrow> fresh_bitmap ! w = 0" using f by simp
  then show "\<not> used fresh_bitmap i" using find_index_bound [of i] by (auto simp: used_def)
qed

lemma bitmap_transfer: "USAGE_BITMAP_SECTOR_SIZE < 2 ^ 32"
  by (simp add: layout)

context multiblock_store begin

lemma init_usage_bitmap_step:
  assumes "ok d" and "init_usage_bitmap S d = (r, d', bm)"
  shows "ok d' \<and> capacity S d' = capacity S d \<and> (\<forall>i. \<not> used bm i) \<and> (r \<longrightarrow> bitmap_synced (blk d') bm) \<and>
    (\<forall>k. \<not> (USAGE_BITMAP_START_SECTOR \<le> k \<and> k < DATA_REGION_START_SECTOR) \<longrightarrow> blk d' k = blk d k)"
proof -
  obtain q d2 where w: "write_multiblock S d USAGE_BITMAP_START_SECTOR USAGE_BITMAP_SECTOR_SIZE (words_bytes fresh_bitmap) = (q, d2)"
    by (meson surj_pair)
  then have eq: "r = q" "d' = d2" "bm = fresh_bitmap"
    using assms(2) by (simp_all add: init_usage_bitmap_def fresh_bitmap_def)
  have l: "length (words_bytes fresh_bitmap) = USAGE_BITMAP_SECTOR_SIZE * SECTOR_SIZE"
    by (simp add: fresh_bitmap_props layout)
  note st = write_multi_step [OF assms(1) bitmap_transfer l w]
  have "blk d2 (USAGE_BITMAP_START_SECTOR + s) = words_bytes (bitmap_sector fresh_bitmap s)"
    if "s < USAGE_BITMAP_SECTOR_SIZE" q for s
  proof -
    have "blk d2 (USAGE_BITMAP_START_SECTOR + s) = slice (4 * (s * 128)) (4 * 128) (words_bytes fresh_bitmap)"
      using st that by (simp add: layout mult.commute [of s])
    then show ?thesis by (simp only: slice_words_bytes) (simp add: bitmap_sector_def layout)
  qed
  then show ?thesis using st eq fresh_bitmap_props
    by (simp add: bitmap_synced_def) (auto simp: layout)
qed

lemma init_usage_bitmap_reliable:
  assumes "ok d" and "DATA_REGION_START_SECTOR \<le> capacity S d"
  shows "fst (init_usage_bitmap S d)"
proof -
  have "fst (write_multiblock S d USAGE_BITMAP_START_SECTOR USAGE_BITMAP_SECTOR_SIZE (words_bytes fresh_bitmap))"
    using multi_in_range [OF assms(1), of USAGE_BITMAP_SECTOR_SIZE USAGE_BITMAP_START_SECTOR "words_bytes fresh_bitmap"] assms(2) fresh_bitmap_props(1) by (simp add: layout)
  then show ?thesis by (auto simp: init_usage_bitmap_def simp flip: fresh_bitmap_def split: prod.split)
qed

lemma read_usage_bitmap_step:
  assumes "ok d" and "DATA_REGION_START_SECTOR \<le> capacity S d" and "read_usage_bitmap S d bm = (True, bm')"
  shows "bitmap_synced (blk d) bm'"
proof -
  from assms(3) obtain b where r: "read_multiblock S d USAGE_BITMAP_START_SECTOR USAGE_BITMAP_SECTOR_SIZE = Some b"
    and bm': "bm' = bytes_words b"
    and v: "\<And>s. s < USAGE_BITMAP_SECTOR_SIZE \<Longrightarrow> sector_crc_valid (words_bytes (bitmap_sector bm' s))"
    by (auto simp: read_usage_bitmap_def Let_def list_all_iff split: option.splits)
  have b: "b = concat (map (\<lambda>s. blk d (USAGE_BITMAP_START_SECTOR + s)) [0..<USAGE_BITMAP_SECTOR_SIZE])"
  proof -
    have "map (blk d) [USAGE_BITMAP_START_SECTOR..<USAGE_BITMAP_START_SECTOR + USAGE_BITMAP_SECTOR_SIZE] =
      map (\<lambda>s. blk d (USAGE_BITMAP_START_SECTOR + s)) [0..<USAGE_BITMAP_SECTOR_SIZE]"
      by (intro nth_equalityI) simp_all
    then show ?thesis using read_multi_some [OF assms(1) bitmap_transfer r] by simp
  qed
  have len: "length (blk d (USAGE_BITMAP_START_SECTOR + s)) = 512" if "s < 8" for s
    using blk_length [of d "USAGE_BITMAP_START_SECTOR + s"] assms(1,2) that by (simp add: layout)
  have sl: "slice (s * 512) 512 b = blk d (USAGE_BITMAP_START_SECTOR + s)" if "s < 8" for s
    unfolding b using slice_concat [of 8 "\<lambda>s. blk d (USAGE_BITMAP_START_SECTOR + s)" 512 s] len that
    by (simp add: layout)
  have lb: "length b = 4096" unfolding b using length_concat_const [of 8 "\<lambda>s. blk d (USAGE_BITMAP_START_SECTOR + s)" 512] len
    by (simp add: layout)
  then have wb: "words_bytes bm' = b" by (simp add: bm' words_bytes_bytes_words)
  have "length (words_bytes bm') = 4096" by (simp only: wb lb)
  then have "length bm' = USAGE_BITMAP_STORAGE_SIZE" by (simp add: layout)
  moreover have "blk d (USAGE_BITMAP_START_SECTOR + s) = words_bytes (bitmap_sector bm' s)" if "s < 8" for s
    using sl [OF that] slice_words_bytes [of "s * 128" 128 bm']
    by (simp add: wb bitmap_sector_def layout mult.commute [of s])
  ultimately show ?thesis using v by (simp add: bitmap_synced_def layout)
qed

text \<open>What the card holds is what a restart reads back.\<close>

lemma read_synced_bitmap:
  assumes "ok d" and "DATA_REGION_START_SECTOR \<le> capacity S d" and "bitmap_synced (blk d) bm"
  shows "read_usage_bitmap S d any = (True, bm)"
proof -
  have "read_multiblock S d USAGE_BITMAP_START_SECTOR USAGE_BITMAP_SECTOR_SIZE \<noteq> None"
    using multi_in_range [of d USAGE_BITMAP_SECTOR_SIZE USAGE_BITMAP_START_SECTOR "replicate (8 * 512) 0"] assms(1,2)
    by (simp add: layout)
  then obtain b where r: "read_multiblock S d USAGE_BITMAP_START_SECTOR USAGE_BITMAP_SECTOR_SIZE = Some b" by blast
  have "b = words_bytes bm" using read_multi_some [OF assms(1) bitmap_transfer r] synced_blocks [OF assms(3)] by simp
  then show ?thesis using r assms(3)
    by (simp add: read_usage_bitmap_def bytes_words_words_bytes Let_def list_all_iff bitmap_synced_def)
qed

end

subsection \<open>The iterator is a cursor over the used sectors\<close>

text \<open>\<^verbatim>\<open>get_next_bit\<close> looks at the whole last word, so the contract holds when no bit of that
  word at or above the limit is set.\<close>

definition iterator_limit_ok :: "u32 list \<Rightarrow> nat \<Rightarrow> bool" where
  "iterator_limit_ok bm n \<longleftrightarrow> 0 < n \<and> n \<le> USAGE_BITMAP_TOTAL_BITS \<and>
     (\<forall>j. used bm j \<and> n \<le> j \<longrightarrow> USAGE_BITMAP_FIND_INDEX (n - 1) < USAGE_BITMAP_FIND_INDEX j)"

definition iterator_ctx_ok :: "nat \<Rightarrow> UsageBitmapIteratorCtx \<Rightarrow> bool" where
  "iterator_ctx_ok n ctx \<longleftrightarrow> total_bits ctx = n \<and> (currBit ctx = UINT16_MAX \<or> currBit ctx < n)"

lemma filter_upt_first:
  "P x \<Longrightarrow> a \<le> x \<Longrightarrow> x < n \<Longrightarrow> (\<And>j. a \<le> j \<Longrightarrow> j < x \<Longrightarrow> \<not> P j) \<Longrightarrow>
   \<exists>ys. filter P [a..<n] = x # ys"
proof -
  assume p: "P x" "a \<le> x" "x < n" and no: "\<And>j. a \<le> j \<Longrightarrow> j < x \<Longrightarrow> \<not> P j"
  have "[a..<n] = [a..<x] @ x # [Suc x..<n]"
    using p upt_add_eq_append [of a x "n - x"] upt_conv_Cons [of x n] by simp
  moreover have "filter P [a..<x] = []" using no by (auto simp: filter_empty_conv)
  ultimately show ?thesis using p(1) by simp
qed

lemma filter_upt_last:
  "P x \<Longrightarrow> x < n \<Longrightarrow> (\<And>j. x < j \<Longrightarrow> j < n \<Longrightarrow> \<not> P j) \<Longrightarrow> \<exists>ys. rev (filter P [0..<n]) = x # ys"
proof -
  assume p: "P x" "x < n" and no: "\<And>j. x < j \<Longrightarrow> j < n \<Longrightarrow> \<not> P j"
  have "[0..<n] = [0..<x] @ x # [Suc x..<n]"
    using p upt_add_eq_append [of 0 x "n - x"] upt_conv_Cons [of x n] by simp
  moreover have "filter P [Suc x..<n] = []" using no by (auto simp: filter_empty_conv)
  ultimately show ?thesis using p(1) by simp
qed

lemma above_filter_upt:
  "above p (filter P [0..<n]) = filter P [case p of None \<Rightarrow> 0 | Some a \<Rightarrow> Suc a..<n]"
proof (cases p)
  case (Some a)
  have "filter (\<lambda>x. a < x) [0..<n] = [Suc a..<n]" by (induction n) auto
  then have "filter P (filter (\<lambda>x. a < x) [0..<n]) = filter P [Suc a..<n]" by simp
  then show ?thesis using Some by (simp add: above_def conj_commute)
qed (simp add: above_def)

lemma below_filter_upt:
  "(\<And>a. p = Some a \<Longrightarrow> a \<le> n) \<Longrightarrow>
   below p (filter P [0..<n]) = filter P [0..<(case p of None \<Rightarrow> n | Some a \<Rightarrow> a)]"
proof (cases p)
  case (Some a)
  assume "\<And>a. p = Some a \<Longrightarrow> a \<le> n"
  then have "a \<le> n" using Some by simp
  then have "filter (\<lambda>x. x < a) [0..<n] = [0..<a]" by (induction n) (auto simp: le_Suc_eq filter_empty_conv)
  then have "filter P (filter (\<lambda>x. x < a) [0..<n]) = filter P [0..<a]" by simp
  then show ?thesis using Some by (simp add: below_def conj_commute)
qed (simp add: below_def)

lemma usage_bitmap_next_step:
  assumes lim: "iterator_limit_ok bm n" and inv: "iterator_ctx_ok n ctx"
    and st: "usage_bitmap_iterator_next bm ctx = (r, ctx')"
  shows "iterator_ctx_ok n ctx' \<and>
    (case above (usage_bitmap_iterator_get ctx) (filter (used bm) [0..<n]) of
       [] \<Rightarrow> \<not> r \<and> usage_bitmap_iterator_get ctx' = None
     | x # _ \<Rightarrow> r \<and> usage_bitmap_iterator_get ctx' = Some x)"
proof -
  define p where "p = usage_bitmap_iterator_get ctx"
  define start where "start = (case p of None \<Rightarrow> 0 | Some a \<Rightarrow> Suc a)"
  have n: "total_bits ctx = n" "0 < n" "n \<le> USAGE_BITMAP_TOTAL_BITS"
    using lim inv by (simp_all add: iterator_limit_ok_def iterator_ctx_ok_def)
  have n16: "n < 65536" using n(3) by (simp add: layout)
  have start: "start = (if currBit ctx = UINT16_MAX then 0 else to_u16 (currBit ctx + 1))"
    using inv n16 by (auto simp: start_def p_def usage_bitmap_iterator_get_def iterator_ctx_ok_def)
  have ab: "above p (filter (used bm) [0..<n]) = filter (used bm) [start..<n]"
    by (simp add: above_filter_upt start_def)
  show ?thesis
  proof (cases "n \<le> start")
    case True
    then have "ctx' = ctx\<lparr>currBit := UINT16_MAX\<rparr>" "\<not> r"
      using st n by (simp_all add: usage_bitmap_iterator_next_def start [symmetric])
    then show ?thesis using True n(1) unfolding ab [unfolded p_def]
      by (simp add: iterator_ctx_ok_def usage_bitmap_iterator_get_def)
  next
    case False
    let ?f = "get_next_bit bm start (n - 1)"
    have ctx': "ctx' = ctx\<lparr>currBit := ?f\<rparr>" "r = (?f \<noteq> UINT16_MAX)"
      using st n n16 False by (simp_all add: usage_bitmap_iterator_next_def start [symmetric] Let_def)
    have out: "\<not> used bm j" if "n \<le> j" "USAGE_BITMAP_FIND_INDEX j \<le> USAGE_BITMAP_FIND_INDEX (n - 1)" for j
      using lim that by (auto simp: iterator_limit_ok_def)
    have "n - 1 < USAGE_BITMAP_TOTAL_BITS" using n by simp
    from get_next_bit_spec [OF this, of bm start] show ?thesis
    proof (elim disjE conjE)
      assume f: "?f = UINT16_MAX"
        and no: "\<forall>j. used bm j \<and> start \<le> j \<longrightarrow> USAGE_BITMAP_FIND_INDEX (n - 1) < USAGE_BITMAP_FIND_INDEX j"
      have "\<not> used bm j" if "start \<le> j" "j < n" for j
        using no that find_index_mono [of j "n - 1"] by fastforce
      then have "filter (used bm) [start..<n] = []" by (auto simp: filter_empty_conv)
      then show ?thesis using f ctx' n(1)
        unfolding ab [unfolded p_def]
      by (simp add: iterator_ctx_ok_def usage_bitmap_iterator_get_def)
    next
      assume f: "used bm ?f" "start \<le> ?f" "USAGE_BITMAP_FIND_INDEX ?f \<le> USAGE_BITMAP_FIND_INDEX (n - 1)"
        and least: "\<forall>j. used bm j \<and> start \<le> j \<longrightarrow> ?f \<le> j"
      have fn: "?f < n" using out f(1,3) by (meson not_le)
      then obtain ys where "filter (used bm) [start..<n] = ?f # ys"
        using filter_upt_first [of "used bm" ?f start n] f least by force
      moreover have "?f \<noteq> UINT16_MAX" using fn n by (simp add: layout)
      ultimately show ?thesis using ctx' n(1) fn
        unfolding ab [unfolded p_def]
      by (simp add: iterator_ctx_ok_def usage_bitmap_iterator_get_def)
    qed
  qed
qed

lemma usage_bitmap_prev_step:
  assumes lim: "iterator_limit_ok bm n" and inv: "iterator_ctx_ok n ctx"
    and st: "usage_bitmap_iterator_prev bm ctx = (r, ctx')"
  shows "iterator_ctx_ok n ctx' \<and>
    (case rev (below (usage_bitmap_iterator_get ctx) (filter (used bm) [0..<n])) of
       [] \<Rightarrow> \<not> r \<and> usage_bitmap_iterator_get ctx' = None
     | x # _ \<Rightarrow> r \<and> usage_bitmap_iterator_get ctx' = Some x)"
proof -
  define p where "p = usage_bitmap_iterator_get ctx"
  define e where "e = (case p of None \<Rightarrow> n | Some a \<Rightarrow> a)"
  have n: "total_bits ctx = n" "0 < n" "n \<le> USAGE_BITMAP_TOTAL_BITS"
    using lim inv by (simp_all add: iterator_limit_ok_def iterator_ctx_ok_def)
  have n16: "n < 65536" using n(3) by (simp add: layout)
  have e: "e = (if currBit ctx = UINT16_MAX then n else currBit ctx)" and en: "e \<le> n"
    using inv by (auto simp: e_def p_def usage_bitmap_iterator_get_def iterator_ctx_ok_def)
  have ab: "below p (filter (used bm) [0..<n]) = filter (used bm) [0..<e]"
    unfolding e_def using en by (intro below_filter_upt) (auto simp: e_def)
  show ?thesis
  proof (cases "e = 0")
    case True
    then have "currBit ctx = 0" using e n by (simp split: if_splits)
    then have "ctx' = ctx\<lparr>currBit := UINT16_MAX\<rparr>" "\<not> r"
      using st n by (simp_all add: usage_bitmap_iterator_prev_def)
    then show ?thesis using True n(1) unfolding ab [unfolded p_def]
      by (simp add: iterator_ctx_ok_def usage_bitmap_iterator_get_def)
  next
    case False
    let ?f = "get_prev_bit bm 0 (e - 1)"
    have ctx': "ctx' = ctx\<lparr>currBit := ?f\<rparr>" "r = (?f \<noteq> UINT16_MAX)"
      using st n n16 False e en by (auto simp: usage_bitmap_iterator_prev_def Let_def split: if_splits)
    have "e - 1 < USAGE_BITMAP_TOTAL_BITS" using n en False by simp
    from get_prev_bit_spec [OF this, of bm 0] show ?thesis
    proof (elim disjE conjE)
      assume f: "?f = UINT16_MAX" and no: "\<forall>j. used bm j \<longrightarrow> \<not> (0 \<le> j \<and> j \<le> e - 1)"
      have "filter (used bm) [0..<e] = []" using no by (auto simp: filter_empty_conv)
      then show ?thesis using f ctx' n(1)
        unfolding ab [unfolded p_def]
      by (simp add: iterator_ctx_ok_def usage_bitmap_iterator_get_def)
    next
      assume f: "used bm ?f" "?f \<le> e - 1" and greatest: "\<forall>j. used bm j \<and> 0 \<le> j \<and> j \<le> e - 1 \<longrightarrow> j \<le> ?f"
      have fe: "?f < e" using f(2) False by simp
      then obtain ys where "rev (filter (used bm) [0..<e]) = ?f # ys"
        using filter_upt_last [of "used bm" ?f e] f greatest by force
      moreover have "?f \<noteq> UINT16_MAX" using fe en n by (simp add: layout)
      ultimately show ?thesis using ctx' n(1) fe en
        unfolding ab [unfolded p_def]
      by (simp add: iterator_ctx_ok_def usage_bitmap_iterator_get_def)
    qed
  qed
qed

lemma usage_bitmap_cursor:
  assumes "iterator_limit_ok bm n"
  shows "cursor (usage_bitmap_iterator bm) (iterator_ctx_ok n) (filter (used bm) [0..<n])"
proof
  show "sorted_wrt (<) (filter (used bm) [0..<n])" by (simp add: sorted_wrt_filter)
next
  fix ctx r ctx' assume "iterator_ctx_ok n ctx" "it_next (usage_bitmap_iterator bm) ctx = (r, ctx')"
  then show "iterator_ctx_ok n ctx' \<and>
      (case above (it_get (usage_bitmap_iterator bm) ctx) (filter (used bm) [0..<n]) of
         [] \<Rightarrow> \<not> r \<and> it_get (usage_bitmap_iterator bm) ctx' = None
       | x # _ \<Rightarrow> r \<and> it_get (usage_bitmap_iterator bm) ctx' = Some x)"
    unfolding usage_bitmap_iterator_def Iterator.simps by (rule usage_bitmap_next_step [OF assms])
next
  fix ctx r ctx' assume "iterator_ctx_ok n ctx" "it_prev (usage_bitmap_iterator bm) ctx = (r, ctx')"
  then show "iterator_ctx_ok n ctx' \<and>
      (case rev (below (it_get (usage_bitmap_iterator bm) ctx) (filter (used bm) [0..<n])) of
         [] \<Rightarrow> \<not> r \<and> it_get (usage_bitmap_iterator bm) ctx' = None
       | x # _ \<Rightarrow> r \<and> it_get (usage_bitmap_iterator bm) ctx' = Some x)"
    unfolding usage_bitmap_iterator_def Iterator.simps by (rule usage_bitmap_prev_step [OF assms])
qed

lemma full_limit_ok: "iterator_limit_ok bm USAGE_BITMAP_TOTAL_BITS"
  by (auto simp: iterator_limit_ok_def used_def layout)

interpretation bits: cursor "usage_bitmap_iterator bm" "iterator_ctx_ok USAGE_BITMAP_TOTAL_BITS"
    "filter (used bm) [0..<USAGE_BITMAP_TOTAL_BITS]" for bm
  by (rule usage_bitmap_cursor) (rule full_limit_ok)

end
