(* ===== verification/Journal.thy ===== *)
theory Journal
  imports Usage_Bitmap
begin

text \<open>
  The rollback journal of \<^verbatim>\<open>source/app/src/journal.c\<close>.  Before a data sector is changed, its
  old content and the usage bitmap sector that covers it are copied to the journal sectors and the
  journal header is written as active; \<open>journal_free\<close> marks it committed.  At start-up
  \<open>journal_init\<close> rolls an active entry back.

  \<^item> \<open>Journal\<close> is the RAM struct, \<open>pers\<close> the persistent state an operation threads: the device,
    the RAM usage bitmap (a C global) and the journal.
  \<^item> \<open>recover\<close> is the specification of start-up on the blocks of the card, and
    \<open>journal_init_recover\<close> the proof that \<open>journal_init\<close> implements it.
  \<^item> \<open>journal_add_step\<close> lists the states of the card a (possibly interrupted) \<open>journal_add\<close> can
    leave, and \<open>recover_idle\<close>, \<open>recover_active\<close> what start-up makes of them.
\<close>

definition JRNL_MAGIC :: nat where [simp]: "JRNL_MAGIC = 0x4A524E5C"
definition JRNL_HEADER_MAGIC_EMPTY :: nat where [simp]: "JRNL_HEADER_MAGIC_EMPTY = 0"
definition JRNL_HEADER_MAGIC_FULL :: nat where [simp]: "JRNL_HEADER_MAGIC_FULL = 0xFFFFFFFF"

definition JRNL_EMPTY :: nat where [simp]: "JRNL_EMPTY = 0"
definition JRNL_ACTIVE :: nat where [simp]: "JRNL_ACTIVE = 1"
definition JRNL_COMMITTED :: nat where [simp]: "JRNL_COMMITTED = 2"

datatype JRNL_HEAD_STATUS = JRNL_READ_ERROR | JRNL_UNINITIALIZED | JRNL_CORRUPTED | JRNL_VALID | JRNL_ROLLBACK

definition JRNL_CONTACT :: nat where [simp]: "JRNL_CONTACT = 0"
definition JRNL_MESSAGE :: nat where [simp]: "JRNL_MESSAGE = 1"
definition JRNL_CALL_HIST :: nat where [simp]: "JRNL_CALL_HIST = 2"
definition JRNL_MSG_HIST :: nat where [simp]: "JRNL_MSG_HIST = 3"
definition JRNL_REMOVE :: nat where [simp]: "JRNL_REMOVE = 4"

subsection \<open>The header sector\<close>

record JournalHeader =
  jh_magic :: nat
  jh_state :: nat
  jh_type :: nat
  jh_sector :: nat
  jh_padding :: "byte list"
  jh_crc :: nat

definition journal_header_of :: "byte list \<Rightarrow> JournalHeader" where
  "journal_header_of b = \<lparr>jh_magic = rd32 (slice 0 4 b), jh_state = unat (b ! 4), jh_type = unat (b ! 5),
     jh_sector = rd16 (slice 6 2 b), jh_padding = slice 8 500 b, jh_crc = rd32 (slice 508 4 b)\<rparr>"

definition journal_header_bytes :: "JournalHeader \<Rightarrow> byte list" where
  "journal_header_bytes h = le32 (jh_magic h) @ [of_nat (jh_state h), of_nat (jh_type h)] @ le16 (jh_sector h) @
     jh_padding h @ le32 (jh_crc h)"

definition journal_header_wf :: "JournalHeader \<Rightarrow> bool" where
  "journal_header_wf h \<longleftrightarrow> jh_magic h < 2 ^ 32 \<and> jh_state h < 256 \<and> jh_type h < 256 \<and> jh_sector h < 65536 \<and>
     length (jh_padding h) = 500 \<and> jh_crc h < 2 ^ 32"

lemma journal_header_of_bytes [codec]: "journal_header_wf h \<Longrightarrow> journal_header_of (journal_header_bytes h) = h"
  by (simp add: journal_header_wf_def journal_header_of_def journal_header_bytes_def slice_prefix rd32_le32 rd16_le16
      nth_append unat_byte_of_nat)

lemma journal_header_bytes_of [codec]: "length b = 512 \<Longrightarrow> journal_header_bytes (journal_header_of b) = b"
  by (simp add: journal_header_of_def journal_header_bytes_def le32_rd32 le16_rd16 slice_join slice_cons)

lemma journal_header_wf_of: "length b = 512 \<Longrightarrow> journal_header_wf (journal_header_of b)"
  by (simp add: journal_header_wf_def journal_header_of_def rd32_less rd16_less)

lemma length_journal_header_bytes [simp]:
  "journal_header_wf h \<Longrightarrow> length (journal_header_bytes h) = SECTOR_SIZE"
  by (simp add: journal_header_bytes_def journal_header_wf_def layout)

lemma journal_header_of_stamp:
  "length b = SECTOR_SIZE \<Longrightarrow>
   journal_header_of (sector_crc_stamp b) = (journal_header_of b)\<lparr>jh_crc := rd32 (slice 508 4 (sector_crc_stamp b))\<rparr>"
  by (simp add: journal_header_of_def)

subsection \<open>State\<close>

record Journal =
  j_header :: JournalHeader
  j_content :: "byte list"
  j_usage_bitmap_sector :: "byte list"

record 'c pers =
  dev :: 'c
  usage_bitmap :: "u32 list"
  journal :: Journal

definition journal_read_sector :: "'c Storage \<Rightarrow> 'c \<Rightarrow> nat \<Rightarrow> byte list res" where
  "journal_read_sector S d journal_section = read_sector S d journal_section"

definition journal_write_sector :: "'c Storage \<Rightarrow> 'c \<Rightarrow> nat \<Rightarrow> byte list \<Rightarrow> STRG_RET \<times> byte list \<times> 'c" where
  "journal_write_sector S d journal_section inb = write_sector S d journal_section inb"

subsection \<open>Operations\<close>

definition journal_header_zero :: JournalHeader where
  "journal_header_zero =
     \<lparr>jh_magic = 0, jh_state = 0, jh_type = 0, jh_sector = 0, jh_padding = replicate 500 0, jh_crc = 0\<rparr>"

definition journal_header_init :: "'c Storage \<Rightarrow> 'c \<Rightarrow> bool \<times> 'c" where
  "journal_header_init S d =
     (let h = journal_header_zero\<lparr>jh_magic := JRNL_MAGIC, jh_state := JRNL_EMPTY, jh_type := 0, jh_sector := 0\<rparr>;
          (ret, _, d') = journal_write_sector S d JRNL_HEADER_SECTOR (journal_header_bytes h)
      in (strg_true ret, d'))"

text \<open>\<open>journal_write\<close> stamps the three buffers it is given, so it returns them.\<close>

definition journal_write ::
    "'c Storage \<Rightarrow> 'c \<Rightarrow> JournalHeader \<Rightarrow> byte list \<Rightarrow> byte list option \<Rightarrow>
     STRG_RET \<times> JournalHeader \<times> byte list \<times> byte list option \<times> 'c" where
  "journal_write S d hdr content bitmap =
     (let (ret, bitmap, d) = (case bitmap of
            None \<Rightarrow> (STRG_OK, None, d)
          | Some b \<Rightarrow> let (ret, b, d) = journal_write_sector S d JRNL_USAGE_SECTOR b in (ret, Some b, d))
      in if ret \<noteq> STRG_OK then (ret, hdr, content, bitmap, d)
         else let (ret, content, d) = (if jh_type hdr \<noteq> JRNL_REMOVE
                 then journal_write_sector S d JRNL_CONTENT_SECTOR content else (STRG_OK, content, d))
              in if ret \<noteq> STRG_OK then (ret, hdr, content, bitmap, d)
                 else let (ret, hb, d) = journal_write_sector S d JRNL_HEADER_SECTOR (journal_header_bytes hdr)
                      in (ret, journal_header_of hb, content, bitmap, d))"

definition journal_data_init :: "JournalHeader \<Rightarrow> nat \<Rightarrow> nat \<Rightarrow> JournalHeader" where
  "journal_data_init jData jtype sectorInd =
     jData\<lparr>jh_magic := JRNL_MAGIC, jh_state := JRNL_ACTIVE, jh_type := jtype, jh_sector := sectorInd\<rparr>"

definition tracks_usage :: "nat \<Rightarrow> bool" where
  "tracks_usage jtype \<longleftrightarrow> jtype = JRNL_CONTACT \<or> jtype = JRNL_MESSAGE \<or> jtype = JRNL_REMOVE"

text \<open>The bitmap buffer handed to \<open>journal_write\<close> is the sector of the RAM array itself, whose
  trailer is therefore refreshed in place.\<close>

definition journal_add :: "'c Storage \<Rightarrow> 'c pers \<Rightarrow> nat \<Rightarrow> nat \<Rightarrow> byte list \<Rightarrow> bool \<times> byte list \<times> 'c pers" where
  "journal_add S p jtype index content =
     (let jHeadBuff = journal_data_init journal_header_zero jtype index;
          s = USAGE_BITMAP_FIND_SECTOR index;
          bitmap = (if tracks_usage jtype then Some (words_bytes (bitmap_sector (usage_bitmap p) s)) else None);
          p = p\<lparr>journal := (journal p)\<lparr>j_header := jHeadBuff\<rparr>\<rparr>;
          (ret, _, content, bitmap, d) = journal_write S (dev p) jHeadBuff content bitmap;
          bm = (case bitmap of None \<Rightarrow> usage_bitmap p
                | Some b \<Rightarrow> splice (s * ELEMENTS_PER_SECTOR) (bytes_words b) (usage_bitmap p))
      in (ret = STRG_OK, content, p\<lparr>dev := d, usage_bitmap := bm\<rparr>))"

definition journal_free :: "'c Storage \<Rightarrow> 'c \<Rightarrow> Journal \<Rightarrow> STRG_RET \<times> Journal \<times> 'c" where
  "journal_free S d j =
     (let hdr = (j_header j)\<lparr>jh_state := JRNL_COMMITTED\<rparr>;
          (ret, b, d') = journal_write_sector S d JRNL_HEADER_SECTOR (journal_header_bytes hdr)
      in (ret, j\<lparr>j_header := journal_header_of b\<rparr>, d'))"

definition journal_rollback_bitmap :: "'c Storage \<Rightarrow> 'c \<Rightarrow> Journal \<Rightarrow> bool \<times> Journal \<times> 'c" where
  "journal_rollback_bitmap S d j =
     (let hdr = j_header j
      in if jh_type hdr = JRNL_CALL_HIST \<or> jh_type hdr = JRNL_MSG_HIST then
           let (ret, j, d) = journal_free S d j in (ret = STRG_OK, j, d)
         else case journal_read_sector S d JRNL_USAGE_SECTOR of
           Inl _ \<Rightarrow> (False, j, d)
         | Inr b \<Rightarrow>
             let (ret, b, d) = write_sector S d (USAGE_BITMAP_START_SECTOR + USAGE_BITMAP_FIND_SECTOR (jh_sector hdr)) b;
                 j = j\<lparr>j_usage_bitmap_sector := b\<rparr>
             in if ret \<noteq> STRG_OK then (False, j, d)
                else let (ret, j, d) = journal_free S d j in (ret = STRG_OK, j, d))"

definition journal_rollback :: "'c Storage \<Rightarrow> 'c \<Rightarrow> Journal \<Rightarrow> bool \<times> Journal \<times> 'c" where
  "journal_rollback S d j =
     (let hdr = j_header j
      in if jh_type hdr \<noteq> JRNL_REMOVE then
           case journal_read_sector S d JRNL_CONTENT_SECTOR of
             Inl _ \<Rightarrow> (False, j, d)
           | Inr b \<Rightarrow>
               let (ret, b, d) = write_sector S d (jh_sector hdr + DATA_REGION_START_SECTOR) b;
                   j = j\<lparr>j_content := b\<rparr>
               in if ret \<noteq> STRG_OK then (False, j, d) else journal_rollback_bitmap S d j
         else journal_rollback_bitmap S d j)"

definition get_journal_status :: "'c Storage \<Rightarrow> 'c \<Rightarrow> Journal \<Rightarrow> JRNL_HEAD_STATUS \<times> Journal" where
  "get_journal_status S d j =
     (case read_sector_raw S d JRNL_HEADER_SECTOR of
        Inl _ \<Rightarrow> (JRNL_READ_ERROR, j)
      | Inr b \<Rightarrow>
          let hdr = journal_header_of b
          in if \<not> sector_crc_valid b then
               if jh_magic hdr = JRNL_HEADER_MAGIC_EMPTY \<or> jh_magic hdr = JRNL_HEADER_MAGIC_FULL
               then (JRNL_UNINITIALIZED, j) else (JRNL_CORRUPTED, j)
             else if jh_magic hdr \<noteq> JRNL_MAGIC then (JRNL_UNINITIALIZED, j)
             else let j = j\<lparr>j_header := hdr\<rparr>
                  in if jh_state hdr = JRNL_ACTIVE then (JRNL_ROLLBACK, j) else (JRNL_VALID, j))"

definition journal_init :: "'c Storage \<Rightarrow> 'c \<Rightarrow> Journal \<Rightarrow> bool \<times> Journal \<times> 'c" where
  "journal_init S d j =
     (let (status, j) = get_journal_status S d j
      in case status of
           JRNL_CORRUPTED \<Rightarrow> (False, j, d)
         | JRNL_READ_ERROR \<Rightarrow> (False, j, d)
         | JRNL_UNINITIALIZED \<Rightarrow> let (r, d) = journal_header_init S d in (r, j, d)
         | JRNL_ROLLBACK \<Rightarrow> journal_rollback S d j
         | JRNL_VALID \<Rightarrow> (True, j, d))"

subsection \<open>The specification of start-up\<close>

definition journal_idle :: "(nat \<Rightarrow> byte list) \<Rightarrow> bool" where
  "journal_idle blk \<longleftrightarrow> sector_crc_valid (blk JRNL_HEADER_SECTOR) \<and>
     jh_magic (journal_header_of (blk JRNL_HEADER_SECTOR)) = JRNL_MAGIC \<and>
     jh_state (journal_header_of (blk JRNL_HEADER_SECTOR)) \<noteq> JRNL_ACTIVE"

definition journal_active :: "(nat \<Rightarrow> byte list) \<Rightarrow> nat \<Rightarrow> nat \<Rightarrow> bool" where
  "journal_active blk jtype i \<longleftrightarrow> sector_crc_valid (blk JRNL_HEADER_SECTOR) \<and>
     jh_magic (journal_header_of (blk JRNL_HEADER_SECTOR)) = JRNL_MAGIC \<and>
     jh_state (journal_header_of (blk JRNL_HEADER_SECTOR)) = JRNL_ACTIVE \<and>
     jh_type (journal_header_of (blk JRNL_HEADER_SECTOR)) = jtype \<and>
     jh_sector (journal_header_of (blk JRNL_HEADER_SECTOR)) = i"

definition commit_block :: "byte list \<Rightarrow> byte list" where
  "commit_block b = sector_crc_stamp (journal_header_bytes ((journal_header_of b)\<lparr>jh_state := JRNL_COMMITTED\<rparr>))"

text \<open>What an active entry of a data sector restores: the sector and its usage bits.\<close>

definition rolled_back :: "(nat \<Rightarrow> byte list) \<Rightarrow> nat \<Rightarrow> (nat \<Rightarrow> byte list)" where
  "rolled_back blk i =
     blk(DATA_SECTOR_TO_RAW i := blk JRNL_CONTENT_SECTOR,
         USAGE_BITMAP_START_SECTOR + USAGE_BITMAP_FIND_SECTOR i := blk JRNL_USAGE_SECTOR,
         JRNL_HEADER_SECTOR := commit_block (blk JRNL_HEADER_SECTOR))"

lemma commit_block_wf:
  assumes "length b = SECTOR_SIZE"
  shows "length (commit_block b) = SECTOR_SIZE" and "sector_crc_valid (commit_block b)"
    and "journal_header_of (commit_block b) =
      (journal_header_of b)\<lparr>jh_state := JRNL_COMMITTED, jh_crc := rd32 (slice 508 4 (commit_block b))\<rparr>"
proof -
  have "journal_header_wf (journal_header_of b)" using assms by (simp add: journal_header_wf_of layout)
  then have wf: "journal_header_wf ((journal_header_of b)\<lparr>jh_state := JRNL_COMMITTED\<rparr>)"
    by (simp add: journal_header_wf_def)
  then show "length (commit_block b) = SECTOR_SIZE" "sector_crc_valid (commit_block b)"
    by (simp_all add: commit_block_def)
  show "journal_header_of (commit_block b) =
      (journal_header_of b)\<lparr>jh_state := JRNL_COMMITTED, jh_crc := rd32 (slice 508 4 (commit_block b))\<rparr>"
    unfolding commit_block_def
    using journal_header_of_stamp [OF length_journal_header_bytes [OF wf]] journal_header_of_bytes [OF wf] by simp
qed

lemma journal_idle_committed:
  "length b = SECTOR_SIZE \<Longrightarrow> jh_magic (journal_header_of b) = JRNL_MAGIC \<Longrightarrow>
   blk JRNL_HEADER_SECTOR = commit_block b \<Longrightarrow> journal_idle blk"
  by (simp add: journal_idle_def commit_block_wf)

lemma rolled_back_idle:
  assumes "journal_active blk jtype i" and "length (blk JRNL_HEADER_SECTOR) = SECTOR_SIZE"
  shows "journal_idle (rolled_back blk i)"
  using assms by (intro journal_idle_committed [of "blk JRNL_HEADER_SECTOR"])
    (simp_all add: journal_active_def rolled_back_def)

context reliable_store begin

lemma journal_free_step:
  assumes "ok d" and "JRNL_HEADER_SECTOR < capacity S d" and "length b = SECTOR_SIZE" and "j_header j = journal_header_of b"
    and "journal_free S d j = (r, j', d')"
  shows "r = STRG_OK \<and> ok d' \<and> capacity S d' = capacity S d \<and> blk d' = (blk d)(JRNL_HEADER_SECTOR := commit_block b) \<and>
    j_header j' = journal_header_of (commit_block b)"
proof -
  let ?b = "journal_header_bytes ((journal_header_of b)\<lparr>jh_state := JRNL_COMMITTED\<rparr>)"
  have "journal_header_wf (journal_header_of b)" using assms by (simp add: journal_header_wf_of layout)
  then have "length ?b = SECTOR_SIZE" by (intro length_journal_header_bytes) (simp add: journal_header_wf_def)
  from write_sector_in_range [OF assms(1,2) _ this] obtain d2
    where w: "write_sector S d JRNL_HEADER_SECTOR ?b = (STRG_OK, sector_crc_stamp ?b, d2)"
      and d2: "ok d2" "capacity S d2 = capacity S d" "blk d2 = (blk d)(JRNL_HEADER_SECTOR := sector_crc_stamp ?b)"
    by (auto simp: layout)
  then show ?thesis using assms(4,5)
    by (auto simp: journal_free_def journal_write_sector_def commit_block_def)
qed

text \<open>Start-up on an idle journal changes nothing; on an active entry it restores the entry.\<close>

lemma recover_idle:
  assumes "ok d" and "JRNL_HEADER_SECTOR < capacity S d" and "journal_idle (blk d)"
  shows "\<exists>j'. journal_init S d j = (True, j', d)"
  using assms read_in_range [of d JRNL_HEADER_SECTOR]
  by (simp add: journal_init_def get_journal_status_def read_sector_raw_def journal_idle_def Let_def layout)

lemma recover_active:
  assumes d: "ok d" and cap: "DATA_SECTOR_TO_RAW i < capacity S d" and i: "i < USAGE_BITMAP_TOTAL_BITS"
    and act: "journal_active (blk d) jtype i" and ty: "jtype = JRNL_CONTACT \<or> jtype = JRNL_MESSAGE"
    and v: "sector_crc_valid (blk d JRNL_CONTENT_SECTOR)" "sector_crc_valid (blk d JRNL_USAGE_SECTOR)"
    and init: "journal_init S d j = (r, j', d')"
  shows "r \<and> ok d' \<and> capacity S d' = capacity S d \<and> blk d' = rolled_back (blk d) i"
proof -
  have cap12: "12 < capacity S d" using cap by (simp add: sector_defs layout)
  note bl = blk_length [OF d]
  define hb where "hb = blk d JRNL_HEADER_SECTOR"
  have hb: "length hb = SECTOR_SIZE" using bl cap12 by (simp add: hb_def layout)
  have rd: "read_sector S d k = Inr (blk d k)" if "k < 12" "sector_crc_valid (blk d k)" for k
    using read_sector_valid [OF d] that cap12 by simp
  define j1 where "j1 = j\<lparr>j_header := journal_header_of hb\<rparr>"
  have st: "get_journal_status S d j = (JRNL_ROLLBACK, j1)"
    using act read_in_range [OF d, of JRNL_HEADER_SECTOR] cap12
    by (simp add: get_journal_status_def read_sector_raw_def journal_active_def Let_def layout j1_def hb_def)
  define c u where "c = blk d JRNL_CONTENT_SECTOR" and "u = blk d JRNL_USAGE_SECTOR"
  have l: "length c = SECTOR_SIZE" "length u = SECTOR_SIZE" using bl cap12 by (simp_all add: c_def u_def layout)
  have vs: "sector_crc_stamp c = c" "sector_crc_stamp u = u"
    using valid_imp_stamp l v by (simp_all add: c_def u_def)
  have raw: "DATA_SECTOR_TO_RAW i < 65536" "DATA_SECTOR_TO_RAW i = i + 12" "to_u16 (i + 12) = i + 12"
    using i by (simp_all add: sector_defs layout)
  obtain d1 where w1: "write_sector S d (DATA_SECTOR_TO_RAW i) c = (STRG_OK, c, d1)"
    and d1: "ok d1" "capacity S d1 = capacity S d" "blk d1 = (blk d)(DATA_SECTOR_TO_RAW i := c)"
    by (rule write_sector_in_range [OF d cap raw(1) l(1)]) (simp add: vs)
  let ?s = "USAGE_BITMAP_START_SECTOR + USAGE_BITMAP_FIND_SECTOR i"
  have s: "?s < 12" "?s < 65536" using find_sector_less [OF i] by (simp_all add: layout)
  have ra: "read_sector S d1 JRNL_USAGE_SECTOR = Inr u"
    using read_sector_valid [OF d1(1), of JRNL_USAGE_SECTOR] v d1 cap12 by (simp add: sector_defs layout u_def)
  have "?s < capacity S d1" using s cap12 d1(2) by simp
  then obtain d2 where w2: "write_sector S d1 ?s u = (STRG_OK, u, d2)"
    and d2: "ok d2" "capacity S d2 = capacity S d" "blk d2 = (blk d1)(?s := u)"
    using write_sector_in_range [OF d1(1) _ s(2) l(2)] by (metis vs(2) d1(2))
  have cap2: "JRNL_HEADER_SECTOR < capacity S d2" using d2(2) cap12 by (simp add: layout)
  obtain r3 j3 d3 where f: "journal_free S d2 (j1\<lparr>j_content := c, j_usage_bitmap_sector := u\<rparr>) = (r3, j3, d3)"
    by (metis prod_cases3)
  have fr: "r3 = STRG_OK \<and> ok d3 \<and> capacity S d3 = capacity S d2 \<and> blk d3 = (blk d2)(JRNL_HEADER_SECTOR := commit_block hb) \<and>
    j_header j3 = journal_header_of (commit_block hb)"
    by (rule journal_free_step [OF d2(1) cap2 hb _ f]) (simp add: j1_def)
  have hdr: "jh_type (journal_header_of hb) = jtype" "jh_sector (journal_header_of hb) = i"
    using act by (simp_all add: journal_active_def hb_def)
  have rdc: "read_sector S d JRNL_CONTENT_SECTOR = Inr c" using rd [of JRNL_CONTENT_SECTOR] v by (simp add: c_def layout)
  have rawi: "i + DATA_REGION_START_SECTOR = DATA_SECTOR_TO_RAW i" by (simp add: sector_defs)
  have roll: "journal_rollback S d j1 = (True, j3, d3)"
    using rdc ty ra w1 w2 f hdr rawi fr
    by (auto simp: journal_rollback_def journal_rollback_bitmap_def journal_read_sector_def j1_def Let_def)
  have "blk d3 = rolled_back (blk d) i"
    using fr d2 d1 by (simp add: rolled_back_def hb_def c_def u_def)
  then show ?thesis using init st roll fr d2 by (auto simp: journal_init_def)
qed

end

subsection \<open>What an interrupted \<open>journal_add\<close> leaves\<close>

definition active_block :: "nat \<Rightarrow> nat \<Rightarrow> byte list" where
  "active_block jtype i = sector_crc_stamp (journal_header_bytes (journal_data_init journal_header_zero jtype i))"

lemma active_block_wf:
  assumes "jtype < 256" and "i < 65536"
  shows "length (active_block jtype i) = SECTOR_SIZE" and "sector_crc_valid (active_block jtype i)"
    and "blk JRNL_HEADER_SECTOR = active_block jtype i \<Longrightarrow> journal_active blk jtype i"
proof -
  let ?h = "journal_data_init journal_header_zero jtype i"
  have wf: "journal_header_wf ?h"
    using assms by (simp add: journal_header_wf_def journal_data_init_def journal_header_zero_def)
  note l = length_journal_header_bytes [OF wf]
  then show v: "length (active_block jtype i) = SECTOR_SIZE" "sector_crc_valid (active_block jtype i)"
    by (simp_all add: active_block_def)
  have "journal_header_of (active_block jtype i) = ?h\<lparr>jh_crc := rd32 (slice 508 4 (active_block jtype i))\<rparr>"
    using journal_header_of_stamp [OF l] journal_header_of_bytes [OF wf] by (simp add: active_block_def)
  then show "blk JRNL_HEADER_SECTOR = active_block jtype i \<Longrightarrow> journal_active blk jtype i"
    using v by (simp add: journal_active_def journal_data_init_def)
qed

context block_store begin

lemma journal_add_step:
  assumes d: "ok (dev p)" and bm: "bitmap_synced (blk (dev p)) (usage_bitmap p)" and i: "i < USAGE_BITMAP_TOTAL_BITS"
    and ty: "jtype = JRNL_CONTACT \<or> jtype = JRNL_MESSAGE" and c: "length c = SECTOR_SIZE"
    and add: "journal_add S p jtype i c = (r, c', p')"
  defines "u \<equiv> words_bytes (bitmap_sector (usage_bitmap p) (USAGE_BITMAP_FIND_SECTOR i))"
  shows "ok (dev p') \<and> capacity S (dev p') = capacity S (dev p) \<and> usage_bitmap p' = usage_bitmap p \<and>
    j_header (journal p') = journal_data_init journal_header_zero jtype i \<and>
    (r \<and> c' = sector_crc_stamp c \<and> blk (dev p') = (blk (dev p))(JRNL_USAGE_SECTOR := u,
         JRNL_CONTENT_SECTOR := sector_crc_stamp c, JRNL_HEADER_SECTOR := active_block jtype i) \<or>
     \<not> r \<and> (\<forall>k. k \<notin> {JRNL_USAGE_SECTOR, JRNL_CONTENT_SECTOR} \<longrightarrow> blk (dev p') k = blk (dev p) k))"
proof -
  let ?s = "USAGE_BITMAP_FIND_SECTOR i" and ?h = "journal_data_init journal_header_zero jtype i"
  have lb: "length (usage_bitmap p) = USAGE_BITMAP_STORAGE_SIZE" using bm by (simp add: bitmap_synced_def)
  have s: "?s < USAGE_BITMAP_SECTOR_SIZE" by (rule find_sector_less [OF i])
  have lu: "length u = SECTOR_SIZE" unfolding u_def by (rule sector_bytes_len [OF lb s])
  have vu: "sector_crc_valid u" using bm s by (simp add: u_def bitmap_synced_def)
  have st: "sector_crc_stamp u = u" by (rule valid_imp_stamp [OF lu vu])
  have noop: "splice (?s * ELEMENTS_PER_SECTOR) (bytes_words u) (usage_bitmap p) = usage_bitmap p"
    using stamp_noop [OF lb s] vu st by (simp add: stamp_bitmap_sector_def u_def)
  have i16: "i < 65536" using i by (simp add: layout)
  have "journal_header_wf ?h"
    using ty i16 by (auto simp: journal_header_wf_def journal_data_init_def journal_header_zero_def)
  note lh = length_journal_header_bytes [OF this]
  have nr: "jh_type ?h \<noteq> JRNL_REMOVE" using ty by (auto simp: journal_data_init_def)
  obtain r1 b1 d1 where w1: "write_sector S (dev p) JRNL_USAGE_SECTOR u = (r1, b1, d1)" by (metis prod_cases3)
  obtain r2 b2 d2 where w2: "write_sector S d1 JRNL_CONTENT_SECTOR c = (r2, b2, d2)" by (metis prod_cases3)
  obtain r3 b3 d3 where w3: "write_sector S d2 JRNL_HEADER_SECTOR (journal_header_bytes ?h) = (r3, b3, d3)" by (metis prod_cases3)
  note s1 = write_sector_step [OF d lu w1]
  note s2 = write_sector_step [OF _ c w2]
  note s3 = write_sector_step [OF _ lh w3]
  have res: "(r, c', p') = (if r1 \<noteq> STRG_OK then (False, c, p\<lparr>journal := (journal p)\<lparr>j_header := ?h\<rparr>, dev := d1\<rparr>)
      else if r2 \<noteq> STRG_OK then (False, b2, p\<lparr>journal := (journal p)\<lparr>j_header := ?h\<rparr>, dev := d2\<rparr>)
      else (r3 = STRG_OK, b2, p\<lparr>journal := (journal p)\<lparr>j_header := ?h\<rparr>, dev := d3\<rparr>))"
    using add ty w1 w2 w3 nr noop st s1
    by (auto simp: journal_add_def journal_write_def journal_write_sector_def tracks_usage_def Let_def
        simp flip: u_def split: if_splits)
  show ?thesis
  proof (cases "r1 = STRG_OK")
    case True
    then have s1': "ok d1" "capacity S d1 = capacity S (dev p)" "blk d1 = (blk (dev p))(JRNL_USAGE_SECTOR := u)"
      using s1 st by (auto simp: layout)
    show ?thesis
    proof (cases "r2 = STRG_OK")
      case r2: True
      then show ?thesis using res True s1' s2 [OF s1'(1)] s3
        by (cases "r3 = STRG_OK") (auto simp: active_block_def layout)
    next
      case False
      then show ?thesis using res True s1' s2 [OF s1'(1)] by (auto simp: layout)
    qed
  next
    case False
    then show ?thesis using res s1 by auto
  qed
qed

lemma journal_free_cases:
  assumes "ok d" and "journal_header_wf (j_header j)" and "journal_free S d j = (r, j', d')"
  shows "ok d' \<and> capacity S d' = capacity S d \<and> r \<in> {STRG_OK, STRG_FAIL} \<and> journal_header_wf (j_header j') \<and>
    jh_magic (j_header j') = jh_magic (j_header j) \<and>
    blk d' = (if r = STRG_OK then (blk d)(JRNL_HEADER_SECTOR :=
       sector_crc_stamp (journal_header_bytes ((j_header j)\<lparr>jh_state := JRNL_COMMITTED\<rparr>))) else blk d)"
proof -
  let ?h = "(j_header j)\<lparr>jh_state := JRNL_COMMITTED\<rparr>"
  have wf: "journal_header_wf ?h" using assms(2) by (simp add: journal_header_wf_def)
  note l = length_journal_header_bytes [OF wf]
  obtain b where w: "write_sector S d JRNL_HEADER_SECTOR (journal_header_bytes ?h) = (r, b, d')"
    and j': "j' = j\<lparr>j_header := journal_header_of b\<rparr>"
    using assms(3) by (auto simp: journal_free_def journal_write_sector_def split: prod.splits)
  note s = write_sector_step [OF assms(1) l w]
  have "journal_header_of b = ?h\<lparr>jh_crc := rd32 (slice 508 4 b)\<rparr>"
    using journal_header_of_stamp [OF l] journal_header_of_bytes [OF wf] s by simp
  then show ?thesis using s j' wf rd32_less by (auto simp: journal_header_wf_def layout)
qed

end

end
