(* ===== verification/Transaction.thy ===== *)
theory Transaction
  imports Journal
begin

text \<open>
  The pattern every journalled change of a data sector follows: \<open>journal_add\<close>, update of the usage
  bit, write of the sector, \<open>journal_free\<close>.  \<open>pers_ok\<close> is the invariant of the persistent state
  between operations, \<open>txn\<close> the states of the card an interrupted change can leave, and
  \<open>recover_txn\<close> the proof that start-up brings each of them back to the old or the new data.
\<close>

text \<open>The invariant of the persistent state between operations.\<close>

definition pers_ok :: "'c Storage \<Rightarrow> ('c \<Rightarrow> bool) \<Rightarrow> ('c \<Rightarrow> nat \<Rightarrow> byte list) \<Rightarrow> 'c pers \<Rightarrow> bool" where
  "pers_ok S ok blk p \<longleftrightarrow> ok (dev p) \<and> DATA_REGION_START_SECTOR + TOTAL_DATABASE_SECTOR_SIZE \<le> capacity S (dev p) \<and>
     bitmap_synced (blk (dev p)) (usage_bitmap p) \<and> journal_idle (blk (dev p))"

definition same_data :: "(nat \<Rightarrow> byte list) \<Rightarrow> (nat \<Rightarrow> byte list) \<Rightarrow> bool" where
  "same_data blk blk' \<longleftrightarrow>
     (\<forall>k. k \<notin> {JRNL_HEADER_SECTOR, JRNL_CONTENT_SECTOR, JRNL_USAGE_SECTOR} \<longrightarrow> blk' k = blk k)"

text \<open>The states a journalled change of data sector \<open>i\<close> can leave on the card: untouched, in
  progress with the old content \<open>c0\<close> in an active journal, or complete (\<open>New\<close>).\<close>

definition usage_block :: "nat \<Rightarrow> nat" where
  "usage_block i = USAGE_BITMAP_START_SECTOR + USAGE_BITMAP_FIND_SECTOR i"

definition elsewhere_same :: "nat \<Rightarrow> (nat \<Rightarrow> byte list) \<Rightarrow> (nat \<Rightarrow> byte list) \<Rightarrow> bool" where
  "elsewhere_same i blk blk' \<longleftrightarrow>
     (\<forall>k. k \<notin> {JRNL_HEADER_SECTOR, JRNL_CONTENT_SECTOR, JRNL_USAGE_SECTOR, DATA_SECTOR_TO_RAW i, usage_block i} \<longrightarrow>
        blk' k = blk k)"

definition in_progress :: "(nat \<Rightarrow> byte list) \<Rightarrow> nat \<Rightarrow> nat \<Rightarrow> byte list \<Rightarrow> (nat \<Rightarrow> byte list) \<Rightarrow> bool" where
  "in_progress blk0 jtype i c0 blk' \<longleftrightarrow>
     journal_active blk' jtype i \<and> blk' JRNL_CONTENT_SECTOR = c0 \<and>
     blk' JRNL_USAGE_SECTOR = blk0 (usage_block i) \<and> elsewhere_same i blk0 blk'"

definition txn :: "(nat \<Rightarrow> byte list) \<Rightarrow> nat \<Rightarrow> nat \<Rightarrow> byte list \<Rightarrow>
    ((nat \<Rightarrow> byte list) \<Rightarrow> bool) \<Rightarrow> (nat \<Rightarrow> byte list) \<Rightarrow> bool" where
  "txn blk0 jtype i c0 New blk' \<longleftrightarrow>
     journal_idle blk' \<and> same_data blk0 blk' \<or> in_progress blk0 jtype i c0 blk' \<or> journal_idle blk' \<and> New blk'"

definition sector_changed ::
    "(nat \<Rightarrow> byte list) \<Rightarrow> u32 list \<Rightarrow> nat \<Rightarrow> bool \<Rightarrow> byte list \<Rightarrow> u32 list \<Rightarrow> (nat \<Rightarrow> byte list) \<Rightarrow> bool" where
  "sector_changed blk0 bm0 i v b1 bm1 blk' \<longleftrightarrow>
     (\<forall>j. used bm1 j = (if j = i then v else used bm0 j)) \<and> bitmap_synced blk' bm1 \<and>
     blk' (DATA_SECTOR_TO_RAW i) = b1 \<and> elsewhere_same i blk0 blk'"

lemma synced_same_data: "same_data blk blk' \<Longrightarrow> bitmap_synced blk' bm \<longleftrightarrow> bitmap_synced blk bm"
  by (auto simp: same_data_def bitmap_synced_def layout)

lemma raw_not_meta:
  assumes "i < USAGE_BITMAP_TOTAL_BITS"
  shows "DATA_SECTOR_TO_RAW i \<noteq> JRNL_HEADER_SECTOR" "DATA_SECTOR_TO_RAW i \<noteq> JRNL_CONTENT_SECTOR"
    "DATA_SECTOR_TO_RAW i \<noteq> JRNL_USAGE_SECTOR" "DATA_SECTOR_TO_RAW i \<noteq> usage_block i"
    "usage_block i \<noteq> JRNL_HEADER_SECTOR" "usage_block i \<noteq> JRNL_CONTENT_SECTOR" "usage_block i \<noteq> JRNL_USAGE_SECTOR"
  using find_sector_less [OF assms] by (simp_all add: sector_defs layout usage_block_def)

lemma raw_inject [simp]: "DATA_SECTOR_TO_RAW i = DATA_SECTOR_TO_RAW j \<longleftrightarrow> i = j"
  by (simp add: sector_defs)

lemma raw_neq_bitmap: "s < USAGE_BITMAP_SECTOR_SIZE \<Longrightarrow> DATA_SECTOR_TO_RAW i \<noteq> USAGE_BITMAP_START_SECTOR + s"
  by (simp add: sector_defs layout)

lemma raw_not_journal [simp]:
  "DATA_SECTOR_TO_RAW i \<noteq> JRNL_HEADER_SECTOR" "DATA_SECTOR_TO_RAW i \<noteq> JRNL_CONTENT_SECTOR" "DATA_SECTOR_TO_RAW i \<noteq> JRNL_USAGE_SECTOR"
  by (simp_all add: sector_defs layout)

lemma in_progress_upd:
  "in_progress blk0 jtype i c0 blk' \<Longrightarrow> i < USAGE_BITMAP_TOTAL_BITS \<Longrightarrow> k = DATA_SECTOR_TO_RAW i \<or> k = usage_block i \<Longrightarrow>
   in_progress blk0 jtype i c0 (blk'(k := b))"
proof -
  assume p: "in_progress blk0 jtype i c0 blk'" and i: "i < USAGE_BITMAP_TOTAL_BITS"
    and k: "k = DATA_SECTOR_TO_RAW i \<or> k = usage_block i"
  then have "k \<noteq> JRNL_HEADER_SECTOR" "k \<noteq> JRNL_CONTENT_SECTOR" "k \<noteq> JRNL_USAGE_SECTOR"
    using raw_not_meta [OF i] by metis+
  then show ?thesis using p k by (simp add: in_progress_def journal_active_def elsewhere_same_def) blast
qed

context reliable_store begin

text \<open>Start-up brings every such state back to the old or the new data.\<close>

lemma recover_txn:
  assumes d: "ok d" and cap: "DATA_SECTOR_TO_RAW i < capacity S d" and i: "i < USAGE_BITMAP_TOTAL_BITS"
    and ty: "jtype = JRNL_CONTACT \<or> jtype = JRNL_MESSAGE" and t: "txn blk0 jtype i c0 New (blk d)"
    and v: "sector_crc_valid c0" "sector_crc_valid (blk0 (usage_block i))"
    and init: "journal_init S d j = (r, j', d')"
  shows "r \<and> ok d' \<and> capacity S d' = capacity S d \<and> journal_idle (blk d') \<and>
    (same_data blk0 (blk d') \<or> same_data (blk0(DATA_SECTOR_TO_RAW i := c0)) (blk d') \<or> New (blk d'))"
proof -
  have cap1: "JRNL_HEADER_SECTOR < capacity S d" using cap by (simp add: sector_defs layout)
  show ?thesis
  proof (cases "journal_idle (blk d)")
    case True
    then have "d' = d" "r" using recover_idle [OF d cap1 True, of j] init by auto
    moreover have "same_data blk0 (blk d) \<or> New (blk d)"
      using t True by (auto simp: txn_def in_progress_def journal_active_def journal_idle_def)
    ultimately show ?thesis using True d by blast
  next
    case False
    then have p: "in_progress blk0 jtype i c0 (blk d)" using t by (auto simp: txn_def)
    then have a: "journal_active (blk d) jtype i" by (simp add: in_progress_def)
    have r: "r \<and> ok d' \<and> capacity S d' = capacity S d \<and> blk d' = rolled_back (blk d) i"
      by (rule recover_active [OF d cap i a ty _ _ init]) (use p v in \<open>simp_all add: in_progress_def\<close>)
    have "length (blk d JRNL_HEADER_SECTOR) = SECTOR_SIZE" by (rule blk_length [OF d cap1])
    then have "journal_idle (blk d')" using r a rolled_back_idle by simp
    moreover have "same_data (blk0(DATA_SECTOR_TO_RAW i := c0)) (rolled_back (blk d) i)"
      using p raw_not_meta [OF i] by (simp add: same_data_def rolled_back_def in_progress_def elsewhere_same_def
          flip: usage_block_def)
    ultimately show ?thesis using r by simp
  qed
qed

end

subsection \<open>The steps of a journalled change\<close>

context block_store begin

lemma pers_okD:
  assumes "pers_ok S ok blk p"
  shows "ok (dev p)" "bitmap_synced (blk (dev p)) (usage_bitmap p)" "journal_idle (blk (dev p))"
    "i < TOTAL_DATABASE_SECTOR_SIZE \<Longrightarrow> DATA_SECTOR_TO_RAW i < capacity S (dev p)"
    "k < DATA_REGION_START_SECTOR \<Longrightarrow> k < capacity S (dev p)"
  using assms by (simp_all add: pers_ok_def sector_defs layout)

text \<open>The part every journalled write shares: the journal is filled and the usage bit updated.\<close>

lemma journal_add_in_progress:
  assumes p: "pers_ok S ok blk p" and i: "i < USAGE_BITMAP_TOTAL_BITS"
    and ty: "jtype = JRNL_CONTACT \<or> jtype = JRNL_MESSAGE" and c: "length c = SECTOR_SIZE"
    and add: "journal_add S p jtype i c = (r, c', p')"
  shows "ok (dev p') \<and> capacity S (dev p') = capacity S (dev p) \<and> usage_bitmap p' = usage_bitmap p \<and>
    bitmap_synced (blk (dev p')) (usage_bitmap p') \<and>
    journal_header_wf (j_header (journal p')) \<and> jh_magic (j_header (journal p')) = JRNL_MAGIC \<and>
    (r \<and> c' = sector_crc_stamp c \<and> in_progress (blk (dev p)) jtype i (sector_crc_stamp c) (blk (dev p')) \<and>
        same_data (blk (dev p)) (blk (dev p')) \<or>
     \<not> r \<and> journal_idle (blk (dev p')) \<and> same_data (blk (dev p)) (blk (dev p')))"
proof -
  note pd = pers_okD [OF p]
  note st = journal_add_step [OF pd(1,2) i ty c add]
  have i16: "i < 65536" "jtype < 256" using i ty by (auto simp: layout)
  note ab = active_block_wf [OF i16(2,1)]
  have us: "blk (dev p) (usage_block i) = words_bytes (bitmap_sector (usage_bitmap p) (USAGE_BITMAP_FIND_SECTOR i))"
    using pd(2) find_sector_less [OF i] by (simp add: bitmap_synced_def usage_block_def)
  have same: "same_data (blk (dev p)) (blk (dev p'))" using st by (auto simp: same_data_def)
  then have "bitmap_synced (blk (dev p')) (usage_bitmap p)" using pd(2) synced_same_data by blast
  moreover have "in_progress (blk (dev p)) jtype i (sector_crc_stamp c) (blk (dev p'))" if r
    using st that ab(3) us by (auto simp: in_progress_def elsewhere_same_def layout)
  moreover have "journal_idle (blk (dev p'))" if "\<not> r"
  proof -
    have "blk (dev p') JRNL_HEADER_SECTOR = blk (dev p) JRNL_HEADER_SECTOR" using st that by (auto simp: layout)
    then show ?thesis using pd(3) by (simp add: journal_idle_def)
  qed
  moreover have "journal_header_wf (journal_data_init journal_header_zero jtype i)"
    using i16 by (simp add: journal_header_wf_def journal_data_init_def journal_header_zero_def)
  ultimately show ?thesis using st same by (auto simp: journal_data_init_def)
qed

lemma update_usage_bit_in_progress:
  assumes d: "ok d" and bm: "bitmap_synced (blk d) bm" and i: "i < USAGE_BITMAP_TOTAL_BITS"
    and pr: "in_progress blk0 jtype i c0 (blk d)"
    and u: "update_usage_bit S d bm i v = (r, d', bm')"
  shows "ok d' \<and> capacity S d' = capacity S d \<and> in_progress blk0 jtype i c0 (blk d') \<and> bitmap_synced (blk d') bm' \<and>
    (strg_true r \<and> (\<forall>j. used bm' j = (if j = i then v else used bm j)) \<or> \<not> strg_true r) \<and>
    (\<forall>k. k \<noteq> usage_block i \<longrightarrow> blk d' k = blk d k)"
proof -
  note st = update_usage_bit_step [OF d bm i u]
  have "blk d' = (blk d)(usage_block i := blk d' (usage_block i))"
    using st by (auto simp: usage_block_def fun_eq_iff)
  then have "in_progress blk0 jtype i c0 (blk d')" using in_progress_upd [OF pr i] by metis
  then show ?thesis using st by (auto simp: usage_block_def)
qed

text \<open>Committing: the header is written once or twice; the change is complete after the first.\<close>

lemma journal_free_completes:
  assumes d: "ok d" and wf: "journal_header_wf (j_header j)" "jh_magic (j_header j) = JRNL_MAGIC"
    and f: "journal_free S d j = (r, j', d')"
  shows "ok d' \<and> capacity S d' = capacity S d \<and> journal_header_wf (j_header j') \<and> jh_magic (j_header j') = JRNL_MAGIC \<and>
    (strg_true r \<and> journal_idle (blk d') \<or> \<not> strg_true r \<and> blk d' = blk d) \<and>
    (\<forall>k. k \<noteq> JRNL_HEADER_SECTOR \<longrightarrow> blk d' k = blk d k)"
proof -
  note st = journal_free_cases [OF d wf(1) f]
  let ?h = "(j_header j)\<lparr>jh_state := JRNL_COMMITTED\<rparr>"
  have hwf: "journal_header_wf ?h" using wf(1) by (simp add: journal_header_wf_def)
  note l = length_journal_header_bytes [OF hwf]
  have "journal_idle ((blk d)(JRNL_HEADER_SECTOR := sector_crc_stamp (journal_header_bytes ?h)))"
    using l journal_header_of_stamp [OF l] journal_header_of_bytes [OF hwf] wf(2) by (simp add: journal_idle_def)
  then show ?thesis using st wf by auto
qed

end

lemma to_u16_raw: "s < TOTAL_DATABASE_SECTOR_SIZE \<Longrightarrow> to_u16 (DATA_SECTOR_TO_RAW s) = DATA_SECTOR_TO_RAW s"
  "s < TOTAL_CONTACT_SECTOR_SIZE \<Longrightarrow> to_u16 (DATA_SECTOR_TO_RAW s) = DATA_SECTOR_TO_RAW s"
  by (simp_all add: sector_defs layout)

context block_store begin

lemma write_raw_step:
  assumes "ok d" and "length b = SECTOR_SIZE" and "i < USAGE_BITMAP_TOTAL_BITS"
    and "write_sector S d (DATA_SECTOR_TO_RAW i) b = (r, b', d')" and "bitmap_synced (blk d) bm"
  shows "ok d' \<and> capacity S d' = capacity S d \<and> b' = sector_crc_stamp b \<and> bitmap_synced (blk d') bm \<and>
    (strg_true r \<and> blk d' = (blk d)(DATA_SECTOR_TO_RAW i := sector_crc_stamp b) \<or> \<not> strg_true r \<and> blk d' = blk d)"
proof -
  have "to_u16 (DATA_SECTOR_TO_RAW i) = DATA_SECTOR_TO_RAW i"
    using assms(3) by (simp add: sector_defs layout)
  then have st: "ok d' \<and> capacity S d' = capacity S d \<and> b' = sector_crc_stamp b \<and> r \<in> {STRG_OK, STRG_FAIL} \<and>
      blk d' = (if r = STRG_OK then (blk d)(DATA_SECTOR_TO_RAW i := sector_crc_stamp b) else blk d)"
    using write_sector_step [OF assms(1,2,4)] by simp
  have "bitmap_synced ((blk d)(DATA_SECTOR_TO_RAW i := sector_crc_stamp b)) bm"
    using assms(5) raw_neq_bitmap [of _ i] by (simp add: bitmap_synced_def) (metis raw_neq_bitmap)
  then show ?thesis using st assms(5) by auto
qed

end

subsection \<open>On a store whose accesses in range succeed, no step fails\<close>

lemma elsewhere_raw:
  assumes "elsewhere_same i blk blk'" and "i < USAGE_BITMAP_TOTAL_BITS" and "k \<noteq> i"
  shows "blk' (DATA_SECTOR_TO_RAW k) = blk (DATA_SECTOR_TO_RAW k)"
proof -
  have "DATA_SECTOR_TO_RAW k \<noteq> usage_block i"
    using raw_neq_bitmap [OF find_sector_less [OF assms(2)]] by (simp add: usage_block_def)
  then show ?thesis using assms(1,3) by (simp add: elsewhere_same_def)
qed

lemma same_data_raw:
  "same_data blk blk' \<Longrightarrow> blk' (DATA_SECTOR_TO_RAW k) = blk (DATA_SECTOR_TO_RAW k)"
  by (simp add: same_data_def)

context reliable_store begin

lemma write_sector_reliable:
  "ok d \<Longrightarrow> i < capacity S d \<Longrightarrow> i < 65536 \<Longrightarrow> length b = SECTOR_SIZE \<Longrightarrow> fst (write_sector S d i b) = STRG_OK"
  by (metis fst_conv write_sector_in_range)

lemma journal_add_reliable:
  assumes p: "pers_ok S ok blk p" and i: "i < USAGE_BITMAP_TOTAL_BITS"
    and ty: "jtype = JRNL_CONTACT \<or> jtype = JRNL_MESSAGE" and c: "length c = SECTOR_SIZE"
  shows "fst (journal_add S p jtype i c)"
proof -
  let ?h = "journal_data_init journal_header_zero jtype i"
  let ?u = "words_bytes (bitmap_sector (usage_bitmap p) (USAGE_BITMAP_FIND_SECTOR i))"
  note pd = pers_okD [OF p]
  have cap: "12 \<le> capacity S (dev p)" using p by (simp add: pers_ok_def layout)
  have "length (usage_bitmap p) = USAGE_BITMAP_STORAGE_SIZE" using pd(2) by (simp add: bitmap_synced_def)
  then have lu: "length ?u = SECTOR_SIZE" by (rule sector_bytes_len [OF _ find_sector_less [OF i]])
  have i16: "i < 65536" using i by (simp add: layout)
  have "journal_header_wf ?h"
    using ty i16 by (auto simp: journal_header_wf_def journal_data_init_def journal_header_zero_def)
  note lh = length_journal_header_bytes [OF this]
  have nr: "jh_type ?h \<noteq> JRNL_REMOVE" using ty by (auto simp: journal_data_init_def)
  have J: "JRNL_USAGE_SECTOR < 12" "JRNL_CONTENT_SECTOR < 12" "JRNL_HEADER_SECTOR < 12" by (simp_all add: layout)
  obtain b1 d1 where w1: "write_sector S (dev p) JRNL_USAGE_SECTOR ?u = (STRG_OK, b1, d1)"
      and d1: "ok d1" "capacity S d1 = capacity S (dev p)"
    by (rule write_sector_in_range [OF pd(1) _ _ lu, of JRNL_USAGE_SECTOR]) (use J cap in auto)
  obtain b2 d2 where w2: "write_sector S d1 JRNL_CONTENT_SECTOR c = (STRG_OK, b2, d2)"
      and d2: "ok d2" "capacity S d2 = capacity S (dev p)"
    by (rule write_sector_in_range [OF d1(1) _ _ c, of JRNL_CONTENT_SECTOR]) (use J cap d1 in auto)
  obtain b3 d3 where w3: "write_sector S d2 JRNL_HEADER_SECTOR (journal_header_bytes ?h) = (STRG_OK, b3, d3)"
    by (rule write_sector_in_range [OF d2(1) _ _ lh, of JRNL_HEADER_SECTOR]) (use J cap d2 in auto)
  show ?thesis using ty nr w1 w2 w3
    by (auto simp: journal_add_def journal_write_def journal_write_sector_def tracks_usage_def Let_def)
qed

lemma update_usage_bit_reliable:
  assumes d: "ok d" and bm: "bitmap_synced (blk d) bm" and i: "i < USAGE_BITMAP_TOTAL_BITS"
    and cap: "DATA_REGION_START_SECTOR \<le> capacity S d"
  shows "fst (update_usage_bit S d bm i v) = STRG_OK"
proof -
  let ?s = "USAGE_BITMAP_FIND_SECTOR i"
  let ?bm1 = "stamp_bitmap_sector ?s (put_usage_bit (bit_word i) (USAGE_BITMAP_FIND_BIT i) v bm)"
  note s = find_sector_less [OF i]
  have lb: "length (put_usage_bit (bit_word i) (USAGE_BITMAP_FIND_BIT i) v bm) = USAGE_BITMAP_STORAGE_SIZE"
    using bm by (simp add: bitmap_synced_def)
  have "fst (write_block S d (USAGE_BITMAP_START_SECTOR + ?s) (words_bytes (bitmap_sector ?bm1 ?s)))"
    using s cap by (intro write_in_range [OF d] sector_bytes_len stamp_sector(1) lb) (simp_all add: layout)
  then show ?thesis by (auto simp: update_usage_bit_def bit_word_def Let_def split: prod.splits)
qed

lemma journal_free_reliable:
  assumes "ok d" and "JRNL_HEADER_SECTOR < capacity S d" and "journal_header_wf (j_header j)"
  shows "fst (journal_free S d j) = STRG_OK"
proof -
  let ?h = "(j_header j)\<lparr>jh_state := JRNL_COMMITTED\<rparr>"
  have "journal_header_wf ?h" using assms(3) by (simp add: journal_header_wf_def)
  from write_sector_reliable [OF assms(1,2) _ length_journal_header_bytes [OF this]]
  show ?thesis by (auto simp: journal_free_def journal_write_sector_def layout split: prod.splits)
qed

end

end
