(* ===== verification/Free_List.thy ===== *)
theory Free_List
  imports Storage
begin

text \<open>
  The free list stack of \<^verbatim>\<open>source/app/src/free_list_stack.c\<close>: an array of free sector
  indices with its top, the capacity and the count of used entries.  The 16-bit loop counter of
  the initialisation never reaches a bound above 65535, so the filling loop is a
  \<open>partial_function\<close>: \<open>None\<close> is a loop that does not end.

  The locale \<open>slot_allocator\<close> is the contract the record stores rely on; the free list
  interprets it.
\<close>

record FreeList =
  free_stack :: "nat list"
  stack_top :: nat
  fl_capacity :: nat
  used_count :: nat

partial_function (option) free_list_fill :: "nat \<Rightarrow> nat \<Rightarrow> nat list \<Rightarrow> nat list option" where
  "free_list_fill i nsec stack =
     (if i < nsec then free_list_fill (to_u16 (i + 1)) nsec (stack[i := i]) else Some stack)"

definition free_list_init :: "nat list \<Rightarrow> nat \<Rightarrow> (bool \<times> FreeList option) option" where
  "free_list_init stack total_sectors =
     (if total_sectors = 0 then Some (False, None)
      else map_option (\<lambda>st. (True, Some \<lparr>free_stack = st, stack_top = total_sectors,
                             fl_capacity = total_sectors, used_count = 0\<rparr>))
             (free_list_fill 0 total_sectors stack))"

definition free_list_empty_init :: "nat list \<Rightarrow> nat \<Rightarrow> FreeList option" where
  "free_list_empty_init stack total_sectors =
     (if total_sectors = 0 then None
      else Some \<lparr>free_stack = stack, stack_top = 0, fl_capacity = total_sectors, used_count = total_sectors\<rparr>)"

definition free_list_allocate :: "FreeList \<Rightarrow> nat \<times> FreeList" where
  "free_list_allocate self =
     (if stack_top self = 0 then (UINT16_MAX, self)
      else (free_stack self ! (stack_top self - 1),
            self\<lparr>stack_top := stack_top self - 1, used_count := used_count self + 1\<rparr>))"

definition free_list_free :: "FreeList \<Rightarrow> nat \<Rightarrow> FreeList" where
  "free_list_free self sector =
     (if stack_top self \<ge> fl_capacity self then self
      else self\<lparr>free_stack := (free_stack self)[stack_top self := sector],
                stack_top := stack_top self + 1,
                used_count := if used_count self > 0 then used_count self - 1 else used_count self\<rparr>)"

function free_list_free_range :: "FreeList \<Rightarrow> nat \<Rightarrow> nat \<Rightarrow> FreeList" where
  "free_list_free_range self i endIndex =
     (if i < endIndex then
        if i \<ge> fl_capacity self then self
        else free_list_free_range (free_list_free self i) (i + 1) endIndex
      else self)"
  by pat_completeness auto
termination
  by (relation "measure (\<lambda>(self, i, endIndex). endIndex - i)") auto

declare free_list_free_range.simps [simp del]

definition free_list_free_sector_range :: "FreeList \<Rightarrow> nat \<Rightarrow> nat \<Rightarrow> FreeList" where
  "free_list_free_sector_range self startSector endSector =
     free_list_free_range self (to_u16 (startSector * CONTACT_SECTOR_CAPACITY))
       (to_u16 (endSector * CONTACT_SECTOR_CAPACITY))"

definition free_list_available :: "FreeList \<Rightarrow> nat" where
  "free_list_available self = stack_top self"

definition free_list_used :: "FreeList \<Rightarrow> nat" where
  "free_list_used self = used_count self"

definition free_list_reset :: "FreeList \<Rightarrow> FreeList option" where
  "free_list_reset self =
     map_option (\<lambda>st. self\<lparr>free_stack := st, stack_top := fl_capacity self, used_count := 0\<rparr>)
       (free_list_fill 0 (fl_capacity self) (free_stack self))"

subsection \<open>The filling loop\<close>

lemma free_list_fill_from:
  assumes "nsec \<le> 65535" and "nsec \<le> length st" and "i \<le> nsec" and "take i st = [0..<i]"
  shows "free_list_fill i nsec st = Some ([0..<nsec] @ drop nsec st)"
  using assms(2-4)
proof (induction "nsec - i" arbitrary: i st)
  case 0
  then have i: "i = nsec" by simp
  have "st = [0..<nsec] @ drop nsec st"
    using 0 i append_take_drop_id [of nsec st] by simp
  then show ?case using i by (subst free_list_fill.simps) simp
next
  case (Suc n)
  then have i: "i < nsec" by simp
  have "take (Suc i) (st[i := i]) = [0..<Suc i]"
    using Suc.prems i by (simp add: take_Suc_conv_app_nth)
  then have "free_list_fill (Suc i) nsec (st[i := i]) = Some ([0..<nsec] @ drop nsec (st[i := i]))"
    using Suc.hyps(2) Suc.prems i by (intro Suc.hyps(1)) auto
  moreover have "to_u16 (i + 1) = Suc i" using i assms(1) by simp
  ultimately show ?case using i by (subst free_list_fill.simps) simp
qed

lemma free_list_fill_total:
  "nsec \<le> 65535 \<Longrightarrow> nsec \<le> length st \<Longrightarrow> free_list_fill 0 nsec st = Some ([0..<nsec] @ drop nsec st)"
  by (rule free_list_fill_from) simp_all

lemma free_list_fill_diverges:
  assumes "nsec > 65535"
  shows "i \<le> 65535 \<Longrightarrow> free_list_fill i nsec st = None"
proof (rule ccontr)
  assume i: "i \<le> 65535" and "free_list_fill i nsec st \<noteq> None"
  then obtain r where r: "free_list_fill i nsec st = Some r" by blast
  have "i \<le> 65535 \<longrightarrow> nsec > 65535 \<longrightarrow> False"
  proof (rule free_list_fill.raw_induct [where P = "\<lambda>i nsec st r. i \<le> 65535 \<longrightarrow> nsec > 65535 \<longrightarrow> False", OF _ r])
    fix f i nsec st r
    assume IH: "\<And>i nsec st r. f i nsec st = Some r \<Longrightarrow> i \<le> 65535 \<longrightarrow> nsec > 65535 \<longrightarrow> False"
      and eq: "(if i < nsec then f (to_u16 (i + 1)) nsec (st[i := i]) else Some st) = Some r"
    have "to_u16 (i + 1) \<le> 65535" using to_u16_less [of "i + 1"] by linarith
    then show "i \<le> 65535 \<longrightarrow> nsec > 65535 \<longrightarrow> False"
      using IH eq by (auto split: if_splits)
  qed
  then show False using i assms by simp
qed

subsection \<open>Invariant and abstraction\<close>

definition avail :: "FreeList \<Rightarrow> nat set" where
  "avail fl = set (take (stack_top fl) (free_stack fl))"

definition free_list_inv :: "FreeList \<Rightarrow> bool" where
  "free_list_inv fl \<longleftrightarrow>
     stack_top fl \<le> fl_capacity fl \<and> fl_capacity fl \<le> length (free_stack fl) \<and> fl_capacity fl \<le> 65535 \<and>
     distinct (take (stack_top fl) (free_stack fl)) \<and> avail fl \<subseteq> {..<fl_capacity fl} \<and>
     used_count fl + stack_top fl = fl_capacity fl"

lemma card_avail: "free_list_inv fl \<Longrightarrow> Finite_Set.card (avail fl) = stack_top fl"
  by (simp add: free_list_inv_def avail_def distinct_card)

lemma avail_full_iff: "free_list_inv fl \<Longrightarrow> s < fl_capacity fl \<Longrightarrow> s \<notin> avail fl \<Longrightarrow> stack_top fl < fl_capacity fl"
proof (rule ccontr)
  assume inv: "free_list_inv fl" and s: "s < fl_capacity fl" "s \<notin> avail fl"
    and "\<not> stack_top fl < fl_capacity fl"
  then have "Finite_Set.card (avail fl) = Finite_Set.card {..<fl_capacity fl}"
    using card_avail [OF inv] by (simp add: free_list_inv_def)
  then have "avail fl = {..<fl_capacity fl}"
    using inv by (intro card_subset_eq) (simp_all add: free_list_inv_def)
  then show False using s by simp
qed

lemma take_top: "n > 0 \<Longrightarrow> n \<le> length xs \<Longrightarrow> take n xs = take (n - 1) xs @ [xs ! (n - 1)]"
  by (cases n) (simp_all add: take_Suc_conv_app_nth)

lemma free_list_allocate_some:
  assumes "free_list_inv fl" and "avail fl \<noteq> {}" and "free_list_allocate fl = (s, fl')"
  shows "s \<in> avail fl \<and> avail fl' = avail fl - {s} \<and> free_list_inv fl' \<and> fl_capacity fl' = fl_capacity fl"
proof -
  have top: "stack_top fl > 0" using assms(2) by (auto simp: avail_def)
  have len: "stack_top fl \<le> length (free_stack fl)" using assms(1) by (simp add: free_list_inv_def)
  note split = take_top [OF top len]
  have s: "s = free_stack fl ! (stack_top fl - 1)"
    and fl': "fl' = fl\<lparr>stack_top := stack_top fl - 1, used_count := used_count fl + 1\<rparr>"
    using assms(3) top by (auto simp: free_list_allocate_def)
  have d: "distinct (take (stack_top fl - 1) (free_stack fl))" "s \<notin> set (take (stack_top fl - 1) (free_stack fl))"
    using assms(1) split s by (auto simp: free_list_inv_def)
  have "avail fl = insert s (avail fl')" "s \<notin> avail fl'"
    using split s d(2) by (auto simp: avail_def fl')
  then show ?thesis using assms(1) top d by (auto simp: free_list_inv_def fl')
qed

lemma free_list_allocate_none:
  "free_list_inv fl \<Longrightarrow> avail fl = {} \<Longrightarrow> free_list_allocate fl = (UINT16_MAX, fl)"
  by (auto simp: avail_def free_list_allocate_def free_list_inv_def)

lemma free_list_free_step:
  assumes "free_list_inv fl" and "s < fl_capacity fl" and "s \<notin> avail fl"
  shows "free_list_inv (free_list_free fl s) \<and> avail (free_list_free fl s) = insert s (avail fl) \<and>
         fl_capacity (free_list_free fl s) = fl_capacity fl"
proof -
  have top: "stack_top fl < fl_capacity fl" by (rule avail_full_iff [OF assms])
  have "take (Suc (stack_top fl)) ((free_stack fl)[stack_top fl := s]) = take (stack_top fl) (free_stack fl) @ [s]"
    using assms(1) top by (simp add: free_list_inv_def take_Suc_conv_app_nth)
  then show ?thesis using assms top
    by (auto simp: free_list_free_def avail_def free_list_inv_def)
qed

lemma free_list_free_range_inv:
  assumes "free_list_inv fl" and "\<forall>s. i \<le> s \<and> s < e \<longrightarrow> s \<notin> avail fl"
  shows "free_list_inv (free_list_free_range fl i e) \<and>
         avail (free_list_free_range fl i e) = avail fl \<union> {s. i \<le> s \<and> s < e \<and> s < fl_capacity fl} \<and>
         fl_capacity (free_list_free_range fl i e) = fl_capacity fl"
  using assms
proof (induction fl i e rule: free_list_free_range.induct)
  case (1 fl i e)
  show ?case
  proof (cases "i < e \<and> i < fl_capacity fl")
    case True
    then have f: "free_list_inv (free_list_free fl i)" "avail (free_list_free fl i) = insert i (avail fl)"
      "fl_capacity (free_list_free fl i) = fl_capacity fl"
      using free_list_free_step [of fl i] "1.prems" by auto
    have "free_list_free_range fl i e = free_list_free_range (free_list_free fl i) (i + 1) e"
      using True by (simp add: free_list_free_range.simps [of fl i e])
    moreover have "{s. i \<le> s \<and> s < e \<and> s < fl_capacity fl} = insert i {s. i + 1 \<le> s \<and> s < e \<and> s < fl_capacity fl}"
      using True by auto
    ultimately show ?thesis using "1.IH" True f "1.prems"(2) by auto
  next
    case False
    then have "free_list_free_range fl i e = fl" by (auto simp: free_list_free_range.simps [of fl i e])
    then show ?thesis using False "1.prems"(1) by auto
  qed
qed

lemma free_list_empty_init_inv:
  "free_list_empty_init st n = Some fl \<Longrightarrow> n \<le> 65535 \<Longrightarrow> n \<le> length st \<Longrightarrow>
   free_list_inv fl \<and> avail fl = {} \<and> fl_capacity fl = n"
  by (auto simp: free_list_empty_init_def free_list_inv_def avail_def split: if_splits)

lemma free_list_full:
  assumes "fl_capacity fl \<le> 65535" and "take (fl_capacity fl) (free_stack fl) = [0..<fl_capacity fl]"
    and "stack_top fl = fl_capacity fl" and "used_count fl = 0"
  shows "free_list_inv fl \<and> avail fl = {..<fl_capacity fl}"
proof -
  have "length (take (fl_capacity fl) (free_stack fl)) = fl_capacity fl" by (simp only: assms(2)) simp
  then have "fl_capacity fl \<le> length (free_stack fl)" by simp
  then show ?thesis using assms by (auto simp: free_list_inv_def avail_def)
qed

lemma free_list_init_full:
  assumes "0 < n" and "n \<le> 65535" and "n \<le> length st"
  shows "\<exists>fl. free_list_init st n = Some (True, Some fl) \<and> free_list_inv fl \<and> avail fl = {..<n} \<and> fl_capacity fl = n"
  using assms free_list_full [of "\<lparr>free_stack = [0..<n] @ drop n st, stack_top = n, fl_capacity = n, used_count = 0\<rparr>"]
  by (simp add: free_list_init_def free_list_fill_total)

lemma free_list_reset_full:
  assumes "free_list_inv fl"
  shows "\<exists>fl'. free_list_reset fl = Some fl' \<and> free_list_inv fl' \<and> avail fl' = {..<fl_capacity fl} \<and>
               fl_capacity fl' = fl_capacity fl"
  using assms free_list_full [of "fl\<lparr>free_stack := [0..<fl_capacity fl] @ drop (fl_capacity fl) (free_stack fl),
     stack_top := fl_capacity fl, used_count := 0\<rparr>"]
  by (simp add: free_list_reset_def free_list_fill_total free_list_inv_def)

subsection \<open>The allocator contract\<close>

locale slot_allocator =
  fixes alloc :: "'a \<Rightarrow> nat \<times> 'a"
    and dealloc :: "'a \<Rightarrow> nat \<Rightarrow> 'a"
    and free_slots :: "'a \<Rightarrow> nat set"
    and slots :: "'a \<Rightarrow> nat"
    and inv :: "'a \<Rightarrow> bool"
  assumes alloc_some: "inv a \<Longrightarrow> free_slots a \<noteq> {} \<Longrightarrow> alloc a = (s, a') \<Longrightarrow>
      s \<in> free_slots a \<and> free_slots a' = free_slots a - {s} \<and> inv a' \<and> slots a' = slots a"
    and alloc_none: "inv a \<Longrightarrow> free_slots a = {} \<Longrightarrow> alloc a = (UINT16_MAX, a)"
    and dealloc_step: "inv a \<Longrightarrow> s < slots a \<Longrightarrow> s \<notin> free_slots a \<Longrightarrow>
      inv (dealloc a s) \<and> free_slots (dealloc a s) = insert s (free_slots a) \<and> slots (dealloc a s) = slots a"
    and free_bound: "inv a \<Longrightarrow> free_slots a \<subseteq> {..<slots a}"
    and slots_bound: "inv a \<Longrightarrow> slots a \<le> UINT16_MAX"
begin

lemma alloc_cases:
  assumes "inv a" and "alloc a = (s, a')"
  shows "s = UINT16_MAX \<and> a' = a \<and> free_slots a = {} \<or>
         s < slots a \<and> s \<in> free_slots a \<and> free_slots a' = free_slots a - {s} \<and> inv a' \<and> slots a' = slots a"
  using assms alloc_none [of a] alloc_some [of a s a'] free_bound [of a] by (cases "free_slots a = {}") auto

lemma alloc_not_max: "inv a \<Longrightarrow> alloc a = (s, a') \<Longrightarrow> s \<noteq> UINT16_MAX \<Longrightarrow> s < slots a \<and> s \<in> free_slots a"
  by (auto dest: alloc_cases)

text \<open>A slot in use is never handed out, and the slots in use stay disjoint from the free ones.\<close>

lemma alloc_fresh:
  assumes "inv a" and "alloc a = (s, a')" and "s \<noteq> UINT16_MAX" and "used \<inter> free_slots a = {}"
  shows "s \<notin> used \<and> insert s used \<inter> free_slots a' = {} \<and> inv a'"
  using assms alloc_cases [OF assms(1,2)] by auto

lemma alloc_dealloc:
  assumes "inv a" and "alloc a = (s, a')" and "s \<noteq> UINT16_MAX"
  shows "inv (dealloc a' s) \<and> free_slots (dealloc a' s) = free_slots a"
  using assms alloc_cases [OF assms(1,2)] dealloc_step [of a' s] by auto

end

interpretation fls: slot_allocator free_list_allocate free_list_free avail fl_capacity free_list_inv
proof
  fix a s a' assume "free_list_inv a" "avail a \<noteq> {}" "free_list_allocate a = (s, a')"
  then show "s \<in> avail a \<and> avail a' = avail a - {s} \<and> free_list_inv a' \<and> fl_capacity a' = fl_capacity a"
    by (rule free_list_allocate_some)
next
  fix a s assume "free_list_inv a" "s < fl_capacity a" "s \<notin> avail a"
  then show "free_list_inv (free_list_free a s) \<and> avail (free_list_free a s) = insert s (avail a) \<and>
      fl_capacity (free_list_free a s) = fl_capacity a"
    by (rule free_list_free_step)
qed (simp_all add: free_list_allocate_none free_list_inv_def)

end
