(* ===== verification/Contact.thy ===== *)
theory Contact
  imports Transaction Free_List
begin

text \<open>
  Contacts on the card: \<^verbatim>\<open>source/app/src/contact.c\<close>.  A sector holds six 81-byte contact
  records and a byte of per-slot usage bits; slot \<open>index\<close> lives in sector \<open>index div 6\<close>.

  \<^item> \<open>Contact\<close> and \<open>ContactSector\<close> are the packed structs, with their codecs.
  \<^item> \<open>contact_at\<close> is the abstract state, a partial map from slots to contacts; the functional
    lemmas say that \<open>write_contact\<close>, \<open>read_contact\<close> and \<open>remove_contact\<close> update, look up and
    delete in that map and leave the rest of the card alone.
  \<^item> \<open>write_contact_outcome\<close> lists what the operation can leave on a card whose writes fail.
\<close>

subsection \<open>Records and codecs\<close>

record Contact =
  c_name_len :: nat
  c_name :: "byte list"
  c_phone_len :: nat
  c_phone :: "byte list"

definition contact_of :: "byte list \<Rightarrow> Contact" where
  "contact_of b = \<lparr>c_name_len = unat (b ! 0), c_name = slice 1 64 b,
     c_phone_len = unat (b ! 65), c_phone = slice 66 15 b\<rparr>"

definition contact_bytes :: "Contact \<Rightarrow> byte list" where
  "contact_bytes c = [of_nat (c_name_len c)] @ c_name c @ [of_nat (c_phone_len c)] @ c_phone c"

definition contact_wf :: "Contact \<Rightarrow> bool" where
  "contact_wf c \<longleftrightarrow> c_name_len c < 256 \<and> length (c_name c) = 64 \<and> c_phone_len c < 256 \<and> length (c_phone c) = 15"

lemma contact_of_bytes [codec]: "contact_wf c \<Longrightarrow> contact_of (contact_bytes c) = c"
  by (simp add: contact_wf_def contact_of_def contact_bytes_def slice_prefix nth_append unat_byte_of_nat)

lemma contact_bytes_of [codec]: "length b = 81 \<Longrightarrow> contact_bytes (contact_of b) = b"
  by (simp add: contact_of_def contact_bytes_def slice_join slice_cons)

lemma contact_wf_of: "length b = 81 \<Longrightarrow> contact_wf (contact_of b)"
  by (simp add: contact_wf_def contact_of_def)

lemma length_contact_bytes [simp]: "contact_wf c \<Longrightarrow> length (contact_bytes c) = 81"
  by (simp add: contact_bytes_def contact_wf_def)

record ContactSector =
  cs_type :: byte
  cs_used_bitmap :: byte
  cs_contacts :: "Contact list"
  cs_padding :: "byte list"
  cs_crc :: nat

definition contact_sector_of :: "byte list \<Rightarrow> ContactSector" where
  "contact_sector_of b = \<lparr>cs_type = b ! 0, cs_used_bitmap = b ! 1,
     cs_contacts = decode_array 2 CONTACT_RECORD_BYTES CONTACT_SECTOR_CAPACITY contact_of b,
     cs_padding = slice 488 CONTACT_SECTOR_PADDING b, cs_crc = rd32 (slice 508 4 b)\<rparr>"

definition contact_sector_bytes :: "ContactSector \<Rightarrow> byte list" where
  "contact_sector_bytes s = [cs_type s, cs_used_bitmap s] @ concat (map contact_bytes (cs_contacts s)) @
     cs_padding s @ le32 (cs_crc s)"

definition contact_sector_wf :: "ContactSector \<Rightarrow> bool" where
  "contact_sector_wf s \<longleftrightarrow> length (cs_contacts s) = 6 \<and> (\<forall>c \<in> set (cs_contacts s). contact_wf c) \<and>
     length (cs_padding s) = 20 \<and> cs_crc s < 2 ^ 32"

lemma length_contacts_bytes:
  "contact_sector_wf s \<Longrightarrow> length (concat (map contact_bytes (cs_contacts s))) = 486"
  using length_encode_array [of "cs_contacts s" contact_bytes 81] by (simp add: contact_sector_wf_def)

lemma length_contact_sector_bytes [simp]: "contact_sector_wf s \<Longrightarrow> length (contact_sector_bytes s) = 512"
  using length_contacts_bytes [of s] by (simp add: contact_sector_bytes_def contact_sector_wf_def del: length_concat)

lemma contact_sector_of_bytes [codec]:
  assumes "contact_sector_wf s"
  shows "contact_sector_of (contact_sector_bytes s) = s"
proof -
  let ?cs = "concat (map contact_bytes (cs_contacts s))"
  have "decode_array 2 81 6 contact_of ([cs_type s, cs_used_bitmap s] @ ?cs @ cs_padding s @ le32 (cs_crc s)) =
      cs_contacts s"
    using assms by (intro decode_encode_array) (auto simp: contact_sector_wf_def contact_of_bytes)
  then show ?thesis using assms length_contacts_bytes [OF assms]
    by (simp add: contact_sector_of_def contact_sector_bytes_def layout slice_prefix rd32_le32
        contact_sector_wf_def del: length_concat)
qed

lemma contact_sector_bytes_of [codec]:
  assumes "length b = 512"
  shows "contact_sector_bytes (contact_sector_of b) = b"
  using encode_decode_array [of 81 contact_bytes contact_of 2 6 b] assms
  by (simp add: contact_sector_of_def contact_sector_bytes_def layout contact_bytes_of le32_rd32 slice_join slice_cons)

lemma contact_sector_wf_of: "length b = 512 \<Longrightarrow> contact_sector_wf (contact_sector_of b)"
  by (auto simp: contact_sector_wf_def contact_sector_of_def layout rd32_less decode_array_def intro!: contact_wf_of)

subsection \<open>Sector access\<close>

definition read_contact_sector :: "'c Storage \<Rightarrow> 'c \<Rightarrow> nat \<Rightarrow> ContactSector res" where
  "read_contact_sector S d index =
     (let raw_sector_index = to_u16 (index + CONTACT_DATA_START_SECTOR + DATA_REGION_START_SECTOR)
      in case read_sector S d raw_sector_index of Inl ret \<Rightarrow> Inl ret | Inr b \<Rightarrow> Inr (contact_sector_of b))"

definition read_contact_num :: "'c Storage \<Rightarrow> 'c \<Rightarrow> nat \<Rightarrow> nat res" where
  "read_contact_num S d index =
     (case read_contact_sector S d index of Inl ret \<Rightarrow> Inl ret | Inr cSector \<Rightarrow> Inr (popcount (cs_used_bitmap cSector)))"

definition write_contact_sector :: "'c Storage \<Rightarrow> 'c \<Rightarrow> nat \<Rightarrow> ContactSector \<Rightarrow> STRG_RET \<times> ContactSector \<times> 'c" where
  "write_contact_sector S d index cSector =
     (let raw_sector_index = to_u16 (index + CONTACT_DATA_START_SECTOR + DATA_REGION_START_SECTOR);
          (ret, b, d') = write_sector S d raw_sector_index (contact_sector_bytes cSector)
      in (ret, contact_sector_of b, d'))"

subsection \<open>Operations\<close>

definition contact_sector_zero :: ContactSector where
  "contact_sector_zero = contact_sector_of (replicate SECTOR_SIZE 0)"

definition slot_bit :: "nat \<Rightarrow> byte" where "slot_bit pos = push_bit pos 1"

definition write_contact_in :: "'c Storage \<Rightarrow> 'c pers \<Rightarrow> nat \<Rightarrow> Contact \<Rightarrow> ContactSector \<Rightarrow> STRG_RET \<times> 'c pers" where
  "write_contact_in S p index c cSector =
     (let (added, buf, p) = journal_add S p JRNL_CONTACT (CONTACT_DATA_SECTOR index) (contact_sector_bytes cSector);
          cSector = contact_sector_of buf
      in if \<not> added then (STRG_FAIL, p)
         else let (ret, d, bm) = update_usage_bit S (dev p) (usage_bitmap p) (index div CONTACT_SECTOR_CAPACITY) True;
                  p = p\<lparr>dev := d, usage_bitmap := bm\<rparr>
         in if \<not> strg_true ret then (STRG_FAIL, p)
         else let pos = index mod CONTACT_SECTOR_CAPACITY;
                  cSector = cSector\<lparr>cs_used_bitmap := cs_used_bitmap cSector OR slot_bit pos,
                                    cs_contacts := (cs_contacts cSector)[pos := c]\<rparr>;
                  (ret, _, d) = write_contact_sector S (dev p) (index div CONTACT_SECTOR_CAPACITY) cSector;
                  p = p\<lparr>dev := d\<rparr>
         in if \<not> strg_true ret then (STRG_FAIL, p)
         else let (ret, j, d) = journal_free S (dev p) (journal p);
                  p = p\<lparr>dev := d, journal := j\<rparr>
         in if \<not> strg_true ret then (STRG_FAIL, p)
         else let (ret, j, d) = journal_free S (dev p) (journal p);
                  p = p\<lparr>dev := d, journal := j\<rparr>
         in if \<not> strg_true ret then (STRG_FAIL, p) else (STRG_OK, p))"

definition write_contact :: "'c Storage \<Rightarrow> 'c pers \<Rightarrow> nat \<Rightarrow> Contact \<Rightarrow> STRG_RET \<times> 'c pers" where
  "write_contact S p index c =
     (if check_usage_bit (usage_bitmap p) (index div CONTACT_SECTOR_CAPACITY) then
        case read_contact_sector S (dev p) (index div CONTACT_SECTOR_CAPACITY) of
          Inl _ \<Rightarrow> (STRG_FAIL, p)
        | Inr cSector \<Rightarrow> write_contact_in S p index c cSector
      else write_contact_in S p index c contact_sector_zero)"

definition read_contact :: "'c Storage \<Rightarrow> 'c pers \<Rightarrow> nat \<Rightarrow> Contact res" where
  "read_contact S p index =
     (if \<not> check_usage_bit (usage_bitmap p) (index div CONTACT_SECTOR_CAPACITY) then Inl STRG_EMPTY
      else case read_contact_sector S (dev p) (index div CONTACT_SECTOR_CAPACITY) of
        Inl ret \<Rightarrow> Inl ret
      | Inr cSector \<Rightarrow>
          let pos = index mod CONTACT_SECTOR_CAPACITY
          in if cs_used_bitmap cSector AND slot_bit pos = 0 then Inl STRG_EMPTY else Inr (cs_contacts cSector ! pos))"

text \<open>The contacts copied out by the loop, \<open>contact_count\<close> of them so far.\<close>

function read_n_contacts_loop :: "ContactSector \<Rightarrow> int \<Rightarrow> byte \<Rightarrow> int \<Rightarrow> Contact list" where
  "read_n_contacts_loop cSector n cBitmap contact_count =
     (if cBitmap \<noteq> 0 then
        if contact_count \<ge> n then []
        else cs_contacts cSector ! ctz cBitmap #
             read_n_contacts_loop cSector n (clear_lowest cBitmap) (contact_count + 1)
      else [])"
  by pat_completeness auto
termination by (relation "measure (\<lambda>(_, _, w, _). length (set_bits_of w))") (auto simp: set_bits_of_clear_lowest)

declare read_n_contacts_loop.simps [simp del]

definition read_n_contacts_in_sector :: "ContactSector \<Rightarrow> int \<Rightarrow> Contact list" where
  "read_n_contacts_in_sector cSector n = read_n_contacts_loop cSector n (cs_used_bitmap cSector) 0"

definition remove_contact ::
    "'c Storage \<Rightarrow> 'c pers \<Rightarrow> FreeList \<Rightarrow> nat \<Rightarrow> bool \<times> Contact option \<times> 'c pers \<times> FreeList" where
  "remove_contact S p fls index =
     (if \<not> check_usage_bit (usage_bitmap p) (index div CONTACT_SECTOR_CAPACITY) then (False, None, p, fls)
      else case read_contact_sector S (dev p) (index div CONTACT_SECTOR_CAPACITY) of
        Inl _ \<Rightarrow> (False, None, p, fls)
      | Inr cSector \<Rightarrow>
         let (added, buf, p) = journal_add S p JRNL_CONTACT (CONTACT_DATA_SECTOR index) (contact_sector_bytes cSector);
             cSector = contact_sector_of buf;
             pos = index mod CONTACT_SECTOR_CAPACITY
         in if \<not> added then (False, None, p, fls)
         else if cs_used_bitmap cSector AND slot_bit pos = 0 then (False, None, p, fls)
         else let out = Some (cs_contacts cSector ! pos);
                  cSector = cSector\<lparr>cs_used_bitmap := cs_used_bitmap cSector AND NOT (slot_bit pos)\<rparr>;
                  (written, p) =
                    (if cs_used_bitmap cSector = 0 then
                       let (ret, d, bm) = update_usage_bit S (dev p) (usage_bitmap p) (index div CONTACT_SECTOR_CAPACITY) False
                       in (strg_true ret, p\<lparr>dev := d, usage_bitmap := bm\<rparr>)
                     else
                       let (ret, _, d) = write_contact_sector S (dev p) (index div CONTACT_SECTOR_CAPACITY) cSector
                       in (strg_true ret, p\<lparr>dev := d\<rparr>))
         in if \<not> written then (False, out, p, fls)
         else let (ret, j, d) = journal_free S (dev p) (journal p);
                  p = p\<lparr>dev := d, journal := j\<rparr>
         in if \<not> strg_true ret then (False, out, p, fls)
         else (True, out, p, free_list_free fls index))"

definition contact_zero :: Contact where
  "contact_zero = \<lparr>c_name_len = 0, c_name = replicate 64 0, c_phone_len = 0, c_phone = replicate 15 0\<rparr>"

definition create_contact :: "byte list \<Rightarrow> byte list \<Rightarrow> Contact" where
  "create_contact name phone =
     (if length name > MAX_NAME_LEN \<or> length phone > MAX_PHONE_LEN then contact_zero
      else contact_zero\<lparr>c_name_len := length name, c_name := pad_to 64 name,
                        c_phone_len := length phone, c_phone := pad_to 15 phone\<rparr>)"

subsection \<open>The abstract map of contacts\<close>

definition contact_at :: "(nat \<Rightarrow> byte list) \<Rightarrow> u32 list \<Rightarrow> nat \<Rightarrow> Contact option" where
  "contact_at blk bm slot =
     (let sec = slot div CONTACT_SECTOR_CAPACITY; pos = slot mod CONTACT_SECTOR_CAPACITY;
          s = contact_sector_of (blk (DATA_SECTOR_TO_RAW sec))
      in if used bm sec \<and> bit (cs_used_bitmap s) pos then Some (cs_contacts s ! pos) else None)"

text \<open>A sector that reads back, with no bit set behind its slots.\<close>

definition contact_block_ok :: "byte list \<Rightarrow> bool" where
  "contact_block_ok b \<longleftrightarrow>
     sector_crc_valid b \<and> (\<forall>k \<ge> CONTACT_SECTOR_CAPACITY. \<not> bit (cs_used_bitmap (contact_sector_of b)) k)"

definition contacts_valid :: "(nat \<Rightarrow> byte list) \<Rightarrow> u32 list \<Rightarrow> bool" where
  "contacts_valid blk bm \<longleftrightarrow>
     (\<forall>s < TOTAL_CONTACT_SECTOR_SIZE. used bm s \<longrightarrow> contact_block_ok (blk (DATA_SECTOR_TO_RAW s)))"

text \<open>A sector block before and after a contact is stored in it.\<close>

definition contact_old :: "(nat \<Rightarrow> byte list) \<Rightarrow> u32 list \<Rightarrow> nat \<Rightarrow> byte list" where
  "contact_old blk bm sec =
     sector_crc_stamp (if used bm sec then blk (DATA_SECTOR_TO_RAW sec) else replicate SECTOR_SIZE 0)"

definition contact_put :: "nat \<Rightarrow> Contact \<Rightarrow> byte list \<Rightarrow> byte list" where
  "contact_put pos c b = sector_crc_stamp (contact_sector_bytes ((contact_sector_of b)
     \<lparr>cs_used_bitmap := cs_used_bitmap (contact_sector_of b) OR slot_bit pos,
      cs_contacts := (cs_contacts (contact_sector_of b))[pos := c]\<rparr>))"

definition contact_clear :: "nat \<Rightarrow> byte list \<Rightarrow> byte list" where
  "contact_clear pos b = sector_crc_stamp (contact_sector_bytes ((contact_sector_of b)
     \<lparr>cs_used_bitmap := cs_used_bitmap (contact_sector_of b) AND NOT (slot_bit pos)\<rparr>))"

lemma decode_array_stamp:
  "length b = SECTOR_SIZE \<Longrightarrow> off + n * m \<le> 508 \<Longrightarrow>
   decode_array off m n dec (sector_crc_stamp b) = decode_array off m n dec b"
proof (rule nth_equalityI)
  fix i assume b: "length b = SECTOR_SIZE" "off + n * m \<le> 508" and "i < length (decode_array off m n dec (sector_crc_stamp b))"
  then have i: "i < n" by simp
  then have "i * m + m \<le> n * m" using mult_le_mono1 [of "Suc i" n m] by simp
  then show "decode_array off m n dec (sector_crc_stamp b) ! i = decode_array off m n dec b ! i"
    using b i by simp
qed simp

lemma contact_sector_of_stamp:
  "length b = SECTOR_SIZE \<Longrightarrow>
   contact_sector_of (sector_crc_stamp b) = (contact_sector_of b)\<lparr>cs_crc := rd32 (slice 508 4 (sector_crc_stamp b))\<rparr>"
  by (simp add: contact_sector_of_def decode_array_stamp layout)

lemma contact_crc_irrelevant:
  assumes "contact_sector_wf s" and "c < 2 ^ 32"
  shows "sector_crc_stamp (contact_sector_bytes (s\<lparr>cs_crc := c\<rparr>)) = sector_crc_stamp (contact_sector_bytes s)"
proof (rule stamp_cong)
  have wf: "contact_sector_wf (s\<lparr>cs_crc := c\<rparr>)" using assms by (simp add: contact_sector_wf_def)
  show "length (contact_sector_bytes (s\<lparr>cs_crc := c\<rparr>)) = SECTOR_SIZE" "length (contact_sector_bytes s) = SECTOR_SIZE"
    using wf assms(1) by (simp_all add: layout)
  show "take 508 (contact_sector_bytes (s\<lparr>cs_crc := c\<rparr>)) = take 508 (contact_sector_bytes s)"
    using length_contacts_bytes [OF assms(1)] assms(1)
    by (simp add: contact_sector_bytes_def contact_sector_wf_def del: length_concat)
qed

lemma bit_slot: "pos < 8 \<Longrightarrow> bit (slot_bit pos) k \<longleftrightarrow> k = pos"
  by (auto simp: slot_bit_def bit_simps)

lemma slot_test: "pos < 8 \<Longrightarrow> w AND slot_bit pos = 0 \<longleftrightarrow> \<not> bit w pos"
proof -
  assume p: "pos < 8"
  have "bit (w AND slot_bit pos) k \<longleftrightarrow> k = pos \<and> bit w pos" for k
    by (auto simp: bit_and_iff bit_slot [OF p])
  then show ?thesis unfolding bit_eq_iff [of "w AND slot_bit pos"] using p by simp
qed

lemma crc_commute:
  "s\<lparr>cs_crc := x, cs_used_bitmap := u\<rparr> = s\<lparr>cs_used_bitmap := u, cs_crc := x\<rparr>"
  "s\<lparr>cs_used_bitmap := u, cs_crc := x, cs_contacts := v\<rparr> = s\<lparr>cs_used_bitmap := u, cs_contacts := v, cs_crc := x\<rparr>"
  by (cases s, simp)+

lemma contact_put_props:
  assumes b: "length b = SECTOR_SIZE" and pos: "pos < 6" and c: "contact_wf c"
  shows "length (contact_put pos c b) = SECTOR_SIZE" and "sector_crc_valid (contact_put pos c b)"
    and "bit (cs_used_bitmap (contact_sector_of (contact_put pos c b))) k \<longleftrightarrow>
      k = pos \<or> bit (cs_used_bitmap (contact_sector_of b)) k"
    and "cs_contacts (contact_sector_of (contact_put pos c b)) = (cs_contacts (contact_sector_of b))[pos := c]"
    and "contact_put pos c (sector_crc_stamp b) = contact_put pos c b"
proof -
  let ?s = "contact_sector_of b"
  let ?s' = "?s\<lparr>cs_used_bitmap := cs_used_bitmap ?s OR slot_bit pos, cs_contacts := (cs_contacts ?s)[pos := c]\<rparr>"
  have wf: "contact_sector_wf ?s" using b by (intro contact_sector_wf_of) (simp add: layout)
  then have wf': "contact_sector_wf ?s'" using c set_update_subset_insert [of "cs_contacts ?s" pos c]
    by (auto simp: contact_sector_wf_def)
  have l: "length (contact_sector_bytes ?s') = SECTOR_SIZE" using length_contact_sector_bytes [OF wf'] by (simp add: layout)
  then show "length (contact_put pos c b) = SECTOR_SIZE" "sector_crc_valid (contact_put pos c b)"
    by (simp_all add: contact_put_def)
  have s': "contact_sector_of (contact_put pos c b) = ?s'\<lparr>cs_crc := rd32 (slice 508 4 (contact_put pos c b))\<rparr>"
    unfolding contact_put_def using contact_sector_of_stamp [OF l] contact_sector_of_bytes [OF wf'] by simp
  show "bit (cs_used_bitmap (contact_sector_of (contact_put pos c b))) k \<longleftrightarrow>
      k = pos \<or> bit (cs_used_bitmap (contact_sector_of b)) k"
    using pos by (auto simp: s' bit_or_iff bit_slot)
  show "cs_contacts (contact_sector_of (contact_put pos c b)) = (cs_contacts (contact_sector_of b))[pos := c]"
    by (simp add: s')
  show "contact_put pos c (sector_crc_stamp b) = contact_put pos c b"
    using contact_crc_irrelevant [OF wf', of "rd32 (slice 508 4 (sector_crc_stamp b))"] rd32_less
    by (simp add: contact_put_def contact_sector_of_stamp [OF b] crc_commute)
qed

lemma contact_clear_props:
  assumes b: "length b = SECTOR_SIZE" and pos: "pos < 6"
  shows "length (contact_clear pos b) = SECTOR_SIZE" and "sector_crc_valid (contact_clear pos b)"
    and "bit (cs_used_bitmap (contact_sector_of (contact_clear pos b))) k \<longleftrightarrow>
      k \<noteq> pos \<and> bit (cs_used_bitmap (contact_sector_of b)) k"
    and "cs_contacts (contact_sector_of (contact_clear pos b)) = cs_contacts (contact_sector_of b)"
    and "contact_clear pos (sector_crc_stamp b) = contact_clear pos b"
proof -
  let ?s = "contact_sector_of b"
  let ?s' = "?s\<lparr>cs_used_bitmap := cs_used_bitmap ?s AND NOT (slot_bit pos)\<rparr>"
  have wf: "contact_sector_wf ?s" using b by (intro contact_sector_wf_of) (simp add: layout)
  then have wf': "contact_sector_wf ?s'" by (simp add: contact_sector_wf_def)
  have l: "length (contact_sector_bytes ?s') = SECTOR_SIZE" using length_contact_sector_bytes [OF wf'] by (simp add: layout)
  then show "length (contact_clear pos b) = SECTOR_SIZE" "sector_crc_valid (contact_clear pos b)"
    by (simp_all add: contact_clear_def)
  have s': "contact_sector_of (contact_clear pos b) = ?s'\<lparr>cs_crc := rd32 (slice 508 4 (contact_clear pos b))\<rparr>"
    unfolding contact_clear_def using contact_sector_of_stamp [OF l] contact_sector_of_bytes [OF wf'] by simp
  show "bit (cs_used_bitmap (contact_sector_of (contact_clear pos b))) k \<longleftrightarrow>
      k \<noteq> pos \<and> bit (cs_used_bitmap (contact_sector_of b)) k"
    using pos by (auto simp: s' bit_and_iff bit_not_iff bit_slot dest: bit_imp_le_length)
  show "cs_contacts (contact_sector_of (contact_clear pos b)) = cs_contacts (contact_sector_of b)"
    by (simp add: s')
  show "contact_clear pos (sector_crc_stamp b) = contact_clear pos b"
    using contact_crc_irrelevant [OF wf', of "rd32 (slice 508 4 (sector_crc_stamp b))"] rd32_less
    by (simp add: contact_clear_def contact_sector_of_stamp [OF b] crc_commute)
qed

subsection \<open>Writing a contact\<close>

lemma contact_sector_index [simp]:
  "s < TOTAL_CONTACT_SECTOR_SIZE \<Longrightarrow>
   to_u16 (s + CONTACT_DATA_START_SECTOR + DATA_REGION_START_SECTOR) = DATA_SECTOR_TO_RAW s"
  by (simp add: sector_defs layout)

lemma contact_data_sector: "CONTACT_DATA_SECTOR index = index div CONTACT_SECTOR_CAPACITY"
  by (simp add: sector_defs layout)

context block_store begin

lemma write_contact_in_outcome:
  assumes p: "pers_ok S ok blk p" and sec: "index div CONTACT_SECTOR_CAPACITY < TOTAL_CONTACT_SECTOR_SIZE"
    and c: "contact_wf c" and b: "length b = SECTOR_SIZE"
    and w: "write_contact_in S p index c (contact_sector_of b) = (r, p')"
  defines "i \<equiv> index div CONTACT_SECTOR_CAPACITY"
  defines "new \<equiv> sector_changed (blk (dev p)) (usage_bitmap p) i True
    (contact_put (index mod CONTACT_SECTOR_CAPACITY) c b)"
  shows "ok (dev p') \<and> capacity S (dev p') = capacity S (dev p) \<and> r \<in> {STRG_OK, STRG_FAIL} \<and>
    txn (blk (dev p)) JRNL_CONTACT i (sector_crc_stamp b) (\<lambda>blk'. \<exists>bm. new bm blk') (blk (dev p')) \<and>
    (r = STRG_OK \<longrightarrow> pers_ok S ok blk p' \<and> new (usage_bitmap p') (blk (dev p')))"
proof -
  let ?pos = "index mod CONTACT_SECTOR_CAPACITY"
  have i: "i < USAGE_BITMAP_TOTAL_BITS" using sec by (simp add: i_def layout)
  have bb: "contact_sector_bytes (contact_sector_of b) = b" using b by (simp add: contact_sector_bytes_of layout)
  have pos: "?pos < 6" by (simp add: layout)
  note put = contact_put_props [OF b pos c]
  obtain added buf pa where a: "journal_add S p JRNL_CONTACT i b = (added, buf, pa)" by (metis prod_cases3)
  have A: "ok (dev pa)" "capacity S (dev pa) = capacity S (dev p)" "usage_bitmap pa = usage_bitmap p"
      "bitmap_synced (blk (dev pa)) (usage_bitmap pa)"
      "journal_header_wf (j_header (journal pa))" "jh_magic (j_header (journal pa)) = JRNL_MAGIC"
    and A1: "added \<Longrightarrow> buf = sector_crc_stamp b \<and> in_progress (blk (dev p)) JRNL_CONTACT i (sector_crc_stamp b) (blk (dev pa))"
    and A0: "\<not> added \<Longrightarrow> journal_idle (blk (dev pa)) \<and> same_data (blk (dev p)) (blk (dev pa))"
    using journal_add_in_progress [OF p i _ b a] by auto
  show ?thesis
  proof (cases added)
    case False
    then show ?thesis using w a bb A(1,2) A0
      by (auto simp: write_contact_in_def contact_data_sector i_def [symmetric] txn_def)
  next
    case True
    note A1 = A1 [OF True]
    obtain r1 d1 bm1 where u: "update_usage_bit S (dev pa) (usage_bitmap pa) i True = (r1, d1, bm1)" by (metis prod_cases3)
    have U: "ok d1" "capacity S d1 = capacity S (dev p)" "bitmap_synced (blk d1) bm1"
        "in_progress (blk (dev p)) JRNL_CONTACT i (sector_crc_stamp b) (blk d1)"
      and U1: "strg_true r1 \<Longrightarrow> \<forall>j. used bm1 j = (if j = i then True else used (usage_bitmap p) j)"
      using update_usage_bit_in_progress [OF A(1,4) i conjunct2 [OF A1] u] A(2,3) by auto
    define cs where "cs = (contact_sector_of buf)\<lparr>cs_used_bitmap := cs_used_bitmap (contact_sector_of buf) OR slot_bit ?pos,
        cs_contacts := (cs_contacts (contact_sector_of buf))[?pos := c]\<rparr>"
    have "length buf = 512" using A1 b length_stamp [of b] by (simp add: layout)
    then have "contact_sector_wf (contact_sector_of buf)" by (rule contact_sector_wf_of)
    then have "contact_sector_wf cs" using c set_update_subset_insert [of "cs_contacts (contact_sector_of buf)" ?pos c]
      by (auto simp: contact_sector_wf_def cs_def)
    then have lcs: "length (contact_sector_bytes cs) = SECTOR_SIZE" by (simp add: layout)
    have scs: "sector_crc_stamp (contact_sector_bytes cs) = contact_put ?pos c b"
      using put(5) A1 by (simp add: contact_put_def cs_def)
    obtain r2 b2 d2 where ws: "write_sector S d1 (DATA_SECTOR_TO_RAW i) (contact_sector_bytes cs) = (r2, b2, d2)"
      by (metis prod_cases3)
    note W = write_raw_step [OF U(1) lcs i ws U(3), unfolded scs]
    obtain r3 j3 d3 where f3: "journal_free S d2 (journal pa) = (r3, j3, d3)" by (metis prod_cases3)
    note F3 = journal_free_completes [OF _ A(5,6) f3]
    obtain r4 j4 d4 where f4: "journal_free S d3 j3 = (r4, j4, d4)" by (metis prod_cases3)
    note F4 = journal_free_completes [OF _ _ _ f4]
    have wc: "write_contact_sector S d1 i cs = (r2, contact_sector_of b2, d2)"
      using sec ws by (simp add: write_contact_sector_def i_def)
    let ?p1 = "pa\<lparr>dev := d1, usage_bitmap := bm1\<rparr>"
    have res: "(r, p') = (if \<not> strg_true r1 then (STRG_FAIL, ?p1)
        else if \<not> strg_true r2 then (STRG_FAIL, ?p1\<lparr>dev := d2\<rparr>)
        else if \<not> strg_true r3 then (STRG_FAIL, ?p1\<lparr>dev := d3, journal := j3\<rparr>)
        else if \<not> strg_true r4 then (STRG_FAIL, ?p1\<lparr>dev := d4, journal := j4\<rparr>)
        else (STRG_OK, ?p1\<lparr>dev := d4, journal := j4\<rparr>))"
      using w a bb True u wc f3 f4
      by (simp add: write_contact_in_def contact_data_sector Let_def flip: i_def cs_def cong: if_cong)
    show ?thesis
    proof (cases "strg_true r1 \<and> strg_true r2")
      case False
      have "in_progress (blk (dev p)) JRNL_CONTACT i (sector_crc_stamp b) (blk d2)" if "\<not> strg_true r2"
        using W that U(4) by simp
      then show ?thesis using res False U W by (auto simp: txn_def split: if_splits)
    next
      case ok12: True
      then have B2: "ok d2" "capacity S d2 = capacity S (dev p)" "bitmap_synced (blk d2) bm1"
          "blk d2 = (blk d1)(DATA_SECTOR_TO_RAW i := contact_put ?pos c b)"
        using W U(2) by auto
      have P2: "in_progress (blk (dev p)) JRNL_CONTACT i (sector_crc_stamp b) (blk d2)"
        using in_progress_upd [OF U(4) i] B2(4) by simp
      have N2: "new bm1 (blk d2)"
        using U1 ok12 B2 P2 by (simp add: new_def sector_changed_def in_progress_def)
      have keep: "new bm1 blk'" if "\<forall>k. k \<noteq> JRNL_HEADER_SECTOR \<longrightarrow> blk' k = blk d2 k" for blk'
      proof -
        have "same_data (blk d2) blk'" using that by (simp add: same_data_def)
        then show ?thesis using N2 that raw_not_meta [OF i] synced_same_data [of "blk d2" blk' bm1]
          by (simp add: new_def sector_changed_def elsewhere_same_def)
      qed
      note F3 = F3 [OF B2(1)]
      have N3: "new bm1 (blk d3)" using F3 keep by blast
      note F4 = F4 [OF conjunct1 [OF F3] conjunct1 [OF conjunct2 [OF conjunct2 [OF F3]]]
          conjunct1 [OF conjunct2 [OF conjunct2 [OF conjunct2 [OF F3]]]]]
      have N4: "new bm1 (blk d4)" using F3 F4 by (intro keep) metis
      show ?thesis
      proof (cases "strg_true r3")
        case False
        then show ?thesis using res ok12 F3 P2 B2 by (simp add: txn_def)
      next
        case True
        then have idle: "journal_idle (blk d3)" "journal_idle (blk d4)" using F3 F4 by auto
        have "pers_ok S ok blk (?p1\<lparr>dev := d4, journal := j4\<rparr>)"
          using p F4 F3 B2 idle N4 by (simp add: pers_ok_def new_def sector_changed_def)
        then show ?thesis using res ok12 True idle N4 F3 F4 B2 by (auto simp: txn_def split: if_splits)
      qed
    qed
  qed
qed

end

text \<open>What \<open>write_contact\<close> starts from: the sector's old block, or zeros when it is unused.\<close>

definition contact_base :: "(nat \<Rightarrow> byte list) \<Rightarrow> u32 list \<Rightarrow> nat \<Rightarrow> byte list" where
  "contact_base blk bm i = (if used bm i then blk (DATA_SECTOR_TO_RAW i) else replicate SECTOR_SIZE 0)"

definition contact_written ::
    "(nat \<Rightarrow> byte list) \<Rightarrow> u32 list \<Rightarrow> nat \<Rightarrow> Contact \<Rightarrow> u32 list \<Rightarrow> (nat \<Rightarrow> byte list) \<Rightarrow> bool" where
  "contact_written blk bm index c =
     sector_changed blk bm (index div CONTACT_SECTOR_CAPACITY) True
       (contact_put (index mod CONTACT_SECTOR_CAPACITY) c (contact_base blk bm (index div CONTACT_SECTOR_CAPACITY)))"

lemma contact_base_length:
  "length (contact_base blk bm i) = SECTOR_SIZE \<longleftrightarrow> \<not> used bm i \<or> length (blk (DATA_SECTOR_TO_RAW i)) = SECTOR_SIZE"
  by (simp add: contact_base_def)

text \<open>A sector change seen through \<open>contact_at\<close>.\<close>

lemma contact_at_other:
  assumes "elsewhere_same i blk blk'" and "\<forall>j. used bm' j = (if j = i then v else used bm j)" and "i < USAGE_BITMAP_TOTAL_BITS"
    and "slot div CONTACT_SECTOR_CAPACITY \<noteq> i"
  shows "contact_at blk' bm' slot = contact_at blk bm slot"
proof (cases "used bm (slot div CONTACT_SECTOR_CAPACITY)")
  case True
  let ?s = "slot div CONTACT_SECTOR_CAPACITY"
  have s: "?s < USAGE_BITMAP_TOTAL_BITS" using True by (simp add: used_def)
  have "DATA_SECTOR_TO_RAW ?s \<noteq> usage_block i"
    using raw_neq_bitmap [OF find_sector_less [OF assms(3)]] by (simp add: usage_block_def)
  then have "blk' (DATA_SECTOR_TO_RAW ?s) = blk (DATA_SECTOR_TO_RAW ?s)"
    using assms(1,4) raw_not_meta [OF s] by (simp add: elsewhere_same_def)
  then show ?thesis using assms(2,4) by (simp add: contact_at_def)
next
  case False
  then show ?thesis using assms(2,4) by (simp add: contact_at_def)
qed

lemma contacts_valid_step:
  assumes "contacts_valid blk bm" and "\<forall>j. used bm' j = (if j = i then v else used bm j)"
    and "elsewhere_same i blk blk'" and "i < USAGE_BITMAP_TOTAL_BITS" and "v \<longrightarrow> contact_block_ok (blk' (DATA_SECTOR_TO_RAW i))"
  shows "contacts_valid blk' bm'"
  unfolding contacts_valid_def
proof (intro allI impI)
  fix s assume s: "s < TOTAL_CONTACT_SECTOR_SIZE" "used bm' s"
  show "contact_block_ok (blk' (DATA_SECTOR_TO_RAW s))"
  proof (cases "s = i")
    case False
    have st: "s < USAGE_BITMAP_TOTAL_BITS" using s(1) by (simp add: layout)
    have "DATA_SECTOR_TO_RAW s \<noteq> usage_block i"
      using raw_neq_bitmap [OF find_sector_less [OF assms(4)]] by (simp add: usage_block_def)
    then have "blk' (DATA_SECTOR_TO_RAW s) = blk (DATA_SECTOR_TO_RAW s)"
      using assms(3) raw_not_meta [OF st] False by (simp add: elsewhere_same_def)
    then show ?thesis using assms(1,2) s False by (simp add: contacts_valid_def)
  qed (use assms(2,5) s in auto)
qed

text \<open>The stored block is in order when its base was.\<close>

lemma contact_block_put:
  assumes v: "contacts_valid blk bm" and i: "i < TOTAL_CONTACT_SECTOR_SIZE" and pos: "pos < 6" and c: "contact_wf c"
    and len: "length (contact_base blk bm i) = SECTOR_SIZE"
  shows "contact_block_ok (contact_put pos c (contact_base blk bm i))"
proof -
  have "\<not> bit (cs_used_bitmap (contact_sector_of (contact_base blk bm i))) k" if "CONTACT_SECTOR_CAPACITY \<le> k" for k
  proof (cases "used bm i")
    case True
    then show ?thesis using v i that by (simp add: contacts_valid_def contact_block_ok_def contact_base_def)
  qed (simp add: contact_base_def contact_sector_of_def layout)
  then show ?thesis using contact_put_props(2,3) [OF len pos c] pos by (auto simp: contact_block_ok_def layout)
qed

lemma contact_block_clear:
  "length b = SECTOR_SIZE \<Longrightarrow> pos < 6 \<Longrightarrow> contact_block_ok b \<Longrightarrow> contact_block_ok (contact_clear pos b)"
  using contact_clear_props(2,3) [of b pos] by (simp add: contact_block_ok_def)

lemma same_slot: "slot div n = k div n \<Longrightarrow> slot mod n = k mod n \<longleftrightarrow> slot = (k :: nat)"
  by (metis div_mult_mod_eq)

lemma contact_at_written:
  assumes "contact_written blk bm index c bm' blk'" and "contact_wf c"
    and sec: "index div CONTACT_SECTOR_CAPACITY < TOTAL_CONTACT_SECTOR_SIZE"
    and len: "length (contact_base blk bm (index div CONTACT_SECTOR_CAPACITY)) = SECTOR_SIZE"
  shows "contact_at blk' bm' = (contact_at blk bm)(index \<mapsto> c)"
proof (rule ext)
  fix slot
  let ?i = "index div CONTACT_SECTOR_CAPACITY" and ?pos = "index mod CONTACT_SECTOR_CAPACITY"
  have i: "?i < USAGE_BITMAP_TOTAL_BITS" using sec by (simp add: layout)
  have ch: "\<forall>j. used bm' j = (if j = ?i then True else used bm j)"
      "blk' (DATA_SECTOR_TO_RAW ?i) = contact_put ?pos c (contact_base blk bm ?i)" "elsewhere_same ?i blk blk'"
    using assms(1) by (simp_all add: contact_written_def sector_changed_def)
  show "contact_at blk' bm' slot = ((contact_at blk bm)(index \<mapsto> c)) slot"
  proof (cases "slot div CONTACT_SECTOR_CAPACITY = ?i")
    case False
    then have "slot \<noteq> index" by auto
    then show ?thesis using contact_at_other [OF ch(3,1) i False] by simp
  next
    case True
    have pos: "?pos < 6" "slot mod CONTACT_SECTOR_CAPACITY < 6" by (simp_all add: layout)
    note put = contact_put_props [OF len pos(1) assms(2)]
    have "length (cs_contacts (contact_sector_of (contact_base blk bm ?i))) = 6"
      by (simp add: contact_sector_of_def layout)
    moreover have "\<not> bit (cs_used_bitmap (contact_sector_of (contact_base blk bm ?i))) k" if "\<not> used bm ?i" for k
      using that by (simp add: contact_base_def contact_sector_of_def layout)
    ultimately show ?thesis
      using True ch(1,2) put(3) [of "slot mod CONTACT_SECTOR_CAPACITY"] put(4) same_slot [OF True] pos
      by (auto simp: contact_at_def contact_base_def split: if_splits)
  qed
qed

context block_store begin

lemma read_contact_sector_some:
  "ok d \<Longrightarrow> s < TOTAL_CONTACT_SECTOR_SIZE \<Longrightarrow> read_contact_sector S d s = Inr cs \<Longrightarrow>
   cs = contact_sector_of (blk d (DATA_SECTOR_TO_RAW s)) \<and> sector_crc_valid (blk d (DATA_SECTOR_TO_RAW s))"
  using read_sector_SomeD [of d "DATA_SECTOR_TO_RAW s"] contact_sector_index [of s]
  by (auto simp: read_contact_sector_def to_u16_raw split: sum.splits)

lemma contact_base_ok:
  "pers_ok S ok blk p \<Longrightarrow> i < TOTAL_CONTACT_SECTOR_SIZE \<Longrightarrow>
   length (contact_base (blk (dev p)) (usage_bitmap p) i) = SECTOR_SIZE"
  unfolding contact_base_length using blk_length [OF pers_okD(1) pers_okD(4)] by (simp add: layout)

text \<open>Whatever fails, \<open>write_contact\<close> leaves the card untouched, recoverable or complete; when it
  reports success the contact is stored.\<close>

lemma write_contact_outcome:
  assumes p: "pers_ok S ok blk p" and sec: "index div CONTACT_SECTOR_CAPACITY < TOTAL_CONTACT_SECTOR_SIZE"
    and c: "contact_wf c" and w: "write_contact S p index c = (r, p')"
  defines "i \<equiv> index div CONTACT_SECTOR_CAPACITY"
  shows "ok (dev p') \<and> capacity S (dev p') = capacity S (dev p) \<and> r \<in> {STRG_OK, STRG_FAIL} \<and>
    txn (blk (dev p)) JRNL_CONTACT i (sector_crc_stamp (contact_base (blk (dev p)) (usage_bitmap p) i))
      (\<lambda>blk'. \<exists>bm. contact_written (blk (dev p)) (usage_bitmap p) index c bm blk') (blk (dev p')) \<and>
    (r = STRG_OK \<longrightarrow> pers_ok S ok blk p' \<and>
       contact_written (blk (dev p)) (usage_bitmap p) index c (usage_bitmap p') (blk (dev p')))"
proof -
  let ?b = "contact_base (blk (dev p)) (usage_bitmap p) i"
  have it: "i < USAGE_BITMAP_TOTAL_BITS" "i < TOTAL_CONTACT_SECTOR_SIZE" using sec by (simp_all add: i_def layout)
  have chk: "check_usage_bit (usage_bitmap p) i = used (usage_bitmap p) i" by (rule check_usage_bit_used [OF it(1)])
  note out = write_contact_in_outcome [OF p sec c contact_base_ok [OF p it(2)], folded i_def]
  have unchanged: "txn (blk (dev p)) JRNL_CONTACT i c0 New (blk (dev p))" for c0 New
    using pers_okD(3) [OF p] by (simp add: txn_def same_data_def)
  show ?thesis
  proof (cases "used (usage_bitmap p) i \<and> (\<exists>e. read_contact_sector S (dev p) i = Inl e)")
    case True
    then have "r = STRG_FAIL" "p' = p" using w chk by (auto simp: write_contact_def simp flip: i_def)
    then show ?thesis using unchanged pers_okD(1) [OF p] by simp
  next
    case False
    have "write_contact_in S p index c (contact_sector_of ?b) = (r, p')"
    proof (cases "used (usage_bitmap p) i")
      case True
      then obtain cs where "read_contact_sector S (dev p) i = Inr cs" using False by (cases "read_contact_sector S (dev p) i") auto
      then show ?thesis using w chk True read_contact_sector_some [OF pers_okD(1) [OF p] it(2)]
        by (simp add: write_contact_def contact_base_def flip: i_def)
    next
      case unused: False
      then show ?thesis using w chk by (simp add: write_contact_def contact_base_def contact_sector_zero_def flip: i_def)
    qed
    from out [OF this] show ?thesis by (simp add: contact_written_def i_def)
  qed
qed

end

context reliable_store begin

lemma write_contact_in_reliable:
  assumes p: "pers_ok S ok blk p" and sec: "index div CONTACT_SECTOR_CAPACITY < TOTAL_CONTACT_SECTOR_SIZE"
    and c: "contact_wf c" and b: "length b = SECTOR_SIZE"
  shows "fst (write_contact_in S p index c (contact_sector_of b)) = STRG_OK"
proof -
  let ?pos = "index mod CONTACT_SECTOR_CAPACITY"
  define i where "i = index div CONTACT_SECTOR_CAPACITY"
  have i: "i < USAGE_BITMAP_TOTAL_BITS" "i < TOTAL_DATABASE_SECTOR_SIZE" using sec by (simp_all add: i_def layout)
  have bb: "contact_sector_bytes (contact_sector_of b) = b" using b by (simp add: contact_sector_bytes_of layout)
  obtain buf pa where a: "journal_add S p JRNL_CONTACT i b = (True, buf, pa)"
    using journal_add_reliable [OF p i(1) _ b, of JRNL_CONTACT] by (cases "journal_add S p JRNL_CONTACT i b") auto
  have A: "ok (dev pa)" "capacity S (dev pa) = capacity S (dev p)" "bitmap_synced (blk (dev pa)) (usage_bitmap pa)"
      "journal_header_wf (j_header (journal pa))" "jh_magic (j_header (journal pa)) = JRNL_MAGIC" "buf = sector_crc_stamp b"
    using journal_add_in_progress [OF p i(1) _ b a] by auto
  have cap: "DATA_REGION_START_SECTOR + TOTAL_DATABASE_SECTOR_SIZE \<le> capacity S (dev pa)" using p A(2) by (simp add: pers_ok_def)
  obtain d1 bm1 where u: "update_usage_bit S (dev pa) (usage_bitmap pa) i True = (STRG_OK, d1, bm1)"
    using update_usage_bit_reliable [OF A(1,3) i(1), of True] cap
    by (cases "update_usage_bit S (dev pa) (usage_bitmap pa) i True") (auto simp: layout)
  have U: "ok d1" "capacity S d1 = capacity S (dev pa)"
    using update_usage_bit_step [OF A(1,3) i(1) u] by auto
  define cs where "cs = (contact_sector_of buf)\<lparr>cs_used_bitmap := cs_used_bitmap (contact_sector_of buf) OR slot_bit ?pos,
        cs_contacts := (cs_contacts (contact_sector_of buf))[?pos := c]\<rparr>"
  have "length buf = 512" using A(6) b length_stamp [of b] by (simp add: layout)
  then have "contact_sector_wf (contact_sector_of buf)" by (rule contact_sector_wf_of)
  then have "contact_sector_wf cs" using c set_update_subset_insert [of "cs_contacts (contact_sector_of buf)" ?pos c]
    by (auto simp: contact_sector_wf_def cs_def)
  then have lcs: "length (contact_sector_bytes cs) = SECTOR_SIZE" by (simp add: layout)
  have raw: "DATA_SECTOR_TO_RAW i < capacity S d1" "DATA_SECTOR_TO_RAW i < 65536"
    using cap U(2) i(2) by (simp_all add: sector_defs layout)
  obtain b2 d2 where ws: "write_sector S d1 (DATA_SECTOR_TO_RAW i) (contact_sector_bytes cs) = (STRG_OK, b2, d2)"
      and D2: "ok d2" "capacity S d2 = capacity S d1"
    by (rule write_sector_in_range [OF U(1) raw lcs]) blast
  have wc: "write_contact_sector S d1 i cs = (STRG_OK, contact_sector_of b2, d2)"
    using sec ws by (simp add: write_contact_sector_def i_def)
  have h2: "JRNL_HEADER_SECTOR < capacity S d2" using cap U(2) D2(2) by (simp add: layout)
  obtain j3 d3 where f3: "journal_free S d2 (journal pa) = (STRG_OK, j3, d3)"
    using journal_free_reliable [OF D2(1) h2 A(4)] by (metis prod_cases3 fst_conv)
  have F3: "ok d3" "capacity S d3 = capacity S d2" "journal_header_wf (j_header j3)"
    using journal_free_completes [OF D2(1) A(4,5) f3] by auto
  obtain j4 d4 where f4: "journal_free S d3 j3 = (STRG_OK, j4, d4)"
    using journal_free_reliable [OF F3(1) _ F3(3)] h2 F3(2) by (metis prod_cases3 fst_conv)
  show ?thesis using a bb u wc f3 f4
    by (simp add: write_contact_in_def contact_data_sector Let_def flip: i_def cs_def)
qed

lemma read_contact_sem:
  assumes p: "pers_ok S ok blk p" and v: "contacts_valid (blk (dev p)) (usage_bitmap p)"
    and sec: "index div CONTACT_SECTOR_CAPACITY < TOTAL_CONTACT_SECTOR_SIZE"
  shows "read_contact S p index =
    (case contact_at (blk (dev p)) (usage_bitmap p) index of None \<Rightarrow> Inl STRG_EMPTY | Some c \<Rightarrow> Inr c)"
proof -
  let ?i = "index div CONTACT_SECTOR_CAPACITY"
  have i: "?i < USAGE_BITMAP_TOTAL_BITS" "?i < TOTAL_DATABASE_SECTOR_SIZE" using sec by (simp_all add: layout)
  have raw: "DATA_SECTOR_TO_RAW ?i < 65536" using sec by (simp add: sector_defs layout)
  have "read_contact_sector S (dev p) ?i = Inr (contact_sector_of (blk (dev p) (DATA_SECTOR_TO_RAW ?i)))"
    if "used (usage_bitmap p) ?i"
    using read_sector_valid [OF pers_okD(1) [OF p] pers_okD(4) [OF p i(2)] raw] v that sec
    by (simp add: read_contact_sector_def contacts_valid_def contact_block_ok_def)
  moreover have "index mod CONTACT_SECTOR_CAPACITY < 8" by (simp add: layout)
  ultimately show ?thesis
    using check_usage_bit_used [OF i(1)] by (simp add: read_contact_def contact_at_def Let_def slot_test)
qed

lemma write_contact_sem:
  assumes p: "pers_ok S ok blk p" and v: "contacts_valid (blk (dev p)) (usage_bitmap p)"
    and sec: "index div CONTACT_SECTOR_CAPACITY < TOTAL_CONTACT_SECTOR_SIZE" and c: "contact_wf c"
    and w: "write_contact S p index c = (r, p')"
  shows "r = STRG_OK \<and> pers_ok S ok blk p' \<and> contacts_valid (blk (dev p')) (usage_bitmap p') \<and>
    contact_at (blk (dev p')) (usage_bitmap p') = (contact_at (blk (dev p)) (usage_bitmap p))(index \<mapsto> c) \<and>
    elsewhere_same (index div CONTACT_SECTOR_CAPACITY) (blk (dev p)) (blk (dev p')) \<and>
    (\<forall>j. used (usage_bitmap p') j = (j = index div CONTACT_SECTOR_CAPACITY \<or> used (usage_bitmap p) j))"
proof -
  let ?i = "index div CONTACT_SECTOR_CAPACITY"
  have it: "?i < USAGE_BITMAP_TOTAL_BITS" "?i < TOTAL_DATABASE_SECTOR_SIZE" using sec by (simp_all add: layout)
  have raw: "DATA_SECTOR_TO_RAW ?i < 65536" using sec by (simp add: sector_defs layout)
  have base: "length (contact_base (blk (dev p)) (usage_bitmap p) ?i) = SECTOR_SIZE" by (rule contact_base_ok [OF p sec])
  have chk: "check_usage_bit (usage_bitmap p) ?i = used (usage_bitmap p) ?i" by (rule check_usage_bit_used [OF it(1)])
  have "fst (write_contact S p index c) = STRG_OK"
  proof (cases "used (usage_bitmap p) ?i")
    case True
    then have "read_contact_sector S (dev p) ?i = Inr (contact_sector_of (contact_base (blk (dev p)) (usage_bitmap p) ?i))"
      using read_sector_valid [OF pers_okD(1) [OF p] pers_okD(4) [OF p it(2)] raw] v sec
      by (simp add: read_contact_sector_def contacts_valid_def contact_block_ok_def contact_base_def)
    then show ?thesis using write_contact_in_reliable [OF p sec c base] chk True by (simp add: write_contact_def)
  next
    case False
    then show ?thesis using write_contact_in_reliable [OF p sec c base] chk
      by (simp add: write_contact_def contact_base_def contact_sector_zero_def)
  qed
  then have r: "r = STRG_OK" using w by simp
  have out: "pers_ok S ok blk p'" "contact_written (blk (dev p)) (usage_bitmap p) index c (usage_bitmap p') (blk (dev p'))"
    using write_contact_outcome [OF p sec c w] r by simp_all
  then have ch: "\<forall>j. used (usage_bitmap p') j = (if j = ?i then True else used (usage_bitmap p) j)"
      "contact_block_ok (blk (dev p') (DATA_SECTOR_TO_RAW ?i))" "elsewhere_same ?i (blk (dev p)) (blk (dev p'))"
    using contact_block_put [OF v sec _ c base, of "index mod CONTACT_SECTOR_CAPACITY"]
    by (simp_all add: contact_written_def sector_changed_def layout)
  have "contacts_valid (blk (dev p')) (usage_bitmap p')"
    by (rule contacts_valid_step [OF v ch(1) ch(3) it(1)]) (use ch(2) in simp)
  then show ?thesis using r out ch contact_at_written [OF out(2) c sec base] by auto
qed

end

subsection \<open>A contact write interrupted by a power cut\<close>

lemma contact_at_same_data:
  assumes "same_data blk blk'"
  shows "contact_at blk' bm slot = contact_at blk bm slot"
proof (cases "used bm (slot div CONTACT_SECTOR_CAPACITY)")
  case True
  then have "slot div CONTACT_SECTOR_CAPACITY < USAGE_BITMAP_TOTAL_BITS" by (simp add: used_def)
  from raw_not_meta [OF this] show ?thesis using assms by (simp add: same_data_def contact_at_def)
qed (simp add: contact_at_def)

lemma contacts_valid_same_data:
  assumes "same_data blk blk'" and "contacts_valid blk bm"
  shows "contacts_valid blk' bm"
  unfolding contacts_valid_def
proof (intro allI impI)
  fix s assume s: "s < TOTAL_CONTACT_SECTOR_SIZE" "used bm s"
  then have "s < USAGE_BITMAP_TOTAL_BITS" by (simp add: used_def)
  from raw_not_meta [OF this] show "contact_block_ok (blk' (DATA_SECTOR_TO_RAW s))"
    using assms s by (simp add: same_data_def contacts_valid_def)
qed

text \<open>Putting back the journalled base of a sector undoes nothing that was visible.\<close>

lemma rollback_invisible:
  assumes i: "i < TOTAL_CONTACT_SECTOR_SIZE" and v: "contacts_valid blk bm" and s: "bitmap_synced blk bm"
    and l: "used bm i \<Longrightarrow> length (blk (DATA_SECTOR_TO_RAW i)) = SECTOR_SIZE"
  defines "blk' \<equiv> blk(DATA_SECTOR_TO_RAW i := sector_crc_stamp (contact_base blk bm i))"
  shows "contact_at blk' bm = contact_at blk bm" and "contacts_valid blk' bm" and "bitmap_synced blk' bm"
proof -
  have same: "blk' (DATA_SECTOR_TO_RAW k) = blk (DATA_SECTOR_TO_RAW k)" if "used bm k" for k
  proof (cases "k = i")
    case True
    then have "sector_crc_valid (blk (DATA_SECTOR_TO_RAW i))" using v i that by (simp add: contacts_valid_def contact_block_ok_def)
    then show ?thesis using True that l valid_imp_stamp by (simp add: blk'_def contact_base_def)
  qed (simp add: blk'_def)
  show "contact_at blk' bm = contact_at blk bm"
    using same by (auto simp: fun_eq_iff contact_at_def Let_def)
  show "contacts_valid blk' bm" using v same by (simp add: contacts_valid_def)
  show "bitmap_synced blk' bm"
    unfolding bitmap_synced_def blk'_def using s raw_neq_bitmap [of _ i]
    by (simp add: bitmap_synced_def) (metis raw_neq_bitmap)
qed

context reliable_store begin

lemma write_contact_recovered:
  assumes p: "pers_ok (power_cut S) (\<lambda>p. ok (card p)) (\<lambda>p. blk (card p)) p"
    and v: "contacts_valid (blk (card (dev p))) (usage_bitmap p)"
    and sec: "index div CONTACT_SECTOR_CAPACITY < TOTAL_CONTACT_SECTOR_SIZE" and c: "contact_wf c"
    and w: "write_contact (power_cut S) p index c = (r, p')"
    and init: "journal_init S (card (dev p')) j = (started, j', d')"
  defines "old \<equiv> contact_at (blk (card (dev p))) (usage_bitmap p)"
  defines "i \<equiv> index div CONTACT_SECTOR_CAPACITY"
  shows "started \<and> ok (card (dev p')) \<and> ok d' \<and> capacity S (card (dev p')) = capacity S (card (dev p)) \<and>
    capacity S d' = capacity S (card (dev p)) \<and> journal_idle (blk d') \<and>
    elsewhere_same i (blk (card (dev p))) (blk (card (dev p'))) \<and> elsewhere_same i (blk (card (dev p))) (blk d') \<and>
    (\<exists>bm'. bitmap_synced (blk d') bm' \<and> contacts_valid (blk d') bm' \<and>
      contact_at (blk d') bm' \<in> {old, old(index \<mapsto> c)} \<and>
      (r = STRG_OK \<longrightarrow> contact_at (blk d') bm' = old(index \<mapsto> c)) \<and>
      (\<forall>j. j \<noteq> i \<longrightarrow> used bm' j = used (usage_bitmap p) j)) \<and>
    (r = STRG_OK \<longrightarrow> pers_ok (power_cut S) (\<lambda>p. ok (card p)) (\<lambda>p. blk (card p)) p' \<and>
      contacts_valid (blk (card (dev p'))) (usage_bitmap p') \<and>
      contact_at (blk (card (dev p'))) (usage_bitmap p') = old(index \<mapsto> c))"
proof -
  let ?blk = "blk (card (dev p))" and ?bm = "usage_bitmap p" and ?i = "index div CONTACT_SECTOR_CAPACITY"
  note pd = block_store.pers_okD [OF power_cut_block_store p]
  have i: "?i < USAGE_BITMAP_TOTAL_BITS" "?i < TOTAL_DATABASE_SECTOR_SIZE" using sec by (simp_all add: layout)
  have base: "length (contact_base ?blk ?bm ?i) = SECTOR_SIZE"
    by (rule block_store.contact_base_ok [OF power_cut_block_store p sec])
  have out: "ok (card (dev p'))" "capacity (power_cut S) (dev p') = capacity (power_cut S) (dev p)"
      "txn ?blk JRNL_CONTACT ?i (sector_crc_stamp (contact_base ?blk ?bm ?i))
        (\<lambda>blk'. \<exists>bm. contact_written ?blk ?bm index c bm blk') (blk (card (dev p')))"
      "r = STRG_OK \<Longrightarrow> pers_ok (power_cut S) (\<lambda>p. ok (card p)) (\<lambda>p. blk (card p)) p' \<and>
         contact_written ?blk ?bm index c (usage_bitmap p') (blk (card (dev p')))"
    using block_store.write_contact_outcome [OF power_cut_block_store p sec c w] by auto
  have cap: "DATA_SECTOR_TO_RAW ?i < capacity S (card (dev p'))"
    using pd(4) [OF i(2)] out(2) by (simp add: power_cut_def)
  have vu: "sector_crc_valid (?blk (usage_block ?i))"
    using pd(2) find_sector_less [OF i(1)] by (simp add: bitmap_synced_def usage_block_def)
  have rec: "started \<and> ok d' \<and> capacity S d' = capacity S (card (dev p')) \<and> journal_idle (blk d') \<and>
    (same_data ?blk (blk d') \<or>
     same_data (?blk(DATA_SECTOR_TO_RAW ?i := sector_crc_stamp (contact_base ?blk ?bm ?i))) (blk d') \<or>
     (\<exists>bm. contact_written ?blk ?bm index c bm (blk d')))"
    by (rule recover_txn [OF out(1) cap i(1) _ out(3) _ vu init]) (simp_all add: base)
  have new: "bitmap_synced blk' bm' \<and> contacts_valid blk' bm' \<and> contact_at blk' bm' = old(index \<mapsto> c) \<and>
      elsewhere_same ?i ?blk blk' \<and> (\<forall>j. j \<noteq> ?i \<longrightarrow> used bm' j = used ?bm j)"
    if "contact_written ?blk ?bm index c bm' blk'" for bm' blk'
  proof -
    have ch: "\<forall>j. used bm' j = (if j = ?i then True else used ?bm j)" "elsewhere_same ?i ?blk blk'"
      "bitmap_synced blk' bm'" "contact_block_ok (blk' (DATA_SECTOR_TO_RAW ?i))"
      using that contact_block_put [OF v sec _ c base, of "index mod CONTACT_SECTOR_CAPACITY"]
      by (simp_all add: contact_written_def sector_changed_def layout)
    then show ?thesis using contact_at_written [OF that c sec base] contacts_valid_step [OF v ch(1,2) i(1)]
      by (simp add: old_def)
  qed
  have es: "elsewhere_same ?i ?blk blk'" if "same_data ?blk blk' \<or> same_data (?blk(DATA_SECTOR_TO_RAW ?i := b)) blk'" for b blk'
    using that by (auto simp: same_data_def elsewhere_same_def)
  have crashed: "elsewhere_same ?i ?blk (blk (card (dev p')))"
    using out(3) unfolding txn_def
  proof (elim disjE conjE exE)
    assume "same_data ?blk (blk (card (dev p')))"
    then show ?thesis using es by blast
  next
    assume "in_progress ?blk JRNL_CONTACT ?i (sector_crc_stamp (contact_base ?blk ?bm ?i)) (blk (card (dev p')))"
    then show ?thesis by (simp add: in_progress_def)
  next
    fix bm assume "contact_written ?blk ?bm index c bm (blk (card (dev p')))"
    then show ?thesis using new by blast
  qed
  have same: "elsewhere_same ?i ?blk (blk d')" using rec es new by blast
  have cp: "capacity S (card (dev p')) = capacity S (card (dev p))" using out(2) by (simp add: power_cut_def)
  have stored: "pers_ok (power_cut S) (\<lambda>p. ok (card p)) (\<lambda>p. blk (card p)) p' \<and>
      contacts_valid (blk (card (dev p'))) (usage_bitmap p') \<and>
      contact_at (blk (card (dev p'))) (usage_bitmap p') = old(index \<mapsto> c)" if "r = STRG_OK"
    using out(4) [OF that] new by blast
  have "started \<and> (\<exists>bm'. bitmap_synced (blk d') bm' \<and> contacts_valid (blk d') bm' \<and>
    contact_at (blk d') bm' \<in> {old, old(index \<mapsto> c)} \<and>
    (r = STRG_OK \<longrightarrow> contact_at (blk d') bm' = old(index \<mapsto> c)) \<and> (\<forall>j. j \<noteq> ?i \<longrightarrow> used bm' j = used ?bm j))"
  proof (cases "r = STRG_OK")
    case True
    then have "journal_idle (blk (card (dev p')))" "contact_written ?blk ?bm index c (usage_bitmap p') (blk (card (dev p')))"
      using out(4) by (simp_all add: pers_ok_def)
    moreover have "JRNL_HEADER_SECTOR < capacity S (card (dev p'))" using cap by (simp add: sector_defs layout)
    ultimately have "d' = card (dev p')" "contact_written ?blk ?bm index c (usage_bitmap p') (blk d')"
      using recover_idle [OF out(1), of j] init by auto
    then show ?thesis using new rec by blast
  next
    case False
    have "\<exists>bm'. bitmap_synced (blk d') bm' \<and> contacts_valid (blk d') bm' \<and>
        (contact_at (blk d') bm' = old \<or> contact_at (blk d') bm' = old(index \<mapsto> c)) \<and> (\<forall>j. j \<noteq> ?i \<longrightarrow> used bm' j = used ?bm j)"
      using rec
    proof (elim conjE disjE exE)
      assume "same_data ?blk (blk d')"
      then show ?thesis using contact_at_same_data contacts_valid_same_data [OF _ v] synced_same_data pd(2)
        by (intro exI [of _ ?bm]) (auto simp: old_def fun_eq_iff)
    next
      assume s: "same_data (?blk(DATA_SECTOR_TO_RAW ?i := sector_crc_stamp (contact_base ?blk ?bm ?i))) (blk d')"
      have l: "used ?bm ?i \<Longrightarrow> length (?blk (DATA_SECTOR_TO_RAW ?i)) = SECTOR_SIZE"
        using base by (simp add: contact_base_length)
      note roll = rollback_invisible [OF sec v pd(2) l]
      have "contact_at (blk d') ?bm = old"
        using contact_at_same_data [OF s, of ?bm] roll(1) by (simp add: old_def fun_eq_iff)
      then show ?thesis using contacts_valid_same_data [OF s roll(2)] synced_same_data [OF s] roll(3) by blast
    next
      fix bm assume "contact_written ?blk ?bm index c bm (blk d')"
      then show ?thesis using new by blast
    qed
    then show ?thesis using rec False by auto
  qed
  then show ?thesis using rec out(1) cp same crashed stored unfolding i_def by simp
qed

lemma write_contact_crash:
  assumes "pers_ok (power_cut S) (\<lambda>p. ok (card p)) (\<lambda>p. blk (card p)) p"
    and "contacts_valid (blk (card (dev p))) (usage_bitmap p)"
    and "index div CONTACT_SECTOR_CAPACITY < TOTAL_CONTACT_SECTOR_SIZE" and "contact_wf c"
    and "write_contact (power_cut S) p index c = (r, p')"
    and "journal_init S (card (dev p')) j = (started, j', d')"
  shows "started \<and> (\<exists>bm'. bitmap_synced (blk d') bm' \<and> contacts_valid (blk d') bm' \<and>
    contact_at (blk d') bm' \<in> {contact_at (blk (card (dev p))) (usage_bitmap p),
      (contact_at (blk (card (dev p))) (usage_bitmap p))(index \<mapsto> c)} \<and>
    (r = STRG_OK \<longrightarrow> contact_at (blk d') bm' = (contact_at (blk (card (dev p))) (usage_bitmap p))(index \<mapsto> c)))"
  using write_contact_recovered [OF assms] by blast

end

subsection \<open>Removing a contact\<close>

lemma contact_at_cleared:
  assumes ch: "\<forall>j. used bm' j = (if j = i then v else used bm j)" "elsewhere_same i blk blk'"
    and i: "i = index div CONTACT_SECTOR_CAPACITY" "i < USAGE_BITMAP_TOTAL_BITS" and u: "used bm i"
    and b: "length (blk (DATA_SECTOR_TO_RAW i)) = SECTOR_SIZE"
    and new: "if v then blk' (DATA_SECTOR_TO_RAW i) = contact_clear (index mod CONTACT_SECTOR_CAPACITY) (blk (DATA_SECTOR_TO_RAW i))
      else \<forall>k. bit (cs_used_bitmap (contact_sector_of (blk (DATA_SECTOR_TO_RAW i)))) k \<longrightarrow> k = index mod CONTACT_SECTOR_CAPACITY"
  shows "contact_at blk' bm' = (contact_at blk bm)(index := None)"
proof (rule ext)
  fix slot
  show "contact_at blk' bm' slot = ((contact_at blk bm)(index := None)) slot"
  proof (cases "slot div CONTACT_SECTOR_CAPACITY = i")
    case False
    then have "slot \<noteq> index" using i(1) by auto
    then show ?thesis using contact_at_other [OF ch(2,1) i(2) False] by simp
  next
    case True
    have "index mod CONTACT_SECTOR_CAPACITY < 6" by (simp add: layout)
    note clr = contact_clear_props [OF b this]
    have ss: "slot mod CONTACT_SECTOR_CAPACITY = index mod CONTACT_SECTOR_CAPACITY \<longleftrightarrow> slot = index"
      using True i(1) by (intro same_slot) simp
    show ?thesis
    proof (cases v)
      case v: True
      then show ?thesis using True ch(1) u new clr(3,4) ss by (simp add: contact_at_def Let_def)
    next
      case v: False
      then show ?thesis using True ch(1) u new ss by (auto simp: contact_at_def Let_def)
    qed
  qed
qed

context reliable_store begin

lemma remove_contact_sem:
  assumes p: "pers_ok S ok blk p" and v: "contacts_valid (blk (dev p)) (usage_bitmap p)"
    and sec: "index div CONTACT_SECTOR_CAPACITY < TOTAL_CONTACT_SECTOR_SIZE"
    and w: "remove_contact S p fls index = (r, out, p', fls')"
  shows "case contact_at (blk (dev p)) (usage_bitmap p) index of
      Some c \<Rightarrow> r \<and> out = Some c \<and> fls' = free_list_free fls index \<and> pers_ok S ok blk p' \<and>
        contacts_valid (blk (dev p')) (usage_bitmap p') \<and>
        contact_at (blk (dev p')) (usage_bitmap p') = (contact_at (blk (dev p)) (usage_bitmap p))(index := None) \<and>
        elsewhere_same (index div CONTACT_SECTOR_CAPACITY) (blk (dev p)) (blk (dev p')) \<and>
        (\<forall>j. j \<noteq> index div CONTACT_SECTOR_CAPACITY \<longrightarrow> used (usage_bitmap p') j = used (usage_bitmap p) j)
    | None \<Rightarrow> \<not> r \<and> out = None \<and> fls' = fls \<and> usage_bitmap p' = usage_bitmap p \<and>
        same_data (blk (dev p)) (blk (dev p'))"
proof -
  let ?pos = "index mod CONTACT_SECTOR_CAPACITY"
  define i where "i = index div CONTACT_SECTOR_CAPACITY"
  define b where "b = blk (dev p) (DATA_SECTOR_TO_RAW i)"
  have it: "i < USAGE_BITMAP_TOTAL_BITS" "i < TOTAL_DATABASE_SECTOR_SIZE" "i < TOTAL_CONTACT_SECTOR_SIZE"
    using sec by (simp_all add: i_def layout)
  have raw: "DATA_SECTOR_TO_RAW i < 65536" using it(2) by (simp add: sector_defs layout)
  have chk: "check_usage_bit (usage_bitmap p) i = used (usage_bitmap p) i" by (rule check_usage_bit_used [OF it(1)])
  note pd = pers_okD [OF p]
  have pos: "?pos < 6" "?pos < 8" by (simp_all add: layout)
  show ?thesis
  proof (cases "used (usage_bitmap p) i")
    case False
    then show ?thesis using w chk by (simp add: remove_contact_def contact_at_def same_data_def flip: i_def)
  next
    case u: True
    have lb: "length b = SECTOR_SIZE" unfolding b_def by (rule blk_length [OF pd(1) pd(4) [OF it(2)]])
    then have lb': "length b = 512" by (simp add: layout)
    have ob: "contact_block_ok b" using v u it(3) by (simp add: contacts_valid_def b_def)
    then have vb: "sector_crc_valid b" by (simp add: contact_block_ok_def)
    have st: "sector_crc_stamp b = b" by (rule valid_imp_stamp [OF lb vb])
    have rd: "read_contact_sector S (dev p) i = Inr (contact_sector_of b)"
      using read_sector_valid [OF pd(1) pd(4) [OF it(2)] raw] vb it(3) by (simp add: read_contact_sector_def b_def)
    have bb: "contact_sector_bytes (contact_sector_of b) = b" by (rule contact_sector_bytes_of [OF lb'])
    obtain pa where a: "journal_add S p JRNL_CONTACT i b = (True, b, pa)"
      using journal_add_reliable [OF p it(1) _ lb, of JRNL_CONTACT] journal_add_in_progress [OF p it(1) _ lb, of JRNL_CONTACT]
      by (cases "journal_add S p JRNL_CONTACT i b") (auto simp: st)
    have A: "ok (dev pa)" "capacity S (dev pa) = capacity S (dev p)" "usage_bitmap pa = usage_bitmap p"
        "bitmap_synced (blk (dev pa)) (usage_bitmap pa)" "journal_header_wf (j_header (journal pa))"
        "jh_magic (j_header (journal pa)) = JRNL_MAGIC" "same_data (blk (dev p)) (blk (dev pa))"
        "in_progress (blk (dev p)) JRNL_CONTACT i b (blk (dev pa))"
      using journal_add_in_progress [OF p it(1) _ lb a] st by auto
    have cap: "DATA_REGION_START_SECTOR + TOTAL_DATABASE_SECTOR_SIZE \<le> capacity S (dev pa)" using p A(2) by (simp add: pers_ok_def)
    define bits where "bits = cs_used_bitmap (contact_sector_of b)"
    have at: "contact_at (blk (dev p)) (usage_bitmap p) index =
        (if bit bits ?pos then Some (cs_contacts (contact_sector_of b) ! ?pos) else None)"
      using u by (simp add: contact_at_def b_def bits_def flip: i_def)
    show ?thesis
    proof (cases "bit bits ?pos")
      case False
      then show ?thesis using w chk u rd bb a A(3,7) slot_test [OF pos(2), of bits]
        by (simp add: remove_contact_def contact_data_sector Let_def at flip: i_def bits_def)
    next
      case set: True
      define cs where "cs = (contact_sector_of b)\<lparr>cs_used_bitmap := bits AND NOT (slot_bit ?pos)\<rparr>"
      have wfcs: "contact_sector_wf cs" using contact_sector_wf_of [OF lb'] by (simp add: cs_def contact_sector_wf_def)
      then have lcs: "length (contact_sector_bytes cs) = SECTOR_SIZE" by (simp add: layout)
      have scs: "sector_crc_stamp (contact_sector_bytes cs) = contact_clear ?pos b"
        by (simp add: contact_clear_def cs_def bits_def)
      define v' where "v' = (bits AND NOT (slot_bit ?pos) \<noteq> 0)"
      have csb: "cs_used_bitmap cs = 0 \<longleftrightarrow> \<not> v'" "bits AND NOT (slot_bit ?pos) = 0 \<longleftrightarrow> \<not> v'"
        by (simp_all add: cs_def v'_def)
      obtain p2 where P2: "ok (dev p2)" "capacity S (dev p2) = capacity S (dev p)" "journal p2 = journal pa"
          "bitmap_synced (blk (dev p2)) (usage_bitmap p2)" "elsewhere_same i (blk (dev p)) (blk (dev p2))"
        and used2: "\<forall>j. used (usage_bitmap p2) j = (if j = i then v' else used (usage_bitmap p) j)"
        and new2: "blk (dev p2) (DATA_SECTOR_TO_RAW i) = (if v' then contact_clear ?pos b else b)"
        and res: "(r, out, p', fls') = (let (ret, j, d) = journal_free S (dev p2) (journal p2);
             p = p2\<lparr>dev := d, journal := j\<rparr>
           in if \<not> strg_true ret then (False, Some (cs_contacts (contact_sector_of b) ! ?pos), p, fls)
              else (True, Some (cs_contacts (contact_sector_of b) ! ?pos), p, free_list_free fls index))"
      proof (cases v')
        case True
        have raw1: "DATA_SECTOR_TO_RAW i < capacity S (dev pa)"
          using cap it(2) by (simp add: sector_defs layout)
        obtain b2 d2 where ws: "write_sector S (dev pa) (DATA_SECTOR_TO_RAW i) (contact_sector_bytes cs) = (STRG_OK, b2, d2)"
          by (rule write_sector_in_range [OF A(1) raw1 raw lcs]) blast
        note W = write_raw_step [OF A(1) lcs it(1) ws A(4)]
        have wc: "write_contact_sector S (dev pa) i cs = (STRG_OK, contact_sector_of b2, d2)"
          using it(3) ws by (simp add: write_contact_sector_def)
        have "in_progress (blk (dev p)) JRNL_CONTACT i b (blk d2)"
          using in_progress_upd [OF A(8) it(1)] W by simp
        then have es: "elsewhere_same i (blk (dev p)) (blk d2)" by (simp add: in_progress_def)
        have W2: "ok d2" "capacity S d2 = capacity S (dev p)" "bitmap_synced (blk d2) (usage_bitmap pa)"
            "blk d2 (DATA_SECTOR_TO_RAW i) = contact_clear ?pos b"
          using W A(2) scs by auto
        have us: "\<forall>j. used (usage_bitmap pa) j = (if j = i then v' else used (usage_bitmap p) j)"
          using A(3) u True by simp
        have "(r, out, p', fls') = (let (ret, j, d) = journal_free S d2 (journal pa); p = pa\<lparr>dev := d, journal := j\<rparr>
           in if \<not> strg_true ret then (False, Some (cs_contacts (contact_sector_of b) ! ?pos), p, fls)
              else (True, Some (cs_contacts (contact_sector_of b) ! ?pos), p, free_list_free fls index))"
          using w chk u rd bb a slot_test [OF pos(2), of bits] set wc True
          by (cases "journal_free S d2 (journal pa)")
            (simp add: remove_contact_def contact_data_sector Let_def csb flip: i_def bits_def cs_def cong: if_cong)
        then show ?thesis using W2 es us True
          by (intro that [of "pa\<lparr>dev := d2\<rparr>"]) (simp_all add: Let_def)
      next
        case False
        obtain d2 bm2 where up: "update_usage_bit S (dev pa) (usage_bitmap pa) i False = (STRG_OK, d2, bm2)"
          using update_usage_bit_reliable [OF A(1,4) it(1), of False] cap
          by (cases "update_usage_bit S (dev pa) (usage_bitmap pa) i False") (auto simp: layout)
        note U = update_usage_bit_in_progress [OF A(1,4) it(1) A(8) up]
        have new: "blk d2 (DATA_SECTOR_TO_RAW i) = b"
          using U A(7) raw_not_meta [OF it(1)] by (simp add: same_data_def b_def)
        have es: "elsewhere_same i (blk (dev p)) (blk d2)" using U by (simp add: in_progress_def)
        have U2: "ok d2" "capacity S d2 = capacity S (dev p)" "bitmap_synced (blk d2) bm2"
            "\<forall>j. used bm2 j = (if j = i then v' else used (usage_bitmap p) j)"
          using U A(2,3) False by auto
        have "(r, out, p', fls') = (let (ret, j, d) = journal_free S d2 (journal pa);
             p = pa\<lparr>dev := d2, usage_bitmap := bm2, dev := d, journal := j\<rparr>
           in if \<not> strg_true ret then (False, Some (cs_contacts (contact_sector_of b) ! ?pos), p, fls)
              else (True, Some (cs_contacts (contact_sector_of b) ! ?pos), p, free_list_free fls index))"
          using w chk u rd bb a slot_test [OF pos(2), of bits] set up False
          by (cases "journal_free S d2 (journal pa)")
            (simp add: remove_contact_def contact_data_sector Let_def csb flip: i_def bits_def cs_def cong: if_cong)
        then show ?thesis using U2 es new False
          by (intro that [of "pa\<lparr>dev := d2, usage_bitmap := bm2\<rparr>"]) (simp_all add: Let_def)
      qed
      have h2: "JRNL_HEADER_SECTOR < capacity S (dev p2)" using cap A(2) P2(2) by (simp add: layout)
      obtain j3 d3 where f3: "journal_free S (dev p2) (journal p2) = (STRG_OK, j3, d3)"
        using journal_free_reliable [OF P2(1) h2] A(5) P2(3) by (metis prod_cases3 fst_conv)
      have F3: "ok d3" "capacity S d3 = capacity S (dev p2)" "journal_idle (blk d3)"
          "\<forall>k. k \<noteq> JRNL_HEADER_SECTOR \<longrightarrow> blk d3 k = blk (dev p2) k"
        using journal_free_completes [OF P2(1) _ _ f3] A(5,6) P2(3) by auto
      have eq: "r" "out = Some (cs_contacts (contact_sector_of b) ! ?pos)" "fls' = free_list_free fls index"
          "p' = p2\<lparr>dev := d3, journal := j3\<rparr>"
        using res f3 by simp_all
      have sd: "same_data (blk (dev p2)) (blk d3)" using F3(4) by (simp add: same_data_def)
      then have syn: "bitmap_synced (blk d3) (usage_bitmap p2)" using P2(4) synced_same_data by blast
      have es: "elsewhere_same i (blk (dev p)) (blk d3)" using P2(5) F3(4) by (simp add: elsewhere_same_def)
      have new3: "blk d3 (DATA_SECTOR_TO_RAW i) = (if v' then contact_clear ?pos b else b)"
        using new2 F3(4) raw_not_meta [OF it(1)] by simp
      have "bit (bits AND NOT (slot_bit ?pos)) k \<longleftrightarrow> bit bits k \<and> k \<noteq> ?pos" for k
        by (auto simp: bit_and_iff bit_not_iff bit_slot [OF pos(2)] dest: bit_imp_le_length)
      then have "\<not> v' \<Longrightarrow> \<forall>k. bit bits k \<longrightarrow> k = ?pos" unfolding v'_def by (metis bit_0_eq bot_apply bot_bool_def)
      then have "contact_at (blk d3) (usage_bitmap p2) = (contact_at (blk (dev p)) (usage_bitmap p))(index := None)"
        using contact_at_cleared [OF used2 es i_def it(1) u] lb new3 by (simp add: b_def bits_def)
      moreover have "contacts_valid (blk d3) (usage_bitmap p2)"
        using contacts_valid_step [OF v used2 es it(1)] new3 contact_block_clear [OF lb pos(1) ob] by auto
      moreover have "pers_ok S ok blk p'"
        using p F3 P2(2) syn eq(4) by (simp add: pers_ok_def)
      ultimately show ?thesis using eq es set used2 by (simp add: at i_def)
    qed
  qed
qed

end

subsection \<open>Helpers of the contact format\<close>

lemma create_contact_fields:
  assumes "0 \<notin> set name" and "0 \<notin> set phone" and "length name \<le> MAX_NAME_LEN" and "length phone \<le> MAX_PHONE_LEN"
  shows "contact_wf (create_contact name phone)" and "take (c_name_len (create_contact name phone)) (c_name (create_contact name phone)) = name"
    and "cstr (c_phone (create_contact name phone)) = phone" and "c_phone_len (create_contact name phone) = length phone"
  using assms by (simp_all add: create_contact_def contact_wf_def contact_zero_def layout) (simp add: pad_to_def)

lemma create_contact_too_long:
  "length name > MAX_NAME_LEN \<or> length phone > MAX_PHONE_LEN \<Longrightarrow> create_contact name phone = contact_zero"
  by (simp add: create_contact_def)

lemma create_contact_wf [simp]: "contact_wf (create_contact name phone)"
  by (simp add: create_contact_def contact_wf_def contact_zero_def layout)

lemma read_n_contacts_loop_eq:
  "read_n_contacts_loop cs n w k = map (\<lambda>b. cs_contacts cs ! b) (take (nat (n - k)) (set_bits_of w))"
proof (induction cs n w k rule: read_n_contacts_loop.induct)
  case (1 cs n w k)
  show ?case
  proof (cases "w = 0 \<or> k \<ge> n")
    case True
    then show ?thesis by (subst read_n_contacts_loop.simps) auto
  next
    case False
    then have ne: "set_bits_of w \<noteq> []" and "nat (n - k) = Suc (nat (n - (k + 1)))" by auto
    moreover obtain x xs where "set_bits_of w = x # xs" using ne by (cases "set_bits_of w") auto
    ultimately show ?thesis using False 1
      by (subst read_n_contacts_loop.simps) (simp add: set_bits_of_clear_lowest ctz_def)
  qed
qed

lemma read_n_contacts_in_sector_eq:
  "read_n_contacts_in_sector cs n = map (\<lambda>b. cs_contacts cs ! b) (take (nat n) (set_bits_of (cs_used_bitmap cs)))"
  by (simp add: read_n_contacts_in_sector_def read_n_contacts_loop_eq)

end
