(* ===== verification/Message.thy ===== *)
theory Message
  imports Transaction Free_List
begin

text \<open>
  Messages on the card: \<^verbatim>\<open>source/app/src/message.c\<close>.  A message sector holds up to three
  messages and a header that chains it to the older (\<open>ms_prev\<close>) and newer (\<open>ms_next\<close>) sectors
  of the same chat; \<open>index\<close> arguments are message sector indices.

  \<^item> \<open>Message\<close> and \<open>MessageSector\<close> are the packed structs, with their codecs.
  \<^item> \<open>chat\<close> is the abstract state: the chain of sectors behind a head and the messages in it,
    newest first.  The functional lemmas say that \<open>read_n_messages\<close> returns a segment of that
    list and that the three write operations put one message in front of it.
\<close>

subsection \<open>Records and codecs\<close>

record Message =
  m_timestamp_hi :: nat
  m_timestamp_lo :: nat
  m_direction :: byte
  m_str :: "byte list"
  m_padding :: byte

definition message_of :: "byte list \<Rightarrow> Message" where
  "message_of b = \<lparr>m_timestamp_hi = rd16 (slice 0 2 b), m_timestamp_lo = rd16 (slice 2 2 b), m_direction = b ! 4,
     m_str = slice 5 SMS_MAX_MESSAGE_LENGTH b, m_padding = b ! 165\<rparr>"

definition message_bytes :: "Message \<Rightarrow> byte list" where
  "message_bytes m = le16 (m_timestamp_hi m) @ le16 (m_timestamp_lo m) @ [m_direction m] @ m_str m @ [m_padding m]"

definition message_wf :: "Message \<Rightarrow> bool" where
  "message_wf m \<longleftrightarrow> m_timestamp_hi m < 65536 \<and> m_timestamp_lo m < 65536 \<and> length (m_str m) = 160"

lemma message_of_bytes [codec]: "message_wf m \<Longrightarrow> message_of (message_bytes m) = m"
  by (simp add: message_wf_def message_of_def message_bytes_def slice_prefix rd16_le16 nth_append layout)

lemma message_bytes_of [codec]: "length b = 166 \<Longrightarrow> message_bytes (message_of b) = b"
  by (simp add: message_of_def message_bytes_def layout le16_rd16 slice_join slice_cons slice_as_nth [symmetric])

lemma message_wf_of: "length b = 166 \<Longrightarrow> message_wf (message_of b)"
  by (simp add: message_wf_def message_of_def layout rd16_less)

lemma length_message_bytes [simp]: "message_wf m \<Longrightarrow> length (message_bytes m) = 166"
  by (simp add: message_bytes_def message_wf_def)

text \<open>The header fields are inlined in the sector record.\<close>

record MessageSector =
  ms_next :: nat
  ms_prev :: nat
  ms_msg_count :: nat
  ms_contact_index :: nat
  ms_messages :: "Message list"
  ms_padding :: "byte list"
  ms_crc :: nat

definition message_sector_of :: "byte list \<Rightarrow> MessageSector" where
  "message_sector_of b = \<lparr>ms_next = rd16 (slice 0 2 b), ms_prev = rd16 (slice 2 2 b), ms_msg_count = rd16 (slice 4 2 b),
     ms_contact_index = rd16 (slice 6 2 b), ms_messages = decode_array 8 MESSAGE_BYTES MESSAGE_SECTOR_CAPACITY message_of b,
     ms_padding = slice 506 MESSAGE_SECTOR_PADDING b, ms_crc = rd32 (slice 508 4 b)\<rparr>"

definition message_sector_bytes :: "MessageSector \<Rightarrow> byte list" where
  "message_sector_bytes s = (le16 (ms_next s) @ le16 (ms_prev s) @ le16 (ms_msg_count s) @ le16 (ms_contact_index s)) @
     concat (map message_bytes (ms_messages s)) @ ms_padding s @ le32 (ms_crc s)"

definition message_sector_wf :: "MessageSector \<Rightarrow> bool" where
  "message_sector_wf s \<longleftrightarrow> ms_next s < 65536 \<and> ms_prev s < 65536 \<and> ms_msg_count s < 65536 \<and> ms_contact_index s < 65536 \<and>
     length (ms_messages s) = 3 \<and> (\<forall>m \<in> set (ms_messages s). message_wf m) \<and> length (ms_padding s) = 2 \<and> ms_crc s < 2 ^ 32"

lemma length_messages_bytes:
  "message_sector_wf s \<Longrightarrow> length (concat (map message_bytes (ms_messages s))) = 498"
  using length_encode_array [of "ms_messages s" message_bytes 166] by (simp add: message_sector_wf_def)

lemma length_message_sector_bytes [simp]: "message_sector_wf s \<Longrightarrow> length (message_sector_bytes s) = 512"
  using length_messages_bytes [of s] by (simp add: message_sector_bytes_def message_sector_wf_def del: length_concat)

lemma message_sector_of_bytes [codec]:
  assumes "message_sector_wf s"
  shows "message_sector_of (message_sector_bytes s) = s"
proof -
  let ?ms = "concat (map message_bytes (ms_messages s))"
    and ?h = "le16 (ms_next s) @ le16 (ms_prev s) @ le16 (ms_msg_count s) @ le16 (ms_contact_index s)"
  have "decode_array 8 166 3 message_of (?h @ ?ms @ ms_padding s @ le32 (ms_crc s)) = ms_messages s"
    using assms by (intro decode_encode_array) (auto simp: message_sector_wf_def message_of_bytes)
  then show ?thesis using assms length_messages_bytes [OF assms]
    by (simp add: message_sector_of_def message_sector_bytes_def layout slice_prefix rd32_le32 rd16_le16
        message_sector_wf_def del: length_concat)
qed

lemma message_sector_bytes_of [codec]:
  assumes "length b = 512"
  shows "message_sector_bytes (message_sector_of b) = b"
  using encode_decode_array [of 166 message_bytes message_of 8 3 b] assms
  by (simp add: message_sector_of_def message_sector_bytes_def layout message_bytes_of le32_rd32 le16_rd16 slice_join)

lemma message_sector_wf_of: "length b = 512 \<Longrightarrow> message_sector_wf (message_sector_of b)"
  by (auto simp: message_sector_wf_def message_sector_of_def layout rd32_less rd16_less decode_array_def intro!: message_wf_of)

lemma message_sector_of_stamp:
  "length b = SECTOR_SIZE \<Longrightarrow> message_sector_of (sector_crc_stamp b) =
   (message_sector_of b)\<lparr>ms_crc := rd32 (slice 508 4 (sector_crc_stamp b))\<rparr>"
  by (simp add: message_sector_of_def decode_array_def layout)

subsection \<open>Sector access\<close>

definition read_message_sector :: "'c Storage \<Rightarrow> 'c \<Rightarrow> nat \<Rightarrow> MessageSector res" where
  "read_message_sector S d index =
     (case read_sector S d (DATA_SECTOR_TO_RAW (MESSAGE_DATA_SECTOR index)) of
        Inl ret \<Rightarrow> Inl ret | Inr b \<Rightarrow> Inr (message_sector_of b))"

definition write_message_sector :: "'c Storage \<Rightarrow> 'c \<Rightarrow> nat \<Rightarrow> MessageSector \<Rightarrow> STRG_RET \<times> MessageSector \<times> 'c" where
  "write_message_sector S d index mSector =
     (let (ret, b, d') = write_sector S d (DATA_SECTOR_TO_RAW (MESSAGE_DATA_SECTOR index)) (message_sector_bytes mSector)
      in (ret, message_sector_of b, d'))"

text \<open>\<^verbatim>\<open>MESSAGE_DATA_SECTOR(index)\<close> as an argument of a 16-bit parameter.\<close>

definition msg_sector :: "nat \<Rightarrow> nat" where
  "msg_sector index = to_u16 (MESSAGE_DATA_SECTOR index)"

subsection \<open>Writing\<close>

definition create_new_message_sector :: "nat \<Rightarrow> nat \<Rightarrow> MessageSector" where
  "create_new_message_sector contact_index prev =
     (message_sector_of (replicate SECTOR_SIZE 0))
       \<lparr>ms_prev := prev, ms_next := UINT16_MAX, ms_msg_count := 0, ms_contact_index := contact_index\<rparr>"

text \<open>The statements the three write operations share, from \<^verbatim>\<open>journal_add\<close> on: slot \<open>pos\<close>
  receives the message and the count goes up.\<close>

definition store_message :: "'c Storage \<Rightarrow> 'c pers \<Rightarrow> nat \<Rightarrow> nat \<Rightarrow> Message \<Rightarrow> MessageSector \<Rightarrow> STRG_RET \<times> 'c pers" where
  "store_message S p index pos m mSector =
     (let (added, buf, p) = journal_add S p JRNL_MESSAGE (msg_sector index) (message_sector_bytes mSector);
          mSector = message_sector_of buf
      in if \<not> added then (STRG_FAIL, p)
         else let (ret, d, bm) = update_usage_bit S (dev p) (usage_bitmap p) (msg_sector index) True;
                  p = p\<lparr>dev := d, usage_bitmap := bm\<rparr>
         in if \<not> strg_true ret then (STRG_FAIL, p)
         else let mSector = mSector\<lparr>ms_messages := (ms_messages mSector)[pos := m],
                                    ms_msg_count := to_u16 (ms_msg_count mSector + 1)\<rparr>;
                  (ret, _, d) = write_message_sector S (dev p) index mSector;
                  p = p\<lparr>dev := d\<rparr>
         in if \<not> strg_true ret then (STRG_FAIL, p)
         else let (ret, j, d) = journal_free S (dev p) (journal p);
                  p = p\<lparr>dev := d, journal := j\<rparr>
         in if \<not> strg_true ret then (STRG_FAIL, p) else (STRG_OK, p))"

definition write_message :: "'c Storage \<Rightarrow> 'c pers \<Rightarrow> nat \<Rightarrow> Message \<Rightarrow> STRG_RET \<times> 'c pers" where
  "write_message S p index m =
     (if check_usage_bit (usage_bitmap p) (msg_sector index) then
        case read_message_sector S (dev p) index of
          Inl read_ret \<Rightarrow> (read_ret, p)
        | Inr mSector \<Rightarrow>
            let msg_count = ms_msg_count mSector
            in if msg_count \<ge> MESSAGE_SECTOR_CAPACITY then (STRG_FULL, p)
               else store_message S p index msg_count m mSector
      else (STRG_EMPTY, p))"

definition write_new_message_sector :: "'c Storage \<Rightarrow> 'c pers \<Rightarrow> nat \<Rightarrow> nat \<Rightarrow> Message \<Rightarrow> STRG_RET \<times> 'c pers" where
  "write_new_message_sector S p contact_index index m =
     (if check_usage_bit (usage_bitmap p) (msg_sector index) then (STRG_FULL, p)
      else store_message S p index 0 m (create_new_message_sector contact_index UINT16_MAX))"

definition point_message_sector_to_next :: "'c Storage \<Rightarrow> 'c pers \<Rightarrow> nat \<Rightarrow> nat \<Rightarrow> STRG_RET \<times> 'c pers" where
  "point_message_sector_to_next S p next prev =
     (case read_message_sector S (dev p) prev of
        Inl _ \<Rightarrow> (STRG_FAIL, p)
      | Inr mSector \<Rightarrow>
         let (added, buf, p) = journal_add S p JRNL_MESSAGE (msg_sector prev) (message_sector_bytes mSector);
             mSector = message_sector_of buf
         in if \<not> added then (STRG_FAIL, p)
         else let (ret, _, d) = write_message_sector S (dev p) prev (mSector\<lparr>ms_next := next\<rparr>);
                  p = p\<lparr>dev := d\<rparr>
         in if \<not> strg_true ret then (STRG_FAIL, p)
         else let (ret, j, d) = journal_free S (dev p) (journal p);
                  p = p\<lparr>dev := d, journal := j\<rparr>
         in if \<not> strg_true ret then (STRG_FAIL, p) else (STRG_OK, p))"

definition write_next_message_sector ::
    "'c Storage \<Rightarrow> 'c pers \<Rightarrow> nat \<Rightarrow> nat \<Rightarrow> nat \<Rightarrow> Message \<Rightarrow> STRG_RET \<times> 'c pers" where
  "write_next_message_sector S p contact_index prev next m =
     (if check_usage_bit (usage_bitmap p) (msg_sector next) then (STRG_FULL, p)
      else if \<not> check_usage_bit (usage_bitmap p) (msg_sector prev) then (STRG_EMPTY, p)
      else let (ret, p) = store_message S p next 0 m (create_new_message_sector contact_index prev)
           in if ret \<noteq> STRG_OK then (ret, p) else point_message_sector_to_next S p next prev)"

subsection \<open>Reading\<close>

definition read_message :: "'c Storage \<Rightarrow> 'c pers \<Rightarrow> nat \<Rightarrow> nat \<Rightarrow> Message res" where
  "read_message S p index pos =
     (if pos > MESSAGE_SECTOR_CAPACITY then Inl STRG_FAIL
      else if \<not> check_usage_bit (usage_bitmap p) (msg_sector index) then Inl STRG_EMPTY
      else case read_message_sector S (dev p) index of
        Inl ret \<Rightarrow> Inl ret
      | Inr mSector \<Rightarrow>
          let msg_count = ms_msg_count mSector
          in if msg_count > MESSAGE_SECTOR_CAPACITY then Inl STRG_FAIL
             else if pos \<ge> msg_count then Inl STRG_FAIL
             else Inr (ms_messages mSector ! (msg_count - pos - 1)))"

text \<open>The result on success: the hops made, the start offset, the sector found (the out
  parameters).\<close>

function find_message_n_index ::
    "'c Storage \<Rightarrow> 'c pers \<Rightarrow> nat \<Rightarrow> nat \<Rightarrow> nat \<Rightarrow> nat \<Rightarrow> MessageSector option \<Rightarrow> (nat \<times> nat \<times> MessageSector) res" where
  "find_message_n_index S p prev_index startMsg num_hops msg_passed found =
     (if msg_passed \<le> startMsg then
        if prev_index = UINT16_MAX then Inl STRG_FAIL
        else if num_hops \<ge> TOTAL_MESSAGE_SECTOR_SIZE then Inl STRG_FAIL
        else if \<not> check_usage_bit (usage_bitmap p) (msg_sector prev_index) then Inl STRG_EMPTY
        else case read_message_sector S (dev p) prev_index of
          Inl ret \<Rightarrow> Inl ret
        | Inr mSector \<Rightarrow>
            find_message_n_index S p (ms_prev mSector) startMsg (num_hops + 1) (msg_passed + ms_msg_count mSector) (Some mSector)
      else Inr (num_hops, to_u8 (msg_passed - 1 - startMsg), the found))"
  by pat_completeness auto
termination
  by (relation "measure (\<lambda>(_, _, _, _, h, _, _). TOTAL_MESSAGE_SECTOR_SIZE - h)") auto

text \<open>The copy loop; \<open>out\<close> holds what was copied so far, so \<^verbatim>\<open>*out_count\<close> is its length.\<close>

definition copy_messages_down :: "nat \<Rightarrow> MessageSector \<Rightarrow> int \<Rightarrow> Message list \<Rightarrow> Message list" where
  "copy_messages_down n mSector slots out = copy_down n (ms_messages mSector) slots out"

definition read_messages_from_p_in_sector :: "nat \<Rightarrow> nat \<Rightarrow> MessageSector \<Rightarrow> Message list \<Rightarrow> bool \<times> Message list" where
  "read_messages_from_p_in_sector n pos mSector out =
     (if n = 0 then (False, out)
      else if pos \<ge> ms_msg_count mSector \<or> ms_msg_count mSector > MESSAGE_SECTOR_CAPACITY then (False, out)
      else (True, copy_messages_down n mSector (int pos) out))"

definition read_messages_from_sector :: "nat \<Rightarrow> MessageSector \<Rightarrow> Message list \<Rightarrow> bool \<times> Message list" where
  "read_messages_from_sector n mSector out =
     (if n = 0 then (False, out)
      else if ms_msg_count mSector > MESSAGE_SECTOR_CAPACITY then (False, out)
      else (True, copy_messages_down n mSector (int (ms_msg_count mSector) - 1) out))"

function read_n_messages_loop ::
    "'c Storage \<Rightarrow> 'c pers \<Rightarrow> nat \<Rightarrow> nat \<Rightarrow> nat \<Rightarrow> Message list \<Rightarrow> STRG_RET \<times> Message list" where
  "read_n_messages_loop S p n prev_index hops out =
     (if length out < n then
        if prev_index = UINT16_MAX then (STRG_OK, out)
        else if hops \<ge> TOTAL_MESSAGE_SECTOR_SIZE then (STRG_FAIL, out)
        else if \<not> check_usage_bit (usage_bitmap p) (msg_sector prev_index) then (STRG_EMPTY, out)
        else case read_message_sector S (dev p) prev_index of
          Inl ret \<Rightarrow> (ret, out)
        | Inr mSector \<Rightarrow>
            (case read_messages_from_sector n mSector out of
               (False, out) \<Rightarrow> (STRG_FAIL, out)
             | (True, out) \<Rightarrow> read_n_messages_loop S p n (ms_prev mSector) (hops + 1) out)
      else (STRG_OK, out))"
  by pat_completeness auto
termination
  by (relation "measure (\<lambda>(_, _, _, _, h, _). TOTAL_MESSAGE_SECTOR_SIZE - h)") auto

definition read_n_messages :: "'c Storage \<Rightarrow> 'c pers \<Rightarrow> nat \<Rightarrow> nat \<Rightarrow> nat \<Rightarrow> STRG_RET \<times> Message list" where
  "read_n_messages S p startIndex startMsg n =
     (if n = 0 then (STRG_OK, [])
      else if startIndex = UINT16_MAX then (STRG_OK, [])
      else case find_message_n_index S p startIndex startMsg 0 0 None of
        Inl ret \<Rightarrow> (ret, [])
      | Inr (hops, pos, curMSector) \<Rightarrow>
          (case read_messages_from_p_in_sector n pos curMSector [] of
             (False, out) \<Rightarrow> (STRG_FAIL, out)
           | (True, out) \<Rightarrow> read_n_messages_loop S p n (ms_prev curMSector) hops out))"

declare find_message_n_index.simps [simp del] read_n_messages_loop.simps [simp del]

subsection \<open>Removing\<close>

definition remove_message_sector ::
    "'c Storage \<Rightarrow> 'c pers \<Rightarrow> FreeList \<Rightarrow> nat \<Rightarrow> STRG_RET \<times> MessageSector option \<times> 'c pers \<times> FreeList" where
  "remove_message_sector S p fls index =
     (if \<not> check_usage_bit (usage_bitmap p) (msg_sector index) then (STRG_EMPTY, None, p, fls)
      else case read_message_sector S (dev p) index of
        Inl ret \<Rightarrow> (ret, None, p, fls)
      | Inr out \<Rightarrow>
         let (added, buf, p) = journal_add S p JRNL_MESSAGE (msg_sector index) (message_sector_bytes out);
             out = message_sector_of buf
         in if \<not> added then (bool_strg added, Some out, p, fls)
         else let (ret, d, bm) = update_usage_bit S (dev p) (usage_bitmap p) (msg_sector index) False;
                  p = p\<lparr>dev := d, usage_bitmap := bm\<rparr>
         in if ret \<noteq> STRG_OK then (ret, Some out, p, fls)
         else let (ret, j, d) = journal_free S (dev p) (journal p);
                  p = p\<lparr>dev := d, journal := j\<rparr>
         in if ret \<noteq> STRG_OK then (ret, Some out, p, fls)
         else (STRG_OK, Some out, p, free_list_free fls index))"

text \<open>The loop follows the \<open>prev\<close> links with no bound on the hops; on a cyclic chain it stops
  at the first sector it has already released.  \<open>None\<close> would be a loop that does not end.\<close>

partial_function (option) remove_message_chat ::
    "'c Storage \<Rightarrow> 'c pers \<Rightarrow> FreeList \<Rightarrow> nat \<Rightarrow> (bool \<times> 'c pers \<times> FreeList) option" where
  "remove_message_chat S p fls curIndex =
     (if curIndex \<noteq> UINT16_MAX then
        case remove_message_sector S p fls curIndex of
          (ret, out, p, fls) \<Rightarrow>
            if ret \<noteq> STRG_OK then Some (False, p, fls)
            else remove_message_chat S p fls (ms_prev (the out))
      else Some (True, p, fls))"

definition remove_message_bit :: "'c Storage \<Rightarrow> 'c pers \<Rightarrow> nat \<Rightarrow> STRG_RET \<times> 'c pers" where
  "remove_message_bit S p index =
     (let (added, _, p) = journal_add S p JRNL_REMOVE (msg_sector index) []
      in if \<not> added then (STRG_FAIL, p)
         else let (ret, d, bm) = update_usage_bit S (dev p) (usage_bitmap p) (msg_sector index) False;
                  p = p\<lparr>dev := d, usage_bitmap := bm\<rparr>
         in if ret \<noteq> STRG_OK then (ret, p)
         else let (ret, j, d) = journal_free S (dev p) (journal p) in (ret, p\<lparr>dev := d, journal := j\<rparr>))"

function remove_orphaned_message_chat_loop ::
    "'c Storage \<Rightarrow> 'c pers \<Rightarrow> FreeList \<Rightarrow> nat \<Rightarrow> nat \<Rightarrow> nat \<Rightarrow> STRG_RET \<times> 'c pers \<times> FreeList" where
  "remove_orphaned_message_chat_loop S p fls startIndex jumps prev =
     (if prev \<noteq> UINT16_MAX then
        let curr = prev
        in if \<not> check_usage_bit (usage_bitmap p) (msg_sector curr) then (STRG_EMPTY, p, fls)
        else case read_message_sector S (dev p) curr of
          Inl ret \<Rightarrow> (ret, p, fls)
        | Inr mSector \<Rightarrow>
            let (ret, p) = remove_message_bit S p curr
            in if ret \<noteq> STRG_OK then (ret, p, fls)
            else let fls = (if curr \<le> startIndex then free_list_free fls curr else fls)
            in if jumps \<ge> TOTAL_MESSAGE_SECTOR_SIZE then (STRG_FAIL, p, fls)
            else remove_orphaned_message_chat_loop S p fls startIndex (jumps + 1) (ms_prev mSector)
      else (STRG_OK, p, fls))"
  by pat_completeness auto
termination
  by (relation "measure (\<lambda>(_, _, _, _, j, _). Suc TOTAL_MESSAGE_SECTOR_SIZE - j)") auto

declare remove_orphaned_message_chat_loop.simps [simp del]

definition remove_orphaned_message_chat ::
    "'c Storage \<Rightarrow> 'c pers \<Rightarrow> FreeList \<Rightarrow> nat \<Rightarrow> STRG_RET \<times> 'c pers \<times> FreeList" where
  "remove_orphaned_message_chat S p fls startIndex = remove_orphaned_message_chat_loop S p fls startIndex 0 startIndex"

subsection \<open>Building a message\<close>

definition message_zero :: Message where
  "message_zero = \<lparr>m_timestamp_hi = 0, m_timestamp_lo = 0, m_direction = 0, m_str = replicate 160 0, m_padding = 0\<rparr>"

definition create_message :: "nat \<Rightarrow> bool \<Rightarrow> byte list option \<Rightarrow> Message" where
  "create_message timestamp direction str =
     (case str of
        None \<Rightarrow> message_zero
      | Some s \<Rightarrow>
          if timestamp = 0 then message_zero
          else let len = (if length s \<ge> SMS_MAX_MESSAGE_LENGTH then SMS_MAX_MESSAGE_LENGTH - 1 else length s)
               in message_zero\<lparr>m_timestamp_hi := timestamp div 65536, m_timestamp_lo := timestamp mod 65536,
                               m_direction := of_bool direction, m_str := pad_to 160 (take len s)\<rparr>)"

subsection \<open>Chats\<close>

definition msg_block :: "(nat \<Rightarrow> byte list) \<Rightarrow> nat \<Rightarrow> MessageSector" where
  "msg_block blk s = message_sector_of (blk (DATA_SECTOR_TO_RAW (MESSAGE_DATA_SECTOR s)))"

definition sector_msgs :: "MessageSector \<Rightarrow> Message list" where
  "sector_msgs s = rev (take (ms_msg_count s) (ms_messages s))"

text \<open>\<open>chat blk bm h ss\<close>: the sectors \<open>ss\<close> are the chain from head \<open>h\<close> back to the oldest sector.\<close>

fun chat :: "(nat \<Rightarrow> byte list) \<Rightarrow> u32 list \<Rightarrow> nat \<Rightarrow> nat list \<Rightarrow> bool" where
  "chat blk bm h [] = (h = UINT16_MAX)"
| "chat blk bm h (s # ss) = (h = s \<and> s < TOTAL_MESSAGE_SECTOR_SIZE \<and> used bm (MESSAGE_DATA_SECTOR s) \<and>
     sector_crc_valid (blk (DATA_SECTOR_TO_RAW (MESSAGE_DATA_SECTOR s))) \<and>
     0 < ms_msg_count (msg_block blk s) \<and> ms_msg_count (msg_block blk s) \<le> MESSAGE_SECTOR_CAPACITY \<and> chat blk bm (ms_prev (msg_block blk s)) ss)"

definition chat_msgs :: "(nat \<Rightarrow> byte list) \<Rightarrow> nat list \<Rightarrow> Message list" where
  "chat_msgs blk ss = concat (map (\<lambda>s. sector_msgs (msg_block blk s)) ss)"

lemma chat_msgs_simps [simp]:
  "chat_msgs blk [] = []" "chat_msgs blk (s # ss) = sector_msgs (msg_block blk s) @ chat_msgs blk ss"
  by (simp_all add: chat_msgs_def)

lemma msg_sector_eq [simp]: "s < TOTAL_MESSAGE_SECTOR_SIZE \<Longrightarrow> msg_sector s = MESSAGE_DATA_SECTOR s"
  by (simp add: msg_sector_def sector_defs layout)

lemma msg_sector_bounds:
  assumes "s < TOTAL_MESSAGE_SECTOR_SIZE"
  shows "MESSAGE_DATA_SECTOR s < USAGE_BITMAP_TOTAL_BITS" "MESSAGE_DATA_SECTOR s < TOTAL_DATABASE_SECTOR_SIZE"
    "DATA_SECTOR_TO_RAW (MESSAGE_DATA_SECTOR s) < 65536" "s < UINT16_MAX"
  using assms by (simp_all add: sector_defs layout)

lemma message_sector_inject [simp]: "MESSAGE_DATA_SECTOR s = MESSAGE_DATA_SECTOR t \<longleftrightarrow> s = t"
  by (simp add: sector_defs)

lemma length_messages [simp]: "length (ms_messages (message_sector_of b)) = 3"
  by (simp add: message_sector_of_def layout)

lemma copy_messages_down_eq:
  "k \<le> length (ms_messages sec) \<Longrightarrow>
   copy_messages_down n sec (int k - 1) out = out @ take (n - length out) (rev (take k (ms_messages sec)))"
  by (simp add: copy_messages_down_def copy_down_eq)

context reliable_store begin

lemma read_message_sector_valid:
  assumes "pers_ok S ok blk p" and "s < TOTAL_MESSAGE_SECTOR_SIZE"
    and "sector_crc_valid (blk (dev p) (DATA_SECTOR_TO_RAW (MESSAGE_DATA_SECTOR s)))"
  shows "read_message_sector S (dev p) s = Inr (msg_block (blk (dev p)) s)"
  using read_sector_valid [OF pers_okD(1) [OF assms(1)] pers_okD(4) [OF assms(1) msg_sector_bounds(2) [OF assms(2)]]
      msg_sector_bounds(3) [OF assms(2)]] assms(3)
  by (simp add: read_message_sector_def msg_block_def)

lemma read_n_messages_loop_chat:
  assumes p: "pers_ok S ok blk p" and "chat (blk (dev p)) (usage_bitmap p) h ss"
    and "hops + length ss \<le> TOTAL_MESSAGE_SECTOR_SIZE"
  shows "read_n_messages_loop S p n h hops out = (STRG_OK, out @ take (n - length out) (chat_msgs (blk (dev p)) ss))"
  using assms(2,3)
proof (induction ss arbitrary: h hops out)
  case Nil
  then show ?case by (subst read_n_messages_loop.simps) simp
next
  case (Cons s ss)
  let ?sec = "msg_block (blk (dev p)) s"
  have s: "s < TOTAL_MESSAGE_SECTOR_SIZE" "h = s" "ms_msg_count ?sec \<le> 3" using Cons.prems(1) by (simp_all add: layout)
  have chk: "check_usage_bit (usage_bitmap p) (msg_sector s)"
    using Cons.prems(1) check_usage_bit_used [OF msg_sector_bounds(1) [OF s(1)]] s(1) by simp
  have rd: "read_message_sector S (dev p) s = Inr ?sec"
    using read_message_sector_valid [OF p s(1)] Cons.prems(1) by simp
  show ?case
  proof (cases "length out < n")
    case True
    let ?out = "out @ take (n - length out) (sector_msgs ?sec)"
    have cp: "read_messages_from_sector n ?sec out = (True, ?out)"
      using True s(3) copy_messages_down_eq [of "ms_msg_count ?sec" ?sec n out]
      by (simp add: read_messages_from_sector_def sector_msgs_def msg_block_def layout)
    have "read_n_messages_loop S p n h hops out = read_n_messages_loop S p n (ms_prev ?sec) (hops + 1) ?out"
      using True s rd chk cp Cons.prems msg_sector_bounds(4) [OF s(1)] by (subst read_n_messages_loop.simps) simp
    also have "\<dots> = (STRG_OK, ?out @ take (n - length ?out) (chat_msgs (blk (dev p)) ss))"
      using Cons.prems by (intro Cons.IH) simp_all
    finally show ?thesis using True by (simp add: min_def)
  next
    case False
    then show ?thesis by (subst read_n_messages_loop.simps) simp
  qed
qed

lemma find_message_n_index_chat:
  assumes p: "pers_ok S ok blk p" and "chat (blk (dev p)) (usage_bitmap p) h ss"
    and "hops + length ss \<le> TOTAL_MESSAGE_SECTOR_SIZE" and "passed \<le> startMsg"
  shows "if startMsg < passed + length (chat_msgs (blk (dev p)) ss) then
      \<exists>s ss1 ss2 off. ss = ss1 @ s # ss2 \<and> s < TOTAL_MESSAGE_SECTOR_SIZE \<and>
        find_message_n_index S p h startMsg hops passed found = Inr (hops + length ss1 + 1, off, msg_block (blk (dev p)) s) \<and>
        off < ms_msg_count (msg_block (blk (dev p)) s) \<and> ms_msg_count (msg_block (blk (dev p)) s) \<le> 3 \<and>
        chat (blk (dev p)) (usage_bitmap p) (ms_prev (msg_block (blk (dev p)) s)) ss2 \<and>
        rev (take (off + 1) (ms_messages (msg_block (blk (dev p)) s))) @ chat_msgs (blk (dev p)) ss2 =
          drop (startMsg - passed) (chat_msgs (blk (dev p)) ss)
    else find_message_n_index S p h startMsg hops passed found = Inl STRG_FAIL"
  using assms(2-4)
proof (induction ss arbitrary: h hops passed found)
  case Nil
  then show ?case by (subst find_message_n_index.simps) simp
next
  case (Cons s ss)
  let ?sec = "msg_block (blk (dev p)) s" and ?cnt = "ms_msg_count (msg_block (blk (dev p)) s)"
  have s: "s < TOTAL_MESSAGE_SECTOR_SIZE" "h = s" "?cnt \<le> 3"
      "chat (blk (dev p)) (usage_bitmap p) (ms_prev ?sec) ss"
    using Cons.prems(1) by (simp_all add: layout)
  have chk: "check_usage_bit (usage_bitmap p) (msg_sector s)"
    using Cons.prems(1) check_usage_bit_used [OF msg_sector_bounds(1) [OF s(1)]] s(1) by simp
  have rd: "read_message_sector S (dev p) s = Inr ?sec"
    using read_message_sector_valid [OF p s(1)] Cons.prems(1) by simp
  have lm: "length (ms_messages ?sec) = 3" by (simp add: msg_block_def)
  have lsm: "length (sector_msgs ?sec) = ?cnt" using s(3) lm by (simp add: sector_msgs_def)
  have step: "find_message_n_index S p h startMsg hops passed found =
      find_message_n_index S p (ms_prev ?sec) startMsg (hops + 1) (passed + ?cnt) (Some ?sec)"
    using s rd chk Cons.prems msg_sector_bounds(4) [OF s(1)] by (subst find_message_n_index.simps) simp
  show ?case
  proof (cases "startMsg < passed + ?cnt")
    case True
    define off where "off = passed + ?cnt - 1 - startMsg"
    have off: "off < ?cnt" "to_u8 off = off" using True Cons.prems(3) s(3) by (simp_all add: off_def)
    have f: "find_message_n_index S p h startMsg hops passed found = Inr (hops + 1, off, ?sec)"
      unfolding step using True off(2) by (subst find_message_n_index.simps) (simp add: off_def)
    have "startMsg - passed = ?cnt - (off + 1)" using True Cons.prems(3) by (simp add: off_def)
    then have "drop (startMsg - passed) (sector_msgs ?sec) = rev (take (off + 1) (ms_messages ?sec))"
      using off(1) s(3) lm by (simp add: sector_msgs_def drop_rev min_def)
    moreover have "startMsg - passed \<le> length (sector_msgs ?sec)" using True Cons.prems(3) lsm by simp
    ultimately show ?thesis using f off(1) s True lsm
      by (auto intro!: exI [of _ s] exI [of _ "[]"] exI [of _ ss] exI [of _ off])
  next
    case False
    have le: "passed + ?cnt \<le> startMsg" using False by simp
    have IH: "if startMsg < passed + ?cnt + length (chat_msgs (blk (dev p)) ss) then
      \<exists>s' ss1 ss2 off. ss = ss1 @ s' # ss2 \<and> s' < TOTAL_MESSAGE_SECTOR_SIZE \<and>
        find_message_n_index S p (ms_prev ?sec) startMsg (hops + 1) (passed + ?cnt) (Some ?sec) =
          Inr (hops + 1 + length ss1 + 1, off, msg_block (blk (dev p)) s') \<and>
        off < ms_msg_count (msg_block (blk (dev p)) s') \<and> ms_msg_count (msg_block (blk (dev p)) s') \<le> 3 \<and>
        chat (blk (dev p)) (usage_bitmap p) (ms_prev (msg_block (blk (dev p)) s')) ss2 \<and>
        rev (take (off + 1) (ms_messages (msg_block (blk (dev p)) s'))) @ chat_msgs (blk (dev p)) ss2 =
          drop (startMsg - (passed + ?cnt)) (chat_msgs (blk (dev p)) ss)
    else find_message_n_index S p (ms_prev ?sec) startMsg (hops + 1) (passed + ?cnt) (Some ?sec) = Inl STRG_FAIL"
      using Cons.prems s(4) le by (intro Cons.IH) simp_all
    show ?thesis
    proof (cases "startMsg < passed + ?cnt + length (chat_msgs (blk (dev p)) ss)")
      case True
      with IH obtain s' ss1 ss2 off where r: "ss = ss1 @ s' # ss2" "s' < TOTAL_MESSAGE_SECTOR_SIZE"
        "find_message_n_index S p (ms_prev ?sec) startMsg (hops + 1) (passed + ?cnt) (Some ?sec) =
          Inr (hops + 1 + length ss1 + 1, off, msg_block (blk (dev p)) s')"
        "off < ms_msg_count (msg_block (blk (dev p)) s')" "ms_msg_count (msg_block (blk (dev p)) s') \<le> 3"
        "chat (blk (dev p)) (usage_bitmap p) (ms_prev (msg_block (blk (dev p)) s')) ss2"
        "rev (take (off + 1) (ms_messages (msg_block (blk (dev p)) s'))) @ chat_msgs (blk (dev p)) ss2 =
          drop (startMsg - (passed + ?cnt)) (chat_msgs (blk (dev p)) ss)"
        by auto
      have d: "drop (startMsg - passed) (chat_msgs (blk (dev p)) (s # ss)) =
          drop (startMsg - (passed + ?cnt)) (chat_msgs (blk (dev p)) ss)"
        using le lsm by simp
      have "s # ss = (s # ss1) @ s' # ss2" using r(1) by simp
      moreover have "find_message_n_index S p h startMsg hops passed found =
          Inr (hops + length (s # ss1) + 1, off, msg_block (blk (dev p)) s')"
        unfolding step r(3) by simp
      moreover have "startMsg < passed + length (chat_msgs (blk (dev p)) (s # ss))" using True lsm by simp
      ultimately show ?thesis using r(2,4-7) unfolding d by metis
    next
      case no: False
      then show ?thesis using IH lsm unfolding step by simp
    qed
  qed
qed

text \<open>Reading a range of a chat returns that range of its messages, newest first.\<close>

lemma read_n_messages_chat:
  assumes p: "pers_ok S ok blk p" and c: "chat (blk (dev p)) (usage_bitmap p) h ss"
    and l: "length ss \<le> TOTAL_MESSAGE_SECTOR_SIZE"
  shows "read_n_messages S p h startMsg n =
    (if n = 0 \<or> ss = [] then (STRG_OK, [])
     else if startMsg < length (chat_msgs (blk (dev p)) ss)
     then (STRG_OK, take n (drop startMsg (chat_msgs (blk (dev p)) ss))) else (STRG_FAIL, []))"
proof (cases "n = 0 \<or> ss = []")
  case True
  then show ?thesis using c by (auto simp: read_n_messages_def)
next
  case False
  then have h: "h \<noteq> UINT16_MAX" "n \<noteq> 0" "ss \<noteq> []" using c msg_sector_bounds(4) by (cases ss; fastforce)+
  have f: "if startMsg < 0 + length (chat_msgs (blk (dev p)) ss) then
      \<exists>s ss1 ss2 off. ss = ss1 @ s # ss2 \<and> s < TOTAL_MESSAGE_SECTOR_SIZE \<and>
        find_message_n_index S p h startMsg 0 0 None = Inr (0 + length ss1 + 1, off, msg_block (blk (dev p)) s) \<and>
        off < ms_msg_count (msg_block (blk (dev p)) s) \<and> ms_msg_count (msg_block (blk (dev p)) s) \<le> 3 \<and>
        chat (blk (dev p)) (usage_bitmap p) (ms_prev (msg_block (blk (dev p)) s)) ss2 \<and>
        rev (take (off + 1) (ms_messages (msg_block (blk (dev p)) s))) @ chat_msgs (blk (dev p)) ss2 =
          drop (startMsg - 0) (chat_msgs (blk (dev p)) ss)
    else find_message_n_index S p h startMsg 0 0 None = Inl STRG_FAIL"
    using l by (intro find_message_n_index_chat [OF p c]) simp_all
  show ?thesis
  proof (cases "startMsg < length (chat_msgs (blk (dev p)) ss)")
    case True
    with f obtain s ss1 ss2 off where r: "ss = ss1 @ s # ss2"
        "find_message_n_index S p h startMsg 0 0 None = Inr (length ss1 + 1, off, msg_block (blk (dev p)) s)"
        "off < ms_msg_count (msg_block (blk (dev p)) s)" "ms_msg_count (msg_block (blk (dev p)) s) \<le> 3"
        "chat (blk (dev p)) (usage_bitmap p) (ms_prev (msg_block (blk (dev p)) s)) ss2"
        "rev (take (off + 1) (ms_messages (msg_block (blk (dev p)) s))) @ chat_msgs (blk (dev p)) ss2 =
          drop startMsg (chat_msgs (blk (dev p)) ss)"
      by auto
    let ?sec = "msg_block (blk (dev p)) s"
    let ?out = "take n (rev (take (off + 1) (ms_messages ?sec)))"
    have "copy_messages_down n ?sec (int off) [] = ?out"
      using copy_messages_down_eq [of "off + 1" ?sec n "[]"] r(3,4) by (simp add: msg_block_def)
    then have cp: "read_messages_from_p_in_sector n off ?sec [] = (True, ?out)"
      using r(3,4) h(2) by (simp add: read_messages_from_p_in_sector_def layout)
    have "read_n_messages_loop S p n (ms_prev ?sec) (length ss1 + 1) ?out =
        (STRG_OK, ?out @ take (n - length ?out) (chat_msgs (blk (dev p)) ss2))"
      using l r(1) by (intro read_n_messages_loop_chat [OF p r(5)]) simp
    then have "read_n_messages S p h startMsg n = (STRG_OK, ?out @ take (n - length ?out) (chat_msgs (blk (dev p)) ss2))"
      using h r(2) cp by (simp add: read_n_messages_def)
    moreover have "?out @ take (n - length ?out) (chat_msgs (blk (dev p)) ss2) =
        take n (rev (take (off + 1) (ms_messages ?sec)) @ chat_msgs (blk (dev p)) ss2)"
      by (simp add: min_def)
    ultimately show ?thesis using h True unfolding r(6) by simp
  next
    case no: False
    then show ?thesis using f h by (simp add: read_n_messages_def)
  qed
qed

end

subsection \<open>Storing a message\<close>

definition message_put :: "nat \<Rightarrow> Message \<Rightarrow> byte list \<Rightarrow> byte list" where
  "message_put pos m b = sector_crc_stamp (message_sector_bytes ((message_sector_of b)
     \<lparr>ms_messages := (ms_messages (message_sector_of b))[pos := m],
      ms_msg_count := to_u16 (ms_msg_count (message_sector_of b) + 1)\<rparr>))"

definition message_relink :: "nat \<Rightarrow> byte list \<Rightarrow> byte list" where
  "message_relink next b = sector_crc_stamp (message_sector_bytes ((message_sector_of b)\<lparr>ms_next := next\<rparr>))"

lemma message_crc_irrelevant:
  assumes "message_sector_wf s" and "c < 2 ^ 32"
  shows "sector_crc_stamp (message_sector_bytes (s\<lparr>ms_crc := c\<rparr>)) = sector_crc_stamp (message_sector_bytes s)"
proof (rule stamp_cong)
  have wf: "message_sector_wf (s\<lparr>ms_crc := c\<rparr>)" using assms by (simp add: message_sector_wf_def)
  show "length (message_sector_bytes (s\<lparr>ms_crc := c\<rparr>)) = SECTOR_SIZE" "length (message_sector_bytes s) = SECTOR_SIZE"
    using wf assms(1) by (simp_all add: layout)
  show "take 508 (message_sector_bytes (s\<lparr>ms_crc := c\<rparr>)) = take 508 (message_sector_bytes s)"
    using length_messages_bytes [OF assms(1)] assms(1)
    by (simp add: message_sector_bytes_def message_sector_wf_def del: length_concat)
qed

lemma message_crc_commute:
  "s\<lparr>ms_crc := x, ms_messages := u, ms_msg_count := v\<rparr> = s\<lparr>ms_messages := u, ms_msg_count := v, ms_crc := x\<rparr>"
  "s\<lparr>ms_crc := x, ms_msg_count := v, ms_messages := u\<rparr> = s\<lparr>ms_msg_count := v, ms_messages := u, ms_crc := x\<rparr>"
  "s\<lparr>ms_crc := x, ms_next := y\<rparr> = s\<lparr>ms_next := y, ms_crc := x\<rparr>"
  by (cases s, simp)+

lemma message_put_props:
  assumes b: "length b = SECTOR_SIZE" and m: "message_wf m"
  shows "length (message_put pos m b) = SECTOR_SIZE" and "sector_crc_valid (message_put pos m b)"
    and "message_sector_of (message_put pos m b) = (message_sector_of b)
      \<lparr>ms_messages := (ms_messages (message_sector_of b))[pos := m],
       ms_msg_count := to_u16 (ms_msg_count (message_sector_of b) + 1),
       ms_crc := rd32 (slice 508 4 (message_put pos m b))\<rparr>"
    and "message_put pos m (sector_crc_stamp b) = message_put pos m b"
    and "length (message_sector_bytes ((message_sector_of (sector_crc_stamp b))
      \<lparr>ms_messages := (ms_messages (message_sector_of (sector_crc_stamp b)))[pos := m],
       ms_msg_count := to_u16 (ms_msg_count (message_sector_of (sector_crc_stamp b)) + 1)\<rparr>)) = SECTOR_SIZE"
proof -
  let ?put = "\<lambda>s. s\<lparr>ms_messages := (ms_messages s)[pos := m], ms_msg_count := to_u16 (ms_msg_count s + 1)\<rparr>"
  have wf: "message_sector_wf s \<Longrightarrow> message_sector_wf (?put s)" for s
    using m set_update_subset_insert [of "ms_messages s" pos m] by (auto simp: message_sector_wf_def)
  have wb: "message_sector_wf (message_sector_of b)" "message_sector_wf (message_sector_of (sector_crc_stamp b))"
    using b length_stamp [OF b] by (intro message_sector_wf_of; simp add: layout)+
  have l: "length (message_sector_bytes (?put (message_sector_of b))) = SECTOR_SIZE"
    using wf [OF wb(1)] by (simp add: layout)
  then show "length (message_put pos m b) = SECTOR_SIZE" "sector_crc_valid (message_put pos m b)"
    by (simp_all add: message_put_def)
  show "message_sector_of (message_put pos m b) = (message_sector_of b)
      \<lparr>ms_messages := (ms_messages (message_sector_of b))[pos := m],
       ms_msg_count := to_u16 (ms_msg_count (message_sector_of b) + 1),
       ms_crc := rd32 (slice 508 4 (message_put pos m b))\<rparr>"
    unfolding message_put_def using message_sector_of_stamp [OF l] message_sector_of_bytes [OF wf [OF wb(1)]] by simp
  show "message_put pos m (sector_crc_stamp b) = message_put pos m b"
    using message_crc_irrelevant [OF wf [OF wb(1)], of "rd32 (slice 508 4 (sector_crc_stamp b))"] rd32_less
    by (simp add: message_put_def message_sector_of_stamp [OF b] message_crc_commute)
  show "length (message_sector_bytes (?put (message_sector_of (sector_crc_stamp b)))) = SECTOR_SIZE"
    using wf [OF wb(2)] by (simp add: layout)
qed

lemma message_relink_props:
  assumes b: "length b = SECTOR_SIZE" and n: "next < 65536"
  shows "length (message_relink next b) = SECTOR_SIZE" and "sector_crc_valid (message_relink next b)"
    and "message_sector_of (message_relink next b) = (message_sector_of b)
      \<lparr>ms_next := next, ms_crc := rd32 (slice 508 4 (message_relink next b))\<rparr>"
proof -
  have "message_sector_wf (message_sector_of b)" using b by (intro message_sector_wf_of) (simp add: layout)
  then have wf: "message_sector_wf ((message_sector_of b)\<lparr>ms_next := next\<rparr>)" using n by (simp add: message_sector_wf_def)
  then have l: "length (message_sector_bytes ((message_sector_of b)\<lparr>ms_next := next\<rparr>)) = SECTOR_SIZE" by (simp add: layout)
  then show "length (message_relink next b) = SECTOR_SIZE" "sector_crc_valid (message_relink next b)"
    by (simp_all add: message_relink_def)
  show "message_sector_of (message_relink next b) = (message_sector_of b)
      \<lparr>ms_next := next, ms_crc := rd32 (slice 508 4 (message_relink next b))\<rparr>"
    unfolding message_relink_def using message_sector_of_stamp [OF l] message_sector_of_bytes [OF wf] by simp
qed

lemma message_bytes_back: "length b = SECTOR_SIZE \<Longrightarrow> message_sector_bytes (message_sector_of b) = b"
  by (rule message_sector_bytes_of) (simp add: layout)

context block_store begin

lemma store_message_outcome:
  assumes p: "pers_ok S ok blk p" and s: "s < TOTAL_MESSAGE_SECTOR_SIZE" and m: "message_wf m" and b: "length b = SECTOR_SIZE"
    and w: "store_message S p s pos m (message_sector_of b) = (r, p')"
  defines "i \<equiv> MESSAGE_DATA_SECTOR s"
  defines "new \<equiv> sector_changed (blk (dev p)) (usage_bitmap p) i True (message_put pos m b)"
  shows "ok (dev p') \<and> capacity S (dev p') = capacity S (dev p) \<and> r \<in> {STRG_OK, STRG_FAIL} \<and>
    txn (blk (dev p)) JRNL_MESSAGE i (sector_crc_stamp b) (\<lambda>blk'. \<exists>bm. new bm blk') (blk (dev p')) \<and>
    (r = STRG_OK \<longrightarrow> pers_ok S ok blk p' \<and> new (usage_bitmap p') (blk (dev p')))"
proof -
  have i: "i < USAGE_BITMAP_TOTAL_BITS" using msg_sector_bounds(1) [OF s] by (simp add: i_def)
  have bb: "message_sector_bytes (message_sector_of b) = b" by (rule message_bytes_back [OF b])
  note put = message_put_props [OF b m, of pos]
  have ms: "msg_sector s = i" using s by (simp add: i_def)
  obtain added buf pa where a: "journal_add S p JRNL_MESSAGE i b = (added, buf, pa)" by (metis prod_cases3)
  have A: "ok (dev pa)" "capacity S (dev pa) = capacity S (dev p)" "usage_bitmap pa = usage_bitmap p"
      "bitmap_synced (blk (dev pa)) (usage_bitmap pa)"
      "journal_header_wf (j_header (journal pa))" "jh_magic (j_header (journal pa)) = JRNL_MAGIC"
    and A1: "added \<Longrightarrow> buf = sector_crc_stamp b \<and> in_progress (blk (dev p)) JRNL_MESSAGE i (sector_crc_stamp b) (blk (dev pa))"
    and A0: "\<not> added \<Longrightarrow> journal_idle (blk (dev pa)) \<and> same_data (blk (dev p)) (blk (dev pa))"
    using journal_add_in_progress [OF p i _ b a] by auto
  show ?thesis
  proof (cases added)
    case False
    then show ?thesis using w a bb A(1,2) A0 by (auto simp: store_message_def ms txn_def)
  next
    case True
    note A1 = A1 [OF True]
    obtain r1 d1 bm1 where u: "update_usage_bit S (dev pa) (usage_bitmap pa) i True = (r1, d1, bm1)" by (metis prod_cases3)
    have U: "ok d1" "capacity S d1 = capacity S (dev p)" "bitmap_synced (blk d1) bm1"
        "in_progress (blk (dev p)) JRNL_MESSAGE i (sector_crc_stamp b) (blk d1)"
      and U1: "strg_true r1 \<Longrightarrow> \<forall>j. used bm1 j = (if j = i then True else used (usage_bitmap p) j)"
      using update_usage_bit_in_progress [OF A(1,4) i conjunct2 [OF A1] u] A(2,3) by auto
    define ms' where "ms' = (message_sector_of buf)\<lparr>ms_messages := (ms_messages (message_sector_of buf))[pos := m],
        ms_msg_count := to_u16 (Suc (ms_msg_count (message_sector_of buf)))\<rparr>"
    have lms: "length (message_sector_bytes ms') = SECTOR_SIZE" using put(5) A1 by (simp add: ms'_def)
    have sms: "sector_crc_stamp (message_sector_bytes ms') = message_put pos m b"
      using put(4) A1 by (simp add: message_put_def ms'_def)
    obtain r2 b2 d2 where ws: "write_sector S d1 (DATA_SECTOR_TO_RAW i) (message_sector_bytes ms') = (r2, b2, d2)"
      by (metis prod_cases3)
    note W = write_raw_step [OF U(1) lms i ws U(3), unfolded sms]
    obtain r3 j3 d3 where f3: "journal_free S d2 (journal pa) = (r3, j3, d3)" by (metis prod_cases3)
    note F3 = journal_free_completes [OF _ A(5,6) f3]
    have wc: "write_message_sector S d1 s ms' = (r2, message_sector_of b2, d2)"
      using ws by (simp add: write_message_sector_def i_def)
    let ?p1 = "pa\<lparr>dev := d1, usage_bitmap := bm1\<rparr>"
    have res: "(r, p') = (if \<not> strg_true r1 then (STRG_FAIL, ?p1)
        else if \<not> strg_true r2 then (STRG_FAIL, ?p1\<lparr>dev := d2\<rparr>)
        else if \<not> strg_true r3 then (STRG_FAIL, ?p1\<lparr>dev := d3, journal := j3\<rparr>)
        else (STRG_OK, ?p1\<lparr>dev := d3, journal := j3\<rparr>))"
      using w a bb True u wc f3
      by (simp add: store_message_def ms Let_def flip: ms'_def cong: if_cong)
    show ?thesis
    proof (cases "strg_true r1 \<and> strg_true r2")
      case False
      have "in_progress (blk (dev p)) JRNL_MESSAGE i (sector_crc_stamp b) (blk d2)" if "\<not> strg_true r2"
        using W that U(4) by simp
      then show ?thesis using res False U W by (auto simp: txn_def split: if_splits)
    next
      case ok12: True
      then have B2: "ok d2" "capacity S d2 = capacity S (dev p)" "bitmap_synced (blk d2) bm1"
          "blk d2 = (blk d1)(DATA_SECTOR_TO_RAW i := message_put pos m b)"
        using W U(2) by auto
      have P2: "in_progress (blk (dev p)) JRNL_MESSAGE i (sector_crc_stamp b) (blk d2)"
        using in_progress_upd [OF U(4) i] B2(4) by simp
      have N2: "new bm1 (blk d2)"
        using U1 ok12 B2 P2 by (simp add: new_def sector_changed_def in_progress_def)
      note F3 = F3 [OF B2(1)]
      have "same_data (blk d2) (blk d3)" using F3 by (simp add: same_data_def)
      then have N3: "new bm1 (blk d3)"
        using N2 F3 raw_not_meta [OF i] synced_same_data [of "blk d2" "blk d3" bm1]
        by (simp add: new_def sector_changed_def elsewhere_same_def)
      show ?thesis
      proof (cases "strg_true r3")
        case False
        then show ?thesis using res ok12 F3 P2 B2 by (simp add: txn_def)
      next
        case True
        then have idle: "journal_idle (blk d3)" using F3 by auto
        have "pers_ok S ok blk (?p1\<lparr>dev := d3, journal := j3\<rparr>)"
          using p F3 B2 idle N3 by (simp add: pers_ok_def new_def sector_changed_def)
        then show ?thesis using res ok12 True idle N3 F3 B2 by (auto simp: txn_def)
      qed
    qed
  qed
qed

end

context reliable_store begin

lemma store_message_reliable:
  assumes p: "pers_ok S ok blk p" and s: "s < TOTAL_MESSAGE_SECTOR_SIZE" and m: "message_wf m" and b: "length b = SECTOR_SIZE"
  shows "fst (store_message S p s pos m (message_sector_of b)) = STRG_OK"
proof -
  define i where "i = MESSAGE_DATA_SECTOR s"
  have i: "i < USAGE_BITMAP_TOTAL_BITS" "i < TOTAL_DATABASE_SECTOR_SIZE" "DATA_SECTOR_TO_RAW i < 65536"
    using msg_sector_bounds [OF s] by (simp_all add: i_def)
  have bb: "message_sector_bytes (message_sector_of b) = b" by (rule message_bytes_back [OF b])
  have ms: "msg_sector s = i" using s by (simp add: i_def)
  obtain buf pa where a: "journal_add S p JRNL_MESSAGE i b = (True, buf, pa)"
    using journal_add_reliable [OF p i(1) _ b, of JRNL_MESSAGE] by (cases "journal_add S p JRNL_MESSAGE i b") auto
  have A: "ok (dev pa)" "capacity S (dev pa) = capacity S (dev p)" "bitmap_synced (blk (dev pa)) (usage_bitmap pa)"
      "journal_header_wf (j_header (journal pa))" "jh_magic (j_header (journal pa)) = JRNL_MAGIC" "buf = sector_crc_stamp b"
    using journal_add_in_progress [OF p i(1) _ b a] by auto
  have cap: "DATA_REGION_START_SECTOR + TOTAL_DATABASE_SECTOR_SIZE \<le> capacity S (dev pa)" using p A(2) by (simp add: pers_ok_def)
  obtain d1 bm1 where u: "update_usage_bit S (dev pa) (usage_bitmap pa) i True = (STRG_OK, d1, bm1)"
    using update_usage_bit_reliable [OF A(1,3) i(1), of True] cap
    by (cases "update_usage_bit S (dev pa) (usage_bitmap pa) i True") (auto simp: layout)
  have U: "ok d1" "capacity S d1 = capacity S (dev pa)" using update_usage_bit_step [OF A(1,3) i(1) u] by auto
  define ms' where "ms' = (message_sector_of buf)\<lparr>ms_messages := (ms_messages (message_sector_of buf))[pos := m],
        ms_msg_count := to_u16 (Suc (ms_msg_count (message_sector_of buf)))\<rparr>"
  have lms: "length (message_sector_bytes ms') = SECTOR_SIZE" using message_put_props(5) [OF b m] A(6) by (simp add: ms'_def)
  have raw: "DATA_SECTOR_TO_RAW i < capacity S d1" using cap U(2) i(2) by (simp add: sector_defs layout)
  obtain b2 d2 where ws: "write_sector S d1 (DATA_SECTOR_TO_RAW i) (message_sector_bytes ms') = (STRG_OK, b2, d2)"
      and D2: "ok d2" "capacity S d2 = capacity S d1"
    by (rule write_sector_in_range [OF U(1) raw i(3) lms]) blast
  have wc: "write_message_sector S d1 s ms' = (STRG_OK, message_sector_of b2, d2)"
    using ws by (simp add: write_message_sector_def i_def)
  have h2: "JRNL_HEADER_SECTOR < capacity S d2" using cap U(2) D2(2) by (simp add: layout)
  obtain j3 d3 where f3: "journal_free S d2 (journal pa) = (STRG_OK, j3, d3)"
    using journal_free_reliable [OF D2(1) h2 A(4)] by (metis prod_cases3 fst_conv)
  show ?thesis using a bb u wc f3 by (simp add: store_message_def ms Let_def flip: ms'_def)
qed

end

subsection \<open>Writing, seen on chats\<close>

lemma chat_frame:
  assumes "\<And>s. s \<in> set ss \<Longrightarrow> s < TOTAL_MESSAGE_SECTOR_SIZE \<Longrightarrow>
      blk' (DATA_SECTOR_TO_RAW (MESSAGE_DATA_SECTOR s)) = blk (DATA_SECTOR_TO_RAW (MESSAGE_DATA_SECTOR s)) \<and>
      (used bm (MESSAGE_DATA_SECTOR s) \<longrightarrow> used bm' (MESSAGE_DATA_SECTOR s))"
    and "chat blk bm h ss"
  shows "chat blk' bm' h ss \<and> chat_msgs blk' ss = chat_msgs blk ss"
  using assms
proof (induction ss arbitrary: h)
  case (Cons s ss)
  have e: "blk' (DATA_SECTOR_TO_RAW (MESSAGE_DATA_SECTOR s)) = blk (DATA_SECTOR_TO_RAW (MESSAGE_DATA_SECTOR s))"
    "used bm' (MESSAGE_DATA_SECTOR s)"
    using Cons.prems(1) [of s] Cons.prems(2) by auto
  then have "msg_block blk' s = msg_block blk s" by (simp add: msg_block_def)
  then show ?case using Cons.IH [of "ms_prev (msg_block blk s)"] Cons.prems e by auto
qed simp

lemma chat_elsewhere:
  assumes "elsewhere_same i blk blk'" and "i < USAGE_BITMAP_TOTAL_BITS" and "\<And>s. s \<in> set ss \<Longrightarrow> MESSAGE_DATA_SECTOR s \<noteq> i"
    and "\<And>j. used bm j \<Longrightarrow> j \<noteq> i \<Longrightarrow> used bm' j" and "chat blk bm h ss"
  shows "chat blk' bm' h ss \<and> chat_msgs blk' ss = chat_msgs blk ss"
  using assms(3-4) elsewhere_raw [OF assms(1,2)]
  by (intro chat_frame [OF _ assms(5)]) metis

text \<open>Only the data sectors in \<open>A\<close> may have changed; the superheader has not.\<close>

definition only_sectors :: "nat set \<Rightarrow> (nat \<Rightarrow> byte list) \<Rightarrow> (nat \<Rightarrow> byte list) \<Rightarrow> bool" where
  "only_sectors A blk blk' \<longleftrightarrow>
     (\<forall>k. k \<notin> A \<longrightarrow> blk' (DATA_SECTOR_TO_RAW k) = blk (DATA_SECTOR_TO_RAW k)) \<and>
     blk' SUPERHEADER_SECTOR = blk SUPERHEADER_SECTOR"

lemma only_sectors_mono: "only_sectors A blk blk' \<Longrightarrow> A \<subseteq> B \<Longrightarrow> only_sectors B blk blk'"
  by (auto simp: only_sectors_def)

lemma only_sectors_trans: "only_sectors A blk blk1 \<Longrightarrow> only_sectors A blk1 blk2 \<Longrightarrow> only_sectors A blk blk2"
  by (simp add: only_sectors_def)

text \<open>Nothing behind the contact and message regions changes.\<close>

abbreviation records_only :: "(nat \<Rightarrow> byte list) \<Rightarrow> (nat \<Rightarrow> byte list) \<Rightarrow> bool" where
  "records_only blk blk' \<equiv> only_sectors {..<MESSAGE_HISTORY_DATA_START_SECTOR} blk blk'"

lemma records_only_contact: "only_sectors {k} blk blk' \<Longrightarrow> k < TOTAL_CONTACT_SECTOR_SIZE \<Longrightarrow> records_only blk blk'"
  by (erule only_sectors_mono) (simp add: sector_defs layout)

lemma superheader_elsewhere: "elsewhere_same i blk blk' \<Longrightarrow> blk' SUPERHEADER_SECTOR = blk SUPERHEADER_SECTOR"
  by (simp add: elsewhere_same_def usage_block_def sector_defs layout)

lemma elsewhere_only: "elsewhere_same i blk blk' \<Longrightarrow> i < USAGE_BITMAP_TOTAL_BITS \<Longrightarrow> only_sectors {i} blk blk'"
  using elsewhere_raw [of i blk blk'] superheader_elsewhere [of i blk blk'] by (simp add: only_sectors_def)

lemma chat_used: "chat blk bm h ss \<Longrightarrow> s \<in> set ss \<Longrightarrow> used bm (MESSAGE_DATA_SECTOR s)"
  by (induction ss arbitrary: h) auto

text \<open>A chain is determined by its head, so no sector occurs in it twice.\<close>

lemma chat_tail: "chat blk bm h (us @ s # vs) \<Longrightarrow> chat blk bm s (s # vs)"
  by (induction us arbitrary: h) auto

lemma chat_unique: "chat blk bm h ss \<Longrightarrow> chat blk bm h ts \<Longrightarrow> ss = ts"
proof (induction ss arbitrary: h ts)
  case Nil
  then show ?case using msg_sector_bounds(4) by (cases ts) auto
next
  case (Cons s ss)
  then show ?case using msg_sector_bounds(4) by (cases ts) auto
qed

lemma chat_distinct: "chat blk bm h ss \<Longrightarrow> distinct ss"
proof (induction ss arbitrary: h)
  case (Cons s ss)
  have "s \<notin> set ss"
  proof
    assume "s \<in> set ss"
    then obtain us vs where ss: "ss = us @ s # vs" by (meson split_list)
    then have "chat blk bm h ((s # us) @ s # vs)" using Cons.prems by simp
    then have "chat blk bm s (s # vs)" by (rule chat_tail)
    moreover have "chat blk bm s (s # ss)" using Cons.prems by simp
    ultimately have "s # ss = s # vs" by (rule chat_unique [rotated])
    then have "length ss = length vs" by simp
    then show False using ss by simp
  qed
  then show ?case using Cons by auto
qed simp

lemma chat_length: "chat blk bm h ss \<Longrightarrow> length ss \<le> TOTAL_MESSAGE_SECTOR_SIZE"
proof -
  assume c: "chat blk bm h ss"
  have "set ss \<subseteq> {..<TOTAL_MESSAGE_SECTOR_SIZE}" using c by (induction ss arbitrary: h) auto
  then have "Finite_Set.card (set ss) \<le> TOTAL_MESSAGE_SECTOR_SIZE"
    by (metis card_lessThan card_mono finite_lessThan)
  then show ?thesis using distinct_card [OF chat_distinct [OF c]] by simp
qed

lemma sector_msgs_put:
  assumes "length b = SECTOR_SIZE" and "message_wf m" and "ms_msg_count (message_sector_of b) < 3"
  shows "sector_msgs (message_sector_of (message_put (ms_msg_count (message_sector_of b)) m b)) = m # sector_msgs (message_sector_of b)"
proof -
  have "to_u16 (ms_msg_count (message_sector_of b) + 1) = ms_msg_count (message_sector_of b) + 1"
    using assms(3) by simp
  moreover have "take (Suc n) (xs[n := m]) = take n xs @ [m]" if "n < length xs" for n and xs :: "Message list"
    using that by (simp add: take_Suc_conv_app_nth)
  ultimately show ?thesis using assms(3) by (simp add: sector_msgs_def message_put_props(3) [OF assms(1,2)])
qed

context reliable_store begin

text \<open>A message stored on a sector of a chat, or on a fresh one.\<close>

lemma store_message_sem:
  assumes p: "pers_ok S ok blk p" and s: "s < TOTAL_MESSAGE_SECTOR_SIZE" and m: "message_wf m" and b: "length b = SECTOR_SIZE"
    and w: "store_message S p s pos m (message_sector_of b) = (r, p')"
  shows "r = STRG_OK \<and> pers_ok S ok blk p' \<and>
    sector_changed (blk (dev p)) (usage_bitmap p) (MESSAGE_DATA_SECTOR s) True (message_put pos m b) (usage_bitmap p') (blk (dev p'))"
  using store_message_reliable [OF p s m b, of pos] store_message_outcome [OF p s m b w] w by simp

lemma write_message_chat:
  assumes p: "pers_ok S ok blk p" and c: "chat (blk (dev p)) (usage_bitmap p) s (s # ss)" and m: "message_wf m"
    and w: "write_message S p s m = (r, p')"
  shows "if ms_msg_count (msg_block (blk (dev p)) s) < MESSAGE_SECTOR_CAPACITY then
      r = STRG_OK \<and> pers_ok S ok blk p' \<and> chat (blk (dev p')) (usage_bitmap p') s (s # ss) \<and>
      chat_msgs (blk (dev p')) (s # ss) = m # chat_msgs (blk (dev p)) (s # ss) \<and>
      elsewhere_same (MESSAGE_DATA_SECTOR s) (blk (dev p)) (blk (dev p')) \<and>
      (\<forall>j. used (usage_bitmap p') j = used (usage_bitmap p) j) \<and>
      ms_next (msg_block (blk (dev p')) s) = ms_next (msg_block (blk (dev p)) s) \<and>
      ms_contact_index (msg_block (blk (dev p')) s) = ms_contact_index (msg_block (blk (dev p)) s)
    else r = STRG_FULL \<and> p' = p"
proof -
  let ?i = "MESSAGE_DATA_SECTOR s" and ?b = "blk (dev p) (DATA_SECTOR_TO_RAW (MESSAGE_DATA_SECTOR s))"
  let ?sec = "msg_block (blk (dev p)) s"
  have s: "s < TOTAL_MESSAGE_SECTOR_SIZE" "used (usage_bitmap p) ?i" "sector_crc_valid ?b"
      "chat (blk (dev p)) (usage_bitmap p) (ms_prev ?sec) ss"
    using c by simp_all
  have chk: "check_usage_bit (usage_bitmap p) (msg_sector s)"
    using check_usage_bit_used [OF msg_sector_bounds(1) [OF s(1)]] s(1,2) by simp
  have rd: "read_message_sector S (dev p) s = Inr ?sec" by (rule read_message_sector_valid [OF p s(1,3)])
  have lb: "length ?b = SECTOR_SIZE" by (rule blk_length [OF pers_okD(1) [OF p] pers_okD(4) [OF p msg_sector_bounds(2) [OF s(1)]]])
  show ?thesis
  proof (cases "ms_msg_count ?sec < MESSAGE_SECTOR_CAPACITY")
    case True
    then have cnt: "ms_msg_count (message_sector_of ?b) < 3" by (simp add: msg_block_def layout)
    have "store_message S p s (ms_msg_count ?sec) m (message_sector_of ?b) = (r, p')"
      using w chk rd True by (simp add: write_message_def msg_block_def)
    from store_message_sem [OF p s(1) m lb this]
    have st: "r = STRG_OK" "pers_ok S ok blk p'"
      "sector_changed (blk (dev p)) (usage_bitmap p) ?i True (message_put (ms_msg_count ?sec) m ?b) (usage_bitmap p') (blk (dev p'))"
      by simp_all
    then have ch: "\<forall>j. used (usage_bitmap p') j = used (usage_bitmap p) j" "elsewhere_same ?i (blk (dev p)) (blk (dev p'))"
        "blk (dev p') (DATA_SECTOR_TO_RAW ?i) = message_put (ms_msg_count (message_sector_of ?b)) m ?b"
      using s(2) by (auto simp: sector_changed_def msg_block_def)
    have fr: "chat (blk (dev p')) (usage_bitmap p') (ms_prev ?sec) ss \<and> chat_msgs (blk (dev p')) ss = chat_msgs (blk (dev p)) ss"
      using chat_distinct [OF c] ch(1)
      by (intro chat_elsewhere [OF ch(2) msg_sector_bounds(1) [OF s(1)] _ _ s(4)]) auto
    note pp = message_put_props [OF lb m, of "ms_msg_count (message_sector_of ?b)"]
    have nb: "msg_block (blk (dev p')) s = message_sector_of (message_put (ms_msg_count (message_sector_of ?b)) m ?b)"
      by (simp add: msg_block_def ch(3))
    have "chat (blk (dev p')) (usage_bitmap p') s (s # ss)"
      using s fr ch pp(2,3) cnt by (simp add: nb) (simp add: msg_block_def layout)
    moreover have "chat_msgs (blk (dev p')) (s # ss) = m # chat_msgs (blk (dev p)) (s # ss)"
      using sector_msgs_put [OF lb m cnt] fr nb by (simp add: msg_block_def)
    moreover have "ms_next (msg_block (blk (dev p')) s) = ms_next ?sec" "ms_contact_index (msg_block (blk (dev p')) s) = ms_contact_index ?sec"
      using pp(3) by (simp_all add: nb) (simp_all add: msg_block_def)
    ultimately show ?thesis using st ch True by simp
  next
    case False
    then show ?thesis using w chk rd by (simp add: write_message_def)
  qed
qed

lemma write_new_message_sector_chat:
  assumes p: "pers_ok S ok blk p" and s: "s < TOTAL_MESSAGE_SECTOR_SIZE" and u: "\<not> used (usage_bitmap p) (MESSAGE_DATA_SECTOR s)"
    and m: "message_wf m" and ci: "ci < 65536" and pv: "pv = UINT16_MAX \<and> ss = [] \<or> chat (blk (dev p)) (usage_bitmap p) pv ss"
    and w: "store_message S p s 0 m (create_new_message_sector ci pv) = (r, p')"
  shows "r = STRG_OK \<and> pers_ok S ok blk p' \<and> chat (blk (dev p')) (usage_bitmap p') s (s # ss) \<and>
    chat_msgs (blk (dev p')) (s # ss) = m # chat_msgs (blk (dev p)) ss \<and> ms_contact_index (msg_block (blk (dev p')) s) = ci \<and>
    ms_next (msg_block (blk (dev p')) s) = UINT16_MAX \<and> elsewhere_same (MESSAGE_DATA_SECTOR s) (blk (dev p)) (blk (dev p')) \<and>
    (\<forall>j. used (usage_bitmap p') j = (j = MESSAGE_DATA_SECTOR s \<or> used (usage_bitmap p) j))"
proof -
  let ?i = "MESSAGE_DATA_SECTOR s" and ?s0 = "create_new_message_sector ci pv"
  have c: "chat (blk (dev p)) (usage_bitmap p) pv ss" using pv by auto
  have pv16: "pv < 65536"
    using c msg_sector_bounds(4) by (cases ss) (fastforce simp: less_Suc_eq)+
  have "message_sector_wf (message_sector_of (replicate SECTOR_SIZE 0))"
    by (rule message_sector_wf_of) (simp add: layout)
  then have wf: "message_sector_wf ?s0" using pv16 ci by (simp add: create_new_message_sector_def message_sector_wf_def)
  define b where "b = message_sector_bytes ?s0"
  have lb: "length b = SECTOR_SIZE" using wf by (simp add: b_def layout)
  have sb: "message_sector_of b = ?s0" unfolding b_def by (rule message_sector_of_bytes [OF wf])
  from store_message_sem [OF p s m lb w [folded sb]]
  have st: "r = STRG_OK" "pers_ok S ok blk p'"
    "sector_changed (blk (dev p)) (usage_bitmap p) ?i True (message_put 0 m b) (usage_bitmap p') (blk (dev p'))"
    by simp_all
  then have ch: "\<forall>j. used (usage_bitmap p') j = (j = ?i \<or> used (usage_bitmap p) j)" "elsewhere_same ?i (blk (dev p)) (blk (dev p'))"
      "blk (dev p') (DATA_SECTOR_TO_RAW ?i) = message_put 0 m b"
    by (auto simp: sector_changed_def)
  have "s \<notin> set ss" using chat_used [OF c] u by auto
  then have fr: "chat (blk (dev p')) (usage_bitmap p') pv ss \<and> chat_msgs (blk (dev p')) ss = chat_msgs (blk (dev p)) ss"
    using ch(1) by (intro chat_elsewhere [OF ch(2) msg_sector_bounds(1) [OF s] _ _ c]) auto
  have cnt: "ms_msg_count (message_sector_of b) = 0" by (simp add: sb create_new_message_sector_def)
  note pp = message_put_props [OF lb m, of 0]
  have nb: "msg_block (blk (dev p')) s = message_sector_of (message_put 0 m b)" by (simp add: msg_block_def ch(3))
  have f: "ms_prev (msg_block (blk (dev p')) s) = pv" "ms_contact_index (msg_block (blk (dev p')) s) = ci"
      "ms_msg_count (msg_block (blk (dev p')) s) = 1" "ms_next (msg_block (blk (dev p')) s) = UINT16_MAX"
    using pp(3) by (simp_all add: nb sb create_new_message_sector_def)
  have "sector_msgs (msg_block (blk (dev p')) s) = [m]"
    using sector_msgs_put [OF lb m] cnt by (simp add: nb) (simp add: sector_msgs_def)
  then show ?thesis using st ch f fr s pp(2) by (simp add: layout)
qed

end

lemma relink_chat:
  assumes b: "blk' (DATA_SECTOR_TO_RAW (MESSAGE_DATA_SECTOR q)) = message_relink nx (blk (DATA_SECTOR_TO_RAW (MESSAGE_DATA_SECTOR q)))"
    and l: "length (blk (DATA_SECTOR_TO_RAW (MESSAGE_DATA_SECTOR q))) = SECTOR_SIZE" and n: "nx < 65536"
    and q: "q < TOTAL_MESSAGE_SECTOR_SIZE"
    and es: "\<And>k. k < USAGE_BITMAP_TOTAL_BITS \<Longrightarrow> k \<noteq> MESSAGE_DATA_SECTOR q \<Longrightarrow> blk' (DATA_SECTOR_TO_RAW k) = blk (DATA_SECTOR_TO_RAW k)"
    and c: "chat blk bm h ss"
  shows "chat blk' bm h ss \<and> chat_msgs blk' ss = chat_msgs blk ss"
  using c
proof (induction ss arbitrary: h)
  case (Cons s ss)
  note pr = message_relink_props [OF l n]
  have same: "ms_prev (msg_block blk' s) = ms_prev (msg_block blk s) \<and> ms_msg_count (msg_block blk' s) = ms_msg_count (msg_block blk s) \<and>
      sector_msgs (msg_block blk' s) = sector_msgs (msg_block blk s) \<and>
      sector_crc_valid (blk' (DATA_SECTOR_TO_RAW (MESSAGE_DATA_SECTOR s)))"
  proof (cases "s = q")
    case True
    then show ?thesis using pr b by (simp add: msg_block_def sector_msgs_def)
  next
    case False
    then have "blk' (DATA_SECTOR_TO_RAW (MESSAGE_DATA_SECTOR s)) = blk (DATA_SECTOR_TO_RAW (MESSAGE_DATA_SECTOR s))"
      using Cons.prems msg_sector_bounds(1) [of s] by (intro es) simp_all
    then show ?thesis using Cons.prems by (simp add: msg_block_def)
  qed
  then show ?case using Cons.IH [of "ms_prev (msg_block blk s)"] Cons.prems by auto
qed simp

context reliable_store begin

lemma point_message_sector_to_next_chat:
  assumes p: "pers_ok S ok blk p" and q: "q < TOTAL_MESSAGE_SECTOR_SIZE" and n: "nx < 65536"
    and v: "sector_crc_valid (blk (dev p) (DATA_SECTOR_TO_RAW (MESSAGE_DATA_SECTOR q)))"
    and c: "chat (blk (dev p)) (usage_bitmap p) h ss"
    and w: "point_message_sector_to_next S p nx q = (r, p')"
  shows "r = STRG_OK \<and> pers_ok S ok blk p' \<and> usage_bitmap p' = usage_bitmap p \<and>
    chat (blk (dev p')) (usage_bitmap p') h ss \<and> chat_msgs (blk (dev p')) ss = chat_msgs (blk (dev p)) ss \<and>
    ms_next (msg_block (blk (dev p')) q) = nx \<and> elsewhere_same (MESSAGE_DATA_SECTOR q) (blk (dev p)) (blk (dev p'))"
proof -
  define i where "i = MESSAGE_DATA_SECTOR q"
  define b where "b = blk (dev p) (DATA_SECTOR_TO_RAW i)"
  have i: "i < USAGE_BITMAP_TOTAL_BITS" "i < TOTAL_DATABASE_SECTOR_SIZE" "DATA_SECTOR_TO_RAW i < 65536"
    using msg_sector_bounds [OF q] by (simp_all add: i_def)
  have lb: "length b = SECTOR_SIZE" unfolding b_def by (rule blk_length [OF pers_okD(1) [OF p] pers_okD(4) [OF p i(2)]])
  have vb: "sector_crc_valid b" using v by (simp add: b_def i_def)
  have st: "sector_crc_stamp b = b" by (rule valid_imp_stamp [OF lb vb])
  have bb: "message_sector_bytes (message_sector_of b) = b" by (rule message_bytes_back [OF lb])
  have ms: "msg_sector q = i" using q by (simp add: i_def)
  have rd: "read_message_sector S (dev p) q = Inr (message_sector_of b)"
    using read_message_sector_valid [OF p q v] by (simp add: msg_block_def b_def i_def)
  obtain pa where a: "journal_add S p JRNL_MESSAGE i b = (True, b, pa)"
    using journal_add_reliable [OF p i(1) _ lb, of JRNL_MESSAGE] journal_add_in_progress [OF p i(1) _ lb, of JRNL_MESSAGE] st
    by (cases "journal_add S p JRNL_MESSAGE i b") auto
  have A: "ok (dev pa)" "capacity S (dev pa) = capacity S (dev p)" "usage_bitmap pa = usage_bitmap p"
      "bitmap_synced (blk (dev pa)) (usage_bitmap pa)" "journal_header_wf (j_header (journal pa))"
      "jh_magic (j_header (journal pa)) = JRNL_MAGIC" "same_data (blk (dev p)) (blk (dev pa))"
    using journal_add_in_progress [OF p i(1) _ lb a] by auto
  have cap: "DATA_REGION_START_SECTOR + TOTAL_DATABASE_SECTOR_SIZE \<le> capacity S (dev pa)" using p A(2) by (simp add: pers_ok_def)
  define ms' where "ms' = (message_sector_of b)\<lparr>ms_next := nx\<rparr>"
  have "message_sector_wf (message_sector_of b)" using lb by (intro message_sector_wf_of) (simp add: layout)
  then have "message_sector_wf ms'" using n by (simp add: message_sector_wf_def ms'_def)
  then have lms: "length (message_sector_bytes ms') = SECTOR_SIZE" by (simp add: layout)
  have sms: "sector_crc_stamp (message_sector_bytes ms') = message_relink nx b" by (simp add: message_relink_def ms'_def)
  have raw: "DATA_SECTOR_TO_RAW i < capacity S (dev pa)" using cap i(2) by (simp add: sector_defs layout)
  obtain b2 d2 where ws: "write_sector S (dev pa) (DATA_SECTOR_TO_RAW i) (message_sector_bytes ms') = (STRG_OK, b2, d2)"
    by (rule write_sector_in_range [OF A(1) raw i(3) lms]) blast
  have W: "ok d2" "capacity S d2 = capacity S (dev p)" "bitmap_synced (blk d2) (usage_bitmap p)"
      "blk d2 = (blk (dev pa))(DATA_SECTOR_TO_RAW i := message_relink nx b)"
    using write_raw_step [OF A(1) lms i(1) ws A(4)] A(2,3) sms by auto
  have wc: "write_message_sector S (dev pa) q ms' = (STRG_OK, message_sector_of b2, d2)"
    using ws by (simp add: write_message_sector_def i_def)
  have h2: "JRNL_HEADER_SECTOR < capacity S d2" using cap A(2) W(2) by (simp add: layout)
  obtain j3 d3 where f3: "journal_free S d2 (journal pa) = (STRG_OK, j3, d3)"
    using journal_free_reliable [OF W(1) h2 A(5)] by (metis prod_cases3 fst_conv)
  have F3: "ok d3" "capacity S d3 = capacity S d2" "journal_idle (blk d3)"
      "\<forall>k. k \<noteq> JRNL_HEADER_SECTOR \<longrightarrow> blk d3 k = blk d2 k"
    using journal_free_completes [OF W(1) A(5,6) f3] by auto
  have eq: "r = STRG_OK" "p' = pa\<lparr>dev := d3, journal := j3\<rparr>"
    using w rd a bb wc f3 by (simp_all add: point_message_sector_to_next_def ms Let_def flip: ms'_def)
  have "same_data (blk d2) (blk d3)" using F3(4) by (simp add: same_data_def)
  then have syn: "bitmap_synced (blk d3) (usage_bitmap p)" using W(3) synced_same_data by blast
  then have P: "pers_ok S ok blk p'" using p F3 W(2) A(3) by (simp add: pers_ok_def eq(2))
  have at: "blk d3 (DATA_SECTOR_TO_RAW i) = message_relink nx b" using F3(4) W(4) raw_not_meta [OF i(1)] by simp
  have es: "blk d3 (DATA_SECTOR_TO_RAW k) = blk (dev p) (DATA_SECTOR_TO_RAW k)"
    if "k < USAGE_BITMAP_TOTAL_BITS" "k \<noteq> i" for k
    using F3(4) W(4) raw_not_meta [OF that(1)] same_data_raw [OF A(7)] that(2) by simp
  have ch: "chat (blk d3) (usage_bitmap p) h ss \<and> chat_msgs (blk d3) ss = chat_msgs (blk (dev p)) ss"
    by (rule relink_chat [OF _ _ n q _ c]) (use at lb es in \<open>simp_all add: b_def i_def\<close>)
  have "elsewhere_same i (blk (dev p)) (blk d3)"
    using F3(4) W(4) A(7) by (simp add: elsewhere_same_def same_data_def)
  moreover have "ms_next (msg_block (blk d3) q) = nx"
    using message_relink_props(3) [OF lb n] at by (simp add: msg_block_def i_def)
  ultimately show ?thesis using eq P A(3) ch by (simp add: i_def)
qed

lemma write_next_message_sector_chat:
  assumes p: "pers_ok S ok blk p" and s: "s < TOTAL_MESSAGE_SECTOR_SIZE" and u: "\<not> used (usage_bitmap p) (MESSAGE_DATA_SECTOR s)"
    and c: "chat (blk (dev p)) (usage_bitmap p) q (q # ss)" and m: "message_wf m" and ci: "ci < 65536"
    and w: "write_next_message_sector S p ci q s m = (r, p')"
  shows "r = STRG_OK \<and> pers_ok S ok blk p' \<and> chat (blk (dev p')) (usage_bitmap p') s (s # q # ss) \<and>
    chat_msgs (blk (dev p')) (s # q # ss) = m # chat_msgs (blk (dev p)) (q # ss) \<and>
    ms_next (msg_block (blk (dev p')) q) = s \<and> ms_contact_index (msg_block (blk (dev p')) s) = ci \<and>
    ms_next (msg_block (blk (dev p')) s) = UINT16_MAX \<and> only_sectors {MESSAGE_DATA_SECTOR s, MESSAGE_DATA_SECTOR q} (blk (dev p)) (blk (dev p')) \<and>
    (\<forall>j. used (usage_bitmap p') j = (j = MESSAGE_DATA_SECTOR s \<or> used (usage_bitmap p) j))"
proof -
  have q: "q < TOTAL_MESSAGE_SECTOR_SIZE" "used (usage_bitmap p) (MESSAGE_DATA_SECTOR q)" using c by simp_all
  have chk: "\<not> check_usage_bit (usage_bitmap p) (msg_sector s)" "check_usage_bit (usage_bitmap p) (msg_sector q)"
    using check_usage_bit_used [OF msg_sector_bounds(1)] s u q by simp_all
  obtain r1 p1 where st: "store_message S p s 0 m (create_new_message_sector ci q) = (r1, p1)" by (meson surj_pair)
  have S1: "r1 = STRG_OK" "pers_ok S ok blk p1" "chat (blk (dev p1)) (usage_bitmap p1) s (s # q # ss)"
    "chat_msgs (blk (dev p1)) (s # q # ss) = m # chat_msgs (blk (dev p)) (q # ss)" "ms_contact_index (msg_block (blk (dev p1)) s) = ci"
    "ms_next (msg_block (blk (dev p1)) s) = UINT16_MAX"
    using write_new_message_sector_chat [OF p s u m ci _ st, of "q # ss"] c by simp_all
  have v: "sector_crc_valid (blk (dev p1) (DATA_SECTOR_TO_RAW (MESSAGE_DATA_SECTOR q)))" using S1(3) by simp
  have w2: "point_message_sector_to_next S p1 s q = (r, p')"
    using w chk st S1(1) by (simp add: write_next_message_sector_def)
  have s16: "s < 65536" using msg_sector_bounds(4) [OF s] by simp
  note pt = point_message_sector_to_next_chat [OF S1(2) q(1) s16 v S1(3) w2]
  have ne: "MESSAGE_DATA_SECTOR s \<noteq> MESSAGE_DATA_SECTOR q" using u q(2) by auto
  have es: "elsewhere_same (MESSAGE_DATA_SECTOR q) (blk (dev p1)) (blk (dev p'))" using pt by blast
  have "msg_block (blk (dev p')) s = msg_block (blk (dev p1)) s"
    using elsewhere_raw [OF es msg_sector_bounds(1) [OF q(1)] ne] by (simp add: msg_block_def)
  moreover have "usage_bitmap p' = usage_bitmap p1" "chat (blk (dev p')) (usage_bitmap p1) s (s # q # ss)"
    "chat_msgs (blk (dev p')) (s # q # ss) = chat_msgs (blk (dev p1)) (s # q # ss)" "r = STRG_OK" "pers_ok S ok blk p'"
    "ms_next (msg_block (blk (dev p')) q) = s"
    using conjunct1 [OF conjunct2 [OF conjunct2 [OF pt]]] pt by (metis (no_types))+
  moreover have es1: "elsewhere_same (MESSAGE_DATA_SECTOR s) (blk (dev p)) (blk (dev p1))"
    and "\<forall>j. used (usage_bitmap p1) j = (j = MESSAGE_DATA_SECTOR s \<or> used (usage_bitmap p) j)"
    using write_new_message_sector_chat [OF p s u m ci _ st, of "q # ss"] c by simp_all
  moreover have "only_sectors {MESSAGE_DATA_SECTOR s, MESSAGE_DATA_SECTOR q} (blk (dev p)) (blk (dev p'))"
    using elsewhere_only [OF es1 msg_sector_bounds(1) [OF s]] elsewhere_only [OF es msg_sector_bounds(1) [OF q(1)]]
    by (simp add: only_sectors_def)
  ultimately show ?thesis using S1(4-6) by (simp del: chat.simps chat_msgs_simps)
qed

end

subsection \<open>A message write interrupted by a power cut\<close>

lemma chat_same_data:
  assumes "same_data blk blk'" and "chat blk bm h ss"
  shows "chat blk' bm h ss \<and> chat_msgs blk' ss = chat_msgs blk ss"
  using same_data_raw [OF assms(1)] msg_sector_bounds(1) by (intro chat_frame [OF _ assms(2)]) blast

context reliable_store begin

lemma write_message_crash:
  assumes p: "pers_ok (power_cut S) (\<lambda>p. ok (card p)) (\<lambda>p. blk (card p)) p"
    and c: "chat (blk (card (dev p))) (usage_bitmap p) s (s # ss)" and m: "message_wf m"
    and w: "write_message (power_cut S) p s m = (r, p')"
    and init: "journal_init S (card (dev p')) j = (started, j', d')"
  shows "started \<and> (\<exists>bm'. bitmap_synced (blk d') bm' \<and> chat (blk d') bm' s (s # ss) \<and>
    chat_msgs (blk d') (s # ss) \<in> {chat_msgs (blk (card (dev p))) (s # ss), m # chat_msgs (blk (card (dev p))) (s # ss)} \<and>
    (r = STRG_OK \<longrightarrow> chat_msgs (blk d') (s # ss) = m # chat_msgs (blk (card (dev p))) (s # ss)))"
proof -
  let ?blk = "blk (card (dev p))" and ?bm = "usage_bitmap p" and ?i = "MESSAGE_DATA_SECTOR s"
  let ?b = "?blk (DATA_SECTOR_TO_RAW ?i)"
  note pd = block_store.pers_okD [OF power_cut_block_store p]
  have s: "s < TOTAL_MESSAGE_SECTOR_SIZE" "used ?bm ?i" "sector_crc_valid ?b" "chat ?blk ?bm (ms_prev (msg_block ?blk s)) ss"
    using c by simp_all
  note i = msg_sector_bounds(1,2,3) [OF s(1)]
  have capb: "DATA_SECTOR_TO_RAW ?i < capacity S (card (dev p))" using pd(4) [OF i(2)] by (simp add: power_cut_def)
  have lb: "length ?b = SECTOR_SIZE" using blk_length [OF _ capb] pd(1) by simp
  have stb: "sector_crc_stamp ?b = ?b" by (rule valid_imp_stamp [OF lb s(3)])
  define New where "New bm blk' = sector_changed ?blk ?bm ?i True (message_put (ms_msg_count (message_sector_of ?b)) m ?b) bm blk' " for bm blk'
  have out: "ok (card (dev p')) \<and> capacity (power_cut S) (dev p') = capacity (power_cut S) (dev p) \<and>
      txn ?blk JRNL_MESSAGE ?i ?b (\<lambda>blk'. ms_msg_count (message_sector_of ?b) < 3 \<and> (\<exists>bm. New bm blk')) (blk (card (dev p'))) \<and>
      (r = STRG_OK \<longrightarrow> ms_msg_count (message_sector_of ?b) < 3 \<and> journal_idle (blk (card (dev p'))) \<and> New (usage_bitmap p') (blk (card (dev p'))))"
  proof (cases "\<exists>mSector. read_message_sector (power_cut S) (dev p) s = Inr mSector \<and> ms_msg_count mSector < MESSAGE_SECTOR_CAPACITY")
    case True
    then obtain mSector where rd: "read_message_sector (power_cut S) (dev p) s = Inr mSector" "ms_msg_count mSector < 3"
      by (auto simp: layout)
    obtain b where b: "read_sector (power_cut S) (dev p) (DATA_SECTOR_TO_RAW ?i) = Inr b" "mSector = message_sector_of b"
      using rd(1) by (auto simp: read_message_sector_def split: sum.splits)
    have ms: "mSector = message_sector_of ?b"
      using block_store.read_sector_SomeD [OF power_cut_block_store pd(1) b(1)] b(2) to_u16_raw(1) [OF i(2)] by simp
    have "store_message (power_cut S) p s (ms_msg_count (message_sector_of ?b)) m (message_sector_of ?b) = (r, p')"
      using w rd ms check_usage_bit_used [OF i(1)] s(1,2) by (simp add: write_message_def layout)
    from block_store.store_message_outcome [OF power_cut_block_store p s(1) m lb this]
    show ?thesis using rd(2) ms by (auto simp: New_def stb pers_ok_def txn_def)
  next
    case False
    then have "p' = p" "r \<noteq> STRG_OK"
      using w check_usage_bit_used [OF i(1)] s(1,2)
      by (auto simp: write_message_def read_message_sector_def read_sector_def read_sector_raw_def layout
          split: sum.splits if_splits option.splits)
    then show ?thesis using pd(1,3) by (simp add: txn_def same_data_def)
  qed
  have cap: "DATA_SECTOR_TO_RAW ?i < capacity S (card (dev p'))" using capb out by (simp add: power_cut_def)
  have vu: "sector_crc_valid (?blk (usage_block ?i))"
    using pd(2) find_sector_less [OF i(1)] by (simp add: bitmap_synced_def usage_block_def)
  have rec: "started \<and> ok d' \<and> capacity S d' = capacity S (card (dev p')) \<and> journal_idle (blk d') \<and>
    (same_data ?blk (blk d') \<or> same_data (?blk(DATA_SECTOR_TO_RAW ?i := ?b)) (blk d') \<or>
     ms_msg_count (message_sector_of ?b) < 3 \<and> (\<exists>bm. New bm (blk d')))"
    using out by (intro recover_txn [where ?blk0.0 = ?blk and ?c0.0 = ?b and i = ?i and jtype = JRNL_MESSAGE and d = "card (dev p')" and
        New = "\<lambda>blk'. ms_msg_count (message_sector_of ?b) < 3 \<and> (\<exists>bm. New bm blk')", OF _ cap i(1) _ _ s(3) vu init]) simp_all
  have new: "bitmap_synced blk' bm' \<and> chat blk' bm' s (s # ss) \<and> chat_msgs blk' (s # ss) = m # chat_msgs ?blk (s # ss)"
    if N: "New bm' blk'" and cnt: "ms_msg_count (message_sector_of ?b) < 3" for bm' blk'
  proof -
    let ?nb = "message_put (ms_msg_count (message_sector_of ?b)) m ?b"
    have ch: "\<forall>j. used bm' j = (if j = ?i then True else used ?bm j)" "elsewhere_same ?i ?blk blk'"
      "bitmap_synced blk' bm'" "blk' (DATA_SECTOR_TO_RAW ?i) = ?nb"
      using N by (simp_all add: New_def sector_changed_def)
    have fr: "chat blk' bm' (ms_prev (msg_block ?blk s)) ss \<and> chat_msgs blk' ss = chat_msgs ?blk ss"
      using chat_distinct [OF c] ch(1) by (intro chat_elsewhere [OF ch(2) i(1) _ _ s(4)]) auto
    note pp = message_put_props [OF lb m, of "ms_msg_count (message_sector_of ?b)"]
    have nb: "msg_block blk' s = message_sector_of ?nb" by (simp add: msg_block_def ch(4))
    have "chat blk' bm' s (s # ss)" using s fr ch pp(2,3) cnt by (simp add: nb) (simp add: msg_block_def layout)
    moreover have "chat_msgs blk' (s # ss) = m # chat_msgs ?blk (s # ss)"
      using sector_msgs_put [OF lb m cnt] fr nb by (simp add: msg_block_def)
    ultimately show ?thesis using ch(3) by blast
  qed
  show ?thesis
  proof (cases "r = STRG_OK")
    case True
    have "JRNL_HEADER_SECTOR < capacity S (card (dev p'))" using cap by (simp add: sector_defs layout)
    then have "d' = card (dev p')" using recover_idle [of "card (dev p')" j] out True init by auto
    then show ?thesis using new [of "usage_bitmap p'" "blk d'"] out rec True by blast
  next
    case False
    have "same_data ?blk (blk d') \<or> ms_msg_count (message_sector_of ?b) < 3 \<and> (\<exists>bm. New bm (blk d'))"
      using rec by (simp add: fun_upd_idem)
    then show ?thesis
    proof
      assume sd: "same_data ?blk (blk d')"
      then have "bitmap_synced (blk d') ?bm" using pd(2) synced_same_data by blast
      then show ?thesis using chat_same_data [OF sd c] rec False by blast
    next
      assume "ms_msg_count (message_sector_of ?b) < 3 \<and> (\<exists>bm. New bm (blk d'))"
      then show ?thesis using new rec False by blast
    qed
  qed
qed

end

subsection \<open>Removing a chat\<close>

text \<open>What a removal step leaves of the other sectors: the raw data sectors are as before.\<close>

definition raw_data_same :: "(nat \<Rightarrow> byte list) \<Rightarrow> (nat \<Rightarrow> byte list) \<Rightarrow> bool" where
  "raw_data_same blk blk' \<longleftrightarrow> (\<forall>k. blk' (DATA_SECTOR_TO_RAW k) = blk (DATA_SECTOR_TO_RAW k)) \<and>
     blk' SUPERHEADER_SECTOR = blk SUPERHEADER_SECTOR"

lemma raw_data_same_trans: "raw_data_same blk0 blk1 \<Longrightarrow> raw_data_same blk1 blk2 \<Longrightarrow> raw_data_same blk0 blk2"
  by (simp add: raw_data_same_def)

lemma chat_raw_same:
  assumes "raw_data_same blk blk'" and "\<And>s. s \<in> set ss \<Longrightarrow> used bm' (MESSAGE_DATA_SECTOR s)" and "chat blk bm h ss"
  shows "chat blk' bm' h ss \<and> chat_msgs blk' ss = chat_msgs blk ss"
  using assms(1,2) msg_sector_bounds(1) by (intro chat_frame [OF _ assms(3)]) (simp add: raw_data_same_def)

context reliable_store begin

lemma remove_message_sector_sem:
  assumes p: "pers_ok S ok blk p" and s: "s < TOTAL_MESSAGE_SECTOR_SIZE" and u: "used (usage_bitmap p) (MESSAGE_DATA_SECTOR s)"
    and v: "sector_crc_valid (blk (dev p) (DATA_SECTOR_TO_RAW (MESSAGE_DATA_SECTOR s)))"
  shows "\<exists>p'. remove_message_sector S p fls s = (STRG_OK, Some (msg_block (blk (dev p)) s), p', free_list_free fls s) \<and>
    pers_ok S ok blk p' \<and> raw_data_same (blk (dev p)) (blk (dev p')) \<and>
    (\<forall>j. used (usage_bitmap p') j = (j \<noteq> MESSAGE_DATA_SECTOR s \<and> used (usage_bitmap p) j))"
proof -
  define i where "i = MESSAGE_DATA_SECTOR s"
  define b where "b = blk (dev p) (DATA_SECTOR_TO_RAW i)"
  have i: "i < USAGE_BITMAP_TOTAL_BITS" "i < TOTAL_DATABASE_SECTOR_SIZE" "msg_sector s = i"
    using msg_sector_bounds [OF s] s by (simp_all add: i_def)
  note pd = pers_okD [OF p]
  have lb: "length b = SECTOR_SIZE" unfolding b_def by (rule blk_length [OF pd(1) pd(4) [OF i(2)]])
  have st: "sector_crc_stamp b = b" using valid_imp_stamp [OF lb] v by (simp add: b_def i_def)
  have rd: "read_message_sector S (dev p) s = Inr (message_sector_of b)"
    using read_message_sector_valid [OF p s v] by (simp add: msg_block_def b_def i_def)
  have bb: "message_sector_bytes (message_sector_of b) = b" by (rule message_bytes_back [OF lb])
  have chk: "check_usage_bit (usage_bitmap p) i" using check_usage_bit_used [OF i(1)] u by (simp add: i_def)
  obtain pa where a: "journal_add S p JRNL_MESSAGE i b = (True, b, pa)"
    using journal_add_reliable [OF p i(1) _ lb, of JRNL_MESSAGE] journal_add_in_progress [OF p i(1) _ lb, of JRNL_MESSAGE] st
    by (cases "journal_add S p JRNL_MESSAGE i b") auto
  have A: "ok (dev pa)" "capacity S (dev pa) = capacity S (dev p)" "usage_bitmap pa = usage_bitmap p"
      "bitmap_synced (blk (dev pa)) (usage_bitmap pa)" "journal_header_wf (j_header (journal pa))"
      "jh_magic (j_header (journal pa)) = JRNL_MAGIC" "same_data (blk (dev p)) (blk (dev pa))"
      "in_progress (blk (dev p)) JRNL_MESSAGE i b (blk (dev pa))"
    using journal_add_in_progress [OF p i(1) _ lb a] st by auto
  have cap: "DATA_REGION_START_SECTOR + TOTAL_DATABASE_SECTOR_SIZE \<le> capacity S (dev pa)" using p A(2) by (simp add: pers_ok_def)
  obtain d2 bm2 where up: "update_usage_bit S (dev pa) (usage_bitmap pa) i False = (STRG_OK, d2, bm2)"
    using update_usage_bit_reliable [OF A(1,4) i(1), of False] cap
    by (cases "update_usage_bit S (dev pa) (usage_bitmap pa) i False") (auto simp: layout)
  note U = update_usage_bit_in_progress [OF A(1,4) i(1) A(8) up]
  have d2: "ok d2" "capacity S d2 = capacity S (dev p)" "bitmap_synced (blk d2) bm2"
      "\<forall>j. used bm2 j = (j \<noteq> i \<and> used (usage_bitmap p) j)"
    using U A(2,3) by auto
  have h2: "JRNL_HEADER_SECTOR < capacity S d2" using cap A(2) d2(2) by (simp add: layout)
  obtain j3 d3 where f3: "journal_free S d2 (journal pa) = (STRG_OK, j3, d3)"
    using journal_free_reliable [OF d2(1) h2 A(5)] by (metis prod_cases3 fst_conv)
  have F3: "ok d3" "capacity S d3 = capacity S d2" "journal_idle (blk d3)"
      "\<forall>k. k \<noteq> JRNL_HEADER_SECTOR \<longrightarrow> blk d3 k = blk d2 k"
    using journal_free_completes [OF d2(1) A(5,6) f3] by auto
  let ?p = "pa\<lparr>dev := d3, usage_bitmap := bm2, journal := j3\<rparr>"
  have "remove_message_sector S p fls s = (STRG_OK, Some (message_sector_of b), ?p, free_list_free fls s)"
    using chk rd bb a up f3 by (simp add: remove_message_sector_def i(3) Let_def)
  moreover have "same_data (blk d2) (blk d3)" using F3(4) by (simp add: same_data_def)
  then have "bitmap_synced (blk d3) bm2" using d2(3) synced_same_data by blast
  then have "pers_ok S ok blk ?p" using p F3 d2(2) by (simp add: pers_ok_def)
  moreover have "raw_data_same (blk (dev p)) (blk (dev ?p))"
  proof -
    have "blk (dev pa) SUPERHEADER_SECTOR = blk (dev p) SUPERHEADER_SECTOR" using A(7) by (simp add: same_data_def layout)
    moreover have "SUPERHEADER_SECTOR \<noteq> JRNL_HEADER_SECTOR"
      "SUPERHEADER_SECTOR \<noteq> USAGE_BITMAP_START_SECTOR + USAGE_BITMAP_FIND_SECTOR i" by (simp_all add: layout)
    ultimately show ?thesis
      using F3(4) U same_data_raw [OF A(7)] raw_neq_bitmap [OF find_sector_less [OF i(1)]]
      by (simp add: raw_data_same_def usage_block_def)
  qed
  ultimately show ?thesis using d2(4) by (intro exI [of _ ?p]) (simp add: b_def i_def msg_block_def)
qed

text \<open>The loop ends on every chat and releases exactly its sectors.\<close>

lemma remove_message_chat_chat:
  "pers_ok S ok blk p \<Longrightarrow> chat (blk (dev p)) (usage_bitmap p) h ss \<Longrightarrow>
   \<exists>p'. remove_message_chat S p fls h = Some (True, p', foldl free_list_free fls ss) \<and> pers_ok S ok blk p' \<and>
     raw_data_same (blk (dev p)) (blk (dev p')) \<and>
     (\<forall>j. used (usage_bitmap p') j = (used (usage_bitmap p) j \<and> j \<notin> MESSAGE_DATA_SECTOR ` set ss))"
proof (induction ss arbitrary: p fls h)
  case Nil
  then show ?case by (subst remove_message_chat.simps) (simp add: raw_data_same_def)
next
  case (Cons s ss)
  let ?sec = "msg_block (blk (dev p)) s"
  have s: "s < TOTAL_MESSAGE_SECTOR_SIZE" "h = s" "used (usage_bitmap p) (MESSAGE_DATA_SECTOR s)"
    "sector_crc_valid (blk (dev p) (DATA_SECTOR_TO_RAW (MESSAGE_DATA_SECTOR s)))"
    "chat (blk (dev p)) (usage_bitmap p) (ms_prev ?sec) ss"
    using Cons.prems(2) by simp_all
  obtain p1 where p1: "remove_message_sector S p fls s = (STRG_OK, Some ?sec, p1, free_list_free fls s)"
      "pers_ok S ok blk p1" "raw_data_same (blk (dev p)) (blk (dev p1))"
      "\<forall>j. used (usage_bitmap p1) j = (j \<noteq> MESSAGE_DATA_SECTOR s \<and> used (usage_bitmap p) j)"
    using remove_message_sector_sem [OF Cons.prems(1) s(1,3,4)] by blast
  have "s \<notin> set ss" using chat_distinct [OF Cons.prems(2)] by simp
  then have u: "\<And>t. t \<in> set ss \<Longrightarrow> used (usage_bitmap p1) (MESSAGE_DATA_SECTOR t)"
    using p1(4) chat_used [OF s(5)] by auto
  have c: "chat (blk (dev p1)) (usage_bitmap p1) (ms_prev ?sec) ss"
    using chat_raw_same [OF p1(3) u s(5)] by simp
  have e: "remove_message_chat S p fls h = remove_message_chat S p1 (free_list_free fls s) (ms_prev ?sec)"
    using s(2) p1(1) msg_sector_bounds(4) [OF s(1)] by (subst remove_message_chat.simps) simp
  show ?case using Cons.IH [OF p1(2) c, of "free_list_free fls s"] p1(3,4) raw_data_same_trans
    unfolding e by fastforce
qed

end

lemma create_message_wf [simp]: "timestamp < 2 ^ 32 \<Longrightarrow> message_wf (create_message timestamp direction str)"
  by (auto simp: create_message_def message_wf_def message_zero_def layout Let_def split: option.splits)

end
