(* ===== verification/Superheader.thy ===== *)
theory Superheader
  imports Storage
begin

text \<open>
  The superheader of \<^verbatim>\<open>source/app/src/superheader.c\<close>: the identification sector of the
  database.  \<open>SuperHeader\<close> is the struct (the union with its byte buffer is the pair of codecs
  \<open>superheader_of\<close>, \<open>superheader_bytes\<close>); the lemmas give the codec's laws, the status of a
  freshly initialised header and the meaning of each status.
\<close>

datatype SUPR_HEAD_STATUS = SUPR_GOOD | SUPR_FAIL | SUPR_UNINITIALISED | SUPR_CORRUPTED | SUPR_OUTDATED

definition SUPR_HEAD_MAGIC :: nat where [simp]: "SUPR_HEAD_MAGIC = 0x53444D42"
definition SUPR_HEAD_BLANK_EMPTY :: nat where [simp]: "SUPR_HEAD_BLANK_EMPTY = 0"
definition SUPR_HEAD_BLANK_FULL :: nat where [simp]: "SUPR_HEAD_BLANK_FULL = 0xFFFFFFFF"
definition DB_CURRENT_VERSION :: nat where [simp]: "DB_CURRENT_VERSION = 1"

record SuperHeader =
  sh_magic :: nat
  sh_version :: nat
  sh_db_start :: nat
  sh_db_end :: nat
  sh_padding :: "byte list"
  sh_crc :: nat

definition superheader_of :: "byte list \<Rightarrow> SuperHeader" where
  "superheader_of b = \<lparr>sh_magic = rd32 (slice 0 4 b), sh_version = rd32 (slice 4 4 b),
     sh_db_start = rd32 (slice 8 4 b), sh_db_end = rd32 (slice 12 4 b),
     sh_padding = slice 16 492 b, sh_crc = rd32 (slice 508 4 b)\<rparr>"

definition superheader_bytes :: "SuperHeader \<Rightarrow> byte list" where
  "superheader_bytes h = le32 (sh_magic h) @ le32 (sh_version h) @ le32 (sh_db_start h) @ le32 (sh_db_end h) @
     sh_padding h @ le32 (sh_crc h)"

definition superheader_wf :: "SuperHeader \<Rightarrow> bool" where
  "superheader_wf h \<longleftrightarrow> sh_magic h < 2 ^ 32 \<and> sh_version h < 2 ^ 32 \<and> sh_db_start h < 2 ^ 32 \<and>
     sh_db_end h < 2 ^ 32 \<and> length (sh_padding h) = 492 \<and> sh_crc h < 2 ^ 32"

lemma superheader_of_bytes [codec]: "superheader_wf h \<Longrightarrow> superheader_of (superheader_bytes h) = h"
  by (simp add: superheader_wf_def superheader_of_def superheader_bytes_def slice_prefix rd32_le32)

lemma superheader_bytes_of [codec]: "length b = 512 \<Longrightarrow> superheader_bytes (superheader_of b) = b"
  by (simp add: superheader_of_def superheader_bytes_def le32_rd32 slice_join)

lemma superheader_wf_of: "length b = 512 \<Longrightarrow> superheader_wf (superheader_of b)"
  by (simp add: superheader_wf_def superheader_of_def rd32_less)

lemma length_superheader_bytes [simp]: "length (sh_padding h) = 492 \<Longrightarrow> length (superheader_bytes h) = 512"
  by (simp add: superheader_bytes_def)

lemma superheader_of_stamp:
  "length b = SECTOR_SIZE \<Longrightarrow>
   superheader_of (sector_crc_stamp b) = (superheader_of b)\<lparr>sh_crc := rd32 (slice 508 4 (sector_crc_stamp b))\<rparr>"
  by (simp add: superheader_of_def)

definition read_superheader :: "'c Storage \<Rightarrow> 'c \<Rightarrow> SuperHeader \<Rightarrow> STRG_RET \<times> SuperHeader" where
  "read_superheader S d sh =
     (case read_sector_raw S d SUPERHEADER_SECTOR of Inl ret \<Rightarrow> (ret, sh) | Inr b \<Rightarrow> (STRG_OK, superheader_of b))"

definition write_superheader :: "'c Storage \<Rightarrow> 'c \<Rightarrow> SuperHeader \<Rightarrow> STRG_RET \<times> SuperHeader \<times> 'c" where
  "write_superheader S d sh =
     (let (ret, b, d') = write_sector S d SUPERHEADER_SECTOR (superheader_bytes sh) in (ret, superheader_of b, d'))"

definition get_superheader_status :: "SuperHeader \<Rightarrow> SUPR_HEAD_STATUS" where
  "get_superheader_status sh =
     (if \<not> sector_crc_valid (superheader_bytes sh) then
        if sh_magic sh = SUPR_HEAD_BLANK_EMPTY \<or> sh_magic sh = SUPR_HEAD_BLANK_FULL
        then SUPR_UNINITIALISED else SUPR_CORRUPTED
      else if sh_magic sh \<noteq> SUPR_HEAD_MAGIC then SUPR_UNINITIALISED
      else if sh_version sh \<noteq> DB_CURRENT_VERSION then SUPR_OUTDATED
      else SUPR_GOOD)"

definition superheader_zero :: SuperHeader where
  "superheader_zero = \<lparr>sh_magic = 0, sh_version = 0, sh_db_start = 0, sh_db_end = 0,
     sh_padding = replicate 492 0, sh_crc = 0\<rparr>"

definition superheader_init :: "'c Storage \<Rightarrow> 'c \<Rightarrow> STRG_RET \<times> SuperHeader \<times> 'c" where
  "superheader_init S d =
     write_superheader S d (superheader_zero
       \<lparr>sh_magic := SUPR_HEAD_MAGIC, sh_db_start := DATA_REGION_START_SECTOR,
        sh_db_end := DATA_REGION_START_SECTOR + CALL_HISTORY_DATA_START_SECTOR + TOTAL_CALL_HISTORY_SECTOR_SIZE,
        sh_version := DB_CURRENT_VERSION\<rparr>)"

definition superheader_check :: "'c Storage \<Rightarrow> 'c \<Rightarrow> SuperHeader \<Rightarrow> SUPR_HEAD_STATUS \<times> SuperHeader" where
  "superheader_check S d sh =
     (let (ret, sh') = read_superheader S d sh
      in if ret = STRG_FAIL then (SUPR_FAIL, sh') else (get_superheader_status sh', sh'))"

text \<open>What the card must hold for the check to succeed.\<close>

definition superheader_good :: "(nat \<Rightarrow> byte list) \<Rightarrow> bool" where
  "superheader_good blk \<longleftrightarrow> get_superheader_status (superheader_of (blk SUPERHEADER_SECTOR)) = SUPR_GOOD"

context reliable_store begin

lemma superheader_check_good:
  assumes "ok d" and "SUPERHEADER_SECTOR < capacity S d"
  shows "fst (superheader_check S d any) = SUPR_GOOD \<longleftrightarrow> superheader_good (blk d)"
  using read_in_range [OF assms(1), of SUPERHEADER_SECTOR] assms(2)
  by (simp add: superheader_check_def superheader_good_def read_superheader_def read_sector_raw_def layout)

lemma superheader_init_check:
  assumes d: "ok d" and cap: "SUPERHEADER_SECTOR < capacity S d" and i: "superheader_init S d = (r, sh, d')"
  shows "r = STRG_OK \<and> ok d' \<and> capacity S d' = capacity S d \<and> superheader_check S d' any = (SUPR_GOOD, sh) \<and>
    sh_db_start sh = 12 \<and> sh_db_end sh = 40265 \<and>
    (\<forall>k. k \<noteq> SUPERHEADER_SECTOR \<longrightarrow> blk d' k = blk d k)"
proof -
  define h where "h = superheader_zero
       \<lparr>sh_magic := SUPR_HEAD_MAGIC, sh_db_start := DATA_REGION_START_SECTOR,
        sh_db_end := DATA_REGION_START_SECTOR + CALL_HISTORY_DATA_START_SECTOR + TOTAL_CALL_HISTORY_SECTOR_SIZE,
        sh_version := DB_CURRENT_VERSION\<rparr>"
  define b where "b = superheader_bytes h"
  have wf: "superheader_wf h" by (simp add: superheader_wf_def h_def superheader_zero_def layout)
  then have l: "length b = SECTOR_SIZE" by (simp add: b_def superheader_wf_def layout)
  obtain d2 where w: "write_sector S d SUPERHEADER_SECTOR b = (STRG_OK, sector_crc_stamp b, d2)"
    and d2: "ok d2" "capacity S d2 = capacity S d" "blk d2 = (blk d)(SUPERHEADER_SECTOR := sector_crc_stamp b)"
    by (rule write_sector_in_range [OF d cap _ l]) (auto simp: layout)
  have eq: "r = STRG_OK" "sh = superheader_of (sector_crc_stamp b)" "d' = d2"
    using i [unfolded superheader_init_def write_superheader_def, folded h_def, folded b_def] w by simp_all
  have fields: "sh_magic sh = sh_magic h" "sh_version sh = sh_version h"
      "sh_db_start sh = sh_db_start h" "sh_db_end sh = sh_db_end h"
    by (simp_all add: eq(2) superheader_of_stamp [OF l]) (simp_all add: b_def superheader_of_bytes [OF wf])
  have "superheader_bytes sh = sector_crc_stamp b"
    using length_stamp [OF l] by (simp add: eq(2) superheader_bytes_of layout)
  then have "get_superheader_status sh = SUPR_GOOD"
    using l fields by (simp add: get_superheader_status_def h_def superheader_zero_def)
  moreover have "read_superheader S d' any = (STRG_OK, sh)"
    using read_in_range [OF d2(1), of 0] cap d2 by (simp add: read_superheader_def read_sector_raw_def eq layout)
  ultimately show ?thesis using eq d2 fields
    by (simp add: superheader_check_def h_def superheader_zero_def layout)
qed

end

text \<open>A header reported good has the magic, the version and an intact checksum.\<close>

lemma superheader_good_iff:
  "get_superheader_status sh = SUPR_GOOD \<longleftrightarrow>
     sector_crc_valid (superheader_bytes sh) \<and> sh_magic sh = SUPR_HEAD_MAGIC \<and> sh_version sh = DB_CURRENT_VERSION"
  by (simp add: get_superheader_status_def)

end
