(* ===== verification/Ring_Buffer.thy ===== *)
theory Ring_Buffer
  imports Storage
begin

text \<open>
  The ring of sectors behind the two histories: \<^verbatim>\<open>source/app/src/ring_buffer.c\<close>.  RAM
  holds the position, the fill level and the sequence number; every sector carries its sequence
  number and state, from which a restart finds the position again by binary search.

  \<^item> \<open>binary_search_head_finds\<close>: the search returns the last sector whose sequence number
    continues that of sector 0, whatever lies behind it.
  \<^item> \<open>ring_on_card\<close> says that the sectors carry the numbers and states of a ring;
    \<open>reconstruct_ring\<close> that the RAM state is then recovered exactly.
\<close>

subsection \<open>State\<close>

record RingBuffer =
  rb_seq :: nat
  rb_size :: nat
  rb_current_index :: nat
  rb_occupancy :: nat

definition RB_EMPTY :: nat where [simp]: "RB_EMPTY = 0"
definition RB_OCCUPIED :: nat where [simp]: "RB_OCCUPIED = 1"
definition RB_FULL :: nat where [simp]: "RB_FULL = 2"

record RingBufferHeader =
  rh_seq :: nat
  rh_head :: nat
  rh_state :: nat
  rh_padding :: "byte list"

definition ring_buffer_header_of :: "byte list \<Rightarrow> RingBufferHeader" where
  "ring_buffer_header_of b =
     \<lparr>rh_seq = rd32 (slice 0 4 b), rh_head = unat (b ! 4), rh_state = unat (b ! 5), rh_padding = slice 6 2 b\<rparr>"

definition ring_buffer_header_bytes :: "RingBufferHeader \<Rightarrow> byte list" where
  "ring_buffer_header_bytes h = le32 (rh_seq h) @ [of_nat (rh_head h), of_nat (rh_state h)] @ rh_padding h"

definition ring_buffer_header_wf :: "RingBufferHeader \<Rightarrow> bool" where
  "ring_buffer_header_wf h \<longleftrightarrow> rh_seq h < 2 ^ 32 \<and> rh_head h < 256 \<and> rh_state h < 256 \<and> length (rh_padding h) = 2"

lemma ring_buffer_header_of_bytes [codec]:
  "ring_buffer_header_wf h \<Longrightarrow> ring_buffer_header_of (ring_buffer_header_bytes h @ t) = h"
  by (simp add: ring_buffer_header_wf_def ring_buffer_header_of_def ring_buffer_header_bytes_def slice_prefix
      rd32_le32 nth_append unat_byte_of_nat)

lemma ring_buffer_header_bytes_of [codec]:
  "8 \<le> length b \<Longrightarrow> ring_buffer_header_bytes (ring_buffer_header_of b) = take 8 b"
  by (simp add: ring_buffer_header_of_def ring_buffer_header_bytes_def le32_rd32 slice_join slice_cons
      slice_as_nth [symmetric]) (simp add: slice_def)

lemma ring_buffer_header_wf_of: "8 \<le> length b \<Longrightarrow> ring_buffer_header_wf (ring_buffer_header_of b)"
  by (simp add: ring_buffer_header_wf_def ring_buffer_header_of_def rd32_less)

lemma length_ring_buffer_header_bytes [simp]: "ring_buffer_header_wf h \<Longrightarrow> length (ring_buffer_header_bytes h) = 8"
  by (simp add: ring_buffer_header_bytes_def ring_buffer_header_wf_def)

subsection \<open>Finding the head\<close>

definition read_ring_buffer_sector :: "'c Storage \<Rightarrow> 'c \<Rightarrow> nat \<Rightarrow> nat \<Rightarrow> byte list res" where
  "read_ring_buffer_sector S d raw_sector_start index = read_sector S d (to_u16 (index + raw_sector_start))"

definition binary_search_target_right :: "nat \<Rightarrow> nat \<Rightarrow> nat \<Rightarrow> nat \<Rightarrow> bool" where
  "binary_search_target_right state_i seq_start seq_i mid \<longleftrightarrow>
     state_i \<noteq> RB_EMPTY \<and> to_u32 (seq_i + 2 ^ 32 - seq_start) = mid"

definition seq_and_state_at :: "'c Storage \<Rightarrow> 'c \<Rightarrow> nat \<Rightarrow> nat \<Rightarrow> (nat \<times> nat) res" where
  "seq_and_state_at S d raw_sector_start index =
     (case read_ring_buffer_sector S d raw_sector_start index of
        Inl ret \<Rightarrow> Inl ret
      | Inr b \<Rightarrow> let header = ring_buffer_header_of b in Inr (rh_seq header, rh_state header))"

definition is_ring_buffer_wrapped :: "'c Storage \<Rightarrow> 'c \<Rightarrow> nat \<Rightarrow> nat \<Rightarrow> STRG_RET" where
  "is_ring_buffer_wrapped S d raw_sector_start head =
     (case seq_and_state_at S d raw_sector_start (to_u16 (head + 1)) of
        Inl _ \<Rightarrow> STRG_FAIL
      | Inr (seq, state) \<Rightarrow> if state = RB_EMPTY then STRG_EMPTY else STRG_OK)"

function search_loop :: "'c Storage \<Rightarrow> 'c \<Rightarrow> nat \<Rightarrow> nat \<Rightarrow> nat \<Rightarrow> nat \<Rightarrow> nat res" where
  "search_loop S d raw_sector_start seq_start lo hi =
     (if hi - lo > 1 then
        let mid = lo + (hi - lo) div 2
        in case seq_and_state_at S d raw_sector_start mid of
             Inl _ \<Rightarrow> Inl STRG_FAIL
           | Inr (seq_i, state) \<Rightarrow>
               if binary_search_target_right state seq_start seq_i mid
               then search_loop S d raw_sector_start seq_start mid hi
               else search_loop S d raw_sector_start seq_start lo mid
      else Inr lo)"
  by pat_completeness auto
termination by (relation "measure (\<lambda>(_, _, _, _, lo, hi). hi - lo)") auto

declare search_loop.simps [simp del]

text \<open>The head and its sequence number, or the status returned.\<close>

definition binary_search_head :: "'c Storage \<Rightarrow> 'c \<Rightarrow> nat \<Rightarrow> nat \<Rightarrow> (nat \<times> nat) res" where
  "binary_search_head S d raw_sector_start mem_size =
     (case seq_and_state_at S d raw_sector_start 0 of
        Inl _ \<Rightarrow> Inl STRG_FAIL
      | Inr (seq_start, state) \<Rightarrow>
          if state = RB_EMPTY then Inl STRG_EMPTY
          else case search_loop S d raw_sector_start seq_start 0 mem_size of
            Inl ret \<Rightarrow> Inl ret
          | Inr lo \<Rightarrow>
              (case seq_and_state_at S d raw_sector_start lo of
                 Inl _ \<Rightarrow> Inl STRG_FAIL
               | Inr (seq_i, _) \<Rightarrow> Inr (lo, seq_i)))"

definition reconstruct_ring_buffer :: "'c Storage \<Rightarrow> 'c \<Rightarrow> RingBuffer \<Rightarrow> nat \<Rightarrow> bool \<times> RingBuffer" where
  "reconstruct_ring_buffer S d rb raw_sector_start =
     (case binary_search_head S d raw_sector_start (rb_size rb) of
        Inl ret \<Rightarrow>
          if ret = STRG_EMPTY then (True, rb\<lparr>rb_current_index := 0, rb_seq := 0, rb_occupancy := 0\<rparr>) else (False, rb)
      | Inr (head, seq) \<Rightarrow>
          let rb = rb\<lparr>rb_seq := seq, rb_current_index := head\<rparr>
          in if head = rb_size rb - 1 then (True, rb\<lparr>rb_occupancy := rb_size rb\<rparr>)
             else case is_ring_buffer_wrapped S d raw_sector_start head of
               STRG_OK \<Rightarrow> (True, rb\<lparr>rb_occupancy := rb_size rb\<rparr>)
             | STRG_EMPTY \<Rightarrow> (True, rb\<lparr>rb_occupancy := to_u16 (head + 1)\<rparr>)
             | _ \<Rightarrow> (False, rb))"

definition init_ring_buffer :: "'c Storage \<Rightarrow> 'c \<Rightarrow> RingBuffer \<Rightarrow> nat \<Rightarrow> nat \<Rightarrow> bool \<times> RingBuffer" where
  "init_ring_buffer S d rb sz raw_sector_start =
     (if sz = 0 then (False, rb) else reconstruct_ring_buffer S d (rb\<lparr>rb_size := sz\<rparr>) raw_sector_start)"

text \<open>\<^verbatim>\<open>write_sector\<close> stamps the CRC into the buffer it is given, so the buffer is carried.\<close>

function clear_ring_loop :: "'c Storage \<Rightarrow> 'c \<Rightarrow> nat \<Rightarrow> nat \<Rightarrow> nat \<Rightarrow> byte list \<Rightarrow> STRG_RET \<times> 'c" where
  "clear_ring_loop S d raw_sector_start sz i buf =
     (if i < sz then
        let (ret, buf, d) = write_sector S d (to_u16 (raw_sector_start + i)) buf
        in if ret \<noteq> STRG_OK then (ret, d) else clear_ring_loop S d raw_sector_start sz (i + 1) buf
      else (STRG_OK, d))"
  by pat_completeness auto
termination by (relation "measure (\<lambda>(_, _, _, sz, i, _). sz - i)") auto

declare clear_ring_loop.simps [simp del]

definition clear_ring_buffer :: "'c Storage \<Rightarrow> 'c \<Rightarrow> nat \<Rightarrow> nat \<Rightarrow> STRG_RET \<times> 'c" where
  "clear_ring_buffer S d raw_sector_start sz =
     clear_ring_loop S d raw_sector_start sz 0
       ((replicate SECTOR_SIZE 0)[5 := of_nat RB_EMPTY])"

subsection \<open>Moving in RAM\<close>

definition move_next_ring_buffer :: "RingBuffer \<Rightarrow> RingBuffer" where
  "move_next_ring_buffer rb =
     (if int (rb_current_index rb) < int (rb_occupancy rb) - 1
      then rb\<lparr>rb_current_index := to_u16 (rb_current_index rb + 1)\<rparr> else rb\<lparr>rb_current_index := 0\<rparr>)"

definition move_prev_ring_buffer :: "RingBuffer \<Rightarrow> RingBuffer" where
  "move_prev_ring_buffer rb =
     (if rb_current_index rb > 0 then rb\<lparr>rb_current_index := rb_current_index rb - 1\<rparr>
      else rb\<lparr>rb_current_index := rb_size rb - 1\<rparr>)"

definition add_ring_buffer :: "RingBuffer \<Rightarrow> RingBuffer" where
  "add_ring_buffer rb = (if rb_occupancy rb < rb_size rb then rb\<lparr>rb_occupancy := rb_occupancy rb + 1\<rparr> else rb)"

definition inc_seq_ring_buffer :: "RingBuffer \<Rightarrow> RingBuffer" where
  "inc_seq_ring_buffer rb = rb\<lparr>rb_seq := to_u32 (rb_seq rb + 1)\<rparr>"

subsection \<open>Iterating\<close>

record RBIteratorCtx =
  rc_current :: nat
  rc_upper_lim :: nat
  rc_lower_lim :: nat

definition ring_iterator_get :: "RBIteratorCtx \<Rightarrow> nat option" where
  "ring_iterator_get ctx =
     (if rc_current ctx < rc_lower_lim ctx \<or> rc_current ctx > rc_upper_lim ctx then None else Some (rc_current ctx))"

definition ring_iterator_next :: "RBIteratorCtx \<Rightarrow> bool \<times> RBIteratorCtx" where
  "ring_iterator_next ctx =
     (True, if rc_current ctx < rc_upper_lim ctx then ctx\<lparr>rc_current := rc_current ctx + 1\<rparr>
            else ctx\<lparr>rc_current := rc_lower_lim ctx\<rparr>)"

definition ring_iterator_prev :: "RBIteratorCtx \<Rightarrow> bool \<times> RBIteratorCtx" where
  "ring_iterator_prev ctx =
     (True, if rc_current ctx > rc_lower_lim ctx then ctx\<lparr>rc_current := rc_current ctx - 1\<rparr>
            else ctx\<lparr>rc_current := rc_upper_lim ctx\<rparr>)"

definition ring_buffer_iterator_init :: "RingBuffer \<Rightarrow> nat \<Rightarrow> RBIteratorCtx" where
  "ring_buffer_iterator_init rb start =
     \<lparr>rc_current = to_u16 start, rc_upper_lim = (if rb_occupancy rb \<noteq> 0 then rb_occupancy rb - 1 else 0), rc_lower_lim = 0\<rparr>"

subsection \<open>The search finds the head\<close>

definition ring_header :: "(nat \<Rightarrow> byte list) \<Rightarrow> nat \<Rightarrow> nat \<Rightarrow> RingBufferHeader" where
  "ring_header blk start i = ring_buffer_header_of (blk (start + i))"

text \<open>The region of a ring: it lies on the card, and every sector of it reads well.\<close>

definition ring_region :: "(nat \<Rightarrow> byte list) \<Rightarrow> nat \<Rightarrow> nat \<Rightarrow> nat \<Rightarrow> bool" where
  "ring_region blk cap start n \<longleftrightarrow> 0 < n \<and> start + n \<le> cap \<and> start + n \<le> 65536 \<and> (\<forall>i < n. sector_crc_valid (blk (start + i)))"

definition continues :: "(nat \<Rightarrow> byte list) \<Rightarrow> nat \<Rightarrow> nat \<Rightarrow> bool" where
  "continues blk start i \<longleftrightarrow>
     binary_search_target_right (rh_state (ring_header blk start i)) (rh_seq (ring_header blk start 0))
       (rh_seq (ring_header blk start i)) i"

text \<open>The numbers and states the sectors of a ring carry: up to the current sector they count up
  to \<open>rb_seq\<close>, behind it lie the sectors of the round before, or sectors never used.\<close>

definition seq_back :: "nat \<Rightarrow> nat \<Rightarrow> nat" where
  "seq_back q k = to_u32 (q + 2 ^ 32 - k)"

definition ring_shape :: "(nat \<Rightarrow> RingBufferHeader) \<Rightarrow> RingBuffer \<Rightarrow> bool" where
  "ring_shape H rb \<longleftrightarrow>
     rb_seq rb < 2 ^ 32 \<and> rb_occupancy rb \<le> rb_size rb \<and>
     (\<forall>i. rb_occupancy rb \<le> i \<and> i < rb_size rb \<longrightarrow> rh_state (H i) = RB_EMPTY) \<and>
     (if rb_occupancy rb = 0 then rb_current_index rb = 0 \<and> rb_seq rb = 0
      else rb_current_index rb < rb_occupancy rb \<and>
        (rb_occupancy rb < rb_size rb \<longrightarrow> rb_current_index rb = rb_occupancy rb - 1) \<and>
        (\<forall>i < rb_occupancy rb. rh_state (H i) \<noteq> RB_EMPTY \<and>
           rh_seq (H i) = seq_back (rb_seq rb) (if i \<le> rb_current_index rb then rb_current_index rb - i
                                                else rb_current_index rb + rb_size rb - i)))"

definition ring_on_card :: "(nat \<Rightarrow> byte list) \<Rightarrow> nat \<Rightarrow> RingBuffer \<Rightarrow> bool" where
  "ring_on_card blk start rb \<longleftrightarrow> ring_shape (ring_header blk start) rb"

lemma mod_diff_back:
  fixes M :: nat
  assumes "a \<le> M" and "c \<le> M" and "0 < M"
  shows "((q + M - a) mod M + M - (q + M - c) mod M) mod M = (M + c - a) mod M"
proof -
  have l: "a \<le> q + M" "c \<le> q + M" "(q + M - c) mod M \<le> (q + M - a) mod M + M"
    using assms mod_less_divisor [OF assms(3), of "q + M - c"] by linarith+
  have "int (((q + M - a) mod M + M - (q + M - c) mod M) mod M) =
      ((int q + int M - int a) mod int M + int M - (int q + int M - int c) mod int M) mod int M"
    using l by (simp only: zmod_int of_nat_diff of_nat_add)
  also have "\<dots> = ((int q + int M - int a) + int M - (int q + int M - int c)) mod int M"
    by (intro mod_diff_cong mod_add_left_eq mod_mod_trivial)
  also have "(int q + int M - int a) + int M - (int q + int M - int c) = int M + int c - int a" by simp
  also have "(int M + int c - int a) mod int M = int ((M + c - a) mod M)"
    using assms by (simp add: zmod_int of_nat_diff)
  finally show ?thesis by (simp only: of_nat_eq_iff)
qed

lemma seq_back_diff:
  assumes "a \<le> 2 ^ 32" and "c \<le> 2 ^ 32"
  shows "to_u32 (seq_back q a + 2 ^ 32 - seq_back q c) = to_u32 (2 ^ 32 + c - a)"
  using mod_diff_back [of a 4294967296 c q] assms by (simp add: seq_back_def to_u32_def)

lemma continues_iff:
  assumes r: "ring_on_card blk start rb" and o: "rb_occupancy rb \<noteq> 0" and s: "rb_size rb \<le> 65536" and i: "i < rb_size rb"
  shows "continues blk start i \<longleftrightarrow> i \<le> rb_current_index rb"
proof (cases "i < rb_occupancy rb")
  case True
  let ?c = "rb_current_index rb" and ?q = "rb_seq rb"
  have c: "?c < rb_size rb" using r o by (simp add: ring_on_card_def ring_shape_def)
  define a where "a = (if i \<le> ?c then ?c - i else ?c + rb_size rb - i)"
  have q: "rh_seq (ring_header blk start i) = seq_back ?q a" "rh_state (ring_header blk start i) \<noteq> RB_EMPTY"
    "rh_seq (ring_header blk start 0) = seq_back ?q ?c"
    using r o True by (simp_all add: ring_on_card_def ring_shape_def a_def)
  have "to_u32 (seq_back ?q a + 2 ^ 32 - seq_back ?q ?c) = to_u32 (2 ^ 32 + ?c - a)"
    using c i s by (intro seq_back_diff) (auto simp: a_def)
  moreover have "to_u32 (2 ^ 32 + ?c - a) = i \<longleftrightarrow> i \<le> ?c"
  proof (cases "i \<le> ?c")
    case True
    then have "2 ^ 32 + ?c - a = 2 ^ 32 + i" by (simp add: a_def)
    then show ?thesis using True i s by (simp add: to_u32_def)
  next
    case False
    then have "2 ^ 32 + ?c - a = 2 ^ 32 - (rb_size rb - i)" using i by (simp add: a_def)
    then show ?thesis using False i s by (simp add: to_u32_def)
  qed
  ultimately show ?thesis using q by (simp add: continues_def binary_search_target_right_def)
next
  case False
  then have "rh_state (ring_header blk start i) = RB_EMPTY" "rb_current_index rb < i"
    using r o i by (auto simp: ring_on_card_def ring_shape_def)
  then show ?thesis by (simp add: continues_def binary_search_target_right_def)
qed

context reliable_store begin

lemma seq_and_state_at_valid:
  assumes "ok d" and "ring_region (blk d) (capacity S d) start n" and "i < n"
  shows "seq_and_state_at S d start i = Inr (rh_seq (ring_header (blk d) start i), rh_state (ring_header (blk d) start i))"
proof -
  have b: "start + i < capacity S d" "start + i < 65536" "sector_crc_valid (blk d (start + i))"
    using assms(2,3) by (auto simp: ring_region_def)
  have "to_u16 (i + start) = start + i" using b(2) by (simp add: add.commute)
  then show ?thesis using read_sector_valid [OF assms(1) b(1,2)] b(3)
    by (simp add: seq_and_state_at_def read_ring_buffer_sector_def ring_header_def Let_def)
qed

lemma search_loop_finds:
  assumes d: "ok d" and r: "ring_region (blk d) (capacity S d) start n"
    and c: "\<And>i. i < n \<Longrightarrow> continues (blk d) start i \<longleftrightarrow> i \<le> h"
  shows "lo \<le> h \<Longrightarrow> h < hi \<Longrightarrow> hi \<le> n \<Longrightarrow>
    search_loop S d start (rh_seq (ring_header (blk d) start 0)) lo hi = Inr h"
proof (induction "hi - lo" arbitrary: lo hi rule: less_induct)
  case less
  let ?seq0 = "rh_seq (ring_header (blk d) start 0)" and ?mid = "lo + (hi - lo) div 2"
  show ?case
  proof (cases "hi - lo > 1")
    case True
    have m: "?mid < n" "lo < ?mid" "?mid < hi" using True less.prems by linarith+
    have step: "search_loop S d start ?seq0 lo hi =
        (if ?mid \<le> h then search_loop S d start ?seq0 ?mid hi else search_loop S d start ?seq0 lo ?mid)"
      using True seq_and_state_at_valid [OF d r m(1)] c [OF m(1)]
      by (subst search_loop.simps) (simp add: continues_def Let_def)
    show ?thesis
    proof (cases "?mid \<le> h")
      case True
      then show ?thesis using step m less.prems by (simp add: less.hyps)
    next
      case False
      then show ?thesis using step m less.prems by (simp add: less.hyps)
    qed
  next
    case False
    then show ?thesis using less.prems by (subst search_loop.simps) simp
  qed
qed

lemma reconstruct_ring:
  assumes d: "ok d" and r: "ring_region (blk d) (capacity S d) start (rb_size rb)"
    and w: "ring_on_card (blk d) start rb" and n: "rb_size rb0 = rb_size rb" and s: "rb_size rb < 65536"
  shows "reconstruct_ring_buffer S d rb0 start = (True, rb)"
proof -
  let ?h = "ring_header (blk d) start" and ?c = "rb_current_index rb"
  have n0: "0 < rb_size rb" using r by (simp add: ring_region_def)
  note at = seq_and_state_at_valid [OF d r]
  show ?thesis
  proof (cases "rb_occupancy rb = 0")
    case True
    then have "rh_state (?h 0) = RB_EMPTY" "rb = rb0\<lparr>rb_current_index := 0, rb_seq := 0, rb_occupancy := 0\<rparr>"
      using w n n0 by (simp_all add: ring_on_card_def ring_shape_def)
    then show ?thesis using at [OF n0] by (simp add: reconstruct_ring_buffer_def binary_search_head_def)
  next
    case False
    have c: "?c < rb_occupancy rb" "?c < rb_size rb" using w False by (simp_all add: ring_on_card_def ring_shape_def)
    have st0: "rh_state (?h 0) \<noteq> RB_EMPTY" using w False by (simp add: ring_on_card_def ring_shape_def)
    have "seq_back (rb_seq rb) 0 = rb_seq rb" using w by (simp add: seq_back_def to_u32_def ring_on_card_def ring_shape_def)
    then have q: "rh_seq (?h ?c) = rb_seq rb" using w c by (simp add: ring_on_card_def ring_shape_def)
    have "continues (blk d) start i \<longleftrightarrow> i \<le> ?c" if "i < rb_size rb" for i
      using continues_iff [OF w False _ that] s by simp
    then have "search_loop S d start (rh_seq (?h 0)) 0 (rb_size rb) = Inr ?c"
      using search_loop_finds [OF d r, of ?c 0 "rb_size rb"] c by simp
    then have b: "binary_search_head S d start (rb_size rb0) = Inr (?c, rb_seq rb)"
      using at [OF n0] at [OF c(2)] st0 n q by (simp add: binary_search_head_def)
    show ?thesis
    proof (cases "?c = rb_size rb - 1")
      case True
      then have "rb_occupancy rb = rb_size rb" using w c(1) by (simp only: ring_on_card_def ring_shape_def) linarith
      then show ?thesis using b n True by (simp add: reconstruct_ring_buffer_def Let_def)
    next
      case nl: False
      then have i: "?c + 1 < rb_size rb" using c(2) by simp
      show ?thesis
      proof (cases "rb_occupancy rb < rb_size rb")
        case True
        then have o: "rb_occupancy rb = ?c + 1" using w False c by (simp add: ring_on_card_def ring_shape_def)
        then have "rh_state (?h (?c + 1)) = RB_EMPTY" using w i by (simp add: ring_on_card_def ring_shape_def)
        then have "is_ring_buffer_wrapped S d start ?c = STRG_EMPTY"
          using at [OF i] i s by (simp add: is_ring_buffer_wrapped_def)
        then show ?thesis using b n nl o i s by (simp add: reconstruct_ring_buffer_def Let_def)
      next
        case nt: False
        then have o: "rb_occupancy rb = rb_size rb" using w by (simp add: ring_on_card_def ring_shape_def)
        then have "rh_state (?h (?c + 1)) \<noteq> RB_EMPTY" using w False i by (simp add: ring_on_card_def ring_shape_def)
        then have "is_ring_buffer_wrapped S d start ?c = STRG_OK"
          using at [OF i] i s by (simp add: is_ring_buffer_wrapped_def)
        then show ?thesis using b n nl o by (simp add: reconstruct_ring_buffer_def Let_def)
      qed
    qed
  qed
qed

lemma clear_ring_loop_all:
  "ok d \<Longrightarrow> start + sz \<le> capacity S d \<Longrightarrow> start + sz \<le> 65536 \<Longrightarrow> length buf = SECTOR_SIZE \<Longrightarrow> i \<le> sz \<Longrightarrow>
   \<exists>d'. clear_ring_loop S d start sz i buf = (STRG_OK, d') \<and> ok d' \<and> capacity S d' = capacity S d \<and>
     (\<forall>k. blk d' k = (if start + i \<le> k \<and> k < start + sz then sector_crc_stamp buf else blk d k))"
proof (induction "sz - i" arbitrary: i d buf)
  case 0
  then show ?case by (subst clear_ring_loop.simps) auto
next
  case (Suc n)
  have i: "start + i < capacity S d" "start + i < 65536" "i < sz" using Suc by simp_all
  obtain d1 where w: "write_sector S d (start + i) buf = (STRG_OK, sector_crc_stamp buf, d1)"
    and d1: "ok d1" "capacity S d1 = capacity S d" "blk d1 = (blk d)(start + i := sector_crc_stamp buf)"
    by (rule write_sector_in_range [OF Suc.prems(1) i(1,2) Suc.prems(4)]) auto
  have "clear_ring_loop S d start sz i buf = clear_ring_loop S d1 start sz (i + 1) (sector_crc_stamp buf)"
    using i w by (subst clear_ring_loop.simps) simp
  moreover have "n = sz - (i + 1)" using Suc.hyps(2) by simp
  from Suc.hyps(1) [OF this d1(1), of "sector_crc_stamp buf"] obtain d'
    where "clear_ring_loop S d1 start sz (i + 1) (sector_crc_stamp buf) = (STRG_OK, d')" "ok d'" "capacity S d' = capacity S d1"
      "\<forall>k. blk d' k = (if start + (i + 1) \<le> k \<and> k < start + sz then sector_crc_stamp (sector_crc_stamp buf) else blk d1 k)"
    using Suc.prems d1(2) i by auto
  ultimately show ?case using d1 i Suc.prems(4) by (intro exI [of _ d']) auto
qed

lemma clear_ring:
  assumes "ok d" and "0 < sz" and "start + sz \<le> capacity S d" and "start + sz \<le> 65536"
  shows "\<exists>d'. clear_ring_buffer S d start sz = (STRG_OK, d') \<and> ok d' \<and> capacity S d' = capacity S d \<and>
    ring_region (blk d') (capacity S d') start sz \<and>
    ring_on_card (blk d') start \<lparr>rb_seq = 0, rb_size = sz, rb_current_index = 0, rb_occupancy = 0\<rparr> \<and>
    (\<forall>k. k < start \<or> start + sz \<le> k \<longrightarrow> blk d' k = blk d k)"
proof -
  let ?buf = "(replicate SECTOR_SIZE 0)[5 := of_nat RB_EMPTY] :: byte list"
  have l: "length ?buf = SECTOR_SIZE" by (simp add: layout)
  from clear_ring_loop_all [OF assms(1,3,4) l, of 0] obtain d'
    where d': "clear_ring_buffer S d start sz = (STRG_OK, d')" "ok d'" "capacity S d' = capacity S d"
      "\<forall>k. blk d' k = (if start \<le> k \<and> k < start + sz then sector_crc_stamp ?buf else blk d k)"
    by (auto simp: clear_ring_buffer_def)
  have "rh_state (ring_buffer_header_of (sector_crc_stamp ?buf)) = RB_EMPTY"
    using l by (simp add: ring_buffer_header_of_def nth_stamp layout)
  then show ?thesis using assms d' l by (intro exI [of _ d']) (simp add: ring_region_def ring_on_card_def ring_shape_def ring_header_def)
qed

end

end
