(* ===== verification/Ring_Entries.thy ===== *)
theory Ring_Entries
  imports Ring_Buffer
begin

text \<open>
  What a ring of sectors holds, independently of how the sectors are stored: \<open>H i\<close> is the header
  of sector \<open>i\<close> and \<open>E i\<close> its entries.

  \<^item> \<open>ring_nth rb k\<close> is the sector \<open>k\<close> steps older than the current one; \<open>ring_list\<close> the entries of
    the whole ring, newest first.
  \<^item> \<open>ring_full\<close> is the invariant of the histories: every sector but the current one is full.
  \<^item> \<open>first_entry\<close>, \<open>append_entry\<close> and \<open>advance_entry\<close>: the three ways an entry is added keep the
    invariant and put the entry in front; only the last one, on a full ring, drops a sector.
\<close>

definition ring_nth :: "RingBuffer \<Rightarrow> nat \<Rightarrow> nat" where
  "ring_nth rb k = (if k \<le> rb_current_index rb then rb_current_index rb - k
                    else rb_current_index rb + rb_occupancy rb - k)"

definition sector_list :: "(nat \<Rightarrow> RingBufferHeader) \<Rightarrow> (nat \<Rightarrow> 'e list) \<Rightarrow> nat \<Rightarrow> 'e list" where
  "sector_list H E i = rev (take (rh_head (H i) + 1) (E i))"

definition ring_list :: "(nat \<Rightarrow> RingBufferHeader) \<Rightarrow> (nat \<Rightarrow> 'e list) \<Rightarrow> RingBuffer \<Rightarrow> 'e list" where
  "ring_list H E rb = concat (map (\<lambda>k. sector_list H E (ring_nth rb k)) [0..<rb_occupancy rb])"

definition ring_full :: "nat \<Rightarrow> (nat \<Rightarrow> RingBufferHeader) \<Rightarrow> RingBuffer \<Rightarrow> bool" where
  "ring_full n H rb \<longleftrightarrow> ring_shape H rb \<and> (rb_occupancy rb \<noteq> 0 \<longrightarrow>
     rh_state (H (rb_current_index rb)) = RB_OCCUPIED \<and> rh_head (H (rb_current_index rb)) < n \<and>
     (\<forall>i < rb_occupancy rb. i \<noteq> rb_current_index rb \<longrightarrow> rh_state (H i) = RB_FULL \<and> rh_head (H i) = n - 1))"

definition fresh_header :: "nat \<Rightarrow> RingBufferHeader \<Rightarrow> RingBufferHeader" where
  "fresh_header seq h = h\<lparr>rh_state := RB_OCCUPIED, rh_head := 0, rh_seq := seq\<rparr>"

lemma ring_nth_bounds: "rb_current_index rb < rb_occupancy rb \<Longrightarrow> k < rb_occupancy rb \<Longrightarrow> ring_nth rb k < rb_occupancy rb"
  by (auto simp: ring_nth_def)

lemma ring_nth_inj:
  "rb_current_index rb < rb_occupancy rb \<Longrightarrow> j < rb_occupancy rb \<Longrightarrow> k < rb_occupancy rb \<Longrightarrow>
   ring_nth rb j = ring_nth rb k \<longleftrightarrow> j = k"
  by (auto simp: ring_nth_def)

lemma sector_list_head: "rh_head (H i) = k \<Longrightarrow> k < length (E i) \<Longrightarrow> sector_list H E i = E i ! k # rev (take k (E i))"
  by (simp add: sector_list_def take_Suc_conv_app_nth)

lemma ring_list_cong:
  assumes "\<And>k. k < rb_occupancy rb \<Longrightarrow> sector_list H E (ring_nth rb k) = sector_list H' E' (ring_nth rb k)"
  shows "ring_list H E rb = ring_list H' E' rb"
  unfolding ring_list_def using assms by (intro arg_cong [of _ _ concat] map_cong) simp_all

lemma ring_full_cong:
  assumes "ring_full n H rb" and "\<And>i. i < rb_size rb \<Longrightarrow> H' i = H i"
  shows "ring_full n H' rb"
proof -
  have sh: "ring_shape H rb" using assms(1) by (simp add: ring_full_def)
  then have "ring_shape H' rb" using assms(2) by (simp add: ring_shape_def split: if_splits)
  moreover have "rb_occupancy rb \<noteq> 0 \<Longrightarrow> rb_current_index rb < rb_size rb" "rb_occupancy rb \<le> rb_size rb"
    using sh by (simp_all add: ring_shape_def)
  ultimately show ?thesis using assms by (simp add: ring_full_def)
qed

lemma ring_list_same:
  assumes "ring_full n H rb" and "\<And>i. i < rb_size rb \<Longrightarrow> H' i = H i" and "\<And>i. i < rb_size rb \<Longrightarrow> E' i = E i"
  shows "ring_list H' E' rb = ring_list H E rb"
proof (rule ring_list_cong)
  fix k assume k: "k < rb_occupancy rb"
  have "rb_current_index rb < rb_occupancy rb" "rb_occupancy rb \<le> rb_size rb"
    using assms(1) k by (simp_all add: ring_full_def ring_shape_def)
  then have "ring_nth rb k < rb_size rb" using ring_nth_bounds [of rb k] k by simp
  then show "sector_list H' E' (ring_nth rb k) = sector_list H E (ring_nth rb k)"
    using assms(2,3) by (simp add: sector_list_def)
qed

lemma seq_back_0: "q < 2 ^ 32 \<Longrightarrow> seq_back q 0 = q"
  by (simp add: seq_back_def to_u32_def)

lemma seq_back_Suc: "k < 2 ^ 32 \<Longrightarrow> seq_back (to_u32 (q + 1)) (Suc k) = seq_back q k"
proof -
  assume k: "k < 2 ^ 32"
  have "(q + 1) mod 4294967296 + 4294967296 - Suc k = (q + 1) mod 4294967296 + (4294967296 - Suc k)" using k by simp
  then have "seq_back (to_u32 (q + 1)) (Suc k) = (q + 1 + (4294967296 - Suc k)) mod 4294967296"
    by (simp add: seq_back_def to_u32_def mod_add_left_eq)
  also have "q + 1 + (4294967296 - Suc k) = q + 4294967296 - k" using k by simp
  finally show ?thesis by (simp add: seq_back_def to_u32_def)
qed

subsection \<open>The first entry\<close>

lemma first_entry:
  assumes f: "ring_full n H rb" and o: "rb_occupancy rb = 0" and s: "0 < rb_size rb" and n: "0 < n"
    and l: "E 0 \<noteq> []"
  defines "rb' \<equiv> rb\<lparr>rb_occupancy := 1\<rparr>"
  shows "ring_full n (H(0 := fresh_header (rb_seq rb) (H 0))) rb'"
    and "ring_list (H(0 := fresh_header (rb_seq rb) (H 0))) (E(0 := (E 0)[0 := e])) rb' = [e]"
proof -
  show "ring_full n (H(0 := fresh_header (rb_seq rb) (H 0))) rb'"
    using f o s n seq_back_0 [of 0] by (simp add: ring_full_def ring_shape_def rb'_def fresh_header_def)
  have "rb_current_index rb = 0" using f o by (simp add: ring_full_def ring_shape_def)
  then show "ring_list (H(0 := fresh_header (rb_seq rb) (H 0))) (E(0 := (E 0)[0 := e])) rb' = [e]"
    using l by (cases "E 0") (simp_all add: ring_list_def ring_nth_def rb'_def sector_list_def fresh_header_def)
qed

subsection \<open>A further entry of the current sector\<close>

lemma append_entry:
  fixes E :: "nat \<Rightarrow> 'e list" and e :: 'e
  assumes f: "ring_full n H rb" and o: "rb_occupancy rb \<noteq> 0" and h: "rh_head (H (rb_current_index rb)) + 1 < n"
    and l: "length (E (rb_current_index rb)) = n"
  defines "c \<equiv> rb_current_index rb"
  defines "k \<equiv> rh_head (H c) + 1"
  defines "H' \<equiv> H(c := (H c)\<lparr>rh_head := k\<rparr>)" and "E' \<equiv> E(c := (E c)[k := e])"
  shows "ring_full n H' rb" and "ring_list H' E' rb = e # ring_list H E rb"
proof -
  have c: "c < rb_occupancy rb" using f o by (simp add: ring_full_def ring_shape_def c_def)
  have st: "rh_state (H' i) = rh_state (H i)" "rh_seq (H' i) = rh_seq (H i)" for i by (simp_all add: H'_def)
  show "ring_full n H' rb"
    using f o h by (simp add: ring_full_def ring_shape_def st) (simp add: H'_def k_def c_def)
  have n0: "ring_nth rb 0 = c" by (simp add: ring_nth_def c_def)
  have s: "sector_list H' E' c = e # sector_list H E c"
    using h l by (simp add: sector_list_def H'_def E'_def k_def c_def take_Suc_conv_app_nth)
  have os: "sector_list H' E' (ring_nth rb j) = sector_list H E (ring_nth rb j)" if "j < rb_occupancy rb" "j \<noteq> 0" for j
    using ring_nth_inj [of rb j 0] that c n0 by (simp add: sector_list_def H'_def E'_def c_def)
  have u: "[0..<rb_occupancy rb] = 0 # [1..<rb_occupancy rb]" using c by (simp add: upt_conv_Cons)
  have m: "map (\<lambda>k. sector_list H' E' (ring_nth rb k)) [Suc 0..<rb_occupancy rb] =
      map (\<lambda>k. sector_list H E (ring_nth rb k)) [Suc 0..<rb_occupancy rb]"
    by (intro map_cong) (simp_all add: os)
  show "ring_list H' E' rb = e # ring_list H E rb"
    unfolding ring_list_def u using arg_cong [OF m, of concat] by (simp add: n0 s del: map_eq_conv)
qed

subsection \<open>Moving on to the next sector\<close>

definition advance :: "RingBuffer \<Rightarrow> RingBuffer" where
  "advance rb = inc_seq_ring_buffer (move_next_ring_buffer (add_ring_buffer rb))"

lemma advance_fields:
  assumes sh: "ring_shape H rb" and o: "rb_occupancy rb \<noteq> 0" and s: "rb_size rb \<le> 65535"
  shows "rb_size (advance rb) = rb_size rb" and "rb_seq (advance rb) = to_u32 (rb_seq rb + 1)"
    and "rb_occupancy (advance rb) = (if rb_occupancy rb < rb_size rb then rb_occupancy rb + 1 else rb_occupancy rb)"
    and "rb_current_index (advance rb) =
      (if rb_occupancy rb < rb_size rb \<or> rb_current_index rb + 1 < rb_occupancy rb then rb_current_index rb + 1 else 0)"
    and "0 < k \<Longrightarrow> k < rb_occupancy (advance rb) \<Longrightarrow> ring_nth (advance rb) k = ring_nth rb (k - 1)"
    and "j < rb_occupancy (advance rb) - 1 \<Longrightarrow> ring_nth rb j \<noteq> rb_current_index (advance rb)"
    and "rb_current_index (advance rb) < rb_occupancy (advance rb)"
proof -
  have c: "rb_current_index rb < rb_occupancy rb" "rb_occupancy rb \<le> rb_size rb"
    "rb_occupancy rb < rb_size rb \<longrightarrow> rb_current_index rb = rb_occupancy rb - 1"
    using sh o by (simp_all add: ring_shape_def)
  then have u: "to_u16 (rb_current_index rb + 1) = rb_current_index rb + 1" using s by simp
  show a: "rb_size (advance rb) = rb_size rb" "rb_seq (advance rb) = to_u32 (rb_seq rb + 1)"
    by (simp_all add: advance_def inc_seq_ring_buffer_def move_next_ring_buffer_def add_ring_buffer_def)
  show b: "rb_occupancy (advance rb) = (if rb_occupancy rb < rb_size rb then rb_occupancy rb + 1 else rb_occupancy rb)"
    by (simp add: advance_def inc_seq_ring_buffer_def move_next_ring_buffer_def add_ring_buffer_def)
  show d: "rb_current_index (advance rb) =
      (if rb_occupancy rb < rb_size rb \<or> rb_current_index rb + 1 < rb_occupancy rb then rb_current_index rb + 1 else 0)"
    using c u by (auto simp: advance_def inc_seq_ring_buffer_def move_next_ring_buffer_def add_ring_buffer_def)
  show "0 < k \<Longrightarrow> k < rb_occupancy (advance rb) \<Longrightarrow> ring_nth (advance rb) k = ring_nth rb (k - 1)"
    using c by (auto simp: ring_nth_def b d split: if_splits)
  show "j < rb_occupancy (advance rb) - 1 \<Longrightarrow> ring_nth rb j \<noteq> rb_current_index (advance rb)"
    using c by (auto simp: ring_nth_def b d split: if_splits)
  show "rb_current_index (advance rb) < rb_occupancy (advance rb)" using c by (auto simp: b d)
qed

lemma advance_entry:
  fixes E :: "nat \<Rightarrow> 'e list" and e :: 'e
  assumes f: "ring_full n H rb" and o: "rb_occupancy rb \<noteq> 0" and h: "rh_head (H (rb_current_index rb)) = n - 1"
    and n: "0 < n" and s: "rb_size rb \<le> 65535" and l: "\<And>i. i < rb_size rb \<Longrightarrow> length (E i) = n"
  defines "c \<equiv> rb_current_index rb" and "c' \<equiv> rb_current_index (advance rb)"
  defines "H1 \<equiv> H(c := (H c)\<lparr>rh_state := RB_FULL\<rparr>)"
  defines "H' \<equiv> H1(c' := fresh_header (rb_seq (advance rb)) (H1 c'))" and "E' \<equiv> E(c' := (E c')[0 := e])"
  shows "ring_full n H' (advance rb)"
    and "ring_list H' E' (advance rb) =
      e # take (length (ring_list H E rb) - (if rb_occupancy rb < rb_size rb then 0 else n)) (ring_list H E rb)"
    and "rh_state (H1 c') = RB_EMPTY \<or> rh_state (H1 c') = RB_FULL"
proof -
  have sh: "ring_shape H rb" using f by (simp add: ring_full_def)
  note af = advance_fields [OF sh o s]
  let ?o = "rb_occupancy rb" and ?o' = "rb_occupancy (advance rb)"
  have c: "c < ?o" "?o \<le> rb_size rb" "?o < rb_size rb \<longrightarrow> c = ?o - 1" using sh o by (simp_all add: ring_shape_def c_def)
  have c': "c' < ?o'" "c' < rb_size rb" using af(3,7) c by (auto simp: c'_def split: if_splits)
  have full: "rh_state (H1 i) = RB_FULL" "rh_head (H1 i) = n - 1" if "i < ?o" for i
    using f o h that by (auto simp: ring_full_def H1_def c_def)
  show st: "rh_state (H1 c') = RB_EMPTY \<or> rh_state (H1 c') = RB_FULL"
  proof (cases "c' < ?o")
    case True
    then show ?thesis using full(1) by blast
  next
    case False
    then have "c' \<noteq> c" "rh_state (H c') = RB_EMPTY" using c sh c' by (auto simp: ring_shape_def)
    then show ?thesis by (simp add: H1_def)
  qed
  have H': "H' i = (if i = c' then fresh_header (rb_seq (advance rb)) (H1 c') else H1 i)" for i by (simp add: H'_def)
  have q: "rb_seq rb < 2 ^ 32" using sh by (simp add: ring_shape_def)
  have old: "i < ?o" if "i < ?o'" "i \<noteq> c'" for i
    using that af(3,4) c by (auto simp: c'_def c_def split: if_splits)
  have sq: "rh_seq (H' i) = seq_back (rb_seq (advance rb)) (if i \<le> c' then c' - i else c' + rb_size rb - i)" if i: "i < ?o'" for i
  proof (cases "i = c'")
    case True
    then show ?thesis using seq_back_0 [of "rb_seq (advance rb)"] af(2) by (simp add: H' fresh_header_def to_u32_def)
  next
    case False
    define k where "k = (if i \<le> c then c - i else c + rb_size rb - i)"
    have "rh_seq (H i) = seq_back (rb_seq rb) k"
      using sh o old [OF i False] by (simp add: ring_shape_def k_def c_def)
    moreover have "(if i \<le> c' then c' - i else c' + rb_size rb - i) = Suc k"
      using af(3,4) c False i by (auto simp: k_def c'_def c_def split: if_splits)
    moreover have "k < 2 ^ 32" using c s old [OF i False] by (auto simp: k_def)
    ultimately show ?thesis using False seq_back_Suc [of k "rb_seq rb"] af(2) by (auto simp: H' H1_def)
  qed
  have "rh_state (H' i) = RB_EMPTY" if "?o' \<le> i" "i < rb_size rb" for i
  proof -
    have "?o \<le> i" using that af(3) by (simp split: if_splits)
    then have "i \<noteq> c'" "i \<noteq> c" "rh_state (H i) = RB_EMPTY" using that c c'(1) sh by (auto simp: ring_shape_def)
    then show ?thesis by (simp add: H' H1_def)
  qed
  moreover have "?o' < rb_size rb \<longrightarrow> c' = ?o' - 1" using af(3,4) c by (auto simp: c'_def c_def split: if_splits)
  moreover have "?o' \<noteq> 0" "?o' \<le> rb_size rb" using af(3) c o by auto
  moreover have "rb_seq (advance rb) < 2 ^ 32" using af(2) by (simp add: to_u32_def)
  ultimately have "ring_shape H' (advance rb)"
    using sq af(1) c' full(1) old by (auto simp: ring_shape_def c'_def [symmetric] H' fresh_header_def)
  then show "ring_full n H' (advance rb)"
    using full old n c'(1) by (auto simp: ring_full_def H' fresh_header_def simp flip: c'_def)
  have sl: "sector_list H' E' (ring_nth rb j) = sector_list H E (ring_nth rb j)" if "j < ?o' - 1" for j
    using af(6) [OF that] by (auto simp: sector_list_def H' E'_def H1_def c'_def [symmetric])
  have u: "[0..<?o'] = 0 # map Suc [0..<?o' - 1]" using c' by (simp add: upt_conv_Cons map_Suc_upt)
  have z: "ring_nth (advance rb) 0 = c'" by (simp add: ring_nth_def c'_def)
  have "length (E c') = n" using l c'(2) by simp
  then have "sector_list H' E' c' = [e]"
    using n by (cases "E c'") (simp_all add: sector_list_def H' E'_def fresh_header_def)
  moreover have m: "map (\<lambda>k. sector_list H' E' (ring_nth (advance rb) (Suc k))) [0..<?o' - 1] =
      map (\<lambda>k. sector_list H E (ring_nth rb k)) [0..<?o' - 1]"
    using af(5) sl by (intro map_cong) simp_all
  ultimately have r: "ring_list H' E' (advance rb) = e # concat (map (\<lambda>k. sector_list H E (ring_nth rb k)) [0..<?o' - 1])"
    unfolding ring_list_def u using arg_cong [OF m, of concat] by (simp add: z comp_def del: map_eq_conv)
  show "ring_list H' E' (advance rb) =
      e # take (length (ring_list H E rb) - (if ?o < rb_size rb then 0 else n)) (ring_list H E rb)"
  proof (cases "?o < rb_size rb")
    case True
    then show ?thesis using r af(3) by (simp add: ring_list_def)
  next
    case False
    then have o': "?o' = ?o" using af(3) by simp
    let ?pre = "concat (map (\<lambda>k. sector_list H E (ring_nth rb k)) [0..<?o - 1])"
    have "[0..<?o] = [0..<?o - 1] @ [?o - 1]" using o upt_Suc_append [of 0 "?o - 1"] by simp
    then have "ring_list H E rb = ?pre @ sector_list H E (ring_nth rb (?o - 1))" by (simp add: ring_list_def)
    moreover have "ring_nth rb (?o - 1) < ?o" using ring_nth_bounds c(1) o by (simp add: c_def)
    then have "length (sector_list H E (ring_nth rb (?o - 1))) = n"
      using f o h l n c(2) by (cases "ring_nth rb (?o - 1) = c") (auto simp: sector_list_def ring_full_def c_def)
    ultimately show ?thesis using r o' False by simp
  qed
qed

subsection \<open>Ranges\<close>

lemma rev_take_drop:
  assumes "start \<le> h" and "h < length es"
  shows "rev (take (h - start + 1) es) = drop start (rev (take (h + 1) es))"
proof -
  have "length (take (h + 1) es) = h + 1" using assms by simp
  moreover have "h - start + 1 = h + 1 - start" using assms by simp
  ultimately show ?thesis by (simp only: drop_rev take_take min_absorb1 diff_le_self)
qed

lemma drop_concat_blocks:
  assumes "\<And>k. a \<le> k \<Longrightarrow> k < b \<Longrightarrow> length (f k) = c" and "a + q < b" and "r < c"
  shows "drop (q * c + r) (concat (map f [a..<b])) = drop r (f (a + q)) @ concat (map f [a + q + 1..<b])"
  using assms
proof (induction q arbitrary: a)
  case 0
  then show ?case by (simp add: upt_conv_Cons)
next
  case (Suc q)
  have "drop (Suc q * c + r) (concat (map f [a..<b])) = drop (q * c + r) (concat (map f [Suc a..<b]))"
    using Suc.prems by (simp add: upt_conv_Cons)
  also have "\<dots> = drop r (f (Suc a + q)) @ concat (map f [Suc a + q + 1..<b])"
    using Suc.prems by (intro Suc.IH) simp_all
  finally show ?case by simp
qed

lemma ring_list_length:
  assumes f: "ring_full n H rb" and o: "rb_occupancy rb \<noteq> 0" and n: "0 < n" and l: "\<And>i. i < rb_size rb \<Longrightarrow> length (E i) = n"
  shows "length (sector_list H E (rb_current_index rb)) = rh_head (H (rb_current_index rb)) + 1"
    and "0 < k \<Longrightarrow> k < rb_occupancy rb \<Longrightarrow> length (sector_list H E (ring_nth rb k)) = n"
    and "length (ring_list H E rb) = rh_head (H (rb_current_index rb)) + 1 + (rb_occupancy rb - 1) * n"
proof -
  let ?c = "rb_current_index rb"
  have c: "?c < rb_occupancy rb" "rb_occupancy rb \<le> rb_size rb" using f o by (auto simp: ring_full_def ring_shape_def)
  show a: "length (sector_list H E ?c) = rh_head (H ?c) + 1"
    using f o l [of ?c] c by (simp add: sector_list_def ring_full_def)
  show b: "length (sector_list H E (ring_nth rb k)) = n" if "0 < k" "k < rb_occupancy rb" for k
  proof -
    have i: "ring_nth rb k < rb_occupancy rb" "ring_nth rb k \<noteq> ?c"
      using ring_nth_bounds [of rb k] ring_nth_inj [of rb k 0] that c by (auto simp: ring_nth_def)
    then have "rh_head (H (ring_nth rb k)) = n - 1" using f o by (simp add: ring_full_def)
    then show ?thesis using l [of "ring_nth rb k"] i c n by (simp add: sector_list_def)
  qed
  have "length (concat (map (\<lambda>k. sector_list H E (ring_nth rb k)) [1..<m])) = (m - 1) * n" if "m \<le> rb_occupancy rb" for m
    using that
  proof (induction m)
    case (Suc m)
    then show ?case by (cases m) (simp_all add: b)
  qed simp
  from this [of "rb_occupancy rb"] show "length (ring_list H E rb) = rh_head (H ?c) + 1 + (rb_occupancy rb - 1) * n"
    using a c by (simp add: ring_list_def upt_conv_Cons) (simp add: ring_nth_def)
qed

lemma ring_list_Cons:
  assumes "rb_occupancy rb \<noteq> 0"
  shows "ring_list H E rb = sector_list H E (rb_current_index rb) @ concat (map (\<lambda>k. sector_list H E (ring_nth rb k)) [1..<rb_occupancy rb])"
  using assms by (simp add: ring_list_def upt_conv_Cons) (simp add: ring_nth_def)

end
