(* ===== verification/History.thy ===== *)
theory History
  imports Ring_Entries Transaction Contact Message
begin

text \<open>
  The two histories: \<^verbatim>\<open>source/app/src/message_history.c\<close> and
  \<^verbatim>\<open>source/app/src/call_history.c\<close>.  The files are the same code over two entry
  types, so the operations are defined once over a \<open>HistoryKind\<close> (where the ring lies, its
  journal type, the entry format) and instantiated twice.

  \<^item> \<open>hist_entries\<close> is the abstract state: the entries of the ring, newest first.
  \<^item> The locale \<open>history\<close> is the contract of a history kind; its lemmas say that adding an entry
    puts it in front (dropping the oldest sector when the ring wraps), that a range read returns
    that range, and that the RAM state is recovered after a restart.
\<close>

subsection \<open>Kinds of history\<close>

record 'e HistoryKind =
  hk_start :: nat
  hk_jrnl :: nat
  hk_cap :: nat
  hk_entry_bytes :: nat
  hk_pad :: nat
  hk_dec :: "byte list \<Rightarrow> 'e"
  hk_enc :: "'e \<Rightarrow> byte list"

record 'e HistorySector =
  hs_header :: RingBufferHeader
  hs_entries :: "'e list"
  hs_padding :: "byte list"
  hs_crc :: nat

definition history_sector_of :: "'e HistoryKind \<Rightarrow> byte list \<Rightarrow> 'e HistorySector" where
  "history_sector_of K b = \<lparr>hs_header = ring_buffer_header_of b,
     hs_entries = decode_array RING_BUFFER_HEADER_BYTES (hk_entry_bytes K) (hk_cap K) (hk_dec K) b,
     hs_padding = slice (RING_BUFFER_HEADER_BYTES + hk_cap K * hk_entry_bytes K) (hk_pad K) b,
     hs_crc = rd32 (slice 508 4 b)\<rparr>"

definition history_sector_bytes :: "'e HistoryKind \<Rightarrow> 'e HistorySector \<Rightarrow> byte list" where
  "history_sector_bytes K s = ring_buffer_header_bytes (hs_header s) @ concat (map (hk_enc K) (hs_entries s)) @
     hs_padding s @ le32 (hs_crc s)"

record MessageHistoryEntry =
  mh_msgInd :: nat
  mh_message :: Message

definition message_history_entry_of :: "byte list \<Rightarrow> MessageHistoryEntry" where
  "message_history_entry_of b = \<lparr>mh_msgInd = rd16 (slice 0 2 b), mh_message = message_of (slice 2 MESSAGE_BYTES b)\<rparr>"

definition message_history_entry_bytes :: "MessageHistoryEntry \<Rightarrow> byte list" where
  "message_history_entry_bytes e = le16 (mh_msgInd e) @ message_bytes (mh_message e)"

record CallHistoryEntry =
  ch_contact_index :: nat
  ch_contact :: Contact
  ch_padding :: byte

definition call_history_entry_of :: "byte list \<Rightarrow> CallHistoryEntry" where
  "call_history_entry_of b =
     \<lparr>ch_contact_index = rd16 (slice 0 2 b), ch_contact = contact_of (slice 2 CONTACT_RECORD_BYTES b), ch_padding = b ! 83\<rparr>"

definition call_history_entry_bytes :: "CallHistoryEntry \<Rightarrow> byte list" where
  "call_history_entry_bytes e = le16 (ch_contact_index e) @ contact_bytes (ch_contact e) @ [ch_padding e]"

definition message_history_kind :: "MessageHistoryEntry HistoryKind" where
  "message_history_kind =
     \<lparr>hk_start = MESSAGE_HISTORY_DATA_START_SECTOR, hk_jrnl = JRNL_MSG_HIST, hk_cap = MESSAGE_HISTORY_SECTOR_CAPACITY,
      hk_entry_bytes = MESSAGE_HISTORY_ENTRY_BYTES,
      hk_pad = RING_BUFFER_PAYLOAD_BYTES - MESSAGE_HISTORY_SECTOR_CAPACITY * MESSAGE_HISTORY_ENTRY_BYTES,
      hk_dec = message_history_entry_of, hk_enc = message_history_entry_bytes\<rparr>"

definition call_history_kind :: "CallHistoryEntry HistoryKind" where
  "call_history_kind =
     \<lparr>hk_start = CALL_HISTORY_DATA_START_SECTOR, hk_jrnl = JRNL_CALL_HIST, hk_cap = CALL_HISTORY_SECTOR_CAPACITY,
      hk_entry_bytes = CALL_HISTORY_ENTRY_BYTES,
      hk_pad = RING_BUFFER_PAYLOAD_BYTES - CALL_HISTORY_SECTOR_CAPACITY * CALL_HISTORY_ENTRY_BYTES,
      hk_dec = call_history_entry_of, hk_enc = call_history_entry_bytes\<rparr>"

subsection \<open>Operations\<close>

definition history_init :: "RingBuffer \<Rightarrow> RingBuffer" where
  "history_init rb = rb\<lparr>rb_current_index := 0, rb_size := HASH_TABLE_ENTRIES, rb_occupancy := 0\<rparr>"

definition history_raw :: "'e HistoryKind \<Rightarrow> nat \<Rightarrow> nat" where
  "history_raw K sector_index = to_u16 (sector_index + hk_start K + DATA_REGION_START_SECTOR)"

definition read_history_sector :: "'e HistoryKind \<Rightarrow> 'c Storage \<Rightarrow> 'c \<Rightarrow> nat \<Rightarrow> 'e HistorySector res" where
  "read_history_sector K S d sector_index =
     (case read_sector S d (history_raw K sector_index) of Inl ret \<Rightarrow> Inl ret | Inr b \<Rightarrow> Inr (history_sector_of K b))"

definition write_history_sector ::
    "'e HistoryKind \<Rightarrow> 'c Storage \<Rightarrow> 'c \<Rightarrow> nat \<Rightarrow> 'e HistorySector \<Rightarrow> STRG_RET \<times> 'e HistorySector \<times> 'c" where
  "write_history_sector K S d sector_index s =
     (let (ret, b, d') = write_sector S d (history_raw K sector_index) (history_sector_bytes K s)
      in (ret, history_sector_of K b, d'))"

definition write_and_free ::
    "'e HistoryKind \<Rightarrow> 'c Storage \<Rightarrow> 'c pers \<Rightarrow> nat \<Rightarrow> 'e HistorySector \<Rightarrow> STRG_RET \<times> 'c pers" where
  "write_and_free K S p sector_index s =
     (let (ret, _, d) = write_history_sector K S (dev p) sector_index s;
          p = p\<lparr>dev := d\<rparr>
      in if ret \<noteq> STRG_OK then (ret, p)
         else let (ret, j, d) = journal_free S (dev p) (journal p)
              in (ret, p\<lparr>dev := d, journal := j\<rparr>))"

text \<open>\<open>set_sector_full_move_next\<close> without its tail call of \<^verbatim>\<open>history_add\<close>, which
  \<open>history_add\<close> makes on success.\<close>

definition set_sector_full_move_next ::
    "'e HistoryKind \<Rightarrow> 'c Storage \<Rightarrow> 'c pers \<Rightarrow> RingBuffer \<Rightarrow> 'e HistorySector \<Rightarrow> STRG_RET \<times> RingBuffer \<times> 'c pers" where
  "set_sector_full_move_next K S p rb s =
     (let (ret, p) = write_and_free K S p (rb_current_index rb) (s\<lparr>hs_header := (hs_header s)\<lparr>rh_state := RB_FULL\<rparr>\<rparr>)
      in if ret \<noteq> STRG_OK then (ret, rb, p)
         else (STRG_OK, inc_seq_ring_buffer (move_next_ring_buffer (add_ring_buffer rb)), p))"

partial_function (option) history_add ::
    "'e HistoryKind \<Rightarrow> 'c Storage \<Rightarrow> 'c pers \<Rightarrow> RingBuffer \<Rightarrow> 'e \<Rightarrow> (STRG_RET \<times> RingBuffer \<times> 'c pers) option" where
  "history_add K S p rb e =
     (let rb = (if rb_occupancy rb = 0 then add_ring_buffer rb else rb)
      in case read_history_sector K S (dev p) (rb_current_index rb) of
        Inl ret \<Rightarrow> Some (ret, rb, p)
      | Inr s \<Rightarrow>
         let (added, buf, p) = journal_add S p (hk_jrnl K) (to_u16 (hk_start K + rb_current_index rb)) (history_sector_bytes K s);
             s = history_sector_of K buf;
             header = hs_header s;
             store = (\<lambda>header. let (ret, p) = write_and_free K S p (rb_current_index rb)
                                  (s\<lparr>hs_header := header, hs_entries := (hs_entries s)[rh_head header := e]\<rparr>)
                               in Some (ret, rb, p))
         in if \<not> added then Some (STRG_FAIL, rb, p)
            else if rh_state header = RB_EMPTY \<or> rh_state header = RB_FULL then
              store (header\<lparr>rh_state := RB_OCCUPIED, rh_head := 0, rh_seq := rb_seq rb\<rparr>)
            else if rh_state header = RB_OCCUPIED then
              if rh_head header = hk_cap K - 1 then
                case set_sector_full_move_next K S p rb s of
                  (ret, rb, p) \<Rightarrow> if ret \<noteq> STRG_OK then Some (ret, rb, p) else history_add K S p rb e
              else store (header\<lparr>rh_head := to_u8 (rh_head header + 1)\<rparr>)
            else Some (STRG_FAIL, rb, p))"

definition read_history ::
    "'e HistoryKind \<Rightarrow> 'c Storage \<Rightarrow> 'c \<Rightarrow> nat \<Rightarrow> nat \<Rightarrow> nat \<Rightarrow> 'e list \<Rightarrow> STRG_RET \<times> 'e list" where
  "read_history K S d sector_index pos n out =
     (case read_history_sector K S d sector_index of
        Inl ret \<Rightarrow> (ret, out)
      | Inr s \<Rightarrow>
          if rh_state (hs_header s) = RB_EMPTY then (STRG_OK, out)
          else (STRG_OK, copy_down n (hs_entries s) (int pos) out))"

definition read_first_sector ::
    "'e HistoryKind \<Rightarrow> 'c Storage \<Rightarrow> 'c \<Rightarrow> RBIteratorCtx \<Rightarrow> nat \<Rightarrow> nat \<Rightarrow> 'e list \<Rightarrow> STRG_RET \<times> RBIteratorCtx \<times> 'e list" where
  "read_first_sector K S d ctx start_head n out =
     (case ring_iterator_get ctx of
        None \<Rightarrow> (STRG_FAIL, ctx, out)
      | Some sector_index \<Rightarrow>
          let (ret, out) = read_history K S d sector_index start_head n out
          in if ret \<noteq> STRG_OK then (ret, ctx, out)
             else let (moved, ctx) = ring_iterator_prev ctx
                  in (if moved then STRG_OK else STRG_FAIL, ctx, out))"

function history_range_loop ::
    "'e HistoryKind \<Rightarrow> 'c Storage \<Rightarrow> 'c \<Rightarrow> RBIteratorCtx \<Rightarrow> nat \<Rightarrow> int \<Rightarrow> int \<Rightarrow> 'e list \<Rightarrow> STRG_RET \<times> 'e list" where
  "history_range_loop K S d ctx n sector_visited limit out =
     (if length out < n \<and> sector_visited < limit then
        case ring_iterator_get ctx of
          None \<Rightarrow> (STRG_FAIL, out)
        | Some sector_index \<Rightarrow>
            let (ret, out) = read_history K S d sector_index (hk_cap K - 1) n out
            in if ret \<noteq> STRG_OK then (ret, out)
               else let (moved, ctx) = ring_iterator_prev ctx
                    in if \<not> moved then (STRG_FAIL, out)
                       else history_range_loop K S d ctx n (sector_visited + 1) limit out
      else (STRG_OK, out))"
  by pat_completeness auto
termination by (relation "measure (\<lambda>(_, _, _, _, _, v, l, _). nat (l - v))") auto

declare history_range_loop.simps [simp del]

text \<open>
  The number of sectors to skip is a \<^verbatim>\<open>size_t\<close> stored in an \<^verbatim>\<open>int\<close>; \<open>to_i32\<close> is this narrowing.  Where
  \<^verbatim>\<open>size_t\<close> has 32 bits only its greatest value can lose by it.  A difference that leaves \<^verbatim>\<open>int\<close> is undefined in C; here
  it is exact.
\<close>

definition to_i32 :: "nat \<Rightarrow> int" where
  "to_i32 n = signed_take_bit 31 (int n)"

lemma to_i32_id [simp]: "n < 2147483648 \<Longrightarrow> to_i32 n = int n"
  by (simp add: to_i32_def signed_take_bit_int_eq_self)

lemma to_i32_wraps: "to_i32 (n + 4294967296) = to_i32 n"
  by (simp add: to_i32_def signed_take_bit_eq_iff_take_bit_eq take_bit_eq_mod)

definition history_get_range ::
    "'e HistoryKind \<Rightarrow> 'c Storage \<Rightarrow> 'c \<Rightarrow> RingBuffer \<Rightarrow> nat \<Rightarrow> nat \<Rightarrow> STRG_RET \<times> 'e list" where
  "history_get_range K S d rb start n =
     (case read_history_sector K S d (rb_current_index rb) of
        Inl ret \<Rightarrow> (ret, [])
      | Inr s \<Rightarrow>
         let header = hs_header s
         in if rh_state header = RB_EMPTY then (STRG_OK, [])
            else let cur_cnt = rh_head header + 1;
                     rem = start - cur_cnt;
                     num_sectors_to_start = (if start < cur_cnt then 0 else to_i32 (1 + rem div hk_cap K));
                     start_head = (if start < cur_cnt then to_u8 (rh_head header - start)
                                   else to_u8 (hk_cap K - 1 - rem mod hk_cap K))
            in if num_sectors_to_start \<ge> int (rb_occupancy rb) then (STRG_FAIL, [])
               else let start_rb_index = int (rb_current_index rb) - num_sectors_to_start;
                        start_rb_index = (if start_rb_index < 0 then int (rb_occupancy rb) + start_rb_index else start_rb_index);
                        (ret, ctx, out) = read_first_sector K S d (ring_buffer_iterator_init rb (nat start_rb_index)) start_head n []
               in if ret \<noteq> STRG_OK then (ret, out)
                  else history_range_loop K S d ctx n 1 (int (rb_occupancy rb) - num_sectors_to_start) out)"

definition message_history_add where "message_history_add = history_add message_history_kind"
definition message_history_get_range where "message_history_get_range = history_get_range message_history_kind"
definition call_history_add where "call_history_add = history_add call_history_kind"
definition call_history_get_range where "call_history_get_range = history_get_range call_history_kind"

subsection \<open>The contract of a history kind\<close>

locale history_format =
  fixes K :: "'e HistoryKind" and entry_wf :: "'e \<Rightarrow> bool"
  assumes cap: "0 < hk_cap K" "hk_cap K < 256"
    and room: "hk_cap K * hk_entry_bytes K + hk_pad K = 500"
    and jrnl: "hk_jrnl K = JRNL_CALL_HIST \<or> hk_jrnl K = JRNL_MSG_HIST"
    and enc: "entry_wf e \<Longrightarrow> length (hk_enc K e) = hk_entry_bytes K \<and> hk_dec K (hk_enc K e) = e"
    and dec: "length b = hk_entry_bytes K \<Longrightarrow> entry_wf (hk_dec K b) \<and> hk_enc K (hk_dec K b) = b"
begin

definition sector_wf :: "'e HistorySector \<Rightarrow> bool" where
  "sector_wf s \<longleftrightarrow> ring_buffer_header_wf (hs_header s) \<and> length (hs_entries s) = hk_cap K \<and>
     (\<forall>e \<in> set (hs_entries s). entry_wf e) \<and> length (hs_padding s) = hk_pad K \<and> hs_crc s < 2 ^ 32"

lemma length_entries: "sector_wf s \<Longrightarrow> length (concat (map (hk_enc K) (hs_entries s))) = hk_cap K * hk_entry_bytes K"
  using length_encode_array [of "hs_entries s" "hk_enc K" "hk_entry_bytes K"] enc by (simp add: sector_wf_def)

lemma length_sector_bytes [simp]: "sector_wf s \<Longrightarrow> length (history_sector_bytes K s) = SECTOR_SIZE"
  using length_entries [of s] room
  by (simp add: history_sector_bytes_def sector_wf_def layout del: length_concat)

lemma sector_of_bytes:
  assumes "sector_wf s"
  shows "history_sector_of K (history_sector_bytes K s) = s"
proof -
  let ?es = "concat (map (hk_enc K) (hs_entries s))"
  have wf: "ring_buffer_header_wf (hs_header s)" "length (hs_padding s) = hk_pad K" using assms by (simp_all add: sector_wf_def)
  have "decode_array 8 (hk_entry_bytes K) (hk_cap K) (hk_dec K)
      (ring_buffer_header_bytes (hs_header s) @ ?es @ hs_padding s @ le32 (hs_crc s)) = hs_entries s"
    using assms enc by (intro decode_encode_array) (auto simp: sector_wf_def)
  moreover have "slice 508 4 (history_sector_bytes K s) = le32 (hs_crc s)"
    using length_entries [OF assms] room wf by (simp add: history_sector_bytes_def slice_def del: length_concat)
  moreover have "slice (8 + hk_cap K * hk_entry_bytes K) (hk_pad K) (history_sector_bytes K s) = hs_padding s"
    using length_entries [OF assms] wf
    by (simp add: history_sector_bytes_def slice_def del: length_concat)
  ultimately show ?thesis using assms ring_buffer_header_of_bytes [OF wf(1)]
    by (simp add: history_sector_of_def history_sector_bytes_def layout sector_wf_def rd32_le32 del: length_concat)
qed

lemma sector_bytes_of:
  assumes "length b = SECTOR_SIZE"
  shows "history_sector_bytes K (history_sector_of K b) = b"
proof -
  have b: "length b = 512" using assms by (simp add: layout)
  have "concat (map (hk_enc K) (decode_array 8 (hk_entry_bytes K) (hk_cap K) (hk_dec K) b)) = slice 8 (hk_cap K * hk_entry_bytes K) b"
    using dec b room by (intro encode_decode_array) auto
  moreover have "take 8 b @ slice 8 (hk_cap K * hk_entry_bytes K) b @
      slice (8 + hk_cap K * hk_entry_bytes K) (hk_pad K) b @ slice 508 4 b = b"
  proof -
    let ?ce = "hk_cap K * hk_entry_bytes K"
    have "slice (8 + ?ce) (hk_pad K) b @ slice 508 4 b = slice (8 + ?ce) (hk_pad K + 4) b"
      using room by (intro slice_join(1)) simp
    moreover have "slice 8 ?ce b @ slice (8 + ?ce) (hk_pad K + 4) b = slice 8 (?ce + (hk_pad K + 4)) b"
      by (intro slice_join(1)) simp
    moreover have "slice 8 (?ce + (hk_pad K + 4)) b = drop 8 b" using room b by (simp add: slice_def)
    ultimately show ?thesis by simp
  qed
  ultimately show ?thesis using b
    by (simp add: history_sector_of_def history_sector_bytes_def layout ring_buffer_header_bytes_of le32_rd32)
qed

lemma entry_in_sector: "i < hk_cap K \<Longrightarrow> 8 + i * hk_entry_bytes K + hk_entry_bytes K \<le> 508"
  using mult_le_mono1 [of "Suc i" "hk_cap K" "hk_entry_bytes K"] room by simp

lemma sector_wf_of:
  assumes "length b = SECTOR_SIZE"
  shows "sector_wf (history_sector_of K b)"
proof -
  have b: "length b = 512" using assms by (simp add: layout)
  have "entry_wf (hk_dec K (slice (8 + i * hk_entry_bytes K) (hk_entry_bytes K) b))" if "i < hk_cap K" for i
    using dec entry_in_sector [OF that] b by simp
  then show ?thesis using room b
    by (auto simp: sector_wf_def history_sector_of_def layout rd32_less decode_array_def intro!: ring_buffer_header_wf_of)
qed

lemma sector_of_stamp:
  assumes "sector_wf s"
  shows "hs_header (history_sector_of K (sector_crc_stamp (history_sector_bytes K s))) = hs_header s"
    and "hs_entries (history_sector_of K (sector_crc_stamp (history_sector_bytes K s))) = hs_entries s"
proof -
  note l = length_sector_bytes [OF assms]
  have "history_sector_of K (history_sector_bytes K s) = s" by (rule sector_of_bytes [OF assms])
  then have e: "ring_buffer_header_of (history_sector_bytes K s) = hs_header s"
      "decode_array 8 (hk_entry_bytes K) (hk_cap K) (hk_dec K) (history_sector_bytes K s) = hs_entries s"
    by (simp_all add: history_sector_of_def layout) (metis HistorySector.select_convs)+
  show "hs_header (history_sector_of K (sector_crc_stamp (history_sector_bytes K s))) = hs_header s"
    using e(1) l by (simp add: history_sector_of_def ring_buffer_header_of_def)
  show "hs_entries (history_sector_of K (sector_crc_stamp (history_sector_bytes K s))) = hs_entries s"
    using e(2) decode_array_stamp [OF l, of 8 "hk_cap K" "hk_entry_bytes K" "hk_dec K"] room
    by (simp add: history_sector_of_def layout)
qed

end

subsection \<open>One journalled write of a history sector\<close>

context reliable_store begin

lemma journal_add_history:
  assumes p: "pers_ok S ok blk p" and ty: "jtype = JRNL_CALL_HIST \<or> jtype = JRNL_MSG_HIST"
    and i: "i < 65536" and c: "length c = SECTOR_SIZE"
  shows "\<exists>pa. journal_add S p jtype i c = (True, sector_crc_stamp c, pa) \<and> ok (dev pa) \<and>
    capacity S (dev pa) = capacity S (dev p) \<and> usage_bitmap pa = usage_bitmap p \<and>
    journal_header_wf (j_header (journal pa)) \<and> jh_magic (j_header (journal pa)) = JRNL_MAGIC \<and>
    blk (dev pa) = (blk (dev p))(JRNL_CONTENT_SECTOR := sector_crc_stamp c, JRNL_HEADER_SECTOR := active_block jtype i)"
proof -
  let ?h = "journal_data_init journal_header_zero jtype i"
  have cap: "12 \<le> capacity S (dev p)" and d: "ok (dev p)" using p by (simp_all add: pers_ok_def layout)
  have wf: "journal_header_wf ?h" using ty i by (auto simp: journal_header_wf_def journal_data_init_def journal_header_zero_def)
  note lh = length_journal_header_bytes [OF wf]
  have j: "JRNL_CONTENT_SECTOR < capacity S (dev p)" "JRNL_HEADER_SECTOR < capacity S (dev p)"
    "JRNL_CONTENT_SECTOR < 65536" "JRNL_HEADER_SECTOR < 65536" using cap by (simp_all add: layout)
  obtain d1 where w1: "write_sector S (dev p) JRNL_CONTENT_SECTOR c = (STRG_OK, sector_crc_stamp c, d1)"
    and d1: "ok d1" "capacity S d1 = capacity S (dev p)" "blk d1 = (blk (dev p))(JRNL_CONTENT_SECTOR := sector_crc_stamp c)"
    by (rule write_sector_in_range [OF d j(1,3) c])
  have j2: "JRNL_HEADER_SECTOR < capacity S d1" using j d1 by simp
  obtain d2 where w2: "write_sector S d1 JRNL_HEADER_SECTOR (journal_header_bytes ?h) =
      (STRG_OK, sector_crc_stamp (journal_header_bytes ?h), d2)"
    and d2: "ok d2" "capacity S d2 = capacity S d1"
      "blk d2 = (blk d1)(JRNL_HEADER_SECTOR := sector_crc_stamp (journal_header_bytes ?h))"
    by (rule write_sector_in_range [OF d1(1) j2 j(4) lh])
  have nr: "\<not> tracks_usage jtype" "jh_type ?h \<noteq> JRNL_REMOVE" using ty by (auto simp: tracks_usage_def journal_data_init_def)
  have "journal_add S p jtype i c = (True, sector_crc_stamp c, p\<lparr>journal := (journal p)\<lparr>j_header := ?h\<rparr>, dev := d2\<rparr>)"
    using nr w1 w2 by (simp add: journal_add_def journal_write_def journal_write_sector_def Let_def)
  then show ?thesis using d1 d2 wf by (simp add: active_block_def journal_data_init_def)
qed

end

text \<open>Data sectors and bitmap sectors as before: everything but the two journal sectors and \<open>k0\<close>.\<close>

definition only_changed :: "nat \<Rightarrow> (nat \<Rightarrow> byte list) \<Rightarrow> (nat \<Rightarrow> byte list) \<Rightarrow> bool" where
  "only_changed k0 blk blk' \<longleftrightarrow> (\<forall>k. k \<notin> {JRNL_HEADER_SECTOR, JRNL_CONTENT_SECTOR, k0} \<longrightarrow> blk' k = blk k)"

definition history_base :: "'e HistoryKind \<Rightarrow> nat" where
  "history_base K = DATA_SECTOR_TO_RAW (hk_start K)"

definition history_sec :: "'e HistoryKind \<Rightarrow> (nat \<Rightarrow> byte list) \<Rightarrow> nat \<Rightarrow> 'e HistorySector" where
  "history_sec K bl i = history_sector_of K (bl (history_base K + i))"

text \<open>The invariant of a history and what it holds, newest first.\<close>

definition history_ok :: "'e HistoryKind \<Rightarrow> (nat \<Rightarrow> byte list) \<Rightarrow> nat \<Rightarrow> RingBuffer \<Rightarrow> bool" where
  "history_ok K bl cap rb \<longleftrightarrow> ring_region bl cap (history_base K) (rb_size rb) \<and> rb_size rb \<le> 65535 \<and>
     ring_full (hk_cap K) (\<lambda>i. hs_header (history_sec K bl i)) rb"

definition history_list :: "'e HistoryKind \<Rightarrow> (nat \<Rightarrow> byte list) \<Rightarrow> RingBuffer \<Rightarrow> 'e list" where
  "history_list K bl rb = ring_list (\<lambda>i. hs_header (history_sec K bl i)) (\<lambda>i. hs_entries (history_sec K bl i)) rb"

lemma history_frame:
  assumes "history_ok K bl cap rb" and same: "\<And>i. i < rb_size rb \<Longrightarrow> bl' (history_base K + i) = bl (history_base K + i)"
    and "history_base K + rb_size rb \<le> cap'"
  shows "history_ok K bl' cap' rb" "history_list K bl' rb = history_list K bl rb"
proof -
  have s: "i < rb_size rb \<Longrightarrow> history_sec K bl' i = history_sec K bl i" for i using same by (simp add: history_sec_def)
  note h = assms(1) [unfolded history_ok_def]
  have "ring_full (hk_cap K) (\<lambda>i. hs_header (history_sec K bl' i)) rb"
    by (rule ring_full_cong [OF conjunct2 [OF conjunct2 [OF h]]]) (simp add: s)
  then show "history_ok K bl' cap' rb" using h assms(3) same by (simp add: history_ok_def ring_region_def)
  show "history_list K bl' rb = history_list K bl rb"
    unfolding history_list_def by (rule ring_list_same [OF conjunct2 [OF conjunct2 [OF h]]]) (simp_all add: s)
qed

definition history_wraps :: "'e HistoryKind \<Rightarrow> (nat \<Rightarrow> byte list) \<Rightarrow> RingBuffer \<Rightarrow> bool" where
  "history_wraps K bl rb \<longleftrightarrow> rb_occupancy rb = rb_size rb \<and>
     rh_head (hs_header (history_sec K bl (rb_current_index rb))) = hk_cap K - 1"

definition outside_same :: "nat \<Rightarrow> nat \<Rightarrow> (nat \<Rightarrow> byte list) \<Rightarrow> (nat \<Rightarrow> byte list) \<Rightarrow> bool" where
  "outside_same start n bl bl' \<longleftrightarrow>
     (\<forall>k. k \<notin> {JRNL_HEADER_SECTOR, JRNL_CONTENT_SECTOR} \<and> (k < start \<or> start + n \<le> k) \<longrightarrow> bl' k = bl k)"

locale history = history_format K entry_wf + reliable_store S ok blk
  for K :: "'e HistoryKind" and entry_wf :: "'e \<Rightarrow> bool"
    and S :: "'c Storage" and ok :: "'c \<Rightarrow> bool" and blk :: "'c \<Rightarrow> nat \<Rightarrow> byte list"
begin

abbreviation base :: nat where "base \<equiv> history_base K"

abbreviation sec :: "(nat \<Rightarrow> byte list) \<Rightarrow> nat \<Rightarrow> 'e HistorySector" where "sec \<equiv> history_sec K"

abbreviation region :: "'c \<Rightarrow> nat \<Rightarrow> bool" where
  "region d n \<equiv> ring_region (blk d) (capacity S d) base n"

lemma base_bounds: "region d n \<Longrightarrow> i < n \<Longrightarrow> history_raw K i = base + i \<and> base + i < capacity S d \<and> base + i < 65536 \<and>
    12 \<le> base + i \<and> to_u16 (hk_start K + i) = hk_start K + i \<and> hk_start K + i < 65536"
  by (simp add: ring_region_def history_base_def history_raw_def sector_defs layout add.commute add.left_commute)

lemma read_sector_of_ring:
  assumes "ok d" and "region d n" and "i < n"
  shows "read_history_sector K S d i = Inr (sec (blk d) i)" and "length (blk d (base + i)) = SECTOR_SIZE"
    and "sector_crc_stamp (blk d (base + i)) = blk d (base + i)" and "sector_wf (sec (blk d) i)"
proof -
  note b = base_bounds [OF assms(2,3)]
  have v: "sector_crc_valid (blk d (base + i))" using assms(2,3) by (simp add: ring_region_def)
  show l: "length (blk d (base + i)) = SECTOR_SIZE" using blk_length [OF assms(1)] b by simp
  show "sector_crc_stamp (blk d (base + i)) = blk d (base + i)" by (rule valid_imp_stamp [OF l v])
  show "sector_wf (sec (blk d) i)" unfolding history_sec_def by (rule sector_wf_of [OF l])
  show "read_history_sector K S d i = Inr (sec (blk d) i)"
    using read_sector_valid [OF assms(1), of "base + i"] b v by (simp add: read_history_sector_def history_sec_def)
qed

lemma write_and_free_step:
  assumes p: "pers_ok S ok blk p" and r: "region (dev p) n" and i: "i < n" and s: "sector_wf s"
  obtains pa p' where "journal_add S p (hk_jrnl K) (to_u16 (hk_start K + i)) (history_sector_bytes K (sec (blk (dev p)) i)) =
      (True, blk (dev p) (base + i), pa)"
    and "write_and_free K S pa i s = (STRG_OK, p')" and "pers_ok S ok blk p'" and "region (dev p') n"
    and "usage_bitmap p' = usage_bitmap p" and "only_changed (base + i) (blk (dev p)) (blk (dev p'))"
    and "hs_header (sec (blk (dev p')) i) = hs_header s" and "hs_entries (sec (blk (dev p')) i) = hs_entries s"
proof -
  let ?b = "blk (dev p) (base + i)"
  have d: "ok (dev p)" using p by (simp add: pers_ok_def)
  note b = base_bounds [OF r i]
  note rd = read_sector_of_ring [OF d r i]
  have bb: "history_sector_bytes K (sec (blk (dev p)) i) = ?b" unfolding history_sec_def by (rule sector_bytes_of [OF rd(2)])
  have i16: "hk_start K + i < 65536" using b by simp
  from journal_add_history [OF p jrnl i16 rd(2)] obtain pa
    where a: "journal_add S p (hk_jrnl K) (hk_start K + i) ?b = (True, sector_crc_stamp ?b, pa)"
      and A: "ok (dev pa)" "capacity S (dev pa) = capacity S (dev p)" "usage_bitmap pa = usage_bitmap p"
        "journal_header_wf (j_header (journal pa))" "jh_magic (j_header (journal pa)) = JRNL_MAGIC"
        "blk (dev pa) = (blk (dev p))(JRNL_CONTENT_SECTOR := sector_crc_stamp ?b, JRNL_HEADER_SECTOR := active_block (hk_jrnl K) (hk_start K + i))"
    by blast
  let ?w = "sector_crc_stamp (history_sector_bytes K s)"
  have raw: "base + i < capacity S (dev pa)" "base + i < 65536" using b A(2) by simp_all
  obtain d2 where w2: "write_sector S (dev pa) (base + i) (history_sector_bytes K s) = (STRG_OK, ?w, d2)"
    and d2: "ok d2" "capacity S d2 = capacity S (dev pa)" "blk d2 = (blk (dev pa))(base + i := ?w)"
    by (rule write_sector_in_range [OF A(1) raw length_sector_bytes [OF s]])
  have h2: "JRNL_HEADER_SECTOR < capacity S d2" using p d2(2) A(2) by (simp add: pers_ok_def layout)
  obtain j3 d3 where f3: "journal_free S d2 (journal pa) = (STRG_OK, j3, d3)"
    using journal_free_reliable [OF d2(1) h2 A(4)] by (metis prod_cases3 fst_conv)
  have F3: "ok d3" "capacity S d3 = capacity S d2" "journal_idle (blk d3)"
      "\<forall>k. k \<noteq> JRNL_HEADER_SECTOR \<longrightarrow> blk d3 k = blk d2 k"
    using journal_free_completes [OF d2(1) A(4,5) f3] by auto
  have ch: "blk d3 k = (if k = base + i then ?w else blk (dev p) k)" if "k \<noteq> JRNL_HEADER_SECTOR" "k \<noteq> JRNL_CONTENT_SECTOR" for k
    using that F3(4) d2(3) A(6) by simp
  let ?p = "pa\<lparr>dev := d3, journal := j3\<rparr>"
  have oc: "only_changed (base + i) (blk (dev p)) (blk d3)" using ch by (simp add: only_changed_def)
  have at: "blk d3 (base + j) = (if j = i then ?w else blk (dev p) (base + j))" for j
    using ch [of "base + j"] by (simp add: history_base_def sector_defs layout)
  have "write_and_free K S pa i s = (STRG_OK, ?p)"
    using w2 f3 b by (simp add: write_and_free_def write_history_sector_def)
  moreover have "bitmap_synced (blk d3) (usage_bitmap p)"
  proof -
    have m: "USAGE_BITMAP_START_SECTOR + q \<noteq> base + i" if "q < USAGE_BITMAP_SECTOR_SIZE" for q
      using that b by (simp add: layout)
    have "blk d3 (USAGE_BITMAP_START_SECTOR + q) = blk (dev p) (USAGE_BITMAP_START_SECTOR + q)" if "q < USAGE_BITMAP_SECTOR_SIZE" for q
      using ch [of "USAGE_BITMAP_START_SECTOR + q"] m [OF that] by (simp add: layout)
    then show ?thesis using p by (simp add: pers_ok_def bitmap_synced_def)
  qed
  then have "pers_ok S ok blk ?p" using p F3 d2(2) A(2,3) by (simp add: pers_ok_def)
  moreover have "region (dev ?p) n"
    using r F3(2) d2(2) A(2) at length_sector_bytes [OF s] by (simp add: ring_region_def)
  moreover have "hs_header (sec (blk (dev ?p)) i) = hs_header s" "hs_entries (sec (blk (dev ?p)) i) = hs_entries s"
    using sector_of_stamp [OF s] at by (simp_all add: history_sec_def)
  ultimately show ?thesis using a rd(3) bb b oc A(3) by (intro that [of pa ?p]) simp_all
qed

lemma sec_other: "only_changed (base + i) bl bl' \<Longrightarrow> j \<noteq> i \<Longrightarrow> sec bl' j = sec bl j"
  by (simp add: only_changed_def history_sec_def history_base_def sector_defs layout)

subsection \<open>Adding an entry\<close>

abbreviation ents :: "(nat \<Rightarrow> byte list) \<Rightarrow> nat \<Rightarrow> 'e list" where "ents bl i \<equiv> hs_entries (sec bl i)"
abbreviation hdr :: "(nat \<Rightarrow> byte list) \<Rightarrow> nat \<Rightarrow> RingBufferHeader" where "hdr bl i \<equiv> hs_header (sec bl i)"

lemma ring_header_hdr: "ring_header bl base = hdr bl"
  by (simp add: fun_eq_iff ring_header_def history_sec_def history_sector_of_def)

lemma step_hdr:
  assumes "only_changed (base + i) bl bl'" and "hdr bl' i = h" and "ents bl' i = es"
  shows "hdr bl' = (hdr bl)(i := h)" and "ents bl' = (ents bl)(i := es)"
  using assms sec_other by (auto simp: fun_eq_iff)

lemma sector_wf_store:
  assumes "sector_wf s" and "ring_buffer_header_wf h" and "entry_wf e"
  shows "sector_wf (s\<lparr>hs_header := h, hs_entries := (hs_entries s)[k := e]\<rparr>)"
  using assms set_update_subset_insert [of "hs_entries s" k e] by (auto simp: sector_wf_def)

text \<open>A sector that is not yet in use, or is used again, receives its first entry.\<close>

lemma history_add_fresh:
  assumes p: "pers_ok S ok blk p" and r: "region (dev p) n" and e: "entry_wf e"
    and c: "rb_current_index rb < n" "rb_occupancy rb \<noteq> 0" "rb_seq rb < 2 ^ 32"
    and st: "rh_state (hdr (blk (dev p)) (rb_current_index rb)) = RB_EMPTY \<or> rh_state (hdr (blk (dev p)) (rb_current_index rb)) = RB_FULL"
  obtains p' where "history_add K S p rb e = Some (STRG_OK, rb, p')" and "pers_ok S ok blk p'" and "region (dev p') n"
    and "usage_bitmap p' = usage_bitmap p" and "only_changed (base + rb_current_index rb) (blk (dev p)) (blk (dev p'))"
    and "hdr (blk (dev p')) = (hdr (blk (dev p)))(rb_current_index rb := fresh_header (rb_seq rb) (hdr (blk (dev p)) (rb_current_index rb)))"
    and "ents (blk (dev p')) = (ents (blk (dev p)))(rb_current_index rb := (ents (blk (dev p)) (rb_current_index rb))[0 := e])"
proof -
  let ?i = "rb_current_index rb"
  let ?s = "sec (blk (dev p)) ?i"
  have d: "ok (dev p)" using p by (simp add: pers_ok_def)
  note rd = read_sector_of_ring [OF d r c(1)]
  have "ring_buffer_header_wf (fresh_header (rb_seq rb) (hs_header ?s))"
    using rd(4) c(3) by (simp add: sector_wf_def ring_buffer_header_wf_def fresh_header_def)
  note wf = sector_wf_store [OF rd(4) this e, of 0]
  obtain pa p' where w: "journal_add S p (hk_jrnl K) (to_u16 (hk_start K + ?i)) (history_sector_bytes K ?s) =
      (True, blk (dev p) (base + ?i), pa)"
    "write_and_free K S pa ?i (?s\<lparr>hs_header := fresh_header (rb_seq rb) (hs_header ?s), hs_entries := (hs_entries ?s)[0 := e]\<rparr>) = (STRG_OK, p')"
    "pers_ok S ok blk p'" "region (dev p') n" "usage_bitmap p' = usage_bitmap p" "only_changed (base + ?i) (blk (dev p)) (blk (dev p'))"
    "hdr (blk (dev p')) ?i = fresh_header (rb_seq rb) (hs_header ?s)" "ents (blk (dev p')) ?i = (hs_entries ?s)[0 := e]"
    by (rule write_and_free_step [OF p r c(1) wf]) simp
  have "history_sector_of K (blk (dev p) (base + ?i)) = ?s" by (simp add: history_sec_def)
  then have "history_add K S p rb e = Some (STRG_OK, rb, p')"
    using c(2) rd(1) st w(1,2) by (subst history_add.simps) (auto simp: Let_def fresh_header_def)
  then show ?thesis using w(3-6) step_hdr [OF w(6-8)] by (intro that) simp_all
qed

lemma history_add_append:
  assumes p: "pers_ok S ok blk p" and r: "region (dev p) n" and e: "entry_wf e"
    and c: "rb_current_index rb < n" "rb_occupancy rb \<noteq> 0"
    and st: "rh_state (hdr (blk (dev p)) (rb_current_index rb)) = RB_OCCUPIED"
      "rh_head (hdr (blk (dev p)) (rb_current_index rb)) + 1 < hk_cap K"
  defines "k \<equiv> rh_head (hdr (blk (dev p)) (rb_current_index rb)) + 1"
  obtains p' where "history_add K S p rb e = Some (STRG_OK, rb, p')" and "pers_ok S ok blk p'" and "region (dev p') n"
    and "usage_bitmap p' = usage_bitmap p" and "only_changed (base + rb_current_index rb) (blk (dev p)) (blk (dev p'))"
    and "hdr (blk (dev p')) = (hdr (blk (dev p)))(rb_current_index rb := (hdr (blk (dev p)) (rb_current_index rb))\<lparr>rh_head := k\<rparr>)"
    and "ents (blk (dev p')) = (ents (blk (dev p)))(rb_current_index rb := (ents (blk (dev p)) (rb_current_index rb))[k := e])"
proof -
  let ?i = "rb_current_index rb"
  let ?s = "sec (blk (dev p)) ?i"
  let ?h = "(hs_header ?s)\<lparr>rh_head := k\<rparr>"
  have d: "ok (dev p)" using p by (simp add: pers_ok_def)
  note rd = read_sector_of_ring [OF d r c(1)]
  have k: "k < 256" "to_u8 k = k" using st(2) cap by (simp_all add: k_def)
  have "ring_buffer_header_wf ?h" using rd(4) k by (simp add: sector_wf_def ring_buffer_header_wf_def)
  note wf = sector_wf_store [OF rd(4) this e, of k]
  obtain pa p' where w: "journal_add S p (hk_jrnl K) (to_u16 (hk_start K + ?i)) (history_sector_bytes K ?s) =
      (True, blk (dev p) (base + ?i), pa)"
    "write_and_free K S pa ?i (?s\<lparr>hs_header := ?h, hs_entries := (hs_entries ?s)[k := e]\<rparr>) = (STRG_OK, p')"
    "pers_ok S ok blk p'" "region (dev p') n" "usage_bitmap p' = usage_bitmap p" "only_changed (base + ?i) (blk (dev p)) (blk (dev p'))"
    "hdr (blk (dev p')) ?i = ?h" "ents (blk (dev p')) ?i = (hs_entries ?s)[k := e]"
    by (rule write_and_free_step [OF p r c(1) wf]) simp
  have "history_sector_of K (blk (dev p) (base + ?i)) = ?s" by (simp add: history_sec_def)
  moreover have "rh_head (hdr (blk (dev p)) ?i) \<noteq> hk_cap K - 1" using st(2) by simp
  ultimately have "history_add K S p rb e = Some (STRG_OK, rb, p')"
    using c(2) rd(1) st(1) w(1,2) k by (subst history_add.simps) (simp add: Let_def k_def)
  then show ?thesis using w(3-6) step_hdr [OF w(6-8)] by (intro that) simp_all
qed

text \<open>A full sector is marked and the ring moves on before the entry is added.\<close>

lemma history_add_full:
  assumes p: "pers_ok S ok blk p" and r: "region (dev p) n"
    and c: "rb_current_index rb < n" "rb_occupancy rb \<noteq> 0"
    and st: "rh_state (hdr (blk (dev p)) (rb_current_index rb)) = RB_OCCUPIED"
      "rh_head (hdr (blk (dev p)) (rb_current_index rb)) = hk_cap K - 1"
  obtains p' where "history_add K S p rb e = history_add K S p' (advance rb) e" and "pers_ok S ok blk p'" and "region (dev p') n"
    and "usage_bitmap p' = usage_bitmap p" and "only_changed (base + rb_current_index rb) (blk (dev p)) (blk (dev p'))"
    and "hdr (blk (dev p')) = (hdr (blk (dev p)))(rb_current_index rb := (hdr (blk (dev p)) (rb_current_index rb))\<lparr>rh_state := RB_FULL\<rparr>)"
    and "ents (blk (dev p')) = ents (blk (dev p))"
proof -
  let ?i = "rb_current_index rb"
  let ?s = "sec (blk (dev p)) ?i"
  let ?h = "(hs_header ?s)\<lparr>rh_state := RB_FULL\<rparr>"
  have d: "ok (dev p)" using p by (simp add: pers_ok_def)
  note rd = read_sector_of_ring [OF d r c(1)]
  have wf: "sector_wf (?s\<lparr>hs_header := ?h\<rparr>)" using rd(4) by (simp add: sector_wf_def ring_buffer_header_wf_def)
  obtain pa p' where w: "journal_add S p (hk_jrnl K) (to_u16 (hk_start K + ?i)) (history_sector_bytes K ?s) =
      (True, blk (dev p) (base + ?i), pa)"
    "write_and_free K S pa ?i (?s\<lparr>hs_header := ?h\<rparr>) = (STRG_OK, p')"
    "pers_ok S ok blk p'" "region (dev p') n" "usage_bitmap p' = usage_bitmap p" "only_changed (base + ?i) (blk (dev p)) (blk (dev p'))"
    "hdr (blk (dev p')) ?i = ?h" "ents (blk (dev p')) ?i = hs_entries ?s"
    by (rule write_and_free_step [OF p r c(1) wf]) simp
  have "history_sector_of K (blk (dev p) (base + ?i)) = ?s" by (simp add: history_sec_def)
  then have "history_add K S p rb e = history_add K S p' (advance rb) e"
    using c(2) rd(1) st w(1,2)
    by (subst history_add.simps) (simp add: Let_def set_sector_full_move_next_def advance_def)
  moreover have "ents (blk (dev p')) = ents (blk (dev p))"
    using step_hdr(2) [OF w(6-8)] by (auto simp: fun_eq_iff)
  ultimately show ?thesis using w(3-6) step_hdr(1) [OF w(6-8)] by (intro that [of p']) simp_all
qed

lemma outside_same_step: "only_changed (base + i) bl bl' \<Longrightarrow> i < n \<Longrightarrow> outside_same base n bl bl'"
  by (auto simp: only_changed_def outside_same_def)

lemma outside_same_trans: "outside_same base n bl bl' \<Longrightarrow> outside_same base n bl' bl'' \<Longrightarrow> outside_same base n bl bl''"
  by (simp add: outside_same_def)

lemma entries_length: "ok d \<Longrightarrow> region d n \<Longrightarrow> i < n \<Longrightarrow> length (ents (blk d) i) = hk_cap K"
  using read_sector_of_ring(4) [of d n i] by (simp add: sector_wf_def)

theorem history_add_ring:
  assumes p: "pers_ok S ok blk p" and r: "region (dev p) (rb_size rb)" and n: "rb_size rb \<le> 65535" and e: "entry_wf e"
    and f: "ring_full (hk_cap K) (hdr (blk (dev p))) rb"
  defines "old \<equiv> ring_list (hdr (blk (dev p))) (ents (blk (dev p))) rb"
  defines "wraps \<equiv> rb_occupancy rb = rb_size rb \<and> rh_head (hdr (blk (dev p)) (rb_current_index rb)) = hk_cap K - 1"
  shows "\<exists>rb' p'. history_add K S p rb e = Some (STRG_OK, rb', p') \<and> pers_ok S ok blk p' \<and> usage_bitmap p' = usage_bitmap p \<and>
    region (dev p') (rb_size rb) \<and> rb_size rb' = rb_size rb \<and> ring_full (hk_cap K) (hdr (blk (dev p'))) rb' \<and>
    ring_list (hdr (blk (dev p'))) (ents (blk (dev p'))) rb' = e # take (length old - (if wraps then hk_cap K else 0)) old \<and>
    outside_same base (rb_size rb) (blk (dev p)) (blk (dev p'))"
proof -
  let ?n = "rb_size rb" and ?c = "rb_current_index rb" and ?H = "hdr (blk (dev p))" and ?E = "ents (blk (dev p))"
  have d: "ok (dev p)" using p by (simp add: pers_ok_def)
  have n0: "0 < ?n" using r by (simp add: ring_region_def)
  have sh: "ring_shape ?H rb" using f by (simp add: ring_full_def)
  have q: "rb_seq rb < 2 ^ 32" using sh by (simp add: ring_shape_def)
  note len = entries_length [OF d r]
  show ?thesis
  proof (cases "rb_occupancy rb = 0")
    case True
    let ?rb = "rb\<lparr>rb_occupancy := 1\<rparr>"
    have c: "?c = 0" "rh_state (?H 0) = RB_EMPTY" using sh True n0 by (simp_all add: ring_shape_def)
    have eq: "history_add K S p rb e = history_add K S p ?rb e"
      using True n0 by (subst (1 2) history_add.simps) (simp add: add_ring_buffer_def)
    obtain p' where P: "history_add K S p ?rb e = Some (STRG_OK, ?rb, p')" "pers_ok S ok blk p'" "region (dev p') ?n"
      "usage_bitmap p' = usage_bitmap p" "only_changed (base + 0) (blk (dev p)) (blk (dev p'))"
      "hdr (blk (dev p')) = ?H(0 := fresh_header (rb_seq rb) (?H 0))" "ents (blk (dev p')) = ?E(0 := (?E 0)[0 := e])"
      using history_add_fresh [OF p r e, of ?rb] c n0 q by auto
    have "?E 0 \<noteq> []" using len [OF n0] cap by auto
    note F = first_entry [where E = ?E, OF f True n0 cap(1) this]
    have "\<not> wraps" "old = []" using True n0 by (simp_all add: wraps_def old_def ring_list_def)
    moreover have "ring_full (hk_cap K) (hdr (blk (dev p'))) ?rb" "ring_list (hdr (blk (dev p'))) (ents (blk (dev p'))) ?rb = [e]"
      unfolding P(6,7) by (rule F)+
    ultimately show ?thesis using P(1-4) outside_same_step [OF P(5) n0] unfolding eq by auto
  next
    case o: False
    have c: "?c < ?n" "?c < rb_occupancy rb" "rb_occupancy rb \<le> ?n" using sh o by (auto simp: ring_shape_def)
    have st: "rh_state (?H ?c) = RB_OCCUPIED" "rh_head (?H ?c) < hk_cap K" using f o by (simp_all add: ring_full_def)
    show ?thesis
    proof (cases "rh_head (?H ?c) + 1 < hk_cap K")
      case True
      define k where "k = rh_head (?H ?c) + 1"
      obtain p' where P: "history_add K S p rb e = Some (STRG_OK, rb, p')" "pers_ok S ok blk p'" "region (dev p') ?n"
        "usage_bitmap p' = usage_bitmap p" "only_changed (base + ?c) (blk (dev p)) (blk (dev p'))"
        "hdr (blk (dev p')) = ?H(?c := (?H ?c)\<lparr>rh_head := k\<rparr>)" "ents (blk (dev p')) = ?E(?c := (?E ?c)[k := e])"
        unfolding k_def by (rule history_add_append [OF p r e c(1) o st(1) True])
      note A = append_entry(1) [where E = ?E, OF f o True len [OF c(1)], folded k_def]
        append_entry(2) [where E = ?E and e = e, OF f o True len [OF c(1)], folded k_def]
      have "\<not> wraps" using True by (auto simp: wraps_def)
      moreover have "ring_full (hk_cap K) (hdr (blk (dev p'))) rb" "ring_list (hdr (blk (dev p'))) (ents (blk (dev p'))) rb = e # old"
        unfolding P(6,7) old_def by (rule A)+
      ultimately show ?thesis using P(1-4) outside_same_step [OF P(5) c(1)] by auto
    next
      case False
      then have h: "rh_head (?H ?c) = hk_cap K - 1" using st(2) by simp
      obtain p1 where P1: "history_add K S p rb e = history_add K S p1 (advance rb) e" "pers_ok S ok blk p1" "region (dev p1) ?n"
        "usage_bitmap p1 = usage_bitmap p" "only_changed (base + ?c) (blk (dev p)) (blk (dev p1))"
        "hdr (blk (dev p1)) = ?H(?c := (?H ?c)\<lparr>rh_state := RB_FULL\<rparr>)" "ents (blk (dev p1)) = ?E"
        by (rule history_add_full [OF p r c(1) o st(1) h])
      note af = advance_fields [OF sh o n]
      note A = advance_entry(1,3) [where E = ?E, OF f o h cap(1) n len, folded P1(6)]
        advance_entry(2) [where E = ?E and e = e, OF f o h cap(1) n len, folded P1(6)]
      let ?c' = "rb_current_index (advance rb)"
      have c': "?c' < ?n" "rb_occupancy (advance rb) \<noteq> 0" "rb_seq (advance rb) < 2 ^ 32"
        using af(2,3,7) c(3) o by (auto simp: to_u32_def split: if_splits)
      obtain p' where P: "history_add K S p1 (advance rb) e = Some (STRG_OK, advance rb, p')" "pers_ok S ok blk p'" "region (dev p') ?n"
        "usage_bitmap p' = usage_bitmap p1" "only_changed (base + ?c') (blk (dev p1)) (blk (dev p'))"
        "hdr (blk (dev p')) = (hdr (blk (dev p1)))(?c' := fresh_header (rb_seq (advance rb)) (hdr (blk (dev p1)) ?c'))"
        "ents (blk (dev p')) = (ents (blk (dev p1)))(?c' := (ents (blk (dev p1)) ?c')[0 := e])"
        by (rule history_add_fresh [OF P1(2,3) e c' A(2)])
      have "wraps \<longleftrightarrow> \<not> rb_occupancy rb < ?n" using h c(3) by (auto simp: wraps_def)
      moreover have "outside_same base ?n (blk (dev p)) (blk (dev p'))"
        using outside_same_trans outside_same_step [OF P1(5) c(1)] outside_same_step [OF P(5) c'(1)] by blast
      moreover have "ring_full (hk_cap K) (hdr (blk (dev p'))) (advance rb)" unfolding P(6) by (rule A(1))
      moreover have e1: "ents (blk (dev p1)) i = ?E i" for i using fun_cong [OF P1(7)] .
      have "ring_list (hdr (blk (dev p'))) (ents (blk (dev p'))) (advance rb) =
          e # take (length old - (if rb_occupancy rb < ?n then 0 else hk_cap K)) old"
        unfolding P(6,7) P1(7) e1 old_def by (rule A(3))
      ultimately show ?thesis using P1(1,4) P(1-4) af(1) by auto
    qed
  qed
qed

subsection \<open>Reading a range\<close>

lemma read_history_sector_list:
  assumes "ok d" and "region d n" and "i < n" and "rh_state (hdr (blk d) i) \<noteq> RB_EMPTY" and "pos < hk_cap K"
  shows "read_history K S d i pos m out = (STRG_OK, out @ take (m - length out) (rev (take (pos + 1) (ents (blk d) i))))"
proof -
  have "copy_down m (ents (blk d) i) (int pos) out = out @ take (m - length out) (rev (take (pos + 1) (ents (blk d) i)))"
    using copy_down_eq [of "pos + 1" "ents (blk d) i" m out] entries_length [OF assms(1-3)] assms(5) by simp
  then show ?thesis using read_sector_of_ring(1) [OF assms(1-3)] assms(4) by (simp add: read_history_def)
qed

lemma range_loop:
  assumes d: "ok d" and r: "region d (rb_size rb)" and f: "ring_full (hk_cap K) (hdr (blk d)) rb" and o: "rb_occupancy rb \<noteq> 0"
  shows "0 < k \<Longrightarrow> k \<le> rb_occupancy rb \<Longrightarrow> lim - v = int (rb_occupancy rb) - int k \<Longrightarrow>
    rc_lower_lim ctx = 0 \<Longrightarrow> rc_upper_lim ctx = rb_occupancy rb - 1 \<Longrightarrow> (k < rb_occupancy rb \<Longrightarrow> rc_current ctx = ring_nth rb k) \<Longrightarrow>
    history_range_loop K S d ctx n v lim out = (STRG_OK, out @ take (n - length out)
      (concat (map (\<lambda>k. sector_list (hdr (blk d)) (ents (blk d)) (ring_nth rb k)) [k..<rb_occupancy rb])))"
proof (induction "rb_occupancy rb - k" arbitrary: k v ctx out)
  case 0
  then show ?case by (subst history_range_loop.simps) simp
next
  case (Suc m)
  let ?i = "ring_nth rb k" and ?sl = "sector_list (hdr (blk d)) (ents (blk d))"
  have k: "k < rb_occupancy rb" "v < lim" using Suc by simp_all
  have sh: "rb_current_index rb < rb_occupancy rb" "rb_occupancy rb \<le> rb_size rb"
    using f o by (auto simp: ring_full_def ring_shape_def)
  have i: "?i < rb_occupancy rb" "?i \<noteq> rb_current_index rb" "rc_current ctx = ?i"
    using ring_nth_bounds [of rb k] ring_nth_inj [of rb k 0] k sh Suc.prems by (auto simp: ring_nth_def)
  have st: "rh_state (hdr (blk d) ?i) = RB_FULL" "rh_head (hdr (blk d) ?i) = hk_cap K - 1"
    using f o i by (simp_all add: ring_full_def)
  show ?case
  proof (cases "length out < n")
    case True
    have n': "?i < rb_size rb" using i sh by simp
    have rd: "read_history K S d ?i (hk_cap K - 1) n out = (STRG_OK, out @ take (n - length out) (?sl ?i))"
      using read_history_sector_list [OF d r n', of "hk_cap K - 1" n out] st cap by (simp add: sector_list_def)
    have g: "ring_iterator_get ctx = Some ?i" using i Suc.prems(4,5) by (simp add: ring_iterator_get_def)
    define ctx' where "ctx' = snd (ring_iterator_prev ctx)"
    have pv: "ring_iterator_prev ctx = (True, ctx')" by (simp add: ctx'_def ring_iterator_prev_def)
    have c': "rc_lower_lim ctx' = 0" "rc_upper_lim ctx' = rb_occupancy rb - 1"
      "k + 1 < rb_occupancy rb \<Longrightarrow> rc_current ctx' = ring_nth rb (k + 1)"
      using Suc.prems(4,5) i(3) k sh by (auto simp: ctx'_def ring_iterator_prev_def ring_nth_def)
    have "history_range_loop K S d ctx n v lim out =
        history_range_loop K S d ctx' n (v + 1) lim (out @ take (n - length out) (?sl ?i))"
      using True k(2) g rd pv by (subst history_range_loop.simps) simp
    also have "\<dots> = (STRG_OK, (out @ take (n - length out) (?sl ?i)) @ take (n - length (out @ take (n - length out) (?sl ?i)))
        (concat (map (\<lambda>k. ?sl (ring_nth rb k)) [k + 1..<rb_occupancy rb])))"
      using Suc.hyps(2) Suc.prems c' k by (intro Suc.hyps(1)) simp_all
    finally show ?thesis using k by (simp add: upt_conv_Cons [of k] min_def)
  next
    case False
    then show ?thesis by (subst history_range_loop.simps) simp
  qed
qed

theorem history_get_range_ring:
  assumes d: "ok d" and r: "region d (rb_size rb)" and n: "rb_size rb \<le> 65535" and f: "ring_full (hk_cap K) (hdr (blk d)) rb"
    and small: "(start - 1) div hk_cap K < 2147483647"
  defines "L \<equiv> ring_list (hdr (blk d)) (ents (blk d)) rb"
  shows "history_get_range K S d rb start m =
    (if rb_occupancy rb = 0 then (STRG_OK, [])
     else if start < length L then (STRG_OK, take m (drop start L)) else (STRG_FAIL, []))"
proof -
  let ?H = "hdr (blk d)" and ?E = "ents (blk d)" and ?c = "rb_current_index rb" and ?o = "rb_occupancy rb"
  let ?sl = "sector_list ?H ?E"
  have n0: "0 < rb_size rb" using r by (simp add: ring_region_def)
  have sh: "ring_shape ?H rb" using f by (simp add: ring_full_def)
  note len = entries_length [OF d r]
  show ?thesis
  proof (cases "?o = 0")
    case True
    then have "?c = 0" "rh_state (?H 0) = RB_EMPTY" using sh n0 by (simp_all add: ring_shape_def)
    then show ?thesis using read_sector_of_ring(1) [OF d r n0] True by (simp add: history_get_range_def)
  next
    case o: False
    have c: "?c < ?o" "?o \<le> rb_size rb" using sh o by (auto simp: ring_shape_def)
    have st: "rh_state (?H ?c) = RB_OCCUPIED" "rh_head (?H ?c) < hk_cap K" using f o by (simp_all add: ring_full_def)
    define cnt where "cnt = rh_head (?H ?c) + 1"
    note ll = ring_list_length [where E = ?E, OF f o cap(1) len, folded cnt_def L_def]
    define rem where "rem = start - cnt"
    define num where "num = (if start < cnt then 0 else 1 + rem div hk_cap K)"
    define pos where "pos = (if start < cnt then to_u8 (rh_head (?H ?c) - start) else to_u8 (hk_cap K - 1 - rem mod hk_cap K))"
    define i0 where "i0 = int ?c - int num"
    define i where "i = (if i0 < 0 then int ?o + i0 else i0)"
    have cs: "?c < rb_size rb" using c by simp
    have ne: "(rh_state (?H ?c) = RB_EMPTY) = False" using st by simp
    have "rem div hk_cap K \<le> (start - 1) div hk_cap K" by (simp add: rem_def cnt_def div_le_mono)
    then have num_int: "(if start < cnt then 0 else to_i32 (1 + rem div hk_cap K)) = int num" using small by (simp add: num_def)
    have "history_get_range K S d rb start m = (if int num \<ge> int ?o then (STRG_FAIL, [])
        else let (ret, ctx, out) = read_first_sector K S d (ring_buffer_iterator_init rb (nat i)) pos m []
          in if ret \<noteq> STRG_OK then (ret, out) else history_range_loop K S d ctx m 1 (int ?o - int num) out)"
      by (simp only: history_get_range_def read_sector_of_ring(1) [OF d r cs] sum.case ne if_False Let_def
          num_int [symmetric] pos_def rem_def cnt_def i0_def i_def)
    then have unf: "history_get_range K S d rb start m = (if num \<ge> ?o then (STRG_FAIL, [])
        else let (ret, ctx, out) = read_first_sector K S d (ring_buffer_iterator_init rb (nat i)) pos m []
          in if ret \<noteq> STRG_OK then (ret, out) else history_range_loop K S d ctx m 1 (int ?o - int num) out)"
      by simp
    show ?thesis
    proof (cases "num \<ge> ?o")
      case True
      then have "start \<ge> cnt" "?o - 1 \<le> rem div hk_cap K" using o by (auto simp: num_def split: if_splits)
      then have "(?o - 1) * hk_cap K \<le> rem" using cap by (simp add: less_eq_div_iff_mult_less_eq)
      then have "\<not> start < length L" using ll(3) \<open>start \<ge> cnt\<close> by (simp add: rem_def)
      then show ?thesis using True o unf by simp
    next
      case lt: False
      have i: "nat i = ring_nth rb num" "ring_nth rb num < ?o"
        using lt c ring_nth_bounds [of rb num] by (auto simp: i_def i0_def ring_nth_def)
      let ?s = "ring_nth rb num"
      have pos: "pos < hk_cap K" using cap st(2) by (auto simp: pos_def cnt_def)
      have s: "rh_state (?H ?s) \<noteq> RB_EMPTY" "?s < rb_size rb" using i sh o c by (auto simp: ring_shape_def)
      define ctx where "ctx = ring_buffer_iterator_init rb (nat i)"
      have ctx: "rc_current ctx = ?s" "rc_lower_lim ctx = 0" "rc_upper_lim ctx = ?o - 1"
        using i s(2) n o by (simp_all add: ctx_def ring_buffer_iterator_init_def)
      let ?out = "take m (rev (take (pos + 1) (?E ?s)))"
      define ctx' where "ctx' = snd (ring_iterator_prev ctx)"
      have pv: "ring_iterator_prev ctx = (True, ctx')" by (simp add: ctx'_def ring_iterator_prev_def)
      have c': "rc_lower_lim ctx' = 0" "rc_upper_lim ctx' = ?o - 1" "num + 1 < ?o \<Longrightarrow> rc_current ctx' = ring_nth rb (num + 1)"
        using ctx c by (auto simp: ctx'_def ring_iterator_prev_def ring_nth_def)
      have "read_history K S d ?s pos m [] = (STRG_OK, ?out)"
        using read_history_sector_list [OF d r s(2,1) pos, of m "[]"] by simp
      then have rf: "read_first_sector K S d ctx pos m [] = (STRG_OK, ctx', ?out)"
        using ctx i pv by (simp add: read_first_sector_def ring_iterator_get_def)
      have "history_range_loop K S d ctx' m 1 (int ?o - int num) ?out = (STRG_OK, ?out @ take (m - length ?out)
          (concat (map (\<lambda>k. ?sl (ring_nth rb k)) [num + 1..<?o])))"
        using c' lt by (intro range_loop [OF d r f o]) simp_all
      also have "?out @ take (m - length ?out) (concat (map (\<lambda>k. ?sl (ring_nth rb k)) [num + 1..<?o])) =
          take m (rev (take (pos + 1) (?E ?s)) @ concat (map (\<lambda>k. ?sl (ring_nth rb k)) [num + 1..<?o]))"
        by (simp add: min_def)
      finally have fin: "history_range_loop K S d ctx' m 1 (int ?o - int num) ?out = (STRG_OK, take m (rev (take (pos + 1) (?E ?s)) @
          concat (map (\<lambda>k. ?sl (ring_nth rb k)) [num + 1..<?o])))" .
      have dr: "rev (take (pos + 1) (?E ?s)) @ concat (map (\<lambda>k. ?sl (ring_nth rb k)) [num + 1..<?o]) = drop start L \<and> start < length L"
      proof (cases "start < cnt")
        case True
        have "num = 0" "?s = ?c" "pos = rh_head (?H ?c) - start"
          using True st(2) cap by (simp_all add: num_def ring_nth_def pos_def cnt_def)
        moreover from this have "rev (take (pos + 1) (?E ?c)) = drop start (?sl ?c)"
          using True st(2) len [OF cs] rev_take_drop [of start "rh_head (?H ?c)" "?E ?c"] by (simp add: sector_list_def cnt_def)
        ultimately show ?thesis using True ll(1,3) ring_list_Cons [OF o, of ?H ?E] by (simp add: L_def)
      next
        case False
        have num: "num = 1 + rem div hk_cap K" "pos = hk_cap K - 1 - rem mod hk_cap K" "start = cnt + rem"
          using False cap by (simp_all add: num_def pos_def rem_def)
        have rm: "rem mod hk_cap K < hk_cap K" using cap by simp
        have "rh_head (?H ?s) = hk_cap K - 1"
          using f o i ring_nth_inj [of rb num 0] num(1) lt c by (auto simp: ring_full_def ring_nth_def split: if_splits)
        then have "?sl ?s = rev (?E ?s)" using len [OF s(2)] cap by (simp add: sector_list_def)
        moreover have "rev (take (pos + 1) (?E ?s)) = drop (rem mod hk_cap K) (rev (?E ?s))"
          using len [OF s(2)] rm num(2) by (simp add: drop_rev Suc_diff_Suc)
        ultimately have e: "rev (take (pos + 1) (?E ?s)) = drop (rem mod hk_cap K) (?sl ?s)" by simp
        have "drop (rem div hk_cap K * hk_cap K + rem mod hk_cap K) (concat (map (\<lambda>k. ?sl (ring_nth rb k)) [1..<?o])) =
            drop (rem mod hk_cap K) (?sl (ring_nth rb (1 + rem div hk_cap K))) @
            concat (map (\<lambda>k. ?sl (ring_nth rb k)) [1 + rem div hk_cap K + 1..<?o])"
          using ll(2) lt num(1) rm by (intro drop_concat_blocks) simp_all
        then have "drop start L = drop (rem mod hk_cap K) (?sl ?s) @ concat (map (\<lambda>k. ?sl (ring_nth rb k)) [num + 1..<?o])"
          using ring_list_Cons [OF o, of ?H ?E] ll(1) num by (simp add: L_def)
        moreover have "rem < (?o - 1) * hk_cap K" using lt num(1) cap by (simp add: less_diff_conv flip: div_less_iff_less_mult)
        ultimately show ?thesis using e ll(3) num(3) by simp
      qed
      show ?thesis using lt o unf rf fin [unfolded conjunct1 [OF dr]] dr by (simp add: ctx_def [symmetric])
    qed
  qed
qed

text \<open>After a restart the ring is where it was.\<close>

lemma history_restart:
  assumes "ok d" and "region d (rb_size rb)" and "rb_size rb \<le> 65535" and "ring_full (hk_cap K) (hdr (blk d)) rb"
  shows "init_ring_buffer S d rb0 (rb_size rb) base = (True, rb)"
proof -
  have "ring_on_card (blk d) base rb" using assms(4) by (simp add: ring_on_card_def ring_header_hdr ring_full_def)
  then show ?thesis using reconstruct_ring [OF assms(1,2), of "rb0\<lparr>rb_size := rb_size rb\<rparr>"] assms(2,3)
    by (simp add: init_ring_buffer_def ring_region_def)
qed

text \<open>An empty ring.\<close>

lemma history_cleared:
  assumes "ok d" and "0 < n" and "base + n \<le> capacity S d" and "base + n \<le> 65536"
  shows "\<exists>d'. clear_ring_buffer S d base n = (STRG_OK, d') \<and> ok d' \<and> capacity S d' = capacity S d \<and> region d' n \<and>
    ring_full (hk_cap K) (hdr (blk d')) \<lparr>rb_seq = 0, rb_size = n, rb_current_index = 0, rb_occupancy = 0\<rparr> \<and>
    (\<forall>k. k < base \<or> base + n \<le> k \<longrightarrow> blk d' k = blk d k)"
  using clear_ring [OF assms] by (simp add: ring_full_def ring_on_card_def ring_header_hdr)

subsection \<open>The contract, as the clients use it\<close>

lemma add_spec:
  assumes "pers_ok S ok blk p" and "history_ok K (blk (dev p)) (capacity S (dev p)) rb" and "entry_wf e"
  shows "\<exists>rb' p'. history_add K S p rb e = Some (STRG_OK, rb', p') \<and> pers_ok S ok blk p' \<and>
    usage_bitmap p' = usage_bitmap p \<and> rb_size rb' = rb_size rb \<and> history_ok K (blk (dev p')) (capacity S (dev p')) rb' \<and>
    history_list K (blk (dev p')) rb' = e # take (length (history_list K (blk (dev p)) rb) -
      (if history_wraps K (blk (dev p)) rb then hk_cap K else 0)) (history_list K (blk (dev p)) rb) \<and>
    outside_same base (rb_size rb) (blk (dev p)) (blk (dev p'))"
  using history_add_ring [of p rb e] assms
  unfolding history_ok_def history_list_def history_wraps_def by metis

lemma range_spec:
  assumes "ok d" and "history_ok K (blk d) (capacity S d) rb" and "(start - 1) div hk_cap K < 2147483647"
  shows "history_get_range K S d rb start n =
    (if rb_occupancy rb = 0 then (STRG_OK, [])
     else if start < length (history_list K (blk d) rb) then (STRG_OK, take n (drop start (history_list K (blk d) rb)))
     else (STRG_FAIL, []))"
  using history_get_range_ring [of d rb] assms unfolding history_ok_def history_list_def by simp

text \<open>A start \<open>2 ^ 32\<close> sectors further on is narrowed to the same number of sectors.\<close>

lemma range_narrowed:
  assumes "ok d" and "history_ok K (blk d) (capacity S d) rb" and "rh_head (hdr (blk d) (rb_current_index rb)) < start"
  shows "history_get_range K S d rb (start + hk_cap K * 2 ^ 32) n = history_get_range K S d rb start n"
proof (cases "rb_current_index rb < rb_size rb")
  case True
  have r: "region d (rb_size rb)" using assms(2) by (simp add: history_ok_def)
  let ?h = "rh_head (hdr (blk d) (rb_current_index rb)) + 1" and ?big = "start + hk_cap K * 4294967296"
  have e: "?big - ?h = start - ?h + 4294967296 * hk_cap K" using assms(3) by simp
  have "(?big - ?h) div hk_cap K = (start - ?h) div hk_cap K + 4294967296" "(?big - ?h) mod hk_cap K = (start - ?h) mod hk_cap K"
    unfolding e using cap div_mult_self1 [of "hk_cap K" "start - ?h" 4294967296] mod_mult_self1 [of "start - ?h" 4294967296 "hk_cap K"]
    by simp_all
  moreover from this have "to_i32 (1 + (?big - ?h) div hk_cap K) = to_i32 (1 + (start - ?h) div hk_cap K)"
    using to_i32_wraps [of "1 + (start - ?h) div hk_cap K"] by (simp add: add.assoc)
  moreover have "start < ?h \<longleftrightarrow> False" "?big < ?h \<longleftrightarrow> False" using assms(3) by simp_all
  moreover have "(2 :: nat) ^ 32 = 4294967296" by simp
  ultimately show ?thesis
    by (simp only: history_get_range_def read_sector_of_ring(1) [OF assms(1) r True] sum.case Let_def if_False)
next
  case False
  have "ring_shape (hdr (blk d)) rb" using assms(2) by (simp add: history_ok_def ring_full_def)
  then show ?thesis using False assms(2) by (auto simp: ring_shape_def history_ok_def ring_region_def split: if_splits)
qed

lemma restart_spec:
  "ok d \<Longrightarrow> history_ok K (blk d) (capacity S d) rb \<Longrightarrow> init_ring_buffer S d rb0 (rb_size rb) base = (True, rb)"
  using history_restart [of d rb rb0] unfolding history_ok_def by simp

lemma list_length:
  assumes "ok d" and "history_ok K (blk d) (capacity S d) rb" and "rb_occupancy rb \<noteq> 0"
  shows "length (history_list K (blk d) rb) = rh_head (hdr (blk d) (rb_current_index rb)) + 1 + (rb_occupancy rb - 1) * hk_cap K"
    and "rh_head (hdr (blk d) (rb_current_index rb)) < hk_cap K"
proof -
  have f: "ring_full (hk_cap K) (hdr (blk d)) rb" and r: "region d (rb_size rb)" using assms(2) by (simp_all add: history_ok_def)
  show "length (history_list K (blk d) rb) = rh_head (hdr (blk d) (rb_current_index rb)) + 1 + (rb_occupancy rb - 1) * hk_cap K"
    using ring_list_length(3) [where E = "ents (blk d)", OF f assms(3) cap(1) entries_length [OF assms(1) r]]
    by (simp add: history_list_def)
  show "rh_head (hdr (blk d) (rb_current_index rb)) < hk_cap K" using f assms(3) by (simp add: ring_full_def)
qed

lemma list_empty:
  assumes "ok d" and "history_ok K (blk d) (capacity S d) rb"
  shows "history_list K (blk d) rb = [] \<longleftrightarrow> rb_occupancy rb = 0"
proof (cases "rb_occupancy rb = 0")
  case False
  then have "0 < length (history_list K (blk d) rb)" unfolding list_length(1) [OF assms False] by simp
  then show ?thesis using False by simp
qed (simp add: history_list_def ring_list_def)

text \<open>A restart between the two journalled writes of an addition that moves on: the sector that was
  just marked full is taken for one of the round before, and the addition overwrites it.\<close>

lemma restart_between_writes:
  assumes p: "pers_ok S ok blk p" and h: "history_ok K (blk (dev p)) (capacity S (dev p)) rb" and e: "entry_wf e"
    and o: "rb_occupancy rb \<noteq> 0" and full: "rh_head (hdr (blk (dev p)) (rb_current_index rb)) = hk_cap K - 1"
  shows "\<exists>buf pa p1 p2. journal_add S p (hk_jrnl K) (to_u16 (hk_start K + rb_current_index rb))
      (history_sector_bytes K (sec (blk (dev p)) (rb_current_index rb))) = (True, buf, pa) \<and>
    set_sector_full_move_next K S pa rb (history_sector_of K buf) = (STRG_OK, advance rb, p1) \<and>
    init_ring_buffer S (dev p1) rb0 (rb_size rb) base = (True, rb) \<and>
    history_add K S p1 rb e = Some (STRG_OK, rb, p2) \<and>
    history_list K (blk (dev p2)) rb = e # drop (hk_cap K) (history_list K (blk (dev p)) rb)"
proof -
  let ?c = "rb_current_index rb" and ?H = "hdr (blk (dev p))" and ?E = "ents (blk (dev p))"
  have r: "region (dev p) (rb_size rb)" and n: "rb_size rb \<le> 65535" and f: "ring_full (hk_cap K) ?H rb"
    using h by (simp_all add: history_ok_def)
  have d: "ok (dev p)" using p by (simp add: pers_ok_def)
  have sh: "ring_shape ?H rb" using f by (simp add: ring_full_def)
  have c: "?c < rb_size rb" "?c < rb_occupancy rb" "rb_seq rb < 2 ^ 32" using sh o by (auto simp: ring_shape_def)
  note rd = read_sector_of_ring [OF d r c(1)]
  let ?s = "sec (blk (dev p)) ?c"
  have wf: "sector_wf (?s\<lparr>hs_header := (hs_header ?s)\<lparr>rh_state := RB_FULL\<rparr>\<rparr>)"
    using rd(4) by (simp add: sector_wf_def ring_buffer_header_wf_def)
  obtain pa p1 where w: "journal_add S p (hk_jrnl K) (to_u16 (hk_start K + ?c)) (history_sector_bytes K ?s) =
      (True, blk (dev p) (base + ?c), pa)"
    "write_and_free K S pa ?c (?s\<lparr>hs_header := (hs_header ?s)\<lparr>rh_state := RB_FULL\<rparr>\<rparr>) = (STRG_OK, p1)"
    "pers_ok S ok blk p1" "region (dev p1) (rb_size rb)" "only_changed (base + ?c) (blk (dev p)) (blk (dev p1))"
    "hdr (blk (dev p1)) ?c = (hs_header ?s)\<lparr>rh_state := RB_FULL\<rparr>" "ents (blk (dev p1)) ?c = hs_entries ?s"
    by (rule write_and_free_step [OF p r c(1) wf]) simp
  have s: "history_sector_of K (blk (dev p) (base + ?c)) = ?s" by (simp add: history_sec_def)
  have mv: "set_sector_full_move_next K S pa rb (history_sector_of K (blk (dev p) (base + ?c))) = (STRG_OK, advance rb, p1)"
    using w(2) unfolding s by (simp add: set_sector_full_move_next_def advance_def)
  note H1 = step_hdr(1) [OF w(5-7)] and E1 = step_hdr(2) [OF w(5-7)]
  have sh1: "ring_shape (hdr (blk (dev p1))) rb"
    using sh o c unfolding H1 by (auto simp: ring_shape_def)
  have "ok (dev p1)" using w(3) by (simp add: pers_ok_def)
  then have init: "init_ring_buffer S (dev p1) rb0 (rb_size rb) base = (True, rb)"
    using reconstruct_ring [of "dev p1" base rb "rb0\<lparr>rb_size := rb_size rb\<rparr>"] w(4) sh1 n r
    by (simp add: init_ring_buffer_def ring_region_def ring_on_card_def ring_header_hdr)
  have st: "rh_state (hdr (blk (dev p1)) ?c) = RB_EMPTY \<or> rh_state (hdr (blk (dev p1)) ?c) = RB_FULL" using w(6) by simp
  obtain p2 where P: "history_add K S p1 rb e = Some (STRG_OK, rb, p2)"
      "hdr (blk (dev p2)) = (hdr (blk (dev p1)))(?c := fresh_header (rb_seq rb) (hdr (blk (dev p1)) ?c))"
      "ents (blk (dev p2)) = (ents (blk (dev p1)))(?c := (ents (blk (dev p1)) ?c)[0 := e])"
    by (rule history_add_fresh [OF w(3,4) e c(1) o c(3) st])
  have oth: "sector_list (hdr (blk (dev p2))) (ents (blk (dev p2))) (ring_nth rb k) = sector_list ?H ?E (ring_nth rb k)"
    if "0 < k" "k < rb_occupancy rb" for k
  proof -
    have "ring_nth rb k \<noteq> ?c" using ring_nth_inj [of rb k 0] that c(2) by (auto simp: ring_nth_def)
    then show ?thesis unfolding P(2,3) H1 E1 by (simp add: sector_list_def)
  qed
  have m: "map (\<lambda>k. sector_list (hdr (blk (dev p2))) (ents (blk (dev p2))) (ring_nth rb k)) [1..<rb_occupancy rb] =
      map (\<lambda>k. sector_list ?H ?E (ring_nth rb k)) [1..<rb_occupancy rb]"
    by (intro map_cong) (simp_all add: oth)
  have l: "length (?E ?c) = hk_cap K" by (rule entries_length [OF d r c(1)])
  then have "take 1 ((?E ?c)[0 := e]) = [e]" using cap by (cases "?E ?c") simp_all
  then have c2: "sector_list (hdr (blk (dev p2))) (ents (blk (dev p2))) ?c = [e]"
    unfolding P(2,3) by (simp add: sector_list_def fresh_header_def w(7))
  have "length (sector_list ?H ?E ?c) = hk_cap K" using l full cap by (simp add: sector_list_def)
  note cur = c2 this
  have "history_list K (blk (dev p2)) rb = e # drop (hk_cap K) (history_list K (blk (dev p)) rb)"
    unfolding history_list_def ring_list_Cons [OF o] m cur(1) using cur(2) by simp
  then show ?thesis using w(1) mv init P(1) by blast
qed

end

subsection \<open>The two histories\<close>

definition message_history_entry_wf :: "MessageHistoryEntry \<Rightarrow> bool" where
  "message_history_entry_wf e \<longleftrightarrow> mh_msgInd e < 65536 \<and> message_wf (mh_message e)"

definition call_history_entry_wf :: "CallHistoryEntry \<Rightarrow> bool" where
  "call_history_entry_wf e \<longleftrightarrow> ch_contact_index e < 65536 \<and> contact_wf (ch_contact e)"

interpretation msg_hist: history message_history_kind message_history_entry_wf heap_storage heap_ok heap_blk
proof unfold_locales
  show "message_history_entry_wf e \<Longrightarrow> length (hk_enc message_history_kind e) = hk_entry_bytes message_history_kind \<and>
      hk_dec message_history_kind (hk_enc message_history_kind e) = e" for e
    using length_message_bytes [of "mh_message e"] message_of_bytes [of "mh_message e"]
    by (simp add: message_history_kind_def message_history_entry_wf_def message_history_entry_of_def message_history_entry_bytes_def
        rd16_le16 slice_prefix layout)
  show "length b = hk_entry_bytes message_history_kind \<Longrightarrow> message_history_entry_wf (hk_dec message_history_kind b) \<and>
      hk_enc message_history_kind (hk_dec message_history_kind b) = b" for b
    using message_wf_of [of "slice 2 166 b"] message_bytes_of [of "slice 2 166 b"]
    by (simp add: message_history_kind_def message_history_entry_wf_def message_history_entry_of_def message_history_entry_bytes_def
        le16_rd16 rd16_less slice_join layout)
qed (simp_all add: message_history_kind_def layout)

interpretation call_hist: history call_history_kind call_history_entry_wf heap_storage heap_ok heap_blk
proof unfold_locales
  show "call_history_entry_wf e \<Longrightarrow> length (hk_enc call_history_kind e) = hk_entry_bytes call_history_kind \<and>
      hk_dec call_history_kind (hk_enc call_history_kind e) = e" for e
    using length_contact_bytes [of "ch_contact e"] contact_of_bytes [of "ch_contact e"]
    by (simp add: call_history_kind_def call_history_entry_wf_def call_history_entry_of_def call_history_entry_bytes_def
        rd16_le16 slice_prefix layout nth_append)
  show "length b = hk_entry_bytes call_history_kind \<Longrightarrow> call_history_entry_wf (hk_dec call_history_kind b) \<and>
      hk_enc call_history_kind (hk_dec call_history_kind b) = b" for b
  proof -
    assume "length b = hk_entry_bytes call_history_kind"
    then have b: "length b = 84" by (simp add: call_history_kind_def layout)
    then have "[b ! 83] = slice 83 1 b" by (simp add: slice_as_nth)
    moreover have "slice 0 2 b @ slice 2 81 b @ slice 83 1 b = b" using b by (simp add: slice_join)
    moreover have "contact_wf (contact_of (slice 2 81 b))" "contact_bytes (contact_of (slice 2 81 b)) = slice 2 81 b"
      using b contact_wf_of [of "slice 2 81 b"] contact_bytes_of [of "slice 2 81 b"] by simp_all
    ultimately show ?thesis using b
      by (simp add: call_history_kind_def call_history_entry_wf_def call_history_entry_of_def call_history_entry_bytes_def
          le16_rd16 rd16_less layout)
  qed
qed (simp_all add: call_history_kind_def layout)

end
