(* ===== verification/Formatted.thy ===== *)
theory Formatted
  imports Contact Message Superheader History
begin

text \<open>
  A concrete card for the witnesses: a blank heap-backed card of exactly the database's size, and the
  persistent state after the bitmap and the journal header have been initialised on it with the
  program's own operations.  Nothing here models code; the lemmas say that this state meets the
  hypotheses of the properties.
\<close>

definition blank_card :: HeapStorageContext where
  "blank_card = \<lparr>memory = replicate ((DATA_REGION_START_SECTOR + TOTAL_DATABASE_SECTOR_SIZE) * SECTOR_SIZE) 0,
     block_size = SECTOR_SIZE, capacity_blocks = DATA_REGION_START_SECTOR + TOTAL_DATABASE_SECTOR_SIZE\<rparr>"

definition blank_journal :: Journal where
  "blank_journal = \<lparr>j_header = journal_header_zero, j_content = replicate SECTOR_SIZE 0,
     j_usage_bitmap_sector = replicate SECTOR_SIZE 0\<rparr>"

definition formatted :: "HeapStorageContext pers" where
  "formatted = \<lparr>dev = snd (journal_header_init heap_storage (fst (snd (init_usage_bitmap heap_storage blank_card)))),
     usage_bitmap = snd (snd (init_usage_bitmap heap_storage blank_card)), journal = blank_journal\<rparr>"

lemma blank_card_ok: "heap_ok blank_card" "capacity heap_storage blank_card = 40265"
  by (simp_all add: heap_ok_def blank_card_def layout heap_storage_def HeapStorage_Capacity_def)

context reliable_store begin

lemma journal_header_init_idle:
  assumes "ok d" and "JRNL_HEADER_SECTOR < capacity S d"
  shows "\<exists>d'. journal_header_init S d = (True, d') \<and> ok d' \<and> capacity S d' = capacity S d \<and> journal_idle (blk d') \<and>
    (\<forall>k. k \<noteq> JRNL_HEADER_SECTOR \<longrightarrow> blk d' k = blk d k)"
proof -
  let ?h = "journal_header_zero\<lparr>jh_magic := JRNL_MAGIC, jh_state := JRNL_EMPTY, jh_type := 0, jh_sector := 0\<rparr>"
  have wf: "journal_header_wf ?h" by (simp add: journal_header_wf_def journal_header_zero_def)
  note l = length_journal_header_bytes [OF wf]
  obtain d' where w: "write_sector S d JRNL_HEADER_SECTOR (journal_header_bytes ?h) =
      (STRG_OK, sector_crc_stamp (journal_header_bytes ?h), d')"
    and d': "ok d'" "capacity S d' = capacity S d"
      "blk d' = (blk d)(JRNL_HEADER_SECTOR := sector_crc_stamp (journal_header_bytes ?h))"
    by (rule write_sector_in_range [OF assms _ l]) (auto simp: layout)
  have "journal_idle (blk d')"
    using l journal_header_of_stamp [OF l] journal_header_of_bytes [OF wf] by (simp add: journal_idle_def d'(3))
  then show ?thesis using w d' by (simp add: journal_header_init_def journal_write_sector_def del: JRNL_MAGIC_def JRNL_EMPTY_def)
qed

end

lemma formatted_ok: "pers_ok heap_storage heap_ok heap_blk formatted"
  and formatted_unused: "\<not> used (usage_bitmap formatted) i"
proof -
  obtain r d1 bm where i: "init_usage_bitmap heap_storage blank_card = (r, d1, bm)" by (metis prod_cases3)
  have I: "heap_ok d1" "capacity heap_storage d1 = 40265" "\<forall>i. \<not> used bm i" "r \<Longrightarrow> bitmap_synced (heap_blk d1) bm"
    using heapm.init_usage_bitmap_step [OF blank_card_ok(1) i] blank_card_ok(2) by auto
  have r: r
    using i heapm.init_usage_bitmap_reliable [OF blank_card_ok(1)] blank_card_ok(2) by (simp add: layout)
  have "JRNL_HEADER_SECTOR < capacity heap_storage d1" using I(2) by (simp add: layout)
  from heap.journal_header_init_idle [OF I(1) this] obtain d2
    where h: "journal_header_init heap_storage d1 = (True, d2)" "heap_ok d2" "capacity heap_storage d2 = 40265"
      "journal_idle (heap_blk d2)" "\<forall>k. k \<noteq> JRNL_HEADER_SECTOR \<longrightarrow> heap_blk d2 k = heap_blk d1 k"
    using I(2) by auto
  have f: "formatted = \<lparr>dev = d2, usage_bitmap = bm, journal = blank_journal\<rparr>"
    by (simp add: formatted_def i h(1))
  have "same_data (heap_blk d1) (heap_blk d2)" using h(5) by (simp add: same_data_def)
  then have "bitmap_synced (heap_blk d2) bm" using I(4) [OF r] synced_same_data by blast
  then show "pers_ok heap_storage heap_ok heap_blk formatted"
    using h by (simp add: f pers_ok_def layout)
  show "\<not> used (usage_bitmap formatted) i" using I(3) by (simp add: f)
qed

lemma formatted_contacts: "contacts_valid blk (usage_bitmap formatted)"
  "contact_at blk (usage_bitmap formatted) slot = None"
  by (simp_all add: contacts_valid_def contact_at_def formatted_unused)

lemma formatted_device: "heap_ok (dev formatted)" "capacity heap_storage (dev formatted) \<ge> 40265"
  using formatted_ok by (simp_all add: pers_ok_def layout)

text \<open>The same card behind the fault model, with \<open>n\<close> writes left.\<close>

definition formatted_cut :: "nat \<Rightarrow> HeapStorageContext PowerCut pers" where
  "formatted_cut n = \<lparr>dev = \<lparr>card = dev formatted, writes_left = n\<rparr>, usage_bitmap = usage_bitmap formatted,
     journal = blank_journal\<rparr>"

lemma formatted_cut_ok:
  "pers_ok (power_cut heap_storage) (\<lambda>p. heap_ok (card p)) (\<lambda>p. heap_blk (card p)) (formatted_cut n)"
  using formatted_ok by (simp add: formatted_cut_def pers_ok_def power_cut_def)

text \<open>Any state behind the fault model, and a card that holds a chat of one message.\<close>

definition cut_of :: "nat \<Rightarrow> HeapStorageContext pers \<Rightarrow> HeapStorageContext PowerCut pers" where
  "cut_of n p = \<lparr>dev = \<lparr>card = dev p, writes_left = n\<rparr>, usage_bitmap = usage_bitmap p, journal = journal p\<rparr>"

lemma cut_of_ok:
  "pers_ok heap_storage heap_ok heap_blk p \<Longrightarrow>
   pers_ok (power_cut heap_storage) (\<lambda>p. heap_ok (card p)) (\<lambda>p. heap_blk (card p)) (cut_of n p)"
  by (simp add: cut_of_def pers_ok_def power_cut_def)

lemma cut_of_fields [simp]: "card (dev (cut_of n p)) = dev p" "usage_bitmap (cut_of n p) = usage_bitmap p"
  by (simp_all add: cut_of_def)

definition one_chat :: "Message \<Rightarrow> HeapStorageContext pers" where
  "one_chat m = snd (write_new_message_sector heap_storage formatted 7 0 m)"

lemma one_chat_props:
  assumes "message_wf m"
  shows "pers_ok heap_storage heap_ok heap_blk (one_chat m)"
    and "chat (heap_blk (dev (one_chat m))) (usage_bitmap (one_chat m)) 0 [0]"
    and "chat_msgs (heap_blk (dev (one_chat m))) [0] = [m]"
    and "used (usage_bitmap (one_chat m)) j \<longleftrightarrow> j = MESSAGE_DATA_SECTOR 0"
proof -
  have z: "0 < TOTAL_MESSAGE_SECTOR_SIZE" by (simp add: layout)
  have "\<not> check_usage_bit (usage_bitmap formatted) (msg_sector 0)"
    using check_usage_bit_used [OF msg_sector_bounds(1) [OF z]] by (simp add: layout formatted_unused)
  then have w: "store_message heap_storage formatted 0 0 m (create_new_message_sector 7 UINT16_MAX) =
      (fst (write_new_message_sector heap_storage formatted 7 0 m), one_chat m)"
    by (simp add: write_new_message_sector_def one_chat_def)
  note st = heap.write_new_message_sector_chat [OF formatted_ok z formatted_unused assms _ _ w, of "[]"]
  show "pers_ok heap_storage heap_ok heap_blk (one_chat m)"
    and "chat (heap_blk (dev (one_chat m))) (usage_bitmap (one_chat m)) 0 [0]"
    and "chat_msgs (heap_blk (dev (one_chat m))) [0] = [m]"
    and "used (usage_bitmap (one_chat m)) j \<longleftrightarrow> j = MESSAGE_DATA_SECTOR 0"
    using st by (simp_all add: formatted_unused chat_msgs_simps(1) del: chat.simps chat_msgs_simps(2))
qed

text \<open>The same card with an empty history on it.\<close>

definition empty_ring :: "nat \<Rightarrow> RingBuffer" where
  "empty_ring n = \<lparr>rb_seq = 0, rb_size = n, rb_current_index = 0, rb_occupancy = 0\<rparr>"

definition with_cleared :: "nat \<Rightarrow> nat \<Rightarrow> HeapStorageContext pers" where
  "with_cleared start n = formatted\<lparr>dev := snd (clear_ring_buffer heap_storage (dev formatted) start n)\<rparr>"

lemma formatted_region_ok:
  assumes "heap_ok d" and "capacity heap_storage d = capacity heap_storage (dev formatted)"
    and "\<And>k. k < 12 \<Longrightarrow> heap_blk d k = heap_blk (dev formatted) k"
  shows "pers_ok heap_storage heap_ok heap_blk (formatted\<lparr>dev := d\<rparr>)"
  using formatted_ok assms by (simp add: pers_ok_def bitmap_synced_def journal_idle_def layout)

lemma with_cleared_ok:
  shows "pers_ok heap_storage heap_ok heap_blk (with_cleared (history_base message_history_kind) 5000)"
    and "history_ok message_history_kind (heap_blk (dev (with_cleared (history_base message_history_kind) 5000)))
      (capacity heap_storage (dev (with_cleared (history_base message_history_kind) 5000))) (empty_ring 5000)"
    and "pers_ok heap_storage heap_ok heap_blk (with_cleared (history_base call_history_kind) 5000)"
    and "history_ok call_history_kind (heap_blk (dev (with_cleared (history_base call_history_kind) 5000)))
      (capacity heap_storage (dev (with_cleared (history_base call_history_kind) 5000))) (empty_ring 5000)"
proof -
  have b: "history_base message_history_kind = 30265" "history_base call_history_kind = 35265"
    by (simp_all add: history_base_def message_history_kind_def call_history_kind_def sector_defs layout)
  from msg_hist.history_cleared [OF formatted_device(1), of 5000] formatted_device(2) b obtain d
    where d: "clear_ring_buffer heap_storage (dev formatted) (history_base message_history_kind) 5000 = (STRG_OK, d)" "heap_ok d"
      "capacity heap_storage d = capacity heap_storage (dev formatted)"
      "ring_region (heap_blk d) (capacity heap_storage d) (history_base message_history_kind) 5000"
      "ring_full (hk_cap message_history_kind) (\<lambda>i. hs_header (history_sec message_history_kind (heap_blk d) i)) (empty_ring 5000)"
      "\<forall>k. k < history_base message_history_kind \<or> history_base message_history_kind + 5000 \<le> k \<longrightarrow> heap_blk d k = heap_blk (dev formatted) k"
    by (auto simp: empty_ring_def)
  have w: "with_cleared (history_base message_history_kind) 5000 = formatted\<lparr>dev := d\<rparr>" by (simp add: with_cleared_def d(1))
  show "pers_ok heap_storage heap_ok heap_blk (with_cleared (history_base message_history_kind) 5000)"
    unfolding w using d(6) b by (intro formatted_region_ok [OF d(2,3)]) simp
  show "history_ok message_history_kind (heap_blk (dev (with_cleared (history_base message_history_kind) 5000)))
      (capacity heap_storage (dev (with_cleared (history_base message_history_kind) 5000))) (empty_ring 5000)"
    unfolding w using d(4,5) by (simp add: history_ok_def empty_ring_def)
  from call_hist.history_cleared [OF formatted_device(1), of 5000] formatted_device(2) b obtain d
    where d: "clear_ring_buffer heap_storage (dev formatted) (history_base call_history_kind) 5000 = (STRG_OK, d)" "heap_ok d"
      "capacity heap_storage d = capacity heap_storage (dev formatted)"
      "ring_region (heap_blk d) (capacity heap_storage d) (history_base call_history_kind) 5000"
      "ring_full (hk_cap call_history_kind) (\<lambda>i. hs_header (history_sec call_history_kind (heap_blk d) i)) (empty_ring 5000)"
      "\<forall>k. k < history_base call_history_kind \<or> history_base call_history_kind + 5000 \<le> k \<longrightarrow> heap_blk d k = heap_blk (dev formatted) k"
    by (auto simp: empty_ring_def)
  have w: "with_cleared (history_base call_history_kind) 5000 = formatted\<lparr>dev := d\<rparr>" by (simp add: with_cleared_def d(1))
  show "pers_ok heap_storage heap_ok heap_blk (with_cleared (history_base call_history_kind) 5000)"
    unfolding w using d(6) b by (intro formatted_region_ok [OF d(2,3)]) simp
  show "history_ok call_history_kind (heap_blk (dev (with_cleared (history_base call_history_kind) 5000)))
      (capacity heap_storage (dev (with_cleared (history_base call_history_kind) 5000))) (empty_ring 5000)"
    unfolding w using d(4,5) by (simp add: history_ok_def empty_ring_def)
qed

lemma empty_history: "history_list K bl (empty_ring n) = []"
  by (simp add: history_list_def ring_list_def empty_ring_def)

text \<open>A call history of up to six entries; with five its only sector is full.\<close>

lemma some_call_history:
  assumes e: "call_history_entry_wf e" and n: "n \<le> 6"
  shows "\<exists>p rb. pers_ok heap_storage heap_ok heap_blk p \<and>
    history_ok call_history_kind (heap_blk (dev p)) (capacity heap_storage (dev p)) rb \<and> rb_size rb = 5000 \<and>
    length (history_list call_history_kind (heap_blk (dev p)) rb) = n"
  using n
proof (induction n)
  case 0
  then show ?case using with_cleared_ok(3,4) empty_history by (metis empty_ring_def RingBuffer.select_convs(2) list.size(3))
next
  case (Suc n)
  then obtain p rb where p: "pers_ok heap_storage heap_ok heap_blk p"
    "history_ok call_history_kind (heap_blk (dev p)) (capacity heap_storage (dev p)) rb" "rb_size rb = 5000"
    "length (history_list call_history_kind (heap_blk (dev p)) rb) = n"
    by auto
  have d: "heap_ok (dev p)" using p(1) by (simp add: pers_ok_def)
  have "rb_occupancy rb \<noteq> 5000"
    using call_hist.list_length(1) [OF d p(2)] p(4) Suc.prems by (auto simp: call_history_kind_def layout)
  then have "\<not> history_wraps call_history_kind (heap_blk (dev p)) rb" using p(3) by (simp add: history_wraps_def)
  then show ?case using call_hist.add_spec [OF p(1,2) e] p(3,4) by fastforce
qed

lemma full_call_history:
  assumes e: "call_history_entry_wf e"
  shows "\<exists>p rb. pers_ok heap_storage heap_ok heap_blk p \<and>
    history_ok call_history_kind (heap_blk (dev p)) (capacity heap_storage (dev p)) rb \<and> rb_occupancy rb \<noteq> 0 \<and>
    length (history_list call_history_kind (heap_blk (dev p)) rb) = 5 \<and>
    rh_head (hs_header (history_sec call_history_kind (heap_blk (dev p)) (rb_current_index rb))) = hk_cap call_history_kind - 1"
proof -
  from some_call_history [OF e, of 5] obtain p rb where p: "pers_ok heap_storage heap_ok heap_blk p"
    "history_ok call_history_kind (heap_blk (dev p)) (capacity heap_storage (dev p)) rb"
    "length (history_list call_history_kind (heap_blk (dev p)) rb) = 5"
    by auto
  have d: "heap_ok (dev p)" using p(1) by (simp add: pers_ok_def)
  have o: "rb_occupancy rb \<noteq> 0" using p(3) by (intro notI) (simp add: history_list_def ring_list_def)
  have cap: "hk_cap call_history_kind = 5" by (simp add: call_history_kind_def layout)
  have "rh_head (hs_header (history_sec call_history_kind (heap_blk (dev p)) (rb_current_index rb))) = 4"
    using call_hist.list_length [OF d p(2) o] p(3) by (cases "rb_occupancy rb - 1") (simp_all add: cap)
  then show ?thesis using p o cap by auto
qed

end
