(* ===== verification/Hash_Table.thy ===== *)
theory Hash_Table
  imports Contact Message Iterator
begin

text \<open>
  The phone number index in RAM: \<^verbatim>\<open>source/app/src/hash_table.c\<close>, an open-addressed
  table with double hashing whose entries name the contact slot and the newest message sector
  of a phone number.

  A pointer to an entry is its slot index.  A \<open>phone\<close> argument is the bytes of the string
  before its NUL.  The storage pointer of the struct is the device of \<open>'c pers\<close>.
  \<open>ht_stale\<close> is what the local contact buffer of \<^verbatim>\<open>hash_find_entry\<close> holds before
  anything was read into it: an indeterminate value, so nothing is assumed of it.
\<close>

subsection \<open>Entries\<close>

datatype ENTRY_STATE = ENTRY_EMPTY | ENTRY_OCCUPIED | ENTRY_DELETED

record HashEntry =
  he_id :: nat
  he_sector :: nat
  he_latest_msg_extent :: nat
  he_state :: ENTRY_STATE

record HashTable =
  ht_htable :: "HashEntry list"
  ht_contact_allocator :: FreeList
  ht_message_allocator :: FreeList
  ht_num_elems :: nat
  ht_size :: nat
  ht_stale :: Contact

definition hash_entry_zero :: HashEntry where
  "hash_entry_zero = \<lparr>he_id = 0, he_sector = 0, he_latest_msg_extent = 0, he_state = ENTRY_EMPTY\<rparr>"

definition hash_slot_of :: "HashTable \<Rightarrow> nat \<Rightarrow> nat" where
  "hash_slot_of t e = to_u16 e"

abbreviation entry_at :: "HashTable \<Rightarrow> nat \<Rightarrow> HashEntry" where
  "entry_at t i \<equiv> ht_htable t ! i"

definition set_entry :: "nat \<Rightarrow> HashEntry \<Rightarrow> HashTable \<Rightarrow> HashTable" where
  "set_entry i e t = t\<lparr>ht_htable := (ht_htable t)[i := e]\<rparr>"

abbreviation is_new_entry :: "HashEntry \<Rightarrow> bool" where
  "is_new_entry e \<equiv> he_state e = ENTRY_EMPTY \<or> he_state e = ENTRY_DELETED"

subsection \<open>Hashing\<close>

definition hash_primary :: "nat \<Rightarrow> nat \<Rightarrow> nat" where
  "hash_primary key cap = key mod cap"

definition hash_secondary :: "nat \<Rightarrow> nat \<Rightarrow> nat" where
  "hash_secondary key cap = to_u16 (1 + key mod (cap - 1))"

definition hash_double :: "nat \<Rightarrow> nat \<Rightarrow> nat \<Rightarrow> nat" where
  "hash_double key attemptNum cap =
     (hash_primary key cap + attemptNum * hash_secondary key cap) mod cap"

text \<open>DJB2 over the digits, folded to 16 bits.\<close>

fun hash_phone_loop :: "u32 \<Rightarrow> byte list \<Rightarrow> u32" where
  "hash_phone_loop hash [] = hash"
| "hash_phone_loop hash (c # phone) =
     hash_phone_loop (if 48 \<le> c \<and> c \<le> 57 then (push_bit 5 hash + hash) + ucast c else hash) phone"

definition hash_phone :: "byte list \<Rightarrow> nat" where
  "hash_phone phone =
     (let hash = hash_phone_loop 5381 phone in to_u16 (unat ((hash AND 0xFFFF) XOR drop_bit 16 hash)))"

subsection \<open>Initialisation\<close>

definition hash_init :: "FreeList \<Rightarrow> FreeList \<Rightarrow> HashEntry list \<Rightarrow> nat \<Rightarrow> Contact \<Rightarrow> HashTable" where
  "hash_init contact_fstack message_fstack entries sz stale =
     \<lparr>ht_htable = entries, ht_contact_allocator = contact_fstack, ht_message_allocator = message_fstack,
      ht_num_elems = 0, ht_size = sz, ht_stale = stale\<rparr>"

text \<open>\<^verbatim>\<open>memset\<close> clears \<^verbatim>\<open>HASH_TABLE_SIZE\<close> entries whatever the size field says.
  \<open>None\<close>: the reset loop of an allocator does not end.\<close>

definition hash_clear :: "HashTable \<Rightarrow> HashTable option" where
  "hash_clear t =
     (case free_list_reset (ht_contact_allocator t) of None \<Rightarrow> None
      | Some ca \<Rightarrow>
     (case free_list_reset (ht_message_allocator t) of None \<Rightarrow> None
      | Some ma \<Rightarrow>
          Some (t\<lparr>ht_contact_allocator := ca, ht_message_allocator := ma,
            ht_htable := replicate HASH_TABLE_SIZE hash_entry_zero @ drop HASH_TABLE_SIZE (ht_htable t),
            ht_num_elems := 0\<rparr>)))"

definition hash_destroy :: "HashTable \<Rightarrow> HashTable option" where
  "hash_destroy t = hash_clear t"

definition hash_size :: "HashTable \<Rightarrow> nat" where
  "hash_size t = ht_num_elems t"

subsection \<open>Searching\<close>

text \<open>The probe loop.  The result is the slot handed back, \<open>None\<close> when the function returns
  false.  \<open>contact\<close> is the local buffer: a read that ends in anything but success leaves it as
  it was, and only \<^verbatim>\<open>STRG_FAIL\<close> and \<^verbatim>\<open>STRG_CORRUPT\<close> skip the comparison.\<close>

function hash_find_loop ::
    "'c Storage \<Rightarrow> 'c pers \<Rightarrow> HashTable \<Rightarrow> byte list \<Rightarrow> nat \<Rightarrow> nat \<Rightarrow> nat \<Rightarrow> nat \<Rightarrow> nat option \<Rightarrow> Contact \<Rightarrow> nat option" where
  "hash_find_loop S p t phone target_hash h1 h2 i first_free contact =
     (if i < ht_size t then
        let index = to_u16 ((h1 + i * h2) mod ht_size t);
            cur = entry_at t index
        in case he_state cur of
            ENTRY_EMPTY \<Rightarrow> Some (case first_free of Some f \<Rightarrow> f | None \<Rightarrow> index)
          | ENTRY_DELETED \<Rightarrow>
              hash_find_loop S p t phone target_hash h1 h2 (i + 1)
                (case first_free of Some f \<Rightarrow> Some f | None \<Rightarrow> Some index) contact
          | ENTRY_OCCUPIED \<Rightarrow>
              if he_id cur = target_hash then
                case read_contact S p (he_sector cur) of
                  Inl ret \<Rightarrow>
                    if ret = STRG_FAIL \<or> ret = STRG_CORRUPT
                    then hash_find_loop S p t phone target_hash h1 h2 (i + 1) first_free contact
                    else if cstr (c_phone contact) = phone then Some index
                    else hash_find_loop S p t phone target_hash h1 h2 (i + 1) first_free contact
                | Inr contact' \<Rightarrow>
                    if cstr (c_phone contact') = phone then Some index
                    else hash_find_loop S p t phone target_hash h1 h2 (i + 1) first_free contact'
              else hash_find_loop S p t phone target_hash h1 h2 (i + 1) first_free contact
      else first_free)"
  by pat_completeness auto
termination by (relation "measure (\<lambda>(_, _, t, _, _, _, _, i, _, _). ht_size t - i)") auto

declare hash_find_loop.simps [simp del]

definition hash_find_entry :: "'c Storage \<Rightarrow> 'c pers \<Rightarrow> HashTable \<Rightarrow> byte list \<Rightarrow> nat option" where
  "hash_find_entry S p t phone =
     (let target_hash = hash_phone phone
      in hash_find_loop S p t phone target_hash
           (hash_primary target_hash (to_u16 (ht_size t))) (hash_secondary target_hash (to_u16 (ht_size t)))
           0 None (ht_stale t))"

subsection \<open>Inserting and updating contacts\<close>

definition hash_insert_contact ::
    "'c Storage \<Rightarrow> 'c pers \<Rightarrow> HashTable \<Rightarrow> Contact \<Rightarrow> STRG_RET \<times> nat option \<times> HashTable \<times> 'c pers" where
  "hash_insert_contact S p t contact =
     (let phone = cstr (c_phone contact); hash = hash_phone phone
      in case hash_find_entry S p t phone of
        None \<Rightarrow> (STRG_FULL, None, t, p)
      | Some entry \<Rightarrow>
          let contact_hIndex = Some (hash_slot_of t entry); temp = entry_at t entry
          in if \<not> is_new_entry temp then (STRG_EXISTS, contact_hIndex, t, p)
          else let (contact_alloc, ca) = free_list_allocate (ht_contact_allocator t);
                   t = t\<lparr>ht_contact_allocator := ca\<rparr>
          in if contact_alloc = UINT16_MAX then (STRG_FULL, contact_hIndex, t, p)
          else let t = set_entry entry \<lparr>he_id = hash, he_sector = contact_alloc, he_latest_msg_extent = UINT16_MAX,
                                        he_state = ENTRY_OCCUPIED\<rparr> t;
                   t = t\<lparr>ht_num_elems := ht_num_elems t + 1\<rparr>;
                   (ret, p) = write_contact S p contact_alloc contact
          in if ret \<noteq> STRG_OK then
               let t = t\<lparr>ht_contact_allocator := free_list_free (ht_contact_allocator t) contact_alloc,
                         ht_num_elems := ht_num_elems t - 1\<rparr>
               in (STRG_FAIL, contact_hIndex, set_entry entry temp t, p)
             else (STRG_OK, contact_hIndex, t, p))"

definition hash_update_phone ::
    "'c Storage \<Rightarrow> 'c pers \<Rightarrow> HashTable \<Rightarrow> byte list \<Rightarrow> Contact \<Rightarrow> STRG_RET \<times> HashTable \<times> 'c pers" where
  "hash_update_phone S p t old_phone new =
     (case hash_find_entry S p t old_phone of
        None \<Rightarrow> (STRG_FULL, t, p)
      | Some old_entry \<Rightarrow>
          if is_new_entry (entry_at t old_entry) then (STRG_EMPTY, t, p)
          else let new_phone = cstr (c_phone new); hash = hash_phone new_phone
          in case hash_find_entry S p t new_phone of
            None \<Rightarrow> (STRG_FULL, t, p)
          | Some new_entry \<Rightarrow>
              if \<not> is_new_entry (entry_at t new_entry) then (STRG_EXISTS, t, p)
              else let temp = entry_at t new_entry;
                       t = set_entry new_entry ((entry_at t old_entry)\<lparr>he_id := hash\<rparr>) t;
                       (ret, p) = write_contact S p (he_sector (entry_at t new_entry)) new
              in if ret \<noteq> STRG_OK then (ret, set_entry new_entry temp t, p)
                 else (STRG_OK, set_entry old_entry ((entry_at t old_entry)\<lparr>he_state := ENTRY_DELETED\<rparr>) t, p))"

definition hash_update_contact ::
    "'c Storage \<Rightarrow> 'c pers \<Rightarrow> HashTable \<Rightarrow> Contact \<Rightarrow> Contact \<Rightarrow> STRG_RET \<times> HashTable \<times> 'c pers" where
  "hash_update_contact S p t old new_con =
     (if cstr (c_phone old) \<noteq> cstr (c_phone new_con) then hash_update_phone S p t (cstr (c_phone old)) new_con
      else case hash_find_entry S p t (cstr (c_phone new_con)) of
        None \<Rightarrow> (STRG_FULL, t, p)
      | Some entry \<Rightarrow>
          if is_new_entry (entry_at t entry) then (STRG_EMPTY, t, p)
          else let (ret, p) = write_contact S p (he_sector (entry_at t entry)) new_con in (ret, t, p))"

subsection \<open>Inserting messages\<close>

text \<open>The second half of \<^verbatim>\<open>hash_insert_message\<close>: the message goes to the newest sector of
  the chat of \<open>entry\<close>, to a first sector, or to a further one.  \<open>next_sector\<close> is used as
  allocated, exhausted or not.\<close>

definition insert_message_at ::
    "'c Storage \<Rightarrow> 'c pers \<Rightarrow> HashTable \<Rightarrow> nat \<Rightarrow> Message \<Rightarrow> bool \<times> HashTable \<times> 'c pers" where
  "insert_message_at S p t entry m =
     (let e = entry_at t entry
      in if he_latest_msg_extent e = UINT16_MAX then
           let (sector, ma) = free_list_allocate (ht_message_allocator t);
               t = t\<lparr>ht_message_allocator := ma\<rparr>
           in if sector = UINT16_MAX then (False, t, p)
           else let (ret, p) = write_new_message_sector S p (he_sector e) sector m
           in if ret \<noteq> STRG_OK then (False, t, p)
              else (True, set_entry entry (e\<lparr>he_latest_msg_extent := sector\<rparr>) t, p)
         else let (ret, p) = write_message S p (he_latest_msg_extent e) m
         in if ret = STRG_FULL then
              let (next_sector, ma) = free_list_allocate (ht_message_allocator t);
                  t = t\<lparr>ht_message_allocator := ma\<rparr>;
                  (ret, p) = write_next_message_sector S p (he_sector e) (he_latest_msg_extent e) next_sector m
              in if ret \<noteq> STRG_OK then (False, t, p)
                 else (True, set_entry entry (e\<lparr>he_latest_msg_extent := next_sector\<rparr>) t, p)
            else (ret = STRG_OK, t, p))"

definition hash_insert_message ::
    "'c Storage \<Rightarrow> 'c pers \<Rightarrow> HashTable \<Rightarrow> byte list \<Rightarrow> Message \<Rightarrow> bool \<times> HashTable \<times> 'c pers" where
  "hash_insert_message S p t phone m =
     (let hash = hash_phone phone
      in case hash_find_entry S p t phone of
        None \<Rightarrow> (False, t, p)
      | Some entry \<Rightarrow>
          if is_new_entry (entry_at t entry) then
            let (sector, ca) = free_list_allocate (ht_contact_allocator t);
                t = t\<lparr>ht_contact_allocator := ca\<rparr>
            in if sector = UINT16_MAX then (False, t, p)
            else let (ret, p) = write_contact S p sector (create_contact [] phone)
            in if ret \<noteq> STRG_OK then (False, t, p)
            else let t = set_entry entry \<lparr>he_id = hash, he_sector = sector, he_latest_msg_extent = UINT16_MAX,
                                          he_state = ENTRY_OCCUPIED\<rparr> t
            in insert_message_at S p (t\<lparr>ht_num_elems := ht_num_elems t + 1\<rparr>) entry m
          else insert_message_at S p t entry m)"

subsection \<open>Finding\<close>

text \<open>\<^verbatim>\<open>hash_find_contact\<close> and \<^verbatim>\<open>hash_find_message\<close> return the status of the read as a
  \<^verbatim>\<open>bool\<close>; the second component is what was written to \<^verbatim>\<open>*out\<close>, if anything.\<close>

definition found_as_bool :: "'v res \<Rightarrow> bool \<times> 'v option" where
  "found_as_bool r = (case r of Inl ret \<Rightarrow> (strg_true ret, None) | Inr v \<Rightarrow> (strg_true STRG_OK, Some v))"

definition hash_find_contact :: "'c Storage \<Rightarrow> 'c pers \<Rightarrow> HashTable \<Rightarrow> byte list \<Rightarrow> bool \<times> Contact option" where
  "hash_find_contact S p t phone =
     (if ht_size t = 0 then (False, None)
      else case hash_find_entry S p t phone of
        None \<Rightarrow> (False, None)
      | Some entry \<Rightarrow>
          if he_state (entry_at t entry) \<noteq> ENTRY_OCCUPIED then (False, None)
          else found_as_bool (read_contact S p (he_sector (entry_at t entry))))"

definition hash_find_message :: "'c Storage \<Rightarrow> 'c pers \<Rightarrow> HashTable \<Rightarrow> byte list \<Rightarrow> bool \<times> Message option" where
  "hash_find_message S p t phone =
     (if ht_size t = 0 then (False, None)
      else case hash_find_entry S p t phone of
        None \<Rightarrow> (False, None)
      | Some entry \<Rightarrow>
          if he_state (entry_at t entry) \<noteq> ENTRY_OCCUPIED \<or> he_latest_msg_extent (entry_at t entry) = UINT16_MAX
          then (False, None)
          else found_as_bool (read_message S p (he_latest_msg_extent (entry_at t entry)) 0))"

definition hash_find_n_message ::
    "'c Storage \<Rightarrow> 'c pers \<Rightarrow> HashTable \<Rightarrow> byte list \<Rightarrow> nat \<Rightarrow> nat \<Rightarrow> int \<times> Message list" where
  "hash_find_n_message S p t phone start n =
     (if ht_size t = 0 then (-1, [])
      else case hash_find_entry S p t phone of
        None \<Rightarrow> (-1, [])
      | Some entry \<Rightarrow>
          if he_state (entry_at t entry) \<noteq> ENTRY_OCCUPIED \<or> he_latest_msg_extent (entry_at t entry) = UINT16_MAX
          then (-1, [])
          else let (ret, out) = read_n_messages S p (he_latest_msg_extent (entry_at t entry)) start n
               in if ret \<noteq> STRG_OK then (-1, out) else (int (length out), out))"

text \<open>The scan of the usage bitmap for the \<open>n\<close>-th contact: \<open>Inl\<close> is a \<^verbatim>\<open>return\<close>, \<open>Inr\<close> the
  count carried to the next word.\<close>

function nth_contact_word :: "'c Storage \<Rightarrow> 'c pers \<Rightarrow> int \<Rightarrow> nat \<Rightarrow> u32 \<Rightarrow> int \<Rightarrow> nat + int" where
  "nth_contact_word S p n word bits contact_count =
     (if bits \<noteq> 0 then
        let bitn = ctz bits
        in if USAGE_BITMAP_WORD_TO_INDEX word + bitn \<ge> CONTACT_DATA_START_SECTOR + TOTAL_CONTACT_SECTOR_SIZE
           then Inr contact_count
           else let phys_sector = to_u16 (USAGE_BITMAP_WORD_TO_INDEX word + bitn);
                    slot_base = to_u16 (phys_sector * CONTACT_SECTOR_CAPACITY)
           in case read_contact_sector S (dev p) phys_sector of
                Inl ret \<Rightarrow> Inl (strg_code ret)
              | Inr cSector \<Rightarrow>
                  let sector_contact_count = int (popcount (cs_used_bitmap cSector))
                  in if sector_contact_count = 0 then Inl UINT16_MAX
                     else if contact_count + sector_contact_count > n then
                       let sec_bit_ind = get_nth_set_bit (ucast (cs_used_bitmap cSector)) (n - contact_count)
                       in if sec_bit_ind = UINT16_MAX then Inl UINT16_MAX else Inl (to_u16 (sec_bit_ind + slot_base))
                     else nth_contact_word S p n word (clear_lowest bits) (contact_count + sector_contact_count)
      else Inr contact_count)"
  by pat_completeness auto
termination by (relation "measure (\<lambda>(_, _, _, _, w, _). length (set_bits_of w))") (auto simp: set_bits_of_clear_lowest)

declare nth_contact_word.simps [simp del]

fun nth_contact_words :: "'c Storage \<Rightarrow> 'c pers \<Rightarrow> int \<Rightarrow> nat list \<Rightarrow> int \<Rightarrow> nat" where
  "nth_contact_words S p n [] contact_count = UINT16_MAX"
| "nth_contact_words S p n (word # words) contact_count =
     (if USAGE_BITMAP_IS_CRC_WORD word then nth_contact_words S p n words contact_count
      else case nth_contact_word S p n word (usage_bitmap p ! word) contact_count of
        Inl r \<Rightarrow> r
      | Inr contact_count \<Rightarrow> nth_contact_words S p n words contact_count)"

definition get_nth_contact_index :: "'c Storage \<Rightarrow> 'c pers \<Rightarrow> int \<Rightarrow> nat" where
  "get_nth_contact_index S p n =
     nth_contact_words S p n
       [USAGE_BITMAP_FIND_INDEX CONTACT_DATA_START_SECTOR..<
        Suc (USAGE_BITMAP_FIND_INDEX (CONTACT_DATA_START_SECTOR + TOTAL_CONTACT_SECTOR_SIZE))] 0"

subsection \<open>Removing\<close>

definition hash_remove_contact ::
    "'c Storage \<Rightarrow> 'c pers \<Rightarrow> HashTable \<Rightarrow> byte list \<Rightarrow> bool \<times> Contact option \<times> HashTable \<times> 'c pers" where
  "hash_remove_contact S p t phone =
     (if ht_size t = 0 then (False, None, t, p)
      else case hash_find_entry S p t phone of
        None \<Rightarrow> (False, None, t, p)
      | Some entry \<Rightarrow>
          if he_state (entry_at t entry) \<noteq> ENTRY_OCCUPIED then (False, None, t, p)
          else let (removed, out, p, ca) = remove_contact S p (ht_contact_allocator t) (he_sector (entry_at t entry));
                   t = t\<lparr>ht_contact_allocator := ca\<rparr>
               in if \<not> removed then (False, out, t, p)
                  else let t = set_entry entry ((entry_at t entry)\<lparr>he_sector := UINT16_MAX, he_state := ENTRY_DELETED\<rparr>) t
                       in (True, out, t\<lparr>ht_num_elems := ht_num_elems t - 1\<rparr>, p))"

text \<open>The two operations that walk a message chat return \<open>None\<close> when that walk does not end.\<close>

definition hash_remove_message ::
    "'c Storage \<Rightarrow> 'c pers \<Rightarrow> HashTable \<Rightarrow> byte list \<Rightarrow> (bool \<times> HashTable \<times> 'c pers) option" where
  "hash_remove_message S p t phone =
     (if ht_size t = 0 then Some (False, t, p)
      else case hash_find_entry S p t phone of
        None \<Rightarrow> Some (False, t, p)
      | Some entry \<Rightarrow>
          if he_state (entry_at t entry) \<noteq> ENTRY_OCCUPIED then Some (False, t, p)
          else case remove_message_chat S p (ht_message_allocator t) (he_latest_msg_extent (entry_at t entry)) of
            None \<Rightarrow> None
          | Some (removed, p, ma) \<Rightarrow>
              let t = t\<lparr>ht_message_allocator := ma\<rparr>
              in if \<not> removed then Some (False, t, p)
                 else Some (True, set_entry entry ((entry_at t entry)\<lparr>he_latest_msg_extent := UINT16_MAX\<rparr>) t, p))"

definition hash_remove ::
    "'c Storage \<Rightarrow> 'c pers \<Rightarrow> HashTable \<Rightarrow> byte list \<Rightarrow> (bool \<times> nat option \<times> HashTable \<times> 'c pers) option" where
  "hash_remove S p t phone =
     (if ht_size t = 0 then Some (False, None, t, p)
      else case hash_find_entry S p t phone of
        None \<Rightarrow> Some (False, None, t, p)
      | Some entry \<Rightarrow>
          if he_state (entry_at t entry) \<noteq> ENTRY_OCCUPIED then Some (False, None, t, p)
          else case remove_message_chat S p (ht_message_allocator t) (he_latest_msg_extent (entry_at t entry)) of
            None \<Rightarrow> None
          | Some (message_chat_removal, p, ma) \<Rightarrow>
              let t = t\<lparr>ht_message_allocator := ma\<rparr>;
                  t = set_entry entry ((entry_at t entry)\<lparr>he_latest_msg_extent := UINT16_MAX\<rparr>) t;
                  (contact_removed, _, p, ca) = remove_contact S p (ht_contact_allocator t) (he_sector (entry_at t entry));
                  t = t\<lparr>ht_contact_allocator := ca\<rparr>
              in if \<not> contact_removed \<or> \<not> message_chat_removal then Some (False, None, t, p)
                 else let t = set_entry entry ((entry_at t entry)\<lparr>he_state := ENTRY_DELETED\<rparr>) t
                      in Some (True, Some entry, t\<lparr>ht_num_elems := ht_num_elems t - 1\<rparr>, p))"

subsection \<open>Rebuilding the table after a restart\<close>

function insert_contacts_loop ::
    "'c Storage \<Rightarrow> 'c pers \<Rightarrow> HashTable \<Rightarrow> ContactSector \<Rightarrow> nat \<Rightarrow> byte \<Rightarrow> nat \<Rightarrow> bool \<times> HashTable \<times> nat" where
  "insert_contacts_loop S p t cSector contact_sector_base used_bit_vec next_free =
     (if used_bit_vec \<noteq> 0 then
        let pos_in_sector = ctz used_bit_vec;
            slot_index = to_u16 (contact_sector_base + pos_in_sector);
            t = t\<lparr>ht_contact_allocator := free_list_free_range (ht_contact_allocator t) next_free slot_index\<rparr>;
            next_free = to_u16 (slot_index + 1);
            phone = cstr (c_phone (cs_contacts cSector ! pos_in_sector));
            hash = hash_phone phone
        in case hash_find_entry S p t phone of
          None \<Rightarrow> (False, t, next_free)
        | Some entry \<Rightarrow>
            let t = set_entry entry \<lparr>he_id = hash, he_sector = slot_index, he_latest_msg_extent = UINT16_MAX,
                                     he_state = ENTRY_OCCUPIED\<rparr> t
            in insert_contacts_loop S p (t\<lparr>ht_num_elems := ht_num_elems t + 1\<rparr>) cSector contact_sector_base
                 (clear_lowest used_bit_vec) next_free
      else (True, t, next_free))"
  by pat_completeness auto
termination by (relation "measure (\<lambda>(_, _, _, _, _, w, _). length (set_bits_of w))") (auto simp: set_bits_of_clear_lowest)

declare insert_contacts_loop.simps [simp del]

definition insert_contacts_from_sector ::
    "'c Storage \<Rightarrow> 'c pers \<Rightarrow> HashTable \<Rightarrow> ContactSector \<Rightarrow> nat \<Rightarrow> bool \<times> HashTable" where
  "insert_contacts_from_sector S p t cSector contact_sector_base =
     (case insert_contacts_loop S p t cSector contact_sector_base (cs_used_bitmap cSector) contact_sector_base of
        (False, t, _) \<Rightarrow> (False, t)
      | (True, t, next_free) \<Rightarrow>
          (True, t\<lparr>ht_contact_allocator := free_list_free_range (ht_contact_allocator t) next_free
                     (to_u16 (contact_sector_base + CONTACT_SECTOR_CAPACITY))\<rparr>))"

text \<open>The bits of one bitmap word, then the words; the flag is false when the function returned
  false.  \<^verbatim>\<open>read_sector\<close> has no failures but the two that are told apart.\<close>

function reconstruct_word ::
    "'c Storage \<Rightarrow> 'c pers \<Rightarrow> HashTable \<Rightarrow> nat \<Rightarrow> u32 \<Rightarrow> nat \<Rightarrow> bool \<times> HashTable \<times> nat" where
  "reconstruct_word S p t word bits last_free_index =
     (if bits \<noteq> 0 then
        let bitn = ctz bits
        in if USAGE_BITMAP_WORD_TO_INDEX word + bitn \<ge> TOTAL_CONTACT_SECTOR_SIZE then (True, t, last_free_index)
           else let phys_sector = to_u16 (USAGE_BITMAP_WORD_TO_INDEX word + bitn);
                    slot_base = to_u16 (phys_sector * CONTACT_SECTOR_CAPACITY);
                    t = t\<lparr>ht_contact_allocator :=
                            free_list_free_range (ht_contact_allocator t) (to_u16 last_free_index) slot_base\<rparr>
           in case read_contact_sector S (dev p) phys_sector of
                Inl STRG_FAIL \<Rightarrow> (False, t, last_free_index)
              | Inl STRG_CORRUPT \<Rightarrow>
                  reconstruct_word S p t word (clear_lowest bits) (slot_base + CONTACT_SECTOR_CAPACITY)
              | Inl _ \<Rightarrow> (False, t, last_free_index)
              | Inr cSector \<Rightarrow>
                  (case insert_contacts_from_sector S p t cSector slot_base of
                     (False, t) \<Rightarrow> (False, t, last_free_index)
                   | (True, t) \<Rightarrow> reconstruct_word S p t word (clear_lowest bits) (slot_base + CONTACT_SECTOR_CAPACITY))
      else (True, t, last_free_index))"
  by pat_completeness auto
termination by (relation "measure (\<lambda>(_, _, _, _, w, _). length (set_bits_of w))") (auto simp: set_bits_of_clear_lowest)

declare reconstruct_word.simps [simp del]

fun reconstruct_words :: "'c Storage \<Rightarrow> 'c pers \<Rightarrow> HashTable \<Rightarrow> nat list \<Rightarrow> nat \<Rightarrow> bool \<times> HashTable \<times> nat" where
  "reconstruct_words S p t [] last_free_index = (True, t, last_free_index)"
| "reconstruct_words S p t (word # words) last_free_index =
     (if USAGE_BITMAP_IS_CRC_WORD word then reconstruct_words S p t words last_free_index
      else let bits = (if word = USAGE_BITMAP_FIND_INDEX CONTACT_DATA_START_SECTOR \<and> USAGE_BITMAP_FIND_BIT CONTACT_DATA_START_SECTOR > 0
                       then clear_bits_to_n_u32 (usage_bitmap p ! word) (USAGE_BITMAP_FIND_BIT CONTACT_DATA_START_SECTOR)
                       else usage_bitmap p ! word)
           in case reconstruct_word S p t word bits last_free_index of
             (False, t, last_free_index) \<Rightarrow> (False, t, last_free_index)
           | (True, t, last_free_index) \<Rightarrow> reconstruct_words S p t words last_free_index)"

definition hash_reconstruct_contact :: "'c Storage \<Rightarrow> 'c pers \<Rightarrow> HashTable \<Rightarrow> bool \<times> HashTable" where
  "hash_reconstruct_contact S p t =
     (case reconstruct_words S p t
        [USAGE_BITMAP_FIND_INDEX CONTACT_DATA_START_SECTOR..<
         Suc (USAGE_BITMAP_FIND_INDEX (CONTACT_DATA_START_SECTOR + TOTAL_CONTACT_SECTOR_SIZE))] 0 of
        (False, t, _) \<Rightarrow> (False, t)
      | (True, t, last_free_index) \<Rightarrow>
          (True, t\<lparr>ht_contact_allocator := free_list_free_range (ht_contact_allocator t) (to_u16 last_free_index)
                     (to_u16 (USAGE_BITMAP_STORAGE_SIZE * BITS_PER_ELEMENT))\<rparr>))"

definition remove_orphan :: "'c Storage \<Rightarrow> 'c pers \<Rightarrow> HashTable \<Rightarrow> nat \<Rightarrow> STRG_RET \<times> HashTable \<times> 'c pers" where
  "remove_orphan S p t index =
     (let (ret, p, ma) = remove_orphaned_message_chat S p (ht_message_allocator t) index
      in (if ret = STRG_OK then STRG_EMPTY else ret, t\<lparr>ht_message_allocator := ma\<rparr>, p))"

definition insert_message_from_sector ::
    "'c Storage \<Rightarrow> 'c pers \<Rightarrow> HashTable \<Rightarrow> MessageSector \<Rightarrow> nat \<Rightarrow> STRG_RET \<times> HashTable \<times> 'c pers" where
  "insert_message_from_sector S p t mSector index =
     (let contact_index = ms_contact_index mSector
      in case read_contact S p contact_index of
        Inl ret \<Rightarrow> if ret = STRG_FAIL then (STRG_FAIL, t, p) else remove_orphan S p t index
      | Inr cBuffer \<Rightarrow>
          let phone_len = (if c_phone_len cBuffer > MAX_PHONE_LEN then MAX_PHONE_LEN else c_phone_len cBuffer);
              phone = cstr (take phone_len (c_phone cBuffer))
          in case hash_find_entry S p t phone of
            None \<Rightarrow> (STRG_FAIL, t, p)
          | Some entry \<Rightarrow>
              if he_state (entry_at t entry) \<noteq> ENTRY_OCCUPIED \<or> he_sector (entry_at t entry) \<noteq> contact_index
              then remove_orphan S p t index
              else (STRG_OK, set_entry entry ((entry_at t entry)\<lparr>he_latest_msg_extent := index\<rparr>) t, p))"

definition last_message_data_sector :: nat where
  "last_message_data_sector = MESSAGE_DATA_SECTOR (TOTAL_MESSAGE_SECTOR_SIZE - 1)"

text \<open>One round of the scan: the free sectors below \<open>data_sector\<close> are handed back and a head of
  a chat is entered.  The first component is false when the function returns false.\<close>

definition reconstruct_message_step ::
    "'c Storage \<Rightarrow> 'c pers \<Rightarrow> HashTable \<Rightarrow> nat \<Rightarrow> nat \<Rightarrow> bool \<times> HashTable \<times> 'c pers" where
  "reconstruct_message_step S p t last_free_index msg_index =
     (let t = t\<lparr>ht_message_allocator := free_list_free_range (ht_message_allocator t) last_free_index msg_index\<rparr>
      in case read_message_sector S (dev p) msg_index of
        Inl ret \<Rightarrow> (ret \<noteq> STRG_FAIL, t, p)
      | Inr mSector \<Rightarrow>
          let next = ms_next mSector;
              is_head = (next = UINT16_MAX \<or> next \<ge> TOTAL_MESSAGE_SECTOR_SIZE \<or> \<not> check_usage_bit (usage_bitmap p) (msg_sector next))
          in if is_head then let (ret, t, p) = insert_message_from_sector S p t mSector msg_index in (ret \<noteq> STRG_FAIL, t, p)
             else (True, t, p))"

lemma next_data_sector_decreases:
  assumes "data_sector \<noteq> UINT16_MAX \<and> data_sector \<le> last_message_data_sector" and "data_sector \<noteq> last_message_data_sector"
  shows "Suc last_message_data_sector - get_next_bit bm (to_u16 (Suc data_sector)) last_message_data_sector <
    Suc last_message_data_sector - data_sector"
proof -
  let ?n = "get_next_bit bm (to_u16 (Suc data_sector)) last_message_data_sector"
  have "last_message_data_sector < USAGE_BITMAP_TOTAL_BITS" by (simp add: last_message_data_sector_def sector_defs layout)
  from get_next_bit_spec [OF this, of bm "to_u16 (Suc data_sector)"]
  have "?n = UINT16_MAX \<or> to_u16 (Suc data_sector) \<le> ?n" by blast
  moreover have l: "last_message_data_sector < UINT16_MAX" by (simp add: last_message_data_sector_def sector_defs layout)
  then have "to_u16 (Suc data_sector) = Suc data_sector" using assms by simp
  ultimately show ?thesis using assms l by auto
qed

function reconstruct_message_loop ::
    "'c Storage \<Rightarrow> 'c pers \<Rightarrow> HashTable \<Rightarrow> nat \<Rightarrow> nat \<Rightarrow> bool \<times> HashTable \<times> 'c pers \<times> nat" where
  "reconstruct_message_loop S p t data_sector last_free_index =
     (if data_sector \<noteq> UINT16_MAX \<and> data_sector \<le> last_message_data_sector then
        let msg_index = to_u16 (data_sector - MESSAGE_DATA_START_SECTOR)
        in case reconstruct_message_step S p t last_free_index msg_index of
             (False, t, p) \<Rightarrow> (False, t, p, to_u16 (msg_index + 1))
           | (True, t, p) \<Rightarrow>
               if data_sector = last_message_data_sector then (True, t, p, to_u16 (msg_index + 1))
               else reconstruct_message_loop S p t
                      (get_next_bit (usage_bitmap p) (to_u16 (data_sector + 1)) last_message_data_sector) (to_u16 (msg_index + 1))
      else (True, t, p, last_free_index))"
  by pat_completeness auto
termination
  by (relation "measure (\<lambda>(_, _, _, data_sector, _). Suc last_message_data_sector - data_sector)")
    (simp_all add: next_data_sector_decreases)

declare reconstruct_message_loop.simps [simp del]

definition hash_reconstruct_message :: "'c Storage \<Rightarrow> 'c pers \<Rightarrow> HashTable \<Rightarrow> bool \<times> HashTable \<times> 'c pers" where
  "hash_reconstruct_message S p t =
     (case reconstruct_message_loop S p t
        (get_next_bit (usage_bitmap p) (MESSAGE_DATA_SECTOR 0) last_message_data_sector) 0 of
        (False, t, p, _) \<Rightarrow> (False, t, p)
      | (True, t, p, last_free_index) \<Rightarrow>
          (True, t\<lparr>ht_message_allocator := free_list_free_range (ht_message_allocator t) last_free_index TOTAL_MESSAGE_SECTOR_SIZE\<rparr>, p))"

definition hash_cleanup :: "'c Storage \<Rightarrow> 'c pers \<Rightarrow> HashTable \<Rightarrow> (bool \<times> HashTable) option" where
  "hash_cleanup S p t = map_option (hash_reconstruct_contact S p) (hash_clear t)"

subsection \<open>Iterating over the occupied slots\<close>

record HashTableIteratorCtx =
  hc_current :: nat

function next_occupied :: "HashTable \<Rightarrow> nat \<Rightarrow> nat option" where
  "next_occupied t i =
     (if i < ht_size t then if he_state (entry_at t i) = ENTRY_OCCUPIED then Some i else next_occupied t (Suc i)
      else None)"
  by pat_completeness auto
termination by (relation "measure (\<lambda>(t, i). ht_size t - i)") auto

declare next_occupied.simps [simp del]

primrec prev_occupied :: "HashTable \<Rightarrow> nat \<Rightarrow> nat option" where
  "prev_occupied t 0 = (if he_state (entry_at t 0) = ENTRY_OCCUPIED then Some 0 else None)"
| "prev_occupied t (Suc i) =
     (if he_state (entry_at t (Suc i)) = ENTRY_OCCUPIED then Some (Suc i) else prev_occupied t i)"

text \<open>Both loops end in \<open>ctx->current = i; return true\<close> or in the exhausted position.\<close>

definition hc_moved :: "HashTableIteratorCtx \<Rightarrow> nat option \<Rightarrow> bool \<times> HashTableIteratorCtx" where
  "hc_moved ctx r =
     (case r of Some i \<Rightarrow> (True, ctx\<lparr>hc_current := to_u16 i\<rparr>) | None \<Rightarrow> (False, ctx\<lparr>hc_current := UINT16_MAX\<rparr>))"

definition hash_table_iterator_next :: "HashTable \<Rightarrow> HashTableIteratorCtx \<Rightarrow> bool \<times> HashTableIteratorCtx" where
  "hash_table_iterator_next t ctx =
     (if ht_size t = 0 then (False, ctx\<lparr>hc_current := UINT16_MAX\<rparr>)
      else let start = (if hc_current ctx = UINT16_MAX then 0 else hc_current ctx + 1)
           in hc_moved ctx (next_occupied t start))"

definition hash_table_iterator_prev :: "HashTable \<Rightarrow> HashTableIteratorCtx \<Rightarrow> bool \<times> HashTableIteratorCtx" where
  "hash_table_iterator_prev t ctx =
     (if ht_size t = 0 then (False, ctx\<lparr>hc_current := UINT16_MAX\<rparr>)
      else if hc_current ctx = UINT16_MAX then hc_moved ctx (prev_occupied t (ht_size t - 1))
      else if hc_current ctx = 0 then (False, ctx\<lparr>hc_current := UINT16_MAX\<rparr>)
      else hc_moved ctx (prev_occupied t (hc_current ctx - 1)))"

definition hash_table_iterator_get :: "HashTableIteratorCtx \<Rightarrow> nat option" where
  "hash_table_iterator_get ctx = (if hc_current ctx = UINT16_MAX then None else Some (hc_current ctx))"

definition hash_table_iterator_init :: "HashTableIteratorCtx" where
  "hash_table_iterator_init = \<lparr>hc_current = UINT16_MAX\<rparr>"

definition hash_table_iterator :: "HashTable \<Rightarrow> (HashTableIteratorCtx, nat) Iterator" where
  "hash_table_iterator t =
     \<lparr>it_next = hash_table_iterator_next t, it_prev = hash_table_iterator_prev t, it_get = hash_table_iterator_get\<rparr>"

text \<open>The two listing loops, driven through the iterator interface; \<open>out\<close> holds what was written
  so far, \<open>None\<close> would be a loop that does not end.\<close>

partial_function (option) contact_list_loop ::
    "'c Storage \<Rightarrow> 'c pers \<Rightarrow> HashTable \<Rightarrow> int \<Rightarrow> int \<Rightarrow> HashTableIteratorCtx \<Rightarrow> int \<Rightarrow> Contact list \<Rightarrow> (STRG_RET \<times> Contact list) option" where
  "contact_list_loop S p t start n ctx skipped out =
     (if int (length out) < n then
        case iterator_next_fn (hash_table_iterator t) ctx of
          (moved, ctx) \<Rightarrow>
            if \<not> moved then Some (STRG_OK, out)
            else if skipped < start then contact_list_loop S p t start n ctx (skipped + 1) out
            else case iterator_get_fn (hash_table_iterator t) ctx of
              None \<Rightarrow> Some (STRG_FAIL, out)
            | Some slot \<Rightarrow>
                (case read_contact S p (he_sector (entry_at t slot)) of
                   Inl ret \<Rightarrow> Some (ret, out)
                 | Inr c \<Rightarrow> contact_list_loop S p t start n ctx skipped (out @ [c]))
      else Some (STRG_OK, out))"

definition hash_get_contact_list ::
    "'c Storage \<Rightarrow> 'c pers \<Rightarrow> HashTable \<Rightarrow> int \<Rightarrow> int \<Rightarrow> (STRG_RET \<times> Contact list) option" where
  "hash_get_contact_list S p t start n =
     (if start < 0 \<or> n < 0 then Some (STRG_FAIL, [])
      else contact_list_loop S p t start n hash_table_iterator_init 0 [])"

partial_function (option) message_list_loop ::
    "'c Storage \<Rightarrow> 'c pers \<Rightarrow> HashTable \<Rightarrow> int \<Rightarrow> int \<Rightarrow> HashTableIteratorCtx \<Rightarrow> int \<Rightarrow> Message list \<Rightarrow> (STRG_RET \<times> Message list) option" where
  "message_list_loop S p t start n ctx skipped out =
     (if int (length out) < n then
        case iterator_next_fn (hash_table_iterator t) ctx of
          (moved, ctx) \<Rightarrow>
            if \<not> moved then Some (STRG_OK, out)
            else case iterator_get_fn (hash_table_iterator t) ctx of
              None \<Rightarrow> Some (STRG_FAIL, out)
            | Some slot \<Rightarrow>
                if he_latest_msg_extent (entry_at t slot) = UINT16_MAX then message_list_loop S p t start n ctx skipped out
                else if skipped < start then message_list_loop S p t start n ctx (skipped + 1) out
                else (case read_message S p (he_latest_msg_extent (entry_at t slot)) 0 of
                   Inl ret \<Rightarrow> Some (ret, out)
                 | Inr m \<Rightarrow> message_list_loop S p t start n ctx skipped (out @ [m]))
      else Some (STRG_OK, out))"

definition hash_get_message_list ::
    "'c Storage \<Rightarrow> 'c pers \<Rightarrow> HashTable \<Rightarrow> int \<Rightarrow> int \<Rightarrow> (STRG_RET \<times> Message list) option" where
  "hash_get_message_list S p t start n =
     (if start < 0 \<or> n < 0 then Some (STRG_FAIL, [])
      else message_list_loop S p t start n hash_table_iterator_init 0 [])"

end
