(* ===== verification/Hash_Probing.thy ===== *)
theory Hash_Probing
  imports Hash_Table
begin

text \<open>
  What the probe loop of \<^verbatim>\<open>hash_find_entry\<close> finds.  The table size 14293 is prime, so a probe
  sequence visits every slot exactly once; under the invariant of the index the loop returns the slot
  that holds the phone number or, when there is none, the first slot of the sequence that can be
  claimed.
\<close>

subsection \<open>Double hashing visits every slot\<close>

lemma coprime_by_small_divisors:
  fixes a n b :: nat
  assumes small: "\<forall>d \<in> {2..b}. \<not> d dvd n" and sq: "n < Suc b * Suc b" and a: "0 < a" "a < n"
  shows "coprime a n"
proof (rule ccontr)
  assume "\<not> coprime a n"
  then have g: "gcd a n > 1" using a by (metis coprime_iff_gcd_eq_1 gcd_pos_nat less_one linorder_neqE_nat not_gr_zero)
  have "gcd a n \<le> a" using a by (simp add: gcd_le1_nat)
  from le_less_trans [OF this a(2)] have gl: "gcd a n < n" .
  obtain k where k: "n = gcd a n * k" by (meson dvdE gcd_dvd2)
  have kd: "k dvd n" "gcd a n dvd n" using k by (metis dvd_triv_right, simp)
  have "k > 1" using k gl a by (metis One_nat_def Suc_lessI less_nat_zero_code mult.right_neutral mult_0_right nat_less_le neq0_conv)
  have big: "d > b" if "d dvd n" "d > 1" for d using small that by (rule_tac ccontr) auto
  from \<open>k > 1\<close> have "k > b" "gcd a n > b" using big [OF kd(1)] big [OF kd(2) g] by simp_all
  then have "Suc b * Suc b \<le> gcd a n * k" by (intro mult_le_mono) simp_all
  then show False using sq k by simp
qed

lemma hash_table_size_prime: "0 < a \<Longrightarrow> a < HASH_TABLE_SIZE \<Longrightarrow> coprime a HASH_TABLE_SIZE"
proof (rule coprime_by_small_divisors [where b = 119])
  have ok: "\<forall>d \<in> set [2..<120]. 14293 mod d \<noteq> (0 :: nat)" by (simp add: upt_rec_numeral)
  show "\<forall>d \<in> {2..119}. \<not> d dvd HASH_TABLE_SIZE"
  proof
    fix d :: nat assume "d \<in> {2..119}"
    then have "d \<in> set [2..<120]" unfolding set_upt by auto
    with ok have "14293 mod d \<noteq> 0" by blast
    then show "\<not> d dvd HASH_TABLE_SIZE" by (simp add: layout dvd_eq_mod_eq_0)
  qed
qed (simp_all add: layout)

abbreviation probe :: "nat \<Rightarrow> nat \<Rightarrow> nat" where
  "probe h i \<equiv> hash_double h i HASH_TABLE_SIZE"

definition probe_slots :: "nat \<Rightarrow> nat list" where
  "probe_slots h = map (probe h) [0..<HASH_TABLE_SIZE]"

lemma hash_secondary_range: "0 < hash_secondary h HASH_TABLE_SIZE" "hash_secondary h HASH_TABLE_SIZE < HASH_TABLE_SIZE"
proof -
  have "h mod 14292 < 14292" by simp
  then have "1 + h mod 14292 < 14293" by linarith
  then show "0 < hash_secondary h HASH_TABLE_SIZE" "hash_secondary h HASH_TABLE_SIZE < HASH_TABLE_SIZE"
    by (simp_all add: hash_secondary_def layout)
qed

lemma probe_less: "probe h i < HASH_TABLE_SIZE"
  by (simp add: hash_double_def layout)

lemma probe_inj:
  assumes "i < j" and "j < HASH_TABLE_SIZE" and "probe h i = probe h j"
  shows False
proof -
  let ?s = "hash_secondary h HASH_TABLE_SIZE" and ?n = HASH_TABLE_SIZE
  have "?n dvd (hash_primary h ?n + j * ?s) - (hash_primary h ?n + i * ?s)"
    using assms by (intro mod_eq_dvd_iff_nat [THEN iffD1]) (auto simp: hash_double_def)
  then have "?n dvd (j - i) * ?s" by (simp add: diff_mult_distrib)
  moreover have "coprime ?n ?s" using hash_table_size_prime [OF hash_secondary_range] by (simp add: coprime_commute)
  ultimately have "?n dvd j - i" by (simp add: coprime_dvd_mult_left_iff)
  then show False using assms by (simp add: dvd_imp_le nat_dvd_not_less)
qed

lemma distinct_probe_slots: "distinct (probe_slots h)"
proof -
  have "inj_on (probe h) {..<HASH_TABLE_SIZE}"
    by (rule inj_onI) (metis lessThan_iff linorder_neqE_nat probe_inj)
  then show ?thesis by (simp add: probe_slots_def distinct_map lessThan_atLeast0)
qed

lemma set_probe_slots: "set (probe_slots h) = {..<HASH_TABLE_SIZE}"
proof (rule card_subset_eq)
  show "set (probe_slots h) \<subseteq> {..<HASH_TABLE_SIZE}" using probe_less by (auto simp: probe_slots_def)
  show "Finite_Set.card (set (probe_slots h)) = Finite_Set.card {..<HASH_TABLE_SIZE}"
    using distinct_card [OF distinct_probe_slots] by (simp add: probe_slots_def)
qed simp

lemma length_probe_slots [simp]: "length (probe_slots h) = HASH_TABLE_SIZE"
  by (simp add: probe_slots_def)

lemma nth_probe_slots: "i < HASH_TABLE_SIZE \<Longrightarrow> probe_slots h ! i = probe h i"
  by (simp add: probe_slots_def)

lemma probe_position: "s < HASH_TABLE_SIZE \<Longrightarrow> \<exists>k < HASH_TABLE_SIZE. probe h k = s"
  using set_probe_slots [of h] unfolding probe_slots_def set_map set_upt by (metis atLeastLessThan_iff imageE lessThan_iff)

subsection \<open>What the index stands for\<close>

text \<open>
  \<open>cs\<close> is the map of the contacts on the card.  \<open>phone_index\<close> maps a phone number to the slot
  that holds it, \<open>phone_book\<close> to its contact.
\<close>

definition phone_of :: "Contact \<Rightarrow> byte list" where
  "phone_of c = cstr (c_phone c)"

definition occupied_slots :: "HashTable \<Rightarrow> nat list" where
  "occupied_slots t = filter (\<lambda>i. he_state (entry_at t i) = ENTRY_OCCUPIED) [0..<ht_size t]"

definition slot_contact :: "(nat \<Rightarrow> Contact option) \<Rightarrow> HashTable \<Rightarrow> nat \<Rightarrow> Contact" where
  "slot_contact cs t i = the (cs (he_sector (entry_at t i)))"

abbreviation slot_phone :: "(nat \<Rightarrow> Contact option) \<Rightarrow> HashTable \<Rightarrow> nat \<Rightarrow> byte list" where
  "slot_phone cs t i \<equiv> phone_of (slot_contact cs t i)"

definition phone_index :: "(nat \<Rightarrow> Contact option) \<Rightarrow> HashTable \<Rightarrow> byte list \<Rightarrow> nat option" where
  "phone_index cs t = map_of (map (\<lambda>i. (slot_phone cs t i, i)) (occupied_slots t))"

definition phone_book :: "(nat \<Rightarrow> Contact option) \<Rightarrow> HashTable \<Rightarrow> byte list \<Rightarrow> Contact option" where
  "phone_book cs t phone = map_option (slot_contact cs t) (phone_index cs t phone)"

definition first_claimable :: "HashTable \<Rightarrow> nat \<Rightarrow> nat option" where
  "first_claimable t h = List.find (\<lambda>i. is_new_entry (entry_at t i)) (probe_slots h)"

text \<open>No slot before \<open>i\<close> in its own probe sequence is empty, so a search does not stop early.\<close>

definition reachable :: "HashTable \<Rightarrow> nat \<Rightarrow> nat \<Rightarrow> bool" where
  "reachable t h i \<longleftrightarrow>
     (\<exists>k < HASH_TABLE_SIZE. probe h k = i \<and> (\<forall>j < k. he_state (entry_at t (probe h j)) \<noteq> ENTRY_EMPTY))"

definition entry_ok :: "(nat \<Rightarrow> Contact option) \<Rightarrow> HashTable \<Rightarrow> nat \<Rightarrow> bool" where
  "entry_ok cs t i \<longleftrightarrow>
     (let e = entry_at t i
      in he_sector e < HASH_TABLE_ENTRIES \<and> cs (he_sector e) \<noteq> None \<and>
         0 \<in> set (c_phone (slot_contact cs t i)) \<and> he_id e = hash_phone (slot_phone cs t i) \<and> reachable t (he_id e) i)"

definition index_ok :: "(nat \<Rightarrow> Contact option) \<Rightarrow> HashTable \<Rightarrow> bool" where
  "index_ok cs t \<longleftrightarrow>
     length (ht_htable t) = HASH_TABLE_SIZE \<and> ht_size t = HASH_TABLE_SIZE \<and>
     (\<forall>i \<in> set (occupied_slots t). entry_ok cs t i) \<and>
     distinct (map (slot_phone cs t) (occupied_slots t)) \<and> ht_num_elems t = length (occupied_slots t)"

definition reads_as :: "'c Storage \<Rightarrow> 'c pers \<Rightarrow> (nat \<Rightarrow> Contact option) \<Rightarrow> bool" where
  "reads_as S p cs \<longleftrightarrow>
     (\<forall>i < HASH_TABLE_ENTRIES.
        read_contact S p i = (case cs i of None \<Rightarrow> Inl STRG_EMPTY | Some c \<Rightarrow> Inr c))"

lemma set_occupied_slots: "set (occupied_slots t) = {i. i < ht_size t \<and> he_state (entry_at t i) = ENTRY_OCCUPIED}"
  by (auto simp: occupied_slots_def)

lemma sorted_occupied_slots: "sorted_wrt (<) (occupied_slots t)" "distinct (occupied_slots t)"
  by (simp_all add: occupied_slots_def sorted_wrt_filter)

lemma phone_index_Some:
  assumes "distinct (map (slot_phone cs t) (occupied_slots t))"
  shows "phone_index cs t phone = Some i \<longleftrightarrow> i \<in> set (occupied_slots t) \<and> slot_phone cs t i = phone"
  using assms by (auto simp: phone_index_def o_def map_of_eq_Some_iff dest: map_of_SomeD)

lemma phone_index_None:
  "phone_index cs t phone = None \<longleftrightarrow> (\<forall>i \<in> set (occupied_slots t). slot_phone cs t i \<noteq> phone)"
  by (force simp: phone_index_def map_of_eq_None_iff)

lemma index_okD:
  assumes "index_ok cs t"
  shows "length (ht_htable t) = HASH_TABLE_SIZE" "ht_size t = HASH_TABLE_SIZE"
    "i \<in> set (occupied_slots t) \<Longrightarrow> entry_ok cs t i" "distinct (map (slot_phone cs t) (occupied_slots t))"
    "ht_num_elems t = length (occupied_slots t)"
  using assms by (simp_all add: index_ok_def)

lemma phone_book_cong:
  assumes "phone_index cs' t' ph = phone_index cs t ph"
    and "\<And>i. phone_index cs t ph = Some i \<Longrightarrow> slot_contact cs' t' i = slot_contact cs t i"
  shows "phone_book cs' t' ph = phone_book cs t ph"
  using assms by (cases "phone_index cs t ph") (simp_all add: phone_book_def)

lemma indexed:
  assumes "index_ok cs t" and "phone_index cs t ph = Some i"
  shows "i \<in> set (occupied_slots t)" "slot_phone cs t i = ph"
  using assms phone_index_Some [OF index_okD(4) [OF assms(1)], of ph i] by simp_all

lemma indexed_once:
  assumes "index_ok cs t" and "phone_index cs t a = Some i" and "phone_index cs t b = Some j" and "a \<noteq> b"
  shows "i \<noteq> j"
  using indexed(2) [OF assms(1,2)] indexed(2) [OF assms(1,3)] assms(4) by blast

subsection \<open>The probe loop\<close>

lemma hash_double_u16: "to_u16 HASH_TABLE_SIZE = HASH_TABLE_SIZE" "to_u16 (x mod HASH_TABLE_SIZE) = x mod HASH_TABLE_SIZE"
proof -
  have "x mod 14293 < 14293" by simp
  then show "to_u16 HASH_TABLE_SIZE = HASH_TABLE_SIZE" "to_u16 (x mod HASH_TABLE_SIZE) = x mod HASH_TABLE_SIZE"
    by (simp_all add: layout)
qed

lemma hash_find_loop_step:
  assumes "ht_size t = HASH_TABLE_SIZE" and "i < HASH_TABLE_SIZE"
    and "h1 = hash_primary h HASH_TABLE_SIZE" and "h2 = hash_secondary h HASH_TABLE_SIZE"
    and "he_state (entry_at t (probe h i)) = ENTRY_OCCUPIED \<Longrightarrow>
      read_contact S p (he_sector (entry_at t (probe h i))) = Inr (slot_contact cs t (probe h i)) \<and>
      he_id (entry_at t (probe h i)) = hash_phone (slot_phone cs t (probe h i))"
    and "h = hash_phone phone"
  shows "\<exists>c'. hash_find_loop S p t phone h h1 h2 i ff c =
    (case he_state (entry_at t (probe h i)) of
       ENTRY_EMPTY \<Rightarrow> Some (case ff of Some f \<Rightarrow> f | None \<Rightarrow> probe h i)
     | ENTRY_DELETED \<Rightarrow> hash_find_loop S p t phone h h1 h2 (Suc i) (case ff of Some f \<Rightarrow> Some f | None \<Rightarrow> Some (probe h i)) c
     | ENTRY_OCCUPIED \<Rightarrow>
         if slot_phone cs t (probe h i) = phone then Some (probe h i) else hash_find_loop S p t phone h h1 h2 (Suc i) ff c')"
proof -
  have ix: "to_u16 ((h1 + i * h2) mod ht_size t) = probe h i"
    using assms(1,3,4) by (simp add: hash_double_u16 hash_double_def)
  show ?thesis
    unfolding hash_find_loop.simps [of S p t phone h h1 h2 i] Let_def ix
    using assms(1,2) assms(5,6)
    by (cases "he_state (entry_at t (probe h i))") (auto simp: phone_of_def)
qed

lemma hash_find_loop_present:
  assumes sz: "ht_size t = HASH_TABLE_SIZE"
    and occ: "\<And>i. i \<in> set (occupied_slots t) \<Longrightarrow>
      read_contact S p (he_sector (entry_at t i)) = Inr (slot_contact cs t i) \<and> he_id (entry_at t i) = hash_phone (slot_phone cs t i)"
    and h: "h = hash_phone phone" "h1 = hash_primary h HASH_TABLE_SIZE" "h2 = hash_secondary h HASH_TABLE_SIZE"
    and s: "s \<in> set (occupied_slots t)" "slot_phone cs t s = phone"
    and k: "k < HASH_TABLE_SIZE" "probe h k = s" "\<forall>j < k. he_state (entry_at t (probe h j)) \<noteq> ENTRY_EMPTY"
    and uniq: "\<And>i. i \<in> set (occupied_slots t) \<Longrightarrow> slot_phone cs t i = phone \<Longrightarrow> i = s"
    and i: "i \<le> k"
  shows "hash_find_loop S p t phone h h1 h2 i ff c = Some s"
  using i
proof (induction "k - i" arbitrary: i ff c)
  case 0
  then have "i = k" by simp
  then have pr: "probe h i = s" "i < HASH_TABLE_SIZE" "he_state (entry_at t s) = ENTRY_OCCUPIED"
    using k s by (simp_all add: set_occupied_slots)
  with hash_find_loop_step [OF sz pr(2) h(2,3) _ h(1), of S p cs ff c] occ [OF s(1)] s(2) show ?case by auto
next
  case (Suc d)
  then have l: "i < k" "i < HASH_TABLE_SIZE" using k by simp_all
  have ne: "probe h i \<noteq> s" using probe_inj [OF l(1) k(1)] k(2) by metis
  have mem: "probe h i \<in> set (occupied_slots t)" if "he_state (entry_at t (probe h i)) = ENTRY_OCCUPIED"
    using that probe_less sz by (simp add: set_occupied_slots)
  have st: "he_state (entry_at t (probe h i)) \<noteq> ENTRY_EMPTY" using k(3) l by blast
  have IH: "hash_find_loop S p t phone h h1 h2 (Suc i) ff c = Some s" for ff c using Suc l by simp
  from hash_find_loop_step [OF sz l(2) h(2,3) _ h(1), of S p cs ff c] occ [OF mem] uniq [OF mem] ne st IH
  show ?case by (cases "he_state (entry_at t (probe h i))") auto
qed

lemma hash_find_loop_absent:
  assumes sz: "ht_size t = HASH_TABLE_SIZE"
    and occ: "\<And>i. i \<in> set (occupied_slots t) \<Longrightarrow>
      read_contact S p (he_sector (entry_at t i)) = Inr (slot_contact cs t i) \<and> he_id (entry_at t i) = hash_phone (slot_phone cs t i)"
    and h: "h = hash_phone phone" "h1 = hash_primary h HASH_TABLE_SIZE" "h2 = hash_secondary h HASH_TABLE_SIZE"
    and no: "\<And>i. i \<in> set (occupied_slots t) \<Longrightarrow> slot_phone cs t i \<noteq> phone"
    and i: "i \<le> HASH_TABLE_SIZE"
  shows "hash_find_loop S p t phone h h1 h2 i ff c =
    (case ff of Some f \<Rightarrow> Some f | None \<Rightarrow> List.find (\<lambda>i. is_new_entry (entry_at t i)) (map (probe h) [i..<HASH_TABLE_SIZE]))"
  using i
proof (induction "HASH_TABLE_SIZE - i" arbitrary: i ff c)
  case 0
  then have "\<not> i < HASH_TABLE_SIZE" by simp
  then show ?case unfolding hash_find_loop.simps [of S p t phone h h1 h2 i] using sz by (simp split: option.splits)
next
  case (Suc d)
  then have l: "i < HASH_TABLE_SIZE" by simp
  have mem: "probe h i \<in> set (occupied_slots t)" if "he_state (entry_at t (probe h i)) = ENTRY_OCCUPIED"
    using that probe_less sz by (simp add: set_occupied_slots)
  have IH: "hash_find_loop S p t phone h h1 h2 (Suc i) ff c = (case ff of Some f \<Rightarrow> Some f
    | None \<Rightarrow> List.find (\<lambda>i. is_new_entry (entry_at t i)) (map (probe h) [Suc i..<HASH_TABLE_SIZE]))" for ff c
    using Suc l by simp
  from hash_find_loop_step [OF sz l h(2,3) _ h(1), of S p cs ff c] occ [OF mem] no [OF mem] IH
  show ?case using l
    by (cases "he_state (entry_at t (probe h i))") (auto simp: upt_conv_Cons split: option.splits)
qed

theorem hash_find_entry_sem:
  assumes ok: "index_ok cs t" and rd: "reads_as S p cs"
  shows "hash_find_entry S p t phone =
    (case phone_index cs t phone of Some i \<Rightarrow> Some i | None \<Rightarrow> first_claimable t (hash_phone phone))"
proof -
  note t = index_okD [OF ok]
  have occ: "read_contact S p (he_sector (entry_at t i)) = Inr (slot_contact cs t i) \<and>
      he_id (entry_at t i) = hash_phone (slot_phone cs t i)" if "i \<in> set (occupied_slots t)" for i
    using t(3) [OF that] rd by (auto simp: entry_ok_def reads_as_def slot_contact_def Let_def)
  have eq: "hash_find_entry S p t phone = hash_find_loop S p t phone (hash_phone phone)
      (hash_primary (hash_phone phone) HASH_TABLE_SIZE) (hash_secondary (hash_phone phone) HASH_TABLE_SIZE) 0 None (ht_stale t)"
    by (simp add: hash_find_entry_def t(2) hash_double_u16 Let_def)
  show ?thesis
  proof (cases "phone_index cs t phone")
    case None
    then show ?thesis unfolding eq
      using hash_find_loop_absent [OF t(2) occ refl refl refl, of phone 0 None] None [unfolded phone_index_None]
      by (simp add: None first_claimable_def probe_slots_def)
  next
    case (Some s)
    then have s: "s \<in> set (occupied_slots t)" "slot_phone cs t s = phone" by (simp_all add: phone_index_Some [OF t(4)])
    obtain k where k: "k < HASH_TABLE_SIZE" "probe (hash_phone phone) k = s"
        "\<forall>j < k. he_state (entry_at t (probe (hash_phone phone) j)) \<noteq> ENTRY_EMPTY"
      using t(3) [OF s(1)] s(2) by (auto simp: entry_ok_def reachable_def Let_def)
    have uniq: "i = s" if i: "i \<in> set (occupied_slots t)" "slot_phone cs t i = phone" for i
    proof -
      have "phone_index cs t phone = Some i" using phone_index_Some [OF t(4)] i by blast
      then show ?thesis using Some by simp
    qed
    show ?thesis unfolding eq Some option.case
      by (rule hash_find_loop_present [OF t(2) occ refl refl refl s k uniq]) simp_all
  qed
qed

lemma first_claimable_Some:
  assumes "first_claimable t h = Some i"
  shows "i < HASH_TABLE_SIZE" "is_new_entry (entry_at t i)" "reachable t h i"
    "\<exists>k < HASH_TABLE_SIZE. probe h k = i \<and> (\<forall>j < k. he_state (entry_at t (probe h j)) = ENTRY_OCCUPIED)"
proof -
  obtain k where k0: "k < HASH_TABLE_SIZE" "is_new_entry (entry_at t (probe_slots h ! k))" "i = probe_slots h ! k"
      "\<forall>j < k. \<not> is_new_entry (entry_at t (probe_slots h ! j))"
    using assms unfolding first_claimable_def find_Some_iff length_probe_slots by blast
  have k: "k < HASH_TABLE_SIZE" "probe h k = i" "is_new_entry (entry_at t i)"
    using k0(1,2,3) nth_probe_slots [OF k0(1)] by simp_all
  have new: "\<not> is_new_entry (entry_at t (probe h j))" if "j < k" for j
  proof -
    have "j < HASH_TABLE_SIZE" using that k0(1) by simp
    then show ?thesis using k0(4) that nth_probe_slots [of j h] by (metis (lifting))
  qed
  have o: "he_state (entry_at t (probe h j)) = ENTRY_OCCUPIED" if "j < k" for j
    using new [OF that] by (cases "he_state (entry_at t (probe h j))") simp_all
  show "i < HASH_TABLE_SIZE" using k(2) probe_less by blast
  show "is_new_entry (entry_at t i)" by (rule k(3))
  show "reachable t h i" unfolding reachable_def using k(1,2) o by force
  show "\<exists>k < HASH_TABLE_SIZE. probe h k = i \<and> (\<forall>j < k. he_state (entry_at t (probe h j)) = ENTRY_OCCUPIED)"
    using k(1,2) o by blast
qed

lemma first_claimable_None: "first_claimable t h = None \<longleftrightarrow> (\<forall>i < HASH_TABLE_SIZE. \<not> is_new_entry (entry_at t i))"
  by (auto simp: first_claimable_def find_None_iff set_probe_slots)

lemma first_claimable_occupied:
  "ht_size t = HASH_TABLE_SIZE \<Longrightarrow> first_claimable t h = Some i \<Longrightarrow> i \<notin> set (occupied_slots t)"
  using first_claimable_Some(2) [of t h i] by (auto simp: set_occupied_slots)

subsection \<open>How the index changes\<close>

lemma reachable_mono:
  assumes "reachable t h i" and "\<And>j. he_state (entry_at t' j) = ENTRY_EMPTY \<Longrightarrow> he_state (entry_at t j) = ENTRY_EMPTY"
  shows "reachable t' h i"
  using assms unfolding reachable_def by blast

lemma index_okI:
  assumes "length (ht_htable t) = HASH_TABLE_SIZE" and "ht_size t = HASH_TABLE_SIZE"
    and "\<And>i. i \<in> set (occupied_slots t) \<Longrightarrow> entry_ok cs t i" and "inj_on (slot_phone cs t) (set (occupied_slots t))"
    and "ht_num_elems t = Finite_Set.card (set (occupied_slots t))"
  shows "index_ok cs t"
  using assms distinct_card [OF sorted_occupied_slots(2), of t]
  by (simp add: index_ok_def distinct_map sorted_occupied_slots)

lemma index_ok_inj: "index_ok cs t \<Longrightarrow> inj_on (slot_phone cs t) (set (occupied_slots t))"
  by (simp add: index_ok_def distinct_map)

lemma index_ok_sector:
  assumes "index_ok cs t" and "i \<in> set (occupied_slots t)" and "j \<in> set (occupied_slots t)"
    and "he_sector (entry_at t i) = he_sector (entry_at t j)"
  shows "i = j"
  using index_ok_inj [OF assms(1)] assms(2-4) by (simp add: inj_on_def slot_contact_def)

lemma index_ok_cong:
  assumes "index_ok cs t" and "ht_htable t' = ht_htable t" and "ht_size t' = ht_size t" and "ht_num_elems t' = ht_num_elems t"
  shows "index_ok cs t'" "phone_index cs t' = phone_index cs t" "phone_book cs t' = phone_book cs t"
    "occupied_slots t' = occupied_slots t" "first_claimable t' h = first_claimable t h"
proof -
  have [simp]: "occupied_slots t' = occupied_slots t" "slot_contact cs t' = slot_contact cs t" "reachable t' = reachable t"
    "first_claimable t' = first_claimable t"
    using assms by (simp_all add: occupied_slots_def slot_contact_def reachable_def first_claimable_def fun_eq_iff)
  have "entry_ok cs t' = entry_ok cs t" using assms(2) by (simp add: fun_eq_iff entry_ok_def)
  then show "index_ok cs t'" using assms by (simp add: index_ok_def)
  show "phone_index cs t' = phone_index cs t" "phone_book cs t' = phone_book cs t" "occupied_slots t' = occupied_slots t"
    "first_claimable t' h = first_claimable t h"
    by (simp_all add: fun_eq_iff phone_book_def phone_index_def)
qed

text \<open>A free slot \<open>e\<close> that the phone number can reach is claimed for the contact in slot \<open>sec\<close> of the card.\<close>

lemma index_claim:
  assumes ok: "index_ok cs t" and free: "phone_index cs t (phone_of c) = None"
    and e: "e < HASH_TABLE_SIZE" "is_new_entry (entry_at t e)" "reachable t (hash_phone (phone_of c)) e"
    and sec: "sec < HASH_TABLE_ENTRIES" "cs sec = None" and c: "0 \<in> set (c_phone c)"
    and t': "ht_htable t' = (ht_htable t)[e := en]" "ht_size t' = ht_size t" "ht_num_elems t' = ht_num_elems t + 1"
    and en: "he_id en = hash_phone (phone_of c)" "he_sector en = sec" "he_state en = ENTRY_OCCUPIED"
  shows "index_ok (cs(sec \<mapsto> c)) t'" "phone_index (cs(sec \<mapsto> c)) t' = (phone_index cs t)(phone_of c \<mapsto> e)"
    "phone_book (cs(sec \<mapsto> c)) t' = (phone_book cs t)(phone_of c \<mapsto> c)"
    "set (occupied_slots t') = insert e (set (occupied_slots t))"
proof -
  let ?cs = "cs(sec \<mapsto> c)"
  note t = index_okD [OF ok]
  have at: "entry_at t' i = (if i = e then en else entry_at t i)" for i
    using e(1) t(1) by (simp add: t')
  have occ: "set (occupied_slots t') = insert e (set (occupied_slots t))"
    using e(1) t(2) by (auto simp: set_occupied_slots at t'(2) en)
  have new: "e \<notin> set (occupied_slots t)" using e(2) by (auto simp: set_occupied_slots)
  have reach: "reachable t' h i" if "reachable t h i" for h i
    by (rule reachable_mono [OF that]) (use e(2) in \<open>simp add: at en split: if_splits\<close>)
  have sc: "slot_contact ?cs t' i = (if i = e then c else slot_contact cs t i)" if "i = e \<or> i \<in> set (occupied_slots t)" for i
    using that t(3) [of i] sec(2) new by (auto simp: slot_contact_def at en entry_ok_def Let_def)
  have no: "\<forall>i \<in> set (occupied_slots t). slot_phone cs t i \<noteq> phone_of c" using free by (simp add: phone_index_None)
  have eok: "entry_ok ?cs t' i" if i: "i \<in> set (occupied_slots t')" for i
  proof (cases "i = e")
    case True
    then show ?thesis using sc [of e] c sec(1) en reach [OF e(3)] by (simp add: entry_ok_def at)
  next
    case False
    then have "i \<in> set (occupied_slots t)" using i occ by simp
    then show ?thesis using False t(3) [of i] sc [of i] reach sec(2) by (auto simp: entry_ok_def at Let_def)
  qed
  have "inj_on (slot_phone ?cs t') (set (occupied_slots t'))"
    unfolding occ using index_ok_inj [OF ok] no new sc by (auto simp: inj_on_def)
  then show ok': "index_ok ?cs t'"
    using t new occ eok by (intro index_okI) (simp_all add: t' distinct_card [OF sorted_occupied_slots(2)])
  have idx: "phone_index ?cs t' ph = Some i \<longleftrightarrow> ((phone_index cs t)(phone_of c \<mapsto> e)) ph = Some i" for ph i
    using no new by (auto simp: phone_index_Some [OF index_okD(4) [OF ok']] phone_index_Some [OF t(4)] occ sc split: if_splits)
  show pi: "phone_index ?cs t' = (phone_index cs t)(phone_of c \<mapsto> e)"
    using idx by (metis (no_types) ext option.exhaust)
  show "phone_book ?cs t' = (phone_book cs t)(phone_of c \<mapsto> c)"
  proof
    fix ph show "phone_book ?cs t' ph = ((phone_book cs t)(phone_of c \<mapsto> c)) ph"
    proof (cases "ph = phone_of c")
      case True
      then show ?thesis using sc [of e] by (simp add: phone_book_def pi)
    next
      case False
      have "phone_book ?cs t' ph = phone_book cs t ph"
        by (rule phone_book_cong) (use False new indexed(1) [OF ok, of ph] sc in \<open>auto simp: pi\<close>)
      then show ?thesis using False by simp
    qed
  qed
  show "set (occupied_slots t') = insert e (set (occupied_slots t))" by (rule occ)
qed

text \<open>The slot of a phone number is given up together with its contact.\<close>

lemma index_release:
  assumes ok: "index_ok cs t" and e: "phone_index cs t phone = Some e" and sec: "sec = he_sector (entry_at t e)"
    and t': "ht_htable t' = (ht_htable t)[e := en]" "ht_size t' = ht_size t" "ht_num_elems t' = ht_num_elems t - 1"
    and en: "he_state en = ENTRY_DELETED"
  shows "index_ok (cs(sec := None)) t'" "phone_index (cs(sec := None)) t' = (phone_index cs t)(phone := None)"
    "phone_book (cs(sec := None)) t' = (phone_book cs t)(phone := None)"
    "set (occupied_slots t') = set (occupied_slots t) - {e}"
proof -
  let ?cs = "cs(sec := None)"
  note t = index_okD [OF ok]
  have eo: "e \<in> set (occupied_slots t)" "slot_phone cs t e = phone" using e by (simp_all add: phone_index_Some [OF t(4)])
  then have el: "e < HASH_TABLE_SIZE" "he_state (entry_at t e) = ENTRY_OCCUPIED" using t(2) by (simp_all add: set_occupied_slots)
  have at: "entry_at t' i = (if i = e then en else entry_at t i)" for i
    using el(1) t(1) by (simp add: t')
  have occ: "set (occupied_slots t') = set (occupied_slots t) - {e}"
    using t(2) en by (auto simp: set_occupied_slots at t'(2) split: if_splits)
  have reach: "reachable t' h i" if "reachable t h i" for h i
    by (rule reachable_mono [OF that]) (use en in \<open>simp add: at split: if_splits\<close>)
  have ns: "he_sector (entry_at t i) \<noteq> sec" if "i \<in> set (occupied_slots t)" "i \<noteq> e" for i
    using index_ok_sector [OF ok that(1) eo(1)] that(2) sec by blast
  have sc: "slot_contact ?cs t' i = slot_contact cs t i" if "i \<in> set (occupied_slots t)" "i \<noteq> e" for i
    using ns [OF that] that(2) by (simp add: slot_contact_def at)
  have scp: "\<forall>i \<in> set (occupied_slots t). slot_phone cs t i \<noteq> slot_phone cs t e \<longrightarrow> slot_contact ?cs t' i = slot_contact cs t i"
    using sc by blast
  have eok: "entry_ok ?cs t' i" if "i \<in> set (occupied_slots t')" for i
    using that t(3) [of i] ns [of i] sc [of i] reach unfolding occ by (auto simp: entry_ok_def at Let_def)
  have "inj_on (slot_phone ?cs t') (set (occupied_slots t'))"
    unfolding occ using index_ok_inj [OF ok] sc by (auto simp: inj_on_def)
  then show ok': "index_ok ?cs t'"
    using t eo(1) occ eok by (intro index_okI) (simp_all add: t' distinct_card [OF sorted_occupied_slots(2)])
  have idx: "phone_index ?cs t' ph = Some i \<longleftrightarrow> ((phone_index cs t)(phone := None)) ph = Some i" for ph i
    using eo index_ok_inj [OF ok] scp
    by (auto simp: phone_index_Some [OF index_okD(4) [OF ok']] phone_index_Some [OF t(4)] occ sc inj_on_def)
  show pi: "phone_index ?cs t' = (phone_index cs t)(phone := None)"
    using idx by (metis (no_types) ext option.exhaust)
  show "phone_book ?cs t' = (phone_book cs t)(phone := None)"
  proof
    fix ph show "phone_book ?cs t' ph = ((phone_book cs t)(phone := None)) ph"
    proof (cases "ph = phone")
      case True
      then show ?thesis by (simp add: phone_book_def pi)
    next
      case False
      have "phone_book ?cs t' ph = phone_book cs t ph"
        by (rule phone_book_cong) (use False indexed [OF ok, of ph] eo scp in \<open>auto simp: pi\<close>)
      then show ?thesis using False by simp
    qed
  qed
  show "set (occupied_slots t') = set (occupied_slots t) - {e}" by (rule occ)
qed

text \<open>A contact is replaced by one with the same phone number.\<close>

lemma index_rewrite:
  assumes ok: "index_ok cs t" and e: "phone_index cs t (phone_of c) = Some e" and sec: "sec = he_sector (entry_at t e)"
    and c: "0 \<in> set (c_phone c)"
  shows "index_ok (cs(sec \<mapsto> c)) t" "phone_index (cs(sec \<mapsto> c)) t = phone_index cs t"
    "phone_book (cs(sec \<mapsto> c)) t = (phone_book cs t)(phone_of c \<mapsto> c)"
proof -
  let ?cs = "cs(sec \<mapsto> c)"
  note t = index_okD [OF ok]
  have eo: "e \<in> set (occupied_slots t)" "slot_phone cs t e = phone_of c" using e by (simp_all add: phone_index_Some [OF t(4)])
  have ns: "he_sector (entry_at t i) \<noteq> sec" if "i \<in> set (occupied_slots t)" "i \<noteq> e" for i
    using index_ok_sector [OF ok that(1) eo(1)] that(2) sec by blast
  have sc: "slot_contact ?cs t i = (if i = e then c else slot_contact cs t i)" if "i \<in> set (occupied_slots t)" for i
    using ns [OF that] sec by (auto simp: slot_contact_def)
  have sp: "slot_phone ?cs t i = slot_phone cs t i" if "i \<in> set (occupied_slots t)" for i using sc [OF that] eo(2) by simp
  have eok: "entry_ok ?cs t i" if "i \<in> set (occupied_slots t)" for i
    using that t(3) [of i] sc [of i] c eo(2) by (auto simp: entry_ok_def Let_def)
  have mp: "map (slot_phone ?cs t) (occupied_slots t) = map (slot_phone cs t) (occupied_slots t)" using sp by simp
  then show ok': "index_ok ?cs t" using t eok unfolding index_ok_def mp by simp
  show pi: "phone_index ?cs t = phone_index cs t"
    unfolding phone_index_def using sp by (intro arg_cong [of _ _ map_of]) simp
  show "phone_book ?cs t = (phone_book cs t)(phone_of c \<mapsto> c)"
  proof
    fix ph show "phone_book ?cs t ph = ((phone_book cs t)(phone_of c \<mapsto> c)) ph"
    proof (cases "ph = phone_of c")
      case True
      then show ?thesis using e sc [OF eo(1)] by (simp add: phone_book_def pi)
    next
      case False
      have "phone_book ?cs t ph = phone_book cs t ph"
        by (rule phone_book_cong) (use False indexed [OF ok, of ph] eo sc in \<open>auto simp: pi\<close>)
      then show ?thesis using False by simp
    qed
  qed
qed

end
