(* ===== verification/Hash_Contacts.thy ===== *)
theory Hash_Contacts
  imports Hash_Probing
begin

text \<open>
  The contact operations of the index on a sound card: under one invariant that ties table,
  allocator and card together, each of them is a step of a finite map from phone numbers to contacts.
\<close>

subsection \<open>The invariant\<close>

text \<open>The index names exactly the contacts on the card, and the allocator holds exactly the other slots.
  The last contact sector has room behind the last slot; nothing is stored there.\<close>

definition none_beyond :: "(nat \<Rightarrow> Contact option) \<Rightarrow> bool" where
  "none_beyond cs \<longleftrightarrow> (\<forall>s. HASH_TABLE_ENTRIES \<le> s \<longrightarrow> s div CONTACT_SECTOR_CAPACITY < TOTAL_CONTACT_SECTOR_SIZE \<longrightarrow> cs s = None)"

lemma none_beyond_upd: "none_beyond cs \<Longrightarrow> s < HASH_TABLE_ENTRIES \<or> v = None \<Longrightarrow> none_beyond (cs(s := v))"
  by (auto simp: none_beyond_def)

definition sectors_used :: "HashTable \<Rightarrow> nat set" where
  "sectors_used t = (\<lambda>i. he_sector (entry_at t i)) ` set (occupied_slots t)"

definition contacts_ok :: "(nat \<Rightarrow> byte list) \<Rightarrow> u32 list \<Rightarrow> HashTable \<Rightarrow> bool" where
  "contacts_ok blk bm t \<longleftrightarrow>
     contacts_valid blk bm \<and> none_beyond (contact_at blk bm) \<and> index_ok (contact_at blk bm) t \<and>
     free_list_inv (ht_contact_allocator t) \<and> fl_capacity (ht_contact_allocator t) = HASH_TABLE_ENTRIES \<and>
     avail (ht_contact_allocator t) = {s. s < HASH_TABLE_ENTRIES \<and> contact_at blk bm s = None} \<and>
     sectors_used t = {s. s < HASH_TABLE_ENTRIES \<and> contact_at blk bm s \<noteq> None}"

lemma contacts_okD:
  assumes "contacts_ok blk bm t"
  shows "contacts_valid blk bm" "index_ok (contact_at blk bm) t" "free_list_inv (ht_contact_allocator t)"
    "fl_capacity (ht_contact_allocator t) = HASH_TABLE_ENTRIES"
    "avail (ht_contact_allocator t) = {s. s < HASH_TABLE_ENTRIES \<and> contact_at blk bm s = None}"
    "sectors_used t = {s. s < HASH_TABLE_ENTRIES \<and> contact_at blk bm s \<noteq> None}" "none_beyond (contact_at blk bm)"
  using assms by (simp_all add: contacts_ok_def)

lemma slot_in_region: "s < HASH_TABLE_ENTRIES \<Longrightarrow> s div CONTACT_SECTOR_CAPACITY < TOTAL_CONTACT_SECTOR_SIZE"
  by (simp add: layout)

text \<open>There are more slots than contact records, so the table itself never fills up.\<close>

lemma occupied_bound:
  assumes "contacts_ok blk bm t"
  shows "length (occupied_slots t) = Finite_Set.card (sectors_used t)" "length (occupied_slots t) \<le> HASH_TABLE_ENTRIES"
proof -
  note t = contacts_okD [OF assms]
  have "inj_on (\<lambda>i. he_sector (entry_at t i)) (set (occupied_slots t))"
    using index_ok_sector [OF t(2)] by (auto intro: inj_onI)
  then show l: "length (occupied_slots t) = Finite_Set.card (sectors_used t)"
    by (simp add: sectors_used_def card_image distinct_card [OF sorted_occupied_slots(2)])
  have "sectors_used t \<subseteq> {..<HASH_TABLE_ENTRIES}" unfolding t(6) by auto
  then have "Finite_Set.card (sectors_used t) \<le> Finite_Set.card {..<HASH_TABLE_ENTRIES}" by (rule card_mono [rotated]) simp
  then show "length (occupied_slots t) \<le> HASH_TABLE_ENTRIES" unfolding l by simp
qed

lemma claimable_room:
  assumes "ht_size t = HASH_TABLE_SIZE" and "length (occupied_slots t) < HASH_TABLE_SIZE"
  shows "\<exists>e. first_claimable t h = Some e"
proof (rule ccontr)
  assume "\<not> ?thesis"
  then have "first_claimable t h = None" by simp
  then have none: "\<And>i. i < HASH_TABLE_SIZE \<Longrightarrow> \<not> is_new_entry (entry_at t i)" by (simp add: first_claimable_None)
  have "he_state (entry_at t i) = ENTRY_OCCUPIED" if "i < HASH_TABLE_SIZE" for i
    using none [OF that] by (cases "he_state (entry_at t i)") simp_all
  then have "set (occupied_slots t) = {..<HASH_TABLE_SIZE}" using assms(1) by (auto simp: set_occupied_slots)
  then show False using assms(2) distinct_card [OF sorted_occupied_slots(2), of t] by simp
qed

lemma claimable_exists:
  assumes "contacts_ok blk bm t"
  shows "\<exists>e. first_claimable t h = Some e"
  using index_okD(2) [OF contacts_okD(2) [OF assms]] occupied_bound(2) [OF assms] by (intro claimable_room) (simp_all add: layout)

lemma free_contact_slots:
  assumes "contacts_ok blk bm t"
  shows "avail (ht_contact_allocator t) = {} \<longleftrightarrow> length (occupied_slots t) = HASH_TABLE_ENTRIES"
proof -
  note t = contacts_okD [OF assms]
  have u: "sectors_used t \<subseteq> {..<HASH_TABLE_ENTRIES}" "avail (ht_contact_allocator t) = {..<HASH_TABLE_ENTRIES} - sectors_used t"
    unfolding t(5,6) by auto
  have "sectors_used t = {..<HASH_TABLE_ENTRIES} \<longleftrightarrow> Finite_Set.card (sectors_used t) = HASH_TABLE_ENTRIES"
    using card_subset_eq [OF finite_lessThan u(1)] by (metis card_lessThan)
  moreover have "avail (ht_contact_allocator t) = {} \<longleftrightarrow> sectors_used t = {..<HASH_TABLE_ENTRIES}"
    unfolding u(2) using u(1) by blast
  ultimately show ?thesis unfolding occupied_bound(1) [OF assms] by (rule trans [rotated])
qed

lemma sectors_used_cong: "ht_htable t' = ht_htable t \<Longrightarrow> ht_size t' = ht_size t \<Longrightarrow> sectors_used t' = sectors_used t"
  by (simp add: sectors_used_def occupied_slots_def)

lemma sectors_used_claim:
  assumes "set (occupied_slots t') = insert e (set (occupied_slots t))" and "e \<notin> set (occupied_slots t)"
    and "ht_htable t' = (ht_htable t)[e := en]" and "e < length (ht_htable t)"
  shows "sectors_used t' = insert (he_sector en) (sectors_used t)"
  using assms(2,4) unfolding sectors_used_def assms(1,3) by (auto simp: nth_list_update)

lemma sectors_used_release:
  assumes "index_ok cs t" and "set (occupied_slots t') = set (occupied_slots t) - {e}" and "e \<in> set (occupied_slots t)"
    and "ht_htable t' = (ht_htable t)[e := en]"
  shows "sectors_used t' = sectors_used t - {he_sector (entry_at t e)}"
  using assms(3) index_ok_sector [OF assms(1) _ assms(3)] unfolding sectors_used_def assms(2,4)
  by (auto simp: nth_list_update)

context reliable_store begin

lemma contacts_read_as:
  assumes "pers_ok S ok blk p" and "contacts_valid (blk (dev p)) (usage_bitmap p)"
  shows "reads_as S p (contact_at (blk (dev p)) (usage_bitmap p))"
  using read_contact_sem [OF assms slot_in_region] by (simp add: reads_as_def)

lemma find_entry_on_card:
  assumes "pers_ok S ok blk p" and "contacts_ok (blk (dev p)) (usage_bitmap p) t"
  shows "hash_find_entry S p t phone =
    (case phone_index (contact_at (blk (dev p)) (usage_bitmap p)) t phone of
       Some i \<Rightarrow> Some i | None \<Rightarrow> first_claimable t (hash_phone phone))"
  by (rule hash_find_entry_sem [OF contacts_okD(2) [OF assms(2)] contacts_read_as [OF assms(1) contacts_okD(1) [OF assms(2)]]])

subsection \<open>Looking up\<close>

lemma find_contact_sem:
  assumes "pers_ok S ok blk p" and "contacts_ok (blk (dev p)) (usage_bitmap p) t"
  shows "hash_find_contact S p t phone =
    (case phone_book (contact_at (blk (dev p)) (usage_bitmap p)) t phone of Some c \<Rightarrow> (True, Some c) | None \<Rightarrow> (False, None))"
proof -
  let ?cs = "contact_at (blk (dev p)) (usage_bitmap p)"
  note t = contacts_okD [OF assms(2)]
  note ix = index_okD [OF t(2)]
  have sz: "ht_size t \<noteq> 0" using ix(2) by (simp add: layout)
  obtain e where e: "first_claimable t (hash_phone phone) = Some e" using claimable_exists [OF assms(2)] by blast
  show ?thesis
  proof (cases "phone_index ?cs t phone")
    case None
    then show ?thesis using sz e first_claimable_Some(2) [OF e]
      by (auto simp: hash_find_contact_def find_entry_on_card [OF assms] phone_book_def)
  next
    case (Some i)
    note i = indexed [OF t(2) Some]
    have "he_state (entry_at t i) = ENTRY_OCCUPIED" using i(1) by (simp add: set_occupied_slots)
    moreover have "entry_ok ?cs t i" by (rule ix(3) [OF i(1)])
    ultimately show ?thesis using sz contacts_read_as [OF assms(1) t(1)]
      by (auto simp: hash_find_contact_def find_entry_on_card [OF assms] Some phone_book_def entry_ok_def Let_def
          found_as_bool_def slot_contact_def reads_as_def strg_true_def)
  qed
qed

subsection \<open>Inserting\<close>

lemma insert_contact_sem:
  assumes p: "pers_ok S ok blk p" and ok: "contacts_ok (blk (dev p)) (usage_bitmap p) t"
    and c: "contact_wf c" "0 \<in> set (c_phone c)" and w: "hash_insert_contact S p t c = (r, slot, t', p')"
  defines "cs \<equiv> contact_at (blk (dev p)) (usage_bitmap p)" and "cs' \<equiv> contact_at (blk (dev p')) (usage_bitmap p')"
  shows "case phone_index cs t (phone_of c) of
      Some i \<Rightarrow> r = STRG_EXISTS \<and> slot = Some i \<and> t' = t \<and> p' = p
    | None \<Rightarrow>
        if length (occupied_slots t) = HASH_TABLE_ENTRIES then r = STRG_FULL \<and> t' = t \<and> p' = p
        else r = STRG_OK \<and> pers_ok S ok blk p' \<and> contacts_ok (blk (dev p')) (usage_bitmap p') t' \<and>
          phone_book cs' t' = (phone_book cs t)(phone_of c \<mapsto> c) \<and>
          (\<exists>e. slot = Some e \<and> phone_index cs' t' = (phone_index cs t)(phone_of c \<mapsto> e) \<and>
            ht_message_allocator t' = ht_message_allocator t \<and> e \<notin> set (occupied_slots t) \<and>
            set (occupied_slots t') = insert e (set (occupied_slots t)) \<and>
            (\<exists>s < HASH_TABLE_ENTRIES. s \<notin> sectors_used t \<and>
               ht_htable t' = (ht_htable t)[e := \<lparr>he_id = hash_phone (phone_of c), he_sector = s,
                  he_latest_msg_extent = UINT16_MAX, he_state = ENTRY_OCCUPIED\<rparr>] \<and>
               write_contact S p s c = (STRG_OK, p')))"
proof -
  note t = contacts_okD [OF ok]
  note ix = index_okD [OF t(2)]
  note find = find_entry_on_card [OF p ok, folded cs_def]
  note ua = index_ok_cong [OF t(2), folded cs_def]
  show ?thesis
  proof (cases "phone_index cs t (phone_of c)")
    case (Some i)
    have "i \<in> set (occupied_slots t)" using indexed(1) [OF t(2), folded cs_def, OF Some] .
    then have "he_state (entry_at t i) = ENTRY_OCCUPIED" "i < 65536" using ix(2) by (simp_all add: set_occupied_slots layout)
    then have "(r, slot, t', p') = (STRG_EXISTS, Some i, t, p)" using w Some find [of "phone_of c"]
      by (simp add: hash_insert_contact_def hash_slot_of_def phone_of_def Let_def)
    then show ?thesis by (simp add: Some)
  next
    case None
    obtain e where e: "first_claimable t (hash_phone (phone_of c)) = Some e" using claimable_exists [OF ok] by blast
    note fc = first_claimable_Some [OF e]
    have fe: "hash_find_entry S p t (cstr (c_phone c)) = Some e" using find [of "phone_of c"] None e by (simp add: phone_of_def)
    have el: "hash_slot_of t e = e" using fc(1) by (simp add: hash_slot_of_def layout)
    obtain s ca where al: "free_list_allocate (ht_contact_allocator t) = (s, ca)" by (meson surj_pair)
    show ?thesis
    proof (cases "avail (ht_contact_allocator t) = {}")
      case True
      then have "length (occupied_slots t) = HASH_TABLE_ENTRIES" "s = UINT16_MAX" "ca = ht_contact_allocator t"
        using free_contact_slots [OF ok] fls.alloc_none [OF t(3)] al by simp_all
      then show ?thesis using w None fe fc(2) al by (auto simp: hash_insert_contact_def Let_def)
    next
      case False
      then have full: "length (occupied_slots t) \<noteq> HASH_TABLE_ENTRIES" using free_contact_slots [OF ok] by simp
      note a = fls.alloc_some [OF t(3) False al]
      then have s: "s < HASH_TABLE_ENTRIES" "cs s = None" "s \<noteq> UINT16_MAX" unfolding t(5) by (auto simp: cs_def layout)
      obtain rw pw where wr: "write_contact S p s c = (rw, pw)" by (meson surj_pair)
      note st = write_contact_sem [OF p t(1) slot_in_region [OF s(1)] c(1) wr, folded cs_def]
      define en where "en = \<lparr>he_id = hash_phone (phone_of c), he_sector = s, he_latest_msg_extent = UINT16_MAX, he_state = ENTRY_OCCUPIED\<rparr>"
      have res: "r = STRG_OK" "slot = Some e" "p' = pw" "ht_htable t' = (ht_htable t)[e := en]" "ht_size t' = ht_size t"
          "ht_num_elems t' = ht_num_elems t + 1" "ht_contact_allocator t' = ca" "ht_message_allocator t' = ht_message_allocator t"
        using w fe fc(2) al wr st s(3) el by (auto simp: hash_insert_contact_def Let_def set_entry_def en_def phone_of_def)
      have en: "he_id en = hash_phone (phone_of c)" "he_sector en = s" "he_state en = ENTRY_OCCUPIED" by (simp_all add: en_def)
      have cs': "cs' = cs(s \<mapsto> c)" using st res(3) by (simp add: cs'_def)
      note cl = index_claim [OF t(2) [folded cs_def] None fc(1,2,3) s(1,2) c(2) res(4,5,6) en, folded cs']
      have su: "sectors_used t' = insert s (sectors_used t)"
        using sectors_used_claim [OF cl(4) first_claimable_occupied [OF ix(2) e] res(4)] fc(1) ix(1) en(2) by simp
      have "contacts_ok (blk (dev p')) (usage_bitmap p') t'"
        using cl(1) st t(4-7) a su s res(3,7) cs' by (auto simp: contacts_ok_def cs_def cs'_def intro: none_beyond_upd)
      moreover have "s \<notin> sectors_used t" using s unfolding t(6) by (simp add: cs_def)
      moreover have "phone_index cs' t' = (phone_index cs t)(phone_of c \<mapsto> e)"
          "phone_book cs' t' = (phone_book cs t)(phone_of c \<mapsto> c)" "pers_ok S ok blk p'" "write_contact S p s c = (STRG_OK, p')"
        using cl(2,3) st wr res(3) by simp_all
      ultimately show ?thesis unfolding None option.case
        using full res(1,2,4,8) s(1) cl(4) first_claimable_occupied [OF ix(2) e] by (auto simp: en_def)
    qed
  qed
qed

end

text \<open>A failed insertion leaves the table as it was, on any storage.\<close>

lemma insert_contact_failure:
  assumes w: "hash_insert_contact S p t c = (r, slot, t', p')" and r: "r \<noteq> STRG_OK"
    and inv: "free_list_inv (ht_contact_allocator t)" and len: "ht_size t \<le> length (ht_htable t)"
  shows "ht_htable t' = ht_htable t \<and> ht_num_elems t' = ht_num_elems t \<and> ht_size t' = ht_size t \<and>
    free_list_inv (ht_contact_allocator t') \<and> avail (ht_contact_allocator t') = avail (ht_contact_allocator t) \<and>
    ht_message_allocator t' = ht_message_allocator t"
proof (cases "hash_find_entry S p t (cstr (c_phone c))")
  case None
  then show ?thesis using w inv by (auto simp: hash_insert_contact_def Let_def)
next
  case (Some e)
  obtain s ca where al: "free_list_allocate (ht_contact_allocator t) = (s, ca)" by (meson surj_pair)
  obtain rw pw where wr: "write_contact S p s c = (rw, pw)" by (meson surj_pair)
  show ?thesis
  proof (cases "is_new_entry (entry_at t e) \<and> s \<noteq> UINT16_MAX \<and> rw \<noteq> STRG_OK")
    case True
    note a = fls.alloc_dealloc [OF inv al]
    have "fst (snd (snd (hash_insert_contact S p t c))) =
        t\<lparr>ht_contact_allocator := free_list_free ca s, ht_htable := (ht_htable t)[e := entry_at t e], ht_num_elems := ht_num_elems t\<rparr>"
      unfolding hash_insert_contact_def Let_def Some option.case al wr case_prod_conv
      using True by (auto simp add: set_entry_def simp del: list_update_id)
    then have "t' = t\<lparr>ht_contact_allocator := free_list_free ca s\<rparr>" using w by simp
    then show ?thesis using a True by simp
  next
    case False
    then consider "\<not> is_new_entry (entry_at t e)" | "is_new_entry (entry_at t e)" "s = UINT16_MAX"
      | "is_new_entry (entry_at t e)" "s \<noteq> UINT16_MAX" "rw = STRG_OK" by blast
    then have "r = STRG_OK \<or> t' = t \<or> s = UINT16_MAX \<and> t' = t\<lparr>ht_contact_allocator := ca\<rparr>"
    proof cases
      case 1
      then show ?thesis using w Some by (simp add: hash_insert_contact_def Let_def)
    next
      case 2
      then have "fst (snd (snd (hash_insert_contact S p t c))) = t\<lparr>ht_contact_allocator := ca\<rparr>"
        using Some al by (auto simp: hash_insert_contact_def Let_def)
      then show ?thesis using w 2 by simp
    next
      case 3
      then have "fst (hash_insert_contact S p t c) = STRG_OK"
        unfolding hash_insert_contact_def Let_def Some option.case al wr case_prod_conv by auto
      then show ?thesis using w by simp
    qed
    moreover have "ca = ht_contact_allocator t" if "s = UINT16_MAX"
      using fls.alloc_cases [OF inv al] fls.slots_bound [OF inv] that by linarith
    ultimately have "t' = t" using r by (elim disjE conjE) simp_all
    then show ?thesis using inv by simp
  qed
qed

context reliable_store begin

subsection \<open>Updating\<close>

lemma update_phone_sem:
  assumes p: "pers_ok S ok blk p" and ok: "contacts_ok (blk (dev p)) (usage_bitmap p) t"
    and c: "contact_wf c" "0 \<in> set (c_phone c)" and w: "hash_update_phone S p t old c = (r, t', p')"
  defines "cs \<equiv> contact_at (blk (dev p)) (usage_bitmap p)" and "cs' \<equiv> contact_at (blk (dev p')) (usage_bitmap p')"
  shows "case phone_index cs t old of None \<Rightarrow> r = STRG_EMPTY \<and> t' = t \<and> p' = p
    | Some i \<Rightarrow> if phone_index cs t (phone_of c) \<noteq> None then r = STRG_EXISTS \<and> t' = t \<and> p' = p
        else r = STRG_OK \<and> pers_ok S ok blk p' \<and> contacts_ok (blk (dev p')) (usage_bitmap p') t' \<and>
          phone_book cs' t' = (phone_book cs t)(old := None, phone_of c \<mapsto> c) \<and>
          ht_message_allocator t' = ht_message_allocator t \<and>
          (\<exists>e. phone_index cs' t' = (phone_index cs t)(old := None, phone_of c \<mapsto> e) \<and> e \<noteq> i \<and>
            set (occupied_slots t') = insert e (set (occupied_slots t) - {i}) \<and>
            ht_htable t' = (ht_htable t)[i := (entry_at t i)\<lparr>he_state := ENTRY_DELETED\<rparr>,
              e := (entry_at t i)\<lparr>he_id := hash_phone (phone_of c)\<rparr>] \<and>
            write_contact S p (he_sector (entry_at t i)) c = (STRG_OK, p'))"
proof -
  note t = contacts_okD [OF ok]
  note ix = index_okD [OF t(2)]
  note find = find_entry_on_card [OF p ok, folded cs_def]
  obtain f where f: "first_claimable t (hash_phone old) = Some f" using claimable_exists [OF ok] by blast
  obtain e where e: "first_claimable t (hash_phone (phone_of c)) = Some e" using claimable_exists [OF ok] by blast
  note fc = first_claimable_Some [OF e]
  have occ: "he_state (entry_at t i) = ENTRY_OCCUPIED" if "phone_index cs t ph = Some i" for ph i
    using indexed(1) [OF t(2), folded cs_def, OF that] by (simp add: set_occupied_slots)
  show ?thesis
  proof (cases "phone_index cs t old")
    case None
    then have "(r, t', p') = (STRG_EMPTY, t, p)" using w f find [of old] first_claimable_Some(2) [OF f]
      by (auto simp: hash_update_phone_def)
    then show ?thesis by (simp add: None)
  next
    case (Some i)
    note i = indexed [OF t(2), folded cs_def, OF Some]
    have io: "he_state (entry_at t i) = ENTRY_OCCUPIED" "i < HASH_TABLE_SIZE"
      using i(1) ix(2) by (simp_all add: set_occupied_slots)
    have fo: "hash_find_entry S p t old = Some i" using find [of old] Some by simp
    show ?thesis
    proof (cases "phone_index cs t (phone_of c)")
      case new: (Some j)
      then have "(r, t', p') = (STRG_EXISTS, t, p)" using w fo find [of "phone_of c"] io occ [OF new]
        by (simp add: hash_update_phone_def phone_of_def Let_def)
      then show ?thesis by (simp add: Some new)
    next
      case new: None
      define sec where "sec = he_sector (entry_at t i)"
      define en where "en = (entry_at t i)\<lparr>he_id := hash_phone (phone_of c)\<rparr>"
      define de where "de = (entry_at t i)\<lparr>he_state := ENTRY_DELETED\<rparr>"
      have ei: "e \<noteq> i" using first_claimable_occupied [OF ix(2) e] i(1) by blast
      have "entry_ok cs t i" using ix(3) [OF i(1)] by (simp add: cs_def)
      then have sec: "sec < HASH_TABLE_ENTRIES" "cs sec \<noteq> None" by (simp_all add: entry_ok_def sec_def Let_def)
      have fn: "hash_find_entry S p t (cstr (c_phone c)) = Some e" using find [of "phone_of c"] new e by (simp add: phone_of_def)
      obtain rw pw where wr: "write_contact S p sec c = (rw, pw)" by (meson surj_pair)
      note st = write_contact_sem [OF p t(1) slot_in_region [OF sec(1)] c(1) wr, folded cs_def]
      have at: "entry_at (set_entry e en t) e = en" "entry_at (set_entry e en t) i = entry_at t i"
        using fc(1) ix(1) ei by (simp_all add: set_entry_def)
      have "(r, t', p') = (STRG_OK, set_entry i de (set_entry e en t), pw)"
        using w fo fn fc(2) io(1) wr st at by (auto simp: hash_update_phone_def Let_def phone_of_def de_def en_def sec_def)
      then have res: "r = STRG_OK" "t' = set_entry i de (set_entry e en t)" "p' = pw" by simp_all
      define t1 where "t1 = t\<lparr>ht_htable := (ht_htable t)[i := de], ht_num_elems := ht_num_elems t - 1\<rparr>"
      have t1: "ht_htable t1 = (ht_htable t)[i := de]" "ht_size t1 = ht_size t" "ht_num_elems t1 = ht_num_elems t - 1"
        by (simp_all add: t1_def)
      note rl = index_release [OF t(2) [folded cs_def] Some sec_def t1, unfolded de_def, simplified, folded de_def]
      have pos: "ht_num_elems t > 0" using ix(5) i(1) by (cases "occupied_slots t") auto
      have t': "ht_htable t' = (ht_htable t1)[e := en]" "ht_size t' = ht_size t1" "ht_num_elems t' = ht_num_elems t1 + 1"
          "ht_message_allocator t' = ht_message_allocator t" "ht_contact_allocator t' = ht_contact_allocator t"
        using pos ei by (simp_all add: res(2) t1_def set_entry_def list_update_swap)
      have at1: "entry_at t1 j = (if j = i then de else entry_at t j)" for j using io(2) ix(1) by (simp add: t1_def)
      have new1: "phone_index (cs(sec := None)) t1 (phone_of c) = None" using rl(2) new by simp
      have fc1: "is_new_entry (entry_at t1 e)" "reachable t1 (hash_phone (phone_of c)) e"
        using fc(2) ei by (simp add: at1, intro reachable_mono [OF fc(3)], simp add: at1 de_def split: if_splits)
      have en: "he_id en = hash_phone (phone_of c)" "he_sector en = sec" "he_state en = ENTRY_OCCUPIED"
        using io by (simp_all add: en_def sec_def)
      have cs': "cs' = cs(sec \<mapsto> c)" using st res(3) by (simp add: cs'_def)
      note cl = index_claim [OF rl(1) new1 fc(1) fc1 sec(1) _ c(2) t'(1,2,3) en, simplified, folded cs']
      have e1: "e \<notin> set (occupied_slots t1)" using fc1(1) by (auto simp: set_occupied_slots)
      have "sectors_used t' = insert sec (sectors_used t1)"
        using sectors_used_claim [OF _ e1 t'(1)] cl(4) fc(1) ix(1) en(2) t1(1) by simp
      also have "sectors_used t1 = sectors_used t - {sec}"
        unfolding sec_def by (rule sectors_used_release [OF t(2) rl(4) i(1) t1(1)])
      finally have su: "sectors_used t' = insert sec (sectors_used t)" by simp
      have "contacts_ok (blk (dev p')) (usage_bitmap p') t'"
        using cl(1) st t(3-7) su sec res(3) t'(5) cs' by (auto simp: contacts_ok_def cs_def cs'_def intro: none_beyond_upd)
      moreover have "set (occupied_slots t') = insert e (set (occupied_slots t) - {i})" using cl(4) rl(4) by simp
      moreover have "ht_htable t' = (ht_htable t)[i := de, e := en]" by (simp add: t' t1_def)
      moreover have "write_contact S p (he_sector (entry_at t i)) c = (STRG_OK, p')" using wr st res(3) by (simp add: sec_def)
      moreover have "phone_index cs' t' = (phone_index cs t)(old := None, phone_of c \<mapsto> e)"
          "phone_book cs' t' = (phone_book cs t)(old := None, phone_of c \<mapsto> c)" "pers_ok S ok blk p'"
        using cl(2,3) rl(2,3) st res(3) by simp_all
      ultimately show ?thesis unfolding Some option.case new using res(1) t'(4) ei en_def de_def by auto
    qed
  qed
qed

lemma update_contact_sem:
  assumes p: "pers_ok S ok blk p" and ok: "contacts_ok (blk (dev p)) (usage_bitmap p) t"
    and c: "contact_wf c" "0 \<in> set (c_phone c)" and w: "hash_update_contact S p t old c = (r, t', p')"
    and same: "phone_of old = phone_of c"
  defines "cs \<equiv> contact_at (blk (dev p)) (usage_bitmap p)" and "cs' \<equiv> contact_at (blk (dev p')) (usage_bitmap p')"
  shows "t' = t \<and> (case phone_index cs t (phone_of c) of None \<Rightarrow> r = STRG_EMPTY \<and> p' = p
    | Some i \<Rightarrow> r = STRG_OK \<and> pers_ok S ok blk p' \<and> contacts_ok (blk (dev p')) (usage_bitmap p') t' \<and>
        phone_index cs' t' = phone_index cs t \<and> phone_book cs' t' = (phone_book cs t)(phone_of c \<mapsto> c))"
proof -
  note t = contacts_okD [OF ok]
  note ix = index_okD [OF t(2)]
  note find = find_entry_on_card [OF p ok, folded cs_def]
  show ?thesis
  proof (cases "phone_index cs t (phone_of c)")
    case None
    obtain f where f: "first_claimable t (hash_phone (phone_of c)) = Some f" using claimable_exists [OF ok] by blast
    then have "(r, t', p') = (STRG_EMPTY, t, p)" using w find [of "phone_of c"] None first_claimable_Some(2) [OF f] same
      by (auto simp: hash_update_contact_def phone_of_def)
    then show ?thesis by (simp add: None)
  next
    case (Some i)
    define sec where "sec = he_sector (entry_at t i)"
    note i = indexed [OF t(2), folded cs_def, OF Some]
    have io: "he_state (entry_at t i) = ENTRY_OCCUPIED" using i(1) by (simp add: set_occupied_slots)
    have "entry_ok cs t i" using ix(3) [OF i(1)] by (simp add: cs_def)
    then have sec: "sec < HASH_TABLE_ENTRIES" "cs sec \<noteq> None" by (simp_all add: entry_ok_def sec_def Let_def)
    obtain rw pw where wr: "write_contact S p sec c = (rw, pw)" by (meson surj_pair)
    note st = write_contact_sem [OF p t(1) slot_in_region [OF sec(1)] c(1) wr, folded cs_def]
    have "(r, t', p') = (rw, t, pw)" using w find [of "phone_of c"] Some io same wr
      by (simp add: hash_update_contact_def phone_of_def sec_def)
    then have res: "r = STRG_OK" "t' = t" "p' = pw" "cs' = cs(sec \<mapsto> c)" using st by (simp_all add: cs'_def)
    note rw = index_rewrite [OF t(2) [folded cs_def] Some sec_def c(2), folded res(4)]
    have "contacts_ok (blk (dev p')) (usage_bitmap p') t'"
      using rw(1) st t(3-7) sec res by (auto simp: contacts_ok_def cs_def cs'_def intro: none_beyond_upd)
    then show ?thesis using rw(2,3) res st Some by simp
  qed
qed

subsection \<open>Removing\<close>

lemma remove_contact_slot:
  assumes p: "pers_ok S ok blk p" and ok: "contacts_ok (blk (dev p)) (usage_bitmap p) t"
  defines "cs \<equiv> contact_at (blk (dev p)) (usage_bitmap p)"
  assumes i: "phone_index cs t phone = Some i"
    and w: "remove_contact S p (ht_contact_allocator t) (he_sector (entry_at t i)) = (r, out, p', ca)"
  defines "cs' \<equiv> contact_at (blk (dev p')) (usage_bitmap p')"
  assumes t': "ht_htable t' = (ht_htable t)[i := en]" "ht_size t' = ht_size t" "ht_num_elems t' = ht_num_elems t - 1"
    "ht_contact_allocator t' = ca" and en: "he_state en = ENTRY_DELETED"
  shows "r \<and> out = phone_book cs t phone \<and> pers_ok S ok blk p' \<and> contacts_ok (blk (dev p')) (usage_bitmap p') t' \<and>
    phone_index cs' t' = (phone_index cs t)(phone := None) \<and> phone_book cs' t' = (phone_book cs t)(phone := None) \<and>
    elsewhere_same (he_sector (entry_at t i) div CONTACT_SECTOR_CAPACITY) (blk (dev p)) (blk (dev p'))"
proof -
  note t = contacts_okD [OF ok]
  note ix = index_okD [OF t(2)]
  define sec where "sec = he_sector (entry_at t i)"
  note io = indexed [OF t(2), folded cs_def, OF i]
  have "entry_ok cs t i" using ix(3) [OF io(1)] by (simp add: cs_def)
  then have sec: "sec < HASH_TABLE_ENTRIES" "cs sec = Some (slot_contact cs t i)"
    by (auto simp: entry_ok_def sec_def Let_def slot_contact_def)
  note st = remove_contact_sem [OF p t(1) slot_in_region [OF sec(1)] w [folded sec_def], folded cs_def, unfolded sec(2) option.case]
  have "sec < fl_capacity (ht_contact_allocator t)" "sec \<notin> avail (ht_contact_allocator t)"
    using sec t(4,5) by (simp_all add: cs_def)
  note fr = fls.dealloc_step [OF t(3) this]
  have cs': "cs' = cs(sec := None)" using st by (simp add: cs'_def)
  note rl = index_release [OF t(2) [folded cs_def] i sec_def t'(1,2,3) en, folded cs']
  have su: "sectors_used t' = sectors_used t - {sec}"
    unfolding sec_def by (rule sectors_used_release [OF t(2) rl(4) io(1) t'(1)])
  have "contacts_ok (blk (dev p')) (usage_bitmap p') t'"
    using rl(1) st t(4-7) fr su sec t'(4) cs' by (auto simp: contacts_ok_def cs_def cs'_def intro: none_beyond_upd)
  then show ?thesis using st rl(2,3) i by (simp add: phone_book_def sec_def)
qed

lemma hash_remove_contact_sem:
  assumes p: "pers_ok S ok blk p" and ok: "contacts_ok (blk (dev p)) (usage_bitmap p) t"
    and w: "hash_remove_contact S p t phone = (r, out, t', p')"
  defines "cs \<equiv> contact_at (blk (dev p)) (usage_bitmap p)" and "cs' \<equiv> contact_at (blk (dev p')) (usage_bitmap p')"
  shows "out = phone_book cs t phone \<and> (case phone_index cs t phone of None \<Rightarrow> \<not> r \<and> t' = t \<and> p' = p
    | Some i \<Rightarrow> r \<and> pers_ok S ok blk p' \<and> contacts_ok (blk (dev p')) (usage_bitmap p') t' \<and>
        phone_index cs' t' = (phone_index cs t)(phone := None) \<and> phone_book cs' t' = (phone_book cs t)(phone := None))"
proof -
  note t = contacts_okD [OF ok]
  note ix = index_okD [OF t(2)]
  note find = find_entry_on_card [OF p ok, folded cs_def]
  have sz: "ht_size t \<noteq> 0" using ix(2) by (simp add: layout)
  show ?thesis
  proof (cases "phone_index cs t phone")
    case None
    obtain f where f: "first_claimable t (hash_phone phone) = Some f" using claimable_exists [OF ok] by blast
    then have "(r, out, t', p') = (False, None, t, p)" using w find [of phone] None first_claimable_Some(2) [OF f] sz
      by (auto simp: hash_remove_contact_def)
    then show ?thesis by (simp add: None phone_book_def)
  next
    case (Some i)
    note io = indexed [OF t(2), folded cs_def, OF Some]
    have st: "he_state (entry_at t i) = ENTRY_OCCUPIED" using io(1) by (simp add: set_occupied_slots)
    obtain rr o2 pr ca where rm: "remove_contact S p (ht_contact_allocator t) (he_sector (entry_at t i)) = (rr, o2, pr, ca)"
      by (metis prod_cases4)
    define t2 where "t2 = t\<lparr>ht_contact_allocator := ca,
      ht_htable := (ht_htable t)[i := (entry_at t i)\<lparr>he_sector := UINT16_MAX, he_state := ENTRY_DELETED\<rparr>],
      ht_num_elems := ht_num_elems t - 1\<rparr>"
    have s2: "ht_htable t2 = (ht_htable t)[i := (entry_at t i)\<lparr>he_sector := UINT16_MAX, he_state := ENTRY_DELETED\<rparr>]"
        "ht_size t2 = ht_size t" "ht_num_elems t2 = ht_num_elems t - 1" "ht_contact_allocator t2 = ca"
      by (simp_all add: t2_def)
    note sl = remove_contact_slot [OF p ok Some [unfolded cs_def] rm s2, simplified, folded cs_def]
    have "(r, out, t', p') = (True, o2, t2, pr)" using w find [of phone] Some st sz rm sl
      by (auto simp: hash_remove_contact_def set_entry_def t2_def Let_def)
    then show ?thesis using sl Some by (simp add: cs'_def)
  qed
qed

end

end
