(* ===== verification/Hash_Messages.thy ===== *)
theory Hash_Messages
  imports Hash_Contacts
begin

text \<open>
  The message operations of the index on a sound card.  Every occupied slot heads a chat of its own;
  a message operation is a step of a map from phone numbers to message lists, newest message first.
\<close>

subsection \<open>Invariant and abstraction\<close>

fun chain_from :: "(nat \<Rightarrow> byte list) \<Rightarrow> nat \<Rightarrow> nat \<Rightarrow> nat list" where
  "chain_from blk 0 h = []"
| "chain_from blk (Suc n) h = (if h = UINT16_MAX then [] else h # chain_from blk n (ms_prev (msg_block blk h)))"

definition chain :: "(nat \<Rightarrow> byte list) \<Rightarrow> HashTable \<Rightarrow> nat \<Rightarrow> nat list" where
  "chain blk t i = chain_from blk TOTAL_MESSAGE_SECTOR_SIZE (he_latest_msg_extent (entry_at t i))"

definition message_book :: "(nat \<Rightarrow> Contact option) \<Rightarrow> (nat \<Rightarrow> byte list) \<Rightarrow> HashTable \<Rightarrow> byte list \<Rightarrow> Message list option" where
  "message_book cs blk t phone = map_option (\<lambda>i. chat_msgs blk (chain blk t i)) (phone_index cs t phone)"

text \<open>What a restart needs: from the newest sector on, each sector of a chain names the one before it in its next
  field, the newest one has none, and the newest one names the contact slot.\<close>

fun linked :: "(nat \<Rightarrow> byte list) \<Rightarrow> nat \<Rightarrow> nat list \<Rightarrow> bool" where
  "linked blk nx [] = True"
| "linked blk nx (s # ss) = (ms_next (msg_block blk s) = nx \<and> linked blk s ss)"

definition rooted :: "(nat \<Rightarrow> byte list) \<Rightarrow> nat \<Rightarrow> nat list \<Rightarrow> bool" where
  "rooted blk ci ss \<longleftrightarrow> linked blk UINT16_MAX ss \<and> (ss \<noteq> [] \<longrightarrow> ms_contact_index (msg_block blk (hd ss)) = ci)"

lemma linked_same: "(\<And>s. s \<in> set ss \<Longrightarrow> msg_block blk' s = msg_block blk s) \<Longrightarrow> linked blk' nx ss = linked blk nx ss"
  by (induction ss arbitrary: nx) auto

lemma rooted_same: "(\<And>s. s \<in> set ss \<Longrightarrow> msg_block blk' s = msg_block blk s) \<Longrightarrow> rooted blk' ci ss = rooted blk ci ss"
  using linked_same [of ss blk' blk] by (cases ss) (auto simp: rooted_def)

lemma msg_block_same: "only_sectors A blk blk' \<Longrightarrow> MESSAGE_DATA_SECTOR s \<notin> A \<Longrightarrow> msg_block blk' s = msg_block blk s"
  by (simp add: only_sectors_def msg_block_def)

lemma rooted_nil [simp]: "rooted blk ci []"
  by (simp add: rooted_def)

definition messages_ok :: "(nat \<Rightarrow> byte list) \<Rightarrow> u32 list \<Rightarrow> HashTable \<Rightarrow> bool" where
  "messages_ok blk bm t \<longleftrightarrow>
     free_list_inv (ht_message_allocator t) \<and> fl_capacity (ht_message_allocator t) = TOTAL_MESSAGE_SECTOR_SIZE \<and>
     (\<forall>s \<in> avail (ht_message_allocator t). \<not> used bm (MESSAGE_DATA_SECTOR s)) \<and>
     (\<forall>i \<in> set (occupied_slots t). chat blk bm (he_latest_msg_extent (entry_at t i)) (chain blk t i)) \<and>
     (\<forall>i \<in> set (occupied_slots t). \<forall>j \<in> set (occupied_slots t). i \<noteq> j \<longrightarrow> set (chain blk t i) \<inter> set (chain blk t j) = {}) \<and>
     (\<forall>i \<in> set (occupied_slots t). rooted blk (he_sector (entry_at t i)) (chain blk t i)) \<and>
     (\<forall>s < TOTAL_MESSAGE_SECTOR_SIZE. used bm (MESSAGE_DATA_SECTOR s) \<longrightarrow> (\<exists>i \<in> set (occupied_slots t). s \<in> set (chain blk t i)))"

lemma messages_okD:
  assumes "messages_ok blk bm t"
  shows "free_list_inv (ht_message_allocator t)" "fl_capacity (ht_message_allocator t) = TOTAL_MESSAGE_SECTOR_SIZE"
    "\<And>s. s \<in> avail (ht_message_allocator t) \<Longrightarrow> \<not> used bm (MESSAGE_DATA_SECTOR s)"
    "\<And>i. i \<in> set (occupied_slots t) \<Longrightarrow> chat blk bm (he_latest_msg_extent (entry_at t i)) (chain blk t i)"
    "\<And>i j. i \<in> set (occupied_slots t) \<Longrightarrow> j \<in> set (occupied_slots t) \<Longrightarrow> i \<noteq> j \<Longrightarrow> set (chain blk t i) \<inter> set (chain blk t j) = {}"
    "\<And>i. i \<in> set (occupied_slots t) \<Longrightarrow> rooted blk (he_sector (entry_at t i)) (chain blk t i)"
    "\<And>s. s < TOTAL_MESSAGE_SECTOR_SIZE \<Longrightarrow> used bm (MESSAGE_DATA_SECTOR s) \<Longrightarrow> \<exists>i \<in> set (occupied_slots t). s \<in> set (chain blk t i)"
  using assms by (simp_all add: messages_ok_def)

lemma chain_from_chat: "chat blk bm h ss \<Longrightarrow> length ss \<le> n \<Longrightarrow> chain_from blk n h = ss"
proof (induction n arbitrary: h ss)
  case (Suc n)
  show ?case
  proof (cases ss)
    case Nil
    then show ?thesis using Suc.prems by simp
  next
    case (Cons s ss')
    then have "h = s" "s < UINT16_MAX" using Suc.prems(1) msg_sector_bounds(4) by simp_all
    then show ?thesis using Cons Suc.IH [of "ms_prev (msg_block blk s)" ss'] Suc.prems by simp
  qed
qed simp

lemma chain_eq: "chat blk bm (he_latest_msg_extent (entry_at t i)) ss \<Longrightarrow> chain blk t i = ss"
  unfolding chain_def by (rule chain_from_chat, assumption, rule chat_length)

text \<open>It is enough to name a chat for every slot.\<close>

lemma messages_okI:
  assumes "free_list_inv (ht_message_allocator t)" and "fl_capacity (ht_message_allocator t) = TOTAL_MESSAGE_SECTOR_SIZE"
    and "\<And>s. s \<in> avail (ht_message_allocator t) \<Longrightarrow> \<not> used bm (MESSAGE_DATA_SECTOR s)"
    and "\<And>i. i \<in> set (occupied_slots t) \<Longrightarrow> chat blk bm (he_latest_msg_extent (entry_at t i)) (C i)"
    and "\<And>i j. i \<in> set (occupied_slots t) \<Longrightarrow> j \<in> set (occupied_slots t) \<Longrightarrow> i \<noteq> j \<Longrightarrow> set (C i) \<inter> set (C j) = {}"
    and "\<And>i. i \<in> set (occupied_slots t) \<Longrightarrow> rooted blk (he_sector (entry_at t i)) (C i)"
    and "\<And>s. s < TOTAL_MESSAGE_SECTOR_SIZE \<Longrightarrow> used bm (MESSAGE_DATA_SECTOR s) \<Longrightarrow> \<exists>i \<in> set (occupied_slots t). s \<in> set (C i)"
  shows "messages_ok blk bm t"
  using assms chain_eq [OF assms(4)] by (simp add: messages_ok_def)

subsection \<open>Changes the index does not see\<close>

lemma index_cong_cs:
  assumes ok: "index_ok cs t" and same: "\<And>s. s < HASH_TABLE_ENTRIES \<Longrightarrow> cs' s = cs s"
  shows "index_ok cs' t" "phone_index cs' t = phone_index cs t" "phone_book cs' t = phone_book cs t"
proof -
  note t = index_okD [OF ok]
  have sc: "slot_contact cs' t i = slot_contact cs t i" if "i \<in> set (occupied_slots t)" for i
    using t(3) [OF that] same by (simp add: entry_ok_def slot_contact_def Let_def)
  have eok: "entry_ok cs' t i" if "i \<in> set (occupied_slots t)" for i
    using t(3) [OF that] sc [OF that] same by (auto simp: entry_ok_def Let_def)
  have mp: "map (slot_phone cs' t) (occupied_slots t) = map (slot_phone cs t) (occupied_slots t)" using sc by simp
  show "index_ok cs' t" using t eok unfolding index_ok_def mp by simp
  show pi: "phone_index cs' t = phone_index cs t"
    unfolding phone_index_def using sc by (intro arg_cong [of _ _ map_of]) simp
  show "phone_book cs' t = phone_book cs t"
  proof
    fix ph show "phone_book cs' t ph = phone_book cs t ph"
      by (rule phone_book_cong) (use indexed(1) [OF ok, of ph] sc in \<open>auto simp: pi\<close>)
  qed
qed

lemma contacts_ok_frame:
  assumes ok: "contacts_ok blk bm t" and o: "only_sectors A blk blk'" and A: "\<And>k. k \<in> A \<Longrightarrow> TOTAL_CONTACT_SECTOR_SIZE \<le> k"
    and u: "\<And>k. k < TOTAL_CONTACT_SECTOR_SIZE \<Longrightarrow> used bm' k = used bm k"
  shows "contacts_ok blk' bm' t" "phone_index (contact_at blk' bm') t = phone_index (contact_at blk bm) t"
    "phone_book (contact_at blk' bm') t = phone_book (contact_at blk bm) t"
proof -
  note t = contacts_okD [OF ok]
  have raw: "blk' (DATA_SECTOR_TO_RAW k) = blk (DATA_SECTOR_TO_RAW k)" if "k < TOTAL_CONTACT_SECTOR_SIZE" for k
  proof -
    have "k < USAGE_BITMAP_TOTAL_BITS" "k \<notin> A" using that A [of k] by (auto simp: layout)
    then show ?thesis using o by (simp add: only_sectors_def)
  qed
  have region: "contact_at blk' bm' s = contact_at blk bm s" if "s div CONTACT_SECTOR_CAPACITY < TOTAL_CONTACT_SECTOR_SIZE" for s
    using raw [OF that] u [OF that] by (simp add: contact_at_def)
  note cs = region [OF slot_in_region]
  note ix = index_cong_cs [OF t(2) cs]
  have "contacts_valid blk' bm'" using t(1) raw u by (simp add: contacts_valid_def)
  moreover have "none_beyond (contact_at blk' bm')" using t(7) region by (simp add: none_beyond_def)
  ultimately show "contacts_ok blk' bm' t" using t ix(1) cs by (auto simp: contacts_ok_def)
  show "phone_index (contact_at blk' bm') t = phone_index (contact_at blk bm) t"
    "phone_book (contact_at blk' bm') t = phone_book (contact_at blk bm) t"
    by (simp_all add: ix)
qed

text \<open>The message head of an entry does not matter to the contacts.\<close>

lemma index_extent:
  assumes t': "ht_htable t' = (ht_htable t)[e := (entry_at t e)\<lparr>he_latest_msg_extent := x\<rparr>]" "ht_size t' = ht_size t"
      "ht_num_elems t' = ht_num_elems t"
    and e: "e < length (ht_htable t)"
  shows "occupied_slots t' = occupied_slots t" "slot_contact cs t' = slot_contact cs t" "index_ok cs t' = index_ok cs t"
    "phone_index cs t' = phone_index cs t" "phone_book cs t' = phone_book cs t" "sectors_used t' = sectors_used t"
proof -
  have at: "entry_at t' i = (if i = e then (entry_at t e)\<lparr>he_latest_msg_extent := x\<rparr> else entry_at t i)" for i
    using e by (simp add: t')
  show o: "occupied_slots t' = occupied_slots t" unfolding occupied_slots_def t'(2) by (rule filter_cong) (simp_all add: at)
  show sc: "slot_contact cs t' = slot_contact cs t" by (simp add: fun_eq_iff slot_contact_def at)
  have st: "he_state (entry_at t' i) = he_state (entry_at t i)" for i by (simp add: at)
  have r: "reachable t' = reachable t" by (simp add: fun_eq_iff reachable_def st)
  have "entry_ok cs t' = entry_ok cs t" by (simp add: fun_eq_iff entry_ok_def sc r at Let_def)
  then show "index_ok cs t' = index_ok cs t" by (simp add: index_ok_def o sc t')
  show pi: "phone_index cs t' = phone_index cs t" by (simp add: phone_index_def o sc)
  show "phone_book cs t' = phone_book cs t" by (simp add: fun_eq_iff phone_book_def pi sc)
  show "sectors_used t' = sectors_used t" unfolding sectors_used_def o by (rule image_cong) (simp_all add: at)
qed

lemma contacts_ok_extent:
  assumes "contacts_ok blk bm t" and "e < length (ht_htable t)"
    and "ht_htable t' = (ht_htable t)[e := (entry_at t e)\<lparr>he_latest_msg_extent := x\<rparr>]" "ht_size t' = ht_size t"
      "ht_num_elems t' = ht_num_elems t" "ht_contact_allocator t' = ht_contact_allocator t"
  shows "contacts_ok blk bm t'"
  using assms(1) index_extent(3,6) [OF assms(3-5,2)] assms(6) by (simp add: contacts_ok_def)

text \<open>One chat changes: slot \<open>e\<close> gets the chain \<open>ss\<close>, the others keep theirs.\<close>

lemma messages_step:
  assumes ok: "messages_ok blk bm t" and e: "e \<in> set (occupied_slots t)" "e < length (ht_htable t)"
    and t': "ht_htable t' = (ht_htable t)[e := (entry_at t e)\<lparr>he_latest_msg_extent := x\<rparr>]" "ht_size t' = ht_size t"
      "ht_num_elems t' = ht_num_elems t"
    and al: "free_list_inv (ht_message_allocator t')" "fl_capacity (ht_message_allocator t') = TOTAL_MESSAGE_SECTOR_SIZE"
      "\<And>s. s \<in> avail (ht_message_allocator t') \<Longrightarrow> \<not> used bm' (MESSAGE_DATA_SECTOR s)"
    and new: "chat blk' bm' x ss" "set ss \<subseteq> insert s (set (chain blk t e))" "\<not> used bm (MESSAGE_DATA_SECTOR s) \<or> s \<in> set (chain blk t e)"
    and frame: "only_sectors (MESSAGE_DATA_SECTOR ` insert s (set (chain blk t e))) blk blk'"
    and u: "\<And>j. used bm j \<Longrightarrow> used bm' j"
    and root: "rooted blk' (he_sector (entry_at t e)) ss"
    and cover: "set (chain blk t e) \<subseteq> set ss" "\<And>z. used bm' (MESSAGE_DATA_SECTOR z) \<Longrightarrow> used bm (MESSAGE_DATA_SECTOR z) \<or> z \<in> set ss"
  shows "messages_ok blk' bm' t'" "chain blk' t' e = ss"
    "\<And>i. i \<in> set (occupied_slots t) \<Longrightarrow> i \<noteq> e \<Longrightarrow> chain blk' t' i = chain blk t i \<and> chat_msgs blk' (chain blk t i) = chat_msgs blk (chain blk t i)"
proof -
  note t = messages_okD [OF ok]
  have at: "entry_at t' i = (if i = e then (entry_at t e)\<lparr>he_latest_msg_extent := x\<rparr> else entry_at t i)" for i
    using e(2) by (simp add: t')
  have o: "occupied_slots t' = occupied_slots t" by (rule index_extent(1) [OF t' e(2)])
  have sn: "s \<notin> set (chain blk t i)" if "i \<in> set (occupied_slots t)" "i \<noteq> e" for i
    using new(3) chat_used [OF t(4) [OF that(1)]] t(5) [OF that(1) e(1) that(2)] by blast
  have dj: "set (chain blk t i) \<inter> insert s (set (chain blk t e)) = {}" if "i \<in> set (occupied_slots t)" "i \<noteq> e" for i
    using sn [OF that] t(5) [OF that(1) e(1) that(2)] by blast
  have other: "chat blk' bm' (he_latest_msg_extent (entry_at t' i)) (chain blk t i) \<and> chat_msgs blk' (chain blk t i) = chat_msgs blk (chain blk t i)"
    if i: "i \<in> set (occupied_slots t)" "i \<noteq> e" for i
  proof -
    have "blk' (DATA_SECTOR_TO_RAW (MESSAGE_DATA_SECTOR s')) = blk (DATA_SECTOR_TO_RAW (MESSAGE_DATA_SECTOR s')) \<and>
        (used bm (MESSAGE_DATA_SECTOR s') \<longrightarrow> used bm' (MESSAGE_DATA_SECTOR s'))"
      if s': "s' \<in> set (chain blk t i)" "s' < TOTAL_MESSAGE_SECTOR_SIZE" for s'
    proof -
      have "MESSAGE_DATA_SECTOR s' \<notin> MESSAGE_DATA_SECTOR ` insert s (set (chain blk t e))" using dj [OF i] s'(1) by auto
      then show ?thesis using frame msg_sector_bounds(1) [OF s'(2)] u by (simp add: only_sectors_def)
    qed
    from chat_frame [OF this t(4) [OF i(1)]] show ?thesis using i(2) by (simp add: at)
  qed
  let ?C = "\<lambda>i. if i = e then ss else chain blk t i"
  have C: "chat blk' bm' (he_latest_msg_extent (entry_at t' i)) (?C i)" if "i \<in> set (occupied_slots t')" for i
    using that other [of i] new(1) unfolding o by (auto simp: at)
  show "messages_ok blk' bm' t'"
  proof (rule messages_okI [where C = ?C, OF al C])
    fix i j assume "i \<in> set (occupied_slots t')" "j \<in> set (occupied_slots t')" "i \<noteq> j"
    then show "set (?C i) \<inter> set (?C j) = {}"
      using dj [of i] dj [of j] t(5) [of i j] new(2) unfolding o by (auto split: if_splits)
  next
    fix i assume i: "i \<in> set (occupied_slots t')"
    show "rooted blk' (he_sector (entry_at t' i)) (?C i)"
    proof (cases "i = e")
      case False
      have "msg_block blk' s' = msg_block blk s'" if "s' \<in> set (chain blk t i)" for s'
      proof -
        have "MESSAGE_DATA_SECTOR s' \<notin> MESSAGE_DATA_SECTOR ` insert s (set (chain blk t e))" using dj [of i] i False that by (auto simp: o)
        then show ?thesis by (rule msg_block_same [OF frame])
      qed
      then show ?thesis using rooted_same [of "chain blk t i" blk' blk] t(6) [of i] i False by (simp add: o at)
    qed (simp add: at root)
  next
    fix z assume z: "z < TOTAL_MESSAGE_SECTOR_SIZE" "used bm' (MESSAGE_DATA_SECTOR z)"
    show "\<exists>i \<in> set (occupied_slots t'). z \<in> set (?C i)"
    proof (cases "z \<in> set ss")
      case False
      then obtain i where "i \<in> set (occupied_slots t)" "z \<in> set (chain blk t i)" using cover(2) [OF z(2)] t(7) [OF z(1)] by blast
      then show ?thesis using False cover(1) unfolding o by (intro bexI [of _ i]) auto
    qed (use e(1) o in auto)
  qed auto
  show "chain blk' t' e = ss" using chain_eq [OF C, of e] e(1) by (simp add: o)
  show "chain blk' t' i = chain blk t i \<and> chat_msgs blk' (chain blk t i) = chat_msgs blk (chain blk t i)"
    if "i \<in> set (occupied_slots t)" "i \<noteq> e" for i
    using chain_eq [OF C, of i] other [OF that] that by (simp add: o)
qed

subsection \<open>Inserting a message\<close>

lemma chat_less: "chat blk bm h ss \<Longrightarrow> s \<in> set ss \<Longrightarrow> s < TOTAL_MESSAGE_SECTOR_SIZE"
  by (induction ss arbitrary: h) auto

lemma set_entry_extent:
  "e < length (ht_htable t) \<Longrightarrow> set_entry e (entry_at t e) t = t"
  by (simp add: set_entry_def)

context reliable_store begin

lemma insert_message_at_sem:
  assumes p: "pers_ok S ok blk p" and ok: "contacts_ok (blk (dev p)) (usage_bitmap p) t"
    and mok: "messages_ok (blk (dev p)) (usage_bitmap p) t" and m: "message_wf m"
    and room: "avail (ht_message_allocator t) \<noteq> {}"
  defines "cs \<equiv> contact_at (blk (dev p)) (usage_bitmap p)"
  assumes e: "phone_index cs t phone = Some e" and w: "insert_message_at S p t e m = (r, t', p')"
  defines "cs' \<equiv> contact_at (blk (dev p')) (usage_bitmap p')"
  shows "r \<and> pers_ok S ok blk p' \<and> contacts_ok (blk (dev p')) (usage_bitmap p') t' \<and>
    messages_ok (blk (dev p')) (usage_bitmap p') t' \<and>
    phone_index cs' t' = phone_index cs t \<and> phone_book cs' t' = phone_book cs t \<and>
    message_book cs' (blk (dev p')) t' = (message_book cs (blk (dev p)) t)
      (phone \<mapsto> m # the (message_book cs (blk (dev p)) t phone)) \<and> records_only (blk (dev p)) (blk (dev p'))"
proof -
  note t = contacts_okD [OF ok] and mt = messages_okD [OF mok]
  note ix = index_okD [OF t(2)]
  define en where "en = entry_at t e"
  define x where "x = he_latest_msg_extent en"
  define ss where "ss = chain (blk (dev p)) t e"
  have eo: "e \<in> set (occupied_slots t)" using indexed(1) [OF t(2), folded cs_def, OF e] .
  have el: "e < length (ht_htable t)" using eo ix(1,2) by (simp add: set_occupied_slots)
  have c: "chat (blk (dev p)) (usage_bitmap p) x ss" using mt(4) [OF eo] by (simp add: ss_def x_def en_def)
  have "entry_ok cs t e" using ix(3) [OF eo] by (simp add: cs_def)
  then have ci: "he_sector en < 65536" by (simp add: entry_ok_def en_def Let_def layout)
  obtain s ma where al: "free_list_allocate (ht_message_allocator t) = (s, ma)" by (meson surj_pair)
  note a = fls.alloc_some [OF mt(1) room al]
  have s: "s < TOTAL_MESSAGE_SECTOR_SIZE" "\<not> used (usage_bitmap p) (MESSAGE_DATA_SECTOR s)" "s \<noteq> UINT16_MAX"
    using a fls.free_bound [OF mt(1)] mt(2,3) by (auto simp: layout)
  have chk: "\<not> check_usage_bit (usage_bitmap p) (msg_sector s)"
    using check_usage_bit_used [OF msg_sector_bounds(1) [OF s(1)]] s(1,2) by simp
  have ma: "free_list_inv ma" "fl_capacity ma = TOTAL_MESSAGE_SECTOR_SIZE" using a mt(2) by simp_all
  have free: "\<not> used bm' (MESSAGE_DATA_SECTOR z)"
    if "z \<in> avail ma" "\<forall>j. used bm' j = (j = MESSAGE_DATA_SECTOR s \<or> used (usage_bitmap p) j)" for z and bm' :: "u32 list"
    using that a mt(3) by auto
  text \<open>What all three branches come down to.\<close>
  have finish: ?thesis
    if st: "r" "pers_ok S ok blk p'" "chat (blk (dev p')) (usage_bitmap p') y zs"
        "chat_msgs (blk (dev p')) zs = m # chat_msgs (blk (dev p)) ss" "set zs \<subseteq> insert s (set ss)"
        "rooted (blk (dev p')) (he_sector en) zs" "set ss \<subseteq> set zs"
      and t': "t' = (set_entry e (en\<lparr>he_latest_msg_extent := y\<rparr>) t)\<lparr>ht_message_allocator := mb\<rparr>"
      and mb: "free_list_inv mb" "fl_capacity mb = TOTAL_MESSAGE_SECTOR_SIZE"
        "\<And>z. z \<in> avail mb \<Longrightarrow> \<not> used (usage_bitmap p') (MESSAGE_DATA_SECTOR z)"
      and fr: "only_sectors (MESSAGE_DATA_SECTOR ` insert s (set ss)) (blk (dev p)) (blk (dev p'))"
      and cv: "\<And>z. used (usage_bitmap p') (MESSAGE_DATA_SECTOR z) \<Longrightarrow> used (usage_bitmap p) (MESSAGE_DATA_SECTOR z) \<or> z \<in> set zs"
      and u: "\<And>j. used (usage_bitmap p) j \<Longrightarrow> used (usage_bitmap p') j" "\<And>j. j < TOTAL_CONTACT_SECTOR_SIZE \<Longrightarrow> used (usage_bitmap p') j = used (usage_bitmap p) j"
    for y zs mb
  proof -
    have h: "ht_htable t' = (ht_htable t)[e := (entry_at t e)\<lparr>he_latest_msg_extent := y\<rparr>]" "ht_size t' = ht_size t"
        "ht_num_elems t' = ht_num_elems t" "ht_contact_allocator t' = ht_contact_allocator t" "ht_message_allocator t' = mb"
      by (simp_all add: t' set_entry_def en_def)
    have "TOTAL_CONTACT_SECTOR_SIZE \<le> k" if "k \<in> MESSAGE_DATA_SECTOR ` insert s (set ss)" for k
      using that by (auto simp: sector_defs layout)
    note cf = contacts_ok_frame [OF ok fr this u(2), folded cs_def cs'_def]
    note ie = index_extent [OF h(1-3) el]
    note ms = messages_step [OF mok eo el h(1-3) mb [folded h(5)] st(3) st(5) [unfolded ss_def] _ fr [unfolded ss_def] u(1)
      st(6) [unfolded en_def] st(7) [unfolded ss_def] cv]
    have ms1: "messages_ok (blk (dev p')) (usage_bitmap p') t'" and ms2: "chain (blk (dev p')) t' e = zs"
      and ms3: "\<And>i. i \<in> set (occupied_slots t) \<Longrightarrow> i \<noteq> e \<Longrightarrow> chain (blk (dev p')) t' i = chain (blk (dev p)) t i \<and>
        chat_msgs (blk (dev p')) (chain (blk (dev p)) t i) = chat_msgs (blk (dev p)) (chain (blk (dev p)) t i)"
      using ms s(2) by blast+
    have pi: "phone_index cs' t' = phone_index cs t" using cf(2) ie(4) [of cs'] by simp
    have "message_book cs' (blk (dev p')) t' ph = ((message_book cs (blk (dev p)) t)
        (phone \<mapsto> m # the (message_book cs (blk (dev p)) t phone))) ph" for ph
    proof (cases "ph = phone")
      case True
      then show ?thesis using e ms2 st(4) by (simp add: message_book_def pi ss_def)
    next
      case False
      have "i \<in> set (occupied_slots t) \<and> i \<noteq> e" if "phone_index cs t ph = Some i" for i
        using indexed [OF t(2), folded cs_def] that e False by blast
      then show ?thesis using False ms3 by (cases "phone_index cs t ph") (auto simp: message_book_def pi)
    qed
    moreover have "MESSAGE_DATA_SECTOR ` insert s (set ss) \<subseteq> {..<MESSAGE_HISTORY_DATA_START_SECTOR}"
      using s(1) chat_less [OF c] by (auto simp: sector_defs layout)
    then have "records_only (blk (dev p)) (blk (dev p'))" by (rule only_sectors_mono [OF fr])
    ultimately show ?thesis using st(1,2) contacts_ok_extent [OF cf(1) el h(1-4)] ms1 pi cf(3) ie(5) [of cs'] by auto
  qed
  have contact_bits: "used bm' j = used (usage_bitmap p) j"
    if "\<forall>j. used bm' j = (j = MESSAGE_DATA_SECTOR s \<or> used (usage_bitmap p) j)" "j < TOTAL_CONTACT_SECTOR_SIZE" for j and bm' :: "u32 list"
    using that by (auto simp: sector_defs layout)
  show ?thesis
  proof (cases "x = UINT16_MAX")
    case True
    then have ss: "ss = []" using c msg_sector_bounds(4) by (cases ss) auto
    obtain rw pw where st: "store_message S p s 0 m (create_new_message_sector (he_sector en) UINT16_MAX) = (rw, pw)" by (meson surj_pair)
    have "write_new_message_sector S p (he_sector en) s m = (rw, pw)" using chk st by (simp add: write_new_message_sector_def)
    moreover note S = write_new_message_sector_chat [OF p s(1,2) m ci _ st, of "[]"]
    ultimately have res: "r" "t' = (set_entry e (en\<lparr>he_latest_msg_extent := s\<rparr>) t)\<lparr>ht_message_allocator := ma\<rparr>" "p' = pw"
      using w True al s(3) by (auto simp: insert_message_at_def Let_def x_def en_def set_entry_def)
    have rt: "rooted (blk (dev p')) (he_sector en) [s]" using S unfolding res(3) by (simp add: rooted_def)
    have f: "pers_ok S ok blk p'" "chat (blk (dev p')) (usage_bitmap p') s [s]" "chat_msgs (blk (dev p')) [s] = m # chat_msgs (blk (dev p)) ss"
        "elsewhere_same (MESSAGE_DATA_SECTOR s) (blk (dev p)) (blk (dev p'))"
        "\<forall>j. used (usage_bitmap p') j = (j = MESSAGE_DATA_SECTOR s \<or> used (usage_bitmap p) j)"
      using S unfolding res(3) ss by simp_all
    have fr: "only_sectors (MESSAGE_DATA_SECTOR ` insert s (set ss)) (blk (dev p)) (blk (dev p'))"
      using elsewhere_only [OF f(4) msg_sector_bounds(1) [OF s(1)]] ss by simp
    show ?thesis
      by (rule finish [OF res(1) f(1-3) _ rt _ res(2) ma free fr _ _ contact_bits]) (use f(5) in \<open>auto simp: ss\<close>)
  next
    case False
    then obtain ss' where ss: "ss = x # ss'" using c by (cases ss) auto
    obtain rw pw where wr: "write_message S p x m = (rw, pw)" by (meson surj_pair)
    note W = write_message_chat [OF p c [unfolded ss] m wr]
    have x: "x < TOTAL_MESSAGE_SECTOR_SIZE" using c ss by simp
    show ?thesis
    proof (cases "ms_msg_count (msg_block (blk (dev p)) x) < MESSAGE_SECTOR_CAPACITY")
      case True
      then have W': "rw = STRG_OK" "pers_ok S ok blk pw" "chat (blk (dev pw)) (usage_bitmap pw) x (x # ss')"
          "chat_msgs (blk (dev pw)) (x # ss') = m # chat_msgs (blk (dev p)) (x # ss')"
          "elsewhere_same (MESSAGE_DATA_SECTOR x) (blk (dev p)) (blk (dev pw))" "\<forall>j. used (usage_bitmap pw) j = used (usage_bitmap p) j"
          "ms_next (msg_block (blk (dev pw)) x) = ms_next (msg_block (blk (dev p)) x)"
          "ms_contact_index (msg_block (blk (dev pw)) x) = ms_contact_index (msg_block (blk (dev p)) x)"
        using W by (simp_all del: chat.simps chat_msgs_simps)
      have res: "r" "t' = t" "p' = pw"
        using w False wr W'(1) by (auto simp: insert_message_at_def Let_def x_def en_def)
      have t': "t' = (set_entry e (en\<lparr>he_latest_msg_extent := x\<rparr>) t)\<lparr>ht_message_allocator := ht_message_allocator t\<rparr>"
        using res(2) el by (simp add: x_def en_def set_entry_def)
      have fr: "only_sectors (MESSAGE_DATA_SECTOR ` insert s (set ss)) (blk (dev p)) (blk (dev p'))"
        using elsewhere_only [OF W'(5) msg_sector_bounds(1) [OF x]] unfolding ss res(3) by (simp add: only_sectors_def)
      have u: "used (usage_bitmap p') j = used (usage_bitmap p) j" for j using W'(6) unfolding res(3) by simp
      have "x \<notin> set ss'" using chat_distinct [OF c] ss by simp
      then have "linked (blk (dev p')) x ss' = linked (blk (dev p)) x ss'"
        unfolding res(3) by (intro linked_same msg_block_same [OF elsewhere_only [OF W'(5) msg_sector_bounds(1) [OF x]]]) auto
      then have rt: "rooted (blk (dev p')) (he_sector en) ss"
        using mt(6) [OF eo] W'(7,8) unfolding res(3) by (simp add: rooted_def ss flip: ss_def en_def)
      show ?thesis
        by (rule finish [OF res(1) W'(2-4) [folded ss res(3)] _ rt _ t' mt(1,2) _ fr]) (simp_all add: u mt(3) subset_insertI)
    next
      case full: False
      then have rw: "rw = STRG_FULL" "pw = p" using W by simp_all
      obtain r2 p2 where nx: "write_next_message_sector S p (he_sector en) x s m = (r2, p2)" by (meson surj_pair)
      note N = write_next_message_sector_chat [OF p s(1,2) c [unfolded ss] m ci nx]
      have res: "r" "t' = (set_entry e (en\<lparr>he_latest_msg_extent := s\<rparr>) t)\<lparr>ht_message_allocator := ma\<rparr>" "p' = p2"
        using w False wr rw al nx N by (auto simp: insert_message_at_def Let_def x_def en_def set_entry_def)
      have f: "pers_ok S ok blk p'" "chat (blk (dev p')) (usage_bitmap p') s (s # ss)"
          "chat_msgs (blk (dev p')) (s # ss) = m # chat_msgs (blk (dev p)) ss"
          "only_sectors {MESSAGE_DATA_SECTOR s, MESSAGE_DATA_SECTOR x} (blk (dev p)) (blk (dev p'))"
          "\<forall>j. used (usage_bitmap p') j = (j = MESSAGE_DATA_SECTOR s \<or> used (usage_bitmap p) j)"
        using N unfolding res(3) ss by blast+
      have fr: "only_sectors (MESSAGE_DATA_SECTOR ` insert s (set ss)) (blk (dev p)) (blk (dev p'))"
        using f(4) unfolding ss by (simp add: only_sectors_def)
      have g: "ms_next (msg_block (blk (dev p')) x) = s" "ms_contact_index (msg_block (blk (dev p')) s) = he_sector en"
        "ms_next (msg_block (blk (dev p')) s) = UINT16_MAX" using N unfolding res(3) by blast+
      have "x \<notin> set ss'" "s \<notin> set ss'" using chat_distinct [OF c] chat_used [OF c] s(2) ss by auto
      then have "linked (blk (dev p')) x ss' = linked (blk (dev p)) x ss'"
        by (intro linked_same msg_block_same [OF f(4)]) auto
      then have rt: "rooted (blk (dev p')) (he_sector en) (s # ss)"
        using mt(6) [OF eo] g by (simp add: rooted_def ss flip: ss_def)
      show ?thesis
        by (rule finish [OF res(1) f(1-3) _ rt _ res(2) ma free fr _ _ contact_bits]) (use f(5) in \<open>auto simp: ss\<close>)
    qed
  qed
qed

end

subsection \<open>Contact operations leave the chats alone\<close>

text \<open>Slot \<open>i\<close> of the new table has no chat or the one of slot \<open>src i\<close> of the old table.\<close>

lemma messages_reindex:
  assumes ok: "messages_ok blk bm t" and k: "k < TOTAL_CONTACT_SECTOR_SIZE" and frame: "only_sectors {k} blk blk'"
    and u: "\<And>j. j \<noteq> k \<Longrightarrow> used bm' j = used bm j" and al: "ht_message_allocator t' = ht_message_allocator t"
    and src: "\<And>i. i \<in> set (occupied_slots t') \<Longrightarrow> he_latest_msg_extent (entry_at t' i) = UINT16_MAX \<or>
      src i \<in> set (occupied_slots t) \<and> he_latest_msg_extent (entry_at t' i) = he_latest_msg_extent (entry_at t (src i)) \<and>
      he_sector (entry_at t' i) = he_sector (entry_at t (src i))"
    and inj: "inj_on src (set (occupied_slots t'))"
    and cover: "\<And>j. j \<in> set (occupied_slots t) \<Longrightarrow> chain blk t j \<noteq> [] \<Longrightarrow>
      \<exists>i \<in> set (occupied_slots t'). src i = j \<and> he_latest_msg_extent (entry_at t' i) = he_latest_msg_extent (entry_at t j)"
  shows "messages_ok blk' bm' t'"
    "\<And>i. i \<in> set (occupied_slots t') \<Longrightarrow> he_latest_msg_extent (entry_at t' i) = UINT16_MAX \<Longrightarrow> chain blk' t' i = []"
    "\<And>i. i \<in> set (occupied_slots t') \<Longrightarrow> src i \<in> set (occupied_slots t) \<Longrightarrow>
      he_latest_msg_extent (entry_at t' i) = he_latest_msg_extent (entry_at t (src i)) \<Longrightarrow>
      chat_msgs blk' (chain blk' t' i) = chat_msgs blk (chain blk t (src i))"
proof -
  note t = messages_okD [OF ok]
  have msg: "MESSAGE_DATA_SECTOR s \<noteq> k" for s using k by (simp add: sector_defs layout)
  have kept: "chat blk' bm' h ss \<and> chat_msgs blk' ss = chat_msgs blk ss" if "chat blk bm h ss" for h ss
    by (rule chat_frame [OF _ that]) (use frame msg msg_sector_bounds(1) u in \<open>simp add: only_sectors_def\<close>)
  define C where "C i = (if he_latest_msg_extent (entry_at t' i) = UINT16_MAX then [] else chain blk t (src i))" for i
  have C: "chat blk' bm' (he_latest_msg_extent (entry_at t' i)) (C i)" if "i \<in> set (occupied_slots t')" for i
    using src [OF that] kept t(4) [of "src i"] by (auto simp: C_def)
  show "messages_ok blk' bm' t'"
  proof (rule messages_okI [where C = C, OF _ _ _ C])
    show "\<not> used bm' (MESSAGE_DATA_SECTOR s)" if "s \<in> avail (ht_message_allocator t')" for s
      using t(3) [of s] that u [OF msg] al by simp
    fix i j assume ij: "i \<in> set (occupied_slots t')" "j \<in> set (occupied_slots t')" "i \<noteq> j"
    then have "src i \<noteq> src j" using inj by (auto dest: inj_onD)
    then show "set (C i) \<inter> set (C j) = {}"
      using src [OF ij(1)] src [OF ij(2)] t(5) [of "src i" "src j"] by (auto simp: C_def)
  next
    fix i assume i: "i \<in> set (occupied_slots t')"
    have "msg_block blk' s = msg_block blk s" for s using msg [of s] by (intro msg_block_same [OF frame]) simp
    then have "rooted blk' ci ss = rooted blk ci ss" for ci ss by (rule rooted_same)
    then show "rooted blk' (he_sector (entry_at t' i)) (C i)" using src [OF i] t(6) [of "src i"] by (auto simp: C_def)
  next
    fix z assume z: "z < TOTAL_MESSAGE_SECTOR_SIZE" "used bm' (MESSAGE_DATA_SECTOR z)"
    then obtain j where j: "j \<in> set (occupied_slots t)" "z \<in> set (chain blk t j)" using t(7) [OF z(1)] u [OF msg] by blast
    then obtain i where i: "i \<in> set (occupied_slots t')" "src i = j" "he_latest_msg_extent (entry_at t' i) = he_latest_msg_extent (entry_at t j)"
      using cover [OF j(1)] by fastforce
    have "he_latest_msg_extent (entry_at t j) \<noteq> UINT16_MAX"
      using t(4) [OF j(1)] j(2) msg_sector_bounds(4) [of UINT16_MAX] by (cases "chain blk t j") auto
    then show "\<exists>i \<in> set (occupied_slots t'). z \<in> set (C i)" using i j(2) by (intro bexI [of _ i]) (auto simp: C_def)
  qed (use t(1,2) al in auto)
  show "chain blk' t' i = []" if "i \<in> set (occupied_slots t')" "he_latest_msg_extent (entry_at t' i) = UINT16_MAX" for i
    using chain_eq [OF C [OF that(1)]] that(2) by (simp add: C_def)
  show "chat_msgs blk' (chain blk' t' i) = chat_msgs blk (chain blk t (src i))"
    if i: "i \<in> set (occupied_slots t')" "src i \<in> set (occupied_slots t)"
      and l: "he_latest_msg_extent (entry_at t' i) = he_latest_msg_extent (entry_at t (src i))" for i
  proof -
    note c = t(4) [OF i(2)]
    have "chain blk' t' i = chain blk t (src i)" using kept [OF c] l by (intro chain_eq [where bm = bm']) simp
    then show ?thesis using kept [OF c] by simp
  qed
qed

context reliable_store begin

lemma insert_contact_messages:
  assumes p: "pers_ok S ok blk p" and ok: "contacts_ok (blk (dev p)) (usage_bitmap p) t"
    and mok: "messages_ok (blk (dev p)) (usage_bitmap p) t"
    and c: "contact_wf c" "0 \<in> set (c_phone c)" and w: "hash_insert_contact S p t c = (STRG_OK, slot, t', p')"
  defines "cs \<equiv> contact_at (blk (dev p)) (usage_bitmap p)" and "cs' \<equiv> contact_at (blk (dev p')) (usage_bitmap p')"
  shows "messages_ok (blk (dev p')) (usage_bitmap p') t' \<and>
    message_book cs' (blk (dev p')) t' = (message_book cs (blk (dev p)) t)(phone_of c \<mapsto> []) \<and> records_only (blk (dev p)) (blk (dev p'))"
proof -
  note t = contacts_okD [OF ok]
  note ix = index_okD [OF t(2)]
  note sem = insert_contact_sem [OF p ok c w, folded cs_def cs'_def]
  have none: "phone_index cs t (phone_of c) = None" and nf: "length (occupied_slots t) \<noteq> HASH_TABLE_ENTRIES"
    using sem by (auto split: option.splits if_splits)
  obtain e s where e: "phone_index cs' t' = (phone_index cs t)(phone_of c \<mapsto> e)" "ht_message_allocator t' = ht_message_allocator t"
      "e \<notin> set (occupied_slots t)" "set (occupied_slots t') = insert e (set (occupied_slots t))" "s < HASH_TABLE_ENTRIES"
      "ht_htable t' = (ht_htable t)[e := \<lparr>he_id = hash_phone (phone_of c), he_sector = s,
         he_latest_msg_extent = UINT16_MAX, he_state = ENTRY_OCCUPIED\<rparr>]" "write_contact S p s c = (STRG_OK, p')"
      "contacts_ok (blk (dev p')) (usage_bitmap p') t'"
    using sem unfolding none option.case by (auto simp: nf)
  have el: "e < length (ht_htable t)"
    using e(4,6) index_okD(1,2) [OF contacts_okD(2) [OF e(8)]] by (auto simp: set_occupied_slots)
  note wr = write_contact_sem [OF p t(1) slot_in_region [OF e(5)] c(1) e(7)]
  have k: "s div CONTACT_SECTOR_CAPACITY < TOTAL_CONTACT_SECTOR_SIZE" by (rule slot_in_region [OF e(5)])
  then have kt: "s div CONTACT_SECTOR_CAPACITY < USAGE_BITMAP_TOTAL_BITS" by (simp add: layout)
  have fr: "only_sectors {s div CONTACT_SECTOR_CAPACITY} (blk (dev p)) (blk (dev p'))" using elsewhere_only [OF _ kt] wr by blast
  have at: "entry_at t' i = (if i = e then \<lparr>he_id = hash_phone (phone_of c), he_sector = s,
      he_latest_msg_extent = UINT16_MAX, he_state = ENTRY_OCCUPIED\<rparr> else entry_at t i)" for i using el by (simp add: e(6))
  have u: "j \<noteq> s div CONTACT_SECTOR_CAPACITY \<Longrightarrow> used (usage_bitmap p') j = used (usage_bitmap p) j" for j using wr by simp
  have src: "he_latest_msg_extent (entry_at t' i) = UINT16_MAX \<or> id i \<in> set (occupied_slots t) \<and>
      he_latest_msg_extent (entry_at t' i) = he_latest_msg_extent (entry_at t (id i)) \<and> he_sector (entry_at t' i) = he_sector (entry_at t (id i))"
    if "i \<in> set (occupied_slots t')" for i
    using that e(4) by (auto simp: at)
  have cover: "\<exists>i \<in> set (occupied_slots t'). id i = j \<and> he_latest_msg_extent (entry_at t' i) = he_latest_msg_extent (entry_at t j)"
    if "j \<in> set (occupied_slots t)" for j
  proof -
    have "j \<noteq> e" using that e(3) by blast
    then show ?thesis using that e(4) by (intro bexI [of _ j]) (simp_all add: at)
  qed
  note m = messages_reindex [OF mok k fr u e(2) src inj_on_id cover]
  have m1: "messages_ok (blk (dev p')) (usage_bitmap p') t'" and m2: "chain (blk (dev p')) t' e = []"
    using m(1) m(2) [of e] e(4) by (simp_all add: at)
  have m3: "chat_msgs (blk (dev p')) (chain (blk (dev p')) t' i) = chat_msgs (blk (dev p)) (chain (blk (dev p)) t i)"
    if "i \<in> set (occupied_slots t)" for i
  proof -
    have "i \<noteq> e" using that e(3) by blast
    then show ?thesis using m(3) [of i] that e(4) by (simp add: at)
  qed
  have "message_book cs' (blk (dev p')) t' ph = ((message_book cs (blk (dev p)) t)(phone_of c \<mapsto> [])) ph" for ph
    using m2 m3 indexed(1) [OF t(2), folded cs_def, of ph]
    by (cases "phone_index cs t ph") (auto simp: message_book_def e(1))
  then show ?thesis using m1 records_only_contact [OF fr k] by auto
qed

lemma hash_insert_message_sem:
  assumes p: "pers_ok S ok blk p" and ok: "contacts_ok (blk (dev p)) (usage_bitmap p) t"
    and mok: "messages_ok (blk (dev p)) (usage_bitmap p) t" and m: "message_wf m"
    and ph: "0 \<notin> set phone" "length phone < MAX_PHONE_LEN"
    and room: "avail (ht_message_allocator t) \<noteq> {}" and w: "hash_insert_message S p t phone m = (r, t', p')"
  defines "cs \<equiv> contact_at (blk (dev p)) (usage_bitmap p)" and "cs' \<equiv> contact_at (blk (dev p')) (usage_bitmap p')"
  shows "if phone_index cs t phone = None \<and> length (occupied_slots t) = HASH_TABLE_ENTRIES then \<not> r \<and> t' = t \<and> p' = p
    else r \<and> pers_ok S ok blk p' \<and> contacts_ok (blk (dev p')) (usage_bitmap p') t' \<and>
      messages_ok (blk (dev p')) (usage_bitmap p') t' \<and>
      phone_book cs' t' = (if phone_index cs t phone = None then (phone_book cs t)(phone \<mapsto> create_contact [] phone) else phone_book cs t) \<and>
      message_book cs' (blk (dev p')) t' = (message_book cs (blk (dev p)) t)
        (phone \<mapsto> m # (case message_book cs (blk (dev p)) t phone of None \<Rightarrow> [] | Some ms \<Rightarrow> ms)) \<and>
      (\<exists>e. phone_index cs' t' = (phone_index cs t)(phone \<mapsto> e) \<and>
        (case phone_index cs t phone of None \<Rightarrow> e \<notin> set (occupied_slots t) | Some i \<Rightarrow> e = i)) \<and> records_only (blk (dev p)) (blk (dev p'))"
proof -
  note t = contacts_okD [OF ok]
  note ix = index_okD [OF t(2)]
  note find = find_entry_on_card [OF p ok, folded cs_def]
  show ?thesis
  proof (cases "phone_index cs t phone")
    case (Some e)
    have "he_state (entry_at t e) = ENTRY_OCCUPIED"
      using indexed(1) [OF t(2), folded cs_def, OF Some] by (simp add: set_occupied_slots)
    then have "insert_message_at S p t e m = (r, t', p')"
      using w find [of phone] Some by (simp add: hash_insert_message_def Let_def)
    note at = insert_message_at_sem [OF p ok mok m room Some [unfolded cs_def] this, folded cs_def cs'_def]
    have "phone_index cs' t' = (phone_index cs t)(phone \<mapsto> e)" using at Some by (simp add: fun_upd_idem)
    with at show ?thesis by (auto simp: Some message_book_def)
  next
    case None
    define c where "c = create_contact [] phone"
    have cf: "contact_wf c" "phone_of c = phone" "0 \<in> set (c_phone c)"
      using ph create_contact_fields(3) [of "[]" phone] by (simp_all add: c_def phone_of_def)
        (simp add: create_contact_def contact_zero_def pad_to_def layout)
    obtain e where e: "first_claimable t (hash_phone phone) = Some e" using claimable_exists [OF ok] by blast
    note fc = first_claimable_Some [OF e]
    have fe: "hash_find_entry S p t phone = Some e" using find [of phone] None e by simp
    obtain r1 slot t1 p1 where w1: "hash_insert_contact S p t c = (r1, slot, t1, p1)" by (metis prod_cases4)
    note sem = insert_contact_sem [OF p ok cf(1,3) w1, folded cs_def, unfolded cf(2) None option.case]
    obtain s ca where al: "free_list_allocate (ht_contact_allocator t) = (s, ca)" by (meson surj_pair)
    have cp: "cstr (c_phone c) = phone" using cf(2) by (simp add: phone_of_def)
    show ?thesis
    proof (cases "length (occupied_slots t) = HASH_TABLE_ENTRIES")
      case True
      then have "s = UINT16_MAX" "ca = ht_contact_allocator t"
        using free_contact_slots [OF ok] fls.alloc_none [OF t(3)] al by simp_all
      then have "(r, t', p') = (False, t, p)" using w fe fc(2) al by (auto simp: hash_insert_message_def Let_def)
      then show ?thesis using True None by simp
    next
      case False
      then have r1: "r1 = STRG_OK" and p1: "pers_ok S ok blk p1" "contacts_ok (blk (dev p1)) (usage_bitmap p1) t1"
        and pb: "phone_book (contact_at (blk (dev p1)) (usage_bitmap p1)) t1 = (phone_book cs t)(phone \<mapsto> c)"
        and mal: "ht_message_allocator t1 = ht_message_allocator t"
        using sem by auto
      note im = insert_contact_messages [OF p ok mok cf(1,3) w1 [unfolded r1], unfolded cf(2), folded cs_def]
      have "hash_insert_message S p t phone m = insert_message_at S p1 t1 e m \<and> slot = Some e"
        using w1 r1 fe fc(1,2) al cp
        by (auto simp: hash_insert_message_def hash_insert_contact_def Let_def c_def set_entry_def hash_slot_of_def layout
            split: if_splits prod.splits)
      then have w2: "insert_message_at S p1 t1 e m = (r, t', p')" and sl: "slot = Some e" using w by simp_all
      have e1: "phone_index (contact_at (blk (dev p1)) (usage_bitmap p1)) t1 phone = Some e" using sem False sl by auto
      have "avail (ht_message_allocator t1) \<noteq> {}" using room mal by simp
      note at = insert_message_at_sem [OF p1 conjunct1 [OF im] m this e1 w2, folded cs'_def]
      have "phone_index (contact_at (blk (dev p1)) (usage_bitmap p1)) t1 = (phone_index cs t)(phone \<mapsto> e)" "e \<notin> set (occupied_slots t)"
        using sem False sl by auto
      then have "phone_index cs' t' = (phone_index cs t)(phone \<mapsto> e) \<and> e \<notin> set (occupied_slots t)" using at by simp
      moreover have "records_only (blk (dev p)) (blk (dev p'))" using im at only_sectors_trans by blast
      ultimately show ?thesis using False None pb im at by (auto simp: c_def message_book_def)
    qed
  qed
qed

subsection \<open>Reading and removing messages\<close>

lemma find_n_message_sem:
  assumes p: "pers_ok S ok blk p" and ok: "contacts_ok (blk (dev p)) (usage_bitmap p) t"
    and mok: "messages_ok (blk (dev p)) (usage_bitmap p) t" and n: "n > 0"
  shows "hash_find_n_message S p t phone start n =
    (case message_book (contact_at (blk (dev p)) (usage_bitmap p)) (blk (dev p)) t phone of
       None \<Rightarrow> (-1, [])
     | Some ms \<Rightarrow> if start < length ms then (int (length (take n (drop start ms))), take n (drop start ms)) else (-1, []))"
proof -
  let ?cs = "contact_at (blk (dev p)) (usage_bitmap p)"
  note t = contacts_okD [OF ok] and mt = messages_okD [OF mok]
  note find = find_entry_on_card [OF p ok]
  have sz: "ht_size t \<noteq> 0" using index_okD(2) [OF t(2)] by (simp add: layout)
  show ?thesis
  proof (cases "phone_index ?cs t phone")
    case None
    obtain f where f: "first_claimable t (hash_phone phone) = Some f" using claimable_exists [OF ok] by blast
    then have "hash_find_n_message S p t phone start n = (-1, [])"
      using find [of phone] None first_claimable_Some(2) [OF f] by (auto simp: hash_find_n_message_def)
    then show ?thesis by (simp add: None message_book_def)
  next
    case (Some e)
    note eo = indexed(1) [OF t(2) Some]
    have st: "he_state (entry_at t e) = ENTRY_OCCUPIED" using eo by (simp add: set_occupied_slots)
    note c = mt(4) [OF eo]
    have nil: "he_latest_msg_extent (entry_at t e) = UINT16_MAX \<longleftrightarrow> chain (blk (dev p)) t e = []"
      using c msg_sector_bounds(4) [of UINT16_MAX] by (cases "chain (blk (dev p)) t e") auto
    show ?thesis
      using n find [of phone] Some st sz read_n_messages_chat [OF p c chat_length [OF c], of start n]
      by (auto simp: hash_find_n_message_def message_book_def nil)
  qed
qed

end

lemma free_all:
  assumes "free_list_inv fl" and "distinct ss" and "set ss \<inter> avail fl = {}" and "\<And>s. s \<in> set ss \<Longrightarrow> s < fl_capacity fl"
  shows "free_list_inv (foldl free_list_free fl ss) \<and> avail (foldl free_list_free fl ss) = avail fl \<union> set ss \<and>
    fl_capacity (foldl free_list_free fl ss) = fl_capacity fl"
  using assms
proof (induction ss arbitrary: fl)
  case (Cons s ss)
  have f: "free_list_inv (free_list_free fl s)" "avail (free_list_free fl s) = insert s (avail fl)"
      "fl_capacity (free_list_free fl s) = fl_capacity fl"
    using free_list_free_step [of fl s] Cons.prems by auto
  from Cons.IH [OF f(1)] show ?case using f Cons.prems by auto
qed simp

context reliable_store begin

lemma clear_chat_sem:
  assumes p: "pers_ok S ok blk p" and ok: "contacts_ok (blk (dev p)) (usage_bitmap p) t"
    and mok: "messages_ok (blk (dev p)) (usage_bitmap p) t"
  defines "cs \<equiv> contact_at (blk (dev p)) (usage_bitmap p)"
  assumes e: "phone_index cs t phone = Some e"
  shows "\<exists>p' ma. remove_message_chat S p (ht_message_allocator t) (he_latest_msg_extent (entry_at t e)) = Some (True, p', ma) \<and>
    (let t' = set_entry e ((entry_at t e)\<lparr>he_latest_msg_extent := UINT16_MAX\<rparr>) (t\<lparr>ht_message_allocator := ma\<rparr>);
         cs' = contact_at (blk (dev p')) (usage_bitmap p')
     in pers_ok S ok blk p' \<and> contacts_ok (blk (dev p')) (usage_bitmap p') t' \<and>
        messages_ok (blk (dev p')) (usage_bitmap p') t' \<and>
        phone_index cs' t' = phone_index cs t \<and> phone_book cs' t' = phone_book cs t \<and>
        message_book cs' (blk (dev p')) t' = (message_book cs (blk (dev p)) t)(phone \<mapsto> []) \<and>
        avail ma = avail (ht_message_allocator t) \<union> set (chain (blk (dev p)) t e) \<and> records_only (blk (dev p)) (blk (dev p')))"
proof -
  note t = contacts_okD [OF ok] and mt = messages_okD [OF mok]
  note eo = indexed(1) [OF t(2), folded cs_def, OF e]
  define ss where "ss = chain (blk (dev p)) t e"
  define ma where "ma = foldl free_list_free (ht_message_allocator t) ss"
  note c = mt(4) [OF eo, folded ss_def]
  obtain p' where r: "remove_message_chat S p (ht_message_allocator t) (he_latest_msg_extent (entry_at t e)) = Some (True, p', ma)"
      "pers_ok S ok blk p'" "raw_data_same (blk (dev p)) (blk (dev p'))"
      "\<forall>j. used (usage_bitmap p') j = (used (usage_bitmap p) j \<and> j \<notin> MESSAGE_DATA_SECTOR ` set ss)"
    using remove_message_chat_chat [OF p c, of "ht_message_allocator t"] by (auto simp: ma_def)
  have "set ss \<inter> avail (ht_message_allocator t) = {}" using mt(3) chat_used [OF c] by blast
  then have al: "free_list_inv ma" "avail ma = avail (ht_message_allocator t) \<union> set ss" "fl_capacity ma = TOTAL_MESSAGE_SECTOR_SIZE"
    using free_all [OF mt(1) chat_distinct [OF c]] chat_less [OF c] mt(2) by (simp_all add: ma_def)
  define t' where "t' = set_entry e ((entry_at t e)\<lparr>he_latest_msg_extent := UINT16_MAX\<rparr>) (t\<lparr>ht_message_allocator := ma\<rparr>)"
  define cs' where "cs' = contact_at (blk (dev p')) (usage_bitmap p')"
  have el: "e < length (ht_htable t)" using eo index_okD(1,2) [OF t(2)] by (simp add: set_occupied_slots)
  have h: "ht_htable t' = (ht_htable t)[e := (entry_at t e)\<lparr>he_latest_msg_extent := UINT16_MAX\<rparr>]" "ht_size t' = ht_size t"
      "ht_num_elems t' = ht_num_elems t" "ht_contact_allocator t' = ht_contact_allocator t" "ht_message_allocator t' = ma"
    by (simp_all add: t'_def set_entry_def)
  have at: "entry_at t' i = (if i = e then (entry_at t e)\<lparr>he_latest_msg_extent := UINT16_MAX\<rparr> else entry_at t i)" for i
    using el by (simp add: h)
  have u: "used (usage_bitmap p') k = used (usage_bitmap p) k" if "k < TOTAL_CONTACT_SECTOR_SIZE" for k
    using that r(4) by (auto simp: sector_defs layout)
  have fr: "only_sectors {} (blk (dev p)) (blk (dev p'))" using r(3) by (simp add: only_sectors_def raw_data_same_def)
  note cf = contacts_ok_frame [OF ok fr _ u, simplified, folded cs_def cs'_def]
  note ie = index_extent [OF h(1-3) el]
  have other: "chat (blk (dev p')) (usage_bitmap p') (he_latest_msg_extent (entry_at t i)) (chain (blk (dev p)) t i) \<and>
      chat_msgs (blk (dev p')) (chain (blk (dev p)) t i) = chat_msgs (blk (dev p)) (chain (blk (dev p)) t i)"
    if i: "i \<in> set (occupied_slots t)" "i \<noteq> e" for i
  proof (rule chat_raw_same [OF r(3) _ mt(4) [OF i(1)]])
    fix s assume s: "s \<in> set (chain (blk (dev p)) t i)"
    then have "s \<notin> set ss" using mt(5) [OF i(1) eo i(2)] by (auto simp: ss_def)
    then show "used (usage_bitmap p') (MESSAGE_DATA_SECTOR s)" using chat_used [OF mt(4) [OF i(1)] s] r(4) by auto
  qed
  let ?C = "\<lambda>i. if i = e then [] else chain (blk (dev p)) t i"
  have C: "chat (blk (dev p')) (usage_bitmap p') (he_latest_msg_extent (entry_at t' i)) (?C i)" if "i \<in> set (occupied_slots t')" for i
    using that other [of i] by (auto simp: ie(1) at)
  have m: "messages_ok (blk (dev p')) (usage_bitmap p') t'"
  proof (rule messages_okI [where C = ?C, OF _ _ _ C])
    show "\<not> used (usage_bitmap p') (MESSAGE_DATA_SECTOR s)" if "s \<in> avail (ht_message_allocator t')" for s
      using that mt(3) r(4) by (auto simp: h al)
    show "set (?C i) \<inter> set (?C j) = {}" if "i \<in> set (occupied_slots t')" "j \<in> set (occupied_slots t')" "i \<noteq> j" for i j
      using that mt(5) [of i j] by (auto simp: ie(1))
    have "msg_block (blk (dev p')) s = msg_block (blk (dev p)) s" if "s < TOTAL_MESSAGE_SECTOR_SIZE" for s
      using r(3) msg_sector_bounds(1) [OF that] by (simp add: raw_data_same_def msg_block_def)
    then show "rooted (blk (dev p')) (he_sector (entry_at t' i)) (?C i)" if "i \<in> set (occupied_slots t')" for i
      using that mt(6) [of i] chat_less [OF mt(4) [of i]] rooted_same [of "chain (blk (dev p)) t i" "blk (dev p')" "blk (dev p)"]
      by (auto simp: ie(1) at)
    show "\<exists>i \<in> set (occupied_slots t'). z \<in> set (?C i)"
      if z: "z < TOTAL_MESSAGE_SECTOR_SIZE" "used (usage_bitmap p') (MESSAGE_DATA_SECTOR z)" for z
    proof -
      have "used (usage_bitmap p) (MESSAGE_DATA_SECTOR z)" "z \<notin> set ss" using z(2) r(4) by auto
      then obtain i where "i \<in> set (occupied_slots t)" "z \<in> set (chain (blk (dev p)) t i)" "i \<noteq> e" using mt(7) [OF z(1)] ss_def by blast
      then show ?thesis unfolding ie(1) by (intro bexI [of _ i]) simp_all
    qed
  qed (simp_all add: h al)
  have ch: "chain (blk (dev p')) t' i = ?C i" if "i \<in> set (occupied_slots t)" for i
    by (rule chain_eq [OF C]) (use that ie(1) in simp)
  have pi: "phone_index cs' t' = phone_index cs t" "phone_book cs' t' = phone_book cs t" using cf ie by simp_all
  have "message_book cs' (blk (dev p')) t' ph = ((message_book cs (blk (dev p)) t)(phone \<mapsto> [])) ph" for ph
  proof (cases "phone_index cs t ph")
    case (Some i)
    note i = indexed [OF t(2), folded cs_def, OF Some]
    show ?thesis
    proof (cases "ph = phone")
      case True
      then show ?thesis using Some e ch [OF i(1)] by (simp add: message_book_def pi)
    next
      case False
      then have "i \<noteq> e" using indexed_once [OF t(2), folded cs_def, OF Some e] by blast
      then show ?thesis using Some False ch [OF i(1)] other [OF i(1)] by (simp add: message_book_def pi)
    qed
  qed (use e in \<open>auto simp: message_book_def pi\<close>)
  then have mb: "message_book cs' (blk (dev p')) t' = (message_book cs (blk (dev p)) t)(phone \<mapsto> [])" by auto
  have "records_only (blk (dev p)) (blk (dev p'))" by (rule only_sectors_mono [OF fr]) simp
  then show ?thesis using r(1,2) contacts_ok_extent [OF cf(1) el h(1-4)] m pi mb al(2)
    by (intro exI [of _ p'] exI [of _ ma]) (simp add: Let_def flip: t'_def cs'_def ss_def)
qed

lemma hash_remove_message_sem:
  assumes p: "pers_ok S ok blk p" and ok: "contacts_ok (blk (dev p)) (usage_bitmap p) t"
    and mok: "messages_ok (blk (dev p)) (usage_bitmap p) t"
  defines "cs \<equiv> contact_at (blk (dev p)) (usage_bitmap p)"
  shows "\<exists>r t' p'. hash_remove_message S p t phone = Some (r, t', p') \<and>
    (case phone_index cs t phone of None \<Rightarrow> \<not> r \<and> t' = t \<and> p' = p
     | Some e \<Rightarrow> r \<and> pers_ok S ok blk p' \<and> contacts_ok (blk (dev p')) (usage_bitmap p') t' \<and>
        messages_ok (blk (dev p')) (usage_bitmap p') t' \<and>
        phone_book (contact_at (blk (dev p')) (usage_bitmap p')) t' = phone_book cs t \<and>
        message_book (contact_at (blk (dev p')) (usage_bitmap p')) (blk (dev p')) t' = (message_book cs (blk (dev p)) t)(phone \<mapsto> []) \<and>
        phone_index (contact_at (blk (dev p')) (usage_bitmap p')) t' = phone_index cs t \<and> records_only (blk (dev p)) (blk (dev p')))"
proof -
  note t = contacts_okD [OF ok]
  note find = find_entry_on_card [OF p ok, folded cs_def]
  have sz: "ht_size t \<noteq> 0" using index_okD(2) [OF t(2)] by (simp add: layout)
  show ?thesis
  proof (cases "phone_index cs t phone")
    case None
    obtain f where f: "first_claimable t (hash_phone phone) = Some f" using claimable_exists [OF ok] by blast
    then have "hash_remove_message S p t phone = Some (False, t, p)"
      using find [of phone] None first_claimable_Some(2) [OF f] by (auto simp: hash_remove_message_def)
    then show ?thesis by (auto simp: None)
  next
    case (Some e)
    have st: "he_state (entry_at t e) = ENTRY_OCCUPIED"
      using indexed(1) [OF t(2), folded cs_def, OF Some] by (simp add: set_occupied_slots)
    obtain p' ma where rm: "remove_message_chat S p (ht_message_allocator t) (he_latest_msg_extent (entry_at t e)) = Some (True, p', ma)"
      and cl: "let t' = set_entry e ((entry_at t e)\<lparr>he_latest_msg_extent := UINT16_MAX\<rparr>) (t\<lparr>ht_message_allocator := ma\<rparr>);
         cs' = contact_at (blk (dev p')) (usage_bitmap p')
       in pers_ok S ok blk p' \<and> contacts_ok (blk (dev p')) (usage_bitmap p') t' \<and>
        messages_ok (blk (dev p')) (usage_bitmap p') t' \<and>
        phone_index cs' t' = phone_index cs t \<and> phone_book cs' t' = phone_book cs t \<and>
        message_book cs' (blk (dev p')) t' = (message_book cs (blk (dev p)) t)(phone \<mapsto> []) \<and>
        avail ma = avail (ht_message_allocator t) \<union> set (chain (blk (dev p)) t e) \<and> records_only (blk (dev p)) (blk (dev p'))"
      using clear_chat_sem [OF p ok mok Some [unfolded cs_def], folded cs_def] by blast
    have "hash_remove_message S p t phone =
        Some (True, set_entry e ((entry_at t e)\<lparr>he_latest_msg_extent := UINT16_MAX\<rparr>) (t\<lparr>ht_message_allocator := ma\<rparr>), p')"
      using find [of phone] Some st sz rm by (simp add: hash_remove_message_def Let_def)
    then show ?thesis using cl Some by (auto simp: Let_def)
  qed
qed

lemma hash_remove_sem:
  assumes p: "pers_ok S ok blk p" and ok: "contacts_ok (blk (dev p)) (usage_bitmap p) t"
    and mok: "messages_ok (blk (dev p)) (usage_bitmap p) t"
  defines "cs \<equiv> contact_at (blk (dev p)) (usage_bitmap p)"
  shows "\<exists>r out t' p'. hash_remove S p t phone = Some (r, out, t', p') \<and> out = phone_index cs t phone \<and>
    (case phone_index cs t phone of None \<Rightarrow> \<not> r \<and> t' = t \<and> p' = p
     | Some e \<Rightarrow> r \<and> pers_ok S ok blk p' \<and> contacts_ok (blk (dev p')) (usage_bitmap p') t' \<and>
        messages_ok (blk (dev p')) (usage_bitmap p') t' \<and>
        phone_book (contact_at (blk (dev p')) (usage_bitmap p')) t' = (phone_book cs t)(phone := None) \<and>
        message_book (contact_at (blk (dev p')) (usage_bitmap p')) (blk (dev p')) t' = (message_book cs (blk (dev p)) t)(phone := None) \<and>
        avail (ht_message_allocator t') = avail (ht_message_allocator t) \<union> set (chain (blk (dev p)) t e) \<and>
        phone_index (contact_at (blk (dev p')) (usage_bitmap p')) t' = (phone_index cs t)(phone := None) \<and> records_only (blk (dev p)) (blk (dev p')))"
proof -
  note t = contacts_okD [OF ok]
  note find = find_entry_on_card [OF p ok, folded cs_def]
  have sz: "ht_size t \<noteq> 0" using index_okD(2) [OF t(2)] by (simp add: layout)
  show ?thesis
  proof (cases "phone_index cs t phone")
    case None
    obtain f where f: "first_claimable t (hash_phone phone) = Some f" using claimable_exists [OF ok] by blast
    then have "hash_remove S p t phone = Some (False, None, t, p)"
      using find [of phone] None first_claimable_Some(2) [OF f] by (auto simp: hash_remove_def)
    then show ?thesis by (auto simp: None)
  next
    case (Some e)
    have st: "he_state (entry_at t e) = ENTRY_OCCUPIED"
      using indexed(1) [OF t(2), folded cs_def, OF Some] by (simp add: set_occupied_slots)
    obtain p1 ma where rm: "remove_message_chat S p (ht_message_allocator t) (he_latest_msg_extent (entry_at t e)) = Some (True, p1, ma)"
      and cl: "let t' = set_entry e ((entry_at t e)\<lparr>he_latest_msg_extent := UINT16_MAX\<rparr>) (t\<lparr>ht_message_allocator := ma\<rparr>);
         cs' = contact_at (blk (dev p1)) (usage_bitmap p1)
       in pers_ok S ok blk p1 \<and> contacts_ok (blk (dev p1)) (usage_bitmap p1) t' \<and>
        messages_ok (blk (dev p1)) (usage_bitmap p1) t' \<and>
        phone_index cs' t' = phone_index cs t \<and> phone_book cs' t' = phone_book cs t \<and>
        message_book cs' (blk (dev p1)) t' = (message_book cs (blk (dev p)) t)(phone \<mapsto> []) \<and>
        avail ma = avail (ht_message_allocator t) \<union> set (chain (blk (dev p)) t e) \<and> records_only (blk (dev p)) (blk (dev p1))"
      using clear_chat_sem [OF p ok mok Some [unfolded cs_def], folded cs_def] by blast
    define t1 where "t1 = set_entry e ((entry_at t e)\<lparr>he_latest_msg_extent := UINT16_MAX\<rparr>) (t\<lparr>ht_message_allocator := ma\<rparr>)"
    define cs1 where "cs1 = contact_at (blk (dev p1)) (usage_bitmap p1)"
    have k1: "pers_ok S ok blk p1" "contacts_ok (blk (dev p1)) (usage_bitmap p1) t1" "messages_ok (blk (dev p1)) (usage_bitmap p1) t1"
        "phone_index cs1 t1 = phone_index cs t" "phone_book cs1 t1 = phone_book cs t"
        "message_book cs1 (blk (dev p1)) t1 = (message_book cs (blk (dev p)) t)(phone \<mapsto> [])"
      using cl by (simp_all add: Let_def t1_def cs1_def)
    note t1 = contacts_okD [OF k1(2)]
    have e1: "phone_index cs1 t1 phone = Some e" using k1(4) Some by simp
    note eo = indexed(1) [OF t1(2), folded cs1_def, OF e1]
    obtain rr o2 p' ca where rc: "remove_contact S p1 (ht_contact_allocator t1) (he_sector (entry_at t1 e)) = (rr, o2, p', ca)"
      by (metis prod_cases4)
    define t2 where "t2 = (set_entry e ((entry_at t1 e)\<lparr>he_state := ENTRY_DELETED\<rparr>) (t1\<lparr>ht_contact_allocator := ca\<rparr>))
      \<lparr>ht_num_elems := ht_num_elems t1 - 1\<rparr>"
    have s2: "ht_htable t2 = (ht_htable t1)[e := (entry_at t1 e)\<lparr>he_state := ENTRY_DELETED\<rparr>]" "ht_size t2 = ht_size t1"
        "ht_num_elems t2 = ht_num_elems t1 - 1" "ht_contact_allocator t2 = ca" "ht_message_allocator t2 = ht_message_allocator t1"
      by (simp_all add: t2_def set_entry_def)
    note sl = remove_contact_slot [OF k1(1,2) e1 [unfolded cs1_def] rc s2(1-4), simplified, folded cs1_def]
    define cs2 where "cs2 = contact_at (blk (dev p')) (usage_bitmap p')"
    have rr: rr using sl by blast
    have al1: "ht_contact_allocator t1 = ht_contact_allocator t" "entry_at t1 e = (entry_at t e)\<lparr>he_latest_msg_extent := UINT16_MAX\<rparr>"
        "ht_message_allocator t1 = ma"
      using eo index_okD(1,2) [OF t1(2)] by (simp_all add: t1_def set_entry_def set_occupied_slots)
    have run: "hash_remove S p t phone = Some (True, Some e, t2, p')"
      using find [of phone] Some st sz rm rc rr al1
      by (simp add: hash_remove_def Let_def t2_def flip: t1_def) (simp add: t1_def set_entry_def)
    have k: "he_sector (entry_at t1 e) div CONTACT_SECTOR_CAPACITY < TOTAL_CONTACT_SECTOR_SIZE"
      using index_okD(3) [OF t1(2) eo] by (intro slot_in_region) (simp add: entry_ok_def Let_def)
    note rcs = remove_contact_sem [OF k1(1) t1(1) k rc]
    have "contact_at (blk (dev p1)) (usage_bitmap p1) (he_sector (entry_at t1 e)) \<noteq> None"
      using index_okD(3) [OF t1(2) eo] by (simp add: entry_ok_def Let_def)
    then have fr: "only_sectors {he_sector (entry_at t1 e) div CONTACT_SECTOR_CAPACITY} (blk (dev p1)) (blk (dev p'))"
      and u: "\<And>j. j \<noteq> he_sector (entry_at t1 e) div CONTACT_SECTOR_CAPACITY \<Longrightarrow> used (usage_bitmap p') j = used (usage_bitmap p1) j"
      using rcs elsewhere_only [of "he_sector (entry_at t1 e) div CONTACT_SECTOR_CAPACITY"] k by (auto simp: layout)
    have rl: "set (occupied_slots t2) = set (occupied_slots t1) - {e}"
      by (rule index_release(4) [OF t1(2) e1 [unfolded cs1_def] refl s2(1-3)]) simp
    have at2: "entry_at t2 i = entry_at t1 i" if "i \<noteq> e" for i using that by (simp add: s2)
    have "he_latest_msg_extent (entry_at t2 i) = UINT16_MAX \<or> id i \<in> set (occupied_slots t1) \<and>
        he_latest_msg_extent (entry_at t2 i) = he_latest_msg_extent (entry_at t1 (id i)) \<and> he_sector (entry_at t2 i) = he_sector (entry_at t1 (id i))"
      if "i \<in> set (occupied_slots t2)" for i
      using that rl at2 [of i] by auto
    moreover have "\<exists>i \<in> set (occupied_slots t2). id i = j \<and> he_latest_msg_extent (entry_at t2 i) = he_latest_msg_extent (entry_at t1 j)"
      if j: "j \<in> set (occupied_slots t1)" "chain (blk (dev p1)) t1 j \<noteq> []" for j
    proof -
      have "he_latest_msg_extent (entry_at t1 e) = UINT16_MAX" by (simp add: al1(2))
      then have "chain (blk (dev p1)) t1 e = []"
        using messages_okD(4) [OF k1(3) eo] msg_sector_bounds(4) [of UINT16_MAX] by (cases "chain (blk (dev p1)) t1 e") auto
      then have "j \<noteq> e" using j(2) by blast
      then show ?thesis using j(1) rl at2 [of j] by (intro bexI [of _ j]) simp_all
    qed
    ultimately have mr: "messages_ok (blk (dev p')) (usage_bitmap p') t2"
      "\<And>i. i \<in> set (occupied_slots t2) \<Longrightarrow> he_latest_msg_extent (entry_at t2 i) = UINT16_MAX \<Longrightarrow> chain (blk (dev p')) t2 i = []"
      "\<And>i. i \<in> set (occupied_slots t2) \<Longrightarrow> i \<in> set (occupied_slots t1) \<Longrightarrow>
        he_latest_msg_extent (entry_at t2 i) = he_latest_msg_extent (entry_at t1 i) \<Longrightarrow>
        chat_msgs (blk (dev p')) (chain (blk (dev p')) t2 i) = chat_msgs (blk (dev p1)) (chain (blk (dev p1)) t1 i)"
      using messages_reindex [OF k1(3) k fr u s2(5) _ inj_on_id] by (simp_all add: id_def)
    have "message_book cs2 (blk (dev p')) t2 ph = ((message_book cs (blk (dev p)) t)(phone := None)) ph" for ph
    proof (cases "ph = phone")
      case True
      then show ?thesis using sl by (simp add: message_book_def cs2_def)
    next
      case False
      have "message_book cs2 (blk (dev p')) t2 ph = message_book cs1 (blk (dev p1)) t1 ph"
      proof (cases "phone_index cs1 t1 ph")
        case (Some i)
        note i = indexed [OF t1(2), folded cs1_def, OF Some]
        have "i \<noteq> e" using indexed_once [OF t1(2), folded cs1_def, OF Some e1 False] .
        then show ?thesis using False Some sl mr(3) [of i] i rl at2 by (simp add: message_book_def cs2_def)
      qed (use False sl in \<open>simp add: message_book_def cs2_def\<close>)
      then show ?thesis using False k1(6) by simp
    qed
    then have mb: "message_book cs2 (blk (dev p')) t2 = (message_book cs (blk (dev p)) t)(phone := None)" by auto
    have "avail ma = avail (ht_message_allocator t) \<union> set (chain (blk (dev p)) t e)" using cl by (simp add: Let_def)
    moreover have "records_only (blk (dev p)) (blk (dev p1))" using cl by (simp add: Let_def)
    then have "records_only (blk (dev p)) (blk (dev p'))" by (rule only_sectors_trans [OF _ records_only_contact [OF fr k]])
    ultimately show ?thesis using run sl mr(1) mb k1(4,5) Some s2(5) al1(3)
      by (intro exI [of _ True] exI [of _ "Some e"] exI [of _ t2] exI [of _ p']) (simp add: cs2_def)
  qed
qed

text \<open>A contact that changes its phone number takes its chat along.\<close>

lemma update_phone_messages:
  assumes p: "pers_ok S ok blk p" and ok: "contacts_ok (blk (dev p)) (usage_bitmap p) t"
    and mok: "messages_ok (blk (dev p)) (usage_bitmap p) t"
    and c: "contact_wf c" "0 \<in> set (c_phone c)" and w: "hash_update_phone S p t old c = (STRG_OK, t', p')"
  defines "cs \<equiv> contact_at (blk (dev p)) (usage_bitmap p)" and "cs' \<equiv> contact_at (blk (dev p')) (usage_bitmap p')"
  shows "messages_ok (blk (dev p')) (usage_bitmap p') t' \<and>
    message_book cs' (blk (dev p')) t' = (message_book cs (blk (dev p)) t)
      (old := None, phone_of c := message_book cs (blk (dev p)) t old) \<and> records_only (blk (dev p)) (blk (dev p'))"
proof -
  note t = contacts_okD [OF ok]
  note sem = update_phone_sem [OF p ok c w, folded cs_def cs'_def]
  obtain i where i: "phone_index cs t old = Some i" and new: "phone_index cs t (phone_of c) = None"
    using sem by (auto split: option.splits if_splits)
  obtain e where e: "phone_index cs' t' = (phone_index cs t)(old := None, phone_of c \<mapsto> e)" "e \<noteq> i"
      "set (occupied_slots t') = insert e (set (occupied_slots t) - {i})"
      "ht_htable t' = (ht_htable t)[i := (entry_at t i)\<lparr>he_state := ENTRY_DELETED\<rparr>, e := (entry_at t i)\<lparr>he_id := hash_phone (phone_of c)\<rparr>]"
      "write_contact S p (he_sector (entry_at t i)) c = (STRG_OK, p')" "ht_message_allocator t' = ht_message_allocator t"
      "contacts_ok (blk (dev p')) (usage_bitmap p') t'"
    using sem unfolding i option.case by (auto simp: new)
  note io = indexed(1) [OF t(2), folded cs_def, OF i]
  have "e \<in> set (occupied_slots t')" using e(3) by simp
  then have el: "e < length (ht_htable t)"
    using e(4) index_okD(1,2) [OF contacts_okD(2) [OF e(7)]] by (simp add: set_occupied_slots)
  have at: "entry_at t' j = (if j = e then (entry_at t i)\<lparr>he_id := hash_phone (phone_of c)\<rparr> else entry_at t j)" if "j \<noteq> i" for j
    using el that by (simp add: e(4))
  have ei: "entry_ok cs t i" using index_okD(3) [OF t(2) io] by (simp add: cs_def)
  then have k: "he_sector (entry_at t i) div CONTACT_SECTOR_CAPACITY < TOTAL_CONTACT_SECTOR_SIZE"
    by (intro slot_in_region) (simp add: entry_ok_def Let_def)
  note wr = write_contact_sem [OF p t(1) k c(1) e(5)]
  have kt: "he_sector (entry_at t i) div CONTACT_SECTOR_CAPACITY < USAGE_BITMAP_TOTAL_BITS" using k by (simp add: layout)
  have fr: "only_sectors {he_sector (entry_at t i) div CONTACT_SECTOR_CAPACITY} (blk (dev p)) (blk (dev p'))"
    using elsewhere_only [OF _ kt] wr by blast
  have u: "j \<noteq> he_sector (entry_at t i) div CONTACT_SECTOR_CAPACITY \<Longrightarrow> used (usage_bitmap p') j = used (usage_bitmap p) j" for j
    using wr by simp
  define src where "src j = (if j = e then i else j)" for j
  have s1: "src j \<in> set (occupied_slots t)" "he_latest_msg_extent (entry_at t' j) = he_latest_msg_extent (entry_at t (src j))"
    "he_sector (entry_at t' j) = he_sector (entry_at t (src j))" if "j \<in> set (occupied_slots t')" for j
    using that io e(2,3) at [of j] by (auto simp: src_def)
  have en: "e \<notin> set (occupied_slots t)" if "e \<noteq> i"
  proof
    assume eo: "e \<in> set (occupied_slots t)"
    have "Finite_Set.card (set (occupied_slots t')) = Finite_Set.card (set (occupied_slots t) - {i})"
      using eo e(2) unfolding e(3) by (simp add: insert_absorb)
    moreover have "phone_index cs t (slot_phone cs t e) = Some e"
      using phone_index_Some [OF index_okD(4) [OF t(2)], folded cs_def] eo by blast
    moreover have "phone_index cs' t' (phone_of c) = Some e" using e(1) by simp
    moreover have "phone_index cs' t' (slot_phone cs t e) = Some e"
      using calculation(2) e(1,2) i new by (metis fun_upd_apply option.inject)
    ultimately show False
      using indexed(2) [OF contacts_okD(2) [OF e(7)], folded cs'_def] new by (metis option.distinct(1))
  qed
  have inj: "inj_on src (set (occupied_slots t'))" using e(3) by (auto simp: inj_on_def src_def)
  have cover: "\<exists>i' \<in> set (occupied_slots t'). src i' = j \<and> he_latest_msg_extent (entry_at t' i') = he_latest_msg_extent (entry_at t j)"
    if "j \<in> set (occupied_slots t)" for j
  proof (cases "j = i")
    case True
    then show ?thesis using e(2,3) at [of e] by (intro bexI [of _ e]) (simp_all add: src_def)
  next
    case False
    then have "j \<in> set (occupied_slots t')" "j \<noteq> e" using that e(2,3) en by auto
    then show ?thesis using False at [of j] by (intro bexI [of _ j]) (simp_all add: src_def)
  qed
  note m = messages_reindex [OF mok k fr u e(6) disjI2 [OF conjI [OF s1(1) conjI [OF s1(2,3)]]] inj cover, simplified]
  have mb: "message_book cs' (blk (dev p')) t' ph = ((message_book cs (blk (dev p)) t)
      (old := None, phone_of c := message_book cs (blk (dev p)) t old)) ph" for ph
  proof (cases "phone_index cs' t' ph")
    case None
    then show ?thesis using e(1) new by (auto simp: message_book_def split: if_splits)
  next
    case (Some j)
    have jo: "j \<in> set (occupied_slots t')" by (rule indexed(1) [OF contacts_okD(2) [OF e(7)], folded cs'_def, OF Some])
    have "phone_index cs t (if ph = phone_of c then old else ph) = Some (src j)"
    proof (cases "ph = phone_of c")
      case True
      then show ?thesis using Some e(1) i by (simp add: src_def)
    next
      case False
      then have "phone_index cs t ph = Some j" "ph \<noteq> old" using Some e(1) by (auto split: if_splits)
      moreover have "j \<noteq> e" using indexed(1) [OF t(2), folded cs_def] calculation(1) en e(2) by blast
      ultimately show ?thesis using False by (simp add: src_def)
    qed
    moreover have "ph \<noteq> phone_of c \<Longrightarrow> ph \<noteq> old" using Some e(1) by auto
    ultimately show ?thesis using Some m(3) [OF jo s1(1,2) [OF jo]] by (auto simp: message_book_def split: if_splits)
  qed
  then show ?thesis using m(1) records_only_contact [OF fr k] by blast
qed

text \<open>One that keeps it leaves every chat alone.\<close>

lemma update_contact_messages:
  assumes p: "pers_ok S ok blk p" and ok: "contacts_ok (blk (dev p)) (usage_bitmap p) t"
    and mok: "messages_ok (blk (dev p)) (usage_bitmap p) t"
    and c: "contact_wf c" "0 \<in> set (c_phone c)" and w: "hash_update_contact S p t old c = (STRG_OK, t', p')"
    and same: "phone_of old = phone_of c"
  defines "cs \<equiv> contact_at (blk (dev p)) (usage_bitmap p)" and "cs' \<equiv> contact_at (blk (dev p')) (usage_bitmap p')"
  shows "messages_ok (blk (dev p')) (usage_bitmap p') t' \<and>
    message_book cs' (blk (dev p')) t' = message_book cs (blk (dev p)) t \<and> records_only (blk (dev p)) (blk (dev p'))"
proof -
  note t = contacts_okD [OF ok]
  note find = find_entry_on_card [OF p ok, folded cs_def]
  note sem = update_contact_sem [OF p ok c w same, folded cs_def cs'_def]
  obtain i where i: "phone_index cs t (phone_of c) = Some i" and t': "t' = t" using sem by (auto split: option.splits)
  have pi: "phone_index cs' t = phone_index cs t" using sem i t' by simp
  note io = indexed(1) [OF t(2), folded cs_def, OF i]
  have k: "he_sector (entry_at t i) div CONTACT_SECTOR_CAPACITY < TOTAL_CONTACT_SECTOR_SIZE"
    using index_okD(3) [OF t(2) io] by (intro slot_in_region) (simp add: entry_ok_def Let_def)
  have "he_state (entry_at t i) = ENTRY_OCCUPIED" using io by (simp add: set_occupied_slots)
  then have "write_contact S p (he_sector (entry_at t i)) c = (STRG_OK, p')"
    using w find [of "phone_of c"] i same by (simp add: hash_update_contact_def phone_of_def split: prod.splits)
  note wr = write_contact_sem [OF p t(1) k c(1) this]
  have kt: "he_sector (entry_at t i) div CONTACT_SECTOR_CAPACITY < USAGE_BITMAP_TOTAL_BITS" using k by (simp add: layout)
  have fr: "only_sectors {he_sector (entry_at t i) div CONTACT_SECTOR_CAPACITY} (blk (dev p)) (blk (dev p'))"
    using elsewhere_only [OF _ kt] wr by blast
  have u: "j \<noteq> he_sector (entry_at t i) div CONTACT_SECTOR_CAPACITY \<Longrightarrow> used (usage_bitmap p') j = used (usage_bitmap p) j" for j
    using wr by simp
  have "he_latest_msg_extent (entry_at t j) = UINT16_MAX \<or> id j \<in> set (occupied_slots t) \<and>
      he_latest_msg_extent (entry_at t j) = he_latest_msg_extent (entry_at t (id j)) \<and> he_sector (entry_at t j) = he_sector (entry_at t (id j))"
    if "j \<in> set (occupied_slots t)" for j
    using that by simp
  note m = messages_reindex [OF mok k fr u refl this, simplified]
  have "message_book cs' (blk (dev p')) t ph = message_book cs (blk (dev p)) t ph" for ph
    using m(3) indexed(1) [OF t(2), folded cs_def, of ph]
    by (cases "phone_index cs t ph") (simp_all add: message_book_def pi)
  then have "message_book cs' (blk (dev p')) t' = message_book cs (blk (dev p)) t" unfolding t' by (rule ext)
  then show ?thesis using m(1) records_only_contact [OF fr k] t' by simp
qed

end

end
