(* ===== verification/Hash_Iterator.thy ===== *)
theory Hash_Iterator
  imports Hash_Messages
begin

text \<open>
  The iterator over the occupied slots meets the cursor contract of the iterator interface, and the
  two listings driven through it end and return a range of the contacts, or of the newest messages, in slot
  order.
\<close>

subsection \<open>The cursor over the occupied slots\<close>

abbreviation occupied :: "HashTable \<Rightarrow> nat \<Rightarrow> bool" where
  "occupied t i \<equiv> he_state (entry_at t i) = ENTRY_OCCUPIED"

lemma next_occupied_eq:
  "next_occupied t i = (case filter (occupied t) [i..<ht_size t] of [] \<Rightarrow> None | x # _ \<Rightarrow> Some x)"
proof (induction t i rule: next_occupied.induct)
  case (1 t i)
  then show ?case by (cases "i < ht_size t") (auto simp: next_occupied.simps [of t i] upt_conv_Cons)
qed

lemma prev_occupied_eq:
  "prev_occupied t i = (case rev (filter (occupied t) [0..<Suc i]) of [] \<Rightarrow> None | x # _ \<Rightarrow> Some x)"
  by (induction i) auto

lemma above_occupied: "above (Some a) (occupied_slots t) = filter (occupied t) [Suc a..<ht_size t]"
proof -
  have "filter (\<lambda>x. a < x) (filter P [0..<n]) = filter P [Suc a..<n]" for P n
    by (induction n) (auto simp: less_Suc_eq_le)
  then show ?thesis by (simp add: above_def occupied_slots_def del: filter_filter)
qed

lemma below_occupied: "a \<le> ht_size t \<Longrightarrow> below (Some a) (occupied_slots t) = filter (occupied t) [0..<a]"
proof -
  assume "a \<le> ht_size t"
  then have "[0..<ht_size t] = [0..<a] @ [a..<ht_size t]" using upt_add_eq_append [of 0 a "ht_size t - a"] by simp
  moreover have "filter (\<lambda>x. x < a) (filter P [a..<n]) = []" for P n by (simp add: filter_empty_conv)
  moreover have "filter (\<lambda>x. x < a) (filter P [0..<a]) = filter P [0..<a]" for P by (rule filter_True) simp
  ultimately show ?thesis by (simp add: below_def occupied_slots_def del: filter_filter)
qed

definition hash_ctx_ok :: "HashTable \<Rightarrow> HashTableIteratorCtx \<Rightarrow> bool" where
  "hash_ctx_ok t ctx \<longleftrightarrow> ht_size t \<le> UINT16_MAX \<and> (hc_current ctx = UINT16_MAX \<or> hc_current ctx < ht_size t)"

lemma hc_moved_cases:
  assumes "ht_size t \<le> UINT16_MAX" and "set xs \<subseteq> {..<ht_size t}"
    and "hc_moved ctx (case xs of [] \<Rightarrow> None | x # _ \<Rightarrow> Some x) = (r, ctx')"
  shows "hash_ctx_ok t ctx' \<and> (case xs of [] \<Rightarrow> \<not> r \<and> hash_table_iterator_get ctx' = None
    | x # _ \<Rightarrow> r \<and> hash_table_iterator_get ctx' = Some x)"
  using assms by (cases xs) (auto simp: hc_moved_def hash_ctx_ok_def hash_table_iterator_get_def)

interpretation slots: cursor "hash_table_iterator t" "hash_ctx_ok t" "occupied_slots t" for t
proof
  show "sorted_wrt (<) (occupied_slots t)" by (rule sorted_occupied_slots)
next
  fix ctx r ctx' assume ok: "hash_ctx_ok t ctx" and n: "it_next (hash_table_iterator t) ctx = (r, ctx')"
  have sz: "ht_size t \<le> UINT16_MAX" using ok by (simp add: hash_ctx_ok_def)
  have ab: "above (hash_table_iterator_get ctx) (occupied_slots t) =
      filter (occupied t) [(if hc_current ctx = UINT16_MAX then 0 else hc_current ctx + 1)..<ht_size t]"
    by (simp add: hash_table_iterator_get_def above_occupied) (simp add: above_def occupied_slots_def)
  have "hc_moved ctx (case above (hash_table_iterator_get ctx) (occupied_slots t) of [] \<Rightarrow> None | x # _ \<Rightarrow> Some x) = (r, ctx')"
    using n unfolding ab
    by (auto simp: hash_table_iterator_def hash_table_iterator_next_def next_occupied_eq hc_moved_def Let_def split: if_splits)
  moreover have "set (above (hash_table_iterator_get ctx) (occupied_slots t)) \<subseteq> {..<ht_size t}" unfolding ab by auto
  ultimately show "hash_ctx_ok t ctx' \<and>
      (case above (it_get (hash_table_iterator t) ctx) (occupied_slots t) of
         [] \<Rightarrow> \<not> r \<and> it_get (hash_table_iterator t) ctx' = None
       | x # _ \<Rightarrow> r \<and> it_get (hash_table_iterator t) ctx' = Some x)"
    using hc_moved_cases [OF sz] unfolding hash_table_iterator_def Iterator.simps by blast
next
  fix ctx r ctx' assume ok: "hash_ctx_ok t ctx" and n: "it_prev (hash_table_iterator t) ctx = (r, ctx')"
  have sz: "ht_size t \<le> UINT16_MAX" using ok by (simp add: hash_ctx_ok_def)
  have be: "below (hash_table_iterator_get ctx) (occupied_slots t) =
      filter (occupied t) [0..<(if hc_current ctx = UINT16_MAX then ht_size t else hc_current ctx)]"
  proof (cases "hc_current ctx = UINT16_MAX")
    case False
    then have "hc_current ctx \<le> ht_size t" using ok by (simp add: hash_ctx_ok_def)
    from below_occupied [OF this] show ?thesis using False by (simp add: hash_table_iterator_get_def)
  qed (simp add: hash_table_iterator_get_def below_def occupied_slots_def)
  have "hc_moved ctx (case rev (below (hash_table_iterator_get ctx) (occupied_slots t)) of [] \<Rightarrow> None | x # _ \<Rightarrow> Some x) = (r, ctx')"
  proof -
    have "\<exists>k. hc_current ctx = Suc k" if "hc_current ctx \<noteq> 0" using that by (cases "hc_current ctx") auto
    moreover have "\<exists>k. ht_size t = Suc k" if "ht_size t \<noteq> 0" using that by (cases "ht_size t") auto
    ultimately show ?thesis using n ok unfolding be
      by (auto simp: hash_table_iterator_def hash_table_iterator_prev_def prev_occupied_eq hc_moved_def hash_ctx_ok_def split: if_splits)
  qed
  moreover have "set (rev (below (hash_table_iterator_get ctx) (occupied_slots t))) \<subseteq> {..<ht_size t}"
    using ok by (auto simp: be hash_ctx_ok_def)
  ultimately show "hash_ctx_ok t ctx' \<and>
      (case rev (below (it_get (hash_table_iterator t) ctx) (occupied_slots t)) of
         [] \<Rightarrow> \<not> r \<and> it_get (hash_table_iterator t) ctx' = None
       | x # _ \<Rightarrow> r \<and> it_get (hash_table_iterator t) ctx' = Some x)"
    using hc_moved_cases [OF sz] unfolding hash_table_iterator_def Iterator.simps by blast
qed

subsection \<open>Listing contacts\<close>

text \<open>One step of a listing loop, told by what is left of the slots.\<close>

lemma slot_step:
  assumes "hash_ctx_ok t ctx" and "above (hash_table_iterator_get ctx) (occupied_slots t) = xs"
  shows "case xs of
      [] \<Rightarrow> \<exists>ctx'. iterator_next_fn (hash_table_iterator t) ctx = (False, ctx')
    | x # ys \<Rightarrow> \<exists>ctx'. iterator_next_fn (hash_table_iterator t) ctx = (True, ctx') \<and> hash_ctx_ok t ctx' \<and>
        iterator_get_fn (hash_table_iterator t) ctx' = Some x \<and>
        above (hash_table_iterator_get ctx') (occupied_slots t) = ys"
proof -
  obtain r ctx' where n: "it_next (hash_table_iterator t) ctx = (r, ctx')" by (meson surj_pair)
  have g: "it_get (hash_table_iterator t) = hash_table_iterator_get" by (simp add: hash_table_iterator_def)
  note st = slots.next_step [OF assms(1) n, unfolded g assms(2)]
  show ?thesis
  proof (cases xs)
    case (Cons x ys)
    then have "r" "hash_ctx_ok t ctx'" "hash_table_iterator_get ctx' = Some x" using st by simp_all
    moreover have "above (Some x) (occupied_slots t) = ys"
      by (rule above_Cons [OF sorted_occupied_slots(1)]) (use assms(2) Cons in simp)
    ultimately show ?thesis using Cons n by (simp add: iterator_next_fn_def iterator_get_fn_def g)
  qed (use st n in \<open>simp add: iterator_next_fn_def\<close>)
qed

lemma contact_list_loop_eq:
  assumes rd: "\<And>i. i \<in> set (occupied_slots t) \<Longrightarrow> read_contact S p (he_sector (entry_at t i)) = Inr (f i)"
  shows "hash_ctx_ok t ctx \<Longrightarrow> above (hash_table_iterator_get ctx) (occupied_slots t) = xs \<Longrightarrow> set xs \<subseteq> set (occupied_slots t) \<Longrightarrow>
    skipped \<le> start \<Longrightarrow> out = [] \<or> skipped = start \<Longrightarrow> 0 \<le> n \<Longrightarrow>
    contact_list_loop S p t start n ctx skipped out =
      Some (STRG_OK, out @ take (nat n - length out) (drop (nat (start - skipped)) (map f xs)))"
proof (induction xs arbitrary: ctx skipped out)
  case Nil
  then show ?case using slot_step [OF Nil.prems(1,2)] by (subst contact_list_loop.simps) auto
next
  case (Cons x xs)
  obtain ctx' where st: "iterator_next_fn (hash_table_iterator t) ctx = (True, ctx')" "hash_ctx_ok t ctx'"
      "iterator_get_fn (hash_table_iterator t) ctx' = Some x" "above (hash_table_iterator_get ctx') (occupied_slots t) = xs"
    using slot_step [OF Cons.prems(1,2)] by auto
  show ?case
  proof (cases "int (length out) < n")
    case False
    then show ?thesis by (subst contact_list_loop.simps) simp
  next
    case True
    show ?thesis
    proof (cases "skipped < start")
      case True
      then have "nat (start - skipped) = Suc (nat (start - (skipped + 1)))" by simp
      moreover have "contact_list_loop S p t start n ctx skipped out = contact_list_loop S p t start n ctx' (skipped + 1) out"
        using st True \<open>int (length out) < n\<close> by (subst contact_list_loop.simps) simp
      ultimately show ?thesis using Cons.IH [OF st(2,4), of "skipped + 1" out] Cons.prems True by simp
    next
      case False
      have "nat n - length out = Suc (nat n - length (out @ [f x]))" using \<open>int (length out) < n\<close> by simp
      moreover have "contact_list_loop S p t start n ctx skipped out = contact_list_loop S p t start n ctx' skipped (out @ [f x])"
        using st False rd [of x] Cons.prems(3) \<open>int (length out) < n\<close> by (subst contact_list_loop.simps) simp
      ultimately show ?thesis using Cons.IH [OF st(2,4), of skipped "out @ [f x]"] Cons.prems False by simp
    qed
  qed
qed

lemma hash_get_contact_list_sem:
  assumes ok: "index_ok cs t" and rd: "reads_as S p cs"
  shows "hash_get_contact_list S p t start n =
    (if start < 0 \<or> n < 0 then Some (STRG_FAIL, [])
     else Some (STRG_OK, take (nat n) (drop (nat start) (map (slot_contact cs t) (occupied_slots t)))))"
proof -
  note t = index_okD [OF ok]
  have r: "read_contact S p (he_sector (entry_at t i)) = Inr (slot_contact cs t i)" if "i \<in> set (occupied_slots t)" for i
    using t(3) [OF that] rd by (auto simp: entry_ok_def reads_as_def slot_contact_def Let_def)
  have "hash_ctx_ok t hash_table_iterator_init" using t(2) by (simp add: hash_ctx_ok_def hash_table_iterator_init_def layout)
  moreover have "above (hash_table_iterator_get hash_table_iterator_init) (occupied_slots t) = occupied_slots t"
    by (simp add: above_def hash_table_iterator_get_def hash_table_iterator_init_def)
  ultimately show ?thesis using contact_list_loop_eq [OF r, of hash_table_iterator_init "occupied_slots t" 0 start "[]" n]
    by (simp add: hash_get_contact_list_def)
qed

text \<open>The listing shows every contact of the phone book once.\<close>

lemma listed_contacts:
  assumes "index_ok cs t"
  shows "ran (phone_book cs t) = set (map (slot_contact cs t) (occupied_slots t))"
    "distinct (map (slot_contact cs t) (occupied_slots t))"
proof -
  note t = index_okD [OF assms]
  show "ran (phone_book cs t) = set (map (slot_contact cs t) (occupied_slots t))"
    using phone_index_Some [OF t(4)] by (fastforce simp: ran_def phone_book_def)
  have "distinct (map phone_of (map (slot_contact cs t) (occupied_slots t)))" using t(4) by (simp add: o_def)
  then show "distinct (map (slot_contact cs t) (occupied_slots t))" by (simp only: distinct_map)
qed

end
