(* ===== verification/Formatted_Index.thy ===== *)
theory Formatted_Index
  imports Formatted Hash_Iterator
begin

text \<open>
  The index of a freshly formatted card, and one with a single contact or a single message, for the
  witnesses.  Nothing here models code.
\<close>

definition full_list :: "nat \<Rightarrow> FreeList" where
  "full_list n = \<lparr>free_stack = [0..<n], stack_top = n, fl_capacity = n, used_count = 0\<rparr>"

lemma full_list_ok: "n \<le> 65535 \<Longrightarrow> free_list_inv (full_list n) \<and> avail (full_list n) = {..<n}"
  using free_list_full [of "full_list n"] by (simp add: full_list_def)

definition empty_index :: HashTable where
  "empty_index = hash_init (full_list HASH_TABLE_ENTRIES) (full_list TOTAL_MESSAGE_SECTOR_SIZE)
     (replicate HASH_TABLE_SIZE hash_entry_zero) HASH_TABLE_SIZE contact_zero"

lemma empty_index_fields [simp]:
  "ht_htable empty_index = replicate HASH_TABLE_SIZE hash_entry_zero" "ht_size empty_index = HASH_TABLE_SIZE"
  "ht_num_elems empty_index = 0" "ht_contact_allocator empty_index = full_list HASH_TABLE_ENTRIES"
  "ht_message_allocator empty_index = full_list TOTAL_MESSAGE_SECTOR_SIZE"
  by (simp_all add: empty_index_def hash_init_def)

lemma empty_index_free: "occupied_slots empty_index = []"
  by (simp add: occupied_slots_def filter_empty_conv hash_entry_zero_def)

lemma empty_index_maps [simp]:
  "phone_index cs empty_index = Map.empty" "phone_book cs empty_index = Map.empty"
  "message_book cs blk empty_index = Map.empty"
  by (simp_all add: fun_eq_iff phone_index_def phone_book_def message_book_def empty_index_free)

lemma empty_index_ok: "index_ok cs empty_index"
  by (simp add: index_ok_def empty_index_free)

lemma formatted_index:
  "contacts_ok blk (usage_bitmap formatted) empty_index" "messages_ok blk (usage_bitmap formatted) empty_index"
proof -
  have "free_list_inv (full_list HASH_TABLE_ENTRIES)" "avail (full_list HASH_TABLE_ENTRIES) = {..<HASH_TABLE_ENTRIES}"
    "free_list_inv (full_list TOTAL_MESSAGE_SECTOR_SIZE)"
    using full_list_ok [of HASH_TABLE_ENTRIES] full_list_ok [of TOTAL_MESSAGE_SECTOR_SIZE] by (simp_all add: layout)
  moreover have "fl_capacity (full_list n) = n" for n by (simp add: full_list_def)
  ultimately show "contacts_ok blk (usage_bitmap formatted) empty_index" "messages_ok blk (usage_bitmap formatted) empty_index"
    by (auto simp: contacts_ok_def none_beyond_def messages_ok_def empty_index_ok formatted_contacts sectors_used_def empty_index_free formatted_unused)
qed

text \<open>A contact that the index can hold, and the state after it has been inserted.\<close>

definition alice :: Contact where
  "alice = create_contact [65] [49]"

lemma alice_ok: "contact_wf alice" "0 \<in> set (c_phone alice)" "phone_of alice = [49]"
  using create_contact_fields(3) [of "[65]" "[49]"]
  by (simp_all add: alice_def phone_of_def layout) (simp add: create_contact_def contact_zero_def pad_to_def layout)

lemma with_alice:
  obtains e t p where "hash_insert_contact heap_storage formatted empty_index alice = (STRG_OK, Some e, t, p)"
    "pers_ok heap_storage heap_ok heap_blk p" "contacts_ok (heap_blk (dev p)) (usage_bitmap p) t"
    "messages_ok (heap_blk (dev p)) (usage_bitmap p) t"
    "phone_index (contact_at (heap_blk (dev p)) (usage_bitmap p)) t = [[49] \<mapsto> e]"
    "phone_book (contact_at (heap_blk (dev p)) (usage_bitmap p)) t = [[49] \<mapsto> alice]"
    "message_book (contact_at (heap_blk (dev p)) (usage_bitmap p)) (heap_blk (dev p)) t = [[49] \<mapsto> []]"
    "ht_message_allocator t = full_list TOTAL_MESSAGE_SECTOR_SIZE"
proof -
  obtain r slot t p where w: "hash_insert_contact heap_storage formatted empty_index alice = (r, slot, t, p)" by (metis prod_cases4)
  have z: "length (occupied_slots empty_index) \<noteq> HASH_TABLE_ENTRIES" by (simp add: empty_index_free layout)
  note sem = heap.insert_contact_sem [OF formatted_ok formatted_index(1) alice_ok(1,2) w]
  then have r: "r = STRG_OK" using z by simp
  note m = heap.insert_contact_messages [OF formatted_ok formatted_index alice_ok(1,2) w [unfolded r]]
  show ?thesis using sem z r m w that by (auto simp: alice_ok(3))
qed

lemma avail_messages: "avail (full_list TOTAL_MESSAGE_SECTOR_SIZE) \<noteq> {}"
  using full_list_ok [of TOTAL_MESSAGE_SECTOR_SIZE] by (simp add: layout lessThan_empty_iff)

text \<open>The same with one message in the chat.\<close>

lemma with_message:
  assumes m: "message_wf m"
  obtains t p where "hash_insert_message heap_storage formatted empty_index [49] m = (True, t, p)"
    "pers_ok heap_storage heap_ok heap_blk p" "contacts_ok (heap_blk (dev p)) (usage_bitmap p) t"
    "messages_ok (heap_blk (dev p)) (usage_bitmap p) t"
    "message_book (contact_at (heap_blk (dev p)) (usage_bitmap p)) (heap_blk (dev p)) t = [[49] \<mapsto> [m]]"
    "phone_book (contact_at (heap_blk (dev p)) (usage_bitmap p)) t = [[49] \<mapsto> create_contact [] [49]]"
proof -
  obtain r t p where w: "hash_insert_message heap_storage formatted empty_index [49] m = (r, t, p)" by (metis prod_cases3)
  have z: "length (occupied_slots empty_index) \<noteq> HASH_TABLE_ENTRIES" by (simp add: empty_index_free layout)
  have ph: "0 \<notin> set [49 :: byte]" "length [49 :: byte] < MAX_PHONE_LEN" by (simp_all add: layout)
  have av: "avail (ht_message_allocator empty_index) \<noteq> {}" using avail_messages by simp
  from heap.hash_insert_message_sem [OF formatted_ok formatted_index m ph av w] show ?thesis
    using z w that by auto
qed

end
