(* ===== verification/Heap_Sort.thy ===== *)
theory Heap_Sort
  imports Storage "HOL-Library.Multiset" "HOL-Library.Product_Lexorder" "HOL-Library.List_Lexorder"
begin

text \<open>
  The heapsort that \<^verbatim>\<open>sorted_array.c\<close> and \<^verbatim>\<open>chat_order.c\<close> both spell out, over a
  comparison that may fail (reading a contact) or not.  \<open>mem\<close> is the array; the first \<open>n\<close>
  entries are in use.  Each loop hands back its status and the array, as far as it has been permuted.
\<close>

subsection \<open>The loops\<close>

definition entry_swap :: "nat \<Rightarrow> nat \<Rightarrow> 'e list \<Rightarrow> 'e list" where
  "entry_swap a b mem = mem[a := mem ! b, b := mem ! a]"

definition larger_child :: "('e \<Rightarrow> 'e \<Rightarrow> int res) \<Rightarrow> 'e list \<Rightarrow> nat \<Rightarrow> nat \<Rightarrow> nat res" where
  "larger_child cmp mem child last1 =
     (if child + 1 < last1 then
        case cmp (mem ! child) (mem ! (child + 1)) of
          Inl ret \<Rightarrow> Inl ret
        | Inr order \<Rightarrow> Inr (if order < 0 then child + 1 else child)
      else Inr child)"

lemma larger_child_Inr: "larger_child cmp mem child last1 = Inr c \<Longrightarrow> child < last1 \<Longrightarrow> c \<in> {child, child + 1} \<and> c < last1"
  by (auto simp: larger_child_def split: if_splits sum.splits)

function heap_sift_down :: "('e \<Rightarrow> 'e \<Rightarrow> int res) \<Rightarrow> 'e list \<Rightarrow> nat \<Rightarrow> nat \<Rightarrow> STRG_RET \<times> 'e list" where
  "heap_sift_down cmp mem root last1 =
     (let child = 2 * root + 1
      in if child < last1 then
           case larger_child cmp mem child last1 of
             Inl ret \<Rightarrow> (ret, mem)
           | Inr child \<Rightarrow>
               (case cmp (mem ! root) (mem ! child) of
                  Inl ret \<Rightarrow> (ret, mem)
                | Inr order \<Rightarrow>
                    if order \<ge> 0 then (STRG_OK, mem) else heap_sift_down cmp (entry_swap root child mem) child last1)
         else (STRG_OK, mem))"
  by pat_completeness auto
termination by (relation "measure (\<lambda>(_, _, root, last1). last1 - root)") (auto dest!: larger_child_Inr)

declare heap_sift_down.simps [simp del]

primrec heap_build :: "('e \<Rightarrow> 'e \<Rightarrow> int res) \<Rightarrow> 'e list \<Rightarrow> nat \<Rightarrow> nat \<Rightarrow> STRG_RET \<times> 'e list" where
  "heap_build cmp mem n 0 = (STRG_OK, mem)"
| "heap_build cmp mem n (Suc i) =
     (case heap_sift_down cmp mem i n of
        (ret, mem) \<Rightarrow> if ret \<noteq> STRG_OK then (ret, mem) else heap_build cmp mem n i)"

primrec heap_extract :: "('e \<Rightarrow> 'e \<Rightarrow> int res) \<Rightarrow> 'e list \<Rightarrow> nat \<Rightarrow> STRG_RET \<times> 'e list" where
  "heap_extract cmp mem 0 = (STRG_OK, mem)"
| "heap_extract cmp mem (Suc e) =
     (case heap_sift_down cmp (entry_swap 0 (Suc e) mem) 0 (Suc e) of
        (ret, mem) \<Rightarrow> if ret \<noteq> STRG_OK then (ret, mem) else heap_extract cmp mem e)"

definition heap_sort :: "('e \<Rightarrow> 'e \<Rightarrow> int res) \<Rightarrow> 'e list \<Rightarrow> nat \<Rightarrow> STRG_RET \<times> 'e list" where
  "heap_sort cmp mem n =
     (if n < 2 then (STRG_OK, mem)
      else case heap_build cmp mem n (n div 2) of
        (ret, mem) \<Rightarrow> if ret \<noteq> STRG_OK then (ret, mem) else heap_extract cmp mem (n - 1))"

subsection \<open>Only a permutation, whatever the comparison does\<close>

definition permuted :: "nat \<Rightarrow> 'e list \<Rightarrow> 'e list \<Rightarrow> bool" where
  "permuted n mem mem' \<longleftrightarrow>
     length mem' = length mem \<and> mset (take n mem') = mset (take n mem) \<and> drop n mem' = drop n mem"

lemma permuted_refl [simp, intro]: "permuted n mem mem"
  by (simp add: permuted_def)

lemma permuted_trans [trans]: "permuted n a b \<Longrightarrow> permuted n b c \<Longrightarrow> permuted n a c"
  by (simp add: permuted_def)

lemma permuted_mono:
  assumes "permuted k mem mem'" and "k \<le> n"
  shows "permuted n mem mem'"
proof -
  have "take n xs = take k xs @ take (n - k) (drop k xs)" for xs :: "'a list"
    using assms(2) by (metis le_add_diff_inverse take_add)
  moreover have "drop n mem' = drop n mem"
  proof -
    have "drop k mem' = drop k mem" using assms(1) by (simp add: permuted_def)
    then have "drop (n - k) (drop k mem') = drop (n - k) (drop k mem)" by (simp only:)
    then show ?thesis using assms(2) by simp
  qed
  ultimately show ?thesis using assms(1) by (simp add: permuted_def)
qed

lemma permuted_swap:
  assumes "a < n" and "b < n" and "n \<le> length mem"
  shows "permuted n mem (entry_swap a b mem)"
proof -
  have "take n (entry_swap a b mem) = (take n mem)[a := take n mem ! b, b := take n mem ! a]"
    using assms by (simp add: entry_swap_def take_update_swap)
  then have "mset (take n (entry_swap a b mem)) = mset (take n mem)"
    using assms by (simp add: mset_swap del: nth_take)
  then show ?thesis using assms by (simp add: permuted_def entry_swap_def)
qed

lemma permuted_set: "permuted n mem mem' \<Longrightarrow> set (take n mem') = set (take n mem)"
  by (metis permuted_def set_mset_mset)

lemma permuted_beyond:
  assumes "permuted n mem mem'" and "n \<le> j" and "j < length mem"
  shows "mem' ! j = mem ! j"
proof -
  have "drop n mem' ! (j - n) = drop n mem ! (j - n)" "length mem' = length mem" using assms(1) by (simp_all add: permuted_def)
  then show ?thesis using assms(2,3) by simp
qed

lemma heap_sift_down_permutes:
  "n \<le> length mem \<Longrightarrow> permuted n mem (snd (heap_sift_down cmp mem root n))"
proof (induction cmp mem root n rule: heap_sift_down.induct)
  case (1 cmp mem root n)
  show ?case
  proof (cases "2 * root + 1 < n")
    case True
    show ?thesis
    proof (cases "larger_child cmp mem (2 * root + 1) n")
      case (Inr c)
      have c: "root < n" "c < n" using larger_child_Inr [OF Inr True] True by auto
      show ?thesis
      proof (cases "cmp (mem ! root) (mem ! c)")
        case o: (Inr order)
        note sw = permuted_swap [OF c "1.prems"]
        have "length (entry_swap root c mem) = length mem" by (simp add: entry_swap_def)
        then have "permuted n (entry_swap root c mem) (snd (heap_sift_down cmp (entry_swap root c mem) c n))" if "\<not> order \<ge> 0"
          using "1.IH" [OF refl True Inr o that] "1.prems" by simp
        then show ?thesis using True Inr o permuted_trans [OF sw]
          by (simp add: heap_sift_down.simps [of cmp mem root n])
      qed (use True Inr in \<open>simp add: heap_sift_down.simps [of cmp mem root n]\<close>)
    qed (use True in \<open>simp add: heap_sift_down.simps [of cmp mem root n]\<close>)
  qed (simp add: heap_sift_down.simps [of cmp mem root n])
qed

lemma permuted_length: "permuted n mem mem' \<Longrightarrow> length mem' = length mem"
  by (simp add: permuted_def)

lemma heap_build_permutes: "n \<le> length mem \<Longrightarrow> permuted n mem (snd (heap_build cmp mem n i))"
proof (induction i arbitrary: mem)
  case (Suc i)
  obtain ret mem1 where s: "heap_sift_down cmp mem i n = (ret, mem1)" by (meson surj_pair)
  have p: "permuted n mem mem1" using heap_sift_down_permutes [OF Suc.prems, of cmp i] s by simp
  then have "permuted n mem1 (snd (heap_build cmp mem1 n i))"
    using Suc.prems by (intro Suc.IH) (simp add: permuted_length)
  then show ?case using p permuted_trans by (auto simp: s)
qed simp

lemma heap_extract_permutes: "e < length mem \<Longrightarrow> permuted (Suc e) mem (snd (heap_extract cmp mem e))"
proof (induction e arbitrary: mem)
  case (Suc e)
  obtain ret mem1 where s: "heap_sift_down cmp (entry_swap 0 (Suc e) mem) 0 (Suc e) = (ret, mem1)" by (meson surj_pair)
  have sw: "permuted (Suc (Suc e)) mem (entry_swap 0 (Suc e) mem)"
    using Suc.prems by (intro permuted_swap) simp_all
  have p1: "permuted (Suc e) (entry_swap 0 (Suc e) mem) mem1"
    using heap_sift_down_permutes [of "Suc e" "entry_swap 0 (Suc e) mem" cmp 0] Suc.prems s by (simp add: entry_swap_def)
  have p: "permuted (Suc (Suc e)) mem mem1" by (rule permuted_trans [OF sw permuted_mono [OF p1]]) simp
  then have e: "permuted (Suc e) mem1 (snd (heap_extract cmp mem1 e))"
    using Suc.prems by (intro Suc.IH) (simp add: permuted_length)
  have "permuted (Suc (Suc e)) mem (snd (heap_extract cmp mem1 e))" by (rule permuted_trans [OF p permuted_mono [OF e]]) simp
  then show ?case using p by (simp add: s)
qed simp

lemma heap_sort_permutes:
  assumes "n \<le> length mem"
  shows "permuted n mem (snd (heap_sort cmp mem n))"
proof (cases "n < 2")
  case False
  obtain ret mem1 where b: "heap_build cmp mem n (n div 2) = (ret, mem1)" by (meson surj_pair)
  have p: "permuted n mem mem1" using heap_build_permutes [OF assms, of cmp "n div 2"] b by simp
  have "n - 1 < length mem1" using permuted_length [OF p] assms False by simp
  from heap_extract_permutes [OF this] have "permuted n mem1 (snd (heap_extract cmp mem1 (n - 1)))" using False by simp
  then show ?thesis using p permuted_trans False by (auto simp: heap_sort_def b)
qed (simp add: heap_sort_def)

text \<open>A sorted arrangement under an injective key is unique.\<close>

lemma sort_key_unique:
  assumes "inj_on f (set ys)" and "mset xs = mset ys" and "sorted (map f xs)"
  shows "xs = sort_key f ys"
proof -
  have m: "mset (map f xs) = mset (map f (sort_key f ys))" using assms(2) by (simp add: mset_map)
  have "map f xs = map f (sort_key f ys)"
    using properties_for_sort [OF m assms(3)] properties_for_sort [of "map f (sort_key f ys)" "map f (sort_key f ys)"] by simp
  moreover have "set xs = set ys" using assms(2) by (metis set_mset_mset)
  ultimately show ?thesis using assms(1) by (simp add: inj_on_map_eq_map)
qed

lemma filter_out_nth:
  assumes "distinct xs" and "r < length xs"
  shows "filter (\<lambda>x. x \<noteq> xs ! r) xs = take r xs @ drop (Suc r) xs"
  using assms
proof (induction xs arbitrary: r)
  case (Cons x xs)
  then show ?case by (cases r) (auto simp: filter_id_conv)
qed simp

subsection \<open>Heaps\<close>

text \<open>The contract between the sort and a comparison: on valid entries it succeeds and its sign is the
  order of the keys.\<close>

locale entry_order =
  fixes cmp :: "'e \<Rightarrow> 'e \<Rightarrow> int res"
    and key :: "'e \<Rightarrow> 'k::linorder"
    and valid :: "'e \<Rightarrow> bool"
  assumes cmp_key: "valid a \<Longrightarrow> valid b \<Longrightarrow>
      \<exists>order. cmp a b = Inr order \<and> (order < 0 \<longleftrightarrow> key a < key b) \<and> (order = 0 \<longleftrightarrow> key a = key b)"
begin

definition parent :: "nat \<Rightarrow> nat" where
  "parent j = (j - 1) div 2"

definition heap_above :: "nat \<Rightarrow> nat \<Rightarrow> 'e list \<Rightarrow> bool" where
  "heap_above lo n mem \<longleftrightarrow> (\<forall>j. 0 < j \<longrightarrow> j < n \<longrightarrow> lo \<le> parent j \<longrightarrow> key (mem ! j) \<le> key (mem ! parent j))"

text \<open>The same but for the children of \<open>root\<close>, which are bounded by the parent of \<open>root\<close> instead.\<close>

definition heap_but :: "nat \<Rightarrow> nat \<Rightarrow> nat \<Rightarrow> 'e list \<Rightarrow> bool" where
  "heap_but lo root n mem \<longleftrightarrow>
     (\<forall>j. 0 < j \<longrightarrow> j < n \<longrightarrow> lo \<le> parent j \<longrightarrow> parent j \<noteq> root \<longrightarrow> key (mem ! j) \<le> key (mem ! parent j)) \<and>
     (\<forall>j. 0 < j \<longrightarrow> j < n \<longrightarrow> parent j = root \<longrightarrow> 0 < root \<longrightarrow> lo \<le> parent root \<longrightarrow> key (mem ! j) \<le> key (mem ! parent root))"

lemma parent_child: "0 < j \<Longrightarrow> parent j = i \<longleftrightarrow> j = 2 * i + 1 \<or> j = 2 * i + 2"
  by (auto simp: parent_def)

lemma parent_less: "0 < j \<Longrightarrow> parent j < j"
  by (auto simp: parent_def)

lemma cmp_cases:
  assumes "valid a" and "valid b"
  obtains order where "cmp a b = Inr order" "order < 0 \<longleftrightarrow> key a < key b" "order \<ge> 0 \<longleftrightarrow> key b \<le> key a"
  using cmp_key [OF assms] by force

lemma larger_child_max:
  assumes v: "\<And>j. j < n \<Longrightarrow> valid (mem ! j)" and c: "child < n"
  shows "\<exists>c. larger_child cmp mem child n = Inr c \<and> c \<in> {child, child + 1} \<and> c < n \<and> key (mem ! child) \<le> key (mem ! c) \<and>
    (child + 1 < n \<longrightarrow> key (mem ! (child + 1)) \<le> key (mem ! c))"
proof (cases "child + 1 < n")
  case True
  obtain order where "cmp (mem ! child) (mem ! (child + 1)) = Inr order"
      "order < 0 \<longleftrightarrow> key (mem ! child) < key (mem ! (child + 1))" "order \<ge> 0 \<longleftrightarrow> key (mem ! (child + 1)) \<le> key (mem ! child)"
    by (rule cmp_cases [OF v [OF c] v [OF True]])
  then show ?thesis using True by (auto simp: larger_child_def)
qed (use c in \<open>simp add: larger_child_def\<close>)

lemma heap_but_swap:
  assumes h: "heap_but lo root n mem" and lo: "lo \<le> root" and c: "c \<in> {2 * root + 1, 2 * root + 2}" "c < n" and l: "n \<le> length mem"
    and mx: "\<And>j. 0 < j \<Longrightarrow> j < n \<Longrightarrow> parent j = root \<Longrightarrow> key (mem ! j) \<le> key (mem ! c)"
    and lt: "key (mem ! root) < key (mem ! c)"
  shows "heap_but lo c n (entry_swap root c mem)"
proof -
  let ?m = "entry_swap root c mem"
  have pc: "0 < c" "parent c = root" "root < c" using c(1) parent_child [of c root] by auto
  have rl: "root < length mem" "c < length mem" using pc c(2) l by simp_all
  have at: "?m ! j = (if j = c then mem ! root else if j = root then mem ! c else mem ! j)" for j
    using rl pc(3) by (simp add: entry_swap_def nth_list_update)
  have 1: "key (?m ! j) \<le> key (?m ! parent j)" if j: "0 < j" "j < n" "lo \<le> parent j" "parent j \<noteq> c" for j
  proof (cases "parent j = root")
    case True
    then show ?thesis using mx [OF j(1,2)] lt pc by (auto simp: at)
  next
    case False
    then have o: "key (mem ! j) \<le> key (mem ! parent j)" using h j by (simp add: heap_but_def)
    have jc: "j \<noteq> c" using False pc(2) by blast
    show ?thesis
    proof (cases "j = root")
      case True
      then have "key (mem ! c) \<le> key (mem ! parent root)" using h pc c(2) j(1,3) by (simp add: heap_but_def)
      then show ?thesis using True False j(4) pc(3) by (simp add: at)
    qed (use o jc False j(4) in \<open>simp add: at\<close>)
  qed
  have 2: "key (?m ! j) \<le> key (?m ! parent c)" if j: "0 < j" "j < n" "parent j = c" for j
  proof -
    have "parent j \<noteq> root" "lo \<le> parent j" using j(3) pc lo by simp_all
    then have "key (mem ! j) \<le> key (mem ! c)" using h j by (auto simp: heap_but_def)
    moreover have "j \<noteq> c" "j \<noteq> root" using parent_less [OF j(1)] j(3) pc(3) by auto
    ultimately show ?thesis using pc by (simp add: at)
  qed
  show ?thesis unfolding heap_but_def using 1 2 by blast
qed

lemma heap_sift_down_heap:
  assumes "n \<le> length mem" and "\<And>j. j < n \<Longrightarrow> valid (mem ! j)" and "heap_but lo root n mem" and "lo \<le> root"
  shows "\<exists>mem'. heap_sift_down cmp mem root n = (STRG_OK, mem') \<and> heap_above lo n mem'"
  using assms
proof (induction "n - root" arbitrary: mem root rule: less_induct)
  case less
  note valid = less.prems(2)
  have done_: "heap_above lo n mem" if "\<And>j. 0 < j \<Longrightarrow> j < n \<Longrightarrow> parent j = root \<Longrightarrow> key (mem ! j) \<le> key (mem ! root)"
    using less.prems(3) that unfolding heap_above_def heap_but_def by metis
  show ?case
  proof (cases "2 * root + 1 < n")
    case False
    then have "heap_above lo n mem" by (intro done_) (auto simp: parent_child)
    then show ?thesis using False by (simp add: heap_sift_down.simps [of cmp mem root n])
  next
    case True
    obtain c where c: "larger_child cmp mem (2 * root + 1) n = Inr c" "c \<in> {2 * root + 1, 2 * root + 2}" "c < n"
        "key (mem ! (2 * root + 1)) \<le> key (mem ! c)" "2 * root + 2 < n \<longrightarrow> key (mem ! (2 * root + 2)) \<le> key (mem ! c)"
      using larger_child_max [OF valid True] by auto
    have mx: "key (mem ! j) \<le> key (mem ! c)" if "0 < j" "j < n" "parent j = root" for j
      using parent_child [OF that(1), THEN iffD1, OF that(3)] that(2) c(4,5) by (elim disjE) simp_all
    have r: "root < n" using True by simp
    obtain order where o: "cmp (mem ! root) (mem ! c) = Inr order" "order < 0 \<longleftrightarrow> key (mem ! root) < key (mem ! c)"
        "order \<ge> 0 \<longleftrightarrow> key (mem ! c) \<le> key (mem ! root)"
      by (rule cmp_cases [OF valid [OF r] valid [OF c(3)]])
    show ?thesis
    proof (cases "order \<ge> 0")
      case True
      then have "key (mem ! c) \<le> key (mem ! root)" using o(3) by simp
      have "heap_above lo n mem" by (rule done_ [OF order_trans [OF mx \<open>key (mem ! c) \<le> key (mem ! root)\<close>]])
      then show ?thesis using True o(1) c(1) \<open>2 * root + 1 < n\<close> by (simp add: heap_sift_down.simps [of cmp mem root n])
    next
      case False
      have lt: "key (mem ! root) < key (mem ! c)" using False o(2) by simp
      note sw = heap_but_swap [OF less.prems(3,4) c(2,3) less.prems(1) mx lt]
      have "n - c < n - root" using c(2) r by auto
      moreover have "n \<le> length (entry_swap root c mem)" using less.prems(1) by (simp add: entry_swap_def)
      moreover have "valid (entry_swap root c mem ! j)" if "j < n" for j
        using valid [OF that] valid [OF r] valid [OF c(3)] that less.prems(1) r c(3) by (simp add: entry_swap_def nth_list_update)
      moreover have "lo \<le> c" using c(2) less.prems(4) by auto
      ultimately obtain mem' where "heap_sift_down cmp (entry_swap root c mem) c n = (STRG_OK, mem')" "heap_above lo n mem'"
        using less.hyps [of c "entry_swap root c mem"] sw by blast
      then show ?thesis using False o(1) c(1) \<open>2 * root + 1 < n\<close> by (simp add: heap_sift_down.simps [of cmp mem root n])
    qed
  qed
qed

subsection \<open>Sorting\<close>

lemma valid_permuted:
  assumes "permuted n mem mem'" and "n \<le> length mem" and "\<And>j. j < n \<Longrightarrow> valid (mem ! j)" and "j < n"
  shows "valid (mem' ! j)"
proof -
  have "mem' ! j \<in> set (take n mem')" using assms(2,4) permuted_length [OF assms(1)] by (auto simp: in_set_conv_nth)
  then obtain i where "i < n" "mem' ! j = mem ! i"
    unfolding permuted_set [OF assms(1)] by (auto simp: in_set_conv_nth)
  then show ?thesis using assms(3) by simp
qed

lemma heap_build_heap:
  assumes "n \<le> length mem" and "\<And>j. j < n \<Longrightarrow> valid (mem ! j)" and "heap_above i n mem"
  shows "\<exists>mem'. heap_build cmp mem n i = (STRG_OK, mem') \<and> heap_above 0 n mem'"
  using assms
proof (induction i arbitrary: mem)
  case (Suc i)
  have "heap_but i i n mem" unfolding heap_but_def
  proof (intro conjI allI impI)
    fix j assume "0 < j" "j < n" "i \<le> parent j" "parent j \<noteq> i"
    then show "key (mem ! j) \<le> key (mem ! parent j)" using Suc.prems(3) by (simp add: heap_above_def)
  next
    fix j assume "0 < i" "i \<le> parent i"
    then show "key (mem ! j) \<le> key (mem ! parent i)" using parent_less [of i] by simp
  qed
  from heap_sift_down_heap [OF Suc.prems(1,2) this order_refl] obtain mem1
    where s: "heap_sift_down cmp mem i n = (STRG_OK, mem1)" "heap_above i n mem1" by blast
  have p: "permuted n mem mem1" using heap_sift_down_permutes [OF Suc.prems(1), of cmp i] s by simp
  have l: "n \<le> length mem1" using Suc.prems(1) permuted_length [OF p] by simp
  from Suc.IH [OF l valid_permuted [OF p Suc.prems(1,2)] s(2)] show ?case by (simp add: s)
qed simp

lemma heap_root_max: "heap_above 0 n mem \<Longrightarrow> j < n \<Longrightarrow> key (mem ! j) \<le> key (mem ! 0)"
proof (induction j rule: less_induct)
  case (less j)
  show ?case
  proof (cases "j = 0")
    case False
    then have "key (mem ! j) \<le> key (mem ! parent j)" "parent j < j"
      using less.prems parent_less [of j] by (simp_all add: heap_above_def)
    then show ?thesis using less.IH [of "parent j"] less.prems by simp
  qed simp
qed

text \<open>The entries from \<open>e + 1\<close> on are in their final places.\<close>

definition tail_sorted :: "nat \<Rightarrow> nat \<Rightarrow> 'e list \<Rightarrow> bool" where
  "tail_sorted e n mem \<longleftrightarrow> (\<forall>i j. i < j \<longrightarrow> e < j \<longrightarrow> j < n \<longrightarrow> key (mem ! i) \<le> key (mem ! j))"

lemma heap_extract_sorted:
  assumes "e < n" and "n \<le> length mem" and "\<And>j. j < n \<Longrightarrow> valid (mem ! j)" and "heap_above 0 (Suc e) mem" and "tail_sorted e n mem"
  shows "\<exists>mem'. heap_extract cmp mem e = (STRG_OK, mem') \<and> tail_sorted 0 n mem'"
  using assms
proof (induction e arbitrary: mem)
  case (Suc e)
  let ?m = "entry_swap 0 (Suc e) mem"
  have at: "?m ! j = (if j = Suc e then mem ! 0 else if j = 0 then mem ! Suc e else mem ! j)" for j
  proof -
    have "Suc e < length mem" using Suc.prems(1,2) by simp
    then have "0 < length mem" "Suc e < length mem" by linarith+
    then show ?thesis by (simp add: entry_swap_def nth_list_update)
  qed
  have lm: "n \<le> length ?m" using Suc.prems(2) by (simp add: entry_swap_def)
  have vm: "valid (?m ! j)" if "j < n" for j using Suc.prems(1,3) that by (simp add: at)
  have "heap_but 0 0 (Suc e) ?m" unfolding heap_but_def
  proof (intro conjI allI impI)
    fix j assume j: "0 < j" "j < Suc e" "parent j \<noteq> 0"
    then have "key (mem ! j) \<le> key (mem ! parent j)" using Suc.prems(4) by (simp add: heap_above_def)
    then show "key (?m ! j) \<le> key (?m ! parent j)" using j parent_less [OF j(1)] by (simp add: at)
  qed simp
  moreover have "Suc e \<le> length ?m" "\<And>j. j < Suc e \<Longrightarrow> valid (?m ! j)" using lm vm Suc.prems(1) by simp_all
  ultimately obtain mem1 where s: "heap_sift_down cmp ?m 0 (Suc e) = (STRG_OK, mem1)" "heap_above 0 (Suc e) mem1"
    using heap_sift_down_heap [of "Suc e" ?m 0 0] by blast
  have p: "permuted (Suc e) ?m mem1"
    using heap_sift_down_permutes [of "Suc e" ?m cmp 0] s lm Suc.prems(1) by simp
  have pn: "permuted n ?m mem1" by (rule permuted_mono [OF p]) (use Suc.prems(1) in simp)
  have l1: "n \<le> length mem1" using lm permuted_length [OF p] by simp
  have mx: "key (mem ! i) \<le> key (mem ! 0)" if "i \<le> Suc e" for i using heap_root_max [OF Suc.prems(4)] that by simp
  have beyond: "mem1 ! j = ?m ! j" if "Suc e \<le> j" "j < n" for j using permuted_beyond [OF p that(1)] that(2) lm by simp
  have below: "\<exists>k \<le> Suc e. mem1 ! i = mem ! k" if "i \<le> e" for i
  proof -
    have "mem1 ! i \<in> set (take (Suc e) mem1)" using nth_mem [of i "take (Suc e) mem1"] that l1 Suc.prems(1) by simp
    then obtain k where "k < Suc e" "mem1 ! i = ?m ! k" unfolding permuted_set [OF p] by (auto simp: in_set_conv_nth)
    then have "mem1 ! i = mem ! k \<or> mem1 ! i = mem ! Suc e" by (simp add: at)
    then show ?thesis using \<open>k < Suc e\<close> by (metis less_imp_le order_refl)
  qed
  have "tail_sorted e n mem1" unfolding tail_sorted_def
  proof (intro allI impI)
    fix i j assume ij: "i < j" "e < j" "j < n"
    show "key (mem1 ! i) \<le> key (mem1 ! j)"
    proof (cases "i \<le> e")
      case True
      then obtain k where k: "k \<le> Suc e" "mem1 ! i = mem ! k" using below by blast
      have "key (mem ! k) \<le> key (?m ! j)"
        using mx [OF k(1)] Suc.prems(5) k(1) ij by (cases "j = Suc e") (auto simp: at tail_sorted_def)
      then show ?thesis using k beyond ij by simp
    next
      case False
      then have "key (?m ! i) \<le> key (?m ! j)" using Suc.prems(5) ij by (auto simp: at tail_sorted_def)
      then show ?thesis using False beyond ij by simp
    qed
  qed
  from Suc.IH [OF _ l1 valid_permuted [OF pn lm vm] s(2) this] show ?case using Suc.prems(1) by (simp add: s)
qed simp

theorem heap_sort_sorts:
  assumes n: "n \<le> length mem" and v: "\<And>x. x \<in> set (take n mem) \<Longrightarrow> valid x"
  shows "\<exists>mem'. heap_sort cmp mem n = (STRG_OK, mem') \<and> sorted (map key (take n mem')) \<and> permuted n mem mem'"
proof -
  have v': "valid (mem ! j)" if "j < n" for j using v [OF nth_mem [of j "take n mem"]] that n by simp
  have tail: "sorted (map key (take n mem'))" if "tail_sorted 0 n mem'" "length mem' = length mem" for mem'
    using that n by (auto simp: sorted_wrt_iff_nth_less tail_sorted_def)
  show ?thesis
  proof (cases "n < 2")
    case True
    then have "tail_sorted 0 n mem" by (auto simp: tail_sorted_def)
    then show ?thesis using True tail by (simp add: heap_sort_def)
  next
    case False
    have "heap_above (n div 2) n mem" unfolding heap_above_def by (auto simp: parent_def)
    from heap_build_heap [OF n v' this] obtain mem1 where b: "heap_build cmp mem n (n div 2) = (STRG_OK, mem1)" "heap_above 0 n mem1" by blast
    have p: "permuted n mem mem1" using heap_build_permutes [OF n, of cmp "n div 2"] b by simp
    have l1: "n \<le> length mem1" using n permuted_length [OF p] by simp
    have "tail_sorted (n - 1) n mem1" unfolding tail_sorted_def by (intro allI impI) linarith
    with heap_extract_sorted [OF _ l1 valid_permuted [OF p n v'], of "n - 1"] b(2) False
    obtain mem2 where e: "heap_extract cmp mem1 (n - 1) = (STRG_OK, mem2)" "tail_sorted 0 n mem2" by auto
    have run: "heap_sort cmp mem n = (STRG_OK, mem2)" using False b e by (simp add: heap_sort_def)
    have "permuted n mem mem2" using heap_sort_permutes [OF n, of cmp] run by simp
    then show ?thesis using run tail [OF e(2)] permuted_length by blast
  qed
qed

end

end
