(* ===== verification/Sorted_Array.thy ===== *)
theory Sorted_Array
  imports Heap_Sort Hash_Messages
begin

text \<open>
  The alphabetical index of the contacts: \<^verbatim>\<open>source/app/src/sorted_array.c\<close>, an array of
  eight-byte keys and hash slots kept sorted by binary search and \<^verbatim>\<open>memmove\<close>, and rebuilt
  by a heapsort after a restart.

  The hash table the struct points to is an argument, since the rest of the program changes it;
  the storage pointer is the device of \<open>'c pers\<close>.  A status with an out parameter is a sum:
  \<open>Inl\<close> a status other than \<^verbatim>\<open>STRG_OK\<close>, \<open>Inr\<close> what was written.
\<close>

subsection \<open>Comparing byte strings\<close>

definition remove_case :: "byte \<Rightarrow> int" where
  "remove_case c = (if 65 \<le> c \<and> c \<le> 90 then uint c + (97 - 65) else uint c)"

primrec bytes_cmp_loop :: "byte list \<Rightarrow> byte list \<Rightarrow> bool \<Rightarrow> nat list \<Rightarrow> int option" where
  "bytes_cmp_loop a b ignore_case [] = None"
| "bytes_cmp_loop a b ignore_case (i # is) =
     (let ca = (if ignore_case then remove_case (a ! i) else uint (a ! i));
          cb = (if ignore_case then remove_case (b ! i) else uint (b ! i))
      in if ca \<noteq> cb then Some (ca - cb) else bytes_cmp_loop a b ignore_case is)"

definition bytes_cmp :: "byte list \<Rightarrow> nat \<Rightarrow> byte list \<Rightarrow> nat \<Rightarrow> bool \<Rightarrow> int" where
  "bytes_cmp a la b lb ignore_case =
     (let n = (if la < lb then la else lb)
      in case bytes_cmp_loop a b ignore_case [0..<n] of Some order \<Rightarrow> order | None \<Rightarrow> int la - int lb)"

text \<open>The library routine: of its result only the sign is used.\<close>

definition memcmp :: "byte list \<Rightarrow> byte list \<Rightarrow> nat \<Rightarrow> int" where
  "memcmp a b n = (case bytes_cmp_loop a b False [0..<n] of Some order \<Rightarrow> order | None \<Rightarrow> 0)"

subsection \<open>Keys and probes\<close>

definition KEY_LEN :: nat where "KEY_LEN = 8"

definition SORTED_ARRAY_ENTRIES :: nat where "SORTED_ARRAY_ENTRIES = HASH_TABLE_ENTRIES"

record SortedArrayProbe =
  sp_key :: "byte list"
  sp_name :: "byte list"
  sp_name_len :: nat
  sp_phone :: "byte list"
  sp_phone_len :: nat
  sp_name_only :: bool

record SortedArrayEntry =
  se_key :: "byte list"
  se_hash_slot :: nat

record SortedArray =
  sa_occupancy :: nat
  sa_mem :: "SortedArrayEntry list"

definition sorted_array_make_key :: "byte list \<Rightarrow> nat \<Rightarrow> byte list" where
  "sorted_array_make_key name name_len =
     (let n = (if name_len < KEY_LEN then name_len else KEY_LEN)
      in map (\<lambda>i. if i < n then word_of_int (remove_case (name ! i)) else 0) [0..<KEY_LEN])"

definition probe_from_contact :: "Contact \<Rightarrow> SortedArrayProbe" where
  "probe_from_contact c =
     \<lparr>sp_key = sorted_array_make_key (c_name c) (c_name_len c), sp_name = c_name c, sp_name_len = c_name_len c,
      sp_phone = c_phone c, sp_phone_len = c_phone_len c, sp_name_only = False\<rparr>"

definition probe_from_string :: "byte list \<Rightarrow> nat \<Rightarrow> SortedArrayProbe" where
  "probe_from_string s len =
     \<lparr>sp_key = sorted_array_make_key s len, sp_name = s, sp_name_len = len, sp_phone = [], sp_phone_len = 0,
      sp_name_only = True\<rparr>"

subsection \<open>Comparing with an entry\<close>

definition tiebreak_fn ::
    "'c Storage \<Rightarrow> 'c pers \<Rightarrow> HashEntry list \<Rightarrow> SortedArrayProbe \<Rightarrow> SortedArrayEntry \<Rightarrow> int res" where
  "tiebreak_fn S p ht sp entry =
     (case read_contact S p (he_sector (ht ! se_hash_slot entry)) of
        Inl ret \<Rightarrow> Inl ret
      | Inr contact \<Rightarrow>
          if c_name_len contact > MAX_NAME_LEN \<or> c_phone_len contact > MAX_PHONE_LEN then Inl STRG_CORRUPT
          else let order = bytes_cmp (sp_name sp) (sp_name_len sp) (c_name contact) (c_name_len contact) True
          in if order \<noteq> 0 then Inr order
          else if sp_name_only sp then Inr order
          else let order = bytes_cmp (sp_name sp) (sp_name_len sp) (c_name contact) (c_name_len contact) False
          in if order \<noteq> 0 then Inr order
          else Inr (bytes_cmp (sp_phone sp) (sp_phone_len sp) (c_phone contact) (c_phone_len contact) False))"

definition sa_cmp ::
    "'c Storage \<Rightarrow> 'c pers \<Rightarrow> HashEntry list \<Rightarrow> SortedArrayProbe \<Rightarrow> SortedArrayEntry \<Rightarrow> int res" where
  "sa_cmp S p ht sp entry =
     (let cmp_val = memcmp (sp_key sp) (se_key entry) KEY_LEN
      in if cmp_val = 0 then tiebreak_fn S p ht sp entry else Inr cmp_val)"

definition entry_cmp ::
    "'c Storage \<Rightarrow> 'c pers \<Rightarrow> HashEntry list \<Rightarrow> SortedArrayEntry \<Rightarrow> SortedArrayEntry \<Rightarrow> int res" where
  "entry_cmp S p ht a b =
     (let cmp_val = memcmp (se_key a) (se_key b) KEY_LEN
      in if cmp_val \<noteq> 0 then Inr cmp_val
         else case read_contact S p (he_sector (ht ! se_hash_slot a)) of
           Inl ret \<Rightarrow> Inl ret
         | Inr contact \<Rightarrow>
             if c_name_len contact > MAX_NAME_LEN \<or> c_phone_len contact > MAX_PHONE_LEN then Inl STRG_CORRUPT
             else tiebreak_fn S p ht (probe_from_contact contact) b)"

subsection \<open>Searching\<close>

text \<open>The loop; all indices stay below the 16-bit occupancy.\<close>

function lower_bound_loop :: "(SortedArrayEntry \<Rightarrow> int res) \<Rightarrow> SortedArrayEntry list \<Rightarrow> nat \<Rightarrow> nat \<Rightarrow> bool \<Rightarrow> (nat \<times> bool) res" where
  "lower_bound_loop order_of mem lo hi match =
     (if lo < hi then
        let mid = lo + (hi - lo) div 2
        in case order_of (mem ! mid) of
             Inl ret \<Rightarrow> Inl ret
           | Inr order \<Rightarrow>
               if order > 0 then lower_bound_loop order_of mem (mid + 1) hi match
               else lower_bound_loop order_of mem lo mid (order = 0)
      else Inr (lo, match))"
  by pat_completeness auto
termination by (relation "measure (\<lambda>(_, _, lo, hi, _). hi - lo)") auto

declare lower_bound_loop.simps [simp del]

definition binary_search_lower_bound ::
    "'c Storage \<Rightarrow> 'c pers \<Rightarrow> HashEntry list \<Rightarrow> SortedArray \<Rightarrow> SortedArrayProbe \<Rightarrow> (nat \<times> bool) res" where
  "binary_search_lower_bound S p ht sa sp =
     lower_bound_loop (sa_cmp S p ht sp) (sa_mem sa) 0 (sa_occupancy sa) False"

definition sorted_array_seek :: "'c Storage \<Rightarrow> 'c pers \<Rightarrow> HashEntry list \<Rightarrow> SortedArray \<Rightarrow> byte list \<Rightarrow> nat res" where
  "sorted_array_seek S p ht sa prefix =
     (let prefix_len = length prefix
      in if prefix_len > MAX_NAME_LEN then Inl (bool_strg False)
         else map_sum id fst (binary_search_lower_bound S p ht sa (probe_from_string prefix prefix_len)))"

definition sorted_array_find ::
    "'c Storage \<Rightarrow> 'c pers \<Rightarrow> HashEntry list \<Rightarrow> SortedArray \<Rightarrow> Contact \<Rightarrow> (nat \<times> bool) res" where
  "sorted_array_find S p ht sa c = binary_search_lower_bound S p ht sa (probe_from_contact c)"

subsection \<open>Updating\<close>

definition sorted_array_insert ::
    "'c Storage \<Rightarrow> 'c pers \<Rightarrow> HashEntry list \<Rightarrow> SortedArray \<Rightarrow> Contact \<Rightarrow> nat \<Rightarrow> STRG_RET \<times> SortedArray" where
  "sorted_array_insert S p ht sa contact contact_index =
     (if sa_occupancy sa \<ge> HASH_TABLE_ENTRIES then (STRG_FULL, sa)
      else case sorted_array_find S p ht sa contact of
        Inl ret \<Rightarrow> (ret, sa)
      | Inr (rank, match_found) \<Rightarrow>
          if match_found then (bool_strg False, sa)
          else let mem = memmove (rank + 1) rank (sa_occupancy sa - rank) (sa_mem sa);
                   mem = mem[rank := \<lparr>se_key = sorted_array_make_key (c_name contact) (c_name_len contact),
                                      se_hash_slot = contact_index\<rparr>]
               in (bool_strg True, sa\<lparr>sa_mem := mem, sa_occupancy := sa_occupancy sa + 1\<rparr>))"

definition sorted_array_remove ::
    "'c Storage \<Rightarrow> 'c pers \<Rightarrow> HashEntry list \<Rightarrow> SortedArray \<Rightarrow> Contact \<Rightarrow> STRG_RET \<times> SortedArray" where
  "sorted_array_remove S p ht sa contact =
     (if sa_occupancy sa = 0 then (STRG_FULL, sa)
      else case sorted_array_find S p ht sa contact of
        Inl ret \<Rightarrow> (ret, sa)
      | Inr (rank, match_found) \<Rightarrow>
          if \<not> match_found then (bool_strg False, sa)
          else (bool_strg True,
            sa\<lparr>sa_mem := memmove rank (rank + 1) (sa_occupancy sa - rank - 1) (sa_mem sa), sa_occupancy := sa_occupancy sa - 1\<rparr>))"

text \<open>\<open>None\<close>: the function returned false.\<close>

definition sorted_array_get_range :: "SortedArray \<Rightarrow> nat \<Rightarrow> nat \<Rightarrow> SortedArrayEntry list option" where
  "sorted_array_get_range sa start n =
     (if start \<ge> sa_occupancy sa then None
      else let n = (if n > sa_occupancy sa - start then sa_occupancy sa - start else n)
           in Some (slice start n (sa_mem sa)))"

subsection \<open>Rebuilding\<close>

definition sorted_array_append :: "SortedArray \<Rightarrow> SortedArrayEntry \<Rightarrow> bool \<times> SortedArray" where
  "sorted_array_append sa e =
     (if sa_occupancy sa \<ge> HASH_TABLE_ENTRIES then (False, sa)
      else (True, sa\<lparr>sa_mem := (sa_mem sa)[sa_occupancy sa := e], sa_occupancy := sa_occupancy sa + 1\<rparr>))"

definition sorted_array_sort :: "'c Storage \<Rightarrow> 'c pers \<Rightarrow> HashEntry list \<Rightarrow> SortedArray \<Rightarrow> STRG_RET \<times> SortedArray" where
  "sorted_array_sort S p ht sa =
     (case heap_sort (entry_cmp S p ht) (sa_mem sa) (sa_occupancy sa) of (ret, mem) \<Rightarrow> (ret, sa\<lparr>sa_mem := mem\<rparr>))"

definition sorted_array_init :: "SortedArrayEntry list \<Rightarrow> SortedArray" where
  "sorted_array_init sa_memory = \<lparr>sa_occupancy = 0, sa_mem = sa_memory\<rparr>"

primrec sorted_array_fill ::
    "'c Storage \<Rightarrow> 'c pers \<Rightarrow> HashEntry list \<Rightarrow> nat list \<Rightarrow> SortedArray \<Rightarrow> STRG_RET \<times> SortedArray" where
  "sorted_array_fill S p ht [] sa = (STRG_OK, sa)"
| "sorted_array_fill S p ht (slot # slots) sa =
     (if he_state (ht ! slot) \<noteq> ENTRY_OCCUPIED then sorted_array_fill S p ht slots sa
      else case read_contact S p (he_sector (ht ! slot)) of
        Inl ret \<Rightarrow> (ret, sa)
      | Inr contact \<Rightarrow>
          (case sorted_array_append sa \<lparr>se_key = sorted_array_make_key (c_name contact) (c_name_len contact),
                                        se_hash_slot = slot\<rparr> of
             (False, sa) \<Rightarrow> (STRG_FULL, sa)
           | (True, sa) \<Rightarrow> sorted_array_fill S p ht slots sa))"

definition sorted_array_build ::
    "'c Storage \<Rightarrow> 'c pers \<Rightarrow> HashEntry list \<Rightarrow> SortedArrayEntry list \<Rightarrow> STRG_RET \<times> SortedArray" where
  "sorted_array_build S p ht sa_memory =
     (case sorted_array_fill S p ht [0..<HASH_TABLE_SIZE] (sorted_array_init sa_memory) of
        (ret, sa) \<Rightarrow> if ret \<noteq> STRG_OK then (ret, sa) else sorted_array_sort S p ht sa)"

end
