(* ===== verification/Name_Order.thy ===== *)
theory Name_Order
  imports Sorted_Array
begin

text \<open>
  What the alphabetical index stands for: the occupied slots of the table in the order of
  \<open>contact_key\<close>, which is the folded name, then the name, then the phone number.  Searching,
  inserting, removing and rebuilding are the operations of a sorted list under that key.
\<close>

subsection \<open>The comparisons are lexicographic\<close>

definition fold_case :: "bool \<Rightarrow> byte \<Rightarrow> int" where
  "fold_case ignore_case c = (if ignore_case then remove_case c else uint c)"

lemma bytes_cmp_loop_Suc: "bytes_cmp_loop (x # a) (y # b) ic (map Suc is) = bytes_cmp_loop a b ic is"
  by (induction "is") (simp_all add: Let_def)

lemma bytes_cmp_rec:
  "bytes_cmp (x # a) (Suc la) (y # b) (Suc lb) ic =
     (if fold_case ic x \<noteq> fold_case ic y then fold_case ic x - fold_case ic y else bytes_cmp a la b lb ic)"
proof -
  have u: "[0..<Suc n] = 0 # map Suc [0..<n]" for n by (simp add: map_Suc_upt upt_conv_Cons)
  have n: "(if Suc la < Suc lb then Suc la else Suc lb) = Suc (if la < lb then la else lb)" by simp
  show ?thesis unfolding bytes_cmp_def Let_def n u
    by (simp add: bytes_cmp_loop_Suc fold_case_def split: option.split)
qed

lemma bytes_cmp_order:
  assumes "la \<le> length a" and "lb \<le> length b"
  shows "(bytes_cmp a la b lb ic < 0 \<longleftrightarrow> map (fold_case ic) (take la a) < map (fold_case ic) (take lb b)) \<and>
    (bytes_cmp a la b lb ic = 0 \<longleftrightarrow> map (fold_case ic) (take la a) = map (fold_case ic) (take lb b))"
  using assms
proof (induction a arbitrary: la b lb)
  case Nil
  then show ?case by (cases lb; cases b) (auto simp: bytes_cmp_def)
next
  case (Cons x a)
  show ?case
  proof (cases "la = 0 \<or> lb = 0")
    case True
    then show ?thesis using Cons.prems by (cases lb; cases b; cases "la = 0") (auto simp: bytes_cmp_def)
  next
    case False
    then obtain la' lb' y b' where eq: "la = Suc la'" "lb = Suc lb'" "b = y # b'"
      using Cons.prems(2) by (metis length_0_conv le_zero_eq neq_Nil_conv not0_implies_Suc)
    show ?thesis using Cons.IH [of la' lb' b'] Cons.prems unfolding eq by (simp add: bytes_cmp_rec)
  qed
qed

lemma memcmp_bytes: "memcmp a b n = bytes_cmp a n b n False"
  by (simp add: memcmp_def bytes_cmp_def split: option.split)

lemma memcmp_order:
  assumes "length a = n" and "length b = n"
  shows "memcmp a b n < 0 \<longleftrightarrow> map uint a < map uint b" "memcmp a b n = 0 \<longleftrightarrow> a = b"
proof -
  have f: "fold_case False = uint" by (rule ext) (simp add: fold_case_def)
  have i: "map uint a = map uint b \<longleftrightarrow> a = b" by (auto intro!: map_injective injI)
  show "memcmp a b n < 0 \<longleftrightarrow> map uint a < map uint b" "memcmp a b n = 0 \<longleftrightarrow> a = b"
    using bytes_cmp_order [of n a n b False] assms i by (simp_all add: memcmp_bytes f)
qed

subsection \<open>The key of a contact\<close>

type_synonym order_key = "int list \<times> int list \<times> int list \<times> int list"

definition probe_key :: "SortedArrayProbe \<Rightarrow> order_key" where
  "probe_key sp =
     (map uint (sp_key sp), map remove_case (take (sp_name_len sp) (sp_name sp)),
      map uint (take (sp_name_len sp) (sp_name sp)), map uint (take (sp_phone_len sp) (sp_phone sp)))"

definition contact_key :: "Contact \<Rightarrow> order_key" where
  "contact_key c = probe_key (probe_from_contact c)"

definition listable :: "Contact \<Rightarrow> bool" where
  "listable c \<longleftrightarrow> contact_wf c \<and> c_name_len c \<le> MAX_NAME_LEN \<and> c_phone_len c \<le> MAX_PHONE_LEN"

definition entry_contact :: "(nat \<Rightarrow> Contact option) \<Rightarrow> HashEntry list \<Rightarrow> SortedArrayEntry \<Rightarrow> Contact" where
  "entry_contact cs ht e = the (cs (he_sector (ht ! se_hash_slot e)))"

definition entry_key :: "(nat \<Rightarrow> Contact option) \<Rightarrow> HashEntry list \<Rightarrow> SortedArrayEntry \<Rightarrow> order_key" where
  "entry_key cs ht e = contact_key (entry_contact cs ht e)"

definition entry_valid :: "(nat \<Rightarrow> Contact option) \<Rightarrow> HashEntry list \<Rightarrow> SortedArrayEntry \<Rightarrow> bool" where
  "entry_valid cs ht e \<longleftrightarrow>
     he_sector (ht ! se_hash_slot e) < HASH_TABLE_ENTRIES \<and> cs (he_sector (ht ! se_hash_slot e)) \<noteq> None \<and>
     listable (entry_contact cs ht e) \<and>
     se_key e = sorted_array_make_key (c_name (entry_contact cs ht e)) (c_name_len (entry_contact cs ht e))"

lemma length_make_key [simp]: "length (sorted_array_make_key name n) = KEY_LEN"
  by (simp add: sorted_array_make_key_def)

lemma listable_lengths:
  assumes "listable c"
  shows "c_name_len c \<le> length (c_name c)" "c_phone_len c \<le> length (c_phone c)"
  using assms by (simp_all add: listable_def contact_wf_def layout)

lemma reads_entry:
  assumes "reads_as S p cs" and "entry_valid cs ht e"
  shows "read_contact S p (he_sector (ht ! se_hash_slot e)) = Inr (entry_contact cs ht e)"
  using assms by (auto simp: reads_as_def entry_valid_def entry_contact_def)

lemma entry_key_fst: "entry_valid cs ht e \<Longrightarrow> fst (entry_key cs ht e) = map uint (se_key e)"
  by (simp add: entry_valid_def entry_key_def contact_key_def probe_key_def probe_from_contact_def)

definition probe_valid :: "SortedArrayProbe \<Rightarrow> bool" where
  "probe_valid sp \<longleftrightarrow> length (sp_key sp) = KEY_LEN \<and> sp_name_len sp \<le> length (sp_name sp) \<and> sp_phone_len sp \<le> length (sp_phone sp)"

text \<open>A probe for a prefix is compared by the folded name only.\<close>

definition name_part :: "order_key \<Rightarrow> int list \<times> int list" where
  "name_part k = (fst k, fst (snd k))"

definition order_sign :: "int \<Rightarrow> 'k::linorder \<Rightarrow> 'k \<Rightarrow> bool" where
  "order_sign order a b \<longleftrightarrow> (order < 0 \<longleftrightarrow> a < b) \<and> (order = 0 \<longleftrightarrow> a = b)"

lemma order_sign_pos: "order_sign order a b \<Longrightarrow> order > 0 \<longleftrightarrow> b < a"
  unfolding order_sign_def by (metis linorder_less_linear not_less_iff_gr_or_eq)

lemma fold_case_simps: "fold_case True = remove_case" "fold_case False = uint"
  by (simp_all add: fold_case_def fun_eq_iff)

lemma tiebreak_order:
  assumes r: "reads_as S p cs" and e: "entry_valid cs ht e" and v: "probe_valid sp" and k: "sp_key sp = se_key e"
  shows "\<exists>order. tiebreak_fn S p ht sp e = Inr order \<and>
    (if sp_name_only sp then order_sign order (name_part (probe_key sp)) (name_part (entry_key cs ht e))
     else order_sign order (probe_key sp) (entry_key cs ht e))"
proof -
  let ?c = "entry_contact cs ht e"
  have l: "listable ?c" using e by (simp add: entry_valid_def)
  note b = listable_lengths [OF l]
  have g: "\<not> (c_name_len ?c > MAX_NAME_LEN \<or> c_phone_len ?c > MAX_PHONE_LEN)" using l by (simp add: listable_def)
  have pv: "sp_name_len sp \<le> length (sp_name sp)" "sp_phone_len sp \<le> length (sp_phone sp)" using v by (simp_all add: probe_valid_def)
  note folded = bytes_cmp_order [OF pv(1) b(1), of True, unfolded fold_case_simps]
  note plain = bytes_cmp_order [OF pv(1) b(1), of False, unfolded fold_case_simps]
  note ph = bytes_cmp_order [OF pv(2) b(2), of False, unfolded fold_case_simps]
  have fst_eq: "fst (entry_key cs ht e) = fst (probe_key sp)" using entry_key_fst [OF e] k by (simp add: probe_key_def)
  have ek: "entry_key cs ht e =
      (fst (probe_key sp), map remove_case (take (c_name_len ?c) (c_name ?c)), map uint (take (c_name_len ?c) (c_name ?c)),
       map uint (take (c_phone_len ?c) (c_phone ?c)))"
    using fst_eq by (simp add: entry_key_def contact_key_def probe_key_def probe_from_contact_def)
  show ?thesis
    unfolding tiebreak_fn_def reads_entry [OF r e] sum.case if_not_P [OF g] Let_def ek
    using folded plain ph by (auto simp: order_sign_def name_part_def probe_key_def)
qed

lemma sa_cmp_order:
  assumes r: "reads_as S p cs" and e: "entry_valid cs ht e" and v: "probe_valid sp"
  shows "\<exists>order. sa_cmp S p ht sp e = Inr order \<and>
    (if sp_name_only sp then order_sign order (name_part (probe_key sp)) (name_part (entry_key cs ht e))
     else order_sign order (probe_key sp) (entry_key cs ht e))"
proof (cases "sp_key sp = se_key e")
  case True
  then show ?thesis using tiebreak_order [OF r e v True] v by (simp add: sa_cmp_def memcmp_order probe_valid_def)
next
  case False
  have len: "length (sp_key sp) = KEY_LEN" "length (se_key e) = KEY_LEN" using v e by (simp_all add: probe_valid_def entry_valid_def)
  note m = memcmp_order [OF len]
  have f: "fst (entry_key cs ht e) = map uint (se_key e)" "fst (probe_key sp) = map uint (sp_key sp)"
    using entry_key_fst [OF e] by (simp_all add: probe_key_def)
  have ne: "map uint (sp_key sp) \<noteq> map uint (se_key e)" using False by (auto dest: map_injective injD intro: injI)
  have "order_sign (memcmp (sp_key sp) (se_key e) KEY_LEN) (probe_key sp) (entry_key cs ht e)"
    "order_sign (memcmp (sp_key sp) (se_key e) KEY_LEN) (name_part (probe_key sp)) (name_part (entry_key cs ht e))"
    using m False ne f by (auto simp: order_sign_def name_part_def less_prod_def prod_eq_iff)
  then show ?thesis using False m(2) by (simp add: sa_cmp_def)
qed


lemma probe_from_contact_valid:
  assumes "listable c"
  shows "probe_valid (probe_from_contact c)" "\<not> sp_name_only (probe_from_contact c)"
  using listable_lengths [OF assms] by (simp_all add: probe_valid_def probe_from_contact_def)

lemma entry_cmp_order:
  assumes r: "reads_as S p cs" and a: "entry_valid cs ht a" and b: "entry_valid cs ht b"
  shows "\<exists>order. entry_cmp S p ht a b = Inr order \<and> order_sign order (entry_key cs ht a) (entry_key cs ht b)"
proof -
  let ?c = "entry_contact cs ht a"
  have l: "listable ?c" and k: "se_key a = sp_key (probe_from_contact ?c)"
    using a by (simp_all add: entry_valid_def probe_from_contact_def)
  have g: "\<not> (c_name_len ?c > MAX_NAME_LEN \<or> c_phone_len ?c > MAX_PHONE_LEN)" using l by (simp add: listable_def)
  have "entry_cmp S p ht a b = sa_cmp S p ht (probe_from_contact ?c) b"
    unfolding entry_cmp_def sa_cmp_def reads_entry [OF r a] sum.case if_not_P [OF g] Let_def k by simp
  moreover have "entry_key cs ht a = probe_key (probe_from_contact ?c)" by (simp add: entry_key_def contact_key_def)
  ultimately show ?thesis
    using sa_cmp_order [OF r b probe_from_contact_valid(1) [OF l]] probe_from_contact_valid(2) [OF l] by simp
qed

interpretation names: entry_order "entry_cmp S p ht" "entry_key cs ht" "\<lambda>e. reads_as S p cs \<and> entry_valid cs ht e"
  for S p ht cs
proof unfold_locales
  fix a b assume a: "reads_as S p cs \<and> entry_valid cs ht a" and b: "reads_as S p cs \<and> entry_valid cs ht b"
  then obtain order where "entry_cmp S p ht a b = Inr order" "order_sign order (entry_key cs ht a) (entry_key cs ht b)"
    using entry_cmp_order by blast
  then show "\<exists>order. entry_cmp S p ht a b = Inr order \<and> (order < 0 \<longleftrightarrow> entry_key cs ht a < entry_key cs ht b) \<and>
      (order = 0 \<longleftrightarrow> entry_key cs ht a = entry_key cs ht b)"
    unfolding order_sign_def by blast
qed

subsection \<open>Binary search\<close>

lemma lower_bound_loop_sem:
  assumes n: "\<And>i. i < n \<Longrightarrow> \<exists>order. order_of (mem ! i) = Inr order \<and> order_sign order k (f (mem ! i))"
    and s: "\<And>i j. i < j \<Longrightarrow> j < n \<Longrightarrow> f (mem ! i) \<le> f (mem ! j)"
  shows "lo \<le> hi \<Longrightarrow> hi \<le> n \<Longrightarrow> \<forall>i < lo. f (mem ! i) < k \<Longrightarrow> \<forall>i. hi \<le> i \<longrightarrow> i < n \<longrightarrow> k \<le> f (mem ! i) \<Longrightarrow>
    match = (hi < n \<and> f (mem ! hi) = k) \<Longrightarrow>
    \<exists>r. lower_bound_loop order_of mem lo hi match = Inr (r, r < n \<and> f (mem ! r) = k) \<and> r \<le> n \<and>
      (\<forall>i < r. f (mem ! i) < k) \<and> (\<forall>i. r \<le> i \<longrightarrow> i < n \<longrightarrow> k \<le> f (mem ! i))"
proof (induction "hi - lo" arbitrary: lo hi match rule: less_induct)
  case less
  show ?case
  proof (cases "lo < hi")
    case False
    then have e: "hi = lo" using less.prems(1) by simp
    have "lower_bound_loop order_of mem lo hi match = Inr (lo, match)"
      using False by (simp add: lower_bound_loop.simps [of order_of mem lo hi match])
    then show ?thesis using less.prems unfolding e by blast
  next
    case True
    define mid where "mid = lo + (hi - lo) div 2"
    have mid: "lo \<le> mid" "mid < hi" "mid < n" using True less.prems(2) by (simp_all add: mid_def)
    obtain order where o: "order_of (mem ! mid) = Inr order" "order_sign order k (f (mem ! mid))" using n [OF mid(3)] by blast
    note step = lower_bound_loop.simps [of order_of mem lo hi match, folded mid_def, unfolded Let_def]
    show ?thesis
    proof (cases "order > 0")
      case pos: True
      then have m: "f (mem ! mid) < k" using order_sign_pos [OF o(2)] by simp
      have "\<forall>i < mid + 1. f (mem ! i) < k"
      proof (intro allI impI)
        fix i assume "i < mid + 1"
        then show "f (mem ! i) < k" using m s [of i mid] mid(3) by (cases "i = mid") auto
      qed
      then have "\<exists>r. lower_bound_loop order_of mem (mid + 1) hi match = Inr (r, r < n \<and> f (mem ! r) = k) \<and> r \<le> n \<and>
          (\<forall>i < r. f (mem ! i) < k) \<and> (\<forall>i. r \<le> i \<longrightarrow> i < n \<longrightarrow> k \<le> f (mem ! i))"
        using mid less.prems by (intro less.hyps) simp_all
      then show ?thesis using True pos o(1) by (simp add: step)
    next
      case neg: False
      then have m: "k \<le> f (mem ! mid)" using order_sign_pos [OF o(2)] by simp
      have "\<forall>i. mid \<le> i \<longrightarrow> i < n \<longrightarrow> k \<le> f (mem ! i)"
      proof (intro allI impI)
        fix i assume "mid \<le> i" "i < n"
        then show "k \<le> f (mem ! i)" using m s [of mid i] by (cases "i = mid") auto
      qed
      moreover have "(order = 0) = (mid < n \<and> f (mem ! mid) = k)" using o(2) mid(3) by (auto simp: order_sign_def)
      ultimately have "\<exists>r. lower_bound_loop order_of mem lo mid (order = 0) = Inr (r, r < n \<and> f (mem ! r) = k) \<and> r \<le> n \<and>
          (\<forall>i < r. f (mem ! i) < k) \<and> (\<forall>i. r \<le> i \<longrightarrow> i < n \<longrightarrow> k \<le> f (mem ! i))"
        using mid less.prems by (intro less.hyps) simp_all
      then show ?thesis using True neg o(1) by (simp add: step)
    qed
  qed
qed

subsection \<open>The sorted list of slots\<close>

definition sa_entries :: "SortedArray \<Rightarrow> SortedArrayEntry list" where
  "sa_entries sa = take (sa_occupancy sa) (sa_mem sa)"

definition slot_key :: "(nat \<Rightarrow> Contact option) \<Rightarrow> HashTable \<Rightarrow> nat \<Rightarrow> order_key" where
  "slot_key cs t i = contact_key (slot_contact cs t i)"

definition name_entry :: "(nat \<Rightarrow> Contact option) \<Rightarrow> HashTable \<Rightarrow> nat \<Rightarrow> SortedArrayEntry" where
  "name_entry cs t i =
     \<lparr>se_key = sorted_array_make_key (c_name (slot_contact cs t i)) (c_name_len (slot_contact cs t i)), se_hash_slot = i\<rparr>"

text \<open>The specification: the slots in \<open>A\<close>, by key.\<close>

definition name_order :: "(nat \<Rightarrow> Contact option) \<Rightarrow> HashTable \<Rightarrow> nat set \<Rightarrow> nat list" where
  "name_order cs t A = sort_key (slot_key cs t) (sorted_list_of_set A)"

definition names_ok :: "(nat \<Rightarrow> Contact option) \<Rightarrow> HashTable \<Rightarrow> nat set \<Rightarrow> SortedArray \<Rightarrow> bool" where
  "names_ok cs t A sa \<longleftrightarrow>
     length (sa_mem sa) = SORTED_ARRAY_ENTRIES \<and> sa_occupancy sa \<le> SORTED_ARRAY_ENTRIES \<and>
     sa_entries sa = map (name_entry cs t) (name_order cs t A)"

text \<open>What the slots in \<open>A\<close> must hold for the order to be total on them.\<close>

definition name_of :: "Contact \<Rightarrow> byte list" where
  "name_of c = take (c_name_len c) (c_name c)"

definition tidy :: "Contact \<Rightarrow> bool" where
  "tidy c \<longleftrightarrow> contact_wf c \<and> c_name_len c \<le> MAX_NAME_LEN \<and> 0 \<notin> set (name_of c) \<and>
     0 \<in> set (c_phone c) \<and> c_phone_len c = length (phone_of c)"

definition slots_tidy :: "(nat \<Rightarrow> Contact option) \<Rightarrow> HashTable \<Rightarrow> nat set \<Rightarrow> bool" where
  "slots_tidy cs t A \<longleftrightarrow>
     A \<subseteq> {..<HASH_TABLE_SIZE} \<and>
     (\<forall>i \<in> A. he_sector (entry_at t i) < HASH_TABLE_ENTRIES \<and> cs (he_sector (entry_at t i)) \<noteq> None \<and> tidy (slot_contact cs t i)) \<and>
     inj_on (slot_phone cs t) A"

end
