(* ===== verification/Name_Index.thy ===== *)
theory Name_Index
  imports Name_Order
begin

text \<open>
  The operations of the alphabetical index against its specification \<open>name_order\<close>: inserting and
  removing keep it, seeking counts the names in front, and rebuilding after a restart gives the
  same array as the insertions did.
\<close>

subsection \<open>Tidy contacts\<close>

lemma tidy_listable: "tidy c \<Longrightarrow> listable c"
  using length_takeWhile_le [of "\<lambda>x. x \<noteq> 0" "c_phone c"]
  by (simp add: tidy_def listable_def phone_of_def cstr_def contact_wf_def layout)

lemma tidy_phone: "tidy c \<Longrightarrow> take (c_phone_len c) (c_phone c) = phone_of c"
  by (simp add: tidy_def phone_of_def cstr_def takeWhile_eq_take [symmetric])

lemma contact_key_phone: "tidy c \<Longrightarrow> tidy d \<Longrightarrow> contact_key c = contact_key d \<Longrightarrow> phone_of c = phone_of d"
  by (simp add: contact_key_def probe_key_def probe_from_contact_def tidy_phone inj_map_eq_map)

lemma slots_tidyD:
  assumes "slots_tidy cs t A" and "i \<in> A"
  shows "i < HASH_TABLE_SIZE" "he_sector (entry_at t i) < HASH_TABLE_ENTRIES" "cs (he_sector (entry_at t i)) \<noteq> None"
    "tidy (slot_contact cs t i)"
  using assms by (auto simp: slots_tidy_def)

lemma slots_tidy_inj: "slots_tidy cs t A \<Longrightarrow> inj_on (slot_key cs t) A"
  unfolding slots_tidy_def slot_key_def inj_on_def using contact_key_phone by blast

lemma slots_tidy_finite: "slots_tidy cs t A \<Longrightarrow> finite A"
  unfolding slots_tidy_def using finite_subset finite_lessThan by blast

lemma slots_tidy_mono: "slots_tidy cs t A \<Longrightarrow> B \<subseteq> A \<Longrightarrow> slots_tidy cs t B"
  unfolding slots_tidy_def using inj_on_subset by blast

lemma name_entry_valid:
  assumes "slots_tidy cs t A" and "i \<in> A"
  shows "entry_valid cs (ht_htable t) (name_entry cs t i)" "entry_key cs (ht_htable t) (name_entry cs t i) = slot_key cs t i"
proof -
  have "entry_contact cs (ht_htable t) (name_entry cs t i) = slot_contact cs t i"
    by (simp add: entry_contact_def name_entry_def slot_contact_def)
  then show "entry_valid cs (ht_htable t) (name_entry cs t i)" "entry_key cs (ht_htable t) (name_entry cs t i) = slot_key cs t i"
    using slots_tidyD [OF assms] tidy_listable by (simp_all add: entry_valid_def entry_key_def slot_key_def name_entry_def)
qed

subsection \<open>The specification as a sorted list\<close>

lemma mset_sorted_set: "finite A \<Longrightarrow> mset (sorted_list_of_set A) = mset_set A"
  using mset_set_set [of "sorted_list_of_set A"] by simp

lemma insort_key_eq: "\<forall>y \<in> insert x (set xs). f y = g y \<Longrightarrow> insort_key f x xs = insort_key g x xs"
  by (induction xs) auto

lemma sort_key_eq: "\<forall>y \<in> set xs. f y = g y \<Longrightarrow> sort_key f xs = sort_key g xs"
  by (induction xs) (simp_all add: insort_key_eq)

lemma name_order_props:
  assumes "finite A"
  shows "set (name_order cs t A) = A" "distinct (name_order cs t A)" "sorted (map (slot_key cs t) (name_order cs t A))"
    "mset (name_order cs t A) = mset_set A" "length (name_order cs t A) = Finite_Set.card A"
proof -
  show "set (name_order cs t A) = A" "distinct (name_order cs t A)" "sorted (map (slot_key cs t) (name_order cs t A))"
    using assms by (simp_all add: name_order_def)
  show "mset (name_order cs t A) = mset_set A" using assms by (simp add: name_order_def mset_sorted_set)
  show "length (name_order cs t A) = Finite_Set.card A" using assms by (simp add: name_order_def)
qed

lemma name_orderI:
  assumes "slots_tidy cs t A" and "mset xs = mset_set A" and "sorted (map (slot_key cs t) xs)"
  shows "name_order cs t A = xs"
proof -
  have f: "finite A" by (rule slots_tidy_finite [OF assms(1)])
  have "mset xs = mset (sorted_list_of_set A)" using assms(2) f by (simp add: mset_sorted_set)
  moreover have "inj_on (slot_key cs t) (set (sorted_list_of_set A))" using slots_tidy_inj [OF assms(1)] f by simp
  ultimately show ?thesis using sort_key_unique assms(3) unfolding name_order_def by metis
qed

lemma name_order_cong:
  assumes "finite A" and "\<And>i. i \<in> A \<Longrightarrow> slot_contact cs' t' i = slot_contact cs t i"
  shows "name_order cs' t' A = name_order cs t A" "map (name_entry cs' t') (name_order cs' t' A) = map (name_entry cs t) (name_order cs t A)"
proof -
  have "sort_key (slot_key cs' t') xs = sort_key (slot_key cs t) xs" if "set xs \<subseteq> A" for xs
    using that assms(2) by (intro sort_key_eq) (auto simp: slot_key_def)
  then show o: "name_order cs' t' A = name_order cs t A" using assms(1) by (simp add: name_order_def)
  show "map (name_entry cs' t') (name_order cs' t' A) = map (name_entry cs t) (name_order cs t A)"
    unfolding o using assms name_order_props(1) [OF assms(1)] by (simp add: name_entry_def)
qed

lemma name_order_insert:
  assumes "slots_tidy cs t (insert e A)" and "e \<notin> A"
  shows "name_order cs t (insert e A) = insort_key (slot_key cs t) e (name_order cs t A)"
proof -
  have f: "finite A" using slots_tidy_finite [OF assms(1)] by simp
  note o = name_order_props [OF f]
  have "mset (insort_key (slot_key cs t) e (name_order cs t A)) = mset_set (insert e A)"
    using assms(2) f o(4) [of cs t] by simp
  moreover have "sorted (map (slot_key cs t) (insort_key (slot_key cs t) e (name_order cs t A)))"
    using o(3) by (simp add: sorted_insort_key)
  ultimately show ?thesis by (rule name_orderI [OF assms(1)])
qed

lemma name_order_delete:
  assumes "slots_tidy cs t A"
  shows "name_order cs t (A - {e}) = filter (\<lambda>i. i \<noteq> e) (name_order cs t A)"
proof -
  have f: "finite A" by (rule slots_tidy_finite [OF assms])
  note o = name_order_props [OF f, of cs t]
  have "mset (filter (\<lambda>i. i \<noteq> e) (name_order cs t A)) = mset_set (A - {e})"
    using o(1,2) f by (metis distinct_filter mset_set_set set_minus_filter_out)
  moreover have "sorted (map (slot_key cs t) (filter (\<lambda>i. i \<noteq> e) (name_order cs t A)))"
    by (rule sorted_filter [OF o(3)])
  ultimately show ?thesis by (rule name_orderI [OF slots_tidy_mono [OF assms], rotated]) auto
qed


subsection \<open>Searching\<close>

lemma names_okD:
  assumes "names_ok cs t A sa" and "finite A"
  shows "length (sa_mem sa) = SORTED_ARRAY_ENTRIES" "sa_occupancy sa = Finite_Set.card A" "sa_occupancy sa \<le> SORTED_ARRAY_ENTRIES"
    "sa_entries sa = map (name_entry cs t) (name_order cs t A)"
    "i < sa_occupancy sa \<Longrightarrow> sa_mem sa ! i = name_entry cs t (name_order cs t A ! i)"
proof -
  show l: "length (sa_mem sa) = SORTED_ARRAY_ENTRIES" "sa_occupancy sa \<le> SORTED_ARRAY_ENTRIES"
    and e: "sa_entries sa = map (name_entry cs t) (name_order cs t A)" using assms(1) by (simp_all add: names_ok_def)
  have "length (sa_entries sa) = sa_occupancy sa" using l by (simp add: sa_entries_def)
  then show c: "sa_occupancy sa = Finite_Set.card A" using name_order_props(5) [OF assms(2), of cs t] by (simp add: e)
  show "sa_mem sa ! i = name_entry cs t (name_order cs t A ! i)" if "i < sa_occupancy sa"
  proof -
    have "sa_mem sa ! i = sa_entries sa ! i" using that by (simp add: sa_entries_def)
    then show ?thesis using that name_order_props(5) [OF assms(2), of cs t] by (simp add: e c)
  qed
qed

text \<open>\<open>g\<close> is the part of the key that is compared.\<close>

lemma search_sem:
  assumes r: "reads_as S p cs" and ok: "names_ok cs t A sa" and tidy: "slots_tidy cs t A" and v: "probe_valid sp"
    and g: "\<And>e. entry_valid cs (ht_htable t) e \<Longrightarrow> \<exists>order. sa_cmp S p (ht_htable t) sp e = Inr order \<and>
        order_sign order (g (probe_key sp)) (g (entry_key cs (ht_htable t) e))"
    and mono: "\<And>a b. a \<le> b \<Longrightarrow> g a \<le> (g b :: 'k::linorder)"
  shows "\<exists>rank. binary_search_lower_bound S p (ht_htable t) sa sp =
      Inr (rank, rank < sa_occupancy sa \<and> g (slot_key cs t (name_order cs t A ! rank)) = g (probe_key sp)) \<and>
    rank \<le> sa_occupancy sa \<and> (\<forall>i < rank. g (slot_key cs t (name_order cs t A ! i)) < g (probe_key sp)) \<and>
    (\<forall>i. rank \<le> i \<longrightarrow> i < sa_occupancy sa \<longrightarrow> g (probe_key sp) \<le> g (slot_key cs t (name_order cs t A ! i)))"
proof -
  have fin: "finite A" by (rule slots_tidy_finite [OF tidy])
  note n = names_okD [OF ok fin] and o = name_order_props [OF fin, of cs t]
  let ?f = "\<lambda>e. g (entry_key cs (ht_htable t) e)"
  have mem: "entry_valid cs (ht_htable t) (sa_mem sa ! i)" "?f (sa_mem sa ! i) = g (slot_key cs t (name_order cs t A ! i))"
    if "i < sa_occupancy sa" for i
  proof -
    have "name_order cs t A ! i \<in> A" using that n(2) o(1,5) nth_mem by metis
    from name_entry_valid [OF tidy this] show "entry_valid cs (ht_htable t) (sa_mem sa ! i)"
      "?f (sa_mem sa ! i) = g (slot_key cs t (name_order cs t A ! i))" unfolding n(5) [OF that] by simp_all
  qed
  have le: "?f (sa_mem sa ! i) \<le> ?f (sa_mem sa ! j)" if "i < j" "j < sa_occupancy sa" for i j
  proof -
    have "slot_key cs t (name_order cs t A ! i) \<le> slot_key cs t (name_order cs t A ! j)"
      using sorted_nth_mono [OF o(3), of i j] that n(2) o(5) by simp
    then show ?thesis using mono mem(2) that by simp
  qed
  from lower_bound_loop_sem [where order_of = "sa_cmp S p (ht_htable t) sp" and mem = "sa_mem sa" and f = ?f
      and k = "g (probe_key sp)" and n = "sa_occupancy sa" and lo = 0 and hi = "sa_occupancy sa" and match = False, OF g [OF mem(1)] le]
  obtain rank where k: "lower_bound_loop (sa_cmp S p (ht_htable t) sp) (sa_mem sa) 0 (sa_occupancy sa) False =
        Inr (rank, rank < sa_occupancy sa \<and> ?f (sa_mem sa ! rank) = g (probe_key sp))" "rank \<le> sa_occupancy sa"
      "\<forall>i < rank. ?f (sa_mem sa ! i) < g (probe_key sp)"
      "\<forall>i. rank \<le> i \<longrightarrow> i < sa_occupancy sa \<longrightarrow> g (probe_key sp) \<le> ?f (sa_mem sa ! i)" by auto
  have "rank < sa_occupancy sa \<and> ?f (sa_mem sa ! rank) = g (probe_key sp) \<longleftrightarrow>
      rank < sa_occupancy sa \<and> g (slot_key cs t (name_order cs t A ! rank)) = g (probe_key sp)" using mem(2) by auto
  moreover have "\<forall>i < rank. g (slot_key cs t (name_order cs t A ! i)) < g (probe_key sp)" using k(2,3) mem(2) by simp
  moreover have "\<forall>i. rank \<le> i \<longrightarrow> i < sa_occupancy sa \<longrightarrow> g (probe_key sp) \<le> g (slot_key cs t (name_order cs t A ! i))"
    using k(4) mem(2) by simp
  ultimately show ?thesis using k(1,2) unfolding binary_search_lower_bound_def by simp
qed

lemma find_sem:
  assumes r: "reads_as S p cs" and ok: "names_ok cs t A sa" and tidy: "slots_tidy cs t A" and c: "listable c"
  shows "\<exists>rank. sorted_array_find S p (ht_htable t) sa c =
      Inr (rank, rank < sa_occupancy sa \<and> slot_key cs t (name_order cs t A ! rank) = contact_key c) \<and>
    rank \<le> sa_occupancy sa \<and> (\<forall>i < rank. slot_key cs t (name_order cs t A ! i) < contact_key c) \<and>
    (\<forall>i. rank \<le> i \<longrightarrow> i < sa_occupancy sa \<longrightarrow> contact_key c \<le> slot_key cs t (name_order cs t A ! i))"
  using search_sem [OF r ok tidy probe_from_contact_valid(1) [OF c], where g = "\<lambda>k. k"]
    sa_cmp_order [OF r _ probe_from_contact_valid(1) [OF c]] probe_from_contact_valid(2) [OF c]
  unfolding sorted_array_find_def contact_key_def by simp

lemma name_part_mono: "a \<le> b \<Longrightarrow> name_part a \<le> name_part b"
  by (auto simp: name_part_def less_eq_prod_def less_prod_def)

definition prefix_key :: "byte list \<Rightarrow> int list \<times> int list" where
  "prefix_key prefix = name_part (probe_key (probe_from_string prefix (length prefix)))"

lemma length_filter_split:
  assumes "r \<le> length xs" and "\<forall>i < r. P (xs ! i)" and "\<forall>i. r \<le> i \<longrightarrow> i < length xs \<longrightarrow> \<not> P (xs ! i)"
  shows "length (filter P xs) = r"
proof -
  have "filter P (take r xs) = take r xs" using assms(1,2) by (auto simp: filter_id_conv in_set_conv_nth)
  moreover have "filter P (drop r xs) = []" using assms(3) by (auto simp: filter_empty_conv in_set_conv_nth)
  ultimately have "filter P (take r xs @ drop r xs) = take r xs" by (simp only: filter_append append_Nil2)
  then show ?thesis using assms(1) by simp
qed

lemma seek_sem:
  assumes r: "reads_as S p cs" and ok: "names_ok cs t A sa" and tidy: "slots_tidy cs t A" and l: "length prefix \<le> MAX_NAME_LEN"
  shows "sorted_array_seek S p (ht_htable t) sa prefix =
    Inr (length (filter (\<lambda>i. name_part (slot_key cs t i) < prefix_key prefix) (name_order cs t A)))"
proof -
  let ?sp = "probe_from_string prefix (length prefix)"
  have v: "probe_valid ?sp" "sp_name_only ?sp" by (simp_all add: probe_valid_def probe_from_string_def)
  have fin: "finite A" by (rule slots_tidy_finite [OF tidy])
  obtain rank where k: "binary_search_lower_bound S p (ht_htable t) sa ?sp =
      Inr (rank, rank < sa_occupancy sa \<and> name_part (slot_key cs t (name_order cs t A ! rank)) = prefix_key prefix)"
    "rank \<le> sa_occupancy sa" "\<forall>i < rank. name_part (slot_key cs t (name_order cs t A ! i)) < prefix_key prefix"
    "\<forall>i. rank \<le> i \<longrightarrow> i < sa_occupancy sa \<longrightarrow> prefix_key prefix \<le> name_part (slot_key cs t (name_order cs t A ! i))"
    using search_sem [where g = name_part, OF r ok tidy v(1) _ name_part_mono] sa_cmp_order [OF r _ v(1)] v(2)
    unfolding prefix_key_def by auto
  have "length (name_order cs t A) = sa_occupancy sa"
    using name_order_props(5) [OF fin] names_okD(2) [OF ok fin] by simp
  then have "length (filter (\<lambda>i. name_part (slot_key cs t i) < prefix_key prefix) (name_order cs t A)) = rank"
    using k(2,3,4) by (intro length_filter_split) (simp_all add: not_less)
  then show ?thesis using k(1) l by (simp add: sorted_array_seek_def)
qed


subsection \<open>Inserting and removing\<close>

lemma insort_at_rank:
  assumes "r \<le> length xs" and "\<forall>i < r. f (xs ! i) < f e" and "\<forall>i. r \<le> i \<longrightarrow> i < length xs \<longrightarrow> f e \<le> f (xs ! i)"
  shows "insort_key f e xs = take r xs @ e # drop r xs"
  using assms
proof (induction xs arbitrary: r)
  case (Cons x xs)
  show ?case
  proof (cases r)
    case 0
    then show ?thesis using Cons.prems(3) by auto
  next
    case (Suc r')
    have lt: "\<not> f e \<le> f x" using Cons.prems(2) Suc by auto
    have "insort_key f e xs = take r' xs @ e # drop r' xs"
      using Cons.prems Suc by (intro Cons.IH) auto
    then show ?thesis using lt Suc by simp
  qed
qed simp

lemma sa_insert_sem:
  assumes r: "reads_as S p cs" and ok: "names_ok cs t A sa" and tidy: "slots_tidy cs t (insert e A)" and e: "e \<notin> A"
    and c: "slot_contact cs t e = c" and room: "sa_occupancy sa < HASH_TABLE_ENTRIES"
  shows "\<exists>sa'. sorted_array_insert S p (ht_htable t) sa c e = (STRG_OK, sa') \<and> names_ok cs t (insert e A) sa'"
proof -
  have tA: "slots_tidy cs t A" by (rule slots_tidy_mono [OF tidy]) auto
  have fin: "finite A" by (rule slots_tidy_finite [OF tA])
  note n = names_okD [OF ok fin] and o = name_order_props [OF fin, of cs t]
  have "tidy c" using slots_tidyD(4) [OF tidy, of e] c by simp
  from find_sem [OF r ok tA tidy_listable [OF this]] obtain rank
    where f: "sorted_array_find S p (ht_htable t) sa c =
        Inr (rank, rank < sa_occupancy sa \<and> slot_key cs t (name_order cs t A ! rank) = contact_key c)" "rank \<le> sa_occupancy sa"
      "\<forall>i < rank. slot_key cs t (name_order cs t A ! i) < contact_key c"
      "\<forall>i. rank \<le> i \<longrightarrow> i < sa_occupancy sa \<longrightarrow> contact_key c \<le> slot_key cs t (name_order cs t A ! i)" by blast
  have new: "\<not> (rank < sa_occupancy sa \<and> slot_key cs t (name_order cs t A ! rank) = contact_key c)"
  proof
    assume a: "rank < sa_occupancy sa \<and> slot_key cs t (name_order cs t A ! rank) = contact_key c"
    then have "name_order cs t A ! rank \<in> A" using n(2) o(1,5) nth_mem by metis
    then have "name_order cs t A ! rank = e"
      using inj_onD [OF slots_tidy_inj [OF tidy], of "name_order cs t A ! rank" e] a c by (simp add: slot_key_def)
    then show False using e \<open>name_order cs t A ! rank \<in> A\<close> by simp
  qed
  let ?mem = "(memmove (Suc rank) rank (sa_occupancy sa - rank) (sa_mem sa))[rank := name_entry cs t e]"
  have len: "sa_occupancy sa < length (sa_mem sa)" using room n(1) by (simp add: SORTED_ARRAY_ENTRIES_def)
  have "take (Suc (sa_occupancy sa)) ?mem = take rank (sa_mem sa) @ name_entry cs t e # drop rank (sa_entries sa)"
    using memmove_insert [OF f(2) len] by (simp add: sa_entries_def)
  also have "\<dots> = map (name_entry cs t) (take rank (name_order cs t A) @ e # drop rank (name_order cs t A))"
  proof -
    have "take rank (sa_mem sa) = take rank (sa_entries sa)" using f(2) by (simp add: sa_entries_def min_def)
    then show ?thesis by (simp add: n(4) take_map drop_map)
  qed
  also have "take rank (name_order cs t A) @ e # drop rank (name_order cs t A) = name_order cs t (insert e A)"
    using f(2,3,4) n(2) o(5) c unfolding name_order_insert [OF tidy e]
    by (intro insort_at_rank [symmetric]) (simp_all add: slot_key_def)
  finally have "names_ok cs t (insert e A) (sa\<lparr>sa_mem := ?mem, sa_occupancy := sa_occupancy sa + 1\<rparr>)"
    using n(1) room f(2) by (simp add: names_ok_def sa_entries_def SORTED_ARRAY_ENTRIES_def)
  moreover have "sorted_array_insert S p (ht_htable t) sa c e =
      (STRG_OK, sa\<lparr>sa_mem := ?mem, sa_occupancy := sa_occupancy sa + 1\<rparr>)"
    using f(1) new room c by (simp add: sorted_array_insert_def name_entry_def)
  ultimately show ?thesis by blast
qed

lemma sa_remove_sem:
  assumes r: "reads_as S p cs" and ok: "names_ok cs t A sa" and tidy: "slots_tidy cs t A" and e: "e \<in> A"
    and c: "slot_contact cs t e = c"
  shows "\<exists>sa'. sorted_array_remove S p (ht_htable t) sa c = (STRG_OK, sa') \<and> names_ok cs t (A - {e}) sa' \<and>
    sa_occupancy sa' = sa_occupancy sa - 1"
proof -
  have fin: "finite A" by (rule slots_tidy_finite [OF tidy])
  note n = names_okD [OF ok fin] and o = name_order_props [OF fin, of cs t]
  have "tidy c" using slots_tidyD(4) [OF tidy e] c by simp
  from find_sem [OF r ok tidy tidy_listable [OF this]] obtain rank
    where f: "sorted_array_find S p (ht_htable t) sa c =
        Inr (rank, rank < sa_occupancy sa \<and> slot_key cs t (name_order cs t A ! rank) = contact_key c)" "rank \<le> sa_occupancy sa"
      "\<forall>i < rank. slot_key cs t (name_order cs t A ! i) < contact_key c"
      "\<forall>i. rank \<le> i \<longrightarrow> i < sa_occupancy sa \<longrightarrow> contact_key c \<le> slot_key cs t (name_order cs t A ! i)" by blast
  obtain k where k: "k < length (name_order cs t A)" "name_order cs t A ! k = e" using e o(1) by (metis in_set_conv_nth)
  have key: "slot_key cs t e = contact_key c" using c by (simp add: slot_key_def)
  have kr: "rank \<le> k" using f(3) k(2) key by (metis less_irrefl not_less)
  have ro: "rank < sa_occupancy sa" using kr k(1) n(2) o(5) by simp
  have "slot_key cs t (name_order cs t A ! rank) \<le> slot_key cs t (name_order cs t A ! k)"
    using sorted_nth_mono [OF o(3), of rank k] kr k(1) by simp
  then have hit: "slot_key cs t (name_order cs t A ! rank) = contact_key c" using f(4) ro k(2) key by (simp add: antisym)
  have "name_order cs t A ! rank \<in> A" using ro n(2) o(1,5) nth_mem by metis
  then have re: "name_order cs t A ! rank = e"
    using inj_onD [OF slots_tidy_inj [OF tidy], of "name_order cs t A ! rank" e] e hit key by simp
  let ?mem = "memmove rank (Suc rank) (sa_occupancy sa - rank - 1) (sa_mem sa)"
  have len: "sa_occupancy sa \<le> length (sa_mem sa)" using n(1,3) by simp
  have "take (sa_occupancy sa - 1) ?mem = take rank (sa_mem sa) @ drop (Suc rank) (sa_entries sa)"
    using memmove_delete [OF ro len] by (simp add: sa_entries_def)
  also have "\<dots> = map (name_entry cs t) (take rank (name_order cs t A) @ drop (Suc rank) (name_order cs t A))"
  proof -
    have "take rank (sa_mem sa) = take rank (sa_entries sa)" using f(2) by (simp add: sa_entries_def min_def)
    then show ?thesis by (simp add: n(4) take_map drop_map)
  qed
  also have "take rank (name_order cs t A) @ drop (Suc rank) (name_order cs t A) = name_order cs t (A - {e})"
    using filter_out_nth [OF o(2), of rank] ro n(2) o(5) re by (simp add: name_order_delete [OF tidy])
  finally have "names_ok cs t (A - {e}) (sa\<lparr>sa_mem := ?mem, sa_occupancy := sa_occupancy sa - 1\<rparr>)"
    using n(1,3) ro by (simp add: names_ok_def sa_entries_def)
  moreover have "sorted_array_remove S p (ht_htable t) sa c =
      (STRG_OK, sa\<lparr>sa_mem := ?mem, sa_occupancy := sa_occupancy sa - 1\<rparr>)"
    using f(1) ro hit by (simp add: sorted_array_remove_def)
  ultimately show ?thesis by (intro exI [of _ "sa\<lparr>sa_mem := ?mem, sa_occupancy := sa_occupancy sa - 1\<rparr>"]) simp
qed


subsection \<open>Rebuilding\<close>

lemma fill_sem:
  assumes r: "reads_as S p cs"
  shows "(\<And>i. i \<in> set slots \<Longrightarrow> he_state (entry_at t i) = ENTRY_OCCUPIED \<Longrightarrow>
        he_sector (entry_at t i) < HASH_TABLE_ENTRIES \<and> cs (he_sector (entry_at t i)) \<noteq> None) \<Longrightarrow>
    length (sa_mem sa) = SORTED_ARRAY_ENTRIES \<Longrightarrow>
    sa_occupancy sa + length (filter (\<lambda>i. he_state (entry_at t i) = ENTRY_OCCUPIED) slots) \<le> HASH_TABLE_ENTRIES \<Longrightarrow>
    \<exists>sa'. sorted_array_fill S p (ht_htable t) slots sa = (STRG_OK, sa') \<and> length (sa_mem sa') = SORTED_ARRAY_ENTRIES \<and>
      sa_occupancy sa' = sa_occupancy sa + length (filter (\<lambda>i. he_state (entry_at t i) = ENTRY_OCCUPIED) slots) \<and>
      sa_entries sa' = sa_entries sa @ map (name_entry cs t) (filter (\<lambda>i. he_state (entry_at t i) = ENTRY_OCCUPIED) slots)"
proof (induction slots arbitrary: sa)
  case (Cons i slots)
  show ?case
  proof (cases "he_state (entry_at t i) = ENTRY_OCCUPIED")
    case True
    let ?sa = "sa\<lparr>sa_mem := (sa_mem sa)[sa_occupancy sa := name_entry cs t i], sa_occupancy := sa_occupancy sa + 1\<rparr>"
    have "read_contact S p (he_sector (entry_at t i)) = Inr (slot_contact cs t i)"
      using r Cons.prems(1) [of i] True by (auto simp: reads_as_def slot_contact_def)
    then have s: "sorted_array_fill S p (ht_htable t) (i # slots) sa = sorted_array_fill S p (ht_htable t) slots ?sa"
      using True Cons.prems(3) by (simp add: sorted_array_append_def name_entry_def)
    have "sa_occupancy sa < length (sa_mem sa)" using True Cons.prems(2,3) by (simp add: SORTED_ARRAY_ENTRIES_def)
    then have e: "sa_entries ?sa = sa_entries sa @ [name_entry cs t i]"
      by (simp add: sa_entries_def take_Suc_conv_app_nth)
    have "\<exists>sa'. sorted_array_fill S p (ht_htable t) slots ?sa = (STRG_OK, sa') \<and> length (sa_mem sa') = SORTED_ARRAY_ENTRIES \<and>
        sa_occupancy sa' = sa_occupancy ?sa + length (filter (\<lambda>i. he_state (entry_at t i) = ENTRY_OCCUPIED) slots) \<and>
        sa_entries sa' = sa_entries ?sa @ map (name_entry cs t) (filter (\<lambda>i. he_state (entry_at t i) = ENTRY_OCCUPIED) slots)"
      by (rule Cons.IH) (use Cons.prems True in simp_all)
    then show ?thesis unfolding s e using True by auto
  qed (use Cons in simp)
qed simp

lemma sa_build_sem:
  assumes r: "reads_as S p cs" and tidy: "slots_tidy cs t (set (occupied_slots t))" and sz: "ht_size t = HASH_TABLE_SIZE"
    and room: "length (occupied_slots t) \<le> HASH_TABLE_ENTRIES" and m: "length sa_memory = SORTED_ARRAY_ENTRIES"
  shows "\<exists>sa. sorted_array_build S p (ht_htable t) sa_memory = (STRG_OK, sa) \<and> names_ok cs t (set (occupied_slots t)) sa"
proof -
  let ?occ = "filter (\<lambda>i. he_state (entry_at t i) = ENTRY_OCCUPIED) [0..<HASH_TABLE_SIZE]"
  have occ: "?occ = occupied_slots t" by (simp add: occupied_slots_def sz)
  have i: "he_sector (entry_at t i) < HASH_TABLE_ENTRIES \<and> cs (he_sector (entry_at t i)) \<noteq> None"
    if "i \<in> set [0..<HASH_TABLE_SIZE]" "he_state (entry_at t i) = ENTRY_OCCUPIED" for i
    using slots_tidyD [OF tidy, of i] that sz by (simp add: set_occupied_slots)
  obtain sa1 where f: "sorted_array_fill S p (ht_htable t) [0..<HASH_TABLE_SIZE] (sorted_array_init sa_memory) = (STRG_OK, sa1)"
      "length (sa_mem sa1) = SORTED_ARRAY_ENTRIES" "sa_occupancy sa1 = length (occupied_slots t)"
      "sa_entries sa1 = map (name_entry cs t) (occupied_slots t)"
    using fill_sem [OF r i, where sa = "sorted_array_init sa_memory" and slots = "[0..<HASH_TABLE_SIZE]", unfolded occ] m room
    by (auto simp: sorted_array_init_def sa_entries_def)
  let ?n = "sa_occupancy sa1"
  have n: "?n \<le> length (sa_mem sa1)" using f(2,3) room by (simp add: SORTED_ARRAY_ENTRIES_def)
  have v: "reads_as S p cs \<and> entry_valid cs (ht_htable t) x" if "x \<in> set (take ?n (sa_mem sa1))" for x
    using that f(4) r name_entry_valid(1) [OF tidy] by (auto simp: sa_entries_def)
  from names.heap_sort_sorts [where S = S and p = p and ht = "ht_htable t" and cs = cs, OF n v]
  obtain mem where h: "heap_sort (entry_cmp S p (ht_htable t)) (sa_mem sa1) ?n = (STRG_OK, mem)"
      "sorted (map (entry_key cs (ht_htable t)) (take ?n mem))" "permuted ?n (sa_mem sa1) mem" by blast
  let ?xs = "take ?n mem" and ?ns = "map se_hash_slot (take ?n mem)"
  have ms: "mset ?xs = mset (map (name_entry cs t) (occupied_slots t))"
    using h(3) f(4) by (simp add: permuted_def sa_entries_def)
  have slot: "se_hash_slot (name_entry cs t i) = i" for i by (simp add: name_entry_def)
  have inv: "x = name_entry cs t (se_hash_slot x) \<and> se_hash_slot x \<in> set (occupied_slots t)" if "x \<in> set ?xs" for x
  proof -
    have "set ?xs = set (map (name_entry cs t) (occupied_slots t))" using ms by (metis set_mset_mset)
    then show ?thesis using that slot by auto
  qed
  have xs: "?xs = map (name_entry cs t) ?ns" using inv by (simp add: map_idI [symmetric])
  have "mset ?ns = image_mset se_hash_slot (mset (map (name_entry cs t) (occupied_slots t)))" unfolding ms [symmetric] by simp
  also have "\<dots> = mset (map (\<lambda>i. i) (occupied_slots t))" by (simp add: slot image_mset.compositionality o_def)
  finally have "mset ?ns = mset_set (set (occupied_slots t))" using sorted_occupied_slots(2) by (simp add: mset_set_set)
  moreover have "map (slot_key cs t) ?ns = map (entry_key cs (ht_htable t)) ?xs"
    using inv name_entry_valid(2) [OF tidy] by (auto intro!: map_cong [OF refl] simp: comp_def) (metis)
  then have "sorted (map (slot_key cs t) ?ns)" using h(2) by (simp only:)
  ultimately have "name_order cs t (set (occupied_slots t)) = ?ns" by (rule name_orderI [OF tidy])
  then have "names_ok cs t (set (occupied_slots t)) (sa1\<lparr>sa_mem := mem\<rparr>)"
    using xs f(2,3) room permuted_length [OF h(3)] by (simp add: names_ok_def sa_entries_def SORTED_ARRAY_ENTRIES_def)
  moreover have "sorted_array_build S p (ht_htable t) sa_memory = (STRG_OK, sa1\<lparr>sa_mem := mem\<rparr>)"
    using f(1) h(1) by (simp add: sorted_array_build_def sorted_array_sort_def)
  ultimately show ?thesis by blast
qed

subsection \<open>Alphabetical order\<close>

text \<open>The stored key is a prefix of the folded name, padded with zeros.  No name holds a zero, so comparing
  the keys first does not change the order: it is the order of the folded names.\<close>

lemma pad_mono:
  fixes a b :: "int list"
  assumes "\<forall>x \<in> set a. 0 < x" and "\<forall>x \<in> set b. 0 < x" and "a \<le> b"
  shows "take k (a @ replicate k 0) \<le> take k (b @ replicate k 0)"
  using assms
proof (induction k arbitrary: a b)
  case (Suc k)
  have z: "take k (xs @ replicate (Suc k) (0 :: int)) = take k (xs @ replicate k 0)" for xs
    by (simp only: take_append take_replicate) simp
  show ?case
  proof (cases a)
    case Nil
    show ?thesis
    proof (cases b)
      case (Cons y ys)
      then show ?thesis using Nil Suc.prems by simp
    qed (simp add: Nil)
  next
    case (Cons x xs)
    then obtain y ys where b: "b = y # ys" using Suc.prems(3) by (cases b) simp_all
    show ?thesis using Suc.IH [of xs ys] Suc.prems by (auto simp: Cons b z simp del: replicate_Suc)
  qed
qed simp

lemma pad_order:
  fixes a b :: "int list"
  assumes "\<forall>x \<in> set a. 0 < x" and "\<forall>x \<in> set b. 0 < x"
  shows "(take k (a @ replicate k 0), a) \<le> (take k (b @ replicate k 0), b) \<longleftrightarrow> a \<le> b"
  using pad_mono [OF assms, of k] pad_mono [OF assms(2,1), of k] linorder_linear [of a b] by (cases "a \<le> b") auto

definition folded_name :: "byte list \<Rightarrow> int list" where
  "folded_name name = map remove_case name"

definition listing_key :: "Contact \<Rightarrow> int list \<times> int list \<times> int list" where
  "listing_key c = (folded_name (name_of c), map uint (name_of c), map uint (phone_of c))"

lemma remove_case_pos:
  assumes "x \<noteq> 0"
  shows "0 < remove_case x"
proof -
  have "0 \<le> uint x" "uint x \<noteq> 0" using assms unsigned_eq_0_iff [of x, where 'a = int] uint_ge_0 [of x] by blast+
  then have "0 < uint x" by linarith
  then show ?thesis by (simp add: remove_case_def)
qed

lemma uint_remove_case: "uint (word_of_int (remove_case x) :: byte) = remove_case x"
proof -
  have "x \<le> 90 \<Longrightarrow> uint x \<le> 90" by (simp add: word_le_def)
  then have "0 \<le> remove_case x \<and> remove_case x < 256" using unsigned_less [of x, where 'a = int] uint_ge_0 [of x] by (auto simp: remove_case_def)
  then show ?thesis by (simp add: uint_word_of_int)
qed

lemma make_key_pad:
  assumes "n \<le> length s"
  shows "map uint (sorted_array_make_key s n) = take KEY_LEN (folded_name (take n s) @ replicate KEY_LEN 0)"
  using assms
  by (intro nth_equalityI) (auto simp: sorted_array_make_key_def folded_name_def uint_remove_case nth_append Let_def)

lemma folded_pos: "0 \<notin> set s \<Longrightarrow> \<forall>x \<in> set (folded_name s). 0 < x"
  by (auto simp: folded_name_def intro!: remove_case_pos)

lemma contact_key_listing:
  assumes "tidy c" and "tidy d"
  shows "contact_key c \<le> contact_key d \<longleftrightarrow> listing_key c \<le> listing_key d"
proof -
  have k: "contact_key e = (take KEY_LEN (folded_name (name_of e) @ replicate KEY_LEN 0), listing_key e)" if "tidy e" for e
    using that tidy_phone [OF that] listable_lengths(1) [OF tidy_listable [OF that]]
    by (simp add: contact_key_def probe_key_def probe_from_contact_def listing_key_def name_of_def make_key_pad folded_name_def)
  have p: "\<forall>x \<in> set (folded_name (name_of e)). 0 < x" if "tidy e" for e
    using that by (intro folded_pos) (simp add: tidy_def)
  show ?thesis
    unfolding k [OF assms(1)] k [OF assms(2)]
    using pad_order [OF p [OF assms(1)] p [OF assms(2)], of KEY_LEN] pad_order [OF p [OF assms(2)] p [OF assms(1)], of KEY_LEN]
    by (cases "folded_name (name_of c) = folded_name (name_of d)") (auto simp: listing_key_def)
qed

lemma prefix_before:
  assumes "tidy c" and "0 \<notin> set prefix"
  shows "name_part (contact_key c) < prefix_key prefix \<longleftrightarrow> folded_name (name_of c) < folded_name prefix"
proof -
  have c: "name_part (contact_key c) = (take KEY_LEN (folded_name (name_of c) @ replicate KEY_LEN 0), folded_name (name_of c))"
    using listable_lengths(1) [OF tidy_listable [OF assms(1)]]
    by (simp add: contact_key_def probe_key_def probe_from_contact_def name_part_def name_of_def make_key_pad) (simp add: folded_name_def)
  have p: "prefix_key prefix = (take KEY_LEN (folded_name prefix @ replicate KEY_LEN 0), folded_name prefix)"
    by (simp add: prefix_key_def probe_key_def probe_from_string_def name_part_def make_key_pad) (simp add: folded_name_def)
  have "0 \<notin> set (name_of c)" using assms(1) by (simp add: tidy_def)
  then show ?thesis unfolding c p not_le [symmetric] by (subst pad_order [OF folded_pos [OF assms(2)] folded_pos]) simp_all
qed

end
