(* ===== verification/Chat_Order.thy ===== *)
theory Chat_Order
  imports Heap_Sort Hash_Messages
begin

text \<open>
  The chats by recency: \<^verbatim>\<open>source/app/src/chat_order.c\<close>, an array of hash slots, most
  recent chat first, moved to the front on every message and rebuilt after a restart from the time
  stamp of the newest message of each chat.

  The operations on the array are those of a duplicate-free list; the rebuilt order is the sort by
  time stamp, newest first, ties by slot.
\<close>

subsection \<open>Operations\<close>

definition CHAT_ORDER_ENTRIES :: nat where "CHAT_ORDER_ENTRIES = HASH_TABLE_ENTRIES"

record ChatOrder =
  co_occupancy :: nat
  co_mem :: "nat list"

text \<open>The rank, \<open>None\<close> when the function returns false.\<close>

primrec chat_order_find_loop :: "nat list \<Rightarrow> nat \<Rightarrow> nat list \<Rightarrow> nat option" where
  "chat_order_find_loop mem hash_slot [] = None"
| "chat_order_find_loop mem hash_slot (i # ranks) =
     (if mem ! i = hash_slot then Some i else chat_order_find_loop mem hash_slot ranks)"

definition chat_order_find :: "ChatOrder \<Rightarrow> nat \<Rightarrow> nat option" where
  "chat_order_find co hash_slot = chat_order_find_loop (co_mem co) hash_slot [0..<co_occupancy co]"

definition move_to_front :: "nat \<Rightarrow> nat \<Rightarrow> ChatOrder \<Rightarrow> ChatOrder" where
  "move_to_front rank hash_slot co = co\<lparr>co_mem := (memmove 1 0 rank (co_mem co))[0 := hash_slot]\<rparr>"

definition chat_order_touch :: "ChatOrder \<Rightarrow> nat \<Rightarrow> STRG_RET \<times> ChatOrder" where
  "chat_order_touch co hash_slot =
     (case chat_order_find co hash_slot of
        None \<Rightarrow>
          if co_occupancy co \<ge> CHAT_ORDER_ENTRIES then (STRG_FULL, co)
          else (STRG_OK, move_to_front (co_occupancy co) hash_slot (co\<lparr>co_occupancy := co_occupancy co + 1\<rparr>))
      | Some rank \<Rightarrow> (STRG_OK, move_to_front rank hash_slot co))"

definition chat_order_remove :: "ChatOrder \<Rightarrow> nat \<Rightarrow> STRG_RET \<times> ChatOrder" where
  "chat_order_remove co hash_slot =
     (case chat_order_find co hash_slot of
        None \<Rightarrow> (STRG_EMPTY, co)
      | Some rank \<Rightarrow>
          (STRG_OK, co\<lparr>co_mem := memmove rank (rank + 1) (co_occupancy co - rank - 1) (co_mem co),
                       co_occupancy := co_occupancy co - 1\<rparr>))"

definition chat_order_replace :: "ChatOrder \<Rightarrow> nat \<Rightarrow> nat \<Rightarrow> STRG_RET \<times> ChatOrder" where
  "chat_order_replace co old_slot new_slot =
     (case chat_order_find co old_slot of
        None \<Rightarrow> (STRG_EMPTY, co)
      | Some rank \<Rightarrow> (STRG_OK, co\<lparr>co_mem := (co_mem co)[rank := new_slot]\<rparr>))"

definition chat_order_get_range :: "ChatOrder \<Rightarrow> nat \<Rightarrow> nat \<Rightarrow> nat list option" where
  "chat_order_get_range co start n =
     (if start \<ge> co_occupancy co then None
      else let n = (if n > co_occupancy co - start then co_occupancy co - start else n)
           in Some (slice start n (co_mem co)))"

definition chat_order_append :: "ChatOrder \<Rightarrow> nat \<Rightarrow> bool \<times> ChatOrder" where
  "chat_order_append co hash_slot =
     (if co_occupancy co \<ge> CHAT_ORDER_ENTRIES then (False, co)
      else (True, co\<lparr>co_mem := (co_mem co)[co_occupancy co := hash_slot], co_occupancy := co_occupancy co + 1\<rparr>))"

definition chat_order_init :: "nat list \<Rightarrow> ChatOrder" where
  "chat_order_init co_memory = \<lparr>co_occupancy = 0, co_mem = co_memory\<rparr>"

subsection \<open>Rebuilding\<close>

record ChatOrderScratch =
  cos_timestamp_hi :: nat
  cos_timestamp_lo :: nat
  cos_hash_slot :: nat

definition cos_timestamp :: "ChatOrderScratch \<Rightarrow> nat" where
  "cos_timestamp a = cos_timestamp_hi a * 65536 + cos_timestamp_lo a"

definition chat_scratch_cmp :: "ChatOrderScratch \<Rightarrow> ChatOrderScratch \<Rightarrow> int" where
  "chat_scratch_cmp a b =
     (let ta = cos_timestamp a; tb = cos_timestamp b
      in if ta \<noteq> tb then (if ta > tb then -1 else 1) else int (cos_hash_slot a) - int (cos_hash_slot b))"

definition chat_scratch_sort :: "ChatOrderScratch list \<Rightarrow> nat \<Rightarrow> ChatOrderScratch list" where
  "chat_scratch_sort scratch n = snd (heap_sort (\<lambda>a b. Inr (chat_scratch_cmp a b)) scratch n)"

text \<open>The first loop of the build; \<open>latest\<close> is its local buffer, which a read of nothing leaves
  alone, and the scratch memory is the list of the entries written so far.\<close>

primrec chat_order_fill ::
    "'c Storage \<Rightarrow> 'c pers \<Rightarrow> HashEntry list \<Rightarrow> nat list \<Rightarrow> Message \<Rightarrow> ChatOrderScratch list \<Rightarrow> ChatOrderScratch list res" where
  "chat_order_fill S p ht [] latest scratch = Inr scratch"
| "chat_order_fill S p ht (slot # slots) latest scratch =
     (if he_state (ht ! slot) \<noteq> ENTRY_OCCUPIED \<or> he_latest_msg_extent (ht ! slot) = UINT16_MAX
      then chat_order_fill S p ht slots latest scratch
      else if length scratch \<ge> CHAT_ORDER_ENTRIES then Inl STRG_FULL
      else let (ret, out) = read_n_messages S p (he_latest_msg_extent (ht ! slot)) 0 1;
               latest = (if out = [] then latest else hd out)
           in if ret \<noteq> STRG_OK then Inl ret
              else chat_order_fill S p ht slots latest
                (scratch @ [\<lparr>cos_timestamp_hi = m_timestamp_hi latest, cos_timestamp_lo = m_timestamp_lo latest,
                             cos_hash_slot = slot\<rparr>]))"

definition chat_order_build ::
    "'c Storage \<Rightarrow> 'c pers \<Rightarrow> HashEntry list \<Rightarrow> nat list \<Rightarrow> Message \<Rightarrow> STRG_RET \<times> ChatOrder" where
  "chat_order_build S p ht co_memory latest =
     (case chat_order_fill S p ht [0..<HASH_TABLE_SIZE] latest [] of
        Inl ret \<Rightarrow> (ret, chat_order_init co_memory)
      | Inr scratch \<Rightarrow>
          let scratch = chat_scratch_sort scratch (length scratch)
          in (STRG_OK, foldl (\<lambda>co e. snd (chat_order_append co (cos_hash_slot e))) (chat_order_init co_memory) scratch))"

subsection \<open>The operations as list operations\<close>

definition co_chats :: "ChatOrder \<Rightarrow> nat list" where
  "co_chats co = take (co_occupancy co) (co_mem co)"

definition chat_order_ok :: "ChatOrder \<Rightarrow> bool" where
  "chat_order_ok co \<longleftrightarrow>
     length (co_mem co) = CHAT_ORDER_ENTRIES \<and> co_occupancy co \<le> CHAT_ORDER_ENTRIES \<and> distinct (co_chats co)"

lemma chat_order_okD:
  assumes "chat_order_ok co"
  shows "length (co_mem co) = CHAT_ORDER_ENTRIES" "co_occupancy co \<le> CHAT_ORDER_ENTRIES" "distinct (co_chats co)"
    "length (co_chats co) = co_occupancy co"
  using assms by (simp_all add: chat_order_ok_def co_chats_def)

lemma chat_order_find_eq:
  assumes "chat_order_ok co"
  shows "case chat_order_find co s of None \<Rightarrow> s \<notin> set (co_chats co)
    | Some r \<Rightarrow> r < co_occupancy co \<and> co_chats co ! r = s \<and> s \<in> set (co_chats co)"
proof -
  note co = chat_order_okD [OF assms]
  have loop: "chat_order_find_loop (co_mem co) s is = (if \<exists>i \<in> set is. co_mem co ! i = s then
      Some (hd (filter (\<lambda>i. co_mem co ! i = s) is)) else None)" for "is"
    by (induction "is") auto
  have mem: "s \<in> set (co_chats co) \<longleftrightarrow> (\<exists>i \<in> set [0..<co_occupancy co]. co_mem co ! i = s)"
    using co(1,2) unfolding co_chats_def in_set_conv_nth by auto
  show ?thesis
  proof (cases "s \<in> set (co_chats co)")
    case True
    then have ne: "filter (\<lambda>i. co_mem co ! i = s) [0..<co_occupancy co] \<noteq> []" unfolding mem by (simp add: filter_empty_conv)
    let ?r = "hd (filter (\<lambda>i. co_mem co ! i = s) [0..<co_occupancy co])"
    have "?r \<in> set (filter (\<lambda>i. co_mem co ! i = s) [0..<co_occupancy co])" using hd_in_set [OF ne] .
    then have "?r < co_occupancy co" "co_mem co ! ?r = s" by simp_all
    then show ?thesis using True mem loop [of "[0..<co_occupancy co]"] by (simp add: chat_order_find_def co_chats_def)
  next
    case False
    then show ?thesis using mem loop [of "[0..<co_occupancy co]"] by (simp add: chat_order_find_def)
  qed
qed

lemma move_to_front_chats:
  assumes "r < n" and "n \<le> length mem"
  shows "take n ((memmove 1 0 r mem)[0 := s]) = s # take r mem @ drop (Suc r) (take n mem)"
proof -
  have "memmove 1 0 r mem = take 1 mem @ take r mem @ drop (Suc r) mem"
    using assms by (simp add: memmove_def splice_def slice_def)
  moreover obtain x xs where "mem = x # xs" using assms by (cases mem) auto
  ultimately have "(memmove 1 0 r mem)[0 := s] = s # take r mem @ drop (Suc r) mem" by simp
  then show ?thesis using assms by (cases n) (simp_all add: drop_take)
qed


lemma chat_order_touch_sem:
  assumes ok: "chat_order_ok co" and room: "s \<in> set (co_chats co) \<or> co_occupancy co < CHAT_ORDER_ENTRIES"
  shows "\<exists>co'. chat_order_touch co s = (STRG_OK, co') \<and> chat_order_ok co' \<and> co_chats co' = s # filter (\<lambda>x. x \<noteq> s) (co_chats co)"
proof -
  note co = chat_order_okD [OF ok]
  show ?thesis
  proof (cases "chat_order_find co s")
    case None
    then have new: "s \<notin> set (co_chats co)" using chat_order_find_eq [OF ok, of s] by simp
    then have r: "co_occupancy co < CHAT_ORDER_ENTRIES" using room by blast
    let ?co = "move_to_front (co_occupancy co) s (co\<lparr>co_occupancy := co_occupancy co + 1\<rparr>)"
    have "co_chats ?co = s # co_chats co"
      using move_to_front_chats [of "co_occupancy co" "Suc (co_occupancy co)" "co_mem co" s] r co(1)
      by (simp add: co_chats_def move_to_front_def)
    moreover have "filter (\<lambda>x. x \<noteq> s) (co_chats co) = co_chats co" using new by (auto simp: filter_id_conv)
    moreover have "length (co_mem ?co) = CHAT_ORDER_ENTRIES" using r co(1) by (simp add: move_to_front_def)
    ultimately have "chat_order_ok ?co" "co_chats ?co = s # filter (\<lambda>x. x \<noteq> s) (co_chats co)"
      using r new co(3) by (simp_all add: chat_order_ok_def) (simp add: move_to_front_def)
    moreover have "chat_order_touch co s = (STRG_OK, ?co)" using None r by (simp add: chat_order_touch_def)
    ultimately show ?thesis by blast
  next
    case (Some r)
    then have f: "r < co_occupancy co" "co_chats co ! r = s" using chat_order_find_eq [OF ok, of s] by simp_all
    let ?co = "move_to_front r s co"
    have "take r (co_mem co) = take r (co_chats co)" using f(1) by (simp add: co_chats_def min_def)
    then have "co_chats ?co = s # take r (co_chats co) @ drop (Suc r) (co_chats co)"
      using move_to_front_chats [OF f(1), of "co_mem co" s] co(1,2) by (simp add: co_chats_def move_to_front_def)
    then have c: "co_chats ?co = s # filter (\<lambda>x. x \<noteq> s) (co_chats co)"
      using filter_out_nth [OF co(3), of r] f co(4) by simp
    have "length (co_mem ?co) = CHAT_ORDER_ENTRIES" using f(1) co(1,2) by (simp add: move_to_front_def)
    then have "chat_order_ok ?co" using co(2,3) c by (simp add: chat_order_ok_def) (simp add: move_to_front_def)
    moreover have "chat_order_touch co s = (STRG_OK, ?co)" using Some by (simp add: chat_order_touch_def)
    ultimately show ?thesis using c by blast
  qed
qed

lemma chat_order_remove_sem:
  assumes ok: "chat_order_ok co"
  shows "\<exists>r co'. chat_order_remove co s = (r, co') \<and> r = (if s \<in> set (co_chats co) then STRG_OK else STRG_EMPTY) \<and>
    chat_order_ok co' \<and> co_chats co' = filter (\<lambda>x. x \<noteq> s) (co_chats co)"
proof -
  note co = chat_order_okD [OF ok]
  show ?thesis
  proof (cases "chat_order_find co s")
    case None
    then have new: "s \<notin> set (co_chats co)" using chat_order_find_eq [OF ok, of s] by simp
    then have "filter (\<lambda>x. x \<noteq> s) (co_chats co) = co_chats co" by (auto simp: filter_id_conv)
    then show ?thesis using None new ok by (simp add: chat_order_remove_def)
  next
    case (Some r)
    then have f: "r < co_occupancy co" "co_chats co ! r = s" "s \<in> set (co_chats co)"
      using chat_order_find_eq [OF ok, of s] by simp_all
    let ?co = "co\<lparr>co_mem := memmove r (r + 1) (co_occupancy co - r - 1) (co_mem co), co_occupancy := co_occupancy co - 1\<rparr>"
    have "take r (co_mem co) = take r (co_chats co)" using f(1) by (simp add: co_chats_def min_def)
    then have c: "co_chats ?co = filter (\<lambda>x. x \<noteq> s) (co_chats co)"
      using memmove_delete [OF f(1), of "co_mem co"] co(1,2) filter_out_nth [OF co(3), of r] f co(4) by (simp add: co_chats_def)
    have "length (co_mem ?co) = CHAT_ORDER_ENTRIES" using f(1) co(1,2) by simp
    then have "chat_order_ok ?co" using co(2,3) c by (simp add: chat_order_ok_def)
    moreover have "chat_order_remove co s = (STRG_OK, ?co)" using Some by (simp add: chat_order_remove_def)
    ultimately show ?thesis using c f(3) by auto
  qed
qed

lemma chat_order_replace_sem:
  assumes ok: "chat_order_ok co" and new: "s' \<notin> set (co_chats co)"
  shows "\<exists>r co'. chat_order_replace co s s' = (r, co') \<and> chat_order_ok co' \<and>
    co_chats co' = map (\<lambda>x. if x = s then s' else x) (co_chats co)"
proof -
  note co = chat_order_okD [OF ok]
  show ?thesis
  proof (cases "chat_order_find co s")
    case None
    then have "s \<notin> set (co_chats co)" using chat_order_find_eq [OF ok, of s] by simp
    then have "map (\<lambda>x. if x = s then s' else x) (co_chats co) = co_chats co" by (auto intro: map_idI)
    then show ?thesis using None ok by (simp add: chat_order_replace_def)
  next
    case (Some r)
    then have f: "r < co_occupancy co" "co_chats co ! r = s" using chat_order_find_eq [OF ok, of s] by simp_all
    let ?co = "co\<lparr>co_mem := (co_mem co)[r := s']\<rparr>"
    have u: "co_chats ?co = (co_chats co)[r := s']" by (simp add: co_chats_def take_update_swap)
    also have "\<dots> = map (\<lambda>x. if x = s then s' else x) (co_chats co)"
      using f co(3,4) by (intro nth_equalityI) (auto simp: nth_list_update nth_eq_iff_index_eq)
    finally have c: "co_chats ?co = map (\<lambda>x. if x = s then s' else x) (co_chats co)" .
    have "distinct ((co_chats co)[r := s'])" by (rule distinct_list_update [OF co(3)]) (use new in blast)
    then have "chat_order_ok ?co" using co(1,2) u by (simp add: chat_order_ok_def)
    moreover have "chat_order_replace co s s' = (STRG_OK, ?co)" using Some by (simp add: chat_order_replace_def)
    ultimately show ?thesis using c by blast
  qed
qed


lemma chat_order_replace_same:
  assumes "chat_order_ok co"
  shows "\<exists>r. chat_order_replace co s s = (r, co)"
proof (cases "chat_order_find co s")
  case (Some r)
  then have "co_mem co ! r = s" using chat_order_find_eq [OF assms, of s] by (auto simp: co_chats_def)
  then have "co\<lparr>co_mem := (co_mem co)[r := s]\<rparr> = co" by (intro ChatOrder.equality) auto
  then show ?thesis using Some by (simp add: chat_order_replace_def)
qed (simp add: chat_order_replace_def)

lemma chat_order_get_range_sem:
  assumes "chat_order_ok co"
  shows "chat_order_get_range co start n =
    (if start < length (co_chats co) then Some (take n (drop start (co_chats co))) else None)"
proof -
  note co = chat_order_okD [OF assms]
  have "take k (drop start (co_mem co)) = take n (drop start (co_chats co))"
    if "k = (if n > co_occupancy co - start then co_occupancy co - start else n)" for k
    using that by (auto simp: co_chats_def drop_take min_def)
  then show ?thesis using co(4) by (auto simp: chat_order_get_range_def slice_def)
qed

subsection \<open>The rebuilt order\<close>

definition cos_key :: "ChatOrderScratch \<Rightarrow> int \<times> int" where
  "cos_key a = (- int (cos_timestamp a), int (cos_hash_slot a))"

interpretation chats: entry_order "\<lambda>a b. Inr (chat_scratch_cmp a b)" cos_key "\<lambda>_. True"
  by unfold_locales (auto simp: chat_scratch_cmp_def cos_key_def Let_def)

text \<open>The specification: newest time stamp first, ties by slot.\<close>

definition m_timestamp :: "Message \<Rightarrow> nat" where
  "m_timestamp m = m_timestamp_hi m * 65536 + m_timestamp_lo m"

definition newest :: "(nat \<Rightarrow> byte list) \<Rightarrow> HashTable \<Rightarrow> nat \<Rightarrow> Message" where
  "newest blk t i = hd (chat_msgs blk (chain blk t i))"

definition recency_key :: "(nat \<Rightarrow> byte list) \<Rightarrow> HashTable \<Rightarrow> nat \<Rightarrow> int \<times> int" where
  "recency_key blk t i = (- int (m_timestamp (newest blk t i)), int i)"

definition chat_slots :: "HashTable \<Rightarrow> nat list" where
  "chat_slots t = filter (\<lambda>i. he_latest_msg_extent (entry_at t i) \<noteq> UINT16_MAX) (occupied_slots t)"

definition recency_order :: "(nat \<Rightarrow> byte list) \<Rightarrow> HashTable \<Rightarrow> nat list" where
  "recency_order blk t = sort_key (recency_key blk t) (chat_slots t)"

definition scratch_entry :: "(nat \<Rightarrow> byte list) \<Rightarrow> HashTable \<Rightarrow> nat \<Rightarrow> ChatOrderScratch" where
  "scratch_entry blk t i =
     \<lparr>cos_timestamp_hi = m_timestamp_hi (newest blk t i), cos_timestamp_lo = m_timestamp_lo (newest blk t i), cos_hash_slot = i\<rparr>"

lemma append_all:
  assumes "chat_order_ok co" and "length es + co_occupancy co \<le> CHAT_ORDER_ENTRIES"
  shows "length (co_mem (foldl (\<lambda>co e. snd (chat_order_append co (cos_hash_slot e))) co es)) = CHAT_ORDER_ENTRIES \<and>
    co_occupancy (foldl (\<lambda>co e. snd (chat_order_append co (cos_hash_slot e))) co es) = length es + co_occupancy co \<and>
    co_chats (foldl (\<lambda>co e. snd (chat_order_append co (cos_hash_slot e))) co es) = co_chats co @ map cos_hash_slot es"
proof -
  have "length (co_mem co) = CHAT_ORDER_ENTRIES" using assms(1) by (rule chat_order_okD)
  then show ?thesis using assms(2)
  proof (induction es arbitrary: co)
    case (Cons e es)
    let ?co = "snd (chat_order_append co (cos_hash_slot e))"
    have r: "co_occupancy co < length (co_mem co)" using Cons.prems by simp
    then have "co_chats ?co = co_chats co @ [cos_hash_slot e]" "co_occupancy ?co = Suc (co_occupancy co)"
        "length (co_mem ?co) = CHAT_ORDER_ENTRIES"
      using Cons.prems by (simp_all add: chat_order_append_def co_chats_def take_Suc_conv_app_nth)
    then show ?case using Cons.IH [of ?co] Cons.prems by simp
  qed simp
qed

context reliable_store begin

lemma newest_read:
  assumes p: "pers_ok S ok blk p" and mok: "messages_ok (blk (dev p)) (usage_bitmap p) t" and i: "i \<in> set (chat_slots t)"
    and ne: "chat_msgs (blk (dev p)) (chain (blk (dev p)) t i) \<noteq> []"
  shows "read_n_messages S p (he_latest_msg_extent (entry_at t i)) 0 1 = (STRG_OK, [newest (blk (dev p)) t i])"
proof -
  have o: "i \<in> set (occupied_slots t)" using i by (simp add: chat_slots_def)
  note c = messages_okD(4) [OF mok o]
  have n: "chain (blk (dev p)) t i \<noteq> []" using ne by auto
  have "take 1 ms = [hd ms]" if "ms \<noteq> []" for ms :: "Message list" using that by (cases ms) simp_all
  then show ?thesis using read_n_messages_chat [OF p c chat_length [OF c], of 0 1] n ne by (simp add: newest_def)
qed

lemma chat_order_fill_sem:
  assumes p: "pers_ok S ok blk p" and mok: "messages_ok (blk (dev p)) (usage_bitmap p) t"
    and ne: "\<And>i. i \<in> set (chat_slots t) \<Longrightarrow> chat_msgs (blk (dev p)) (chain (blk (dev p)) t i) \<noteq> []"
    and room: "length (chat_slots t) \<le> CHAT_ORDER_ENTRIES" and sz: "ht_size t = HASH_TABLE_SIZE"
  shows "chat_order_fill S p (ht_htable t) [0..<HASH_TABLE_SIZE] latest [] = Inr (map (scratch_entry (blk (dev p)) t) (chat_slots t))"
proof -
  let ?P = "\<lambda>i. he_state (entry_at t i) = ENTRY_OCCUPIED \<and> he_latest_msg_extent (entry_at t i) \<noteq> UINT16_MAX"
  have "chat_order_fill S p (ht_htable t) slots latest scratch =
      Inr (scratch @ map (scratch_entry (blk (dev p)) t) (filter ?P slots))"
    if "set slots \<subseteq> {..<HASH_TABLE_SIZE}" "length scratch + length (filter ?P slots) \<le> CHAT_ORDER_ENTRIES" for slots latest scratch
    using that
  proof (induction slots arbitrary: latest scratch)
    case (Cons i slots)
    show ?case
    proof (cases "?P i")
      case True
      then have i: "i \<in> set (chat_slots t)" using Cons.prems(1) sz by (simp add: chat_slots_def set_occupied_slots)
      note r = newest_read [OF p mok i ne [OF i]]
      show ?thesis using True Cons.prems r Cons.IH by (simp add: scratch_entry_def Let_def)
    qed (use Cons in auto)
  qed simp
  note all = this [of "[0..<HASH_TABLE_SIZE]" "[]" latest]
  have f: "filter ?P [0..<HASH_TABLE_SIZE] = chat_slots t" by (simp add: chat_slots_def occupied_slots_def sz conj_commute)
  show ?thesis using all room unfolding f by (simp add: atLeast_upt)
qed

lemma chat_order_build_sem:
  assumes p: "pers_ok S ok blk p" and mok: "messages_ok (blk (dev p)) (usage_bitmap p) t"
    and ne: "\<And>i. i \<in> set (chat_slots t) \<Longrightarrow> chat_msgs (blk (dev p)) (chain (blk (dev p)) t i) \<noteq> []"
    and room: "length (chat_slots t) \<le> CHAT_ORDER_ENTRIES" and sz: "ht_size t = HASH_TABLE_SIZE"
    and m: "length co_memory = CHAT_ORDER_ENTRIES"
  shows "\<exists>co. chat_order_build S p (ht_htable t) co_memory latest = (STRG_OK, co) \<and> chat_order_ok co \<and>
    co_chats co = recency_order (blk (dev p)) t"
proof -
  let ?blk = "blk (dev p)"
  let ?es = "map (scratch_entry ?blk t) (chat_slots t)"
  have slot: "cos_hash_slot (scratch_entry ?blk t i) = i" "cos_key (scratch_entry ?blk t i) = recency_key ?blk t i" for i
    by (simp_all add: scratch_entry_def cos_key_def recency_key_def cos_timestamp_def m_timestamp_def)
  obtain es where h: "heap_sort (\<lambda>a b. Inr (chat_scratch_cmp a b)) ?es (length ?es) = (STRG_OK, es)"
      "sorted (map cos_key (take (length ?es) es))" "permuted (length ?es) ?es es"
    using chats.heap_sort_sorts [of "length ?es" ?es] by auto
  have len: "length es = length ?es" by (rule permuted_length [OF h(3)])
  have ms: "mset es = mset ?es" using h(3) len by (simp add: permuted_def)
  have dis: "distinct (chat_slots t)" using sorted_occupied_slots(2) by (simp add: chat_slots_def)
  have "mset (map cos_hash_slot es) = mset (map cos_hash_slot ?es)" unfolding mset_map [of cos_hash_slot] ms ..
  also have "map cos_hash_slot ?es = chat_slots t" by (simp add: slot comp_def)
  finally have mslots: "mset (map cos_hash_slot es) = mset (chat_slots t)" .
  have "recency_key ?blk t (cos_hash_slot e) = cos_key e" if "e \<in> set es" for e
  proof -
    have "e \<in> set ?es" using that ms by (metis set_mset_mset)
    then show ?thesis using slot by auto
  qed
  then have "map (recency_key ?blk t) (map cos_hash_slot es) = map cos_key es" by simp
  moreover have "sorted (map cos_key es)" using h(2) len by simp
  ultimately have "sorted (map (recency_key ?blk t) (map cos_hash_slot es))" by (simp only:)
  moreover have "inj_on (recency_key ?blk t) (set (chat_slots t))" by (simp add: inj_on_def recency_key_def)
  ultimately have ro: "map cos_hash_slot es = recency_order ?blk t"
    unfolding recency_order_def using sort_key_unique mslots by blast
  let ?co = "foldl (\<lambda>co e. snd (chat_order_append co (cos_hash_slot e))) (chat_order_init co_memory) es"
  have "chat_order_ok (chat_order_init co_memory)" "co_chats (chat_order_init co_memory) = []"
    using m by (simp_all add: chat_order_ok_def chat_order_init_def co_chats_def)
  with append_all [of "chat_order_init co_memory" es] have a: "length (co_mem ?co) = CHAT_ORDER_ENTRIES"
      "co_occupancy ?co = length es" "co_chats ?co = map cos_hash_slot es"
    using len room by (simp_all add: chat_order_init_def)
  have "distinct (map cos_hash_slot es)" using dis mslots by (metis mset_eq_imp_distinct_iff)
  then have "chat_order_ok ?co" using a len room by (simp add: chat_order_ok_def)
  moreover have "chat_order_fill S p (ht_htable t) [0..<HASH_TABLE_SIZE] latest [] = Inr ?es"
    by (rule chat_order_fill_sem [OF p mok _ room sz]) (rule ne)
  then have "chat_order_build S p (ht_htable t) co_memory latest = (STRG_OK, ?co)"
    using h(1) by (simp add: chat_order_build_def chat_scratch_sort_def Let_def)
  ultimately show ?thesis using a(3) ro by auto
qed

end

end
