(* ===== verification/Database.thy ===== *)
theory Database
  imports Sorted_Array Chat_Order Superheader History
begin

text \<open>
  The public interface: \<^verbatim>\<open>source/app/src/database.c\<close>, which composes the phone number
  index, the name index, the chat order and the two histories over one storage.

  The static arrays of the file are the arrays inside the component records (\<^verbatim>\<open>htable_mem\<close> is
  \<open>ht_htable\<close>, \<^verbatim>\<open>sa_mem\<close> is \<open>sa_mem\<close>, and so on), the storage and the journal of the
  struct are the fields of \<open>db_pers\<close>, and so is the global usage bitmap.  A string is its bytes before the
  NUL; pointers are not null.  \<open>None\<close>: the call does not return.
\<close>

record 'c Database =
  db_pers :: "'c pers"
  db_htable :: HashTable
  db_message_history :: RingBuffer
  db_call_history :: RingBuffer
  db_name_index :: SortedArray
  db_chat_order :: ChatOrder

record ChatSummary =
  csum_contact :: Contact
  csum_latest :: "Message option"

subsection \<open>Arguments\<close>

definition valid_str :: "byte list \<Rightarrow> nat \<Rightarrow> bool" where
  "valid_str s max_len \<longleftrightarrow> min (length s) (max_len + 1) \<le> max_len"

definition valid_phone :: "byte list \<Rightarrow> bool" where
  "valid_phone phone \<longleftrightarrow> valid_str phone (MAX_PHONE_LEN - 1) \<and> phone \<noteq> []"

definition find_occupied :: "'c Storage \<Rightarrow> 'c Database \<Rightarrow> byte list \<Rightarrow> nat res" where
  "find_occupied S db phone =
     (case hash_find_entry S (db_pers db) (db_htable db) phone of
        None \<Rightarrow> Inl STRG_EMPTY
      | Some entry \<Rightarrow> if he_state (entry_at (db_htable db) entry) \<noteq> ENTRY_OCCUPIED then Inl STRG_EMPTY else Inr entry)"

subsection \<open>Bring-up\<close>

definition db_history_init :: "'c Storage \<Rightarrow> 'c Database \<Rightarrow> STRG_RET \<times> 'c Database" where
  "db_history_init S db =
     (let (r, rb) = init_ring_buffer S (dev (db_pers db)) (db_message_history db) TOTAL_MESSAGE_HISTORY_SECTOR_SIZE
                      (DATA_SECTOR_TO_RAW MESSAGE_HISTORY_DATA_START_SECTOR);
          db = db\<lparr>db_message_history := rb\<rparr>
      in if \<not> r then (STRG_FAIL, db)
         else let (r, rb) = init_ring_buffer S (dev (db_pers db)) (db_call_history db) TOTAL_CALL_HISTORY_SECTOR_SIZE
                              (DATA_SECTOR_TO_RAW CALL_HISTORY_DATA_START_SECTOR);
                  db = db\<lparr>db_call_history := rb\<rparr>
              in if \<not> r then (STRG_FAIL, db) else (STRG_OK, db))"

definition journal_cleared :: Journal where
  "journal_cleared = \<lparr>j_header = journal_header_zero, j_content = replicate SECTOR_SIZE 0,
     j_usage_bitmap_sector = replicate SECTOR_SIZE 0\<rparr>"

definition entries_cleared :: "HashEntry list" where
  "entries_cleared = replicate HASH_TABLE_SIZE hash_entry_zero"

text \<open>\<open>latest\<close> is what the local message of \<^verbatim>\<open>chat_order_build\<close> holds.  The chat order
  uses \<^verbatim>\<open>sa_mem\<close> as scratch, whose contents the name index then overwrites or never reads.\<close>

definition database_mount :: "'c Storage \<Rightarrow> Message \<Rightarrow> 'c Database \<Rightarrow> STRG_RET \<times> 'c Database" where
  "database_mount S latest db =
     (let (r, j, d) = journal_init S (dev (db_pers db)) journal_cleared;
          db = db\<lparr>db_pers := (db_pers db)\<lparr>dev := d, journal := j\<rparr>\<rparr>
      in if \<not> r then (STRG_FAIL, db)
      else let t = db_htable db
      in case free_list_empty_init (free_stack (ht_contact_allocator t)) HASH_TABLE_ENTRIES of
        None \<Rightarrow> (STRG_FAIL, db)
      | Some ca \<Rightarrow> (case free_list_empty_init (free_stack (ht_message_allocator t)) TOTAL_MESSAGE_SECTOR_SIZE of
        None \<Rightarrow> (STRG_FAIL, db)
      | Some ma \<Rightarrow>
          let t = hash_init ca ma entries_cleared HASH_TABLE_SIZE (ht_stale t);
              db = db\<lparr>db_htable := t\<rparr>;
              (r, bm) = read_usage_bitmap S (dev (db_pers db)) (usage_bitmap (db_pers db));
              db = db\<lparr>db_pers := (db_pers db)\<lparr>usage_bitmap := bm\<rparr>\<rparr>
          in if \<not> r then (STRG_FAIL, db)
          else let (r, t) = hash_reconstruct_contact S (db_pers db) t; db = db\<lparr>db_htable := t\<rparr>
          in if \<not> r then (STRG_FAIL, db)
          else let (r, t, p) = hash_reconstruct_message S (db_pers db) t; db = db\<lparr>db_htable := t, db_pers := p\<rparr>
          in if \<not> r then (STRG_FAIL, db)
          else let (ret, co) = chat_order_build S p (ht_htable t) (co_mem (db_chat_order db)) latest;
                   db = db\<lparr>db_chat_order := co\<rparr>
          in if ret \<noteq> STRG_OK then (ret, db)
          else let (ret, sa) = sorted_array_build S p (ht_htable t) (sa_mem (db_name_index db)); db = db\<lparr>db_name_index := sa\<rparr>
          in if ret \<noteq> STRG_OK then (ret, db)
          else db_history_init S db))"

definition database_format :: "'c Storage \<Rightarrow> 'c Database \<Rightarrow> (STRG_RET \<times> 'c Database) option" where
  "database_format S db =
     (let p = db_pers db;
          (r, d) = journal_header_init S (dev p);
          p = p\<lparr>dev := d, journal := journal_cleared\<rparr>
      in if \<not> r then Some (STRG_FAIL, db\<lparr>db_pers := p\<rparr>)
      else let (r, d, bm) = init_usage_bitmap S d; p = p\<lparr>dev := d, usage_bitmap := bm\<rparr>
      in if \<not> r then Some (STRG_FAIL, db\<lparr>db_pers := p\<rparr>)
      else let (ret, d) = clear_ring_buffer S d (DATA_SECTOR_TO_RAW MESSAGE_HISTORY_DATA_START_SECTOR) TOTAL_MESSAGE_HISTORY_SECTOR_SIZE;
               p = p\<lparr>dev := d\<rparr>
      in if ret \<noteq> STRG_OK then Some (ret, db\<lparr>db_pers := p\<rparr>)
      else let (ret, d) = clear_ring_buffer S d (DATA_SECTOR_TO_RAW CALL_HISTORY_DATA_START_SECTOR) TOTAL_CALL_HISTORY_SECTOR_SIZE;
               p = p\<lparr>dev := d\<rparr>
      in if ret \<noteq> STRG_OK then Some (ret, db\<lparr>db_pers := p\<rparr>)
      else let (ret, _, d) = superheader_init S d; p = p\<lparr>dev := d\<rparr>; db = db\<lparr>db_pers := p\<rparr>
      in if ret \<noteq> STRG_OK then Some (ret, db)
      else case free_list_init (free_stack (ht_contact_allocator (db_htable db))) HASH_TABLE_ENTRIES of
        None \<Rightarrow> None
      | Some (_, None) \<Rightarrow> Some (STRG_FAIL, db)
      | Some (_, Some ca) \<Rightarrow> (case free_list_init (free_stack (ht_message_allocator (db_htable db))) TOTAL_MESSAGE_SECTOR_SIZE of
        None \<Rightarrow> None
      | Some (_, None) \<Rightarrow> Some (STRG_FAIL, db)
      | Some (_, Some ma) \<Rightarrow>
          Some (db_history_init S
            (db\<lparr>db_htable := hash_init ca ma entries_cleared HASH_TABLE_SIZE (ht_stale (db_htable db)),
                db_name_index := sorted_array_init (sa_mem (db_name_index db)),
                db_chat_order := chat_order_init (co_mem (db_chat_order db))\<rparr>))))"

text \<open>\<open>storage\<close> is the device the driver's start-up call hands back, \<open>None\<close> when it fails; the
  struct is cleared, the static arrays and the bitmap are not.\<close>

definition database_cleared :: "'c \<Rightarrow> 'c Database \<Rightarrow> 'c Database" where
  "database_cleared d db =
     (let ring = \<lparr>rb_seq = 0, rb_size = 0, rb_current_index = 0, rb_occupancy = 0\<rparr>
      in db\<lparr>db_pers := (db_pers db)\<lparr>dev := d, journal := journal_cleared\<rparr>,
            db_htable := (db_htable db)\<lparr>ht_num_elems := 0, ht_size := 0\<rparr>,
            db_message_history := ring, db_call_history := ring,
            db_name_index := (db_name_index db)\<lparr>sa_occupancy := 0\<rparr>, db_chat_order := (db_chat_order db)\<lparr>co_occupancy := 0\<rparr>\<rparr>)"

definition database_init ::
    "'c Storage \<Rightarrow> 'c option \<Rightarrow> SuperHeader \<Rightarrow> Message \<Rightarrow> 'c Database \<Rightarrow> (STRG_RET \<times> 'c Database) option" where
  "database_init S storage superheader latest db =
     (case storage of
        None \<Rightarrow> Some (STRG_FAIL, db)
      | Some d \<Rightarrow>
          let db = database_cleared d db
          in case fst (superheader_check S d superheader) of
               SUPR_GOOD \<Rightarrow> Some (database_mount S latest db)
             | SUPR_UNINITIALISED \<Rightarrow> database_format S db
             | SUPR_CORRUPTED \<Rightarrow> Some (STRG_CORRUPT, db)
             | SUPR_OUTDATED \<Rightarrow> Some (STRG_CORRUPT, db)
             | SUPR_FAIL \<Rightarrow> Some (STRG_FAIL, db))"


subsection \<open>Contacts\<close>

definition database_contact_add ::
    "'c Storage \<Rightarrow> 'c Database \<Rightarrow> byte list \<Rightarrow> byte list \<Rightarrow> STRG_RET \<times> 'c Database" where
  "database_contact_add S db name phone =
     (if \<not> valid_str name MAX_NAME_LEN \<or> \<not> valid_phone phone then (STRG_FAIL, db)
      else let contact = create_contact name phone;
               (ret, slot, t, p) = hash_insert_contact S (db_pers db) (db_htable db) contact;
               db = db\<lparr>db_htable := t, db_pers := p\<rparr>
      in if ret \<noteq> STRG_OK then (ret, db)
      else let (ret, sa) = sorted_array_insert S p (ht_htable t) (db_name_index db) contact (the slot);
               db = db\<lparr>db_name_index := sa\<rparr>
      in if ret \<noteq> STRG_OK then
           let (_, _, t, p) = hash_remove_contact S p t phone in (ret, db\<lparr>db_htable := t, db_pers := p\<rparr>)
         else (ret, db))"

definition database_contact_get :: "'c Storage \<Rightarrow> 'c Database \<Rightarrow> byte list \<Rightarrow> Contact res" where
  "database_contact_get S db phone =
     (if \<not> valid_phone phone then Inl STRG_FAIL
      else case find_occupied S db phone of
        Inl ret \<Rightarrow> Inl ret
      | Inr entry \<Rightarrow> read_contact S (db_pers db) (he_sector (entry_at (db_htable db) entry)))"

definition database_contact_update ::
    "'c Storage \<Rightarrow> 'c Database \<Rightarrow> byte list \<Rightarrow> byte list \<Rightarrow> byte list \<Rightarrow> STRG_RET \<times> 'c Database" where
  "database_contact_update S db phone new_name new_phone =
     (if \<not> valid_phone phone \<or> \<not> valid_str new_name MAX_NAME_LEN \<or> \<not> valid_phone new_phone then (STRG_FAIL, db)
      else case find_occupied S db phone of
        Inl ret \<Rightarrow> (ret, db)
      | Inr entry \<Rightarrow>
          let old_slot = hash_slot_of (db_htable db) entry
          in case read_contact S (db_pers db) (he_sector (entry_at (db_htable db) entry)) of
            Inl ret \<Rightarrow> (ret, db)
          | Inr old_contact \<Rightarrow>
              let new_contact = create_contact new_name new_phone;
                  (ret, sa) = sorted_array_remove S (db_pers db) (ht_htable (db_htable db)) (db_name_index db) old_contact;
                  db = db\<lparr>db_name_index := sa\<rparr>
              in if ret \<noteq> STRG_OK then (ret, db)
              else let (ret, t, p) = hash_update_contact S (db_pers db) (db_htable db) old_contact new_contact;
                       db = db\<lparr>db_htable := t, db_pers := p\<rparr>
              in if ret \<noteq> STRG_OK then
                   let (_, sa) = sorted_array_insert S p (ht_htable t) (db_name_index db) old_contact old_slot
                   in (ret, db\<lparr>db_name_index := sa\<rparr>)
              else case find_occupied S db new_phone of
                Inl _ \<Rightarrow> (STRG_FAIL, db)
              | Inr entry \<Rightarrow>
                  let (_, co) = chat_order_replace (db_chat_order db) old_slot (hash_slot_of t entry);
                      (ret, sa) = sorted_array_insert S p (ht_htable t) (db_name_index db) new_contact (hash_slot_of t entry)
                  in (ret, db\<lparr>db_chat_order := co, db_name_index := sa\<rparr>))"

definition database_contact_remove ::
    "'c Storage \<Rightarrow> 'c Database \<Rightarrow> byte list \<Rightarrow> (STRG_RET \<times> 'c Database) option" where
  "database_contact_remove S db phone =
     (if \<not> valid_phone phone then Some (STRG_FAIL, db)
      else case find_occupied S db phone of
        Inl ret \<Rightarrow> Some (ret, db)
      | Inr entry \<Rightarrow>
          let slot = hash_slot_of (db_htable db) entry
          in case read_contact S (db_pers db) (he_sector (entry_at (db_htable db) entry)) of
            Inl ret \<Rightarrow> Some (ret, db)
          | Inr contact \<Rightarrow>
              let (ret, sa) = sorted_array_remove S (db_pers db) (ht_htable (db_htable db)) (db_name_index db) contact;
                  db = db\<lparr>db_name_index := sa\<rparr>
              in if ret \<noteq> STRG_OK then Some (ret, db)
              else case hash_remove S (db_pers db) (db_htable db) phone of
                None \<Rightarrow> None
              | Some (removed, _, t, p) \<Rightarrow>
                  let db = db\<lparr>db_htable := t, db_pers := p\<rparr>
                  in if \<not> removed then
                       let (_, sa) = sorted_array_insert S p (ht_htable t) (db_name_index db) contact slot
                       in Some (STRG_FAIL, db\<lparr>db_name_index := sa\<rparr>)
                     else let (_, co) = chat_order_remove (db_chat_order db) slot in Some (STRG_OK, db\<lparr>db_chat_order := co\<rparr>))"

text \<open>The rows read out so far, \<^verbatim>\<open>*out_count\<close> of them.\<close>

primrec contact_rows :: "'c Storage \<Rightarrow> 'c Database \<Rightarrow> nat \<Rightarrow> nat \<Rightarrow> Contact list \<Rightarrow> STRG_RET \<times> Contact list" where
  "contact_rows S db rank 0 out = (STRG_OK, out)"
| "contact_rows S db rank (Suc n) out =
     (case sorted_array_get_range (db_name_index db) rank 1 of
        None \<Rightarrow> (STRG_OK, out)
      | Some entries \<Rightarrow>
          (case read_contact S (db_pers db) (he_sector (entry_at (db_htable db) (se_hash_slot (hd entries)))) of
             Inl ret \<Rightarrow> (ret, out)
           | Inr c \<Rightarrow> contact_rows S db (rank + 1) n (out @ [c])))"

definition database_contact_list :: "'c Storage \<Rightarrow> 'c Database \<Rightarrow> nat \<Rightarrow> nat \<Rightarrow> STRG_RET \<times> Contact list" where
  "database_contact_list S db start n =
     (if start \<ge> sa_occupancy (db_name_index db) then (STRG_EMPTY, []) else contact_rows S db start n [])"

definition database_contact_seek :: "'c Storage \<Rightarrow> 'c Database \<Rightarrow> byte list \<Rightarrow> nat res" where
  "database_contact_seek S db prefix =
     (if \<not> valid_str prefix MAX_NAME_LEN then Inl STRG_FAIL
      else sorted_array_seek S (db_pers db) (ht_htable (db_htable db)) (db_name_index db) prefix)"

definition database_contact_count :: "'c Database \<Rightarrow> nat" where
  "database_contact_count db = hash_size (db_htable db)"

subsection \<open>Messages and chats\<close>

definition database_message_add ::
    "'c Storage \<Rightarrow> 'c Database \<Rightarrow> byte list \<Rightarrow> nat \<Rightarrow> bool \<Rightarrow> byte list \<Rightarrow> (STRG_RET \<times> 'c Database) option" where
  "database_message_add S db phone timestamp direction str =
     (if \<not> valid_phone phone \<or> timestamp = 0 then Some (STRG_FAIL, db)
      else let is_new_contact = (case find_occupied S db phone of Inl _ \<Rightarrow> True | Inr _ \<Rightarrow> False);
               message = create_message timestamp direction (Some str);
               (inserted, t, p) = hash_insert_message S (db_pers db) (db_htable db) phone message;
               db = db\<lparr>db_htable := t, db_pers := p\<rparr>
      in if \<not> inserted then Some (STRG_FAIL, db)
      else case find_occupied S db phone of
        Inl _ \<Rightarrow> Some (STRG_FAIL, db)
      | Inr entry \<Rightarrow>
          let (ret, sa) = (if is_new_contact
                           then sorted_array_insert S p (ht_htable t) (db_name_index db) (create_contact [] phone) (hash_slot_of t entry)
                           else (STRG_OK, db_name_index db));
              db = db\<lparr>db_name_index := sa\<rparr>
          in if ret \<noteq> STRG_OK then Some (ret, db)
          else let (ret, co) = chat_order_touch (db_chat_order db) (hash_slot_of t entry); db = db\<lparr>db_chat_order := co\<rparr>
          in if ret \<noteq> STRG_OK then Some (ret, db)
          else map_option (\<lambda>(ret, rb, p). (ret, db\<lparr>db_message_history := rb, db_pers := p\<rparr>))
                 (message_history_add S p (db_message_history db)
                    \<lparr>mh_msgInd = he_latest_msg_extent (entry_at t entry), mh_message = message\<rparr>))"

definition database_message_get_chat ::
    "'c Storage \<Rightarrow> 'c Database \<Rightarrow> byte list \<Rightarrow> nat \<Rightarrow> nat \<Rightarrow> STRG_RET \<times> Message list" where
  "database_message_get_chat S db phone start n =
     (if \<not> valid_phone phone then (STRG_FAIL, [])
      else case find_occupied S db phone of
        Inl ret \<Rightarrow> (ret, [])
      | Inr entry \<Rightarrow>
          if he_latest_msg_extent (entry_at (db_htable db) entry) = UINT16_MAX then (STRG_EMPTY, [])
          else read_n_messages S (db_pers db) (he_latest_msg_extent (entry_at (db_htable db) entry)) start n)"

definition database_message_remove_chat ::
    "'c Storage \<Rightarrow> 'c Database \<Rightarrow> byte list \<Rightarrow> (STRG_RET \<times> 'c Database) option" where
  "database_message_remove_chat S db phone =
     (if \<not> valid_phone phone then Some (STRG_FAIL, db)
      else case find_occupied S db phone of
        Inl ret \<Rightarrow> Some (ret, db)
      | Inr entry \<Rightarrow>
          if he_latest_msg_extent (entry_at (db_htable db) entry) = UINT16_MAX then Some (STRG_EMPTY, db)
          else case hash_remove_message S (db_pers db) (db_htable db) phone of
            None \<Rightarrow> None
          | Some (removed, t, p) \<Rightarrow>
              let db = db\<lparr>db_htable := t, db_pers := p\<rparr>
              in if \<not> removed then Some (STRG_FAIL, db)
                 else let (_, co) = chat_order_remove (db_chat_order db) (hash_slot_of t entry)
                      in Some (STRG_OK, db\<lparr>db_chat_order := co\<rparr>))"

definition database_message_recent ::
    "'c Storage \<Rightarrow> 'c Database \<Rightarrow> nat \<Rightarrow> nat \<Rightarrow> STRG_RET \<times> MessageHistoryEntry list" where
  "database_message_recent S db start n = message_history_get_range S (dev (db_pers db)) (db_message_history db) start n"

primrec chat_rows :: "'c Storage \<Rightarrow> 'c Database \<Rightarrow> nat \<Rightarrow> nat \<Rightarrow> ChatSummary list \<Rightarrow> STRG_RET \<times> ChatSummary list" where
  "chat_rows S db rank 0 out = (STRG_OK, out)"
| "chat_rows S db rank (Suc n) out =
     (case chat_order_get_range (db_chat_order db) rank 1 of
        None \<Rightarrow> (STRG_OK, out)
      | Some slots \<Rightarrow>
          let entry = entry_at (db_htable db) (hd slots)
          in case read_contact S (db_pers db) (he_sector entry) of
             Inl ret \<Rightarrow> (ret, out)
           | Inr c \<Rightarrow>
               (case read_n_messages S (db_pers db) (he_latest_msg_extent entry) 0 1 of
                  (ret, latest) \<Rightarrow>
                    if ret \<noteq> STRG_OK then (ret, out)
                    else chat_rows S db (rank + 1) n
                           (out @ [\<lparr>csum_contact = c, csum_latest = (if latest = [] then None else Some (hd latest))\<rparr>])))"

definition database_chat_list :: "'c Storage \<Rightarrow> 'c Database \<Rightarrow> nat \<Rightarrow> nat \<Rightarrow> STRG_RET \<times> ChatSummary list" where
  "database_chat_list S db start n =
     (if start \<ge> co_occupancy (db_chat_order db) then (STRG_EMPTY, []) else chat_rows S db start n [])"

definition database_chat_count :: "'c Database \<Rightarrow> nat" where
  "database_chat_count db = co_occupancy (db_chat_order db)"

subsection \<open>Calls\<close>

definition database_call_add :: "'c Storage \<Rightarrow> 'c Database \<Rightarrow> byte list \<Rightarrow> (STRG_RET \<times> 'c Database) option" where
  "database_call_add S db phone =
     (if \<not> valid_phone phone then Some (STRG_FAIL, db)
      else let call = (case find_occupied S db phone of
                 Inr entry \<Rightarrow>
                   (case read_contact S (db_pers db) (he_sector (entry_at (db_htable db) entry)) of
                      Inl ret \<Rightarrow> Inl ret
                    | Inr contact \<Rightarrow> Inr \<lparr>ch_contact_index = he_sector (entry_at (db_htable db) entry),
                                         ch_contact = contact, ch_padding = 0\<rparr>)
               | Inl _ \<Rightarrow> Inr \<lparr>ch_contact_index = UINT16_MAX, ch_contact = create_contact [] phone, ch_padding = 0\<rparr>)
           in case call of
                Inl ret \<Rightarrow> Some (ret, db)
              | Inr call \<Rightarrow>
                  map_option (\<lambda>(ret, rb, p). (ret, db\<lparr>db_call_history := rb, db_pers := p\<rparr>))
                    (call_history_add S (db_pers db) (db_call_history db) call))"

definition database_call_recent ::
    "'c Storage \<Rightarrow> 'c Database \<Rightarrow> nat \<Rightarrow> nat \<Rightarrow> STRG_RET \<times> CallHistoryEntry list" where
  "database_call_recent S db start n = call_history_get_range S (dev (db_pers db)) (db_call_history db) start n"

end
