(* ===== verification/Directory.thy ===== *)
theory Directory
  imports Database
begin

text \<open>
  What \<^verbatim>\<open>database.h\<close> promises, without the card: a phone directory is a map of contacts, a map of
  chats, the order of the chats and two logs.  Every call of the interface is one function on it.

  \<^item> \<open>dir_book\<close>: the contact of each phone number; \<open>dir_chats\<close>: its messages, newest first, for the same numbers.
  \<^item> \<open>dir_recent\<close>: the numbers whose chat is not empty.  A message moves its number to the front, a restart sorts
    them by the time stamp of their newest message.
  \<^item> \<open>dir_messages\<close> and \<open>dir_calls\<close>: the logs, newest first.  A log that has come round drops its
    oldest sector; \<open>lost\<close> is how many entries that is.
\<close>

record Directory =
  dir_book :: "byte list \<Rightarrow> Contact option"
  dir_chats :: "byte list \<Rightarrow> Message list option"
  dir_recent :: "byte list list"
  dir_messages :: "Message list"
  dir_calls :: "Contact list"

text \<open>\<open>phone_arg\<close> and \<open>name_arg\<close>: what \<^verbatim>\<open>valid_phone\<close> and \<^verbatim>\<open>valid_str\<close> accept, of a C string.\<close>

definition phone_arg :: "byte list \<Rightarrow> bool" where
  "phone_arg phone \<longleftrightarrow> phone \<noteq> [] \<and> length phone < MAX_PHONE_LEN \<and> 0 \<notin> set phone"

definition name_arg :: "byte list \<Rightarrow> bool" where
  "name_arg name \<longleftrightarrow> length name \<le> MAX_NAME_LEN \<and> 0 \<notin> set name"

definition dir_contact_add :: "byte list \<Rightarrow> byte list \<Rightarrow> Directory \<Rightarrow> STRG_RET \<times> Directory" where
  "dir_contact_add name phone D =
     (if \<not> name_arg name \<or> \<not> phone_arg phone then (STRG_FAIL, D)
      else if dir_book D phone \<noteq> None then (STRG_EXISTS, D)
      else if Finite_Set.card (dom (dir_book D)) = HASH_TABLE_ENTRIES then (STRG_FULL, D)
      else (STRG_OK, D\<lparr>dir_book := (dir_book D)(phone \<mapsto> create_contact name phone),
                       dir_chats := (dir_chats D)(phone \<mapsto> [])\<rparr>))"

definition dir_contact_get :: "byte list \<Rightarrow> Directory \<Rightarrow> Contact res" where
  "dir_contact_get phone D =
     (if \<not> phone_arg phone then Inl STRG_FAIL else case dir_book D phone of None \<Rightarrow> Inl STRG_EMPTY | Some c \<Rightarrow> Inr c)"

definition dir_contact_update :: "byte list \<Rightarrow> byte list \<Rightarrow> byte list \<Rightarrow> Directory \<Rightarrow> STRG_RET \<times> Directory" where
  "dir_contact_update phone new_name new_phone D =
     (if \<not> phone_arg phone \<or> \<not> name_arg new_name \<or> \<not> phone_arg new_phone then (STRG_FAIL, D)
      else if dir_book D phone = None then (STRG_EMPTY, D)
      else if new_phone \<noteq> phone \<and> dir_book D new_phone \<noteq> None then (STRG_EXISTS, D)
      else (STRG_OK, D\<lparr>dir_book := (dir_book D)(phone := None, new_phone \<mapsto> create_contact new_name new_phone),
                       dir_chats := (dir_chats D)(phone := None, new_phone := dir_chats D phone),
                       dir_recent := map (\<lambda>ph. if ph = phone then new_phone else ph) (dir_recent D)\<rparr>))"

definition dir_contact_remove :: "byte list \<Rightarrow> Directory \<Rightarrow> STRG_RET \<times> Directory" where
  "dir_contact_remove phone D =
     (if \<not> phone_arg phone then (STRG_FAIL, D)
      else if dir_book D phone = None then (STRG_EMPTY, D)
      else (STRG_OK, D\<lparr>dir_book := (dir_book D)(phone := None), dir_chats := (dir_chats D)(phone := None),
                       dir_recent := filter (\<lambda>ph. ph \<noteq> phone) (dir_recent D)\<rparr>))"

definition dir_message_add :: "nat \<Rightarrow> byte list \<Rightarrow> nat \<Rightarrow> bool \<Rightarrow> byte list \<Rightarrow> Directory \<Rightarrow> STRG_RET \<times> Directory" where
  "dir_message_add lost phone timestamp direction str D =
     (if \<not> phone_arg phone \<or> timestamp = 0 then (STRG_FAIL, D)
      else if dir_book D phone = None \<and> Finite_Set.card (dom (dir_book D)) = HASH_TABLE_ENTRIES then (STRG_FAIL, D)
      else let m = create_message timestamp direction (Some str)
      in (STRG_OK, D\<lparr>dir_book := (if dir_book D phone = None then (dir_book D)(phone \<mapsto> create_contact [] phone) else dir_book D),
                     dir_chats := (dir_chats D)(phone \<mapsto> m # (case dir_chats D phone of None \<Rightarrow> [] | Some ms \<Rightarrow> ms)),
                     dir_recent := phone # filter (\<lambda>ph. ph \<noteq> phone) (dir_recent D),
                     dir_messages := m # take (length (dir_messages D) - lost) (dir_messages D)\<rparr>))"

definition dir_message_get_chat :: "byte list \<Rightarrow> nat \<Rightarrow> nat \<Rightarrow> Directory \<Rightarrow> STRG_RET \<times> Message list" where
  "dir_message_get_chat phone start n D =
     (if \<not> phone_arg phone then (STRG_FAIL, [])
      else case dir_chats D phone of
        None \<Rightarrow> (STRG_EMPTY, [])
      | Some ms \<Rightarrow> if ms = [] then (STRG_EMPTY, [])
                   else if n = 0 then (STRG_OK, [])
                   else if start < length ms then (STRG_OK, take n (drop start ms)) else (STRG_FAIL, []))"

definition dir_message_remove_chat :: "byte list \<Rightarrow> Directory \<Rightarrow> STRG_RET \<times> Directory" where
  "dir_message_remove_chat phone D =
     (if \<not> phone_arg phone then (STRG_FAIL, D)
      else if dir_chats D phone = None \<or> dir_chats D phone = Some [] then (STRG_EMPTY, D)
      else (STRG_OK, D\<lparr>dir_chats := (dir_chats D)(phone \<mapsto> []),
                       dir_recent := filter (\<lambda>ph. ph \<noteq> phone) (dir_recent D)\<rparr>))"

definition dir_call_add :: "nat \<Rightarrow> byte list \<Rightarrow> Directory \<Rightarrow> STRG_RET \<times> Directory" where
  "dir_call_add lost phone D =
     (if \<not> phone_arg phone then (STRG_FAIL, D)
      else (STRG_OK, D\<lparr>dir_calls :=
              (case dir_book D phone of Some c \<Rightarrow> c | None \<Rightarrow> create_contact [] phone) #
              take (length (dir_calls D) - lost) (dir_calls D)\<rparr>))"

definition dir_chat_list :: "nat \<Rightarrow> nat \<Rightarrow> Directory \<Rightarrow> STRG_RET \<times> ChatSummary list" where
  "dir_chat_list start n D =
     (if start < length (dir_recent D)
      then (STRG_OK, map (\<lambda>ph. \<lparr>csum_contact = the (dir_book D ph), csum_latest = Some (hd (the (dir_chats D ph)))\<rparr>)
                       (take n (drop start (dir_recent D))))
      else (STRG_EMPTY, []))"

subsection \<open>What every directory keeps\<close>

definition dir_wf :: "Directory \<Rightarrow> bool" where
  "dir_wf D \<longleftrightarrow>
     dom (dir_chats D) = dom (dir_book D) \<and> distinct (dir_recent D) \<and>
     set (dir_recent D) = {ph. \<exists>m ms. dir_chats D ph = Some (m # ms)} \<and>
     (\<forall>ph c. dir_book D ph = Some c \<longrightarrow> phone_of c = ph) \<and>
     finite (dom (dir_book D)) \<and> Finite_Set.card (dom (dir_book D)) \<le> HASH_TABLE_ENTRIES"

lemma args_valid:
  "0 \<notin> set phone \<Longrightarrow> valid_phone phone \<longleftrightarrow> phone_arg phone"
  "0 \<notin> set name \<Longrightarrow> valid_str name MAX_NAME_LEN \<longleftrightarrow> name_arg name"
  by (auto simp: valid_phone_def valid_str_def phone_arg_def name_arg_def layout)

end
