(* ===== verification/Db_Spec.thy ===== *)
theory Db_Spec
  imports Directory Name_Index
begin

text \<open>
  What a database stands for, and the invariant under which it does.  A database is read as four
  objects: the phone book (a map from phone numbers to contacts), the chats (a map from phone numbers to
  messages, newest first), the phone numbers by recency of their chats, and the two logs.  The
  alphabetical list is a function of the phone book.
\<close>

subsection \<open>Abstraction\<close>

definition db_contacts :: "('c \<Rightarrow> nat \<Rightarrow> byte list) \<Rightarrow> 'c Database \<Rightarrow> nat \<Rightarrow> Contact option" where
  "db_contacts blk db = contact_at (blk (dev (db_pers db))) (usage_bitmap (db_pers db))"

definition db_slots :: "('c \<Rightarrow> nat \<Rightarrow> byte list) \<Rightarrow> 'c Database \<Rightarrow> byte list \<Rightarrow> nat option" where
  "db_slots blk db = phone_index (db_contacts blk db) (db_htable db)"

definition db_book :: "('c \<Rightarrow> nat \<Rightarrow> byte list) \<Rightarrow> 'c Database \<Rightarrow> byte list \<Rightarrow> Contact option" where
  "db_book blk db = phone_book (db_contacts blk db) (db_htable db)"

definition db_chats :: "('c \<Rightarrow> nat \<Rightarrow> byte list) \<Rightarrow> 'c Database \<Rightarrow> byte list \<Rightarrow> Message list option" where
  "db_chats blk db = message_book (db_contacts blk db) (blk (dev (db_pers db))) (db_htable db)"

definition db_names :: "('c \<Rightarrow> nat \<Rightarrow> byte list) \<Rightarrow> 'c Database \<Rightarrow> Contact list" where
  "db_names blk db = map (\<lambda>e. slot_contact (db_contacts blk db) (db_htable db) (se_hash_slot e)) (sa_entries (db_name_index db))"

definition db_recent :: "('c \<Rightarrow> nat \<Rightarrow> byte list) \<Rightarrow> 'c Database \<Rightarrow> byte list list" where
  "db_recent blk db = map (slot_phone (db_contacts blk db) (db_htable db)) (co_chats (db_chat_order db))"

definition db_message_log :: "('c \<Rightarrow> nat \<Rightarrow> byte list) \<Rightarrow> 'c Database \<Rightarrow> MessageHistoryEntry list" where
  "db_message_log blk db = history_list message_history_kind (blk (dev (db_pers db))) (db_message_history db)"

definition db_call_log :: "('c \<Rightarrow> nat \<Rightarrow> byte list) \<Rightarrow> 'c Database \<Rightarrow> CallHistoryEntry list" where
  "db_call_log blk db = history_list call_history_kind (blk (dev (db_pers db))) (db_call_history db)"

definition db_dir :: "('c \<Rightarrow> nat \<Rightarrow> byte list) \<Rightarrow> 'c Database \<Rightarrow> Directory" where
  "db_dir blk db = \<lparr>dir_book = db_book blk db, dir_chats = db_chats blk db, dir_recent = db_recent blk db,
     dir_messages = map mh_message (db_message_log blk db), dir_calls = map ch_contact (db_call_log blk db)\<rparr>"

subsection \<open>The invariant\<close>

abbreviation on_card :: "('c \<Rightarrow> nat \<Rightarrow> byte list) \<Rightarrow> 'c pers \<Rightarrow> nat \<Rightarrow> Contact option" where
  "on_card blk p \<equiv> contact_at (blk (dev p)) (usage_bitmap p)"

definition records_ok :: "'c Storage \<Rightarrow> ('c \<Rightarrow> bool) \<Rightarrow> ('c \<Rightarrow> nat \<Rightarrow> byte list) \<Rightarrow> 'c pers \<Rightarrow> HashTable \<Rightarrow> bool" where
  "records_ok S ok blk p t \<longleftrightarrow> pers_ok S ok blk p \<and> contacts_ok (blk (dev p)) (usage_bitmap p) t \<and>
     messages_ok (blk (dev p)) (usage_bitmap p) t \<and> (\<forall>c \<in> ran (phone_book (on_card blk p) t). tidy c)"

lemma records_okD:
  assumes "records_ok S ok blk p t"
  shows "pers_ok S ok blk p" "contacts_ok (blk (dev p)) (usage_bitmap p) t" "messages_ok (blk (dev p)) (usage_bitmap p) t"
    "index_ok (on_card blk p) t" "phone_book (on_card blk p) t ph = Some c \<Longrightarrow> tidy c"
  using assms contacts_okD(2) by (auto simp: records_ok_def intro: ranI)

definition log_ok :: "'e HistoryKind \<Rightarrow> 'c Storage \<Rightarrow> ('c \<Rightarrow> nat \<Rightarrow> byte list) \<Rightarrow> 'c \<Rightarrow> nat \<Rightarrow> RingBuffer \<Rightarrow> bool" where
  "log_ok K S blk d sz rb \<longleftrightarrow> history_ok K (blk d) (capacity S d) rb \<and> rb_size rb = sz"

definition db_ok :: "'c Storage \<Rightarrow> ('c \<Rightarrow> bool) \<Rightarrow> ('c \<Rightarrow> nat \<Rightarrow> byte list) \<Rightarrow> 'c Database \<Rightarrow> bool" where
  "db_ok S ok blk db \<longleftrightarrow>
     records_ok S ok blk (db_pers db) (db_htable db) \<and>
     names_ok (on_card blk (db_pers db)) (db_htable db) (set (occupied_slots (db_htable db))) (db_name_index db) \<and>
     chat_order_ok (db_chat_order db) \<and> set (co_chats (db_chat_order db)) = set (chat_slots (db_htable db)) \<and>
     log_ok message_history_kind S blk (dev (db_pers db)) TOTAL_MESSAGE_HISTORY_SECTOR_SIZE (db_message_history db) \<and>
     log_ok call_history_kind S blk (dev (db_pers db)) TOTAL_CALL_HISTORY_SECTOR_SIZE (db_call_history db) \<and>
     superheader_good (blk (dev (db_pers db)))"

lemma db_okD:
  assumes "db_ok S ok blk db"
  shows "records_ok S ok blk (db_pers db) (db_htable db)"
    "names_ok (on_card blk (db_pers db)) (db_htable db) (set (occupied_slots (db_htable db))) (db_name_index db)"
    "chat_order_ok (db_chat_order db)" "set (co_chats (db_chat_order db)) = set (chat_slots (db_htable db))"
    "log_ok message_history_kind S blk (dev (db_pers db)) TOTAL_MESSAGE_HISTORY_SECTOR_SIZE (db_message_history db)"
    "log_ok call_history_kind S blk (dev (db_pers db)) TOTAL_CALL_HISTORY_SECTOR_SIZE (db_call_history db)"
    "superheader_good (blk (dev (db_pers db)))"
  using assms by (simp_all add: db_ok_def)

subsection \<open>Everything about the slots follows from the two maps\<close>

lemma occupied_ran: "index_ok cs t \<Longrightarrow> set (occupied_slots t) = ran (phone_index cs t)"
  using phone_index_Some [OF index_okD(4)] by (auto simp: ran_def)

text \<open>Two maps, from phone numbers to slots and from phone numbers to messages: dropping a number.\<close>

lemma ran_drop:
  assumes "f a = Some i" and "\<And>b. f b = Some i \<Longrightarrow> b = a"
  shows "ran (f(a := None)) = ran f - {i}"
proof (intro set_eqI iffI)
  fix x assume "x \<in> ran (f(a := None))"
  then obtain b where "b \<noteq> a" "f b = Some x" by (auto simp: ran_def split: if_splits)
  then show "x \<in> ran f - {i}" using assms(2) by (auto simp: ran_def)
next
  fix x assume "x \<in> ran f - {i}"
  then obtain b where "f b = Some x" "x \<noteq> i" by (auto simp: ran_def)
  then have "(f(a := None)) b = Some x" using assms(1) by auto
  then show "x \<in> ran (f(a := None))" by (rule ranI)
qed

lemma chats_drop:
  assumes "f a = Some i" and "\<And>b. f b = Some i \<Longrightarrow> b = a" and "f' = f \<or> f' = f(a := None)" and "v = None \<or> v = Some []"
  shows "{x. \<exists>ph m ms. f' ph = Some x \<and> (g(a := v)) ph = Some (m # ms)} = {x. \<exists>ph m ms. f ph = Some x \<and> g ph = Some (m # ms)} - {i}"
proof (intro set_eqI iffI)
  fix x assume "x \<in> {x. \<exists>ph m ms. f' ph = Some x \<and> (g(a := v)) ph = Some (m # ms)}"
  then obtain ph m ms where ph: "f' ph = Some x" "(g(a := v)) ph = Some (m # ms)" by blast
  then have "ph \<noteq> a" using assms(4) by auto
  then have "f ph = Some x" "g ph = Some (m # ms)" using ph assms(3) by auto
  then show "x \<in> {x. \<exists>ph m ms. f ph = Some x \<and> g ph = Some (m # ms)} - {i}" using assms(2) \<open>ph \<noteq> a\<close> by blast
next
  fix x assume "x \<in> {x. \<exists>ph m ms. f ph = Some x \<and> g ph = Some (m # ms)} - {i}"
  then obtain ph m ms where ph: "f ph = Some x" "g ph = Some (m # ms)" "x \<noteq> i" by blast
  then have "ph \<noteq> a" using assms(1) by auto
  then have "f' ph = Some x" "(g(a := v)) ph = Some (m # ms)" using ph assms(3) by auto
  then show "x \<in> {x. \<exists>ph m ms. f' ph = Some x \<and> (g(a := v)) ph = Some (m # ms)}" by blast
qed

lemma chats_rename:
  assumes "f a = Some i" and "\<And>b. f b = Some i \<Longrightarrow> b = a" and "b = a \<or> f b = None"
  shows "{x. \<exists>ph m ms. (f(a := None, b \<mapsto> e)) ph = Some x \<and> (g(a := None, b := g a)) ph = Some (m # ms)} =
    (\<lambda>x. if x = i then e else x) ` {x. \<exists>ph m ms. f ph = Some x \<and> g ph = Some (m # ms)}" (is "?L = ?r ` ?R")
proof (intro set_eqI iffI)
  fix x assume "x \<in> ?L"
  then obtain ph m ms where ph: "(f(a := None, b \<mapsto> e)) ph = Some x" "(g(a := None, b := g a)) ph = Some (m # ms)" by blast
  show "x \<in> ?r ` ?R"
  proof (cases "ph = b")
    case True
    then have "i \<in> ?R" "x = ?r i" using ph assms(1) by auto
    then show ?thesis by blast
  next
    case False
    then have n: "ph \<noteq> a" using ph by auto
    then have f: "f ph = Some x" "g ph = Some (m # ms)" using ph False by simp_all
    then have "x \<in> ?R" by blast
    moreover have "x = ?r x" using f assms(2) n by auto
    ultimately show ?thesis by (rule rev_image_eqI)
  qed
next
  fix x assume "x \<in> ?r ` ?R"
  then obtain y ph m ms where y: "x = ?r y" "f ph = Some y" "g ph = Some (m # ms)" by blast
  show "x \<in> ?L"
  proof (cases "ph = a")
    case True
    then have "(f(a := None, b \<mapsto> e)) b = Some x" "(g(a := None, b := g a)) b = Some (m # ms)" using y assms(1) by auto
    then show ?thesis by blast
  next
    case False
    then have "y \<noteq> i" "ph \<noteq> b" using y assms(2,3) by auto
    then have "(f(a := None, b \<mapsto> e)) ph = Some x" "(g(a := None, b := g a)) ph = Some (m # ms)" using y False by auto
    then show ?thesis by blast
  qed
qed

lemma chats_add:
  assumes "\<And>b. f b = Some e \<Longrightarrow> b = a" and "f a = None \<or> f a = Some e"
  shows "{x. \<exists>ph m ms. (f(a \<mapsto> e)) ph = Some x \<and> (g(a \<mapsto> m0 # ms0)) ph = Some (m # ms)} =
    insert e ({x. \<exists>ph m ms. f ph = Some x \<and> g ph = Some (m # ms)} - {e})" (is "?L = insert e (?R - {e})")
proof (intro set_eqI iffI)
  fix x assume "x \<in> ?L"
  then obtain ph m ms where ph: "(f(a \<mapsto> e)) ph = Some x" "(g(a \<mapsto> m0 # ms0)) ph = Some (m # ms)" by blast
  show "x \<in> insert e (?R - {e})"
  proof (cases "ph = a")
    case False
    then have "f ph = Some x" "g ph = Some (m # ms)" using ph by simp_all
    then show ?thesis by blast
  qed (use ph in simp)
next
  fix x assume x: "x \<in> insert e (?R - {e})"
  show "x \<in> ?L"
  proof (cases "x = e")
    case True
    then have "(f(a \<mapsto> e)) a = Some x" "(g(a \<mapsto> m0 # ms0)) a = Some (m0 # ms0)" by simp_all
    then show ?thesis by blast
  next
    case False
    then obtain ph m ms where ph: "f ph = Some x" "g ph = Some (m # ms)" using x by blast
    then have "ph \<noteq> a" using False assms(2) by auto
    then have "(f(a \<mapsto> e)) ph = Some x" "(g(a \<mapsto> m0 # ms0)) ph = Some (m # ms)" using ph by simp_all
    then show ?thesis by blast
  qed
qed

lemma book_slot: "phone_index cs t ph = Some i \<Longrightarrow> phone_book cs t ph = Some (slot_contact cs t i)"
  by (simp add: phone_book_def)

lemma slot_kept:
  assumes "phone_index cs t ph = Some i" and "phone_index cs' t' ph = Some i" and "phone_book cs' t' ph = phone_book cs t ph"
  shows "slot_contact cs' t' i = slot_contact cs t i"
  using assms book_slot by force

lemma book_size:
  assumes "index_ok cs t"
  shows "Finite_Set.card (dom (phone_book cs t)) = length (occupied_slots t)" "finite (dom (phone_book cs t))"
proof -
  have d: "dom (phone_book cs t) = slot_phone cs t ` set (occupied_slots t)"
    using phone_index_Some [OF index_okD(4) [OF assms]] by (auto simp: phone_book_def dom_def)
  then show "finite (dom (phone_book cs t))" by simp
  have "Finite_Set.card (slot_phone cs t ` set (occupied_slots t)) = Finite_Set.card (set (occupied_slots t))"
    by (rule card_image [OF index_ok_inj [OF assms]])
  then show "Finite_Set.card (dom (phone_book cs t)) = length (occupied_slots t)"
    unfolding d distinct_card [OF sorted_occupied_slots(2)] .
qed

lemma index_ok_same:
  assumes "phone_index cs t ph = Some i" and "phone_index cs' t' ph = Some i" and "index_ok cs t" and "index_ok cs' t'"
  shows "slot_phone cs' t' i = slot_phone cs t i"
  using indexed(2) [OF assms(3,1)] indexed(2) [OF assms(4,2)] by simp

lemma slots_tidyI:
  assumes "index_ok cs t" and "\<And>c. c \<in> ran (phone_book cs t) \<Longrightarrow> tidy c"
  shows "slots_tidy cs t (set (occupied_slots t))"
proof -
  have "tidy (slot_contact cs t i)" if "i \<in> set (occupied_slots t)" for i
  proof -
    have "i \<in> ran (phone_index cs t)" using that unfolding occupied_ran [OF assms(1)] .
    then obtain ph where "phone_index cs t ph = Some i" by (auto simp: ran_def)
    then have "phone_book cs t ph = Some (slot_contact cs t i)" by (rule book_slot)
    then show ?thesis by (intro assms(2) ranI)
  qed
  moreover have "set (occupied_slots t) \<subseteq> {..<HASH_TABLE_SIZE}" using index_okD(2) [OF assms(1)] by (auto simp: set_occupied_slots)
  moreover have "he_sector (entry_at t i) < HASH_TABLE_ENTRIES" "cs (he_sector (entry_at t i)) \<noteq> None"
    if "i \<in> set (occupied_slots t)" for i using index_okD(3) [OF assms(1) that] by (simp_all add: entry_ok_def Let_def)
  ultimately show ?thesis unfolding slots_tidy_def using index_ok_inj [OF assms(1)] by blast
qed

lemma names_ok_cong:
  assumes "names_ok cs t A sa" and "finite A" and "\<And>i. i \<in> A \<Longrightarrow> slot_contact cs' t' i = slot_contact cs t i"
  shows "names_ok cs' t' A sa"
  using assms(1) name_order_cong [OF assms(2,3)] by (simp add: names_ok_def)

text \<open>What does not touch the slots listed, or their contacts, leaves the list and the order as they are.\<close>

definition kept :: "(nat \<Rightarrow> Contact option) \<Rightarrow> HashTable \<Rightarrow> (nat \<Rightarrow> Contact option) \<Rightarrow> HashTable \<Rightarrow> nat set \<Rightarrow> bool" where
  "kept cs t cs' t' A \<longleftrightarrow> (\<forall>i \<in> A. \<exists>ph. phone_index cs t ph = Some i \<and> phone_index cs' t' ph = Some i \<and>
     phone_book cs' t' ph = phone_book cs t ph)"

lemma kept_slot: "kept cs t cs' t' A \<Longrightarrow> i \<in> A \<Longrightarrow> slot_contact cs' t' i = slot_contact cs t i"
  unfolding kept_def using slot_kept by blast

lemma kept_names: "kept cs t cs' t' A \<Longrightarrow> finite A \<Longrightarrow> names_ok cs t A sa \<Longrightarrow> names_ok cs' t' A sa"
  using names_ok_cong [of cs t A sa cs' t'] kept_slot by blast

lemma kept_phones: "kept cs t cs' t' (set xs) \<Longrightarrow> map (slot_phone cs' t') xs = map (slot_phone cs t) xs"
  using kept_slot by simp

lemma kept_mono: "kept cs t cs' t' A \<Longrightarrow> B \<subseteq> A \<Longrightarrow> kept cs t cs' t' B"
  by (auto simp: kept_def)

lemma keptI:
  assumes "index_ok cs t" and "A \<subseteq> set (occupied_slots t)"
    and "\<And>ph i. phone_index cs t ph = Some i \<Longrightarrow> i \<in> A \<Longrightarrow>
      phone_index cs' t' ph = Some i \<and> phone_book cs' t' ph = phone_book cs t ph"
  shows "kept cs t cs' t' A"
  unfolding kept_def
proof
  fix i assume i: "i \<in> A"
  then have "i \<in> ran (phone_index cs t)" using assms(2) unfolding occupied_ran [OF assms(1)] by blast
  then obtain ph where "phone_index cs t ph = Some i" by (auto simp: ran_def)
  then show "\<exists>ph. phone_index cs t ph = Some i \<and> phone_index cs' t' ph = Some i \<and> phone_book cs' t' ph = phone_book cs t ph"
    using assms(3) i by blast
qed

text \<open>A slot is in the chat order exactly if its chat has a message.\<close>

lemma chat_nonempty: "chat blk bm h (s # ss) \<Longrightarrow> chat_msgs blk (s # ss) \<noteq> []"
  by (auto simp: sector_msgs_def msg_block_def message_sector_of_def decode_array_def layout)

lemma chain_messages:
  assumes "messages_ok blk bm t" and "i \<in> set (occupied_slots t)"
  shows "i \<in> set (chat_slots t) \<longleftrightarrow> chat_msgs blk (chain blk t i) \<noteq> []"
proof -
  note c = messages_okD(4) [OF assms]
  show ?thesis
  proof (cases "chain blk t i")
    case Nil
    then show ?thesis using c by (simp add: chat_slots_def)
  next
    case (Cons s ss)
    have c: "chat blk bm (he_latest_msg_extent (entry_at t i)) (s # ss)" using messages_okD(4) [OF assms] unfolding Cons .
    then have "he_latest_msg_extent (entry_at t i) \<noteq> UINT16_MAX" using msg_sector_bounds(4) [of s] by auto
    moreover have "chat_msgs blk (chain blk t i) \<noteq> []" using chat_nonempty [OF c] unfolding Cons .
    ultimately show ?thesis using assms(2) by (simp add: chat_slots_def)
  qed
qed

lemma chat_slots_maps:
  assumes "messages_ok blk bm t" and "index_ok cs t"
  shows "set (chat_slots t) = {i. \<exists>ph ms. phone_index cs t ph = Some i \<and> message_book cs blk t ph = Some ms \<and> ms \<noteq> []}"
proof -
  have "i \<in> set (chat_slots t) \<longleftrightarrow> (\<exists>ph. phone_index cs t ph = Some i \<and> chat_msgs blk (chain blk t i) \<noteq> [])" for i
  proof -
    have o: "i \<in> set (occupied_slots t) \<longleftrightarrow> (\<exists>ph. phone_index cs t ph = Some i)"
      unfolding occupied_ran [OF assms(2)] by (simp add: ran_def)
    have "i \<in> set (chat_slots t) \<Longrightarrow> i \<in> set (occupied_slots t)" by (simp only: chat_slots_def set_filter mem_Collect_eq)
    then show ?thesis using chain_messages [OF assms(1), of i] o by blast
  qed
  then show ?thesis unfolding message_book_def by (simp add: set_eq_iff) (metis option.sel)
qed

lemma chat_slots_room:
  assumes "contacts_ok blk bm t"
  shows "length (chat_slots t) \<le> CHAT_ORDER_ENTRIES"
proof -
  have "length (chat_slots t) \<le> length (occupied_slots t)" by (simp add: chat_slots_def)
  then show ?thesis using occupied_bound(2) [OF assms] by (simp add: CHAT_ORDER_ENTRIES_def)
qed

subsection \<open>Arguments\<close>

lemma create_contact_tidy:
  assumes "name_arg name" and "phone_arg phone"
  shows "tidy (create_contact name phone)" "phone_of (create_contact name phone) = phone"
    "contact_wf (create_contact name phone)" "0 \<in> set (c_phone (create_contact name phone))"
proof -
  have l: "0 \<notin> set name" "0 \<notin> set phone" "length name \<le> MAX_NAME_LEN" "length phone \<le> MAX_PHONE_LEN" "length phone < 15"
    using assms by (simp_all add: name_arg_def phone_arg_def layout)
  show ph: "phone_of (create_contact name phone) = phone"
    using create_contact_fields(3) [OF l(1,2,3,4)] by (simp add: phone_of_def)
  show z: "0 \<in> set (c_phone (create_contact name phone))"
    using l(3,4,5) by (simp add: create_contact_def contact_zero_def pad_to_def layout)
  show w: "contact_wf (create_contact name phone)" by simp
  have "c_name_len (create_contact name phone) \<le> MAX_NAME_LEN" using l(3,4) by (simp add: create_contact_def contact_zero_def layout)
  then show "tidy (create_contact name phone)"
    using w z ph create_contact_fields(4) [OF l(1,2,3,4)] create_contact_fields(2) [OF l(1,2,3,4)] l(1) by (simp add: tidy_def name_of_def)
qed

subsection \<open>Frames\<close>

text \<open>A record operation leaves the logs alone, and adding to a log leaves the records and the other log alone.\<close>

lemma history_bases:
  "history_base message_history_kind = 30265" "history_base call_history_kind = 35265"
  by (simp_all add: history_base_def message_history_kind_def call_history_kind_def sector_defs layout)

lemma history_base_raw:
  "history_base message_history_kind + i = DATA_SECTOR_TO_RAW (MESSAGE_HISTORY_DATA_START_SECTOR + i)"
  "history_base call_history_kind + i = DATA_SECTOR_TO_RAW (CALL_HISTORY_DATA_START_SECTOR + i)"
  by (simp_all add: history_bases sector_defs layout)

lemma log_frame:
  assumes "log_ok K S blk d sz rb" and "\<And>i. i < sz \<Longrightarrow> blk d' (history_base K + i) = blk d (history_base K + i)"
    and "history_base K + sz \<le> capacity S d'"
  shows "log_ok K S blk d' sz rb" "history_list K (blk d') rb = history_list K (blk d) rb"
  using assms history_frame [of K "blk d" "capacity S d" rb "blk d'" "capacity S d'"] by (simp_all add: log_ok_def)

context reliable_store begin

lemma log_capacity:
  assumes "pers_ok S ok blk p"
  shows "history_base message_history_kind + TOTAL_MESSAGE_HISTORY_SECTOR_SIZE \<le> capacity S (dev p)"
    "history_base call_history_kind + TOTAL_CALL_HISTORY_SECTOR_SIZE \<le> capacity S (dev p)"
  using pers_okD(4) [OF assms, of 40252] by (simp_all add: history_bases sector_defs layout)

lemma logs_frame:
  assumes "pers_ok S ok blk p'" and o: "records_only (blk d) (blk (dev p'))"
  shows "log_ok message_history_kind S blk d TOTAL_MESSAGE_HISTORY_SECTOR_SIZE rb \<Longrightarrow>
      log_ok message_history_kind S blk (dev p') TOTAL_MESSAGE_HISTORY_SECTOR_SIZE rb \<and>
      history_list message_history_kind (blk (dev p')) rb = history_list message_history_kind (blk d) rb"
    and "log_ok call_history_kind S blk d TOTAL_CALL_HISTORY_SECTOR_SIZE rb' \<Longrightarrow>
      log_ok call_history_kind S blk (dev p') TOTAL_CALL_HISTORY_SECTOR_SIZE rb' \<and>
      history_list call_history_kind (blk (dev p')) rb' = history_list call_history_kind (blk d) rb'"
proof -
  have m: "blk (dev p') (history_base message_history_kind + i) = blk d (history_base message_history_kind + i)"
    "blk (dev p') (history_base call_history_kind + i) = blk d (history_base call_history_kind + i)" for i
    unfolding history_base_raw using o by (simp_all add: only_sectors_def layout)
  show "log_ok message_history_kind S blk d TOTAL_MESSAGE_HISTORY_SECTOR_SIZE rb \<Longrightarrow>
      log_ok message_history_kind S blk (dev p') TOTAL_MESSAGE_HISTORY_SECTOR_SIZE rb \<and>
      history_list message_history_kind (blk (dev p')) rb = history_list message_history_kind (blk d) rb"
    using log_frame [of _ S blk d _ rb "dev p'"] m log_capacity(1) [OF assms(1)] by blast
  show "log_ok call_history_kind S blk d TOTAL_CALL_HISTORY_SECTOR_SIZE rb' \<Longrightarrow>
      log_ok call_history_kind S blk (dev p') TOTAL_CALL_HISTORY_SECTOR_SIZE rb' \<and>
      history_list call_history_kind (blk (dev p')) rb' = history_list call_history_kind (blk d) rb'"
    using log_frame [of _ S blk d _ rb' "dev p'"] m log_capacity(2) [OF assms(1)] by blast
qed

end

definition simulates :: "'c Storage \<Rightarrow> ('c \<Rightarrow> bool) \<Rightarrow> ('c \<Rightarrow> nat \<Rightarrow> byte list) \<Rightarrow> STRG_RET \<times> 'c Database \<Rightarrow>
    STRG_RET \<times> Directory \<Rightarrow> bool" where
  "simulates S ok blk out spec \<longleftrightarrow> db_ok S ok blk (snd out) \<and> (fst out, db_dir blk (snd out)) = spec"

lemma same_simulates: "db_ok S ok blk db \<Longrightarrow> simulates S ok blk (r, db) (r, db_dir blk db)"
  by (simp add: simulates_def)

lemma db_dir_sel:
  "dir_book (db_dir blk db) = phone_book (on_card blk (db_pers db)) (db_htable db)"
  "dir_chats (db_dir blk db) = message_book (on_card blk (db_pers db)) (blk (dev (db_pers db))) (db_htable db)"
  "dir_recent (db_dir blk db) = map (slot_phone (on_card blk (db_pers db)) (db_htable db)) (co_chats (db_chat_order db))"
  "dir_messages (db_dir blk db) = map mh_message (db_message_log blk db)"
  "dir_calls (db_dir blk db) = map ch_contact (db_call_log blk db)"
  by (simp_all add: db_dir_def db_book_def db_chats_def db_recent_def db_contacts_def)

locale database_store = reliable_store S ok blk + multiblock_store S ok blk +
  msgs: history message_history_kind message_history_entry_wf S ok blk +
  calls: history call_history_kind call_history_entry_wf S ok blk
  for S :: "'c Storage" and ok :: "'c \<Rightarrow> bool" and blk :: "'c \<Rightarrow> nat \<Rightarrow> byte list"
begin

lemma find_slot:
  assumes r: "records_ok S ok blk (db_pers db) (db_htable db)"
  shows "find_occupied S db ph =
    (case phone_index (on_card blk (db_pers db)) (db_htable db) ph of None \<Rightarrow> Inl STRG_EMPTY | Some i \<Rightarrow> Inr i)"
proof -
  note f = find_entry_on_card [OF records_okD(1,2) [OF r], of ph]
  have ix: "index_ok (on_card blk (db_pers db)) (db_htable db)" using records_okD(4) [OF r] .
  obtain e where e: "first_claimable (db_htable db) (hash_phone ph) = Some e"
    using claimable_exists [OF records_okD(2) [OF r]] by blast
  show ?thesis
  proof (cases "phone_index (on_card blk (db_pers db)) (db_htable db) ph")
    case None
    then show ?thesis using f e first_claimable_Some(2) [OF e] by (auto simp: find_occupied_def)
  next
    case (Some i)
    then have "he_state (entry_at (db_htable db) i) = ENTRY_OCCUPIED"
      using indexed(1) [OF ix Some] by (simp add: set_occupied_slots)
    then show ?thesis using f Some by (simp add: find_occupied_def)
  qed
qed

lemma slot_bounds:
  assumes r: "records_ok S ok blk p t" and i: "phone_index (on_card blk p) t ph = Some i"
  shows "i < HASH_TABLE_SIZE" "hash_slot_of t i = i" "i \<in> set (occupied_slots t)"
    "phone_book (on_card blk p) t ph = Some (slot_contact (on_card blk p) t i)" "slot_phone (on_card blk p) t i = ph"
    "read_contact S p (he_sector (entry_at t i)) = Inr (slot_contact (on_card blk p) t i)"
proof -
  note ix = records_okD(4) [OF r]
  show o: "i \<in> set (occupied_slots t)" and "slot_phone (on_card blk p) t i = ph" using indexed [OF ix i] by simp_all
  show l: "i < HASH_TABLE_SIZE" using o index_okD(2) [OF ix] by (simp add: set_occupied_slots)
  show "hash_slot_of t i = i" using l by (simp add: hash_slot_of_def layout)
  show "phone_book (on_card blk p) t ph = Some (slot_contact (on_card blk p) t i)" by (rule book_slot [OF i])
  have "he_sector (entry_at t i) < HASH_TABLE_ENTRIES" "on_card blk p (he_sector (entry_at t i)) \<noteq> None"
    using index_okD(3) [OF ix o] by (simp_all add: entry_ok_def Let_def)
  then show "read_contact S p (he_sector (entry_at t i)) = Inr (slot_contact (on_card blk p) t i)"
    using contacts_read_as [OF records_okD(1) [OF r] contacts_okD(1) [OF records_okD(2) [OF r]]]
    by (auto simp: reads_as_def slot_contact_def)
qed

lemma records_readable: "records_ok S ok blk p t \<Longrightarrow> reads_as S p (on_card blk p)"
  using contacts_read_as records_okD(1,2) contacts_okD(1) by blast

lemma records_tidy: "records_ok S ok blk p t \<Longrightarrow> slots_tidy (on_card blk p) t (set (occupied_slots t))"
  by (rule slots_tidyI [OF records_okD(4)]) (auto simp: ran_def dest: records_okD(5))

text \<open>Putting a slot into the alphabetical list, and taking it out.\<close>

lemma list_slot_reads:
  assumes rd: "reads_as S' q (on_card blk p)" and r: "records_ok S ok blk p t" and i: "phone_index (on_card blk p) t ph = Some i"
    and n: "names_ok (on_card blk p) t (set (occupied_slots t) - {i}) sa" and c: "phone_book (on_card blk p) t ph = Some c"
  shows "\<exists>sa'. sorted_array_insert S' q (ht_htable t) sa c i = (STRG_OK, sa') \<and>
    names_ok (on_card blk p) t (set (occupied_slots t)) sa'"
proof -
  note b = slot_bounds [OF r i]
  have a: "insert i (set (occupied_slots t) - {i}) = set (occupied_slots t)" using b(3) by blast
  have "sa_occupancy sa = Finite_Set.card (set (occupied_slots t) - {i})" using names_okD(2) [OF n] by simp
  also have "\<dots> < Finite_Set.card (set (occupied_slots t))" using b(3) by (intro psubset_card_mono) auto
  also have "\<dots> = length (occupied_slots t)" by (rule distinct_card [OF sorted_occupied_slots(2)])
  also have "\<dots> \<le> HASH_TABLE_ENTRIES" using occupied_bound(2) [OF records_okD(2) [OF r]] .
  finally have room: "sa_occupancy sa < HASH_TABLE_ENTRIES" .
  have "slot_contact (on_card blk p) t i = c" using b(4) c by simp
  then show ?thesis
    using sa_insert_sem [OF rd n _ _ _ room, of i c] records_tidy [OF r] unfolding a by blast
qed

lemma list_slot:
  assumes "records_ok S ok blk p t" and "phone_index (on_card blk p) t ph = Some i"
    and "names_ok (on_card blk p) t (set (occupied_slots t) - {i}) sa" and "phone_book (on_card blk p) t ph = Some c"
  shows "\<exists>sa'. sorted_array_insert S p (ht_htable t) sa c i = (STRG_OK, sa') \<and>
    names_ok (on_card blk p) t (set (occupied_slots t)) sa'"
  by (rule list_slot_reads [OF records_readable [OF assms(1)] assms])

lemma unlist_slot:
  assumes r: "records_ok S ok blk p t" and i: "phone_index (on_card blk p) t ph = Some i"
    and n: "names_ok (on_card blk p) t (set (occupied_slots t)) sa"
  shows "\<exists>sa'. sorted_array_remove S p (ht_htable t) sa (slot_contact (on_card blk p) t i) = (STRG_OK, sa') \<and>
    names_ok (on_card blk p) t (set (occupied_slots t) - {i}) sa'"
  using sa_remove_sem [OF records_readable [OF r] n records_tidy [OF r] slot_bounds(3) [OF r i] refl] by blast

text \<open>An operation on the records: the logs stay as they were.\<close>

lemma db_okI:
  assumes ok: "db_ok S ok blk db" and r: "records_ok S ok blk (db_pers db') (db_htable db')"
    and o: "records_only (blk (dev (db_pers db))) (blk (dev (db_pers db')))"
    and "names_ok (on_card blk (db_pers db')) (db_htable db') (set (occupied_slots (db_htable db'))) (db_name_index db')"
    and "chat_order_ok (db_chat_order db')" "set (co_chats (db_chat_order db')) = set (chat_slots (db_htable db'))"
    and "db_message_history db' = db_message_history db" "db_call_history db' = db_call_history db"
  shows "db_ok S ok blk db'" "db_message_log blk db' = db_message_log blk db" "db_call_log blk db' = db_call_log blk db"
proof -
  note l = logs_frame(1) [OF records_okD(1) [OF r] o db_okD(5) [OF ok]] logs_frame(2) [OF records_okD(1) [OF r] o db_okD(6) [OF ok]]
  show "db_ok S ok blk db'" unfolding db_ok_def using r l assms(4-) o db_okD(7) [OF ok] by (simp add: only_sectors_def superheader_good_def)
  show "db_message_log blk db' = db_message_log blk db" "db_call_log blk db' = db_call_log blk db"
    using l assms(7,8) by (simp_all add: db_message_log_def db_call_log_def)
qed

lemma chat_slots_set:
  assumes r: "records_ok S ok blk p t"
  shows "set (chat_slots t) = {i. \<exists>ph m ms. phone_index (on_card blk p) t ph = Some i \<and>
    message_book (on_card blk p) (blk (dev p)) t ph = Some (m # ms)}"
  unfolding chat_slots_maps [OF records_okD(3,4) [OF r]] by (auto simp: neq_Nil_conv)

lemma chats_indexed: "records_ok S ok blk p t \<Longrightarrow> set (chat_slots t) \<subseteq> set (occupied_slots t)"
  by (simp add: chat_slots_def)

lemma step_simulates:
  assumes ok: "db_ok S ok blk db" and r: "records_ok S ok blk p' t'" and o: "records_only (blk (dev (db_pers db))) (blk (dev p'))"
    and n: "names_ok (on_card blk p') t' (set (occupied_slots t')) sa'"
    and co: "chat_order_ok co'" "set (co_chats co') = set (chat_slots t')"
    and D: "dir_book D' = phone_book (on_card blk p') t'" "dir_chats D' = message_book (on_card blk p') (blk (dev p')) t'"
      "dir_recent D' = map (slot_phone (on_card blk p') t') (co_chats co')" "dir_messages D' = dir_messages (db_dir blk db)"
      "dir_calls D' = dir_calls (db_dir blk db)"
  shows "simulates S ok blk (r, db\<lparr>db_htable := t', db_pers := p', db_name_index := sa', db_chat_order := co'\<rparr>) (r, D')"
    (is "simulates S ok blk (r, ?db) _")
proof -
  note fin = db_okI [OF ok, of ?db, simplified, OF r o n co]
  have "db_dir blk ?db = D'"
    using D fin(2,3) by (intro Directory.equality) (simp_all add: db_dir_sel)
  then show ?thesis using fin(1) by (simp add: simulates_def)
qed

lemma chat_slots_step:
  assumes r: "records_ok S ok blk p t" and r': "records_ok S ok blk p' t'"
    and same: "\<And>ph i m ms. phone_index (on_card blk p') t' ph = Some i \<and> message_book (on_card blk p') (blk (dev p')) t' ph = Some (m # ms) \<longleftrightarrow>
      phone_index (on_card blk p) t ph = Some i \<and> message_book (on_card blk p) (blk (dev p)) t ph = Some (m # ms)"
  shows "set (chat_slots t') = set (chat_slots t)"
  unfolding chat_slots_set [OF r] chat_slots_set [OF r'] using same by blast

end

interpretation heapdb: database_store heap_storage heap_ok heap_blk
  by unfold_locales

end
