(* ===== verification/Db_Contacts.thy ===== *)
theory Db_Contacts
  imports Db_Spec
begin

text \<open>
  The contact calls of the database against the directory: every call returns what the directory
  returns and leaves the directory's next state, on every branch.
\<close>

context database_store begin

text \<open>What a new contact in the table means to the list of names, before it is entered there.\<close>

lemma inserted_unlisted:
  assumes r: "records_ok S ok blk p t" and n: "names_ok (on_card blk p) t (set (occupied_slots t)) sa"
    and c: "tidy c" and w: "hash_insert_contact S p t c = (STRG_OK, slot, t', p')"
  shows "\<exists>e. slot = Some e \<and> records_ok S ok blk p' t' \<and> phone_index (on_card blk p) t (phone_of c) = None \<and>
    length (occupied_slots t) \<noteq> HASH_TABLE_ENTRIES \<and>
    phone_index (on_card blk p') t' = (phone_index (on_card blk p) t)(phone_of c \<mapsto> e) \<and>
    phone_book (on_card blk p') t' = (phone_book (on_card blk p) t)(phone_of c \<mapsto> c) \<and>
    kept (on_card blk p) t (on_card blk p') t' (set (occupied_slots t)) \<and>
    names_ok (on_card blk p') t' (set (occupied_slots t') - {e}) sa"
proof -
  have wf: "contact_wf c" "0 \<in> set (c_phone c)" using c by (simp_all add: tidy_def)
  note sem = insert_contact_sem [OF records_okD(1,2) [OF r] wf w]
  have none: "phone_index (on_card blk p) t (phone_of c) = None" and room: "length (occupied_slots t) \<noteq> HASH_TABLE_ENTRIES"
    using sem by (auto split: option.splits if_splits)
  have ix: "pers_ok S ok blk p'" "contacts_ok (blk (dev p')) (usage_bitmap p') t'"
    and book: "phone_book (on_card blk p') t' = (phone_book (on_card blk p) t)(phone_of c \<mapsto> c)"
    and "\<exists>e. slot = Some e \<and> phone_index (on_card blk p') t' = (phone_index (on_card blk p) t)(phone_of c \<mapsto> e) \<and>
      e \<notin> set (occupied_slots t) \<and> set (occupied_slots t') = insert e (set (occupied_slots t))"
    using sem none room by auto
  then obtain e where e: "slot = Some e" "phone_index (on_card blk p') t' = (phone_index (on_card blk p) t)(phone_of c \<mapsto> e)"
    "e \<notin> set (occupied_slots t)" "set (occupied_slots t') = insert e (set (occupied_slots t))" by blast
  note msg = insert_contact_messages [OF records_okD(1,2,3) [OF r] wf w]
  have r': "records_ok S ok blk p' t'" unfolding records_ok_def
    using ix msg book c r by (auto simp: records_ok_def ran_def)
  have k: "kept (on_card blk p) t (on_card blk p') t' (set (occupied_slots t))"
    using none by (intro keptI [OF records_okD(4) [OF r]]) (auto simp: e(2) book)
  have "names_ok (on_card blk p') t' (set (occupied_slots t') - {e}) sa" using kept_names [OF k] n e(3,4) by simp
  then show ?thesis using e(1,2) r' none room book k by blast
qed

lemma contact_add_simulates:
  assumes ok: "db_ok S ok blk db" and args: "0 \<notin> set name" "0 \<notin> set phone"
  shows "simulates S ok blk (database_contact_add S db name phone) (dir_contact_add name phone (db_dir blk db))"
proof -
  define p where "p = db_pers db"
  define t where "t = db_htable db"
  note r = db_okD(1) [OF ok, folded p_def t_def]
  note sel = db_dir_sel [of blk db, folded p_def t_def]
  have full: "Finite_Set.card (dom (phone_book (on_card blk p) t)) = length (occupied_slots t)" by (rule book_size(1) [OF records_okD(4) [OF r]])
  show ?thesis
  proof (cases "name_arg name \<and> phone_arg phone")
    case False
    then show ?thesis using same_simulates [OF ok]
      by (auto simp: database_contact_add_def dir_contact_add_def args_valid [OF args(2)] args_valid [OF args(1)])
  next
    case True
    define c where "c = create_contact name phone"
    have c: "tidy c" "phone_of c = phone" "contact_wf c" "0 \<in> set (c_phone c)"
      using create_contact_tidy [of name phone] True by (simp_all add: c_def)
    have valid: "valid_str name MAX_NAME_LEN" "valid_phone phone" using True args by (simp_all add: args_valid)
    obtain ret slot t' p' where w: "hash_insert_contact S p t c = (ret, slot, t', p')" by (metis prod_cases4)
    note sem = insert_contact_sem [OF records_okD(1,2) [OF r] c(3,4) w, unfolded c(2)]
    have run: "database_contact_add S db name phone = (if ret \<noteq> STRG_OK then (ret, db\<lparr>db_htable := t', db_pers := p'\<rparr>)
        else let (ret, sa) = sorted_array_insert S p' (ht_htable t') (db_name_index db) c (the slot);
               db = db\<lparr>db_htable := t', db_pers := p', db_name_index := sa\<rparr>
      in if ret \<noteq> STRG_OK then
           let (_, _, t, p) = hash_remove_contact S p' t' phone in (ret, db\<lparr>db_htable := t, db_pers := p\<rparr>)
         else (ret, db))"
      using valid w by (simp add: database_contact_add_def Let_def c_def p_def t_def)
    show ?thesis
    proof (cases "phone_index (on_card blk p) t phone")
      case (Some i)
      then have "ret = STRG_EXISTS" "t' = t" "p' = p" using sem by simp_all
      moreover have "dir_book (db_dir blk db) phone \<noteq> None" using Some by (simp add: sel phone_book_def)
      ultimately show ?thesis unfolding run dir_contact_add_def using True same_simulates [OF ok, of STRG_EXISTS] by (simp add: p_def t_def)
    next
      case None
      then have nb: "dir_book (db_dir blk db) phone = None" by (simp add: sel phone_book_def)
      show ?thesis
      proof (cases "length (occupied_slots t) = HASH_TABLE_ENTRIES")
        case True
        then have "ret = STRG_FULL" "t' = t" "p' = p" using sem None by simp_all
        moreover have "Finite_Set.card (dom (dir_book (db_dir blk db))) = HASH_TABLE_ENTRIES" using True full by (simp add: sel)
        ultimately show ?thesis unfolding run dir_contact_add_def using nb valid True same_simulates [OF ok, of STRG_FULL]
          by (simp add: args_valid args p_def t_def)
      next
        case room: False
        then have ret: "ret = STRG_OK" using sem None by auto
        note msg = insert_contact_messages [OF records_okD(1,2,3) [OF r] c(3,4) w [unfolded ret], unfolded c(2)]
        obtain e where e: "slot = Some e" "phone_index (on_card blk p') t' = (phone_index (on_card blk p) t)(phone \<mapsto> e)"
          and r': "records_ok S ok blk p' t'" and book: "phone_book (on_card blk p') t' = (phone_book (on_card blk p) t)(phone \<mapsto> c)"
          and k: "kept (on_card blk p) t (on_card blk p') t' (set (occupied_slots t))"
          and n': "names_ok (on_card blk p') t' (set (occupied_slots t') - {e}) (db_name_index db)"
          using inserted_unlisted [OF r db_okD(2) [OF ok, folded p_def t_def] c(1) w [unfolded ret], unfolded c(2)] by blast
        obtain sa' where sa: "sorted_array_insert S p' (ht_htable t') (db_name_index db) c e = (STRG_OK, sa')"
          "names_ok (on_card blk p') t' (set (occupied_slots t')) sa'"
          using list_slot [OF r' _ n', of phone c] by (auto simp: e(2) book)
        have cs: "set (chat_slots t') = set (chat_slots t)"
          by (rule chat_slots_step [OF r r']) (use msg None in \<open>auto simp: e(2) message_book_def split: if_splits\<close>)
        have recent: "map (slot_phone (on_card blk p') t') (co_chats (db_chat_order db)) =
            map (slot_phone (on_card blk p) t) (co_chats (db_chat_order db))"
          using kept_slot [OF k] db_okD(4) [OF ok] chats_indexed [OF r] by (auto simp: t_def)
        have spec: "dir_contact_add name phone (db_dir blk db) = (STRG_OK, (db_dir blk db)\<lparr>
            dir_book := (dir_book (db_dir blk db))(phone \<mapsto> c), dir_chats := (dir_chats (db_dir blk db))(phone \<mapsto> [])\<rparr>)"
          unfolding dir_contact_add_def using nb True room full by (simp add: sel c_def)
        have out: "database_contact_add S db name phone =
            (STRG_OK, db\<lparr>db_htable := t', db_pers := p', db_name_index := sa', db_chat_order := db_chat_order db\<rparr>)"
          unfolding run using ret sa e(1) by simp
        show ?thesis unfolding out spec
          by (rule step_simulates [OF ok r' _ sa(2) db_okD(3) [OF ok]])
            (use msg cs recent book db_okD(4) [OF ok] in \<open>simp_all add: db_dir_sel p_def t_def\<close>)
      qed
    qed
  qed
qed

lemma contact_get_simulates:
  assumes ok: "db_ok S ok blk db" and arg: "0 \<notin> set phone"
  shows "database_contact_get S db phone = dir_contact_get phone (db_dir blk db)"
proof -
  note r = db_okD(1) [OF ok]
  show ?thesis
  proof (cases "phone_index (on_card blk (db_pers db)) (db_htable db) phone")
    case None
    then show ?thesis using arg
      by (simp add: database_contact_get_def dir_contact_get_def find_slot [OF r] db_dir_sel phone_book_def args_valid)
  next
    case (Some i)
    then show ?thesis using arg slot_bounds(4,6) [OF r Some]
      by (simp add: database_contact_get_def dir_contact_get_def find_slot [OF r] db_dir_sel args_valid)
  qed
qed

lemma occupied_removed:
  assumes "index_ok cs t" and "index_ok cs' t'" and "phone_index cs t ph = Some i"
    and "phone_index cs' t' = (phone_index cs t)(ph := None)"
  shows "set (occupied_slots t') = set (occupied_slots t) - {i}"
  unfolding occupied_ran [OF assms(1)] occupied_ran [OF assms(2)] assms(4)
  by (rule ran_drop [of "phone_index cs t", OF assms(3)]) (use indexed_once [OF assms(1,3)] in blast)

text \<open>Dropping a slot from a list of slots drops its phone number from the list of numbers.\<close>

lemma phones_filter:
  assumes "inj_on (slot_phone cs t) A" and "i \<in> A" and "set xs \<subseteq> A"
  shows "map (slot_phone cs t) (filter (\<lambda>x. x \<noteq> i) xs) = filter (\<lambda>ph. ph \<noteq> slot_phone cs t i) (map (slot_phone cs t) xs)"
proof -
  have "filter (\<lambda>x. x \<noteq> i) xs = filter (\<lambda>x. slot_phone cs t x \<noteq> slot_phone cs t i) xs"
    using assms by (intro filter_cong) (auto dest: inj_onD)
  then show ?thesis by (simp add: filter_map o_def)
qed

lemma recent_drop:
  assumes "index_ok cs t" and "phone_index cs t ph = Some i" and "set xs \<subseteq> set (occupied_slots t)"
    and "kept cs t cs' t' (set (filter (\<lambda>x. x \<noteq> i) xs))"
  shows "map (slot_phone cs' t') (filter (\<lambda>x. x \<noteq> i) xs) = filter (\<lambda>p. p \<noteq> ph) (map (slot_phone cs t) xs)"
  using kept_phones [OF assms(4)] phones_filter [OF index_ok_inj [OF assms(1)] indexed(1) [OF assms(1,2)] assms(3)]
    indexed(2) [OF assms(1,2)] by simp

lemma contact_remove_simulates:
  assumes ok: "db_ok S ok blk db" and arg: "0 \<notin> set phone"
  shows "\<exists>out. database_contact_remove S db phone = Some out \<and>
    simulates S ok blk out (dir_contact_remove phone (db_dir blk db))"
proof -
  define p where "p = db_pers db"
  define t where "t = db_htable db"
  note r = db_okD(1) [OF ok, folded p_def t_def]
  note sel = db_dir_sel [of blk db, folded p_def t_def]
  show ?thesis
  proof (cases "phone_arg phone")
    case False
    then show ?thesis using same_simulates [OF ok]
      by (simp add: database_contact_remove_def dir_contact_remove_def args_valid [OF arg])
  next
    case valid: True
    show ?thesis
    proof (cases "phone_index (on_card blk p) t phone")
      case None
      then show ?thesis using valid same_simulates [OF ok]
        by (simp add: database_contact_remove_def dir_contact_remove_def args_valid [OF arg] sel phone_book_def
            find_slot [OF db_okD(1) [OF ok]] p_def t_def)
    next
      case (Some i)
      note b = slot_bounds [OF r Some]
      obtain sa where sa: "sorted_array_remove S p (ht_htable t) (db_name_index db) (slot_contact (on_card blk p) t i) = (STRG_OK, sa)"
        "names_ok (on_card blk p) t (set (occupied_slots t) - {i}) sa"
        using unlist_slot [OF r Some] db_okD(2) [OF ok, folded p_def t_def] by blast
      obtain p' t' out where h: "hash_remove S p t phone = Some (True, out, t', p')"
        and ix: "pers_ok S ok blk p'" "contacts_ok (blk (dev p')) (usage_bitmap p') t'" "messages_ok (blk (dev p')) (usage_bitmap p') t'"
        and idx: "phone_index (on_card blk p') t' = (phone_index (on_card blk p) t)(phone := None)"
        and book: "phone_book (on_card blk p') t' = (phone_book (on_card blk p) t)(phone := None)"
        and msgs: "message_book (on_card blk p') (blk (dev p')) t' = (message_book (on_card blk p) (blk (dev p)) t)(phone := None)"
        and o: "records_only (blk (dev p)) (blk (dev p'))"
        using hash_remove_sem [OF records_okD(1,2,3) [OF r], of phone] Some by auto
      obtain rc co where co: "chat_order_remove (db_chat_order db) i = (rc, co)" "chat_order_ok co"
        "co_chats co = filter (\<lambda>x. x \<noteq> i) (co_chats (db_chat_order db))"
        using chat_order_remove_sem [OF db_okD(3) [OF ok]] by blast
      have r': "records_ok S ok blk p' t'" unfolding records_ok_def
        using ix book r by (auto simp: records_ok_def ran_def)
      have occ: "set (occupied_slots t') = set (occupied_slots t) - {i}"
        by (rule occupied_removed [OF records_okD(4) [OF r] records_okD(4) [OF r'] Some idx])
      have k: "kept (on_card blk p) t (on_card blk p') t' (set (occupied_slots t'))"
        unfolding occ by (intro keptI [OF records_okD(4) [OF r]]) (use Some in \<open>auto simp: idx book\<close>)
      have n: "names_ok (on_card blk p') t' (set (occupied_slots t')) sa" using kept_names [OF k] sa(2) occ by simp
      have cs: "set (co_chats co) = set (chat_slots t')"
      proof -
        have "set (chat_slots t') = set (chat_slots t) - {i}"
          unfolding chat_slots_set [OF r'] chat_slots_set [OF r] idx msgs
          by (rule chats_drop [of "phone_index (on_card blk p) t", OF Some]) (use indexed_once [OF records_okD(4) [OF r] Some] in blast, blast+)
        then show ?thesis unfolding co(3) using db_okD(4) [OF ok, folded t_def] by auto
      qed
      have "kept (on_card blk p) t (on_card blk p') t' (set (co_chats co))"
        by (rule kept_mono [OF k]) (unfold cs, rule chats_indexed [OF r'])
      then have recent: "map (slot_phone (on_card blk p') t') (co_chats co) =
          filter (\<lambda>ph. ph \<noteq> phone) (map (slot_phone (on_card blk p) t) (co_chats (db_chat_order db)))"
        unfolding co(3) using db_okD(4) [OF ok, folded t_def] chats_indexed [OF r]
        by (intro recent_drop [OF records_okD(4) [OF r] Some]) simp_all
      have out: "database_contact_remove S db phone = Some (STRG_OK,
          db\<lparr>db_htable := t', db_pers := p', db_name_index := sa, db_chat_order := co\<rparr>)"
        using valid Some b(2,6) sa(1) h co(1) find_slot [OF db_okD(1) [OF ok]]
        by (simp add: database_contact_remove_def args_valid [OF arg] Let_def p_def t_def)
      have spec: "dir_contact_remove phone (db_dir blk db) = (STRG_OK, (db_dir blk db)\<lparr>
          dir_book := (dir_book (db_dir blk db))(phone := None), dir_chats := (dir_chats (db_dir blk db))(phone := None),
          dir_recent := filter (\<lambda>ph. ph \<noteq> phone) (dir_recent (db_dir blk db))\<rparr>)"
        unfolding dir_contact_remove_def using valid b(4) by (simp add: sel)
      show ?thesis unfolding out spec
        by (rule exI, rule conjI, rule refl, rule step_simulates [OF ok r' _ n co(2) cs])
          (use o recent book msgs in \<open>simp_all add: db_dir_sel p_def t_def\<close>)
    qed
  qed
qed

lemma recent_rename:
  assumes "index_ok cs t" and "phone_index cs t old = Some i" and "index_ok cs' t'" and "phone_index cs' t' new = Some e"
    and "set xs \<subseteq> set (occupied_slots t)" and "kept cs t cs' t' (set (filter (\<lambda>x. x \<noteq> i) xs))"
  shows "map (slot_phone cs' t') (map (\<lambda>x. if x = i then e else x) xs) =
    map (\<lambda>ph. if ph = old then new else ph) (map (slot_phone cs t) xs)"
  unfolding map_map
proof (rule map_cong [OF refl])
  fix x assume x: "x \<in> set xs"
  show "(slot_phone cs' t' \<circ> (\<lambda>x. if x = i then e else x)) x = ((\<lambda>ph. if ph = old then new else ph) \<circ> slot_phone cs t) x"
  proof (cases "x = i")
    case True
    then show ?thesis using indexed(2) [OF assms(1,2)] indexed(2) [OF assms(3,4)] by simp
  next
    case False
    then have "slot_phone cs t x \<noteq> old"
      using inj_onD [OF index_ok_inj [OF assms(1)], of x i] x assms(5) indexed [OF assms(1,2)] by auto
    moreover have "x \<in> set (filter (\<lambda>x. x \<noteq> i) xs)" using x False by simp
    ultimately show ?thesis using False kept_slot [OF assms(6)] by simp
  qed
qed

lemma update_phone_step:
  assumes r: "records_ok S ok blk p t" and c: "tidy c" and i: "phone_index (on_card blk p) t old = Some i"
    and free: "phone_index (on_card blk p) t (phone_of c) = None" and w: "hash_update_phone S p t old c = (ret, t', p')"
  shows "ret = STRG_OK \<and> records_ok S ok blk p' t' \<and> records_only (blk (dev p)) (blk (dev p')) \<and>
    phone_book (on_card blk p') t' = (phone_book (on_card blk p) t)(old := None, phone_of c \<mapsto> c) \<and>
    message_book (on_card blk p') (blk (dev p')) t' = (message_book (on_card blk p) (blk (dev p)) t)
      (old := None, phone_of c := message_book (on_card blk p) (blk (dev p)) t old) \<and>
    (\<exists>e. phone_index (on_card blk p') t' = (phone_index (on_card blk p) t)(old := None, phone_of c \<mapsto> e) \<and> e \<noteq> i \<and>
      set (occupied_slots t') = insert e (set (occupied_slots t) - {i}))"
proof -
  have cw: "contact_wf c" "0 \<in> set (c_phone c)" using c by (simp_all add: tidy_def)
  note s = update_phone_sem [OF records_okD(1,2) [OF r] cw w]
  have ret: "ret = STRG_OK" using s i free by simp
  note m = update_phone_messages [OF records_okD(1,2,3) [OF r] cw w [unfolded ret]]
  have "tidy d" if "d \<in> ran ((phone_book (on_card blk p) t)(old := None, phone_of c \<mapsto> c))" for d
    using that c records_okD(5) [OF r] by (auto simp: ran_def split: if_splits)
  then have "records_ok S ok blk p' t'" unfolding records_ok_def using s m i free ret by simp
  then show ?thesis using s m i free ret by auto
qed

lemma update_same_step:
  assumes r: "records_ok S ok blk p t" and c: "tidy c" and i: "phone_index (on_card blk p) t (phone_of c) = Some i"
    and w: "hash_update_contact S p t old c = (ret, t', p')" and same: "phone_of old = phone_of c"
  shows "ret = STRG_OK \<and> t' = t \<and> records_ok S ok blk p' t' \<and> records_only (blk (dev p)) (blk (dev p')) \<and>
    phone_book (on_card blk p') t' = (phone_book (on_card blk p) t)(phone_of c \<mapsto> c) \<and>
    message_book (on_card blk p') (blk (dev p')) t' = message_book (on_card blk p) (blk (dev p)) t \<and>
    phone_index (on_card blk p') t' = phone_index (on_card blk p) t"
proof -
  have cw: "contact_wf c" "0 \<in> set (c_phone c)" using c by (simp_all add: tidy_def)
  note s = update_contact_sem [OF records_okD(1,2) [OF r] cw w same]
  have ret: "ret = STRG_OK" using s i by simp
  note m = update_contact_messages [OF records_okD(1,2,3) [OF r] cw w [unfolded ret] same]
  have "tidy d" if "d \<in> ran ((phone_book (on_card blk p) t)(phone_of c \<mapsto> c))" for d
    using that c records_okD(5) [OF r] by (auto simp: ran_def split: if_splits)
  moreover have t': "t' = t" using s by simp
  ultimately have "records_ok S ok blk p' t" unfolding records_ok_def using s [unfolded t'] m [unfolded t'] i ret by simp
  then show ?thesis using s m i ret unfolding t' by simp
qed

text \<open>The two ways a contact changes, as one step of the index: \<open>e\<close> is the slot of the new number.\<close>

lemma update_step:
  assumes r: "records_ok S ok blk p t" and c: "tidy c" and i: "phone_index (on_card blk p) t (phone_of old) = Some i"
    and free: "phone_of c \<noteq> phone_of old \<Longrightarrow> phone_index (on_card blk p) t (phone_of c) = None"
    and w: "hash_update_contact S p t old c = (ret, t', p')"
  shows "ret = STRG_OK \<and> records_ok S ok blk p' t' \<and> records_only (blk (dev p)) (blk (dev p')) \<and>
    phone_book (on_card blk p') t' = (phone_book (on_card blk p) t)(phone_of old := None, phone_of c \<mapsto> c) \<and>
    message_book (on_card blk p') (blk (dev p')) t' = (message_book (on_card blk p) (blk (dev p)) t)
      (phone_of old := None, phone_of c := message_book (on_card blk p) (blk (dev p)) t (phone_of old)) \<and>
    (\<exists>e. phone_index (on_card blk p') t' = (phone_index (on_card blk p) t)(phone_of old := None, phone_of c \<mapsto> e) \<and>
      set (occupied_slots t') = insert e (set (occupied_slots t) - {i}) \<and> e \<notin> set (occupied_slots t) - {i})"
proof (cases "phone_of c = phone_of old")
  case True
  note s0 = update_same_step [OF r c _ w True [symmetric], unfolded True, OF i]
  have t': "t' = t" using s0 by simp
  note s = s0 [unfolded t']
  have o: "insert i (set (occupied_slots t) - {i}) = set (occupied_slots t)" using slot_bounds(3) [OF r i] by blast
  show ?thesis unfolding True t'
  proof (intro conjI)
    show "ret = STRG_OK" "records_ok S ok blk p' t" "records_only (blk (dev p)) (blk (dev p'))" using s by blast+
    show "phone_book (on_card blk p') t = (phone_book (on_card blk p) t)(phone_of old := None, phone_of old \<mapsto> c)" using s by simp
    show "message_book (on_card blk p') (blk (dev p')) t = (message_book (on_card blk p) (blk (dev p)) t)
      (phone_of old := None, phone_of old := message_book (on_card blk p) (blk (dev p)) t (phone_of old))" using s by simp
    show "\<exists>e. phone_index (on_card blk p') t = (phone_index (on_card blk p) t)(phone_of old := None, phone_of old \<mapsto> e) \<and>
        set (occupied_slots t) = insert e (set (occupied_slots t) - {i}) \<and> e \<notin> set (occupied_slots t) - {i}"
      using s o i by (intro exI [of _ i]) (auto simp: fun_eq_iff)
  qed
next
  case False
  have w': "hash_update_phone S p t (phone_of old) c = (ret, t', p')"
    using w False by (simp add: hash_update_contact_def phone_of_def)
  note s = update_phone_step [OF r c i free [OF False] w']
  obtain e where e: "phone_index (on_card blk p') t' = (phone_index (on_card blk p) t)(phone_of old := None, phone_of c \<mapsto> e)"
    "set (occupied_slots t') = insert e (set (occupied_slots t) - {i})" using s by blast
  have "e \<notin> set (occupied_slots t) - {i}"
  proof
    assume "e \<in> set (occupied_slots t) - {i}"
    then have "e \<in> ran ((phone_index (on_card blk p) t)(phone_of old := None))"
      using ran_drop [of "phone_index (on_card blk p) t", OF i] indexed_once [OF records_okD(4) [OF r] i]
      unfolding occupied_ran [OF records_okD(4) [OF r]] by blast
    then obtain ph where ph: "ph \<noteq> phone_of old" "phone_index (on_card blk p) t ph = Some e"
      by (auto simp: ran_def split: if_splits)
    then have "ph \<noteq> phone_of c" using free [OF False] by auto
    then show False using indexed_once [of "on_card blk p'" t' ph e "phone_of c" e] s ph records_okD(4) [of S ok blk p' t']
      by (simp add: e(1))
  qed
  then show ?thesis using s e by blast
qed

lemma contact_update_simulates:
  assumes ok: "db_ok S ok blk db" and args: "0 \<notin> set phone" "0 \<notin> set new_name" "0 \<notin> set new_phone"
  shows "simulates S ok blk (database_contact_update S db phone new_name new_phone)
    (dir_contact_update phone new_name new_phone (db_dir blk db))"
proof -
  define p where "p = db_pers db"
  define t where "t = db_htable db"
  note r = db_okD(1) [OF ok, folded p_def t_def]
  note sel = db_dir_sel [of blk db, folded p_def t_def]
  note find = find_slot [OF db_okD(1) [OF ok], folded p_def t_def]
  show ?thesis
  proof (cases "phone_arg phone \<and> name_arg new_name \<and> phone_arg new_phone")
    case False
    then show ?thesis using same_simulates [OF ok]
      by (auto simp: database_contact_update_def dir_contact_update_def args_valid(1) [OF args(1)] args_valid(1) [OF args(3)]
          args_valid(2) [OF args(2)])
  next
    case valid: True
    note v = valid [folded args_valid(1) [OF args(1)] args_valid(1) [OF args(3)] args_valid(2) [OF args(2)]]
    show ?thesis
    proof (cases "phone_index (on_card blk p) t phone")
      case None
      then show ?thesis using valid v same_simulates [OF ok]
        by (simp add: database_contact_update_def dir_contact_update_def sel phone_book_def find)
    next
      case (Some i)
      note b = slot_bounds [OF r Some]
      define old where "old = slot_contact (on_card blk p) t i"
      define c where "c = create_contact new_name new_phone"
      have c: "tidy c" "phone_of c = new_phone" "contact_wf c" "0 \<in> set (c_phone c)"
        using create_contact_tidy [of new_name new_phone] valid by (simp_all add: c_def)
      obtain sa where sa: "sorted_array_remove S p (ht_htable t) (db_name_index db) old = (STRG_OK, sa)"
        "names_ok (on_card blk p) t (set (occupied_slots t) - {i}) sa"
        using unlist_slot [OF r Some] db_okD(2) [OF ok, folded p_def t_def] unfolding old_def by blast
      obtain ret t' p' where w: "hash_update_contact S p t old c = (ret, t', p')" by (metis prod_cases3)
      define db1 where "db1 = db\<lparr>db_name_index := sa, db_htable := t', db_pers := p'\<rparr>"
      have run: "database_contact_update S db phone new_name new_phone =
          (if ret \<noteq> STRG_OK then
             let (_, sa) = sorted_array_insert S p' (ht_htable t') sa old i in (ret, db1\<lparr>db_name_index := sa\<rparr>)
           else case find_occupied S db1 new_phone of
                Inl _ \<Rightarrow> (STRG_FAIL, db1)
              | Inr entry \<Rightarrow>
                  let (_, co) = chat_order_replace (db_chat_order db1) i (hash_slot_of t' entry);
                      (ret, sa) = sorted_array_insert S p' (ht_htable t') sa c (hash_slot_of t' entry)
                  in (ret, db1\<lparr>db_chat_order := co, db_name_index := sa\<rparr>))"
        using v Some b(2,6) sa(1) w find unfolding database_contact_update_def db1_def c_def old_def
        by (simp add: p_def t_def Let_def split: sum.split prod.split)
      have old: "phone_of old = phone" using b(5) by (simp add: old_def)
      show ?thesis
      proof (cases "new_phone \<noteq> phone \<and> phone_index (on_card blk p) t new_phone \<noteq> None")
        case True
        have w': "hash_update_phone S p t phone c = (ret, t', p')"
          using w True old c(2) by (auto simp: hash_update_contact_def phone_of_def)
        have x: "ret = STRG_EXISTS" "t' = t" "p' = p"
          using update_phone_sem [OF records_okD(1,2) [OF r] c(3,4) w'] Some True c(2) by (auto split: if_splits)
        obtain sa' where sa': "sorted_array_insert S p (ht_htable t) sa old i = (STRG_OK, sa')"
          "names_ok (on_card blk p) t (set (occupied_slots t)) sa'"
          using list_slot [OF r Some sa(2), of old] b(4) old_def by blast
        have out: "database_contact_update S db phone new_name new_phone = (STRG_EXISTS,
            db\<lparr>db_htable := t, db_pers := p, db_name_index := sa', db_chat_order := db_chat_order db\<rparr>)"
          unfolding run using x sa' by (simp add: db1_def Database.equality)
        have spec: "dir_contact_update phone new_name new_phone (db_dir blk db) = (STRG_EXISTS, db_dir blk db)"
          unfolding dir_contact_update_def using valid True Some by (auto simp: sel phone_book_def)
        show ?thesis unfolding out spec
          by (rule step_simulates [OF ok r _ sa'(2) db_okD(3) [OF ok]])
            (use db_okD(4) [OF ok] in \<open>simp_all add: db_dir_sel p_def t_def only_sectors_def\<close>)
      next
        case False
        then have free: "phone_of c \<noteq> phone_of old \<Longrightarrow> phone_index (on_card blk p) t (phone_of c) = None"
          using old c(2) by auto
        note s = update_step [OF r c(1) Some [folded old] free w, unfolded old c(2)]
        then have ret: "ret = STRG_OK" and r': "records_ok S ok blk p' t'" and o: "records_only (blk (dev p)) (blk (dev p'))"
          and book: "phone_book (on_card blk p') t' = (phone_book (on_card blk p) t)(phone := None, new_phone \<mapsto> c)"
          and msgs: "message_book (on_card blk p') (blk (dev p')) t' = (message_book (on_card blk p) (blk (dev p)) t)
            (phone := None, new_phone := message_book (on_card blk p) (blk (dev p)) t phone)" by blast+
        obtain e where e: "phone_index (on_card blk p') t' = (phone_index (on_card blk p) t)(phone := None, new_phone \<mapsto> e)"
          "set (occupied_slots t') = insert e (set (occupied_slots t) - {i})" "e \<notin> set (occupied_slots t) - {i}" using s by blast
        have ie: "phone_index (on_card blk p') t' new_phone = Some e" by (simp add: e(1))
        have k: "kept (on_card blk p) t (on_card blk p') t' (set (occupied_slots t) - {i})"
        proof (intro keptI [OF records_okD(4) [OF r]])
          show "phone_index (on_card blk p') t' ph = Some j \<and> phone_book (on_card blk p') t' ph = phone_book (on_card blk p) t ph"
            if j: "phone_index (on_card blk p) t ph = Some j" "j \<in> set (occupied_slots t) - {i}" for ph j
          proof -
            have "ph \<noteq> phone" using j Some by auto
            moreover have "ph \<noteq> new_phone" using False j calculation by auto
            ultimately show ?thesis using j by (simp add: e(1) book)
          qed
        qed simp
        have n: "names_ok (on_card blk p') t' (set (occupied_slots t') - {e}) sa"
          using kept_names [OF k _ sa(2)] e(2,3) by simp
        obtain sa' where sa': "sorted_array_insert S p' (ht_htable t') sa c e = (STRG_OK, sa')"
          "names_ok (on_card blk p') t' (set (occupied_slots t')) sa'"
          using list_slot [OF r' ie n, of c] by (auto simp: book)
        note l = chats_indexed [OF r] db_okD(4) [OF ok, folded t_def]
        obtain rc co where co: "chat_order_replace (db_chat_order db) i e = (rc, co)" "chat_order_ok co"
          "co_chats co = map (\<lambda>x. if x = i then e else x) (co_chats (db_chat_order db))"
        proof (cases "e = i")
          case True
          then show ?thesis using that chat_order_replace_same [OF db_okD(3) [OF ok], of i] db_okD(3) [OF ok] by auto
        next
          case False
          then have "e \<notin> set (co_chats (db_chat_order db))" using e(3) l by auto
          then show ?thesis using that chat_order_replace_sem [OF db_okD(3) [OF ok]] by metis
        qed
        have recent: "map (slot_phone (on_card blk p') t') (co_chats co) =
            map (\<lambda>ph. if ph = phone then new_phone else ph) (map (slot_phone (on_card blk p) t) (co_chats (db_chat_order db)))"
          unfolding co(3) using l
          by (intro recent_rename [OF records_okD(4) [OF r] Some records_okD(4) [OF r'] ie] kept_mono [OF k]) auto
        have cs: "set (co_chats co) = set (chat_slots t')"
          unfolding co(3) set_map l(2) chat_slots_set [OF r] chat_slots_set [OF r'] e(1) msgs
          by (rule chats_rename [of "phone_index (on_card blk p) t", OF Some, symmetric])
            (use indexed_once [OF records_okD(4) [OF r] Some] False in blast)+
        have out: "database_contact_update S db phone new_name new_phone = (STRG_OK,
            db\<lparr>db_htable := t', db_pers := p', db_name_index := sa', db_chat_order := co\<rparr>)"
          unfolding run using ret ie slot_bounds(2) [OF r' ie] co(1) sa' r' find_slot [of db1 new_phone]
          by (simp add: db1_def Database.equality)
        have spec: "dir_contact_update phone new_name new_phone (db_dir blk db) = (STRG_OK, (db_dir blk db)\<lparr>
            dir_book := (dir_book (db_dir blk db))(phone := None, new_phone \<mapsto> c),
            dir_chats := (dir_chats (db_dir blk db))(phone := None, new_phone := dir_chats (db_dir blk db) phone),
            dir_recent := map (\<lambda>ph. if ph = phone then new_phone else ph) (dir_recent (db_dir blk db))\<rparr>)"
          unfolding dir_contact_update_def using valid False b(4) by (auto simp: sel phone_book_def c_def)
        show ?thesis unfolding out spec
          by (rule step_simulates [OF ok r' _ sa'(2) co(2) cs])
            (use o recent book msgs in \<open>simp_all add: db_dir_sel p_def t_def\<close>)
      qed
    qed
  qed
qed

subsection \<open>The alphabetical list\<close>

lemma names_of_slots:
  assumes "db_ok S ok blk db"
  shows "db_names blk db = map (slot_contact (on_card blk (db_pers db)) (db_htable db))
      (name_order (on_card blk (db_pers db)) (db_htable db) (set (occupied_slots (db_htable db))))"
  using db_okD(2) [OF assms] by (simp add: db_names_def db_contacts_def names_ok_def name_entry_def o_def)

lemma names_alphabetical:
  assumes ok: "db_ok S ok blk db"
  shows "set (db_names blk db) = ran (dir_book (db_dir blk db))" "distinct (db_names blk db)"
    "sorted (map listing_key (db_names blk db))" "length (db_names blk db) = Finite_Set.card (dom (dir_book (db_dir blk db)))"
proof -
  define p where "p = db_pers db"
  define t where "t = db_htable db"
  note r = db_okD(1) [OF ok, folded p_def t_def]
  note n = names_of_slots [OF ok, folded p_def t_def]
  note o = name_order_props [of "set (occupied_slots t)" "on_card blk p" t, simplified]
  have b: "phone_book (on_card blk p) t ph = Some c \<longleftrightarrow> (\<exists>i. phone_index (on_card blk p) t ph = Some i \<and> c = slot_contact (on_card blk p) t i)" for ph c
    by (auto simp: phone_book_def)
  have "ran (phone_book (on_card blk p) t) = slot_contact (on_card blk p) t ` ran (phone_index (on_card blk p) t)"
    by (auto simp: ran_def b)
  then show s: "set (db_names blk db) = ran (dir_book (db_dir blk db))"
    by (simp add: n o(1) occupied_ran [OF records_okD(4) [OF r], symmetric] db_dir_sel p_def [symmetric] t_def [symmetric])
  have "inj_on (slot_contact (on_card blk p) t) (set (occupied_slots t))"
    using index_ok_inj [OF records_okD(4) [OF r]] by (auto simp: inj_on_def)
  then show "distinct (db_names blk db)" by (simp add: n distinct_map o(1,2))
  have "sorted (map contact_key (db_names blk db))" using o(3) by (simp add: n slot_key_def [abs_def] o_def)
  moreover have "\<And>c. c \<in> set (db_names blk db) \<Longrightarrow> tidy c"
    unfolding s using records_okD(5) [OF r] by (auto simp: ran_def db_dir_sel p_def t_def)
  ultimately show "sorted (map listing_key (db_names blk db))"
    using contact_key_listing by (simp add: sorted_map sorted_wrt_iff_nth_less)
  show "length (db_names blk db) = Finite_Set.card (dom (dir_book (db_dir blk db)))"
    using book_size(1) [OF records_okD(4) [OF r]] distinct_card [OF sorted_occupied_slots(2), of t]
    by (simp add: n o(5) db_dir_sel p_def [symmetric] t_def [symmetric])
qed

lemma contact_rows_sem:
  assumes ok: "db_ok S ok blk db"
  shows "contact_rows S db rank n out = (STRG_OK, out @ take n (drop rank (db_names blk db)))"
proof (induction n arbitrary: rank out)
  case (Suc n)
  define p where "p = db_pers db"
  define t where "t = db_htable db"
  note r = db_okD(1) [OF ok, folded p_def t_def]
  note names = names_of_slots [OF ok, folded p_def t_def]
  let ?N = "name_order (on_card blk p) t (set (occupied_slots t))"
  note n = db_okD(2) [OF ok, folded p_def t_def]
  note d = names_okD [OF n finite_set] name_order_props [of "set (occupied_slots t)" "on_card blk p" t, simplified]
  show ?case
  proof (cases "rank < sa_occupancy (db_name_index db)")
    case True
    then have l: "rank < length (db_names blk db)" by (simp add: names d(2,10))
    have "?N ! rank \<in> set (occupied_slots t)" using nth_mem [of rank ?N] True by (simp add: d(2,6,10))
    then have "?N ! rank \<in> ran (phone_index (on_card blk p) t)" by (simp only: occupied_ran [OF records_okD(4) [OF r], symmetric])
    then obtain ph where ph: "phone_index (on_card blk p) t ph = Some (?N ! rank)" by (auto simp: ran_def)
    have c: "db_names blk db ! rank = slot_contact (on_card blk p) t (?N ! rank)" using l by (simp add: names)
    have e: "sorted_array_get_range (db_name_index db) rank 1 = Some [name_entry (on_card blk p) t (?N ! rank)]"
      using True d(1,3) d(5) [OF True] by (simp add: sorted_array_get_range_def slice_def take_Suc_conv_app_nth hd_drop_conv_nth take_Suc)
    have "contact_rows S db rank (Suc n) out = contact_rows S db (rank + 1) n (out @ [db_names blk db ! rank])"
      using e slot_bounds(6) [OF r ph] by (simp add: c name_entry_def p_def t_def)
    also have "\<dots> = (STRG_OK, out @ take (Suc n) (drop rank (db_names blk db)))"
      using Suc.IH l by (simp add: Cons_nth_drop_Suc [symmetric])
    finally show ?thesis .
  next
    case False
    then show ?thesis by (simp add: sorted_array_get_range_def names d(2,10))
  qed
qed simp

lemma contact_list_names:
  assumes ok: "db_ok S ok blk db"
  shows "database_contact_list S db start n =
    (if start < length (db_names blk db) then (STRG_OK, take n (drop start (db_names blk db))) else (STRG_EMPTY, []))"
proof -
  have "sa_occupancy (db_name_index db) = length (db_names blk db)"
    using names_okD(2) [OF db_okD(2) [OF ok] finite_set] name_order_props(5) by (simp add: names_of_slots [OF ok])
  then show ?thesis by (simp add: database_contact_list_def contact_rows_sem [OF ok])
qed

lemma contact_seek_names:
  assumes ok: "db_ok S ok blk db" and arg: "0 \<notin> set prefix"
  shows "database_contact_seek S db prefix = (if \<not> name_arg prefix then Inl STRG_FAIL
    else Inr (length (filter (\<lambda>c. folded_name (name_of c) < folded_name prefix) (db_names blk db))))"
proof (cases "name_arg prefix")
  case True
  define p where "p = db_pers db"
  define t where "t = db_htable db"
  note r = db_okD(1) [OF ok, folded p_def t_def]
  note names = names_of_slots [OF ok, folded p_def t_def]
  let ?N = "name_order (on_card blk p) t (set (occupied_slots t))"
  have "tidy (slot_contact (on_card blk p) t i)" if "i \<in> set ?N" for i
    using that slots_tidyD(4) [OF records_tidy [OF r]] name_order_props(1) [of "set (occupied_slots t)"] by simp
  then have "filter (\<lambda>i. name_part (slot_key (on_card blk p) t i) < prefix_key prefix) ?N =
      filter (\<lambda>i. folded_name (name_of (slot_contact (on_card blk p) t i)) < folded_name prefix) ?N"
    using prefix_before [OF _ arg] by (intro filter_cong) (simp_all add: slot_key_def)
  then show ?thesis
    using seek_sem [OF records_readable [OF r] db_okD(2) [OF ok, folded p_def t_def] records_tidy [OF r], of prefix] True
    by (simp add: database_contact_seek_def args_valid [OF arg] names filter_map o_def p_def t_def name_arg_def)
qed (simp add: database_contact_seek_def args_valid [OF arg])

lemma contact_count_book:
  assumes "db_ok S ok blk db"
  shows "database_contact_count db = Finite_Set.card (dom (dir_book (db_dir blk db)))"
  using book_size(1) index_okD(5) records_okD(4) [OF db_okD(1) [OF assms]]
  by (simp add: database_contact_count_def hash_size_def db_dir_sel)

end

end
