(* ===== verification/Db_Messages.thy ===== *)
theory Db_Messages
  imports Db_Contacts
begin

text \<open>
  The message, chat and call calls of the database against the directory.  Two stores change in
  \<^verbatim>\<open>database_message_add\<close>: the records first, then the message log.
\<close>

definition message_log_loss :: "('c \<Rightarrow> nat \<Rightarrow> byte list) \<Rightarrow> 'c Database \<Rightarrow> nat" where
  "message_log_loss blk db =
     (if history_wraps message_history_kind (blk (dev (db_pers db))) (db_message_history db) then MESSAGE_HISTORY_SECTOR_CAPACITY else 0)"

definition call_log_loss :: "('c \<Rightarrow> nat \<Rightarrow> byte list) \<Rightarrow> 'c Database \<Rightarrow> nat" where
  "call_log_loss blk db =
     (if history_wraps call_history_kind (blk (dev (db_pers db))) (db_call_history db) then CALL_HISTORY_SECTOR_CAPACITY else 0)"

context database_store begin

lemma slot_chat:
  assumes r: "records_ok S ok blk p t" and i: "phone_index (on_card blk p) t ph = Some i"
  shows "message_book (on_card blk p) (blk (dev p)) t ph = Some (chat_msgs (blk (dev p)) (chain (blk (dev p)) t i))"
    "chat (blk (dev p)) (usage_bitmap p) (he_latest_msg_extent (entry_at t i)) (chain (blk (dev p)) t i)"
    "he_latest_msg_extent (entry_at t i) = UINT16_MAX \<longleftrightarrow> chat_msgs (blk (dev p)) (chain (blk (dev p)) t i) = []"
    "chain (blk (dev p)) t i = [] \<longleftrightarrow> chat_msgs (blk (dev p)) (chain (blk (dev p)) t i) = []"
    "he_latest_msg_extent (entry_at t i) < 65536"
proof -
  note o = slot_bounds(3) [OF r i]
  show "message_book (on_card blk p) (blk (dev p)) t ph = Some (chat_msgs (blk (dev p)) (chain (blk (dev p)) t i))"
    using i by (simp add: message_book_def)
  show c: "chat (blk (dev p)) (usage_bitmap p) (he_latest_msg_extent (entry_at t i)) (chain (blk (dev p)) t i)"
    by (rule messages_okD(4) [OF records_okD(3) [OF r] o])
  have "i \<in> set (chat_slots t) \<longleftrightarrow> he_latest_msg_extent (entry_at t i) \<noteq> UINT16_MAX" using o by (simp add: chat_slots_def)
  then show "he_latest_msg_extent (entry_at t i) = UINT16_MAX \<longleftrightarrow> chat_msgs (blk (dev p)) (chain (blk (dev p)) t i) = []"
    using chain_messages [OF records_okD(3) [OF r] o] by simp
  show "chain (blk (dev p)) t i = [] \<longleftrightarrow> chat_msgs (blk (dev p)) (chain (blk (dev p)) t i) = []"
    using c chat_nonempty by (cases "chain (blk (dev p)) t i") auto
  show "he_latest_msg_extent (entry_at t i) < 65536"
    using c msg_sector_bounds(4) by (cases "chain (blk (dev p)) t i") (auto simp: layout)
qed

lemma message_get_chat_simulates:
  assumes ok: "db_ok S ok blk db" and arg: "0 \<notin> set phone"
  shows "database_message_get_chat S db phone start n = dir_message_get_chat phone start n (db_dir blk db)"
proof -
  note r = db_okD(1) [OF ok]
  show ?thesis
  proof (cases "phone_index (on_card blk (db_pers db)) (db_htable db) phone")
    case None
    then show ?thesis using arg
      by (simp add: database_message_get_chat_def dir_message_get_chat_def find_slot [OF r] db_dir_sel message_book_def args_valid)
  next
    case (Some i)
    note c = slot_chat [OF r Some]
    show ?thesis using arg Some c(1,3,4) read_n_messages_chat [OF records_okD(1) [OF r] c(2) chat_length [OF c(2)], of start n]
      by (auto simp: database_message_get_chat_def dir_message_get_chat_def find_slot [OF r] db_dir_sel args_valid)
  qed
qed

lemma message_remove_chat_simulates:
  assumes ok: "db_ok S ok blk db" and arg: "0 \<notin> set phone"
  shows "\<exists>out. database_message_remove_chat S db phone = Some out \<and>
    simulates S ok blk out (dir_message_remove_chat phone (db_dir blk db))"
proof -
  define p where "p = db_pers db"
  define t where "t = db_htable db"
  note r = db_okD(1) [OF ok, folded p_def t_def]
  note sel = db_dir_sel [of blk db, folded p_def t_def]
  note find = find_slot [OF db_okD(1) [OF ok], folded p_def t_def]
  show ?thesis
  proof (cases "phone_arg phone")
    case False
    then show ?thesis using same_simulates [OF ok]
      by (simp add: database_message_remove_chat_def dir_message_remove_chat_def args_valid [OF arg])
  next
    case valid: True
    show ?thesis
    proof (cases "phone_index (on_card blk p) t phone")
      case None
      then show ?thesis using valid same_simulates [OF ok]
        by (simp add: database_message_remove_chat_def dir_message_remove_chat_def args_valid [OF arg] sel message_book_def find)
    next
      case (Some i)
      note c = slot_chat [OF r Some]
      show ?thesis
      proof (cases "he_latest_msg_extent (entry_at t i) = UINT16_MAX")
        case True
        then show ?thesis using valid same_simulates [OF ok] Some c(1,3)
          by (simp add: database_message_remove_chat_def dir_message_remove_chat_def args_valid [OF arg] sel find t_def [symmetric])
      next
        case full: False
        obtain p' t' where h: "hash_remove_message S p t phone = Some (True, t', p')"
          and ix: "pers_ok S ok blk p'" "contacts_ok (blk (dev p')) (usage_bitmap p') t'" "messages_ok (blk (dev p')) (usage_bitmap p') t'"
          and idx: "phone_index (on_card blk p') t' = phone_index (on_card blk p) t"
          and book: "phone_book (on_card blk p') t' = phone_book (on_card blk p) t"
          and msgs: "message_book (on_card blk p') (blk (dev p')) t' = (message_book (on_card blk p) (blk (dev p)) t)(phone \<mapsto> [])"
          and o: "records_only (blk (dev p)) (blk (dev p'))"
          using hash_remove_message_sem [OF records_okD(1,2,3) [OF r], of phone] Some by auto
        have r': "records_ok S ok blk p' t'" unfolding records_ok_def
          using ix book r by (auto simp: records_ok_def ran_def)
        obtain rc co where co: "chat_order_remove (db_chat_order db) i = (rc, co)" "chat_order_ok co"
          "co_chats co = filter (\<lambda>x. x \<noteq> i) (co_chats (db_chat_order db))"
          using chat_order_remove_sem [OF db_okD(3) [OF ok]] by blast
        have occ: "set (occupied_slots t') = set (occupied_slots t)"
          unfolding occupied_ran [OF records_okD(4) [OF r]] occupied_ran [OF records_okD(4) [OF r']] idx ..
        have k: "kept (on_card blk p) t (on_card blk p') t' (set (occupied_slots t))"
          by (intro keptI [OF records_okD(4) [OF r]]) (simp_all add: idx book)
        have n: "names_ok (on_card blk p') t' (set (occupied_slots t')) (db_name_index db)"
          unfolding occ using kept_names [OF k] db_okD(2) [OF ok, folded p_def t_def] by simp
        have cs: "set (co_chats co) = set (chat_slots t')"
        proof -
          have "set (chat_slots t') = set (chat_slots t) - {i}"
            unfolding chat_slots_set [OF r'] chat_slots_set [OF r] idx msgs
            by (rule chats_drop [of "phone_index (on_card blk p) t", OF Some])
              (use indexed_once [OF records_okD(4) [OF r] Some] in blast)+
          then show ?thesis unfolding co(3) using db_okD(4) [OF ok, folded t_def] by auto
        qed
        have recent: "map (slot_phone (on_card blk p') t') (co_chats co) =
            filter (\<lambda>ph. ph \<noteq> phone) (map (slot_phone (on_card blk p) t) (co_chats (db_chat_order db)))"
          unfolding co(3) using db_okD(4) [OF ok, folded t_def] chats_indexed [OF r]
          by (intro recent_drop [OF records_okD(4) [OF r] Some] kept_mono [OF k]) auto
        have slot: "hash_slot_of t' i = i" using slot_bounds(2) [OF r', of phone i] Some idx by simp
        have out: "database_message_remove_chat S db phone = Some (STRG_OK,
            db\<lparr>db_htable := t', db_pers := p', db_name_index := db_name_index db, db_chat_order := co\<rparr>)"
          using valid Some full h co(1) find slot
          by (simp add: database_message_remove_chat_def args_valid [OF arg] p_def t_def Let_def Database.equality)
        have spec: "dir_message_remove_chat phone (db_dir blk db) = (STRG_OK, (db_dir blk db)\<lparr>
            dir_chats := (dir_chats (db_dir blk db))(phone \<mapsto> []),
            dir_recent := filter (\<lambda>ph. ph \<noteq> phone) (dir_recent (db_dir blk db))\<rparr>)"
          unfolding dir_message_remove_chat_def using valid c(1,3) full by (simp add: sel)
        show ?thesis unfolding out spec
          by (rule exI, rule conjI, rule refl, rule step_simulates [OF ok r' _ n co(2) cs])
            (use o recent book msgs in \<open>simp_all add: db_dir_sel p_def t_def\<close>)
      qed
    qed
  qed
qed

subsection \<open>The logs\<close>

text \<open>Adding to a log writes its own sectors and the journal: the records, and the other log, stay.\<close>

lemma log_write_records:
  assumes r: "records_ok S ok blk p t" and p': "pers_ok S ok blk p'" "usage_bitmap p' = usage_bitmap p"
    and o: "outside_same start n (blk (dev p)) (blk (dev p'))" and start: "DATA_SECTOR_TO_RAW MESSAGE_HISTORY_DATA_START_SECTOR \<le> start"
  shows "records_ok S ok blk p' t" "phone_book (on_card blk p') t = phone_book (on_card blk p) t"
    "phone_index (on_card blk p') t = phone_index (on_card blk p) t"
    "message_book (on_card blk p') (blk (dev p')) t = message_book (on_card blk p) (blk (dev p)) t"
    "\<And>i. i \<in> set (occupied_slots t) \<Longrightarrow> slot_contact (on_card blk p') t i = slot_contact (on_card blk p) t i"
proof -
  have os: "only_sectors {k. MESSAGE_HISTORY_DATA_START_SECTOR \<le> k} (blk (dev p)) (blk (dev p'))"
    using o start by (auto simp: only_sectors_def outside_same_def sector_defs layout)
  note cf = contacts_ok_frame [OF records_okD(2) [OF r] os, of "usage_bitmap p'"]
  have cok: "contacts_ok (blk (dev p')) (usage_bitmap p') t" and idx: "phone_index (on_card blk p') t = phone_index (on_card blk p) t"
    and book: "phone_book (on_card blk p') t = phone_book (on_card blk p) t"
    using cf p'(2) by (simp_all add: layout)
  note m = messages_okD [OF records_okD(3) [OF r]]
  have fr: "chat (blk (dev p')) (usage_bitmap p') h ss \<and> chat_msgs (blk (dev p')) ss = chat_msgs (blk (dev p)) ss"
    if "chat (blk (dev p)) (usage_bitmap p) h ss" for h ss
  proof (rule chat_frame [OF _ that])
    fix s assume "s < TOTAL_MESSAGE_SECTOR_SIZE"
    then have "\<not> MESSAGE_HISTORY_DATA_START_SECTOR \<le> MESSAGE_DATA_SECTOR s" by (simp add: sector_defs layout)
    then show "blk (dev p') (DATA_SECTOR_TO_RAW (MESSAGE_DATA_SECTOR s)) = blk (dev p) (DATA_SECTOR_TO_RAW (MESSAGE_DATA_SECTOR s)) \<and>
        (used (usage_bitmap p) (MESSAGE_DATA_SECTOR s) \<longrightarrow> used (usage_bitmap p') (MESSAGE_DATA_SECTOR s))"
      using os p'(2) by (simp only: only_sectors_def mem_Collect_eq) simp
  qed
  have c: "chat (blk (dev p')) (usage_bitmap p') (he_latest_msg_extent (entry_at t i)) (chain (blk (dev p)) t i)"
    if "i \<in> set (occupied_slots t)" for i using fr [OF m(4) [OF that]] by simp
  have "msg_block (blk (dev p')) s = msg_block (blk (dev p)) s" if "s < TOTAL_MESSAGE_SECTOR_SIZE" for s
    by (rule msg_block_same [OF os]) (use that in \<open>simp add: sector_defs layout\<close>)
  then have rt: "rooted (blk (dev p')) (he_sector (entry_at t i)) (chain (blk (dev p)) t i)" if "i \<in> set (occupied_slots t)" for i
    using rooted_same [of "chain (blk (dev p)) t i" "blk (dev p')" "blk (dev p)"] m(6) [OF that] chat_less [OF m(4) [OF that]] by blast
  have mok: "messages_ok (blk (dev p')) (usage_bitmap p') t"
    by (rule messages_okI [of t _ _ "chain (blk (dev p)) t"]) (use m p'(2) c rt in simp_all)
  show r': "records_ok S ok blk p' t" unfolding records_ok_def using p'(1) cok mok book r by (simp add: records_ok_def)
  show "phone_book (on_card blk p') t = phone_book (on_card blk p) t" "phone_index (on_card blk p') t = phone_index (on_card blk p) t"
    using book idx by simp_all
  show "message_book (on_card blk p') (blk (dev p')) t = message_book (on_card blk p) (blk (dev p)) t"
  proof
    fix ph
    show "message_book (on_card blk p') (blk (dev p')) t ph = message_book (on_card blk p) (blk (dev p)) t ph"
    proof (cases "phone_index (on_card blk p) t ph")
      case (Some i)
      have "chain (blk (dev p')) t i = chain (blk (dev p)) t i" by (rule chain_eq [OF c [OF slot_bounds(3) [OF r Some]]])
      then show ?thesis using fr [OF m(4) [OF slot_bounds(3) [OF r Some]]] Some idx by (simp add: message_book_def)
    qed (simp add: message_book_def idx)
  qed
  have "kept (on_card blk p) t (on_card blk p') t (set (occupied_slots t))"
    by (intro keptI [OF records_okD(4) [OF r]]) (simp_all add: idx book)
  then show "\<And>i. i \<in> set (occupied_slots t) \<Longrightarrow> slot_contact (on_card blk p') t i = slot_contact (on_card blk p) t i"
    by (rule kept_slot)
qed

lemma log_write_db:
  assumes ok: "db_ok S ok blk db" and p': "pers_ok S ok blk p'" "usage_bitmap p' = usage_bitmap (db_pers db)"
    and o: "outside_same start n (blk (dev (db_pers db))) (blk (dev p'))" and start: "DATA_SECTOR_TO_RAW MESSAGE_HISTORY_DATA_START_SECTOR \<le> start"
    and db': "db_pers db' = p'" "db_htable db' = db_htable db" "db_name_index db' = db_name_index db" "db_chat_order db' = db_chat_order db"
    and logs: "log_ok message_history_kind S blk (dev p') TOTAL_MESSAGE_HISTORY_SECTOR_SIZE (db_message_history db')"
      "log_ok call_history_kind S blk (dev p') TOTAL_CALL_HISTORY_SECTOR_SIZE (db_call_history db')"
  shows "db_ok S ok blk db'" "dir_book (db_dir blk db') = dir_book (db_dir blk db)" "dir_chats (db_dir blk db') = dir_chats (db_dir blk db)"
    "dir_recent (db_dir blk db') = dir_recent (db_dir blk db)"
proof -
  note f = log_write_records [OF db_okD(1) [OF ok] p' o start]
  have "names_ok (on_card blk p') (db_htable db) (set (occupied_slots (db_htable db))) (db_name_index db)"
    using names_ok_cong [OF db_okD(2) [OF ok] finite_set] f(5) by blast
  moreover have "blk (dev p') SUPERHEADER_SECTOR = blk (dev (db_pers db)) SUPERHEADER_SECTOR"
    using o start by (simp add: outside_same_def sector_defs layout)
  ultimately show "db_ok S ok blk db'"
    unfolding db_ok_def using f(1) db' logs db_okD(3,4,7) [OF ok] by (simp add: superheader_good_def)
  show "dir_book (db_dir blk db') = dir_book (db_dir blk db)" "dir_chats (db_dir blk db') = dir_chats (db_dir blk db)"
    using f(2,4) db' by (simp_all add: db_dir_sel)
  show "dir_recent (db_dir blk db') = dir_recent (db_dir blk db)"
    using f(5) db' db_okD(4) [OF ok] chats_indexed [OF db_okD(1) [OF ok]] by (auto simp: db_dir_sel)
qed

lemma message_log_add:
  assumes ok: "db_ok S ok blk db" and e: "message_history_entry_wf e"
  shows "\<exists>rb' p'. message_history_add S (db_pers db) (db_message_history db) e = Some (STRG_OK, rb', p') \<and>
    db_ok S ok blk (db\<lparr>db_message_history := rb', db_pers := p'\<rparr>) \<and>
    db_dir blk (db\<lparr>db_message_history := rb', db_pers := p'\<rparr>) = (db_dir blk db)\<lparr>dir_messages := mh_message e #
      take (length (dir_messages (db_dir blk db)) - message_log_loss blk db) (dir_messages (db_dir blk db))\<rparr>"
proof -
  define p where "p = db_pers db"
  note p = records_okD(1) [OF db_okD(1) [OF ok], folded p_def]
  note l = db_okD(5,6) [OF ok, folded p_def]
  have h: "history_ok message_history_kind (blk (dev p)) (capacity S (dev p)) (db_message_history db)"
    "rb_size (db_message_history db) = TOTAL_MESSAGE_HISTORY_SECTOR_SIZE" using l(1) by (simp_all add: log_ok_def)
  obtain rb' p' where a: "message_history_add S p (db_message_history db) e = Some (STRG_OK, rb', p')" "pers_ok S ok blk p'"
    "usage_bitmap p' = usage_bitmap p" "rb_size rb' = rb_size (db_message_history db)"
    "history_ok message_history_kind (blk (dev p')) (capacity S (dev p')) rb'"
    "history_list message_history_kind (blk (dev p')) rb' = e # take (length (history_list message_history_kind (blk (dev p))
      (db_message_history db)) - (if history_wraps message_history_kind (blk (dev p)) (db_message_history db) then hk_cap message_history_kind
      else 0)) (history_list message_history_kind (blk (dev p)) (db_message_history db))"
    "outside_same (history_base message_history_kind) (rb_size (db_message_history db)) (blk (dev p)) (blk (dev p'))"
    using msgs.add_spec [OF p h(1) e] unfolding message_history_add_def by blast
  have o: "blk (dev p') (history_base call_history_kind + i) = blk (dev p) (history_base call_history_kind + i)" for i
    using a(7) unfolding outside_same_def h(2) by (simp add: history_bases layout)
  note c = log_frame [OF l(2) o log_capacity(2) [OF a(2)]]
  have start: "DATA_SECTOR_TO_RAW MESSAGE_HISTORY_DATA_START_SECTOR \<le> history_base message_history_kind"
    by (simp add: history_bases sector_defs layout)
  let ?db = "db\<lparr>db_message_history := rb', db_pers := p'\<rparr>"
  note w = log_write_db [OF ok a(2) a(3) [unfolded p_def] a(7) [unfolded p_def] start, of ?db, simplified]
  have m: "log_ok message_history_kind S blk (dev p') TOTAL_MESSAGE_HISTORY_SECTOR_SIZE rb'" using a(4,5) h(2) by (simp add: log_ok_def)
  have cap: "hk_cap message_history_kind = MESSAGE_HISTORY_SECTOR_CAPACITY" by (simp add: message_history_kind_def)
  have "db_dir blk ?db = (db_dir blk db)\<lparr>dir_messages := mh_message e #
      take (length (dir_messages (db_dir blk db)) - message_log_loss blk db) (dir_messages (db_dir blk db))\<rparr>"
    using w(2-4) [OF m c(1)] a(6) c(2)
    by (intro Directory.equality) (simp_all add: db_dir_sel db_message_log_def db_call_log_def message_log_loss_def cap p_def take_map)
  then show ?thesis using a(1) w(1) [OF m c(1)] by (simp add: p_def)
qed

lemma call_log_add:
  assumes ok: "db_ok S ok blk db" and e: "call_history_entry_wf e"
  shows "\<exists>rb' p'. call_history_add S (db_pers db) (db_call_history db) e = Some (STRG_OK, rb', p') \<and>
    db_ok S ok blk (db\<lparr>db_call_history := rb', db_pers := p'\<rparr>) \<and>
    db_dir blk (db\<lparr>db_call_history := rb', db_pers := p'\<rparr>) = (db_dir blk db)\<lparr>dir_calls := ch_contact e #
      take (length (dir_calls (db_dir blk db)) - call_log_loss blk db) (dir_calls (db_dir blk db))\<rparr>"
proof -
  define p where "p = db_pers db"
  note p = records_okD(1) [OF db_okD(1) [OF ok], folded p_def]
  note l = db_okD(5,6) [OF ok, folded p_def]
  have h: "history_ok call_history_kind (blk (dev p)) (capacity S (dev p)) (db_call_history db)"
    "rb_size (db_call_history db) = TOTAL_CALL_HISTORY_SECTOR_SIZE" using l(2) by (simp_all add: log_ok_def)
  obtain rb' p' where a: "call_history_add S p (db_call_history db) e = Some (STRG_OK, rb', p')" "pers_ok S ok blk p'"
    "usage_bitmap p' = usage_bitmap p" "rb_size rb' = rb_size (db_call_history db)"
    "history_ok call_history_kind (blk (dev p')) (capacity S (dev p')) rb'"
    "history_list call_history_kind (blk (dev p')) rb' = e # take (length (history_list call_history_kind (blk (dev p))
      (db_call_history db)) - (if history_wraps call_history_kind (blk (dev p)) (db_call_history db) then hk_cap call_history_kind
      else 0)) (history_list call_history_kind (blk (dev p)) (db_call_history db))"
    "outside_same (history_base call_history_kind) (rb_size (db_call_history db)) (blk (dev p)) (blk (dev p'))"
    using calls.add_spec [OF p h(1) e] unfolding call_history_add_def by blast
  have o: "blk (dev p') (history_base message_history_kind + i) = blk (dev p) (history_base message_history_kind + i)"
    if "i < TOTAL_MESSAGE_HISTORY_SECTOR_SIZE" for i
    using a(7) that unfolding outside_same_def by (simp add: history_bases layout)
  note c = log_frame [OF l(1) o log_capacity(1) [OF a(2)]]
  have start: "DATA_SECTOR_TO_RAW MESSAGE_HISTORY_DATA_START_SECTOR \<le> history_base call_history_kind"
    by (simp add: history_bases sector_defs layout)
  let ?db = "db\<lparr>db_call_history := rb', db_pers := p'\<rparr>"
  note w = log_write_db [OF ok a(2) a(3) [unfolded p_def] a(7) [unfolded p_def] start, of ?db, simplified]
  have m: "log_ok call_history_kind S blk (dev p') TOTAL_CALL_HISTORY_SECTOR_SIZE rb'" using a(4,5) h(2) by (simp add: log_ok_def)
  have cap: "hk_cap call_history_kind = CALL_HISTORY_SECTOR_CAPACITY" by (simp add: call_history_kind_def)
  have "db_dir blk ?db = (db_dir blk db)\<lparr>dir_calls := ch_contact e #
      take (length (dir_calls (db_dir blk db)) - call_log_loss blk db) (dir_calls (db_dir blk db))\<rparr>"
    using w(2-4) [OF c(1) m] a(6) c(2)
    by (intro Directory.equality) (simp_all add: db_dir_sel db_message_log_def db_call_log_def call_log_loss_def cap p_def take_map)
  then show ?thesis using a(1) w(1) [OF c(1) m] by (simp add: p_def)
qed

lemma call_add_simulates:
  assumes ok: "db_ok S ok blk db" and arg: "0 \<notin> set phone"
  shows "\<exists>out. database_call_add S db phone = Some out \<and>
    simulates S ok blk out (dir_call_add (call_log_loss blk db) phone (db_dir blk db))"
proof (cases "phone_arg phone")
  case False
  then show ?thesis using same_simulates [OF ok] by (simp add: database_call_add_def dir_call_add_def args_valid [OF arg])
next
  case True
  note r = db_okD(1) [OF ok]
  show ?thesis
  proof (cases "phone_index (on_card blk (db_pers db)) (db_htable db) phone")
    case None
    let ?e = "\<lparr>ch_contact_index = UINT16_MAX, ch_contact = create_contact [] phone, ch_padding = 0\<rparr>"
    have "call_history_entry_wf ?e" by (simp add: call_history_entry_wf_def layout)
    from call_log_add [OF ok this] True None show ?thesis
      by (auto simp: database_call_add_def dir_call_add_def args_valid [OF arg] find_slot [OF r] simulates_def db_dir_sel phone_book_def)
  next
    case (Some i)
    note b = slot_bounds [OF r Some]
    let ?c = "slot_contact (on_card blk (db_pers db)) (db_htable db) i"
    let ?e = "\<lparr>ch_contact_index = he_sector (entry_at (db_htable db) i), ch_contact = ?c, ch_padding = 0\<rparr>"
    have "contact_wf ?c" using records_okD(5) [OF r b(4)] by (simp add: tidy_def)
    moreover have "he_sector (entry_at (db_htable db) i) < 65536"
      using index_okD(3) [OF records_okD(4) [OF r] b(3)] by (simp add: entry_ok_def Let_def layout)
    ultimately have "call_history_entry_wf ?e" by (simp add: call_history_entry_wf_def)
    from call_log_add [OF ok this] True Some b(4,6) show ?thesis
      by (auto simp: database_call_add_def dir_call_add_def args_valid [OF arg] find_slot [OF r] simulates_def db_dir_sel)
  qed
qed

subsection \<open>Adding a message\<close>

lemma insert_message_step:
  assumes r: "records_ok S ok blk p t" and m: "message_wf m" and ph: "phone_arg phone"
    and room: "avail (ht_message_allocator t) \<noteq> {}"
    and space: "phone_index (on_card blk p) t phone \<noteq> None \<or> length (occupied_slots t) \<noteq> HASH_TABLE_ENTRIES"
  shows "\<exists>t' p' e. hash_insert_message S p t phone m = (True, t', p') \<and> records_ok S ok blk p' t' \<and>
    records_only (blk (dev p)) (blk (dev p')) \<and>
    phone_book (on_card blk p') t' = (if phone_index (on_card blk p) t phone = None
      then (phone_book (on_card blk p) t)(phone \<mapsto> create_contact [] phone) else phone_book (on_card blk p) t) \<and>
    message_book (on_card blk p') (blk (dev p')) t' = (message_book (on_card blk p) (blk (dev p)) t)
      (phone \<mapsto> m # (case message_book (on_card blk p) (blk (dev p)) t phone of None \<Rightarrow> [] | Some ms \<Rightarrow> ms)) \<and>
    phone_index (on_card blk p') t' = (phone_index (on_card blk p) t)(phone \<mapsto> e) \<and>
    (case phone_index (on_card blk p) t phone of None \<Rightarrow> e \<notin> set (occupied_slots t) | Some i \<Rightarrow> e = i)"
proof -
  have a: "0 \<notin> set phone" "length phone < MAX_PHONE_LEN" using ph by (simp_all add: phone_arg_def)
  obtain i t' p' where w: "hash_insert_message S p t phone m = (i, t', p')" by (metis prod_cases3)
  note sem = hash_insert_message_sem [OF records_okD(1,2,3) [OF r] m a room w]
  then have s: "i" "pers_ok S ok blk p'" "contacts_ok (blk (dev p')) (usage_bitmap p') t'" "messages_ok (blk (dev p')) (usage_bitmap p') t'"
    "phone_book (on_card blk p') t' = (if phone_index (on_card blk p) t phone = None
      then (phone_book (on_card blk p) t)(phone \<mapsto> create_contact [] phone) else phone_book (on_card blk p) t)"
    using space by (auto split: if_splits)
  have "tidy c" if "c \<in> ran (phone_book (on_card blk p') t')" for c
    using that records_okD(5) [OF r] create_contact_tidy(1) [of "[]" phone] ph
    by (auto simp: s(5) ran_def name_arg_def split: if_splits)
  then have "records_ok S ok blk p' t'" using s(2,3,4) by (simp add: records_ok_def)
  then show ?thesis using sem s w space by (auto split: if_splits)
qed

lemma message_step_kept:
  assumes "index_ok cs t" and "index_ok cs' t'" and "phone_index cs' t' = (phone_index cs t)(phone \<mapsto> e)"
    and "case phone_index cs t phone of None \<Rightarrow> e \<notin> set (occupied_slots t) | Some i \<Rightarrow> e = i"
    and "phone_book cs' t' = (if phone_index cs t phone = None then (phone_book cs t)(phone \<mapsto> c) else phone_book cs t)"
  shows "kept cs t cs' t' (set (occupied_slots t))" "set (occupied_slots t') = insert e (set (occupied_slots t))"
proof -
  show "kept cs t cs' t' (set (occupied_slots t))"
    using assms(4) by (intro keptI [OF assms(1)]) (auto simp: assms(3,5) split: option.splits)
  have "ran ((phone_index cs t)(phone \<mapsto> e)) = insert e (ran (phone_index cs t))"
  proof (cases "phone_index cs t phone")
    case (Some i)
    then have "(phone_index cs t)(phone \<mapsto> e) = phone_index cs t" "e \<in> ran (phone_index cs t)"
      using assms(4) by (auto simp: fun_eq_iff intro: ranI)
    then show ?thesis by auto
  qed (simp add: ran_map_upd)
  then show "set (occupied_slots t') = insert e (set (occupied_slots t))"
    unfolding occupied_ran [OF assms(1)] occupied_ran [OF assms(2)] assms(3) .
qed

lemma index_slot_phone:
  assumes "index_ok cs t" and "case phone_index cs t phone of None \<Rightarrow> e \<notin> set (occupied_slots t) | Some i \<Rightarrow> e = i"
    and "x \<in> set (occupied_slots t)"
  shows "slot_phone cs t x = phone \<longleftrightarrow> x = e"
proof -
  have "phone_index cs t phone = Some x \<longleftrightarrow> slot_phone cs t x = phone"
    using phone_index_Some [OF index_okD(4) [OF assms(1)]] assms(3) by simp
  then show ?thesis using assms(2,3) by (auto split: option.splits)
qed

lemma touch_room:
  assumes r: "records_ok S ok blk p t" and co: "chat_order_ok co" and e: "e \<in> set (occupied_slots t)"
    and sub: "set (co_chats co) \<subseteq> set (occupied_slots t)"
  shows "e \<in> set (co_chats co) \<or> co_occupancy co < CHAT_ORDER_ENTRIES"
proof (cases "e \<in> set (co_chats co)")
  case False
  have "co_occupancy co = Finite_Set.card (set (co_chats co))" using chat_order_okD(3,4) [OF co] by (simp add: distinct_card)
  also have "\<dots> < Finite_Set.card (set (occupied_slots t))" using False e sub by (intro psubset_card_mono) auto
  also have "\<dots> = length (occupied_slots t)" by (rule distinct_card [OF sorted_occupied_slots(2)])
  also have "\<dots> \<le> CHAT_ORDER_ENTRIES" using occupied_bound(2) [OF records_okD(2) [OF r]] by (simp add: CHAT_ORDER_ENTRIES_def)
  finally show ?thesis by simp
qed simp

text \<open>The records part of \<^verbatim>\<open>database_message_add\<close>: all of it but the log entry.\<close>

definition dir_chat_add :: "byte list \<Rightarrow> Message \<Rightarrow> Directory \<Rightarrow> Directory" where
  "dir_chat_add phone m D =
     D\<lparr>dir_book := (if dir_book D phone = None then (dir_book D)(phone \<mapsto> create_contact [] phone) else dir_book D),
       dir_chats := (dir_chats D)(phone \<mapsto> m # (case dir_chats D phone of None \<Rightarrow> [] | Some ms \<Rightarrow> ms)),
       dir_recent := phone # filter (\<lambda>ph. ph \<noteq> phone) (dir_recent D)\<rparr>"

lemma chat_add_records:
  assumes ok: "db_ok S ok blk db" and m: "message_wf m" and ph: "phone_arg phone"
    and room: "avail (ht_message_allocator (db_htable db)) \<noteq> {}"
    and space: "dir_book (db_dir blk db) phone \<noteq> None \<or> Finite_Set.card (dom (dir_book (db_dir blk db))) \<noteq> HASH_TABLE_ENTRIES"
  defines "new \<equiv> dir_book (db_dir blk db) phone = None"
  shows "\<exists>t' p' e sa' co'. hash_insert_message S (db_pers db) (db_htable db) phone m = (True, t', p') \<and>
    find_occupied S (db\<lparr>db_htable := t', db_pers := p'\<rparr>) phone = Inr e \<and> hash_slot_of t' e = e \<and>
    (if new then sorted_array_insert S p' (ht_htable t') (db_name_index db) (create_contact [] phone) e = (STRG_OK, sa')
     else sa' = db_name_index db) \<and>
    chat_order_touch (db_chat_order db) e = (STRG_OK, co') \<and> he_latest_msg_extent (entry_at t' e) < 65536 \<and>
    records_only (blk (dev (db_pers db))) (blk (dev p')) \<and>
    simulates S ok blk (STRG_OK, db\<lparr>db_htable := t', db_pers := p', db_name_index := sa', db_chat_order := co'\<rparr>)
      (STRG_OK, dir_chat_add phone m (db_dir blk db))"
proof -
  define p where "p = db_pers db"
  define t where "t = db_htable db"
  note r = db_okD(1) [OF ok, folded p_def t_def]
  note sel = db_dir_sel [of blk db, folded p_def t_def]
  note l = db_okD(3) [OF ok] db_okD(4) [OF ok, folded t_def]
  have new: "new \<longleftrightarrow> phone_index (on_card blk p) t phone = None" by (simp add: new_def sel phone_book_def)
  have "phone_index (on_card blk p) t phone \<noteq> None \<or> length (occupied_slots t) \<noteq> HASH_TABLE_ENTRIES"
    using space book_size(1) [OF records_okD(4) [OF r]] by (auto simp: sel phone_book_def)
  from insert_message_step [OF r m ph room [folded t_def] this]
  obtain t' p' e where h: "hash_insert_message S p t phone m = (True, t', p')" and r': "records_ok S ok blk p' t'"
    and o: "records_only (blk (dev p)) (blk (dev p'))"
    and book: "phone_book (on_card blk p') t' = (if phone_index (on_card blk p) t phone = None
      then (phone_book (on_card blk p) t)(phone \<mapsto> create_contact [] phone) else phone_book (on_card blk p) t)"
    and msgs: "message_book (on_card blk p') (blk (dev p')) t' = (message_book (on_card blk p) (blk (dev p)) t)
      (phone \<mapsto> m # (case message_book (on_card blk p) (blk (dev p)) t phone of None \<Rightarrow> [] | Some ms \<Rightarrow> ms))"
    and idx: "phone_index (on_card blk p') t' = (phone_index (on_card blk p) t)(phone \<mapsto> e)"
    and e: "case phone_index (on_card blk p) t phone of None \<Rightarrow> e \<notin> set (occupied_slots t) | Some i \<Rightarrow> e = i"
    by blast
  have ie: "phone_index (on_card blk p') t' phone = Some e" by (simp add: idx)
  note k = message_step_kept [OF records_okD(4) [OF r] records_okD(4) [OF r'] idx e book]
  have find: "find_occupied S (db\<lparr>db_htable := t', db_pers := p'\<rparr>) phone = Inr e"
    using find_slot [of "db\<lparr>db_htable := t', db_pers := p'\<rparr>" phone] r' ie by simp
  have n: "names_ok (on_card blk p') t' (set (occupied_slots t)) (db_name_index db)"
    using kept_names [OF k(1)] db_okD(2) [OF ok, folded p_def t_def] by simp
  have "\<exists>sa'. (if new then sorted_array_insert S p' (ht_htable t') (db_name_index db) (create_contact [] phone) e = (STRG_OK, sa')
     else sa' = db_name_index db) \<and> names_ok (on_card blk p') t' (set (occupied_slots t')) sa'"
  proof (cases new)
    case True
    then have "set (occupied_slots t') - {e} = set (occupied_slots t)" using e k(2) by (auto simp: new)
    then show ?thesis using list_slot [OF r' ie, of "db_name_index db" "create_contact [] phone"] n True book by (simp add: new)
  next
    case False
    then have "e \<in> set (occupied_slots t)" using e slot_bounds(3) [OF r, of phone] by (auto simp: new split: option.splits)
    then show ?thesis using n False k(2) by (simp add: insert_absorb)
  qed
  then obtain sa' where sa: "if new then sorted_array_insert S p' (ht_htable t') (db_name_index db) (create_contact [] phone) e = (STRG_OK, sa')
     else sa' = db_name_index db" "names_ok (on_card blk p') t' (set (occupied_slots t')) sa'" by blast
  have sub: "set (co_chats (db_chat_order db)) \<subseteq> set (occupied_slots t)" using l(2) chats_indexed [OF r] by simp
  obtain co' where co: "chat_order_touch (db_chat_order db) e = (STRG_OK, co')" "chat_order_ok co'"
    "co_chats co' = e # filter (\<lambda>x. x \<noteq> e) (co_chats (db_chat_order db))"
    using chat_order_touch_sem [OF l(1) touch_room [OF r' l(1) slot_bounds(3) [OF r' ie]]] sub k(2) by blast
  have cs: "set (co_chats co') = set (chat_slots t')"
  proof -
    have "set (chat_slots t') = insert e (set (chat_slots t) - {e})"
      unfolding chat_slots_set [OF r'] chat_slots_set [OF r] idx msgs
    proof (rule chats_add)
      show "b = phone" if b: "phone_index (on_card blk p) t b = Some e" for b
        using index_slot_phone [OF records_okD(4) [OF r] e] indexed [OF records_okD(4) [OF r] b] by blast
      show "phone_index (on_card blk p) t phone = None \<or> phone_index (on_card blk p) t phone = Some e"
        using e by (auto split: option.splits)
    qed
    then show ?thesis unfolding co(3) using l(2) by auto
  qed
  have recent: "map (slot_phone (on_card blk p') t') (co_chats co') =
      phone # filter (\<lambda>ph. ph \<noteq> phone) (map (slot_phone (on_card blk p) t) (co_chats (db_chat_order db)))"
  proof -
    have "filter (\<lambda>ph. ph \<noteq> phone) (map (slot_phone (on_card blk p) t) (co_chats (db_chat_order db))) =
        map (slot_phone (on_card blk p) t) (filter (\<lambda>x. x \<noteq> e) (co_chats (db_chat_order db)))"
      unfolding filter_map o_def using sub index_slot_phone [OF records_okD(4) [OF r] e]
      by (intro arg_cong [of _ _ "map _"] filter_cong) auto
    moreover have "kept (on_card blk p) t (on_card blk p') t' (set (filter (\<lambda>x. x \<noteq> e) (co_chats (db_chat_order db))))"
      by (rule kept_mono [OF k(1)]) (use sub in auto)
    then have "map (slot_phone (on_card blk p') t') (filter (\<lambda>x. x \<noteq> e) (co_chats (db_chat_order db))) =
        map (slot_phone (on_card blk p) t) (filter (\<lambda>x. x \<noteq> e) (co_chats (db_chat_order db)))" by (rule kept_phones)
    ultimately show ?thesis using slot_bounds(5) [OF r' ie] by (simp add: co(3))
  qed
  have "simulates S ok blk (STRG_OK, db\<lparr>db_htable := t', db_pers := p', db_name_index := sa', db_chat_order := co'\<rparr>)
      (STRG_OK, dir_chat_add phone m (db_dir blk db))"
    by (rule step_simulates [OF ok r' _ sa(2) co(2) cs])
      (use o recent book msgs in \<open>simp_all add: db_dir_sel dir_chat_add_def p_def t_def phone_book_def\<close>)
  then show ?thesis using h find slot_bounds(2) [OF r' ie] sa(1) co(1) slot_chat(5) [OF r' ie] o
    unfolding p_def t_def by blast
qed

lemma message_add_simulates:
  assumes ok: "db_ok S ok blk db" and arg: "0 \<notin> set phone" and ts: "timestamp < 2 ^ 32"
    and room: "avail (ht_message_allocator (db_htable db)) \<noteq> {}"
  shows "\<exists>out. database_message_add S db phone timestamp direction str = Some out \<and>
    simulates S ok blk out (dir_message_add (message_log_loss blk db) phone timestamp direction str (db_dir blk db))"
proof (cases "phone_arg phone \<and> timestamp \<noteq> 0")
  case False
  then show ?thesis using same_simulates [OF ok]
    by (auto simp: database_message_add_def dir_message_add_def args_valid [OF arg])
next
  case valid: True
  define m where "m = create_message timestamp direction (Some str)"
  have m: "message_wf m" using create_message_wf [OF ts] by (simp add: m_def)
  note r = db_okD(1) [OF ok]
  have new: "(case find_occupied S db phone of Inl _ \<Rightarrow> True | Inr _ \<Rightarrow> False) \<longleftrightarrow> dir_book (db_dir blk db) phone = None"
    by (auto simp: find_slot [OF r] db_dir_sel phone_book_def split: option.splits)
  show ?thesis
  proof (cases "dir_book (db_dir blk db) phone = None \<and> Finite_Set.card (dom (dir_book (db_dir blk db))) = HASH_TABLE_ENTRIES")
    case True
    then have full: "phone_index (on_card blk (db_pers db)) (db_htable db) phone = None" "length (occupied_slots (db_htable db)) = HASH_TABLE_ENTRIES"
      using book_size(1) [OF records_okD(4) [OF r]] by (simp_all add: db_dir_sel phone_book_def)
    obtain i t' p' where w: "hash_insert_message S (db_pers db) (db_htable db) phone m = (i, t', p')" by (metis prod_cases3)
    have "\<not> i" "t' = db_htable db" "p' = db_pers db"
      using hash_insert_message_sem [OF records_okD(1,2,3) [OF r] m arg _ room w] full valid by (simp_all add: phone_arg_def)
    then have "database_message_add S db phone timestamp direction str = Some (STRG_FAIL, db)"
      using w valid by (simp add: database_message_add_def args_valid [OF arg] m_def Let_def)
    then show ?thesis using same_simulates [OF ok] True valid by (simp add: dir_message_add_def)
  next
    case False
    then have "dir_book (db_dir blk db) phone \<noteq> None \<or> Finite_Set.card (dom (dir_book (db_dir blk db))) \<noteq> HASH_TABLE_ENTRIES" by simp
    from chat_add_records [OF ok m conjunct1 [OF valid] room this]
    obtain t' p' e sa' co' where h: "hash_insert_message S (db_pers db) (db_htable db) phone m = (True, t', p')"
      and f: "find_occupied S (db\<lparr>db_htable := t', db_pers := p'\<rparr>) phone = Inr e" "hash_slot_of t' e = e"
      and sa: "if dir_book (db_dir blk db) phone = None
        then sorted_array_insert S p' (ht_htable t') (db_name_index db) (create_contact [] phone) e = (STRG_OK, sa') else sa' = db_name_index db"
      and co: "chat_order_touch (db_chat_order db) e = (STRG_OK, co')" "he_latest_msg_extent (entry_at t' e) < 65536"
      and o: "records_only (blk (dev (db_pers db))) (blk (dev p'))"
      and sim: "simulates S ok blk (STRG_OK, db\<lparr>db_htable := t', db_pers := p', db_name_index := sa', db_chat_order := co'\<rparr>)
        (STRG_OK, dir_chat_add phone m (db_dir blk db))" by blast
    define db1 where "db1 = db\<lparr>db_htable := t', db_pers := p', db_name_index := sa', db_chat_order := co'\<rparr>"
    have ok1: "db_ok S ok blk db1" and dir1: "db_dir blk db1 = dir_chat_add phone m (db_dir blk db)"
      using sim by (simp_all add: simulates_def db1_def)
    define entry where "entry = \<lparr>mh_msgInd = he_latest_msg_extent (entry_at t' e), mh_message = m\<rparr>"
    have "message_history_entry_wf entry" using m co(2) by (simp add: entry_def message_history_entry_wf_def)
    from message_log_add [OF ok1 this] obtain rb' p'' where a:
      "message_history_add S p' (db_message_history db) entry = Some (STRG_OK, rb', p'')"
      "db_ok S ok blk (db1\<lparr>db_message_history := rb', db_pers := p''\<rparr>)"
      "db_dir blk (db1\<lparr>db_message_history := rb', db_pers := p''\<rparr>) = (db_dir blk db1)\<lparr>dir_messages := mh_message entry #
        take (length (dir_messages (db_dir blk db1)) - message_log_loss blk db1) (dir_messages (db_dir blk db1))\<rparr>"
      by (auto simp: db1_def)
    have loss: "message_log_loss blk db1 = message_log_loss blk db"
      using o by (simp add: message_log_loss_def history_wraps_def history_sec_def history_base_raw db1_def only_sectors_def layout)
    have run: "database_message_add S db phone timestamp direction str =
        Some (STRG_OK, db1\<lparr>db_message_history := rb', db_pers := p''\<rparr>)"
    proof (cases "dir_book (db_dir blk db) phone = None")
      case True
      then show ?thesis using valid h f sa co(1) a(1) new unfolding entry_def m_def db1_def
        by (simp add: database_message_add_def args_valid [OF arg] Let_def)
    next
      case False
      then have sa: "sa' = db_name_index db" using sa by (simp only: if_False simp_thms)
      then have old: "\<not> (case find_occupied S db phone of Inl _ \<Rightarrow> True | Inr _ \<Rightarrow> False)" using False new by (simp only: simp_thms)
      then show ?thesis using valid h f co(1) a(1) unfolding entry_def m_def db1_def sa
        by (simp add: database_message_add_def args_valid [OF arg] Let_def)
    qed
    have "dir_message_add (message_log_loss blk db) phone timestamp direction str (db_dir blk db) =
        (STRG_OK, db_dir blk (db1\<lparr>db_message_history := rb', db_pers := p''\<rparr>))"
      unfolding a(3) dir1 loss using valid False
      by (simp add: dir_message_add_def dir_chat_add_def m_def entry_def Let_def)
    then show ?thesis using run a(2) by (simp add: simulates_def)
  qed
qed

subsection \<open>Reading\<close>

lemma message_recent_log:
  assumes ok: "db_ok S ok blk db" and start: "start < 2 ^ 32 - 1"
  shows "database_message_recent S db start n = (let L = db_message_log blk db
    in if L = [] \<or> start < length L then (STRG_OK, take n (drop start L)) else (STRG_FAIL, []))"
proof -
  let ?p = "db_pers db" and ?rb = "db_message_history db"
  have h: "history_ok message_history_kind (blk (dev ?p)) (capacity S (dev ?p)) ?rb" using db_okD(5) [OF ok] by (simp add: log_ok_def)
  have d: "ok (dev ?p)" by (rule pers_okD(1) [OF records_okD(1) [OF db_okD(1) [OF ok]]])
  have "db_message_log blk db = [] \<longleftrightarrow> rb_occupancy ?rb = 0"
    using msgs.list_empty [OF d h] by (simp add: db_message_log_def)
  moreover have "(start - 1) div hk_cap message_history_kind < 2147483647" using start by (simp add: message_history_kind_def layout)
  ultimately show ?thesis using msgs.range_spec [OF d h, of start n]
    by (auto simp: database_message_recent_def message_history_get_range_def db_message_log_def Let_def)
qed

lemma call_recent_log:
  assumes ok: "db_ok S ok blk db" and start: "start < 2 ^ 32 - 1"
  shows "database_call_recent S db start n = (let L = db_call_log blk db
    in if L = [] \<or> start < length L then (STRG_OK, take n (drop start L)) else (STRG_FAIL, []))"
proof -
  let ?p = "db_pers db" and ?rb = "db_call_history db"
  have h: "history_ok call_history_kind (blk (dev ?p)) (capacity S (dev ?p)) ?rb" using db_okD(6) [OF ok] by (simp add: log_ok_def)
  have d: "ok (dev ?p)" by (rule pers_okD(1) [OF records_okD(1) [OF db_okD(1) [OF ok]]])
  have "db_call_log blk db = [] \<longleftrightarrow> rb_occupancy ?rb = 0"
    using calls.list_empty [OF d h] by (simp add: db_call_log_def)
  moreover have "(start - 1) div hk_cap call_history_kind < 2147483647" using start by (simp add: call_history_kind_def layout)
  ultimately show ?thesis using calls.range_spec [OF d h, of start n]
    by (auto simp: database_call_recent_def call_history_get_range_def db_call_log_def Let_def)
qed

lemma recent_indexed:
  assumes ok: "db_ok S ok blk db" and i: "i \<in> set (co_chats (db_chat_order db))"
  shows "\<exists>m ms. phone_index (on_card blk (db_pers db)) (db_htable db) (slot_phone (on_card blk (db_pers db)) (db_htable db) i) = Some i \<and>
    dir_chats (db_dir blk db) (slot_phone (on_card blk (db_pers db)) (db_htable db) i) = Some (m # ms)"
proof -
  note r = db_okD(1) [OF ok]
  have "i \<in> set (chat_slots (db_htable db))" using i db_okD(4) [OF ok] by simp
  then obtain ph m ms where ph: "phone_index (on_card blk (db_pers db)) (db_htable db) ph = Some i"
    "message_book (on_card blk (db_pers db)) (blk (dev (db_pers db))) (db_htable db) ph = Some (m # ms)"
    unfolding chat_slots_set [OF r] by blast
  then show ?thesis using indexed(2) [OF records_okD(4) [OF r] ph(1)] by (simp add: db_dir_sel)
qed

lemma db_dir_wf:
  assumes ok: "db_ok S ok blk db"
  shows "dir_wf (db_dir blk db)"
proof -
  define p where "p = db_pers db"
  define t where "t = db_htable db"
  note r = db_okD(1) [OF ok, folded p_def t_def]
  note sel = db_dir_sel [of blk db, folded p_def t_def]
  note ix = records_okD(4) [OF r]
  note co = db_okD(3) [OF ok] db_okD(4) [OF ok, folded t_def]
  have sub: "set (co_chats (db_chat_order db)) \<subseteq> set (occupied_slots t)" using co(2) chats_indexed [OF r] by simp
  have "dom (dir_chats (db_dir blk db)) = dom (dir_book (db_dir blk db))" by (auto simp: sel message_book_def phone_book_def)
  moreover have "distinct (dir_recent (db_dir blk db))"
    using chat_order_okD(3) [OF co(1)] inj_on_subset [OF index_ok_inj [OF ix] sub] by (simp add: sel distinct_map)
  moreover have "set (dir_recent (db_dir blk db)) = {ph. \<exists>m ms. dir_chats (db_dir blk db) ph = Some (m # ms)}"
  proof (intro set_eqI iffI)
    fix ph assume "ph \<in> set (dir_recent (db_dir blk db))"
    then obtain i where "i \<in> set (co_chats (db_chat_order db))" "ph = slot_phone (on_card blk p) t i" by (auto simp: sel)
    then show "ph \<in> {ph. \<exists>m ms. dir_chats (db_dir blk db) ph = Some (m # ms)}"
      using recent_indexed [OF ok, of i, folded p_def t_def] by blast
  next
    fix ph assume "ph \<in> {ph. \<exists>m ms. dir_chats (db_dir blk db) ph = Some (m # ms)}"
    then obtain m ms where m: "message_book (on_card blk p) (blk (dev p)) t ph = Some (m # ms)" by (auto simp: sel)
    then obtain i where i: "phone_index (on_card blk p) t ph = Some i" by (auto simp: message_book_def)
    then have "i \<in> set (co_chats (db_chat_order db))" unfolding co(2) chat_slots_set [OF r] using m by blast
    then show "ph \<in> set (dir_recent (db_dir blk db))" using indexed(2) [OF ix i] by (auto simp: sel)
  qed
  moreover have "\<forall>ph c. dir_book (db_dir blk db) ph = Some c \<longrightarrow> phone_of c = ph"
    using indexed(2) [OF ix] by (auto simp: sel phone_book_def)
  moreover have "finite (dom (dir_book (db_dir blk db)))" "Finite_Set.card (dom (dir_book (db_dir blk db))) \<le> HASH_TABLE_ENTRIES"
    using book_size [OF ix] occupied_bound(2) [OF records_okD(2) [OF r]] by (simp_all add: sel)
  ultimately show ?thesis by (simp only: dir_wf_def)
qed

lemma chat_rows_sem:
  assumes ok: "db_ok S ok blk db"
  shows "chat_rows S db rank n out = (STRG_OK, out @ map (\<lambda>ph. \<lparr>csum_contact = the (dir_book (db_dir blk db) ph),
    csum_latest = Some (hd (the (dir_chats (db_dir blk db) ph)))\<rparr>) (take n (drop rank (dir_recent (db_dir blk db)))))"
proof (induction n arbitrary: rank out)
  case (Suc n)
  define p where "p = db_pers db"
  define t where "t = db_htable db"
  define row where "row ph = \<lparr>csum_contact = the (dir_book (db_dir blk db) ph),
    csum_latest = Some (hd (the (dir_chats (db_dir blk db) ph)))\<rparr>" for ph
  note r = db_okD(1) [OF ok, folded p_def t_def]
  note sel = db_dir_sel [of blk db, folded p_def t_def]
  note co = chat_order_okD [OF db_okD(3) [OF ok]]
  note get = chat_order_get_range_sem [OF db_okD(3) [OF ok]]
  have l: "length (dir_recent (db_dir blk db)) = length (co_chats (db_chat_order db))" by (simp add: sel)
  show ?case
  proof (cases "rank < length (co_chats (db_chat_order db))")
    case True
    define i where "i = co_chats (db_chat_order db) ! rank"
    have "i \<in> set (co_chats (db_chat_order db))" using True by (simp add: i_def)
    then obtain m ms where i: "phone_index (on_card blk p) t (slot_phone (on_card blk p) t i) = Some i"
      "dir_chats (db_dir blk db) (slot_phone (on_card blk p) t i) = Some (m # ms)"
      using recent_indexed [OF ok, of i, folded p_def t_def] by blast
    have ph: "dir_recent (db_dir blk db) ! rank = slot_phone (on_card blk p) t i" using True by (simp add: sel i_def)
    note b = slot_bounds(4,6) [OF r i(1)]
    note c = slot_chat [OF r i(1)]
    have ms: "chat_msgs (blk (dev p)) (chain (blk (dev p)) t i) = m # ms" using c(1) i(2) by (simp add: sel)
    then have "chain (blk (dev p)) t i \<noteq> []" by auto
    then have rd: "read_n_messages S p (he_latest_msg_extent (entry_at t i)) 0 1 = (STRG_OK, [m])"
      using read_n_messages_chat [OF records_okD(1) [OF r] c(2) chat_length [OF c(2)], of 0 1] ms by simp
    have g: "chat_order_get_range (db_chat_order db) rank 1 = Some [i]"
      using get [of rank 1] True by (simp add: i_def hd_drop_conv_nth take_Suc)
    have "phone_book (on_card blk (db_pers db)) (db_htable db) (slot_phone (on_card blk p) t i) = Some (slot_contact (on_card blk p) t i)"
      using b(1) by (simp add: p_def t_def)
    then have row: "row (dir_recent (db_dir blk db) ! rank) = \<lparr>csum_contact = slot_contact (on_card blk p) t i, csum_latest = Some m\<rparr>"
      unfolding row_def ph i(2) by (simp add: db_dir_sel)
    have "chat_rows S db rank (Suc n) out = chat_rows S db (rank + 1) n (out @ [row (dir_recent (db_dir blk db) ! rank)])"
      unfolding row using g b(2) rd by (simp add: p_def [symmetric] t_def [symmetric] Let_def)
    also have "\<dots> = (STRG_OK, out @ map row (take (Suc n) (drop rank (dir_recent (db_dir blk db)))))"
      using Suc.IH [of "rank + 1"] True l unfolding row_def [symmetric] by (simp add: Cons_nth_drop_Suc [symmetric])
    finally show ?thesis unfolding row_def .
  next
    case False
    then show ?thesis using get [of rank 1] l by simp
  qed
qed simp

lemma chat_list_simulates:
  assumes ok: "db_ok S ok blk db"
  shows "database_chat_list S db start n = dir_chat_list start n (db_dir blk db)"
    "database_chat_count db = length (dir_recent (db_dir blk db))"
  using chat_order_okD(4) [OF db_okD(3) [OF ok]] chat_rows_sem [OF ok]
  by (simp_all add: database_chat_list_def dir_chat_list_def database_chat_count_def db_dir_sel)

subsection \<open>Rebuilding the indexes\<close>

lemma rebuilt_names:
  assumes ok: "db_ok S ok blk db" and m: "length sa_memory = SORTED_ARRAY_ENTRIES"
  shows "\<exists>sa. sorted_array_build S (db_pers db) (ht_htable (db_htable db)) sa_memory = (STRG_OK, sa) \<and>
    sa_entries sa = sa_entries (db_name_index db)"
proof -
  note r = db_okD(1) [OF ok]
  have "ht_size (db_htable db) = HASH_TABLE_SIZE" "length (occupied_slots (db_htable db)) \<le> HASH_TABLE_ENTRIES"
    using index_okD(2) [OF records_okD(4) [OF r]] occupied_bound(2) [OF records_okD(2) [OF r]] by simp_all
  from sa_build_sem [OF records_readable [OF r] records_tidy [OF r] this m] db_okD(2) [OF ok]
  show ?thesis by (auto simp: names_ok_def)
qed

lemma rebuilt_chats:
  assumes ok: "db_ok S ok blk db" and m: "length co_memory = CHAT_ORDER_ENTRIES"
  shows "\<exists>co. chat_order_build S (db_pers db) (ht_htable (db_htable db)) co_memory latest = (STRG_OK, co) \<and> chat_order_ok co \<and>
    set (co_chats co) = set (co_chats (db_chat_order db)) \<and>
    sorted (map (recency_key (blk (dev (db_pers db))) (db_htable db)) (co_chats co))"
proof -
  note r = db_okD(1) [OF ok]
  have sz: "ht_size (db_htable db) = HASH_TABLE_SIZE" using index_okD(2) [OF records_okD(4) [OF r]] by simp
  have ne: "chat_msgs (blk (dev (db_pers db))) (chain (blk (dev (db_pers db))) (db_htable db) i) \<noteq> []"
    if "i \<in> set (chat_slots (db_htable db))" for i
    using chain_messages [OF records_okD(3) [OF r], of i] chats_indexed [OF r] that by blast
  from chat_order_build_sem [OF records_okD(1,3) [OF r] ne chat_slots_room [OF records_okD(2) [OF r]] sz m, of latest]
  show ?thesis using db_okD(4) [OF ok] by (auto simp: recency_order_def)
qed

end

end
