(* ===== verification/Db_Format.thy ===== *)
theory Db_Format
  imports Db_Messages Formatted_Index
begin

text \<open>
  Formatting a card leaves a database that stands for the empty directory: \<^verbatim>\<open>database_format\<close>
  step by step, from the journal header to the two rings.
\<close>

definition dir_empty :: Directory where
  "dir_empty = \<lparr>dir_book = Map.empty, dir_chats = Map.empty, dir_recent = [], dir_messages = [], dir_calls = []\<rparr>"

definition fresh_table :: "FreeList \<Rightarrow> FreeList \<Rightarrow> HashTable \<Rightarrow> bool" where
  "fresh_table ca ma t \<longleftrightarrow> ht_htable t = entries_cleared \<and> ht_size t = HASH_TABLE_SIZE \<and> ht_num_elems t = 0 \<and>
     ht_contact_allocator t = ca \<and> ht_message_allocator t = ma"

lemma fresh_table_empty:
  assumes "fresh_table ca ma t"
  shows "occupied_slots t = []" "chat_slots t = []" "phone_index cs t = Map.empty" "phone_book cs t = Map.empty"
    "message_book cs blk t = Map.empty" "index_ok cs t" "sectors_used t = {}"
proof -
  show o: "occupied_slots t = []"
    using assms by (simp add: fresh_table_def entries_cleared_def occupied_slots_def filter_empty_conv hash_entry_zero_def)
  then show "chat_slots t = []" "phone_index cs t = Map.empty" "sectors_used t = {}"
    by (simp_all add: chat_slots_def phone_index_def sectors_used_def)
  then show "phone_book cs t = Map.empty" "message_book cs blk t = Map.empty"
    by (simp_all add: fun_eq_iff phone_book_def message_book_def)
  show "index_ok cs t" using assms by (simp add: index_ok_def o fresh_table_def entries_cleared_def)
qed

lemma no_contacts:
  assumes "\<And>i. \<not> used bm i"
  shows "contacts_valid blk bm" "contact_at blk bm s = None"
  using assms by (simp_all add: contacts_valid_def contact_at_def)

text \<open>The static arrays have the sizes of their declarations.\<close>

definition arrays_ok :: "'c Database \<Rightarrow> bool" where
  "arrays_ok db \<longleftrightarrow>
     HASH_TABLE_ENTRIES \<le> length (free_stack (ht_contact_allocator (db_htable db))) \<and>
     TOTAL_MESSAGE_SECTOR_SIZE \<le> length (free_stack (ht_message_allocator (db_htable db))) \<and>
     length (sa_mem (db_name_index db)) = SORTED_ARRAY_ENTRIES \<and> length (co_mem (db_chat_order db)) = CHAT_ORDER_ENTRIES"

context database_store begin

lemma fresh_records:
  assumes p: "pers_ok S ok blk p" and u: "\<And>i. \<not> used (usage_bitmap p) i" and t: "fresh_table ca ma t"
    and ca: "free_list_inv ca" "avail ca = {..<HASH_TABLE_ENTRIES}" "fl_capacity ca = HASH_TABLE_ENTRIES"
    and ma: "free_list_inv ma" "fl_capacity ma = TOTAL_MESSAGE_SECTOR_SIZE"
  shows "records_ok S ok blk p t"
proof -
  note e = fresh_table_empty [OF t]
  have "contacts_ok (blk (dev p)) (usage_bitmap p) t"
    using t ca e(6,7) no_contacts [OF u] by (auto simp: contacts_ok_def none_beyond_def fresh_table_def)
  moreover have "messages_ok (blk (dev p)) (usage_bitmap p) t"
    using t ma u e(1) by (simp add: messages_ok_def fresh_table_def)
  ultimately show ?thesis using p e(4) by (simp add: records_ok_def)
qed

lemma fresh_db:
  assumes r: "records_ok S ok blk (db_pers db) (db_htable db)" and t: "fresh_table ca ma (db_htable db)"
    and names: "db_name_index db = sorted_array_init sam" "length sam = SORTED_ARRAY_ENTRIES"
    and chats: "db_chat_order db = chat_order_init com" "length com = CHAT_ORDER_ENTRIES"
    and logs: "log_ok message_history_kind S blk (dev (db_pers db)) TOTAL_MESSAGE_HISTORY_SECTOR_SIZE (db_message_history db)"
      "log_ok call_history_kind S blk (dev (db_pers db)) TOTAL_CALL_HISTORY_SECTOR_SIZE (db_call_history db)"
      "rb_occupancy (db_message_history db) = 0" "rb_occupancy (db_call_history db) = 0"
    and good: "superheader_good (blk (dev (db_pers db)))"
  shows "db_ok S ok blk db" "db_dir blk db = dir_empty"
proof -
  note e = fresh_table_empty [OF t]
  have "names_ok (on_card blk (db_pers db)) (db_htable db) (set (occupied_slots (db_htable db))) (db_name_index db)"
    using names by (simp add: names_ok_def e(1) name_order_def sa_entries_def sorted_array_init_def)
  moreover have c: "co_chats (db_chat_order db) = []" using chats(1) by (simp add: co_chats_def chat_order_init_def)
  moreover have "chat_order_ok (db_chat_order db)" using chats c by (simp add: chat_order_ok_def chat_order_init_def)
  ultimately show "db_ok S ok blk db" using r logs(1,2) good by (simp add: db_ok_def e(2))
  show "db_dir blk db = dir_empty"
    using logs(3,4) by (simp add: db_dir_def dir_empty_def db_book_def db_chats_def db_recent_def db_message_log_def db_call_log_def
        db_contacts_def e(4,5) c history_list_def ring_list_def)
qed

lemma log_region_free:
  "history_base message_history_kind + TOTAL_MESSAGE_HISTORY_SECTOR_SIZE \<le> 65536" "0 < TOTAL_MESSAGE_HISTORY_SECTOR_SIZE"
  "history_base call_history_kind + TOTAL_CALL_HISTORY_SECTOR_SIZE \<le> 65536" "0 < TOTAL_CALL_HISTORY_SECTOR_SIZE"
  "DATA_SECTOR_TO_RAW MESSAGE_HISTORY_DATA_START_SECTOR = history_base message_history_kind"
  "DATA_SECTOR_TO_RAW CALL_HISTORY_DATA_START_SECTOR = history_base call_history_kind"
  by (simp_all add: history_bases sector_defs layout)

text \<open>What the steps before the tables leave on the card.\<close>

lemma format_card:
  assumes d: "ok d" and cap: "DATA_REGION_START_SECTOR + TOTAL_DATABASE_SECTOR_SIZE \<le> capacity S d"
  shows "\<exists>d1 d2 d3 d4 d5 bm sh. journal_header_init S d = (True, d1) \<and> init_usage_bitmap S d1 = (True, d2, bm) \<and>
    clear_ring_buffer S d2 (DATA_SECTOR_TO_RAW MESSAGE_HISTORY_DATA_START_SECTOR) TOTAL_MESSAGE_HISTORY_SECTOR_SIZE = (STRG_OK, d3) \<and>
    clear_ring_buffer S d3 (DATA_SECTOR_TO_RAW CALL_HISTORY_DATA_START_SECTOR) TOTAL_CALL_HISTORY_SECTOR_SIZE = (STRG_OK, d4) \<and>
    superheader_init S d4 = (STRG_OK, sh, d5) \<and> fst (superheader_check S d5 any) = SUPR_GOOD \<and>
    (\<forall>j. pers_ok S ok blk \<lparr>dev = d5, usage_bitmap = bm, journal = j\<rparr>) \<and> (\<forall>i. \<not> used bm i) \<and>
    log_ok message_history_kind S blk d5 TOTAL_MESSAGE_HISTORY_SECTOR_SIZE (empty_ring TOTAL_MESSAGE_HISTORY_SECTOR_SIZE) \<and>
    log_ok call_history_kind S blk d5 TOTAL_CALL_HISTORY_SECTOR_SIZE (empty_ring TOTAL_CALL_HISTORY_SECTOR_SIZE)"
proof -
  have c: "40265 \<le> capacity S d" using cap by (simp add: layout)
  have "JRNL_HEADER_SECTOR < capacity S d" using c by (simp add: layout)
  then obtain d1 where d1: "journal_header_init S d = (True, d1)" "ok d1" "capacity S d1 = capacity S d" "journal_idle (blk d1)"
    using journal_header_init_idle [OF d] by blast
  obtain r2 d2 bm where i2: "init_usage_bitmap S d1 = (r2, d2, bm)" by (metis prod_cases3)
  have r2: r2 using init_usage_bitmap_reliable [OF d1(2)] i2 c d1(3) by (simp add: layout)
  note s2 = init_usage_bitmap_step [OF d1(2) i2]
  have d2: "ok d2" "capacity S d2 = capacity S d" "\<forall>i. \<not> used bm i" "bitmap_synced (blk d2) bm" "blk d2 JRNL_HEADER_SECTOR = blk d1 JRNL_HEADER_SECTOR"
    using s2 r2 d1(3) by (simp_all add: layout)
  have "history_base message_history_kind + TOTAL_MESSAGE_HISTORY_SECTOR_SIZE \<le> capacity S d2" using c d2(2) by (simp add: history_bases layout)
  then obtain d3 where d3: "clear_ring_buffer S d2 (history_base message_history_kind) TOTAL_MESSAGE_HISTORY_SECTOR_SIZE = (STRG_OK, d3)" "ok d3"
    "capacity S d3 = capacity S d2" "msgs.region d3 TOTAL_MESSAGE_HISTORY_SECTOR_SIZE"
    "ring_full (hk_cap message_history_kind) (msgs.hdr (blk d3)) (empty_ring TOTAL_MESSAGE_HISTORY_SECTOR_SIZE)"
    "\<forall>k. k < history_base message_history_kind \<or> history_base message_history_kind + TOTAL_MESSAGE_HISTORY_SECTOR_SIZE \<le> k \<longrightarrow> blk d3 k = blk d2 k"
    using msgs.history_cleared [OF d2(1) log_region_free(2) _ log_region_free(1)] unfolding empty_ring_def by blast
  have "history_base call_history_kind + TOTAL_CALL_HISTORY_SECTOR_SIZE \<le> capacity S d3" using c d2(2) d3(3) by (simp add: history_bases layout)
  then obtain d4 where d4: "clear_ring_buffer S d3 (history_base call_history_kind) TOTAL_CALL_HISTORY_SECTOR_SIZE = (STRG_OK, d4)" "ok d4"
    "capacity S d4 = capacity S d3" "calls.region d4 TOTAL_CALL_HISTORY_SECTOR_SIZE"
    "ring_full (hk_cap call_history_kind) (calls.hdr (blk d4)) (empty_ring TOTAL_CALL_HISTORY_SECTOR_SIZE)"
    "\<forall>k. k < history_base call_history_kind \<or> history_base call_history_kind + TOTAL_CALL_HISTORY_SECTOR_SIZE \<le> k \<longrightarrow> blk d4 k = blk d3 k"
    using calls.history_cleared [OF d3(2) log_region_free(4) _ log_region_free(3)] unfolding empty_ring_def by blast
  obtain r5 sh d5 where i5: "superheader_init S d4 = (r5, sh, d5)" by (metis prod_cases3)
  have "SUPERHEADER_SECTOR < capacity S d4" using c d2(2) d3(3) d4(3) by (simp add: layout)
  note s5 = superheader_init_check [OF d4(2) this i5, of any]
  have d5: "r5 = STRG_OK" "ok d5" "capacity S d5 = capacity S d" "fst (superheader_check S d5 any) = SUPR_GOOD"
    "\<And>k. k \<noteq> SUPERHEADER_SECTOR \<Longrightarrow> blk d5 k = blk d4 k" using s5 d2(2) d3(3) d4(3) by simp_all
  have low: "blk d5 k = blk d2 k" if "0 < k" "k < DATA_REGION_START_SECTOR" for k
    using that d3(6) d4(6) d5(5) [of k] by (simp add: history_bases layout)
  have "bitmap_synced (blk d5) bm" using d2(4) low by (simp add: bitmap_synced_def layout)
  moreover have "journal_idle (blk d5)" using d1(4) low [of JRNL_HEADER_SECTOR] d2(5) by (simp add: journal_idle_def layout)
  ultimately have pers: "\<forall>j. pers_ok S ok blk \<lparr>dev = d5, usage_bitmap = bm, journal = j\<rparr>"
    using d5(2,3) cap by (simp add: pers_ok_def)
  have rings: "rb_size (empty_ring n) = n" for n by (simp add: empty_ring_def)
  have m3: "log_ok message_history_kind S blk d3 TOTAL_MESSAGE_HISTORY_SECTOR_SIZE (empty_ring TOTAL_MESSAGE_HISTORY_SECTOR_SIZE)"
    using d3(4,5) by (simp add: log_ok_def history_ok_def rings) (simp add: layout)
  have m5: "blk d5 (history_base message_history_kind + i) = blk d3 (history_base message_history_kind + i)"
    if "i < TOTAL_MESSAGE_HISTORY_SECTOR_SIZE" for i
    using that d4(6) d5(5) [of "history_base message_history_kind + i"] by (simp add: history_bases layout)
  have m: "log_ok message_history_kind S blk d5 TOTAL_MESSAGE_HISTORY_SECTOR_SIZE (empty_ring TOTAL_MESSAGE_HISTORY_SECTOR_SIZE)"
    by (rule log_frame(1) [OF m3 m5]) (use log_capacity(1) [OF pers [rule_format, of undefined]] in simp_all)
  have l4: "log_ok call_history_kind S blk d4 TOTAL_CALL_HISTORY_SECTOR_SIZE (empty_ring TOTAL_CALL_HISTORY_SECTOR_SIZE)"
    using d4(4,5) by (simp add: log_ok_def history_ok_def rings) (simp add: layout)
  have l5: "blk d5 (history_base call_history_kind + i) = blk d4 (history_base call_history_kind + i)" for i
    using d5(5) [of "history_base call_history_kind + i"] by (simp add: history_bases layout)
  have l: "log_ok call_history_kind S blk d5 TOTAL_CALL_HISTORY_SECTOR_SIZE (empty_ring TOTAL_CALL_HISTORY_SECTOR_SIZE)"
    by (rule log_frame(1) [OF l4 l5]) (use log_capacity(2) [OF pers [rule_format, of undefined]] in simp_all)
  have "init_usage_bitmap S d1 = (True, d2, bm)" "superheader_init S d4 = (STRG_OK, sh, d5)" using i2 r2 i5 d5(1) by simp_all
  then show ?thesis
    using d1(1) d3(1) d4(1) d5(4) pers d2(3) m l unfolding log_region_free(5,6) by blast
qed

lemma format_sem:
  assumes d: "ok (dev (db_pers db))" and cap: "DATA_REGION_START_SECTOR + TOTAL_DATABASE_SECTOR_SIZE \<le> capacity S (dev (db_pers db))"
    and a: "arrays_ok db"
  shows "\<exists>db'. database_format S db = Some (STRG_OK, db') \<and> db_ok S ok blk db' \<and> db_dir blk db' = dir_empty \<and>
    avail (ht_message_allocator (db_htable db')) = {..<TOTAL_MESSAGE_SECTOR_SIZE} \<and>
    fst (superheader_check S (dev (db_pers db')) any) = SUPR_GOOD"
proof -
  obtain d1 d2 d3 d4 d5 bm sh where c: "journal_header_init S (dev (db_pers db)) = (True, d1)" "init_usage_bitmap S d1 = (True, d2, bm)"
    "clear_ring_buffer S d2 (DATA_SECTOR_TO_RAW MESSAGE_HISTORY_DATA_START_SECTOR) TOTAL_MESSAGE_HISTORY_SECTOR_SIZE = (STRG_OK, d3)"
    "clear_ring_buffer S d3 (DATA_SECTOR_TO_RAW CALL_HISTORY_DATA_START_SECTOR) TOTAL_CALL_HISTORY_SECTOR_SIZE = (STRG_OK, d4)"
    "superheader_init S d4 = (STRG_OK, sh, d5)" "fst (superheader_check S d5 any) = SUPR_GOOD"
    "\<forall>j. pers_ok S ok blk \<lparr>dev = d5, usage_bitmap = bm, journal = j\<rparr>" "\<forall>i. \<not> used bm i"
    "log_ok message_history_kind S blk d5 TOTAL_MESSAGE_HISTORY_SECTOR_SIZE (empty_ring TOTAL_MESSAGE_HISTORY_SECTOR_SIZE)"
    "log_ok call_history_kind S blk d5 TOTAL_CALL_HISTORY_SECTOR_SIZE (empty_ring TOTAL_CALL_HISTORY_SECTOR_SIZE)"
    using format_card [OF d cap, of any] by blast
  have a': "HASH_TABLE_ENTRIES \<le> length (free_stack (ht_contact_allocator (db_htable db)))"
    "TOTAL_MESSAGE_SECTOR_SIZE \<le> length (free_stack (ht_message_allocator (db_htable db)))"
    "length (sa_mem (db_name_index db)) = SORTED_ARRAY_ENTRIES" "length (co_mem (db_chat_order db)) = CHAT_ORDER_ENTRIES"
    using a by (simp_all add: arrays_ok_def)
  obtain ca where ca: "free_list_init (free_stack (ht_contact_allocator (db_htable db))) HASH_TABLE_ENTRIES = Some (True, Some ca)"
    "free_list_inv ca" "avail ca = {..<HASH_TABLE_ENTRIES}" "fl_capacity ca = HASH_TABLE_ENTRIES"
    using free_list_init_full [OF _ _ a'(1)] by (auto simp: layout)
  obtain ma where ma: "free_list_init (free_stack (ht_message_allocator (db_htable db))) TOTAL_MESSAGE_SECTOR_SIZE = Some (True, Some ma)"
    "free_list_inv ma" "avail ma = {..<TOTAL_MESSAGE_SECTOR_SIZE}" "fl_capacity ma = TOTAL_MESSAGE_SECTOR_SIZE"
    using free_list_init_full [OF _ _ a'(2)] by (auto simp: layout)
  define t where "t = hash_init ca ma entries_cleared HASH_TABLE_SIZE (ht_stale (db_htable db))"
  have t: "fresh_table ca ma t" by (simp add: t_def fresh_table_def hash_init_def)
  define p where "p = (db_pers db)\<lparr>journal := journal_cleared, usage_bitmap := bm, dev := d5\<rparr>"
  have peq: "p = \<lparr>dev = d5, usage_bitmap = bm, journal = journal_cleared\<rparr>" by (simp add: p_def)
  have p: "pers_ok S ok blk p" "\<And>i. \<not> used (usage_bitmap p) i" using c(7,8) by (simp_all add: peq)
  have log: "log_ok message_history_kind S blk (dev p) TOTAL_MESSAGE_HISTORY_SECTOR_SIZE (empty_ring TOTAL_MESSAGE_HISTORY_SECTOR_SIZE)"
    "log_ok call_history_kind S blk (dev p) TOTAL_CALL_HISTORY_SECTOR_SIZE (empty_ring TOTAL_CALL_HISTORY_SECTOR_SIZE)"
    using c(9,10) by (simp_all add: peq)
  define db1 where "db1 = db\<lparr>db_pers := p, db_htable := t, db_name_index := sorted_array_init (sa_mem (db_name_index db)),
    db_chat_order := chat_order_init (co_mem (db_chat_order db))\<rparr>"
  define db' where "db' = db1\<lparr>db_message_history := empty_ring TOTAL_MESSAGE_HISTORY_SECTOR_SIZE,
    db_call_history := empty_ring TOTAL_CALL_HISTORY_SECTOR_SIZE\<rparr>"
  have "init_ring_buffer S d5 rb TOTAL_MESSAGE_HISTORY_SECTOR_SIZE (DATA_SECTOR_TO_RAW MESSAGE_HISTORY_DATA_START_SECTOR) =
      (True, empty_ring TOTAL_MESSAGE_HISTORY_SECTOR_SIZE)"
    "init_ring_buffer S d5 rb TOTAL_CALL_HISTORY_SECTOR_SIZE (DATA_SECTOR_TO_RAW CALL_HISTORY_DATA_START_SECTOR) =
      (True, empty_ring TOTAL_CALL_HISTORY_SECTOR_SIZE)" for rb
    using msgs.restart_spec [OF pers_okD(1) [OF p(1)] , of "empty_ring TOTAL_MESSAGE_HISTORY_SECTOR_SIZE" rb]
      calls.restart_spec [OF pers_okD(1) [OF p(1)] , of "empty_ring TOTAL_CALL_HISTORY_SECTOR_SIZE" rb] log
    unfolding log_region_free(5,6) log_ok_def by (simp_all add: peq)
  then have hist: "db_history_init S db1 = (STRG_OK, db')" by (simp add: db_history_init_def db1_def db'_def peq)
  have "database_format S db = Some (db_history_init S db1)"
    using c ca(1) ma(1) unfolding database_format_def db1_def p_def t_def by simp
  moreover have good: "superheader_good (blk (dev p))"
    using superheader_check_good [OF pers_okD(1) [OF p(1)], of any] pers_okD(5) [OF p(1), of SUPERHEADER_SECTOR] c(6)
    by (simp add: peq layout)
  moreover have r: "records_ok S ok blk p t" by (rule fresh_records [OF p t ca(2-4) ma(2,4)])
  have "db_ok S ok blk db'" "db_dir blk db' = dir_empty"
    using fresh_db [of db' ca ma "sa_mem (db_name_index db)" "co_mem (db_chat_order db)"] r t a'(3,4) log good
    by (simp_all add: db'_def db1_def) (simp_all add: empty_ring_def)
  moreover have "dev (db_pers db') = d5" "ht_message_allocator (db_htable db') = ma"
    using t by (simp_all add: db'_def db1_def peq fresh_table_def)
  ultimately show ?thesis using hist c(6) ma(3) by simp
qed

end

end
