(* ===== verification/Rebuild_Contacts.thy ===== *)
theory Rebuild_Contacts
  imports Hash_Messages
begin

text \<open>
  Rebuilding the index of the contacts after a restart: \<^verbatim>\<open>hash_reconstruct_contact\<close> on the table that
  \<^verbatim>\<open>hash_init\<close> leaves, with an allocator that has nothing to offer.  The scan goes up the contact slots of
  the card; \<open>scanned cs ma t f\<close> says what it has done with those below \<open>f\<close>.
\<close>

definition scanned :: "(nat \<Rightarrow> Contact option) \<Rightarrow> FreeList \<Rightarrow> HashTable \<Rightarrow> nat \<Rightarrow> bool" where
  "scanned cs ma t f \<longleftrightarrow>
     index_ok cs t \<and> sectors_used t = {s. s < f \<and> cs s \<noteq> None} \<and>
     free_list_inv (ht_contact_allocator t) \<and> fl_capacity (ht_contact_allocator t) = HASH_TABLE_ENTRIES \<and>
     avail (ht_contact_allocator t) = {s. s < f \<and> s < HASH_TABLE_ENTRIES \<and> cs s = None} \<and>
     ht_message_allocator t = ma \<and> (\<forall>i \<in> set (occupied_slots t). he_latest_msg_extent (entry_at t i) = UINT16_MAX)"

lemma scannedD:
  assumes "scanned cs ma t f"
  shows "index_ok cs t" "sectors_used t = {s. s < f \<and> cs s \<noteq> None}"
    "free_list_inv (ht_contact_allocator t)" "fl_capacity (ht_contact_allocator t) = HASH_TABLE_ENTRIES"
    "avail (ht_contact_allocator t) = {s. s < f \<and> s < HASH_TABLE_ENTRIES \<and> cs s = None}"
    "ht_message_allocator t = ma" "i \<in> set (occupied_slots t) \<Longrightarrow> he_latest_msg_extent (entry_at t i) = UINT16_MAX"
  using assms by (simp_all add: scanned_def)

text \<open>Slots that hold nothing are handed to the allocator.\<close>

lemma scanned_free:
  assumes s: "scanned cs ma t f" and fg: "f \<le> g" and none: "\<And>x. f \<le> x \<Longrightarrow> x < g \<Longrightarrow> cs x = None"
  shows "scanned cs ma (t\<lparr>ht_contact_allocator := free_list_free_range (ht_contact_allocator t) f g\<rparr>) g"
proof -
  note d = scannedD [OF s]
  have "\<forall>x. f \<le> x \<and> x < g \<longrightarrow> x \<notin> avail (ht_contact_allocator t)" unfolding d(5) by auto
  note fr = free_list_free_range_inv [OF d(3) this]
  let ?t = "t\<lparr>ht_contact_allocator := free_list_free_range (ht_contact_allocator t) f g\<rparr>"
  have "avail (ht_contact_allocator ?t) = {x. x < g \<and> x < HASH_TABLE_ENTRIES \<and> cs x = None}"
  proof -
    have "x < f \<and> x < HASH_TABLE_ENTRIES \<and> cs x = None \<or> f \<le> x \<and> x < g \<and> x < HASH_TABLE_ENTRIES \<longleftrightarrow>
        x < g \<and> x < HASH_TABLE_ENTRIES \<and> cs x = None" for x
      using fg none [of x] by (cases "x < f") auto
    then show ?thesis using fr d(4,5) by (simp add: set_eq_iff)
  qed
  moreover have "x < f \<and> cs x \<noteq> None \<longleftrightarrow> x < g \<and> cs x \<noteq> None" for x using fg none [of x] by (cases "x < f") auto
  then have "{x. x < f \<and> cs x \<noteq> None} = {x. x < g \<and> cs x \<noteq> None}" by simp
  then have "sectors_used ?t = {x. x < g \<and> cs x \<noteq> None}" using d(2) sectors_used_cong [of ?t t] by simp
  ultimately show ?thesis
    using fr d(1,4,6,7) index_ok_cong(1,4) [OF d(1), of ?t] by (simp add: scanned_def)
qed

lemma index_ok_unused:
  assumes "index_ok cs t" and "\<And>i. i \<in> set (occupied_slots t) \<Longrightarrow> he_sector (entry_at t i) \<noteq> s"
  shows "index_ok (cs(s := v)) t" "phone_index (cs(s := v)) t = phone_index cs t"
proof -
  note t = index_okD [OF assms(1)]
  have sc: "slot_contact (cs(s := v)) t i = slot_contact cs t i" if "i \<in> set (occupied_slots t)" for i
    using assms(2) [OF that] by (simp add: slot_contact_def)
  have mp: "map (slot_phone (cs(s := v)) t) (occupied_slots t) = map (slot_phone cs t) (occupied_slots t)" using sc by simp
  have "entry_ok (cs(s := v)) t i" if "i \<in> set (occupied_slots t)" for i
    using t(3) [OF that] sc [OF that] assms(2) [OF that] by (auto simp: entry_ok_def Let_def)
  then show "index_ok (cs(s := v)) t" using t unfolding index_ok_def mp by simp
  show "phone_index (cs(s := v)) t = phone_index cs t"
    unfolding phone_index_def using sc by (intro arg_cong [of _ _ map_of]) simp
qed

text \<open>A contact is entered under its phone number, which no other contact has.\<close>

lemma scanned_insert:
  assumes s: "scanned cs ma t s" and c: "cs s = Some c" "s < HASH_TABLE_ENTRIES" "0 \<in> set (c_phone c)"
    and uniq: "\<And>x c'. cs x = Some c' \<Longrightarrow> x < s \<Longrightarrow> phone_of c' \<noteq> phone_of c" and rd: "reads_as S p cs"
  shows "\<exists>e. hash_find_entry S p t (phone_of c) = Some e \<and>
    scanned cs ma ((set_entry e \<lparr>he_id = hash_phone (phone_of c), he_sector = s, he_latest_msg_extent = UINT16_MAX,
      he_state = ENTRY_OCCUPIED\<rparr> t)\<lparr>ht_num_elems := ht_num_elems t + 1\<rparr>) (Suc s)"
proof -
  note d = scannedD [OF s]
  note t = index_okD [OF d(1)]
  have sec: "he_sector (entry_at t i) < s \<and> cs (he_sector (entry_at t i)) \<noteq> None" if "i \<in> set (occupied_slots t)" for i
    using d(2) that by (auto simp: sectors_used_def)
  have ne: "he_sector (entry_at t i) \<noteq> s" if "i \<in> set (occupied_slots t)" for i using sec [OF that] by simp
  have none: "phone_index cs t (phone_of c) = None"
    unfolding phone_index_None
  proof
    fix i assume "i \<in> set (occupied_slots t)"
    then show "slot_phone cs t i \<noteq> phone_of c" using sec [of i] uniq by (auto simp: slot_contact_def)
  qed
  have "inj_on (\<lambda>i. he_sector (entry_at t i)) (set (occupied_slots t))" using index_ok_sector [OF d(1)] by (auto intro: inj_onI)
  then have "length (occupied_slots t) = Finite_Set.card (sectors_used t)"
    by (simp add: sectors_used_def card_image distinct_card [OF sorted_occupied_slots(2)])
  also have "\<dots> \<le> Finite_Set.card {..<s}" unfolding d(2) by (rule card_mono) auto
  finally have "length (occupied_slots t) < HASH_TABLE_SIZE" using c(2) by (simp add: layout)
  from claimable_room [OF t(2) this] obtain e where e: "first_claimable t (hash_phone (phone_of c)) = Some e" by blast
  note fc = first_claimable_Some [OF e]
  have f: "hash_find_entry S p t (phone_of c) = Some e" using hash_find_entry_sem [OF d(1) rd] none e by simp
  define en where "en = \<lparr>he_id = hash_phone (phone_of c), he_sector = s, he_latest_msg_extent = UINT16_MAX, he_state = ENTRY_OCCUPIED\<rparr>"
  define t' where "t' = (set_entry e en t)\<lparr>ht_num_elems := ht_num_elems t + 1\<rparr>"
  have h: "ht_htable t' = (ht_htable t)[e := en]" "ht_size t' = ht_size t" "ht_num_elems t' = ht_num_elems t + 1"
    "ht_contact_allocator t' = ht_contact_allocator t" "ht_message_allocator t' = ht_message_allocator t"
    by (simp_all add: t'_def set_entry_def)
  note un = index_ok_unused [OF d(1) ne, where v = None]
  have n0: "phone_index (cs(s := None)) t (phone_of c) = None" using un(2) none by simp
  note cl = index_claim [OF un(1) n0 fc(1-3) c(2) _ c(3) h(1-3)]
  have cs: "cs(s := None, s \<mapsto> c) = cs" using c(1) by auto
  have ok: "index_ok cs t'" and occ: "set (occupied_slots t') = insert e (set (occupied_slots t))"
    using cl(1,4) cs by (simp_all add: en_def)
  have el: "e < length (ht_htable t)" "e \<notin> set (occupied_slots t)" using fc(1,2) t(1) by (auto simp: set_occupied_slots)
  have "sectors_used t' = insert s (sectors_used t)" using sectors_used_claim [OF occ el(2) h(1) el(1)] by (simp add: en_def)
  then have "sectors_used t' = {x. x < Suc s \<and> cs x \<noteq> None}" unfolding d(2) using c(1) by (auto simp: less_Suc_eq)
  moreover have "avail (ht_contact_allocator t') = {x. x < Suc s \<and> x < HASH_TABLE_ENTRIES \<and> cs x = None}"
    unfolding h d(5) using c(1) by (auto simp: less_Suc_eq)
  moreover have "he_latest_msg_extent (entry_at t' i) = UINT16_MAX" if "i \<in> set (occupied_slots t')" for i
    using that occ d(7) [of i] el by (auto simp: h(1) en_def nth_list_update)
  ultimately have "scanned cs ma t' (Suc s)" using d ok by (simp add: scanned_def h)
  then show ?thesis using f by (auto simp: t'_def en_def)
qed

text \<open>What the card must hold for the scan to succeed; a sound index implies it.\<close>

definition book_on_card :: "(nat \<Rightarrow> Contact option) \<Rightarrow> bool" where
  "book_on_card cs \<longleftrightarrow> none_beyond cs \<and>
     (\<forall>s < HASH_TABLE_ENTRIES. \<forall>c. cs s = Some c \<longrightarrow> 0 \<in> set (c_phone c)) \<and>
     (\<forall>s < HASH_TABLE_ENTRIES. \<forall>s' < HASH_TABLE_ENTRIES. \<forall>c c'.
        cs s = Some c \<longrightarrow> cs s' = Some c' \<longrightarrow> phone_of c = phone_of c' \<longrightarrow> s = s')"

lemma book_on_cardI:
  assumes "contacts_ok blk bm t"
  shows "book_on_card (contact_at blk bm)"
proof -
  let ?cs = "contact_at blk bm"
  note t = contacts_okD [OF assms]
  have slot: "\<exists>i \<in> set (occupied_slots t). he_sector (entry_at t i) = s \<and> slot_contact ?cs t i = c"
    if "s < HASH_TABLE_ENTRIES" "?cs s = Some c" for s c
  proof -
    have "s \<in> sectors_used t" unfolding t(6) using that by simp
    then show ?thesis using that(2) by (auto simp: sectors_used_def slot_contact_def)
  qed
  have "0 \<in> set (c_phone c)" if c: "s < HASH_TABLE_ENTRIES" "?cs s = Some c" for s c
    using slot [OF c] index_okD(3) [OF t(2)] by (auto simp: entry_ok_def Let_def)
  moreover have "s = s'" if "s < HASH_TABLE_ENTRIES" "?cs s = Some c" "s' < HASH_TABLE_ENTRIES" "?cs s' = Some c'" "phone_of c = phone_of c'"
    for s s' c c'
    using slot [OF that(1,2)] slot [OF that(3,4)] index_ok_inj [OF t(2)] that(5) by (auto dest: inj_onD)
  ultimately show ?thesis unfolding book_on_card_def using t(7) by blast
qed

lemma book_on_cardD:
  assumes "book_on_card cs" and "s div CONTACT_SECTOR_CAPACITY < TOTAL_CONTACT_SECTOR_SIZE" and "cs s = Some c"
  shows "s < HASH_TABLE_ENTRIES" "0 \<in> set (c_phone c)" "cs x = Some c' \<Longrightarrow> x < s \<Longrightarrow> phone_of c' \<noteq> phone_of c"
proof -
  show l: "s < HASH_TABLE_ENTRIES"
    using assms unfolding book_on_card_def none_beyond_def by (metis not_less option.distinct(1))
  show "0 \<in> set (c_phone c)" using assms(1,3) l unfolding book_on_card_def by blast
  show "phone_of c' \<noteq> phone_of c" if "cs x = Some c'" "x < s"
  proof
    assume "phone_of c' = phone_of c"
    moreover have "x < HASH_TABLE_ENTRIES" using l that(2) by simp
    ultimately have "x = s" using assms(1,3) l that(1) unfolding book_on_card_def by blast
    then show False using that(2) by simp
  qed
qed

subsection \<open>One sector\<close>

lemma clear_lowest_iff: "w \<noteq> 0 \<Longrightarrow> bit w k \<and> (\<exists>j<k. bit w j) \<longleftrightarrow> bit w k \<and> ctz w < k"
  using ctz_props [of w] by (meson le_less_trans)

lemma insert_loop_scan:
  assumes rd: "reads_as S p cs" and bk: "book_on_card cs"
    and sec: "sct < TOTAL_CONTACT_SECTOR_SIZE" "base = sct * CONTACT_SECTOR_CAPACITY"
    and at: "\<And>k. k < 6 \<Longrightarrow> cs (base + k) = (if bit u k then Some (cs_contacts cSector ! k) else None)"
    and low: "\<And>k. bit u k \<Longrightarrow> k < 6"
    and s: "scanned cs ma t f" and f: "base \<le> f" "f \<le> base + 6" and w: "\<And>k. bit w k \<longleftrightarrow> bit u k \<and> f \<le> base + k"
  shows "\<exists>t' f'. insert_contacts_loop S p t cSector base w f = (True, t', f') \<and> scanned cs ma t' f' \<and> f' \<le> base + 6 \<and>
    (\<forall>x. f' \<le> x \<longrightarrow> x < base + 6 \<longrightarrow> cs x = None)"
  using s f w
proof (induction "length (set_bits_of w)" arbitrary: t w f rule: less_induct)
  case less
  have small: "base + 6 < 65536" using sec by (simp add: layout)
  show ?case
  proof (cases "w = 0")
    case True
    have "cs x = None" if "f \<le> x" "x < base + 6" for x
      using at [of "x - base"] less.prems(4) [of "x - base"] less.prems(2) that True by simp
    then show ?thesis using True less.prems by (subst insert_contacts_loop.simps) simp
  next
    case False
    define pos where "pos = ctz w"
    have pos: "bit u pos" "f \<le> base + pos" "pos < 6" using ctz_props(1) [OF False] less.prems(4) [of pos] low by (auto simp: pos_def)
    have gap: "cs x = None" if "f \<le> x" "x < base + pos" for x
    proof -
      have "\<not> bit w (x - base)" using ctz_props(2) [OF False, of "x - base"] that less.prems(2) by (auto simp: pos_def)
      then show ?thesis using at [of "x - base"] less.prems(2,4) that pos(3) by simp
    qed
    define c where "c = cs_contacts cSector ! pos"
    have c: "cs (base + pos) = Some c" using at [OF pos(3)] pos(1) by (simp add: c_def)
    have "(base + pos) div CONTACT_SECTOR_CAPACITY < TOTAL_CONTACT_SECTOR_SIZE" using sec pos(3) by (simp add: layout)
    note bc = book_on_cardD [OF bk this c]
    define t1 where "t1 = t\<lparr>ht_contact_allocator := free_list_free_range (ht_contact_allocator t) f (base + pos)\<rparr>"
    have s1: "scanned cs ma t1 (base + pos)" unfolding t1_def by (rule scanned_free [OF less.prems(1) pos(2) gap])
    obtain e where e: "hash_find_entry S p t1 (phone_of c) = Some e"
      "scanned cs ma ((set_entry e \<lparr>he_id = hash_phone (phone_of c), he_sector = base + pos, he_latest_msg_extent = UINT16_MAX,
         he_state = ENTRY_OCCUPIED\<rparr> t1)\<lparr>ht_num_elems := ht_num_elems t1 + 1\<rparr>) (Suc (base + pos))"
      using scanned_insert [OF s1 c bc(1,2) _ rd] bc(3) by blast
    define t2 where "t2 = (set_entry e \<lparr>he_id = hash_phone (phone_of c), he_sector = base + pos, he_latest_msg_extent = UINT16_MAX,
         he_state = ENTRY_OCCUPIED\<rparr> t1)\<lparr>ht_num_elems := ht_num_elems t1 + 1\<rparr>"
    have run: "insert_contacts_loop S p t cSector base w f = insert_contacts_loop S p t2 cSector base (clear_lowest w) (Suc (base + pos))"
      using False e(1) small pos(3)
      by (subst insert_contacts_loop.simps) (simp add: Let_def c_def phone_of_def t2_def t1_def set_entry_def flip: pos_def)
    have shorter: "length (set_bits_of (clear_lowest w)) < length (set_bits_of w)" using False by (simp add: set_bits_of_clear_lowest)
    have bits: "bit (clear_lowest w) k \<longleftrightarrow> bit u k \<and> Suc (base + pos) \<le> base + k" for k
    proof -
      have "bit w k \<and> (\<exists>j<k. bit w j) \<longleftrightarrow> bit w k \<and> pos < k" unfolding pos_def by (rule clear_lowest_iff [OF False])
      moreover have "bit w k \<and> pos < k \<longleftrightarrow> bit u k \<and> Suc (base + pos) \<le> base + k"
        unfolding less.prems(4) using pos(2) by auto
      ultimately show ?thesis unfolding bit_clear_lowest by blast
    qed
    have "base \<le> Suc (base + pos)" "Suc (base + pos) \<le> base + 6" using pos(3) by simp_all
    from less.hyps [OF shorter e(2) [folded t2_def] this bits] show ?thesis unfolding run .
  qed
qed

lemma insert_sector_scan:
  assumes rd: "reads_as S p cs" and bk: "book_on_card cs"
    and sec: "sct < TOTAL_CONTACT_SECTOR_SIZE" "base = sct * CONTACT_SECTOR_CAPACITY"
    and at: "\<And>k. k < 6 \<Longrightarrow> cs (base + k) = (if bit (cs_used_bitmap cSector) k then Some (cs_contacts cSector ! k) else None)"
    and low: "\<And>k. bit (cs_used_bitmap cSector) k \<Longrightarrow> k < 6" and s: "scanned cs ma t base"
  shows "\<exists>t'. insert_contacts_from_sector S p t cSector base = (True, t') \<and> scanned cs ma t' (base + 6)"
proof -
  obtain t' f' where l: "insert_contacts_loop S p t cSector base (cs_used_bitmap cSector) base = (True, t', f')"
    "scanned cs ma t' f'" "f' \<le> base + 6" "\<forall>x. f' \<le> x \<longrightarrow> x < base + 6 \<longrightarrow> cs x = None"
    using insert_loop_scan [OF rd bk sec at low s, of "cs_used_bitmap cSector"] by auto
  have "base + 6 < 65536" using sec by (simp add: layout)
  then show ?thesis using scanned_free [OF l(2,3)] l(1,4) by (auto simp: insert_contacts_from_sector_def layout)
qed

subsection \<open>The words of the usage bitmap\<close>

text \<open>The contact sectors lie in the first 53 words, before any CRC word.\<close>

lemma contact_words:
  "USAGE_BITMAP_FIND_INDEX CONTACT_DATA_START_SECTOR = 0" "USAGE_BITMAP_FIND_BIT CONTACT_DATA_START_SECTOR = 0"
  "USAGE_BITMAP_FIND_INDEX (CONTACT_DATA_START_SECTOR + TOTAL_CONTACT_SECTOR_SIZE) = 52"
  "w < 53 \<Longrightarrow> \<not> USAGE_BITMAP_IS_CRC_WORD w" "w < 53 \<Longrightarrow> USAGE_BITMAP_WORD_TO_INDEX w = 32 * w"
  by (simp_all add: bitmap_defs layout)

lemma used_contact_word:
  assumes "w < 53" and "b < 32"
  shows "used bm (32 * w + b) \<longleftrightarrow> bit (bm ! w) b"
proof -
  have "w < USAGE_BITMAP_STORAGE_SIZE" "32 * w + b < USAGE_BITMAP_TOTAL_BITS" using assms by (simp_all add: layout)
  then show ?thesis
    using find_index_word_to_index [OF _ contact_words(4) [OF assms(1)] assms(2)] contact_words(5) [OF assms(1)] by (simp add: used_def)
qed

context reliable_store begin

lemma reconstruct_word_scan:
  assumes p: "pers_ok S ok blk p" and v: "contacts_valid (blk (dev p)) (usage_bitmap p)"
  defines "cs \<equiv> contact_at (blk (dev p)) (usage_bitmap p)"
  assumes bk: "book_on_card cs" and word: "word < 53"
    and s: "scanned cs ma t (g * 6)" and g: "g \<le> TOTAL_CONTACT_SECTOR_SIZE"
    and bits: "\<And>b. bit bits b \<longleftrightarrow> bit (usage_bitmap p ! word) b \<and> g \<le> 32 * word + b"
    and below: "\<And>x. g \<le> x \<Longrightarrow> x < 32 * word \<Longrightarrow> \<not> used (usage_bitmap p) x" and gw: "g \<le> 32 * word + 32"
  shows "\<exists>t' g'. reconstruct_word S p t word bits (g * 6) = (True, t', g' * 6) \<and> scanned cs ma t' (g' * 6) \<and>
    g' \<le> TOTAL_CONTACT_SECTOR_SIZE \<and> g' \<le> 32 * word + 32 \<and>
    (\<forall>x. g' \<le> x \<longrightarrow> x < 32 * word + 32 \<longrightarrow> x < TOTAL_CONTACT_SECTOR_SIZE \<longrightarrow> \<not> used (usage_bitmap p) x)"
  using s g bits below gw
proof (induction "length (set_bits_of bits)" arbitrary: t bits g rule: less_induct)
  case less
  let ?bm = "usage_bitmap p"
  have in_word: "bit bits (x - 32 * word)" if "used ?bm x" "g \<le> x" "32 * word \<le> x" "x < 32 * word + 32" for x
    using that less.prems(3) [of "x - 32 * word"] used_contact_word [OF word, of "x - 32 * word" ?bm] by simp
  show ?case
  proof (cases "bits = 0")
    case True
    then have "\<not> used ?bm x" if "g \<le> x" "x < 32 * word + 32" for x
      using in_word [OF _ that(1) _ that(2)] less.prems(4) [OF that(1)] by (cases "32 * word \<le> x") auto
    moreover have "reconstruct_word S p t word bits (g * 6) = (True, t, g * 6)" using True by (subst reconstruct_word.simps) simp
    ultimately show ?thesis using less.prems(1,2,5) by (intro exI [of _ t] exI [of _ g]) simp
  next
    case False
    define sct where "sct = 32 * word + ctz bits"
    have b: "bit (?bm ! word) (ctz bits)" "g \<le> sct" using ctz_props(1) [OF False] less.prems(3) by (simp_all add: sct_def)
    then have b32: "ctz bits < 32" using bit_imp_le_length by fastforce
    have u: "used ?bm sct" using used_contact_word [OF word b32] b(1) by (simp add: sct_def)
    have gap: "\<not> used ?bm x" if "g \<le> x" "x < sct" for x
    proof
      assume "used ?bm x"
      then have "bit bits (x - 32 * word)" "32 * word \<le> x"
        using in_word [of x] less.prems(4) [of x] that b32 by (auto simp: sct_def not_less [symmetric])
      then show False using ctz_props(2) [OF False, of "x - 32 * word"] that(2) by (simp add: sct_def)
    qed
    show ?thesis
    proof (cases "TOTAL_CONTACT_SECTOR_SIZE \<le> sct")
      case True
      then have "reconstruct_word S p t word bits (g * 6) = (True, t, g * 6)"
        using False contact_words(5) [OF word] by (subst reconstruct_word.simps) (simp add: Let_def flip: sct_def)
      then show ?thesis using less.prems(1,2,5) gap True by (intro exI [of _ t] exI [of _ g]) simp
    next
      case in_region: False
      then have sct: "sct < TOTAL_CONTACT_SECTOR_SIZE" by simp
      define t1 where "t1 = t\<lparr>ht_contact_allocator := free_list_free_range (ht_contact_allocator t) (g * 6) (sct * 6)\<rparr>"
      have "cs x = None" if "g * 6 \<le> x" "x < sct * 6" for x
        using gap [of "x div 6"] that by (simp add: cs_def contact_at_def layout less_eq_div_iff_mult_less_eq div_less_iff_less_mult)
      then have s1: "scanned cs ma t1 (sct * 6)" using scanned_free [OF less.prems(1)] b(2) unfolding t1_def by simp
      let ?b = "blk (dev p) (DATA_SECTOR_TO_RAW sct)"
      have ob: "contact_block_ok ?b" using v u sct by (simp add: contacts_valid_def)
      have sd: "sct < TOTAL_DATABASE_SECTOR_SIZE" "DATA_SECTOR_TO_RAW sct < 65536" using sct by (simp_all add: sector_defs layout)
      have rdc: "read_contact_sector S (dev p) sct = Inr (contact_sector_of ?b)"
        using read_sector_valid [OF pers_okD(1) [OF p] pers_okD(4) [OF p sd(1)] sd(2)] ob sct
        by (simp add: read_contact_sector_def contact_block_ok_def)
      have at: "cs (sct * 6 + k) = (if bit (cs_used_bitmap (contact_sector_of ?b)) k then Some (cs_contacts (contact_sector_of ?b) ! k) else None)"
        if "k < 6" for k using that u by (simp add: cs_def contact_at_def layout)
      have low: "k < 6" if "bit (cs_used_bitmap (contact_sector_of ?b)) k" for k
        using ob that by (auto simp: contact_block_ok_def layout not_le [symmetric])
      obtain t2 where t2: "insert_contacts_from_sector S p t1 (contact_sector_of ?b) (sct * 6) = (True, t2)" "scanned cs ma t2 (sct * 6 + 6)"
        using insert_sector_scan [OF contacts_read_as [OF p v, folded cs_def] bk sct _ at low s1] by (auto simp: layout)
      have u16: "to_u16 sct = sct" "to_u16 (sct * 6) = sct * 6" "to_u16 (g * 6) = g * 6"
        using sct less.prems(2) by (simp_all add: layout)
      have run: "reconstruct_word S p t word bits (g * 6) = reconstruct_word S p t2 word (clear_lowest bits) (Suc sct * 6)"
      proof -
        have cap: "CONTACT_SECTOR_CAPACITY = 6" by (simp add: layout)
        note add.commute [of CONTACT_SECTOR_CAPACITY "sct * CONTACT_SECTOR_CAPACITY", simp]
        show ?thesis
          using False sct contact_words(5) [OF word] rdc t2(1) u16 cap
          by (subst reconstruct_word.simps) (simp add: Let_def t1_def flip: sct_def)
      qed
      have shorter: "length (set_bits_of (clear_lowest bits)) < length (set_bits_of bits)" using False by (simp add: set_bits_of_clear_lowest)
      have bits': "bit (clear_lowest bits) k \<longleftrightarrow> bit (?bm ! word) k \<and> Suc sct \<le> 32 * word + k" for k
      proof -
        have "bit bits k \<and> (\<exists>j<k. bit bits j) \<longleftrightarrow> bit bits k \<and> ctz bits < k" by (rule clear_lowest_iff [OF False])
        moreover have "bit bits k \<and> ctz bits < k \<longleftrightarrow> bit (?bm ! word) k \<and> Suc sct \<le> 32 * word + k"
          unfolding less.prems(3) using b(2) by (auto simp: sct_def)
        ultimately show ?thesis unfolding bit_clear_lowest by blast
      qed
      have "scanned cs ma t2 (Suc sct * 6)" "Suc sct \<le> TOTAL_CONTACT_SECTOR_SIZE" using t2(2) sct by (simp_all add: add.commute)
      from less.hyps [OF shorter this bits'] b32 show ?thesis unfolding run by (simp add: sct_def)
    qed
  qed
qed

lemma reconstruct_words_scan:
  assumes p: "pers_ok S ok blk p" and v: "contacts_valid (blk (dev p)) (usage_bitmap p)"
  defines "cs \<equiv> contact_at (blk (dev p)) (usage_bitmap p)"
  assumes bk: "book_on_card cs"
    and s: "scanned cs ma t (g * 6)" and g: "g \<le> TOTAL_CONTACT_SECTOR_SIZE" and w: "w \<le> 53"
    and below: "\<And>x. g \<le> x \<Longrightarrow> x < 32 * w \<Longrightarrow> x < TOTAL_CONTACT_SECTOR_SIZE \<Longrightarrow> \<not> used (usage_bitmap p) x"
    and above: "g \<le> 32 * w"
  shows "\<exists>t' g'. reconstruct_words S p t [w..<53] (g * 6) = (True, t', g' * 6) \<and> scanned cs ma t' (g' * 6) \<and>
    g' \<le> TOTAL_CONTACT_SECTOR_SIZE \<and> (\<forall>x. g' \<le> x \<longrightarrow> x < TOTAL_CONTACT_SECTOR_SIZE \<longrightarrow> \<not> used (usage_bitmap p) x)"
  using s g w below above
proof (induction "53 - w" arbitrary: t g w)
  case 0
  then have "w = 53" by simp
  then show ?case using 0 by (intro exI [of _ t] exI [of _ g]) (auto simp: layout)
next
  case (Suc n)
  then have w: "w < 53" "[w..<53] = w # [Suc w..<53]" by (simp_all add: upt_conv_Cons)
  have "32 * w < TOTAL_CONTACT_SECTOR_SIZE" using w(1) by (simp add: layout)
  then have bl: "\<not> used (usage_bitmap p) x" if "g \<le> x" "x < 32 * w" for x using Suc.prems(4) [OF that] that by simp
  have "bit (usage_bitmap p ! w) b \<longleftrightarrow> bit (usage_bitmap p ! w) b \<and> g \<le> 32 * w + b" for b using Suc.prems(5) by auto
  from reconstruct_word_scan [OF p v bk [unfolded cs_def] w(1) Suc.prems(1) [unfolded cs_def] Suc.prems(2) this bl]
    Suc.prems(5)
  obtain t' g' where r: "reconstruct_word S p t w (usage_bitmap p ! w) (g * 6) = (True, t', g' * 6)"
    "scanned cs ma t' (g' * 6)" "g' \<le> TOTAL_CONTACT_SECTOR_SIZE" "g' \<le> 32 * w + 32"
    "\<And>x. g' \<le> x \<Longrightarrow> x < 32 * w + 32 \<Longrightarrow> x < TOTAL_CONTACT_SECTOR_SIZE \<Longrightarrow> \<not> used (usage_bitmap p) x"
    unfolding cs_def by auto
  have run: "reconstruct_words S p t [w..<53] (g * 6) = reconstruct_words S p t' [Suc w..<53] (g' * 6)"
    unfolding w(2) using contact_words(2) contact_words(4) [OF w(1)] r(1) by simp
  have "n = 53 - Suc w" "Suc w \<le> 53" "g' \<le> 32 * Suc w" using Suc.hyps(2) w(1) r(4) by simp_all
  moreover have "\<not> used (usage_bitmap p) x" if "g' \<le> x" "x < 32 * Suc w" "x < TOTAL_CONTACT_SECTOR_SIZE" for x
    using r(5) [of x] that by simp
  ultimately show ?case using Suc.hyps(1) [of "Suc w" t' g'] r(2,3) unfolding run by blast
qed

text \<open>The whole scan: the table describes the contacts of the card, the allocator has the remaining slots.\<close>

lemma reconstruct_contact_scan:
  assumes p: "pers_ok S ok blk p" and v: "contacts_valid (blk (dev p)) (usage_bitmap p)"
    and bk: "book_on_card (contact_at (blk (dev p)) (usage_bitmap p))"
    and s: "scanned (contact_at (blk (dev p)) (usage_bitmap p)) ma t 0"
  shows "\<exists>t'. hash_reconstruct_contact S p t = (True, t') \<and> contacts_ok (blk (dev p)) (usage_bitmap p) t' \<and>
    ht_message_allocator t' = ma \<and> (\<forall>i \<in> set (occupied_slots t'). he_latest_msg_extent (entry_at t' i) = UINT16_MAX)"
proof -
  let ?cs = "contact_at (blk (dev p)) (usage_bitmap p)"
  have "scanned ?cs ma t (0 * 6)" "0 \<le> TOTAL_CONTACT_SECTOR_SIZE" "0 \<le> (53 :: nat)" using s by simp_all
  from reconstruct_words_scan [OF p v bk this]
  obtain t' g where r: "reconstruct_words S p t [0..<53] 0 = (True, t', g * 6)" "scanned ?cs ma t' (g * 6)"
    "g \<le> TOTAL_CONTACT_SECTOR_SIZE" "\<And>x. g \<le> x \<Longrightarrow> x < TOTAL_CONTACT_SECTOR_SIZE \<Longrightarrow> \<not> used (usage_bitmap p) x"
    by auto
  note d = scannedD [OF r(2)]
  define e where "e = to_u16 (USAGE_BITMAP_STORAGE_SIZE * BITS_PER_ELEMENT)"
  have e: "HASH_TABLE_ENTRIES \<le> e" by (simp add: e_def layout)
  define t'' where "t'' = t'\<lparr>ht_contact_allocator := free_list_free_range (ht_contact_allocator t') (g * 6) e\<rparr>"
  have rest: "?cs x = None" if "g * 6 \<le> x" "x < HASH_TABLE_ENTRIES" for x
  proof -
    have "x div 6 < TOTAL_CONTACT_SECTOR_SIZE" "g \<le> x div 6" using slot_in_region [OF that(2)] that(1) by (simp_all add: layout)
    then show ?thesis using r(4) [of "x div 6"] by (simp add: contact_at_def layout)
  qed
  have beyond: "?cs x = None" if "x < g * 6" "HASH_TABLE_ENTRIES \<le> x" for x
  proof -
    have "x div CONTACT_SECTOR_CAPACITY < TOTAL_CONTACT_SECTOR_SIZE" using that(1) r(3) by (simp add: layout div_less_iff_less_mult)
    then show ?thesis using bk that(2) unfolding book_on_card_def none_beyond_def by blast
  qed
  have "\<forall>x. g * 6 \<le> x \<and> x < e \<longrightarrow> x \<notin> avail (ht_contact_allocator t')" unfolding d(5) by simp
  note fr = free_list_free_range_inv [OF d(3) this]
  have "x < g * 6 \<and> x < HASH_TABLE_ENTRIES \<and> ?cs x = None \<or> g * 6 \<le> x \<and> x < e \<and> x < HASH_TABLE_ENTRIES \<longleftrightarrow>
      x < HASH_TABLE_ENTRIES \<and> ?cs x = None" for x
    using rest [of x] e by (cases "x < g * 6") auto
  then have av: "avail (ht_contact_allocator t'') = {x. x < HASH_TABLE_ENTRIES \<and> ?cs x = None}"
    using fr d(4,5) by (simp add: t''_def set_eq_iff)
  have "x < g * 6 \<and> ?cs x \<noteq> None \<longleftrightarrow> x < HASH_TABLE_ENTRIES \<and> ?cs x \<noteq> None" for x
    using rest [of x] beyond [of x] by (metis not_le)
  then have "sectors_used t'' = {x. x < HASH_TABLE_ENTRIES \<and> ?cs x \<noteq> None}"
    using d(2) sectors_used_cong [of t'' t'] by (simp add: t''_def)
  then have "contacts_ok (blk (dev p)) (usage_bitmap p) t''"
    using v bk av fr d(4) index_ok_cong(1) [OF d(1), of t''] by (simp add: contacts_ok_def book_on_card_def t''_def)
  moreover have "hash_reconstruct_contact S p t = (True, t'')"
  proof -
    have "to_u16 (g * 6) = g * 6" using r(3) by (simp add: layout)
    then show ?thesis using r(1) contact_words(1,3) unfolding hash_reconstruct_contact_def t''_def e_def by simp
  qed
  moreover have "he_latest_msg_extent (entry_at t'' i) = UINT16_MAX" if "i \<in> set (occupied_slots t'')" for i
    using that d(7) [of i] index_ok_cong(4) [OF d(1), of t''] by (simp add: t''_def)
  ultimately show ?thesis using d(6) by (simp add: t''_def)
qed

end

end
