(* ===== verification/Rebuild_Messages.thy ===== *)
theory Rebuild_Messages
  imports Rebuild_Contacts
begin

text \<open>
  Rebuilding the message heads after a restart: \<^verbatim>\<open>hash_reconstruct_message\<close> on a table that knows
  the contacts and no messages.  A used sector that no later sector follows is the head of a chat; it names
  its contact.  \<open>chats_on_card\<close> says what the card must hold for that: \<open>L\<close> gives the head and \<open>C\<close> the chain
  of each contact slot.
\<close>

definition chats_on_card ::
    "(nat \<Rightarrow> byte list) \<Rightarrow> u32 list \<Rightarrow> (nat \<Rightarrow> Contact option) \<Rightarrow> (nat \<Rightarrow> nat) \<Rightarrow> (nat \<Rightarrow> nat list) \<Rightarrow> bool" where
  "chats_on_card blk bm cs L C \<longleftrightarrow>
     (\<forall>s < HASH_TABLE_ENTRIES. cs s \<noteq> None \<longrightarrow> chat blk bm (L s) (C s) \<and> rooted blk s (C s)) \<and>
     (\<forall>s < HASH_TABLE_ENTRIES. \<forall>r < HASH_TABLE_ENTRIES. cs s \<noteq> None \<longrightarrow> cs r \<noteq> None \<longrightarrow> s \<noteq> r \<longrightarrow> set (C s) \<inter> set (C r) = {}) \<and>
     (\<forall>x < TOTAL_MESSAGE_SECTOR_SIZE. used bm (MESSAGE_DATA_SECTOR x) \<longrightarrow>
        (\<exists>s < HASH_TABLE_ENTRIES. cs s \<noteq> None \<and> x \<in> set (C s)))"

definition phones_tidy :: "(nat \<Rightarrow> Contact option) \<Rightarrow> bool" where
  "phones_tidy cs \<longleftrightarrow>
     (\<forall>s < HASH_TABLE_ENTRIES. \<forall>c. cs s = Some c \<longrightarrow> c_phone_len c = length (phone_of c) \<and> c_phone_len c \<le> MAX_PHONE_LEN)"

definition heads_scanned ::
    "(nat \<Rightarrow> byte list) \<Rightarrow> u32 list \<Rightarrow> (nat \<Rightarrow> nat) \<Rightarrow> HashTable \<Rightarrow> nat \<Rightarrow> bool" where
  "heads_scanned blk bm L t f \<longleftrightarrow>
     contacts_ok blk bm t \<and> free_list_inv (ht_message_allocator t) \<and>
     fl_capacity (ht_message_allocator t) = TOTAL_MESSAGE_SECTOR_SIZE \<and>
     avail (ht_message_allocator t) = {x. x < f \<and> x < TOTAL_MESSAGE_SECTOR_SIZE \<and> \<not> used bm (MESSAGE_DATA_SECTOR x)} \<and>
     (\<forall>i \<in> set (occupied_slots t). he_latest_msg_extent (entry_at t i) =
        (if L (he_sector (entry_at t i)) < f then L (he_sector (entry_at t i)) else UINT16_MAX))"

lemma heads_scannedD:
  assumes "heads_scanned blk bm L t f"
  shows "contacts_ok blk bm t" "free_list_inv (ht_message_allocator t)"
    "fl_capacity (ht_message_allocator t) = TOTAL_MESSAGE_SECTOR_SIZE"
    "avail (ht_message_allocator t) = {x. x < f \<and> x < TOTAL_MESSAGE_SECTOR_SIZE \<and> \<not> used bm (MESSAGE_DATA_SECTOR x)}"
    "i \<in> set (occupied_slots t) \<Longrightarrow> he_latest_msg_extent (entry_at t i) =
      (if L (he_sector (entry_at t i)) < f then L (he_sector (entry_at t i)) else UINT16_MAX)"
  using assms by (simp_all add: heads_scanned_def)

lemma slot_sector:
  assumes "contacts_ok blk bm t" and "i \<in> set (occupied_slots t)"
  shows "he_sector (entry_at t i) < HASH_TABLE_ENTRIES" "contact_at blk bm (he_sector (entry_at t i)) \<noteq> None"
  using index_okD(3) [OF contacts_okD(2) [OF assms(1)] assms(2)] by (simp_all add: entry_ok_def Let_def)

text \<open>A head outside the message region is no head.\<close>

lemma head_cases:
  assumes "chats_on_card blk bm cs L C" and "s < HASH_TABLE_ENTRIES" and "cs s \<noteq> None"
  shows "L s = UINT16_MAX \<and> C s = [] \<or> L s < TOTAL_MESSAGE_SECTOR_SIZE \<and> used bm (MESSAGE_DATA_SECTOR (L s)) \<and> L s \<in> set (C s)"
proof -
  have "chat blk bm (L s) (C s)" using assms by (simp add: chats_on_card_def)
  then show ?thesis by (cases "C s") auto
qed

lemma linked_next: "linked blk nx (s # ss) \<Longrightarrow> x \<in> set ss \<Longrightarrow> ms_next (msg_block blk x) \<in> set (s # ss)"
  by (induction ss arbitrary: s nx) auto

text \<open>What the scan finds in the next field of a used sector.\<close>

lemma head_or_followed:
  assumes co: "chats_on_card blk bm cs L C" and x: "x < TOTAL_MESSAGE_SECTOR_SIZE" "used bm (MESSAGE_DATA_SECTOR x)"
  shows "\<exists>s < HASH_TABLE_ENTRIES. cs s \<noteq> None \<and>
    (L s = x \<and> ms_next (msg_block blk x) = UINT16_MAX \<and> ms_contact_index (msg_block blk x) = s \<and>
       (\<forall>r < HASH_TABLE_ENTRIES. cs r \<noteq> None \<longrightarrow> L r = x \<longrightarrow> r = s) \<or>
     ms_next (msg_block blk x) < TOTAL_MESSAGE_SECTOR_SIZE \<and> used bm (MESSAGE_DATA_SECTOR (ms_next (msg_block blk x))) \<and>
       (\<forall>r < HASH_TABLE_ENTRIES. cs r \<noteq> None \<longrightarrow> L r \<noteq> x)) \<and>
    sector_crc_valid (blk (DATA_SECTOR_TO_RAW (MESSAGE_DATA_SECTOR x)))"
proof -
  obtain s where s: "s < HASH_TABLE_ENTRIES" "cs s \<noteq> None" "x \<in> set (C s)" using co x unfolding chats_on_card_def by blast
  have c: "chat blk bm (L s) (C s)" "rooted blk s (C s)" using co s unfolding chats_on_card_def by blast+
  then obtain ss where ss: "C s = L s # ss" using s(3) by (cases "C s") auto
  have crc: "sector_crc_valid (blk (DATA_SECTOR_TO_RAW (MESSAGE_DATA_SECTOR x)))"
    using split_list [OF s(3)] chat_tail c(1) by fastforce
  have only: "r = s" if r: "r < HASH_TABLE_ENTRIES" "cs r \<noteq> None" "L r = x" for r
  proof (rule ccontr)
    assume "r \<noteq> s"
    then have "set (C s) \<inter> set (C r) = {}" using co s(1,2) r(1,2) unfolding chats_on_card_def by metis
    moreover have "x \<in> set (C r)" using head_cases [OF co r(1,2)] r(3) x(1) msg_sector_bounds(4) [OF x(1)] by auto
    ultimately show False using s(3) by blast
  qed
  show ?thesis
  proof (cases "x = L s")
    case True
    then have head: "L s = x \<and> ms_next (msg_block blk x) = UINT16_MAX \<and> ms_contact_index (msg_block blk x) = s \<and>
        (\<forall>r < HASH_TABLE_ENTRIES. cs r \<noteq> None \<longrightarrow> L r = x \<longrightarrow> r = s)"
      using c(2) ss only by (simp add: rooted_def)
    show ?thesis by (intro exI [of _ s] conjI, (rule s(1) s(2) crc disjI1 [OF head])+)
  next
    case False
    then have "ms_next (msg_block blk x) \<in> set (C s)" using linked_next [of blk UINT16_MAX "L s" ss x] c(2) s(3) ss by (auto simp: rooted_def)
    then have "ms_next (msg_block blk x) < TOTAL_MESSAGE_SECTOR_SIZE" "used bm (MESSAGE_DATA_SECTOR (ms_next (msg_block blk x)))"
      using chat_less [OF c(1)] chat_used [OF c(1)] by blast+
    moreover have "L r \<noteq> x" if "r < HASH_TABLE_ENTRIES" "cs r \<noteq> None" for r using only [OF that] False by auto
    ultimately have tail: "ms_next (msg_block blk x) < TOTAL_MESSAGE_SECTOR_SIZE \<and>
        used bm (MESSAGE_DATA_SECTOR (ms_next (msg_block blk x))) \<and> (\<forall>r < HASH_TABLE_ENTRIES. cs r \<noteq> None \<longrightarrow> L r \<noteq> x)"
      by simp
    show ?thesis by (intro exI [of _ s] conjI, (rule s(1) s(2) crc disjI2 [OF tail])+)
  qed
qed

lemma cstr_take_length: "cstr (take (length (cstr l)) l) = cstr l"
  unfolding cstr_def by (metis takeWhile_eq_take takeWhile_idem)

subsection \<open>One round of the scan\<close>

lemma heads_free:
  assumes h: "heads_scanned blk bm L t f" and co: "chats_on_card blk bm (contact_at blk bm) L C"
    and fg: "f \<le> g" and gap: "\<And>x. f \<le> x \<Longrightarrow> x < g \<Longrightarrow> x < TOTAL_MESSAGE_SECTOR_SIZE \<Longrightarrow> \<not> used bm (MESSAGE_DATA_SECTOR x)"
    and g: "g \<le> TOTAL_MESSAGE_SECTOR_SIZE"
  shows "heads_scanned blk bm L (t\<lparr>ht_message_allocator := free_list_free_range (ht_message_allocator t) f g\<rparr>) g"
proof -
  note d = heads_scannedD [OF h]
  have "\<forall>x. f \<le> x \<and> x < g \<longrightarrow> x \<notin> avail (ht_message_allocator t)" unfolding d(4) by auto
  note fr = free_list_free_range_inv [OF d(2) this]
  let ?t = "t\<lparr>ht_message_allocator := free_list_free_range (ht_message_allocator t) f g\<rparr>"
  have "x < f \<and> x < TOTAL_MESSAGE_SECTOR_SIZE \<and> \<not> used bm (MESSAGE_DATA_SECTOR x) \<or> f \<le> x \<and> x < g \<and> x < TOTAL_MESSAGE_SECTOR_SIZE \<longleftrightarrow>
      x < g \<and> x < TOTAL_MESSAGE_SECTOR_SIZE \<and> \<not> used bm (MESSAGE_DATA_SECTOR x)" for x
    using fg gap [of x] by (cases "x < f") auto
  then have av: "avail (ht_message_allocator ?t) = {x. x < g \<and> x < TOTAL_MESSAGE_SECTOR_SIZE \<and> \<not> used bm (MESSAGE_DATA_SECTOR x)}"
    using fr d(3,4) by (simp add: set_eq_iff)
  have o: "occupied_slots ?t = occupied_slots t" by (simp add: occupied_slots_def)
  have ok: "contacts_ok blk bm ?t"
    using d(1) index_ok_cong(1) [OF contacts_okD(2) [OF d(1)], of ?t] sectors_used_cong [of ?t t] by (simp add: contacts_ok_def)
  have "he_latest_msg_extent (entry_at t i) =
      (if L (he_sector (entry_at t i)) < g then L (he_sector (entry_at t i)) else UINT16_MAX)"
    if i: "i \<in> set (occupied_slots t)" for i
  proof -
    let ?h = "L (he_sector (entry_at t i))"
    have "?h = UINT16_MAX \<or> ?h < TOTAL_MESSAGE_SECTOR_SIZE \<and> used bm (MESSAGE_DATA_SECTOR ?h)"
      using head_cases [OF co slot_sector [OF d(1) i]] by blast
    then have "?h < f \<longleftrightarrow> ?h < g" using gap [of ?h] fg g by (cases "?h < f") (auto simp: layout)
    then show ?thesis using d(5) [OF i] by simp
  qed
  then show ?thesis using fr d(3) ok av by (simp add: heads_scanned_def o)
qed

text \<open>The entry of a contact slot.\<close>

lemma slot_entry:
  assumes ok: "contacts_ok blk bm t" and s: "s < HASH_TABLE_ENTRIES" "contact_at blk bm s = Some c"
  obtains i where "i \<in> set (occupied_slots t)" "he_sector (entry_at t i) = s" "phone_index (contact_at blk bm) t (phone_of c) = Some i"
proof -
  note t = contacts_okD [OF ok]
  have "s \<in> sectors_used t" unfolding t(6) using s by simp
  then obtain i where i: "i \<in> set (occupied_slots t)" "he_sector (entry_at t i) = s" by (auto simp: sectors_used_def)
  have "slot_phone (contact_at blk bm) t i = phone_of c" using i(2) s(2) by (simp add: slot_contact_def)
  then show ?thesis using that i phone_index_Some [OF index_okD(4) [OF t(2)]] by blast
qed

context reliable_store begin

lemma insert_message_scan:
  assumes p: "pers_ok S ok blk p" and h: "heads_scanned (blk (dev p)) (usage_bitmap p) L t x"
    and ph: "phones_tidy (contact_at (blk (dev p)) (usage_bitmap p))"
    and s: "s < HASH_TABLE_ENTRIES" "contact_at (blk (dev p)) (usage_bitmap p) s = Some c" "L s = x"
    and only: "\<And>r. r < HASH_TABLE_ENTRIES \<Longrightarrow> contact_at (blk (dev p)) (usage_bitmap p) r \<noteq> None \<Longrightarrow> L r = x \<Longrightarrow> r = s"
    and m: "ms_contact_index m = s" and u: "used (usage_bitmap p) (MESSAGE_DATA_SECTOR x)"
  shows "\<exists>t'. insert_message_from_sector S p t m x = (STRG_OK, t', p) \<and> heads_scanned (blk (dev p)) (usage_bitmap p) L t' (Suc x)"
proof -
  let ?cs = "contact_at (blk (dev p)) (usage_bitmap p)"
  note d = heads_scannedD [OF h]
  note ix = index_okD [OF contacts_okD(2) [OF d(1)]]
  obtain i where i: "i \<in> set (occupied_slots t)" "he_sector (entry_at t i) = s" "phone_index ?cs t (phone_of c) = Some i"
    by (rule slot_entry [OF d(1) s(1,2)])
  have il: "i < length (ht_htable t)" "he_state (entry_at t i) = ENTRY_OCCUPIED" using i(1) ix(1,2) by (simp_all add: set_occupied_slots)
  have rc: "read_contact S p s = Inr c"
    using contacts_read_as [OF p contacts_okD(1) [OF d(1)]] s(1,2) by (simp add: reads_as_def)
  have "c_phone_len c = length (phone_of c)" "c_phone_len c \<le> MAX_PHONE_LEN" using ph s(1,2) unfolding phones_tidy_def by blast+
  then have name: "cstr (take (if c_phone_len c > MAX_PHONE_LEN then MAX_PHONE_LEN else c_phone_len c) (c_phone c)) = phone_of c"
    using cstr_take_length [of "c_phone c"] by (simp add: phone_of_def)
  have fe: "hash_find_entry S p t (phone_of c) = Some i" using find_entry_on_card [OF p d(1)] i(3) by simp
  define t' where "t' = set_entry i ((entry_at t i)\<lparr>he_latest_msg_extent := x\<rparr>) t"
  have run: "insert_message_from_sector S p t m x = (STRG_OK, t', p)"
    unfolding insert_message_from_sector_def m Let_def rc using name fe il(2) i(2) by (simp add: t'_def)
  have hd: "ht_htable t' = (ht_htable t)[i := (entry_at t i)\<lparr>he_latest_msg_extent := x\<rparr>]" "ht_size t' = ht_size t"
    "ht_num_elems t' = ht_num_elems t" "ht_contact_allocator t' = ht_contact_allocator t" "ht_message_allocator t' = ht_message_allocator t"
    by (simp_all add: t'_def set_entry_def)
  have o: "occupied_slots t' = occupied_slots t" by (rule index_extent(1) [OF hd(1-3) il(1)])
  have at: "entry_at t' j = (if j = i then (entry_at t i)\<lparr>he_latest_msg_extent := x\<rparr> else entry_at t j)" for j
    using il(1) by (simp add: hd(1))
  have latest: "he_latest_msg_extent (entry_at t' j) =
      (if L (he_sector (entry_at t' j)) < Suc x then L (he_sector (entry_at t' j)) else UINT16_MAX)"
    if j: "j \<in> set (occupied_slots t)" for j
  proof (cases "j = i")
    case False
    then have "he_sector (entry_at t j) \<noteq> s" using index_ok_sector [OF contacts_okD(2) [OF d(1)] j i(1)] i(2) by auto
    then have "L (he_sector (entry_at t j)) \<noteq> x" using only [OF slot_sector [OF d(1) j]] by blast
    then show ?thesis using d(5) [OF j] False by (simp add: at)
  qed (use i(2) s(3) in \<open>simp add: at\<close>)
  have "{y. y < x \<and> y < TOTAL_MESSAGE_SECTOR_SIZE \<and> \<not> used (usage_bitmap p) (MESSAGE_DATA_SECTOR y)} =
      {y. y < Suc x \<and> y < TOTAL_MESSAGE_SECTOR_SIZE \<and> \<not> used (usage_bitmap p) (MESSAGE_DATA_SECTOR y)}"
    using u by (auto simp: less_Suc_eq)
  then have "heads_scanned (blk (dev p)) (usage_bitmap p) L t' (Suc x)"
    using d(2-4) latest contacts_ok_extent [OF d(1) il(1) hd(1-4)] unfolding heads_scanned_def hd(5) o by simp
  then show ?thesis using run by blast
qed

lemma reconstruct_step_scan:
  assumes p: "pers_ok S ok blk p" and h: "heads_scanned (blk (dev p)) (usage_bitmap p) L t f"
    and co: "chats_on_card (blk (dev p)) (usage_bitmap p) (contact_at (blk (dev p)) (usage_bitmap p)) L C"
    and ph: "phones_tidy (contact_at (blk (dev p)) (usage_bitmap p))"
    and x: "f \<le> x" "x < TOTAL_MESSAGE_SECTOR_SIZE" "used (usage_bitmap p) (MESSAGE_DATA_SECTOR x)"
    and gap: "\<And>y. f \<le> y \<Longrightarrow> y < x \<Longrightarrow> \<not> used (usage_bitmap p) (MESSAGE_DATA_SECTOR y)"
  shows "\<exists>t'. reconstruct_message_step S p t f x = (True, t', p) \<and> heads_scanned (blk (dev p)) (usage_bitmap p) L t' (Suc x)"
proof -
  let ?bm = "usage_bitmap p" and ?blk = "blk (dev p)" and ?m = "msg_block (blk (dev p)) x"
  let ?cs = "contact_at ?blk ?bm"
  define t1 where "t1 = t\<lparr>ht_message_allocator := free_list_free_range (ht_message_allocator t) f x\<rparr>"
  have h1: "heads_scanned ?blk ?bm L t1 x"
    unfolding t1_def by (rule heads_free [OF h co x(1) gap]) (use x(2) in simp_all)
  note d = heads_scannedD [OF h1]
  obtain s where s: "s < HASH_TABLE_ENTRIES" "?cs s \<noteq> None"
    and disj: "L s = x \<and> ms_next ?m = UINT16_MAX \<and> ms_contact_index ?m = s \<and>
       (\<forall>r < HASH_TABLE_ENTRIES. ?cs r \<noteq> None \<longrightarrow> L r = x \<longrightarrow> r = s) \<or>
     ms_next ?m < TOTAL_MESSAGE_SECTOR_SIZE \<and> used ?bm (MESSAGE_DATA_SECTOR (ms_next ?m)) \<and>
       (\<forall>r < HASH_TABLE_ENTRIES. ?cs r \<noteq> None \<longrightarrow> L r \<noteq> x)"
    and crc: "sector_crc_valid (?blk (DATA_SECTOR_TO_RAW (MESSAGE_DATA_SECTOR x)))"
    using head_or_followed [OF co x(2,3)] by (elim exE conjE) (rule that)
  have rd: "read_message_sector S (dev p) x = Inr ?m" by (rule read_message_sector_valid [OF p x(2) crc])
  show ?thesis
    using disj
  proof
    assume a: "L s = x \<and> ms_next ?m = UINT16_MAX \<and> ms_contact_index ?m = s \<and>
       (\<forall>r < HASH_TABLE_ENTRIES. ?cs r \<noteq> None \<longrightarrow> L r = x \<longrightarrow> r = s)"
    obtain c where c: "?cs s = Some c" using s(2) by blast
    obtain t' where t': "insert_message_from_sector S p t1 ?m x = (STRG_OK, t', p)" "heads_scanned ?blk ?bm L t' (Suc x)"
      using insert_message_scan [OF p h1 ph s(1) c _ _ _ x(3), of ?m] a by blast
    have "reconstruct_message_step S p t f x = (True, t', p)"
      unfolding reconstruct_message_step_def t1_def [symmetric] Let_def rd using a t'(1) by simp
    then show ?thesis using t'(2) by blast
  next
    assume a: "ms_next ?m < TOTAL_MESSAGE_SECTOR_SIZE \<and> used ?bm (MESSAGE_DATA_SECTOR (ms_next ?m)) \<and>
       (\<forall>r < HASH_TABLE_ENTRIES. ?cs r \<noteq> None \<longrightarrow> L r \<noteq> x)"
    then have n: "ms_next ?m < TOTAL_MESSAGE_SECTOR_SIZE" "check_usage_bit ?bm (msg_sector (ms_next ?m))" "ms_next ?m \<noteq> UINT16_MAX"
      using check_usage_bit_used [OF msg_sector_bounds(1)] msg_sector_bounds(4) by (simp_all add: less_imp_neq)
    have run: "reconstruct_message_step S p t f x = (True, t1, p)"
      unfolding reconstruct_message_step_def t1_def [symmetric] Let_def rd using n by simp
    have "L (he_sector (entry_at t1 i)) \<noteq> x" if "i \<in> set (occupied_slots t1)" for i
      using a slot_sector [OF d(1) that] by blast
    then have lt: "L (he_sector (entry_at t1 i)) < Suc x \<longleftrightarrow> L (he_sector (entry_at t1 i)) < x" if "i \<in> set (occupied_slots t1)" for i
      using that by (auto simp: less_Suc_eq)
    have "{y. y < x \<and> y < TOTAL_MESSAGE_SECTOR_SIZE \<and> \<not> used ?bm (MESSAGE_DATA_SECTOR y)} =
        {y. y < Suc x \<and> y < TOTAL_MESSAGE_SECTOR_SIZE \<and> \<not> used ?bm (MESSAGE_DATA_SECTOR y)}"
      using x(3) by (auto simp: less_Suc_eq)
    then have "heads_scanned ?blk ?bm L t1 (Suc x)" using d lt unfolding heads_scanned_def by simp
    then show ?thesis using run by blast
  qed
qed

text \<open>The scan goes from one used sector to the next.\<close>

lemma next_used:
  fixes bm :: "u32 list"
  assumes "lo \<le> TOTAL_MESSAGE_SECTOR_SIZE"
  defines "n \<equiv> get_next_bit bm (MESSAGE_DATA_SECTOR lo) last_message_data_sector"
  shows "(n = UINT16_MAX \<or> last_message_data_sector < n) \<and>
      (\<forall>y. lo \<le> y \<longrightarrow> y < TOTAL_MESSAGE_SECTOR_SIZE \<longrightarrow> \<not> used bm (MESSAGE_DATA_SECTOR y)) \<or>
    (\<exists>x. n = MESSAGE_DATA_SECTOR x \<and> lo \<le> x \<and> x < TOTAL_MESSAGE_SECTOR_SIZE \<and> used bm (MESSAGE_DATA_SECTOR x) \<and>
      (\<forall>y. lo \<le> y \<longrightarrow> y < x \<longrightarrow> \<not> used bm (MESSAGE_DATA_SECTOR y)))"
proof -
  have l: "last_message_data_sector < USAGE_BITMAP_TOTAL_BITS" by (simp add: last_message_data_sector_def sector_defs layout)
  have mds: "MESSAGE_DATA_SECTOR y = MESSAGE_DATA_START_SECTOR + y" for y by (simp add: sector_defs)
  have lm: "last_message_data_sector = MESSAGE_DATA_START_SECTOR + (TOTAL_MESSAGE_SECTOR_SIZE - 1)" "0 < TOTAL_MESSAGE_SECTOR_SIZE"
    by (simp_all add: last_message_data_sector_def sector_defs layout)
  from get_next_bit_spec [OF l, of bm "MESSAGE_DATA_SECTOR lo", folded n_def] show ?thesis
  proof
    assume a: "n = UINT16_MAX \<and> (\<forall>j. used bm j \<and> MESSAGE_DATA_SECTOR lo \<le> j \<longrightarrow>
      USAGE_BITMAP_FIND_INDEX last_message_data_sector < USAGE_BITMAP_FIND_INDEX j)"
    have "\<not> used bm (MESSAGE_DATA_SECTOR y)" if y: "lo \<le> y" "y < TOTAL_MESSAGE_SECTOR_SIZE" for y
    proof
      assume "used bm (MESSAGE_DATA_SECTOR y)"
      then have "USAGE_BITMAP_FIND_INDEX last_message_data_sector < USAGE_BITMAP_FIND_INDEX (MESSAGE_DATA_SECTOR y)"
        using a y(1) by (simp add: mds)
      moreover have "MESSAGE_DATA_SECTOR y \<le> last_message_data_sector" using y(2) by (simp add: mds lm)
      ultimately show False using find_index_mono by fastforce
    qed
    then show ?thesis using a by blast
  next
    assume a: "used bm n \<and> MESSAGE_DATA_SECTOR lo \<le> n \<and>
      USAGE_BITMAP_FIND_INDEX n \<le> USAGE_BITMAP_FIND_INDEX last_message_data_sector \<and>
      (\<forall>j. used bm j \<and> MESSAGE_DATA_SECTOR lo \<le> j \<longrightarrow> n \<le> j)"
    define x where "x = n - MESSAGE_DATA_START_SECTOR"
    have x: "n = MESSAGE_DATA_SECTOR x" "lo \<le> x" using a by (auto simp: x_def mds)
    have least: "\<not> used bm (MESSAGE_DATA_SECTOR y)" if "lo \<le> y" "y < x" for y
    proof
      assume "used bm (MESSAGE_DATA_SECTOR y)"
      then have "n \<le> MESSAGE_DATA_SECTOR y" using a that(1) by (simp add: mds)
      then show False using that(2) x(1) by (simp add: mds)
    qed
    show ?thesis
    proof (cases "x < TOTAL_MESSAGE_SECTOR_SIZE")
      case True
      then show ?thesis using x a least by blast
    next
      case False
      then have "last_message_data_sector < n" using x(1) lm by (simp add: mds)
      moreover have "\<not> used bm (MESSAGE_DATA_SECTOR y)" if "lo \<le> y" "y < TOTAL_MESSAGE_SECTOR_SIZE" for y
        using least [OF that(1)] that(2) False by simp
      ultimately show ?thesis by blast
    qed
  qed
qed

lemma reconstruct_loop_scan:
  assumes p: "pers_ok S ok blk p" and h: "heads_scanned (blk (dev p)) (usage_bitmap p) L t f"
    and co: "chats_on_card (blk (dev p)) (usage_bitmap p) (contact_at (blk (dev p)) (usage_bitmap p)) L C"
    and ph: "phones_tidy (contact_at (blk (dev p)) (usage_bitmap p))" and f: "f \<le> TOTAL_MESSAGE_SECTOR_SIZE"
  shows "\<exists>t' f'. reconstruct_message_loop S p t
      (get_next_bit (usage_bitmap p) (MESSAGE_DATA_SECTOR f) last_message_data_sector) f = (True, t', p, f') \<and>
    heads_scanned (blk (dev p)) (usage_bitmap p) L t' f' \<and> f' \<le> TOTAL_MESSAGE_SECTOR_SIZE \<and>
    (\<forall>y. f' \<le> y \<longrightarrow> y < TOTAL_MESSAGE_SECTOR_SIZE \<longrightarrow> \<not> used (usage_bitmap p) (MESSAGE_DATA_SECTOR y))"
  using h f
proof (induction "TOTAL_MESSAGE_SECTOR_SIZE - f" arbitrary: t f rule: less_induct)
  case less
  let ?bm = "usage_bitmap p" and ?n = "get_next_bit (usage_bitmap p) (MESSAGE_DATA_SECTOR f) last_message_data_sector"
  have mds: "MESSAGE_DATA_SECTOR y = MESSAGE_DATA_START_SECTOR + y" for y by (simp add: sector_defs)
  from next_used [OF less.prems(2), of ?bm] show ?case
  proof
    assume a: "(?n = UINT16_MAX \<or> last_message_data_sector < ?n) \<and>
      (\<forall>y. f \<le> y \<longrightarrow> y < TOTAL_MESSAGE_SECTOR_SIZE \<longrightarrow> \<not> used ?bm (MESSAGE_DATA_SECTOR y))"
    then have "reconstruct_message_loop S p t ?n f = (True, t, p, f)" by (subst reconstruct_message_loop.simps) auto
    then show ?thesis using less.prems a by blast
  next
    assume "\<exists>x. ?n = MESSAGE_DATA_SECTOR x \<and> f \<le> x \<and> x < TOTAL_MESSAGE_SECTOR_SIZE \<and> used ?bm (MESSAGE_DATA_SECTOR x) \<and>
      (\<forall>y. f \<le> y \<longrightarrow> y < x \<longrightarrow> \<not> used ?bm (MESSAGE_DATA_SECTOR y))"
    then obtain x where x: "?n = MESSAGE_DATA_SECTOR x" "f \<le> x" "x < TOTAL_MESSAGE_SECTOR_SIZE" "used ?bm (MESSAGE_DATA_SECTOR x)"
      "\<And>y. f \<le> y \<Longrightarrow> y < x \<Longrightarrow> \<not> used ?bm (MESSAGE_DATA_SECTOR y)" by blast
    obtain t' where t': "reconstruct_message_step S p t f x = (True, t', p)" "heads_scanned (blk (dev p)) ?bm L t' (Suc x)"
      using reconstruct_step_scan [OF p less.prems(1) co ph x(2-5)] by blast
    have n: "?n \<noteq> UINT16_MAX" "?n \<le> last_message_data_sector" "to_u16 (?n - MESSAGE_DATA_START_SECTOR) = x" "to_u16 (x + 1) = Suc x"
      using x(3) unfolding x(1) by (simp_all add: last_message_data_sector_def sector_defs layout)
    show ?thesis
    proof (cases "?n = last_message_data_sector")
      case True
      have sx: "Suc x = TOTAL_MESSAGE_SECTOR_SIZE"
        using True unfolding x(1) by (simp add: last_message_data_sector_def sector_defs layout)
      have "reconstruct_message_loop S p t ?n f = (True, t', p, Suc x)"
        using n True t'(1) by (subst reconstruct_message_loop.simps) (simp add: Let_def)
      then show ?thesis using t'(2) sx by auto
    next
      case False
      have u: "to_u16 (?n + 1) = MESSAGE_DATA_SECTOR (Suc x)" using x(3) unfolding x(1) by (simp add: sector_defs layout)
      have "reconstruct_message_loop S p t ?n f = reconstruct_message_loop S p t'
          (get_next_bit ?bm (MESSAGE_DATA_SECTOR (Suc x)) last_message_data_sector) (Suc x)"
        using n False t'(1) u by (subst reconstruct_message_loop.simps) (simp add: Let_def)
      moreover have "TOTAL_MESSAGE_SECTOR_SIZE - Suc x < TOTAL_MESSAGE_SECTOR_SIZE - f" "Suc x \<le> TOTAL_MESSAGE_SECTOR_SIZE"
        using x(2,3) by simp_all
      ultimately show ?thesis using less.hyps [OF _ t'(2)] by simp
    qed
  qed
qed

lemma reconstruct_message_scan:
  assumes p: "pers_ok S ok blk p" and h: "heads_scanned (blk (dev p)) (usage_bitmap p) L t 0"
    and co: "chats_on_card (blk (dev p)) (usage_bitmap p) (contact_at (blk (dev p)) (usage_bitmap p)) L C"
    and ph: "phones_tidy (contact_at (blk (dev p)) (usage_bitmap p))"
  shows "\<exists>t'. hash_reconstruct_message S p t = (True, t', p) \<and>
    heads_scanned (blk (dev p)) (usage_bitmap p) L t' TOTAL_MESSAGE_SECTOR_SIZE"
proof -
  obtain t' f where l: "reconstruct_message_loop S p t
      (get_next_bit (usage_bitmap p) (MESSAGE_DATA_SECTOR 0) last_message_data_sector) 0 = (True, t', p, f)"
    "heads_scanned (blk (dev p)) (usage_bitmap p) L t' f" "f \<le> TOTAL_MESSAGE_SECTOR_SIZE"
    "\<And>y. f \<le> y \<Longrightarrow> y < TOTAL_MESSAGE_SECTOR_SIZE \<Longrightarrow> \<not> used (usage_bitmap p) (MESSAGE_DATA_SECTOR y)"
    using reconstruct_loop_scan [OF p h co ph] by auto
  then show ?thesis using heads_free [OF l(2) co l(3) l(4)] by (simp add: hash_reconstruct_message_def)
qed

end

subsection \<open>The card determines the directory\<close>

lemma chats_on_cardI:
  assumes ok: "contacts_ok blk bm t" and mok: "messages_ok blk bm t"
  shows "\<exists>L C. chats_on_card blk bm (contact_at blk bm) L C \<and> (\<forall>i \<in> set (occupied_slots t). C (he_sector (entry_at t i)) = chain blk t i)"
proof -
  let ?cs = "contact_at blk bm" and ?sec = "\<lambda>i. he_sector (entry_at t i)"
  note m = messages_okD [OF mok]
  define slot where "slot s = (SOME i. i \<in> set (occupied_slots t) \<and> ?sec i = s)" for s
  define L where "L s = he_latest_msg_extent (entry_at t (slot s))" for s
  define C where "C s = chain blk t (slot s)" for s
  have slot: "slot s \<in> set (occupied_slots t) \<and> ?sec (slot s) = s" if s: "s < HASH_TABLE_ENTRIES" "?cs s \<noteq> None" for s
  proof -
    obtain i where "i \<in> set (occupied_slots t) \<and> ?sec i = s" using slot_entry [OF ok s(1)] s(2) by blast
    then show ?thesis unfolding slot_def by (rule someI)
  qed
  have inv: "slot (?sec i) = i" if i: "i \<in> set (occupied_slots t)" for i
    using slot [OF slot_sector [OF ok i]] index_ok_sector [OF contacts_okD(2) [OF ok] _ i] by blast
  have "chat blk bm (L s) (C s) \<and> rooted blk s (C s)" if s: "s < HASH_TABLE_ENTRIES" "?cs s \<noteq> None" for s
    using m(4,6) [of "slot s"] slot [OF s] by (simp add: L_def C_def)
  moreover have "set (C s) \<inter> set (C r) = {}"
    if s: "s < HASH_TABLE_ENTRIES" "?cs s \<noteq> None" and r: "r < HASH_TABLE_ENTRIES" "?cs r \<noteq> None" and "s \<noteq> r" for s r
  proof -
    have "slot s \<noteq> slot r" using slot [OF s] slot [OF r] \<open>s \<noteq> r\<close> by metis
    then show ?thesis using m(5) slot [OF s] slot [OF r] by (simp add: C_def)
  qed
  moreover have "\<exists>s < HASH_TABLE_ENTRIES. ?cs s \<noteq> None \<and> x \<in> set (C s)"
    if x: "x < TOTAL_MESSAGE_SECTOR_SIZE" "used bm (MESSAGE_DATA_SECTOR x)" for x
  proof -
    obtain i where i: "i \<in> set (occupied_slots t)" "x \<in> set (chain blk t i)" using m(7) [OF x] by blast
    then have "x \<in> set (C (?sec i))" by (simp add: C_def inv)
    then show ?thesis using slot_sector [OF ok i(1)] by blast
  qed
  ultimately have "chats_on_card blk bm ?cs L C" unfolding chats_on_card_def by blast
  moreover have "\<forall>i \<in> set (occupied_slots t). C (?sec i) = chain blk t i" by (simp add: C_def inv)
  ultimately show ?thesis by blast
qed

text \<open>After the scan every chat is where the card says.\<close>

lemma heads_scanned_messages:
  assumes h: "heads_scanned blk bm L t TOTAL_MESSAGE_SECTOR_SIZE" and co: "chats_on_card blk bm (contact_at blk bm) L C"
  shows "messages_ok blk bm t" "i \<in> set (occupied_slots t) \<Longrightarrow> chain blk t i = C (he_sector (entry_at t i))"
proof -
  note d = heads_scannedD [OF h]
  let ?sec = "\<lambda>i. he_sector (entry_at t i)"
  have facts: "chat blk bm (L s) (C s)" "rooted blk s (C s)" if "s < HASH_TABLE_ENTRIES" "contact_at blk bm s \<noteq> None" for s
    using co that unfolding chats_on_card_def by blast+
  have c: "chat blk bm (he_latest_msg_extent (entry_at t i)) (C (?sec i))" if i: "i \<in> set (occupied_slots t)" for i
  proof -
    have "L (?sec i) < TOTAL_MESSAGE_SECTOR_SIZE \<or> L (?sec i) = UINT16_MAX" using head_cases [OF co slot_sector [OF d(1) i]] by blast
    then have "he_latest_msg_extent (entry_at t i) = L (?sec i)" using d(5) [OF i] by auto
    then show ?thesis using facts(1) [OF slot_sector [OF d(1) i]] by simp
  qed
  show "i \<in> set (occupied_slots t) \<Longrightarrow> chain blk t i = C (?sec i)" by (rule chain_eq [OF c])
  show "messages_ok blk bm t"
  proof (rule messages_okI [where C = "\<lambda>i. C (?sec i)", OF d(2,3) _ c])
    fix i j assume ij: "i \<in> set (occupied_slots t)" "j \<in> set (occupied_slots t)" "i \<noteq> j"
    then have "?sec i \<noteq> ?sec j" using index_ok_sector [OF contacts_okD(2) [OF d(1)]] by blast
    then show "set (C (?sec i)) \<inter> set (C (?sec j)) = {}"
      using co slot_sector [OF d(1) ij(1)] slot_sector [OF d(1) ij(2)] unfolding chats_on_card_def by blast
  next
    fix i assume "i \<in> set (occupied_slots t)"
    then show "rooted blk (?sec i) (C (?sec i))" by (intro facts(2) slot_sector [OF d(1)])
  next
    fix x assume "x < TOTAL_MESSAGE_SECTOR_SIZE" "used bm (MESSAGE_DATA_SECTOR x)"
    then obtain s c where s: "s < HASH_TABLE_ENTRIES" "contact_at blk bm s = Some c" "x \<in> set (C s)" using co unfolding chats_on_card_def by blast
    then show "\<exists>i \<in> set (occupied_slots t). x \<in> set (C (?sec i))" using slot_entry [OF d(1) s(1,2)] by metis
  qed (use d(4) in auto)
qed

lemma sector_indexed:
  assumes ok: "contacts_ok blk bm t" and ok': "contacts_ok blk bm t'" and i: "phone_index (contact_at blk bm) t ph = Some i"
  obtains j where "phone_index (contact_at blk bm) t' ph = Some j" "he_sector (entry_at t' j) = he_sector (entry_at t i)"
    "i \<in> set (occupied_slots t)" "j \<in> set (occupied_slots t')"
proof -
  note ix = indexed [OF contacts_okD(2) [OF ok] i]
  obtain c where c: "contact_at blk bm (he_sector (entry_at t i)) = Some c" using slot_sector(2) [OF ok ix(1)] by blast
  have "phone_of c = ph" using ix(2) c by (simp add: slot_contact_def)
  then show ?thesis using slot_entry [OF ok' slot_sector(1) [OF ok ix(1)] c] that ix(1) by metis
qed

lemma recovered_book:
  assumes ok: "contacts_ok blk bm t" and ok': "contacts_ok blk bm t'"
  shows "phone_book (contact_at blk bm) t' = phone_book (contact_at blk bm) t"
proof
  fix ph
  show "phone_book (contact_at blk bm) t' ph = phone_book (contact_at blk bm) t ph"
  proof (cases "phone_index (contact_at blk bm) t ph")
    case None
    then have "phone_index (contact_at blk bm) t' ph = None" using sector_indexed [OF ok' ok] by (metis not_None_eq)
    then show ?thesis using None by (simp add: phone_book_def)
  next
    case (Some i)
    then obtain j where "phone_index (contact_at blk bm) t' ph = Some j" "he_sector (entry_at t' j) = he_sector (entry_at t i)"
      by (rule sector_indexed [OF ok ok'])
    then show ?thesis using Some by (simp add: phone_book_def slot_contact_def)
  qed
qed

lemma recovered_chats:
  assumes ok: "contacts_ok blk bm t" and ok': "contacts_ok blk bm t'"
    and c: "\<And>i. i \<in> set (occupied_slots t) \<Longrightarrow> chain blk t i = C (he_sector (entry_at t i))"
    and c': "\<And>i. i \<in> set (occupied_slots t') \<Longrightarrow> chain blk t' i = C (he_sector (entry_at t' i))"
  shows "message_book (contact_at blk bm) blk t' = message_book (contact_at blk bm) blk t"
proof
  fix ph
  show "message_book (contact_at blk bm) blk t' ph = message_book (contact_at blk bm) blk t ph"
  proof (cases "phone_index (contact_at blk bm) t ph")
    case None
    then have "phone_index (contact_at blk bm) t' ph = None" using sector_indexed [OF ok' ok] by (metis not_None_eq)
    then show ?thesis using None by (simp add: message_book_def)
  next
    case (Some i)
    then obtain j where "phone_index (contact_at blk bm) t' ph = Some j" "he_sector (entry_at t' j) = he_sector (entry_at t i)"
      "i \<in> set (occupied_slots t)" "j \<in> set (occupied_slots t')"
      by (rule sector_indexed [OF ok ok'])
    then show ?thesis using Some c c' by (simp add: message_book_def)
  qed
qed

subsection \<open>A removal that is cut short\<close>

context reliable_store begin

text \<open>The removal of a chat that is cut after its newest sector: the next sector, now the newest, still names it.  The scan
  takes a sector for the head of a chat when the one it names is not in use, whoever uses it.\<close>

lemma chat_sector_readable:
  assumes "pers_ok S ok blk p" and "chat (blk (dev p)) (usage_bitmap p) y (y # x # ss)"
  shows "x < TOTAL_MESSAGE_SECTOR_SIZE" "used (usage_bitmap p) (MESSAGE_DATA_SECTOR x)" "y \<noteq> x" "y < TOTAL_MESSAGE_SECTOR_SIZE"
    "sector_crc_valid (blk (dev p) (DATA_SECTOR_TO_RAW (MESSAGE_DATA_SECTOR x)))"
  using assms(2) chat_distinct [OF assms(2)] by auto

lemma removal_cut_short:
  assumes p: "pers_ok S ok blk p" and c: "chat (blk (dev p)) (usage_bitmap p) y (y # x # ss)"
  shows "\<exists>out p'. remove_message_sector S p fls y = (STRG_OK, out, p', free_list_free fls y) \<and> pers_ok S ok blk p' \<and>
    \<not> used (usage_bitmap p') (MESSAGE_DATA_SECTOR y) \<and> used (usage_bitmap p') (MESSAGE_DATA_SECTOR x) \<and>
    raw_data_same (blk (dev p)) (blk (dev p'))"
proof -
  note k = chat_sector_readable [OF p c]
  have y: "used (usage_bitmap p) (MESSAGE_DATA_SECTOR y)" "sector_crc_valid (blk (dev p) (DATA_SECTOR_TO_RAW (MESSAGE_DATA_SECTOR y)))"
    using c by auto
  from remove_message_sector_sem [OF p k(4) y, of fls] show ?thesis using k(2,3) by (fastforce simp: sector_defs)
qed

lemma followed_sector_passed_over:
  assumes q: "pers_ok S ok blk q" and x: "x < TOTAL_MESSAGE_SECTOR_SIZE"
    and v: "sector_crc_valid (blk (dev q) (DATA_SECTOR_TO_RAW (MESSAGE_DATA_SECTOR x)))"
    and nx: "ms_next (msg_block (blk (dev q)) x) = y" "y < TOTAL_MESSAGE_SECTOR_SIZE" "used (usage_bitmap q) (MESSAGE_DATA_SECTOR y)"
  shows "reconstruct_message_step S q t f x =
    (True, t\<lparr>ht_message_allocator := free_list_free_range (ht_message_allocator t) f x\<rparr>, q)"
proof -
  have "check_usage_bit (usage_bitmap q) (msg_sector y)"
    using check_usage_bit_used [OF msg_sector_bounds(1) [OF nx(2)]] nx(3) by (simp add: nx(2))
  then show ?thesis
    using read_message_sector_valid [OF q x v] nx msg_sector_bounds(4) [OF nx(2)] by (simp add: reconstruct_message_step_def Let_def)
qed

end

end
