(* ===== verification/Db_Mount.thy ===== *)
theory Db_Mount
  imports Db_Format Rebuild_Messages
begin

text \<open>
  Mounting a card: \<^verbatim>\<open>database_mount\<close> on the card of a sound database, with static arrays that hold
  anything, gives a sound database again that stands for the same phone book, the same chats and the same
  logs.  The chats come back in the order of the time stamps of their newest messages.
\<close>

text \<open>The directory after a restart: what is on the card, and the chats by time stamp.\<close>

definition dir_restarted :: "Directory \<Rightarrow> Directory \<Rightarrow> bool" where
  "dir_restarted D D' \<longleftrightarrow> D' = D\<lparr>dir_recent := dir_recent D'\<rparr> \<and> mset (dir_recent D') = mset (dir_recent D) \<and>
     sorted (map (\<lambda>ph. - int (m_timestamp (hd (the (dir_chats D ph))))) (dir_recent D'))"

lemma book_phones_tidy:
  assumes r: "records_ok S ok blk p t"
  shows "phones_tidy (on_card blk p)"
  unfolding phones_tidy_def
proof (intro allI impI)
  fix s c assume s: "s < HASH_TABLE_ENTRIES" "on_card blk p s = Some c"
  note ok = records_okD(2) [OF r]
  obtain i where i: "i \<in> set (occupied_slots t)" "he_sector (entry_at t i) = s" "phone_index (on_card blk p) t (phone_of c) = Some i"
    by (rule slot_entry [OF ok s])
  have "slot_contact (on_card blk p) t i = c" using i(2) s(2) by (simp add: slot_contact_def)
  then have "phone_book (on_card blk p) t (phone_of c) = Some c" using i(3) by (simp add: phone_book_def)
  then have t: "tidy c" by (rule records_okD(5) [OF r])
  have "length (cstr (c_phone c)) \<le> length (c_phone c)" by (simp add: cstr_def length_takeWhile_le)
  then show "c_phone_len c = length (phone_of c) \<and> c_phone_len c \<le> MAX_PHONE_LEN"
    using t by (simp add: tidy_def contact_wf_def phone_of_def layout)
qed

lemma fresh_scanned:
  assumes t: "fresh_table ca ma t" and ca: "free_list_inv ca" "avail ca = {}" "fl_capacity ca = HASH_TABLE_ENTRIES"
  shows "scanned cs ma t 0"
  using fresh_table_empty [OF t] t ca by (simp add: scanned_def fresh_table_def)

lemma sorted_map_fst: "sorted (xs :: (int \<times> int) list) \<Longrightarrow> sorted (map fst xs)"
  by (induction xs) (auto simp: less_eq_prod_def)

context database_store begin

text \<open>The two tables.\<close>

lemma reconstruct_sem:
  assumes r: "records_ok S ok blk p t" and t0: "fresh_table ca ma t0"
    and ca: "free_list_inv ca" "avail ca = {}" "fl_capacity ca = HASH_TABLE_ENTRIES"
    and ma: "free_list_inv ma" "avail ma = {}" "fl_capacity ma = TOTAL_MESSAGE_SECTOR_SIZE"
  shows "\<exists>t1 t2. hash_reconstruct_contact S p t0 = (True, t1) \<and> hash_reconstruct_message S p t1 = (True, t2, p) \<and>
    records_ok S ok blk p t2 \<and> phone_book (on_card blk p) t2 = phone_book (on_card blk p) t \<and>
    message_book (on_card blk p) (blk (dev p)) t2 = message_book (on_card blk p) (blk (dev p)) t"
proof -
  note p = records_okD(1) [OF r] and cok = records_okD(2) [OF r] and mok = records_okD(3) [OF r]
  obtain t1 where t1: "hash_reconstruct_contact S p t0 = (True, t1)" "contacts_ok (blk (dev p)) (usage_bitmap p) t1"
    "ht_message_allocator t1 = ma" "\<forall>i \<in> set (occupied_slots t1). he_latest_msg_extent (entry_at t1 i) = UINT16_MAX"
    using reconstruct_contact_scan [OF p contacts_okD(1) [OF cok] book_on_cardI [OF cok] fresh_scanned [OF t0 ca]] by blast
  obtain L C where co: "chats_on_card (blk (dev p)) (usage_bitmap p) (on_card blk p) L C"
    "\<And>i. i \<in> set (occupied_slots t) \<Longrightarrow> chain (blk (dev p)) t i = C (he_sector (entry_at t i))"
    using chats_on_cardI [OF cok mok] by metis
  have "heads_scanned (blk (dev p)) (usage_bitmap p) L t1 0" using t1(2-4) ma by (simp add: heads_scanned_def)
  from reconstruct_message_scan [OF p this co(1) book_phones_tidy [OF r]]
  obtain t2 where t2: "hash_reconstruct_message S p t1 = (True, t2, p)"
    "heads_scanned (blk (dev p)) (usage_bitmap p) L t2 TOTAL_MESSAGE_SECTOR_SIZE" by blast
  note cok2 = heads_scannedD(1) [OF t2(2)] and mok2 = heads_scanned_messages [OF t2(2) co(1)]
  have b: "phone_book (on_card blk p) t2 = phone_book (on_card blk p) t" by (rule recovered_book [OF cok cok2])
  have "message_book (on_card blk p) (blk (dev p)) t2 = message_book (on_card blk p) (blk (dev p)) t"
    by (rule recovered_chats [where C = C, OF cok cok2 co(2) mok2(2)])
  moreover have "records_ok S ok blk p t2" using p cok2 mok2(1) r b by (simp add: records_ok_def)
  ultimately show ?thesis using t1(1) t2(1) b by blast
qed

lemma mounted_logs:
  assumes r: "log_ok message_history_kind S blk d TOTAL_MESSAGE_HISTORY_SECTOR_SIZE rb" and d: "ok d"
    and c: "log_ok call_history_kind S blk d TOTAL_CALL_HISTORY_SECTOR_SIZE rc"
  shows "dev (db_pers db) = d \<Longrightarrow> db_history_init S db = (STRG_OK, db\<lparr>db_message_history := rb, db_call_history := rc\<rparr>)"
  using msgs.restart_spec [OF d, of rb "db_message_history db"] calls.restart_spec [OF d, of rc "db_call_history db"] r c
  unfolding log_ok_def log_region_free(5,6) [symmetric] by (simp add: db_history_init_def)

lemma records_ok_same:
  assumes "records_ok S ok blk p t" and "dev p' = dev p" and "usage_bitmap p' = usage_bitmap p"
  shows "records_ok S ok blk p' t" "on_card blk p' = on_card blk p"
  using assms by (simp_all add: records_ok_def pers_ok_def)

text \<open>The two orders over the rebuilt table, and what the whole then stands for.\<close>

lemma rebuilt_orders:
  assumes r: "records_ok S ok blk p t" and m: "length sam = SORTED_ARRAY_ENTRIES" "length com = CHAT_ORDER_ENTRIES"
  shows "\<exists>sa co. chat_order_build S p (ht_htable t) com latest = (STRG_OK, co) \<and> sorted_array_build S p (ht_htable t) sam = (STRG_OK, sa) \<and>
    names_ok (on_card blk p) t (set (occupied_slots t)) sa \<and> chat_order_ok co \<and> co_chats co = recency_order (blk (dev p)) t"
proof -
  have sz: "ht_size t = HASH_TABLE_SIZE" using index_okD(2) [OF records_okD(4) [OF r]] .
  have ne: "chat_msgs (blk (dev p)) (chain (blk (dev p)) t i) \<noteq> []" if "i \<in> set (chat_slots t)" for i
    using chain_messages [OF records_okD(3) [OF r], of i] chats_indexed [OF r] that by blast
  from chat_order_build_sem [OF records_okD(1,3) [OF r] ne chat_slots_room [OF records_okD(2) [OF r]] sz m(2), of latest]
    sa_build_sem [OF records_readable [OF r] records_tidy [OF r] sz occupied_bound(2) [OF records_okD(2) [OF r]] m(1)]
  show ?thesis by blast
qed

lemma recency_sorted:
  assumes ok: "db_ok S ok blk db" and co: "co_chats (db_chat_order db) = recency_order (blk (dev (db_pers db))) (db_htable db)"
  shows "sorted (map (\<lambda>ph. - int (m_timestamp (hd (the (dir_chats (db_dir blk db) ph))))) (dir_recent (db_dir blk db)))"
proof -
  define p where "p = db_pers db"
  define t where "t = db_htable db"
  note r = db_okD(1) [OF ok, folded p_def t_def]
  let ?key = "recency_key (blk (dev p)) t" and ?xs = "recency_order (blk (dev p)) t"
  have sel: "dir_recent (db_dir blk db) = map (slot_phone (on_card blk p) t) ?xs"
    "dir_chats (db_dir blk db) = message_book (on_card blk p) (blk (dev p)) t"
    using co by (simp_all add: db_dir_sel p_def t_def)
  have stamp: "- int (m_timestamp (hd (the (message_book (on_card blk p) (blk (dev p)) t (slot_phone (on_card blk p) t i))))) = fst (?key i)"
    if "i \<in> set ?xs" for i
  proof -
    have "i \<in> set (occupied_slots t)" using that chats_indexed [OF r] by (auto simp: recency_order_def)
    then have "phone_index (on_card blk p) t (slot_phone (on_card blk p) t i) = Some i"
      using phone_index_Some [OF index_okD(4) [OF records_okD(4) [OF r]]] by blast
    then show ?thesis by (simp add: message_book_def recency_key_def newest_def)
  qed
  have "sorted (map ?key ?xs)" by (simp add: recency_order_def)
  then have "sorted (map fst (map ?key ?xs))" by (rule sorted_map_fst)
  moreover have "map (\<lambda>ph. - int (m_timestamp (hd (the (dir_chats (db_dir blk db) ph))))) (dir_recent (db_dir blk db)) = map fst (map ?key ?xs)"
    unfolding sel by (simp add: stamp)
  ultimately show ?thesis by (simp only:)
qed

text \<open>Mounting what the recovery of the journal leaves.\<close>

lemma mount_recovered:
  assumes ok: "db_ok S ok blk db" and a: "arrays_ok m"
    and j: "journal_init S (dev (db_pers m)) journal_cleared = (True, j, dev (db_pers db))"
  shows "\<exists>db'. database_mount S latest m = (STRG_OK, db') \<and> db_ok S ok blk db' \<and> dir_restarted (db_dir blk db) (db_dir blk db') \<and>
    dev (db_pers db') = dev (db_pers db)"
proof -
  define t where "t = db_htable db"
  define d where "d = dev (db_pers db)"
  note r = db_okD(1) [OF ok, folded t_def]
  note p = records_okD(1) [OF r]
  have a': "HASH_TABLE_ENTRIES \<le> length (free_stack (ht_contact_allocator (db_htable m)))"
    "TOTAL_MESSAGE_SECTOR_SIZE \<le> length (free_stack (ht_message_allocator (db_htable m)))"
    "length (sa_mem (db_name_index m)) = SORTED_ARRAY_ENTRIES" "length (co_mem (db_chat_order m)) = CHAT_ORDER_ENTRIES"
    using a by (simp_all add: arrays_ok_def)
  obtain ca where ca: "free_list_empty_init (free_stack (ht_contact_allocator (db_htable m))) HASH_TABLE_ENTRIES = Some ca"
    "free_list_inv ca" "avail ca = {}" "fl_capacity ca = HASH_TABLE_ENTRIES"
    using free_list_empty_init_inv [OF _ _ a'(1)] by (simp add: free_list_empty_init_def layout)
  obtain ma where ma: "free_list_empty_init (free_stack (ht_message_allocator (db_htable m))) TOTAL_MESSAGE_SECTOR_SIZE = Some ma"
    "free_list_inv ma" "avail ma = {}" "fl_capacity ma = TOTAL_MESSAGE_SECTOR_SIZE"
    using free_list_empty_init_inv [OF _ _ a'(2)] by (simp add: free_list_empty_init_def layout)
  define t0 where "t0 = hash_init ca ma entries_cleared HASH_TABLE_SIZE (ht_stale (db_htable m))"
  have t0: "fresh_table ca ma t0" by (simp add: t0_def fresh_table_def hash_init_def)
  have bm: "read_usage_bitmap S d (usage_bitmap (db_pers m)) = (True, usage_bitmap (db_pers db))"
    using read_synced_bitmap [OF pers_okD(1) [OF p] _ pers_okD(2) [OF p]] p by (simp add: d_def pers_ok_def)
  define q where "q = \<lparr>dev = d, usage_bitmap = usage_bitmap (db_pers db), journal = j\<rparr>"
  have q: "records_ok S ok blk q t" "on_card blk q = on_card blk (db_pers db)"
    using records_ok_same [OF r, of q] by (simp_all add: q_def d_def)
  obtain t1 t2 where t2: "hash_reconstruct_contact S q t0 = (True, t1)" "hash_reconstruct_message S q t1 = (True, t2, q)"
    "records_ok S ok blk q t2" "phone_book (on_card blk q) t2 = phone_book (on_card blk q) t"
    "message_book (on_card blk q) (blk (dev q)) t2 = message_book (on_card blk q) (blk (dev q)) t"
    using reconstruct_sem [OF q(1) t0 ca(2-4) ma(2-4)] by blast
  obtain sa co where o: "chat_order_build S q (ht_htable t2) (co_mem (db_chat_order m)) latest = (STRG_OK, co)"
    "sorted_array_build S q (ht_htable t2) (sa_mem (db_name_index m)) = (STRG_OK, sa)"
    "names_ok (on_card blk q) t2 (set (occupied_slots t2)) sa" "chat_order_ok co" "co_chats co = recency_order (blk (dev q)) t2"
    using rebuilt_orders [OF t2(3) a'(3,4)] by blast
  define db' where "db' = m\<lparr>db_pers := q, db_htable := t2, db_chat_order := co, db_name_index := sa,
    db_message_history := db_message_history db, db_call_history := db_call_history db\<rparr>"
  have pers: "(db_pers m)\<lparr>dev := d, journal := j, usage_bitmap := usage_bitmap (db_pers db)\<rparr> = q" by (simp add: q_def)
  define m1 where "m1 = m\<lparr>db_htable := t2, db_pers := q, db_chat_order := co, db_name_index := sa\<rparr>"
  have "db_history_init S m1 = (STRG_OK, db')"
    unfolding db'_def using mounted_logs [OF db_okD(5) [OF ok] pers_okD(1) [OF p] db_okD(6) [OF ok], of m1]
    by (simp add: m1_def q_def d_def)
  then have "database_mount S latest m = (STRG_OK, db')"
    using j [folded d_def] ca(1) ma(1) bm t2(1) [unfolded t0_def] t2(2) o(1,2) pers
    unfolding database_mount_def Let_def m1_def by simp
  moreover have ok': "db_ok S ok blk db'"
    using t2(3) o(3-5) db_okD(5-7) [OF ok] by (simp add: db_ok_def db'_def recency_order_def q_def d_def)
  moreover have "dir_restarted (db_dir blk db) (db_dir blk db')"
  proof -
    have rest: "db_dir blk db' = (db_dir blk db)\<lparr>dir_recent := dir_recent (db_dir blk db')\<rparr>"
      using t2(4,5) q(2) by (simp add: db_dir_def db_book_def db_chats_def db_contacts_def db_message_log_def db_call_log_def
          db'_def q_def d_def t_def)
    then have sel: "dir_chats (db_dir blk db') = dir_chats (db_dir blk db)" by (metis Directory.select_convs(2) Directory.surjective Directory.update_convs(3))
    have "mset (dir_recent (db_dir blk db')) = mset (dir_recent (db_dir blk db))"
      using db_dir_wf [OF ok] db_dir_wf [OF ok'] unfolding dir_wf_def sel by (metis mset_set_set)
    moreover have "sorted (map (\<lambda>ph. - int (m_timestamp (hd (the (dir_chats (db_dir blk db) ph))))) (dir_recent (db_dir blk db')))"
      using recency_sorted [OF ok'] o(5) unfolding sel by (simp add: db'_def)
    ultimately show ?thesis using rest by (simp only: dir_restarted_def simp_thms)
  qed
  ultimately show ?thesis by (auto simp: db'_def q_def d_def)
qed

text \<open>The start-up as a whole, after a power cycle.\<close>

lemma init_recovered:
  assumes ok: "db_ok S ok blk db" and a: "arrays_ok m" and d: "ok d" "SUPERHEADER_SECTOR < capacity S d" "superheader_good (blk d)"
    and j: "journal_init S d journal_cleared = (True, j, dev (db_pers db))"
  shows "\<exists>db'. database_init S (Some d) sh latest m = Some (STRG_OK, db') \<and> db_ok S ok blk db' \<and>
    dir_restarted (db_dir blk db) (db_dir blk db') \<and> dev (db_pers db') = dev (db_pers db)"
proof -
  let ?m = "database_cleared d m"
  have "arrays_ok ?m" "dev (db_pers ?m) = d" using a by (simp_all add: database_cleared_def arrays_ok_def Let_def)
  moreover have "fst (superheader_check S d sh) = SUPR_GOOD" using superheader_check_good [OF d(1,2)] d(3) by simp
  ultimately show ?thesis using mount_recovered [OF ok, of ?m j latest] j by (simp add: database_init_def)
qed

lemma init_mounts:
  assumes ok: "db_ok S ok blk db" and a: "arrays_ok m"
  shows "\<exists>db'. database_init S (Some (dev (db_pers db))) sh latest m = Some (STRG_OK, db') \<and> db_ok S ok blk db' \<and>
    dir_restarted (db_dir blk db) (db_dir blk db') \<and> dev (db_pers db') = dev (db_pers db)"
proof -
  note p = records_okD(1) [OF db_okD(1) [OF ok]]
  have c: "SUPERHEADER_SECTOR < capacity S (dev (db_pers db))" "JRNL_HEADER_SECTOR < capacity S (dev (db_pers db))"
    using pers_okD(5) [OF p] by (simp_all add: layout)
  obtain j where "journal_init S (dev (db_pers db)) journal_cleared = (True, j, dev (db_pers db))"
    using recover_idle [OF pers_okD(1) [OF p] c(2) pers_okD(3) [OF p]] by blast
  then show ?thesis by (rule init_recovered [OF ok a pers_okD(1) [OF p] c(1) db_okD(7) [OF ok]])
qed

text \<open>The first start, on a card without a superheader.\<close>

lemma init_formats:
  assumes d: "ok d" "DATA_REGION_START_SECTOR + TOTAL_DATABASE_SECTOR_SIZE \<le> capacity S d" and a: "arrays_ok m"
    and blank: "get_superheader_status (superheader_of (blk d SUPERHEADER_SECTOR)) = SUPR_UNINITIALISED"
  shows "\<exists>db. database_init S (Some d) sh latest m = Some (STRG_OK, db) \<and> db_ok S ok blk db \<and> db_dir blk db = dir_empty \<and>
    avail (ht_message_allocator (db_htable db)) = {..<TOTAL_MESSAGE_SECTOR_SIZE}"
proof -
  let ?m = "database_cleared d m"
  have "arrays_ok ?m" "dev (db_pers ?m) = d" using a by (simp_all add: database_cleared_def arrays_ok_def Let_def)
  moreover have "fst (superheader_check S d sh) = SUPR_UNINITIALISED"
    using read_in_range [OF d(1), of SUPERHEADER_SECTOR] d(2) blank
    by (simp add: superheader_check_def read_superheader_def read_sector_raw_def layout)
  ultimately show ?thesis using format_sem [of ?m] d by (auto simp: database_init_def)
qed

end

end
