(* ===== verification/Power_Loss.thy ===== *)
theory Power_Loss
  imports Db_Mount
begin

text \<open>
  Power is lost while a contact is added or changed, and the device starts again.  The call runs on \<open>power_cut S\<close>, the
  storage whose writes fail from some write on; the start-up then runs on the card as it is.  Whatever write the
  power was cut at, the directory afterwards is the one before the call or the one the call specifies.
\<close>

text \<open>The same state over the card itself.\<close>

definition bare :: "'c PowerCut pers \<Rightarrow> 'c pers" where
  "bare p = \<lparr>dev = card (dev p), usage_bitmap = usage_bitmap p, journal = journal p\<rparr>"

definition bare_db :: "'c PowerCut Database \<Rightarrow> 'c Database" where
  "bare_db db = \<lparr>db_pers = bare (db_pers db), db_htable = db_htable db, db_message_history = db_message_history db,
     db_call_history = db_call_history db, db_name_index = db_name_index db, db_chat_order = db_chat_order db\<rparr>"

lemma bare_sel [simp]:
  "dev (bare p) = card (dev p)" "usage_bitmap (bare p) = usage_bitmap p" "journal (bare p) = journal p"
  "db_pers (bare_db db) = bare (db_pers db)" "db_htable (bare_db db) = db_htable db"
  "db_name_index (bare_db db) = db_name_index db" "db_chat_order (bare_db db) = db_chat_order db"
  by (simp_all add: bare_def bare_db_def)

text \<open>The same state on a storage on which \<open>n\<close> more writes succeed.\<close>

definition cut_db :: "nat \<Rightarrow> 'c Database \<Rightarrow> 'c PowerCut Database" where
  "cut_db n db = \<lparr>db_pers = \<lparr>dev = \<lparr>card = dev (db_pers db), writes_left = n\<rparr>, usage_bitmap = usage_bitmap (db_pers db),
       journal = journal (db_pers db)\<rparr>,
     db_htable = db_htable db, db_message_history = db_message_history db, db_call_history = db_call_history db,
     db_name_index = db_name_index db, db_chat_order = db_chat_order db\<rparr>"

lemma bare_cut_db [simp]: "bare_db (cut_db n db) = db"
  by (simp add: bare_db_def cut_db_def bare_def)

lemma bare_pers_ok: "pers_ok (power_cut S) (\<lambda>p. ok (card p)) (\<lambda>p. blk (card p)) p \<longleftrightarrow> pers_ok S ok blk (bare p)"
  by (simp add: pers_ok_def power_cut_def)

text \<open>Reads do not fail.\<close>

lemma bare_read: "read_contact (power_cut S) p i = read_contact S (bare p) i"
  by (simp add: read_contact_def read_contact_sector_def read_sector_def read_sector_raw_def power_cut_def)

lemma bare_reads: "reads_as (power_cut S) p cs \<longleftrightarrow> reads_as S (bare p) cs"
  by (simp add: reads_as_def bare_read)

text \<open>An insertion that succeeds on one storage takes the same steps on another, up to the write.\<close>

lemma insert_contact_elsewhere:
  assumes w: "hash_insert_contact S b t c = (STRG_OK, slot, t', p1)"
    and same: "hash_find_entry S' p t (phone_of c) = hash_find_entry S b t (phone_of c)"
    and wr: "write_contact S' p (fst (free_list_allocate (ht_contact_allocator t))) c = (rw, pw)"
  shows "write_contact S b (fst (free_list_allocate (ht_contact_allocator t))) c = (STRG_OK, p1)"
    "\<exists>t''. hash_insert_contact S' p t c =
      (if rw = STRG_OK then (STRG_OK, slot, t', pw) else (STRG_FAIL, slot, t'', pw))"
  using w wr same unfolding hash_insert_contact_def Let_def phone_of_def
  by (auto split: option.splits if_splits prod.splits)

lemma insert_contact_refused:
  assumes w: "hash_insert_contact S b t c = (r, slot, t', p1)" and r: "r \<noteq> STRG_OK" "r \<noteq> STRG_FAIL"
    and same: "hash_find_entry S' p t (phone_of c) = hash_find_entry S b t (phone_of c)"
  shows "\<exists>t''. hash_insert_contact S' p t c = (r, slot, t'', p)"
  using w r same unfolding hash_insert_contact_def Let_def phone_of_def
  by (auto split: option.splits if_splits prod.splits)

text \<open>The call around the insertion.\<close>

lemma contact_add_run:
  assumes "valid_str name MAX_NAME_LEN" and "valid_phone phone"
    and w: "hash_insert_contact S (db_pers db) (db_htable db) (create_contact name phone) = (ret, slot, t', p')"
  shows "ret \<noteq> STRG_OK \<Longrightarrow> database_contact_add S db name phone = (ret, db\<lparr>db_htable := t', db_pers := p'\<rparr>)"
    "ret = STRG_OK \<Longrightarrow> sorted_array_insert S p' (ht_htable t') (db_name_index db) (create_contact name phone) (the slot) = (STRG_OK, sa) \<Longrightarrow>
      database_contact_add S db name phone = (STRG_OK, db\<lparr>db_htable := t', db_pers := p', db_name_index := sa\<rparr>)"
  using assms by (simp_all add: database_contact_add_def Let_def)

text \<open>One write of a contact is all that reaches the card: then the start-up finds the state before or behind it.\<close>

definition one_write :: "'c Storage \<Rightarrow> 'c PowerCut pers \<Rightarrow> 'c pers \<Rightarrow> STRG_RET \<Rightarrow> 'c PowerCut pers \<Rightarrow> bool" where
  "one_write S p p1 r p' \<longleftrightarrow> (\<exists>c s rw. tidy c \<and> s < HASH_TABLE_ENTRIES \<and> write_contact S (bare p) s c = (STRG_OK, p1) \<and>
     write_contact (power_cut S) p s c = (rw, p') \<and> (rw \<noteq> STRG_OK \<longrightarrow> r \<noteq> STRG_OK))"

context database_store begin

text \<open>Another card with the same contacts and the same sectors outside one contact sector holds the same directory.\<close>

lemma same_contacts_same_directory:
  assumes ok: "db_ok S ok blk db" and p': "pers_ok S ok blk p'" and k: "k < TOTAL_CONTACT_SECTOR_SIZE"
    and o: "only_sectors {k} (blk (dev (db_pers db))) (blk (dev p'))"
    and u: "\<And>j. j \<noteq> k \<Longrightarrow> used (usage_bitmap p') j = used (usage_bitmap (db_pers db)) j"
    and v: "contacts_valid (blk (dev p')) (usage_bitmap p')" and cs: "on_card blk p' = on_card blk (db_pers db)"
  shows "\<exists>db2. db_ok S ok blk db2 \<and> dev (db_pers db2) = dev p' \<and> db_dir blk db2 = db_dir blk db"
proof -
  define p where "p = db_pers db"
  define t where "t = db_htable db"
  note r = db_okD(1) [OF ok, folded p_def t_def]
  have c: "contacts_ok (blk (dev p')) (usage_bitmap p') t"
    using records_okD(2) [OF r] v cs unfolding contacts_ok_def p_def by simp
  have cover: "\<exists>i \<in> set (occupied_slots t). id i = j \<and> he_latest_msg_extent (entry_at t i) = he_latest_msg_extent (entry_at t j)"
    if "j \<in> set (occupied_slots t)" for j using that by auto
  note m = messages_reindex [OF records_okD(3) [OF r] k o [folded p_def] u [folded p_def] refl _ inj_on_id cover, simplified]
  have r': "records_ok S ok blk p' t" using p' c m(1) r cs by (simp add: records_ok_def p_def)
  have book: "message_book (on_card blk p') (blk (dev p')) t = message_book (on_card blk p) (blk (dev p)) t"
  proof
    fix ph
    show "message_book (on_card blk p') (blk (dev p')) t ph = message_book (on_card blk p) (blk (dev p)) t ph"
      using m(3) indexed(1) [OF records_okD(4) [OF r], of ph] cs
      by (cases "phone_index (on_card blk p) t ph") (simp_all add: message_book_def p_def)
  qed
  have "simulates S ok blk (STRG_OK, db\<lparr>db_htable := t, db_pers := p', db_name_index := db_name_index db, db_chat_order := db_chat_order db\<rparr>)
      (STRG_OK, db_dir blk db)"
    by (rule step_simulates [OF ok r' records_only_contact [OF o k] _ db_okD(3) [OF ok]])
      (use db_okD(2,4) [OF ok] cs book in \<open>simp_all add: db_dir_sel p_def t_def\<close>)
  then show ?thesis by (intro exI [of _ "db\<lparr>db_htable := t, db_pers := p', db_name_index := db_name_index db, db_chat_order := db_chat_order db\<rparr>"])
      (simp add: simulates_def)
qed

text \<open>A write that is cut, recovered: the card holds the directory without the contact or with it.\<close>

lemma recovered_directory:
  assumes ok: "db_ok S ok blk db" and c: "tidy c"
    and ok1: "db_ok S ok blk db1" "db_pers db1 = p1"
    and q: "db_pers db = bare p" and s: "s < HASH_TABLE_ENTRIES" "write_contact S (bare p) s c = (STRG_OK, p1)"
    and wr: "write_contact (power_cut S) p s c = (rw, pw)"
  shows "\<exists>j db2. journal_init S (card (dev pw)) journal_cleared = (True, j, dev (db_pers db2)) \<and> ok (card (dev pw)) \<and>
    SUPERHEADER_SECTOR < capacity S (card (dev pw)) \<and> superheader_good (blk (card (dev pw))) \<and> db_ok S ok blk db2 \<and>
    (rw \<noteq> STRG_OK \<and> db_dir blk db2 = db_dir blk db \<or> db_dir blk db2 = db_dir blk db1)"
proof -
  let ?blk = "blk (card (dev p))" and ?k = "s div CONTACT_SECTOR_CAPACITY"
  note r = db_okD(1) [OF ok, unfolded q]
  note pk = records_okD(1) [OF r] and v = contacts_okD(1) [OF records_okD(2) [OF r], simplified]
  have cw: "contact_wf c" using c by (simp add: tidy_def)
  note sec = slot_in_region [OF s(1)]
  have kt: "?k < USAGE_BITMAP_TOTAL_BITS" using sec by (simp add: layout)
  obtain st j d' where init: "journal_init S (card (dev pw)) journal_cleared = (st, j, d')" by (metis prod_cases3)
  note W = write_contact_recovered [OF iffD2 [OF bare_pers_ok pk] v sec cw wr init]
  then obtain bm where bm: "bitmap_synced (blk d') bm" "contacts_valid (blk d') bm"
    "contact_at (blk d') bm \<in> {contact_at ?blk (usage_bitmap p), (contact_at ?blk (usage_bitmap p))(s \<mapsto> c)}"
    "rw = STRG_OK \<Longrightarrow> contact_at (blk d') bm = (contact_at ?blk (usage_bitmap p))(s \<mapsto> c)"
    "\<And>j. j \<noteq> ?k \<Longrightarrow> used bm j = used (usage_bitmap p) j" by auto
  have W1: st "ok (card (dev pw))" "ok d'" "capacity S (card (dev pw)) = capacity S (card (dev p))"
    "capacity S d' = capacity S (card (dev p))" "journal_idle (blk d')" "elsewhere_same ?k ?blk (blk (card (dev pw)))"
    "elsewhere_same ?k ?blk (blk d')" using W by simp_all
  define p' where "p' = \<lparr>dev = d', usage_bitmap = bm, journal = j\<rparr>"
  have p': "pers_ok S ok blk p'" using W1(3,5,6) bm(1) pk by (simp add: pers_ok_def p'_def)
  have o: "only_sectors {?k} ?blk (blk d')" by (rule elsewhere_only [OF W1(8) kt])
  have good: "superheader_good (blk (card (dev pw)))"
    using db_okD(7) [OF ok, unfolded q] superheader_elsewhere [OF W1(7)] by (simp add: superheader_good_def)
  have cap: "SUPERHEADER_SECTOR < capacity S (card (dev pw))" using W1(4) pk by (simp add: pers_ok_def layout)
  note new = write_contact_sem [OF pk _ sec cw s(2), simplified, OF v]
  have "\<exists>db2. db_ok S ok blk db2 \<and> dev (db_pers db2) = d' \<and>
    (rw \<noteq> STRG_OK \<and> db_dir blk db2 = db_dir blk db \<or> db_dir blk db2 = db_dir blk db1)"
  proof (cases "contact_at (blk d') bm = (contact_at ?blk (usage_bitmap p))(s \<mapsto> c)")
    case True
    have "only_sectors {?k} ?blk (blk (dev p1))" using elsewhere_only [OF _ kt] new by simp
    then have "only_sectors {?k} (blk (dev p1)) (blk d')" using o by (simp add: only_sectors_def)
    moreover have "used bm j = used (usage_bitmap p1) j" if "j \<noteq> ?k" for j using bm(5) [OF that] new that by simp
    ultimately show ?thesis
      using same_contacts_same_directory [OF ok1(1) p' sec, unfolded ok1(2)] True bm(2) new by (auto simp: p'_def)
  next
    case False
    then have "contact_at (blk d') bm = contact_at ?blk (usage_bitmap p)" "rw \<noteq> STRG_OK" using bm(3,4) by auto
    then show ?thesis
      using same_contacts_same_directory [OF ok p' sec, unfolded q] o bm(2,5) by (auto simp: p'_def)
  qed
  then show ?thesis using init W1(1,2) good cap by auto
qed

text \<open>What the call does on the storage that loses power: nothing to the card, or one write of a contact.\<close>

lemma contact_add_cut:
  assumes ok: "db_ok S ok blk (bare_db db)" and args: "0 \<notin> set name" "0 \<notin> set phone"
    and run: "database_contact_add (power_cut S) db name phone = (r, db')"
  shows "r \<noteq> STRG_OK \<and> db_pers db' = db_pers db \<or>
    one_write S (db_pers db) (db_pers (snd (database_contact_add S (bare_db db) name phone))) r (db_pers db')"
proof (cases "name_arg name \<and> phone_arg phone")
  case False
  then show ?thesis using run args_valid [OF args(2)] args_valid [OF args(1)] by (auto simp: database_contact_add_def)
next
  case valid: True
  define c where "c = create_contact name phone"
  define p where "p = db_pers db"
  define t where "t = db_htable db"
  have r0: "records_ok S ok blk (bare p) t" and n0: "names_ok (on_card blk (bare p)) t (set (occupied_slots t)) (db_name_index db)"
    using db_okD(1,2) [OF ok] by (simp_all add: p_def t_def)
  have c: "tidy c" "contact_wf c" "0 \<in> set (c_phone c)" using create_contact_tidy [of name phone] valid by (simp_all add: c_def)
  have v: "valid_str name MAX_NAME_LEN" "valid_phone phone" using valid args by (simp_all add: args_valid)
  note rd = records_readable [OF r0]
  have same: "hash_find_entry (power_cut S) p t (phone_of c) = hash_find_entry S (bare p) t (phone_of c)"
    using hash_find_entry_sem [OF records_okD(4) [OF r0] rd] hash_find_entry_sem [OF records_okD(4) [OF r0] iffD2 [OF bare_reads rd]]
    by simp
  obtain rb ob tb pb where wb: "hash_insert_contact S (bare p) t c = (rb, ob, tb, pb)" by (metis prod_cases4)
  show ?thesis
  proof (cases "rb = STRG_OK")
    case False
    then have "rb \<noteq> STRG_FAIL" using insert_contact_sem [OF records_okD(1,2) [OF r0] c(2,3) wb] by (auto split: option.splits if_splits)
    then obtain t'' where "hash_insert_contact (power_cut S) p t c = (rb, ob, t'', p)"
      using insert_contact_refused [OF wb False _ same] by blast
    then have "database_contact_add (power_cut S) db name phone = (rb, db\<lparr>db_htable := t'', db_pers := p\<rparr>)"
      using contact_add_run(1) [OF v, of "power_cut S" db] False by (simp add: c_def p_def t_def)
    then have "r \<noteq> STRG_OK" "db_pers db' = db_pers db" using run False by (auto simp: p_def)
    then show ?thesis by blast
  next
    case True
    define s where "s = fst (free_list_allocate (ht_contact_allocator t))"
    obtain e where e: "ob = Some e" "records_ok S ok blk pb tb" "phone_index (on_card blk pb) tb (phone_of c) = Some e"
      "phone_book (on_card blk pb) tb (phone_of c) = Some c" "names_ok (on_card blk pb) tb (set (occupied_slots tb) - {e}) (db_name_index db)"
      and room: "length (occupied_slots t) \<noteq> HASH_TABLE_ENTRIES"
      using inserted_unlisted [OF r0 n0 c(1) wb [unfolded True]] by auto
    note t = contacts_okD [OF records_okD(2) [OF r0]]
    have "avail (ht_contact_allocator t) \<noteq> {}" using free_contact_slots [OF records_okD(2) [OF r0]] room by simp
    then have s: "s < HASH_TABLE_ENTRIES" using fls.alloc_some [OF t(3)] t(5) unfolding s_def by (metis (no_types, lifting) mem_Collect_eq surjective_pairing)
    obtain rw pw where wr: "write_contact (power_cut S) p s c = (rw, pw)" by (meson surj_pair)
    note el = insert_contact_elsewhere [OF wb [unfolded True] same wr [unfolded s_def], folded s_def]
    obtain t'' where wc: "hash_insert_contact (power_cut S) p t c = (if rw = STRG_OK then (STRG_OK, ob, tb, pw) else (STRG_FAIL, ob, t'', pw))"
      using el(2) by blast
    obtain sb where "sorted_array_insert S pb (ht_htable tb) (db_name_index db) c e = (STRG_OK, sb)"
      using list_slot [OF e(2,3,5,4)] by blast
    then have bare_run: "db_pers (snd (database_contact_add S (bare_db db) name phone)) = pb"
      using contact_add_run(2) [OF v, of S "bare_db db" STRG_OK ob tb pb sb] wb True e(1) by (simp add: c_def p_def t_def)
    have "db_pers db' = pw \<and> (rw \<noteq> STRG_OK \<longrightarrow> r \<noteq> STRG_OK)"
    proof (cases "rw = STRG_OK")
      case False
      then show ?thesis using run contact_add_run(1) [OF v, of "power_cut S" db] wc by (simp add: c_def p_def t_def)
    next
      case wok: True
      note sec = slot_in_region [OF s]
      obtain st j d' where init: "journal_init S (card (dev pw)) journal_cleared = (st, j, d')" by (metis prod_cases3)
      note W = write_contact_recovered [OF iffD2 [OF bare_pers_ok records_okD(1) [OF r0]] t(1) [simplified] sec c(2) wr init]
      then have W1: "pers_ok S ok blk (bare pw)" "contacts_valid (blk (card (dev pw))) (usage_bitmap pw)"
        "on_card blk (bare pw) = (on_card blk (bare p))(s \<mapsto> c)" using wok by (simp_all add: bare_pers_ok)
      moreover have "on_card blk pb = (on_card blk (bare p))(s \<mapsto> c)"
        using write_contact_sem [OF records_okD(1) [OF r0] t(1) sec c(2) el(1)] by simp
      ultimately have "reads_as (power_cut S) pw (on_card blk pb)"
        using contacts_read_as [OF W1(1)] unfolding bare_reads by simp
      then obtain sa where "sorted_array_insert (power_cut S) pw (ht_htable tb) (db_name_index db) c e = (STRG_OK, sa)"
        using list_slot_reads [OF _ e(2,3,5,4)] by blast
      then show ?thesis using run contact_add_run(2) [OF v, of "power_cut S" db STRG_OK ob tb pw sa] wc wok e(1)
        by (simp add: c_def p_def t_def)
    qed
    then have "one_write S p pb r (db_pers db')" unfolding one_write_def using c(1) s el(1) wr by blast
    then show ?thesis using bare_run by (simp add: p_def)
  qed
qed

lemma one_write_crash:
  assumes ok: "db_ok S ok blk (bare_db db)" and a: "arrays_ok m"
    and ran: "r \<noteq> STRG_OK \<and> db_pers db' = db_pers db \<or> one_write S (db_pers db) (db_pers db1) r (db_pers db')"
    and ok1: "db_ok S ok blk db1"
  shows "\<exists>db2. database_init S (Some (card (dev (db_pers db')))) sh latest m = Some (STRG_OK, db2) \<and> db_ok S ok blk db2 \<and>
    (r \<noteq> STRG_OK \<and> dir_restarted (db_dir blk (bare_db db)) (db_dir blk db2) \<or> dir_restarted (db_dir blk db1) (db_dir blk db2))"
  using ran
proof
  assume "r \<noteq> STRG_OK \<and> db_pers db' = db_pers db"
  then show ?thesis using init_mounts [OF ok a, of sh latest] by auto
next
  assume "one_write S (db_pers db) (db_pers db1) r (db_pers db')"
  then obtain c s rw where c: "tidy c" and s: "s < HASH_TABLE_ENTRIES" "write_contact S (bare (db_pers db)) s c = (STRG_OK, db_pers db1)"
    and wr: "write_contact (power_cut S) (db_pers db) s c = (rw, db_pers db')" and rw: "rw \<noteq> STRG_OK \<longrightarrow> r \<noteq> STRG_OK"
    by (auto simp: one_write_def)
  obtain j db2 where R: "journal_init S (card (dev (db_pers db'))) journal_cleared = (True, j, dev (db_pers db2))" "ok (card (dev (db_pers db')))"
    "SUPERHEADER_SECTOR < capacity S (card (dev (db_pers db')))" "superheader_good (blk (card (dev (db_pers db'))))" "db_ok S ok blk db2"
    "rw \<noteq> STRG_OK \<and> db_dir blk db2 = db_dir blk (bare_db db) \<or> db_dir blk db2 = db_dir blk db1"
    using recovered_directory [OF ok c ok1 refl _ s wr] by auto
  from init_recovered [OF R(5) a R(2-4,1), of sh latest] show ?thesis using R(6) rw by auto
qed

theorem contact_add_crash:
  assumes ok: "db_ok S ok blk (bare_db db)" and args: "0 \<notin> set name" "0 \<notin> set phone" and a: "arrays_ok m"
    and run: "database_contact_add (power_cut S) db name phone = (r, db')"
  shows "\<exists>db2. database_init S (Some (card (dev (db_pers db')))) sh latest m = Some (STRG_OK, db2) \<and> db_ok S ok blk db2 \<and>
    (r \<noteq> STRG_OK \<and> dir_restarted (db_dir blk (bare_db db)) (db_dir blk db2) \<or>
     dir_restarted (snd (dir_contact_add name phone (db_dir blk (bare_db db)))) (db_dir blk db2))"
proof -
  define db1 where "db1 = snd (database_contact_add S (bare_db db) name phone)"
  have "db_ok S ok blk db1" "db_dir blk db1 = snd (dir_contact_add name phone (db_dir blk (bare_db db)))"
    using contact_add_simulates [OF ok args] by (auto simp: simulates_def prod_eq_iff db1_def)
  with one_write_crash [OF ok a contact_add_cut [OF ok args run, folded db1_def]] show ?thesis by simp
qed

end

subsection \<open>Changing a contact\<close>

text \<open>On any storage the change is one write of the contact where its slot points.\<close>

lemma update_contact_writes:
  assumes old: "hash_find_entry S p t (phone_of old) = Some i" "he_state (entry_at t i) = ENTRY_OCCUPIED"
    and new: "phone_of c \<noteq> phone_of old \<Longrightarrow> \<exists>e < length (ht_htable t). hash_find_entry S p t (phone_of c) = Some e \<and> is_new_entry (entry_at t e)"
    and w: "write_contact S p (he_sector (entry_at t i)) c = (r, p')"
  shows "\<exists>t'. hash_update_contact S p t old c = (r, t', p')"
proof (cases "phone_of c = phone_of old")
  case True
  then show ?thesis using old w by (simp add: hash_update_contact_def phone_of_def)
next
  case False
  then obtain e where "e < length (ht_htable t)" "hash_find_entry S p t (phone_of c) = Some e" "is_new_entry (entry_at t e)"
    using new by blast
  then show ?thesis using False old w
    by (auto simp: hash_update_contact_def hash_update_phone_def phone_of_def Let_def set_entry_def)
qed

text \<open>What the call around it does to the card.\<close>

lemma contact_update_run:
  assumes "valid_phone phone" "valid_str new_name MAX_NAME_LEN" "valid_phone new_phone"
    and "find_occupied S db phone = Inr i" "read_contact S (db_pers db) (he_sector (entry_at (db_htable db) i)) = Inr old"
    and "sorted_array_remove S (db_pers db) (ht_htable (db_htable db)) (db_name_index db) old = (STRG_OK, sa)"
    and "hash_update_contact S (db_pers db) (db_htable db) old (create_contact new_name new_phone) = (ret, t', p')"
    and "database_contact_update S db phone new_name new_phone = (r, db')"
  shows "db_pers db' = p'" "ret \<noteq> STRG_OK \<Longrightarrow> r = ret"
  using assms by (auto simp: database_contact_update_def Let_def split: sum.splits prod.splits if_splits)

context database_store begin

lemma contact_update_cut:
  assumes ok: "db_ok S ok blk (bare_db db)" and args: "0 \<notin> set phone" "0 \<notin> set new_name" "0 \<notin> set new_phone"
    and run: "database_contact_update (power_cut S) db phone new_name new_phone = (r, db')"
    and bare_run: "database_contact_update S (bare_db db) phone new_name new_phone = (rb, db1)"
  shows "r \<noteq> STRG_OK \<and> db_pers db' = db_pers db \<or> one_write S (db_pers db) (db_pers db1) r (db_pers db')"
proof -
  define p where "p = db_pers db"
  define t where "t = db_htable db"
  define cs where "cs = on_card blk (bare p)"
  have r0: "records_ok S ok blk (bare p) t" and n0: "names_ok cs t (set (occupied_slots t)) (db_name_index db)"
    using db_okD(1,2) [OF ok] by (simp_all add: p_def t_def cs_def)
  note rd = records_readable [OF r0, folded cs_def] and ix = records_okD(4) [OF r0, folded cs_def]
  note find = hash_find_entry_sem [OF ix] and rdp = iffD2 [OF bare_reads rd]
  have fo: "find_occupied S (bare_db db) ph = (case phone_index cs t ph of None \<Rightarrow> Inl STRG_EMPTY | Some i \<Rightarrow> Inr i)" for ph
    using find_slot [of "bare_db db" ph] r0 by (simp only: bare_sel p_def t_def cs_def)
  have fp: "find_occupied (power_cut S) db ph = find_occupied S (bare_db db) ph" for ph
    using find [OF rd, of ph] find [OF rdp, of ph] by (simp only: find_occupied_def bare_sel p_def t_def)
  show ?thesis
  proof (cases "phone_arg phone \<and> name_arg new_name \<and> phone_arg new_phone")
    case False
    then show ?thesis using run
      by (auto simp: database_contact_update_def args_valid(1) [OF args(1)] args_valid(1) [OF args(3)] args_valid(2) [OF args(2)])
  next
    case valid: True
    note v = valid [folded args_valid(1) [OF args(1)] args_valid(1) [OF args(3)] args_valid(2) [OF args(2)]]
    define c where "c = create_contact new_name new_phone"
    have c: "tidy c" "phone_of c = new_phone" using create_contact_tidy [of new_name new_phone] valid by (simp_all add: c_def)
    show ?thesis
    proof (cases "phone_index cs t phone")
      case None
      then have "find_occupied (power_cut S) db phone = Inl STRG_EMPTY" using fo fp by simp
      then show ?thesis using run v by (auto simp: database_contact_update_def)
    next
      case (Some i)
      note b = slot_bounds [OF r0 Some [unfolded cs_def], folded cs_def]
      define old where "old = slot_contact cs t i"
      have old: "phone_of old = phone" using b(5) by (simp add: old_def)
      have rc: "read_contact S (bare p) (he_sector (entry_at t i)) = Inr old" using b(6) by (simp add: old_def)
      then have rcp: "read_contact (power_cut S) p (he_sector (entry_at t i)) = Inr old" by (simp only: bare_read)
      obtain sa where sa: "sorted_array_remove S (bare p) (ht_htable t) (db_name_index db) old = (STRG_OK, sa)"
        using sa_remove_sem [OF rd n0 records_tidy [OF r0, folded cs_def] b(3)] unfolding old_def by blast
      obtain sap where sap: "sorted_array_remove (power_cut S) p (ht_htable t) (db_name_index db) old = (STRG_OK, sap)"
        using sa_remove_sem [OF rdp n0 records_tidy [OF r0, folded cs_def] b(3)] unfolding old_def by blast
      have io: "he_state (entry_at t i) = ENTRY_OCCUPIED" using b(3) by (simp add: set_occupied_slots)
      have fi: "find_occupied S (bare_db db) phone = Inr i" "find_occupied (power_cut S) db phone = Inr i" using fo fp Some by simp_all
      obtain ret t' p' where w: "hash_update_contact (power_cut S) p t old c = (ret, t', p')" by (metis prod_cases3)
      have out: "db_pers db' = p'" "ret \<noteq> STRG_OK \<Longrightarrow> r = ret"
        using contact_update_run [OF conjunct1 [OF v] _ _ fi(2), folded p_def t_def, OF _ _ rcp sap w [unfolded c_def] run] v by simp_all
      show ?thesis
      proof (cases "new_phone \<noteq> phone \<and> phone_index cs t new_phone \<noteq> None")
        case True
        then obtain j where j: "phone_index cs t new_phone = Some j" by blast
        have "he_state (entry_at t j) = ENTRY_OCCUPIED" using indexed(1) [OF ix j] by (simp add: set_occupied_slots)
        then have "(ret, t', p') = (STRG_EXISTS, t, p)"
          using w find [OF rdp, of phone] find [OF rdp, of new_phone] True Some j io old c(2)
          by (simp add: hash_update_contact_def hash_update_phone_def phone_of_def Let_def)
        then show ?thesis using out by (simp add: p_def)
      next
        case False
        have new: "\<exists>e < length (ht_htable t). hash_find_entry S' q t (phone_of c) = Some e \<and> is_new_entry (entry_at t e)"
          if "phone_of c \<noteq> phone_of old" "reads_as S' q cs" for S' :: "'x Storage" and q
        proof -
          obtain e where e: "first_claimable t (hash_phone new_phone) = Some e" using claimable_exists [OF records_okD(2) [OF r0]] by blast
          then show ?thesis using find [OF that(2), of new_phone] first_claimable_Some(1,2) [OF e] index_okD(1) [OF ix] False that(1) old c(2)
            by auto
        qed
        obtain rw pw where wr: "write_contact (power_cut S) p (he_sector (entry_at t i)) c = (rw, pw)" by (meson surj_pair)
        obtain rq pq where wq: "write_contact S (bare p) (he_sector (entry_at t i)) c = (rq, pq)" by (meson surj_pair)
        have s: "he_sector (entry_at t i) < HASH_TABLE_ENTRIES" using index_okD(3) [OF ix b(3)] by (simp add: entry_ok_def Let_def)
        have fpo: "hash_find_entry (power_cut S) p t (phone_of old) = Some i" "hash_find_entry S (bare p) t (phone_of old) = Some i"
          using find [OF rdp, of phone] find [OF rd, of phone] Some old by simp_all
        have "(ret, p') = (rw, pw)" using update_contact_writes [OF fpo(1) io new [OF _ rdp] wr] w by auto
        moreover obtain tq where "hash_update_contact S (bare p) t old c = (rq, tq, pq)"
          using update_contact_writes [OF fpo(2) io new [OF _ rd] wq] by blast
        then have "db_pers db1 = pq"
          using contact_update_run(1) [OF conjunct1 [OF v] _ _ fi(1), simplified, folded p_def t_def, OF _ _ rc sa _ bare_run] v by (simp add: c_def)
        moreover have "rq = STRG_OK"
          using write_contact_sem [OF records_okD(1) [OF r0] contacts_okD(1) [OF records_okD(2) [OF r0]] slot_in_region [OF s] _ wq] c(1)
          by (simp add: tidy_def)
        ultimately have "one_write S p (db_pers db1) r (db_pers db')"
          unfolding one_write_def using c(1) s wr wq out by auto
        then show ?thesis by (simp add: p_def)
      qed
    qed
  qed
qed

theorem contact_update_crash:
  assumes ok: "db_ok S ok blk (bare_db db)" and args: "0 \<notin> set phone" "0 \<notin> set new_name" "0 \<notin> set new_phone" and a: "arrays_ok m"
    and run: "database_contact_update (power_cut S) db phone new_name new_phone = (r, db')"
  shows "\<exists>db2. database_init S (Some (card (dev (db_pers db')))) sh latest m = Some (STRG_OK, db2) \<and> db_ok S ok blk db2 \<and>
    (r \<noteq> STRG_OK \<and> dir_restarted (db_dir blk (bare_db db)) (db_dir blk db2) \<or>
     dir_restarted (snd (dir_contact_update phone new_name new_phone (db_dir blk (bare_db db)))) (db_dir blk db2))"
proof -
  obtain rb db1 where b: "database_contact_update S (bare_db db) phone new_name new_phone = (rb, db1)" by (meson surj_pair)
  have "db_ok S ok blk db1" "db_dir blk db1 = snd (dir_contact_update phone new_name new_phone (db_dir blk (bare_db db)))"
    using contact_update_simulates [OF ok args] by (auto simp: simulates_def prod_eq_iff b)
  with one_write_crash [OF ok a contact_update_cut [OF ok args run b]] show ?thesis by simp
qed

end

end
