(* ===== verification/Platform_Queue.thy ===== *)
theory Platform_Queue
  imports Prelude
begin

text \<open>
  The message queue of \<^verbatim>\<open>platform/host/src/platform_os_host.c\<close>: a ring of fixed-size items.
  A function here is one pass through the critical section, with the lock held; \<open>None\<close> is the pass
  that finds the queue full, or empty, and waits or times out.

  The locale \<open>fifo\<close> is the contract the database task relies on: items leave in the order they came.
\<close>

record 'a PlatformQueue =
  q_buf :: "'a list"
  q_length :: nat
  q_head :: nat
  q_count :: nat

definition platform_os_QueueCreate :: "nat \<Rightarrow> 'a \<Rightarrow> 'a PlatformQueue option" where
  "platform_os_QueueCreate len fill =
     (if len = 0 then None else Some \<lparr>q_buf = replicate len fill, q_length = len, q_head = 0, q_count = 0\<rparr>)"

definition platform_os_QueueSend :: "'a PlatformQueue \<Rightarrow> 'a \<Rightarrow> 'a PlatformQueue option" where
  "platform_os_QueueSend queue item =
     (if q_count queue = q_length queue then None
      else let tail = to_u32 (q_head queue + q_count queue) mod q_length queue
           in Some (queue\<lparr>q_buf := (q_buf queue)[tail := item], q_count := q_count queue + 1\<rparr>))"

definition platform_os_QueueReceive :: "'a PlatformQueue \<Rightarrow> ('a \<times> 'a PlatformQueue) option" where
  "platform_os_QueueReceive queue =
     (if q_count queue = 0 then None
      else Some (q_buf queue ! q_head queue,
                 queue\<lparr>q_head := to_u32 (q_head queue + 1) mod q_length queue, q_count := q_count queue - 1\<rparr>))"

definition queue_items :: "'a PlatformQueue \<Rightarrow> 'a list" where
  "queue_items q = map (\<lambda>k. q_buf q ! ((q_head q + k) mod q_length q)) [0..<q_count q]"

definition queue_ok :: "'a PlatformQueue \<Rightarrow> bool" where
  "queue_ok q \<longleftrightarrow> 0 < q_length q \<and> q_length q < 2 ^ 31 \<and> length (q_buf q) = q_length q \<and>
     q_head q < q_length q \<and> q_count q \<le> q_length q"

locale fifo =
  fixes put :: "'q \<Rightarrow> 'a \<Rightarrow> 'q option" and get :: "'q \<Rightarrow> ('a \<times> 'q) option"
    and items :: "'q \<Rightarrow> 'a list" and room :: "'q \<Rightarrow> nat" and ok :: "'q \<Rightarrow> bool"
  assumes put_full: "ok q \<Longrightarrow> room q = 0 \<Longrightarrow> put q x = None"
    and put_room: "ok q \<Longrightarrow> 0 < room q \<Longrightarrow> \<exists>q'. put q x = Some q' \<and> ok q' \<and> items q' = items q @ [x] \<and> room q' = room q - 1"
    and get_empty: "ok q \<Longrightarrow> items q = [] \<Longrightarrow> get q = None"
    and get_front: "ok q \<Longrightarrow> items q = y # ys \<Longrightarrow> \<exists>q'. get q = Some (y, q') \<and> ok q' \<and> items q' = ys \<and> room q' = room q + 1"
begin

lemma put_Some: "ok q \<Longrightarrow> put q x = Some q' \<Longrightarrow> ok q' \<and> items q' = items q @ [x] \<and> room q = Suc (room q')"
  using put_full [of q x] put_room [of q x] by (cases "room q") auto

lemma get_Some: "ok q \<Longrightarrow> get q = Some (x, q') \<Longrightarrow> ok q' \<and> items q = x # items q' \<and> room q' = Suc (room q)"
  using get_empty [of q] get_front [of q] by (cases "items q") auto

end

lemma mod_next:
  assumes "h < (n :: nat)" and "k < n" and "j < n" and "j \<noteq> k"
  shows "(h + j) mod n \<noteq> (h + k) mod n"
  using assms by (auto simp: mod_if split: if_splits)

interpretation ring_queue: fifo platform_os_QueueSend platform_os_QueueReceive queue_items "\<lambda>q. q_length q - q_count q" queue_ok
proof
  fix q :: "'a PlatformQueue" and x
  assume ok: "queue_ok q"
  show "q_length q - q_count q = 0 \<Longrightarrow> platform_os_QueueSend q x = None"
    using ok by (simp add: queue_ok_def platform_os_QueueSend_def)
  show "0 < q_length q - q_count q \<Longrightarrow> \<exists>q'. platform_os_QueueSend q x = Some q' \<and> queue_ok q' \<and>
      queue_items q' = queue_items q @ [x] \<and> q_length q' - q_count q' = q_length q - q_count q - 1"
  proof -
    assume r: "0 < q_length q - q_count q"
    define tail where "tail = (q_head q + q_count q) mod q_length q"
    have t: "to_u32 (q_head q + q_count q) = q_head q + q_count q" using ok by (simp add: queue_ok_def)
    let ?q = "q\<lparr>q_buf := (q_buf q)[tail := x], q_count := q_count q + 1\<rparr>"
    have "tail < length (q_buf q)" using ok by (simp add: tail_def queue_ok_def)
    moreover have "(q_head q + k) mod q_length q \<noteq> tail" if "k < q_count q" for k
      unfolding tail_def using ok r that by (intro mod_next) (simp_all add: queue_ok_def)
    then have "k < q_count q \<Longrightarrow> (q_buf q)[tail := x] ! ((q_head q + k) mod q_length q) = q_buf q ! ((q_head q + k) mod q_length q)" for k
      by (metis nth_list_update_neq)
    ultimately have "queue_items ?q = queue_items q @ [x]" by (simp add: queue_items_def tail_def [symmetric])
    moreover have "platform_os_QueueSend q x = Some ?q" using r by (simp add: platform_os_QueueSend_def t tail_def)
    moreover have "queue_ok ?q" using ok r by (simp add: queue_ok_def)
    ultimately show ?thesis by simp
  qed
  show "queue_items q = [] \<Longrightarrow> platform_os_QueueReceive q = None"
    by (simp add: queue_items_def platform_os_QueueReceive_def)
  fix y ys
  assume i: "queue_items q = y # ys"
  then have c: "0 < q_count q" by (cases "q_count q") (simp_all add: queue_items_def)
  then have split: "[0..<q_count q] = 0 # map Suc [0..<q_count q - 1]" by (simp add: upt_conv_Cons map_Suc_upt)
  have h: "q_head q mod q_length q = q_head q" using ok by (simp add: queue_ok_def)
  have t: "to_u32 (q_head q + 1) = q_head q + 1" using ok by (simp add: queue_ok_def)
  let ?q = "q\<lparr>q_head := (q_head q + 1) mod q_length q, q_count := q_count q - 1\<rparr>"
  have "queue_items q = q_buf q ! q_head q # queue_items ?q"
    unfolding queue_items_def split by (simp add: h o_def mod_add_left_eq)
  then have "q_buf q ! q_head q = y" "queue_items ?q = ys" using i by simp_all
  moreover have "queue_ok ?q" "q_length ?q - q_count ?q = q_length q - q_count q + 1" using ok c by (auto simp: queue_ok_def)
  ultimately show "\<exists>q'. platform_os_QueueReceive q = Some (y, q') \<and> queue_ok q' \<and> queue_items q' = ys \<and>
      q_length q' - q_count q' = q_length q - q_count q + 1"
    using c t by (simp add: platform_os_QueueReceive_def)
qed

lemma queue_created: "0 < n \<Longrightarrow> n < 2 ^ 31 \<Longrightarrow> \<exists>q. platform_os_QueueCreate n fill = Some q \<and> queue_ok q \<and> queue_items q = [] \<and> q_length q = n \<and> q_count q = 0"
  by (simp add: platform_os_QueueCreate_def queue_ok_def queue_items_def)

end
