(* ===== verification/Db_Task.thy ===== *)
theory Db_Task
  imports Database Platform_Queue
begin

text \<open>
  The database task of \<^verbatim>\<open>source/app/src/db_task.c\<close>: other tasks post requests to its queue,
  it runs them one at a time on its database and posts each response to the queue the request names.

  \<^item> A request names its type by number, which may lie outside the enumeration, and carries the union of the
    arguments.  \<open>U_DbRequestArgs\<close> holds every member as a handler would read it: the client has set the one its type
    selects, of the others nothing is known.
  \<^item> The union of the results starts as zeros (\<open>NoResult\<close>); a handler writes at most one member.
  \<^item> \<open>rsp_out\<close> are the rows in the caller's buffer, to which \<^verbatim>\<open>args.out\<close> points.  The response does not
    carry them; they are complete when it is sent.
\<close>

definition DB_REQ_CONTACT_ADD :: nat where [simp]: "DB_REQ_CONTACT_ADD = 0"
definition DB_REQ_CONTACT_GET :: nat where [simp]: "DB_REQ_CONTACT_GET = 1"
definition DB_REQ_CONTACT_UPDATE :: nat where [simp]: "DB_REQ_CONTACT_UPDATE = 2"
definition DB_REQ_CONTACT_REMOVE :: nat where [simp]: "DB_REQ_CONTACT_REMOVE = 3"
definition DB_REQ_CONTACT_LIST :: nat where [simp]: "DB_REQ_CONTACT_LIST = 4"
definition DB_REQ_CONTACT_SEEK :: nat where [simp]: "DB_REQ_CONTACT_SEEK = 5"
definition DB_REQ_CONTACT_COUNT :: nat where [simp]: "DB_REQ_CONTACT_COUNT = 6"
definition DB_REQ_MESSAGE_ADD :: nat where [simp]: "DB_REQ_MESSAGE_ADD = 7"
definition DB_REQ_MESSAGE_GET_CHAT :: nat where [simp]: "DB_REQ_MESSAGE_GET_CHAT = 8"
definition DB_REQ_MESSAGE_REMOVE_CHAT :: nat where [simp]: "DB_REQ_MESSAGE_REMOVE_CHAT = 9"
definition DB_REQ_MESSAGE_RECENT :: nat where [simp]: "DB_REQ_MESSAGE_RECENT = 10"
definition DB_REQ_CHAT_LIST :: nat where [simp]: "DB_REQ_CHAT_LIST = 11"
definition DB_REQ_CALL_ADD :: nat where [simp]: "DB_REQ_CALL_ADD = 12"
definition DB_REQ_CALL_RECENT :: nat where [simp]: "DB_REQ_CALL_RECENT = 13"
definition DB_REQ_STOP :: nat where [simp]: "DB_REQ_STOP = 14"
definition DB_REQ_COUNT :: nat where [simp]: "DB_REQ_COUNT = 15"

record DbPhoneArgs =
  pa_phone :: "byte list"

record DbContactAddArgs =
  ca_phone :: "byte list"
  ca_name :: "byte list"

record DbContactUpdateArgs =
  cu_phone :: "byte list"
  cu_new_phone :: "byte list"
  cu_new_name :: "byte list"

record DbContactSeekArgs =
  cs_prefix :: "byte list"

record DbRangeArgs =
  ra_start :: nat
  ra_n :: nat

record DbChatArgs =
  da_phone :: "byte list"
  da_start :: nat
  da_n :: nat

record DbMessageAddArgs =
  ma_phone :: "byte list"
  ma_timestamp :: nat
  ma_direction :: bool
  ma_str :: "byte list"

record U_DbRequestArgs =
  u_phone :: DbPhoneArgs
  u_contact_add :: DbContactAddArgs
  u_contact_update :: DbContactUpdateArgs
  u_contact_seek :: DbContactSeekArgs
  u_range :: DbRangeArgs
  u_chat :: DbChatArgs
  u_message_add :: DbMessageAddArgs

record DbRequest =
  req_type :: nat
  req_reply_q :: "nat option"
  req_tag :: nat
  req_args :: U_DbRequestArgs

datatype DbResponseResult =
    NoResult
  | ContactResult Contact
  | SeekResult nat
  | RangeResult nat

datatype DbRows =
    NoRows
  | ContactRows "Contact list"
  | MessageRows "Message list"
  | RecentRows "MessageHistoryEntry list"
  | ChatRows "ChatSummary list"
  | CallRows "CallHistoryEntry list"

record DbResponse =
  rsp_type :: nat
  rsp_tag :: nat
  rsp_ret :: STRG_RET
  rsp_result :: DbResponseResult
  rsp_out :: DbRows

subsection \<open>Handlers\<close>

text \<open>\<open>None\<close>: the database call does not return.\<close>

type_synonym 'c handled = "(STRG_RET \<times> DbResponseResult \<times> DbRows \<times> 'c Database) option"

definition handle_contact_add :: "'c Storage \<Rightarrow> 'c Database \<Rightarrow> U_DbRequestArgs \<Rightarrow> 'c handled" where
  "handle_contact_add S db args =
     (let (ret, db) = database_contact_add S db (ca_name (u_contact_add args)) (ca_phone (u_contact_add args))
      in Some (ret, NoResult, NoRows, db))"

definition handle_contact_get :: "'c Storage \<Rightarrow> 'c Database \<Rightarrow> U_DbRequestArgs \<Rightarrow> 'c handled" where
  "handle_contact_get S db args =
     (case database_contact_get S db (pa_phone (u_phone args)) of
        Inl ret \<Rightarrow> Some (ret, NoResult, NoRows, db)
      | Inr c \<Rightarrow> Some (STRG_OK, ContactResult c, NoRows, db))"

definition handle_contact_update :: "'c Storage \<Rightarrow> 'c Database \<Rightarrow> U_DbRequestArgs \<Rightarrow> 'c handled" where
  "handle_contact_update S db args =
     (let a = u_contact_update args; (ret, db) = database_contact_update S db (cu_phone a) (cu_new_name a) (cu_new_phone a)
      in Some (ret, NoResult, NoRows, db))"

definition handle_contact_remove :: "'c Storage \<Rightarrow> 'c Database \<Rightarrow> U_DbRequestArgs \<Rightarrow> 'c handled" where
  "handle_contact_remove S db args =
     map_option (\<lambda>(ret, db). (ret, NoResult, NoRows, db)) (database_contact_remove S db (pa_phone (u_phone args)))"

definition handle_contact_list :: "'c Storage \<Rightarrow> 'c Database \<Rightarrow> U_DbRequestArgs \<Rightarrow> 'c handled" where
  "handle_contact_list S db args =
     (let (ret, rows) = database_contact_list S db (ra_start (u_range args)) (ra_n (u_range args))
      in Some (ret, RangeResult (length rows), ContactRows rows, db))"

definition handle_contact_seek :: "'c Storage \<Rightarrow> 'c Database \<Rightarrow> U_DbRequestArgs \<Rightarrow> 'c handled" where
  "handle_contact_seek S db args =
     (case database_contact_seek S db (cs_prefix (u_contact_seek args)) of
        Inl ret \<Rightarrow> Some (ret, NoResult, NoRows, db)
      | Inr rank \<Rightarrow> Some (STRG_OK, SeekResult rank, NoRows, db))"

definition handle_contact_count :: "'c Database \<Rightarrow> U_DbRequestArgs \<Rightarrow> 'c handled" where
  "handle_contact_count db args = Some (STRG_OK, RangeResult (database_contact_count db), NoRows, db)"

definition handle_message_add :: "'c Storage \<Rightarrow> 'c Database \<Rightarrow> U_DbRequestArgs \<Rightarrow> 'c handled" where
  "handle_message_add S db args =
     (let a = u_message_add args
      in map_option (\<lambda>(ret, db). (ret, NoResult, NoRows, db))
           (database_message_add S db (ma_phone a) (ma_timestamp a) (ma_direction a) (ma_str a)))"

definition handle_message_get_chat :: "'c Storage \<Rightarrow> 'c Database \<Rightarrow> U_DbRequestArgs \<Rightarrow> 'c handled" where
  "handle_message_get_chat S db args =
     (let a = u_chat args; (ret, rows) = database_message_get_chat S db (da_phone a) (da_start a) (da_n a)
      in Some (ret, RangeResult (length rows), MessageRows rows, db))"

definition handle_message_remove_chat :: "'c Storage \<Rightarrow> 'c Database \<Rightarrow> U_DbRequestArgs \<Rightarrow> 'c handled" where
  "handle_message_remove_chat S db args =
     map_option (\<lambda>(ret, db). (ret, NoResult, NoRows, db)) (database_message_remove_chat S db (pa_phone (u_phone args)))"

definition handle_message_recent :: "'c Storage \<Rightarrow> 'c Database \<Rightarrow> U_DbRequestArgs \<Rightarrow> 'c handled" where
  "handle_message_recent S db args =
     (let (ret, rows) = database_message_recent S db (ra_start (u_range args)) (ra_n (u_range args))
      in Some (ret, RangeResult (length rows), RecentRows rows, db))"

definition handle_call_add :: "'c Storage \<Rightarrow> 'c Database \<Rightarrow> U_DbRequestArgs \<Rightarrow> 'c handled" where
  "handle_call_add S db args =
     map_option (\<lambda>(ret, db). (ret, NoResult, NoRows, db)) (database_call_add S db (pa_phone (u_phone args)))"

definition handle_chat_list :: "'c Storage \<Rightarrow> 'c Database \<Rightarrow> U_DbRequestArgs \<Rightarrow> 'c handled" where
  "handle_chat_list S db args =
     (let (ret, rows) = database_chat_list S db (ra_start (u_range args)) (ra_n (u_range args))
      in Some (ret, RangeResult (length rows), ChatRows rows, db))"

definition handle_call_recent :: "'c Storage \<Rightarrow> 'c Database \<Rightarrow> U_DbRequestArgs \<Rightarrow> 'c handled" where
  "handle_call_recent S db args =
     (let (ret, rows) = database_call_recent S db (ra_start (u_range args)) (ra_n (u_range args))
      in Some (ret, RangeResult (length rows), CallRows rows, db))"

definition handle_stop :: "'c Database \<Rightarrow> U_DbRequestArgs \<Rightarrow> 'c handled" where
  "handle_stop db args = Some (STRG_OK, NoResult, NoRows, db)"

text \<open>The table of handlers, in the order of the types; \<open>None\<close> is a null entry.\<close>

definition db_handlers :: "'c Storage \<Rightarrow> ('c Database \<Rightarrow> U_DbRequestArgs \<Rightarrow> 'c handled) option list" where
  "db_handlers S =
     [Some (handle_contact_add S),
      Some (handle_contact_get S),
      Some (handle_contact_update S),
      Some (handle_contact_remove S),
      Some (handle_contact_list S),
      Some (handle_contact_seek S),
      Some handle_contact_count,
      Some (handle_message_add S),
      Some (handle_message_get_chat S),
      Some (handle_message_remove_chat S),
      Some (handle_message_recent S),
      Some (handle_chat_list S),
      Some (handle_call_add S),
      Some (handle_call_recent S),
      Some handle_stop]"

text \<open>The first half of \<^verbatim>\<open>db_handle\<close>: the response.  The second half sends it.\<close>

definition db_handle :: "'c Storage \<Rightarrow> STRG_RET \<Rightarrow> 'c Database \<Rightarrow> DbRequest \<Rightarrow> (DbResponse \<times> 'c Database) option" where
  "db_handle S mount_ret db req =
     (let rsp = \<lparr>rsp_type = req_type req, rsp_tag = req_tag req, rsp_ret = STRG_FAIL, rsp_result = NoResult, rsp_out = NoRows\<rparr>
      in if mount_ret \<noteq> STRG_OK \<and> req_type req \<noteq> DB_REQ_STOP then Some (rsp\<lparr>rsp_ret := mount_ret\<rparr>, db)
         else if req_type req < DB_REQ_COUNT \<and> db_handlers S ! req_type req \<noteq> None then
           map_option (\<lambda>(ret, result, rows, db). (rsp\<lparr>rsp_ret := ret, rsp_result := result, rsp_out := rows\<rparr>, db))
             (the (db_handlers S ! req_type req) db (req_args req))
         else Some (rsp, db))"

subsection \<open>The task\<close>

text \<open>\<open>task_phase\<close>: where \<^verbatim>\<open>dbTask\<close> stands, \<open>Sending r rsp stop\<close> before the reply is queued,
  \<open>Ended\<close> before it is created and after the return of a host build.  \<open>task_db\<close> is the database the
  context points to, \<open>reply_queues\<close> the queues of the other tasks.\<close>

datatype TaskPhase = Starting | Receiving | Sending "nat option" DbResponse bool | Ended

record 'c DatabaseTaskContext =
  request_q :: "DbRequest PlatformQueue option"
  task_db :: "'c Database"
  own_db :: "'c Database"
  mount :: bool
  running :: bool
  mount_ret :: STRG_RET
  task_phase :: TaskPhase
  reply_queues :: "nat \<Rightarrow> DbResponse PlatformQueue"

definition DB_TASK_QUEUE_SIZE :: nat where "DB_TASK_QUEUE_SIZE = 5"

text \<open>\<open>fill\<close> is what the queue's fresh memory holds, \<open>None\<close> when there is no memory; \<open>thread\<close>
  whether the task could be created.  The result is whether a context is handed out.\<close>

definition db_init :: "DbRequest option \<Rightarrow> bool \<Rightarrow> 'c Database option \<Rightarrow> 'c DatabaseTaskContext \<Rightarrow> bool \<times> 'c DatabaseTaskContext" where
  "db_init fill thread db ctx =
     (if running ctx then (True, ctx)
      else let ctx = ctx\<lparr>task_db := (case db of Some d \<Rightarrow> d | None \<Rightarrow> own_db ctx), mount := (db = None), mount_ret := STRG_FAIL\<rparr>;
               made = (case request_q ctx of Some q \<Rightarrow> Some q
                       | None \<Rightarrow> (case fill of None \<Rightarrow> None | Some f \<Rightarrow> platform_os_QueueCreate DB_TASK_QUEUE_SIZE f))
      in case made of
           None \<Rightarrow> (False, ctx)
         | Some q \<Rightarrow>
             let ctx = ctx\<lparr>request_q := Some q\<rparr>
             in if \<not> thread then (False, ctx\<lparr>running := False\<rparr>) else (True, ctx\<lparr>running := True, task_phase := Starting\<rparr>))"

text \<open>\<open>mounted\<close> is what \<^verbatim>\<open>database_init\<close> gives.\<close>

definition task_start :: "('c Database \<Rightarrow> (STRG_RET \<times> 'c Database) option) \<Rightarrow> 'c DatabaseTaskContext \<Rightarrow> 'c DatabaseTaskContext option" where
  "task_start mounted ctx =
     (if task_phase ctx \<noteq> Starting then None
      else if mount ctx then map_option (\<lambda>(ret, db). ctx\<lparr>mount_ret := ret, task_db := db, task_phase := Receiving\<rparr>) (mounted (task_db ctx))
      else Some (ctx\<lparr>mount_ret := STRG_OK, task_phase := Receiving\<rparr>))"

text \<open>One turn of the loop up to the reply; \<open>host\<close>: a host build, where a stop request ends the task.\<close>

definition task_receive :: "'c Storage \<Rightarrow> bool \<Rightarrow> 'c DatabaseTaskContext \<Rightarrow> (DbRequest \<times> DbResponse \<times> 'c DatabaseTaskContext) option" where
  "task_receive S host ctx =
     (if task_phase ctx \<noteq> Receiving then None
      else case request_q ctx of
        None \<Rightarrow> None
      | Some q \<Rightarrow> (case platform_os_QueueReceive q of
             None \<Rightarrow> None
           | Some (req, q) \<Rightarrow>
               let stop = (host \<and> req_type req = DB_REQ_STOP)
               in map_option (\<lambda>(rsp, db). (req, rsp, ctx\<lparr>request_q := Some q, task_db := db,
                      running := (running ctx \<and> \<not> stop), task_phase := Sending (req_reply_q req) rsp stop\<rparr>))
                    (db_handle S (mount_ret ctx) (task_db ctx) req)))"

definition task_send :: "'c DatabaseTaskContext \<Rightarrow> 'c DatabaseTaskContext option" where
  "task_send ctx =
     (case task_phase ctx of
        Sending r rsp stop \<Rightarrow>
          let after = (if stop then Ended else Receiving)
          in (case r of
                None \<Rightarrow> Some (ctx\<lparr>task_phase := after\<rparr>)
              | Some r \<Rightarrow> map_option (\<lambda>q. ctx\<lparr>reply_queues := (reply_queues ctx)(r := q), task_phase := after\<rparr>)
                            (platform_os_QueueSend (reply_queues ctx r) rsp))
      | _ \<Rightarrow> None)"

text \<open>False: no queue, or the queue is full until the timeout.\<close>

definition db_task_post :: "'c DatabaseTaskContext \<Rightarrow> DbRequest \<Rightarrow> bool \<times> 'c DatabaseTaskContext" where
  "db_task_post ctx req =
     (case request_q ctx of
        None \<Rightarrow> (False, ctx)
      | Some q \<Rightarrow> (case platform_os_QueueSend q req of None \<Rightarrow> (False, ctx) | Some q \<Rightarrow> (True, ctx\<lparr>request_q := Some q\<rparr>)))"

subsection \<open>Runs\<close>

text \<open>The task and its clients take turns in any order: a client posts or collects a reply, the task
  handles a request or sends the reply.\<close>

datatype TaskEvent = Posted DbRequest | Handled DbRequest DbResponse | Replied "nat option" DbResponse | Collected nat DbResponse

inductive task_step :: "'c Storage \<Rightarrow> bool \<Rightarrow> 'c DatabaseTaskContext \<Rightarrow> TaskEvent \<Rightarrow> 'c DatabaseTaskContext \<Rightarrow> bool" for S host where
  post: "db_task_post ctx req = (True, ctx') \<Longrightarrow> task_step S host ctx (Posted req) ctx'"
| handle: "task_receive S host ctx = Some (req, rsp, ctx') \<Longrightarrow> task_step S host ctx (Handled req rsp) ctx'"
| reply: "task_phase ctx = Sending r rsp stop \<Longrightarrow> task_send ctx = Some ctx' \<Longrightarrow> task_step S host ctx (Replied r rsp) ctx'"
| collect: "platform_os_QueueReceive (reply_queues ctx r) = Some (rsp, q) \<Longrightarrow>
    task_step S host ctx (Collected r rsp) (ctx\<lparr>reply_queues := (reply_queues ctx)(r := q)\<rparr>)"

inductive_cases postedE: "task_step S host ctx (Posted req) ctx'"
inductive_cases handledE: "task_step S host ctx (Handled req rsp) ctx'"
inductive_cases repliedE: "task_step S host ctx (Replied r rsp) ctx'"
inductive_cases collectedE: "task_step S host ctx (Collected r rsp) ctx'"

inductive task_run :: "'c Storage \<Rightarrow> bool \<Rightarrow> 'c DatabaseTaskContext \<Rightarrow> TaskEvent list \<Rightarrow> 'c DatabaseTaskContext \<Rightarrow> bool" for S host ctx where
  stay: "task_run S host ctx [] ctx"
| step: "task_run S host ctx evs ctx' \<Longrightarrow> task_step S host ctx' ev ctx'' \<Longrightarrow> task_run S host ctx (evs @ [ev]) ctx''"

fun posted :: "TaskEvent list \<Rightarrow> DbRequest list" where
  "posted [] = []"
| "posted (Posted req # evs) = req # posted evs"
| "posted (ev # evs) = posted evs"

fun handled :: "TaskEvent list \<Rightarrow> (DbRequest \<times> DbResponse) list" where
  "handled [] = []"
| "handled (Handled req rsp # evs) = (req, rsp) # handled evs"
| "handled (ev # evs) = handled evs"

fun collected :: "nat \<Rightarrow> TaskEvent list \<Rightarrow> DbResponse list" where
  "collected r [] = []"
| "collected r (Collected r' rsp # evs) = (if r' = r then [rsp] else []) @ collected r evs"
| "collected r (ev # evs) = collected r evs"

text \<open>The responses due to queue \<open>r\<close>, and the one on its way.\<close>

definition due :: "nat \<Rightarrow> (DbRequest \<times> DbResponse) list \<Rightarrow> DbResponse list" where
  "due r hs = map snd (filter (\<lambda>(req, _). req_reply_q req = Some r) hs)"

definition on_its_way :: "nat \<Rightarrow> TaskPhase \<Rightarrow> DbResponse list" where
  "on_its_way r ph = (case ph of Sending (Some r') rsp _ \<Rightarrow> (if r' = r then [rsp] else []) | _ \<Rightarrow> [])"

text \<open>The requests one after the other on the database.\<close>

primrec db_serve :: "'c Storage \<Rightarrow> STRG_RET \<Rightarrow> 'c Database \<Rightarrow> DbRequest list \<Rightarrow> ((DbRequest \<times> DbResponse) list \<times> 'c Database) option" where
  "db_serve S mr db [] = Some ([], db)"
| "db_serve S mr db (req # reqs) =
     (case db_handle S mr db req of
        None \<Rightarrow> None
      | Some (rsp, db) \<Rightarrow> map_option (\<lambda>(hs, db). ((req, rsp) # hs, db)) (db_serve S mr db reqs))"

definition task_ok :: "'c DatabaseTaskContext \<Rightarrow> bool" where
  "task_ok ctx \<longleftrightarrow> (\<forall>q. request_q ctx = Some q \<longrightarrow> queue_ok q) \<and> (\<forall>r. queue_ok (reply_queues ctx r))"

definition waiting :: "'c DatabaseTaskContext \<Rightarrow> DbRequest list" where
  "waiting ctx = (case request_q ctx of None \<Rightarrow> [] | Some q \<Rightarrow> queue_items q)"

subsection \<open>First in, first out\<close>

lemma events_append [simp]:
  "posted (xs @ ys) = posted xs @ posted ys" "handled (xs @ ys) = handled xs @ handled ys"
  "collected r (xs @ ys) = collected r xs @ collected r ys"
  by (induction xs rule: posted.induct; simp)+

lemma due_append [simp]: "due r (xs @ ys) = due r xs @ due r ys"
  by (simp add: due_def)

lemma db_serve_requests: "db_serve S mr db reqs = Some (hs, db') \<Longrightarrow> map fst hs = reqs"
  by (induction reqs arbitrary: db hs) (auto split: option.splits prod.splits)

lemma db_serve_append:
  "db_serve S mr db (xs @ ys) = (case db_serve S mr db xs of None \<Rightarrow> None
     | Some (hs, db) \<Rightarrow> map_option (\<lambda>(hs', db). (hs @ hs', db)) (db_serve S mr db ys))"
proof (induction xs arbitrary: db)
  case Nil
  show ?case by (cases "db_serve S mr db ys") auto
next
  case (Cons x xs)
  show ?case
  proof (cases "db_handle S mr db x")
    case (Some r)
    then show ?thesis using Cons.IH [of "snd r"]
      by (cases r; cases "db_serve S mr (snd r) xs") (auto simp: option.map_comp o_def split_def)
  qed simp
qed

definition task_inv :: "'c Storage \<Rightarrow> STRG_RET \<Rightarrow> 'c Database \<Rightarrow> TaskEvent list \<Rightarrow> 'c DatabaseTaskContext \<Rightarrow> bool" where
  "task_inv S mr db evs ctx \<longleftrightarrow>
     task_ok ctx \<and> mount_ret ctx = mr \<and> posted evs = map fst (handled evs) @ waiting ctx \<and>
     (\<forall>r. due r (handled evs) = collected r evs @ queue_items (reply_queues ctx r) @ on_its_way r (task_phase ctx)) \<and>
     db_serve S mr db (map fst (handled evs)) = Some (handled evs, task_db ctx)"

lemma task_inv_post:
  assumes "task_inv S mr db evs ctx" and "db_task_post ctx req = (True, ctx')"
  shows "task_inv S mr db (evs @ [Posted req]) ctx'"
proof -
  obtain q q' where q: "request_q ctx = Some q" "platform_os_QueueSend q req = Some q'" "ctx' = ctx\<lparr>request_q := Some q'\<rparr>"
    using assms(2) by (auto simp: db_task_post_def split: option.splits)
  have "queue_ok q" using assms(1) q(1) by (simp add: task_inv_def task_ok_def)
  from ring_queue.put_Some [OF this q(2)] show ?thesis using assms(1) q(1,3) by (auto simp: task_inv_def task_ok_def waiting_def)
qed

lemma task_receive_Some:
  assumes "task_receive S host ctx = Some (req, rsp, ctx')"
  obtains q q' db where "task_phase ctx = Receiving" "request_q ctx = Some q" "platform_os_QueueReceive q = Some (req, q')"
    "db_handle S (mount_ret ctx) (task_db ctx) req = Some (rsp, db)"
    "ctx' = ctx\<lparr>request_q := Some q', task_db := db, running := (running ctx \<and> \<not> (host \<and> req_type req = DB_REQ_STOP)),
       task_phase := Sending (req_reply_q req) rsp (host \<and> req_type req = DB_REQ_STOP)\<rparr>"
  using assms by (auto simp: task_receive_def Let_def split: option.splits if_splits)

lemma task_inv_handle:
  assumes inv: "task_inv S mr db evs ctx" and r: "task_receive S host ctx = Some (req, rsp, ctx')"
  shows "task_inv S mr db (evs @ [Handled req rsp]) ctx'"
  using r
proof (rule task_receive_Some)
  fix q q' db'
  assume a: "task_phase ctx = Receiving" "request_q ctx = Some q" "platform_os_QueueReceive q = Some (req, q')"
    "db_handle S (mount_ret ctx) (task_db ctx) req = Some (rsp, db')"
    "ctx' = ctx\<lparr>request_q := Some q', task_db := db', running := (running ctx \<and> \<not> (host \<and> req_type req = DB_REQ_STOP)),
       task_phase := Sending (req_reply_q req) rsp (host \<and> req_type req = DB_REQ_STOP)\<rparr>"
  have "queue_ok q" using inv a(2) by (simp add: task_inv_def task_ok_def)
  note g = ring_queue.get_Some [OF this a(3)]
  show ?thesis unfolding task_inv_def
  proof (intro conjI allI)
    show "task_ok ctx'" using inv g a(2,5) by (auto simp: task_inv_def task_ok_def)
    show "mount_ret ctx' = mr" using inv a(5) by (simp add: task_inv_def)
    show "posted (evs @ [Handled req rsp]) = map fst (handled (evs @ [Handled req rsp])) @ waiting ctx'"
      using inv g a(2,5) by (simp add: task_inv_def waiting_def)
    show "db_serve S mr db (map fst (handled (evs @ [Handled req rsp]))) = Some (handled (evs @ [Handled req rsp]), task_db ctx')"
      using inv a(4,5) by (simp add: task_inv_def db_serve_append)
    show "due r (handled (evs @ [Handled req rsp])) = collected r (evs @ [Handled req rsp]) @ queue_items (reply_queues ctx' r) @
        on_its_way r (task_phase ctx')" for r
      using inv a(1,5) by (cases "req_reply_q req") (simp_all add: task_inv_def due_def on_its_way_def)
  qed
qed

lemma task_inv_reply:
  assumes inv: "task_inv S mr db evs ctx" and p: "task_phase ctx = Sending r rsp stop" and s: "task_send ctx = Some ctx'"
  shows "task_inv S mr db (evs @ [Replied r rsp]) ctx'"
proof (cases r)
  case None
  then show ?thesis using inv p s by (auto simp: task_inv_def task_ok_def task_send_def waiting_def on_its_way_def Let_def)
next
  case (Some k)
  then obtain q where q: "platform_os_QueueSend (reply_queues ctx k) rsp = Some q"
    "ctx' = ctx\<lparr>reply_queues := (reply_queues ctx)(k := q), task_phase := if stop then Ended else Receiving\<rparr>"
    using p s by (auto simp: task_send_def Let_def)
  have "queue_ok (reply_queues ctx k)" using inv by (simp add: task_inv_def task_ok_def)
  note g = ring_queue.put_Some [OF this q(1)]
  show ?thesis using inv g p Some by (auto simp: task_inv_def task_ok_def waiting_def on_its_way_def q(2))
qed

lemma task_inv_collect:
  assumes inv: "task_inv S mr db evs ctx" and r: "platform_os_QueueReceive (reply_queues ctx r) = Some (rsp, q)"
  shows "task_inv S mr db (evs @ [Collected r rsp]) (ctx\<lparr>reply_queues := (reply_queues ctx)(r := q)\<rparr>)"
proof -
  have "queue_ok (reply_queues ctx r)" using inv by (simp add: task_inv_def task_ok_def)
  from ring_queue.get_Some [OF this r] show ?thesis using inv by (auto simp: task_inv_def task_ok_def waiting_def)
qed

lemma task_run_inv:
  assumes "task_run S host ctx evs ctx'"
    and "task_ok ctx" and "waiting ctx = []" and "\<And>r. queue_items (reply_queues ctx r) = []" and "task_phase ctx = Receiving"
  shows "task_inv S (mount_ret ctx) (task_db ctx) evs ctx'"
  using assms(1)
proof (induction rule: task_run.induct)
  case stay
  then show ?case using assms(2-) by (simp add: task_inv_def due_def on_its_way_def)
next
  case (step evs ctx' ev ctx'')
  from step.hyps(2) step.IH show ?case
    by (cases rule: task_step.cases)
      (auto intro: task_inv_post task_inv_handle task_inv_reply task_inv_collect)
qed

subsection \<open>Every request is answered\<close>

lemma task_run_trans: "task_run S host ctx' evs' ctx'' \<Longrightarrow> task_run S host ctx evs ctx' \<Longrightarrow> task_run S host ctx (evs @ evs') ctx''"
proof (induction rule: task_run.induct)
  case (step evs' c ev c')
  then show ?case using task_run.step [of S host ctx "evs @ evs'" c ev c'] by simp
qed simp

abbreviation reply_room :: "'c DatabaseTaskContext \<Rightarrow> nat \<Rightarrow> nat" where
  "reply_room ctx r \<equiv> q_length (reply_queues ctx r) - q_count (reply_queues ctx r)"

text \<open>On a host build a stop request ends the task, and what is behind it stays in the queue.\<close>

primrec up_to_stop :: "bool \<Rightarrow> DbRequest list \<Rightarrow> DbRequest list" where
  "up_to_stop host [] = []"
| "up_to_stop host (req # reqs) = req # (if host \<and> req_type req = DB_REQ_STOP then [] else up_to_stop host reqs)"

definition stops :: "bool \<Rightarrow> DbRequest list \<Rightarrow> bool" where
  "stops host reqs \<longleftrightarrow> host \<and> (\<exists>req \<in> set reqs. req_type req = DB_REQ_STOP)"

definition after_request :: "bool \<Rightarrow> DbRequest \<Rightarrow> TaskPhase" where
  "after_request host req = (if host \<and> req_type req = DB_REQ_STOP then Ended else Receiving)"

lemma up_to_stop_prefix: "up_to_stop host reqs @ drop (length (up_to_stop host reqs)) reqs = reqs"
  by (induction reqs) auto

lemma up_to_stop_all: "\<not> stops host reqs \<Longrightarrow> up_to_stop host reqs = reqs"
  by (induction reqs) (auto simp: stops_def)

text \<open>One turn of the loop: the front request is handled and its reply queued.\<close>

lemma task_turn:
  assumes ok: "task_ok ctx" and ph: "task_phase ctx = Receiving" and w: "waiting ctx = req # reqs"
    and h: "db_handle S (mount_ret ctx) (task_db ctx) req = Some (rsp, db)"
    and room: "\<And>r. req_reply_q req = Some r \<Longrightarrow> 0 < reply_room ctx r"
  shows "\<exists>ctx'. task_run S host ctx [Handled req rsp, Replied (req_reply_q req) rsp] ctx' \<and> task_ok ctx' \<and>
    task_phase ctx' = after_request host req \<and> waiting ctx' = reqs \<and> task_db ctx' = db \<and> mount_ret ctx' = mount_ret ctx \<and>
    (\<forall>r. queue_items (reply_queues ctx' r) = queue_items (reply_queues ctx r) @ due r [(req, rsp)] \<and>
      reply_room ctx' r = reply_room ctx r - length (due r [(req, rsp)]))"
proof -
  obtain q where q: "request_q ctx = Some q" "queue_items q = req # reqs" using w by (auto simp: waiting_def split: option.splits)
  then obtain q' where q': "platform_os_QueueReceive q = Some (req, q')" "queue_ok q'" "queue_items q' = reqs"
    using ring_queue.get_front [of q req reqs] ok by (auto simp: task_ok_def)
  define c1 where "c1 = ctx\<lparr>request_q := Some q', task_db := db, running := (running ctx \<and> \<not> (host \<and> req_type req = DB_REQ_STOP)),
       task_phase := Sending (req_reply_q req) rsp (host \<and> req_type req = DB_REQ_STOP)\<rparr>"
  have "task_receive S host ctx = Some (req, rsp, c1)" using ph q q' h by (simp add: task_receive_def c1_def)
  then have r1: "task_run S host ctx [Handled req rsp] c1"
    using task_run.step [OF task_run.stay task_step.handle] by (metis append_Nil)
  have c1: "task_phase c1 = Sending (req_reply_q req) rsp (host \<and> req_type req = DB_REQ_STOP)" "request_q c1 = Some q'" "task_db c1 = db" "mount_ret c1 = mount_ret ctx"
    "reply_queues c1 = reply_queues ctx" by (simp_all add: c1_def)
  show ?thesis
  proof (cases "req_reply_q req")
    case None
    define c2 where "c2 = c1\<lparr>task_phase := after_request host req\<rparr>"
    have "task_send c1 = Some c2" using c1(1) None by (simp add: task_send_def c2_def after_request_def)
    then have "task_run S host ctx [Handled req rsp, Replied (req_reply_q req) rsp] c2"
      using task_run.step [OF r1 task_step.reply [OF c1(1)]] by simp
    then show ?thesis using ok q' c1 None by (intro exI [of _ c2]) (auto simp: c2_def task_ok_def waiting_def due_def)
  next
    case (Some r)
    have "queue_ok (reply_queues ctx r)" using ok by (simp add: task_ok_def)
    from ring_queue.put_room [OF this room [OF Some]] obtain rq where rq: "platform_os_QueueSend (reply_queues ctx r) rsp = Some rq" "queue_ok rq"
      "queue_items rq = queue_items (reply_queues ctx r) @ [rsp]" "q_length rq - q_count rq = reply_room ctx r - 1" by blast
    define c2 where "c2 = c1\<lparr>reply_queues := (reply_queues c1)(r := rq), task_phase := after_request host req\<rparr>"
    have "task_send c1 = Some c2" using c1(1,5) Some rq(1) by (simp add: task_send_def c2_def after_request_def)
    then have "task_run S host ctx [Handled req rsp, Replied (req_reply_q req) rsp] c2"
      using task_run.step [OF r1 task_step.reply [OF c1(1)]] by simp
    then show ?thesis using ok q' c1 Some rq by (intro exI [of _ c2]) (auto simp: c2_def task_ok_def waiting_def due_def)
  qed
qed

lemma task_drains:
  assumes "task_ok ctx" and "task_phase ctx = Receiving" and "waiting ctx = reqs"
    and "db_serve S (mount_ret ctx) (task_db ctx) (up_to_stop host reqs) = Some (hs, db)"
    and "\<And>r. length (due r hs) \<le> reply_room ctx r"
  shows "\<exists>evs ctx'. task_run S host ctx evs ctx' \<and> posted evs = [] \<and> handled evs = hs \<and> (\<forall>r. collected r evs = []) \<and>
    waiting ctx' = drop (length (up_to_stop host reqs)) reqs \<and> task_db ctx' = db \<and>
    task_phase ctx' = (if stops host reqs then Ended else Receiving) \<and>
    (\<forall>r. queue_items (reply_queues ctx' r) = queue_items (reply_queues ctx r) @ due r hs)"
  using assms
proof (induction reqs arbitrary: ctx hs)
  case Nil
  then show ?case by (intro exI [of _ "[]"] exI [of _ ctx]) (auto simp: due_def stops_def intro: task_run.stay)
next
  case (Cons req reqs)
  let ?rest = "if host \<and> req_type req = DB_REQ_STOP then [] else up_to_stop host reqs"
  obtain rsp db1 hs' where h: "db_handle S (mount_ret ctx) (task_db ctx) req = Some (rsp, db1)"
    "db_serve S (mount_ret ctx) db1 ?rest = Some (hs', db)" "hs = (req, rsp) # hs'"
    using Cons.prems(4) by (auto split: option.splits prod.splits if_splits)
  have due: "due r hs = due r [(req, rsp)] @ due r hs'" for r unfolding h(3) by (simp add: due_def)
  have "0 < reply_room ctx r" if "req_reply_q req = Some r" for r
    using Cons.prems(5) [of r] that by (simp add: h(3) due_def)
  from task_turn [OF Cons.prems(1-3) h(1) this, of host] obtain c where
    c: "task_run S host ctx [Handled req rsp, Replied (req_reply_q req) rsp] c" "task_ok c" "task_phase c = after_request host req"
    "waiting c = reqs" "task_db c = db1" "mount_ret c = mount_ret ctx"
    "\<And>r. queue_items (reply_queues c r) = queue_items (reply_queues ctx r) @ due r [(req, rsp)]"
    "\<And>r. reply_room c r = reply_room ctx r - length (due r [(req, rsp)])"
    by auto
  show ?case
  proof (cases "host \<and> req_type req = DB_REQ_STOP")
    case True
    then have "hs' = []" "db1 = db" using h(2) by simp_all
    then show ?thesis using True c h(3)
      by (intro exI [of _ "[Handled req rsp, Replied (req_reply_q req) rsp]"] exI [of _ c]) (simp add: after_request_def stops_def)
  next
    case False
    then have ph: "task_phase c = Receiving" and srv: "db_serve S (mount_ret c) (task_db c) (up_to_stop host reqs) = Some (hs', db)"
      using c(3,5,6) h(2) by (auto simp: after_request_def)
    have "length (due r hs') \<le> reply_room c r" for r using Cons.prems(5) [of r] unfolding due c(8) by simp
    from Cons.IH [OF c(2) ph c(4) srv this] obtain evs c' where
      e: "task_run S host c evs c'" "posted evs = []" "handled evs = hs'" "\<forall>r. collected r evs = []"
      "waiting c' = drop (length (up_to_stop host reqs)) reqs" "task_db c' = db"
      "task_phase c' = (if stops host reqs then Ended else Receiving)"
      "\<forall>r. queue_items (reply_queues c' r) = queue_items (reply_queues c r) @ due r hs'"
      by auto
    have "task_run S host ctx ([Handled req rsp, Replied (req_reply_q req) rsp] @ evs) c'" by (rule task_run_trans [OF e(1) c(1)])
    moreover have "stops host (req # reqs) = stops host reqs" using False by (auto simp: stops_def)
    ultimately show ?thesis using False e(2-) c(7) due h(3)
      by (intro exI [of _ "[Handled req rsp, Replied (req_reply_q req) rsp] @ evs"] exI [of _ c']) auto
  qed
qed

subsection \<open>Responses have the type of their request\<close>

lemmas handler_defs = handle_contact_add_def handle_contact_get_def handle_contact_update_def handle_contact_remove_def
  handle_contact_list_def handle_contact_seek_def handle_contact_count_def handle_message_add_def handle_message_get_chat_def
  handle_message_remove_chat_def handle_message_recent_def handle_call_add_def handle_chat_list_def handle_call_recent_def
  handle_stop_def

text \<open>No listing writes more rows than it was asked for, whatever the card and the indexes hold.\<close>

lemma length_copy_down: "length out \<le> n \<Longrightarrow> length (copy_down n es k out) \<le> n"
proof (induction n es k out rule: copy_down.induct)
  case (1 n es k out)
  then show ?case by (subst copy_down.simps) simp
qed

lemma length_read_history: "length out \<le> n \<Longrightarrow> length (snd (read_history K S d i pos n out)) \<le> n"
  by (auto simp: read_history_def length_copy_down split: sum.splits)

lemma length_range_loop: "length out \<le> n \<Longrightarrow> length (snd (history_range_loop K S d ctx n v limit out)) \<le> n"
proof (induction K S d ctx n v limit out rule: history_range_loop.induct)
  case (1 K S d ctx n v limit out)
  have "read_history K S d i (hk_cap K - 1) n out = (ret, out') \<Longrightarrow> length out' \<le> n" for i ret out'
    using length_read_history [OF 1(2)] by (metis snd_conv)
  then show ?case using 1(2)
    by (subst history_range_loop.simps) (auto simp: Let_def intro: 1(1) [OF _ _ refl sym _ refl sym] split: option.splits prod.splits)
qed

lemma length_history_range: "length (snd (history_get_range K S d rb start n)) \<le> n"
proof -
  have "read_history K S d i h n [] = (ret, out) \<Longrightarrow> length out \<le> n" for i h ret out
    using length_read_history [of "[]" n K S d i h] by simp
  then have "length (snd (snd (read_first_sector K S d ctx h n []))) \<le> n" for ctx h
    by (auto simp: read_first_sector_def Let_def split: option.splits prod.splits)
  then have "read_first_sector K S d ctx h n [] = (ret, ctx', out) \<Longrightarrow> length out \<le> n" for ctx h ret ctx' out
    by (metis snd_conv)
  then show ?thesis
    by (auto simp: history_get_range_def Let_def intro!: length_range_loop split: sum.splits prod.splits)
qed

lemma length_read_n_messages_loop: "length out \<le> n \<Longrightarrow> length (snd (read_n_messages_loop S p n i hops out)) \<le> n"
proof (induction S p n i hops out rule: read_n_messages_loop.induct)
  case (1 S p n i hops out)
  have "length (snd (read_messages_from_sector n s out)) \<le> n" for s
    using 1(2) by (auto simp: read_messages_from_sector_def copy_messages_down_def length_copy_down)
  then have "read_messages_from_sector n s out = (r, out') \<Longrightarrow> length out' \<le> n" for s r out' by (metis snd_conv)
  then show ?case using 1(2)
    by (subst read_n_messages_loop.simps)
      (auto intro: 1(1) [simplified] split: sum.splits prod.splits bool.splits)
qed

lemma length_read_n_messages: "length (snd (read_n_messages S p i start n)) \<le> n"
proof -
  have "length (snd (read_messages_from_p_in_sector n pos s [])) \<le> n" for pos s
    by (simp add: read_messages_from_p_in_sector_def copy_messages_down_def length_copy_down)
  then have "read_messages_from_p_in_sector n pos s [] = (r, out) \<Longrightarrow> length out \<le> n" for pos s r out by (metis snd_conv)
  then show ?thesis
    by (auto simp: read_n_messages_def intro!: length_read_n_messages_loop split: sum.splits prod.splits bool.splits)
qed

lemma length_contact_rows: "length (snd (contact_rows S db rank n out)) \<le> length out + n"
proof (induction n arbitrary: rank out)
  case (Suc n)
  show ?case using Suc.IH [of "rank + 1" "out @ [_]"] by (auto split: option.splits sum.splits)
qed simp

lemma length_chat_rows: "length (snd (chat_rows S db rank n out)) \<le> length out + n"
proof (induction n arbitrary: rank out)
  case (Suc n)
  show ?case using Suc.IH [of "rank + 1" "out @ [_]"] by (auto simp: Let_def split: option.splits sum.splits prod.splits)
qed simp

lemma listings_fit:
  "database_contact_list S db start n = (r1, contacts) \<Longrightarrow> length contacts \<le> n"
  "database_chat_list S db start n = (r2, chats) \<Longrightarrow> length chats \<le> n"
  "database_message_get_chat S db phone start n = (r3, messages) \<Longrightarrow> length messages \<le> n"
  "database_message_recent S db start n = (r4, ms) \<Longrightarrow> length ms \<le> n"
  "database_call_recent S db start n = (r5, cs) \<Longrightarrow> length cs \<le> n"
proof -
  show "database_contact_list S db start n = (r1, contacts) \<Longrightarrow> length contacts \<le> n"
    using length_contact_rows [of S db start n "[]"] by (auto simp: database_contact_list_def split: if_splits)
  show "database_chat_list S db start n = (r2, chats) \<Longrightarrow> length chats \<le> n"
    using length_chat_rows [of S db start n "[]"] by (auto simp: database_chat_list_def split: if_splits)
  show "database_message_get_chat S db phone start n = (r3, messages) \<Longrightarrow> length messages \<le> n"
    using length_read_n_messages [of S "db_pers db" _ start n]
    by (auto simp: database_message_get_chat_def split: if_splits sum.splits) (metis snd_conv)
  show "database_message_recent S db start n = (r4, ms) \<Longrightarrow> length ms \<le> n"
    unfolding database_message_recent_def message_history_get_range_def by (metis length_history_range snd_conv)
  show "database_call_recent S db start n = (r5, cs) \<Longrightarrow> length cs \<le> n"
    unfolding database_call_recent_def call_history_get_range_def by (metis length_history_range snd_conv)
qed

text \<open>A failing lookup reports a failure.\<close>

lemma read_contact_fails: "read_contact S p i = Inl ret \<Longrightarrow> ret \<noteq> STRG_OK"
  by (auto simp: read_contact_def read_contact_sector_def read_sector_def read_sector_raw_def Let_def split: if_splits sum.splits option.splits)

lemma lower_bound_fails:
  "(\<And>e r. order_of e = Inl r \<Longrightarrow> r \<noteq> STRG_OK) \<Longrightarrow> lower_bound_loop order_of mem lo hi match = Inl ret \<Longrightarrow> ret \<noteq> STRG_OK"
proof (induction order_of mem lo hi match rule: lower_bound_loop.induct)
  case (1 order_of mem lo hi match)
  show ?case using 1(4) 1(1,2) 1(3)
    by (subst (asm) lower_bound_loop.simps) (auto simp: Let_def split: if_splits sum.splits)
qed

lemma lookups_fail:
  "database_contact_get S db phone = Inl ret \<Longrightarrow> ret \<noteq> STRG_OK"
  "database_contact_seek S db prefix = Inl ret \<Longrightarrow> ret \<noteq> STRG_OK"
proof -
  show "database_contact_get S db phone = Inl ret \<Longrightarrow> ret \<noteq> STRG_OK"
    by (auto simp: database_contact_get_def find_occupied_def read_contact_fails split: if_splits sum.splits option.splits)
  have cmp: "sa_cmp S p ht sp e = Inl r \<Longrightarrow> r \<noteq> STRG_OK" for p ht sp e r
    by (auto simp: sa_cmp_def tiebreak_fn_def read_contact_fails Let_def split: if_splits sum.splits)
  show "database_contact_seek S db prefix = Inl ret \<Longrightarrow> ret \<noteq> STRG_OK"
    using lower_bound_fails [OF cmp]
    by (cases "binary_search_lower_bound S (db_pers db) (ht_htable (db_htable db)) (db_name_index db) (probe_from_string prefix (length prefix))")
      (auto simp: database_contact_seek_def sorted_array_seek_def binary_search_lower_bound_def Let_def split: if_splits)
qed

text \<open>What a client may read, by the type it finds in the response: the member of the union, and the rows in its
  buffer of \<open>n\<close>.\<close>

definition rows_fit :: "nat \<Rightarrow> DbResponseResult \<Rightarrow> 'a list \<Rightarrow> bool" where
  "rows_fit n result rows \<longleftrightarrow> result = RangeResult (length rows) \<and> length rows \<le> n"

definition result_of_type :: "nat \<Rightarrow> U_DbRequestArgs \<Rightarrow> STRG_RET \<Rightarrow> DbResponseResult \<Rightarrow> DbRows \<Rightarrow> bool" where
  "result_of_type ty args ret result out =
     (if ty = DB_REQ_CONTACT_GET then
        out = NoRows \<and> (case result of ContactResult c \<Rightarrow> ret = STRG_OK | NoResult \<Rightarrow> ret \<noteq> STRG_OK | _ \<Rightarrow> False)
      else if ty = DB_REQ_CONTACT_SEEK then
        out = NoRows \<and> (case result of SeekResult rank \<Rightarrow> ret = STRG_OK | NoResult \<Rightarrow> ret \<noteq> STRG_OK | _ \<Rightarrow> False)
      else if ty = DB_REQ_CONTACT_COUNT then
        out = NoRows \<and> (case result of RangeResult n \<Rightarrow> ret = STRG_OK | _ \<Rightarrow> False)
      else if ty = DB_REQ_CONTACT_LIST then
        (case out of ContactRows rows \<Rightarrow> rows_fit (ra_n (u_range args)) result rows | _ \<Rightarrow> False)
      else if ty = DB_REQ_MESSAGE_GET_CHAT then
        (case out of MessageRows rows \<Rightarrow> rows_fit (da_n (u_chat args)) result rows | _ \<Rightarrow> False)
      else if ty = DB_REQ_MESSAGE_RECENT then
        (case out of RecentRows rows \<Rightarrow> rows_fit (ra_n (u_range args)) result rows | _ \<Rightarrow> False)
      else if ty = DB_REQ_CHAT_LIST then
        (case out of ChatRows rows \<Rightarrow> rows_fit (ra_n (u_range args)) result rows | _ \<Rightarrow> False)
      else if ty = DB_REQ_CALL_RECENT then
        (case out of CallRows rows \<Rightarrow> rows_fit (ra_n (u_range args)) result rows | _ \<Rightarrow> False)
      else result = NoResult \<and> out = NoRows)"

definition writing_type :: "nat \<Rightarrow> bool" where
  "writing_type ty \<longleftrightarrow> ty \<in> {DB_REQ_CONTACT_ADD, DB_REQ_CONTACT_UPDATE, DB_REQ_CONTACT_REMOVE, DB_REQ_MESSAGE_ADD,
     DB_REQ_MESSAGE_REMOVE_CHAT, DB_REQ_CALL_ADD}"

lemma type_cases:
  assumes "ty < DB_REQ_COUNT"
  obtains "ty = 0" | "ty = 1" | "ty = 2" | "ty = 3" | "ty = 4" | "ty = 5" | "ty = 6" | "ty = 7" | "ty = 8" | "ty = 9"
    | "ty = 10" | "ty = 11" | "ty = 12" | "ty = 13" | "ty = 14"
  using assms by (simp add: less_Suc_eq numeral_eq_Suc) blast

lemma handler_typed:
  assumes "ty < DB_REQ_COUNT" and "the (db_handlers S ! ty) db args = Some (ret, result, out, db')"
  shows "result_of_type ty args ret result out" "\<not> writing_type ty \<Longrightarrow> db' = db"
  using assms(1)
  by (cases rule: type_cases; insert assms(2);
      auto simp: db_handlers_def handler_defs result_of_type_def writing_type_def rows_fit_def Let_def listings_fit lookups_fail
        split: prod.splits sum.splits)+

lemma db_handlers_present: "ty < DB_REQ_COUNT \<Longrightarrow> db_handlers S ! ty \<noteq> None"
  by (cases rule: type_cases, assumption) (simp_all add: db_handlers_def)

lemma db_handle_typed:
  assumes "db_handle S mr db req = Some (rsp, db')"
  shows "rsp_type rsp = req_type req" "rsp_tag rsp = req_tag req"
    "mr \<noteq> STRG_OK \<Longrightarrow> req_type req \<noteq> DB_REQ_STOP \<Longrightarrow>
       rsp_ret rsp = mr \<and> rsp_result rsp = NoResult \<and> rsp_out rsp = NoRows \<and> db' = db"
    "mr = STRG_OK \<Longrightarrow> DB_REQ_COUNT \<le> req_type req \<Longrightarrow>
       rsp_ret rsp = STRG_FAIL \<and> rsp_result rsp = NoResult \<and> rsp_out rsp = NoRows \<and> db' = db"
    "mr = STRG_OK \<or> req_type req = DB_REQ_STOP \<Longrightarrow> req_type req < DB_REQ_COUNT \<Longrightarrow>
       result_of_type (req_type req) (req_args req) (rsp_ret rsp) (rsp_result rsp) (rsp_out rsp)"
    "\<not> writing_type (req_type req) \<Longrightarrow> db' = db"
  using assms handler_typed [of "req_type req" S db "req_args req"] db_handlers_present [of "req_type req" S]
  by (auto simp: db_handle_def Let_def split: if_splits)

end
