(* ===== verification/Db_Service.thy ===== *)
theory Db_Service
  imports Db_Format Db_Task
begin

text \<open>
  The task on a sound database: a request whose strings are C strings is always answered as the directory
  specifies and leaves a sound database, so every database the task can reach from a formatted card is sound.

  \<^item> \<open>db_call\<close> reads a request as a call of the interface, from the member of the union that its type selects.
  \<^item> \<open>dir_request\<close> is what the directory does on a call that writes, \<open>dir_reads\<close> what it answers to the others.
\<close>

datatype DbCall =
    ContactAdd "byte list" "byte list"
  | ContactGet "byte list"
  | ContactUpdate "byte list" "byte list" "byte list"
  | ContactRemove "byte list"
  | ContactList nat nat
  | ContactSeek "byte list"
  | ContactCount
  | MessageAdd "byte list" nat bool "byte list"
  | MessageGetChat "byte list" nat nat
  | MessageRemoveChat "byte list"
  | MessageRecent nat nat
  | ChatList nat nat
  | CallAdd "byte list"
  | CallRecent nat nat
  | StopCall
  | UnknownCall

definition db_call :: "DbRequest \<Rightarrow> DbCall" where
  "db_call req =
     (let a = req_args req; ty = req_type req
      in if ty = DB_REQ_CONTACT_ADD then ContactAdd (ca_name (u_contact_add a)) (ca_phone (u_contact_add a))
         else if ty = DB_REQ_CONTACT_GET then ContactGet (pa_phone (u_phone a))
         else if ty = DB_REQ_CONTACT_UPDATE then
           ContactUpdate (cu_phone (u_contact_update a)) (cu_new_name (u_contact_update a)) (cu_new_phone (u_contact_update a))
         else if ty = DB_REQ_CONTACT_REMOVE then ContactRemove (pa_phone (u_phone a))
         else if ty = DB_REQ_CONTACT_LIST then ContactList (ra_start (u_range a)) (ra_n (u_range a))
         else if ty = DB_REQ_CONTACT_SEEK then ContactSeek (cs_prefix (u_contact_seek a))
         else if ty = DB_REQ_CONTACT_COUNT then ContactCount
         else if ty = DB_REQ_MESSAGE_ADD then
           MessageAdd (ma_phone (u_message_add a)) (ma_timestamp (u_message_add a)) (ma_direction (u_message_add a)) (ma_str (u_message_add a))
         else if ty = DB_REQ_MESSAGE_GET_CHAT then MessageGetChat (da_phone (u_chat a)) (da_start (u_chat a)) (da_n (u_chat a))
         else if ty = DB_REQ_MESSAGE_REMOVE_CHAT then MessageRemoveChat (pa_phone (u_phone a))
         else if ty = DB_REQ_MESSAGE_RECENT then MessageRecent (ra_start (u_range a)) (ra_n (u_range a))
         else if ty = DB_REQ_CHAT_LIST then ChatList (ra_start (u_range a)) (ra_n (u_range a))
         else if ty = DB_REQ_CALL_ADD then CallAdd (pa_phone (u_phone a))
         else if ty = DB_REQ_CALL_RECENT then CallRecent (ra_start (u_range a)) (ra_n (u_range a))
         else if ty = DB_REQ_STOP then StopCall
         else UnknownCall)"

text \<open>\<open>call_ok\<close>: the strings hold no NUL, a timestamp fits its 32 bits, the start in a log is below the greatest
  \<^verbatim>\<open>size_t\<close> of the device and, for a message, a free message sector is left.\<close>

fun call_ok :: "'c Database \<Rightarrow> DbCall \<Rightarrow> bool" where
  "call_ok db (ContactAdd name phone) = (0 \<notin> set name \<and> 0 \<notin> set phone)"
| "call_ok db (ContactGet phone) = (0 \<notin> set phone)"
| "call_ok db (ContactUpdate phone new_name new_phone) = (0 \<notin> set phone \<and> 0 \<notin> set new_name \<and> 0 \<notin> set new_phone)"
| "call_ok db (ContactRemove phone) = (0 \<notin> set phone)"
| "call_ok db (ContactSeek prefix) = (0 \<notin> set prefix)"
| "call_ok db (MessageAdd phone timestamp direction str) =
     (0 \<notin> set phone \<and> timestamp < 2 ^ 32 \<and> avail (ht_message_allocator (db_htable db)) \<noteq> {})"
| "call_ok db (MessageGetChat phone start n) = (0 \<notin> set phone)"
| "call_ok db (MessageRemoveChat phone) = (0 \<notin> set phone)"
| "call_ok db (CallAdd phone) = (0 \<notin> set phone)"
| "call_ok db (MessageRecent start n) = (start < 2 ^ 32 - 1)"
| "call_ok db (CallRecent start n) = (start < 2 ^ 32 - 1)"
| "call_ok db _ = True"

definition request_ok :: "'c Database \<Rightarrow> DbRequest \<Rightarrow> bool" where
  "request_ok db req = call_ok db (db_call req)"

text \<open>What the directory answers to the calls that change it.\<close>

fun dir_request :: "nat \<Rightarrow> nat \<Rightarrow> DbCall \<Rightarrow> Directory \<Rightarrow> (STRG_RET \<times> Directory) option" where
  "dir_request ml cl (ContactAdd name phone) D = Some (dir_contact_add name phone D)"
| "dir_request ml cl (ContactUpdate phone new_name new_phone) D = Some (dir_contact_update phone new_name new_phone D)"
| "dir_request ml cl (ContactRemove phone) D = Some (dir_contact_remove phone D)"
| "dir_request ml cl (MessageAdd phone timestamp direction str) D = Some (dir_message_add ml phone timestamp direction str D)"
| "dir_request ml cl (MessageRemoveChat phone) D = Some (dir_message_remove_chat phone D)"
| "dir_request ml cl (CallAdd phone) D = Some (dir_call_add cl phone D)"
| "dir_request ml cl _ D = None"

text \<open>What a response says: the status, the result and the rows.  A call that writes has no result; the status of
  such a call is that of \<open>dir_request\<close>.\<close>

definition page :: "nat \<Rightarrow> nat \<Rightarrow> 'a list \<Rightarrow> 'a list" where
  "page start n xs = take n (drop start xs)"

definition alphabetical :: "Directory \<Rightarrow> Contact list \<Rightarrow> bool" where
  "alphabetical D names \<longleftrightarrow> set names = ran (dir_book D) \<and> distinct names \<and> sorted (map listing_key names)"

fun dir_reads :: "DbCall \<Rightarrow> Directory \<Rightarrow> STRG_RET \<times> DbResponseResult \<times> DbRows \<Rightarrow> bool" where
  "dir_reads (ContactGet phone) D a =
     (a = (case dir_contact_get phone D of Inl ret \<Rightarrow> (ret, NoResult, NoRows) | Inr c \<Rightarrow> (STRG_OK, ContactResult c, NoRows)))"
| "dir_reads (ContactList start n) D a =
     (\<exists>names. alphabetical D names \<and>
        a = (if start < length names then STRG_OK else STRG_EMPTY, RangeResult (length (page start n names)), ContactRows (page start n names)))"
| "dir_reads (ContactSeek prefix) D a =
     (a = (if \<not> name_arg prefix then (STRG_FAIL, NoResult, NoRows)
           else (STRG_OK, SeekResult (Finite_Set.card {c \<in> ran (dir_book D). folded_name (name_of c) < folded_name prefix}), NoRows)))"
| "dir_reads ContactCount D a = (a = (STRG_OK, RangeResult (Finite_Set.card (dom (dir_book D))), NoRows))"
| "dir_reads (MessageGetChat phone start n) D a =
     (a = (case dir_message_get_chat phone start n D of (ret, ms) \<Rightarrow> (ret, RangeResult (length ms), MessageRows ms)))"
| "dir_reads (MessageRecent start n) D a =
     (\<exists>es. map mh_message es = dir_messages D \<and>
        a = (if es = [] \<or> start < length es then STRG_OK else STRG_FAIL, RangeResult (length (page start n es)), RecentRows (page start n es)))"
| "dir_reads (ChatList start n) D a =
     (a = (case dir_chat_list start n D of (ret, cs) \<Rightarrow> (ret, RangeResult (length cs), ChatRows cs)))"
| "dir_reads (CallRecent start n) D a =
     (\<exists>es. map ch_contact es = dir_calls D \<and>
        a = (if es = [] \<or> start < length es then STRG_OK else STRG_FAIL, RangeResult (length (page start n es)), CallRows (page start n es)))"
| "dir_reads StopCall D a = (a = (STRG_OK, NoResult, NoRows))"
| "dir_reads UnknownCall D a = (a = (STRG_FAIL, NoResult, NoRows))"
| "dir_reads _ D a = (snd a = (NoResult, NoRows))"

text \<open>Both together: the response to a call on a directory, and the directory after it.\<close>

definition dir_answers :: "nat \<Rightarrow> nat \<Rightarrow> DbCall \<Rightarrow> Directory \<Rightarrow> DbResponse \<Rightarrow> Directory \<Rightarrow> bool" where
  "dir_answers ml cl call D rsp D' \<longleftrightarrow>
     dir_reads call D (rsp_ret rsp, rsp_result rsp, rsp_out rsp) \<and>
     (case dir_request ml cl call D of Some (ret, D1) \<Rightarrow> rsp_ret rsp = ret \<and> D' = D1 | None \<Rightarrow> D' = D)"

lemma handled_as:
  assumes "req_type req = ty" and "ty < DB_REQ_COUNT"
  shows "db_handle S STRG_OK db req = map_option
    (\<lambda>(ret, result, rows, db). (\<lparr>rsp_type = ty, rsp_tag = req_tag req, rsp_ret = ret, rsp_result = result, rsp_out = rows\<rparr>, db))
    (the (db_handlers S ! ty) db (req_args req))"
  using assms db_handlers_present [OF assms(2), of S] by (simp add: db_handle_def Let_def)

context database_store begin

lemma names_below:
  assumes ok: "db_ok S ok blk db"
  shows "length (filter P (db_names blk db)) = Finite_Set.card {c \<in> ran (dir_book (db_dir blk db)). P c}"
proof -
  note n = names_alphabetical [OF ok]
  have "length (filter P (db_names blk db)) = Finite_Set.card (set (filter P (db_names blk db)))"
    using distinct_card [OF distinct_filter [OF n(2), of P]] by simp
  then show ?thesis by (simp add: n(1))
qed

text \<open>The answers to the listings that are not read off the directory alone.\<close>

lemma listing_answers:
  assumes ok: "db_ok S ok blk db"
  shows "database_contact_list S db start n = (ret, rows) \<Longrightarrow>
      dir_reads (ContactList start n) (db_dir blk db) (ret, RangeResult (length rows), ContactRows rows)"
    "start < 2 ^ 32 - 1 \<Longrightarrow> database_message_recent S db start n = (ret, ms) \<Longrightarrow>
      dir_reads (MessageRecent start n) (db_dir blk db) (ret, RangeResult (length ms), RecentRows ms)"
    "start < 2 ^ 32 - 1 \<Longrightarrow> database_call_recent S db start n = (ret, cs) \<Longrightarrow>
      dir_reads (CallRecent start n) (db_dir blk db) (ret, RangeResult (length cs), CallRows cs)"
proof -
  show "database_contact_list S db start n = (ret, rows) \<Longrightarrow>
      dir_reads (ContactList start n) (db_dir blk db) (ret, RangeResult (length rows), ContactRows rows)"
    unfolding dir_reads.simps using contact_list_names [OF ok, of start n] names_alphabetical [OF ok]
    by (intro exI [of _ "db_names blk db"]) (auto simp: alphabetical_def page_def split: if_splits)
  show "start < 2 ^ 32 - 1 \<Longrightarrow> database_message_recent S db start n = (ret, ms) \<Longrightarrow>
      dir_reads (MessageRecent start n) (db_dir blk db) (ret, RangeResult (length ms), RecentRows ms)"
    unfolding dir_reads.simps using message_recent_log [OF ok, of start n]
    by (intro exI [of _ "db_message_log blk db"]) (auto simp: db_dir_def page_def Let_def split: if_splits)
  show "start < 2 ^ 32 - 1 \<Longrightarrow> database_call_recent S db start n = (ret, cs) \<Longrightarrow>
      dir_reads (CallRecent start n) (db_dir blk db) (ret, RangeResult (length cs), CallRows cs)"
    unfolding dir_reads.simps using call_recent_log [OF ok, of start n]
    by (intro exI [of _ "db_call_log blk db"]) (auto simp: db_dir_def page_def Let_def split: if_splits)
qed

lemmas answer_defs = db_handlers_def handler_defs dir_answers_def Let_def

lemma writer_answered:
  assumes ok: "db_ok S ok blk db" and req: "request_ok db req" and w: "writing_type (req_type req)"
  shows "\<exists>rsp db'. db_handle S STRG_OK db req = Some (rsp, db') \<and> db_ok S ok blk db' \<and>
    dir_answers (message_log_loss blk db) (call_log_loss blk db) (db_call req) (db_dir blk db) rsp (db_dir blk db')"
proof -
  have s: "simulates S ok blk out spec \<Longrightarrow> db_ok S ok blk (snd out) \<and> fst out = fst spec \<and> db_dir blk (snd out) = snd spec" for out spec
    by (auto simp: simulates_def)
  note q = req [unfolded request_ok_def]
  from w consider
    (contact_add) "req_type req = 0" | (contact_update) "req_type req = 2" | (contact_remove) "req_type req = 3"
    | (message_add) "req_type req = 7" | (remove_chat) "req_type req = 9" | (call_add) "req_type req = 12"
    by (auto simp: writing_type_def)
  then show ?thesis
  proof cases
    case contact_add
    obtain name phone where a: "ca_name (u_contact_add (req_args req)) = name" "ca_phone (u_contact_add (req_args req)) = phone" by blast
    have call: "db_call req = ContactAdd name phone" by (simp add: db_call_def contact_add a)
    show ?thesis using s [OF contact_add_simulates [OF ok, of name phone]] q
      by (auto simp: handled_as [OF contact_add] answer_defs call a split: prod.splits)
  next
    case contact_update
    obtain phone new_name new_phone where a: "cu_phone (u_contact_update (req_args req)) = phone" "cu_new_name (u_contact_update (req_args req)) = new_name"
      "cu_new_phone (u_contact_update (req_args req)) = new_phone" by blast
    have call: "db_call req = ContactUpdate phone new_name new_phone" by (simp add: db_call_def contact_update a)
    show ?thesis using s [OF contact_update_simulates [OF ok, of phone new_name new_phone]] q
      by (auto simp: handled_as [OF contact_update] answer_defs call a split: prod.splits)
  next
    case contact_remove
    obtain phone where a: "pa_phone (u_phone (req_args req)) = phone" by blast
    have call: "db_call req = ContactRemove phone" by (simp add: db_call_def contact_remove a)
    obtain out where "database_contact_remove S db phone = Some out"
      "simulates S ok blk out (dir_contact_remove phone (db_dir blk db))" using contact_remove_simulates [OF ok, of phone] q call by auto
    then show ?thesis using s [of out]
      by (auto simp: handled_as [OF contact_remove] answer_defs call a split: prod.splits)
  next
    case message_add
    obtain phone timestamp direction str where a: "ma_phone (u_message_add (req_args req)) = phone" "ma_timestamp (u_message_add (req_args req)) = timestamp"
      "ma_direction (u_message_add (req_args req)) = direction" "ma_str (u_message_add (req_args req)) = str" by blast
    have call: "db_call req = MessageAdd phone timestamp direction str" by (simp add: db_call_def message_add a)
    obtain out where "database_message_add S db phone timestamp direction str = Some out"
      "simulates S ok blk out (dir_message_add (message_log_loss blk db) phone timestamp direction str (db_dir blk db))"
      using message_add_simulates [OF ok, of phone timestamp direction str] q call by auto
    then show ?thesis using s [of out]
      by (auto simp: handled_as [OF message_add] answer_defs call a split: prod.splits)
  next
    case remove_chat
    obtain phone where a: "pa_phone (u_phone (req_args req)) = phone" by blast
    have call: "db_call req = MessageRemoveChat phone" by (simp add: db_call_def remove_chat a)
    obtain out where "database_message_remove_chat S db phone = Some out"
      "simulates S ok blk out (dir_message_remove_chat phone (db_dir blk db))" using message_remove_chat_simulates [OF ok, of phone] q call by auto
    then show ?thesis using s [of out]
      by (auto simp: handled_as [OF remove_chat] answer_defs call a split: prod.splits)
  next
    case call_add
    obtain phone where a: "pa_phone (u_phone (req_args req)) = phone" by blast
    have call: "db_call req = CallAdd phone" by (simp add: db_call_def call_add a)
    obtain out where "database_call_add S db phone = Some out"
      "simulates S ok blk out (dir_call_add (call_log_loss blk db) phone (db_dir blk db))" using call_add_simulates [OF ok, of phone] q call by auto
    then show ?thesis using s [of out]
      by (auto simp: handled_as [OF call_add] answer_defs call a split: prod.splits)
  qed
qed

lemma reader_answered:
  assumes ok: "db_ok S ok blk db" and req: "request_ok db req" and w: "\<not> writing_type (req_type req)"
  shows "\<exists>rsp db'. db_handle S STRG_OK db req = Some (rsp, db') \<and> db_ok S ok blk db' \<and>
    dir_answers (message_log_loss blk db) (call_log_loss blk db) (db_call req) (db_dir blk db) rsp (db_dir blk db')"
proof (cases "req_type req < DB_REQ_COUNT")
  case False
  then show ?thesis using ok by (simp add: db_handle_def db_call_def dir_answers_def Let_def)
next
  case True
  note q = req [unfolded request_ok_def]
  from True w consider
    (contact_get) "req_type req = 1" | (contact_list) "req_type req = 4" | (contact_seek) "req_type req = 5"
    | (contact_count) "req_type req = 6" | (get_chat) "req_type req = 8" | (message_recent) "req_type req = 10"
    | (chat_list) "req_type req = 11" | (call_recent) "req_type req = 13" | (stop) "req_type req = 14"
    by (cases rule: type_cases) (auto simp: writing_type_def)
  then show ?thesis
  proof cases
    case contact_get
    obtain phone where a: "pa_phone (u_phone (req_args req)) = phone" by blast
    have call: "db_call req = ContactGet phone" by (simp add: db_call_def contact_get a)
    show ?thesis using ok q contact_get_simulates [OF ok, of phone]
      by (auto simp: handled_as [OF contact_get] answer_defs call a split: prod.splits sum.splits)
  next
    case contact_list
    obtain start n where a: "ra_start (u_range (req_args req)) = start" "ra_n (u_range (req_args req)) = n" by blast
    have call: "db_call req = ContactList start n" by (simp add: db_call_def contact_list a)
    show ?thesis using ok q listing_answers(1) [OF ok, of start n]
      by (auto simp: handled_as [OF contact_list] answer_defs call a simp del: dir_reads.simps split: prod.splits)
  next
    case contact_seek
    obtain prefix where a: "cs_prefix (u_contact_seek (req_args req)) = prefix" by blast
    have call: "db_call req = ContactSeek prefix" by (simp add: db_call_def contact_seek a)
    show ?thesis using ok q contact_seek_names [OF ok, of prefix]
      by (auto simp: handled_as [OF contact_seek] answer_defs call a names_below [OF ok])
  next
    case contact_count
    have call: "db_call req = ContactCount" by (simp add: db_call_def contact_count)
    show ?thesis using ok q contact_count_book [OF ok]
      by (auto simp: handled_as [OF contact_count] answer_defs call split: prod.splits sum.splits)
  next
    case get_chat
    obtain phone start n where a: "da_phone (u_chat (req_args req)) = phone" "da_start (u_chat (req_args req)) = start"
      "da_n (u_chat (req_args req)) = n" by blast
    have call: "db_call req = MessageGetChat phone start n" by (simp add: db_call_def get_chat a)
    show ?thesis using ok q message_get_chat_simulates [OF ok, of phone start n]
      by (auto simp: handled_as [OF get_chat] answer_defs call a split: prod.splits sum.splits)
  next
    case message_recent
    obtain start n where a: "ra_start (u_range (req_args req)) = start" "ra_n (u_range (req_args req)) = n" by blast
    have call: "db_call req = MessageRecent start n" by (simp add: db_call_def message_recent a)
    show ?thesis using ok q listing_answers(2) [OF ok, of start n]
      by (auto simp: handled_as [OF message_recent] answer_defs call a simp del: dir_reads.simps split: prod.splits)
  next
    case chat_list
    obtain start n where a: "ra_start (u_range (req_args req)) = start" "ra_n (u_range (req_args req)) = n" by blast
    have call: "db_call req = ChatList start n" by (simp add: db_call_def chat_list a)
    show ?thesis using ok q chat_list_simulates(1) [OF ok, of start n]
      by (auto simp: handled_as [OF chat_list] answer_defs call a split: prod.splits sum.splits)
  next
    case call_recent
    obtain start n where a: "ra_start (u_range (req_args req)) = start" "ra_n (u_range (req_args req)) = n" by blast
    have call: "db_call req = CallRecent start n" by (simp add: db_call_def call_recent a)
    show ?thesis using ok q listing_answers(3) [OF ok, of start n]
      by (auto simp: handled_as [OF call_recent] answer_defs call a simp del: dir_reads.simps split: prod.splits)
  next
    case stop
    have call: "db_call req = StopCall" by (simp add: db_call_def stop)
    show ?thesis using ok q
      by (auto simp: handled_as [OF stop] answer_defs call split: prod.splits sum.splits)
  qed
qed

lemma request_answered:
  assumes "db_ok S ok blk db" and "request_ok db req"
  shows "\<exists>rsp db'. db_handle S STRG_OK db req = Some (rsp, db') \<and> db_ok S ok blk db' \<and>
    dir_answers (message_log_loss blk db) (call_log_loss blk db) (db_call req) (db_dir blk db) rsp (db_dir blk db')"
  using writer_answered [OF assms] reader_answered [OF assms] by blast

end

inductive database_reaches :: "'c Storage \<Rightarrow> 'c Database \<Rightarrow> 'c Database \<Rightarrow> bool" for S db0 where
  start: "database_reaches S db0 db0"
| request: "database_reaches S db0 db \<Longrightarrow> request_ok db req \<Longrightarrow> db_handle S STRG_OK db req = Some (rsp, db') \<Longrightarrow>
    database_reaches S db0 db'"

context database_store begin

lemma reaches_ok: "database_reaches S db0 db \<Longrightarrow> db_ok S ok blk db0 \<Longrightarrow> db_ok S ok blk db"
proof (induction rule: database_reaches.induct)
  case (request db req rsp db')
  then show ?case using request_answered [of db req] by auto
qed simp

end

subsection \<open>A concrete database\<close>

text \<open>A blank card and cleared static arrays, the database formatted on it, and the same with one contact.
  Nothing here models code; the lemmas say that these databases meet the hypotheses of the properties.\<close>

definition blank_list :: "nat \<Rightarrow> FreeList" where
  "blank_list n = \<lparr>free_stack = replicate n 0, stack_top = 0, fl_capacity = 0, used_count = 0\<rparr>"

definition blank_db :: "HeapStorageContext Database" where
  "blank_db = \<lparr>db_pers = \<lparr>dev = blank_card, usage_bitmap = [], journal = journal_cleared\<rparr>,
     db_htable = hash_init (blank_list HASH_TABLE_ENTRIES) (blank_list TOTAL_MESSAGE_SECTOR_SIZE) [] 0 contact_zero,
     db_message_history = empty_ring 0, db_call_history = empty_ring 0,
     db_name_index = sorted_array_init (replicate SORTED_ARRAY_ENTRIES \<lparr>se_key = [], se_hash_slot = 0\<rparr>),
     db_chat_order = chat_order_init (replicate CHAT_ORDER_ENTRIES 0)\<rparr>"

definition formatted_db :: "HeapStorageContext Database" where
  "formatted_db = snd (the (database_format heap_storage blank_db))"

definition contact_db :: "HeapStorageContext Database" where
  "contact_db = snd (database_contact_add heap_storage formatted_db [65] [49])"

lemma blank_db_ok:
  "heap_ok (dev (db_pers blank_db))"
  "DATA_REGION_START_SECTOR + TOTAL_DATABASE_SECTOR_SIZE \<le> capacity heap_storage (dev (db_pers blank_db))" "arrays_ok blank_db"
  using blank_card_ok by (simp_all add: blank_db_def layout)
    (simp add: arrays_ok_def hash_init_def blank_list_def sorted_array_init_def chat_order_init_def CHAT_ORDER_ENTRIES_def layout)

lemma formatted_db_ok:
  "db_ok heap_storage heap_ok heap_blk formatted_db" "db_dir heap_blk formatted_db = dir_empty"
  "avail (ht_message_allocator (db_htable formatted_db)) \<noteq> {}"
proof -
  obtain db where db: "database_format heap_storage blank_db = Some (STRG_OK, db)" "db_ok heap_storage heap_ok heap_blk db"
    "db_dir heap_blk db = dir_empty" "avail (ht_message_allocator (db_htable db)) = {..<TOTAL_MESSAGE_SECTOR_SIZE}"
    using heapdb.format_sem [OF blank_db_ok] by blast
  have "formatted_db = db" by (simp add: formatted_db_def db(1))
  moreover have "{..<TOTAL_MESSAGE_SECTOR_SIZE} \<noteq> {}" by (simp add: layout lessThan_empty_iff)
  ultimately show "db_ok heap_storage heap_ok heap_blk formatted_db" "db_dir heap_blk formatted_db = dir_empty"
    "avail (ht_message_allocator (db_htable formatted_db)) \<noteq> {}" using db(2-4) by simp_all
qed

lemma contact_db_ok:
  "db_ok heap_storage heap_ok heap_blk contact_db"
  "db_dir heap_blk contact_db = dir_empty\<lparr>dir_book := [[49] \<mapsto> create_contact [65] [49]], dir_chats := [[49] \<mapsto> []]\<rparr>"
proof -
  have z: "0 \<notin> set [65 :: byte]" "0 \<notin> set [49 :: byte]" by simp_all
  have "dir_contact_add [65] [49] dir_empty =
      (STRG_OK, dir_empty\<lparr>dir_book := [[49] \<mapsto> create_contact [65] [49]], dir_chats := [[49] \<mapsto> []]\<rparr>)"
    by (simp add: dir_contact_add_def name_arg_def phone_arg_def dir_empty_def layout)
  then show "db_ok heap_storage heap_ok heap_blk contact_db"
    "db_dir heap_blk contact_db = dir_empty\<lparr>dir_book := [[49] \<mapsto> create_contact [65] [49]], dir_chats := [[49] \<mapsto> []]\<rparr>"
    using heapdb.contact_add_simulates [OF formatted_db_ok(1) z] by (simp_all add: simulates_def contact_db_def formatted_db_ok(2))
qed

text \<open>A task on the empty database: idle, and with one request in its queue.\<close>

definition empty_queue :: "nat \<Rightarrow> 'a \<Rightarrow> 'a PlatformQueue" where
  "empty_queue n fill = the (platform_os_QueueCreate n fill)"

definition no_args :: U_DbRequestArgs where
  "no_args = \<lparr>u_phone = \<lparr>pa_phone = []\<rparr>, u_contact_add = \<lparr>ca_phone = [], ca_name = []\<rparr>,
     u_contact_update = \<lparr>cu_phone = [], cu_new_phone = [], cu_new_name = []\<rparr>, u_contact_seek = \<lparr>cs_prefix = []\<rparr>,
     u_range = \<lparr>ra_start = 0, ra_n = 0\<rparr>, u_chat = \<lparr>da_phone = [], da_start = 0, da_n = 0\<rparr>,
     u_message_add = \<lparr>ma_phone = [], ma_timestamp = 0, ma_direction = False, ma_str = []\<rparr>\<rparr>"

definition count_request :: DbRequest where
  "count_request = \<lparr>req_type = DB_REQ_CONTACT_COUNT, req_reply_q = Some 1, req_tag = 9, req_args = no_args\<rparr>"

definition call_request :: "byte list \<Rightarrow> DbRequest" where
  "call_request phone = \<lparr>req_type = DB_REQ_CALL_ADD, req_reply_q = None, req_tag = 3,
     req_args = no_args\<lparr>u_phone := \<lparr>pa_phone = phone\<rparr>\<rparr>\<rparr>"

definition contacts_request :: "nat \<Rightarrow> nat \<Rightarrow> DbRequest" where
  "contacts_request start n = \<lparr>req_type = DB_REQ_CONTACT_LIST, req_reply_q = None, req_tag = 4,
     req_args = no_args\<lparr>u_range := \<lparr>ra_start = start, ra_n = n\<rparr>\<rparr>\<rparr>"

definition count_response :: DbResponse where
  "count_response = \<lparr>rsp_type = 6, rsp_tag = 9, rsp_ret = STRG_OK, rsp_result = RangeResult 0, rsp_out = NoRows\<rparr>"

definition idle_task :: "HeapStorageContext DatabaseTaskContext" where
  "idle_task = \<lparr>request_q = Some (empty_queue DB_TASK_QUEUE_SIZE count_request), task_db = formatted_db, own_db = formatted_db,
     mount = False, running = True, mount_ret = STRG_OK, task_phase = Receiving,
     reply_queues = (\<lambda>_. empty_queue 4 count_response)\<rparr>"

definition busy_task :: "HeapStorageContext DatabaseTaskContext" where
  "busy_task = snd (db_task_post idle_task count_request)"

lemma empty_queue:
  "0 < n \<Longrightarrow> n < 2 ^ 31 \<Longrightarrow> queue_ok (empty_queue n fill)" "0 < n \<Longrightarrow> queue_items (empty_queue n fill) = []"
  "0 < n \<Longrightarrow> q_length (empty_queue n fill) = n" "0 < n \<Longrightarrow> q_count (empty_queue n fill) = 0"
  by (simp_all add: empty_queue_def platform_os_QueueCreate_def queue_ok_def queue_items_def)

lemma idle_task_ok:
  "task_ok idle_task" "waiting idle_task = []" "queue_items (reply_queues idle_task r) = []" "task_phase idle_task = Receiving"
  by (auto simp: idle_task_def task_ok_def waiting_def DB_TASK_QUEUE_SIZE_def empty_queue)

lemma count_handled: "db_handle heap_storage STRG_OK formatted_db count_request = Some (count_response, formatted_db)"
  using heapdb.contact_count_book [OF formatted_db_ok(1)]
  by (simp add: db_handle_def db_handlers_def handle_contact_count_def count_request_def count_response_def formatted_db_ok(2) dir_empty_def)

lemma count_served: "db_serve heap_storage STRG_OK formatted_db [count_request] = Some ([(count_request, count_response)], formatted_db)"
  by (simp add: count_handled)

lemma count_due: "due r [(count_request, count_response)] = (if r = 1 then [count_response] else [])"
  by (simp add: due_def count_request_def)

lemma busy_task:
  "task_ok busy_task" "waiting busy_task = [count_request]" "mount_ret busy_task = STRG_OK" "task_db busy_task = formatted_db"
  "task_phase busy_task = Receiving" "q_length (reply_queues busy_task r) - q_count (reply_queues busy_task r) = 4"
  "queue_items (reply_queues busy_task r) = []" "db_task_post idle_task count_request = (True, busy_task)"
proof -
  obtain q where q: "platform_os_QueueSend (empty_queue DB_TASK_QUEUE_SIZE count_request) count_request = Some q"
    "queue_ok q" "queue_items q = [count_request]"
    using ring_queue.put_room [of "empty_queue DB_TASK_QUEUE_SIZE count_request" count_request]
    by (auto simp: empty_queue DB_TASK_QUEUE_SIZE_def)
  have "request_q idle_task = Some (empty_queue DB_TASK_QUEUE_SIZE count_request)" by (simp add: idle_task_def)
  then have e: "busy_task = idle_task\<lparr>request_q := Some q\<rparr>" by (simp add: busy_task_def db_task_post_def q(1))
  show "db_task_post idle_task count_request = (True, busy_task)" using e by (simp add: db_task_post_def idle_task_def q(1))
  show "task_ok busy_task" "waiting busy_task = [count_request]" using q(2,3) idle_task_ok(1) by (simp_all add: e task_ok_def waiting_def)
  show "mount_ret busy_task = STRG_OK" "task_db busy_task = formatted_db" "task_phase busy_task = Receiving"
    "q_length (reply_queues busy_task r) - q_count (reply_queues busy_task r) = 4" "queue_items (reply_queues busy_task r) = []"
    by (simp_all add: e) (simp_all add: idle_task_def empty_queue)
qed

end
