(* ===== verification/SD_Storage.thy ===== *)
theory SD_Storage
  imports Storage
begin

text \<open>
  The storage of the device: \<^verbatim>\<open>source/app/src/sd_storage.c\<close>, the second provider of the storage
  interface.  The vendor's SD library is a parameter, the record \<open>SdHal\<close> of the functions the driver
  calls; the state \<open>'h\<close> is the card behind the handle.

  \<^item> A call that waits for the card and never sees it ready does not return: the outer \<open>None\<close> of the
    driver's functions.  \<open>sd_storage\<close> is the struct of function pointers.
  \<^item> \<open>sd_card\<close> is what the library documents of a working card.  Under it \<open>sd_storage\<close> keeps
    every contract of the storage interface (\<open>sd_reliable\<close>, \<open>sd_multiblock\<close>).
\<close>

subsection \<open>The vendor's library\<close>

text \<open>A status other than \<^verbatim>\<open>HAL_OK\<close> is \<open>None\<close> or \<open>False\<close>.  \<open>HAL_SD_CARD_TRANSFER\<close> is the answer
  of the \<open>k\<close>-th poll of \<^verbatim>\<open>HAL_SD_GetCardState\<close>, compared with the constant of that name.\<close>

record 'h SdHal =
  HAL_SD_GetCardInfo :: "'h \<Rightarrow> nat option"
  HAL_SD_ReadBlocks :: "'h \<Rightarrow> nat \<Rightarrow> nat \<Rightarrow> byte list option"
  HAL_SD_WriteBlocks :: "'h \<Rightarrow> byte list \<Rightarrow> nat \<Rightarrow> nat \<Rightarrow> bool \<times> 'h"
  HAL_SD_CARD_TRANSFER :: "'h \<Rightarrow> nat \<Rightarrow> bool"

subsection \<open>The driver\<close>

record 'h SDStorageContext =
  hsd :: 'h
  start_sector :: nat
  sd_block_size :: nat
  sd_capacity_blocks :: nat

definition SD_SECTORS_PER_BLOCK :: "nat \<Rightarrow> nat" where
  "SD_SECTORS_PER_BLOCK bytes = to_u32 (bytes + 512 - 1) div 512"

definition SDStorage_Init :: "'h SdHal \<Rightarrow> 'h \<Rightarrow> nat \<Rightarrow> nat \<Rightarrow> 'h SDStorageContext option" where
  "SDStorage_Init H hsd1 start bytes =
     (case HAL_SD_GetCardInfo H hsd1 of
        None \<Rightarrow> None
      | Some LogBlockNbr \<Rightarrow> Some \<lparr>hsd = hsd1, start_sector = start, sd_block_size = bytes,
          sd_capacity_blocks = to_u32 (LogBlockNbr + 2 ^ 32 - start) div SD_SECTORS_PER_BLOCK bytes\<rparr>)"

text \<open>The loop that waits for the card, with the number of its \<^verbatim>\<open>osDelay(1)\<close>.\<close>

partial_function (option) sd_wait :: "'h SdHal \<Rightarrow> 'h \<Rightarrow> nat \<Rightarrow> nat option" where
  "sd_wait H h k = (if HAL_SD_CARD_TRANSFER H h k then Some k else sd_wait H h (Suc k))"

definition SDStorage_ReadBlock :: "'h SdHal \<Rightarrow> 'h SDStorageContext \<Rightarrow> nat \<Rightarrow> byte list option option" where
  "SDStorage_ReadBlock H ctx index =
     (let readSize = SD_SECTORS_PER_BLOCK (sd_block_size ctx)
      in case HAL_SD_ReadBlocks H (hsd ctx) index readSize of
           None \<Rightarrow> Some None
         | Some raw \<Rightarrow> map_option (\<lambda>_. Some (take (sd_block_size ctx) raw)) (sd_wait H (hsd ctx) 0))"

definition SDStorage_ReadMultiBlock ::
    "'h SdHal \<Rightarrow> 'h SDStorageContext \<Rightarrow> nat \<Rightarrow> nat \<Rightarrow> byte list option option" where
  "SDStorage_ReadMultiBlock H ctx index readNum =
     (let sectors = to_u32 (SD_SECTORS_PER_BLOCK (sd_block_size ctx) * to_u32 readNum)
      in case HAL_SD_ReadBlocks H (hsd ctx) index sectors of
           None \<Rightarrow> Some None
         | Some out \<Rightarrow> map_option (\<lambda>_. Some out) (sd_wait H (hsd ctx) 0))"

definition SDStorage_WriteMultiBlock ::
    "'h SdHal \<Rightarrow> 'h SDStorageContext \<Rightarrow> nat \<Rightarrow> nat \<Rightarrow> byte list \<Rightarrow> (bool \<times> 'h SDStorageContext) option" where
  "SDStorage_WriteMultiBlock H ctx index writeNum inb =
     (let writeSize = SD_SECTORS_PER_BLOCK (sd_block_size ctx);
          (status, h) = HAL_SD_WriteBlocks H (hsd ctx) inb index (to_u32 (writeSize * writeNum));
          ctx = ctx\<lparr>hsd := h\<rparr>
      in if \<not> status then Some (False, ctx) else map_option (\<lambda>_. (True, ctx)) (sd_wait H h 0))"

definition SDStorage_WriteBlock ::
    "'h SdHal \<Rightarrow> 'h SDStorageContext \<Rightarrow> nat \<Rightarrow> byte list \<Rightarrow> (bool \<times> 'h SDStorageContext) option" where
  "SDStorage_WriteBlock H ctx index inb =
     (let writeSize = SD_SECTORS_PER_BLOCK (sd_block_size ctx);
          (status, h) = HAL_SD_WriteBlocks H (hsd ctx) inb index writeSize;
          ctx = ctx\<lparr>hsd := h\<rparr>
      in if \<not> status then Some (False, ctx) else map_option (\<lambda>_. (True, ctx)) (sd_wait H h 0))"

definition SDStorage_Capacity :: "'h SDStorageContext \<Rightarrow> nat" where
  "SDStorage_Capacity ctx = sd_capacity_blocks ctx"

text \<open>The struct of callbacks; its functions are used where they return.\<close>

definition sd_storage :: "'h SdHal \<Rightarrow> 'h SDStorageContext Storage" where
  "sd_storage H = \<lparr>read_block = \<lambda>ctx i. the (SDStorage_ReadBlock H ctx i),
     read_multiblock = \<lambda>ctx i n. the (SDStorage_ReadMultiBlock H ctx i n),
     write_block = \<lambda>ctx i b. the (SDStorage_WriteBlock H ctx i b),
     write_multiblock = \<lambda>ctx i n b. the (SDStorage_WriteMultiBlock H ctx i n b),
     capacity = SDStorage_Capacity\<rparr>"

subsection \<open>Waiting\<close>

lemma sd_wait_reaches: "HAL_SD_CARD_TRANSFER H h (k + n) \<Longrightarrow> sd_wait H h k \<noteq> None"
proof (induction n arbitrary: k)
  case 0
  then show ?case by (simp add: sd_wait.simps [of H h k])
next
  case (Suc n)
  then have "sd_wait H h (Suc k) \<noteq> None" by simp
  then show ?case by (simp add: sd_wait.simps [of H h k])
qed

lemma sd_wait_ready: "sd_wait H h k = Some n \<Longrightarrow> HAL_SD_CARD_TRANSFER H h n"
proof (rule sd_wait.raw_induct [where P = "\<lambda>H h k n. HAL_SD_CARD_TRANSFER H h n"])
  fix f H h k n
  assume "\<And>H h k n. f H h k = Some n \<Longrightarrow> HAL_SD_CARD_TRANSFER H h n"
    and "(if HAL_SD_CARD_TRANSFER H h k then Some k else f H h (Suc k)) = Some n"
  then show "HAL_SD_CARD_TRANSFER H h n" by (auto split: if_splits)
qed

text \<open>The call comes back if and only if some poll finds the card ready.\<close>

lemma sd_wait_iff: "sd_wait H h 0 \<noteq> None \<longleftrightarrow> (\<exists>k. HAL_SD_CARD_TRANSFER H h k)"
  using sd_wait_reaches [of H h 0] sd_wait_ready [of H h 0] by fastforce

lemma read_block_returns:
  "SDStorage_ReadBlock H ctx i = None \<longleftrightarrow>
     HAL_SD_ReadBlocks H (hsd ctx) i (SD_SECTORS_PER_BLOCK (sd_block_size ctx)) \<noteq> None \<and>
     (\<forall>k. \<not> HAL_SD_CARD_TRANSFER H (hsd ctx) k)"
  using sd_wait_iff [of H "hsd ctx"] by (auto simp: SDStorage_ReadBlock_def Let_def split: option.split)

subsection \<open>A working card\<close>

text \<open>What the library documents: the size of the card does not change; a transfer that succeeds lies on the
  card and moves whole sectors of 512 bytes; one that fails leaves the card alone; one that lies on the
  card succeeds; after a transfer the card comes back to the transfer state.\<close>

definition sd_status :: "'h SdHal \<Rightarrow> ('h \<Rightarrow> bool) \<Rightarrow> ('h \<Rightarrow> nat \<Rightarrow> byte list) \<Rightarrow> bool" where
  "sd_status H good sec \<longleftrightarrow> (\<forall>h. good h \<longrightarrow>
     (\<exists>N. HAL_SD_GetCardInfo H h = Some N \<and> N < 2 ^ 32 \<and> (\<forall>i<N. length (sec h i) = 512)) \<and>
     (\<exists>k. HAL_SD_CARD_TRANSFER H h k))"

definition sd_reads :: "'h SdHal \<Rightarrow> ('h \<Rightarrow> bool) \<Rightarrow> ('h \<Rightarrow> nat \<Rightarrow> byte list) \<Rightarrow> bool" where
  "sd_reads H good sec \<longleftrightarrow> (\<forall>h i n b. good h \<and> HAL_SD_ReadBlocks H h i n = Some b \<longrightarrow>
     i + n \<le> the (HAL_SD_GetCardInfo H h) \<and> b = concat (map (sec h) [i..<i + n]))"

definition sd_writes :: "'h SdHal \<Rightarrow> ('h \<Rightarrow> bool) \<Rightarrow> ('h \<Rightarrow> nat \<Rightarrow> byte list) \<Rightarrow> bool" where
  "sd_writes H good sec \<longleftrightarrow>
     (\<forall>h b i n r h'. good h \<and> length b = n * 512 \<and> HAL_SD_WriteBlocks H h b i n = (r, h') \<longrightarrow>
        good h' \<and> HAL_SD_GetCardInfo H h' = HAL_SD_GetCardInfo H h \<and>
        sec h' = (if r then \<lambda>j. if i \<le> j \<and> j < i + n then slice ((j - i) * 512) 512 b else sec h j else sec h))"

definition sd_in_range :: "'h SdHal \<Rightarrow> ('h \<Rightarrow> bool) \<Rightarrow> bool" where
  "sd_in_range H good \<longleftrightarrow> (\<forall>h i n. good h \<and> 0 < n \<and> i + n \<le> the (HAL_SD_GetCardInfo H h) \<longrightarrow>
     HAL_SD_ReadBlocks H h i n \<noteq> None \<and> (\<forall>b. length b = n * 512 \<longrightarrow> fst (HAL_SD_WriteBlocks H h b i n)))"

definition sd_card :: "'h SdHal \<Rightarrow> ('h \<Rightarrow> bool) \<Rightarrow> ('h \<Rightarrow> nat \<Rightarrow> byte list) \<Rightarrow> bool" where
  "sd_card H good sec \<longleftrightarrow> sd_status H good sec \<and> sd_reads H good sec \<and> sd_writes H good sec \<and> sd_in_range H good"

text \<open>The context as \<^verbatim>\<open>database_init\<close> sets it up on such a card.\<close>

definition sd_ok :: "'h SdHal \<Rightarrow> ('h \<Rightarrow> bool) \<Rightarrow> 'h SDStorageContext \<Rightarrow> bool" where
  "sd_ok H good d \<longleftrightarrow> good (hsd d) \<and> SDStorage_Init H (hsd d) 0 SECTOR_SIZE = Some d"

definition sd_blk :: "('h \<Rightarrow> nat \<Rightarrow> byte list) \<Rightarrow> 'h SDStorageContext \<Rightarrow> nat \<Rightarrow> byte list" where
  "sd_blk sec d = sec (hsd d)"

lemma sd_cardD:
  assumes "sd_card H good sec" and "good h"
  shows "\<exists>N. HAL_SD_GetCardInfo H h = Some N \<and> N < 2 ^ 32 \<and> (\<forall>i<N. length (sec h i) = 512)" "sd_wait H h 0 \<noteq> None"
    "HAL_SD_ReadBlocks H h i n = Some b \<Longrightarrow> i + n \<le> the (HAL_SD_GetCardInfo H h) \<and> b = concat (map (sec h) [i..<i + n])"
    "length b = n * 512 \<Longrightarrow> HAL_SD_WriteBlocks H h b i n = (r, h') \<Longrightarrow>
        good h' \<and> HAL_SD_GetCardInfo H h' = HAL_SD_GetCardInfo H h \<and>
        sec h' = (if r then \<lambda>j. if i \<le> j \<and> j < i + n then slice ((j - i) * 512) 512 b else sec h j else sec h)"
    "0 < n \<Longrightarrow> i + n \<le> the (HAL_SD_GetCardInfo H h) \<Longrightarrow> HAL_SD_ReadBlocks H h i n \<noteq> None"
    "0 < n \<Longrightarrow> i + n \<le> the (HAL_SD_GetCardInfo H h) \<Longrightarrow> length b = n * 512 \<Longrightarrow> fst (HAL_SD_WriteBlocks H h b i n)"
proof -
  have l: "sd_status H good sec" "sd_reads H good sec" "sd_writes H good sec" "sd_in_range H good"
    using assms(1) by (simp_all add: sd_card_def)
  show "\<exists>N. HAL_SD_GetCardInfo H h = Some N \<and> N < 2 ^ 32 \<and> (\<forall>i<N. length (sec h i) = 512)" "sd_wait H h 0 \<noteq> None"
    using l(1) assms(2) unfolding sd_status_def sd_wait_iff by blast+
  show "HAL_SD_ReadBlocks H h i n = Some b \<Longrightarrow> i + n \<le> the (HAL_SD_GetCardInfo H h) \<and> b = concat (map (sec h) [i..<i + n])"
    using l(2) assms(2) unfolding sd_reads_def by blast
  show "length b = n * 512 \<Longrightarrow> HAL_SD_WriteBlocks H h b i n = (r, h') \<Longrightarrow>
        good h' \<and> HAL_SD_GetCardInfo H h' = HAL_SD_GetCardInfo H h \<and>
        sec h' = (if r then \<lambda>j. if i \<le> j \<and> j < i + n then slice ((j - i) * 512) 512 b else sec h j else sec h)"
    using l(3) assms(2) unfolding sd_writes_def by blast
  show "0 < n \<Longrightarrow> i + n \<le> the (HAL_SD_GetCardInfo H h) \<Longrightarrow> HAL_SD_ReadBlocks H h i n \<noteq> None"
    "0 < n \<Longrightarrow> i + n \<le> the (HAL_SD_GetCardInfo H h) \<Longrightarrow> length b = n * 512 \<Longrightarrow> fst (HAL_SD_WriteBlocks H h b i n)"
    using l(4) assms(2) unfolding sd_in_range_def by blast+
qed

lemma sd_ok_context:
  assumes c: "sd_card H good sec" and d: "sd_ok H good d"
  shows "SD_SECTORS_PER_BLOCK (sd_block_size d) = 1" "sd_block_size d = 512" "start_sector d = 0" "sd_capacity_blocks d < 2 ^ 32"
    "HAL_SD_GetCardInfo H (hsd d) = Some (sd_capacity_blocks d)" "good (hsd d)"
proof -
  show g: "good (hsd d)" using d by (simp add: sd_ok_def)
  obtain N where N: "HAL_SD_GetCardInfo H (hsd d) = Some N" "N < 2 ^ 32" using sd_cardD(1) [OF c g] by blast
  have one: "SD_SECTORS_PER_BLOCK SECTOR_SIZE = 1" by (simp add: SD_SECTORS_PER_BLOCK_def layout)
  have "d = \<lparr>hsd = hsd d, start_sector = 0, sd_block_size = SECTOR_SIZE, sd_capacity_blocks = N\<rparr>"
    using d N one by (simp add: sd_ok_def SDStorage_Init_def to_u32_def)
  then have "start_sector d = 0" "sd_block_size d = SECTOR_SIZE" "sd_capacity_blocks d = N" by (metis SDStorageContext.select_convs)+
  then show "SD_SECTORS_PER_BLOCK (sd_block_size d) = 1" "sd_block_size d = 512" "start_sector d = 0" "sd_capacity_blocks d < 2 ^ 32"
    "HAL_SD_GetCardInfo H (hsd d) = Some (sd_capacity_blocks d)" using N one by (simp_all add: layout)
qed

lemma sd_ok_started:
  assumes c: "sd_card H good sec" and g: "good h"
  shows "\<exists>d. SDStorage_Init H h 0 SECTOR_SIZE = Some d \<and> sd_ok H good d \<and> hsd d = h \<and>
    sd_capacity_blocks d = the (HAL_SD_GetCardInfo H h)"
proof -
  obtain N where N: "HAL_SD_GetCardInfo H h = Some N" "N < 2 ^ 32" using sd_cardD(1) [OF c g] by blast
  then show ?thesis using g by (simp add: SDStorage_Init_def sd_ok_def SD_SECTORS_PER_BLOCK_def to_u32_def layout)
qed

text \<open>On such a card every callback returns.\<close>

lemma sd_callbacks:
  assumes c: "sd_card H good sec" and d: "sd_ok H good d"
  shows "SDStorage_ReadBlock H d i = Some (map_option (take 512) (HAL_SD_ReadBlocks H (hsd d) i 1))"
    "n < 2 ^ 32 \<Longrightarrow> SDStorage_ReadMultiBlock H d i n = Some (HAL_SD_ReadBlocks H (hsd d) i n)"
    "length b = 512 \<Longrightarrow> SDStorage_WriteBlock H d i b =
       Some (case HAL_SD_WriteBlocks H (hsd d) b i 1 of (r, h) \<Rightarrow> (r, d\<lparr>hsd := h\<rparr>))"
    "n < 2 ^ 32 \<Longrightarrow> length b = n * 512 \<Longrightarrow> SDStorage_WriteMultiBlock H d i n b =
       Some (case HAL_SD_WriteBlocks H (hsd d) b i n of (r, h) \<Rightarrow> (r, d\<lparr>hsd := h\<rparr>))"
proof -
  note k = sd_ok_context [OF c d]
  obtain w where w: "sd_wait H (hsd d) 0 = Some w" using sd_cardD(2) [OF c k(6)] by blast
  show "SDStorage_ReadBlock H d i = Some (map_option (take 512) (HAL_SD_ReadBlocks H (hsd d) i 1))"
    using k w by (simp add: SDStorage_ReadBlock_def split: option.split)
  show "n < 2 ^ 32 \<Longrightarrow> SDStorage_ReadMultiBlock H d i n = Some (HAL_SD_ReadBlocks H (hsd d) i n)"
    using k w by (simp add: SDStorage_ReadMultiBlock_def split: option.split)
  have wr: "sd_wait H h 0 \<noteq> None" if "HAL_SD_WriteBlocks H (hsd d) b i n = (r, h)" "length b = n * 512" for h r n
    using sd_cardD(4) [OF c k(6) that(2,1)] sd_cardD(2) [OF c] by blast
  show "length b = 512 \<Longrightarrow> SDStorage_WriteBlock H d i b =
       Some (case HAL_SD_WriteBlocks H (hsd d) b i 1 of (r, h) \<Rightarrow> (r, d\<lparr>hsd := h\<rparr>))"
    using k wr [of 1] by (auto simp: SDStorage_WriteBlock_def Let_def split: prod.split)
  show "n < 2 ^ 32 \<Longrightarrow> length b = n * 512 \<Longrightarrow> SDStorage_WriteMultiBlock H d i n b =
       Some (case HAL_SD_WriteBlocks H (hsd d) b i n of (r, h) \<Rightarrow> (r, d\<lparr>hsd := h\<rparr>))"
    using k wr [of n] by (auto simp: SDStorage_WriteMultiBlock_def Let_def split: prod.split)
qed

lemma sd_written:
  assumes c: "sd_card H good sec" and d: "sd_ok H good d" and l: "length b = n * 512"
    and w: "HAL_SD_WriteBlocks H (hsd d) b i n = (r, h)"
  shows "sd_ok H good (d\<lparr>hsd := h\<rparr>) \<and> sd_blk sec (d\<lparr>hsd := h\<rparr>) =
    (if r then \<lambda>j. if i \<le> j \<and> j < i + n then slice ((j - i) * 512) 512 b else sd_blk sec d j else sd_blk sec d)"
proof -
  note k = sd_ok_context [OF c d]
  note s = sd_cardD(4) [OF c k(6) l w]
  have "SDStorage_Init H h 0 SECTOR_SIZE = map_option (\<lambda>x. x\<lparr>hsd := h\<rparr>) (SDStorage_Init H (hsd d) 0 SECTOR_SIZE)"
    using s by (simp add: SDStorage_Init_def split: option.split)
  then show ?thesis using s d by (simp add: sd_ok_def sd_blk_def fun_eq_iff)
qed

text \<open>The driver keeps the contracts of the storage interface.\<close>

lemma sd_reliable:
  assumes c: "sd_card H good sec"
  shows "reliable_store (sd_storage H) (sd_ok H good) (sd_blk sec)"
proof
  fix d i b assume d: "sd_ok H good d" and r: "read_block (sd_storage H) d i = Some b"
  note k = sd_ok_context [OF c d]
  obtain raw where raw: "HAL_SD_ReadBlocks H (hsd d) i 1 = Some raw" "b = take 512 raw"
    using r sd_callbacks(1) [OF c d, of i] by (auto simp: sd_storage_def)
  have "i < sd_capacity_blocks d" "raw = sec (hsd d) i" using sd_cardD(3) [OF c k(6) raw(1)] k(5) by simp_all
  moreover from this(1) have "length (sec (hsd d) i) = 512" using sd_cardD(1) [OF c k(6)] k(5) by auto
  ultimately show "b = sd_blk sec d i" by (simp add: sd_blk_def raw(2))
next
  fix d b i r d'
  assume d: "sd_ok H good d" and l: "length b = SECTOR_SIZE" and w: "write_block (sd_storage H) d i b = (r, d')"
  have l': "length b = 1 * 512" using l by (simp add: layout)
  obtain h where h: "HAL_SD_WriteBlocks H (hsd d) b i 1 = (r, h)" "d' = d\<lparr>hsd := h\<rparr>"
    using w sd_callbacks(3) [OF c d, of b i] l' by (auto simp: sd_storage_def split: prod.splits)
  show "sd_ok H good d' \<and> capacity (sd_storage H) d' = capacity (sd_storage H) d \<and>
      sd_blk sec d' = (if r then (sd_blk sec d)(i := b) else sd_blk sec d)"
    using sd_written [OF c d l' h(1)] l' by (auto simp: h(2) sd_storage_def SDStorage_Capacity_def fun_eq_iff slice_def)
next
  fix d i assume d: "sd_ok H good d" and i: "i < capacity (sd_storage H) d"
  note k = sd_ok_context [OF c d]
  show "length (sd_blk sec d i) = SECTOR_SIZE"
    using sd_cardD(1) [OF c k(6)] k(5) i by (auto simp: sd_storage_def SDStorage_Capacity_def sd_blk_def layout)
  obtain raw where raw: "HAL_SD_ReadBlocks H (hsd d) i 1 = Some raw"
    using sd_cardD(5) [OF c k(6), of 1 i] i k(5) by (auto simp: sd_storage_def SDStorage_Capacity_def)
  have "raw = sec (hsd d) i" using sd_cardD(3) [OF c k(6) raw] by simp
  moreover have "length (sec (hsd d) i) = 512"
    using sd_cardD(1) [OF c k(6)] k(5) i by (auto simp: sd_storage_def SDStorage_Capacity_def)
  ultimately show "read_block (sd_storage H) d i = Some (sd_blk sec d i)"
    using sd_callbacks(1) [OF c d, of i] raw by (simp add: sd_storage_def sd_blk_def)
next
  fix d i and b :: "byte list"
  assume d: "sd_ok H good d" and i: "i < capacity (sd_storage H) d" and l: "length b = SECTOR_SIZE"
  note k = sd_ok_context [OF c d]
  have "fst (HAL_SD_WriteBlocks H (hsd d) b i 1)"
    using sd_cardD(6) [OF c k(6), of 1 i b] i l k(5) by (simp add: sd_storage_def SDStorage_Capacity_def layout)
  then show "fst (write_block (sd_storage H) d i b)"
    using sd_callbacks(3) [OF c d, of b i] l by (auto simp: sd_storage_def layout split: prod.split)
qed

lemma sd_multiblock:
  assumes c: "sd_card H good sec"
  shows "multiblock_store (sd_storage H) (sd_ok H good) (sd_blk sec)"
proof (intro multiblock_store.intro multiblock_store_axioms.intro)
  show "block_store (sd_storage H) (sd_ok H good) (sd_blk sec)"
    using sd_reliable [OF c] by (simp add: reliable_store_def)
next
  fix d and n i :: nat and b assume d: "sd_ok H good d" and n: "n < 2 ^ 32" and r: "read_multiblock (sd_storage H) d i n = Some b"
  show "b = concat (map (sd_blk sec d) [i..<i + n])"
    using sd_cardD(3) [OF c sd_ok_context(6) [OF c d], of i n b] sd_callbacks(2) [OF c d n, of i] r
    by (simp add: sd_storage_def sd_blk_def [abs_def])
next
  fix d n b i r d'
  assume d: "sd_ok H good d" and n: "n < 2 ^ 32" and l: "length b = n * SECTOR_SIZE"
    and w: "write_multiblock (sd_storage H) d i n b = (r, d')"
  have l': "length b = n * 512" using l by (simp add: layout)
  obtain h where h: "HAL_SD_WriteBlocks H (hsd d) b i n = (r, h)" "d' = d\<lparr>hsd := h\<rparr>"
    using w sd_callbacks(4) [OF c d n l', of i] by (auto simp: sd_storage_def split: prod.splits)
  show "sd_ok H good d' \<and> capacity (sd_storage H) d' = capacity (sd_storage H) d \<and>
      sd_blk sec d' = (if r then \<lambda>j. if i \<le> j \<and> j < i + n then slice ((j - i) * SECTOR_SIZE) SECTOR_SIZE b else sd_blk sec d j
        else sd_blk sec d)"
    using sd_written [OF c d l' h(1)] by (simp add: h(2) sd_storage_def SDStorage_Capacity_def layout fun_eq_iff)
next
  fix d and n i :: nat and b :: "byte list"
  assume d: "sd_ok H good d" and n: "0 < n" "n < 2 ^ 32" and i: "i + n \<le> capacity (sd_storage H) d"
    and l: "length b = n * SECTOR_SIZE"
  note k = sd_ok_context [OF c d]
  have "i + n \<le> the (HAL_SD_GetCardInfo H (hsd d))" using i k(5) by (simp add: sd_storage_def SDStorage_Capacity_def)
  moreover from this l have "fst (HAL_SD_WriteBlocks H (hsd d) b i n)" by (intro sd_cardD(6) [OF c k(6) n(1)]) (simp_all add: layout)
  ultimately show "read_multiblock (sd_storage H) d i n \<noteq> None \<and> fst (write_multiblock (sd_storage H) d i n b)"
    using sd_cardD(5) [OF c k(6) n(1), of i] sd_callbacks(2,4) [OF c d n(2)] l
    by (auto simp: sd_storage_def layout split: prod.split)
qed

end
