(* ===== verification/Db_SD.thy ===== *)
theory Db_SD
  imports Db_Mount Db_Service SD_Storage
begin

text \<open>
  The database on the device: all that is proved of it in \<open>database_store\<close> holds on
  \<open>sd_storage\<close>, for any library that drives a working card.  A small card in memory
  shows that there is such a library.
\<close>

lemma sd_database_store:
  assumes c: "sd_card H good sec"
  shows "database_store (sd_storage H) (sd_ok H good) (sd_blk sec)"
  by (intro database_store.intro history.intro sd_reliable [OF c] sd_multiblock [OF c]
      msg_hist.history_format_axioms call_hist.history_format_axioms)

abbreviation sd_sound :: "'h SdHal \<Rightarrow> ('h \<Rightarrow> bool) \<Rightarrow> ('h \<Rightarrow> nat \<Rightarrow> byte list) \<Rightarrow> 'h SDStorageContext Database \<Rightarrow> bool" where
  "sd_sound H good sec \<equiv> db_ok (sd_storage H) (sd_ok H good) (sd_blk sec)"

text \<open>\<open>start_sd\<close> is \<^verbatim>\<open>database_init\<close> on the target: it sets the driver up on the card first.\<close>

abbreviation start_sd :: "'h SdHal \<Rightarrow> 'h \<Rightarrow> SuperHeader \<Rightarrow> Message \<Rightarrow> 'h SDStorageContext Database \<Rightarrow>
    (STRG_RET \<times> 'h SDStorageContext Database) option" where
  "start_sd H h \<equiv> database_init (sd_storage H) (SDStorage_Init H h 0 SECTOR_SIZE)"

lemma sd_first_start:
  assumes c: "sd_card H good sec" and h: "good h" and a: "arrays_ok m"
    and N: "HAL_SD_GetCardInfo H h = Some N" "DATA_REGION_START_SECTOR + TOTAL_DATABASE_SECTOR_SIZE \<le> N"
    and blank: "get_superheader_status (superheader_of (sec h SUPERHEADER_SECTOR)) = SUPR_UNINITIALISED"
  shows "\<exists>db. start_sd H h sh latest m = Some (STRG_OK, db) \<and> sd_sound H good sec db \<and> db_dir (sd_blk sec) db = dir_empty \<and>
    avail (ht_message_allocator (db_htable db)) = {..<TOTAL_MESSAGE_SECTOR_SIZE}"
proof -
  obtain d where d: "SDStorage_Init H h 0 SECTOR_SIZE = Some d" "sd_ok H good d" "hsd d = h"
    "sd_capacity_blocks d = the (HAL_SD_GetCardInfo H h)"
    using sd_ok_started [OF c h] by blast
  show ?thesis unfolding d(1)
    by (rule database_store.init_formats [OF sd_database_store [OF c] d(2) _ a])
      (use d N blank in \<open>simp_all add: sd_storage_def SDStorage_Capacity_def sd_blk_def\<close>)
qed

lemma sd_restart:
  assumes c: "sd_card H good sec" and ok: "sd_sound H good sec db" and a: "arrays_ok m"
  shows "\<exists>db'. start_sd H (hsd (dev (db_pers db))) sh latest m = Some (STRG_OK, db') \<and> sd_sound H good sec db' \<and>
    dir_restarted (db_dir (sd_blk sec) db) (db_dir (sd_blk sec) db') \<and> dev (db_pers db') = dev (db_pers db)"
proof -
  have "sd_ok H good (dev (db_pers db))" using records_okD(1) [OF db_okD(1) [OF ok]] by (simp add: pers_ok_def)
  then have "SDStorage_Init H (hsd (dev (db_pers db))) 0 SECTOR_SIZE = Some (dev (db_pers db))" by (simp add: sd_ok_def)
  then show ?thesis using database_store.init_mounts [OF sd_database_store [OF c] ok a] by simp
qed

subsection \<open>A card in memory\<close>

definition CARD_SECTORS :: nat where
  "CARD_SECTORS = DATA_REGION_START_SECTOR + TOTAL_DATABASE_SECTOR_SIZE"

text \<open>Its second poll finds it ready.\<close>

definition memory_hal :: "(nat \<Rightarrow> byte list) SdHal" where
  "memory_hal = \<lparr>HAL_SD_GetCardInfo = \<lambda>_. Some CARD_SECTORS,
     HAL_SD_ReadBlocks = \<lambda>h i n. if i + n \<le> CARD_SECTORS then Some (concat (map h [i..<i + n])) else None,
     HAL_SD_WriteBlocks = \<lambda>h b i n. if i + n \<le> CARD_SECTORS
       then (True, \<lambda>j. if i \<le> j \<and> j < i + n then slice ((j - i) * 512) 512 b else h j) else (False, h),
     HAL_SD_CARD_TRANSFER = \<lambda>_ k. 1 \<le> k\<rparr>"

definition formatted_card :: "(nat \<Rightarrow> byte list) \<Rightarrow> bool" where
  "formatted_card h \<longleftrightarrow> (\<forall>i. length (h i) = 512)"

lemma memory_card: "sd_card memory_hal formatted_card id"
proof -
  have "length (slice ((j - i) * 512) 512 b) = 512" if "length b = n * 512" "i \<le> j" "j < i + n" for b :: "byte list" and i j n
  proof -
    have "Suc (j - i) * 512 \<le> n * 512" using that(2,3) by (intro mult_le_mono1) simp
    then show ?thesis using that(1) by (simp add: slice_def)
  qed
  then have "sd_writes memory_hal formatted_card id"
    by (auto simp: sd_writes_def memory_hal_def formatted_card_def split: if_splits)
  moreover have "sd_status memory_hal formatted_card id"
    by (auto simp: sd_status_def memory_hal_def formatted_card_def CARD_SECTORS_def layout)
  ultimately show ?thesis
    by (auto simp: sd_card_def sd_reads_def sd_in_range_def memory_hal_def split: if_splits)
qed

definition zero_card :: "nat \<Rightarrow> byte list" where
  "zero_card _ = replicate 512 0"

definition sd_ram :: "(nat \<Rightarrow> byte list) SDStorageContext Database" where
  "sd_ram = \<lparr>db_pers = \<lparr>dev = the (SDStorage_Init memory_hal zero_card 0 SECTOR_SIZE), usage_bitmap = [], journal = journal_cleared\<rparr>,
     db_htable = db_htable blank_db, db_message_history = empty_ring 0, db_call_history = empty_ring 0,
     db_name_index = db_name_index blank_db, db_chat_order = db_chat_order blank_db\<rparr>"

lemma sd_ram_ok: "arrays_ok sd_ram"
  using blank_db_ok(3) by (simp add: arrays_ok_def sd_ram_def)

lemma blank_superheader:
  "sh_magic sh = SUPR_HEAD_BLANK_EMPTY \<or> sh_magic sh = SUPR_HEAD_BLANK_FULL \<Longrightarrow> get_superheader_status sh = SUPR_UNINITIALISED"
  by (auto simp: get_superheader_status_def layout)

lemma zero_card_ok:
  "formatted_card zero_card" "HAL_SD_GetCardInfo memory_hal zero_card = Some CARD_SECTORS"
  "DATA_REGION_START_SECTOR + TOTAL_DATABASE_SECTOR_SIZE \<le> CARD_SECTORS"
  "get_superheader_status (superheader_of (id zero_card SUPERHEADER_SECTOR)) = SUPR_UNINITIALISED"
proof -
  show "formatted_card zero_card" "HAL_SD_GetCardInfo memory_hal zero_card = Some CARD_SECTORS"
    "DATA_REGION_START_SECTOR + TOTAL_DATABASE_SECTOR_SIZE \<le> CARD_SECTORS"
    by (simp_all add: formatted_card_def zero_card_def memory_hal_def CARD_SECTORS_def)
  have "sh_magic (superheader_of (zero_card SUPERHEADER_SECTOR)) = 0"
    by (simp add: superheader_of_def zero_card_def slice_def rd32_def)
  then show "get_superheader_status (superheader_of (id zero_card SUPERHEADER_SECTOR)) = SUPR_UNINITIALISED"
    by (intro blank_superheader) (simp add: layout)
qed

end
