(* ===== verification/Crc_Stm32.thy ===== *)
theory Crc_Stm32
  imports Crc
begin

text \<open>
  The CRC of the target: \<^verbatim>\<open>source/app/src/crc_stm32.c\<close> on the CRC unit as
  \<^verbatim>\<open>firmware/Core/Src/crc.c\<close> sets it up.  The vendor's \<^verbatim>\<open>HAL_CRC_Calculate\<close> is a
  parameter; \<open>crc_unit_law\<close> states what the reference manual says of the unit: a register that
  takes each byte in at its upper end and is shifted to the left through the polynomial, with byte inversion in front of it and
  word inversion behind it.  The lemmas show that this is the mirror image of the software CRC, so
  both builds write the same trailers.
\<close>

subsection \<open>The configuration and the wrapper\<close>

datatype CRC_InputDataInversion = CRC_INPUTDATA_INVERSION_NONE | CRC_INPUTDATA_INVERSION_BYTE

datatype CRC_InputDataFormat = CRC_INPUTDATA_FORMAT_BYTES | CRC_INPUTDATA_FORMAT_HALFWORDS | CRC_INPUTDATA_FORMAT_WORDS

record CRC_HandleTypeDef =
  DefaultPolynomialUse :: bool
  DefaultInitValueUse :: bool
  InputDataInversionMode :: CRC_InputDataInversion
  OutputDataInversionMode :: bool
  InputDataFormat :: CRC_InputDataFormat

text \<open>What \<^verbatim>\<open>MX_CRC_Init\<close> puts into the handle \<^verbatim>\<open>hcrc\<close>.\<close>

definition MX_CRC_Init :: CRC_HandleTypeDef where
  "MX_CRC_Init = \<lparr>DefaultPolynomialUse = True, DefaultInitValueUse = True,
     InputDataInversionMode = CRC_INPUTDATA_INVERSION_BYTE, OutputDataInversionMode = True,
     InputDataFormat = CRC_INPUTDATA_FORMAT_BYTES\<rparr>"

definition crc32_stm32_calculate :: "(CRC_HandleTypeDef \<Rightarrow> byte list \<Rightarrow> nat \<Rightarrow> u32) \<Rightarrow> byte list \<Rightarrow> nat \<Rightarrow> u32" where
  "crc32_stm32_calculate HAL_CRC_Calculate data len =
     HAL_CRC_Calculate MX_CRC_Init data (to_u32 len) XOR 0xFFFFFFFF"

subsection \<open>The CRC unit\<close>

text \<open>One clock of the register, a byte, and a run over bytes.\<close>

definition unit_shift :: "u32 \<Rightarrow> u32 \<Rightarrow> u32" where
  "unit_shift poly r = (if bit r 31 then push_bit 1 r XOR poly else push_bit 1 r)"

definition unit_byte :: "u32 \<Rightarrow> u32 \<Rightarrow> byte \<Rightarrow> u32" where
  "unit_byte poly r b = (unit_shift poly ^^ 8) (r XOR push_bit 24 (ucast b))"

definition crc_unit :: "CRC_HandleTypeDef \<Rightarrow> byte list \<Rightarrow> u32" where
  "crc_unit h data =
     (let inp = (case InputDataInversionMode h of
                   CRC_INPUTDATA_INVERSION_NONE \<Rightarrow> data
                 | CRC_INPUTDATA_INVERSION_BYTE \<Rightarrow> map word_reverse data);
          r = fold (\<lambda>b r. unit_byte 0x04C11DB7 r b) inp 0xFFFFFFFF
      in if OutputDataInversionMode h then word_reverse r else r)"

definition crc_unit_law :: "(CRC_HandleTypeDef \<Rightarrow> byte list \<Rightarrow> nat \<Rightarrow> u32) \<Rightarrow> bool" where
  "crc_unit_law HAL_CRC_Calculate \<longleftrightarrow>
     (\<forall>h data len. DefaultPolynomialUse h \<and> DefaultInitValueUse h \<and> InputDataFormat h = CRC_INPUTDATA_FORMAT_BYTES \<longrightarrow>
        HAL_CRC_Calculate h data len = crc_unit h (take len data))"

subsection \<open>The unit mirrors the software\<close>

lemma word_reverse_xor: "word_reverse (a XOR b :: u32) = word_reverse a XOR word_reverse b"
  by (rule bit_eqI) (auto simp: bit_word_reverse_iff bit_xor_iff)

lemma word_reverse_push: "word_reverse (push_bit 1 r :: u32) = drop_bit 1 (word_reverse r)"
proof (rule bit_word_eqI)
  fix n assume n: "n < LENGTH(32)"
  have e: "31 - n = Suc (30 - n)" "30 - n < 31" if "n \<noteq> 31" using n that by simp_all
  show "bit (word_reverse (push_bit 1 r)) n = bit (drop_bit 1 (word_reverse r)) n"
    using n by (cases "n = 31")
      (simp_all only: bit_word_reverse_iff bit_push_bit_iff bit_drop_bit_eq o_apply, simp_all add: e bit_imp_le_length)
qed

lemma word_reverse_poly: "word_reverse (0x04C11DB7 :: u32) = CRC32_POLYNOMIAL"
  unfolding CRC32_POLYNOMIAL_def by code_simp

lemma unit_shift_mirror: "word_reverse (unit_shift 0x04C11DB7 r) = crc_round (word_reverse r)"
proof -
  have "(word_reverse r AND 1 \<noteq> 0) = bit r 31"
    by (simp add: and_one_eq odd_iff_mod_2_eq_one [symmetric] bit_0 [symmetric] bit_word_reverse_iff)
  then show ?thesis
    by (simp only: unit_shift_def crc_round_def word_reverse_xor word_reverse_push word_reverse_poly if_distrib [of word_reverse])
qed

lemma unit_shifts_mirror: "word_reverse ((unit_shift 0x04C11DB7 ^^ n) r) = crc_bits n (word_reverse r)"
  by (induction n arbitrary: r) (simp_all add: funpow_Suc_right unit_shift_mirror del: funpow.simps(2))

lemma word_reverse_byte: "word_reverse (push_bit 24 (ucast (word_reverse b)) :: u32) = ucast (b :: byte)"
proof (rule bit_word_eqI)
  fix n assume n: "n < LENGTH(32)"
  show "bit (word_reverse (push_bit 24 (ucast (word_reverse b)) :: u32)) n = bit (ucast b :: u32) n"
    using n bit_imp_le_length [of b n]
    by (auto simp only: bit_word_reverse_iff bit_push_bit_iff bit_ucast_iff) auto
qed

lemma unit_byte_mirror: "word_reverse (unit_byte 0x04C11DB7 r (word_reverse b)) = crc_byte (word_reverse r) b"
  by (simp only: unit_byte_def crc_byte_def unit_shifts_mirror word_reverse_xor word_reverse_byte)

lemma unit_run_mirror:
  "word_reverse (fold (\<lambda>b r. unit_byte 0x04C11DB7 r b) (map word_reverse bs) r) = crc_loop (word_reverse r) bs"
  by (induction bs arbitrary: r) (simp_all add: unit_byte_mirror)

lemma word_reverse_ones: "word_reverse (0xFFFFFFFF :: u32) = 0xFFFFFFFF"
  by code_simp

lemma crc_unit_software:
  "crc_unit MX_CRC_Init data XOR 0xFFFFFFFF = crc_loop CRC32_INITIAL_VALUE data XOR CRC32_FINAL_XOR"
  by (simp add: crc_unit_def MX_CRC_Init_def unit_run_mirror word_reverse_ones CRC32_INITIAL_VALUE_def CRC32_FINAL_XOR_def)

lemma crc_stm32_is_software:
  "crc_unit_law HAL_CRC_Calculate \<Longrightarrow> len < 2 ^ 32 \<Longrightarrow>
   crc32_stm32_calculate HAL_CRC_Calculate data len = crc32_calculate data len"
  using crc_unit_software [of "take len data"]
  by (simp add: crc_unit_law_def crc32_stm32_calculate_def crc32_calculate_def MX_CRC_Init_def)

end
