(* ===== verification/Ni_Index.thy ===== *)
theory Ni_Index
  imports Name_Order
begin

text \<open>
  What the two candidates for an ordered name index in \<^verbatim>\<open>source/benchmark/name_index\<close> share: the
  definitions of \<^verbatim>\<open>name_index_common.h\<close>, and the contract they are compared under.

  \<^item> The callback that compares full names is the argument \<open>tb\<close> of every operation: it reads a table of names
    that the caller changes between calls.  The locale \<open>tiebreak_order\<close> is what its comment promises.
  \<^item> An index stands for the list of its entries in order.  \<open>ix_insert\<close> and the others are the operations on
    that list; the locale \<open>name_index\<close> says that a candidate implements them, and \<open>two_indexes\<close> that two
    candidates give the same answers.
\<close>

subsection \<open>The shared definitions\<close>

definition NI_KEY_LEN :: nat where [simp]: "NI_KEY_LEN = 8"
definition NO_MESSAGE :: nat where [simp]: "NO_MESSAGE = 65535"
definition NI_NOT_FOUND :: nat where [simp]: "NI_NOT_FOUND = 65535"
definition NI_PROBE_SECTOR :: nat where [simp]: "NI_PROBE_SECTOR = 65534"
definition NI_MAX_CONTACTS :: nat where [simp]: "NI_MAX_CONTACTS = 10000"

record NiEntry =
  ne_key :: "byte list"
  ne_contact_index :: nat
  ne_message_index :: nat

definition ni_fold :: "byte \<Rightarrow> byte" where
  "ni_fold c = (if 65 \<le> c \<and> c \<le> 90 then c + (97 - 65) else c)"

text \<open>A name is the bytes before its NUL.\<close>

definition ni_make_key :: "byte list \<Rightarrow> byte list" where
  "ni_make_key name = (let k = map ni_fold (take NI_KEY_LEN name) in k @ replicate (NI_KEY_LEN - length k) 0)"

lemma length_ni_make_key [simp]: "length (ni_make_key name) = 8"
  by (simp add: ni_make_key_def Let_def)

definition ni_cmp :: "byte list \<Rightarrow> nat \<Rightarrow> byte list \<Rightarrow> nat \<Rightarrow> (nat \<Rightarrow> nat \<Rightarrow> int) \<Rightarrow> int" where
  "ni_cmp key_a sector_a key_b sector_b tiebreak =
     (let c = memcmp key_a key_b NI_KEY_LEN in if c \<noteq> 0 then c else tiebreak sector_a sector_b)"

subsection \<open>The order\<close>

text \<open>\<open>nm s\<close> is the full name of the contact in sector \<open>s\<close>, \<open>pn\<close> the name the probe stands for.\<close>

definition ni_rank :: "(nat \<Rightarrow> 'n) \<Rightarrow> byte list \<Rightarrow> nat \<Rightarrow> int list \<times> 'n \<times> nat" where
  "ni_rank nm key s = (map uint key, nm s, s)"

abbreviation entry_rank :: "(nat \<Rightarrow> 'n) \<Rightarrow> NiEntry \<Rightarrow> int list \<times> 'n \<times> nat" where
  "entry_rank nm e \<equiv> ni_rank nm (ne_key e) (ne_contact_index e)"

definition ni_name :: "(nat \<Rightarrow> 'n) \<Rightarrow> NiEntry \<Rightarrow> int list \<times> 'n" where
  "ni_name nm e = (map uint (ne_key e), nm (ne_contact_index e))"

lemma map_uint_eq [simp]: "map uint (a :: byte list) = map uint b \<longleftrightarrow> a = b"
  by (auto intro!: map_injective injI)

lemma ni_rank_eq [simp]: "ni_rank nm k s = ni_rank nm k' s' \<longleftrightarrow> k = k' \<and> s = s'"
  by (auto simp: ni_rank_def)

text \<open>A probe \<open>p\<close> is what the caller has set before a search: \<open>tb p\<close> is the callback then.\<close>

locale tiebreak_order =
  fixes tb :: "'p \<Rightarrow> nat \<Rightarrow> nat \<Rightarrow> int" and nm :: "nat \<Rightarrow> 'n::linorder" and pn :: "'p \<Rightarrow> 'n"
  assumes tb_sector: "a < NI_MAX_CONTACTS \<Longrightarrow> b < NI_MAX_CONTACTS \<Longrightarrow>
      (tb p a b < 0 \<longleftrightarrow> (nm a, a) < (nm b, b)) \<and> (tb p a b = 0 \<longleftrightarrow> a = b)"
    and tb_probe: "a < NI_MAX_CONTACTS \<Longrightarrow>
      (tb p a NI_PROBE_SECTOR < 0 \<longleftrightarrow> nm a < pn p) \<and> (tb p a NI_PROBE_SECTOR = 0 \<longleftrightarrow> nm a = pn p)"
begin

lemma ni_cmp_rank:
  assumes "length k = 8" "length k' = 8" "s < NI_MAX_CONTACTS" "s' < NI_MAX_CONTACTS"
  shows "ni_cmp k s k' s' (tb p) < 0 \<longleftrightarrow> ni_rank nm k s < ni_rank nm k' s'" "ni_cmp k s k' s' (tb p) = 0 \<longleftrightarrow> k = k' \<and> s = s'"
  using memcmp_order [OF assms(1,2)] tb_sector [OF assms(3,4), of p]
  by (auto simp: ni_cmp_def ni_rank_def Let_def)

lemma ni_cmp_probe:
  assumes "length k = 8" "length k' = 8" "s < NI_MAX_CONTACTS"
  shows "ni_cmp k s k' NI_PROBE_SECTOR (tb p) < 0 \<longleftrightarrow> (map uint k, nm s) < (map uint k', pn p)"
    "ni_cmp k s k' NI_PROBE_SECTOR (tb p) = 0 \<longleftrightarrow> k = k' \<and> nm s = pn p"
  using memcmp_order [OF assms(1,2)] tb_probe [OF assms(3), of p]
  by (auto simp: ni_cmp_def Let_def)

end

subsection \<open>The index as a sorted list\<close>

definition ix_wf :: "(nat \<Rightarrow> 'n::linorder) \<Rightarrow> NiEntry list \<Rightarrow> bool" where
  "ix_wf nm es \<longleftrightarrow> sorted_wrt (<) (map (entry_rank nm) es) \<and> length es \<le> NI_MAX_CONTACTS \<and>
     (\<forall>e \<in> set es. length (ne_key e) = 8 \<and> ne_contact_index e < NI_MAX_CONTACTS)"

definition ix_has :: "NiEntry list \<Rightarrow> byte list \<Rightarrow> nat \<Rightarrow> bool" where
  "ix_has es key s \<longleftrightarrow> (\<exists>e \<in> set es. ne_key e = key \<and> ne_contact_index e = s)"

definition ni_fresh :: "byte list \<Rightarrow> nat \<Rightarrow> NiEntry" where
  "ni_fresh key s = \<lparr>ne_key = key, ne_contact_index = s, ne_message_index = NO_MESSAGE\<rparr>"

definition ix_insert :: "(nat \<Rightarrow> 'n::linorder) \<Rightarrow> NiEntry list \<Rightarrow> byte list \<Rightarrow> nat \<Rightarrow> bool \<times> NiEntry list" where
  "ix_insert nm es key s =
     (if length es \<ge> NI_MAX_CONTACTS \<or> ix_has es key s then (False, es) else (True, insort_key (entry_rank nm) (ni_fresh key s) es))"

definition ix_remove :: "NiEntry list \<Rightarrow> byte list \<Rightarrow> nat \<Rightarrow> bool \<times> NiEntry list" where
  "ix_remove es key s = (ix_has es key s, filter (\<lambda>e. \<not> (ne_key e = key \<and> ne_contact_index e = s)) es)"

definition ix_set_message :: "NiEntry list \<Rightarrow> byte list \<Rightarrow> nat \<Rightarrow> nat \<Rightarrow> bool \<times> NiEntry list" where
  "ix_set_message es key s m =
     (ix_has es key s, map (\<lambda>e. if ne_key e = key \<and> ne_contact_index e = s then e\<lparr>ne_message_index := m\<rparr> else e) es)"

definition ix_find :: "(nat \<Rightarrow> 'n) \<Rightarrow> 'n \<Rightarrow> NiEntry list \<Rightarrow> byte list \<Rightarrow> nat" where
  "ix_find nm pn es key = (case find (\<lambda>e. ne_key e = key \<and> nm (ne_contact_index e) = pn) es of
     None \<Rightarrow> NI_NOT_FOUND | Some e \<Rightarrow> ne_contact_index e)"

definition ix_seek :: "(nat \<Rightarrow> 'n::linorder) \<Rightarrow> 'n \<Rightarrow> NiEntry list \<Rightarrow> byte list \<Rightarrow> NiEntry list" where
  "ix_seek nm pn es key = dropWhile (\<lambda>e. ni_name nm e < (map uint key, pn)) es"

definition ix_rebuild :: "(nat \<Rightarrow> 'n::linorder) \<Rightarrow> (byte list \<times> nat) list \<Rightarrow> NiEntry list" where
  "ix_rebuild nm kss = sort_key (entry_rank nm) (map (\<lambda>(key, s). ni_fresh key s) kss)"

lemma ix_wfD:
  assumes "ix_wf nm es"
  shows "sorted_wrt (<) (map (entry_rank nm) es)" "length es \<le> NI_MAX_CONTACTS"
    "e \<in> set es \<Longrightarrow> length (ne_key e) = 8" "e \<in> set es \<Longrightarrow> ne_contact_index e < NI_MAX_CONTACTS"
  using assms by (auto simp: ix_wf_def)

lemma ix_insert_wf:
  assumes w: "ix_wf nm es" and a: "length key = 8" "s < NI_MAX_CONTACTS" and i: "ix_insert nm es key s = (r, es')"
  shows "ix_wf nm es'"
proof (cases r)
  case False
  then show ?thesis using w i by (auto simp: ix_insert_def split: if_splits)
next
  case True
  then have c: "length es < NI_MAX_CONTACTS" "\<not> ix_has es key s" "es' = insort_key (entry_rank nm) (ni_fresh key s) es"
    using i by (auto simp: ix_insert_def split: if_splits)
  have "sorted (map (entry_rank nm) es')" "distinct (map (entry_rank nm) es')"
    using ix_wfD(1) [OF w] c(2) unfolding strict_sorted_iff
    by (auto simp: c(3) sorted_insort_key ix_has_def ni_fresh_def distinct_map distinct_insort set_insort_key inj_on_def)
  then show ?thesis using w a c(1) by (auto simp: ix_wf_def strict_sorted_iff c(3) set_insort_key ni_fresh_def)
qed


lemma ix_remove_wf:
  assumes "ix_wf nm es" and "ix_remove es key s = (r, es')"
  shows "ix_wf nm es'"
proof -
  have "es' = filter (\<lambda>e. \<not> (ne_key e = key \<and> ne_contact_index e = s)) es" using assms(2) by (simp add: ix_remove_def)
  then show ?thesis using ix_wfD [OF assms(1)] by (auto simp: ix_wf_def strict_sorted_iff sorted_filter distinct_map_filter intro: le_trans [OF length_filter_le])
qed

lemma ix_set_message_wf:
  assumes "ix_wf nm es" and "ix_set_message es key s m = (r, es')"
  shows "ix_wf nm es'"
proof -
  have e: "es' = map (\<lambda>e. if ne_key e = key \<and> ne_contact_index e = s then e\<lparr>ne_message_index := m\<rparr> else e) es"
    using assms(2) by (simp add: ix_set_message_def)
  have m: "map (entry_rank nm) es' = map (entry_rank nm) es" unfolding e by simp
  have "length es' = length es" "\<forall>e \<in> set es'. length (ne_key e) = 8 \<and> ne_contact_index e < NI_MAX_CONTACTS"
    using ix_wfD(3,4) [OF assms(1)] by (auto simp: e)
  then show ?thesis using assms(1) unfolding ix_wf_def m by (simp only: simp_thms)
qed

definition ix_rebuild_ok :: "(byte list \<times> nat) list \<Rightarrow> bool" where
  "ix_rebuild_ok kss \<longleftrightarrow> distinct kss \<and> length kss \<le> NI_MAX_CONTACTS \<and> (\<forall>(key, s) \<in> set kss. length key = 8 \<and> s < NI_MAX_CONTACTS)"

lemma ix_rebuild_wf:
  assumes "ix_rebuild_ok kss"
  shows "ix_wf nm (ix_rebuild nm kss)"
proof -
  let ?es = "map (\<lambda>(key, s). ni_fresh key s) kss"
  have "distinct (map (entry_rank nm) ?es)"
    using assms by (auto simp: ix_rebuild_ok_def distinct_map inj_on_def ni_fresh_def o_def split: prod.splits)
  then have "distinct (map (entry_rank nm) (ix_rebuild nm kss))" by (simp only: ix_rebuild_def distinct_map distinct_sort set_sort)
  moreover have "sorted (map (entry_rank nm) (ix_rebuild nm kss))" by (simp add: ix_rebuild_def)
  moreover have "\<forall>e \<in> set (ix_rebuild nm kss). length (ne_key e) = 8 \<and> ne_contact_index e < NI_MAX_CONTACTS"
    using assms by (auto simp: ix_rebuild_def ix_rebuild_ok_def ni_fresh_def)
  moreover have "length (ix_rebuild nm kss) \<le> NI_MAX_CONTACTS" using assms by (simp add: ix_rebuild_def ix_rebuild_ok_def)
  ultimately show ?thesis by (simp only: ix_wf_def strict_sorted_iff simp_thms)
qed

text \<open>Where the entries below a rank end, an entry of that rank goes in and one of that rank is found.\<close>

lemma insort_key_between:
  assumes "\<And>a. a \<in> set as \<Longrightarrow> f a < f x" and "\<And>b. b \<in> set bs \<Longrightarrow> f x < f b"
  shows "insort_key f x (as @ bs) = as @ x # bs"
  using assms
proof (induction as)
  case Nil
  then show ?case by (cases bs) (simp_all add: less_imp_le)
next
  case (Cons a as)
  then show ?case by (force simp: not_le)
qed

lemma ix_insert_between:
  assumes "length (as @ bs) < NI_MAX_CONTACTS" and "\<And>a. a \<in> set as \<Longrightarrow> entry_rank nm a < ni_rank nm key s"
    and "\<And>b. b \<in> set bs \<Longrightarrow> ni_rank nm key s < entry_rank nm b"
  shows "ix_insert nm (as @ bs) key s = (True, as @ ni_fresh key s # bs)"
proof -
  have f: "entry_rank nm (ni_fresh key s) = ni_rank nm key s" by (simp add: ni_fresh_def)
  have "\<not> ix_has (as @ bs) key s" using assms(2,3) by (force simp: ix_has_def)
  moreover have "insort_key (entry_rank nm) (ni_fresh key s) (as @ bs) = as @ ni_fresh key s # bs"
    by (rule insort_key_between) (use assms(2,3) in \<open>simp_all only: f\<close>)
  ultimately show ?thesis using assms(1) by (simp add: ix_insert_def)
qed

lemma map_untouched: "(\<And>x. x \<in> set xs \<Longrightarrow> \<not> P x) \<Longrightarrow> map (\<lambda>x. if P x then f x else x) xs = xs"
  by (induction xs) simp_all

lemma ix_present:
  assumes "ix_wf nm (as @ e # bs)" and "ne_key e = key" and "ne_contact_index e = s"
  shows "ix_has (as @ e # bs) key s" "ix_insert nm (as @ e # bs) key s = (False, as @ e # bs)"
    "ix_remove (as @ e # bs) key s = (True, as @ bs)"
    "ix_set_message (as @ e # bs) key s m = (True, as @ e\<lparr>ne_message_index := m\<rparr> # bs)"
proof -
  show h: "ix_has (as @ e # bs) key s" using assms(2,3) by (simp add: ix_has_def)
  then show "ix_insert nm (as @ e # bs) key s = (False, as @ e # bs)" by (simp add: ix_insert_def)
  have "distinct (map (entry_rank nm) (as @ e # bs))" using ix_wfD(1) [OF assms(1)] by (simp only: strict_sorted_iff)
  then have d: "entry_rank nm e \<notin> entry_rank nm ` (set as \<union> set bs)" by auto
  have o: "\<not> (ne_key x = key \<and> ne_contact_index x = s)" if x: "x \<in> set as \<union> set bs" for x
  proof
    assume "ne_key x = key \<and> ne_contact_index x = s"
    then have "entry_rank nm x = entry_rank nm e" using assms(2,3) by simp
    then show False using d imageI [OF x, of "entry_rank nm"] by (simp only:)
  qed
  have "filter (\<lambda>x. \<not> (ne_key x = key \<and> ne_contact_index x = s)) as = as" "filter (\<lambda>x. \<not> (ne_key x = key \<and> ne_contact_index x = s)) bs = bs"
    using o by (auto simp: filter_id_conv)
  then show "ix_remove (as @ e # bs) key s = (True, as @ bs)" using h assms(2,3) by (simp add: ix_remove_def)
  have "map (\<lambda>x. if ne_key x = key \<and> ne_contact_index x = s then x\<lparr>ne_message_index := m\<rparr> else x) as = as"
    "map (\<lambda>x. if ne_key x = key \<and> ne_contact_index x = s then x\<lparr>ne_message_index := m\<rparr> else x) bs = bs"
    by (rule map_untouched, use o in simp)+
  then show "ix_set_message (as @ e # bs) key s m = (True, as @ e\<lparr>ne_message_index := m\<rparr> # bs)"
    using h assms(2,3) by (simp add: ix_set_message_def)
qed

lemma ix_absent:
  assumes "\<not> ix_has es key s"
  shows "ix_remove es key s = (False, es)" "ix_set_message es key s m = (False, es)"
  using assms by (auto simp: ix_remove_def ix_set_message_def ix_has_def filter_id_conv intro!: map_idI)

lemma ix_wf_names:
  assumes "ix_wf nm es"
  shows "sorted (map (ni_name nm) es)"
proof -
  have "ni_name nm a \<le> ni_name nm b" if "entry_rank nm a < entry_rank nm b" for a b
    using that by (auto simp: ni_name_def ni_rank_def)
  then show ?thesis using ix_wfD(1) [OF assms] by (auto simp: sorted_wrt_map elim: sorted_wrt_mono_rel [rotated])
qed

lemma ix_seek_split:
  assumes "ix_wf nm (as @ bs)" and "\<And>a. a \<in> set as \<Longrightarrow> ni_name nm a < (map uint key, pn)"
    and "\<And>b. b \<in> set bs \<Longrightarrow> \<not> ni_name nm b < (map uint key, pn)"
  shows "ix_seek nm pn (as @ bs) key = bs"
    "ix_find nm pn (as @ bs) key =
       (case bs of b # _ \<Rightarrow> if ni_name nm b = (map uint key, pn) then ne_contact_index b else NI_NOT_FOUND | [] \<Rightarrow> NI_NOT_FOUND)"
proof -
  show "ix_seek nm pn (as @ bs) key = bs"
    using assms(2,3) by (cases bs) (auto simp: ix_seek_def dropWhile_append)
  let ?P = "\<lambda>e. ne_key e = key \<and> nm (ne_contact_index e) = pn"
  have P: "?P e \<longleftrightarrow> ni_name nm e = (map uint key, pn)" for e by (simp add: ni_name_def)
  have a: "find ?P as = None" using assms(2) unfolding P find_None_iff by force
  have "find ?P (as @ bs) = (case find ?P as of None \<Rightarrow> find ?P bs | Some e \<Rightarrow> Some e)" by (induction as) simp_all
  then have f: "ix_find nm pn (as @ bs) key = ix_find nm pn bs key" using a by (simp add: ix_find_def)
  show "ix_find nm pn (as @ bs) key =
      (case bs of b # _ \<Rightarrow> if ni_name nm b = (map uint key, pn) then ne_contact_index b else NI_NOT_FOUND | [] \<Rightarrow> NI_NOT_FOUND)"
  proof (cases bs)
    case Nil
    show ?thesis unfolding f unfolding Nil by (simp add: ix_find_def)
  next
    case (Cons b bs')
    show ?thesis
    proof (cases "ni_name nm b = (map uint key, pn)")
      case True
      then show ?thesis unfolding f unfolding Cons using P [of b] by (simp add: ix_find_def)
    next
      case False
      then have "(map uint key, pn) < ni_name nm b" using assms(3) [of b] Cons by (metis list.set_intros(1) not_less_iff_gr_or_eq)
      moreover have "ni_name nm b \<le> ni_name nm b'" if "b' \<in> set bs'" for b'
        using ix_wf_names [OF assms(1)] that by (auto simp: Cons sorted_append)
      ultimately have "(map uint key, pn) < ni_name nm x" if "x \<in> set bs" for x
        using that by (auto simp: Cons intro: less_le_trans)
      then have "find ?P bs = None" unfolding P find_None_iff by (metis less_irrefl)
      then show ?thesis unfolding f using False by (simp add: ix_find_def Cons)
    qed
  qed
qed

subsection \<open>The contract of a candidate\<close>

text \<open>
  The operations a candidate offers.  A page is what the reader collects with at most \<open>n\<close> calls of next after a
  seek.  An operation that does not return is \<open>None\<close>.
\<close>

record 't NiCandidate =
  ni_insert :: "'t \<Rightarrow> byte list \<Rightarrow> nat \<Rightarrow> (bool \<times> 't) option"
  ni_remove :: "'t \<Rightarrow> byte list \<Rightarrow> nat \<Rightarrow> (bool \<times> 't) option"
  ni_set_message :: "'t \<Rightarrow> byte list \<Rightarrow> nat \<Rightarrow> nat \<Rightarrow> (bool \<times> 't) option"
  ni_rebuild :: "'t \<Rightarrow> (byte list \<times> nat) list \<Rightarrow> (bool \<times> 't) option"
  ni_find :: "'t \<Rightarrow> byte list \<Rightarrow> nat option"
  ni_count :: "'t \<Rightarrow> nat"
  ni_name_page :: "'t \<Rightarrow> byte list \<Rightarrow> nat \<Rightarrow> NiEntry list option"
  ni_rank_page :: "'t \<Rightarrow> nat \<Rightarrow> nat \<Rightarrow> NiEntry list option"

datatype NiOp = NiInsert "byte list" nat | NiRemove "byte list" nat | NiSetMessage "byte list" nat nat
  | NiRebuild "(byte list \<times> nat) list" | NiFind "byte list" | NiCount | NiNamePage "byte list" nat | NiRankPage nat nat

datatype NiAnswer = NiBool bool | NiNumber nat | NiEntries "NiEntry list"

definition keyed :: "(byte list \<times> nat) list \<Rightarrow> (byte list \<times> nat) list" where
  "keyed nss = map (\<lambda>(name, s). (ni_make_key name, s)) nss"

lemma length_keyed [simp]: "length (keyed nss) = length nss"
  by (simp add: keyed_def)

fun ni_op_ok :: "NiOp \<Rightarrow> bool" where
  "ni_op_ok (NiInsert name s) = (s < NI_MAX_CONTACTS)"
| "ni_op_ok (NiRemove name s) = (s < NI_MAX_CONTACTS)"
| "ni_op_ok (NiSetMessage name s m) = (s < NI_MAX_CONTACTS)"
| "ni_op_ok (NiRebuild nss) = (length nss > NI_MAX_CONTACTS \<or> ix_rebuild_ok (keyed nss))"
| "ni_op_ok _ = True"

fun ni_call :: "'t NiCandidate \<Rightarrow> 't \<Rightarrow> NiOp \<Rightarrow> (NiAnswer \<times> 't) option" where
  "ni_call I t (NiInsert name s) = map_option (map_prod NiBool id) (ni_insert I t name s)"
| "ni_call I t (NiRemove name s) = map_option (map_prod NiBool id) (ni_remove I t name s)"
| "ni_call I t (NiSetMessage name s m) = map_option (map_prod NiBool id) (ni_set_message I t name s m)"
| "ni_call I t (NiRebuild nss) = map_option (map_prod NiBool id) (ni_rebuild I t nss)"
| "ni_call I t (NiFind name) = map_option (\<lambda>s. (NiNumber s, t)) (ni_find I t name)"
| "ni_call I t NiCount = Some (NiNumber (ni_count I t), t)"
| "ni_call I t (NiNamePage name n) = map_option (\<lambda>es. (NiEntries es, t)) (ni_name_page I t name n)"
| "ni_call I t (NiRankPage rank n) = map_option (\<lambda>es. (NiEntries es, t)) (ni_rank_page I t rank n)"

text \<open>What the list answers.\<close>

fun ix_call :: "(nat \<Rightarrow> 'n::linorder) \<Rightarrow> 'n \<Rightarrow> NiEntry list \<Rightarrow> NiOp \<Rightarrow> NiAnswer \<times> NiEntry list" where
  "ix_call nm pn es (NiInsert name s) = map_prod NiBool id (ix_insert nm es (ni_make_key name) s)"
| "ix_call nm pn es (NiRemove name s) = map_prod NiBool id (ix_remove es (ni_make_key name) s)"
| "ix_call nm pn es (NiSetMessage name s m) = map_prod NiBool id (ix_set_message es (ni_make_key name) s m)"
| "ix_call nm pn es (NiRebuild nss) =
     (if length nss > NI_MAX_CONTACTS then (NiBool False, []) else (NiBool True, ix_rebuild nm (keyed nss)))"
| "ix_call nm pn es (NiFind name) = (NiNumber (ix_find nm pn es (ni_make_key name)), es)"
| "ix_call nm pn es NiCount = (NiNumber (length es), es)"
| "ix_call nm pn es (NiNamePage name n) = (NiEntries (take n (ix_seek nm pn es (ni_make_key name))), es)"
| "ix_call nm pn es (NiRankPage rank n) = (NiEntries (take n (drop rank es)), es)"

locale name_index = tiebreak_order tb nm pn
  for tb :: "'p \<Rightarrow> nat \<Rightarrow> nat \<Rightarrow> int" and nm :: "nat \<Rightarrow> 'n::linorder" and pn :: "'p \<Rightarrow> 'n" +
  fixes I :: "'p \<Rightarrow> 't NiCandidate" and ok :: "'t \<Rightarrow> bool" and entries :: "'t \<Rightarrow> NiEntry list"
  assumes ok_wf: "ok t \<Longrightarrow> ix_wf nm (entries t)"
    and insert_law: "ok t \<Longrightarrow> s < NI_MAX_CONTACTS \<Longrightarrow>
      \<exists>r t'. ni_insert (I p) t name s = Some (r, t') \<and> ok t' \<and> (r, entries t') = ix_insert nm (entries t) (ni_make_key name) s"
    and remove_law: "ok t \<Longrightarrow> s < NI_MAX_CONTACTS \<Longrightarrow>
      \<exists>r t'. ni_remove (I p) t name s = Some (r, t') \<and> ok t' \<and> (r, entries t') = ix_remove (entries t) (ni_make_key name) s"
    and set_message_law: "ok t \<Longrightarrow> s < NI_MAX_CONTACTS \<Longrightarrow>
      \<exists>r t'. ni_set_message (I p) t name s m = Some (r, t') \<and> ok t' \<and> (r, entries t') = ix_set_message (entries t) (ni_make_key name) s m"
    and rebuild_law: "ok t \<Longrightarrow> ix_rebuild_ok (keyed nss) \<Longrightarrow>
      \<exists>t'. ni_rebuild (I p) t nss = Some (True, t') \<and> ok t' \<and> entries t' = ix_rebuild nm (keyed nss)"
    and rebuild_full_law: "ok t \<Longrightarrow> length nss > NI_MAX_CONTACTS \<Longrightarrow> \<exists>t'. ni_rebuild (I p) t nss = Some (False, t') \<and> ok t' \<and> entries t' = []"
    and find_law: "ok t \<Longrightarrow> ni_find (I p) t name = Some (ix_find nm (pn p) (entries t) (ni_make_key name))"
    and count_law: "ok t \<Longrightarrow> ni_count (I p) t = length (entries t)"
    and name_page_law: "ok t \<Longrightarrow> ni_name_page (I p) t name n = Some (take n (ix_seek nm (pn p) (entries t) (ni_make_key name)))"
    and rank_page_law: "ok t \<Longrightarrow> ni_rank_page (I p) t rank n = Some (take n (drop rank (entries t)))"
begin

lemma call_refines:
  assumes "ok t" and "ni_op_ok op"
  shows "\<exists>a t'. ni_call (I p) t op = Some (a, t') \<and> ok t' \<and> (a, entries t') = ix_call nm (pn p) (entries t) op"
proof (cases op)
  case (NiInsert name s)
  with assms(2) have "s < NI_MAX_CONTACTS" by simp
  from insert_law [OF assms(1) this, where name = name and p = p] obtain r t' where
    "ni_insert (I p) t name s = Some (r, t')" "ok t'" "ix_insert nm (entries t) (ni_make_key name) s = (r, entries t')" by auto
  then show ?thesis by (simp add: NiInsert)
next
  case (NiRemove name s)
  with assms(2) have "s < NI_MAX_CONTACTS" by simp
  from remove_law [OF assms(1) this, where name = name and p = p] obtain r t' where
    "ni_remove (I p) t name s = Some (r, t')" "ok t'" "ix_remove (entries t) (ni_make_key name) s = (r, entries t')" by auto
  then show ?thesis by (simp add: NiRemove)
next
  case (NiSetMessage name s m)
  with assms(2) have "s < NI_MAX_CONTACTS" by simp
  from set_message_law [OF assms(1) this, where name = name and m = m and p = p] obtain r t' where
    "ni_set_message (I p) t name s m = Some (r, t')" "ok t'" "ix_set_message (entries t) (ni_make_key name) s m = (r, entries t')" by auto
  then show ?thesis by (simp add: NiSetMessage)
next
  case (NiRebuild nss)
  show ?thesis
  proof (cases "length nss > NI_MAX_CONTACTS")
    case True
    from rebuild_full_law [OF assms(1) this, where p = p] obtain t' where "ni_rebuild (I p) t nss = Some (False, t')" "ok t'" "entries t' = []" by blast
    then show ?thesis using True by (simp add: NiRebuild)
  next
    case False
    then have "ix_rebuild_ok (keyed nss)" using assms(2) by (simp add: NiRebuild)
    from rebuild_law [OF assms(1) this, where p = p] obtain t'
      where "ni_rebuild (I p) t nss = Some (True, t')" "ok t'" "entries t' = ix_rebuild nm (keyed nss)" by blast
    then show ?thesis using False by (simp add: NiRebuild)
  qed
qed (use assms find_law count_law name_page_law rank_page_law in \<open>simp_all\<close>)

end

text \<open>A run of calls with the probes set before them, up to the first that does not return, and the same run of the list.\<close>

fun ni_calls :: "('p \<Rightarrow> 't NiCandidate) \<Rightarrow> 't \<Rightarrow> ('p \<times> NiOp) list \<Rightarrow> (NiAnswer list \<times> 't) option" where
  "ni_calls I t [] = Some ([], t)"
| "ni_calls I t ((p, op) # ops) =
     (case ni_call (I p) t op of
        None \<Rightarrow> None
      | Some (a, t') \<Rightarrow> map_option (map_prod (Cons a) id) (ni_calls I t' ops))"

fun ix_calls :: "(nat \<Rightarrow> 'n::linorder) \<Rightarrow> ('p \<Rightarrow> 'n) \<Rightarrow> NiEntry list \<Rightarrow> ('p \<times> NiOp) list \<Rightarrow> NiAnswer list \<times> NiEntry list" where
  "ix_calls nm pn es [] = ([], es)"
| "ix_calls nm pn es ((p, op) # ops) = (case ix_call nm (pn p) es op of (a, es') \<Rightarrow> map_prod (Cons a) id (ix_calls nm pn es' ops))"

context name_index begin

lemma calls_refine:
  "ok t \<Longrightarrow> list_all (\<lambda>(p, op). ni_op_ok op) ops \<Longrightarrow>
   \<exists>answers t'. ni_calls I t ops = Some (answers, t') \<and> ok t' \<and> (answers, entries t') = ix_calls nm pn (entries t) ops"
proof (induction ops arbitrary: t)
  case (Cons pop ops)
  obtain p op where pop: "pop = (p, op)" by (meson surj_pair)
  have "ni_op_ok op" using Cons.prems(2) by (simp add: pop)
  from call_refines [OF Cons.prems(1) this, of p] obtain a t'
    where c: "ni_call (I p) t op = Some (a, t')" "ok t'" "ix_call nm (pn p) (entries t) op = (a, entries t')" by auto
  from Cons.IH [OF c(2)] Cons.prems(2) obtain answers t'' where
    r: "ni_calls I t' ops = Some (answers, t'')" "ok t''" "ix_calls nm pn (entries t') ops = (answers, entries t'')" by auto
  then show ?case by (simp add: c r pop)
qed simp

end

text \<open>Two candidates under the same order answer alike and stay in step.\<close>

locale two_indexes = A: name_index tb nm pn I ok entries + B: name_index tb nm pn J okB entriesB
  for tb :: "'p \<Rightarrow> nat \<Rightarrow> nat \<Rightarrow> int" and nm :: "nat \<Rightarrow> 'n::linorder" and pn :: "'p \<Rightarrow> 'n"
    and I :: "'p \<Rightarrow> 'a NiCandidate" and ok entries and J :: "'p \<Rightarrow> 'b NiCandidate" and okB entriesB
begin

lemma same_answers:
  assumes "ok t" and "okB u" and "entries t = entriesB u" and "list_all (\<lambda>(p, op). ni_op_ok op) ops"
  shows "\<exists>answers t' u'. ni_calls I t ops = Some (answers, t') \<and> ni_calls J u ops = Some (answers, u') \<and>
    ok t' \<and> okB u' \<and> entries t' = entriesB u'"
  using A.calls_refine [OF assms(1,4)] B.calls_refine [OF assms(2,4)] assms(3) by (metis prod.inject)

end

end
