(* ===== verification/Avl_Shape.thy ===== *)
theory Avl_Shape
  imports Ni_Index "HOL-Library.Tree"
begin

text \<open>
  AVL trees as a datatype: what the pointer routines of \<^verbatim>\<open>avl_tree.c\<close> do to the shape of a tree whose nodes are
  numbers.  The routines themselves are in \<^verbatim>\<open>Avl_Pool\<close>; here are the shapes they compute, that those are balanced
  and in order, and how high a balanced tree of 10000 nodes can be.
\<close>

subsection \<open>Balance\<close>

fun avl_shape :: "nat tree \<Rightarrow> bool" where
  "avl_shape Leaf = True"
| "avl_shape (Node l i r) = (height l \<le> height r + 1 \<and> height r \<le> height l + 1 \<and> avl_shape l \<and> avl_shape r)"

fun rot_right :: "nat tree \<Rightarrow> nat tree" where
  "rot_right (Node (Node a x b) y c) = Node a x (Node b y c)"
| "rot_right t = t"

fun rot_left :: "nat tree \<Rightarrow> nat tree" where
  "rot_left (Node a x (Node b y c)) = Node (Node a x b) y c"
| "rot_left t = t"

fun bal :: "nat tree \<Rightarrow> nat tree" where
  "bal Leaf = Leaf"
| "bal (Node l i r) =
     (if height l > height r + 1 then rot_right (Node (if height (left l) < height (right l) then rot_left l else l) i r)
      else if height r > height l + 1 then rot_left (Node l i (if height (right r) < height (left r) then rot_right r else r))
      else Node l i r)"

lemma inorder_rot [simp]: "inorder (rot_right t) = inorder t" "inorder (rot_left t) = inorder t"
  by (cases t rule: rot_right.cases, simp_all) (cases t rule: rot_left.cases, simp_all)

lemma inorder_rot_child:
  "inorder (rot_right (Node (rot_left l) i r)) = inorder l @ i # inorder r"
  "inorder (rot_left (Node l i (rot_right r))) = inorder l @ i # inorder r"
  by simp_all

lemma inorder_bal [simp]: "inorder (bal t) = inorder t"
  by (cases t) (simp_all add: inorder_rot_child)

lemma set_bal [simp]: "set_tree (bal t) = set_tree t"
  by (metis inorder_bal set_inorder)

lemma bal_avl [simp]: "avl_shape (Node l i r) \<Longrightarrow> bal (Node l i r) = Node l i r"
  by simp

lemma height_pos_node: "0 < height t \<Longrightarrow> \<exists>l i r. t = Node l i r"
  by (cases t) simp_all

lemma bal_left_heavy:
  assumes "avl_shape l" and "avl_shape r" and "height l = height r + 2"
  shows "avl_shape (bal (Node l i r)) \<and> height (bal (Node l i r)) \<in> {height l, height l + 1}"
proof -
  obtain a x b where l: "l = Node a x b" using height_pos_node [of l] assms(3) by auto
  show ?thesis
  proof (cases "height a < height b")
    case True
    then obtain b1 y b2 where b: "b = Node b1 y b2" using height_pos_node [of b] by auto
    show ?thesis using assms True unfolding l b by (auto simp: max_def split: if_splits)
  next
    case False
    then show ?thesis using assms unfolding l by (auto simp: max_def split: if_splits)
  qed
qed

lemma bal_right_heavy:
  assumes "avl_shape l" and "avl_shape r" and "height r = height l + 2"
  shows "avl_shape (bal (Node l i r)) \<and> height (bal (Node l i r)) \<in> {height r, height r + 1}"
proof -
  obtain a x b where r: "r = Node a x b" using height_pos_node [of r] assms(3) by auto
  show ?thesis
  proof (cases "height b < height a")
    case True
    then obtain b1 y b2 where a: "a = Node b1 y b2" using height_pos_node [of a] by auto
    show ?thesis using assms True unfolding r a by (auto simp: max_def split: if_splits)
  next
    case False
    then show ?thesis using assms unfolding r by (auto simp: max_def split: if_splits)
  qed
qed

lemma bal_avl_shape:
  assumes "avl_shape l" and "avl_shape r" and "height l \<le> height r + 2" and "height r \<le> height l + 2"
  shows "avl_shape (bal (Node l i r))" "height (bal (Node l i r)) \<le> max (height l) (height r) + 1"
    "max (height l) (height r) \<le> height (bal (Node l i r))"
    "height l \<le> height r + 1 \<Longrightarrow> height r \<le> height l + 1 \<Longrightarrow> bal (Node l i r) = Node l i r"
proof -
  consider "height l = height r + 2" | "height r = height l + 2" | "height l \<le> height r + 1" "height r \<le> height l + 1"
    using assms(3,4) by linarith
  then have "avl_shape (bal (Node l i r)) \<and> height (bal (Node l i r)) \<le> max (height l) (height r) + 1 \<and>
      max (height l) (height r) \<le> height (bal (Node l i r))"
  proof cases
    case 1
    then show ?thesis using bal_left_heavy [OF assms(1,2) 1, of i] by auto
  next
    case 2
    then show ?thesis using bal_right_heavy [OF assms(1,2) 2, of i] by auto
  next
    case 3
    then show ?thesis using assms by (auto simp: max_def bal.simps)
  qed
  then show "avl_shape (bal (Node l i r))" "height (bal (Node l i r)) \<le> max (height l) (height r) + 1"
    "max (height l) (height r) \<le> height (bal (Node l i r))" by blast+
qed simp

text \<open>Replacing a subtree by one whose height differs by at most one leaves work for \<open>bal\<close> at most.\<close>

lemma bal_grown:
  assumes "avl_shape (Node l i r)"
  shows "avl_shape l' \<Longrightarrow> height l' \<in> {height l, height l + 1} \<Longrightarrow>
      avl_shape (bal (Node l' i r)) \<and> height (bal (Node l' i r)) \<in> {height (Node l i r), height (Node l i r) + 1}"
    "avl_shape r' \<Longrightarrow> height r' \<in> {height r, height r + 1} \<Longrightarrow>
      avl_shape (bal (Node l i r')) \<and> height (bal (Node l i r')) \<in> {height (Node l i r), height (Node l i r) + 1}"
proof -
  assume a: "avl_shape l'" "height l' \<in> {height l, height l + 1}"
  have b: "avl_shape r" "height l' \<le> height r + 2" "height r \<le> height l' + 2" using assms a by auto
  show "avl_shape (bal (Node l' i r)) \<and> height (bal (Node l' i r)) \<in> {height (Node l i r), height (Node l i r) + 1}"
    using bal_avl_shape [OF a(1) b, of i] assms a(2) by (auto simp: max_def simp del: bal.simps split: if_splits)
next
  assume a: "avl_shape r'" "height r' \<in> {height r, height r + 1}"
  have b: "avl_shape l" "height l \<le> height r' + 2" "height r' \<le> height l + 2" using assms a by auto
  show "avl_shape (bal (Node l i r')) \<and> height (bal (Node l i r')) \<in> {height (Node l i r), height (Node l i r) + 1}"
    using bal_avl_shape [OF b(1) a(1) b(2,3), of i] assms a(2) by (auto simp: max_def simp del: bal.simps split: if_splits)
qed

lemma bal_shrunk:
  assumes "avl_shape (Node l i r)"
  shows "avl_shape l' \<Longrightarrow> height l \<in> {height l', height l' + 1} \<Longrightarrow>
      avl_shape (bal (Node l' j r)) \<and> height (Node l i r) \<in> {height (bal (Node l' j r)), height (bal (Node l' j r)) + 1}"
    "avl_shape r' \<Longrightarrow> height r \<in> {height r', height r' + 1} \<Longrightarrow>
      avl_shape (bal (Node l j r')) \<and> height (Node l i r) \<in> {height (bal (Node l j r')), height (bal (Node l j r')) + 1}"
proof -
  assume a: "avl_shape l'" "height l \<in> {height l', height l' + 1}"
  have b: "avl_shape r" "height l' \<le> height r + 2" "height r \<le> height l' + 2" using assms a by auto
  show "avl_shape (bal (Node l' j r)) \<and> height (Node l i r) \<in> {height (bal (Node l' j r)), height (bal (Node l' j r)) + 1}"
    using bal_avl_shape [OF a(1) b, of j] assms a(2) by (auto simp: max_def simp del: bal.simps split: if_splits)
next
  assume a: "avl_shape r'" "height r \<in> {height r', height r' + 1}"
  have b: "avl_shape l" "height l \<le> height r' + 2" "height r' \<le> height l + 2" using assms a by auto
  show "avl_shape (bal (Node l j r')) \<and> height (Node l i r) \<in> {height (bal (Node l j r')), height (bal (Node l j r')) + 1}"
    using bal_avl_shape [OF b(1) a(1) b(2,3), of j] assms a(2) by (auto simp: max_def simp del: bal.simps split: if_splits)
qed

declare bal.simps(2) [simp del]

subsection \<open>Insertion and removal\<close>

text \<open>\<open>f\<close> compares what is inserted or removed with a node.\<close>

fun ins_shape :: "(nat \<Rightarrow> int) \<Rightarrow> nat \<Rightarrow> nat tree \<Rightarrow> nat tree" where
  "ins_shape f x Leaf = Node Leaf x Leaf"
| "ins_shape f x (Node l i r) =
     (if f i = 0 then Node l i r
      else if f i < 0 then bal (Node (ins_shape f x l) i r) else bal (Node l i (ins_shape f x r)))"

fun remmin_shape :: "nat tree \<Rightarrow> nat \<times> nat tree" where
  "remmin_shape Leaf = (0, Leaf)"
| "remmin_shape (Node Leaf i r) = (i, r)"
| "remmin_shape (Node l i r) = (case remmin_shape l of (m, l') \<Rightarrow> (m, bal (Node l' i r)))"

fun del_shape :: "(nat \<Rightarrow> int) \<Rightarrow> nat tree \<Rightarrow> nat tree" where
  "del_shape f Leaf = Leaf"
| "del_shape f (Node l i r) =
     (if f i < 0 then bal (Node (del_shape f l) i r)
      else if f i > 0 then bal (Node l i (del_shape f r))
      else if l = Leaf then r else if r = Leaf then l
      else case remmin_shape r of (m, r') \<Rightarrow> bal (Node l m r'))"

lemma ins_shape_avl: "avl_shape t \<Longrightarrow> avl_shape (ins_shape f x t) \<and> height (ins_shape f x t) \<in> {height t, height t + 1}"
proof (induction f x t rule: ins_shape.induct)
  case (2 f x l i r)
  consider "f i = 0" | "f i \<noteq> 0" "f i < 0" | "f i \<noteq> 0" "\<not> f i < 0" by blast
  then show ?case
  proof cases
    case 1
    then show ?thesis using 2 by simp
  next
    case c: 2
    then show ?thesis using bal_grown(1) [OF "2.prems"] "2.IH"(1) "2.prems" by simp
  next
    case c: 3
    then show ?thesis using bal_grown(2) [OF "2.prems"] "2.IH"(2) "2.prems" by simp
  qed
qed simp

lemma remmin_shape_avl:
  "avl_shape t \<Longrightarrow> t \<noteq> Leaf \<Longrightarrow> remmin_shape t = (m, t') \<Longrightarrow>
   avl_shape t' \<and> height t \<in> {height t', height t' + 1} \<and> inorder t = m # inorder t'"
proof (induction t arbitrary: t' rule: remmin_shape.induct)
  case (2 i r)
  then show ?case by auto
next
  case (3 v va vb i r)
  obtain l' where l': "remmin_shape (Node v va vb) = (m, l')" "t' = bal (Node l' i r)"
    using 3(4) by (auto split: prod.splits)
  from 3(1) [OF _ _ l'(1)] 3(2) have "avl_shape l'" "height (Node v va vb) \<in> {height l', height l' + 1}"
    "inorder (Node v va vb) = m # inorder l'" by auto
  then show ?case using bal_shrunk(1) [OF 3(2), of l' i] unfolding l'(2) by simp
qed simp

lemma del_shape_avl: "avl_shape t \<Longrightarrow> avl_shape (del_shape f t) \<and> height t \<in> {height (del_shape f t), height (del_shape f t) + 1}"
proof (induction f t rule: del_shape.induct)
  case (2 f l i r)
  consider "f i < 0" | "f i > 0" | "f i = 0" "l = Leaf \<or> r = Leaf" | "f i = 0" "l \<noteq> Leaf" "r \<noteq> Leaf" by linarith
  then show ?case
  proof cases
    case 1
    then show ?thesis using bal_shrunk(1) [OF "2.prems"] "2.IH"(1) "2.prems" by simp
  next
    case c: 2
    then show ?thesis using bal_shrunk(2) [OF "2.prems"] "2.IH"(2) "2.prems" by simp
  next
    case 3
    then show ?thesis using "2.prems" by auto
  next
    case 4
    obtain m r' where m: "remmin_shape r = (m, r')" by (meson surj_pair)
    have "avl_shape r'" "height r \<in> {height r', height r' + 1}" using remmin_shape_avl [OF _ 4(3) m] "2.prems" by auto
    then show ?thesis using bal_shrunk(2) [OF "2.prems", of r' m] 4 m by simp
  qed
qed simp

text \<open>In order they insert into and remove from a sorted list.\<close>

definition compares :: "(nat \<Rightarrow> int) \<Rightarrow> (nat \<Rightarrow> 'k::linorder) \<Rightarrow> 'k \<Rightarrow> nat tree \<Rightarrow> bool" where
  "compares f rk k t \<longleftrightarrow> sorted_wrt (<) (map rk (inorder t)) \<and>
     (\<forall>i \<in> set_tree t. (f i < 0 \<longleftrightarrow> k < rk i) \<and> (f i = 0 \<longleftrightarrow> k = rk i))"

lemma compares_Node:
  assumes "compares f rk k (Node l i r)"
  shows "compares f rk k l" "compares f rk k r" "f i < 0 \<longleftrightarrow> k < rk i" "f i = 0 \<longleftrightarrow> k = rk i" "f i > 0 \<longleftrightarrow> rk i < k"
    "x \<in> set_tree l \<Longrightarrow> rk x < rk i" "x \<in> set_tree r \<Longrightarrow> rk i < rk x"
  using assms by (auto simp: compares_def sorted_wrt_append not_less_iff_gr_or_eq)

lemma insort_key_append:
  assumes "\<And>x. x \<in> set ys \<Longrightarrow> f x > f k" shows "insort_key f k (xs @ ys) = insort_key f k xs @ ys"
proof (induction xs)
  case Nil
  then show ?case using assms by (cases ys) (auto simp: less_imp_le)
qed simp

lemma insort_key_append_right:
  assumes "\<And>x. x \<in> set xs \<Longrightarrow> f x < f k" shows "insort_key f k (xs @ ys) = xs @ insort_key f k ys"
  using assms by (induction xs) (auto dest: leD)

lemma inorder_ins_shape:
  "compares f rk k t \<Longrightarrow> rk x = k \<Longrightarrow> k \<notin> rk ` set_tree t \<Longrightarrow> inorder (ins_shape f x t) = insort_key rk x (inorder t)"
proof (induction f x t rule: ins_shape.induct)
  case (2 f x l i r)
  note c = compares_Node [OF "2.prems"(1)]
  have n: "f i \<noteq> 0" using 2 c(4) by auto
  show ?case
  proof (cases "f i < 0")
    case True
    then have "rk x < rk i" "\<And>y. y \<in> set_tree r \<Longrightarrow> rk x < rk y" using c(3,7) "2.prems"(2) by (auto intro: less_trans)
    then have "insort_key rk x (inorder l @ i # inorder r) = insort_key rk x (inorder l) @ i # inorder r"
      by (intro insort_key_append) auto
    moreover have "inorder (ins_shape f x l) = insort_key rk x (inorder l)"
      by (rule "2.IH"(1) [OF n True c(1) "2.prems"(2)]) (use "2.prems"(3) in auto)
    ultimately show ?thesis using True n by simp
  next
    case False
    then have "rk i < rk x" "\<And>y. y \<in> set_tree l \<Longrightarrow> rk y < rk x" using n c(5,6) "2.prems"(2) by (auto intro: less_trans)
    then have "insort_key rk x ((inorder l @ [i]) @ inorder r) = (inorder l @ [i]) @ insort_key rk x (inorder r)"
      by (intro insort_key_append_right) auto
    moreover have "inorder (ins_shape f x r) = insort_key rk x (inorder r)"
      by (rule "2.IH"(2) [OF n False c(2) "2.prems"(2)]) (use "2.prems"(3) in auto)
    ultimately show ?thesis using False n by simp
  qed
qed simp

lemma ins_shape_present:
  "avl_shape t \<Longrightarrow> compares f rk k t \<Longrightarrow> k \<in> rk ` set_tree t \<Longrightarrow> ins_shape f x t = t"
proof (induction f x t rule: ins_shape.induct)
  case (2 f x l i r)
  note c = compares_Node [OF "2.prems"(2)]
  have l: "k \<in> rk ` set_tree l" if "f i < 0" using "2.prems"(3) that c(3,7) by (auto dest: less_asym)
  have r: "k \<in> rk ` set_tree r" if "\<not> f i < 0" "f i \<noteq> 0" using "2.prems"(3) that c(3,4,6) by (auto dest: less_trans)
  show ?case using "2.IH" "2.prems"(1) c(1,2) l r by (auto simp: bal.simps)
qed simp

lemma inorder_del_shape:
  "avl_shape t \<Longrightarrow> compares f rk k t \<Longrightarrow> inorder (del_shape f t) = filter (\<lambda>i. rk i \<noteq> k) (inorder t)"
proof (induction f t rule: del_shape.induct)
  case (2 f l i r)
  note c = compares_Node [OF "2.prems"(2)]
  have id: "filter (\<lambda>i. rk i \<noteq> k) (inorder t) = inorder t" if "\<And>x. x \<in> set_tree t \<Longrightarrow> rk x \<noteq> k" for t
    using that by (auto simp: filter_id_conv)
  consider "f i < 0" | "f i > 0" | "f i = 0" by linarith
  then show ?case
  proof cases
    case 1
    then have "rk i \<noteq> k" "\<And>x. x \<in> set_tree r \<Longrightarrow> rk x \<noteq> k" using c(3,7) by (auto dest: less_asym)
    then show ?thesis using 1 "2.IH"(1) "2.prems"(1) c(1) id [of r] by simp
  next
    case g: 2
    then have "rk i \<noteq> k" "\<And>x. x \<in> set_tree l \<Longrightarrow> rk x \<noteq> k" using c(5,6) by (auto dest: less_asym)
    then show ?thesis using g "2.IH"(2) "2.prems"(1) c(2) id [of l] by simp
  next
    case 3
    then have k: "k = rk i" using c(4) by simp
    have o: "rk x \<noteq> k" if "x \<in> set_tree l \<or> x \<in> set_tree r" for x using that c(6,7) unfolding k by (metis less_irrefl)
    have e: "filter (\<lambda>i. rk i \<noteq> k) (inorder (Node l i r)) = inorder l @ inorder r"
      using k id [of l] id [of r] o by simp
    show ?thesis
    proof (cases "l = Leaf \<or> r = Leaf")
      case True
      then show ?thesis unfolding e using 3 by auto
    next
      case False
      obtain m r' where m: "remmin_shape r = (m, r')" by (meson surj_pair)
      have "inorder r = m # inorder r'" using remmin_shape_avl [OF _ _ m] "2.prems"(1) False by simp
      then show ?thesis unfolding e using 3 False m by simp
    qed
  qed
qed simp

subsection \<open>The height of a balanced tree\<close>

fun avl_min_size :: "nat \<Rightarrow> nat" where
  "avl_min_size 0 = 0"
| "avl_min_size (Suc 0) = 1"
| "avl_min_size (Suc (Suc h)) = avl_min_size (Suc h) + avl_min_size h + 1"

lemma avl_min_size_Suc: "avl_min_size h \<le> avl_min_size (Suc h)"
  by (induction h rule: avl_min_size.induct) simp_all

lemma avl_min_size_mono: "h \<le> k \<Longrightarrow> avl_min_size h \<le> avl_min_size k"
  by (induction k) (auto simp: le_Suc_eq intro: le_trans avl_min_size_Suc)

lemma avl_min_size_le: "avl_shape t \<Longrightarrow> avl_min_size (height t) \<le> size t"
proof (induction t)
  case (Node l i r)
  have s: "avl_min_size (height l) \<le> size l" "avl_min_size (height r) \<le> size r" using Node by simp_all
  show ?case
  proof (cases "max (height l) (height r)")
    case 0
    then show ?thesis by simp
  next
    case (Suc h)
    have "avl_min_size (Suc h) + avl_min_size h \<le> size l + size r"
    proof (cases "height l = Suc h")
      case True
      then have "h \<le> height r" using Node.prems by simp
      then show ?thesis using s True avl_min_size_mono [of h "height r"] by simp
    next
      case False
      then have "height r = Suc h" "h \<le> height l" using Suc Node.prems by (auto simp: max_def split: if_splits)
      then show ?thesis using s avl_min_size_mono [of h "height l"] by simp
    qed
    then show ?thesis using Suc by simp
  qed
qed simp

lemma avl_height_bound:
  assumes "avl_shape t" and "size t \<le> NI_MAX_CONTACTS"
  shows "height t \<le> 18"
proof (rule ccontr)
  assume "\<not> height t \<le> 18"
  then have "avl_min_size 19 \<le> avl_min_size (height t)" by (intro avl_min_size_mono) simp
  moreover have "avl_min_size 19 = 10945" by (simp add: eval_nat_numeral)
  ultimately show False using avl_min_size_le [OF assms(1)] assms(2) by simp
qed

subsection \<open>Linking a sorted range\<close>

function link_shape :: "nat \<Rightarrow> nat \<Rightarrow> nat tree" where
  "link_shape lo n =
     (if n = 0 then Leaf
      else Node (link_shape lo ((n - 1) div 2)) (lo + (n - 1) div 2) (link_shape (lo + (n - 1) div 2 + 1) (n - 1 - (n - 1) div 2)))"
  by pat_completeness auto
termination by (relation "measure snd") auto

declare link_shape.simps [simp del]

lemma inorder_link_shape: "inorder (link_shape lo n) = [lo ..< lo + n]"
proof (induction lo n rule: link_shape.induct)
  case (1 lo n)
  show ?case
  proof (cases "n = 0")
    case False
    let ?h = "(n - 1) div 2"
    have "[lo ..< lo + n] = [lo ..< lo + ?h] @ (lo + ?h) # [lo + ?h + 1 ..< lo + n]"
      using False by (simp add: upt_conv_Cons upt_add_eq_append [of lo "lo + ?h" "n - ?h", simplified])
    moreover have "lo + ?h + 1 + (n - 1 - ?h) = lo + n" using False by simp
    ultimately show ?thesis using 1 False by (simp add: link_shape.simps [of lo n])
  qed (simp add: link_shape.simps)
qed

lemma height_link_shape_lo: "height (link_shape lo n) = height (link_shape 0 n)"
proof (induction n arbitrary: lo rule: less_induct)
  case (less n)
  show ?case
  proof (cases "n = 0")
    case False
    have h: "(n - 1) div 2 < n" "n - 1 - (n - 1) div 2 < n" using False by auto
    show ?thesis using False less [OF h(1), of lo] less [OF h(2), of "lo + (n - 1) div 2 + 1"] less [OF h(2), of "0 + (n - 1) div 2 + 1"]
      by (simp add: link_shape.simps [of _ n])
  qed (simp add: link_shape.simps)
qed

lemma height_link_Suc:
  "height (link_shape lo (Suc m)) = max (height (link_shape 0 (m div 2))) (height (link_shape 0 (m - m div 2))) + 1"
  by (simp add: link_shape.simps [of lo "Suc m"] height_link_shape_lo [of lo] height_link_shape_lo [of "Suc (lo + m div 2)"])

lemma height_link_step:
  "height (link_shape 0 n) \<le> height (link_shape 0 (Suc n)) \<and> height (link_shape 0 (Suc n)) \<le> height (link_shape 0 n) + 1"
proof (induction n rule: less_induct)
  case (less n)
  show ?case
  proof (cases n)
    case 0
    then show ?thesis by (simp add: link_shape.simps)
  next
    case (Suc m)
    note lo = height_link_Suc [of 0 m] and hi = height_link_Suc [of 0 "Suc m"]
    have "\<exists>k. m = 2 * k \<or> m = Suc (2 * k)" by presburger
    then obtain k where "m = 2 * k \<or> m = Suc (2 * k)" ..
    then show ?thesis
    proof
      assume m: "m = 2 * k"
      have "m div 2 = k" "m - m div 2 = k" "Suc m div 2 = k" "Suc m - Suc m div 2 = Suc k" using m by simp_all
      then show ?thesis using less [of k] lo hi m unfolding Suc by simp
    next
      assume m: "m = Suc (2 * k)"
      have "m div 2 = k" "m - m div 2 = Suc k" "Suc m div 2 = Suc k" "Suc m - Suc m div 2 = Suc k" using m by simp_all
      then show ?thesis using less [of k] lo hi m unfolding Suc by simp
    qed
  qed
qed

lemma avl_link_shape: "avl_shape (link_shape lo n)"
proof (induction lo n rule: link_shape.induct)
  case (1 lo n)
  show ?case
  proof (cases "n = 0")
    case False
    let ?h = "(n - 1) div 2"
    have "n - 1 - ?h = ?h \<or> n - 1 - ?h = Suc ?h" by linarith
    then have "height (link_shape lo ?h) \<le> height (link_shape (lo + ?h + 1) (n - 1 - ?h)) + 1"
      "height (link_shape (lo + ?h + 1) (n - 1 - ?h)) \<le> height (link_shape lo ?h) + 1"
      using height_link_step [of ?h] height_link_shape_lo [of lo ?h] height_link_shape_lo [of "lo + ?h + 1" "n - 1 - ?h"] by auto
    then show ?thesis using 1 False by (simp add: link_shape.simps [of lo n])
  qed (simp add: link_shape.simps)
qed

end
