(* ===== verification/Avl_Pool.thy ===== *)
theory Avl_Pool
  imports Avl_Shape
begin

text \<open>
  The second candidate, \<^verbatim>\<open>source/benchmark/name_index/avl_tree.c\<close>: nodes in a pool that point to each other by
  index.  Here are its recursive routines and, for each, the shape it computes: \<open>tree_at n i t\<close> says that the
  pointers below \<open>i\<close> spell the tree \<open>t\<close> with the right heights, and \<open>same_but\<close> that a routine moves only the
  nodes of that tree and copies no entry.

  The routines that only read and write \<^verbatim>\<open>t->n\<close> take that array \<open>n\<close>.  \<^verbatim>\<open>avl_max_depth\<close> is the field
  \<open>at_max_depth\<close>; the heights are of type \<^verbatim>\<open>int8_t\<close> and go through \<open>to_i8\<close>.
\<close>

definition TREE_NIL :: nat where [simp]: "TREE_NIL = 65535"
definition AVL_ITER_DEPTH :: nat where [simp]: "AVL_ITER_DEPTH = 24"

definition to_i8 :: "int \<Rightarrow> int" where "to_i8 x = (x + 128) mod 256 - 128"

lemma to_i8_id [simp]: "- 128 \<le> x \<Longrightarrow> x < 128 \<Longrightarrow> to_i8 x = x"
  by (simp add: to_i8_def)

record AvlNode =
  an_key :: "byte list"
  an_contact_index :: nat
  an_message_index :: nat
  an_left :: nat
  an_right :: nat
  an_height :: int

record AvlTree =
  at_n :: "AvlNode list"
  at_root :: nat
  at_free_head :: nat
  at_count :: nat
  at_max_depth :: nat

subsection \<open>Heights and rotations\<close>

definition avl_h :: "AvlNode list \<Rightarrow> nat \<Rightarrow> int" where
  "avl_h n i = (if i = TREE_NIL then 0 else an_height (n ! i))"

definition update_height :: "AvlNode list \<Rightarrow> nat \<Rightarrow> AvlNode list" where
  "update_height n i =
     (let hl = avl_h n (an_left (n ! i)); hr = avl_h n (an_right (n ! i))
      in n[i := (n ! i)\<lparr>an_height := to_i8 (1 + (if hl > hr then hl else hr))\<rparr>])"

definition node_cmp :: "(nat \<Rightarrow> nat \<Rightarrow> int) \<Rightarrow> AvlNode list \<Rightarrow> byte list \<Rightarrow> nat \<Rightarrow> nat \<Rightarrow> int" where
  "node_cmp tb n key sector i = ni_cmp key sector (an_key (n ! i)) (an_contact_index (n ! i)) tb"

definition rotate_right :: "AvlNode list \<Rightarrow> nat \<Rightarrow> nat \<times> AvlNode list" where
  "rotate_right n y =
     (let x = an_left (n ! y);
          n = n[y := (n ! y)\<lparr>an_left := an_right (n ! x)\<rparr>];
          n = n[x := (n ! x)\<lparr>an_right := y\<rparr>];
          n = update_height n y;
          n = update_height n x
      in (x, n))"

definition rotate_left :: "AvlNode list \<Rightarrow> nat \<Rightarrow> nat \<times> AvlNode list" where
  "rotate_left n x =
     (let y = an_right (n ! x);
          n = n[x := (n ! x)\<lparr>an_right := an_left (n ! y)\<rparr>];
          n = n[y := (n ! y)\<lparr>an_left := x\<rparr>];
          n = update_height n x;
          n = update_height n y
      in (y, n))"

definition rebalance :: "AvlNode list \<Rightarrow> nat \<Rightarrow> nat \<times> AvlNode list" where
  "rebalance n i =
     (let n = update_height n i;
          bf = avl_h n (an_left (n ! i)) - avl_h n (an_right (n ! i))
      in if bf > 1 then
           let l = an_left (n ! i);
               n = (if avl_h n (an_left (n ! l)) < avl_h n (an_right (n ! l))
                    then case rotate_left n l of (l, n) \<Rightarrow> n[i := (n ! i)\<lparr>an_left := l\<rparr>] else n)
           in rotate_right n i
         else if bf < -1 then
           let r = an_right (n ! i);
               n = (if avl_h n (an_right (n ! r)) < avl_h n (an_left (n ! r))
                    then case rotate_right n r of (r, n) \<Rightarrow> n[i := (n ! i)\<lparr>an_right := r\<rparr>] else n)
           in rotate_left n i
         else (i, n))"

subsection \<open>The pool\<close>

definition note_depth :: "AvlTree \<Rightarrow> nat \<Rightarrow> AvlTree" where
  "note_depth t depth = (if depth > at_max_depth t then t\<lparr>at_max_depth := depth\<rparr> else t)"

definition node_alloc :: "AvlTree \<Rightarrow> nat \<times> AvlTree" where
  "node_alloc t =
     (let i = at_free_head t in (i, if i \<noteq> TREE_NIL then t\<lparr>at_free_head := an_left (at_n t ! i)\<rparr> else t))"

definition set_left :: "AvlTree \<Rightarrow> nat \<Rightarrow> nat \<Rightarrow> AvlTree" where
  "set_left t i v = t\<lparr>at_n := (at_n t)[i := (at_n t ! i)\<lparr>an_left := v\<rparr>]\<rparr>"

definition set_right :: "AvlTree \<Rightarrow> nat \<Rightarrow> nat \<Rightarrow> AvlTree" where
  "set_right t i v = t\<lparr>at_n := (at_n t)[i := (at_n t ! i)\<lparr>an_right := v\<rparr>]\<rparr>"

definition node_free :: "AvlTree \<Rightarrow> nat \<Rightarrow> AvlTree" where
  "node_free t i = (set_left t i (at_free_head t))\<lparr>at_free_head := i\<rparr>"

definition avl_rebalance :: "AvlTree \<Rightarrow> nat \<Rightarrow> nat \<times> AvlTree" where
  "avl_rebalance t i = (case rebalance (at_n t) i of (j, n) \<Rightarrow> (j, t\<lparr>at_n := n\<rparr>))"

subsection \<open>The recursions\<close>

text \<open>\<open>None\<close> is a recursion that does not end.\<close>

partial_function (option) insert_rec ::
    "(nat \<Rightarrow> nat \<Rightarrow> int) \<Rightarrow> AvlTree \<Rightarrow> nat \<Rightarrow> nat \<Rightarrow> bool \<Rightarrow> nat \<Rightarrow> (nat \<times> bool \<times> AvlTree) option" where
  "insert_rec tb t i fresh ok depth =
     (if i = TREE_NIL then Some (fresh, ok, note_depth t depth)
      else let c = node_cmp tb (at_n t) (an_key (at_n t ! fresh)) (an_contact_index (at_n t ! fresh)) i
      in if c = 0 then Some (i, False, note_depth t depth)
      else if c < 0 then
        Option.bind (insert_rec tb t (an_left (at_n t ! i)) fresh ok (to_u8 (depth + 1)))
          (\<lambda>(l, ok, t). case avl_rebalance (set_left t i l) i of (i, t) \<Rightarrow> Some (i, ok, t))
      else
        Option.bind (insert_rec tb t (an_right (at_n t ! i)) fresh ok (to_u8 (depth + 1)))
          (\<lambda>(r, ok, t). case avl_rebalance (set_right t i r) i of (i, t) \<Rightarrow> Some (i, ok, t)))"

partial_function (option) remove_min_rec :: "AvlTree \<Rightarrow> nat \<Rightarrow> nat \<Rightarrow> (nat \<times> nat \<times> AvlTree) option" where
  "remove_min_rec t i depth =
     (if an_left (at_n t ! i) = TREE_NIL then Some (an_right (at_n t ! i), i, note_depth t depth)
      else Option.bind (remove_min_rec t (an_left (at_n t ! i)) (to_u8 (depth + 1)))
        (\<lambda>(l, m, t). case avl_rebalance (set_left t i l) i of (i, t) \<Rightarrow> Some (i, m, t)))"

partial_function (option) remove_rec ::
    "(nat \<Rightarrow> nat \<Rightarrow> int) \<Rightarrow> AvlTree \<Rightarrow> nat \<Rightarrow> byte list \<Rightarrow> nat \<Rightarrow> bool \<Rightarrow> nat \<Rightarrow> (nat \<times> bool \<times> AvlTree) option" where
  "remove_rec tb t i key sector ok depth =
     (if i = TREE_NIL then Some (TREE_NIL, False, note_depth t depth)
      else let c = node_cmp tb (at_n t) key sector i
      in if c < 0 then
        Option.bind (remove_rec tb t (an_left (at_n t ! i)) key sector ok (to_u8 (depth + 1)))
          (\<lambda>(l, ok, t). case avl_rebalance (set_left t i l) i of (i, t) \<Rightarrow> Some (i, ok, t))
      else if c > 0 then
        Option.bind (remove_rec tb t (an_right (at_n t ! i)) key sector ok (to_u8 (depth + 1)))
          (\<lambda>(r, ok, t). case avl_rebalance (set_right t i r) i of (i, t) \<Rightarrow> Some (i, ok, t))
      else
        let l = an_left (at_n t ! i); r = an_right (at_n t ! i); t = node_free t i
        in if l = TREE_NIL then Some (r, ok, note_depth t depth)
           else if r = TREE_NIL then Some (l, ok, note_depth t depth)
           else Option.bind (remove_min_rec t r (to_u8 (depth + 1)))
             (\<lambda>(r, succ, t). case avl_rebalance (set_right (set_left t succ l) succ r) succ of (i, t) \<Rightarrow> Some (i, ok, t)))"

subsection \<open>Trees in the pool\<close>

definition node_entry :: "AvlNode \<Rightarrow> NiEntry" where
  "node_entry nd = \<lparr>ne_key = an_key nd, ne_contact_index = an_contact_index nd, ne_message_index = an_message_index nd\<rparr>"

fun tree_at :: "AvlNode list \<Rightarrow> nat \<Rightarrow> nat tree \<Rightarrow> bool" where
  "tree_at n i Leaf = (i = TREE_NIL)"
| "tree_at n i (Node l j r) =
     (i = j \<and> j < NI_MAX_CONTACTS \<and> tree_at n (an_left (n ! j)) l \<and> tree_at n (an_right (n ! j)) r \<and>
      an_height (n ! j) = int (height (Node l j r)))"

definition same_but :: "nat set \<Rightarrow> AvlNode list \<Rightarrow> AvlNode list \<Rightarrow> bool" where
  "same_but S n n' \<longleftrightarrow> length n' = length n \<and> (\<forall>j. node_entry (n' ! j) = node_entry (n ! j)) \<and> (\<forall>j. j \<notin> S \<longrightarrow> n' ! j = n ! j)"

lemma same_but_refl [simp, intro]: "same_but S n n"
  by (simp add: same_but_def)

lemma same_but_trans [trans]: "same_but S n n' \<Longrightarrow> same_but S' n' n'' \<Longrightarrow> same_but (S \<union> S') n n''"
  by (simp add: same_but_def)

lemma same_but_mono: "same_but S n n' \<Longrightarrow> S \<subseteq> S' \<Longrightarrow> same_but S' n n'"
  by (auto simp: same_but_def)

lemma same_butD:
  assumes "same_but S n n'"
  shows "length n' = length n" "node_entry (n' ! j) = node_entry (n ! j)" "j \<notin> S \<Longrightarrow> n' ! j = n ! j"
    "an_key (n' ! j) = an_key (n ! j)" "an_contact_index (n' ! j) = an_contact_index (n ! j)"
  using assms by (auto simp: same_but_def node_entry_def)

lemma same_but_update:
  "node_entry nd = node_entry (n ! i) \<Longrightarrow> i \<in> S \<Longrightarrow> same_but S n (n[i := nd])"
  by (cases "i < length n") (auto simp: same_but_def nth_list_update list_update_beyond)

lemma same_but_update2:
  assumes "node_entry nd = node_entry (n ! i)" and "node_entry nd' = node_entry (n[i := nd] ! j)"
  shows "same_but {i, j} n (n[i := nd, j := nd'])"
proof -
  have "same_but ({i} \<union> {j}) n (n[i := nd, j := nd'])"
    by (rule same_but_trans [OF same_but_update [OF assms(1)] same_but_update [OF assms(2)]]) simp_all
  then show ?thesis by (simp add: insert_commute)
qed

lemma tree_at_frame: "tree_at n i t \<Longrightarrow> (\<And>j. j \<in> set_tree t \<Longrightarrow> n' ! j = n ! j) \<Longrightarrow> tree_at n' i t"
  by (induction t arbitrary: i) auto

lemma tree_at_same_but: "tree_at n i t \<Longrightarrow> same_but S n n' \<Longrightarrow> set_tree t \<inter> S = {} \<Longrightarrow> tree_at n' i t"
  by (erule tree_at_frame) (auto simp: same_but_def)

lemma tree_at_less: "tree_at n i t \<Longrightarrow> j \<in> set_tree t \<Longrightarrow> j < NI_MAX_CONTACTS"
  by (induction t arbitrary: i) auto

lemma avl_h_tree: "tree_at n i t \<Longrightarrow> avl_h n i = int (height t)"
  by (cases t) (auto simp: avl_h_def)

lemma tree_at_NIL: "tree_at n i t \<Longrightarrow> i = TREE_NIL \<longleftrightarrow> t = Leaf"
  by (cases t) auto

text \<open>A node whose subtrees are in place, whatever its height field says.\<close>

definition node_at :: "AvlNode list \<Rightarrow> nat \<Rightarrow> nat tree \<Rightarrow> nat tree \<Rightarrow> bool" where
  "node_at n i l r \<longleftrightarrow> i < NI_MAX_CONTACTS \<and> tree_at n (an_left (n ! i)) l \<and> tree_at n (an_right (n ! i)) r \<and>
     distinct (inorder (Node l i r))"

lemma update_height_at:
  assumes "node_at n i l r" and "length n = NI_MAX_CONTACTS" and "height l \<le> 100" and "height r \<le> 100"
  shows "tree_at (update_height n i) i (Node l i r)" "same_but {i} n (update_height n i)"
proof -
  note a = assms(1,2) [unfolded node_at_def]
  let ?nd = "(n ! i)\<lparr>an_height := int (height (Node l i r))\<rparr>"
  have h: "avl_h n (an_left (n ! i)) = int (height l)" "avl_h n (an_right (n ! i)) = int (height r)"
    using a avl_h_tree by blast+
  have "to_i8 (1 + (if int (height l) > int (height r) then int (height l) else int (height r))) = int (height (Node l i r))"
    using assms(3,4) by auto
  then have u: "update_height n i = n[i := ?nd]" unfolding update_height_def Let_def h by (simp only:)
  show s: "same_but {i} n (update_height n i)" unfolding u by (rule same_but_update) (simp_all add: node_entry_def)
  have "update_height n i ! i = ?nd" using a u by simp
  then show "tree_at (update_height n i) i (Node l i r)"
    using a tree_at_same_but [OF _ s] by simp
qed

lemma rotate_right_at:
  assumes "node_at n y (Node a x b) c" and "length n = NI_MAX_CONTACTS" and h: "height a \<le> 90" "height b \<le> 90" "height c \<le> 90"
  shows "\<exists>n'. rotate_right n y = (x, n') \<and> tree_at n' x (Node a x (Node b y c)) \<and> same_but {x, y} n n'"
proof -
  note at = assms(1,2) [unfolded node_at_def, simplified]
  have x: "an_left (n ! y) = x" "x \<noteq> y" "x < 10000" "y < 10000" using at by auto
  let ?n1 = "n[y := (n ! y)\<lparr>an_left := an_right (n ! x)\<rparr>]"
  let ?n2 = "?n1[x := (?n1 ! x)\<lparr>an_right := y\<rparr>]"
  have s: "same_but {x, y} n ?n2"
    unfolding insert_commute [of x] by (rule same_but_update2) (simp_all add: node_entry_def)
  have l2: "length ?n2 = NI_MAX_CONTACTS" using at by simp
  have at2: "?n2 ! y = (n ! y)\<lparr>an_left := an_right (n ! x)\<rparr>" "?n2 ! x = (n ! x)\<lparr>an_right := y\<rparr>" using x at by simp_all
  have keep: "tree_at ?n2 i t" if "tree_at n i t" "x \<notin> set_tree t" "y \<notin> set_tree t" for i t
    by (rule tree_at_same_but [OF that(1) s]) (use that(2,3) in simp)
  have "node_at ?n2 y b c" using at keep at2 by (auto simp: node_at_def)
  note n2 = this
  have h2: "height b \<le> 100" "height c \<le> 100" using h by simp_all
  note uy = update_height_at [OF n2 l2 h2]
  let ?n3 = "update_height ?n2 y"
  have l3: "length ?n3 = NI_MAX_CONTACTS" using same_butD(1) [OF uy(2)] l2 by simp
  have x3: "?n3 ! x = ?n2 ! x" by (rule same_butD(3) [OF uy(2)]) (use x in simp)
  have "tree_at ?n2 (an_left (n ! x)) a" by (rule keep) (use at in auto)
  then have "tree_at ?n3 (an_left (n ! x)) a" by (rule tree_at_same_but [OF _ uy(2)]) (use at in auto)
  then have "node_at ?n3 x a (Node b y c)" using at uy(1) x3 at2 by (auto simp: node_at_def)
  have hs: "height a \<le> 100" "height (Node b y c) \<le> 100" using h by simp_all
  note ux = update_height_at [OF \<open>node_at ?n3 x a (Node b y c)\<close> l3 hs]
  have "same_but ({x, y} \<union> {y} \<union> {x}) n (update_height ?n3 x)" by (rule same_but_trans [OF same_but_trans [OF s uy(2)] ux(2)])
  then have "same_but {x, y} n (update_height ?n3 x)" by (rule same_but_mono) auto
  moreover have "rotate_right n y = (x, update_height ?n3 x)" by (simp add: rotate_right_def Let_def x(1))
  ultimately show ?thesis using ux(1) by blast
qed

lemma rotate_left_at:
  assumes "node_at n x a (Node b y c)" and "length n = NI_MAX_CONTACTS" and h: "height a \<le> 90" "height b \<le> 90" "height c \<le> 90"
  shows "\<exists>n'. rotate_left n x = (y, n') \<and> tree_at n' y (Node (Node a x b) y c) \<and> same_but {x, y} n n'"
proof -
  note at = assms(1,2) [unfolded node_at_def, simplified]
  have x: "an_right (n ! x) = y" "x \<noteq> y" "x < 10000" "y < 10000" using at by auto
  let ?n1 = "n[x := (n ! x)\<lparr>an_right := an_left (n ! y)\<rparr>]"
  let ?n2 = "?n1[y := (?n1 ! y)\<lparr>an_left := x\<rparr>]"
  have s: "same_but {x, y} n ?n2"
    by (rule same_but_update2) (simp_all add: node_entry_def)
  have l2: "length ?n2 = NI_MAX_CONTACTS" using at by simp
  have at2: "?n2 ! x = (n ! x)\<lparr>an_right := an_left (n ! y)\<rparr>" "?n2 ! y = (n ! y)\<lparr>an_left := x\<rparr>" using x at by simp_all
  have keep: "tree_at ?n2 i t" if "tree_at n i t" "x \<notin> set_tree t" "y \<notin> set_tree t" for i t
    by (rule tree_at_same_but [OF that(1) s]) (use that(2,3) in simp)
  have "node_at ?n2 x a b" using at keep at2 by (auto simp: node_at_def)
  note n2 = this
  have h2: "height a \<le> 100" "height b \<le> 100" using h by simp_all
  note ux = update_height_at [OF n2 l2 h2]
  let ?n3 = "update_height ?n2 x"
  have l3: "length ?n3 = NI_MAX_CONTACTS" using same_butD(1) [OF ux(2)] l2 by simp
  have y3: "?n3 ! y = ?n2 ! y" by (rule same_butD(3) [OF ux(2)]) (use x in simp)
  have "tree_at ?n2 (an_right (n ! y)) c" by (rule keep) (use at in auto)
  then have "tree_at ?n3 (an_right (n ! y)) c" by (rule tree_at_same_but [OF _ ux(2)]) (use at in auto)
  then have "node_at ?n3 y (Node a x b) c" using at ux(1) y3 at2 by (auto simp: node_at_def)
  have hs: "height (Node a x b) \<le> 100" "height c \<le> 100" using h by simp_all
  note uy = update_height_at [OF \<open>node_at ?n3 y (Node a x b) c\<close> l3 hs]
  have "same_but ({x, y} \<union> {x} \<union> {y}) n (update_height ?n3 y)" by (rule same_but_trans [OF same_but_trans [OF s ux(2)] uy(2)])
  then have "same_but {x, y} n (update_height ?n3 y)" by (rule same_but_mono) auto
  moreover have "rotate_left n x = (y, update_height ?n3 y)" by (simp add: rotate_left_def Let_def x(1))
  ultimately show ?thesis using uy(1) by blast
qed

end
