(* ===== verification/Avl_Recursion.thy ===== *)
theory Avl_Recursion
  imports Avl_Pool
begin

text \<open>
  What the recursive routines of \<^verbatim>\<open>avl_tree.c\<close> compute: \<open>rebalance\<close> is \<open>bal\<close>, and on a balanced tree
  \<open>insert_rec\<close>, \<open>remove_min_rec\<close> and \<open>remove_rec\<close> end with the trees \<open>ins_shape\<close>, \<open>remmin_shape\<close> and \<open>del_shape\<close>,
  touch no other node, copy no entry, and go no deeper than the tree is high.
\<close>

subsection \<open>Rebalancing\<close>

lemma rebalance_at:
  assumes n: "node_at n i l r" "length n = NI_MAX_CONTACTS" and h: "height l \<le> 80" "height r \<le> 80"
  shows "\<exists>j n'. rebalance n i = (j, n') \<and> tree_at n' j (bal (Node l i r)) \<and> same_but (set_tree (Node l i r)) n n'"
proof -
  define n1 where "n1 = update_height n i"
  have u: "tree_at n1 i (Node l i r)" "same_but {i} n n1"
    using update_height_at [OF n] h unfolding n1_def by simp_all
  have l1: "length n1 = NI_MAX_CONTACTS" using same_butD(1) [OF u(2)] n(2) by simp
  have dis: "distinct (inorder (Node l i r))" using n(1) by (simp add: node_at_def)
  have p: "i < 10000" "tree_at n1 (an_left (n1 ! i)) l" "tree_at n1 (an_right (n1 ! i)) r" using u(1) by simp_all
  have bf: "avl_h n1 (an_left (n1 ! i)) = int (height l)" "avl_h n1 (an_right (n1 ! i)) = int (height r)"
    using avl_h_tree p by blast+
  have add: "same_but (set_tree (Node l i r)) n n'" if "same_but S n1 n'" "S \<subseteq> set_tree (Node l i r)" for S n'
    by (rule same_but_mono [OF same_but_trans [OF u(2) that(1)]]) (use that(2) in auto)
  consider "height l > height r + 1" | "\<not> height l > height r + 1" "height r > height l + 1"
    | "\<not> height l > height r + 1" "\<not> height r > height l + 1" by blast
  then show ?thesis
  proof cases
    case 1
    then obtain a x b where l: "l = Node a x b" using height_pos_node [of l] by auto
    have x: "an_left (n1 ! i) = x" "x < 10000" "tree_at n1 (an_left (n1 ! x)) a" "tree_at n1 (an_right (n1 ! x)) b"
      using p(2) by (simp_all add: l)
    have hx: "avl_h n1 (an_left (n1 ! x)) = int (height a)" "avl_h n1 (an_right (n1 ! x)) = int (height b)"
      using avl_h_tree x by blast+
    show ?thesis
    proof (cases "height a < height b")
      case True
      then obtain b1 y b2 where b: "b = Node b1 y b2" using height_pos_node [of b] by auto
      have "node_at n1 x a (Node b1 y b2)" using x dis by (auto simp: node_at_def l b)
      from rotate_left_at [OF this l1] h obtain n2 where
        r2: "rotate_left n1 x = (y, n2)" "tree_at n2 y (Node (Node a x b1) y b2)" "same_but {x, y} n1 n2"
        unfolding l b by auto
      have i2: "n2 ! i = n1 ! i" by (rule same_butD(3) [OF r2(3)]) (use dis in \<open>auto simp: l b\<close>)
      define n3 where "n3 = n2[i := (n2 ! i)\<lparr>an_left := y\<rparr>]"
      have s3: "same_but {i} n2 n3" unfolding n3_def by (rule same_but_update) (simp_all add: node_entry_def)
      have l3: "length n3 = NI_MAX_CONTACTS" "length n2 = NI_MAX_CONTACTS"
        using same_butD(1) [OF r2(3)] same_butD(1) [OF s3] l1 by simp_all
      have n3i: "n3 ! i = (n1 ! i)\<lparr>an_left := y\<rparr>" using p(1) l3 by (simp add: n3_def i2)
      have "tree_at n2 (an_right (n1 ! i)) r" by (rule tree_at_same_but [OF p(3) r2(3)]) (use dis in \<open>auto simp: l b\<close>)
      then have "tree_at n3 (an_right (n1 ! i)) r" by (rule tree_at_same_but [OF _ s3]) (use dis in auto)
      moreover have "tree_at n3 y (Node (Node a x b1) y b2)" by (rule tree_at_same_but [OF r2(2) s3]) (use dis in \<open>auto simp: l b\<close>)
      ultimately have "node_at n3 i (Node (Node a x b1) y b2) r"
        unfolding node_at_def n3i using p(1) dis by (auto simp: l b)
      from rotate_right_at [OF this l3(1)] h obtain n4 where
        r4: "rotate_right n3 i = (y, n4)" "tree_at n4 y (Node (Node a x b1) y (Node b2 i r))" "same_but {y, i} n3 n4"
        unfolding l b by auto
      have "rebalance n i = (y, n4)"
        using 1 True by (simp add: rebalance_def Let_def bf bf(1) [unfolded x(1)] x(1) hx r2(1) r4(1) flip: n1_def n3_def)
      moreover have "bal (Node l i r) = Node (Node a x b1) y (Node b2 i r)" using 1 True by (simp add: bal.simps l b)
      moreover have "same_but (set_tree (Node l i r)) n n4"
        by (rule add [OF same_but_trans [OF same_but_trans [OF r2(3) s3] r4(3)]]) (auto simp: l b)
      ultimately show ?thesis using r4(2) by auto
    next
      case False
      have "node_at n1 i (Node a x b) r" using p dis by (auto simp: node_at_def l)
      from rotate_right_at [OF this l1] h obtain n4 where
        r4: "rotate_right n1 i = (x, n4)" "tree_at n4 x (Node a x (Node b i r))" "same_but {x, i} n1 n4"
        unfolding l by auto
      have "rebalance n i = (x, n4)" using 1 False by (simp add: rebalance_def Let_def bf bf(1) [unfolded x(1)] x(1) hx r4(1) flip: n1_def)
      moreover have "bal (Node l i r) = Node a x (Node b i r)" using 1 False by (simp add: bal.simps l)
      moreover have "same_but (set_tree (Node l i r)) n n4" by (rule add [OF r4(3)]) (auto simp: l)
      ultimately show ?thesis using r4(2) by auto
    qed
  next
    case 2
    then obtain a x b where r: "r = Node a x b" using height_pos_node [of r] by auto
    have x: "an_right (n1 ! i) = x" "x < 10000" "tree_at n1 (an_left (n1 ! x)) a" "tree_at n1 (an_right (n1 ! x)) b"
      using p(3) by (simp_all add: r)
    have hx: "avl_h n1 (an_left (n1 ! x)) = int (height a)" "avl_h n1 (an_right (n1 ! x)) = int (height b)"
      using avl_h_tree x by blast+
    show ?thesis
    proof (cases "height b < height a")
      case True
      then obtain b1 y b2 where a: "a = Node b1 y b2" using height_pos_node [of a] by auto
      have "node_at n1 x (Node b1 y b2) b" using x dis by (auto simp: node_at_def r a)
      from rotate_right_at [OF this l1] h obtain n2 where
        r2: "rotate_right n1 x = (y, n2)" "tree_at n2 y (Node b1 y (Node b2 x b))" "same_but {y, x} n1 n2"
        unfolding r a by auto
      have i2: "n2 ! i = n1 ! i" by (rule same_butD(3) [OF r2(3)]) (use dis in \<open>auto simp: r a\<close>)
      define n3 where "n3 = n2[i := (n2 ! i)\<lparr>an_right := y\<rparr>]"
      have s3: "same_but {i} n2 n3" unfolding n3_def by (rule same_but_update) (simp_all add: node_entry_def)
      have l3: "length n3 = NI_MAX_CONTACTS" "length n2 = NI_MAX_CONTACTS"
        using same_butD(1) [OF r2(3)] same_butD(1) [OF s3] l1 by simp_all
      have n3i: "n3 ! i = (n1 ! i)\<lparr>an_right := y\<rparr>" using p(1) l3 by (simp add: n3_def i2)
      have "tree_at n2 (an_left (n1 ! i)) l" by (rule tree_at_same_but [OF p(2) r2(3)]) (use dis in \<open>auto simp: r a\<close>)
      then have "tree_at n3 (an_left (n1 ! i)) l" by (rule tree_at_same_but [OF _ s3]) (use dis in auto)
      moreover have "tree_at n3 y (Node b1 y (Node b2 x b))" by (rule tree_at_same_but [OF r2(2) s3]) (use dis in \<open>auto simp: r a\<close>)
      ultimately have "node_at n3 i l (Node b1 y (Node b2 x b))"
        unfolding node_at_def n3i using p(1) dis by (auto simp: r a)
      from rotate_left_at [OF this l3(1)] h obtain n4 where
        r4: "rotate_left n3 i = (y, n4)" "tree_at n4 y (Node (Node l i b1) y (Node b2 x b))" "same_but {i, y} n3 n4"
        unfolding r a by auto
      have "rebalance n i = (y, n4)"
        using 2 True by (simp add: rebalance_def Let_def bf bf(2) [unfolded x(1)] x(1) hx r2(1) r4(1) flip: n1_def n3_def)
      moreover have "bal (Node l i r) = Node (Node l i b1) y (Node b2 x b)" using 2 True by (simp add: bal.simps r a)
      moreover have "same_but (set_tree (Node l i r)) n n4"
        by (rule add [OF same_but_trans [OF same_but_trans [OF r2(3) s3] r4(3)]]) (auto simp: r a)
      ultimately show ?thesis using r4(2) by auto
    next
      case False
      have "node_at n1 i l (Node a x b)" using p dis by (auto simp: node_at_def r)
      from rotate_left_at [OF this l1] h obtain n4 where
        r4: "rotate_left n1 i = (x, n4)" "tree_at n4 x (Node (Node l i a) x b)" "same_but {i, x} n1 n4"
        unfolding r by auto
      have "rebalance n i = (x, n4)" using 2 False by (simp add: rebalance_def Let_def bf bf(2) [unfolded x(1)] x(1) hx r4(1) flip: n1_def)
      moreover have "bal (Node l i r) = Node (Node l i a) x b" using 2 False by (simp add: bal.simps r)
      moreover have "same_but (set_tree (Node l i r)) n n4" by (rule add [OF r4(3)]) (auto simp: r)
      ultimately show ?thesis using r4(2) by auto
    qed
  next
    case 3
    have "rebalance n i = (i, n1)" using 3 by (simp add: rebalance_def Let_def bf flip: n1_def)
    moreover have "bal (Node l i r) = Node l i r" using 3 by (simp add: bal.simps)
    moreover have "same_but (set_tree (Node l i r)) n n1" by (rule add [of "{}"]) simp_all
    ultimately show ?thesis using u(1) by auto
  qed
qed

text \<open>On the way back up: the result of the recursion is hung below \<open>i\<close>, and \<open>i\<close> rebalanced.\<close>

lemma rebalance_left_at:
  assumes "length (at_n T) = NI_MAX_CONTACTS" and "i < NI_MAX_CONTACTS" and "tree_at (at_n T) j l"
    and "tree_at (at_n T) (an_right (at_n T ! i)) r" and "distinct (inorder (Node l i r))" and "height l \<le> 80" and "height r \<le> 80"
  shows "\<exists>k n'. avl_rebalance (set_left T i j) i = (k, T\<lparr>at_n := n'\<rparr>) \<and> tree_at n' k (bal (Node l i r)) \<and>
    same_but (set_tree (Node l i r)) (at_n T) n'"
proof -
  let ?n = "(at_n T)[i := (at_n T ! i)\<lparr>an_left := j\<rparr>]"
  have s: "same_but {i} (at_n T) ?n" by (rule same_but_update) (simp_all add: node_entry_def)
  have "tree_at ?n j l" "tree_at ?n (an_right (at_n T ! i)) r"
    by (rule tree_at_same_but [OF _ s], use assms in auto)+
  then have "node_at ?n i l r" using assms by (simp add: node_at_def)
  from rebalance_at [OF this _ assms(6,7)] assms(1) obtain k n' where
    "rebalance ?n i = (k, n')" "tree_at n' k (bal (Node l i r))" "same_but (set_tree (Node l i r)) ?n n'" by auto
  moreover from same_but_trans [OF s this(3)] have "same_but (set_tree (Node l i r)) (at_n T) n'" by (rule same_but_mono) auto
  ultimately show ?thesis by (intro exI [of _ k] exI [of _ n']) (simp add: avl_rebalance_def set_left_def)
qed

lemma rebalance_right_at:
  assumes "length (at_n T) = NI_MAX_CONTACTS" and "i < NI_MAX_CONTACTS" and "tree_at (at_n T) j r"
    and "tree_at (at_n T) (an_left (at_n T ! i)) l" and "distinct (inorder (Node l i r))" and "height l \<le> 80" and "height r \<le> 80"
  shows "\<exists>k n'. avl_rebalance (set_right T i j) i = (k, T\<lparr>at_n := n'\<rparr>) \<and> tree_at n' k (bal (Node l i r)) \<and>
    same_but (set_tree (Node l i r)) (at_n T) n'"
proof -
  let ?n = "(at_n T)[i := (at_n T ! i)\<lparr>an_right := j\<rparr>]"
  have s: "same_but {i} (at_n T) ?n" by (rule same_but_update) (simp_all add: node_entry_def)
  have "tree_at ?n j r" "tree_at ?n (an_left (at_n T ! i)) l"
    by (rule tree_at_same_but [OF _ s], use assms in auto)+
  then have "node_at ?n i l r" using assms by (simp add: node_at_def)
  from rebalance_at [OF this _ assms(6,7)] assms(1) obtain k n' where
    "rebalance ?n i = (k, n')" "tree_at n' k (bal (Node l i r))" "same_but (set_tree (Node l i r)) ?n n'" by auto
  moreover from same_but_trans [OF s this(3)] have "same_but (set_tree (Node l i r)) (at_n T) n'" by (rule same_but_mono) auto
  ultimately show ?thesis by (intro exI [of _ k] exI [of _ n']) (simp add: avl_rebalance_def set_right_def)
qed

subsection \<open>What a recursion leaves alone\<close>

definition pool_moves :: "nat set \<Rightarrow> nat \<Rightarrow> AvlTree \<Rightarrow> AvlTree \<Rightarrow> bool" where
  "pool_moves S d T T' \<longleftrightarrow> same_but S (at_n T) (at_n T') \<and> at_root T' = at_root T \<and> at_count T' = at_count T \<and>
     at_max_depth T' \<le> max (at_max_depth T) d"

lemma pool_moves_note [simp]: "depth \<le> d \<Longrightarrow> pool_moves S d T (note_depth T depth)"
  by (auto simp: pool_moves_def note_depth_def)

lemma note_depth_simps [simp]: "at_n (note_depth T d) = at_n T" "at_free_head (note_depth T d) = at_free_head T"
  by (simp_all add: note_depth_def)

lemma pool_movesD:
  assumes "pool_moves S d T T'"
  shows "same_but S (at_n T) (at_n T')" "length (at_n T') = length (at_n T)" "at_root T' = at_root T" "at_count T' = at_count T"
    "at_max_depth T' \<le> max (at_max_depth T) d"
  using assms by (simp_all add: pool_moves_def same_but_def)

lemma pool_moves_then:
  assumes "pool_moves S d T T'" and "same_but S' (at_n T') n'" and "S \<union> S' \<subseteq> S''" and "d \<le> d'"
  shows "pool_moves S'' d' T (T'\<lparr>at_n := n'\<rparr>)"
proof -
  have "same_but S'' (at_n T) n'"
    using same_but_mono [OF same_but_trans [OF pool_movesD(1) [OF assms(1)] assms(2)] assms(3)] .
  then show ?thesis using assms(1,4) by (auto simp: pool_moves_def)
qed

subsection \<open>Removing the smallest node\<close>

lemma remove_min_rec_at:
  assumes "tree_at (at_n T) i t" and "t \<noteq> Leaf" and "distinct (inorder t)" and "avl_shape t" and "height t \<le> 50"
    and "length (at_n T) = NI_MAX_CONTACTS" and "depth + height t < 256" and "remmin_shape t = (m, t')"
  shows "\<exists>j T'. remove_min_rec T i depth = Some (j, m, T') \<and> tree_at (at_n T') j t' \<and> pool_moves (set_tree t) (depth + height t) T T' \<and>
    at_free_head T' = at_free_head T"
  using assms
proof (induction t arbitrary: i depth t')
  case (Node l k r)
  have i: "i = k" "k < NI_MAX_CONTACTS" "tree_at (at_n T) (an_left (at_n T ! k)) l" "tree_at (at_n T) (an_right (at_n T ! k)) r"
    using Node.prems(1) by simp_all
  show ?case
  proof (cases "l = Leaf")
    case True
    then have "m = k" "t' = r" using Node.prems(8) by simp_all
    then show ?thesis using True i by (simp add: remove_min_rec.simps [of T k depth])
  next
    case False
    obtain l' where l': "remmin_shape l = (m, l')" "t' = bal (Node l' k r)"
      using Node.prems(8) False by (cases l) (auto split: prod.splits)
    have d: "to_u8 (Suc depth) = Suc depth" "(depth + 1) + height l < 256" using Node.prems(7) by simp_all
    have pl: "distinct (inorder l)" "avl_shape l" "height l \<le> 50" using Node.prems(3,4,5) by auto
    from Node.IH(1) [OF i(3) False pl Node.prems(6) d(2) l'(1)] obtain j T1 where
      r: "remove_min_rec T (an_left (at_n T ! k)) (depth + 1) = Some (j, m, T1)" "tree_at (at_n T1) j l'"
        "pool_moves (set_tree l) (depth + 1 + height l) T T1" "at_free_head T1 = at_free_head T" by blast
    note mv = pool_movesD [OF r(3)]
    note rs = remmin_shape_avl [OF pl(2) False l'(1)]
    have sub: "set_tree l' \<subseteq> set_tree l" "distinct (inorder l')" using rs pl(1) by (metis set_inorder set_subset_Cons, simp)
    have k: "at_n T1 ! k = at_n T ! k" by (rule same_butD(3) [OF mv(1)]) (use Node.prems(3) in auto)
    have "tree_at (at_n T1) (an_right (at_n T1 ! k)) r"
      unfolding k by (rule tree_at_same_but [OF i(4) mv(1)]) (use Node.prems(3) in auto)
    moreover have "distinct (inorder (Node l' k r))" using Node.prems(3) sub by auto
    moreover have "height l' \<le> 80" "height r \<le> 80" using rs pl(3) Node.prems(5) by auto
    ultimately obtain q n' where b: "avl_rebalance (set_left T1 k j) k = (q, T1\<lparr>at_n := n'\<rparr>)" "tree_at n' q (bal (Node l' k r))"
        "same_but (set_tree (Node l' k r)) (at_n T1) n'"
      using rebalance_left_at [of T1 k j l' r] mv(2) Node.prems(6) i(2) r(2) by auto
    have "pool_moves (set_tree (Node l k r)) (depth + height (Node l k r)) T (T1\<lparr>at_n := n'\<rparr>)"
      by (rule pool_moves_then [OF r(3) b(3)]) (use sub in auto)
    moreover have "an_left (at_n T ! k) \<noteq> TREE_NIL" using tree_at_NIL [OF i(3)] False by simp
    ultimately show ?thesis using r b by (simp add: remove_min_rec.simps [of T k depth] i(1) d(1) l'(2))
  qed
qed simp

subsection \<open>Insertion\<close>

lemma set_ins_shape: "set_tree (ins_shape f x t) \<subseteq> insert x (set_tree t)"
  by (induction f x t rule: ins_shape.induct) auto

lemma distinct_ins_shape: "distinct (inorder t) \<Longrightarrow> x \<notin> set_tree t \<Longrightarrow> distinct (inorder (ins_shape f x t))"
proof (induction f x t rule: ins_shape.induct)
  case (2 f x l i r)
  have s: "set_tree (ins_shape f x l) \<subseteq> insert x (set_tree l)" "set_tree (ins_shape f x r) \<subseteq> insert x (set_tree r)"
    by (rule set_ins_shape)+
  consider "f i = 0" | "f i \<noteq> 0" "f i < 0" | "f i \<noteq> 0" "\<not> f i < 0" by blast
  then show ?case
  proof cases
    case a: 2
    then show ?thesis using "2.IH"(1) [OF a] "2.prems" s(1) by auto
  next
    case a: 3
    then show ?thesis using "2.IH"(2) [OF a] "2.prems" s(2) by auto
  qed (use "2.prems" in simp)
qed simp

text \<open>Whether the search path meets an equal node.\<close>

fun shape_has :: "(nat \<Rightarrow> int) \<Rightarrow> nat tree \<Rightarrow> bool" where
  "shape_has f Leaf = False"
| "shape_has f (Node l i r) = (if f i = 0 then True else if f i < 0 then shape_has f l else shape_has f r)"

lemma shape_has_rank: "compares f rk k t \<Longrightarrow> shape_has f t \<longleftrightarrow> k \<in> rk ` set_tree t"
proof (induction t)
  case (Node l i r)
  note c = compares_Node [OF Node.prems]
  consider "f i = 0" | "f i < 0" | "f i > 0" by linarith
  then show ?case
  proof cases
    case 2
    then have "k \<noteq> rk i" "k \<notin> rk ` set_tree r" using c(3,7) by (auto dest: less_asym)
    then show ?thesis using 2 Node.IH(1) [OF c(1)] by (simp add: image_Un)
  next
    case 3
    then have "k \<noteq> rk i" "k \<notin> rk ` set_tree l" using c(5,6) by (auto dest: less_asym)
    then show ?thesis using 3 Node.IH(2) [OF c(2)] by (simp add: image_Un)
  qed (use c(4) in simp)
qed simp

definition fresh_node :: "AvlTree \<Rightarrow> nat \<Rightarrow> bool" where
  "fresh_node T x \<longleftrightarrow> x < NI_MAX_CONTACTS \<and> an_left (at_n T ! x) = TREE_NIL \<and> an_right (at_n T ! x) = TREE_NIL \<and> an_height (at_n T ! x) = 1"

lemma insert_rec_at:
  assumes "tree_at (at_n T) i t" and "distinct (inorder t)" and "avl_shape t" and "height t \<le> 50"
    and "length (at_n T) = NI_MAX_CONTACTS" and "depth + height t < 256" and "fresh_node T x" and "x \<notin> set_tree t"
    and "f = node_cmp tb (at_n T) (an_key (at_n T ! x)) (an_contact_index (at_n T ! x))"
  shows "\<exists>j T'. insert_rec tb T i x ok depth = Some (j, ok \<and> \<not> shape_has f t, T') \<and> tree_at (at_n T') j (ins_shape f x t) \<and>
    pool_moves (insert x (set_tree t)) (depth + height t) T T' \<and> at_free_head T' = at_free_head T"
  using assms(1-4,6,8)
proof (induction t arbitrary: i depth)
  case Leaf
  then have "tree_at (at_n (note_depth T depth)) x (Node Leaf x Leaf)" using assms(7) by (simp add: fresh_node_def)
  then show ?case using Leaf by (simp add: insert_rec.simps [of tb T UINT16_MAX x ok depth])
next
  case (Node l k r)
  have i: "i = k" "k < NI_MAX_CONTACTS" "tree_at (at_n T) (an_left (at_n T ! k)) l" "tree_at (at_n T) (an_right (at_n T ! k)) r"
    using Node.prems(1) by simp_all
  have nn: "k \<noteq> TREE_NIL" using i(2) by simp
  note step = insert_rec.simps [of tb T k x ok depth, folded assms(9), unfolded Let_def]
  have d: "to_u8 (Suc depth) = Suc depth" "(depth + 1) + height l < 256" "(depth + 1) + height r < 256"
    using Node.prems(5) by simp_all
  have pl: "distinct (inorder l)" "avl_shape l" "height l \<le> 50" "x \<notin> set_tree l" using Node.prems by auto
  have pr: "distinct (inorder r)" "avl_shape r" "height r \<le> 50" "x \<notin> set_tree r" using Node.prems by auto
  consider "f k = 0" | "f k \<noteq> 0" "f k < 0" | "f k \<noteq> 0" "\<not> f k < 0" by blast
  then show ?case
  proof cases
    case 1
    then show ?thesis using nn i Node.prems(1) by (simp add: step)
  next
    case 2
    from Node.IH(1) [OF i(3) pl(1-3) d(2) pl(4)] obtain j T1 where
      r: "insert_rec tb T (an_left (at_n T ! k)) x ok (depth + 1) = Some (j, ok \<and> \<not> shape_has f l, T1)"
        "tree_at (at_n T1) j (ins_shape f x l)" "pool_moves (insert x (set_tree l)) (depth + 1 + height l) T T1"
        "at_free_head T1 = at_free_head T" by blast
    note mv = pool_movesD [OF r(3)]
    have k: "at_n T1 ! k = at_n T ! k" by (rule same_butD(3) [OF mv(1)]) (use Node.prems(2,6) in auto)
    have "tree_at (at_n T1) (an_right (at_n T1 ! k)) r"
      unfolding k by (rule tree_at_same_but [OF i(4) mv(1)]) (use Node.prems(2,6) in auto)
    moreover have "distinct (inorder (Node (ins_shape f x l) k r))"
      using Node.prems(2,6) distinct_ins_shape [OF pl(1,4), of f] set_ins_shape [of f x l] by auto
    moreover have "height (ins_shape f x l) \<le> 80" "height r \<le> 80" using ins_shape_avl [OF pl(2), of f x] pl(3) pr(3) by auto
    ultimately obtain q n' where b: "avl_rebalance (set_left T1 k j) k = (q, T1\<lparr>at_n := n'\<rparr>)"
        "tree_at n' q (bal (Node (ins_shape f x l) k r))" "same_but (set_tree (Node (ins_shape f x l) k r)) (at_n T1) n'"
      using rebalance_left_at [of T1 k j "ins_shape f x l" r] mv(2) assms(5) i(2) r(2) by auto
    have "pool_moves (insert x (set_tree (Node l k r))) (depth + height (Node l k r)) T (T1\<lparr>at_n := n'\<rparr>)"
      by (rule pool_moves_then [OF r(3) b(3)]) (use set_ins_shape [of f x l] in auto)
    then show ?thesis using 2 nn r b by (simp add: step i(1) d(1))
  next
    case 3
    from Node.IH(2) [OF i(4) pr(1-3) d(3) pr(4)] obtain j T1 where
      r: "insert_rec tb T (an_right (at_n T ! k)) x ok (depth + 1) = Some (j, ok \<and> \<not> shape_has f r, T1)"
        "tree_at (at_n T1) j (ins_shape f x r)" "pool_moves (insert x (set_tree r)) (depth + 1 + height r) T T1"
        "at_free_head T1 = at_free_head T" by blast
    note mv = pool_movesD [OF r(3)]
    have k: "at_n T1 ! k = at_n T ! k" by (rule same_butD(3) [OF mv(1)]) (use Node.prems(2,6) in auto)
    have "tree_at (at_n T1) (an_left (at_n T1 ! k)) l"
      unfolding k by (rule tree_at_same_but [OF i(3) mv(1)]) (use Node.prems(2,6) in auto)
    moreover have "distinct (inorder (Node l k (ins_shape f x r)))"
      using Node.prems(2,6) distinct_ins_shape [OF pr(1,4), of f] set_ins_shape [of f x r] by auto
    moreover have "height (ins_shape f x r) \<le> 80" "height l \<le> 80" using ins_shape_avl [OF pr(2), of f x] pl(3) pr(3) by auto
    ultimately obtain q n' where b: "avl_rebalance (set_right T1 k j) k = (q, T1\<lparr>at_n := n'\<rparr>)"
        "tree_at n' q (bal (Node l k (ins_shape f x r)))" "same_but (set_tree (Node l k (ins_shape f x r))) (at_n T1) n'"
      using rebalance_right_at [of T1 k j "ins_shape f x r" l] mv(2) assms(5) i(2) r(2) by auto
    have "pool_moves (insert x (set_tree (Node l k r))) (depth + height (Node l k r)) T (T1\<lparr>at_n := n'\<rparr>)"
      by (rule pool_moves_then [OF r(3) b(3)]) (use set_ins_shape [of f x r] in auto)
    then show ?thesis using 3 nn r b by (simp add: step i(1) d(1))
  qed
qed

subsection \<open>Removal\<close>

lemma del_shape_subset:
  "avl_shape t \<Longrightarrow> distinct (inorder t) \<Longrightarrow> set_tree (del_shape f t) \<subseteq> set_tree t \<and> distinct (inorder (del_shape f t))"
proof (induction f t rule: del_shape.induct)
  case (2 f l i r)
  consider "f i < 0" | "\<not> f i < 0" "f i > 0" | "\<not> f i < 0" "\<not> f i > 0" "l = Leaf \<or> r = Leaf"
    | "\<not> f i < 0" "\<not> f i > 0" "l \<noteq> Leaf" "r \<noteq> Leaf" by blast
  then show ?case
  proof cases
    case 1
    then show ?thesis using "2.IH"(1) [OF 1] "2.prems" by auto
  next
    case a: 2
    then show ?thesis using "2.IH"(2) [OF a] "2.prems" by auto
  next
    case 3
    then show ?thesis using "2.prems" by auto
  next
    case 4
    obtain m r' where m: "remmin_shape r = (m, r')" by (meson surj_pair)
    have e: "inorder r = m # inorder r'" using remmin_shape_avl [OF _ 4(4) m] "2.prems"(1) by simp
    then have "set_tree r = insert m (set_tree r')" by (metis list.simps(15) set_inorder)
    then show ?thesis using 4 m "2.prems"(2) e by auto
  qed
qed simp

text \<open>What becomes of the node that was removed: it heads the free list.\<close>

definition freed :: "AvlTree \<Rightarrow> AvlTree \<Rightarrow> nat \<Rightarrow> bool" where
  "freed T T' d \<longleftrightarrow> at_free_head T' = d \<and> an_left (at_n T' ! d) = at_free_head T"

lemma freed_then:
  assumes "freed T T' d" and "same_but S (at_n T') n'" and "d \<notin> S"
  shows "freed T (T'\<lparr>at_n := n'\<rparr>) d"
  using assms same_butD(3) [OF assms(2,3)] by (simp add: freed_def)

lemma node_free_moves:
  assumes "i < length (at_n T)"
  shows "freed T (node_free T i) i" "same_but {i} (at_n T) (at_n (node_free T i))" "at_free_head (node_free T i) = i"
    "pool_moves {i} d T (node_free T i)"
  using assms same_but_update [of "(at_n T ! i)\<lparr>an_left := at_free_head T\<rparr>" "at_n T" i "{i}"]
  by (simp_all add: freed_def node_free_def set_left_def pool_moves_def node_entry_def)

lemma remove_found_at:
  assumes t: "tree_at (at_n T) k (Node l k r)" and dis: "distinct (inorder (Node l k r))" and avl: "avl_shape (Node l k r)"
    and h: "height (Node l k r) \<le> 50" "depth + height (Node l k r) < 256" and len: "length (at_n T) = NI_MAX_CONTACTS"
    and c: "node_cmp tb (at_n T) key s k = 0" and f: "f k = 0"
  shows "\<exists>j T'. remove_rec tb T k key s ok depth = Some (j, ok, T') \<and> tree_at (at_n T') j (del_shape f (Node l k r)) \<and>
    pool_moves (set_tree (Node l k r)) (depth + height (Node l k r)) T T' \<and> freed T T' k"
proof -
  have i: "k < NI_MAX_CONTACTS" "tree_at (at_n T) (an_left (at_n T ! k)) l" "tree_at (at_n T) (an_right (at_n T ! k)) r"
    using t by simp_all
  have nn: "k \<noteq> TREE_NIL" using i(1) by simp
  note step = remove_rec.simps [of tb T k key s ok depth, unfolded Let_def c]
  define T0 where "T0 = node_free T k"
  have kl: "k < length (at_n T)" using i(1) len by simp
  note fr = node_free_moves [OF kl, folded T0_def]
  have l0: "length (at_n T0) = NI_MAX_CONTACTS" using same_butD(1) [OF fr(2)] len by simp
  have t0: "tree_at (at_n T0) (an_left (at_n T ! k)) l" "tree_at (at_n T0) (an_right (at_n T ! k)) r"
    by (rule tree_at_same_but [OF _ fr(2)], use i(2,3) dis in auto)+
  have nil: "an_left (at_n T ! k) = TREE_NIL \<longleftrightarrow> l = Leaf" "an_right (at_n T ! k) = TREE_NIL \<longleftrightarrow> r = Leaf"
    using tree_at_NIL i(2,3) by blast+
  have note_step: "pool_moves (set_tree (Node l k r)) (depth + height (Node l k r)) T (note_depth T0 depth)"
    using fr(4) by (auto simp: pool_moves_def note_depth_def intro: same_but_mono)
  have note_freed: "freed T (note_depth T0 depth) k" using fr(1) by (simp add: freed_def)
  show ?thesis
  proof (cases "l = Leaf \<or> r = Leaf")
    case True
    then show ?thesis
    proof (cases "l = Leaf")
      case True
      then show ?thesis using nn nil(1) t0(2) f note_step note_freed by (simp add: step T0_def [symmetric])
    next
      case False
      then have "r = Leaf" using True by simp
      then show ?thesis using False nn nil t0(1) f note_step note_freed by (simp add: step T0_def [symmetric])
    qed
  next
    case False
    then have lr: "l \<noteq> Leaf" "r \<noteq> Leaf" by simp_all
    obtain m r' where m: "remmin_shape r = (m, r')" by (meson surj_pair)
    have pr: "distinct (inorder r)" "avl_shape r" "height r \<le> 50" "(depth + 1) + height r < 256" using dis avl h by auto
    from remove_min_rec_at [OF t0(2) lr(2) pr(1-3) l0 pr(4) m] obtain j T1 where
      r1: "remove_min_rec T0 (an_right (at_n T ! k)) (Suc depth) = Some (j, m, T1)" "tree_at (at_n T1) j r'"
        "pool_moves (set_tree r) (depth + 1 + height r) T0 T1" "at_free_head T1 = at_free_head T0" by auto
    note mv = pool_movesD [OF r1(3)]
    note rs = remmin_shape_avl [OF pr(2) lr(2) m]
    have sr: "set_tree r = insert m (set_tree r')" using rs by (metis list.simps(15) set_inorder)
    have mr: "m \<notin> set_tree r'" "distinct (inorder r')" using rs pr(1) by auto
    have mb: "m < NI_MAX_CONTACTS" using tree_at_less [OF t0(2)] sr by simp
    define T2 where "T2 = set_left T1 m (an_left (at_n T ! k))"
    have s2: "same_but {m} (at_n T1) (at_n T2)"
      unfolding T2_def set_left_def by (simp add: same_but_update node_entry_def)
    have l2: "length (at_n T2) = NI_MAX_CONTACTS" using same_butD(1) [OF s2] mv(2) l0 by simp
    have "tree_at (at_n T1) (an_left (at_n T ! k)) l" by (rule tree_at_same_but [OF t0(1) mv(1)]) (use dis in auto)
    then have "tree_at (at_n T2) (an_left (at_n T ! k)) l" by (rule tree_at_same_but [OF _ s2]) (use dis sr in auto)
    then have tl: "tree_at (at_n T2) (an_left (at_n T2 ! m)) l" using mb mv(2) l0 by (simp add: T2_def set_left_def)
    have tr: "tree_at (at_n T2) j r'" by (rule tree_at_same_but [OF r1(2) s2]) (use mr in simp)
    have "distinct (inorder (Node l m r'))" using dis sr mr by auto
    moreover have "height l \<le> 80" "height r' \<le> 80" using rs h(1) by auto
    ultimately obtain q n' where b: "avl_rebalance (set_right T2 m j) m = (q, T2\<lparr>at_n := n'\<rparr>)"
        "tree_at n' q (bal (Node l m r'))" "same_but (set_tree (Node l m r')) (at_n T2) n'"
      using rebalance_right_at [OF l2 mb tr tl] by auto
    have T2: "T2\<lparr>at_n := n'\<rparr> = T1\<lparr>at_n := n'\<rparr>" by (simp add: T2_def set_left_def)
    have s12: "same_but (set_tree (Node l m r')) (at_n T1) n'"
      by (rule same_but_mono [OF same_but_trans [OF s2 b(3)]]) auto
    have "pool_moves (set_tree (Node l k r)) (depth + height (Node l k r)) T0 (T1\<lparr>at_n := n'\<rparr>)"
      by (rule pool_moves_then [OF r1(3) s12]) (use sr in auto)
    then have "pool_moves (set_tree (Node l k r)) (depth + height (Node l k r)) T (T1\<lparr>at_n := n'\<rparr>)"
      using fr(4) [of 0] same_but_mono [OF same_but_trans [OF fr(2)], of "set_tree (Node l k r)" n' "set_tree (Node l k r)"]
      by (auto simp: pool_moves_def)
    moreover have "freed T (T1\<lparr>at_n := n'\<rparr>) k"
    proof -
      have "at_n T1 ! k = at_n T0 ! k" by (rule same_butD(3) [OF mv(1)]) (use dis in auto)
      then have "freed T T1 k" using fr(1) r1(4) by (simp add: freed_def)
      then show ?thesis by (rule freed_then [OF _ s12]) (use dis sr in auto)
    qed
    ultimately show ?thesis using lr nn nil r1(1) b f T2 h(2) m
      by (simp add: step T0_def [symmetric] T2_def [symmetric])
  qed
qed

lemma remove_rec_at:
  assumes "tree_at (at_n T) i t" and "distinct (inorder t)" and "avl_shape t" and "height t \<le> 50"
    and "depth + height t < 256" and "length (at_n T) = NI_MAX_CONTACTS" and "f = node_cmp tb (at_n T) key s"
  shows "\<exists>j T'. remove_rec tb T i key s ok depth = Some (j, ok \<and> shape_has f t, T') \<and> tree_at (at_n T') j (del_shape f t) \<and>
    pool_moves (set_tree t) (depth + height t) T T' \<and>
    (if shape_has f t then \<exists>d. d \<in> set_tree t \<and> d \<notin> set_tree (del_shape f t) \<and> f d = 0 \<and> freed T T' d
     else at_free_head T' = at_free_head T)"
  using assms(1-5)
proof (induction t arbitrary: i depth)
  case Leaf
  then show ?case by (simp add: remove_rec.simps [of tb T UINT16_MAX key s ok depth])
next
  case (Node l k r)
  have i: "i = k" "k < NI_MAX_CONTACTS" "tree_at (at_n T) (an_left (at_n T ! k)) l" "tree_at (at_n T) (an_right (at_n T ! k)) r"
    using Node.prems(1) by simp_all
  have nn: "k \<noteq> TREE_NIL" using i(2) by simp
  note step = remove_rec.simps [of tb T k key s ok depth, folded assms(7), unfolded Let_def]
  have d: "to_u8 (Suc depth) = Suc depth" "(depth + 1) + height l < 256" "(depth + 1) + height r < 256"
    using Node.prems(5) by simp_all
  have pl: "distinct (inorder l)" "avl_shape l" "height l \<le> 50" using Node.prems by auto
  have pr: "distinct (inorder r)" "avl_shape r" "height r \<le> 50" using Node.prems by auto
  note dl = del_shape_subset [OF pl(2,1), of f]
  note dr = del_shape_subset [OF pr(2,1), of f]
  consider "f k = 0" | "f k < 0" | "f k \<noteq> 0" "\<not> f k < 0" "f k > 0" by linarith
  then show ?case
  proof cases
    case 1
    have c: "node_cmp tb (at_n T) key s k = 0" using 1 by (simp add: assms(7))
    from remove_found_at [where f = f and ok = ok, OF Node.prems(1) [unfolded i(1)] Node.prems(2,3,4,5) assms(6) c 1] obtain j T' where
      r: "remove_rec tb T k key s ok depth = Some (j, ok, T')" "tree_at (at_n T') j (del_shape f (Node l k r))"
        "pool_moves (set_tree (Node l k r)) (depth + height (Node l k r)) T T'" "freed T T' k" by blast
    have kn: "k \<notin> set_tree (del_shape f (Node l k r))"
    proof (cases "l = Leaf \<or> r = Leaf")
      case True
      then show ?thesis using 1 Node.prems(2) by auto
    next
      case False
      obtain m r' where m: "remmin_shape r = (m, r')" by (meson surj_pair)
      have "inorder r = m # inorder r'" using remmin_shape_avl [OF pr(2) _ m] False by simp
      then have "set_tree r = insert m (set_tree r')" by (metis list.simps(15) set_inorder)
      then show ?thesis using 1 False m Node.prems(2) by auto
    qed
    have sh: "shape_has f (Node l k r) = True" using 1 by simp
    have "\<exists>d. d \<in> set_tree (Node l k r) \<and> d \<notin> set_tree (del_shape f (Node l k r)) \<and> f d = 0 \<and> freed T T' d"
      by (rule exI [of _ k], intro conjI, simp, rule kn, rule 1, rule r(4))
    then show ?thesis unfolding i(1) sh if_True simp_thms using r(1-3) by blast
  next
    case 2
    from Node.IH(1) [OF i(3) pl d(2)] obtain j T1 where
      r: "remove_rec tb T (an_left (at_n T ! k)) key s ok (Suc depth) = Some (j, ok \<and> shape_has f l, T1)"
        "tree_at (at_n T1) j (del_shape f l)" "pool_moves (set_tree l) (depth + 1 + height l) T T1"
        "if shape_has f l then \<exists>d. d \<in> set_tree l \<and> d \<notin> set_tree (del_shape f l) \<and> f d = 0 \<and> freed T T1 d
         else at_free_head T1 = at_free_head T" by auto
    note mv = pool_movesD [OF r(3)]
    have k: "at_n T1 ! k = at_n T ! k" by (rule same_butD(3) [OF mv(1)]) (use Node.prems(2) in auto)
    have "tree_at (at_n T1) (an_right (at_n T1 ! k)) r"
      unfolding k by (rule tree_at_same_but [OF i(4) mv(1)]) (use Node.prems(2) in auto)
    moreover have "distinct (inorder (Node (del_shape f l) k r))" using Node.prems(2) dl by auto
    moreover have "height (del_shape f l) \<le> 80" "height r \<le> 80" using del_shape_avl [OF pl(2), of f] pl(3) pr(3) by auto
    ultimately obtain q n' where b: "avl_rebalance (set_left T1 k j) k = (q, T1\<lparr>at_n := n'\<rparr>)"
        "tree_at n' q (bal (Node (del_shape f l) k r))" "same_but (set_tree (Node (del_shape f l) k r)) (at_n T1) n'"
      using rebalance_left_at [of T1 k j "del_shape f l" r] mv(2) assms(6) i(2) r(2) by auto
    have mvs: "pool_moves (set_tree (Node l k r)) (depth + height (Node l k r)) T (T1\<lparr>at_n := n'\<rparr>)"
      by (rule pool_moves_then [OF r(3) b(3)]) (use dl in auto)
    have "if shape_has f l then \<exists>d. d \<in> set_tree l \<and> d \<notin> set_tree (Node (del_shape f l) k r) \<and> f d = 0 \<and> freed T (T1\<lparr>at_n := n'\<rparr>) d
        else at_free_head T1 = at_free_head T"
    proof (cases "shape_has f l")
      case True
      then obtain d where d: "d \<in> set_tree l" "d \<notin> set_tree (del_shape f l)" "f d = 0" "freed T T1 d" using r(4) by auto
      have "d \<notin> set_tree (Node (del_shape f l) k r)" using d(1,2) Node.prems(2) by auto
      then show ?thesis using True d freed_then [OF d(4) b(3)] by auto
    qed (use r(4) in simp)
    then show ?thesis using 2 nn r(1) b mvs d(1) by (simp add: step i(1)) (auto split: if_splits)
  next
    case 3
    from Node.IH(2) [OF i(4) pr d(3)] obtain j T1 where
      r: "remove_rec tb T (an_right (at_n T ! k)) key s ok (Suc depth) = Some (j, ok \<and> shape_has f r, T1)"
        "tree_at (at_n T1) j (del_shape f r)" "pool_moves (set_tree r) (depth + 1 + height r) T T1"
        "if shape_has f r then \<exists>d. d \<in> set_tree r \<and> d \<notin> set_tree (del_shape f r) \<and> f d = 0 \<and> freed T T1 d
         else at_free_head T1 = at_free_head T" by auto
    note mv = pool_movesD [OF r(3)]
    have k: "at_n T1 ! k = at_n T ! k" by (rule same_butD(3) [OF mv(1)]) (use Node.prems(2) in auto)
    have "tree_at (at_n T1) (an_left (at_n T1 ! k)) l"
      unfolding k by (rule tree_at_same_but [OF i(3) mv(1)]) (use Node.prems(2) in auto)
    moreover have "distinct (inorder (Node l k (del_shape f r)))" using Node.prems(2) dr by auto
    moreover have "height (del_shape f r) \<le> 80" "height l \<le> 80" using del_shape_avl [OF pr(2), of f] pl(3) pr(3) by auto
    ultimately obtain q n' where b: "avl_rebalance (set_right T1 k j) k = (q, T1\<lparr>at_n := n'\<rparr>)"
        "tree_at n' q (bal (Node l k (del_shape f r)))" "same_but (set_tree (Node l k (del_shape f r))) (at_n T1) n'"
      using rebalance_right_at [of T1 k j "del_shape f r" l] mv(2) assms(6) i(2) r(2) by auto
    have mvs: "pool_moves (set_tree (Node l k r)) (depth + height (Node l k r)) T (T1\<lparr>at_n := n'\<rparr>)"
      by (rule pool_moves_then [OF r(3) b(3)]) (use dr in auto)
    have "if shape_has f r then \<exists>d. d \<in> set_tree r \<and> d \<notin> set_tree (Node l k (del_shape f r)) \<and> f d = 0 \<and> freed T (T1\<lparr>at_n := n'\<rparr>) d
        else at_free_head T1 = at_free_head T"
    proof (cases "shape_has f r")
      case True
      then obtain d where d: "d \<in> set_tree r" "d \<notin> set_tree (del_shape f r)" "f d = 0" "freed T T1 d" using r(4) by auto
      have "d \<notin> set_tree (Node l k (del_shape f r))" using d(1,2) Node.prems(2) by auto
      then show ?thesis using True d freed_then [OF d(4) b(3)] by auto
    qed (use r(4) in simp)
    then show ?thesis using 3 nn r(1) b mvs d(1) by (simp add: step i(1)) (auto split: if_splits)
  qed
qed

end
