(* ===== verification/Avl_Ops.thy ===== *)
theory Avl_Ops
  imports Avl_Pool Heap_Sort
begin

text \<open>
  The operations of \<^verbatim>\<open>avl_tree.c\<close> on a whole tree, over the recursions of \<^verbatim>\<open>Avl_Pool\<close>: insert, remove, find,
  the in-order iterator with its stack of 24 nodes, the self-check, and the bulk rebuild.
\<close>

subsection \<open>The operations\<close>

definition avl_reset_max_depth :: "AvlTree \<Rightarrow> AvlTree" where
  "avl_reset_max_depth t = t\<lparr>at_max_depth := 0\<rparr>"

definition avl_init :: "AvlTree \<Rightarrow> AvlTree" where
  "avl_init t =
     (let t = fold (\<lambda>i t. set_left t i (to_u16 (i + 1))) [0 ..< NI_MAX_CONTACTS] t;
          t = set_left t (NI_MAX_CONTACTS - 1) TREE_NIL
      in t\<lparr>at_free_head := 0, at_root := TREE_NIL, at_count := 0\<rparr>)"

definition avl_insert_key :: "(nat \<Rightarrow> nat \<Rightarrow> int) \<Rightarrow> AvlTree \<Rightarrow> byte list \<Rightarrow> nat \<Rightarrow> (bool \<times> AvlTree) option" where
  "avl_insert_key tb t key contact_index =
     (case node_alloc t of (fresh, t) \<Rightarrow>
        if fresh = TREE_NIL then Some (False, t)
        else let t = t\<lparr>at_n := (at_n t)[fresh := (at_n t ! fresh)\<lparr>an_key := key, an_contact_index := contact_index,
                       an_message_index := NO_MESSAGE, an_left := TREE_NIL, an_right := TREE_NIL, an_height := 1\<rparr>]\<rparr>
        in Option.bind (insert_rec tb t (at_root t) fresh True 1)
             (\<lambda>(root, ok, t).
                let t = t\<lparr>at_root := root\<rparr>
                in if \<not> ok then Some (False, node_free t fresh) else Some (True, t\<lparr>at_count := to_u16 (at_count t + 1)\<rparr>)))"

definition avl_insert :: "(nat \<Rightarrow> nat \<Rightarrow> int) \<Rightarrow> AvlTree \<Rightarrow> byte list \<Rightarrow> nat \<Rightarrow> (bool \<times> AvlTree) option" where
  "avl_insert tb t name contact_index = avl_insert_key tb t (ni_make_key name) contact_index"

definition avl_remove :: "(nat \<Rightarrow> nat \<Rightarrow> int) \<Rightarrow> AvlTree \<Rightarrow> byte list \<Rightarrow> nat \<Rightarrow> (bool \<times> AvlTree) option" where
  "avl_remove tb t name contact_index =
     Option.bind (remove_rec tb t (at_root t) (ni_make_key name) contact_index True 1)
       (\<lambda>(root, ok, t).
          let t = t\<lparr>at_root := root\<rparr> in Some (ok, if ok then t\<lparr>at_count := at_count t - 1\<rparr> else t))"

partial_function (option) find_exact_loop :: "(nat \<Rightarrow> nat \<Rightarrow> int) \<Rightarrow> AvlNode list \<Rightarrow> byte list \<Rightarrow> nat \<Rightarrow> nat \<Rightarrow> nat option" where
  "find_exact_loop tb n key sector i =
     (if i \<noteq> TREE_NIL then
        let c = node_cmp tb n key sector i
        in if c = 0 then Some i
           else find_exact_loop tb n key sector (if c < 0 then an_left (n ! i) else an_right (n ! i))
      else Some TREE_NIL)"

definition find_exact :: "(nat \<Rightarrow> nat \<Rightarrow> int) \<Rightarrow> AvlTree \<Rightarrow> byte list \<Rightarrow> nat \<Rightarrow> nat option" where
  "find_exact tb t key sector = find_exact_loop tb (at_n t) key sector (at_root t)"

definition probe_cmp :: "(nat \<Rightarrow> nat \<Rightarrow> int) \<Rightarrow> AvlNode list \<Rightarrow> byte list \<Rightarrow> nat \<Rightarrow> int" where
  "probe_cmp tb n key i = ni_cmp (an_key (n ! i)) (an_contact_index (n ! i)) key NI_PROBE_SECTOR tb"

partial_function (option) avl_find_loop :: "(nat \<Rightarrow> nat \<Rightarrow> int) \<Rightarrow> AvlNode list \<Rightarrow> byte list \<Rightarrow> nat \<Rightarrow> nat \<Rightarrow> nat option" where
  "avl_find_loop tb n key i match =
     (if i \<noteq> TREE_NIL then
        let c = probe_cmp tb n key i
        in if c \<ge> 0 then avl_find_loop tb n key (an_left (n ! i)) (if c = 0 then i else match)
           else avl_find_loop tb n key (an_right (n ! i)) match
      else Some match)"

definition avl_find :: "(nat \<Rightarrow> nat \<Rightarrow> int) \<Rightarrow> AvlTree \<Rightarrow> byte list \<Rightarrow> nat option" where
  "avl_find tb t name =
     map_option (\<lambda>match. if match = TREE_NIL then NI_NOT_FOUND else an_contact_index (at_n t ! match))
       (avl_find_loop tb (at_n t) (ni_make_key name) (at_root t) TREE_NIL)"

definition avl_set_message :: "(nat \<Rightarrow> nat \<Rightarrow> int) \<Rightarrow> AvlTree \<Rightarrow> byte list \<Rightarrow> nat \<Rightarrow> nat \<Rightarrow> (bool \<times> AvlTree) option" where
  "avl_set_message tb t name contact_index message_index =
     map_option (\<lambda>i. if i = TREE_NIL then (False, t)
                     else (True, t\<lparr>at_n := (at_n t)[i := (at_n t ! i)\<lparr>an_message_index := message_index\<rparr>]\<rparr>))
       (find_exact tb t (ni_make_key name) contact_index)"

definition avl_height :: "AvlTree \<Rightarrow> int" where
  "avl_height t = avl_h (at_n t) (at_root t)"

partial_function (option) valid_rec :: "AvlTree \<Rightarrow> nat \<Rightarrow> nat \<Rightarrow> (int \<times> nat) option" where
  "valid_rec t i seen =
     (if i = TREE_NIL then Some (0, seen)
      else if i \<ge> NI_MAX_CONTACTS then Some (-1, seen)
      else let seen = to_u16 (seen + 1)
      in if seen > at_count t then Some (-1, seen)
      else Option.bind (valid_rec t (an_left (at_n t ! i)) seen) (\<lambda>(hl, seen).
           Option.bind (valid_rec t (an_right (at_n t ! i)) seen) (\<lambda>(hr, seen).
             Some (if hl < 0 \<or> hr < 0 \<or> hl - hr > 1 \<or> hr - hl > 1 then -1
                   else let hi = 1 + (if hl > hr then hl else hr) in if hi = an_height (at_n t ! i) then hi else -1, seen))))"

definition avl_valid :: "AvlTree \<Rightarrow> bool option" where
  "avl_valid t = map_option (\<lambda>(r, seen). r \<ge> 0 \<and> seen = at_count t) (valid_rec t (at_root t) 0)"

text \<open>An iterator is the used part of its stack, the top first.\<close>

function push_left :: "AvlNode list \<Rightarrow> nat list \<Rightarrow> nat \<Rightarrow> bool \<times> nat list" where
  "push_left n stack i =
     (if i \<noteq> TREE_NIL then if length stack \<ge> AVL_ITER_DEPTH then (False, stack) else push_left n (i # stack) (an_left (n ! i))
      else (True, stack))"
  by pat_completeness auto
termination by (relation "measure (\<lambda>(_, stack, _). AVL_ITER_DEPTH - length stack)") auto

declare push_left.simps [simp del]

definition avl_begin :: "AvlTree \<Rightarrow> bool \<times> nat list" where
  "avl_begin t = push_left (at_n t) [] (at_root t)"

definition avl_next :: "AvlTree \<Rightarrow> nat list \<Rightarrow> NiEntry option \<times> nat list" where
  "avl_next t stack =
     (case stack of
        [] \<Rightarrow> (None, [])
      | i # stack \<Rightarrow> (Some (node_entry (at_n t ! i)), snd (push_left (at_n t) stack (an_right (at_n t ! i)))))"

primrec seek_rank_loop :: "AvlNode list \<Rightarrow> nat list \<Rightarrow> nat \<Rightarrow> bool \<times> nat list" where
  "seek_rank_loop n stack 0 = (stack \<noteq> [], stack)"
| "seek_rank_loop n stack (Suc k) =
     (case stack of
        [] \<Rightarrow> (False, [])
      | i # stack \<Rightarrow> seek_rank_loop n (snd (push_left n stack (an_right (n ! i)))) k)"

definition avl_seek_rank :: "AvlTree \<Rightarrow> nat \<Rightarrow> bool \<times> nat list" where
  "avl_seek_rank t rank = (case avl_begin t of (ok, stack) \<Rightarrow> if \<not> ok then (False, stack) else seek_rank_loop (at_n t) stack rank)"

partial_function (option) avl_seek_loop :: "(nat \<Rightarrow> nat \<Rightarrow> int) \<Rightarrow> AvlNode list \<Rightarrow> byte list \<Rightarrow> nat list \<Rightarrow> nat \<Rightarrow> (bool \<times> nat list) option" where
  "avl_seek_loop tb n key stack i =
     (if i \<noteq> TREE_NIL then
        if probe_cmp tb n key i \<ge> 0 then
          if length stack \<ge> AVL_ITER_DEPTH then Some (False, stack) else avl_seek_loop tb n key (i # stack) (an_left (n ! i))
        else avl_seek_loop tb n key stack (an_right (n ! i))
      else Some (True, stack))"

definition avl_seek :: "(nat \<Rightarrow> nat \<Rightarrow> int) \<Rightarrow> AvlTree \<Rightarrow> byte list \<Rightarrow> (bool \<times> nat list) option" where
  "avl_seek tb t name = avl_seek_loop tb (at_n t) (ni_make_key name) [] (at_root t)"

primrec avl_read :: "AvlTree \<Rightarrow> nat list \<Rightarrow> nat \<Rightarrow> NiEntry list" where
  "avl_read t stack 0 = []"
| "avl_read t stack (Suc k) = (case avl_next t stack of (None, _) \<Rightarrow> [] | (Some e, stack) \<Rightarrow> e # avl_read t stack k)"

subsection \<open>Rebuilding\<close>

definition avl_rebuild_begin :: "AvlTree \<Rightarrow> AvlTree" where
  "avl_rebuild_begin t = t\<lparr>at_root := TREE_NIL, at_count := 0\<rparr>"

definition avl_rebuild_add :: "AvlTree \<Rightarrow> byte list \<Rightarrow> nat \<Rightarrow> bool \<times> AvlTree" where
  "avl_rebuild_add t key contact_index =
     (if at_count t \<ge> NI_MAX_CONTACTS then (False, t)
      else (True, t\<lparr>at_n := (at_n t)[at_count t := (at_n t ! at_count t)\<lparr>an_key := key, an_contact_index := contact_index,
                             an_message_index := NO_MESSAGE\<rparr>],
                    at_count := at_count t + 1\<rparr>))"

partial_function (option) link_balanced :: "AvlTree \<Rightarrow> int \<Rightarrow> int \<Rightarrow> nat \<Rightarrow> (nat \<times> AvlTree) option" where
  "link_balanced t lo hi depth =
     (if lo > hi then Some (TREE_NIL, t)
      else let t = note_depth t depth; mid = to_u16 (nat (lo + (hi - lo) div 2))
      in Option.bind (link_balanced t lo (int mid - 1) (to_u8 (depth + 1))) (\<lambda>(l, t).
         let t = set_left t mid l
         in Option.bind (link_balanced t (int mid + 1) hi (to_u8 (depth + 1))) (\<lambda>(r, t).
            let t = set_right t mid r in Some (mid, t\<lparr>at_n := update_height (at_n t) mid\<rparr>))))"

text \<open>\<^verbatim>\<open>sift_down\<close> and the loops around it are those of \<open>heap_sort\<close>, on whole nodes.\<close>

definition avl_rebuild_finish :: "(nat \<Rightarrow> nat \<Rightarrow> int) \<Rightarrow> AvlTree \<Rightarrow> AvlTree option" where
  "avl_rebuild_finish tb t =
     (let n = at_count t;
          t = t\<lparr>at_n := snd (heap_sort (\<lambda>x y. Inr (ni_cmp (an_key x) (an_contact_index x) (an_key y) (an_contact_index y) tb)) (at_n t) n)\<rparr>
      in Option.bind (link_balanced t 0 (int n - 1) 1) (\<lambda>(root, t).
         Some (fold (\<lambda>i t. node_free t i) (rev [n ..< NI_MAX_CONTACTS]) (t\<lparr>at_root := root, at_free_head := TREE_NIL\<rparr>))))"

definition avl_rebuild :: "(nat \<Rightarrow> nat \<Rightarrow> int) \<Rightarrow> AvlTree \<Rightarrow> (byte list \<times> nat) list \<Rightarrow> (bool \<times> AvlTree) option" where
  "avl_rebuild tb t nss =
     (let t = avl_rebuild_begin t
      in if length nss > NI_MAX_CONTACTS then Some (False, avl_init t)
         else map_option (Pair True)
           (avl_rebuild_finish tb (fold (\<lambda>(name, s) t. snd (avl_rebuild_add t (ni_make_key name) s)) nss t)))"

end
