(* ===== verification/Ni_Names.thy ===== *)
theory Ni_Names
  imports Ni_Index
begin

text \<open>
  The name table of the benchmark, \<^verbatim>\<open>bench_names.c\<close>: each sector has a name of two words, and the tie-break
  compares the names character by character without composing them.  The word lists are fields of the table, since
  nothing depends on which words they hold; the state of the generator of random names is passed along.  The
  counter of the calls is left out.
\<close>

record NiName =
  nn_first :: nat
  nn_last :: nat

record NiNameTable =
  nb_first_words :: "byte list list"
  nb_last_words :: "byte list list"
  nb_names :: "NiName list"
  nb_probe :: NiName

definition NB_NAME_MAX :: nat where [simp]: "NB_NAME_MAX = 40"

definition nb_compose :: "NiNameTable \<Rightarrow> NiName \<Rightarrow> byte list" where
  "nb_compose N name =
     (let f = take (NB_NAME_MAX - 2) (cstr (nb_first_words N ! nn_first name)) @ [32]
      in f @ take (NB_NAME_MAX - 1 - length f) (cstr (nb_last_words N ! nn_last name)))"

definition nb_set :: "NiNameTable \<Rightarrow> byte list list \<Rightarrow> nat \<Rightarrow> NiName \<Rightarrow> NiNameTable \<times> byte list list" where
  "nb_set N nb_keys sector name =
     (N\<lparr>nb_names := (nb_names N)[sector := name]\<rparr>, nb_keys[sector := ni_make_key (nb_compose N name)])"

definition nb_set_probe :: "NiNameTable \<Rightarrow> NiName \<Rightarrow> NiNameTable" where
  "nb_set_probe N name = N\<lparr>nb_probe := name\<rparr>"

subsection \<open>The generator\<close>

definition NB_SEED :: "32 word" where [simp]: "NB_SEED = 20261014"
definition NB_LAST_MISS :: nat where [simp]: "NB_LAST_MISS = 2"
definition NB_FIRST_SHORT_LO :: nat where [simp]: "NB_FIRST_SHORT_LO = 2"
definition NB_FIRST_SHORT_HI :: nat where [simp]: "NB_FIRST_SHORT_HI = 86"
definition NB_LAST_LO :: nat where [simp]: "NB_LAST_LO = 3"
definition NB_FIRST_COUNT :: "NiNameTable \<Rightarrow> nat" where "NB_FIRST_COUNT N = to_u16 (length (nb_first_words N))"
definition NB_FIRST_LONG_LO :: "NiNameTable \<Rightarrow> nat" where "NB_FIRST_LONG_LO N = to_u16 (NB_FIRST_COUNT N - 16)"
definition NB_LAST_COUNT :: "NiNameTable \<Rightarrow> nat" where "NB_LAST_COUNT N = to_u16 (length (nb_last_words N))"

datatype NbDist = NB_DIST_RANDOM | NB_DIST_ASCENDING | NB_DIST_DESCENDING | NB_DIST_PREFIX

primrec NbDist_code :: "NbDist \<Rightarrow> nat" where
  "NbDist_code NB_DIST_RANDOM = 0"
| "NbDist_code NB_DIST_ASCENDING = 1"
| "NbDist_code NB_DIST_DESCENDING = 2"
| "NbDist_code NB_DIST_PREFIX = 3"

definition nb_seed :: "32 word \<Rightarrow> 32 word" where
  "nb_seed seed = (if seed \<noteq> 0 then seed else NB_SEED)"

text \<open>The number drawn is also the new state.\<close>

definition nb_rand :: "32 word \<Rightarrow> 32 word" where
  "nb_rand x =
     (let x = x XOR push_bit 13 x;
          x = x XOR drop_bit 17 x
      in x XOR push_bit 5 x)"

definition nb_rand_below :: "32 word \<Rightarrow> nat \<Rightarrow> nat \<times> 32 word" where
  "nb_rand_below state n = (unat (nb_rand state) * n div 2 ^ 32, nb_rand state)"

definition rand_range :: "32 word \<Rightarrow> nat \<Rightarrow> nat \<Rightarrow> nat \<times> 32 word" where
  "rand_range state lo hi = (case nb_rand_below state (hi - lo) of (r, state) \<Rightarrow> (to_u16 (lo + r), state))"

definition nb_draw :: "NiNameTable \<Rightarrow> 32 word \<Rightarrow> NbDist \<Rightarrow> NiName \<times> 32 word" where
  "nb_draw N state dist =
     (let (f, state) =
            (if dist = NB_DIST_PREFIX then
               case nb_rand_below state 100 of (r, state) \<Rightarrow>
                 if r < 30 then rand_range state (NB_FIRST_LONG_LO N) (NB_FIRST_COUNT N)
                 else rand_range state NB_FIRST_SHORT_LO NB_FIRST_SHORT_HI
             else rand_range state NB_FIRST_SHORT_LO (NB_FIRST_COUNT N));
          (l, state) = rand_range state NB_LAST_LO (NB_LAST_COUNT N)
      in (\<lparr>nn_first = f, nn_last = l\<rparr>, state))"

definition nb_draw_miss :: "NiNameTable \<Rightarrow> 32 word \<Rightarrow> NiName \<times> 32 word" where
  "nb_draw_miss N state =
     (case rand_range state NB_FIRST_SHORT_LO (NB_FIRST_COUNT N) of (f, state) \<Rightarrow> (\<lparr>nn_first = f, nn_last = NB_LAST_MISS\<rparr>, state))"

primrec nb_generate_from :: "NiNameTable \<Rightarrow> byte list list \<Rightarrow> 32 word \<Rightarrow> NbDist \<Rightarrow> nat \<Rightarrow> NiNameTable \<times> byte list list \<times> 32 word" where
  "nb_generate_from N keys state dist 0 = (N, keys, state)"
| "nb_generate_from N keys state dist (Suc n) =
     (case nb_generate_from N keys state dist n of (N, keys, state) \<Rightarrow>
        case nb_draw N state dist of (name, state) \<Rightarrow>
          case nb_set N keys n name of (N, keys) \<Rightarrow> (N, keys, state))"

definition nb_generate :: "NiNameTable \<Rightarrow> byte list list \<Rightarrow> NbDist \<Rightarrow> nat \<Rightarrow> NiNameTable \<times> byte list list \<times> 32 word" where
  "nb_generate N keys dist n = nb_generate_from N keys (nb_seed (NB_SEED XOR push_bit 24 (of_nat (NbDist_code dist)))) dist n"

lemma nb_rand_below_less: "0 < n \<Longrightarrow> fst (nb_rand_below state n) < n"
proof -
  assume n: "0 < n"
  have "unat (nb_rand state) < 2 ^ 32" using unsigned_less [of "nb_rand state"] by simp
  then have "unat (nb_rand state) * n < n * 2 ^ 32" using n by (simp add: mult.commute)
  then show ?thesis by (simp add: nb_rand_below_def less_mult_imp_div_less)
qed

lemma rand_range_bounds:
  assumes "lo < hi" and "hi \<le> 65536"
  shows "lo \<le> fst (rand_range state lo hi)" "fst (rand_range state lo hi) < hi"
proof -
  obtain r state' where r: "nb_rand_below state (hi - lo) = (r, state')" by (meson surj_pair)
  have "r < hi - lo" using nb_rand_below_less [of "hi - lo" state] assms(1) by (simp add: r)
  then show "lo \<le> fst (rand_range state lo hi)" "fst (rand_range state lo hi) < hi"
    using assms(2) by (simp_all add: rand_range_def r)
qed

text \<open>A drawn name has words of the lists, and none of the reserved ones.\<close>

lemma nb_draw_range:
  assumes f: "NB_FIRST_SHORT_HI \<le> NB_FIRST_COUNT N" and l: "NB_LAST_LO < NB_LAST_COUNT N" and d: "nb_draw N state dist = (name, state')"
  shows "NB_FIRST_SHORT_LO \<le> nn_first name" "nn_first name < NB_FIRST_COUNT N" "NB_LAST_LO \<le> nn_last name" "nn_last name < NB_LAST_COUNT N"
proof -
  have c: "NB_FIRST_COUNT N \<le> 65536" "NB_LAST_COUNT N \<le> 65536"
    by (simp_all add: NB_FIRST_COUNT_def NB_LAST_COUNT_def less_imp_le)
  then have g: "NB_FIRST_LONG_LO N = NB_FIRST_COUNT N - 16" by (simp add: NB_FIRST_LONG_LO_def)
  obtain r s0 where r: "nb_rand_below state 100 = (r, s0)" by (meson surj_pair)
  define fs where "fs = (if dist = NB_DIST_PREFIX then
      if r < 30 then rand_range s0 (NB_FIRST_LONG_LO N) (NB_FIRST_COUNT N) else rand_range s0 NB_FIRST_SHORT_LO NB_FIRST_SHORT_HI
    else rand_range state NB_FIRST_SHORT_LO (NB_FIRST_COUNT N))"
  obtain w s1 where w: "fs = (w, s1)" by (meson surj_pair)
  have name: "name = \<lparr>nn_first = w, nn_last = fst (rand_range s1 NB_LAST_LO (NB_LAST_COUNT N))\<rparr>"
    using d w unfolding nb_draw_def r fs_def prod.case by (auto simp: Let_def split: prod.splits)
  show "NB_LAST_LO \<le> nn_last name" "nn_last name < NB_LAST_COUNT N"
    using rand_range_bounds [OF l c(2), of s1] by (simp_all add: name)
  have "NB_FIRST_SHORT_LO \<le> fst fs \<and> fst fs < NB_FIRST_COUNT N"
    using rand_range_bounds [of "NB_FIRST_LONG_LO N" "NB_FIRST_COUNT N" s0] rand_range_bounds [of NB_FIRST_SHORT_LO NB_FIRST_SHORT_HI s0]
      rand_range_bounds [of NB_FIRST_SHORT_LO "NB_FIRST_COUNT N" state] f c(1) g by (auto simp: fs_def)
  then show "NB_FIRST_SHORT_LO \<le> nn_first name" "nn_first name < NB_FIRST_COUNT N" by (simp_all add: name w)
qed

subsection \<open>The cursor over a name\<close>

record NameCursor =
  nc_p :: "byte list"
  nc_last :: "byte list option"

definition cursor_next :: "NameCursor \<Rightarrow> int \<times> NameCursor" where
  "cursor_next c =
     (case nc_p c of
        x # p \<Rightarrow> (uint x, c\<lparr>nc_p := p\<rparr>)
      | [] \<Rightarrow> (case nc_last c of Some l \<Rightarrow> (32, \<lparr>nc_p = l, nc_last = None\<rparr>) | None \<Rightarrow> (0, c)))"

definition nb_fold :: "int \<Rightarrow> int" where
  "nb_fold ch = (if 65 \<le> ch \<and> ch \<le> 90 then ch + (97 - 65) else ch)"

definition cursor_rest :: "NameCursor \<Rightarrow> byte list" where
  "cursor_rest c = nc_p c @ (case nc_last c of Some l \<Rightarrow> 32 # l | None \<Rightarrow> [])"

lemma cursor_next_rest:
  "cursor_next c = (case cursor_rest c of [] \<Rightarrow> (0, c) | x # xs \<Rightarrow> (uint x, snd (cursor_next c)))"
  "cursor_rest (snd (cursor_next c)) = tl (cursor_rest c)"
  by (auto simp: cursor_next_def cursor_rest_def split: list.split option.split)

lemma cursor_next_ends:
  assumes "(x, c') = cursor_next c" and "(if folded then nb_fold x else x) = z" and "z \<noteq> 0"
  shows "length (cursor_rest c') < length (cursor_rest c)"
proof -
  have "cursor_rest c \<noteq> []"
  proof
    assume "cursor_rest c = []"
    then have "x = 0" using assms(1) cursor_next_rest(1) [of c] by (metis list.simps(4) prod.inject)
    then show False using assms(2,3) by (simp add: nb_fold_def split: if_splits)
  qed
  moreover have "cursor_rest c' = tl (cursor_rest c)" using cursor_next_rest(2) [of c] assms(1) by (metis snd_conv)
  ultimately show ?thesis by simp
qed

function full_name_loop :: "NameCursor \<Rightarrow> NameCursor \<Rightarrow> bool \<Rightarrow> int" where
  "full_name_loop ca cb folded =
     (let (x, ca) = cursor_next ca;
          (y, cb) = cursor_next cb;
          x = (if folded then nb_fold x else x);
          y = (if folded then nb_fold y else y)
      in if x \<noteq> y then x - y else if x = 0 then 0 else full_name_loop ca cb folded)"
  by pat_completeness auto
termination
  by (relation "measure (\<lambda>(ca, _, _). length (cursor_rest ca))") (simp_all, erule cursor_next_ends, assumption+)

declare full_name_loop.simps [simp del]

definition nb_cursor :: "NiNameTable \<Rightarrow> NiName \<Rightarrow> NameCursor" where
  "nb_cursor N a = \<lparr>nc_p = cstr (nb_first_words N ! nn_first a), nc_last = Some (cstr (nb_last_words N ! nn_last a))\<rparr>"

definition full_name_cmp :: "NiNameTable \<Rightarrow> NiName \<Rightarrow> NiName \<Rightarrow> bool \<Rightarrow> int" where
  "full_name_cmp N a b folded = full_name_loop (nb_cursor N a) (nb_cursor N b) folded"

definition nb_tiebreak :: "NiNameTable \<Rightarrow> nat \<Rightarrow> nat \<Rightarrow> int" where
  "nb_tiebreak N sector_a sector_b =
     (let a = (if sector_a = NI_PROBE_SECTOR then nb_probe N else nb_names N ! sector_a);
          b = (if sector_b = NI_PROBE_SECTOR then nb_probe N else nb_names N ! sector_b);
          c = full_name_cmp N a b True;
          c = (if c = 0 then full_name_cmp N a b False else c)
      in if c \<noteq> 0 then c
         else if sector_a = NI_PROBE_SECTOR \<or> sector_b = NI_PROBE_SECTOR then 0
         else (if sector_a > sector_b then 1 else 0) - (if sector_a < sector_b then 1 else 0))"

subsection \<open>The comparison is lexicographic\<close>

definition full_name :: "NiNameTable \<Rightarrow> NiName \<Rightarrow> byte list" where
  "full_name N a = cstr (nb_first_words N ! nn_first a) @ 32 # cstr (nb_last_words N ! nn_last a)"

definition name_char :: "bool \<Rightarrow> int \<Rightarrow> int" where
  "name_char folded x = (if folded then nb_fold x else x)"

definition name_chars :: "bool \<Rightarrow> byte list \<Rightarrow> int list" where
  "name_chars folded = map (\<lambda>c. name_char folded (uint c))"

lemma char_pos: "c \<noteq> 0 \<Longrightarrow> name_char folded (uint (c :: byte)) > 0"
proof -
  assume "c \<noteq> 0"
  then have "uint c > 0" using uint_ge_0 [of c] by (metis le_less uint_0_iff)
  then show ?thesis by (simp add: name_char_def nb_fold_def)
qed

lemma name_char_0 [simp]: "name_char folded 0 = 0"
  by (simp add: name_char_def nb_fold_def)

lemma full_name_loop_order:
  assumes "0 \<notin> set (cursor_rest ca)" and "0 \<notin> set (cursor_rest cb)"
  shows "(full_name_loop ca cb folded < 0 \<longleftrightarrow> name_chars folded (cursor_rest ca) < name_chars folded (cursor_rest cb)) \<and>
    (full_name_loop ca cb folded = 0 \<longleftrightarrow> name_chars folded (cursor_rest ca) = name_chars folded (cursor_rest cb))"
  using assms
proof (induction "length (cursor_rest ca)" arbitrary: ca cb rule: less_induct)
  case less
  obtain x ca' where a: "cursor_next ca = (x, ca')" by (meson surj_pair)
  obtain y cb' where b: "cursor_next cb = (y, cb')" by (meson surj_pair)
  have run: "full_name_loop ca cb folded = (if name_char folded x \<noteq> name_char folded y then name_char folded x - name_char folded y else if name_char folded x = 0 then 0 else full_name_loop ca' cb' folded)"
    by (subst full_name_loop.simps) (simp add: a b name_char_def Let_def)
  have ra: "cursor_rest ca' = tl (cursor_rest ca)" "cursor_rest cb' = tl (cursor_rest cb)"
    using cursor_next_rest(2) [of ca] cursor_next_rest(2) [of cb] a b by simp_all
  show ?case
  proof (cases "cursor_rest ca")
    case Nil
    then have x: "x = 0" using cursor_next_rest(1) [of ca] a by simp
    show ?thesis
    proof (cases "cursor_rest cb")
      case b0: Nil
      then have "y = 0" using cursor_next_rest(1) [of cb] b by simp
      then show ?thesis using x Nil b0 run by (simp add: name_chars_def)
    next
      case (Cons d ds)
      then have "y = uint d" using cursor_next_rest(1) [of cb] b by simp
      then have "name_char folded y > 0" using char_pos [of d folded] less.prems(2) Cons by simp
      then show ?thesis using x Nil Cons run by (simp add: name_chars_def)
    qed
  next
    case c: (Cons c cs)
    then have x: "x = uint c" using cursor_next_rest(1) [of ca] a by simp
    have px: "name_char folded x > 0" using char_pos [of c folded] less.prems(1) c x by simp
    show ?thesis
    proof (cases "cursor_rest cb")
      case Nil
      then have "y = 0" using cursor_next_rest(1) [of cb] b by simp
      then show ?thesis using px Nil c run by (simp add: name_chars_def)
    next
      case d: (Cons d ds)
      then have y: "y = uint d" using cursor_next_rest(1) [of cb] b by simp
      show ?thesis
      proof (cases "name_char folded x = name_char folded y")
        case True
        have "(full_name_loop ca' cb' folded < 0 \<longleftrightarrow> name_chars folded cs < name_chars folded ds) \<and>
            (full_name_loop ca' cb' folded = 0 \<longleftrightarrow> name_chars folded cs = name_chars folded ds)"
          using less.hyps [of ca' cb'] less.prems ra c d by simp
        then show ?thesis using True px run c d x y by (simp add: name_chars_def)
      next
        case False
        then show ?thesis using run c d x y by (auto simp: name_chars_def)
      qed
    qed
  qed
qed

definition nb_rank :: "NiNameTable \<Rightarrow> NiName \<Rightarrow> int list \<times> int list" where
  "nb_rank N a = (name_chars True (full_name N a), name_chars False (full_name N a))"

lemma full_name_cmp_order:
  "full_name_cmp N a b folded < 0 \<longleftrightarrow> name_chars folded (full_name N a) < name_chars folded (full_name N b)"
  "full_name_cmp N a b folded = 0 \<longleftrightarrow> name_chars folded (full_name N a) = name_chars folded (full_name N b)"
proof -
  have r: "cursor_rest (nb_cursor N a) = full_name N a" for a by (simp add: cursor_rest_def nb_cursor_def full_name_def)
  have "0 \<notin> set (full_name N a)" for a by (auto simp: full_name_def cstr_def dest: set_takeWhileD)
  then show "full_name_cmp N a b folded < 0 \<longleftrightarrow> name_chars folded (full_name N a) < name_chars folded (full_name N b)"
    "full_name_cmp N a b folded = 0 \<longleftrightarrow> name_chars folded (full_name N a) = name_chars folded (full_name N b)"
    using full_name_loop_order [of "nb_cursor N a" "nb_cursor N b" folded] by (simp_all add: full_name_cmp_def r)
qed

definition nb_tiebreak_with :: "NiNameTable \<Rightarrow> NiName \<Rightarrow> nat \<Rightarrow> nat \<Rightarrow> int" where
  "nb_tiebreak_with N name = nb_tiebreak (nb_set_probe N name)"

definition nb_rank_of :: "NiNameTable \<Rightarrow> nat \<Rightarrow> int list \<times> int list" where
  "nb_rank_of N s = nb_rank N (nb_names N ! s)"

lemma full_name_cmp_probe [simp]: "full_name_cmp (N\<lparr>nb_probe := p\<rparr>) a b folded = full_name_cmp N a b folded"
  by (simp add: full_name_cmp_def nb_cursor_def)

interpretation nb: tiebreak_order "nb_tiebreak_with N" "nb_rank_of N" "nb_rank N" for N
proof
  fix a b p assume "a < NI_MAX_CONTACTS" "b < NI_MAX_CONTACTS"
  then show "(nb_tiebreak_with N p a b < 0 \<longleftrightarrow> (nb_rank_of N a, a) < (nb_rank_of N b, b)) \<and>
      (nb_tiebreak_with N p a b = 0 \<longleftrightarrow> a = b)"
    using full_name_cmp_order [of N "nb_names N ! a" "nb_names N ! b"]
    by (auto simp: nb_tiebreak_with_def nb_set_probe_def nb_tiebreak_def nb_rank_of_def nb_rank_def Let_def)
next
  fix a p assume "a < NI_MAX_CONTACTS"
  then show "(nb_tiebreak_with N p a NI_PROBE_SECTOR < 0 \<longleftrightarrow> nb_rank_of N a < nb_rank N p) \<and>
      (nb_tiebreak_with N p a NI_PROBE_SECTOR = 0 \<longleftrightarrow> nb_rank_of N a = nb_rank N p)"
    using full_name_cmp_order [of N "nb_names N ! a" p]
    by (auto simp: nb_tiebreak_with_def nb_set_probe_def nb_tiebreak_def nb_rank_of_def nb_rank_def Let_def)
qed

end
