(* ===== verification/Ni_Array.thy ===== *)
theory Ni_Array
  imports Ni_Names
begin

text \<open>
  The first candidate, \<^verbatim>\<open>source/benchmark/name_index/sorted_array.c\<close>: a sorted array with binary search, gaps
  opened and closed by \<^verbatim>\<open>memmove\<close>, and a heapsort to rebuild it.  \<open>NameArray\<close> meets the contract \<open>name_index\<close>.

  The entries are moved with \<^verbatim>\<open>memmove\<close> (\<^verbatim>\<open>na_wordcopy\<close> is false, its default).  Positions stay below 10001, so
  the casts to 16 bits never wrap.
\<close>

record NameArray =
  na_e :: "NiEntry list"
  na_count :: nat

definition entry_cmp_na :: "(nat \<Rightarrow> nat \<Rightarrow> int) \<Rightarrow> NiEntry \<Rightarrow> byte list \<Rightarrow> nat \<Rightarrow> int" where
  "entry_cmp_na tb e key sector = ni_cmp (ne_key e) (ne_contact_index e) key sector tb"

subsection \<open>The searches\<close>

text \<open>\<open>c\<close> compares an entry with what is searched for.\<close>

function search_exact_loop :: "(NiEntry \<Rightarrow> int) \<Rightarrow> NiEntry list \<Rightarrow> nat \<Rightarrow> nat \<Rightarrow> bool \<times> nat" where
  "search_exact_loop c e lo hi =
     (if lo < hi then
        let mid = lo + (hi - lo) div 2; r = c (e ! mid)
        in if r = 0 then (True, mid)
           else if r < 0 then search_exact_loop c e (mid + 1) hi else search_exact_loop c e lo mid
      else (False, lo))"
  by pat_completeness auto
termination by (relation "measure (\<lambda>(_, _, lo, hi). hi - lo)") auto

function na_lower_bound_loop :: "(NiEntry \<Rightarrow> int) \<Rightarrow> NiEntry list \<Rightarrow> nat \<Rightarrow> nat \<Rightarrow> nat" where
  "na_lower_bound_loop c e lo hi =
     (if lo < hi then
        let mid = lo + (hi - lo) div 2
        in if c (e ! mid) < 0 then na_lower_bound_loop c e (mid + 1) hi else na_lower_bound_loop c e lo mid
      else lo)"
  by pat_completeness auto
termination by (relation "measure (\<lambda>(_, _, lo, hi). hi - lo)") auto

declare search_exact_loop.simps [simp del] na_lower_bound_loop.simps [simp del]

definition search_exact :: "(nat \<Rightarrow> nat \<Rightarrow> int) \<Rightarrow> NameArray \<Rightarrow> byte list \<Rightarrow> nat \<Rightarrow> bool \<times> nat" where
  "search_exact tb a key sector = search_exact_loop (\<lambda>e. entry_cmp_na tb e key sector) (na_e a) 0 (na_count a)"

definition na_lower_bound :: "(nat \<Rightarrow> nat \<Rightarrow> int) \<Rightarrow> NameArray \<Rightarrow> byte list \<Rightarrow> nat \<Rightarrow> nat" where
  "na_lower_bound tb a key sector = na_lower_bound_loop (\<lambda>e. entry_cmp_na tb e key sector) (na_e a) 0 (na_count a)"

subsection \<open>The operations\<close>

definition na_init :: "NameArray \<Rightarrow> NameArray" where
  "na_init a = a\<lparr>na_count := 0\<rparr>"

definition na_insert_key :: "(nat \<Rightarrow> nat \<Rightarrow> int) \<Rightarrow> NameArray \<Rightarrow> byte list \<Rightarrow> nat \<Rightarrow> bool \<times> NameArray" where
  "na_insert_key tb a key contact_index =
     (if na_count a \<ge> NI_MAX_CONTACTS then (False, a)
      else case search_exact tb a key contact_index of
        (True, _) \<Rightarrow> (False, a)
      | (False, pos) \<Rightarrow>
          (True, a\<lparr>na_e := (memmove (Suc pos) pos (na_count a - pos) (na_e a))
                     [pos := \<lparr>ne_key = key, ne_contact_index = contact_index, ne_message_index = NO_MESSAGE\<rparr>],
                   na_count := na_count a + 1\<rparr>))"

definition na_insert :: "(nat \<Rightarrow> nat \<Rightarrow> int) \<Rightarrow> NameArray \<Rightarrow> byte list \<Rightarrow> nat \<Rightarrow> bool \<times> NameArray" where
  "na_insert tb a name contact_index = na_insert_key tb a (ni_make_key name) contact_index"

definition na_remove :: "(nat \<Rightarrow> nat \<Rightarrow> int) \<Rightarrow> NameArray \<Rightarrow> byte list \<Rightarrow> nat \<Rightarrow> bool \<times> NameArray" where
  "na_remove tb a name contact_index =
     (case search_exact tb a (ni_make_key name) contact_index of
        (False, _) \<Rightarrow> (False, a)
      | (True, pos) \<Rightarrow>
          (True, a\<lparr>na_e := memmove pos (Suc pos) (na_count a - 1 - pos) (na_e a), na_count := na_count a - 1\<rparr>))"

definition na_find :: "(nat \<Rightarrow> nat \<Rightarrow> int) \<Rightarrow> NameArray \<Rightarrow> byte list \<Rightarrow> nat" where
  "na_find tb a name =
     (let key = ni_make_key name; pos = na_lower_bound tb a key NI_PROBE_SECTOR
      in if pos < na_count a \<and> entry_cmp_na tb (na_e a ! pos) key NI_PROBE_SECTOR = 0
         then ne_contact_index (na_e a ! pos) else NI_NOT_FOUND)"

definition na_set_message :: "(nat \<Rightarrow> nat \<Rightarrow> int) \<Rightarrow> NameArray \<Rightarrow> byte list \<Rightarrow> nat \<Rightarrow> nat \<Rightarrow> bool \<times> NameArray" where
  "na_set_message tb a name contact_index message_index =
     (case search_exact tb a (ni_make_key name) contact_index of
        (False, _) \<Rightarrow> (False, a)
      | (True, pos) \<Rightarrow> (True, a\<lparr>na_e := (na_e a)[pos := (na_e a ! pos)\<lparr>ne_message_index := message_index\<rparr>]\<rparr>))"

text \<open>An iterator is a position.\<close>

definition na_begin :: "NameArray \<Rightarrow> nat" where "na_begin a = 0"

definition na_seek_rank :: "NameArray \<Rightarrow> nat \<Rightarrow> bool \<times> nat" where
  "na_seek_rank a rank = (rank < na_count a, rank)"

definition na_seek :: "(nat \<Rightarrow> nat \<Rightarrow> int) \<Rightarrow> NameArray \<Rightarrow> byte list \<Rightarrow> nat" where
  "na_seek tb a name = na_lower_bound tb a (ni_make_key name) NI_PROBE_SECTOR"

definition na_next :: "NameArray \<Rightarrow> nat \<Rightarrow> NiEntry option \<times> nat" where
  "na_next a pos = (if pos \<ge> na_count a then (None, pos) else (Some (na_e a ! pos), pos + 1))"

definition na_rebuild_begin :: "NameArray \<Rightarrow> NameArray" where
  "na_rebuild_begin a = a\<lparr>na_count := 0\<rparr>"

definition na_rebuild_add :: "NameArray \<Rightarrow> byte list \<Rightarrow> nat \<Rightarrow> bool \<times> NameArray" where
  "na_rebuild_add a key contact_index =
     (if na_count a \<ge> NI_MAX_CONTACTS then (False, a)
      else (True, a\<lparr>na_e := (na_e a)[na_count a := \<lparr>ne_key = key, ne_contact_index = contact_index, ne_message_index = NO_MESSAGE\<rparr>],
                    na_count := na_count a + 1\<rparr>))"

text \<open>\<^verbatim>\<open>sift_down\<close> and the loops around it are those of \<open>heap_sort\<close>, with a comparison that cannot fail.\<close>

definition na_rebuild_finish :: "(nat \<Rightarrow> nat \<Rightarrow> int) \<Rightarrow> NameArray \<Rightarrow> NameArray" where
  "na_rebuild_finish tb a =
     a\<lparr>na_e := snd (heap_sort (\<lambda>x y. Inr (entry_cmp_na tb x (ne_key y) (ne_contact_index y))) (na_e a) (na_count a))\<rparr>"

definition na_rebuild :: "(nat \<Rightarrow> nat \<Rightarrow> int) \<Rightarrow> NameArray \<Rightarrow> (byte list \<times> nat) list \<Rightarrow> bool \<times> NameArray" where
  "na_rebuild tb a nss =
     (let a = na_rebuild_begin a
      in if length nss > NI_MAX_CONTACTS then (False, a)
         else (True, na_rebuild_finish tb (fold (\<lambda>(name, s) a. snd (na_rebuild_add a (ni_make_key name) s)) nss a)))"

text \<open>Reading a page, as the benchmark does: at most \<open>n\<close> calls of next.\<close>

primrec na_read :: "NameArray \<Rightarrow> nat \<Rightarrow> nat \<Rightarrow> NiEntry list" where
  "na_read a pos 0 = []"
| "na_read a pos (Suc n) = (case na_next a pos of (None, _) \<Rightarrow> [] | (Some e, pos) \<Rightarrow> e # na_read a pos n)"

subsection \<open>What the searches return\<close>

lemma search_exact_loop_spec:
  fixes f :: "NiEntry \<Rightarrow> 'k::linorder"
  assumes "\<And>i. i < n \<Longrightarrow> (c (e ! i) < 0 \<longleftrightarrow> f (e ! i) < k) \<and> (c (e ! i) = 0 \<longleftrightarrow> f (e ! i) = k)"
    and "\<And>i j. i < j \<Longrightarrow> j < n \<Longrightarrow> f (e ! i) < f (e ! j)"
    and "lo \<le> hi" and "hi \<le> n" and "\<And>i. i < lo \<Longrightarrow> f (e ! i) < k" and "\<And>i. hi \<le> i \<Longrightarrow> i < n \<Longrightarrow> k < f (e ! i)"
  shows "case search_exact_loop c e lo hi of
      (True, p) \<Rightarrow> p < n \<and> f (e ! p) = k
    | (False, p) \<Rightarrow> p \<le> n \<and> (\<forall>i < p. f (e ! i) < k) \<and> (\<forall>i. p \<le> i \<longrightarrow> i < n \<longrightarrow> k < f (e ! i))"
  using assms
proof (induction c e lo hi rule: search_exact_loop.induct)
  case (1 c e lo hi)
  define mid where "mid = lo + (hi - lo) div 2"
  note run = search_exact_loop.simps [of c e lo hi, folded mid_def, unfolded Let_def]
  show ?case
  proof (cases "lo < hi")
    case True
    then have m: "lo \<le> mid" "mid < hi" "mid < n" using "1.prems"(4) by (auto simp: mid_def)
    consider "c (e ! mid) = 0" | "c (e ! mid) \<noteq> 0" "c (e ! mid) < 0" | "c (e ! mid) \<noteq> 0" "\<not> c (e ! mid) < 0" by blast
    then show ?thesis
    proof cases
      case a: 1
      then show ?thesis using True m "1.prems"(1) [OF m(3)] by (simp add: run)
    next
      case a: 2
      have "f (e ! i) < k" if "i < mid + 1" for i
      proof -
        have "f (e ! mid) < k" using a "1.prems"(1) [OF m(3)] by simp
        then show ?thesis using "1.prems"(2) [of i mid] m that by (cases "i = mid") (auto intro: less_trans)
      qed
      from "1.IH"(1) [OF True mid_def refl a(1,2) "1.prems"(1,2) _ "1.prems"(4) this "1.prems"(6)] m
      show ?thesis using True a by (simp add: run)
    next
      case a: 3
      have "k < f (e ! i)" if "mid \<le> i" "i < n" for i
      proof -
        have "k < f (e ! mid)" using a "1.prems"(1) [OF m(3)] by (metis not_less_iff_gr_or_eq)
        then show ?thesis using "1.prems"(2) [of mid i] m that by (cases "i = mid") (auto intro: less_trans)
      qed
      from "1.IH"(2) [OF True mid_def refl a "1.prems"(1,2) m(1) _ "1.prems"(5) this] m
      show ?thesis using True a by (simp add: run)
    qed
  next
    case False
    then have "search_exact_loop c e lo hi = (False, lo)" by (simp add: run)
    then show ?thesis using False "1.prems"(3-6) by simp
  qed
qed

lemma na_lower_bound_loop_spec:
  fixes g :: "NiEntry \<Rightarrow> 'k::linorder"
  assumes "\<And>i. i < n \<Longrightarrow> c (e ! i) < 0 \<longleftrightarrow> g (e ! i) < k"
    and "\<And>i j. i < j \<Longrightarrow> j < n \<Longrightarrow> g (e ! i) \<le> g (e ! j)"
    and "lo \<le> hi" and "hi \<le> n" and "\<And>i. i < lo \<Longrightarrow> g (e ! i) < k" and "\<And>i. hi \<le> i \<Longrightarrow> i < n \<Longrightarrow> \<not> g (e ! i) < k"
  shows "na_lower_bound_loop c e lo hi \<le> n \<and> (\<forall>i < na_lower_bound_loop c e lo hi. g (e ! i) < k) \<and>
    (\<forall>i. na_lower_bound_loop c e lo hi \<le> i \<longrightarrow> i < n \<longrightarrow> \<not> g (e ! i) < k)"
  using assms
proof (induction c e lo hi rule: na_lower_bound_loop.induct)
  case (1 c e lo hi)
  define mid where "mid = lo + (hi - lo) div 2"
  note run = na_lower_bound_loop.simps [of c e lo hi, folded mid_def, unfolded Let_def]
  show ?case
  proof (cases "lo < hi")
    case True
    then have m: "lo \<le> mid" "mid < hi" "mid < n" using "1.prems"(4) by (auto simp: mid_def)
    show ?thesis
    proof (cases "c (e ! mid) < 0")
      case a: True
      have "g (e ! i) < k" if "i < mid + 1" for i
      proof -
        have "g (e ! mid) < k" using a "1.prems"(1) [OF m(3)] by simp
        then show ?thesis using "1.prems"(2) [of i mid] m that by (cases "i = mid") (auto intro: le_less_trans)
      qed
      from "1.IH"(1) [OF True mid_def a "1.prems"(1,2) _ "1.prems"(4) this "1.prems"(6)] m
      show ?thesis using True a by (simp add: run)
    next
      case a: False
      have "\<not> g (e ! i) < k" if "mid \<le> i" "i < n" for i
      proof -
        have "\<not> g (e ! mid) < k" using a "1.prems"(1) [OF m(3)] by simp
        then show ?thesis using "1.prems"(2) [of mid i] m that by (cases "i = mid") auto
      qed
      from "1.IH"(2) [OF True mid_def a "1.prems"(1,2) m(1) _ "1.prems"(5) this] m
      show ?thesis using True a by (simp add: run)
    qed
  next
    case False
    then have "na_lower_bound_loop c e lo hi = lo" by (simp add: run)
    then show ?thesis using False "1.prems"(3-6) by simp
  qed
qed

subsection \<open>The array meets the contract\<close>

definition na_entries :: "NameArray \<Rightarrow> NiEntry list" where
  "na_entries a = take (na_count a) (na_e a)"

definition na_ok :: "(nat \<Rightarrow> 'n::linorder) \<Rightarrow> NameArray \<Rightarrow> bool" where
  "na_ok nm a \<longleftrightarrow> length (na_e a) = NI_MAX_CONTACTS \<and> na_count a \<le> NI_MAX_CONTACTS \<and> ix_wf nm (na_entries a)"

lemma na_okD:
  assumes "na_ok nm a"
  shows "length (na_e a) = 10000" "na_count a \<le> 10000" "ix_wf nm (na_entries a)" "length (na_entries a) = na_count a"
    "i < na_count a \<Longrightarrow> na_entries a ! i = na_e a ! i" "i < na_count a \<Longrightarrow> na_e a ! i \<in> set (na_entries a)"
proof -
  show "length (na_e a) = 10000" "na_count a \<le> 10000" "ix_wf nm (na_entries a)" "length (na_entries a) = na_count a"
    "i < na_count a \<Longrightarrow> na_entries a ! i = na_e a ! i"
    using assms by (simp_all add: na_ok_def na_entries_def)
  then show "i < na_count a \<Longrightarrow> na_e a ! i \<in> set (na_entries a)" by (metis nth_mem)
qed

lemma na_entries_split: "pos < na_count a \<Longrightarrow> na_ok nm a \<Longrightarrow>
    na_entries a = take pos (na_entries a) @ na_e a ! pos # drop (Suc pos) (na_entries a)"
  by (metis id_take_nth_drop na_okD(4,5))

lemma na_read_drop: "na_ok nm a \<Longrightarrow> na_read a pos n = take n (drop pos (na_entries a))"
proof (induction n arbitrary: pos)
  case (Suc n)
  show ?case
  proof (cases "pos < na_count a")
    case True
    then have "drop pos (na_entries a) = na_e a ! pos # drop (Suc pos) (na_entries a)"
      using na_okD(4,5) [OF Suc.prems] by (metis Cons_nth_drop_Suc)
    then show ?thesis using True Suc by (simp add: na_next_def)
  next
    case False
    then show ?thesis using na_okD(4) [OF Suc.prems] by (simp add: na_next_def)
  qed
qed simp

context tiebreak_order
begin

lemma na_entries_mono:
  assumes "na_ok nm a" and "i < j" and "j < na_count a"
  shows "entry_rank nm (na_e a ! i) < entry_rank nm (na_e a ! j)" "ni_name nm (na_e a ! i) \<le> ni_name nm (na_e a ! j)"
proof -
  note ok = na_okD [OF assms(1)]
  show "entry_rank nm (na_e a ! i) < entry_rank nm (na_e a ! j)"
    using ix_wfD(1) [OF ok(3)] assms(2,3) ok(4,5) by (simp add: sorted_wrt_iff_nth_less)
  then show "ni_name nm (na_e a ! i) \<le> ni_name nm (na_e a ! j)" by (auto simp: ni_name_def ni_rank_def)
qed

lemma search_exact_spec:
  assumes "na_ok nm a" and "length key = 8" and "s < NI_MAX_CONTACTS"
  shows "case search_exact (tb p) a key s of
      (True, pos) \<Rightarrow> pos < na_count a \<and> ne_key (na_e a ! pos) = key \<and> ne_contact_index (na_e a ! pos) = s
    | (False, pos) \<Rightarrow> pos \<le> na_count a \<and> (\<forall>e \<in> set (take pos (na_entries a)). entry_rank nm e < ni_rank nm key s) \<and>
        (\<forall>e \<in> set (drop pos (na_entries a)). ni_rank nm key s < entry_rank nm e)"
proof -
  note ok = na_okD [OF assms(1)]
  have c: "(entry_cmp_na (tb p) (na_e a ! i) key s < 0 \<longleftrightarrow> entry_rank nm (na_e a ! i) < ni_rank nm key s) \<and>
      (entry_cmp_na (tb p) (na_e a ! i) key s = 0 \<longleftrightarrow> entry_rank nm (na_e a ! i) = ni_rank nm key s)" if "i < na_count a" for i
    unfolding entry_cmp_na_def ni_rank_eq
    using ni_cmp_rank [OF ix_wfD(3) [OF ok(3) ok(6) [OF that]] assms(2) ix_wfD(4) [OF ok(3) ok(6) [OF that]] assms(3)] by blast
  obtain b pos where r: "search_exact (tb p) a key s = (b, pos)" by (meson surj_pair)
  have "case (b, pos) of
      (True, pos) \<Rightarrow> pos < na_count a \<and> entry_rank nm (na_e a ! pos) = ni_rank nm key s
    | (False, pos) \<Rightarrow> pos \<le> na_count a \<and> (\<forall>i < pos. entry_rank nm (na_e a ! i) < ni_rank nm key s) \<and>
        (\<forall>i. pos \<le> i \<longrightarrow> i < na_count a \<longrightarrow> ni_rank nm key s < entry_rank nm (na_e a ! i))"
    unfolding r [symmetric] search_exact_def
    by (rule search_exact_loop_spec [where n = "na_count a" and f = "entry_rank nm" and e = "na_e a" and
          c = "\<lambda>e. entry_cmp_na (tb p) e key s" and k = "ni_rank nm key s", OF c na_entries_mono(1) [OF assms(1)]]) simp_all
  then show ?thesis unfolding r using ok(4,5) by (cases b) (auto simp: in_set_conv_nth)
qed

lemma na_lower_bound_spec:
  assumes "na_ok nm a" and "length key = 8"
  shows "na_lower_bound (tb p) a key NI_PROBE_SECTOR \<le> na_count a"
    "e \<in> set (take (na_lower_bound (tb p) a key NI_PROBE_SECTOR) (na_entries a)) \<Longrightarrow> ni_name nm e < (map uint key, pn p)"
    "e \<in> set (drop (na_lower_bound (tb p) a key NI_PROBE_SECTOR) (na_entries a)) \<Longrightarrow> \<not> ni_name nm e < (map uint key, pn p)"
proof -
  note ok = na_okD [OF assms(1)]
  have c: "entry_cmp_na (tb p) (na_e a ! i) key NI_PROBE_SECTOR < 0 \<longleftrightarrow> ni_name nm (na_e a ! i) < (map uint key, pn p)"
    if "i < na_count a" for i
    unfolding entry_cmp_na_def ni_name_def
    by (rule ni_cmp_probe(1) [OF ix_wfD(3) [OF ok(3) ok(6) [OF that]] assms(2) ix_wfD(4) [OF ok(3) ok(6) [OF that]]])
  let ?r = "na_lower_bound (tb p) a key NI_PROBE_SECTOR"
  have r: "?r \<le> na_count a \<and> (\<forall>i < ?r. ni_name nm (na_e a ! i) < (map uint key, pn p)) \<and>
      (\<forall>i. ?r \<le> i \<longrightarrow> i < na_count a \<longrightarrow> \<not> ni_name nm (na_e a ! i) < (map uint key, pn p))"
    unfolding na_lower_bound_def
    by (rule na_lower_bound_loop_spec [where n = "na_count a" and g = "ni_name nm" and e = "na_e a" and
          c = "\<lambda>e. entry_cmp_na (tb p) e key NI_PROBE_SECTOR" and k = "(map uint key, pn p)", OF c na_entries_mono(2) [OF assms(1)]]) simp_all
  then show "?r \<le> na_count a" by blast
  show "e \<in> set (take ?r (na_entries a)) \<Longrightarrow> ni_name nm e < (map uint key, pn p)"
    "e \<in> set (drop ?r (na_entries a)) \<Longrightarrow> \<not> ni_name nm e < (map uint key, pn p)"
    using r ok(4,5) by (auto simp: in_set_conv_nth)
qed

lemma na_insert_spec:
  assumes "na_ok nm a" and "s < NI_MAX_CONTACTS"
  shows "\<exists>r a'. na_insert (tb p) a name s = (r, a') \<and> na_ok nm a' \<and> ix_insert nm (na_entries a) (ni_make_key name) s = (r, na_entries a')"
proof (cases "na_count a \<ge> NI_MAX_CONTACTS")
  case True
  then show ?thesis using assms na_okD [OF assms(1)]
    by (intro exI [of _ False] exI [of _ a]) (simp add: na_insert_def na_insert_key_def ix_insert_def)
next
  case False
  note ok = na_okD [OF assms(1)]
  let ?k = "ni_make_key name"
  obtain b pos where r: "search_exact (tb p) a ?k s = (b, pos)" by (meson surj_pair)
  note sp = search_exact_spec [OF assms(1) length_ni_make_key assms(2), where p = p, of name, unfolded r]
  show ?thesis
  proof (cases b)
    case True
    then have e: "pos < na_count a" "ne_key (na_e a ! pos) = ?k" "ne_contact_index (na_e a ! pos) = s" using sp by simp_all
    have "ix_insert nm (na_entries a) ?k s = (False, na_entries a)"
      using ix_present(2) [of nm "take pos (na_entries a)" "na_e a ! pos" "drop (Suc pos) (na_entries a)" ?k s]
        na_entries_split [OF e(1) assms(1)] ok(3) e(2,3) by simp
    then show ?thesis using True False assms(1)
      by (intro exI [of _ False] exI [of _ a]) (simp add: na_insert_def na_insert_key_def r)
  next
    case absent: False
    then have e: "pos \<le> na_count a" "\<forall>e \<in> set (take pos (na_entries a)). entry_rank nm e < ni_rank nm ?k s"
        "\<forall>e \<in> set (drop pos (na_entries a)). ni_rank nm ?k s < entry_rank nm e" using sp by simp_all
    define a' where "a' = a\<lparr>na_e := (memmove (Suc pos) pos (na_count a - pos) (na_e a))[pos := ni_fresh ?k s], na_count := na_count a + 1\<rparr>"
    have run: "na_insert (tb p) a name s = (True, a')"
      using False absent by (simp add: na_insert_def na_insert_key_def r a'_def ni_fresh_def)
    have es: "na_entries a' = take pos (na_entries a) @ ni_fresh ?k s # drop pos (na_entries a)"
      using memmove_insert [OF e(1), of "na_e a" "ni_fresh ?k s"] False ok(1) e(1) by (simp add: na_entries_def a'_def min_absorb1)
    have i: "ix_insert nm (na_entries a) ?k s = (True, na_entries a')"
      using ix_insert_between [of "take pos (na_entries a)" "drop pos (na_entries a)" nm ?k s] e(2,3) False ok(4) by (simp add: es)
    have "ix_wf nm (na_entries a')" by (rule ix_insert_wf [OF ok(3) length_ni_make_key assms(2) i])
    moreover have "length (na_e a') = 10000" "na_count a' \<le> 10000" using ok(1) e(1) False by (simp_all add: a'_def)
    ultimately have "na_ok nm a'" by (simp add: na_ok_def)
    then show ?thesis using run i by blast
  qed
qed

lemma na_found:
  assumes "na_ok nm a" and "s < NI_MAX_CONTACTS" and "search_exact (tb p) a (ni_make_key name) s = (True, pos)"
  shows "pos < na_count a" "na_entries a = take pos (na_entries a) @ na_e a ! pos # drop (Suc pos) (na_entries a)"
    "ne_key (na_e a ! pos) = ni_make_key name" "ne_contact_index (na_e a ! pos) = s"
  using search_exact_spec [OF assms(1) length_ni_make_key assms(2), where p = p, of name, unfolded assms(3)]
    na_entries_split [OF _ assms(1), of pos] by auto

lemma na_not_found:
  assumes "na_ok nm a" and "s < NI_MAX_CONTACTS" and "search_exact (tb p) a (ni_make_key name) s = (False, pos)"
  shows "\<not> ix_has (na_entries a) (ni_make_key name) s"
proof
  assume "ix_has (na_entries a) (ni_make_key name) s"
  then obtain e where e: "e \<in> set (na_entries a)" "entry_rank nm e = ni_rank nm (ni_make_key name) s" by (auto simp: ix_has_def)
  have "e \<in> set (take pos (na_entries a)) \<or> e \<in> set (drop pos (na_entries a))"
    using e(1) by (metis Un_iff append_take_drop_id set_append)
  then show False using e(2) search_exact_spec [OF assms(1) length_ni_make_key assms(2), where p = p, of name, unfolded assms(3)] by auto
qed

lemma na_remove_spec:
  assumes "na_ok nm a" and "s < NI_MAX_CONTACTS"
  shows "\<exists>r a'. na_remove (tb p) a name s = (r, a') \<and> na_ok nm a' \<and> ix_remove (na_entries a) (ni_make_key name) s = (r, na_entries a')"
proof -
  note ok = na_okD [OF assms(1)]
  let ?k = "ni_make_key name"
  obtain b pos where r: "search_exact (tb p) a ?k s = (b, pos)" by (meson surj_pair)
  show ?thesis
  proof (cases b)
    case True
    then have "search_exact (tb p) a ?k s = (True, pos)" using r by simp
    note f = na_found [OF assms this]
    define a' where "a' = a\<lparr>na_e := memmove pos (Suc pos) (na_count a - 1 - pos) (na_e a), na_count := na_count a - 1\<rparr>"
    have run: "na_remove (tb p) a name s = (True, a')" using True by (simp add: na_remove_def r a'_def)
    have "na_count a - 1 - pos = na_count a - pos - 1" by simp
    then have es: "na_entries a' = take pos (na_entries a) @ drop (Suc pos) (na_entries a)"
      using memmove_delete [of pos "na_count a" "na_e a"] f(1) ok(1,2) by (simp add: na_entries_def a'_def min_absorb1)
    have i: "ix_remove (na_entries a) ?k s = (True, na_entries a')"
      using ix_present(3) [of nm "take pos (na_entries a)" "na_e a ! pos" "drop (Suc pos) (na_entries a)" ?k s] f ok(3)
      unfolding es by (simp flip: f(2))
    have "ix_wf nm (na_entries a')" by (rule ix_remove_wf [OF ok(3) i])
    moreover have "length (na_e a') = 10000" "na_count a' \<le> 10000" using ok(1,2) f(1) by (simp_all add: a'_def)
    ultimately have "na_ok nm a'" by (simp add: na_ok_def)
    then show ?thesis using run i by blast
  next
    case False
    then have "ix_remove (na_entries a) ?k s = (False, na_entries a)" using na_not_found [OF assms] r by (simp add: ix_absent)
    then show ?thesis using False assms(1) by (intro exI [of _ False] exI [of _ a]) (simp add: na_remove_def r)
  qed
qed

lemma na_set_message_spec:
  assumes "na_ok nm a" and "s < NI_MAX_CONTACTS"
  shows "\<exists>r a'. na_set_message (tb p) a name s m = (r, a') \<and> na_ok nm a' \<and>
    ix_set_message (na_entries a) (ni_make_key name) s m = (r, na_entries a')"
proof -
  note ok = na_okD [OF assms(1)]
  let ?k = "ni_make_key name"
  obtain b pos where r: "search_exact (tb p) a ?k s = (b, pos)" by (meson surj_pair)
  show ?thesis
  proof (cases b)
    case True
    then have "search_exact (tb p) a ?k s = (True, pos)" using r by simp
    note f = na_found [OF assms this]
    let ?e = "(na_e a ! pos)\<lparr>ne_message_index := m\<rparr>"
    define a' where "a' = a\<lparr>na_e := (na_e a)[pos := ?e]\<rparr>"
    have run: "na_set_message (tb p) a name s m = (True, a')" using True by (simp add: na_set_message_def r a'_def)
    have es: "na_entries a' = take pos (na_entries a) @ ?e # drop (Suc pos) (na_entries a)"
    proof -
      have "na_entries a' = (na_entries a)[pos := ?e]" by (simp add: na_entries_def a'_def take_update_swap)
      then show ?thesis using f(1) ok(4) by (simp add: upd_conv_take_nth_drop)
    qed
    have i: "ix_set_message (na_entries a) ?k s m = (True, na_entries a')"
      using ix_present(4) [of nm "take pos (na_entries a)" "na_e a ! pos" "drop (Suc pos) (na_entries a)" ?k s m] f ok(3)
      unfolding es by (simp flip: f(2))
    have "ix_wf nm (na_entries a')" by (rule ix_set_message_wf [OF ok(3) i])
    moreover have "length (na_e a') = 10000" "na_count a' \<le> 10000" using ok(1,2) by (simp_all add: a'_def)
    ultimately have "na_ok nm a'" by (simp add: na_ok_def)
    then show ?thesis using run i by blast
  next
    case False
    then have "ix_set_message (na_entries a) ?k s m = (False, na_entries a)" using na_not_found [OF assms] r by (simp add: ix_absent)
    then show ?thesis using False assms(1) by (intro exI [of _ False] exI [of _ a]) (simp add: na_set_message_def r)
  qed
qed

lemma na_find_spec:
  assumes "na_ok nm a"
  shows "na_find (tb p) a name = ix_find nm (pn p) (na_entries a) (ni_make_key name)"
    "na_read a (na_seek (tb p) a name) n = take n (ix_seek nm (pn p) (na_entries a) (ni_make_key name))"
proof -
  note ok = na_okD [OF assms]
  let ?k = "ni_make_key name"
  let ?r = "na_lower_bound (tb p) a ?k NI_PROBE_SECTOR"
  note lb = na_lower_bound_spec [OF assms length_ni_make_key [of name], where p = p]
  have w: "ix_wf nm (take ?r (na_entries a) @ drop ?r (na_entries a))" using ok(3) by simp
  have sp: "ix_seek nm (pn p) (na_entries a) ?k = drop ?r (na_entries a)"
    "ix_find nm (pn p) (na_entries a) ?k = (case drop ?r (na_entries a) of
       b # _ \<Rightarrow> if ni_name nm b = (map uint ?k, pn p) then ne_contact_index b else NI_NOT_FOUND | [] \<Rightarrow> NI_NOT_FOUND)"
    using ix_seek_split [OF w lb(2,3)] by (simp_all only: append_take_drop_id)
  show "na_read a (na_seek (tb p) a name) n = take n (ix_seek nm (pn p) (na_entries a) ?k)"
    by (simp only: na_seek_def na_read_drop [OF assms] sp(1))
  show "na_find (tb p) a name = ix_find nm (pn p) (na_entries a) ?k"
  proof (cases "?r < na_count a")
    case True
    have d: "drop ?r (na_entries a) = na_e a ! ?r # drop (Suc ?r) (na_entries a)"
      using True ok(4,5) by (metis Cons_nth_drop_Suc)
    have "entry_cmp_na (tb p) (na_e a ! ?r) ?k NI_PROBE_SECTOR = 0 \<longleftrightarrow> ni_name nm (na_e a ! ?r) = (map uint ?k, pn p)"
      unfolding entry_cmp_na_def ni_name_def
      using ni_cmp_probe(2) [OF ix_wfD(3) [OF ok(3) ok(6) [OF True]] length_ni_make_key ix_wfD(4) [OF ok(3) ok(6) [OF True]]]
      by simp
    then show ?thesis unfolding sp(2) d using True by (simp add: na_find_def Let_def)
  next
    case False
    then show ?thesis unfolding sp(2) using ok(4) by (simp add: na_find_def Let_def)
  qed
qed

end

text \<open>Its comparison is one the heapsort can use.\<close>

sublocale tiebreak_order \<subseteq> na_sort: entry_order "\<lambda>x y. Inr (entry_cmp_na (tb p) x (ne_key y) (ne_contact_index y))"
  "entry_rank nm" "\<lambda>e. length (ne_key e) = 8 \<and> ne_contact_index e < NI_MAX_CONTACTS" for p
proof
  fix a b :: NiEntry
  assume "length (ne_key a) = 8 \<and> ne_contact_index a < NI_MAX_CONTACTS" "length (ne_key b) = 8 \<and> ne_contact_index b < NI_MAX_CONTACTS"
  then show "\<exists>order. Inr (entry_cmp_na (tb p) a (ne_key b) (ne_contact_index b)) = (Inr order :: int res) \<and>
      (order < 0 \<longleftrightarrow> entry_rank nm a < entry_rank nm b) \<and> (order = 0 \<longleftrightarrow> entry_rank nm a = entry_rank nm b)"
    unfolding entry_cmp_na_def ni_rank_eq using ni_cmp_rank [where p = p] by blast
qed

lemma na_rebuild_add_all:
  assumes "length (na_e a) = NI_MAX_CONTACTS" and "na_count a + length nss \<le> NI_MAX_CONTACTS"
    and "a' = fold (\<lambda>(name, s) a. snd (na_rebuild_add a (ni_make_key name) s)) nss a"
  shows "length (na_e a') = NI_MAX_CONTACTS \<and> na_count a' = na_count a + length nss \<and>
    na_entries a' = na_entries a @ map (\<lambda>(key, s). ni_fresh key s) (keyed nss)"
  using assms
proof (induction nss arbitrary: a)
  case (Cons x nss)
  obtain name s where x: "x = (name, s)" by (meson surj_pair)
  let ?a = "a\<lparr>na_e := (na_e a)[na_count a := ni_fresh (ni_make_key name) s], na_count := na_count a + 1\<rparr>"
  have add: "na_rebuild_add a (ni_make_key name) s = (True, ?a)" using Cons.prems(2) by (simp add: na_rebuild_add_def ni_fresh_def)
  have es: "na_entries ?a = na_entries a @ [ni_fresh (ni_make_key name) s]"
    using Cons.prems(1,2) by (simp add: na_entries_def take_Suc_conv_app_nth)
  have p: "length (na_e ?a) = NI_MAX_CONTACTS" "na_count ?a + length nss \<le> NI_MAX_CONTACTS" using Cons.prems(1,2) by simp_all
  have f: "a' = fold (\<lambda>(name, s) a. snd (na_rebuild_add a (ni_make_key name) s)) nss ?a" using Cons.prems(3) by (simp add: x add)
  from Cons.IH [OF p f] show ?case unfolding es by (simp add: x keyed_def)
qed (simp_all add: keyed_def)

context tiebreak_order
begin

lemma na_rebuild_spec:
  assumes "length (na_e a) = NI_MAX_CONTACTS" and "ix_rebuild_ok (keyed nss)"
  shows "\<exists>a'. na_rebuild (tb p) a nss = (True, a') \<and> na_ok nm a' \<and> na_entries a' = ix_rebuild nm (keyed nss)"
proof -
  have n: "length nss \<le> NI_MAX_CONTACTS" using assms(2) by (simp add: ix_rebuild_ok_def)
  obtain a1 where a1: "a1 = fold (\<lambda>(name, s) a. snd (na_rebuild_add a (ni_make_key name) s)) nss (na_rebuild_begin a)" by blast
  have b: "length (na_e (na_rebuild_begin a)) = NI_MAX_CONTACTS" "na_count (na_rebuild_begin a) + length nss \<le> NI_MAX_CONTACTS"
    using assms(1) n by (simp_all add: na_rebuild_begin_def)
  let ?es = "map (\<lambda>(key, s). ni_fresh key s) (keyed nss)"
  have e: "length (na_e a1) = 10000" "na_count a1 = length nss" "na_entries a1 = ?es"
  proof -
    have z: "na_count (na_rebuild_begin a) = 0" "na_entries (na_rebuild_begin a) = []" by (simp_all add: na_rebuild_begin_def na_entries_def)
    then show "length (na_e a1) = 10000" "na_count a1 = length nss" "na_entries a1 = ?es"
      using na_rebuild_add_all [OF b a1] by simp_all
  qed
  have v: "length (ne_key x) = 8 \<and> ne_contact_index x < NI_MAX_CONTACTS" if "x \<in> set ?es" for x
    using that assms(2) by (auto simp: ix_rebuild_ok_def ni_fresh_def)
  let ?cmp = "\<lambda>x y. Inr (entry_cmp_na (tb p) x (ne_key y) (ne_contact_index y)) :: int res"
  obtain es where h: "heap_sort ?cmp (na_e a1) (na_count a1) = (STRG_OK, es)"
      "sorted (map (entry_rank nm) (take (na_count a1) es))" "permuted (na_count a1) (na_e a1) es"
    using na_sort.heap_sort_sorts [where p = p and mem = "na_e a1" and n = "na_count a1"] v e n by (auto simp flip: e(3) simp: na_entries_def)
  let ?a' = "a1\<lparr>na_e := es\<rparr>"
  have run: "na_rebuild (tb p) a nss = (True, ?a')"
    using n by (simp add: na_rebuild_def Let_def na_rebuild_finish_def h(1) flip: a1)
  have le: "length es = 10000" using permuted_length [OF h(3)] e(1) by simp
  have "mset (na_entries ?a') = mset ?es" using h(3) unfolding e(3) [symmetric] by (simp add: permuted_def na_entries_def)
  moreover have "inj_on (entry_rank nm) (set ?es)"
    using assms(2) by (auto simp: inj_on_def ni_fresh_def)
  ultimately have es: "na_entries ?a' = ix_rebuild nm (keyed nss)"
    unfolding ix_rebuild_def using h(2) by (intro sort_key_unique) (simp_all add: na_entries_def)
  have "ix_wf nm (na_entries ?a')" unfolding es by (rule ix_rebuild_wf [OF assms(2)])
  then have "na_ok nm ?a'" using le n e(2) by (simp add: na_ok_def)
  then show ?thesis using run es by blast
qed
end

lemma na_ok_init:
  assumes "length (na_e a) = NI_MAX_CONTACTS"
  shows "na_ok nm (na_init a)" "na_entries (na_init a) = []"
  using assms by (simp_all add: na_ok_def na_init_def na_entries_def ix_wf_def)

subsection \<open>The candidate\<close>

definition na_candidate :: "(nat \<Rightarrow> nat \<Rightarrow> int) \<Rightarrow> NameArray NiCandidate" where
  "na_candidate tb =
     \<lparr>ni_insert = \<lambda>a name s. Some (na_insert tb a name s),
      ni_remove = \<lambda>a name s. Some (na_remove tb a name s),
      ni_set_message = \<lambda>a name s m. Some (na_set_message tb a name s m),
      ni_rebuild = \<lambda>a nss. Some (na_rebuild tb a nss),
      ni_find = \<lambda>a name. Some (na_find tb a name),
      ni_count = na_count,
      ni_name_page = \<lambda>a name n. Some (na_read a (na_seek tb a name) n),
      ni_rank_page = \<lambda>a rank n. Some (na_read a (snd (na_seek_rank a rank)) n)\<rparr>"

sublocale tiebreak_order \<subseteq> na: name_index tb nm pn "\<lambda>p. na_candidate (tb p)" "na_ok nm" na_entries
proof
  fix t :: NameArray and p :: 'p and name :: "byte list" and s m n rank :: nat and nss :: "(byte list \<times> nat) list"
  assume ok: "na_ok nm t"
  show "ix_wf nm (na_entries t)" by (rule na_okD(3) [OF ok])
  show "ni_find (na_candidate (tb p)) t name = Some (ix_find nm (pn p) (na_entries t) (ni_make_key name))"
    "ni_name_page (na_candidate (tb p)) t name n = Some (take n (ix_seek nm (pn p) (na_entries t) (ni_make_key name)))"
    by (simp_all add: na_candidate_def na_find_spec [OF ok])
  show "ni_count (na_candidate (tb p)) t = length (na_entries t)" by (simp add: na_candidate_def na_okD(4) [OF ok])
  show "ni_rank_page (na_candidate (tb p)) t rank n = Some (take n (drop rank (na_entries t)))"
    by (simp add: na_candidate_def na_seek_rank_def na_read_drop [OF ok])
  { assume "s < NI_MAX_CONTACTS"
    from na_insert_spec [OF ok this, where p = p and name = name]
    show "\<exists>r t'. ni_insert (na_candidate (tb p)) t name s = Some (r, t') \<and> na_ok nm t' \<and>
        (r, na_entries t') = ix_insert nm (na_entries t) (ni_make_key name) s" by (auto simp: na_candidate_def) }
  { assume "s < NI_MAX_CONTACTS"
    from na_remove_spec [OF ok this, where p = p and name = name]
    show "\<exists>r t'. ni_remove (na_candidate (tb p)) t name s = Some (r, t') \<and> na_ok nm t' \<and>
        (r, na_entries t') = ix_remove (na_entries t) (ni_make_key name) s" by (auto simp: na_candidate_def) }
  { assume "s < NI_MAX_CONTACTS"
    from na_set_message_spec [OF ok this, where p = p and name = name and m = m]
    show "\<exists>r t'. ni_set_message (na_candidate (tb p)) t name s m = Some (r, t') \<and> na_ok nm t' \<and>
        (r, na_entries t') = ix_set_message (na_entries t) (ni_make_key name) s m" by (auto simp: na_candidate_def) }
  { assume "ix_rebuild_ok (keyed nss)"
    from na_rebuild_spec [OF _ this, where p = p and a = t] na_okD(1) [OF ok]
    show "\<exists>t'. ni_rebuild (na_candidate (tb p)) t nss = Some (True, t') \<and> na_ok nm t' \<and> na_entries t' = ix_rebuild nm (keyed nss)"
      by (auto simp: na_candidate_def) }
  { assume "length nss > NI_MAX_CONTACTS"
    then show "\<exists>t'. ni_rebuild (na_candidate (tb p)) t nss = Some (False, t') \<and> na_ok nm t' \<and> na_entries t' = []"
      using na_okD(1) [OF ok] by (simp add: na_candidate_def na_rebuild_def na_rebuild_begin_def na_ok_def na_entries_def ix_wf_def) }
qed

end
