(* ===== verification/Avl_Index.thy ===== *)
theory Avl_Index
  imports Avl_Recursion Avl_Ops Ni_Array
begin

text \<open>
  \<^verbatim>\<open>avl_tree.c\<close> meets the contract \<open>name_index\<close>: \<open>avl_rep\<close> splits the pool into the tree and the free list, and
  each operation keeps it and does to the entries in order what the list does.  So both candidates answer alike
  (\<open>two_indexes\<close>).
\<close>

subsection \<open>The pool is the tree and the free list\<close>

fun free_at :: "AvlNode list \<Rightarrow> nat \<Rightarrow> nat list \<Rightarrow> bool" where
  "free_at n h [] = (h = TREE_NIL)"
| "free_at n h (j # js) = (h = j \<and> j < NI_MAX_CONTACTS \<and> free_at n (an_left (n ! j)) js)"

definition avl_rep :: "AvlTree \<Rightarrow> nat tree \<Rightarrow> nat list \<Rightarrow> bool" where
  "avl_rep T t fs \<longleftrightarrow> length (at_n T) = NI_MAX_CONTACTS \<and> tree_at (at_n T) (at_root T) t \<and> avl_shape t \<and>
     free_at (at_n T) (at_free_head T) fs \<and> distinct (inorder t @ fs) \<and> size t + length fs = NI_MAX_CONTACTS \<and> at_count T = size t"

definition pool_entries :: "AvlNode list \<Rightarrow> nat tree \<Rightarrow> NiEntry list" where
  "pool_entries n t = map (\<lambda>j. node_entry (n ! j)) (inorder t)"

text \<open>The tree is no higher than 18, so 24 steps down from the root reach every node.\<close>

primrec pool_tree :: "AvlNode list \<Rightarrow> nat \<Rightarrow> nat \<Rightarrow> nat tree" where
  "pool_tree n 0 i = Leaf"
| "pool_tree n (Suc k) i = (if i = TREE_NIL then Leaf else Node (pool_tree n k (an_left (n ! i))) i (pool_tree n k (an_right (n ! i))))"

definition avl_entries :: "AvlTree \<Rightarrow> NiEntry list" where
  "avl_entries T = pool_entries (at_n T) (pool_tree (at_n T) AVL_ITER_DEPTH (at_root T))"

definition avl_ok :: "(nat \<Rightarrow> 'n::linorder) \<Rightarrow> AvlTree \<Rightarrow> bool" where
  "avl_ok nm T \<longleftrightarrow> (\<exists>t fs. avl_rep T t fs) \<and> ix_wf nm (avl_entries T)"

lemma pool_tree_at: "tree_at n i t \<Longrightarrow> height t \<le> k \<Longrightarrow> pool_tree n k i = t"
proof (induction t arbitrary: i k)
  case Leaf
  then show ?case by (cases k) simp_all
next
  case (Node l j r)
  then obtain k' where k: "k = Suc k'" by (cases k) auto
  have "i \<noteq> TREE_NIL" using Node.prems(1) by simp
  then show ?case using Node by (simp add: k)
qed

lemma avl_repD:
  assumes "avl_rep T t fs"
  shows "length (at_n T) = NI_MAX_CONTACTS" "tree_at (at_n T) (at_root T) t" "avl_shape t" "free_at (at_n T) (at_free_head T) fs"
    "distinct (inorder t)" "distinct fs" "set_tree t \<inter> set fs = {}" "size t + length fs = NI_MAX_CONTACTS" "at_count T = size t"
    "height t \<le> 18" "avl_entries T = pool_entries (at_n T) t"
proof -
  show a: "length (at_n T) = NI_MAX_CONTACTS" "tree_at (at_n T) (at_root T) t" "avl_shape t" "free_at (at_n T) (at_free_head T) fs"
    "distinct (inorder t)" "distinct fs" "set_tree t \<inter> set fs = {}" "size t + length fs = NI_MAX_CONTACTS" "at_count T = size t"
    using assms by (auto simp: avl_rep_def)
  show h: "height t \<le> 18" by (rule avl_height_bound [OF a(3)]) (use a(8) in simp)
  then show "avl_entries T = pool_entries (at_n T) t" using pool_tree_at [OF a(2), of 24] by (simp add: avl_entries_def)
qed

lemma length_pool_entries [simp]: "length (pool_entries n t) = size t"
  by (simp add: pool_entries_def)

lemma free_at_frame: "free_at n h fs \<Longrightarrow> (\<And>j. j \<in> set fs \<Longrightarrow> n' ! j = n ! j) \<Longrightarrow> free_at n' h fs"
  by (induction fs arbitrary: h) auto

lemma free_at_same_but: "free_at n h fs \<Longrightarrow> same_but S n n' \<Longrightarrow> set fs \<inter> S = {} \<Longrightarrow> free_at n' h fs"
  by (erule free_at_frame) (auto simp: same_but_def)

lemma pool_entries_cong: "(\<And>j. j \<in> set_tree t \<Longrightarrow> node_entry (n' ! j) = node_entry (n ! j)) \<Longrightarrow> pool_entries n' t = pool_entries n t"
  by (simp add: pool_entries_def)

lemma pool_entries_insort:
  assumes "inorder t' = insort_key (\<lambda>j. g (node_entry (n ! j))) x (inorder t)"
  shows "pool_entries n t' = insort_key g (node_entry (n ! x)) (pool_entries n t)"
proof -
  have "map h (insort_key (\<lambda>j. g (h j)) x xs) = insort_key g (h x) (map h xs)" for h :: "nat \<Rightarrow> NiEntry" and xs
    by (induction xs) simp_all
  then show ?thesis by (simp add: pool_entries_def assms)
qed

lemma pool_entries_filter:
  "inorder t' = filter (\<lambda>j. P (node_entry (n ! j))) (inorder t) \<Longrightarrow> pool_entries n t' = filter P (pool_entries n t)"
  by (simp add: pool_entries_def filter_map comp_def)

lemma find_exact_loop_at:
  assumes "tree_at n i t" and "f = node_cmp tb n key s"
  shows "\<exists>j. find_exact_loop tb n key s i = Some j \<and> (if shape_has f t then j \<in> set_tree t \<and> f j = 0 else j = TREE_NIL)"
  using assms(1)
proof (induction t arbitrary: i)
  case Leaf
  then show ?case by (simp add: find_exact_loop.simps [of tb n key s UINT16_MAX])
next
  case (Node l k r)
  have i: "i = k" "k < NI_MAX_CONTACTS" "tree_at n (an_left (n ! k)) l" "tree_at n (an_right (n ! k)) r" using Node.prems by simp_all
  note step = find_exact_loop.simps [of tb n key s k, folded assms(2), unfolded Let_def]
  consider "f k = 0" | "f k < 0" | "f k > 0" by linarith
  then show ?case
  proof cases
    case 1
    then show ?thesis using i by (simp add: step)
  next
    case 2
    then show ?thesis using Node.IH(1) [OF i(3)] i(1,2) by (auto simp: step)
  next
    case 3
    then show ?thesis using Node.IH(2) [OF i(4)] i(1,2) by (auto simp: step)
  qed
qed

subsection \<open>Searching and iterating\<close>

text \<open>The nodes before a probe are those on which \<open>c\<close> is negative.\<close>

definition probe_split :: "(nat \<Rightarrow> int) \<Rightarrow> nat tree \<Rightarrow> bool" where
  "probe_split c t \<longleftrightarrow> sorted_wrt (\<lambda>i j. (c j < 0 \<longrightarrow> c i < 0) \<and> (c i > 0 \<longrightarrow> c j > 0)) (inorder t)"

lemma probe_split_Node:
  assumes "probe_split c (Node l i r)"
  shows "probe_split c l" "probe_split c r" "c i < 0 \<Longrightarrow> j \<in> set_tree l \<Longrightarrow> c j < 0" "j \<in> set_tree l \<Longrightarrow> c j > 0 \<Longrightarrow> c i > 0"
  using assms by (auto simp: probe_split_def sorted_wrt_append)

lemma dropWhile_Node:
  assumes "probe_split c (Node l i r)"
  shows "dropWhile (\<lambda>j. c j < 0) (inorder (Node l i r)) =
    (if c i < 0 then dropWhile (\<lambda>j. c j < 0) (inorder r) else dropWhile (\<lambda>j. c j < 0) (inorder l) @ i # inorder r)"
proof (cases "c i < 0")
  case True
  then have "\<forall>j \<in> set (inorder l). c j < 0" using probe_split_Node(3) [OF assms] by simp
  then have "dropWhile (\<lambda>j. c j < 0) (inorder l @ i # inorder r) = dropWhile (\<lambda>j. c j < 0) (i # inorder r)"
    by (intro dropWhile_append2) blast
  then show ?thesis using True by simp
next
  case False
  then show ?thesis by (induction "inorder l") (auto simp: dropWhile_append)
qed

lemma avl_find_loop_at:
  assumes "tree_at n i t" and "c = probe_cmp tb n key" and "probe_split c t"
  shows "avl_find_loop tb n key i match =
    Some (case dropWhile (\<lambda>j. c j < 0) (inorder t) of [] \<Rightarrow> match | j # _ \<Rightarrow> if c j = 0 then j else match)"
  using assms(1,3)
proof (induction t arbitrary: i match)
  case Leaf
  then show ?case by (simp add: avl_find_loop.simps [of tb n key UINT16_MAX])
next
  case (Node l k r)
  have i: "i = k" "k < NI_MAX_CONTACTS" "tree_at n (an_left (n ! k)) l" "tree_at n (an_right (n ! k)) r" using Node.prems by simp_all
  note step = avl_find_loop.simps [of tb n key k, folded assms(2), unfolded Let_def]
  note P = probe_split_Node [OF Node.prems(2)]
  show ?case
  proof (cases "c k < 0")
    case True
    then show ?thesis using Node.IH(2) [OF i(4) P(2)] i(1,2) unfolding dropWhile_Node [OF Node.prems(2)] by (simp add: step)
  next
    case False
    show ?thesis
    proof (cases "dropWhile (\<lambda>j. c j < 0) (inorder l)")
      case Nil
      show ?thesis using False Node.IH(1) [OF i(3) P(1), unfolded Nil] i(1,2) unfolding dropWhile_Node [OF Node.prems(2)] Nil
        by (simp add: step)
    next
      case (Cons j js)
      then have j: "j \<in> set_tree l" "\<not> c j < 0"
        using hd_dropWhile [of "\<lambda>j. c j < 0" "inorder l"] set_dropWhileD [of j "\<lambda>j. c j < 0" "inorder l"] by auto
      then have "c j \<noteq> 0 \<Longrightarrow> c k \<noteq> 0" using P(4) [of j] by auto
      then show ?thesis using False Node.IH(1) [OF i(3) P(1), unfolded Cons] i(1,2) unfolding dropWhile_Node [OF Node.prems(2)] Cons
        by (simp add: step)
    qed
  qed
qed

text \<open>The stack of an iterator and the nodes that are still to come: each node on it, then its right subtree.\<close>

fun iter_rep :: "AvlNode list \<Rightarrow> nat list \<Rightarrow> nat list \<Rightarrow> bool" where
  "iter_rep n [] js = (js = [])"
| "iter_rep n (i # stack) js =
     (\<exists>r js'. i < NI_MAX_CONTACTS \<and> tree_at n (an_right (n ! i)) r \<and> length stack + height r < AVL_ITER_DEPTH \<and>
        js = i # inorder r @ js' \<and> iter_rep n stack js')"

lemma iter_rep_Nil: "iter_rep n stack js \<Longrightarrow> stack = [] \<longleftrightarrow> js = []"
  by (cases stack) auto

lemma push_left_at:
  "tree_at n i t \<Longrightarrow> length stack + height t \<le> AVL_ITER_DEPTH \<Longrightarrow> iter_rep n stack js \<Longrightarrow>
   \<exists>stack'. push_left n stack i = (True, stack') \<and> iter_rep n stack' (inorder t @ js)"
proof (induction t arbitrary: i stack js)
  case Leaf
  then show ?case by (simp add: push_left.simps [of n stack UINT16_MAX])
next
  case (Node l k r)
  have i: "i = k" "k < NI_MAX_CONTACTS" "tree_at n (an_left (n ! k)) l" "tree_at n (an_right (n ! k)) r" using Node.prems by simp_all
  have h: "length (k # stack) + height l \<le> AVL_ITER_DEPTH" "length stack + height r < AVL_ITER_DEPTH" using Node.prems(2) by simp_all
  have "iter_rep n (k # stack) (k # inorder r @ js)" using i h(2) Node.prems(3) by auto
  from Node.IH(1) [OF i(3) h(1) this] obtain stack' where
    "push_left n (k # stack) (an_left (n ! k)) = (True, stack')" "iter_rep n stack' (inorder l @ k # inorder r @ js)" by blast
  then show ?case using i(1,2) h(2) by (simp add: push_left.simps [of n stack k])
qed

lemma iter_rep_pop:
  assumes "iter_rep n (i # stack) js"
  shows "\<exists>js'. js = i # js' \<and> iter_rep n (snd (push_left n stack (an_right (n ! i)))) js'"
proof -
  obtain r js' where r: "tree_at n (an_right (n ! i)) r" "length stack + height r < AVL_ITER_DEPTH" "js = i # inorder r @ js'" "iter_rep n stack js'"
    using assms by auto
  from push_left_at [OF r(1) less_imp_le [OF r(2)] r(4)] obtain stack' where
    "push_left n stack (an_right (n ! i)) = (True, stack')" "iter_rep n stack' (inorder r @ js')" by blast
  then show ?thesis using r(3) by simp
qed

lemma avl_read_rep: "iter_rep (at_n T) stack js \<Longrightarrow> avl_read T stack k = take k (map (\<lambda>j. node_entry (at_n T ! j)) js)"
proof (induction k arbitrary: stack js)
  case (Suc k)
  show ?case
  proof (cases stack)
    case Nil
    then show ?thesis using Suc.prems by (simp add: avl_next_def)
  next
    case (Cons i stack')
    from iter_rep_pop [OF Suc.prems [unfolded Cons]] obtain js' where
      js: "js = i # js'" "iter_rep (at_n T) (snd (push_left (at_n T) stack' (an_right (at_n T ! i)))) js'" by blast
    show ?thesis using Suc.IH [OF js(2)] by (simp add: avl_next_def Cons js(1))
  qed
qed simp

text \<open>Along \<open>k\<close> calls of next the stack stays within its 24 nodes, and every descent finds room on it.\<close>

primrec iter_safe :: "AvlTree \<Rightarrow> nat list \<Rightarrow> nat \<Rightarrow> bool" where
  "iter_safe T stack 0 = (length stack \<le> AVL_ITER_DEPTH)"
| "iter_safe T stack (Suc k) =
     (length stack \<le> AVL_ITER_DEPTH \<and>
      (case stack of [] \<Rightarrow> True
       | i # rest \<Rightarrow> fst (push_left (at_n T) rest (an_right (at_n T ! i))) \<and> iter_safe T (snd (avl_next T stack)) k))"

lemma iter_rep_depth: "iter_rep n stack js \<Longrightarrow> length stack \<le> AVL_ITER_DEPTH"
  by (cases stack) auto

lemma iter_rep_safe: "iter_rep (at_n T) stack js \<Longrightarrow> iter_safe T stack k"
proof (induction k arbitrary: stack js)
  case (Suc k)
  show ?case
  proof (cases stack)
    case (Cons i rest)
    obtain r js' where r: "tree_at (at_n T) (an_right (at_n T ! i)) r" "length rest + height r < AVL_ITER_DEPTH" "iter_rep (at_n T) rest js'"
      using Suc.prems by (auto simp: Cons)
    from push_left_at [OF r(1) less_imp_le [OF r(2)] r(3)] obtain stack' where
      "push_left (at_n T) rest (an_right (at_n T ! i)) = (True, stack')" "iter_rep (at_n T) stack' (inorder r @ js')" by blast
    then show ?thesis using Suc.IH iter_rep_depth [OF Suc.prems] by (auto simp: Cons avl_next_def)
  qed simp
qed (auto dest: iter_rep_depth)

lemma seek_rank_loop_rep: "iter_rep n stack js \<Longrightarrow>
  iter_rep n (snd (seek_rank_loop n stack k)) (drop k js) \<and> (fst (seek_rank_loop n stack k) \<longleftrightarrow> k < length js)"
proof (induction k arbitrary: stack js)
  case 0
  then show ?case using iter_rep_Nil [OF 0] by simp
next
  case (Suc k)
  show ?case
  proof (cases stack)
    case Nil
    then show ?thesis using Suc.prems by simp
  next
    case (Cons i stack')
    from iter_rep_pop [OF Suc.prems [unfolded Cons]] obtain js' where
      js: "js = i # js'" "iter_rep n (snd (push_left n stack' (an_right (n ! i)))) js'" by blast
    show ?thesis using Suc.IH [OF js(2)] by (simp add: Cons js(1))
  qed
qed

lemma avl_begin_rep:
  assumes "avl_rep T t fs"
  shows "\<exists>stack. avl_begin T = (True, stack) \<and> iter_rep (at_n T) stack (inorder t)"
  using push_left_at [OF avl_repD(2) [OF assms], of "[]" "[]"] avl_repD(10) [OF assms] by (simp add: avl_begin_def)

lemma avl_seek_loop_at:
  assumes "tree_at n i t" and "c = probe_cmp tb n key" and "probe_split c t"
    and "length stack + height t \<le> AVL_ITER_DEPTH" and "iter_rep n stack js"
  shows "\<exists>stack'. avl_seek_loop tb n key stack i = Some (True, stack') \<and>
    iter_rep n stack' (dropWhile (\<lambda>j. c j < 0) (inorder t) @ js)"
  using assms(1,3-5)
proof (induction t arbitrary: i stack js)
  case Leaf
  then show ?case by (simp add: avl_seek_loop.simps [of tb n key stack UINT16_MAX])
next
  case (Node l k r)
  have i: "i = k" "k < NI_MAX_CONTACTS" "tree_at n (an_left (n ! k)) l" "tree_at n (an_right (n ! k)) r" using Node.prems by simp_all
  note step = avl_seek_loop.simps [of tb n key stack k, folded assms(2)]
  note P = probe_split_Node [OF Node.prems(2)]
  show ?case
  proof (cases "c k < 0")
    case True
    have "length stack + height r \<le> AVL_ITER_DEPTH" using Node.prems(3) by simp
    from Node.IH(2) [OF i(4) P(2) this Node.prems(4)] show ?thesis
      using True i(1,2) unfolding dropWhile_Node [OF Node.prems(2)] by (simp add: step)
  next
    case False
    have h: "length (k # stack) + height l \<le> AVL_ITER_DEPTH" "length stack + height r < AVL_ITER_DEPTH" using Node.prems(3) by simp_all
    have "iter_rep n (k # stack) (k # inorder r @ js)" using i h(2) Node.prems(4) by auto
    from Node.IH(1) [OF i(3) P(1) h(1) this] show ?thesis
      using False i(1,2) h(2) unfolding dropWhile_Node [OF Node.prems(2)] by (simp add: step)
  qed
qed

subsection \<open>The self-check\<close>

lemma valid_rec_at:
  "tree_at (at_n T) i t \<Longrightarrow> avl_shape t \<Longrightarrow> seen + size t \<le> at_count T \<Longrightarrow> at_count T < 65536 \<Longrightarrow>
   valid_rec T i seen = Some (int (height t), seen + size t)"
proof (induction t arbitrary: i seen)
  case Leaf
  then show ?case by (simp add: valid_rec.simps [of T UINT16_MAX])
next
  case (Node l k r)
  have i: "i = k" "k < NI_MAX_CONTACTS" "tree_at (at_n T) (an_left (at_n T ! k)) l" "tree_at (at_n T) (an_right (at_n T ! k)) r"
    "an_height (at_n T ! k) = int (height (Node l k r))" using Node.prems(1) by simp_all
  have s: "to_u16 (Suc seen) = Suc seen" "Suc seen \<le> at_count T" "Suc seen + size l \<le> at_count T" "Suc seen + size l + size r \<le> at_count T"
    using Node.prems(3,4) by simp_all
  have a: "avl_shape l" "avl_shape r" using Node.prems(2) by simp_all
  have l: "valid_rec T (an_left (at_n T ! k)) (Suc seen) = Some (int (height l), Suc seen + size l)"
    by (rule Node.IH(1) [OF i(3) a(1) s(3) Node.prems(4)])
  have r: "valid_rec T (an_right (at_n T ! k)) (Suc seen + size l) = Some (int (height r), Suc seen + size l + size r)"
    by (rule Node.IH(2) [OF i(4) a(2) s(4) Node.prems(4)])
  have h: "\<not> (int (height l) < 0 \<or> int (height r) < 0 \<or> int (height l) - int (height r) > 1 \<or> int (height r) - int (height l) > 1)"
    using Node.prems(2) by simp
  have m: "1 + (if int (height l) > int (height r) then int (height l) else int (height r)) = int (height (Node l k r))" by simp
  show ?case using i(1,2) s(1,2) l r h m i(5) by (simp add: valid_rec.simps [of T k] Let_def)
qed

lemma avl_valid_rep:
  assumes "avl_rep T t fs"
  shows "avl_valid T = Some True" "avl_height T = int (height t)"
proof -
  note R = avl_repD [OF assms]
  show "avl_valid T = Some True" using valid_rec_at [OF R(2,3), of 0] R(8,9) by (simp add: avl_valid_def)
  show "avl_height T = int (height t)" by (simp add: avl_height_def avl_h_tree [OF R(2)])
qed

subsection \<open>The operations keep the pool and the order\<close>

context tiebreak_order
begin

lemma node_cmp_compares:
  assumes w: "ix_wf nm (pool_entries n t)" and k: "length key = 8" "s < NI_MAX_CONTACTS"
  shows "compares (node_cmp (tb p) n key s) (\<lambda>j. entry_rank nm (node_entry (n ! j))) (ni_rank nm key s) t"
proof -
  have v: "length (an_key (n ! j)) = 8" "an_contact_index (n ! j) < NI_MAX_CONTACTS" if "j \<in> set_tree t" for j
    using ix_wfD(3,4) [OF w, of "node_entry (n ! j)"] that by (simp_all add: pool_entries_def node_entry_def)
  have "sorted_wrt (<) (map (\<lambda>j. entry_rank nm (node_entry (n ! j))) (inorder t))"
    using ix_wfD(1) [OF w] by (simp add: pool_entries_def comp_def)
  moreover have "(node_cmp (tb p) n key s j < 0 \<longleftrightarrow> ni_rank nm key s < entry_rank nm (node_entry (n ! j))) \<and>
      (node_cmp (tb p) n key s j = 0 \<longleftrightarrow> ni_rank nm key s = entry_rank nm (node_entry (n ! j)))" if "j \<in> set_tree t" for j
    using ni_cmp_rank [OF k(1) v(1) [OF that] k(2) v(2) [OF that], where p = p]
    unfolding node_cmp_def node_entry_def ni_rank_eq by simp
  ultimately show ?thesis unfolding compares_def by blast
qed

lemma pool_has:
  assumes "compares f (\<lambda>j. entry_rank nm (node_entry (n ! j))) (ni_rank nm key s) t"
  shows "shape_has f t \<longleftrightarrow> ix_has (pool_entries n t) key s"
  unfolding shape_has_rank [OF assms] by (auto simp: ix_has_def pool_entries_def node_entry_def ni_rank_def image_def)

lemma avl_insert_key_spec:
  assumes ok: "avl_ok nm T" and k: "length key = 8" "s < NI_MAX_CONTACTS"
  shows "\<exists>r T'. avl_insert_key (tb p) T key s = Some (r, T') \<and> avl_ok nm T' \<and> ix_insert nm (avl_entries T) key s = (r, avl_entries T') \<and>
    at_max_depth T' \<le> max (at_max_depth T) 19"
proof -
  obtain t fs where rep: "avl_rep T t fs" and wf: "ix_wf nm (avl_entries T)" using ok by (auto simp: avl_ok_def)
  note R = avl_repD [OF rep]
  show ?thesis
  proof (cases fs)
    case Nil
    then have "at_free_head T = TREE_NIL" "size t = NI_MAX_CONTACTS" using R(4,8) by simp_all
    then show ?thesis using ok R(11)
      by (intro exI [of _ False] exI [of _ T]) (simp add: avl_insert_key_def node_alloc_def ix_insert_def)
  next
    case (Cons x fs')
    have x: "at_free_head T = x" "x < NI_MAX_CONTACTS" "free_at (at_n T) (an_left (at_n T ! x)) fs'" "x \<notin> set_tree t" "x \<notin> set fs'"
      using R(4,6,7) Cons by auto
    let ?nd = "(at_n T ! x)\<lparr>an_key := key, an_contact_index := s, an_message_index := NO_MESSAGE,
        an_left := TREE_NIL, an_right := TREE_NIL, an_height := 1\<rparr>"
    define T1 where "T1 = T\<lparr>at_free_head := an_left (at_n T ! x), at_n := (at_n T)[x := ?nd]\<rparr>"
    have alloc: "node_alloc T = (x, T\<lparr>at_free_head := an_left (at_n T ! x)\<rparr>)" using x by (simp add: node_alloc_def)
    have n1: "at_n T1 ! x = ?nd" "\<And>j. j \<noteq> x \<Longrightarrow> at_n T1 ! j = at_n T ! j" "length (at_n T1) = NI_MAX_CONTACTS"
      using x(2) R(1) by (simp_all add: T1_def)
    have t1: "tree_at (at_n T1) (at_root T) t" by (rule tree_at_frame [OF R(2)]) (use n1(2) x(4) in metis)
    have f1: "free_at (at_n T1) (an_left (at_n T ! x)) fs'" by (rule free_at_frame [OF x(3)]) (use n1(2) x(5) in metis)
    have es1: "pool_entries (at_n T1) t = avl_entries T" unfolding R(11) by (rule pool_entries_cong) (use n1(2) x(4) in metis)
    define f where "f = node_cmp (tb p) (at_n T1) key s"
    have fx: "f = node_cmp (tb p) (at_n T1) (an_key (at_n T1 ! x)) (an_contact_index (at_n T1 ! x))" by (simp add: f_def n1(1))
    have cmp: "compares f (\<lambda>j. entry_rank nm (node_entry (at_n T1 ! j))) (ni_rank nm key s) t"
      unfolding f_def by (rule node_cmp_compares [OF _ k]) (use wf es1 in simp)
    note has = pool_has [OF cmp, unfolded es1]
    have "fresh_node T1 x" using x(2) by (simp add: fresh_node_def n1(1))
    from insert_rec_at [where depth = 1 and ok = True, OF t1 R(5,3) _ n1(3) _ this x(4) fx] R(10) obtain j T2 where
      r: "insert_rec (tb p) T1 (at_root T) x True 1 = Some (j, \<not> shape_has f t, T2)" "tree_at (at_n T2) j (ins_shape f x t)"
        "pool_moves (insert x (set_tree t)) (1 + height t) T1 T2" "at_free_head T2 = at_free_head T1" by auto
    note mv = pool_movesD [OF r(3)]
    have f2: "free_at (at_n T2) (an_left (at_n T ! x)) fs'"
      by (rule free_at_same_but [OF f1 mv(1)]) (use x(5) R(7) Cons in auto)
    have e2: "node_entry (at_n T2 ! i) = node_entry (at_n T1 ! i)" for i by (rule same_butD(2) [OF mv(1)])
    have dep: "at_max_depth T2 \<le> max (at_max_depth T) 19" using mv(5) R(10) by (simp add: T1_def)
    have run: "avl_insert_key (tb p) T key s =
        Some (if shape_has f t then (False, node_free (T2\<lparr>at_root := j\<rparr>) x)
              else (True, T2\<lparr>at_root := j, at_count := to_u16 (at_count T2 + 1)\<rparr>))"
      using x(2) r(1) by (simp add: avl_insert_key_def alloc Let_def flip: T1_def) (simp add: T1_def)
    show ?thesis
    proof (cases "shape_has f t")
      case True
      let ?T = "node_free (T2\<lparr>at_root := j\<rparr>) x"
      have xl: "x < length (at_n (T2\<lparr>at_root := j\<rparr>))" using mv(2) n1(3) x(2) by simp
      note fr = node_free_moves [OF xl]
      have same: "ins_shape f x t = t" using ins_shape_present [OF R(3) cmp] shape_has_rank [OF cmp] True by simp
      have tr: "tree_at (at_n ?T) (at_root ?T) t"
        using tree_at_same_but [OF r(2) [unfolded same], of "{x}" "at_n ?T"] fr(2) x(4) pool_movesD(3) [OF fr(4)] by simp
      have "free_at (at_n ?T) (an_left (at_n T ! x)) fs'"
        by (rule free_at_same_but [OF f2]) (use fr(2) x(5) in auto)
      then have "free_at (at_n ?T) (at_free_head ?T) fs"
        using fr(1) x(2) Cons r(4) by (simp add: freed_def T1_def)
      moreover have "length (at_n ?T) = NI_MAX_CONTACTS" using same_butD(1) [OF fr(2)] mv(2) n1(3) by simp
      moreover have "at_count ?T = size t" using pool_movesD(4) [OF fr(4)] mv(4) R(9) by (simp add: T1_def)
      ultimately have rep': "avl_rep ?T t fs" using tr R by (simp add: avl_rep_def)
      have "avl_entries ?T = pool_entries (at_n T1) t"
        unfolding avl_repD(11) [OF rep'] by (rule pool_entries_cong) (use same_butD(2) [OF fr(2)] e2 in simp)
      then have es: "avl_entries ?T = avl_entries T" using es1 by simp
      have "avl_ok nm ?T" unfolding avl_ok_def es using rep' wf by blast
      moreover have "at_max_depth ?T \<le> max (at_max_depth T) 19" using pool_movesD(5) [OF fr(4), of 0] dep by simp
      ultimately show ?thesis using run True es has by (auto simp: ix_insert_def)
    next
      case False
      let ?T = "T2\<lparr>at_root := j, at_count := to_u16 (at_count T2 + 1)\<rparr>"
      have less: "size t < NI_MAX_CONTACTS" using R(8) Cons by simp
      have nk: "ni_rank nm key s \<notin> (\<lambda>j. entry_rank nm (node_entry (at_n T1 ! j))) ` set_tree t"
        using shape_has_rank [OF cmp] False by simp
      have ex: "node_entry (at_n T1 ! x) = ni_fresh key s" by (simp add: n1(1) node_entry_def ni_fresh_def)
      have io: "inorder (ins_shape f x t) = insort_key (\<lambda>j. entry_rank nm (node_entry (at_n T1 ! j))) x (inorder t)"
        by (rule inorder_ins_shape [OF cmp _ nk]) (simp add: ex ni_fresh_def)
      have st: "set_tree (ins_shape f x t) = insert x (set_tree t)" using arg_cong [OF io, of set] by (simp add: set_insort_key)
      have sz: "size (ins_shape f x t) = Suc (size t)" using arg_cong [OF io, of length] by simp
      have "distinct (inorder (ins_shape f x t) @ fs')" using distinct_ins_shape [OF R(5) x(4), of f] st R(6,7) x(5) Cons by auto
      moreover have "at_count ?T = size (ins_shape f x t)" using mv(4) R(9) less sz by (simp add: T1_def)
      moreover have "length (at_n T2) = NI_MAX_CONTACTS" using mv(2) n1(3) by simp
      ultimately have rep': "avl_rep ?T (ins_shape f x t) fs'"
        using r(2,4) f2 ins_shape_avl [OF R(3), of f x] sz R(8) Cons by (simp add: avl_rep_def T1_def)
      have "avl_entries ?T = pool_entries (at_n T1) (ins_shape f x t)"
        unfolding avl_repD(11) [OF rep'] by (rule pool_entries_cong) (simp add: e2)
      also have "\<dots> = insort_key (entry_rank nm) (ni_fresh key s) (avl_entries T)"
        unfolding pool_entries_insort [where g = "entry_rank nm", OF io] ex es1 ..
      finally have es: "avl_entries ?T = insort_key (entry_rank nm) (ni_fresh key s) (avl_entries T)" .
      have i: "ix_insert nm (avl_entries T) key s = (True, avl_entries ?T)"
        using has False less unfolding es by (simp add: ix_insert_def R(11))
      have "avl_ok nm ?T" unfolding avl_ok_def using rep' ix_insert_wf [OF wf k i] by blast
      then show ?thesis using run False i dep by auto
    qed
  qed
qed

lemma avl_remove_spec:
  assumes ok: "avl_ok nm T" and s: "s < NI_MAX_CONTACTS"
  shows "\<exists>r T'. avl_remove (tb p) T name s = Some (r, T') \<and> avl_ok nm T' \<and>
    ix_remove (avl_entries T) (ni_make_key name) s = (r, avl_entries T') \<and> at_max_depth T' \<le> max (at_max_depth T) 19"
proof -
  let ?k = "ni_make_key name"
  obtain t fs where rep: "avl_rep T t fs" and wf: "ix_wf nm (avl_entries T)" using ok by (auto simp: avl_ok_def)
  note R = avl_repD [OF rep]
  define f where "f = node_cmp (tb p) (at_n T) ?k s"
  let ?rk = "\<lambda>j. entry_rank nm (node_entry (at_n T ! j))"
  have cmp: "compares f ?rk (ni_rank nm ?k s) t"
    unfolding f_def by (rule node_cmp_compares [OF _ length_ni_make_key s]) (use wf R(11) in simp)
  note has = pool_has [OF cmp, folded R(11)]
  from remove_rec_at [where depth = 1 and ok = True, OF R(2,5,3) _ _ R(1) f_def] R(10) obtain j T1 where
    r: "remove_rec (tb p) T (at_root T) ?k s True 1 = Some (j, shape_has f t, T1)" "tree_at (at_n T1) j (del_shape f t)"
      "pool_moves (set_tree t) (1 + height t) T T1"
      "if shape_has f t then \<exists>d. d \<in> set_tree t \<and> d \<notin> set_tree (del_shape f t) \<and> f d = 0 \<and> freed T T1 d
       else at_free_head T1 = at_free_head T" by auto
  note mv = pool_movesD [OF r(3)]
  define T2 where "T2 = T1\<lparr>at_root := j, at_count := if shape_has f t then at_count T1 - 1 else at_count T1\<rparr>"
  have run: "avl_remove (tb p) T name s = Some (shape_has f t, T2)" using r(1) by (simp add: avl_remove_def Let_def T2_def)
  have f1: "free_at (at_n T1) (at_free_head T) fs" by (rule free_at_same_but [OF R(4) mv(1)]) (use R(7) in auto)
  have io: "inorder (del_shape f t) = filter (\<lambda>j. ?rk j \<noteq> ni_rank nm ?k s) (inorder t)" by (rule inorder_del_shape [OF R(3) cmp])
  note sub = del_shape_subset [OF R(3,5), of f]
  have es1: "pool_entries (at_n T1) (del_shape f t) = filter (\<lambda>e. entry_rank nm e \<noteq> ni_rank nm ?k s) (avl_entries T)"
  proof -
    have "pool_entries (at_n T1) (del_shape f t) = pool_entries (at_n T) (del_shape f t)"
      by (rule pool_entries_cong) (rule same_butD(2) [OF mv(1)])
    also have "\<dots> = filter (\<lambda>e. entry_rank nm e \<noteq> ni_rank nm ?k s) (avl_entries T)"
      unfolding R(11) by (rule pool_entries_filter [OF io])
    finally show ?thesis .
  qed
  have rep': "\<exists>fs'. avl_rep T2 (del_shape f t) fs'"
  proof (cases "shape_has f t")
    case True
    then obtain d where d: "d \<in> set_tree t" "d \<notin> set_tree (del_shape f t)" "f d = 0" "freed T T1 d" using r(4) by auto
    have df: "d \<notin> set fs" "d < NI_MAX_CONTACTS" using d(1) R(7) tree_at_less [OF R(2)] by auto
    have rd: "?rk d = ni_rank nm ?k s" using cmp d(1,3) by (auto simp: compares_def)
    have "distinct (map ?rk (inorder t))" using cmp by (simp add: compares_def strict_sorted_iff)
    then have "\<And>y. y \<in> set_tree t \<Longrightarrow> ?rk y = ni_rank nm ?k s \<longleftrightarrow> y = d"
      using d(1) rd by (auto simp: distinct_map inj_on_def)
    then have "filter (\<lambda>y. ?rk y \<noteq> ni_rank nm ?k s) (inorder t) = filter (\<lambda>y. y \<noteq> d) (inorder t)" by (intro filter_cong) simp_all
    then have "inorder (del_shape f t) = remove1 d (inorder t)" using io R(5) by (simp only: distinct_remove1_removeAll removeAll_filter_not_eq) (metis (lifting))
    then have sz: "size (del_shape f t) = size t - 1" "size t > 0"
      using d(1) by (metis length_inorder length_remove1 set_inorder, cases t) simp_all
    have "free_at (at_n T1) (at_free_head T1) (d # fs)" using f1 d(4) df(2) by (simp add: freed_def)
    moreover have "distinct (inorder (del_shape f t) @ d # fs)" using sub R(6,7) d(2) df(1) by auto
    moreover have "length (at_n T1) = NI_MAX_CONTACTS" using mv(2) R(1) by simp
    ultimately have "avl_rep T2 (del_shape f t) (d # fs)"
      using True r(2) del_shape_avl [OF R(3), of f] sz R(8,9) mv(4) by (simp add: avl_rep_def T2_def)
    then show ?thesis by blast
  next
    case False
    have "?rk y \<noteq> ni_rank nm ?k s" if "y \<in> set (inorder t)" for y
    proof
      assume e: "?rk y = ni_rank nm ?k s"
      have "?rk y \<in> ?rk ` set_tree t" using that by (intro imageI) simp
      then show False using False unfolding shape_has_rank [OF cmp] e by blast
    qed
    then have "inorder (del_shape f t) = inorder t" unfolding io filter_id_conv by blast
    then have sz: "size (del_shape f t) = size t" "set_tree (del_shape f t) = set_tree t" by (metis length_inorder, metis set_inorder)
    have "free_at (at_n T1) (at_free_head T1) fs" using f1 r(4) False by simp
    moreover have "distinct (inorder (del_shape f t) @ fs)" using sub R(6,7) by auto
    moreover have "length (at_n T1) = NI_MAX_CONTACTS" using mv(2) R(1) by simp
    ultimately have "avl_rep T2 (del_shape f t) fs"
      using False r(2) del_shape_avl [OF R(3), of f] sz R(8,9) mv(4) by (simp add: avl_rep_def T2_def)
    then show ?thesis by blast
  qed
  then obtain fs' where rep1: "avl_rep T2 (del_shape f t) fs'" ..
  have es: "avl_entries T2 = filter (\<lambda>e. entry_rank nm e \<noteq> ni_rank nm ?k s) (avl_entries T)"
    unfolding avl_repD(11) [OF rep1] using es1 by (simp add: T2_def)
  have i: "ix_remove (avl_entries T) ?k s = (shape_has f t, avl_entries T2)"
    unfolding es has by (simp add: ix_remove_def)
  have "avl_ok nm T2" unfolding avl_ok_def using rep1 ix_remove_wf [OF wf i] by blast
  moreover have "at_max_depth T2 \<le> max (at_max_depth T) 19" using mv(5) R(10) by (simp add: T2_def)
  ultimately show ?thesis using run i by blast
qed

lemma avl_set_message_spec:
  assumes ok: "avl_ok nm T" and s: "s < NI_MAX_CONTACTS"
  shows "\<exists>r T'. avl_set_message (tb p) T name s m = Some (r, T') \<and> avl_ok nm T' \<and>
    ix_set_message (avl_entries T) (ni_make_key name) s m = (r, avl_entries T') \<and> at_max_depth T' = at_max_depth T"
proof -
  let ?k = "ni_make_key name"
  obtain t fs where rep: "avl_rep T t fs" and wf: "ix_wf nm (avl_entries T)" using ok by (auto simp: avl_ok_def)
  note R = avl_repD [OF rep]
  define f where "f = node_cmp (tb p) (at_n T) ?k s"
  let ?rk = "\<lambda>j. entry_rank nm (node_entry (at_n T ! j))"
  have cmp: "compares f ?rk (ni_rank nm ?k s) t"
    unfolding f_def by (rule node_cmp_compares [OF _ length_ni_make_key s]) (use wf R(11) in simp)
  note has = pool_has [OF cmp, folded R(11)]
  obtain j where j: "find_exact (tb p) T ?k s = Some j" "if shape_has f t then j \<in> set_tree t \<and> f j = 0 else j = TREE_NIL"
    using find_exact_loop_at [OF R(2) f_def] by (auto simp: find_exact_def)
  show ?thesis
  proof (cases "shape_has f t")
    case True
    then have jt: "j \<in> set_tree t" "?rk j = ni_rank nm ?k s" using j(2) cmp by (auto simp: compares_def)
    have jl: "j < NI_MAX_CONTACTS" by (rule tree_at_less [OF R(2) jt(1)])
    let ?n = "(at_n T)[j := (at_n T ! j)\<lparr>an_message_index := m\<rparr>]"
    let ?T = "T\<lparr>at_n := ?n\<rparr>"
    have at: "?n ! i = (if i = j then (at_n T ! j)\<lparr>an_message_index := m\<rparr> else at_n T ! i)" for i
      using jl R(1) by (simp add: nth_list_update)
    have run: "avl_set_message (tb p) T name s m = Some (True, ?T)" using jl j(1) by (simp add: avl_set_message_def)
    have links: "an_left (?n ! i) = an_left (at_n T ! i)" "an_right (?n ! i) = an_right (at_n T ! i)" "an_height (?n ! i) = an_height (at_n T ! i)" for i
      by (simp_all add: at)
    have "tree_at ?n i u \<longleftrightarrow> tree_at (at_n T) i u" for i u by (induction u arbitrary: i) (simp_all add: links)
    moreover have "free_at ?n i u \<longleftrightarrow> free_at (at_n T) i u" for i u by (induction u arbitrary: i) (simp_all add: links)
    ultimately have rep': "avl_rep ?T t fs" using rep by (simp add: avl_rep_def)
    have "node_entry (?n ! i) = (if ne_key (node_entry (at_n T ! i)) = ?k \<and> ne_contact_index (node_entry (at_n T ! i)) = s
        then (node_entry (at_n T ! i))\<lparr>ne_message_index := m\<rparr> else node_entry (at_n T ! i))" if "i \<in> set_tree t" for i
    proof -
      have "distinct (map ?rk (inorder t))" using cmp by (simp add: compares_def strict_sorted_iff)
      then have "?rk i = ?rk j \<longleftrightarrow> i = j" using that jt(1) by (auto simp: distinct_map inj_on_def)
      then have "ne_key (node_entry (at_n T ! i)) = ?k \<and> ne_contact_index (node_entry (at_n T ! i)) = s \<longleftrightarrow> i = j"
        unfolding jt(2) ni_rank_eq .
      then show ?thesis by (simp add: at node_entry_def)
    qed
    then have i: "ix_set_message (avl_entries T) ?k s m = (True, avl_entries ?T)"
      using has True unfolding avl_repD(11) [OF rep'] R(11) by (simp add: ix_set_message_def pool_entries_def)
    have "avl_ok nm ?T" unfolding avl_ok_def using rep' ix_set_message_wf [OF wf i] by (intro conjI exI)
    moreover have "at_max_depth ?T = at_max_depth T" by simp
    ultimately show ?thesis using run i by (intro exI conjI)
  next
    case False
    then show ?thesis using ok j has
      by (intro exI [of _ False] exI [of _ T]) (simp add: avl_set_message_def ix_absent)
  qed
qed

lemma probe_cmp_split:
  assumes w: "ix_wf nm (pool_entries n t)" and k: "length key = 8"
  shows "probe_split (probe_cmp (tb p) n key) t"
    "j \<in> set_tree t \<Longrightarrow> probe_cmp (tb p) n key j < 0 \<longleftrightarrow> ni_name nm (node_entry (n ! j)) < (map uint key, pn p)"
    "j \<in> set_tree t \<Longrightarrow> probe_cmp (tb p) n key j = 0 \<longleftrightarrow> ni_name nm (node_entry (n ! j)) = (map uint key, pn p)"
proof -
  have v: "length (an_key (n ! j)) = 8" "an_contact_index (n ! j) < NI_MAX_CONTACTS" if "j \<in> set_tree t" for j
    using ix_wfD(3,4) [OF w, of "node_entry (n ! j)"] that by (simp_all add: pool_entries_def node_entry_def)
  show neg: "probe_cmp (tb p) n key j < 0 \<longleftrightarrow> ni_name nm (node_entry (n ! j)) < (map uint key, pn p)" if "j \<in> set_tree t" for j
    unfolding probe_cmp_def using ni_cmp_probe(1) [OF v(1) [OF that] k v(2) [OF that], where p = p]
    by (simp add: ni_name_def node_entry_def)
  show zero: "probe_cmp (tb p) n key j = 0 \<longleftrightarrow> ni_name nm (node_entry (n ! j)) = (map uint key, pn p)" if "j \<in> set_tree t" for j
    unfolding probe_cmp_def using ni_cmp_probe(2) [OF v(1) [OF that] k v(2) [OF that], where p = p]
    by (simp add: ni_name_def node_entry_def)
  have pos: "probe_cmp (tb p) n key j > 0 \<longleftrightarrow> (map uint key, pn p) < ni_name nm (node_entry (n ! j))" if "j \<in> set_tree t" for j
    using neg [OF that] zero [OF that] by (metis linorder_neq_iff not_less_iff_gr_or_eq)
  have "sorted_wrt (\<lambda>i j. ni_name nm (node_entry (n ! i)) \<le> ni_name nm (node_entry (n ! j))) (inorder t)"
    using ix_wf_names [OF w] by (simp add: pool_entries_def sorted_wrt_map)
  then show "probe_split (probe_cmp (tb p) n key) t"
    unfolding probe_split_def
  proof (rule sorted_wrt_mono_rel [rotated])
    fix i j assume i: "i \<in> set (inorder t)" "j \<in> set (inorder t)"
      and le: "ni_name nm (node_entry (n ! i)) \<le> ni_name nm (node_entry (n ! j))"
    show "(probe_cmp (tb p) n key j < 0 \<longrightarrow> probe_cmp (tb p) n key i < 0) \<and> (probe_cmp (tb p) n key i > 0 \<longrightarrow> probe_cmp (tb p) n key j > 0)"
      using i le neg pos by (auto intro: le_less_trans less_le_trans)
  qed
qed

lemma avl_search_spec:
  assumes ok: "avl_ok nm T"
  shows "avl_find (tb p) T name = Some (ix_find nm (pn p) (avl_entries T) (ni_make_key name))"
    "\<exists>stack. avl_seek (tb p) T name = Some (True, stack) \<and>
       avl_read T stack k = take k (ix_seek nm (pn p) (avl_entries T) (ni_make_key name))"
proof -
  let ?k = "ni_make_key name"
  obtain t fs where rep: "avl_rep T t fs" and wf: "ix_wf nm (avl_entries T)" using ok by (auto simp: avl_ok_def)
  note R = avl_repD [OF rep]
  define c where "c = probe_cmp (tb p) (at_n T) ?k"
  note P = probe_cmp_split [OF wf [unfolded R(11)] length_ni_make_key [of name], where p = p, folded c_def]
  let ?e = "\<lambda>j. node_entry (at_n T ! j)"
  let ?as = "takeWhile (\<lambda>j. c j < 0) (inorder t)" and ?bs = "dropWhile (\<lambda>j. c j < 0) (inorder t)"
  have split: "avl_entries T = map ?e ?as @ map ?e ?bs" unfolding R(11) pool_entries_def by (simp flip: map_append)
  have before: "ni_name nm a < (map uint ?k, pn p)" if "a \<in> set (map ?e ?as)" for a
    using that P(2) by (auto dest!: set_takeWhileD)
  have bs: "\<not> c j < 0" if "j \<in> set ?bs" for j
  proof -
    have "sorted_wrt (\<lambda>i j. (c j < 0 \<longrightarrow> c i < 0) \<and> (c i > 0 \<longrightarrow> c j > 0)) (?as @ ?bs)"
      using P(1) by (simp add: probe_split_def)
    then have "sorted_wrt (\<lambda>i j. (c j < 0 \<longrightarrow> c i < 0) \<and> (c i > 0 \<longrightarrow> c j > 0)) ?bs"
      by (simp only: sorted_wrt_append)
    then show ?thesis using that hd_dropWhile [of "\<lambda>j. c j < 0" "inorder t"] by (cases ?bs) auto
  qed
  have after: "\<not> ni_name nm b < (map uint ?k, pn p)" if "b \<in> set (map ?e ?bs)" for b
  proof -
    from that have "b \<in> ?e ` set ?bs" by (simp only: set_map)
    then obtain j where j: "j \<in> set ?bs" "b = ?e j" by (rule imageE)
    have "j \<in> set_tree t" using set_dropWhileD [OF j(1)] by simp
    then show ?thesis unfolding j(2) using P(2) [of j] bs [OF j(1)] by simp
  qed
  have w: "ix_wf nm (map ?e ?as @ map ?e ?bs)" using wf unfolding split .
  have sp: "ix_seek nm (pn p) (avl_entries T) ?k = map ?e ?bs"
    "ix_find nm (pn p) (avl_entries T) ?k = (case map ?e ?bs of
       b # _ \<Rightarrow> if ni_name nm b = (map uint ?k, pn p) then ne_contact_index b else NI_NOT_FOUND | [] \<Rightarrow> NI_NOT_FOUND)"
    unfolding split using ix_seek_split [OF w before after] by blast+
  obtain stack where st: "avl_seek (tb p) T name = Some (True, stack)" "iter_rep (at_n T) stack ?bs"
    using avl_seek_loop_at [OF R(2) c_def P(1), of "[]" "[]"] R(10) by (auto simp: avl_seek_def)
  show "\<exists>stack. avl_seek (tb p) T name = Some (True, stack) \<and> avl_read T stack k = take k (ix_seek nm (pn p) (avl_entries T) ?k)"
    using st avl_read_rep [OF st(2)] sp(1) by simp
  have f: "avl_find_loop (tb p) (at_n T) ?k (at_root T) TREE_NIL =
      Some (case ?bs of [] \<Rightarrow> TREE_NIL | j # _ \<Rightarrow> if c j = 0 then j else TREE_NIL)"
    by (rule avl_find_loop_at [OF R(2) c_def P(1)])
  show "avl_find (tb p) T name = Some (ix_find nm (pn p) (avl_entries T) ?k)"
  proof (cases ?bs)
    case Nil
    show ?thesis unfolding sp(2) avl_find_def f Nil by simp
  next
    case (Cons j js)
    then have j: "j \<in> set_tree t" using set_dropWhileD [of j "\<lambda>j. c j < 0" "inorder t"] by simp
    have "j < NI_MAX_CONTACTS" by (rule tree_at_less [OF R(2) j])
    then show ?thesis unfolding sp(2) avl_find_def f Cons using P(3) [OF j] by (simp add: node_entry_def)
  qed
qed

lemma avl_rank_page:
  assumes "avl_ok nm T"
  shows "avl_read T (snd (avl_seek_rank T rank)) k = take k (drop rank (avl_entries T))"
    "fst (avl_seek_rank T rank) \<longleftrightarrow> rank < length (avl_entries T)"
proof -
  obtain t fs where rep: "avl_rep T t fs" using assms by (auto simp: avl_ok_def)
  note R = avl_repD [OF rep]
  obtain stack where st: "avl_begin T = (True, stack)" "iter_rep (at_n T) stack (inorder t)" using avl_begin_rep [OF rep] by blast
  note sk = seek_rank_loop_rep [OF st(2), of rank]
  show "fst (avl_seek_rank T rank) \<longleftrightarrow> rank < length (avl_entries T)" using sk R(11) by (simp add: avl_seek_rank_def st(1))
  show "avl_read T (snd (avl_seek_rank T rank)) k = take k (drop rank (avl_entries T))"
    using avl_read_rep [OF conjunct1 [OF sk], of k] unfolding R(11) pool_entries_def by (simp add: avl_seek_rank_def st(1) drop_map)
qed

lemma avl_iterators_safe:
  assumes "avl_ok nm T"
  shows "\<exists>stack. avl_begin T = (True, stack) \<and> iter_safe T stack k" "iter_safe T (snd (avl_seek_rank T rank)) k"
    "\<exists>stack. avl_seek (tb p) T name = Some (True, stack) \<and> iter_safe T stack k"
proof -
  obtain t fs where rep: "avl_rep T t fs" and wf: "ix_wf nm (avl_entries T)" using assms by (auto simp: avl_ok_def)
  note R = avl_repD [OF rep]
  obtain stack where st: "avl_begin T = (True, stack)" "iter_rep (at_n T) stack (inorder t)" using avl_begin_rep [OF rep] by blast
  then show "\<exists>stack. avl_begin T = (True, stack) \<and> iter_safe T stack k" using iter_rep_safe by blast
  show "iter_safe T (snd (avl_seek_rank T rank)) k"
    using iter_rep_safe [OF conjunct1 [OF seek_rank_loop_rep [OF st(2), of rank]], of k] by (simp add: avl_seek_rank_def st(1))
  have "probe_split (probe_cmp (tb p) (at_n T) (ni_make_key name)) t"
    by (rule probe_cmp_split(1) [OF wf [unfolded R(11)] length_ni_make_key])
  from avl_seek_loop_at [OF R(2) refl this, of "[]" "[]"] R(10) iter_rep_safe
  show "\<exists>stack. avl_seek (tb p) T name = Some (True, stack) \<and> iter_safe T stack k" by (fastforce simp: avl_seek_def)
qed

end

end
