(* ===== verification/Avl_Rebuild.thy ===== *)
theory Avl_Rebuild
  imports Avl_Index
begin

text \<open>
  The AVL tree emptied and rebuilt in bulk: \<open>avl_init\<close> chains the whole pool, and \<open>avl_rebuild\<close> appends the
  entries, sorts them with the shared heapsort, links the sorted nodes into a balanced tree (\<open>link_balanced\<close>
  computes \<open>link_shape\<close>) and frees the rest.  With that the tree meets the whole contract, and it and the sorted
  array interpret \<open>two_indexes\<close>.
\<close>

subsection \<open>Chaining free nodes\<close>

lemma set_left_simps [simp]:
  "length (at_n (set_left T i v)) = length (at_n T)" "at_root (set_left T i v) = at_root T"
  "at_count (set_left T i v) = at_count T" "at_free_head (set_left T i v) = at_free_head T" "at_max_depth (set_left T i v) = at_max_depth T"
  "j < length (at_n T) \<Longrightarrow> at_n (set_left T i v) ! j = (if j = i then (at_n T ! j)\<lparr>an_left := v\<rparr> else at_n T ! j)"
  by (simp_all add: set_left_def nth_list_update)

lemma set_right_simps [simp]:
  "length (at_n (set_right T i v)) = length (at_n T)" "at_root (set_right T i v) = at_root T"
  "at_count (set_right T i v) = at_count T" "at_free_head (set_right T i v) = at_free_head T" "at_max_depth (set_right T i v) = at_max_depth T"
  by (simp_all add: set_right_def)

lemma set_left_same_but: "same_but {i} (at_n T) (at_n (set_left T i v))"
  unfolding set_left_def by (simp add: same_but_update node_entry_def)

lemma set_right_same_but: "same_but {i} (at_n T) (at_n (set_right T i v))"
  unfolding set_right_def by (simp add: same_but_update node_entry_def)

lemma chain_all:
  "k \<le> length (at_n T) \<Longrightarrow> T' = fold (\<lambda>i t. set_left t i (to_u16 (i + 1))) [0 ..< k] T \<Longrightarrow>
   length (at_n T') = length (at_n T) \<and> at_max_depth T' = at_max_depth T \<and> (\<forall>j < k. an_left (at_n T' ! j) = to_u16 (j + 1))"
proof (induction k arbitrary: T')
  case (Suc k)
  define T1 where "T1 = fold (\<lambda>i t. set_left t i (to_u16 (i + 1))) [0 ..< k] T"
  have T': "T' = set_left T1 k (to_u16 (k + 1))" using Suc.prems(2) by (simp add: T1_def)
  have "length (at_n T1) = length (at_n T) \<and> at_max_depth T1 = at_max_depth T \<and> (\<forall>j < k. an_left (at_n T1 ! j) = to_u16 (j + 1))"
    using Suc.IH [OF _ T1_def] Suc.prems(1) by simp
  then show ?case using Suc.prems(1) by (auto simp: T' less_Suc_eq)
qed simp

lemma free_at_range:
  "i < m \<Longrightarrow> m \<le> NI_MAX_CONTACTS \<Longrightarrow> (\<And>j. i \<le> j \<Longrightarrow> j < m - 1 \<Longrightarrow> an_left (n ! j) = j + 1) \<Longrightarrow> an_left (n ! (m - 1)) = TREE_NIL \<Longrightarrow>
   free_at n i [i ..< m]"
proof (induction "m - i" arbitrary: i)
  case (Suc d)
  show ?case
  proof (cases "i = m - 1")
    case True
    then have "[i ..< m] = [i]" using Suc.prems(1) by (simp add: upt_rec)
    then show ?thesis using Suc.prems True by simp
  next
    case False
    then have "free_at n (i + 1) [i + 1 ..< m]" using Suc.hyps(2) Suc.prems by (intro Suc.hyps(1)) simp_all
    moreover have "[i ..< m] = i # [i + 1 ..< m]" using Suc.prems(1) by (simp add: upt_conv_Cons)
    ultimately show ?thesis using Suc.prems False by simp
  qed
qed simp

lemma avl_init_rep:
  assumes "length (at_n T) = NI_MAX_CONTACTS"
  shows "avl_rep (avl_init T) Leaf [0 ..< NI_MAX_CONTACTS]" "at_max_depth (avl_init T) = at_max_depth T"
proof -
  define T1 where "T1 = fold (\<lambda>i t. set_left t i (to_u16 (i + 1))) [0 ..< NI_MAX_CONTACTS] T"
  have c: "length (at_n T1) = NI_MAX_CONTACTS" "at_max_depth T1 = at_max_depth T"
    "j < NI_MAX_CONTACTS \<Longrightarrow> an_left (at_n T1 ! j) = to_u16 (j + 1)" for j
    using chain_all [OF _ T1_def] assms by simp_all
  have i: "avl_init T = (set_left T1 (NI_MAX_CONTACTS - 1) TREE_NIL)\<lparr>at_free_head := 0, at_root := TREE_NIL, at_count := 0\<rparr>"
    unfolding avl_init_def Let_def T1_def ..
  have "free_at (at_n (avl_init T)) 0 [0 ..< NI_MAX_CONTACTS]"
    by (rule free_at_range) (use c in \<open>simp_all add: i\<close>)
  then show "avl_rep (avl_init T) Leaf [0 ..< NI_MAX_CONTACTS]" using c(1) by (simp add: avl_rep_def i)
  show "at_max_depth (avl_init T) = at_max_depth T" using c(2) by (simp add: i)
qed

lemma avl_ok_init:
  assumes "length (at_n T) = NI_MAX_CONTACTS"
  shows "avl_ok nm (avl_init T)" "avl_entries (avl_init T) = []"
proof -
  note rep = avl_init_rep(1) [OF assms]
  show e: "avl_entries (avl_init T) = []" unfolding avl_repD(11) [OF rep] by (simp add: pool_entries_def)
  show "avl_ok nm (avl_init T)" unfolding avl_ok_def e using rep by (auto simp: ix_wf_def)
qed

lemma free_rest:
  "k \<le> NI_MAX_CONTACTS \<Longrightarrow> length (at_n T) = NI_MAX_CONTACTS \<Longrightarrow> at_free_head T = TREE_NIL \<Longrightarrow>
   T' = fold (\<lambda>i t. node_free t i) (rev [NI_MAX_CONTACTS - k ..< NI_MAX_CONTACTS]) T \<Longrightarrow>
   free_at (at_n T') (at_free_head T') [NI_MAX_CONTACTS - k ..< NI_MAX_CONTACTS] \<and>
   pool_moves {NI_MAX_CONTACTS - k ..< NI_MAX_CONTACTS} 0 T T'"
proof (induction k arbitrary: T')
  case 0
  then show ?case by (simp add: pool_moves_def)
next
  case (Suc k)
  let ?m = "NI_MAX_CONTACTS - Suc k"
  define T1 where "T1 = fold (\<lambda>i t. node_free t i) (rev [NI_MAX_CONTACTS - k ..< NI_MAX_CONTACTS]) T"
  have range: "[?m ..< NI_MAX_CONTACTS] = ?m # [NI_MAX_CONTACTS - k ..< NI_MAX_CONTACTS]"
  proof -
    have "?m < NI_MAX_CONTACTS" "Suc ?m = NI_MAX_CONTACTS - k" using Suc.prems(1) by simp_all
    then show ?thesis by (metis upt_conv_Cons)
  qed
  have T': "T' = node_free T1 ?m" unfolding T1_def Suc.prems(4) range by simp
  have ih: "free_at (at_n T1) (at_free_head T1) [NI_MAX_CONTACTS - k ..< NI_MAX_CONTACTS]"
    "pool_moves {NI_MAX_CONTACTS - k ..< NI_MAX_CONTACTS} 0 T T1"
    using Suc.IH [OF _ Suc.prems(2,3) T1_def] Suc.prems(1) by simp_all
  have l1: "length (at_n T1) = NI_MAX_CONTACTS" using pool_movesD(2) [OF ih(2)] Suc.prems(2) by simp
  have m: "?m < length (at_n T1)" "?m < NI_MAX_CONTACTS" using l1 Suc.prems(1) by simp_all
  note fr = node_free_moves [OF m(1), folded T']
  have "free_at (at_n T') (at_free_head T1) [NI_MAX_CONTACTS - k ..< NI_MAX_CONTACTS]"
    by (rule free_at_same_but [OF ih(1) fr(2)]) (use Suc.prems(1) in auto)
  then have "free_at (at_n T') (at_free_head T') [?m ..< NI_MAX_CONTACTS]"
    unfolding range using fr(1) m(2) by (simp add: freed_def)
  moreover have "same_but {?m ..< NI_MAX_CONTACTS} (at_n T) (at_n T')"
    by (rule same_but_mono [OF same_but_trans [OF pool_movesD(1) [OF ih(2)] fr(2)]]) (use Suc.prems(1) in auto)
  ultimately show ?case using pool_movesD(3-5) [OF ih(2)] pool_movesD(3-5) [OF fr(4) [of 0]] by (simp add: pool_moves_def)
qed

subsection \<open>Linking a sorted range\<close>

lemma set_link_shape: "set_tree (link_shape lo n) = {lo ..< lo + n}"
  by (metis inorder_link_shape set_inorder set_upt)

lemma size_link_shape [simp]: "size (link_shape lo n) = n"
  by (metis add_diff_cancel_left' inorder_link_shape length_inorder length_upt)

lemma height_link_bound: "n \<le> NI_MAX_CONTACTS \<Longrightarrow> height (link_shape lo n) \<le> 18"
  by (rule avl_height_bound [OF avl_link_shape]) simp

lemma link_balanced_at:
  "length (at_n T) = NI_MAX_CONTACTS \<Longrightarrow> lo + n \<le> NI_MAX_CONTACTS \<Longrightarrow> depth + height (link_shape lo n) < 256 \<Longrightarrow>
   \<exists>j T'. link_balanced T (int lo) (int (lo + n) - 1) depth = Some (j, T') \<and> tree_at (at_n T') j (link_shape lo n) \<and>
     pool_moves {lo ..< lo + n} (depth + height (link_shape lo n)) T T'"
proof (induction n arbitrary: lo T depth rule: less_induct)
  case (less n)
  show ?case
  proof (cases "n = 0")
    case True
    then show ?thesis by (simp add: link_balanced.simps [of T "int lo"] link_shape.simps [of lo 0] pool_moves_def)
  next
    case False
    define a where "a = (n - 1) div 2"
    define b where "b = n - 1 - a"
    define mid where "mid = lo + a"
    have ab: "a < n" "b < n" "n = a + 1 + b" using False by (auto simp: a_def b_def)
    have shape: "link_shape lo n = Node (link_shape lo a) mid (link_shape (mid + 1) b)"
      using False by (simp add: link_shape.simps [of lo n] a_def b_def mid_def)
    have "(int (lo + n) - 1 - int lo) div 2 = int a" using False by (simp add: a_def zdiv_int of_nat_diff)
    then have mid: "to_u16 (nat (int lo + (int (lo + n) - 1 - int lo) div 2)) = mid"
      using less.prems(2) ab by (simp add: mid_def)
    have lt: "mid < NI_MAX_CONTACTS" using less.prems(2) ab by (simp add: mid_def)
    have h: "height (link_shape lo a) \<le> 100" "height (link_shape (mid + 1) b) \<le> 100"
      using height_link_bound [of a lo] height_link_bound [of b "mid + 1"] less.prems(2) ab by simp_all
    have dep: "to_u8 (depth + 1) = depth + 1" "(depth + 1) + height (link_shape lo a) < 256" "(depth + 1) + height (link_shape (mid + 1) b) < 256"
      using less.prems(3) by (simp_all add: shape)
    define T0 where "T0 = note_depth T depth"
    have m0: "pool_moves {} depth T T0" by (simp add: T0_def)
    have l0: "length (at_n T0) = NI_MAX_CONTACTS" using less.prems(1) by (simp add: T0_def)
    have "lo + a \<le> NI_MAX_CONTACTS" using less.prems(2) ab by simp
    from less.IH [OF ab(1) l0 this dep(2)] obtain l T1 where
      r1: "link_balanced T0 (int lo) (int mid - 1) (depth + 1) = Some (l, T1)" "tree_at (at_n T1) l (link_shape lo a)"
        "pool_moves {lo ..< lo + a} (depth + 1 + height (link_shape lo a)) T0 T1" by (auto simp: mid_def)
    define T2 where "T2 = set_left T1 mid l"
    have l2: "length (at_n T2) = NI_MAX_CONTACTS" using pool_movesD(2) [OF r1(3)] l0 by (simp add: T2_def)
    have s2: "same_but {mid} (at_n T1) (at_n T2)" unfolding T2_def by (rule set_left_same_but)
    have "mid + 1 + b \<le> NI_MAX_CONTACTS" using less.prems(2) ab by (simp add: mid_def)
    moreover have "int (mid + 1 + b) - 1 = int (lo + n) - 1" using ab by (simp add: mid_def)
    ultimately obtain r T3 where
      r3: "link_balanced T2 (int mid + 1) (int (lo + n) - 1) (depth + 1) = Some (r, T3)" "tree_at (at_n T3) r (link_shape (mid + 1) b)"
        "pool_moves {mid + 1 ..< mid + 1 + b} (depth + 1 + height (link_shape (mid + 1) b)) T2 T3"
      using less.IH [OF ab(2) l2 _ dep(3)] by (auto simp: add.commute)
    have l3: "length (at_n T3) = NI_MAX_CONTACTS" using pool_movesD(2) [OF r3(3)] l2 by simp
    define T4 where "T4 = set_right T3 mid r"
    have l4: "length (at_n T4) = NI_MAX_CONTACTS" using l3 by (simp add: T4_def)
    have s4: "same_but {mid} (at_n T3) (at_n T4)" unfolding T4_def by (rule set_right_same_but)
    have left: "an_left (at_n T3 ! mid) = l"
    proof -
      have "at_n T3 ! mid = at_n T2 ! mid" by (rule same_butD(3) [OF pool_movesD(1) [OF r3(3)]]) simp
      then show ?thesis using lt l2 by (simp add: T2_def)
    qed
    have n4: "at_n T4 ! mid = (at_n T3 ! mid)\<lparr>an_right := r\<rparr>" using lt l3 by (simp add: T4_def set_right_def)
    have "tree_at (at_n T2) l (link_shape lo a)" by (rule tree_at_same_but [OF r1(2) s2]) (simp add: set_link_shape mid_def)
    then have "tree_at (at_n T3) l (link_shape lo a)"
      by (rule tree_at_same_but [OF _ pool_movesD(1) [OF r3(3)]]) (auto simp: set_link_shape mid_def)
    then have "tree_at (at_n T4) l (link_shape lo a)" by (rule tree_at_same_but [OF _ s4]) (simp add: set_link_shape mid_def)
    moreover have "tree_at (at_n T4) r (link_shape (mid + 1) b)" by (rule tree_at_same_but [OF r3(2) s4]) (simp add: set_link_shape)
    moreover have "distinct (inorder (link_shape lo n))" by (simp add: inorder_link_shape)
    ultimately have "node_at (at_n T4) mid (link_shape lo a) (link_shape (mid + 1) b)"
      using lt left by (simp add: node_at_def n4 shape)
    note u = update_height_at [OF this l4 h]
    let ?T = "T4\<lparr>at_n := update_height (at_n T4) mid\<rparr>"
    have run: "link_balanced T (int lo) (int (lo + n) - 1) depth = Some (mid, ?T)"
      using False by (subst link_balanced.simps) (simp only: mid T0_def [symmetric] dep(1) r1(1) Let_def T2_def [symmetric] r3(1) T4_def [symmetric]
          bind.simps prod.case, simp)
    have "same_but ({} \<union> {lo ..< lo + a} \<union> {mid} \<union> {mid + 1 ..< mid + 1 + b} \<union> {mid} \<union> {mid}) (at_n T) (at_n ?T)"
      using same_but_trans [OF same_but_trans [OF same_but_trans [OF same_but_trans [OF same_but_trans [OF
        pool_movesD(1) [OF m0] pool_movesD(1) [OF r1(3)]] s2] pool_movesD(1) [OF r3(3)]] s4] u(2)] by simp
    then have "same_but {lo ..< lo + n} (at_n T) (at_n ?T)" by (rule same_but_mono) (use ab in \<open>auto simp: mid_def\<close>)
    moreover have "at_root ?T = at_root T" "at_count ?T = at_count T"
      using pool_movesD(3,4) [OF m0] pool_movesD(3,4) [OF r1(3)] pool_movesD(3,4) [OF r3(3)] by (simp_all add: T4_def T2_def)
    moreover have "at_max_depth ?T \<le> max (at_max_depth T) (depth + height (link_shape lo n))"
      using pool_movesD(5) [OF m0] pool_movesD(5) [OF r1(3)] pool_movesD(5) [OF r3(3)] by (simp add: T4_def T2_def shape)
    ultimately have "pool_moves {lo ..< lo + n} (depth + height (link_shape lo n)) T ?T" by (simp only: pool_moves_def simp_thms)
    then show ?thesis using run u(1) shape by auto
  qed
qed

subsection \<open>The rebuild\<close>

text \<open>The comparison of whole nodes is one the heapsort can use.\<close>

sublocale tiebreak_order \<subseteq> avl_sort: entry_order
  "\<lambda>x y. Inr (ni_cmp (an_key x) (an_contact_index x) (an_key y) (an_contact_index y) (tb p))"
  "\<lambda>x. entry_rank nm (node_entry x)" "\<lambda>x. length (an_key x) = 8 \<and> an_contact_index x < NI_MAX_CONTACTS" for p
proof
  fix a b :: AvlNode
  assume "length (an_key a) = 8 \<and> an_contact_index a < NI_MAX_CONTACTS" "length (an_key b) = 8 \<and> an_contact_index b < NI_MAX_CONTACTS"
  then show "\<exists>order. Inr (ni_cmp (an_key a) (an_contact_index a) (an_key b) (an_contact_index b) (tb p)) = (Inr order :: int res) \<and>
      (order < 0 \<longleftrightarrow> entry_rank nm (node_entry a) < entry_rank nm (node_entry b)) \<and>
      (order = 0 \<longleftrightarrow> entry_rank nm (node_entry a) = entry_rank nm (node_entry b))"
    using ni_cmp_rank [where p = p] unfolding node_entry_def ni_rank_eq by auto
qed

lemma avl_rebuild_add_all:
  assumes "length (at_n T) = NI_MAX_CONTACTS" and "at_count T + length nss \<le> NI_MAX_CONTACTS"
    and "T' = fold (\<lambda>(name, s) t. snd (avl_rebuild_add t (ni_make_key name) s)) nss T"
  shows "length (at_n T') = NI_MAX_CONTACTS \<and> at_count T' = at_count T + length nss \<and> at_max_depth T' = at_max_depth T \<and>
    map node_entry (take (at_count T + length nss) (at_n T')) =
      map node_entry (take (at_count T) (at_n T)) @ map (\<lambda>(key, s). ni_fresh key s) (keyed nss)"
  using assms
proof (induction nss arbitrary: T)
  case (Cons x nss)
  obtain name s where x: "x = (name, s)" by (meson surj_pair)
  let ?c = "at_count T"
  let ?nd = "(at_n T ! ?c)\<lparr>an_key := ni_make_key name, an_contact_index := s, an_message_index := NO_MESSAGE\<rparr>"
  let ?T = "T\<lparr>at_n := (at_n T)[?c := ?nd], at_count := ?c + 1\<rparr>"
  have add: "avl_rebuild_add T (ni_make_key name) s = (True, ?T)" using Cons.prems(2) by (simp add: avl_rebuild_add_def)
  have es: "map node_entry (take (at_count ?T) (at_n ?T)) = map node_entry (take ?c (at_n T)) @ [ni_fresh (ni_make_key name) s]"
    using Cons.prems(1,2) by (simp add: take_Suc_conv_app_nth node_entry_def ni_fresh_def)
  have p: "length (at_n ?T) = NI_MAX_CONTACTS" "at_count ?T + length nss \<le> NI_MAX_CONTACTS" using Cons.prems(1,2) by simp_all
  have f: "T' = fold (\<lambda>(name, s) t. snd (avl_rebuild_add t (ni_make_key name) s)) nss ?T" using Cons.prems(3) by (simp add: x add)
  from Cons.IH [OF p f] show ?case unfolding es by (simp add: x keyed_def)
qed (simp_all add: keyed_def)

context tiebreak_order
begin

lemma avl_rebuild_spec:
  assumes "length (at_n T) = NI_MAX_CONTACTS" and "ix_rebuild_ok (keyed nss)"
  shows "\<exists>T'. avl_rebuild (tb p) T nss = Some (True, T') \<and> avl_ok nm T' \<and> avl_entries T' = ix_rebuild nm (keyed nss) \<and>
    at_max_depth T' \<le> max (at_max_depth T) 19"
proof -
  define m where "m = length nss"
  have m: "m \<le> NI_MAX_CONTACTS" using assms(2) by (simp add: ix_rebuild_ok_def m_def)
  define T1 where "T1 = fold (\<lambda>(name, s) t. snd (avl_rebuild_add t (ni_make_key name) s)) nss (avl_rebuild_begin T)"
  let ?es = "map (\<lambda>(key, s). ni_fresh key s) (keyed nss)"
  have e1: "length (at_n T1) = NI_MAX_CONTACTS" "at_count T1 = m" "at_max_depth T1 = at_max_depth T" "map node_entry (take m (at_n T1)) = ?es"
    using avl_rebuild_add_all [OF _ _ T1_def] assms(1) m by (simp_all add: avl_rebuild_begin_def m_def)
  have v: "length (an_key x) = 8 \<and> an_contact_index x < NI_MAX_CONTACTS" if "x \<in> set (take m (at_n T1))" for x
  proof -
    have "node_entry x \<in> set ?es" using imageI [OF that, of node_entry] by (simp flip: e1(4))
    then show ?thesis using assms(2) by (auto simp: ix_rebuild_ok_def ni_fresh_def node_entry_def)
  qed
  let ?cmp = "\<lambda>x y. Inr (ni_cmp (an_key x) (an_contact_index x) (an_key y) (an_contact_index y) (tb p)) :: int res"
  obtain n1 where h: "heap_sort ?cmp (at_n T1) m = (STRG_OK, n1)"
      "sorted (map (\<lambda>x. entry_rank nm (node_entry x)) (take m n1))" "permuted m (at_n T1) n1"
    using avl_sort.heap_sort_sorts [where p = p and mem = "at_n T1" and n = m, OF _ v] e1(1) m by auto
  define T2 where "T2 = T1\<lparr>at_n := n1\<rparr>"
  have l2: "length (at_n T2) = NI_MAX_CONTACTS" using permuted_length [OF h(3)] e1(1) by (simp add: T2_def)
  have hb: "height (link_shape 0 m) \<le> 18" by (rule height_link_bound [OF m])
  from link_balanced_at [OF l2, of 0 m 1] m hb obtain j T3 where
    r: "link_balanced T2 0 (int m - 1) 1 = Some (j, T3)" "tree_at (at_n T3) j (link_shape 0 m)"
      "pool_moves {0 ..< m} (1 + height (link_shape 0 m)) T2 T3" by auto
  define T4 where "T4 = T3\<lparr>at_root := j, at_free_head := TREE_NIL\<rparr>"
  have l4: "length (at_n T4) = NI_MAX_CONTACTS" using pool_movesD(2) [OF r(3)] l2 by (simp add: T4_def)
  define T' where "T' = fold (\<lambda>i t. node_free t i) (rev [m ..< NI_MAX_CONTACTS]) T4"
  have k: "NI_MAX_CONTACTS - (NI_MAX_CONTACTS - m) = m" using m by simp
  have fr: "free_at (at_n T') (at_free_head T') [m ..< NI_MAX_CONTACTS]" "pool_moves {m ..< NI_MAX_CONTACTS} 0 T4 T'"
    using free_rest [OF _ l4, of "NI_MAX_CONTACTS - m" T', unfolded k] by (simp_all add: T4_def T'_def)
  have run: "avl_rebuild (tb p) T nss = Some (True, T')"
    using m unfolding m_def avl_rebuild_def Let_def avl_rebuild_finish_def T1_def [symmetric] e1(2) [unfolded m_def]
    by (simp add: h(1) [unfolded m_def] T2_def [symmetric] r(1) [unfolded m_def One_nat_def] T4_def T'_def m_def)
  have tree: "tree_at (at_n T') j (link_shape 0 m)"
    by (rule tree_at_same_but [OF _ pool_movesD(1) [OF fr(2)]]) (use r(2) in \<open>auto simp: T4_def set_link_shape\<close>)
  have misc: "length (at_n T') = NI_MAX_CONTACTS" "at_root T' = j" "at_count T' = m"
    using pool_movesD(2-4) [OF fr(2)] pool_movesD(4) [OF r(3)] l4 e1(2) by (simp_all add: T4_def T2_def)
  have rep: "avl_rep T' (link_shape 0 m) [m ..< NI_MAX_CONTACTS]"
    using tree misc fr(1) avl_link_shape [of 0 m] m by (auto simp: avl_rep_def inorder_link_shape)
  have same: "node_entry (at_n T' ! i) = node_entry (n1 ! i)" for i
    using same_butD(2) [OF pool_movesD(1) [OF fr(2)], of i] same_butD(2) [OF pool_movesD(1) [OF r(3)], of i] by (simp add: T4_def T2_def)
  have "take m n1 = map ((!) n1) [0 ..< m]" using l2 m by (intro nth_equalityI) (simp_all add: T2_def)
  then have en: "avl_entries T' = map node_entry (take m n1)"
    unfolding avl_repD(11) [OF rep] pool_entries_def inorder_link_shape same by simp
  have "mset (avl_entries T') = mset ?es"
  proof -
    have "mset (take m n1) = mset (take m (at_n T1))" using h(3) by (simp add: permuted_def)
    then have "image_mset node_entry (mset (take m n1)) = image_mset node_entry (mset (take m (at_n T1)))" by (simp only:)
    then show ?thesis unfolding en e1(4) [symmetric] mset_map .
  qed
  moreover have "inj_on (entry_rank nm) (set ?es)" by (auto simp: inj_on_def ni_fresh_def)
  moreover have "sorted (map (entry_rank nm) (avl_entries T'))" using h(2) unfolding en by (simp add: comp_def)
  ultimately have es: "avl_entries T' = ix_rebuild nm (keyed nss)" unfolding ix_rebuild_def by (intro sort_key_unique)
  have "avl_ok nm T'" unfolding avl_ok_def es using rep ix_rebuild_wf [OF assms(2)] by blast
  moreover have "at_max_depth T' \<le> max (at_max_depth T) 19"
    using pool_movesD(5) [OF fr(2)] pool_movesD(5) [OF r(3)] hb e1(3) by (simp add: T4_def T2_def)
  ultimately show ?thesis using run es by blast
qed

end

subsection \<open>The candidate\<close>

definition avl_candidate :: "(nat \<Rightarrow> nat \<Rightarrow> int) \<Rightarrow> AvlTree NiCandidate" where
  "avl_candidate tb =
     \<lparr>ni_insert = avl_insert tb,
      ni_remove = avl_remove tb,
      ni_set_message = avl_set_message tb,
      ni_rebuild = avl_rebuild tb,
      ni_find = avl_find tb,
      ni_count = at_count,
      ni_name_page = \<lambda>t name n. map_option (\<lambda>(ok, stack). avl_read t stack n) (avl_seek tb t name),
      ni_rank_page = \<lambda>t rank n. Some (avl_read t (snd (avl_seek_rank t rank)) n)\<rparr>"

sublocale tiebreak_order \<subseteq> avl: name_index tb nm pn "\<lambda>p. avl_candidate (tb p)" "avl_ok nm" avl_entries
proof
  fix t :: AvlTree and p :: 'p and name :: "byte list" and s m n rank :: nat and nss :: "(byte list \<times> nat) list"
  assume ok: "avl_ok nm t"
  obtain u fs where rep: "avl_rep t u fs" using ok by (auto simp: avl_ok_def)
  note R = avl_repD [OF rep]
  show "ix_wf nm (avl_entries t)" using ok by (simp add: avl_ok_def)
  show "ni_find (avl_candidate (tb p)) t name = Some (ix_find nm (pn p) (avl_entries t) (ni_make_key name))"
    by (simp add: avl_candidate_def avl_search_spec(1) [OF ok])
  show "ni_name_page (avl_candidate (tb p)) t name n = Some (take n (ix_seek nm (pn p) (avl_entries t) (ni_make_key name)))"
    using avl_search_spec(2) [OF ok, where p = p and name = name and k = n] by (auto simp: avl_candidate_def)
  show "ni_count (avl_candidate (tb p)) t = length (avl_entries t)" by (simp add: avl_candidate_def R(9,11))
  show "ni_rank_page (avl_candidate (tb p)) t rank n = Some (take n (drop rank (avl_entries t)))"
    by (simp add: avl_candidate_def avl_rank_page [OF ok])
  { assume "s < NI_MAX_CONTACTS"
    from avl_insert_key_spec [OF ok length_ni_make_key this, where p = p, of name]
    show "\<exists>r t'. ni_insert (avl_candidate (tb p)) t name s = Some (r, t') \<and> avl_ok nm t' \<and>
        (r, avl_entries t') = ix_insert nm (avl_entries t) (ni_make_key name) s" by (auto simp: avl_candidate_def avl_insert_def) }
  { assume "s < NI_MAX_CONTACTS"
    from avl_remove_spec [OF ok this, where p = p and name = name]
    show "\<exists>r t'. ni_remove (avl_candidate (tb p)) t name s = Some (r, t') \<and> avl_ok nm t' \<and>
        (r, avl_entries t') = ix_remove (avl_entries t) (ni_make_key name) s" by (auto simp: avl_candidate_def) }
  { assume "s < NI_MAX_CONTACTS"
    from avl_set_message_spec [OF ok this, where p = p and name = name and m = m]
    show "\<exists>r t'. ni_set_message (avl_candidate (tb p)) t name s m = Some (r, t') \<and> avl_ok nm t' \<and>
        (r, avl_entries t') = ix_set_message (avl_entries t) (ni_make_key name) s m" by (auto simp: avl_candidate_def) }
  { assume "ix_rebuild_ok (keyed nss)"
    from avl_rebuild_spec [OF R(1) this, where p = p]
    show "\<exists>t'. ni_rebuild (avl_candidate (tb p)) t nss = Some (True, t') \<and> avl_ok nm t' \<and> avl_entries t' = ix_rebuild nm (keyed nss)"
      by (auto simp: avl_candidate_def) }
  { assume "length nss > NI_MAX_CONTACTS"
    then show "\<exists>t'. ni_rebuild (avl_candidate (tb p)) t nss = Some (False, t') \<and> avl_ok nm t' \<and> avl_entries t' = []"
      using avl_ok_init [of "avl_rebuild_begin t"] R(1) by (simp add: avl_candidate_def avl_rebuild_def avl_rebuild_begin_def) }
qed

text \<open>Under the order of the benchmark's names, both are interpreted together.\<close>

interpretation nb_both: two_indexes "nb_tiebreak_with N" "nb_rank_of N" "nb_rank N"
  "\<lambda>p. na_candidate (nb_tiebreak_with N p)" "na_ok (nb_rank_of N)" na_entries
  "\<lambda>p. avl_candidate (nb_tiebreak_with N p)" "avl_ok (nb_rank_of N)" avl_entries for N
  by unfold_locales

subsection \<open>How deep the recursions go\<close>

context tiebreak_order
begin

lemma avl_call_depth:
  assumes ok: "avl_ok nm t" and op: "ni_op_ok op" and c: "ni_call (avl_candidate (tb p)) t op = Some (a, t')"
  shows "at_max_depth t' \<le> max (at_max_depth t) 19"
proof (cases op)
  case (NiInsert name s)
  then have "s < NI_MAX_CONTACTS" using op by simp
  from avl_insert_key_spec [OF ok length_ni_make_key this, where p = p, of name] show ?thesis
    using c by (auto simp: NiInsert avl_candidate_def avl_insert_def)
next
  case (NiRemove name s)
  then have "s < NI_MAX_CONTACTS" using op by simp
  from avl_remove_spec [OF ok this, where p = p and name = name] show ?thesis
    using c by (auto simp: NiRemove avl_candidate_def)
next
  case (NiSetMessage name s m)
  then have "s < NI_MAX_CONTACTS" using op by simp
  from avl_set_message_spec [OF ok this, where p = p and name = name and m = m] show ?thesis
    using c by (auto simp: NiSetMessage avl_candidate_def)
next
  case (NiRebuild nss)
  obtain u fs where "avl_rep t u fs" using ok by (auto simp: avl_ok_def)
  then have l: "length (at_n t) = NI_MAX_CONTACTS" by (rule avl_repD(1))
  show ?thesis
  proof (cases "length nss > NI_MAX_CONTACTS")
    case True
    then show ?thesis using c avl_init_rep(2) [of "avl_rebuild_begin t"] l
      by (auto simp: NiRebuild avl_candidate_def avl_rebuild_def avl_rebuild_begin_def)
  next
    case False
    then have "ix_rebuild_ok (keyed nss)" using op by (simp add: NiRebuild)
    from avl_rebuild_spec [OF l this, where p = p] show ?thesis using c by (auto simp: NiRebuild avl_candidate_def)
  qed
qed (use c in \<open>auto simp: avl_candidate_def\<close>)

lemma avl_calls_depth:
  "avl_ok nm t \<Longrightarrow> list_all (\<lambda>(p, op). ni_op_ok op) ops \<Longrightarrow> ni_calls (\<lambda>p. avl_candidate (tb p)) t ops = Some (answers, t') \<Longrightarrow>
   avl_ok nm t' \<and> at_max_depth t' \<le> max (at_max_depth t) 19"
proof (induction ops arbitrary: t answers)
  case (Cons pop ops)
  obtain p op where pop: "pop = (p, op)" by (meson surj_pair)
  have op: "ni_op_ok op" "list_all (\<lambda>(p, op). ni_op_ok op) ops" using Cons.prems(2) by (simp_all add: pop)
  from avl.call_refines [OF Cons.prems(1) op(1), of p] obtain a t1
    where c: "ni_call (avl_candidate (tb p)) t op = Some (a, t1)" "avl_ok nm t1" by blast
  obtain rest where "ni_calls (\<lambda>p. avl_candidate (tb p)) t1 ops = Some (rest, t')" using Cons.prems(3) by (auto simp: pop c(1))
  from Cons.IH [OF c(2) op(2) this] avl_call_depth [OF Cons.prems(1) op(1) c(1)] show ?case by auto
qed simp

end

lemma avl_ok_reset: "avl_ok nm T \<Longrightarrow> avl_ok nm (avl_reset_max_depth T)"
  by (simp add: avl_ok_def avl_rep_def avl_entries_def avl_reset_max_depth_def)

subsection \<open>A small run\<close>

text \<open>Two sectors with the same name: the tie is broken by the sector.\<close>

definition sample_name :: NiName where
  "sample_name = \<lparr>nn_first = 0, nn_last = 0\<rparr>"

definition sample_names :: NiNameTable where
  "sample_names = \<lparr>nb_first_words = [[65]], nb_last_words = [[66]], nb_names = replicate NI_MAX_CONTACTS sample_name, nb_probe = sample_name\<rparr>"

definition sample_array :: NameArray where
  "sample_array = \<lparr>na_e = replicate NI_MAX_CONTACTS (ni_fresh [] 0), na_count = 0\<rparr>"

definition sample_pool :: AvlTree where
  "sample_pool = \<lparr>at_n = replicate NI_MAX_CONTACTS \<lparr>an_key = [], an_contact_index = 0, an_message_index = 0, an_left = 0, an_right = 0, an_height = 0\<rparr>,
     at_root = 0, at_free_head = 0, at_count = 0, at_max_depth = 0\<rparr>"

definition sample_calls :: "(NiName \<times> NiOp) list" where
  "sample_calls = map (Pair sample_name)
     [NiInsert [65, 32, 66] 1, NiInsert [65, 32, 66] 0, NiInsert [65, 32, 66] 1, NiFind [65, 32, 66], NiRemove [65, 32, 66] 0, NiFind [65, 32, 66], NiCount]"

lemma sample_answers:
  "fst (ix_calls (nb_rank_of sample_names) (nb_rank sample_names) [] sample_calls) =
     [NiBool True, NiBool True, NiBool False, NiNumber 0, NiBool True, NiNumber 1, NiNumber 1]"
proof -
  let ?k = "ni_make_key [65, 32, 66]"
  have n: "nb_rank_of sample_names s = nb_rank sample_names sample_name" if "s < NI_MAX_CONTACTS" for s
    using that by (simp add: nb_rank_of_def sample_names_def)
  show ?thesis
    by (simp add: sample_calls_def ix_insert_def ix_remove_def ix_find_def ix_has_def ni_fresh_def ni_rank_def n)
qed

end
