(* ===== verification/Spec2Isabelle.thy ===== *)
theory Spec2Isabelle
  imports Formatted_Index Name_Index Power_Loss Db_SD Crc_Stm32 Avl_Rebuild
begin

text \<open>
  The contacts and messages database of \<^verbatim>\<open>source/app\<close>: a phone book, message chats, and message
  and call histories on an SD card of 512-byte sectors, with indexes in RAM and a task that serves requests.

  \<^bold>\<open>The program and its theories\<close>, bottom up.  Files are under \<^verbatim>\<open>src/source/app\<close> unless a
  path is given; a definition has the name of the C function or type it models.

  \<^item> \<open>Prelude\<close>: bytes, the narrowing casts (\<open>to_u8\<close>, \<open>to_u16\<close>, \<open>to_u32\<close>), little-endian
    integers, \<^verbatim>\<open>memcpy\<close>, \<^verbatim>\<open>memmove\<close>, C strings, bit scans.
  \<^item> \<open>Mem_Layout\<close> (\<^verbatim>\<open>mem_layout.h\<close>): every size, region start and index conversion, by its formula.
  \<^item> \<open>Crc\<close> (\<^verbatim>\<open>crc.c\<close>, host build) and \<open>Storage\<close> (\<^verbatim>\<open>storage.c\<close>,
    \<^verbatim>\<open>heap_storage.c\<close>): the struct of function pointers is a record of functions over a threaded
    device; a sector carries a CRC trailer.  The locale \<open>reliable_store\<close> is what the rest relies on; the heap
    storage is interpreted as one, and \<open>power_cut\<close> turns any storage into one whose writes stop taking
    effect after \<open>n\<close> of them.
  \<^item> \<open>SD_Storage\<close> (\<^verbatim>\<open>sd_storage.c\<close>) is the storage of the device and \<open>Crc_Stm32\<close>
    (\<^verbatim>\<open>crc_stm32.c\<close>, \<^verbatim>\<open>firmware/Core/Src/crc.c\<close>) its CRC.  The vendor's library is a parameter of both, and what it
    documents a hypothesis: \<open>sd_card\<close> and \<open>crc_unit_law\<close>.
  \<^item> \<open>Free_List\<close> (\<^verbatim>\<open>free_list_stack.c\<close>): allocation of contact slots and message sectors.
  \<^item> \<open>Iterator\<close> and \<open>Usage_Bitmap\<close> (\<^verbatim>\<open>iterator.c\<close>, \<^verbatim>\<open>usage_bitmap.c\<close>):
    one bit per data sector, in RAM and on the card, its scans and its iterator.
  \<^item> \<open>Journal\<close> and \<open>Transaction\<close> (\<^verbatim>\<open>journal.c\<close>): the rollback journal, and the pattern of
    every journalled change.  \<open>'c pers\<close> gathers what these calls share: the device, the global bitmap, the journal.
  \<^item> \<open>Superheader\<close> (\<^verbatim>\<open>superheader.c\<close>): recognising a formatted card.
  \<^item> \<open>Contact\<close> and \<open>Message\<close> (\<^verbatim>\<open>contact.c\<close>, \<^verbatim>\<open>message.c\<close>): records packed in
    sectors; message sectors chained into chats.  \<open>contact_at\<close>, \<open>chat\<close> and \<open>chat_msgs\<close> read
    the card as a map of contacts and as lists of messages.
  \<^item> \<open>Ring_Buffer\<close>, \<open>Ring_Entries\<close> and \<open>History\<close> (\<^verbatim>\<open>ring_buffer.c\<close>,
    \<^verbatim>\<open>message_history.c\<close>, \<^verbatim>\<open>call_history.c\<close>): the two logs, one algorithm over a record
    \<open>HistoryKind\<close>, instantiated twice.
  \<^item> \<open>Hash_Table\<close> (\<^verbatim>\<open>hash_table.c\<close>), with \<open>Hash_Probing\<close>, \<open>Hash_Contacts\<close>,
    \<open>Hash_Messages\<close> and \<open>Hash_Iterator\<close>: the phone number index in RAM.  The operations are in the first
    theory, what probing finds, what the operations do to contacts and to chats, and the iterator in the others.
  \<^item> \<open>Heap_Sort\<close>, \<open>Sorted_Array\<close>, \<open>Name_Order\<close> and \<open>Name_Index\<close>
    (\<^verbatim>\<open>sorted_array.c\<close>): the alphabetical index; \<open>Chat_Order\<close> (\<^verbatim>\<open>chat_order.c\<close>):
    the chats by recency.
  \<^item> \<open>Database\<close> (\<^verbatim>\<open>database.c\<close>): the public interface, composed as the code composes it.
  \<^item> \<open>Platform_Queue\<close> (\<^verbatim>\<open>platform/host/src/platform_os_host.c\<close>) and \<open>Db_Task\<close>
    (\<^verbatim>\<open>db_task.c\<close>): the task that serves requests posted to its queue; \<open>task_step\<close> interleaves it
    with its clients.
  \<^item> \<open>Directory\<close> is the specification of the interface: a record of maps and lists and one function per
    call.  \<open>Db_Spec\<close> has the abstraction \<open>db_dir\<close> and the invariant \<open>db_ok\<close>;
    \<open>Db_Contacts\<close>, \<open>Db_Messages\<close>, \<open>Db_Format\<close>, \<open>Db_Service\<close> prove that every
    call implements its function.
  \<^item> \<open>Rebuild_Contacts\<close> and \<open>Rebuild_Messages\<close> follow the two scans of a restart over the card,
    \<open>Db_Mount\<close> puts them together to the whole of \<^verbatim>\<open>database_mount\<close> and \<^verbatim>\<open>database_init\<close>, and
    \<open>Power_Loss\<close> runs a call of the interface on \<open>power_cut\<close> and starts the device again.  \<open>Db_SD\<close>
    puts the database on the SD driver.
  \<^item> \<open>Ni_Index\<close>, \<open>Ni_Names\<close>, \<open>Ni_Array\<close>, \<open>Avl_Pool\<close> and \<open>Avl_Ops\<close>
    (\<^verbatim>\<open>source/benchmark/name_index\<close>) are the two candidates for the name index that the benchmark compares, a sorted array
    and an AVL tree in a pool of nodes, with its table of names; \<open>Avl_Shape\<close>, \<open>Avl_Recursion\<close>,
    \<open>Avl_Index\<close> and \<open>Avl_Rebuild\<close> prove the tree.  The locale \<open>name_index\<close> is the contract of both.
  \<^item> \<open>Formatted\<close> and \<open>Formatted_Index\<close> build concrete cards for the witnesses.

  \<^bold>\<open>What the lemmas show.\<close>  The bottom layer: records survive encoding, a changed byte is detected, the
  bitmap and a log survive a restart, and a power cut at any write of a journalled change leaves, after start-up
  recovery, the state before it or the state after it.  The index layer: probing visits every slot and finds what is
  stored; insertion, update of a number, and removal are steps of a map from numbers to contacts and of a map from numbers
  to chats; a failing step is undone.  The interface: on a sound database every call returns what the directory returns,
  on every branch, ends, and keeps the database sound.  A restart rebuilds the directory from the
  card alone (the chats then stand in the order of their time stamps), also after power was lost at any write while a contact was
  added or changed: the call then has taken effect or it has not, and it has whenever it had said so.  The task: requests are handled in the order they were
  posted, each is answered once, with what the directory answers, in the union member of its type and in no more rows than the caller
  has room for, and every database it reaches is sound, as long as each message finds a free sector.  The candidates: each recursion over the pool
  computes a tree shape and moves no other node; both candidates answer every run of calls, in which no rebuild lists a pair twice, as one sorted list does.

  \<^bold>\<open>Numbers and loops.\<close>  Unsigned C integers are \<open>nat\<close> with \<open>to_u16\<close> and the like where the
  code narrows them (a \<^verbatim>\<open>size_t\<close> that goes into an \<^verbatim>\<open>int\<close> in the logs by \<open>to_i32\<close>), words of the bitmap are \<open>32 word\<close>, bytes are \<open>8 word\<close>.  A call that fails is a
  sum, \<open>Inl\<close> a status other than \<^verbatim>\<open>STRG_OK\<close>.  A loop bounded by its data is a recursion with a measure; those
  whose end depends on what the card or the table holds (filling a free list, walking a chain, the retried log write, the listings driven
  by an iterator) are \<open>partial_function (option)\<close> and are
  proved to end on the states the program reaches.  The only fuel is the number of
  message sectors in \<open>chain\<close>, since a chat has no sector twice, and 24 levels in \<open>pool_tree\<close>, since a
  balanced tree of 10000 nodes has at most 18.

  \<^bold>\<open>Not modelled.\<close>  Null pointers are left out where no caller can pass them.  A
  sound database is one whose storage does not fail: failures of the card are covered by the crash and corruption
  properties of the bottom layer, and the operations return them, and
  \<^verbatim>\<open>database_contact_add\<close> and \<^verbatim>\<open>database_contact_update\<close> are followed through a loss of power to the
  restarted database; the calls that write more than one journalled change are not.
  The start-up of the firmware, its raw card driver (which nothing uses), the memory-controller and the display code only call
  the vendor's library.  A read of the card is taken not to change it.  Of the platform layer only the host's queue is modelled: threads and waiting
  belong to the operating system.  Demos, hardware tests, the timing programs of the benchmarks, the command line and the simulations are clients of
  this interface and hold no state of the database.
\<close>

subsection \<open>The properties\<close>

abbreviation card_ok :: "HeapStorageContext pers \<Rightarrow> bool" where
  "card_ok \<equiv> pers_ok heap_storage heap_ok heap_blk"

abbreviation card_cut_ok :: "HeapStorageContext PowerCut pers \<Rightarrow> bool" where
  "card_cut_ok \<equiv> pers_ok (power_cut heap_storage) (\<lambda>p. heap_ok (card p)) (\<lambda>p. heap_blk (card p))"

abbreviation history_on :: "'e HistoryKind \<Rightarrow> HeapStorageContext pers \<Rightarrow> RingBuffer \<Rightarrow> bool" where
  "history_on K p rb \<equiv> history_ok K (heap_blk (dev p)) (capacity heap_storage (dev p)) rb"

abbreviation contacts_of :: "HeapStorageContext pers \<Rightarrow> nat \<Rightarrow> Contact option" where
  "contacts_of p \<equiv> contact_at (heap_blk (dev p)) (usage_bitmap p)"

abbreviation index_sound :: "HeapStorageContext pers \<Rightarrow> HashTable \<Rightarrow> bool" where
  "index_sound p \<equiv> contacts_ok (heap_blk (dev p)) (usage_bitmap p)"

abbreviation chats_sound :: "HeapStorageContext pers \<Rightarrow> HashTable \<Rightarrow> bool" where
  "chats_sound p \<equiv> messages_ok (heap_blk (dev p)) (usage_bitmap p)"

abbreviation slots_of :: "HeapStorageContext pers \<Rightarrow> HashTable \<Rightarrow> byte list \<Rightarrow> nat option" where
  "slots_of p \<equiv> phone_index (contacts_of p)"

abbreviation book_of :: "HeapStorageContext pers \<Rightarrow> HashTable \<Rightarrow> byte list \<Rightarrow> Contact option" where
  "book_of p \<equiv> phone_book (contacts_of p)"

abbreviation chats_of :: "HeapStorageContext pers \<Rightarrow> HashTable \<Rightarrow> byte list \<Rightarrow> Message list option" where
  "chats_of p \<equiv> message_book (contacts_of p) (heap_blk (dev p))"

abbreviation db_sound :: "HeapStorageContext Database \<Rightarrow> bool" where
  "db_sound \<equiv> db_ok heap_storage heap_ok heap_blk"

abbreviation dir_of :: "HeapStorageContext Database \<Rightarrow> Directory" where
  "dir_of \<equiv> db_dir heap_blk"

text \<open>
  C1. Power is lost at any write of database_contact_add (after any number n of successful ones) and
  the device starts again on the card as it is, with arbitrary contents of the static arrays:
  database_init succeeds, the database is sound, and its phone book, chats and logs are those before
  the call or those the call specifies; the latter whenever the call had reported success. The
  recent chats are the same ones, listed by the time stamp of their newest message as after every
  restart.
\<close>

theorem contact_add_survives_power_loss:
  assumes "db_sound db" and "0 \<notin> set name" and "0 \<notin> set phone" and "arrays_ok ram"
    and "database_contact_add (power_cut heap_storage) (cut_db n db) name phone = (r, db')"
  shows "\<exists>db2. database_init heap_storage (Some (card (dev (db_pers db')))) sh latest ram = Some (STRG_OK, db2) \<and> db_sound db2 \<and>
    (r \<noteq> STRG_OK \<and> dir_restarted (dir_of db) (dir_of db2) \<or>
     dir_restarted (snd (dir_contact_add name phone (dir_of db))) (dir_of db2))"
  using heapdb.contact_add_crash [OF _ assms(2-5)] assms(1) by simp

lemma contact_add_survives_power_loss_witness:
  "\<exists>r db' db2. database_contact_add (power_cut heap_storage) (cut_db 4 formatted_db) [65] [49] = (r, db') \<and>
     database_init heap_storage (Some (card (dev (db_pers db')))) superheader_zero (create_message 0 False None) blank_db = Some (STRG_OK, db2) \<and>
     db_sound db2 \<and> dir_book (dir_of db2) \<in> {Map.empty, [[49] \<mapsto> create_contact [65] [49]]}"
proof -
  obtain r db' where run: "database_contact_add (power_cut heap_storage) (cut_db 4 formatted_db) [65] [49] = (r, db')" by (meson surj_pair)
  have z: "0 \<notin> set [65 :: byte]" "0 \<notin> set [49 :: byte]" by simp_all
  have add: "snd (dir_contact_add [65] [49] dir_empty) =
      dir_empty\<lparr>dir_book := [[49] \<mapsto> create_contact [65] [49]], dir_chats := [[49] \<mapsto> []]\<rparr>"
    by (simp add: dir_contact_add_def name_arg_def phone_arg_def dir_empty_def layout)
  have book: "dir_book D' = dir_book D" if "dir_restarted D D'" for D D'
    using that unfolding dir_restarted_def by (metis Directory.select_convs(1) Directory.surjective Directory.update_convs(3))
  show ?thesis
    using contact_add_survives_power_loss [OF formatted_db_ok(1) z blank_db_ok(3) run, of superheader_zero "create_message 0 False None"]
      run book unfolding formatted_db_ok(2) add by (fastforce simp: dir_empty_def)
qed

text \<open>
  C2. Power is lost at any write of database_contact_update, which may change the name and the
  number, and the device starts again on the card: database_init succeeds, the database is sound,
  and its phone book, chats and logs are those before the call or those the call specifies, with the
  chat under the old or the new number; the latter whenever the call had reported success. The
  recent chats are the same ones, listed by the time stamp of their newest message as after every
  restart.
\<close>

theorem contact_update_survives_power_loss:
  assumes "db_sound db" and "0 \<notin> set phone" and "0 \<notin> set new_name" and "0 \<notin> set new_phone" and "arrays_ok ram"
    and "database_contact_update (power_cut heap_storage) (cut_db n db) phone new_name new_phone = (r, db')"
  shows "\<exists>db2. database_init heap_storage (Some (card (dev (db_pers db')))) sh latest ram = Some (STRG_OK, db2) \<and> db_sound db2 \<and>
    (r \<noteq> STRG_OK \<and> dir_restarted (dir_of db) (dir_of db2) \<or>
     dir_restarted (snd (dir_contact_update phone new_name new_phone (dir_of db))) (dir_of db2))"
  using heapdb.contact_update_crash [OF _ assms(2-6)] assms(1) by simp

lemma contact_update_survives_power_loss_witness:
  "\<exists>r db' db2. database_contact_update (power_cut heap_storage) (cut_db 3 contact_db) [49] [66] [50] = (r, db') \<and>
     database_init heap_storage (Some (card (dev (db_pers db')))) superheader_zero (create_message 0 False None) blank_db = Some (STRG_OK, db2) \<and>
     db_sound db2 \<and> dir_book (dir_of db2) \<in> {[[49] \<mapsto> create_contact [65] [49]], [[50] \<mapsto> create_contact [66] [50]]}"
proof -
  obtain r db' where run: "database_contact_update (power_cut heap_storage) (cut_db 3 contact_db) [49] [66] [50] = (r, db')" by (meson surj_pair)
  have z: "0 \<notin> set [49 :: byte]" "0 \<notin> set [66 :: byte]" "0 \<notin> set [50 :: byte]" by simp_all
  have upd: "dir_book (snd (dir_contact_update [49] [66] [50] (dir_of contact_db))) = [[50] \<mapsto> create_contact [66] [50]]"
    by (simp add: contact_db_ok(2) dir_contact_update_def name_arg_def phone_arg_def dir_empty_def layout fun_eq_iff)
  have book: "dir_book D' = dir_book D" if "dir_restarted D D'" for D D'
    using that unfolding dir_restarted_def by (metis Directory.select_convs(1) Directory.surjective Directory.update_convs(3))
  obtain db2 where db2: "database_init heap_storage (Some (card (dev (db_pers db')))) superheader_zero (create_message 0 False None) blank_db =
      Some (STRG_OK, db2)" "db_sound db2"
    "dir_restarted (dir_of contact_db) (dir_of db2) \<or> dir_restarted (snd (dir_contact_update [49] [66] [50] (dir_of contact_db))) (dir_of db2)"
    using contact_update_survives_power_loss [OF contact_db_ok(1) z blank_db_ok(3) run, of superheader_zero "create_message 0 False None"] by blast
  then have "dir_book (dir_of db2) \<in> {[[49] \<mapsto> create_contact [65] [49]], [[50] \<mapsto> create_contact [66] [50]]}"
    using book upd by (auto simp: contact_db_ok(2))
  then show ?thesis using run db2(1,2) by blast
qed

text \<open>
  C3. Starting again on the card of a sound database, with arbitrary contents of the static arrays,
  rebuilds everything from the card: database_init succeeds, the new database is sound and has the
  same phone book, chats and logs, and the same chats listed by the time of their newest message,
  latest first.
\<close>

theorem restart_recovers_directory:
  assumes "db_sound db" and "arrays_ok ram"
  shows "\<exists>db'. database_init heap_storage (Some (dev (db_pers db))) sh latest ram = Some (STRG_OK, db') \<and> db_sound db' \<and>
    dev (db_pers db') = dev (db_pers db) \<and> dir_of db' = (dir_of db)\<lparr>dir_recent := dir_recent (dir_of db')\<rparr> \<and>
    mset (dir_recent (dir_of db')) = mset (dir_recent (dir_of db)) \<and>
    sorted (map (\<lambda>ph. - int (m_timestamp (hd (the (dir_chats (dir_of db) ph))))) (dir_recent (dir_of db')))"
  using heapdb.init_mounts [OF assms, of sh latest] unfolding dir_restarted_def by blast

lemma restart_recovers_directory_witness:
  "\<exists>db'. database_init heap_storage (Some (dev (db_pers contact_db))) superheader_zero (create_message 0 False None) blank_db = Some (STRG_OK, db') \<and>
     db_sound db' \<and> dir_book (dir_of db') = [[49] \<mapsto> create_contact [65] [49]]"
proof -
  obtain db' where db': "database_init heap_storage (Some (dev (db_pers contact_db))) superheader_zero (create_message 0 False None) blank_db =
      Some (STRG_OK, db')" "db_sound db'" "dir_of db' = (dir_of contact_db)\<lparr>dir_recent := dir_recent (dir_of db')\<rparr>"
    using restart_recovers_directory [OF contact_db_ok(1) blank_db_ok(3)] by blast
  have "dir_book (dir_of db') = dir_book (dir_of contact_db)"
    using db'(3) by (metis Directory.select_convs(1) Directory.surjective Directory.update_convs(3))
  then show ?thesis using db'(1,2) by (auto simp: contact_db_ok(2))
qed

text \<open>
  C4. The database on the SD driver, from a blank card that is large enough to the next power-up,
  for any vendor library that drives a working card: the first start formats the card and gives an
  empty directory. In every database reached by requests that are in order (their strings are C
  strings, a time stamp fits 32 bits, the start in a log is below the greatest 32-bit size_t, and a
  message is added only while a message sector is free), the database is sound, every further such
  request is answered with the status, the result and the rows the directory specifies and has the
  specified effect, and a restart on the card recovers the directory with the recent chats by time
  stamp.
\<close>

theorem sd_device_life:
  assumes c: "sd_card H good sec" and h: "good h" and N: "HAL_SD_GetCardInfo H h = Some N"
    and size: "DATA_REGION_START_SECTOR + TOTAL_DATABASE_SECTOR_SIZE \<le> N"
    and blank: "get_superheader_status (superheader_of (sec h SUPERHEADER_SECTOR)) = SUPR_UNINITIALISED"
    and ram: "arrays_ok ram" "arrays_ok ram'"
  shows "\<exists>db0. database_init (sd_storage H) (SDStorage_Init H h 0 SECTOR_SIZE) sh latest ram = Some (STRG_OK, db0) \<and>
    db_dir (sd_blk sec) db0 = dir_empty \<and>
    (\<forall>db. database_reaches (sd_storage H) db0 db \<longrightarrow> sd_sound H good sec db \<and>
       (\<forall>req. request_ok db req \<longrightarrow>
          (\<exists>rsp db'. db_handle (sd_storage H) STRG_OK db req = Some (rsp, db') \<and>
             dir_answers (message_log_loss (sd_blk sec) db) (call_log_loss (sd_blk sec) db) (db_call req)
               (db_dir (sd_blk sec) db) rsp (db_dir (sd_blk sec) db'))) \<and>
       (\<exists>db'. database_init (sd_storage H) (SDStorage_Init H (hsd (dev (db_pers db))) 0 SECTOR_SIZE) sh latest ram' = Some (STRG_OK, db') \<and>
          sd_sound H good sec db' \<and> dir_restarted (db_dir (sd_blk sec) db) (db_dir (sd_blk sec) db')))"
proof -
  note store = sd_database_store [OF c]
  obtain db0 where db0: "start_sd H h sh latest ram = Some (STRG_OK, db0)" "sd_sound H good sec db0" "db_dir (sd_blk sec) db0 = dir_empty"
    using sd_first_start [OF c h ram(1) N size blank] by blast
  have ok: "sd_sound H good sec db" if "database_reaches (sd_storage H) db0 db" for db
    by (rule database_store.reaches_ok [OF store that db0(2)])
  show ?thesis
  proof (rule exI [of _ db0], intro conjI allI impI db0(1,3))
    fix db and req :: DbRequest assume r: "database_reaches (sd_storage H) db0 db" "request_ok db req"
    show "\<exists>rsp db'. db_handle (sd_storage H) STRG_OK db req = Some (rsp, db') \<and>
       dir_answers (message_log_loss (sd_blk sec) db) (call_log_loss (sd_blk sec) db) (db_call req)
         (db_dir (sd_blk sec) db) rsp (db_dir (sd_blk sec) db')"
      using database_store.request_answered [OF store ok [OF r(1)] r(2)] by blast
  next
    fix db assume r: "database_reaches (sd_storage H) db0 db"
    show "\<exists>db'. start_sd H (hsd (dev (db_pers db))) sh latest ram' = Some (STRG_OK, db') \<and>
        sd_sound H good sec db' \<and> dir_restarted (db_dir (sd_blk sec) db) (db_dir (sd_blk sec) db')"
      using sd_restart [OF c ok [OF r] ram(2)] by blast
  qed (rule ok)
qed

lemma sd_device_life_witness:
  "\<exists>db0 db'. database_init (sd_storage memory_hal) (SDStorage_Init memory_hal zero_card 0 SECTOR_SIZE) superheader_zero
       (create_message 0 False None) sd_ram = Some (STRG_OK, db0) \<and>
     database_init (sd_storage memory_hal) (SDStorage_Init memory_hal (hsd (dev (db_pers db0))) 0 SECTOR_SIZE) superheader_zero
       (create_message 0 False None) sd_ram = Some (STRG_OK, db') \<and> dir_book (db_dir (sd_blk id) db') = Map.empty"
proof -
  have book: "dir_book D' = dir_book D" if "dir_restarted D D'" for D D'
    using that unfolding dir_restarted_def by (metis Directory.select_convs(1) Directory.surjective Directory.update_convs(3))
  obtain db0 where db0: "start_sd memory_hal zero_card superheader_zero (create_message 0 False None) sd_ram = Some (STRG_OK, db0)"
    "db_dir (sd_blk id) db0 = dir_empty"
    "\<And>db. database_reaches (sd_storage memory_hal) db0 db \<Longrightarrow>
       \<exists>db'. start_sd memory_hal (hsd (dev (db_pers db))) superheader_zero (create_message 0 False None) sd_ram = Some (STRG_OK, db') \<and>
         dir_restarted (db_dir (sd_blk id) db) (db_dir (sd_blk id) db')"
    using sd_device_life [OF memory_card zero_card_ok(1-3), OF zero_card_ok(4) sd_ram_ok sd_ram_ok, of superheader_zero "create_message 0 False None"] by blast
  from db0(3) [OF database_reaches.start] book db0(1,2) show ?thesis by (fastforce simp: dir_empty_def)
qed

text \<open>
  C5. database_contact_add on a sound database implements the directory operation: it reports
  STRG_FAIL for arguments that are no name or number, STRG_EXISTS for a number in the book,
  STRG_FULL when the book is full, and otherwise adds the contact with an empty chat and nothing
  else; the database stays sound (records, alphabetical index, chat order and logs).
\<close>

theorem contact_add_refines:
  assumes "db_sound db" and "0 \<notin> set name" and "0 \<notin> set phone"
    and "database_contact_add heap_storage db name phone = (r, db')"
  shows "db_sound db' \<and> (r, dir_of db') = dir_contact_add name phone (dir_of db)"
  using heapdb.contact_add_simulates [OF assms(1-3)] by (simp add: simulates_def assms(4))

lemma contact_add_refines_witness:
  "\<exists>db'. database_contact_add heap_storage formatted_db [65] [49] = (STRG_OK, db') \<and> db_sound db' \<and>
     dir_book (dir_of db') [49] = Some (create_contact [65] [49]) \<and> dir_chats (dir_of db') [49] = Some []"
proof -
  obtain r db' where w: "database_contact_add heap_storage formatted_db [65] [49] = (r, db')" by (meson surj_pair)
  have z: "0 \<notin> set [65 :: byte]" "0 \<notin> set [49 :: byte]" by simp_all
  from contact_add_refines [OF formatted_db_ok(1) z w] have "r = STRG_OK" "db_sound db'"
    "dir_of db' = snd (dir_contact_add [65] [49] dir_empty)"
    by (auto simp: formatted_db_ok(2) dir_contact_add_def name_arg_def phone_arg_def dir_empty_def layout)
  then show ?thesis using w by (simp add: dir_contact_add_def name_arg_def phone_arg_def dir_empty_def layout)
qed

text \<open>
  C6. database_message_add on a sound database with a free message sector returns and implements the
  directory operation: the message goes in front of the chat of its number and of the message log,
  the chat becomes the most recent one, an unknown number gets a nameless contact, and a full book
  or bad arguments fail without a change.
\<close>

theorem message_add_refines:
  assumes "db_sound db" and "0 \<notin> set phone" and "timestamp < 2 ^ 32"
    and "avail (ht_message_allocator (db_htable db)) \<noteq> {}"
  shows "\<exists>r db'. database_message_add heap_storage db phone timestamp direction str = Some (r, db') \<and> db_sound db' \<and>
    (r, dir_of db') = dir_message_add (message_log_loss heap_blk db) phone timestamp direction str (dir_of db)"
  using heapdb.message_add_simulates [OF assms, of direction str] by (auto simp: simulates_def)

lemma message_add_refines_witness:
  "\<exists>db'. database_message_add heap_storage formatted_db [49] 7 True [72, 105] = Some (STRG_OK, db') \<and> db_sound db' \<and>
     dir_chats (dir_of db') [49] = Some [create_message 7 True (Some [72, 105])] \<and> dir_recent (dir_of db') = [[49]] \<and>
     dir_book (dir_of db') [49] = Some (create_contact [] [49])"
proof -
  have z: "0 \<notin> set [49 :: byte]" "(7 :: nat) < 2 ^ 32" by simp_all
  obtain r db' where w: "database_message_add heap_storage formatted_db [49] 7 True [72, 105] = Some (r, db')" "db_sound db'"
    "(r, dir_of db') = dir_message_add (message_log_loss heap_blk formatted_db) [49] 7 True [72, 105] dir_empty"
    using message_add_refines [OF formatted_db_ok(1) z formatted_db_ok(3)] unfolding formatted_db_ok(2) by blast
  then show ?thesis by (simp add: dir_message_add_def phone_arg_def dir_empty_def layout Let_def)
qed

text \<open>
  C7. database_contact_update on a sound database implements the directory operation: the contact is
  replaced under its old or new number, its chat moves with it and keeps its place among the recent
  chats, and a missing contact, a number already taken or bad arguments leave the directory as it
  was; the database stays sound.
\<close>

theorem contact_update_refines:
  assumes "db_sound db" and "0 \<notin> set phone" and "0 \<notin> set new_name" and "0 \<notin> set new_phone"
    and "database_contact_update heap_storage db phone new_name new_phone = (r, db')"
  shows "db_sound db' \<and> (r, dir_of db') = dir_contact_update phone new_name new_phone (dir_of db)"
  using heapdb.contact_update_simulates [OF assms(1-4)] by (simp add: simulates_def assms(5))

lemma contact_update_refines_witness:
  "\<exists>db'. database_contact_update heap_storage contact_db [49] [66] [50] = (STRG_OK, db') \<and> db_sound db' \<and>
     dir_book (dir_of db') = [[50] \<mapsto> create_contact [66] [50]]"
proof -
  obtain r db' where w: "database_contact_update heap_storage contact_db [49] [66] [50] = (r, db')" by (meson surj_pair)
  have z: "0 \<notin> set [49 :: byte]" "0 \<notin> set [66 :: byte]" "0 \<notin> set [50 :: byte]" by simp_all
  from contact_update_refines [OF contact_db_ok(1) z w] w show ?thesis
    by (auto simp: contact_db_ok(2) dir_contact_update_def name_arg_def phone_arg_def dir_empty_def layout fun_eq_iff)
qed

text \<open>
  C8. database_contact_remove on a sound database returns and implements the directory operation:
  the contact, its chat and its place among the recent chats go, nothing else changes, and an
  unknown or bad number is reported; the database stays sound.
\<close>

theorem contact_remove_refines:
  assumes "db_sound db" and "0 \<notin> set phone"
  shows "\<exists>r db'. database_contact_remove heap_storage db phone = Some (r, db') \<and> db_sound db' \<and>
    (r, dir_of db') = dir_contact_remove phone (dir_of db)"
  using heapdb.contact_remove_simulates [OF assms] by (auto simp: simulates_def)

lemma contact_remove_refines_witness:
  "\<exists>db'. database_contact_remove heap_storage contact_db [49] = Some (STRG_OK, db') \<and> db_sound db' \<and>
     dir_book (dir_of db') = Map.empty"
proof -
  have z: "0 \<notin> set [49 :: byte]" by simp
  from contact_remove_refines [OF contact_db_ok(1) z] show ?thesis
    by (auto simp: contact_db_ok(2) dir_contact_remove_def phone_arg_def dir_empty_def layout)
qed

text \<open>
  C9. A contact write interrupted by a power cut at any write, followed by start-up recovery, leaves
  the stored contacts either exactly as before or exactly with the new contact, and with the new
  contact whenever the write reported success.
\<close>

theorem contact_write_is_atomic:
  assumes "card_cut_ok p" and "contacts_valid (heap_blk (card (dev p))) (usage_bitmap p)"
    and "index div CONTACT_SECTOR_CAPACITY < TOTAL_CONTACT_SECTOR_SIZE" and "contact_wf c"
    and "write_contact (power_cut heap_storage) p index c = (r, p')"
    and "journal_init heap_storage (card (dev p')) j = (started, j', d')"
  shows "started \<and> (\<exists>bm. bitmap_synced (heap_blk d') bm \<and> contacts_valid (heap_blk d') bm \<and>
    contact_at (heap_blk d') bm \<in>
      {contact_at (heap_blk (card (dev p))) (usage_bitmap p),
       (contact_at (heap_blk (card (dev p))) (usage_bitmap p))(index \<mapsto> c)} \<and>
    (r = STRG_OK \<longrightarrow>
       contact_at (heap_blk d') bm = (contact_at (heap_blk (card (dev p))) (usage_bitmap p))(index \<mapsto> c)))"
  using heap.write_contact_crash [OF assms] .

lemma contact_write_is_atomic_witness:
  "\<exists>r p' started j' d' bm. write_contact (power_cut heap_storage) (formatted_cut 4) 7 (create_contact [65] [49]) = (r, p') \<and>
     journal_init heap_storage (card (dev p')) blank_journal = (started, j', d') \<and> started \<and> bitmap_synced (heap_blk d') bm \<and>
     contact_at (heap_blk d') bm \<in> {Map.empty, [7 \<mapsto> create_contact [65] [49]]}"
proof -
  obtain r p' where w: "write_contact (power_cut heap_storage) (formatted_cut 4) 7 (create_contact [65] [49]) = (r, p')"
    by (meson surj_pair)
  obtain s j' d' where i: "journal_init heap_storage (card (dev p')) blank_journal = (s, j', d')" by (metis prod_cases3)
  have e: "contact_at blk (usage_bitmap (formatted_cut 4)) = Map.empty" for blk
    by (simp add: fun_eq_iff formatted_cut_def formatted_contacts)
  have v: "contacts_valid blk (usage_bitmap (formatted_cut 4))" for blk
    by (simp add: formatted_cut_def formatted_contacts)
  have "7 div CONTACT_SECTOR_CAPACITY < TOTAL_CONTACT_SECTOR_SIZE" by (simp add: layout)
  from contact_write_is_atomic [OF formatted_cut_ok v this create_contact_wf w i] show ?thesis
    using w i unfolding e by blast
qed

text \<open>
  C10. A message appended to the newest sector of a chat, interrupted by a power cut at any write
  and followed by start-up recovery, leaves the messages of the chat either exactly as before or
  with the new message in front, and with the new message whenever the write reported success.
\<close>

theorem message_write_is_atomic:
  assumes "card_cut_ok p" and "chat (heap_blk (card (dev p))) (usage_bitmap p) s (s # ss)" and "message_wf m"
    and "write_message (power_cut heap_storage) p s m = (r, p')"
    and "journal_init heap_storage (card (dev p')) j = (started, j', d')"
  shows "started \<and> (\<exists>bm. bitmap_synced (heap_blk d') bm \<and> chat (heap_blk d') bm s (s # ss) \<and>
    chat_msgs (heap_blk d') (s # ss) \<in>
      {chat_msgs (heap_blk (card (dev p))) (s # ss), m # chat_msgs (heap_blk (card (dev p))) (s # ss)} \<and>
    (r = STRG_OK \<longrightarrow> chat_msgs (heap_blk d') (s # ss) = m # chat_msgs (heap_blk (card (dev p))) (s # ss)))"
  using heap.write_message_crash [OF assms] .

lemma message_write_is_atomic_witness:
  "\<exists>r p' started j' d' bm. write_message (power_cut heap_storage) (cut_of 5 (one_chat (create_message 1 True (Some [72])))) 0
       (create_message 2 False (Some [73])) = (r, p') \<and>
     journal_init heap_storage (card (dev p')) blank_journal = (started, j', d') \<and> started \<and> chat (heap_blk d') bm 0 [0] \<and>
     chat_msgs (heap_blk d') [0] \<in> {[create_message 1 True (Some [72])],
       [create_message 2 False (Some [73]), create_message 1 True (Some [72])]}"
proof -
  let ?m1 = "create_message 1 True (Some [72])" and ?m2 = "create_message 2 False (Some [73])"
  have m: "message_wf ?m1" "message_wf ?m2" by simp_all
  note c = one_chat_props [OF m(1)]
  obtain r p' where w: "write_message (power_cut heap_storage) (cut_of 5 (one_chat ?m1)) 0 ?m2 = (r, p')" by (meson surj_pair)
  obtain s j' d' where i: "journal_init heap_storage (card (dev p')) blank_journal = (s, j', d')" by (metis prod_cases3)
  have ch: "chat (heap_blk (card (dev (cut_of 5 (one_chat ?m1))))) (usage_bitmap (cut_of 5 (one_chat ?m1))) 0 [0]"
    unfolding cut_of_fields by (rule c(2))
  from message_write_is_atomic [OF cut_of_ok [OF c(1)] ch m(2) w i] show ?thesis
    using w i unfolding cut_of_fields c(3) by blast
qed

text \<open>
  C11. Every database the task can reach from a sound one by handling requests that are in order is
  sound, its directory is well formed, and every further request in order is answered: a writing
  request acts on the directory as specified, a reading one gets exactly the status, the result and
  the rows the directory specifies (contacts in alphabetical order, ranks, counts, chats and logs),
  any other request leaves the directory as it is. In order: the strings are C strings, a time stamp
  fits 32 bits, the start in a log is below the greatest 32-bit size_t, and a message is added only
  while a message sector is free.
\<close>

theorem reachable_databases_are_sound:
  assumes "db_sound db0" and "database_reaches heap_storage db0 db" and "request_ok db req"
  shows "db_sound db \<and> dir_wf (dir_of db) \<and>
    (\<exists>rsp db'. db_handle heap_storage STRG_OK db req = Some (rsp, db') \<and>
      dir_answers (message_log_loss heap_blk db) (call_log_loss heap_blk db) (db_call req) (dir_of db) rsp (dir_of db'))"
  using heapdb.reaches_ok [OF assms(2,1)] heapdb.db_dir_wf heapdb.request_answered [OF _ assms(3)] by blast

lemma reachable_databases_are_sound_witness:
  "(\<exists>rsp db'. db_handle heap_storage STRG_OK formatted_db (call_request [49]) = Some (rsp, db') \<and>
     rsp_ret rsp = STRG_OK \<and> dir_calls (dir_of db') = [create_contact [] [49]]) \<and>
   (\<exists>rsp db'. db_handle heap_storage STRG_OK contact_db (contacts_request 0 5) = Some (rsp, db') \<and>
     rsp_ret rsp = STRG_OK \<and> rsp_result rsp = RangeResult 1 \<and> rsp_out rsp = ContactRows [create_contact [65] [49]])"
proof
  have c: "db_call (call_request [49]) = CallAdd [49]" by (simp add: db_call_def call_request_def Let_def)
  have "request_ok formatted_db (call_request [49])" by (simp add: request_ok_def c)
  from reachable_databases_are_sound [OF formatted_db_ok(1) database_reaches.start this]
  show "\<exists>rsp db'. db_handle heap_storage STRG_OK formatted_db (call_request [49]) = Some (rsp, db') \<and>
     rsp_ret rsp = STRG_OK \<and> dir_calls (dir_of db') = [create_contact [] [49]]"
    by (auto simp: c dir_answers_def formatted_db_ok(2) dir_call_add_def phone_arg_def dir_empty_def layout)
  have l: "db_call (contacts_request 0 5) = ContactList 0 5" by (simp add: db_call_def contacts_request_def Let_def)
  have one: "names = [create_contact [65] [49]]" if "alphabetical (dir_of contact_db) names" for names
  proof -
    have "set names = {create_contact [65] [49]}" "distinct names" using that by (simp_all add: alphabetical_def contact_db_ok(2))
    then show ?thesis using distinct_card [of names] by (cases names; cases "tl names") auto
  qed
  have "request_ok contact_db (contacts_request 0 5)" by (simp add: request_ok_def l)
  from reachable_databases_are_sound [OF contact_db_ok(1) database_reaches.start this]
  show "\<exists>rsp db'. db_handle heap_storage STRG_OK contact_db (contacts_request 0 5) = Some (rsp, db') \<and>
     rsp_ret rsp = STRG_OK \<and> rsp_result rsp = RangeResult 1 \<and> rsp_out rsp = ContactRows [create_contact [65] [49]]"
    by (auto simp: l dir_answers_def page_def dest!: one)
qed

text \<open>
  C12. database_contact_list returns the requested range of the phone book in alphabetical order of
  the folded names: the list it ranges over holds every contact exactly once, sorted;
  database_contact_seek returns the rank of the first contact whose folded name is not below the
  folded prefix.
\<close>

theorem contact_list_alphabetical:
  assumes "db_sound db" and "0 \<notin> set prefix"
  shows "\<exists>names. set names = ran (dir_book (dir_of db)) \<and> distinct names \<and> sorted (map listing_key names) \<and>
    (\<forall>start n. database_contact_list heap_storage db start n =
       (if start < length names then (STRG_OK, take n (drop start names)) else (STRG_EMPTY, []))) \<and>
    database_contact_seek heap_storage db prefix = (if \<not> name_arg prefix then Inl STRG_FAIL
       else Inr (length (filter (\<lambda>c. folded_name (name_of c) < folded_name prefix) names)))"
  using heapdb.names_alphabetical [OF assms(1)] heapdb.contact_list_names [OF assms(1)] heapdb.contact_seek_names [OF assms]
  by (intro exI [of _ "db_names heap_blk db"]) blast

lemma contact_list_alphabetical_witness:
  "database_contact_list heap_storage contact_db 0 5 = (STRG_OK, [create_contact [65] [49]]) \<and>
   database_contact_list heap_storage contact_db 1 5 = (STRG_EMPTY, [])"
proof -
  have z: "0 \<notin> set [65 :: byte]" by simp
  have "ran (dir_book (dir_of contact_db)) = {create_contact [65] [49]}" by (simp add: contact_db_ok(2))
  with contact_list_alphabetical [OF contact_db_ok(1) z] obtain names where
    n: "set names = {create_contact [65] [49]}" "distinct names" and
    l: "\<And>start n. database_contact_list heap_storage contact_db start n =
       (if start < length names then (STRG_OK, take n (drop start names)) else (STRG_EMPTY, []))" by metis
  have "length names = 1" using n distinct_card [of names] by simp
  then have "names = [create_contact [65] [49]]" using n(1) by (cases names) auto
  then show ?thesis by (simp add: l)
qed

text \<open>
  C13. database_chat_list returns the requested range of the recent chats, each with its contact and
  its newest message; every number with messages occurs in them exactly once. A successful
  database_message_add (to a C string, while a message sector is free) puts its chat first, shown
  with the new message, and leaves the other chats in the order they had.
\<close>

theorem chat_list_by_recency:
  assumes "db_sound db"
  shows "database_chat_list heap_storage db start n = dir_chat_list start n (dir_of db) \<and> distinct (dir_recent (dir_of db)) \<and>
    set (dir_recent (dir_of db)) = {phone. \<exists>m ms. dir_chats (dir_of db) phone = Some (m # ms)} \<and>
    (\<forall>phone timestamp direction str db'. 0 \<notin> set phone \<and> timestamp < 2 ^ 32 \<and> avail (ht_message_allocator (db_htable db)) \<noteq> {} \<and>
       database_message_add heap_storage db phone timestamp direction str = Some (STRG_OK, db') \<longrightarrow>
       dir_recent (dir_of db') = phone # removeAll phone (dir_recent (dir_of db)) \<and>
       (\<exists>c. dir_book (dir_of db') phone = Some c \<and> database_chat_list heap_storage db' 0 1 =
          (STRG_OK, [\<lparr>csum_contact = c, csum_latest = Some (create_message timestamp direction (Some str))\<rparr>])))"
proof (intro conjI allI impI)
  show "database_chat_list heap_storage db start n = dir_chat_list start n (dir_of db)" by (rule heapdb.chat_list_simulates(1) [OF assms])
  show "distinct (dir_recent (dir_of db))" "set (dir_recent (dir_of db)) = {phone. \<exists>m ms. dir_chats (dir_of db) phone = Some (m # ms)}"
    using heapdb.db_dir_wf [OF assms] by (simp_all add: dir_wf_def)
  fix phone timestamp direction str db'
  assume a: "0 \<notin> set phone \<and> timestamp < 2 ^ 32 \<and> avail (ht_message_allocator (db_htable db)) \<noteq> {} \<and>
    database_message_add heap_storage db phone timestamp direction str = Some (STRG_OK, db')"
  then have "simulates heap_storage heap_ok heap_blk (STRG_OK, db')
      (dir_message_add (message_log_loss heap_blk db) phone timestamp direction str (dir_of db))"
    using heapdb.message_add_simulates [OF assms, of phone timestamp direction str] by auto
  then have ok: "db_sound db'" and D: "dir_recent (dir_of db') = phone # filter (\<lambda>ph. ph \<noteq> phone) (dir_recent (dir_of db))"
    "dir_book (dir_of db') phone \<noteq> None" "hd (the (dir_chats (dir_of db') phone)) = create_message timestamp direction (Some str)"
    by (auto simp: simulates_def dir_message_add_def Let_def split: if_splits)
  show "dir_recent (dir_of db') = phone # removeAll phone (dir_recent (dir_of db))" by (simp add: D(1) removeAll_filter_not_eq eq_commute)
  show "\<exists>c. dir_book (dir_of db') phone = Some c \<and> database_chat_list heap_storage db' 0 1 =
      (STRG_OK, [\<lparr>csum_contact = c, csum_latest = Some (create_message timestamp direction (Some str))\<rparr>])"
    using D by (auto simp: heapdb.chat_list_simulates(1) [OF ok] dir_chat_list_def)
qed

lemma chat_list_by_recency_witness:
  "\<exists>db' c. database_message_add heap_storage formatted_db [49] 7 True [72] = Some (STRG_OK, db') \<and> database_chat_list heap_storage db' 0 1 =
     (STRG_OK, [\<lparr>csum_contact = c, csum_latest = Some (create_message 7 True (Some [72]))\<rparr>])"
proof -
  have z: "0 \<notin> set [49 :: byte]" "(7 :: nat) < 2 ^ 32" by simp_all
  obtain out where out: "database_message_add heap_storage formatted_db [49] 7 True [72] = Some out"
    "simulates heap_storage heap_ok heap_blk out (dir_message_add (message_log_loss heap_blk formatted_db) [49] 7 True [72] dir_empty)"
    using heapdb.message_add_simulates [OF formatted_db_ok(1) z formatted_db_ok(3), of True "[72]"] unfolding formatted_db_ok(2) by blast
  obtain db' where db': "out = (STRG_OK, db')"
    using out(2) by (cases out) (auto simp: simulates_def dir_message_add_def phone_arg_def dir_empty_def layout Let_def)
  from chat_list_by_recency [OF formatted_db_ok(1)] z formatted_db_ok(3) out(1) show ?thesis unfolding db' by blast
qed

text \<open>
  C14. database_message_remove_chat on a sound database returns and implements the directory
  operation: the chat of the number is emptied and leaves the recent chats, the contact and all
  other data stay, and an empty chat, an unknown or a bad number is reported.
\<close>

theorem chat_remove_refines:
  assumes "db_sound db" and "0 \<notin> set phone"
  shows "\<exists>r db'. database_message_remove_chat heap_storage db phone = Some (r, db') \<and> db_sound db' \<and>
    (r, dir_of db') = dir_message_remove_chat phone (dir_of db)"
  using heapdb.message_remove_chat_simulates [OF assms] by (auto simp: simulates_def)

lemma chat_remove_refines_witness:
  "\<exists>db' r db''. database_message_add heap_storage formatted_db [49] 7 True [72] = Some (STRG_OK, db') \<and> dir_recent (dir_of db') = [[49]] \<and>
     database_message_remove_chat heap_storage db' [49] = Some (STRG_OK, db'') \<and> dir_recent (dir_of db'') = []"
proof -
  have z: "0 \<notin> set [49 :: byte]" "(7 :: nat) < 2 ^ 32" by simp_all
  obtain out where out: "database_message_add heap_storage formatted_db [49] 7 True [72] = Some out"
    "simulates heap_storage heap_ok heap_blk out (dir_message_add (message_log_loss heap_blk formatted_db) [49] 7 True [72] dir_empty)"
    using heapdb.message_add_simulates [OF formatted_db_ok(1) z formatted_db_ok(3), of True "[72]"] unfolding formatted_db_ok(2) by blast
  obtain db' where o: "out = (STRG_OK, db')" "db_sound db'" "dir_chats (dir_of db') [49] = Some [create_message 7 True (Some [72])]"
    "dir_recent (dir_of db') = [[49]]"
    using out(2) by (cases out) (auto simp: simulates_def dir_message_add_def phone_arg_def dir_empty_def layout Let_def)
  from chat_remove_refines [OF o(2) z(1)] out(1) o show ?thesis
    by (auto simp: dir_message_remove_chat_def phone_arg_def layout)
qed

text \<open>
  C15. database_call_add on a sound database returns and implements the directory operation: the
  known contact, or a nameless one for an unknown number, goes in front of the call log, and nothing
  else changes but, when the full log comes round, the entries of its oldest sector.
\<close>

theorem call_add_refines:
  assumes "db_sound db" and "0 \<notin> set phone"
  shows "\<exists>r db'. database_call_add heap_storage db phone = Some (r, db') \<and> db_sound db' \<and>
    (r, dir_of db') = dir_call_add (call_log_loss heap_blk db) phone (dir_of db)"
  using heapdb.call_add_simulates [OF assms] by (auto simp: simulates_def)

lemma call_add_refines_witness:
  "\<exists>db'. database_call_add heap_storage contact_db [49] = Some (STRG_OK, db') \<and> db_sound db' \<and>
     dir_calls (dir_of db') = [create_contact [65] [49]]"
proof -
  have z: "0 \<notin> set [49 :: byte]" by simp
  from call_add_refines [OF contact_db_ok(1) z] show ?thesis
    by (auto simp: contact_db_ok(2) dir_call_add_def phone_arg_def dir_empty_def layout)
qed

text \<open>
  C16. The lookups of the interface answer from the directory: the contact of a number, any range of
  its chat newest message first, the number of contacts and the number of chats.
\<close>

theorem lookups_refine:
  assumes "db_sound db" and "0 \<notin> set phone"
  shows "database_contact_get heap_storage db phone = dir_contact_get phone (dir_of db) \<and>
    database_message_get_chat heap_storage db phone start n = dir_message_get_chat phone start n (dir_of db) \<and>
    database_contact_count db = Finite_Set.card (dom (dir_book (dir_of db))) \<and>
    database_chat_count db = length (dir_recent (dir_of db))"
  using heapdb.contact_get_simulates [OF assms] heapdb.message_get_chat_simulates [OF assms]
    heapdb.contact_count_book [OF assms(1)] heapdb.chat_list_simulates(2) [OF assms(1)] by simp

lemma lookups_refine_witness:
  "database_contact_get heap_storage contact_db [49] = Inr (create_contact [65] [49]) \<and>
   database_contact_get heap_storage contact_db [50] = Inl STRG_EMPTY \<and> database_contact_count contact_db = 1"
proof -
  have z: "0 \<notin> set [49 :: byte]" "0 \<notin> set [50 :: byte]" by simp_all
  from lookups_refine [OF contact_db_ok(1) z(1)] lookups_refine [OF contact_db_ok(1) z(2)] show ?thesis
    by (simp add: contact_db_ok(2) dir_contact_get_def phone_arg_def dir_empty_def layout)
qed

text \<open>
  C17. database_message_recent and database_call_recent return the requested range of their log,
  newest entry first, and STRG_FAIL exactly when the start lies behind the oldest entry of a log
  that is not empty, for every start below the greatest 32-bit size_t.
\<close>

theorem logs_are_read:
  assumes "db_sound db"
  shows "\<exists>ms cs. map mh_message ms = dir_messages (dir_of db) \<and> map ch_contact cs = dir_calls (dir_of db) \<and>
    (\<forall>start n. start < 2 ^ 32 - 1 \<longrightarrow> database_message_recent heap_storage db start n =
       (if ms = [] \<or> start < length ms then (STRG_OK, take n (drop start ms)) else (STRG_FAIL, []))) \<and>
    (\<forall>start n. start < 2 ^ 32 - 1 \<longrightarrow> database_call_recent heap_storage db start n =
       (if cs = [] \<or> start < length cs then (STRG_OK, take n (drop start cs)) else (STRG_FAIL, [])))"
  using heapdb.message_recent_log [OF assms] heapdb.call_recent_log [OF assms]
  by (intro exI [of _ "db_message_log heap_blk db"] exI [of _ "db_call_log heap_blk db"]) (simp add: db_dir_def Let_def)

lemma logs_are_read_witness: "database_message_recent heap_storage contact_db 4294967294 3 = (STRG_OK, [])"
  using logs_are_read [OF contact_db_ok(1)] by (auto simp: contact_db_ok(2) dir_empty_def)

text \<open>
  C18. database_format on any card that is large enough returns, whatever the card and the RAM held,
  succeeds and leaves a sound database with an empty directory, every message sector free and a
  superheader that is recognised.
\<close>

theorem format_gives_empty:
  assumes "heap_ok (dev (db_pers db))" and "arrays_ok db"
    and "DATA_REGION_START_SECTOR + TOTAL_DATABASE_SECTOR_SIZE \<le> capacity heap_storage (dev (db_pers db))"
  shows "\<exists>db'. database_format heap_storage db = Some (STRG_OK, db') \<and> db_sound db' \<and> dir_of db' = dir_empty \<and>
    avail (ht_message_allocator (db_htable db')) = {..<TOTAL_MESSAGE_SECTOR_SIZE} \<and>
    fst (superheader_check heap_storage (dev (db_pers db')) sh) = SUPR_GOOD"
  using heapdb.format_sem [OF assms(1,3,2), of sh] .

lemma format_gives_empty_witness:
  "\<exists>db'. database_format heap_storage blank_db = Some (STRG_OK, db') \<and> db_sound db' \<and> dir_of db' = dir_empty"
  using format_gives_empty [OF blank_db_ok(1,3,2)] by blast

text \<open>
  C19. In every run of the database task and its clients, in any interleaving, the requests handled
  are exactly the first ones posted, in the order they were posted, each answered with what the
  database gave when served in that order; every response due to a reply queue is collected, queued
  or on its way, in that order, and none is lost or repeated.
\<close>

theorem requests_in_order:
  assumes "task_run S host ctx evs ctx'" and "task_ok ctx" and "waiting ctx = []"
    and "\<And>r. queue_items (reply_queues ctx r) = []" and "task_phase ctx = Receiving"
  shows "posted evs = map fst (handled evs) @ waiting ctx' \<and>
    (\<forall>r. due r (handled evs) = collected r evs @ queue_items (reply_queues ctx' r) @ on_its_way r (task_phase ctx')) \<and>
    db_serve S (mount_ret ctx) (task_db ctx) (map fst (handled evs)) = Some (handled evs, task_db ctx')"
  using task_run_inv [OF assms] by (simp add: task_inv_def)

lemma requests_in_order_witness:
  "\<exists>ctx'. task_run heap_storage True idle_task [Posted count_request] ctx' \<and> waiting ctx' = [count_request]"
proof -
  have "task_run heap_storage True idle_task ([] @ [Posted count_request]) busy_task"
    by (rule task_run.step [OF task_run.stay task_step.post [OF busy_task(8)]])
  with requests_in_order [OF this idle_task_ok] show ?thesis by auto
qed

text \<open>
  C20. Whatever requests wait in the queue of the idle task, if the database calls they need return
  and the reply queues have room, the task can run until the queue is empty, with every request
  handled in order and every response in its reply queue. A stop request on a host build is the last
  one handled: it is answered, the task ends, and what was posted behind it stays in the queue.
\<close>

theorem every_request_answered:
  assumes "task_ok ctx" and "task_phase ctx = Receiving"
    and "db_serve S (mount_ret ctx) (task_db ctx) (up_to_stop host (waiting ctx)) = Some (hs, db)"
    and "\<And>r. length (due r hs) \<le> q_length (reply_queues ctx r) - q_count (reply_queues ctx r)"
  shows "\<exists>evs ctx'. task_run S host ctx evs ctx' \<and> posted evs = [] \<and> handled evs = hs \<and>
    map fst hs @ waiting ctx' = waiting ctx \<and> task_db ctx' = db \<and>
    (if stops host (waiting ctx) then task_phase ctx' = Ended else task_phase ctx' = Receiving \<and> waiting ctx' = []) \<and>
    (\<forall>r. queue_items (reply_queues ctx' r) = queue_items (reply_queues ctx r) @ due r hs)"
proof -
  from task_drains [OF assms(1,2) refl assms(3,4)] obtain evs ctx' where
    e: "task_run S host ctx evs ctx'" "posted evs = []" "handled evs = hs"
      "waiting ctx' = drop (length (up_to_stop host (waiting ctx))) (waiting ctx)" "task_db ctx' = db"
      "task_phase ctx' = (if stops host (waiting ctx) then Ended else Receiving)"
      "\<forall>r. queue_items (reply_queues ctx' r) = queue_items (reply_queues ctx r) @ due r hs" by blast
  have "map fst hs = up_to_stop host (waiting ctx)" by (rule db_serve_requests [OF assms(3)])
  then have "map fst hs @ waiting ctx' = waiting ctx" using e(4) up_to_stop_prefix by metis
  then show ?thesis using e up_to_stop_all [of host "waiting ctx"] by (intro exI [of _ evs] exI [of _ ctx']) simp
qed

lemma every_request_answered_witness:
  "\<exists>evs ctx'. task_run heap_storage True busy_task evs ctx' \<and> handled evs = [(count_request, count_response)] \<and>
     waiting ctx' = [] \<and> queue_items (reply_queues ctx' 1) = [count_response]"
proof -
  note b = busy_task
  have u: "up_to_stop True (waiting busy_task) = [count_request]" "\<not> stops True (waiting busy_task)"
    by (simp_all add: b(2) stops_def count_request_def)
  have s: "db_serve heap_storage (mount_ret busy_task) (task_db busy_task) (up_to_stop True (waiting busy_task)) =
      Some ([(count_request, count_response)], formatted_db)" unfolding u b(3,4) by (rule count_served)
  have room: "length (due r [(count_request, count_response)]) \<le>
      q_length (reply_queues busy_task r) - q_count (reply_queues busy_task r)" for r
    using b(6) by (simp add: count_due)
  from every_request_answered [OF b(1,5) s room] u(2) obtain evs ctx' where
    "task_run heap_storage True busy_task evs ctx'" "handled evs = [(count_request, count_response)]" "waiting ctx' = []"
    "\<forall>r. queue_items (reply_queues ctx' r) = queue_items (reply_queues busy_task r) @ due r [(count_request, count_response)]" by auto
  then show ?thesis using b(7) by (intro exI [of _ evs] exI [of _ ctx']) (simp add: count_due)
qed

text \<open>
  C21. Whatever the card and the indexes hold, every response the task gives carries the type and
  the tag of its request and exactly the member of the result union that its type selects: a lookup
  has its result if and only if the status is STRG_OK, a listing has the number of the rows in the
  buffer of the caller, rows of its own kind and never more than the buffer was said to hold, and a
  writing request has none. When the mount failed the response reports that error for every request
  but a stop; a type that is not below DB_REQ_COUNT is answered with STRG_FAIL; both leave result,
  buffer and database alone, and only the six writing types change the database.
\<close>

theorem responses_typed:
  assumes "db_handle S mr db req = Some (rsp, db')"
  shows "rsp_type rsp = req_type req \<and> rsp_tag rsp = req_tag req \<and> (\<not> writing_type (req_type req) \<longrightarrow> db' = db) \<and>
    (if mr \<noteq> STRG_OK \<and> req_type req \<noteq> DB_REQ_STOP then
       rsp_ret rsp = mr \<and> rsp_result rsp = NoResult \<and> rsp_out rsp = NoRows \<and> db' = db
     else if DB_REQ_COUNT \<le> req_type req then
       rsp_ret rsp = STRG_FAIL \<and> rsp_result rsp = NoResult \<and> rsp_out rsp = NoRows \<and> db' = db
     else result_of_type (req_type req) (req_args req) (rsp_ret rsp) (rsp_result rsp) (rsp_out rsp))"
  using db_handle_typed [OF assms] by (auto simp: not_le)

lemma responses_typed_witness: "rsp_tag count_response = 9 \<and> result_of_type 6 no_args STRG_OK (rsp_result count_response) (rsp_out count_response)"
proof -
  have "db_handle heap_storage STRG_OK formatted_db count_request = Some (count_response, formatted_db)" by (rule count_handled)
  from responses_typed [OF this] show ?thesis by (simp add: count_request_def count_response_def)
qed

text \<open>
  C22. Rebuilding the two RAM indexes from the hash table of a sound database gives back the
  alphabetical index entry for entry as its incremental maintenance left it, and the same chats as
  the chat order, sorted by the time of their newest message, latest first.
\<close>

theorem indexes_rebuild:
  assumes "db_sound db" and "length sa_memory = SORTED_ARRAY_ENTRIES" and "length co_memory = CHAT_ORDER_ENTRIES"
  shows "(\<exists>sa. sorted_array_build heap_storage (db_pers db) (ht_htable (db_htable db)) sa_memory = (STRG_OK, sa) \<and>
      sa_entries sa = sa_entries (db_name_index db)) \<and>
    (\<exists>co. chat_order_build heap_storage (db_pers db) (ht_htable (db_htable db)) co_memory latest = (STRG_OK, co) \<and>
      chat_order_ok co \<and> set (co_chats co) = set (co_chats (db_chat_order db)) \<and>
      sorted (map (recency_key (heap_blk (dev (db_pers db))) (db_htable db)) (co_chats co)))"
  using heapdb.rebuilt_names [OF assms(1,2)] heapdb.rebuilt_chats [OF assms(1,3), of latest] by blast

lemma indexes_rebuild_witness:
  "\<exists>sa. sorted_array_build heap_storage (db_pers contact_db) (ht_htable (db_htable contact_db)) (sa_mem (db_name_index contact_db)) = (STRG_OK, sa) \<and>
     sa_entries sa = sa_entries (db_name_index contact_db)"
proof -
  have "length (sa_mem (db_name_index contact_db)) = SORTED_ARRAY_ENTRIES" "length (co_mem (db_chat_order contact_db)) = CHAT_ORDER_ENTRIES"
    using contact_db_ok(1) by (simp_all add: db_ok_def names_ok_def chat_order_ok_def)
  from indexes_rebuild [OF contact_db_ok(1) this] show ?thesis by blast
qed

text \<open>
  C23. The two candidates for the name index, the sorted array and the AVL tree in its pool, are
  interchangeable: from their empty states every run of calls (insert, remove, set the message,
  rebuild in bulk, find, count, pages by name and by rank, any probe set before each call), with
  sectors below 10000 and no bulk rebuild that lists the same key and sector twice, returns with the
  same answers, which are those of a list kept sorted by folded key, full name and sector, and both
  hold the entries of that list.
\<close>

theorem name_indexes_agree:
  assumes "length (na_e A) = NI_MAX_CONTACTS" and "length (at_n T) = NI_MAX_CONTACTS" and "list_all (\<lambda>(p, op). ni_op_ok op) ops"
  shows "\<exists>answers es A' T'. ix_calls (nb_rank_of N) (nb_rank N) [] ops = (answers, es) \<and>
    ni_calls (\<lambda>p. na_candidate (nb_tiebreak_with N p)) (na_init A) ops = Some (answers, A') \<and> na_entries A' = es \<and>
    ni_calls (\<lambda>p. avl_candidate (nb_tiebreak_with N p)) (avl_init T) ops = Some (answers, T') \<and> avl_entries T' = es"
proof -
  have a: "na_ok (nb_rank_of N) (na_init A)" "na_entries (na_init A) = []" by (rule na_ok_init [OF assms(1)])+
  have t: "avl_ok (nb_rank_of N) (avl_init T)" "avl_entries (avl_init T) = []" by (rule avl_ok_init [OF assms(2)])+
  have "na_entries (na_init A) = avl_entries (avl_init T)" using a t by simp
  from nb_both.same_answers [OF a(1) t(1) this assms(3)] nb.na.calls_refine [OF a(1) assms(3)] a(2)
  show ?thesis by auto
qed

lemma name_indexes_agree_witness:
  "\<exists>A' T'. ni_calls (\<lambda>p. na_candidate (nb_tiebreak_with sample_names p)) (na_init sample_array) sample_calls =
       Some ([NiBool True, NiBool True, NiBool False, NiNumber 0, NiBool True, NiNumber 1, NiNumber 1], A') \<and>
     ni_calls (\<lambda>p. avl_candidate (nb_tiebreak_with sample_names p)) (avl_init sample_pool) sample_calls =
       Some ([NiBool True, NiBool True, NiBool False, NiNumber 0, NiBool True, NiNumber 1, NiNumber 1], T')"
proof -
  have "list_all (\<lambda>(p, op). ni_op_ok op) sample_calls" by (simp add: sample_calls_def)
  from name_indexes_agree [OF _ _ this, of sample_array sample_pool sample_names] sample_answers show ?thesis
    by (auto simp: sample_array_def sample_pool_def)
qed

text \<open>
  C24. Whatever calls the AVL index has answered (sectors below 10000, no bulk rebuild that lists
  the same key and sector twice), its self-check succeeds (heights, balance factors, node count), it
  is at most 18 nodes high, and no recursion of an insertion, a removal or a rebuild went deeper
  than 19. The stack of 24 nodes of an iterator never overflows: begin and seek succeed, seek by
  rank does exactly for a rank below the count, and along any number of calls of next from there
  every descent finds room.
\<close>

theorem avl_index_balanced:
  assumes "length (at_n T) = NI_MAX_CONTACTS" and "list_all (\<lambda>(p, op). ni_op_ok op) ops"
  shows "\<exists>answers T'. ni_calls (\<lambda>p. avl_candidate (nb_tiebreak_with N p)) (avl_reset_max_depth (avl_init T)) ops = Some (answers, T') \<and>
    avl_valid T' = Some True \<and> avl_height T' \<le> 18 \<and> at_max_depth T' \<le> 19 \<and>
    (\<forall>k. (\<exists>stack. avl_begin T' = (True, stack) \<and> iter_safe T' stack k) \<and>
       (\<forall>p name. \<exists>stack. avl_seek (nb_tiebreak_with N p) T' name = Some (True, stack) \<and> iter_safe T' stack k) \<and>
       (\<forall>rank. \<exists>stack. avl_seek_rank T' rank = (rank < at_count T', stack) \<and> iter_safe T' stack k))"
proof -
  have ok: "avl_ok (nb_rank_of N) (avl_reset_max_depth (avl_init T))"
    by (rule avl_ok_reset [OF avl_ok_init(1) [OF assms(1)]])
  from nb.avl.calls_refine [OF ok assms(2)] obtain answers T'
    where run: "ni_calls (\<lambda>p. avl_candidate (nb_tiebreak_with N p)) (avl_reset_max_depth (avl_init T)) ops = Some (answers, T')" by blast
  have d: "avl_ok (nb_rank_of N) T'" "at_max_depth T' \<le> 19"
    using nb.avl_calls_depth [OF ok assms(2) run] by (simp_all add: avl_reset_max_depth_def)
  then obtain t fs where rep: "avl_rep T' t fs" by (auto simp: avl_ok_def)
  note safe = nb.avl_iterators_safe [OF d(1)]
  have rank: "\<exists>stack. avl_seek_rank T' rank = (rank < at_count T', stack) \<and> iter_safe T' stack k" for rank k
    using safe(2) [of rank k] nb.avl_rank_page(2) [OF d(1), of rank] avl_repD(9,11) [OF rep]
    by (intro exI [of _ "snd (avl_seek_rank T' rank)"]) (simp add: prod_eq_iff)
  show ?thesis using run d(2) avl_valid_rep [OF rep] avl_repD(10) [OF rep] safe(1,3) rank
    by (intro exI [of _ answers] exI [of _ T'] conjI allI) auto
qed

lemma avl_index_balanced_witness:
  "\<exists>answers T'. ni_calls (\<lambda>p. avl_candidate (nb_tiebreak_with sample_names p)) (avl_reset_max_depth (avl_init sample_pool)) sample_calls =
       Some (answers, T') \<and> avl_valid T' = Some True \<and> at_max_depth T' \<le> 19"
proof -
  have "list_all (\<lambda>(p, op). ni_op_ok op) sample_calls" "length (at_n sample_pool) = NI_MAX_CONTACTS"
    by (simp_all add: sample_calls_def sample_pool_def)
  from avl_index_balanced [OF this(2,1), of sample_names] show ?thesis by blast
qed

text \<open>
  C25. Start-up recovery with an active journal entry of a contact or message sector restores the
  journalled content and usage bits, commits the entry and changes nothing else; with any idle
  journal (its header valid and not active: empty or committed) it succeeds and changes nothing.
\<close>

theorem start_up_rolls_back:
  assumes "heap_ok d" and "DATA_SECTOR_TO_RAW i < capacity heap_storage d" and "i < USAGE_BITMAP_TOTAL_BITS"
    and "journal_init heap_storage d j = (r, j', d')"
  shows "(journal_active (heap_blk d) jtype i \<and> (jtype = JRNL_CONTACT \<or> jtype = JRNL_MESSAGE) \<and>
      sector_crc_valid (heap_blk d JRNL_CONTENT_SECTOR) \<and> sector_crc_valid (heap_blk d JRNL_USAGE_SECTOR) \<longrightarrow>
      r \<and> heap_blk d' = rolled_back (heap_blk d) i \<and> journal_idle (heap_blk d')) \<and>
    (journal_idle (heap_blk d) \<longrightarrow> r \<and> d' = d)"
proof (intro conjI impI)
  have h: "JRNL_HEADER_SECTOR < capacity heap_storage d" using assms(2) by (simp add: sector_defs layout)
  {
    assume a: "journal_active (heap_blk d) jtype i \<and> (jtype = JRNL_CONTACT \<or> jtype = JRNL_MESSAGE) \<and>
      sector_crc_valid (heap_blk d JRNL_CONTENT_SECTOR) \<and> sector_crc_valid (heap_blk d JRNL_USAGE_SECTOR)"
    then show r "heap_blk d' = rolled_back (heap_blk d) i"
      using heap.recover_active [OF assms(1-3) _ _ _ _ assms(4)] by blast+
    moreover have "length (heap_blk d JRNL_HEADER_SECTOR) = SECTOR_SIZE" by (rule heap.blk_length [OF assms(1) h])
    ultimately show "journal_idle (heap_blk d')" using a rolled_back_idle by metis
  next
    assume "journal_idle (heap_blk d)"
    from heap.recover_idle [OF assms(1) h this, of j] assms(4) show r "d' = d" by auto
  }
qed

lemma start_up_rolls_back_witness:
  "(\<exists>d r j' d'. journal_active (heap_blk d) JRNL_CONTACT 5 \<and> journal_init heap_storage d blank_journal = (r, j', d') \<and>
     r \<and> heap_blk d' = rolled_back (heap_blk d) 5) \<and>
   (\<exists>j'. journal_init heap_storage (dev formatted) blank_journal = (True, j', dev formatted))"
proof
  let ?c = "replicate SECTOR_SIZE (0 :: byte)"
  have c: "length ?c = SECTOR_SIZE" by simp
  obtain a c' p where add: "journal_add heap_storage formatted JRNL_CONTACT 5 ?c = (a, c', p)" by (metis prod_cases3)
  have i: "5 < USAGE_BITMAP_TOTAL_BITS" by (simp add: layout)
  have a: a using heap.journal_add_reliable [OF formatted_ok i _ c, of JRNL_CONTACT] add by simp
  note st = heap.journal_add_in_progress [OF formatted_ok i _ c add]
  have P: "heap_ok (dev p)" "capacity heap_storage (dev p) = capacity heap_storage (dev formatted)"
      "in_progress (heap_blk (dev formatted)) JRNL_CONTACT 5 (sector_crc_stamp ?c) (heap_blk (dev p))"
    using st a by auto
  have act: "journal_active (heap_blk (dev p)) JRNL_CONTACT 5" "heap_blk (dev p) JRNL_CONTENT_SECTOR = sector_crc_stamp ?c"
      "heap_blk (dev p) JRNL_USAGE_SECTOR = heap_blk (dev formatted) (usage_block 5)"
    using P(3) by (simp_all only: in_progress_def)
  have "sector_crc_valid (heap_blk (dev formatted) (usage_block 5))"
    using heap.pers_okD(2) [OF formatted_ok] find_sector_less [OF i] by (simp add: bitmap_synced_def usage_block_def)
  then have v: "sector_crc_valid (heap_blk (dev p) JRNL_CONTENT_SECTOR)" "sector_crc_valid (heap_blk (dev p) JRNL_USAGE_SECTOR)"
    by (simp_all add: act)
  have cap: "DATA_SECTOR_TO_RAW 5 < capacity heap_storage (dev formatted)" using formatted_device(2) by (simp add: sector_defs layout)
  then have cap': "DATA_SECTOR_TO_RAW 5 < capacity heap_storage (dev p)" by (simp only: P(2))
  obtain r j' d' where init: "journal_init heap_storage (dev p) blank_journal = (r, j', d')" by (metis prod_cases3)
  from start_up_rolls_back [OF P(1) cap' i init, of JRNL_CONTACT]
  show "\<exists>d r j' d'. journal_active (heap_blk d) JRNL_CONTACT 5 \<and> journal_init heap_storage d blank_journal = (r, j', d') \<and>
     r \<and> heap_blk d' = rolled_back (heap_blk d) 5" using act(1) v init by blast
  obtain r2 j2 d2 where init2: "journal_init heap_storage (dev formatted) blank_journal = (r2, j2, d2)" by (metis prod_cases3)
  have "journal_idle (heap_blk (dev formatted))" by (rule heap.pers_okD(3) [OF formatted_ok])
  then show "\<exists>j'. journal_init heap_storage (dev formatted) blank_journal = (True, j', dev formatted)"
    using start_up_rolls_back [OF formatted_device(1) cap i init2] init2 by simp
qed

text \<open>
  C26. hash_find_entry equals a reference definition: the occupied slot that holds the phone number,
  or else the first empty or deleted slot of the probe sequence, or else none. The probe loop never
  stops early and never misses the entry.
\<close>

theorem probing_finds:
  assumes "index_ok cs t" and "reads_as S p cs"
  shows "hash_find_entry S p t phone =
    (case phone_index cs t phone of
       Some i \<Rightarrow> Some i
     | None \<Rightarrow> List.find (\<lambda>i. is_new_entry (entry_at t i)) (map (\<lambda>k. hash_double (hash_phone phone) k HASH_TABLE_SIZE) [0..<HASH_TABLE_SIZE]))"
  using hash_find_entry_sem [OF assms, of phone] unfolding first_claimable_def probe_slots_def .

lemma probing_finds_witness:
  "hash_find_entry heap_storage formatted empty_index [49] =
     List.find (\<lambda>i. is_new_entry (entry_at empty_index i)) (map (\<lambda>k. hash_double (hash_phone [49]) k HASH_TABLE_SIZE) [0..<HASH_TABLE_SIZE])"
  using probing_finds [OF empty_index_ok heap.contacts_read_as [OF formatted_ok formatted_contacts(1)], of "[49]"] by simp

text \<open>
  C27. The table size is prime and the second hash is never 0 modulo it, so the probe sequence of
  every key runs through all the slots of the table, each of them exactly once.
\<close>

theorem probes_visit_every_slot:
  "bij_betw (\<lambda>k. hash_double key k HASH_TABLE_SIZE) {..<HASH_TABLE_SIZE} {..<HASH_TABLE_SIZE}"
  using distinct_probe_slots [of key] set_probe_slots [of key]
  by (simp add: bij_betw_def probe_slots_def distinct_map lessThan_atLeast0)

text \<open>
  C28. hash_remove always returns; for a number in the book it removes the contact and its whole
  chat, hands the slot and every sector of the chat back to the allocators and keeps every other
  contact and chat; for any other number it fails and changes nothing.
\<close>

theorem contact_and_chat_removed:
  assumes "card_ok p" and "index_sound p t" and "chats_sound p t"
  shows "\<exists>r out t' p'. hash_remove heap_storage p t phone = Some (r, out, t', p') \<and> out = slots_of p t phone \<and>
    (case slots_of p t phone of
       None \<Rightarrow> \<not> r \<and> t' = t \<and> p' = p
     | Some e \<Rightarrow> r \<and> card_ok p' \<and> index_sound p' t' \<and> chats_sound p' t' \<and>
         book_of p' t' = (book_of p t)(phone := None) \<and> chats_of p' t' = (chats_of p t)(phone := None) \<and>
         avail (ht_message_allocator t') = avail (ht_message_allocator t) \<union> set (chain (heap_blk (dev p)) t e))"
  using heap.hash_remove_sem [OF assms, of phone] by (cases "slots_of p t phone") auto

lemma contact_and_chat_removed_witness:
  "\<exists>t p t' p' out. hash_remove heap_storage p t [49] = Some (True, out, t', p') \<and> book_of p' t' [49] = None \<and>
     book_of p t [49] = Some alice"
proof -
  obtain e t p where a: "card_ok p" "index_sound p t" "chats_sound p t" "slots_of p t = [[49] \<mapsto> e]" "book_of p t = [[49] \<mapsto> alice]"
    by (rule with_alice) blast
  obtain r out t' p' where r: "hash_remove heap_storage p t [49] = Some (r, out, t', p')" "r \<and> book_of p' t' = (book_of p t)([49] := None)"
    using contact_and_chat_removed [OF a(1,2,3), of "[49]"] by (auto simp: a(4))
  then show ?thesis by (intro exI [of _ t] exI [of _ p] exI [of _ t'] exI [of _ p'] exI [of _ out]) (simp add: a(5))
qed

text \<open>
  C29. On any storage, working or not: when hash_insert_contact does not return STRG_OK, the table
  entries, the element count and the set of free contact slots are what they were before.
\<close>

theorem failed_insert_is_undone:
  assumes "hash_insert_contact S p t c = (r, slot, t', p')" and "r \<noteq> STRG_OK"
    and "free_list_inv (ht_contact_allocator t)" and "ht_size t \<le> length (ht_htable t)"
  shows "ht_htable t' = ht_htable t \<and> ht_num_elems t' = ht_num_elems t \<and> ht_size t' = ht_size t \<and>
    free_list_inv (ht_contact_allocator t') \<and> avail (ht_contact_allocator t') = avail (ht_contact_allocator t)"
  using insert_contact_failure [OF assms] by blast

lemma failed_insert_is_undone_witness:
  "\<exists>t p t' p'. hash_insert_contact heap_storage p t alice = (STRG_EXISTS, slots_of p t [49], t', p') \<and> ht_htable t' = ht_htable t"
proof -
  obtain e t p where a: "card_ok p" "index_sound p t" "slots_of p t = [[49] \<mapsto> e]" by (rule with_alice) blast
  obtain r slot t' p' where w: "hash_insert_contact heap_storage p t alice = (r, slot, t', p')" by (metis prod_cases4)
  have r: "r = STRG_EXISTS" "slot = Some e"
    using heap.insert_contact_sem [OF a(1,2) alice_ok(1,2) w] by (simp_all add: a(3) alice_ok(3))
  have "ht_size t \<le> length (ht_htable t)" using index_okD(1,2) [OF contacts_okD(2) [OF a(2)]] by simp
  from failed_insert_is_undone [OF w _ contacts_okD(3) [OF a(2)] this] show ?thesis
    using w r a(3) by (intro exI [of _ t] exI [of _ p] exI [of _ t'] exI [of _ p']) simp
qed

text \<open>
  C30. After a restart the binary search over the sequence numbers of the sectors recovers the
  position, fill level and sequence number of the message history and of the call history exactly,
  wrapped or not, whatever the RAM held.
\<close>

theorem history_survives_restart:
  assumes "card_ok p"
  shows "(history_on message_history_kind p rb \<longrightarrow>
      init_ring_buffer heap_storage (dev p) stale (rb_size rb) (history_base message_history_kind) = (True, rb)) \<and>
    (history_on call_history_kind p rb \<longrightarrow>
      init_ring_buffer heap_storage (dev p) stale (rb_size rb) (history_base call_history_kind) = (True, rb))"
  using msg_hist.restart_spec [OF heap.pers_okD(1) [OF assms], of rb stale]
    call_hist.restart_spec [OF heap.pers_okD(1) [OF assms], of rb stale] by blast

lemma history_survives_restart_witness:
  "(\<exists>p rb. card_ok p \<and> rb_occupancy rb \<noteq> 0 \<and>
     init_ring_buffer heap_storage (dev p) (empty_ring 1) (rb_size rb) (history_base message_history_kind) = (True, rb)) \<and>
   (\<exists>p rb. card_ok p \<and> rb_occupancy rb \<noteq> 0 \<and>
     init_ring_buffer heap_storage (dev p) (empty_ring 1) (rb_size rb) (history_base call_history_kind) = (True, rb))"
proof
  let ?e = "\<lparr>mh_msgInd = 3, mh_message = create_message 1 True (Some [72])\<rparr>"
  have "message_history_entry_wf ?e" by (simp add: message_history_entry_wf_def)
  from msg_hist.add_spec [OF with_cleared_ok(1,2) this] obtain rb p where
    a: "card_ok p" "history_on message_history_kind p rb" "history_list message_history_kind (heap_blk (dev p)) rb = [?e]"
    unfolding empty_history by auto
  have "rb_occupancy rb \<noteq> 0" using a(3) by (intro notI) (simp add: history_list_def ring_list_def)
  then show "\<exists>p rb. card_ok p \<and> rb_occupancy rb \<noteq> 0 \<and>
     init_ring_buffer heap_storage (dev p) (empty_ring 1) (rb_size rb) (history_base message_history_kind) = (True, rb)"
    using history_survives_restart [OF a(1), of rb "empty_ring 1"] a(1,2) by blast
  have "call_history_entry_wf \<lparr>ch_contact_index = 3, ch_contact = create_contact [65] [49], ch_padding = 0\<rparr>"
    by (simp add: call_history_entry_wf_def)
  from full_call_history [OF this] obtain p rb where b: "card_ok p" "history_on call_history_kind p rb" "rb_occupancy rb \<noteq> 0" by blast
  then show "\<exists>p rb. card_ok p \<and> rb_occupancy rb \<noteq> 0 \<and>
     init_ring_buffer heap_storage (dev p) (empty_ring 1) (rb_size rb) (history_base call_history_kind) = (True, rb)"
    using history_survives_restart [OF b(1), of rb "empty_ring 1"] by blast
qed

text \<open>
  C31. When the newest sector of the call history is full, an addition first marks it full in a
  journalled write of its own; a restart right after that write recovers the position on this sector
  and the next addition overwrites its first entry and hides the rest: the newest sector of the
  history is lost.
\<close>

theorem history_restart_overwrites:
  assumes "card_ok p" and "history_on call_history_kind p rb" and "call_history_entry_wf e" and "rb_occupancy rb \<noteq> 0"
    and "rh_head (hs_header (history_sec call_history_kind (heap_blk (dev p)) (rb_current_index rb))) = hk_cap call_history_kind - 1"
  shows "\<exists>buf pa p1 p2. journal_add heap_storage p JRNL_CALL_HIST (to_u16 (CALL_HIST_DATA_SECTOR (rb_current_index rb)))
      (history_sector_bytes call_history_kind (history_sec call_history_kind (heap_blk (dev p)) (rb_current_index rb))) = (True, buf, pa) \<and>
    set_sector_full_move_next call_history_kind heap_storage pa rb (history_sector_of call_history_kind buf) = (STRG_OK, advance rb, p1) \<and>
    init_ring_buffer heap_storage (dev p1) stale (rb_size rb) (history_base call_history_kind) = (True, rb) \<and>
    call_history_add heap_storage p1 rb e = Some (STRG_OK, rb, p2) \<and>
    history_list call_history_kind (heap_blk (dev p2)) rb =
      e # drop (hk_cap call_history_kind) (history_list call_history_kind (heap_blk (dev p)) rb)"
  using call_hist.restart_between_writes [OF assms, of stale]
  by (simp add: call_history_add_def call_history_kind_def CALL_HIST_DATA_SECTOR_def)

lemma history_restart_overwrites_witness:
  "\<exists>p rb p1 p2. card_ok p \<and> length (history_list call_history_kind (heap_blk (dev p)) rb) = 5 \<and>
     init_ring_buffer heap_storage (dev p1) rb (rb_size rb) (history_base call_history_kind) = (True, rb) \<and>
     call_history_add heap_storage p1 rb \<lparr>ch_contact_index = 3, ch_contact = create_contact [65] [49], ch_padding = 0\<rparr> =
       Some (STRG_OK, rb, p2) \<and> length (history_list call_history_kind (heap_blk (dev p2)) rb) = 1"
proof -
  let ?e = "\<lparr>ch_contact_index = 3, ch_contact = create_contact [65] [49], ch_padding = 0\<rparr>"
  have e: "call_history_entry_wf ?e" by (simp add: call_history_entry_wf_def)
  obtain p rb where a: "card_ok p" "history_on call_history_kind p rb" "rb_occupancy rb \<noteq> 0"
      "length (history_list call_history_kind (heap_blk (dev p)) rb) = 5"
      "rh_head (hs_header (history_sec call_history_kind (heap_blk (dev p)) (rb_current_index rb))) = hk_cap call_history_kind - 1"
    using full_call_history [OF e] by auto
  from history_restart_overwrites [OF a(1,2) e a(3,5), of rb] obtain p1 p2 where
    "init_ring_buffer heap_storage (dev p1) rb (rb_size rb) (history_base call_history_kind) = (True, rb)"
    "call_history_add heap_storage p1 rb ?e = Some (STRG_OK, rb, p2)"
    "history_list call_history_kind (heap_blk (dev p2)) rb =
      ?e # drop (hk_cap call_history_kind) (history_list call_history_kind (heap_blk (dev p)) rb)" by auto
  moreover have "hk_cap call_history_kind = 5" by (simp add: call_history_kind_def layout)
  ultimately show ?thesis using a(1,4) by (intro exI [of _ p] exI [of _ rb] exI [of _ p1] exI [of _ p2]) simp
qed

text \<open>
  C32. A chat removal cut short loses messages it had not reached. The newest sector is released and
  the next one, x, still names it. Whenever the released sector is in use again and x has not been
  written, by this chat or by any other, the scan of a restart passes x over: no entry of the table
  gets it as its newest sector.
\<close>

theorem cut_removal_hides_chat:
  assumes "card_ok p" and "chat (heap_blk (dev p)) (usage_bitmap p) y (y # x # ss)" and "ms_next (msg_block (heap_blk (dev p)) x) = y"
  shows "\<exists>out p'. remove_message_sector heap_storage p fls y = (STRG_OK, out, p', free_list_free fls y) \<and>
    \<not> used (usage_bitmap p') (MESSAGE_DATA_SECTOR y) \<and> used (usage_bitmap p') (MESSAGE_DATA_SECTOR x) \<and>
    (\<forall>q t f. card_ok q \<and> used (usage_bitmap q) (MESSAGE_DATA_SECTOR y) \<and>
       heap_blk (dev q) (DATA_SECTOR_TO_RAW (MESSAGE_DATA_SECTOR x)) = heap_blk (dev p') (DATA_SECTOR_TO_RAW (MESSAGE_DATA_SECTOR x)) \<longrightarrow>
       reconstruct_message_step heap_storage q t f x =
         (True, t\<lparr>ht_message_allocator := free_list_free_range (ht_message_allocator t) f x\<rparr>, q))"
proof -
  note k = heap.chat_sector_readable [OF assms(1,2)]
  obtain out p' where r: "remove_message_sector heap_storage p fls y = (STRG_OK, out, p', free_list_free fls y)"
    "\<not> used (usage_bitmap p') (MESSAGE_DATA_SECTOR y)" "used (usage_bitmap p') (MESSAGE_DATA_SECTOR x)"
    "raw_data_same (heap_blk (dev p)) (heap_blk (dev p'))"
    using heap.removal_cut_short [OF assms(1,2), of fls] by blast
  have "heap_blk (dev p') (DATA_SECTOR_TO_RAW (MESSAGE_DATA_SECTOR x)) = heap_blk (dev p) (DATA_SECTOR_TO_RAW (MESSAGE_DATA_SECTOR x))"
    using r(4) msg_sector_bounds(1) [OF k(1)] by (simp add: raw_data_same_def)
  then have "reconstruct_message_step heap_storage q t f x =
      (True, t\<lparr>ht_message_allocator := free_list_free_range (ht_message_allocator t) f x\<rparr>, q)"
    if "card_ok q" "used (usage_bitmap q) (MESSAGE_DATA_SECTOR y)"
      "heap_blk (dev q) (DATA_SECTOR_TO_RAW (MESSAGE_DATA_SECTOR x)) = heap_blk (dev p') (DATA_SECTOR_TO_RAW (MESSAGE_DATA_SECTOR x))" for q t f
    using that k(5) assms(3) by (intro heap.followed_sector_passed_over [OF that(1) k(1) _ _ k(4) that(2)]) (simp_all add: msg_block_def)
  then show ?thesis using r(1-3) by blast
qed

lemma cut_removal_hides_chat_witness:
  "\<exists>p out p' fls. remove_message_sector heap_storage p (the (free_list_empty_init (replicate 8 0) 8)) 4 = (STRG_OK, out, p', fls) \<and>
     \<not> used (usage_bitmap p') (MESSAGE_DATA_SECTOR 4) \<and> used (usage_bitmap p') (MESSAGE_DATA_SECTOR 0)"
proof -
  let ?m1 = "create_message 1 True (Some [72])" and ?m2 = "create_message 2 False (Some [73])"
  have m: "message_wf ?m1" "message_wf ?m2" by simp_all
  note c = one_chat_props [OF m(1)]
  have s: "4 < TOTAL_MESSAGE_SECTOR_SIZE" "\<not> used (usage_bitmap (one_chat ?m1)) (MESSAGE_DATA_SECTOR 4)"
    by (simp add: layout, subst c(4), simp)
  obtain r p where w: "write_next_message_sector heap_storage (one_chat ?m1) 7 0 4 ?m2 = (r, p)" by (meson surj_pair)
  have ci: "(7 :: nat) < 65536" by simp
  from heap.write_next_message_sector_chat [OF c(1) s c(2) m(2) ci w]
  have p: "card_ok p" "chat (heap_blk (dev p)) (usage_bitmap p) 4 [4, 0]" "ms_next (msg_block (heap_blk (dev p)) 0) = 4" by blast+
  show ?thesis
    by (insert cut_removal_hides_chat [OF p, of "the (free_list_empty_init (replicate 8 0) 8)"], elim exE conjE) (intro exI conjI, assumption+)
qed

text \<open>
  C33. Removing a message chat ends for every well-formed chain, reports success, releases exactly
  the sectors of the chain to the allocator and in the usage bitmap, and leaves the contents of
  every data sector alone.
\<close>

theorem chat_removal_releases_all:
  assumes "card_ok p" and "chat (heap_blk (dev p)) (usage_bitmap p) h ss"
  shows "\<exists>p'. remove_message_chat heap_storage p fls h = Some (True, p', foldl free_list_free fls ss) \<and> card_ok p' \<and>
    (\<forall>j. used (usage_bitmap p') j = (used (usage_bitmap p) j \<and> j \<notin> MESSAGE_DATA_SECTOR ` set ss)) \<and>
    (\<forall>k < USAGE_BITMAP_TOTAL_BITS. heap_blk (dev p') (DATA_SECTOR_TO_RAW k) = heap_blk (dev p) (DATA_SECTOR_TO_RAW k))"
  using heap.remove_message_chat_chat [OF assms, of fls] by (simp add: raw_data_same_def) blast

lemma chat_removal_releases_all_witness:
  "\<exists>p p' fls'. card_ok p \<and> used (usage_bitmap p) (MESSAGE_DATA_SECTOR 0) \<and>
     remove_message_chat heap_storage p (the (free_list_empty_init [0, 0] 2)) 0 = Some (True, p', fls') \<and>
     \<not> used (usage_bitmap p') (MESSAGE_DATA_SECTOR 0)"
proof -
  have m: "message_wf (create_message 1 True (Some [72]))" by simp
  note c = one_chat_props [OF m]
  from chat_removal_releases_all [OF c(1,2)] show ?thesis using c(1,4) by fastforce
qed

text \<open>
  C34. On a sound card write_contact succeeds, keeps the persistent invariant and refines a map
  update: the contact is stored in its slot and every other slot is unchanged; no other data sector
  is touched.
\<close>

theorem contact_write_stores:
  assumes "card_ok p" and "contacts_valid (heap_blk (dev p)) (usage_bitmap p)"
    and "index div CONTACT_SECTOR_CAPACITY < TOTAL_CONTACT_SECTOR_SIZE" and "contact_wf c"
    and "write_contact heap_storage p index c = (r, p')"
  shows "r = STRG_OK \<and> card_ok p' \<and> contacts_valid (heap_blk (dev p')) (usage_bitmap p') \<and>
    contacts_of p' = (contacts_of p)(index \<mapsto> c) \<and>
    elsewhere_same (index div CONTACT_SECTOR_CAPACITY) (heap_blk (dev p)) (heap_blk (dev p'))"
  using heap.write_contact_sem [OF assms] by blast

lemma contact_write_stores_witness:
  "fst (write_contact heap_storage formatted 7 (create_contact [65] [49])) = STRG_OK \<and>
   contacts_of (snd (write_contact heap_storage formatted 7 (create_contact [65] [49]))) = [7 \<mapsto> create_contact [65] [49]]"
proof -
  have e: "contacts_of formatted = Map.empty" by (simp add: fun_eq_iff formatted_contacts)
  have "7 div CONTACT_SECTOR_CAPACITY < TOTAL_CONTACT_SECTOR_SIZE" by (simp add: layout)
  from contact_write_stores [OF formatted_ok formatted_contacts(1) this create_contact_wf prod.collapse [symmetric]]
  show ?thesis by (simp add: e)
qed

text \<open>
  C35. update_usage_bit either sets exactly the requested bit, in RAM and in the sector of the card
  that holds it, or reports failure and leaves both as they were; RAM and card stay in step either
  way, whatever writes fail.
\<close>

theorem usage_bit_update:
  assumes "heap_ok (card d)" and "bitmap_synced (heap_blk (card d)) bm" and "i < USAGE_BITMAP_TOTAL_BITS"
    and "update_usage_bit (power_cut heap_storage) d bm i v = (r, d', bm')"
  shows "bitmap_synced (heap_blk (card d')) bm' \<and>
    (r = STRG_OK \<and> (\<forall>j < USAGE_BITMAP_TOTAL_BITS. check_usage_bit bm' j = (if j = i then v else check_usage_bit bm j)) \<and>
       (\<forall>k. k \<noteq> USAGE_BITMAP_START_SECTOR + USAGE_BITMAP_FIND_SECTOR i \<longrightarrow> heap_blk (card d') k = heap_blk (card d) k)
     \<or> r = STRG_FAIL \<and> bm' = bm \<and> heap_blk (card d') = heap_blk (card d))"
  using cut.update_usage_bit_step [OF assms] by (auto simp: check_usage_bit_used)

lemma usage_bit_update_witness:
  "\<exists>r d' bm'. update_usage_bit (power_cut heap_storage) (dev (formatted_cut 0)) (usage_bitmap formatted) 4063 True = (r, d', bm') \<and>
     bitmap_synced (heap_blk (card d')) bm'"
proof -
  obtain r d' bm' where u: "update_usage_bit (power_cut heap_storage) (dev (formatted_cut 0)) (usage_bitmap formatted) 4063 True = (r, d', bm')"
    by (metis prod_cases3)
  have "heap_ok (card (dev (formatted_cut 0)))" "bitmap_synced (heap_blk (card (dev (formatted_cut 0)))) (usage_bitmap formatted)"
    using formatted_ok by (simp_all add: formatted_cut_def pers_ok_def)
  from usage_bit_update [OF this _ u] show ?thesis using u by (auto simp: layout)
qed

text \<open>
  C36. crc_stm32.c, which the target build compiles in when it does not define USE_SW_CRC: the CRC
  computed by the CRC unit as MX_CRC_Init sets it up (bytes inverted on the way in, the word
  inverted on the way out) is the software CRC, so a card written by one build is valid for the
  other.
\<close>

theorem target_crc_is_software:
  assumes "crc_unit_law HAL_CRC_Calculate" and "len < 2 ^ 32"
  shows "crc32_stm32_calculate HAL_CRC_Calculate data len = crc32_calculate data len"
  using assms by (rule crc_stm32_is_software)

lemma target_crc_is_software_witness:
  "crc32_stm32_calculate (\<lambda>h data len. crc_unit h (take len data)) [49, 50, 51] 3 = crc32_calculate [49, 50, 51] 3"
proof -
  have "crc_unit_law (\<lambda>h data len. crc_unit h (take len data))" by (simp add: crc_unit_law_def)
  then show ?thesis by (rule target_crc_is_software) simp
qed

text \<open>
  C37. A sector whose stored bytes differ from a valid sector in exactly one payload byte is never
  returned by read_sector: it reports STRG_CORRUPT.
\<close>

theorem corrupted_byte_detected:
  assumes "heap_ok d" and "k < capacity heap_storage d" and "k < 65536"
    and "length b = SECTOR_SIZE" and "sector_crc_valid b" and "i < SECTOR_PAYLOAD_BYTES" and "x \<noteq> b ! i"
    and "heap_blk d k = b[i := x]"
  shows "read_sector heap_storage d k = Inl STRG_CORRUPT"
  using heap.read_sector_valid [OF assms(1-3)] one_byte_invalid [OF assms(4-7)] by (simp add: assms(8))

lemma corrupted_byte_detected_witness:
  "\<exists>d. heap_ok d \<and> read_sector heap_storage d 0 = Inl STRG_CORRUPT"
proof -
  let ?b = "sector_crc_stamp (replicate SECTOR_SIZE 0)"
  have l: "length ?b = SECTOR_SIZE" "length (?b[3 := 7]) = SECTOR_SIZE" by simp_all
  have z: "(7 :: byte) \<noteq> ?b ! 3" by (simp add: layout)
  obtain r d where w: "write_block heap_storage blank_card 0 (?b[3 := 7]) = (r, d)" by (meson surj_pair)
  have d: "heap_ok d" "capacity heap_storage d = 40265" "heap_blk d 0 = ?b[3 := 7]"
    using heap.write_step [OF blank_card_ok(1) l(2) w] heap.write_in_range [OF blank_card_ok(1) _ l(2), of 0] w blank_card_ok(2)
    by auto
  show ?thesis
    using corrupted_byte_detected [OF d(1) _ _ l(1) _ _ z d(3)] d(1,2) by (auto simp: layout)
qed

text \<open>
  C38. write_sector followed by read_sector of the same sector returns the stamped buffer (its
  payload unchanged), and every other sector reads as before.
\<close>

theorem sector_write_read:
  assumes "heap_ok d" and "i < capacity heap_storage d" and "i < 65536" and "length b = SECTOR_SIZE"
    and "write_sector heap_storage d i b = (r, b', d')"
  shows "r = STRG_OK \<and> read_sector heap_storage d' i = Inr b' \<and> take SECTOR_PAYLOAD_BYTES b' = take SECTOR_PAYLOAD_BYTES b \<and>
    (\<forall>j. j < capacity heap_storage d \<and> j < 65536 \<and> j \<noteq> i \<longrightarrow> read_sector heap_storage d' j = read_sector heap_storage d j)"
  using heap.read_written_sector [OF assms] heap.write_sector_step [OF assms(1,4,5)] stamp_payload [OF assms(4)]
  by (simp add: layout)

lemma sector_write_read_witness:
  "\<exists>d'. fst (snd (write_sector heap_storage blank_card 40264 (replicate SECTOR_SIZE 1))) = sector_crc_stamp (replicate SECTOR_SIZE 1) \<and>
     write_sector heap_storage blank_card 40264 (replicate SECTOR_SIZE 1) = (STRG_OK, sector_crc_stamp (replicate SECTOR_SIZE 1), d') \<and>
     read_sector heap_storage d' 40264 = Inr (sector_crc_stamp (replicate SECTOR_SIZE 1))"
proof -
  have l: "length (replicate SECTOR_SIZE (1 :: byte)) = SECTOR_SIZE" by simp
  obtain r b' d' where w: "write_sector heap_storage blank_card 40264 (replicate SECTOR_SIZE 1) = (r, b', d')" by (metis prod_cases3)
  have "b' = sector_crc_stamp (replicate SECTOR_SIZE 1)" using w by (auto simp: write_sector_def Let_def split: prod.splits)
  then show ?thesis using sector_write_read [OF blank_card_ok(1) _ _ l w] w blank_card_ok(2) by simp
qed

text \<open>
  C39. SDStorage_ReadBlock fails to return in exactly one case: the transfer was accepted and no
  poll of the card ever finds it in the transfer state, for its loop has no time limit; otherwise it
  returns the first bytes of what the library read, or reports its failure.
\<close>

theorem sd_read_returns:
  "(SDStorage_ReadBlock H ctx index = None \<longleftrightarrow>
      HAL_SD_ReadBlocks H (hsd ctx) index (SD_SECTORS_PER_BLOCK (sd_block_size ctx)) \<noteq> None \<and>
      (\<forall>k. \<not> HAL_SD_CARD_TRANSFER H (hsd ctx) k)) \<and>
   (\<forall>r. SDStorage_ReadBlock H ctx index = Some r \<longrightarrow>
      r = map_option (take (sd_block_size ctx)) (HAL_SD_ReadBlocks H (hsd ctx) index (SD_SECTORS_PER_BLOCK (sd_block_size ctx))))"
  by (intro conjI read_block_returns allI impI) (auto simp: SDStorage_ReadBlock_def Let_def split: option.splits)

lemma sd_read_returns_witness:
  "SDStorage_ReadBlock memory_hal (the (SDStorage_Init memory_hal zero_card 0 SECTOR_SIZE)) 7 = Some (Some (replicate 512 0))"
proof -
  let ?ctx = "the (SDStorage_Init memory_hal zero_card 0 SECTOR_SIZE)"
  have ctx: "hsd ?ctx = zero_card" "sd_block_size ?ctx = 512" "SD_SECTORS_PER_BLOCK (sd_block_size ?ctx) = 1"
    by (simp_all add: SDStorage_Init_def memory_hal_def SD_SECTORS_PER_BLOCK_def layout to_u32_def)
  have rd: "HAL_SD_ReadBlocks memory_hal zero_card 7 1 = Some (replicate 512 0)"
    by (simp add: memory_hal_def CARD_SECTORS_def layout zero_card_def)
  have "\<not> (\<forall>k. \<not> HAL_SD_CARD_TRANSFER memory_hal zero_card k)" by (auto simp: memory_hal_def)
  then obtain r where "SDStorage_ReadBlock memory_hal ?ctx 7 = Some r" using sd_read_returns [of memory_hal ?ctx 7] ctx by auto
  then show ?thesis using sd_read_returns [of memory_hal ?ctx 7] ctx rd by simp
qed

text \<open>
  C40. The initialisation loop of the free list ends for every size up to 65535, giving a stack of
  all slots; for every greater size, in an array as large, its 16-bit counter wraps and the loop
  never ends.
\<close>

theorem free_list_init_needs_u16:
  assumes "0 < n" and "n \<le> length st"
  shows "if n \<le> UINT16_MAX then \<exists>fl. free_list_init st n = Some (True, Some fl) \<and> free_list_inv fl \<and> avail fl = {..<n}
    else free_list_init st n = None"
proof (cases "n \<le> UINT16_MAX")
  case False
  then have "free_list_fill 0 n st = None" by (intro free_list_fill_diverges) simp_all
  then show ?thesis using assms(1) False by (simp add: free_list_init_def)
qed (use free_list_init_full [OF assms(1) _ assms(2)] in auto)

lemma free_list_init_needs_u16_witness:
  "(\<exists>fl. free_list_init [9, 9] 2 = Some (True, Some fl) \<and> avail fl = {..<2}) \<and> free_list_init (replicate 70000 0) 70000 = None"
  using free_list_init_needs_u16 [of 2 "[9, 9]"] free_list_init_needs_u16 [of 70000 "replicate 70000 0"] by auto

subsection \<open>Further theorems on the same definitions\<close>

text \<open>
  read_contact refines map lookup: it returns the stored contact of the slot, and STRG_EMPTY exactly
  when the slot holds none.
\<close>

theorem contact_read_looks_up:
  assumes "card_ok p" and "contacts_valid (heap_blk (dev p)) (usage_bitmap p)"
    and "index div CONTACT_SECTOR_CAPACITY < TOTAL_CONTACT_SECTOR_SIZE"
  shows "read_contact heap_storage p index =
    (case contacts_of p index of None \<Rightarrow> Inl STRG_EMPTY | Some c \<Rightarrow> Inr c)"
  using heap.read_contact_sem [OF assms] .

lemma contact_read_looks_up_witness: "read_contact heap_storage formatted 9 = Inl STRG_EMPTY"
proof -
  have "9 div CONTACT_SECTOR_CAPACITY < TOTAL_CONTACT_SECTOR_SIZE" by (simp add: layout)
  from contact_read_looks_up [OF formatted_ok formatted_contacts(1) this] show ?thesis by (simp add: formatted_contacts)
qed

text \<open>
  remove_contact of a stored contact returns it, frees its slot in the allocator and refines map
  deletion (clearing the sector usage bit when the sector becomes empty); on an empty slot it fails
  and changes no data.
\<close>

theorem contact_remove_deletes:
  assumes "card_ok p" and "contacts_valid (heap_blk (dev p)) (usage_bitmap p)"
    and "index div CONTACT_SECTOR_CAPACITY < TOTAL_CONTACT_SECTOR_SIZE"
    and "remove_contact heap_storage p fls index = (r, out, p', fls')"
  shows "case contacts_of p index of
      Some c \<Rightarrow> r \<and> out = Some c \<and> fls' = free_list_free fls index \<and> card_ok p' \<and>
        contacts_valid (heap_blk (dev p')) (usage_bitmap p') \<and> contacts_of p' = (contacts_of p)(index := None) \<and>
        elsewhere_same (index div CONTACT_SECTOR_CAPACITY) (heap_blk (dev p)) (heap_blk (dev p'))
    | None \<Rightarrow> \<not> r \<and> out = None \<and> fls' = fls \<and> usage_bitmap p' = usage_bitmap p \<and>
        same_data (heap_blk (dev p)) (heap_blk (dev p'))"
  using heap.remove_contact_sem [OF assms] by (auto split: option.splits)

lemma contact_remove_deletes_witness:
  "\<exists>p. card_ok p \<and> contacts_of p 7 = Some (create_contact [65] [49]) \<and>
     (\<exists>p' fls'. remove_contact heap_storage p (the (free_list_empty_init [0] 1)) 7 =
        (True, Some (create_contact [65] [49]), p', fls') \<and> contacts_of p' 7 = None)"
proof -
  have s: "7 div CONTACT_SECTOR_CAPACITY < TOTAL_CONTACT_SECTOR_SIZE" by (simp add: layout)
  obtain r p where w: "write_contact heap_storage formatted 7 (create_contact [65] [49]) = (r, p)" by (meson surj_pair)
  note st = heap.write_contact_sem [OF formatted_ok formatted_contacts(1) s create_contact_wf w]
  obtain r2 out p' fls' where rm: "remove_contact heap_storage p (the (free_list_empty_init [0] 1)) 7 = (r2, out, p', fls')"
    by (metis prod_cases4)
  from contact_remove_deletes [OF _ _ s rm] st rm show ?thesis by (intro exI [of _ p]) auto
qed

text \<open>
  On a sound card write_message puts the message in front of the chat when its newest sector has
  room and touches no other data sector; a full sector is reported as STRG_FULL and nothing changes.
\<close>

theorem message_write_prepends:
  assumes "card_ok p" and "chat (heap_blk (dev p)) (usage_bitmap p) s (s # ss)" and "message_wf m"
    and "write_message heap_storage p s m = (r, p')"
  shows "if ms_msg_count (msg_block (heap_blk (dev p)) s) < MESSAGE_SECTOR_CAPACITY then
      r = STRG_OK \<and> card_ok p' \<and> chat (heap_blk (dev p')) (usage_bitmap p') s (s # ss) \<and>
      chat_msgs (heap_blk (dev p')) (s # ss) = m # chat_msgs (heap_blk (dev p)) (s # ss) \<and>
      elsewhere_same (MESSAGE_DATA_SECTOR s) (heap_blk (dev p)) (heap_blk (dev p'))
    else r = STRG_FULL \<and> p' = p"
  using heap.write_message_chat [OF assms] by (auto simp del: chat.simps chat_msgs_simps)

lemma message_write_prepends_witness:
  "\<exists>p. card_ok p \<and> (let (r, p') = write_message heap_storage p 0 (create_message 2 False (Some [73])) in
     r = STRG_OK \<and> chat_msgs (heap_blk (dev p')) [0] = [create_message 2 False (Some [73]), create_message 1 True (Some [72])])"
proof -
  let ?m1 = "create_message 1 True (Some [72])" and ?m2 = "create_message 2 False (Some [73])"
  have m: "message_wf ?m1" "message_wf ?m2" by simp_all
  note c = one_chat_props [OF m(1)]
  obtain r p' where w: "write_message heap_storage (one_chat ?m1) 0 ?m2 = (r, p')" by (meson surj_pair)
  have "length (sector_msgs (msg_block (heap_blk (dev (one_chat ?m1))) 0)) = 1" using c(3) by simp
  moreover have "ms_msg_count (msg_block (heap_blk (dev (one_chat ?m1))) 0) \<le> 3" using c(2) by (simp add: layout)
  ultimately have "ms_msg_count (msg_block (heap_blk (dev (one_chat ?m1))) 0) < MESSAGE_SECTOR_CAPACITY"
    by (simp add: sector_msgs_def msg_block_def layout)
  then show ?thesis using message_write_prepends [OF c(1,2) m(2) w] w c(1,3) by (intro exI [of _ "one_chat ?m1"]) simp
qed

text \<open>
  write_next_message_sector on a free sector starts a new newest sector: the chat gains it in front,
  its messages gain exactly the new one, the previous newest sector now points to it, and the sector
  records the contact.
\<close>

theorem message_chain_extends:
  assumes "card_ok p" and "s < TOTAL_MESSAGE_SECTOR_SIZE" and "\<not> used (usage_bitmap p) (MESSAGE_DATA_SECTOR s)"
    and "chat (heap_blk (dev p)) (usage_bitmap p) q (q # ss)" and "message_wf m" and "ci < 65536"
    and "write_next_message_sector heap_storage p ci q s m = (r, p')"
  shows "r = STRG_OK \<and> card_ok p' \<and> chat (heap_blk (dev p')) (usage_bitmap p') s (s # q # ss) \<and>
    chat_msgs (heap_blk (dev p')) (s # q # ss) = m # chat_msgs (heap_blk (dev p)) (q # ss) \<and>
    ms_next (msg_block (heap_blk (dev p')) q) = s \<and> ms_contact_index (msg_block (heap_blk (dev p')) s) = ci"
  using heap.write_next_message_sector_chat [OF assms] by blast

lemma message_chain_extends_witness:
  "\<exists>p p'. write_next_message_sector heap_storage p 7 0 4 (create_message 2 False (Some [73])) = (STRG_OK, p') \<and>
     chat_msgs (heap_blk (dev p')) [4, 0] = [create_message 2 False (Some [73]), create_message 1 True (Some [72])]"
proof -
  let ?m1 = "create_message 1 True (Some [72])" and ?m2 = "create_message 2 False (Some [73])"
  have m: "message_wf ?m1" "message_wf ?m2" by simp_all
  note c = one_chat_props [OF m(1)]
  have s: "4 < TOTAL_MESSAGE_SECTOR_SIZE" "\<not> used (usage_bitmap (one_chat ?m1)) (MESSAGE_DATA_SECTOR 4)"
    by (simp add: layout, subst c(4), simp)
  obtain r p' where w: "write_next_message_sector heap_storage (one_chat ?m1) 7 0 4 ?m2 = (r, p')" by (meson surj_pair)
  have ci: "(7 :: nat) < 65536" by simp
  from message_chain_extends [OF c(1) s c(2) m(2) ci w] show ?thesis using w unfolding c(3) by blast
qed

text \<open>
  read_n_messages returns exactly the requested range of the chat, newest message first, across
  sector borders: take n (drop start) of its messages, or STRG_FAIL when the start lies behind the
  oldest message.
\<close>

theorem message_range_is_read:
  assumes "card_ok p" and "chat (heap_blk (dev p)) (usage_bitmap p) h ss"
  shows "read_n_messages heap_storage p h startMsg n =
    (if n = 0 \<or> ss = [] then (STRG_OK, [])
     else if startMsg < length (chat_msgs (heap_blk (dev p)) ss)
     then (STRG_OK, take n (drop startMsg (chat_msgs (heap_blk (dev p)) ss))) else (STRG_FAIL, []))"
  using heap.read_n_messages_chat [OF assms chat_length [OF assms(2)]] .

lemma message_range_is_read_witness:
  "\<exists>p. card_ok p \<and> read_n_messages heap_storage p 0 0 5 = (STRG_OK, [create_message 1 True (Some [72])]) \<and>
     read_n_messages heap_storage p 0 1 5 = (STRG_FAIL, [])"
proof -
  have m: "message_wf (create_message 1 True (Some [72]))" by simp
  note c = one_chat_props [OF m]
  from message_range_is_read [OF c(1,2)] show ?thesis
    using c(1) unfolding c(3) by (intro exI [of _ "one_chat (create_message 1 True (Some [72]))"]) simp
qed

text \<open>
  Adding to the message history on a sound card returns, succeeds and puts the entry in front of the
  history; nothing is lost but, when a full ring moves on, the entries of its oldest sector; no
  sector outside the history and the journal changes.
\<close>

theorem message_history_add_prepends:
  assumes "card_ok p" and "history_on message_history_kind p rb" and "message_history_entry_wf e"
  shows "\<exists>rb' p'. message_history_add heap_storage p rb e = Some (STRG_OK, rb', p') \<and> card_ok p' \<and>
    rb_size rb' = rb_size rb \<and> history_on message_history_kind p' rb' \<and>
    history_list message_history_kind (heap_blk (dev p')) rb' =
      e # take (length (history_list message_history_kind (heap_blk (dev p)) rb) -
            (if history_wraps message_history_kind (heap_blk (dev p)) rb then hk_cap message_history_kind else 0))
          (history_list message_history_kind (heap_blk (dev p)) rb) \<and>
    outside_same (history_base message_history_kind) (rb_size rb) (heap_blk (dev p)) (heap_blk (dev p'))"
  unfolding message_history_add_def using msg_hist.add_spec [OF assms] by blast

lemma message_history_add_prepends_witness:
  "\<exists>p rb e rb' p'. message_history_add heap_storage p rb e = Some (STRG_OK, rb', p') \<and>
     history_list message_history_kind (heap_blk (dev p')) rb' = [e]"
proof -
  let ?e = "\<lparr>mh_msgInd = 3, mh_message = create_message 1 True (Some [72])\<rparr>"
  have "message_history_entry_wf ?e" by (simp add: message_history_entry_wf_def)
  from message_history_add_prepends [OF with_cleared_ok(1) with_cleared_ok(2) this] show ?thesis
    unfolding empty_history by fastforce
qed

text \<open>
  Adding to the call history on a sound card returns, succeeds and puts the entry in front of the
  history; nothing is lost but, when a full ring moves on, the entries of its oldest sector; no
  sector outside the history and the journal changes.
\<close>

theorem call_history_add_prepends:
  assumes "card_ok p" and "history_on call_history_kind p rb" and "call_history_entry_wf e"
  shows "\<exists>rb' p'. call_history_add heap_storage p rb e = Some (STRG_OK, rb', p') \<and> card_ok p' \<and>
    rb_size rb' = rb_size rb \<and> history_on call_history_kind p' rb' \<and>
    history_list call_history_kind (heap_blk (dev p')) rb' =
      e # take (length (history_list call_history_kind (heap_blk (dev p)) rb) -
            (if history_wraps call_history_kind (heap_blk (dev p)) rb then hk_cap call_history_kind else 0))
          (history_list call_history_kind (heap_blk (dev p)) rb) \<and>
    outside_same (history_base call_history_kind) (rb_size rb) (heap_blk (dev p)) (heap_blk (dev p'))"
  unfolding call_history_add_def using call_hist.add_spec [OF assms] by blast

lemma call_history_add_prepends_witness:
  "\<exists>p rb e rb' p'. call_history_add heap_storage p rb e = Some (STRG_OK, rb', p') \<and>
     history_list call_history_kind (heap_blk (dev p')) rb' = [e]"
proof -
  let ?e = "\<lparr>ch_contact_index = 3, ch_contact = create_contact [65] [49], ch_padding = 0\<rparr>"
  have "call_history_entry_wf ?e" by (simp add: call_history_entry_wf_def)
  from call_history_add_prepends [OF with_cleared_ok(3) with_cleared_ok(4) this] show ?thesis
    unfolding empty_history by fastforce
qed

text \<open>
  A freshly initialised usage bitmap marks no sector used, and reading the bitmap back from the card
  returns exactly the array that was written, whatever RAM held before.
\<close>

theorem bitmap_survives_restart:
  assumes "heap_ok d" and "DATA_REGION_START_SECTOR \<le> capacity heap_storage d"
    and "init_usage_bitmap heap_storage d = (r, d', bm)"
  shows "r \<and> (\<forall>i < USAGE_BITMAP_TOTAL_BITS. \<not> check_usage_bit bm i) \<and> read_usage_bitmap heap_storage d' stale = (True, bm)"
proof -
  have r: r using heapm.init_usage_bitmap_reliable [OF assms(1,2)] assms(3) by simp
  note st = heapm.init_usage_bitmap_step [OF assms(1,3)]
  then show ?thesis using r heapm.read_synced_bitmap [of d' bm stale] assms(2) by (simp add: check_usage_bit_used)
qed

lemma bitmap_survives_restart_witness:
  "\<exists>d' bm. init_usage_bitmap heap_storage blank_card = (True, d', bm) \<and> read_usage_bitmap heap_storage d' [] = (True, bm)"
proof -
  obtain r d' bm where i: "init_usage_bitmap heap_storage blank_card = (r, d', bm)" by (metis prod_cases3)
  from bitmap_survives_restart [OF blank_card_ok(1) _ i] show ?thesis using i blank_card_ok(2) by (auto simp: layout)
qed

text \<open>
  get_next_bit returns the least used data sector at or after the start, provided it lies in the
  bitmap words up to the limit, and UINT16_MAX when there is none; CRC trailer words are never
  reported.
\<close>

theorem next_used_sector:
  assumes "limInd < USAGE_BITMAP_TOTAL_BITS"
  shows "get_next_bit bm curInd limInd = UINT16_MAX \<and>
      (\<forall>j. used bm j \<and> curInd \<le> j \<longrightarrow> USAGE_BITMAP_FIND_INDEX limInd < USAGE_BITMAP_FIND_INDEX j) \<or>
    used bm (get_next_bit bm curInd limInd) \<and> curInd \<le> get_next_bit bm curInd limInd \<and>
      USAGE_BITMAP_FIND_INDEX (get_next_bit bm curInd limInd) \<le> USAGE_BITMAP_FIND_INDEX limInd \<and>
      (\<forall>j. used bm j \<and> curInd \<le> j \<longrightarrow> get_next_bit bm curInd limInd \<le> j)"
  using get_next_bit_spec [OF assms, of bm curInd] by blast

lemma next_used_sector_witness: "get_next_bit (usage_bitmap formatted) 3 100 = UINT16_MAX"
  using next_used_sector [of 100 "usage_bitmap formatted" 3] by (simp add: formatted_unused layout)

text \<open>
  get_prev_bit returns the greatest used data sector between the two bounds, inclusive, and
  UINT16_MAX exactly when there is none.
\<close>

theorem previous_used_sector:
  assumes "limInd < USAGE_BITMAP_TOTAL_BITS"
  shows "get_prev_bit bm curInd limInd = UINT16_MAX \<and> (\<forall>j. used bm j \<longrightarrow> \<not> (curInd \<le> j \<and> j \<le> limInd)) \<or>
    used bm (get_prev_bit bm curInd limInd) \<and> curInd \<le> get_prev_bit bm curInd limInd \<and>
      get_prev_bit bm curInd limInd \<le> limInd \<and>
      (\<forall>j. used bm j \<and> curInd \<le> j \<and> j \<le> limInd \<longrightarrow> j \<le> get_prev_bit bm curInd limInd)"
  using get_prev_bit_spec [OF assms, of bm curInd] by blast

lemma previous_used_sector_witness: "get_prev_bit (usage_bitmap formatted) 3 100 = UINT16_MAX"
  using previous_used_sector [of 100 "usage_bitmap formatted" 3] by (simp add: formatted_unused layout)

text \<open>
  Driving the usage bitmap iterator forwards from its initial position yields the used data sectors
  in increasing order, each once, and driving it backwards yields them in decreasing order.
\<close>

theorem iterator_visits_used_sectors:
  "collect_next (usage_bitmap_iterator bm) USAGE_BITMAP_TOTAL_BITS
      (usage_bitmap_iterator_init USAGE_BITMAP_TOTAL_BITS USAGE_BITMAP_STORAGE_SIZE) =
     filter (check_usage_bit bm) [0..<USAGE_BITMAP_TOTAL_BITS] \<and>
   collect_prev (usage_bitmap_iterator bm) USAGE_BITMAP_TOTAL_BITS
      (usage_bitmap_iterator_init USAGE_BITMAP_TOTAL_BITS USAGE_BITMAP_STORAGE_SIZE) =
     rev (filter (check_usage_bit bm) [0..<USAGE_BITMAP_TOTAL_BITS])"
proof -
  let ?it = "usage_bitmap_iterator bm"
    and ?ctx = "usage_bitmap_iterator_init USAGE_BITMAP_TOTAL_BITS USAGE_BITMAP_STORAGE_SIZE"
  have c: "iterator_ctx_ok USAGE_BITMAP_TOTAL_BITS ?ctx" "it_get ?it ?ctx = None"
    by (simp_all add: usage_bitmap_iterator_init_def usage_bitmap_iterator_def usage_bitmap_iterator_get_def iterator_ctx_ok_def)
  have l: "length (filter (used bm) [0..<USAGE_BITMAP_TOTAL_BITS]) \<le> USAGE_BITMAP_TOTAL_BITS"
    using length_filter_le [of "used bm" "[0..<USAGE_BITMAP_TOTAL_BITS]"] by simp
  have "filter (check_usage_bit bm) [0..<USAGE_BITMAP_TOTAL_BITS] = filter (used bm) [0..<USAGE_BITMAP_TOTAL_BITS]"
    by (rule filter_cong) (simp_all add: check_usage_bit_used)
  then show ?thesis using bits.visits_all [OF c l] bits.visits_all_backwards [OF c l] by simp
qed

text \<open>
  superheader_init followed by superheader_check reports a good superheader carrying the start and
  end of the data region, and touches no other sector.
\<close>

theorem superheader_round_trip:
  assumes "heap_ok d" and "SUPERHEADER_SECTOR < capacity heap_storage d" and "superheader_init heap_storage d = (r, sh, d')"
  shows "r = STRG_OK \<and> superheader_check heap_storage d' stale = (SUPR_GOOD, sh) \<and>
    sh_db_start sh = DATA_REGION_START_SECTOR \<and>
    sh_db_end sh = DATA_REGION_START_SECTOR + TOTAL_DATABASE_SECTOR_SIZE \<and>
    (\<forall>k. k \<noteq> SUPERHEADER_SECTOR \<longrightarrow> heap_blk d' k = heap_blk d k)"
  using heap.superheader_init_check [OF assms] by (simp add: layout)

lemma superheader_round_trip_witness:
  "\<exists>sh d'. superheader_init heap_storage blank_card = (STRG_OK, sh, d') \<and>
     superheader_check heap_storage d' superheader_zero = (SUPR_GOOD, sh) \<and> sh_db_start sh = 12"
proof -
  obtain r sh d' where i: "superheader_init heap_storage blank_card = (r, sh, d')" by (metis prod_cases3)
  have "SUPERHEADER_SECTOR < capacity heap_storage blank_card" using blank_card_ok(2) by (simp add: layout)
  from superheader_round_trip [OF blank_card_ok(1) this i, of superheader_zero] show ?thesis using i by (simp add: layout)
qed

text \<open>
  Allocation returns UINT16_MAX only when no slot is free; otherwise it returns a slot below the
  capacity that is not in use, the slots in use stay disjoint from the free ones, and freeing the
  slot restores the free set.
\<close>

theorem allocator_hands_out_fresh_slots:
  assumes "free_list_inv fl" and "in_use \<inter> avail fl = {}" and "free_list_allocate fl = (s, fl')"
  shows "s = UINT16_MAX \<and> avail fl = {} \<and> fl' = fl \<or>
    s < fl_capacity fl \<and> s \<notin> in_use \<and> insert s in_use \<inter> avail fl' = {} \<and> free_list_inv fl' \<and>
    free_list_inv (free_list_free fl' s) \<and> avail (free_list_free fl' s) = avail fl"
proof (cases "s = UINT16_MAX")
  case True
  then show ?thesis using fls.alloc_cases [OF assms(1,3)] assms(1) by (auto simp: free_list_inv_def)
next
  case False
  then show ?thesis
    using fls.alloc_not_max [OF assms(1,3) False] fls.alloc_fresh [OF assms(1,3) False assms(2)]
      fls.alloc_dealloc [OF assms(1,3) False] by simp
qed

lemma allocator_hands_out_fresh_slots_witness:
  "\<exists>fl fl'. free_list_init (replicate 3 0) 3 = Some (True, Some fl) \<and> free_list_allocate fl = (2, fl') \<and>
     avail (free_list_free fl' 2) = {..<3}"
proof -
  obtain fl where f: "free_list_init (replicate 3 0) 3 = Some (True, Some fl)" "free_list_inv fl" "avail fl = {..<3}"
    using free_list_init_full [of 3 "replicate 3 0"] by auto
  have fl: "fl = \<lparr>free_stack = [0, 1, 2], stack_top = 3, fl_capacity = 3, used_count = 0\<rparr>"
    using f(1) by (auto simp add: free_list_init_def free_list_fill_total upt_rec numeral_2_eq_2)
  have a: "free_list_allocate fl = (2, fl\<lparr>stack_top := 2, used_count := 1\<rparr>)" by (simp add: fl free_list_allocate_def)
  from allocator_hands_out_fresh_slots [OF f(2) _ a, of "{}"] show ?thesis using f a by auto
qed

text \<open>
  The regions of the card follow each other without overlap, every raw sector of the database fits
  the 16-bit block index, and the usage bitmap has a bit for every contact and message sector.
\<close>

theorem regions_are_disjoint:
  "SUPERHEADER_SECTOR + SUPERHEADER_SECTOR_SIZE \<le> JRNL_HEADER_SECTOR \<and>
   JRNL_HEADER_SECTOR + JRNL_SECTOR_SIZE \<le> USAGE_BITMAP_START_SECTOR \<and>
   USAGE_BITMAP_START_SECTOR + USAGE_BITMAP_SECTOR_SIZE \<le> DATA_SECTOR_TO_RAW 0 \<and>
   CONTACT_DATA_SECTOR (HASH_TABLE_ENTRIES - 1) < MESSAGE_DATA_SECTOR 0 \<and>
   MESSAGE_DATA_SECTOR (TOTAL_MESSAGE_SECTOR_SIZE - 1) < MESSAGE_HIST_DATA_SECTOR 0 \<and>
   MESSAGE_HIST_DATA_SECTOR (TOTAL_MESSAGE_HISTORY_SECTOR_SIZE - 1) < CALL_HIST_DATA_SECTOR 0 \<and>
   DATA_SECTOR_TO_RAW (CALL_HIST_DATA_SECTOR (TOTAL_CALL_HISTORY_SECTOR_SIZE - 1)) < 65536 \<and>
   MESSAGE_DATA_SECTOR (TOTAL_MESSAGE_SECTOR_SIZE - 1) < USAGE_BITMAP_TOTAL_BITS"
  by (simp add: sector_defs layout)

text \<open>
  hash_insert_contact refines insertion into a map from phone numbers to contacts: a number already
  present is reported with its slot and nothing changes, a full contact store is reported and
  nothing changes, and otherwise the contact is added under its number and every other entry is
  kept. The table itself can never be the reason of a failure.
\<close>

theorem phone_book_insert:
  assumes "card_ok p" and "index_sound p t" and "contact_wf c" and "0 \<in> set (c_phone c)"
    and "hash_insert_contact heap_storage p t c = (r, slot, t', p')"
  shows "case slots_of p t (phone_of c) of
      Some i \<Rightarrow> r = STRG_EXISTS \<and> slot = Some i \<and> t' = t \<and> p' = p
    | None \<Rightarrow>
        if ht_num_elems t = HASH_TABLE_ENTRIES then r = STRG_FULL \<and> t' = t \<and> p' = p
        else r = STRG_OK \<and> card_ok p' \<and> index_sound p' t' \<and> book_of p' t' = (book_of p t)(phone_of c \<mapsto> c) \<and>
          (\<exists>e. slot = Some e \<and> slots_of p' t' = (slots_of p t)(phone_of c \<mapsto> e))"
  using heap.insert_contact_sem [OF assms] unfolding index_okD(5) [OF contacts_okD(2) [OF assms(2)]]
  by (cases "slots_of p t (phone_of c)"; cases "length (occupied_slots t) = HASH_TABLE_ENTRIES") auto

lemma phone_book_insert_witness:
  "\<exists>e t p. hash_insert_contact heap_storage formatted empty_index alice = (STRG_OK, Some e, t, p) \<and>
     book_of p t = [[49] \<mapsto> alice]"
proof -
  obtain r slot t p where w: "hash_insert_contact heap_storage formatted empty_index alice = (r, slot, t, p)" by (metis prod_cases4)
  have z: "ht_num_elems empty_index \<noteq> HASH_TABLE_ENTRIES" by (simp add: layout)
  from phone_book_insert [OF formatted_ok formatted_index(1) alice_ok(1,2) w] show ?thesis
    using z w by (auto simp: alice_ok(3))
qed

text \<open>
  hash_find_contact refines lookup in the phone book: it succeeds exactly for the numbers in the
  book and hands out the stored contact.
\<close>

theorem phone_book_lookup:
  assumes "card_ok p" and "index_sound p t"
  shows "hash_find_contact heap_storage p t phone =
    (case book_of p t phone of Some c \<Rightarrow> (True, Some c) | None \<Rightarrow> (False, None))"
  by (rule heap.find_contact_sem [OF assms])

lemma phone_book_lookup_witness:
  "\<exists>t p. hash_find_contact heap_storage p t [49] = (True, Some alice) \<and> hash_find_contact heap_storage p t [50] = (False, None)"
proof -
  obtain t p where a: "card_ok p" "index_sound p t" "book_of p t = [[49] \<mapsto> alice]" by (rule with_alice) blast
  from phone_book_lookup [OF a(1,2)] show ?thesis by (intro exI [of _ t] exI [of _ p]) (simp add: a(3))
qed

text \<open>
  hash_update_contact under a new phone number refines a rename: unknown old numbers and taken new
  numbers are reported and change nothing; otherwise the contact moves to the new number, takes its
  whole chat along, and every other contact and chat is kept.
\<close>

theorem number_change_keeps_chat:
  assumes "card_ok p" and "index_sound p t" and "chats_sound p t" and "contact_wf c" and "0 \<in> set (c_phone c)"
    and "phone_of old \<noteq> phone_of c" and "hash_update_contact heap_storage p t old c = (r, t', p')"
  shows "if book_of p t (phone_of old) = None then r = STRG_EMPTY \<and> t' = t \<and> p' = p
    else if book_of p t (phone_of c) \<noteq> None then r = STRG_EXISTS \<and> t' = t \<and> p' = p
    else r = STRG_OK \<and> card_ok p' \<and> index_sound p' t' \<and> chats_sound p' t' \<and>
      book_of p' t' = (book_of p t)(phone_of old := None, phone_of c \<mapsto> c) \<and>
      chats_of p' t' = (chats_of p t)(phone_of old := None, phone_of c := chats_of p t (phone_of old))"
proof -
  have w: "hash_update_phone heap_storage p t (phone_of old) c = (r, t', p')"
    using assms(6,7) by (simp add: hash_update_contact_def phone_of_def)
  from heap.update_phone_sem [OF assms(1,2,4,5) w] heap.update_phone_messages [OF assms(1-5), of "phone_of old" t' p'] w
  show ?thesis by (auto simp: phone_book_def split: option.splits)
qed

lemma number_change_keeps_chat_witness:
  "\<exists>t p t' p'. hash_update_contact heap_storage p t alice (create_contact [65] [50]) = (STRG_OK, t', p') \<and>
     book_of p' t' = [[50] \<mapsto> create_contact [65] [50]] \<and> chats_of p' t' = [[50] \<mapsto> []]"
proof -
  let ?c = "create_contact [65] [50]"
  obtain t p where a: "card_ok p" "index_sound p t" "chats_sound p t" "book_of p t = [[49] \<mapsto> alice]" "chats_of p t = [[49] \<mapsto> []]"
    by (rule with_alice) blast
  have c: "0 \<in> set (c_phone ?c)" "phone_of ?c = [50]" using create_contact_fields(3) [of "[65]" "[50]"]
    by (simp_all add: phone_of_def layout) (simp add: create_contact_def contact_zero_def pad_to_def layout)
  have ne: "phone_of alice \<noteq> phone_of ?c" by (simp add: c(2) alice_ok(3))
  obtain r t' p' where w: "hash_update_contact heap_storage p t alice ?c = (r, t', p')" by (metis prod_cases3)
  from number_change_keeps_chat [OF a(1,2,3) create_contact_wf c(1) ne w] show ?thesis
    using w unfolding c(2) alice_ok(3) a(4,5) by (intro exI [of _ t] exI [of _ p] exI [of _ t'] exI [of _ p']) simp
qed

text \<open>
  While a message sector is free, hash_insert_message puts the message in front of the chat of its
  number, creating the contact when the number is new (and only then failing when all contact slots
  are taken, with nothing changed); every other contact and chat is kept.
\<close>

theorem chats_grow_in_front:
  assumes "card_ok p" and "index_sound p t" and "chats_sound p t" and "message_wf m"
    and "0 \<notin> set phone" and "length phone < MAX_PHONE_LEN" and "avail (ht_message_allocator t) \<noteq> {}"
    and "hash_insert_message heap_storage p t phone m = (r, t', p')"
  shows "if book_of p t phone = None \<and> ht_num_elems t = HASH_TABLE_ENTRIES then \<not> r \<and> t' = t \<and> p' = p
    else r \<and> card_ok p' \<and> index_sound p' t' \<and> chats_sound p' t' \<and>
      book_of p' t' = (if book_of p t phone = None then (book_of p t)(phone \<mapsto> create_contact [] phone) else book_of p t) \<and>
      chats_of p' t' = (chats_of p t)(phone \<mapsto> m # (case chats_of p t phone of None \<Rightarrow> [] | Some ms \<Rightarrow> ms))"
  using heap.hash_insert_message_sem [OF assms] index_okD(5) [OF contacts_okD(2) [OF assms(2)]]
  by (simp add: phone_book_def)

lemma chats_grow_in_front_witness:
  "\<exists>t p. hash_insert_message heap_storage formatted empty_index [49] (create_message 1 True (Some [72])) = (True, t, p) \<and>
     chats_of p t = [[49] \<mapsto> [create_message 1 True (Some [72])]]"
proof -
  let ?m = "create_message 1 True (Some [72])"
  obtain r t p where w: "hash_insert_message heap_storage formatted empty_index [49] ?m = (r, t, p)" by (metis prod_cases3)
  have m: "message_wf ?m" by simp
  have ph: "0 \<notin> set [49 :: byte]" "length [49 :: byte] < MAX_PHONE_LEN" by (simp_all add: layout)
  have av: "avail (ht_message_allocator empty_index) \<noteq> {}" using avail_messages by simp
  have z: "ht_num_elems empty_index \<noteq> HASH_TABLE_ENTRIES" by (simp add: layout)
  from chats_grow_in_front [OF formatted_ok formatted_index m ph av w] show ?thesis using z w by auto
qed

text \<open>
  hash_find_n_message returns the requested range of the chat of a number, newest message first,
  with its length; and -1 when the number is unknown or the start lies behind the oldest message.
\<close>

theorem chat_range_by_number:
  assumes "card_ok p" and "index_sound p t" and "chats_sound p t" and "n > 0"
  shows "hash_find_n_message heap_storage p t phone start n =
    (case chats_of p t phone of
       None \<Rightarrow> (-1, [])
     | Some ms \<Rightarrow> if start < length ms then (int (length (take n (drop start ms))), take n (drop start ms)) else (-1, []))"
  by (rule heap.find_n_message_sem [OF assms])

lemma chat_range_by_number_witness:
  "\<exists>t p. hash_find_n_message heap_storage p t [49] 0 5 = (1, [create_message 1 True (Some [72])]) \<and>
     hash_find_n_message heap_storage p t [50] 0 5 = (-1, [])"
proof -
  have m: "message_wf (create_message 1 True (Some [72]))" by simp
  obtain t p where a: "card_ok p" "index_sound p t" "chats_sound p t" "chats_of p t = [[49] \<mapsto> [create_message 1 True (Some [72])]]"
    by (rule with_message [OF m]) blast
  have n: "(5 :: nat) > 0" by simp
  from chat_range_by_number [OF a(1-3) n] show ?thesis by (intro exI [of _ t] exI [of _ p]) (simp add: a(4))
qed

text \<open>
  hash_get_contact_list returns, and its result is the requested range of the contacts in slot
  order; over the whole table that lists every contact of the phone book, each of them once.
\<close>

theorem contact_list_is_a_range:
  assumes "card_ok p" and "index_sound p t"
  shows "\<exists>cs. distinct cs \<and> set cs = ran (book_of p t) \<and> length cs = ht_num_elems t \<and>
    (\<forall>start n. hash_get_contact_list heap_storage p t start n =
      (if start < 0 \<or> n < 0 then Some (STRG_FAIL, []) else Some (STRG_OK, take (nat n) (drop (nat start) cs))))"
  using hash_get_contact_list_sem [OF contacts_okD(2) [OF assms(2)] heap.contacts_read_as [OF assms(1) contacts_okD(1) [OF assms(2)]]]
    listed_contacts [OF contacts_okD(2) [OF assms(2)]] index_okD(5) [OF contacts_okD(2) [OF assms(2)]]
  by (intro exI [of _ "map (slot_contact (contacts_of p) t) (occupied_slots t)"]) simp

lemma contact_list_is_a_range_witness:
  "\<exists>t p. hash_get_contact_list heap_storage p t 0 10 = Some (STRG_OK, [alice])"
proof -
  obtain t p where a: "card_ok p" "index_sound p t" "book_of p t = [[49] \<mapsto> alice]" by (rule with_alice) blast
  obtain cs where cs: "distinct cs" "set cs = ran (book_of p t)"
      "\<forall>start n. hash_get_contact_list heap_storage p t start n =
        (if start < 0 \<or> n < 0 then Some (STRG_FAIL, []) else Some (STRG_OK, take (nat n) (drop (nat start) cs)))"
    using contact_list_is_a_range [OF a(1,2)] by blast
  have "set cs = {alice}" using cs(2) by (simp add: a(3))
  moreover from this have "length cs = 1" using distinct_card [OF cs(1)] by simp
  ultimately have "cs = [alice]" by (cases cs) auto
  then show ?thesis using cs(3) by (intro exI [of _ t] exI [of _ p]) simp
qed

text \<open>
  On the SD driver: power is lost at any write of database_contact_add and the device starts again
  on the card. The start succeeds and the directory, but for the order of the recent chats, is the
  one before the call or, always when the call had reported success, the one the call specifies.
\<close>

theorem sd_power_loss_survived:
  assumes "sd_card H good sec" and "sd_sound H good sec db" and "0 \<notin> set name" and "0 \<notin> set phone" and "arrays_ok ram"
    and "database_contact_add (power_cut (sd_storage H)) (cut_db n db) name phone = (r, db')"
  shows "\<exists>db2. database_init (sd_storage H) (Some (card (dev (db_pers db')))) sh latest ram = Some (STRG_OK, db2) \<and>
    sd_sound H good sec db2 \<and>
    (r \<noteq> STRG_OK \<and> dir_restarted (db_dir (sd_blk sec) db) (db_dir (sd_blk sec) db2) \<or>
     dir_restarted (snd (dir_contact_add name phone (db_dir (sd_blk sec) db))) (db_dir (sd_blk sec) db2))"
  using database_store.contact_add_crash [OF sd_database_store [OF assms(1)] _ assms(3-6)] assms(2) by simp

lemma sd_power_loss_survived_witness:
  "\<exists>db r db' db2. start_sd memory_hal zero_card superheader_zero (create_message 0 False None) sd_ram = Some (STRG_OK, db) \<and>
     database_contact_add (power_cut (sd_storage memory_hal)) (cut_db 4 db) [65] [49] = (r, db') \<and>
     database_init (sd_storage memory_hal) (Some (card (dev (db_pers db')))) superheader_zero (create_message 0 False None) sd_ram =
       Some (STRG_OK, db2)"
proof -
  obtain db where db: "start_sd memory_hal zero_card superheader_zero (create_message 0 False None) sd_ram = Some (STRG_OK, db)"
    "sd_sound memory_hal formatted_card id db"
    using sd_first_start [OF memory_card zero_card_ok(1) sd_ram_ok zero_card_ok(2,3), OF zero_card_ok(4)] by blast
  obtain r db' where run: "database_contact_add (power_cut (sd_storage memory_hal)) (cut_db 4 db) [65] [49] = (r, db')" by (meson surj_pair)
  have z: "0 \<notin> set [65 :: byte]" "0 \<notin> set [49 :: byte]" by simp_all
  from sd_power_loss_survived [OF memory_card db(2) z sd_ram_ok run] db(1) run show ?thesis by blast
qed

text \<open>
  message_history_get_range returns exactly the requested range of the history, newest first, across
  sector borders and the wrap of the ring: take n (drop start) of its entries; nothing for an empty
  history, and STRG_FAIL when the start lies behind the oldest entry.
\<close>

theorem history_range_is_read:
  assumes "card_ok p" and "history_on message_history_kind p rb" and "start < 2 ^ 32 - 1"
  shows "message_history_get_range heap_storage (dev p) rb start n =
    (if rb_occupancy rb = 0 then (STRG_OK, [])
     else if start < length (history_list message_history_kind (heap_blk (dev p)) rb)
     then (STRG_OK, take n (drop start (history_list message_history_kind (heap_blk (dev p)) rb))) else (STRG_FAIL, []))"
proof -
  have "(start - 1) div hk_cap message_history_kind < 2147483647" using assms(3) by (simp add: message_history_kind_def layout)
  then show ?thesis
    using msg_hist.range_spec [OF heap.pers_okD(1) [OF assms(1)] assms(2)] by (simp add: message_history_get_range_def)
qed

lemma history_range_is_read_witness:
  "\<exists>p rb e. card_ok p \<and> message_history_get_range heap_storage (dev p) rb 0 5 = (STRG_OK, [e]) \<and>
     message_history_get_range heap_storage (dev p) rb 1 5 = (STRG_FAIL, [])"
proof -
  let ?e = "\<lparr>mh_msgInd = 3, mh_message = create_message 1 True (Some [72])\<rparr>"
  have "message_history_entry_wf ?e" by (simp add: message_history_entry_wf_def)
  from msg_hist.add_spec [OF with_cleared_ok(1,2) this] obtain rb p where
    a: "card_ok p" "history_on message_history_kind p rb" "history_list message_history_kind (heap_blk (dev p)) rb = [?e]"
    unfolding empty_history by auto
  have "rb_occupancy rb \<noteq> 0" using a(3) by (intro notI) (simp add: history_list_def ring_list_def)
  then show ?thesis using history_range_is_read [OF a(1,2)] a(1,3) by (intro exI [of _ p] exI [of _ rb] exI [of _ ?e]) simp
qed

text \<open>
  Where size_t has 64 bits, a start 2^32 sectors behind one that lies in an older sector of a log is
  narrowed to the same number of sectors: the entries of that older sector are returned instead of
  STRG_FAIL.
\<close>

theorem history_start_narrowed:
  assumes "card_ok p" and "history_on call_history_kind p rb" and "start < 2 ^ 32 - 1"
    and "rh_head (hs_header (history_sec call_history_kind (heap_blk (dev p)) (rb_current_index rb))) < start"
    and "start < length (history_list call_history_kind (heap_blk (dev p)) rb)"
  shows "call_history_get_range heap_storage (dev p) rb (start + CALL_HISTORY_SECTOR_CAPACITY * 2 ^ 32) n =
    (STRG_OK, take n (drop start (history_list call_history_kind (heap_blk (dev p)) rb)))"
proof -
  have c: "(start - 1) div hk_cap call_history_kind < 2147483647" "hk_cap call_history_kind = CALL_HISTORY_SECTOR_CAPACITY"
    using assms(3) by (simp_all add: call_history_kind_def layout)
  have "history_list call_history_kind (heap_blk (dev p)) rb \<noteq> []" using assms(5) by auto
  then have "rb_occupancy rb \<noteq> 0" using call_hist.list_empty [OF heap.pers_okD(1) [OF assms(1)] assms(2)] by simp
  then show ?thesis
    using call_hist.range_spec [OF heap.pers_okD(1) [OF assms(1)] assms(2) c(1), of n] assms(5)
      call_hist.range_narrowed [OF heap.pers_okD(1) [OF assms(1)] assms(2,4), of n]
    unfolding c(2) call_history_get_range_def by (simp only: if_False if_True)
qed

lemma history_start_narrowed_witness:
  "\<exists>p rb e. card_ok p \<and> length (history_list call_history_kind (heap_blk (dev p)) rb) = 6 \<and>
     call_history_get_range heap_storage (dev p) rb (1 + CALL_HISTORY_SECTOR_CAPACITY * 2 ^ 32) 1 = (STRG_OK, [e])"
proof -
  have e: "call_history_entry_wf \<lparr>ch_contact_index = 3, ch_contact = create_contact [65] [49], ch_padding = 0\<rparr>"
    by (simp add: call_history_entry_wf_def)
  obtain p rb where a: "card_ok p" "history_on call_history_kind p rb" "length (history_list call_history_kind (heap_blk (dev p)) rb) = 6"
    using some_call_history [OF e, of 6] by auto
  have "history_list call_history_kind (heap_blk (dev p)) rb \<noteq> []" using a(3) by auto
  then have o: "rb_occupancy rb \<noteq> 0" using call_hist.list_empty [OF heap.pers_okD(1) [OF a(1)] a(2)] by simp
  have cap: "hk_cap call_history_kind = 5" by (simp add: call_history_kind_def layout)
  have "rh_head (hs_header (history_sec call_history_kind (heap_blk (dev p)) (rb_current_index rb))) < 1"
    using call_hist.list_length [OF heap.pers_okD(1) [OF a(1)] a(2) o] a(3) unfolding cap by presburger
  from history_start_narrowed [OF a(1,2) _ this, of 1] a(3)
  have r: "call_history_get_range heap_storage (dev p) rb (1 + CALL_HISTORY_SECTOR_CAPACITY * 2 ^ 32) 1 =
      (STRG_OK, take 1 (drop 1 (history_list call_history_kind (heap_blk (dev p)) rb)))" by simp
  have "take 1 (drop 1 L) = [L ! 1]" if "length L = 6" for L :: "CallHistoryEntry list"
    using that by (cases L; cases "tl L") auto
  from r [unfolded this [OF a(3)]] a(1,3) show ?thesis by blast
qed

end
